(* ===== verification/Prelude.thy ===== *)
theory Prelude
  imports Main "HOL-Library.Word" "HOL-Library.Monad_Syntax"
begin

unbundle bit_operations_syntax

text \<open>
  Shared vocabulary of the development: the machine types of
  \<^verbatim>\<open>rt-thread/include/rtdef.h\<close> (32-bit Cortex-M4 port: \<^verbatim>\<open>rt_ubase_t\<close> and
  \<^verbatim>\<open>rt_size_t\<close> are 32 bits wide), the kernel error numbers, the alignment macros,
  \<^verbatim>\<open>memcpy\<close> into a bounded byte buffer, generic lemmas on lists and words, and the
  interface of a bounded first-in first-out queue that several components implement.

  Conventions. A function of the model returns an \<open>option\<close> when the code can stop in an
  \<^verbatim>\<open>RT_ASSERT\<close> or would use memory it does not own: \<open>None\<close> stands for that, and a
  theorem that the result is \<open>Some\<close> shows that neither happens. Error returns of the
  code are ordinary results (a negative \<^verbatim>\<open>rt_err_t\<close>).
\<close>

section \<open>Machine types and error numbers\<close>

type_synonym u8 = "8 word"
type_synonym u16 = "16 word"
type_synonym u32 = "32 word"

text \<open>\<^verbatim>\<open>rt_err_t\<close> is a signed long; the kernel returns the negated error numbers.\<close>

type_synonym rt_err = int

definition RT_EOK :: rt_err where "RT_EOK = 0"
definition RT_ERROR :: rt_err where "RT_ERROR = 1"
definition RT_ETIMEOUT :: rt_err where "RT_ETIMEOUT = 2"
definition RT_EFULL :: rt_err where "RT_EFULL = 3"
definition RT_EEMPTY :: rt_err where "RT_EEMPTY = 4"
definition RT_ENOMEM :: rt_err where "RT_ENOMEM = 5"
definition RT_EINTR :: rt_err where "RT_EINTR = 9"

named_theorems rt_err_simps

lemmas rt_err_defs [rt_err_simps] =
  RT_EOK_def RT_ERROR_def RT_ETIMEOUT_def RT_EFULL_def RT_EEMPTY_def RT_ENOMEM_def RT_EINTR_def

section \<open>Alignment\<close>

text \<open>
  \<^verbatim>\<open>RT_ALIGN(size, align)\<close> and \<^verbatim>\<open>RT_ALIGN_DOWN(size, align)\<close> of rtdef.h on 32-bit
  values, with the wrap-around of \<^verbatim>\<open>size + align - 1\<close>.
\<close>

definition RT_ALIGN :: "u32 \<Rightarrow> u32 \<Rightarrow> u32" where
  "RT_ALIGN sz al = (sz + al - 1) AND NOT (al - 1)"

definition RT_ALIGN_DOWN :: "u32 \<Rightarrow> u32 \<Rightarrow> u32" where
  "RT_ALIGN_DOWN sz al = sz AND NOT (al - 1)"

text \<open>\<^verbatim>\<open>RT_ALIGN_SIZE\<close> of rtconfig.h.\<close>

definition RT_ALIGN_SIZE :: u32 where "RT_ALIGN_SIZE = 4"

lemma unat_and_3: "unat ((x :: u32) AND 3) = unat x mod 4"
proof -
  have "x AND 3 = take_bit 2 x"
    by (simp add: take_bit_eq_mask mask_eq_exp_minus_1)
  then have "unat (x AND 3) = take_bit 2 (unat x)"
    by (simp only: unsigned_take_bit_eq)
  then show ?thesis
    by (simp add: take_bit_eq_mod)
qed

lemma and_not_3: "(x :: u32) AND NOT 3 = x - (x AND 3)"
proof -
  have "(x AND NOT 3) + (x AND 3) = (x AND NOT 3) OR (x AND 3)"
    by (rule disjunctive_add_eq_or) (rule bit_word_eqI, auto simp: bit_simps)
  also have "\<dots> = x"
    by (rule bit_word_eqI) (auto simp: bit_simps)
  finally show ?thesis by (simp add: algebra_simps)
qed

lemma unat_align_down: "unat (RT_ALIGN_DOWN x RT_ALIGN_SIZE) = unat x - unat x mod 4"
proof -
  have le: "(x AND 3) \<le> x"
    by (simp add: word_le_nat_alt unat_and_3)
  have "RT_ALIGN_DOWN x RT_ALIGN_SIZE = x - (x AND 3)"
    using and_not_3 [of x] by (simp add: RT_ALIGN_DOWN_def RT_ALIGN_SIZE_def)
  then show ?thesis
    using le by (simp add: unat_sub unat_and_3)
qed

text \<open>Without overflow, \<^verbatim>\<open>RT_ALIGN\<close> is the least multiple of 4 not below the size.\<close>

lemma unat_align:
  assumes "unat x + 3 < 2 ^ 32"
  shows "unat (RT_ALIGN x RT_ALIGN_SIZE) = (unat x + 3) div 4 * 4"
proof -
  have u: "unat (x + 3) = unat x + 3"
    using assms by (simp add: unat_word_ariths)
  have "RT_ALIGN x RT_ALIGN_SIZE = RT_ALIGN_DOWN (x + 3) RT_ALIGN_SIZE"
    by (simp add: RT_ALIGN_def RT_ALIGN_DOWN_def RT_ALIGN_SIZE_def add.commute)
  then have "unat (RT_ALIGN x RT_ALIGN_SIZE) = unat x + 3 - (unat x + 3) mod 4"
    by (simp add: unat_align_down u)
  then show ?thesis by (simp add: minus_mod_eq_div_mult)
qed

section \<open>Assertions\<close>

text \<open>\<^verbatim>\<open>RT_ASSERT\<close>: execution stops when the condition is false.\<close>

definition rt_assert :: "bool \<Rightarrow> unit option" where
  "rt_assert b = (if b then Some () else None)"

lemma rt_assert_simps [simp]:
  "rt_assert True = Some ()" "rt_assert False = None"
  "rt_assert b = Some u \<longleftrightarrow> b" "rt_assert b = None \<longleftrightarrow> \<not> b"
  by (simp_all add: rt_assert_def)

section \<open>Bounded byte buffers\<close>

text \<open>
  \<^verbatim>\<open>memcpy(&buf[off], src, n)\<close> where \<open>data\<close> are the \<open>n\<close> source bytes: \<open>None\<close> when the
  copy would run past the end of the buffer. \<open>memread\<close> is the converse, the bytes
  \<^verbatim>\<open>memcpy(dst, &buf[off], n)\<close> delivers.
\<close>

definition memcpy_at :: "'a list \<Rightarrow> nat \<Rightarrow> 'a list \<Rightarrow> 'a list option" where
  "memcpy_at buf off data =
     (if off + length data \<le> length buf
      then Some (take off buf @ data @ drop (off + length data) buf) else None)"

definition memread :: "'a list \<Rightarrow> nat \<Rightarrow> nat \<Rightarrow> 'a list option" where
  "memread buf off n = (if off + n \<le> length buf then Some (take n (drop off buf)) else None)"

text \<open>An array cell, read and written; \<open>None\<close> out of range.\<close>

definition array_get :: "'a list \<Rightarrow> nat \<Rightarrow> 'a option" where
  "array_get xs i = (if i < length xs then Some (xs ! i) else None)"

definition array_set :: "'a list \<Rightarrow> nat \<Rightarrow> 'a \<Rightarrow> 'a list option" where
  "array_set xs i x = (if i < length xs then Some (xs[i := x]) else None)"

lemma memcpy_at_Some_iff:
  "memcpy_at buf off data = Some b \<longleftrightarrow>
     off + length data \<le> length buf \<and> b = take off buf @ data @ drop (off + length data) buf"
  by (auto simp: memcpy_at_def)

lemma memcpy_at_length: "memcpy_at buf off data = Some b \<Longrightarrow> length b = length buf"
  by (auto simp: memcpy_at_def split: if_splits)

lemma memcpy_at_nth:
  assumes "memcpy_at buf off data = Some b" and "i < length buf"
  shows "b ! i = (if off \<le> i \<and> i < off + length data then data ! (i - off) else buf ! i)"
  using assms by (auto simp: memcpy_at_def nth_append min_def split: if_splits)

lemma memread_Some: "off + n \<le> length buf \<Longrightarrow> memread buf off n = Some (take n (drop off buf))"
  by (simp add: memread_def)

section \<open>Positions of a ring\<close>

text \<open>
  Every ring in the code adds an offset of at most one turn to an index below the ring's
  size, so its modulo is one conditional subtraction.
\<close>

lemma mod_one_turn: "a < 2 * N \<Longrightarrow> a mod N = (if a < N then a else a - N)" for a N :: nat
  by (simp add: mod_if)

text \<open>\<open>ring_read buf N r n\<close>: the \<open>n\<close> elements from position \<open>r\<close> on, in a ring of \<open>N\<close> cells.\<close>

definition ring_read :: "'a list \<Rightarrow> nat \<Rightarrow> nat \<Rightarrow> nat \<Rightarrow> 'a list" where
  "ring_read buf N r n = map (\<lambda>i. buf ! ((r + i) mod N)) [0..<n]"

lemma length_ring_read [simp]: "length (ring_read buf N r n) = n"
  by (simp add: ring_read_def)

lemma ring_read_0 [simp]: "ring_read buf N r 0 = []"
  by (simp add: ring_read_def)

lemma nth_ring_read: "i < n \<Longrightarrow> ring_read buf N r n ! i = buf ! ((r + i) mod N)"
  by (simp add: ring_read_def)

lemma take_ring_read: "k \<le> n \<Longrightarrow> take k (ring_read buf N r n) = ring_read buf N r k"
  by (simp add: ring_read_def take_map)

lemma ring_read_mod: "ring_read buf N (r mod N) n = ring_read buf N r n"
  by (simp add: ring_read_def mod_add_left_eq)

lemma drop_ring_read: "k \<le> n \<Longrightarrow> drop k (ring_read buf N r n) = ring_read buf N (r + k) (n - k)"
  by (rule nth_equalityI) (simp_all add: nth_ring_read add.assoc)

text \<open>Writing \<open>data\<close> behind the \<open>m\<close> elements of a ring appends it.\<close>

lemma ring_read_append:
  assumes keep: "\<And>i. i < m \<Longrightarrow> b' ! ((r + i) mod N) = b ! ((r + i) mod N)"
    and new: "\<And>j. j < length data \<Longrightarrow> b' ! ((r + m + j) mod N) = data ! j"
  shows "ring_read b' N r (m + length data) = ring_read b N r m @ data"
proof (rule nth_equalityI)
  show "length (ring_read b' N r (m + length data)) = length (ring_read b N r m @ data)"
    by simp
  fix i assume "i < length (ring_read b' N r (m + length data))"
  then have i: "i < m + length data" by simp
  show "ring_read b' N r (m + length data) ! i = (ring_read b N r m @ data) ! i"
  proof (cases "i < m")
    case True
    then show ?thesis using keep [of i] i by (simp add: nth_ring_read nth_append)
  next
    case False
    then show ?thesis using new [of "i - m"] i
      by (simp add: nth_ring_read nth_append)
  qed
qed

section \<open>A bounded first-in first-out queue\<close>

text \<open>
  The contract the byte ring buffer and the mailbox share. A call returns whether the element was
  accepted, or the element that was got, if any, and always the new state; \<open>None\<close> is a call that fails.
  \<open>enq\<close> refuses exactly when the queue holds \<open>cap\<close> elements, \<open>deq\<close> finds nothing exactly when it is empty,
  the elements come out in the order they went in, and a call that is refused leaves the content as it was.
\<close>

locale bounded_fifo =
  fixes inv :: "'s \<Rightarrow> bool"
    and content :: "'s \<Rightarrow> 'a list"
    and cap :: "'s \<Rightarrow> nat"
    and enq :: "'a \<Rightarrow> 's \<Rightarrow> (bool \<times> 's) option"
    and deq :: "'s \<Rightarrow> ('a option \<times> 's) option"
  assumes content_bound: "inv s \<Longrightarrow> length (content s) \<le> cap s"
    and enq_full: "inv s \<Longrightarrow> length (content s) = cap s \<Longrightarrow>
      \<exists>s'. enq x s = Some (False, s') \<and> inv s' \<and> content s' = content s \<and> cap s' = cap s"
    and enq_space: "inv s \<Longrightarrow> length (content s) < cap s \<Longrightarrow>
      \<exists>s'. enq x s = Some (True, s') \<and> inv s' \<and> content s' = content s @ [x] \<and> cap s' = cap s"
    and deq_empty: "inv s \<Longrightarrow> content s = [] \<Longrightarrow>
      \<exists>s'. deq s = Some (None, s') \<and> inv s' \<and> content s' = [] \<and> cap s' = cap s"
    and deq_cons: "inv s \<Longrightarrow> content s = x # xs \<Longrightarrow>
      \<exists>s'. deq s = Some (Some x, s') \<and> inv s' \<and> content s' = xs \<and> cap s' = cap s"

text \<open>
  A client's script: each step puts one element or gets one. \<open>fifo_run\<close> runs the script on any
  implementation and collects the answers, \<open>list_enq\<close> and \<open>list_deq\<close> are the abstract queue.
\<close>

datatype 'a fifo_op = Put 'a | Get

datatype 'a fifo_ans = Accepted | Refused | Got 'a | Nothing

fun fifo_run :: "('a \<Rightarrow> 's \<Rightarrow> (bool \<times> 's) option) \<Rightarrow> ('s \<Rightarrow> ('a option \<times> 's) option) \<Rightarrow> 'a fifo_op list \<Rightarrow> 's \<Rightarrow>
    ('a fifo_ans list \<times> 's) option" where
  "fifo_run enq deq [] s = Some ([], s)"
| "fifo_run enq deq (Put x # ops) s = do {
     (b, s') \<leftarrow> enq x s;
     (as, t) \<leftarrow> fifo_run enq deq ops s';
     Some ((if b then Accepted else Refused) # as, t)
   }"
| "fifo_run enq deq (Get # ops) s = do {
     (r, s') \<leftarrow> deq s;
     (as, t) \<leftarrow> fifo_run enq deq ops s';
     Some ((case r of None \<Rightarrow> Nothing | Some x \<Rightarrow> Got x) # as, t)
   }"

definition list_enq :: "nat \<Rightarrow> 'a \<Rightarrow> 'a list \<Rightarrow> (bool \<times> 'a list) option" where
  "list_enq n x xs = Some (if length xs < n then (True, xs @ [x]) else (False, xs))"

fun list_deq :: "'a list \<Rightarrow> ('a option \<times> 'a list) option" where
  "list_deq [] = Some (None, [])"
| "list_deq (x # xs) = Some (Some x, xs)"

context bounded_fifo
begin

text \<open>No call of a script fails, every script gets the answers the abstract queue gives, and ends in its
  content.\<close>

lemma run_refines_list:
  assumes "inv s"
  shows "\<exists>as t. fifo_run enq deq ops s = Some (as, t) \<and>
    fifo_run (list_enq (cap s)) list_deq ops (content s) = Some (as, content t) \<and> inv t \<and> cap t = cap s"
  using assms
proof (induction ops arbitrary: s)
  case Nil
  then show ?case by simp
next
  case (Cons opn ops)
  show ?case
  proof (cases opn)
    case (Put x)
    obtain s' where s': "enq x s = Some (length (content s) < cap s, s')" "inv s'" "cap s' = cap s"
      "list_enq (cap s) x (content s) = Some (length (content s) < cap s, content s')"
    proof (cases "length (content s) < cap s")
      case True
      then show ?thesis using enq_space [OF Cons.prems, of x] that by (auto simp: list_enq_def)
    next
      case False
      then have "length (content s) = cap s" using content_bound [OF Cons.prems] by simp
      then show ?thesis using enq_full [OF Cons.prems, of x] that by (auto simp: list_enq_def)
    qed
    then show ?thesis using Cons.IH [OF s'(2)] Put by auto
  next
    case Get
    obtain r s' where s': "deq s = Some (r, s')" "inv s'" "cap s' = cap s"
      "list_deq (content s) = Some (r, content s')"
    proof (cases "content s")
      case Nil
      then show ?thesis using deq_empty [OF Cons.prems] that by auto
    next
      case (Cons x xs)
      then show ?thesis using deq_cons [OF \<open>inv s\<close>] that by auto
    qed
    then show ?thesis using Cons.IH [OF s'(2)] Get by auto
  qed
qed

end

end
