(* ===== verification/Ringbuffer.thy ===== *)
theory Ringbuffer
  imports Prelude
begin

text \<open>
  The byte ring buffer of the device drivers,
  \<^verbatim>\<open>rt-thread/components/drivers/src/ringbuffer.c\<close> and its header. The read and write
  positions are 15-bit indices with a mirror bit each: equal indices mean an empty buffer
  in the same mirror and a full one in different mirrors.

  The model keeps the pool as a byte list, the indices as \<open>nat\<close> with the assignment to
  the 15-bit field written out, the mirror bits as \<open>bool\<close> (\<^verbatim>\<open>~\<close> on a 1-bit field), and
  computes the sizes in \<open>int\<close>, as C does after promotion, before converting them to the
  16-bit or 32-bit unsigned variable they are stored in. \<open>None\<close> means a copy outside the
  pool or the caller's buffer, or a failed \<^verbatim>\<open>RT_ASSERT\<close>.
\<close>

section \<open>State and operations\<close>

record ringbuffer =
  buffer_ptr :: "u8 list"
  read_mirror :: bool
  read_index :: nat
  write_mirror :: bool
  write_index :: nat
  buffer_size :: nat

datatype ringbuffer_state = RT_RINGBUFFER_EMPTY | RT_RINGBUFFER_FULL | RT_RINGBUFFER_HALFFULL

text \<open>Conversions to \<^verbatim>\<open>rt_size_t\<close>, \<^verbatim>\<open>rt_uint16_t\<close> and the 15-bit index fields.\<close>

definition to_size :: "int \<Rightarrow> nat" where "to_size i = nat (i mod 2 ^ 32)"
definition to_u16 :: "int \<Rightarrow> nat" where "to_u16 i = nat (i mod 2 ^ 16)"
definition to_idx :: "int \<Rightarrow> nat" where "to_idx i = nat (i mod 2 ^ 15)"

definition rt_ringbuffer_status :: "ringbuffer \<Rightarrow> ringbuffer_state" where
  "rt_ringbuffer_status rb =
     (if read_index rb = write_index rb
      then if read_mirror rb = write_mirror rb then RT_RINGBUFFER_EMPTY else RT_RINGBUFFER_FULL
      else RT_RINGBUFFER_HALFFULL)"

definition rt_ringbuffer_init :: "u8 list \<Rightarrow> int \<Rightarrow> ringbuffer option" where
  "rt_ringbuffer_init pool sz =
     (if sz > 0
      then Some \<lparr>buffer_ptr = pool, read_mirror = False, read_index = 0,
                 write_mirror = False, write_index = 0,
                 buffer_size = unat (RT_ALIGN_DOWN (word_of_int sz) RT_ALIGN_SIZE)\<rparr>
      else None)"

definition rt_ringbuffer_data_len :: "ringbuffer \<Rightarrow> nat" where
  "rt_ringbuffer_data_len rb =
     (case rt_ringbuffer_status rb of
        RT_RINGBUFFER_EMPTY \<Rightarrow> 0
      | RT_RINGBUFFER_FULL \<Rightarrow> buffer_size rb
      | RT_RINGBUFFER_HALFFULL \<Rightarrow>
          if write_index rb > read_index rb
          then to_size (int (write_index rb) - int (read_index rb))
          else to_size (int (buffer_size rb) - (int (read_index rb) - int (write_index rb))))"

text \<open>The macro \<^verbatim>\<open>rt_ringbuffer_space_len\<close>: an \<^verbatim>\<open>rt_size_t\<close>, as \<^verbatim>\<open>rt_ringbuffer_data_len\<close> is.\<close>

definition rt_ringbuffer_space_len :: "ringbuffer \<Rightarrow> nat" where
  "rt_ringbuffer_space_len rb = to_size (int (buffer_size rb) - int (rt_ringbuffer_data_len rb))"

definition rt_ringbuffer_get_size :: "ringbuffer \<Rightarrow> nat" where
  "rt_ringbuffer_get_size rb = to_u16 (int (buffer_size rb))"

definition rt_ringbuffer_put :: "ringbuffer \<Rightarrow> u8 list \<Rightarrow> nat \<Rightarrow> (nat \<times> ringbuffer) option" where
  "rt_ringbuffer_put rb ptr len0 =
     (let size = to_u16 (int (rt_ringbuffer_space_len rb)) in
      if size = 0 then Some (0, rb)
      else
        let len = (if size < len0 then size else len0);
            room = int (buffer_size rb) - int (write_index rb) in
        if room > int len
        then do {
          d \<leftarrow> memread ptr 0 len;
          buf \<leftarrow> memcpy_at (buffer_ptr rb) (write_index rb) d;
          Some (len, rb\<lparr>buffer_ptr := buf, write_index := to_idx (int (write_index rb) + int len)\<rparr>)
        }
        else do {
          d1 \<leftarrow> memread ptr 0 (nat room);
          buf1 \<leftarrow> memcpy_at (buffer_ptr rb) (write_index rb) d1;
          d2 \<leftarrow> memread ptr (nat room) (nat (int len - room));
          buf2 \<leftarrow> memcpy_at buf1 0 d2;
          Some (len, rb\<lparr>buffer_ptr := buf2, write_mirror := \<not> write_mirror rb,
                       write_index := to_idx (int len - room)\<rparr>)
        })"

definition rt_ringbuffer_put_force :: "ringbuffer \<Rightarrow> u8 list \<Rightarrow> nat \<Rightarrow> (nat \<times> ringbuffer) option"
  where
  "rt_ringbuffer_put_force rb ptr0 len0 =
     (let space_length = to_u16 (int (rt_ringbuffer_space_len rb));
          ptr = (if len0 > buffer_size rb then drop (len0 - buffer_size rb) ptr0 else ptr0);
          len = (if len0 > buffer_size rb then buffer_size rb else len0);
          room = int (buffer_size rb) - int (write_index rb) in
      if room > int len
      then do {
        d \<leftarrow> memread ptr 0 len;
        buf \<leftarrow> memcpy_at (buffer_ptr rb) (write_index rb) d;
        let rb1 = rb\<lparr>buffer_ptr := buf, write_index := to_idx (int (write_index rb) + int len)\<rparr>;
        Some (len, if len > space_length then rb1\<lparr>read_index := write_index rb1\<rparr> else rb1)
      }
      else do {
        d1 \<leftarrow> memread ptr 0 (nat room);
        buf1 \<leftarrow> memcpy_at (buffer_ptr rb) (write_index rb) d1;
        d2 \<leftarrow> memread ptr (nat room) (nat (int len - room));
        buf2 \<leftarrow> memcpy_at buf1 0 d2;
        let rb1 = rb\<lparr>buffer_ptr := buf2, write_mirror := \<not> write_mirror rb,
                     write_index := to_idx (int len - room)\<rparr>;
        Some (len, if len > space_length
                   then rb1\<lparr>read_mirror := \<not> read_mirror rb1, read_index := write_index rb1\<rparr>
                   else rb1)
      })"

text \<open>\<^verbatim>\<open>rt_ringbuffer_get\<close> returns the number of bytes and the bytes copied to the caller.\<close>

definition rt_ringbuffer_get :: "ringbuffer \<Rightarrow> nat \<Rightarrow> (nat \<times> u8 list \<times> ringbuffer) option" where
  "rt_ringbuffer_get rb len0 =
     (let size = rt_ringbuffer_data_len rb in
      if size = 0 then Some (0, [], rb)
      else
        let len = (if size < len0 then size else len0);
            room = int (buffer_size rb) - int (read_index rb) in
        if room > int len
        then do {
          d \<leftarrow> memread (buffer_ptr rb) (read_index rb) len;
          Some (len, d, rb\<lparr>read_index := to_idx (int (read_index rb) + int len)\<rparr>)
        }
        else do {
          d1 \<leftarrow> memread (buffer_ptr rb) (read_index rb) (nat room);
          d2 \<leftarrow> memread (buffer_ptr rb) 0 (nat (int len - room));
          Some (len, d1 @ d2, rb\<lparr>read_mirror := \<not> read_mirror rb,
                                read_index := to_idx (int len - room)\<rparr>)
        })"

definition rt_ringbuffer_putchar :: "ringbuffer \<Rightarrow> u8 \<Rightarrow> (nat \<times> ringbuffer) option" where
  "rt_ringbuffer_putchar rb ch =
     (if rt_ringbuffer_space_len rb = 0 then Some (0, rb)
      else do {
        buf \<leftarrow> array_set (buffer_ptr rb) (write_index rb) ch;
        let rb1 = rb\<lparr>buffer_ptr := buf\<rparr>;
        Some (1, if int (write_index rb) = int (buffer_size rb) - 1
                 then rb1\<lparr>write_mirror := \<not> write_mirror rb, write_index := 0\<rparr>
                 else rb1\<lparr>write_index := to_idx (int (write_index rb) + 1)\<rparr>)
      })"

definition rt_ringbuffer_putchar_force :: "ringbuffer \<Rightarrow> u8 \<Rightarrow> (nat \<times> ringbuffer) option" where
  "rt_ringbuffer_putchar_force rb ch =
     (let old_state = rt_ringbuffer_status rb in do {
        buf \<leftarrow> array_set (buffer_ptr rb) (write_index rb) ch;
        let rb1 = rb\<lparr>buffer_ptr := buf\<rparr>;
        Some (1,
          if int (write_index rb) = int (buffer_size rb) - 1
          then let rb2 = rb1\<lparr>write_mirror := \<not> write_mirror rb, write_index := 0\<rparr> in
               if old_state = RT_RINGBUFFER_FULL
               then rb2\<lparr>read_mirror := \<not> read_mirror rb2, read_index := write_index rb2\<rparr>
               else rb2
          else let rb2 = rb1\<lparr>write_index := to_idx (int (write_index rb) + 1)\<rparr> in
               if old_state = RT_RINGBUFFER_FULL
               then rb2\<lparr>read_index := write_index rb2\<rparr> else rb2)
      })"

definition rt_ringbuffer_getchar :: "ringbuffer \<Rightarrow> (nat \<times> u8 option \<times> ringbuffer) option" where
  "rt_ringbuffer_getchar rb =
     (if rt_ringbuffer_data_len rb = 0 then Some (0, None, rb)
      else do {
        ch \<leftarrow> array_get (buffer_ptr rb) (read_index rb);
        Some (1, Some ch,
          if int (read_index rb) = int (buffer_size rb) - 1
          then rb\<lparr>read_mirror := \<not> read_mirror rb, read_index := 0\<rparr>
          else rb\<lparr>read_index := to_idx (int (read_index rb) + 1)\<rparr>)
      })"

definition rt_ringbuffer_reset :: "ringbuffer \<Rightarrow> ringbuffer" where
  "rt_ringbuffer_reset rb =
     rb\<lparr>read_mirror := False, read_index := 0, write_mirror := False, write_index := 0\<rparr>"

text \<open>
  \<^verbatim>\<open>rt_ringbuffer_create\<close>: \<open>hdr\<close> tells whether \<^verbatim>\<open>rt_malloc\<close> finds room for the header
  and \<open>pool n\<close> is the block it gives for \<open>n\<close> bytes. The outer \<open>option\<close> is the assertion,
  the inner one the null pointer the caller gets when memory is short.
\<close>

definition rt_ringbuffer_create ::
    "bool \<Rightarrow> (nat \<Rightarrow> u8 list option) \<Rightarrow> u16 \<Rightarrow> ringbuffer option option" where
  "rt_ringbuffer_create hdr pool size0 =
     (if size0 = 0 then None
      else
        let size = ucast (RT_ALIGN_DOWN (ucast size0) RT_ALIGN_SIZE) :: u16 in
        if \<not> hdr then Some None
        else case pool (unat size) of
               None \<Rightarrow> Some None
             | Some p \<Rightarrow> map_option Some (rt_ringbuffer_init p (sint size)))"

section \<open>Invariant and contents\<close>

text \<open>
  The write position is at or ahead of the read position in the same mirror, at or behind
  it in the other one; the pool may be longer than the aligned size.
\<close>

definition rb_inv :: "ringbuffer \<Rightarrow> bool" where
  "rb_inv rb \<longleftrightarrow> 0 < buffer_size rb \<and> buffer_size rb < 2 ^ 15 \<and>
     buffer_size rb \<le> length (buffer_ptr rb) \<and>
     read_index rb < buffer_size rb \<and> write_index rb < buffer_size rb \<and>
     (if read_mirror rb = write_mirror rb then read_index rb \<le> write_index rb
      else write_index rb \<le> read_index rb)"

definition rb_list :: "ringbuffer \<Rightarrow> u8 list" where
  "rb_list rb = ring_read (buffer_ptr rb) (buffer_size rb) (read_index rb)
     (rt_ringbuffer_data_len rb)"

lemma conv_simps:
  "0 \<le> i \<Longrightarrow> i < 2 ^ 32 \<Longrightarrow> to_size i = nat i"
  "0 \<le> i \<Longrightarrow> i < 2 ^ 16 \<Longrightarrow> to_u16 i = nat i"
  "0 \<le> i \<Longrightarrow> i < 2 ^ 15 \<Longrightarrow> to_idx i = nat i"
  by (simp_all add: to_size_def to_u16_def to_idx_def)

lemma conv_nat:
  "n < 2 ^ 32 \<Longrightarrow> to_size (int n) = n"
  "n < 2 ^ 16 \<Longrightarrow> to_u16 (int n) = n"
  "n < 2 ^ 15 \<Longrightarrow> to_idx (int n) = n"
  by (simp_all add: conv_simps)

lemma to_u16_0 [simp]: "to_u16 0 = 0"
  by (simp add: to_u16_def)

lemma data_len_inv:
  assumes "rb_inv rb"
  shows "rt_ringbuffer_data_len rb =
    (if read_mirror rb = write_mirror rb then write_index rb - read_index rb
     else buffer_size rb - (read_index rb - write_index rb))"
  using assms
  by (auto simp: rt_ringbuffer_data_len_def rt_ringbuffer_status_def rb_inv_def to_size_def
      nat_diff_distrib split: if_splits)

lemma data_len_le: "rb_inv rb \<Longrightarrow> rt_ringbuffer_data_len rb \<le> buffer_size rb"
  by (auto simp: data_len_inv rb_inv_def)

lemma space_bound: "rb_inv rb \<Longrightarrow> buffer_size rb - n < 2 ^ 15"
  by (auto simp: rb_inv_def)

lemma space_len_inv:
  assumes "rb_inv rb"
  shows "rt_ringbuffer_space_len rb = buffer_size rb - rt_ringbuffer_data_len rb"
proof -
  have "buffer_size rb - rt_ringbuffer_data_len rb < 2 ^ 32"
    using space_bound [OF assms, of "rt_ringbuffer_data_len rb"] by simp
  then show ?thesis
    using data_len_le [OF assms]
    by (simp add: rt_ringbuffer_space_len_def conv_nat flip: of_nat_diff)
qed

lemma space_u16_inv:
  assumes "rb_inv rb"
  shows "to_u16 (int (rt_ringbuffer_space_len rb)) = buffer_size rb - rt_ringbuffer_data_len rb"
proof -
  have "buffer_size rb - rt_ringbuffer_data_len rb < 2 ^ 16"
    using space_bound [OF assms, of "rt_ringbuffer_data_len rb"] by simp
  then show ?thesis by (simp add: space_len_inv [OF assms] conv_nat)
qed

lemma u16_space: "rb_inv rb \<Longrightarrow> to_u16 (int (buffer_size rb - n)) = buffer_size rb - n"
  using space_bound [of rb n] by (simp add: conv_nat)

lemma write_index_inv:
  assumes "rb_inv rb"
  shows "write_index rb = (read_index rb + rt_ringbuffer_data_len rb) mod buffer_size rb"
  using assms by (auto simp: data_len_inv rb_inv_def mod_one_turn)

lemma length_rb_list [simp]: "length (rb_list rb) = rt_ringbuffer_data_len rb"
  by (simp add: rb_list_def)

text \<open>
  One lemma serves every operation that writes: if the cells from the write position on
  receive \<open>data\<close>, other cells of the ring keep their bytes, and the data length grows by
  \<open>length data\<close>, then the content is extended by \<open>data\<close>.
\<close>

lemma rb_list_extend:
  assumes inv: "rb_inv rb"
    and fits: "rt_ringbuffer_data_len rb + length data \<le> buffer_size rb"
    and new: "\<And>j. j < length data \<Longrightarrow>
      buf ! ((write_index rb + j) mod buffer_size rb) = data ! j"
    and old: "\<And>k. k < buffer_size rb \<Longrightarrow>
      (\<And>j. j < length data \<Longrightarrow> k \<noteq> (write_index rb + j) mod buffer_size rb) \<Longrightarrow>
      buf ! k = buffer_ptr rb ! k"
  shows "ring_read buf (buffer_size rb) (read_index rb)
      (rt_ringbuffer_data_len rb + length data) = rb_list rb @ data"
proof -
  let ?N = "buffer_size rb" and ?r = "read_index rb" and ?m = "rt_ringbuffer_data_len rb"
  have N: "0 < ?N" and r: "?r < ?N" using inv by (auto simp: rb_inv_def)
  have w: "write_index rb = (?r + ?m) mod ?N" by (rule write_index_inv [OF inv])
  have m: "?m \<le> ?N" by (rule data_len_le [OF inv])
  have keep: "buf ! ((?r + i) mod ?N) = buffer_ptr rb ! ((?r + i) mod ?N)" if i: "i < ?m" for i
  proof (rule old)
    show "(?r + i) mod ?N < ?N" using N by simp
    fix j assume j: "j < length data"
    have "(write_index rb + j) mod ?N = (?r + (?m + j)) mod ?N"
      by (simp add: w mod_add_left_eq add.assoc)
    moreover have "(?r + i) mod ?N \<noteq> (?r + (?m + j)) mod ?N"
      using i j fits r m by (auto simp: mod_one_turn)
    ultimately show "(?r + i) mod ?N \<noteq> (write_index rb + j) mod ?N" by simp
  qed
  have app: "buf ! ((?r + ?m + j) mod ?N) = data ! j" if "j < length data" for j
    using new [OF that] by (simp add: w mod_add_left_eq)
  show ?thesis
    unfolding rb_list_def by (rule ring_read_append [OF keep app])
qed

section \<open>Writing\<close>

text \<open>
  The two copies of a write that reaches the end of the pool, and the single copy of one
  that does not, both put byte \<open>j\<close> of the data into cell \<open>(w + j) mod N\<close>.
\<close>

lemma memread_all: "k + n \<le> length xs \<Longrightarrow> memread xs k n = Some (take n (drop k xs))"
  by (simp add: memread_def)

lemma write_linear:
  assumes "w + length data < N" and "N \<le> length buf"
  obtains buf' where "memcpy_at buf w data = Some buf'" "length buf' = length buf"
    "\<And>j. j < length data \<Longrightarrow> buf' ! ((w + j) mod N) = data ! j"
    "\<And>k. k < N \<Longrightarrow> (\<And>j. j < length data \<Longrightarrow> k \<noteq> (w + j) mod N) \<Longrightarrow> buf' ! k = buf ! k"
proof -
  obtain buf' where c: "memcpy_at buf w data = Some buf'"
    using assms by (simp add: memcpy_at_def)
  have len: "length buf' = length buf" by (rule memcpy_at_length [OF c])
  show ?thesis
  proof (rule that [OF c len])
    fix j assume "j < length data"
    then show "buf' ! ((w + j) mod N) = data ! j"
      using assms memcpy_at_nth [OF c, of "w + j"] by simp
  next
    fix k assume k: "k < N" and out: "\<And>j. j < length data \<Longrightarrow> k \<noteq> (w + j) mod N"
    have "\<not> (w \<le> k \<and> k < w + length data)"
      using out [of "k - w"] k by (auto simp: less_diff_conv2)
    then show "buf' ! k = buf ! k"
      using assms k memcpy_at_nth [OF c, of k] by auto
  qed
qed

lemma write_wrapped:
  assumes w: "w < N" and reach: "N \<le> w + length data" and fit: "length data \<le> N"
    and N: "N \<le> length buf"
  obtains buf1 buf2 where "memcpy_at buf w (take (N - w) data) = Some buf1"
    "memcpy_at buf1 0 (drop (N - w) data) = Some buf2" "length buf2 = length buf"
    "\<And>j. j < length data \<Longrightarrow> buf2 ! ((w + j) mod N) = data ! j"
    "\<And>k. k < N \<Longrightarrow> (\<And>j. j < length data \<Longrightarrow> k \<noteq> (w + j) mod N) \<Longrightarrow> buf2 ! k = buf ! k"
proof -
  obtain buf1 where c1: "memcpy_at buf w (take (N - w) data) = Some buf1"
    using assms by (fastforce simp: memcpy_at_def)
  have len1: "length buf1 = length buf" by (rule memcpy_at_length [OF c1])
  obtain buf2 where c2: "memcpy_at buf1 0 (drop (N - w) data) = Some buf2"
    using assms len1 by (fastforce simp: memcpy_at_def)
  have len2: "length buf2 = length buf" using memcpy_at_length [OF c2] len1 by simp
  have nth2: "buf2 ! k = (if k < length data - (N - w) then data ! (N - w + k)
      else if w \<le> k \<and> k < N then data ! (k - w) else buf ! k)" if "k < N" for k
    using memcpy_at_nth [OF c2, of k] memcpy_at_nth [OF c1, of k] that assms len1 by auto
  show ?thesis
  proof (rule that [OF c1 c2 len2])
    fix j assume j: "j < length data"
    then have m: "(w + j) mod N = (if w + j < N then w + j else w + j - N)"
      using w fit by (simp add: mod_one_turn)
    show "buf2 ! ((w + j) mod N) = data ! j"
      using j w fit nth2 [of "(w + j) mod N"] by (auto simp: m)
  next
    fix k assume k: "k < N" and out: "\<And>j. j < length data \<Longrightarrow> k \<noteq> (w + j) mod N"
    have "\<not> k < length data - (N - w)"
      using out [of "N - w + k"] k w fit by (auto simp: mod_one_turn less_diff_conv less_diff_conv2)
    moreover have "\<not> (w \<le> k \<and> k < N)"
      using out [of "k - w"] k reach by (auto simp: less_diff_conv2)
    ultimately show "buf2 ! k = buf ! k" using nth2 [OF k] by auto
  qed
qed

text \<open>What \<^verbatim>\<open>rt_ringbuffer_put\<close> does to the state: the \<open>n\<close> accepted bytes are written
  at the write position, which moves on by \<open>n\<close> and flips its mirror at the end.\<close>

definition rb_advance_write :: "ringbuffer \<Rightarrow> u8 list \<Rightarrow> nat \<Rightarrow> ringbuffer" where
  "rb_advance_write rb buf n =
     (if write_index rb + n < buffer_size rb
      then rb\<lparr>buffer_ptr := buf, write_index := write_index rb + n\<rparr>
      else rb\<lparr>buffer_ptr := buf, write_mirror := \<not> write_mirror rb,
              write_index := write_index rb + n - buffer_size rb\<rparr>)"

lemma rb_advance_write_inv:
  assumes inv: "rb_inv rb" and n: "rt_ringbuffer_data_len rb + n \<le> buffer_size rb"
    and buf: "length buf = length (buffer_ptr rb)"
  shows "rb_inv (rb_advance_write rb buf n)"
    and "rt_ringbuffer_data_len (rb_advance_write rb buf n) = rt_ringbuffer_data_len rb + n"
proof -
  have d: "rt_ringbuffer_data_len rb = (if read_mirror rb = write_mirror rb
      then write_index rb - read_index rb else buffer_size rb - (read_index rb - write_index rb))"
    by (rule data_len_inv [OF inv])
  show i: "rb_inv (rb_advance_write rb buf n)"
    using inv n buf d by (auto simp: rb_inv_def rb_advance_write_def split: if_splits)
  show "rt_ringbuffer_data_len (rb_advance_write rb buf n) = rt_ringbuffer_data_len rb + n"
    unfolding data_len_inv [OF i] d
    using inv n d by (auto simp: rb_inv_def rb_advance_write_def split: if_splits)
qed

lemma rb_write_list:
  assumes inv: "rb_inv rb"
    and fits: "rt_ringbuffer_data_len rb + length data \<le> buffer_size rb"
    and buf: "length buf = length (buffer_ptr rb)"
    and new: "\<And>j. j < length data \<Longrightarrow>
      buf ! ((write_index rb + j) mod buffer_size rb) = data ! j"
    and old: "\<And>k. k < buffer_size rb \<Longrightarrow>
      (\<And>j. j < length data \<Longrightarrow> k \<noteq> (write_index rb + j) mod buffer_size rb) \<Longrightarrow>
      buf ! k = buffer_ptr rb ! k"
  shows "rb_list (rb_advance_write rb buf (length data)) = rb_list rb @ data"
proof -
  have "rb_list (rb_advance_write rb buf (length data)) =
      ring_read buf (buffer_size rb) (read_index rb) (rt_ringbuffer_data_len rb + length data)"
    using rb_advance_write_inv(2) [OF inv fits buf]
    by (simp add: rb_list_def rb_advance_write_def)
  also have "\<dots> = rb_list rb @ data"
    by (rule rb_list_extend [OF inv fits new old])
  finally show ?thesis .
qed

text \<open>The write of \<^verbatim>\<open>rt_ringbuffer_put\<close> and \<^verbatim>\<open>rt_ringbuffer_put_force\<close>, both branches.\<close>

lemma ring_write:
  assumes inv: "rb_inv rb" and n: "n \<le> buffer_size rb" "n \<le> length ptr"
  defines "room \<equiv> int (buffer_size rb) - int (write_index rb)"
  obtains buf where
    "room > int n \<Longrightarrow> memread ptr 0 n = Some (take n ptr) \<and>
      memcpy_at (buffer_ptr rb) (write_index rb) (take n ptr) = Some buf"
    "\<not> room > int n \<Longrightarrow> \<exists>buf1. memread ptr 0 (nat room) = Some (take (nat room) ptr) \<and>
      memcpy_at (buffer_ptr rb) (write_index rb) (take (nat room) ptr) = Some buf1 \<and>
      memread ptr (nat room) (nat (int n - room)) = Some (drop (nat room) (take n ptr)) \<and>
      memcpy_at buf1 0 (drop (nat room) (take n ptr)) = Some buf"
    "length buf = length (buffer_ptr rb)"
    "\<And>j. j < n \<Longrightarrow> buf ! ((write_index rb + j) mod buffer_size rb) = ptr ! j"
    "\<And>k. k < buffer_size rb \<Longrightarrow>
      (\<And>j. j < n \<Longrightarrow> k \<noteq> (write_index rb + j) mod buffer_size rb) \<Longrightarrow>
      buf ! k = buffer_ptr rb ! k"
proof -
  let ?N = "buffer_size rb" and ?w = "write_index rb" and ?data = "take n ptr"
  have w: "?w < ?N" and N: "?N \<le> length (buffer_ptr rb)" using inv by (auto simp: rb_inv_def)
  have len: "length ?data = n" using n by simp
  have nr: "nat room = ?N - ?w" using w by (simp add: room_def nat_diff_distrib)
  show ?thesis
  proof (cases "room > int n")
    case True
    then have "?w + length ?data < ?N" using len by (simp add: room_def)
    from write_linear [OF this N] obtain buf where
      "memcpy_at (buffer_ptr rb) ?w ?data = Some buf" "length buf = length (buffer_ptr rb)"
      "\<And>j. j < length ?data \<Longrightarrow> buf ! ((?w + j) mod ?N) = ?data ! j"
      "\<And>k. k < ?N \<Longrightarrow> (\<And>j. j < length ?data \<Longrightarrow> k \<noteq> (?w + j) mod ?N) \<Longrightarrow>
        buf ! k = buffer_ptr rb ! k"
      by metis
    with True n len show ?thesis by (intro that [of buf]) (auto simp: memread_def)
  next
    case False
    then have reach: "?N \<le> ?w + length ?data" using len w by (simp add: room_def)
    have fit: "length ?data \<le> ?N" using len n by simp
    from write_wrapped [OF w reach fit N] obtain buf1 buf where
      b: "memcpy_at (buffer_ptr rb) ?w (take (?N - ?w) ?data) = Some buf1"
      "memcpy_at buf1 0 (drop (?N - ?w) ?data) = Some buf" "length buf = length (buffer_ptr rb)"
      "\<And>j. j < length ?data \<Longrightarrow> buf ! ((?w + j) mod ?N) = ?data ! j"
      "\<And>k. k < ?N \<Longrightarrow> (\<And>j. j < length ?data \<Longrightarrow> k \<noteq> (?w + j) mod ?N) \<Longrightarrow>
        buf ! k = buffer_ptr rb ! k"
      by metis
    have t: "take (?N - ?w) ?data = take (nat room) ptr"
    proof -
      have "?N - ?w \<le> n" using reach len by simp
      then show ?thesis by (simp add: nr min_absorb1)
    qed
    have r2: "nat (int n - room) = n - nat room"
      using False w by (simp add: room_def nr)
    have "nat room + nat (int n - room) \<le> length ptr" "nat room \<le> length ptr"
      using r2 n reach nr len by auto
    then have "memread ptr 0 (nat room) = Some (take (nat room) ptr)"
      "memread ptr (nat room) (nat (int n - room)) = Some (drop (nat room) ?data)"
      by (simp_all add: memread_def r2 drop_take)
    with False b len show ?thesis
      by (intro that [of buf]) (auto simp: t simp flip: nr)
  qed
qed

lemma advance_linear:
  "rb_inv rb \<Longrightarrow> int (buffer_size rb) - int (write_index rb) > int n \<Longrightarrow>
    rb\<lparr>buffer_ptr := buf, write_index := to_idx (int (write_index rb) + int n)\<rparr> =
    rb_advance_write rb buf n"
  by (simp add: rb_advance_write_def rb_inv_def conv_simps flip: of_nat_add)

lemma advance_wrap:
  "rb_inv rb \<Longrightarrow> \<not> int (buffer_size rb) - int (write_index rb) > int n \<Longrightarrow>
    n \<le> buffer_size rb \<Longrightarrow>
    rb\<lparr>buffer_ptr := buf, write_mirror := \<not> write_mirror rb,
       write_index := to_idx (int n - (int (buffer_size rb) - int (write_index rb)))\<rparr> =
    rb_advance_write rb buf n"
  by (auto simp: rb_advance_write_def rb_inv_def conv_simps)

lemma put_eq:
  assumes inv: "rb_inv rb" and ptr: "len0 \<le> length ptr"
  defines "n \<equiv> min len0 (buffer_size rb - rt_ringbuffer_data_len rb)"
  obtains buf where "rt_ringbuffer_put rb ptr len0 = Some (n, rb_advance_write rb buf n)"
    "rb_inv (rb_advance_write rb buf n)"
    "rb_list (rb_advance_write rb buf n) = rb_list rb @ take n ptr"
proof -
  let ?room = "int (buffer_size rb) - int (write_index rb)"
  have n: "n \<le> buffer_size rb" "n \<le> length ptr" using ptr by (auto simp: n_def)
  have fits: "rt_ringbuffer_data_len rb + n \<le> buffer_size rb"
    using data_len_le [OF inv] by (simp add: n_def)
  obtain buf where lin: "?room > int n \<Longrightarrow> memread ptr 0 n = Some (take n ptr) \<and>
      memcpy_at (buffer_ptr rb) (write_index rb) (take n ptr) = Some buf"
    and wrap: "\<not> ?room > int n \<Longrightarrow> \<exists>buf1. memread ptr 0 (nat ?room) = Some (take (nat ?room) ptr) \<and>
      memcpy_at (buffer_ptr rb) (write_index rb) (take (nat ?room) ptr) = Some buf1 \<and>
      memread ptr (nat ?room) (nat (int n - ?room)) = Some (drop (nat ?room) (take n ptr)) \<and>
      memcpy_at buf1 0 (drop (nat ?room) (take n ptr)) = Some buf"
    and len: "length buf = length (buffer_ptr rb)"
    and new: "\<And>j. j < n \<Longrightarrow> buf ! ((write_index rb + j) mod buffer_size rb) = ptr ! j"
    and old: "\<And>k. k < buffer_size rb \<Longrightarrow>
      (\<And>j. j < n \<Longrightarrow> k \<noteq> (write_index rb + j) mod buffer_size rb) \<Longrightarrow> buf ! k = buffer_ptr rb ! k"
    by (rule ring_write [OF inv n]) blast
  show ?thesis
  proof (cases "buffer_size rb - rt_ringbuffer_data_len rb = 0")
    case True
    then have n0: "n = 0" by (simp add: n_def)
    have same: "rb_advance_write rb (buffer_ptr rb) 0 = rb"
      using inv by (simp add: rb_advance_write_def rb_inv_def)
    show ?thesis
      using that [of "buffer_ptr rb"] inv True
      by (simp add: n0 same rt_ringbuffer_put_def space_u16_inv)
  next
    case False
    have sz: "(if to_u16 (int (rt_ringbuffer_space_len rb)) < len0
        then to_u16 (int (rt_ringbuffer_space_len rb)) else len0) = n"
      by (simp add: n_def space_u16_inv [OF inv] min_def)
    have put: "rt_ringbuffer_put rb ptr len0 = Some (n, rb_advance_write rb buf n)"
    proof (cases "?room > int n")
      case True
      then show ?thesis
        using lin False inv
        by (simp add: rt_ringbuffer_put_def Let_def sz advance_linear)
          (simp add: space_u16_inv)
    next
      case wr: False
      from wrap [OF wr] obtain buf1 where
        "memread ptr 0 (nat ?room) = Some (take (nat ?room) ptr)"
        "memcpy_at (buffer_ptr rb) (write_index rb) (take (nat ?room) ptr) = Some buf1"
        "memread ptr (nat ?room) (nat (int n - ?room)) = Some (drop (nat ?room) (take n ptr))"
        "memcpy_at buf1 0 (drop (nat ?room) (take n ptr)) = Some buf"
        by blast
      then show ?thesis
        using wr False inv n
        by (simp add: rt_ringbuffer_put_def Let_def sz advance_wrap)
          (simp add: space_u16_inv)
    qed
    have lt: "length (take n ptr) = n" using n by simp
    show ?thesis
    proof (rule that [OF put])
      show "rb_inv (rb_advance_write rb buf n)"
        by (rule rb_advance_write_inv(1) [OF inv fits len])
      have "rb_list (rb_advance_write rb buf (length (take n ptr))) = rb_list rb @ take n ptr"
        using fits new old n by (intro rb_write_list [OF inv _ len]) auto
      then show "rb_list (rb_advance_write rb buf n) = rb_list rb @ take n ptr"
        by (simp only: lt)
    qed
  qed
qed

section \<open>Reading\<close>

definition rb_advance_read :: "ringbuffer \<Rightarrow> nat \<Rightarrow> ringbuffer" where
  "rb_advance_read rb n =
     (if read_index rb + n < buffer_size rb
      then rb\<lparr>read_index := read_index rb + n\<rparr>
      else rb\<lparr>read_mirror := \<not> read_mirror rb,
              read_index := read_index rb + n - buffer_size rb\<rparr>)"

lemma rb_advance_read_inv:
  assumes inv: "rb_inv rb" and n: "n \<le> rt_ringbuffer_data_len rb"
  shows "rb_inv (rb_advance_read rb n)"
    and "rt_ringbuffer_data_len (rb_advance_read rb n) = rt_ringbuffer_data_len rb - n"
    and "rb_list (rb_advance_read rb n) = drop n (rb_list rb)"
proof -
  have d: "rt_ringbuffer_data_len rb = (if read_mirror rb = write_mirror rb
      then write_index rb - read_index rb else buffer_size rb - (read_index rb - write_index rb))"
    by (rule data_len_inv [OF inv])
  show i: "rb_inv (rb_advance_read rb n)"
    using inv n d by (auto simp: rb_inv_def rb_advance_read_def split: if_splits)
  show l: "rt_ringbuffer_data_len (rb_advance_read rb n) = rt_ringbuffer_data_len rb - n"
    unfolding data_len_inv [OF i] d
    using inv n d by (auto simp: rb_inv_def rb_advance_read_def split: if_splits)
  have "n \<le> buffer_size rb" using n data_len_le [OF inv] by simp
  then have r: "read_index (rb_advance_read rb n) = (read_index rb + n) mod buffer_size rb"
    using inv by (simp add: rb_advance_read_def rb_inv_def mod_one_turn)
  have "rb_list (rb_advance_read rb n) = ring_read (buffer_ptr rb) (buffer_size rb)
      ((read_index rb + n) mod buffer_size rb) (rt_ringbuffer_data_len rb - n)"
    unfolding rb_list_def l r by (simp add: rb_advance_read_def)
  then show "rb_list (rb_advance_read rb n) = drop n (rb_list rb)"
    using n by (simp add: rb_list_def drop_ring_read ring_read_mod)
qed

text \<open>The two copies of a read deliver the first bytes of the content.\<close>

lemma ring_read_linear:
  "r + n \<le> N \<Longrightarrow> r < N \<Longrightarrow> N \<le> length buf \<Longrightarrow> ring_read buf N r n = take n (drop r buf)"
  by (rule nth_equalityI) (simp_all add: nth_ring_read)

lemma ring_read_split:
  "k \<le> n \<Longrightarrow> ring_read buf N r n = ring_read buf N r k @ ring_read buf N (r + k) (n - k)"
  by (metis append_take_drop_id drop_ring_read take_ring_read)

lemma get_eq:
  fixes len0 :: nat
  assumes inv: "rb_inv rb"
  defines "n \<equiv> min len0 (rt_ringbuffer_data_len rb)"
  shows "rt_ringbuffer_get rb len0 = Some (n, take n (rb_list rb), rb_advance_read rb n)"
proof (cases "rt_ringbuffer_data_len rb = 0")
  case True
  moreover have "rb_advance_read rb 0 = rb" using inv by (simp add: rb_advance_read_def rb_inv_def)
  ultimately show ?thesis by (simp add: rt_ringbuffer_get_def n_def)
next
  case False
  let ?N = "buffer_size rb" and ?r = "read_index rb" and ?b = "buffer_ptr rb"
  let ?room = "int ?N - int ?r"
  have r: "?r < ?N" and N: "?N \<le> length ?b" "?N < 2 ^ 15" using inv by (auto simp: rb_inv_def)
  have n: "n \<le> rt_ringbuffer_data_len rb" "n \<le> ?N"
    using data_len_le [OF inv] by (auto simp: n_def)
  have sz: "(if rt_ringbuffer_data_len rb < len0 then rt_ringbuffer_data_len rb else len0) = n"
    by (simp add: n_def min_def)
  have t: "take n (rb_list rb) = ring_read ?b ?N ?r n"
    using n by (simp add: rb_list_def take_ring_read)
  show ?thesis
  proof (cases "?room > int n")
    case True
    then have lin: "?r + n < ?N" by linarith
    then have "memread ?b ?r n = Some (ring_read ?b ?N ?r n)"
      using r N by (simp add: memread_def ring_read_linear)
    then show ?thesis
      using True False lin N
      by (simp add: rt_ringbuffer_get_def Let_def sz t rb_advance_read_def conv_simps
          flip: of_nat_add)
  next
    case wr: False
    define k where "k = ?N - ?r"
    have k: "nat ?room = k" "nat (int n - ?room) = n - k" "k \<le> n" "?r + k = ?N"
      using r wr by (auto simp: k_def nat_diff_distrib)
    have "ring_read ?b ?N ?N (n - k) = ring_read ?b ?N 0 (n - k)"
      using ring_read_mod [of ?b ?N ?N "n - k"] by simp
    then have "ring_read ?b ?N ?r n = take k (drop ?r ?b) @ take (n - k) ?b"
      using ring_read_split [OF k(3), of ?b ?N ?r] ring_read_linear [of ?r k ?N ?b]
        ring_read_linear [of 0 "n - k" ?N ?b] k(4) r N n by simp
    moreover have "memread ?b ?r k = Some (take k (drop ?r ?b))"
      "memread ?b 0 (n - k) = Some (take (n - k) ?b)"
      using k(4) N n by (simp_all add: memread_def)
    moreover have "to_idx (int n - ?room) = ?r + n - ?N"
      using wr r n N by (auto simp: conv_simps)
    ultimately show ?thesis
      using wr False r k(1,2)
      by (simp add: rt_ringbuffer_get_def Let_def sz t rb_advance_read_def)
  qed
qed

section \<open>Single bytes\<close>

text \<open>\<^verbatim>\<open>putchar\<close> and \<^verbatim>\<open>getchar\<close> are the one-byte cases of \<^verbatim>\<open>put\<close> and \<^verbatim>\<open>get\<close>.\<close>

lemma putchar_put:
  assumes inv: "rb_inv rb"
  shows "rt_ringbuffer_putchar rb ch = rt_ringbuffer_put rb [ch] 1"
proof (cases "buffer_size rb - rt_ringbuffer_data_len rb = 0")
  case True
  then show ?thesis
    using inv by (simp add: rt_ringbuffer_putchar_def rt_ringbuffer_put_def Let_def
      space_len_inv u16_space)
next
  case False
  have w: "write_index rb < buffer_size rb" "buffer_size rb \<le> length (buffer_ptr rb)"
    "buffer_size rb < 2 ^ 15" using inv by (auto simp: rb_inv_def)
  have upd: "take i xs @ ch # drop (Suc i) xs = xs[i := ch]" if "i < length xs" for i xs
    using that by (simp add: upd_conv_take_nth_drop)
  show ?thesis
  proof (cases "int (write_index rb) = int (buffer_size rb) - 1")
    case True
    then have "buffer_size rb = Suc (write_index rb)" by simp
    then show ?thesis
      using False w inv
      by (simp add: rt_ringbuffer_putchar_def rt_ringbuffer_put_def Let_def
        space_len_inv u16_space memread_def memcpy_at_def array_set_def upd conv_simps)
  next
    case wr: False
    then show ?thesis
      using False w inv
      by (simp add: rt_ringbuffer_putchar_def rt_ringbuffer_put_def Let_def
        space_len_inv u16_space memread_def memcpy_at_def array_set_def upd conv_simps)
  qed
qed

lemma getchar_get:
  assumes inv: "rb_inv rb"
  shows "rt_ringbuffer_getchar rb =
    map_option (\<lambda>(n, d, rb'). (n, if d = [] then None else Some (hd d), rb'))
      (rt_ringbuffer_get rb 1)"
proof (cases "rt_ringbuffer_data_len rb = 0")
  case True
  then show ?thesis by (simp add: rt_ringbuffer_getchar_def rt_ringbuffer_get_def)
next
  case False
  have r: "read_index rb < buffer_size rb" "buffer_size rb \<le> length (buffer_ptr rb)"
    "buffer_size rb < 2 ^ 15" using inv by (auto simp: rb_inv_def)
  obtain m where m: "rt_ringbuffer_data_len rb = Suc m"
    using False not0_implies_Suc by blast
  have cell: "take (Suc 0) (drop (read_index rb) (buffer_ptr rb)) =
      [buffer_ptr rb ! read_index rb]"
    using r by (simp add: take_Suc_conv_app_nth)
  show ?thesis
  proof (cases "int (read_index rb) = int (buffer_size rb) - 1")
    case True
    then have "buffer_size rb = Suc (read_index rb)" by simp
    then show ?thesis
      using r by (simp add: rt_ringbuffer_getchar_def rt_ringbuffer_get_def Let_def m
        memread_def array_get_def cell conv_simps)
  next
    case wr: False
    then have "int (buffer_size rb) - int (read_index rb) > int 1" using r by linarith
    then show ?thesis
      using wr r by (simp add: rt_ringbuffer_getchar_def rt_ringbuffer_get_def Let_def m
        memread_def array_get_def cell conv_simps)
  qed
qed

section \<open>Writing over old data\<close>

lemma ring_overwrite:
  assumes N: "0 < N" and m: "m \<le> N" and n: "length data \<le> N" and over: "N \<le> m + length data"
    and new: "\<And>j. j < length data \<Longrightarrow> b' ! ((r + m + j) mod N) = data ! j"
    and old: "\<And>k. k < N \<Longrightarrow> (\<And>j. j < length data \<Longrightarrow> k \<noteq> (r + m + j) mod N) \<Longrightarrow> b' ! k = b ! k"
  shows "ring_read b' N (r + m + length data) N =
    drop (m + length data - N) (ring_read b N r m) @ data"
proof (rule nth_equalityI)
  let ?n = "length data"
  show "length (ring_read b' N (r + m + ?n) N) =
      length (drop (m + ?n - N) (ring_read b N r m) @ data)"
    using m n over by simp
  fix i assume "i < length (ring_read b' N (r + m + ?n) N)"
  then have i: "i < N" by simp
  show "ring_read b' N (r + m + ?n) N ! i =
      (drop (m + ?n - N) (ring_read b N r m) @ data) ! i"
  proof (cases "i < N - ?n")
    case True
    define p where "p = m + ?n - N + i"
    have p: "p < m" "r + m + ?n + i = r + p + N" using True over by (auto simp: p_def)
    have "b' ! ((r + p) mod N) = b ! ((r + p) mod N)"
    proof (rule old)
      show "(r + p) mod N < N" using N by simp
      fix j assume j: "j < ?n"
      have "r + p < r + m + j" "r + m + j < r + p + N" using p j True over by (auto simp: p_def)
      then show "(r + p) mod N \<noteq> (r + m + j) mod N"
        by (metis add_diff_cancel_left' add_less_cancel_left le_add_diff_inverse less_imp_le
            mod_eq_dvd_iff_nat nat_dvd_not_less zero_less_diff)
    qed
    moreover have "(r + m + ?n + i) mod N = (r + p) mod N" by (simp add: p(2))
    moreover have "(drop (m + ?n - N) (ring_read b N r m) @ data) ! i = ring_read b N r m ! p"
      using True p(1) over by (simp add: nth_append p_def)
    ultimately show ?thesis
      using i p(1) by (simp add: nth_ring_read)
  next
    case False
    define j where "j = i - (N - ?n)"
    have j: "j < ?n" "r + m + ?n + i = r + m + j + N" using False n i by (auto simp: j_def)
    have "(r + m + ?n + i) mod N = (r + m + j) mod N" by (simp add: j(2))
    then show ?thesis
      using i False new [OF j(1)] m n over by (simp add: nth_ring_read nth_append j_def)
  qed
qed

text \<open>The effect of \<^verbatim>\<open>rt_ringbuffer_put_force\<close> in terms of the advanced write position.\<close>

definition rb_force :: "ringbuffer \<Rightarrow> u8 list \<Rightarrow> nat \<Rightarrow> ringbuffer" where
  "rb_force rb buf n =
     (let rb1 = rb_advance_write rb buf n in
      if n > buffer_size rb - rt_ringbuffer_data_len rb
      then if write_index rb + n < buffer_size rb then rb1\<lparr>read_index := write_index rb1\<rparr>
           else rb1\<lparr>read_mirror := \<not> read_mirror rb1, read_index := write_index rb1\<rparr>
      else rb1)"

lemma put_force_eq:
  assumes inv: "rb_inv rb" and ptr: "len0 \<le> length ptr0"
  defines "n \<equiv> min len0 (buffer_size rb)"
  defines "data \<equiv> drop (len0 - n) (take len0 ptr0)"
  obtains buf where "rt_ringbuffer_put_force rb ptr0 len0 = Some (n, rb_force rb buf n)"
    "length buf = length (buffer_ptr rb)" "length data = n"
    "\<And>j. j < n \<Longrightarrow> buf ! ((write_index rb + j) mod buffer_size rb) = data ! j"
    "\<And>k. k < buffer_size rb \<Longrightarrow>
      (\<And>j. j < n \<Longrightarrow> k \<noteq> (write_index rb + j) mod buffer_size rb) \<Longrightarrow> buf ! k = buffer_ptr rb ! k"
proof -
  let ?room = "int (buffer_size rb) - int (write_index rb)"
  define ptr where "ptr = (if len0 > buffer_size rb then drop (len0 - buffer_size rb) ptr0 else ptr0)"
  have n: "n \<le> buffer_size rb" "n \<le> length ptr" using ptr by (auto simp: n_def ptr_def)
  have data: "data = take n ptr" "length data = n"
    using ptr by (auto simp: data_def ptr_def n_def min_def drop_take)
  have sz: "(if len0 > buffer_size rb then buffer_size rb else len0) = n" by (simp add: n_def min_def)
  obtain buf where lin: "?room > int n \<Longrightarrow> memread ptr 0 n = Some (take n ptr) \<and>
      memcpy_at (buffer_ptr rb) (write_index rb) (take n ptr) = Some buf"
    and wrap: "\<not> ?room > int n \<Longrightarrow> \<exists>buf1. memread ptr 0 (nat ?room) = Some (take (nat ?room) ptr) \<and>
      memcpy_at (buffer_ptr rb) (write_index rb) (take (nat ?room) ptr) = Some buf1 \<and>
      memread ptr (nat ?room) (nat (int n - ?room)) = Some (drop (nat ?room) (take n ptr)) \<and>
      memcpy_at buf1 0 (drop (nat ?room) (take n ptr)) = Some buf"
    and rest: "length buf = length (buffer_ptr rb)"
      "\<And>j. j < n \<Longrightarrow> buf ! ((write_index rb + j) mod buffer_size rb) = ptr ! j"
      "\<And>k. k < buffer_size rb \<Longrightarrow>
      (\<And>j. j < n \<Longrightarrow> k \<noteq> (write_index rb + j) mod buffer_size rb) \<Longrightarrow> buf ! k = buffer_ptr rb ! k"
    by (rule ring_write [OF inv n]) blast
  have "rt_ringbuffer_put_force rb ptr0 len0 = Some (n, rb_force rb buf n)"
  proof (cases "?room > int n")
    case True
    then have w: "write_index rb + n < buffer_size rb" by linarith
    show ?thesis
      using True lin w advance_linear [OF inv True, of buf]
      by (simp add: rt_ringbuffer_put_force_def Let_def sz flip: ptr_def)
        (simp add: rb_force_def Let_def space_len_inv [OF inv] u16_space [OF inv]
          rb_advance_write_def)
  next
    case False
    then have w: "\<not> write_index rb + n < buffer_size rb" by linarith
    from wrap [OF False] obtain buf1 where
      "memread ptr 0 (nat ?room) = Some (take (nat ?room) ptr)"
      "memcpy_at (buffer_ptr rb) (write_index rb) (take (nat ?room) ptr) = Some buf1"
      "memread ptr (nat ?room) (nat (int n - ?room)) = Some (drop (nat ?room) (take n ptr))"
      "memcpy_at buf1 0 (drop (nat ?room) (take n ptr)) = Some buf"
      by blast
    then show ?thesis
      using False w advance_wrap [OF inv False n(1), of buf]
      by (simp add: rt_ringbuffer_put_force_def Let_def sz flip: ptr_def)
        (simp add: rb_force_def Let_def space_len_inv [OF inv] u16_space [OF inv]
          rb_advance_write_def)
  qed
  then show ?thesis using rest data by (intro that [of buf]) auto
qed

section \<open>Properties\<close>

lemma init_inv:
  assumes "0 < sz" "sz < 2 ^ 15" "nat sz \<le> length pool" "4 \<le> sz"
  obtains rb where "rt_ringbuffer_init pool sz = Some rb" "rb_inv rb" "rb_list rb = []"
    "buffer_size rb = nat sz - nat sz mod 4"
proof -
  have u: "unat (word_of_int sz :: u32) = nat sz"
    using assms by (simp add: unat_eq_nat_uint uint_word_of_int)
  let ?rb = "\<lparr>buffer_ptr = pool, read_mirror = False, read_index = 0, write_mirror = False,
    write_index = 0, buffer_size = nat sz - nat sz mod 4\<rparr>"
  have "nat sz mod 4 < 4" "4 \<le> nat sz" "nat sz < 2 ^ 15" using assms by auto
  then have pos: "0 < nat sz - nat sz mod 4" "nat sz - nat sz mod 4 < 2 ^ 15"
    by linarith+
  have "rb_inv ?rb" using pos le_trans [OF diff_le_self assms(3)] by (simp add: rb_inv_def)
  moreover have "rb_list ?rb = []"
    by (simp add: rb_list_def rt_ringbuffer_data_len_def rt_ringbuffer_status_def)
  ultimately show ?thesis
    using assms(1) by (intro that [of ?rb]) (simp_all add: rt_ringbuffer_init_def unat_align_down u)
qed

text \<open>\<^verbatim>\<open>rt_ringbuffer_put\<close> never writes outside the pool, appends to the content the
  longest prefix of the caller's bytes that fits, returns its length and keeps the
  invariant.\<close>

theorem ringbuffer_put_appends:
  assumes "rb_inv rb" and "len \<le> length ptr"
  shows "\<exists>rb'. rt_ringbuffer_put rb ptr len =
      Some (min len (rt_ringbuffer_space_len rb), rb') \<and> rb_inv rb' \<and>
    rb_list rb' = rb_list rb @ take (min len (rt_ringbuffer_space_len rb)) ptr"
  using assms by (metis put_eq space_len_inv)

definition rb_example :: ringbuffer where
  "rb_example = \<lparr>buffer_ptr = [1, 2, 3, 4], read_mirror = False, read_index = 2,
     write_mirror = False, write_index = 3, buffer_size = 4\<rparr>"

lemma rb_example_inv: "rb_inv rb_example"
  by (simp add: rb_inv_def rb_example_def)

lemma ringbuffer_put_appends_witness:
  "\<exists>rb'. rt_ringbuffer_put rb_example [7, 8, 9, 10, 11] 5 = Some (3, rb') \<and> rb_inv rb' \<and>
    rb_list rb' = [3, 7, 8, 9]"
  using ringbuffer_put_appends [OF rb_example_inv, of 5 "[7, 8, 9, 10, 11]"]
  by (simp add: space_len_inv [OF rb_example_inv])
    (simp add: rb_example_def rb_list_def ring_read_def rt_ringbuffer_data_len_def
      rt_ringbuffer_status_def to_size_def)

text \<open>\<^verbatim>\<open>rt_ringbuffer_get\<close> delivers the oldest bytes in order, as many as asked for or
  present, and removes exactly those.\<close>

theorem ringbuffer_get_takes:
  assumes "rb_inv rb"
  shows "\<exists>rb'. rt_ringbuffer_get rb len =
      Some (min len (rt_ringbuffer_data_len rb), take len (rb_list rb), rb') \<and>
    rb_inv rb' \<and> rb_list rb' = drop len (rb_list rb)"
proof -
  let ?n = "min len (rt_ringbuffer_data_len rb)"
  have "take ?n (rb_list rb) = take len (rb_list rb)" "drop ?n (rb_list rb) = drop len (rb_list rb)"
    by (simp_all add: min_def)
  moreover have "?n \<le> rt_ringbuffer_data_len rb" by simp
  ultimately show ?thesis
    using get_eq [OF assms, of len] rb_advance_read_inv [OF assms, of ?n] by simp
qed

lemma ringbuffer_get_takes_witness:
  "\<exists>rb'. rt_ringbuffer_get rb_example 3 = Some (1, [3], rb') \<and> rb_inv rb' \<and> rb_list rb' = []"
  using ringbuffer_get_takes [OF rb_example_inv, of 3]
  by (simp add: rb_example_def rb_list_def ring_read_def rt_ringbuffer_data_len_def
      rt_ringbuffer_status_def to_size_def)

subsection \<open>Forced writes\<close>

lemma force_wraps:
  assumes inv: "rb_inv rb" and eq: "read_mirror rb = write_mirror rb"
    and over: "n > buffer_size rb - rt_ringbuffer_data_len rb"
  shows "\<not> write_index rb + n < buffer_size rb"
  using assms by (auto simp: data_len_inv [OF inv] rb_inv_def)

lemma rb_force_full:
  assumes inv: "rb_inv rb" and ne: "read_mirror rb \<noteq> write_mirror rb"
    and n: "n \<le> buffer_size rb" and over: "n > buffer_size rb - rt_ringbuffer_data_len rb"
    and buf: "length buf = length (buffer_ptr rb)"
  shows "rb_inv (rb_force rb buf n)"
    and "rb_list (rb_force rb buf n) = ring_read buf (buffer_size rb)
      (read_index rb + rt_ringbuffer_data_len rb + n) (buffer_size rb)"
proof -
  show inv': "rb_inv (rb_force rb buf n)"
    using assms by (auto simp: rb_force_def Let_def rb_inv_def rb_advance_write_def)
  have "read_mirror (rb_force rb buf n) \<noteq> write_mirror (rb_force rb buf n)"
    "read_index (rb_force rb buf n) = write_index (rb_force rb buf n)"
    "buffer_size (rb_force rb buf n) = buffer_size rb" "buffer_ptr (rb_force rb buf n) = buf"
    using ne over by (auto simp: rb_force_def Let_def rb_advance_write_def)
  then have "rb_list (rb_force rb buf n) =
      ring_read buf (buffer_size rb) (write_index (rb_force rb buf n)) (buffer_size rb)"
    by (simp add: rb_list_def data_len_inv [OF inv'])
  also have "write_index (rb_force rb buf n) = (write_index rb + n) mod buffer_size rb"
    using inv n by (auto simp: rb_force_def Let_def rb_advance_write_def rb_inv_def mod_one_turn)
  also have "(write_index rb + n) mod buffer_size rb =
      (read_index rb + rt_ringbuffer_data_len rb + n) mod buffer_size rb"
    by (simp add: write_index_inv [OF inv] mod_add_left_eq)
  finally show "rb_list (rb_force rb buf n) = ring_read buf (buffer_size rb)
      (read_index rb + rt_ringbuffer_data_len rb + n) (buffer_size rb)"
    by (simp add: ring_read_mod)
qed

text \<open>When the write position is in the other mirror, or the bytes fit,
  \<^verbatim>\<open>rt_ringbuffer_put_force\<close> keeps the newest bytes: the content becomes the last
  \<^verbatim>\<open>buffer_size\<close> bytes of the old content followed by the (truncated) new ones.\<close>

theorem ringbuffer_put_force_keeps_newest:
  assumes inv: "rb_inv rb" and ptr: "len \<le> length ptr"
    and ok: "read_mirror rb \<noteq> write_mirror rb \<or>
      rt_ringbuffer_data_len rb + min len (buffer_size rb) \<le> buffer_size rb"
  shows "\<exists>rb'. rt_ringbuffer_put_force rb ptr len = Some (min len (buffer_size rb), rb') \<and>
    rb_inv rb' \<and>
    (let all = rb_list rb @ drop (len - buffer_size rb) (take len ptr)
     in rb_list rb' = drop (length all - buffer_size rb) all)"
proof -
  define n where "n = min len (buffer_size rb)"
  define data where "data = drop (len - n) (take len ptr)"
  obtain buf where put: "rt_ringbuffer_put_force rb ptr len = Some (n, rb_force rb buf n)"
    and buf: "length buf = length (buffer_ptr rb)" and ld: "length data = n"
    and new: "\<And>j. j < n \<Longrightarrow> buf ! ((write_index rb + j) mod buffer_size rb) = data ! j"
    and old: "\<And>k. k < buffer_size rb \<Longrightarrow>
      (\<And>j. j < n \<Longrightarrow> k \<noteq> (write_index rb + j) mod buffer_size rb) \<Longrightarrow> buf ! k = buffer_ptr rb ! k"
    using put_force_eq [OF inv ptr] unfolding n_def data_def by blast
  have n: "n \<le> buffer_size rb" "len - n = len - buffer_size rb" by (auto simp: n_def)
  have m: "rt_ringbuffer_data_len rb \<le> buffer_size rb" by (rule data_len_le [OF inv])
  have "rb_inv (rb_force rb buf n) \<and> rb_list (rb_force rb buf n) =
      drop (rt_ringbuffer_data_len rb + n - buffer_size rb) (rb_list rb @ data)"
  proof (cases "n > buffer_size rb - rt_ringbuffer_data_len rb")
    case False
    then have fits: "rt_ringbuffer_data_len rb + n \<le> buffer_size rb" using m by simp
    moreover have "rb_force rb buf n = rb_advance_write rb buf n"
      using False by (simp add: rb_force_def Let_def)
    ultimately show ?thesis
      using rb_advance_write_inv(1) [OF inv fits buf] rb_write_list [OF inv _ buf, of data] new old ld
      by simp
  next
    case True
    then have ne: "read_mirror rb \<noteq> write_mirror rb" using ok by (auto simp: n_def)
    let ?r = "read_index rb" and ?m = "rt_ringbuffer_data_len rb" and ?N = "buffer_size rb"
    have w: "(write_index rb + j) mod ?N = (?r + ?m + j) mod ?N" for j
      by (simp add: write_index_inv [OF inv] mod_add_left_eq)
    have "ring_read buf ?N (?r + ?m + length data) ?N =
        drop (?m + length data - ?N) (ring_read (buffer_ptr rb) ?N ?r ?m) @ data"
      by (rule ring_overwrite) (use True m n ld new old inv in \<open>auto simp: w rb_inv_def\<close>)
    then show ?thesis
      using rb_force_full [OF inv ne n(1) True buf] ld m n by (simp add: rb_list_def)
  qed
  then show ?thesis
    using put ld by (simp add: n_def [symmetric] n(2) [symmetric] data_def [symmetric] Let_def)
qed

definition rb_example_full :: ringbuffer where
  "rb_example_full = \<lparr>buffer_ptr = [1, 2, 3, 4], read_mirror = False, read_index = 2,
     write_mirror = True, write_index = 2, buffer_size = 4\<rparr>"

lemma ringbuffer_put_force_keeps_newest_witness:
  "\<exists>rb'. rt_ringbuffer_put_force rb_example_full [7, 8, 9] 3 = Some (3, rb') \<and>
    rb_inv rb' \<and> rb_list rb' = [2, 7, 8, 9]"
proof -
  have inv: "rb_inv rb_example_full" by (simp add: rb_inv_def rb_example_full_def)
  have "rb_list rb_example_full = [3, 4, 1, 2]"
    by code_simp
  then show ?thesis
    using ringbuffer_put_force_keeps_newest [OF inv, of 3 "[7, 8, 9]"]
    by (simp add: rb_example_full_def)
qed

text \<open>In the remaining case, both positions in the same mirror and more bytes than
  there is space, \<^verbatim>\<open>rt_ringbuffer_put_force\<close> flips both mirror bits and leaves the
  buffer empty: the old and the new bytes are lost although it reports them written.\<close>

theorem ringbuffer_put_force_loses_data:
  assumes inv: "rb_inv rb" and ptr: "len \<le> length ptr"
    and eq: "read_mirror rb = write_mirror rb"
    and over: "rt_ringbuffer_data_len rb + min len (buffer_size rb) > buffer_size rb"
  shows "\<exists>rb'. rt_ringbuffer_put_force rb ptr len = Some (min len (buffer_size rb), rb') \<and>
    rb_list rb' = []"
proof -
  define n where "n = min len (buffer_size rb)"
  obtain buf where put: "rt_ringbuffer_put_force rb ptr len = Some (n, rb_force rb buf n)"
    using put_force_eq [OF inv ptr] unfolding n_def by blast
  have over': "n > buffer_size rb - rt_ringbuffer_data_len rb"
    using over data_len_le [OF inv] unfolding n_def by linarith
  note wrap = force_wraps [OF inv eq over']
  have "rt_ringbuffer_data_len (rb_force rb buf n) = 0"
    using wrap over' eq
    by (simp add: rb_force_def Let_def rb_advance_write_def rt_ringbuffer_data_len_def
      rt_ringbuffer_status_def)
  then have "rb_list (rb_force rb buf n) = []" by (metis length_0_conv length_rb_list)
  then show ?thesis using put by (simp add: n_def)
qed

lemma ringbuffer_put_force_loses_data_witness:
  "\<exists>rb'. rt_ringbuffer_put_force rb_example [7, 8, 9, 10] 4 = Some (4, rb') \<and> rb_list rb' = []"
  using ringbuffer_put_force_loses_data [OF rb_example_inv, of 4 "[7, 8, 9, 10]"]
  by (simp add: rb_example_def rt_ringbuffer_data_len_def rt_ringbuffer_status_def to_size_def)

text \<open>The single-byte forced write is not affected: a full buffer drops its oldest byte.\<close>

lemma rb_example_putchar_force:
  "map_option (\<lambda>(n, rb). (n, rb_list rb)) (rt_ringbuffer_putchar_force rb_example_full 9) =
    Some (1, [4, 1, 2, 9])"
  by code_simp

lemma putchar_force_put_force:
  assumes inv: "rb_inv rb"
  shows "rt_ringbuffer_putchar_force rb ch = rt_ringbuffer_put_force rb [ch] 1"
proof -
  have w: "write_index rb < buffer_size rb" "buffer_size rb \<le> length (buffer_ptr rb)"
    "buffer_size rb < 2 ^ 15" "\<not> 1 > buffer_size rb" using inv by (auto simp: rb_inv_def)
  have full: "rt_ringbuffer_status rb = RT_RINGBUFFER_FULL \<longleftrightarrow>
      buffer_size rb - rt_ringbuffer_data_len rb < 1"
    using inv by (auto simp: data_len_inv [OF inv] rt_ringbuffer_status_def rb_inv_def split: if_splits)
  have upd: "take i xs @ ch # drop (Suc i) xs = xs[i := ch]" if "i < length xs" for i xs
    using that by (simp add: upd_conv_take_nth_drop)
  show ?thesis
  proof (cases "int (write_index rb) = int (buffer_size rb) - 1")
    case True
    then have "buffer_size rb = Suc (write_index rb)" by simp
    then show ?thesis
      using w full inv
      by (simp add: rt_ringbuffer_putchar_force_def rt_ringbuffer_put_force_def Let_def
        space_len_inv u16_space memread_def memcpy_at_def array_set_def upd conv_simps)
  next
    case wr: False
    then show ?thesis
      using w full inv
      by (simp add: rt_ringbuffer_putchar_force_def rt_ringbuffer_put_force_def Let_def
        space_len_inv u16_space memread_def memcpy_at_def array_set_def upd conv_simps)
  qed
qed

subsection \<open>The ring buffer is a bounded queue of bytes\<close>

definition rb_enq :: "u8 \<Rightarrow> ringbuffer \<Rightarrow> (bool \<times> ringbuffer) option" where
  "rb_enq ch rb = map_option (\<lambda>(n, rb'). (n = 1, rb')) (rt_ringbuffer_putchar rb ch)"

definition rb_deq :: "ringbuffer \<Rightarrow> (u8 option \<times> ringbuffer) option" where
  "rb_deq rb = map_option (\<lambda>(n, ch, rb'). (if n = 1 then ch else None, rb')) (rt_ringbuffer_getchar rb)"

lemma rb_enq_eq:
  assumes inv: "rb_inv rb"
  shows "rt_ringbuffer_data_len rb = buffer_size rb \<Longrightarrow> \<exists>rb'. rb_enq ch rb = Some (False, rb') \<and>
      rb_inv rb' \<and> rb_list rb' = rb_list rb \<and> buffer_size rb' = buffer_size rb"
    and "rt_ringbuffer_data_len rb < buffer_size rb \<Longrightarrow> \<exists>rb'. rb_enq ch rb = Some (True, rb') \<and>
      rb_inv rb' \<and> rb_list rb' = rb_list rb @ [ch] \<and> buffer_size rb' = buffer_size rb"
proof -
  obtain buf where b: "rt_ringbuffer_put rb [ch] 1 =
      Some (min 1 (buffer_size rb - rt_ringbuffer_data_len rb),
        rb_advance_write rb buf (min 1 (buffer_size rb - rt_ringbuffer_data_len rb)))"
    "rb_inv (rb_advance_write rb buf (min 1 (buffer_size rb - rt_ringbuffer_data_len rb)))"
    "rb_list (rb_advance_write rb buf (min 1 (buffer_size rb - rt_ringbuffer_data_len rb))) =
      rb_list rb @ take (min 1 (buffer_size rb - rt_ringbuffer_data_len rb)) [ch]"
    using put_eq [OF inv, of 1 "[ch]"] by auto
  have size: "buffer_size (rb_advance_write rb buf n) = buffer_size rb" for n
    by (simp add: rb_advance_write_def)
  show "\<exists>rb'. rb_enq ch rb = Some (False, rb') \<and> rb_inv rb' \<and> rb_list rb' = rb_list rb \<and>
      buffer_size rb' = buffer_size rb" if "rt_ringbuffer_data_len rb = buffer_size rb"
    using b size that by (simp add: rb_enq_def putchar_put [OF inv])
  show "\<exists>rb'. rb_enq ch rb = Some (True, rb') \<and> rb_inv rb' \<and> rb_list rb' = rb_list rb @ [ch] \<and>
      buffer_size rb' = buffer_size rb" if lt: "rt_ringbuffer_data_len rb < buffer_size rb"
  proof -
    have one: "min 1 (buffer_size rb - rt_ringbuffer_data_len rb) = 1" using lt by simp
    show ?thesis
      using b size unfolding one by (simp add: rb_enq_def putchar_put [OF inv])
  qed
qed

lemma rb_deq_eq:
  assumes inv: "rb_inv rb"
  shows "rb_list rb = [] \<Longrightarrow> \<exists>rb'. rb_deq rb = Some (None, rb') \<and> rb_inv rb' \<and>
      rb_list rb' = [] \<and> buffer_size rb' = buffer_size rb"
    and "rb_list rb = x # xs \<Longrightarrow> \<exists>rb'. rb_deq rb = Some (Some x, rb') \<and> rb_inv rb' \<and>
      rb_list rb' = xs \<and> buffer_size rb' = buffer_size rb"
proof -
  show "\<exists>rb'. rb_deq rb = Some (None, rb') \<and> rb_inv rb' \<and> rb_list rb' = [] \<and> buffer_size rb' = buffer_size rb"
    if "rb_list rb = []"
    using length_rb_list [of rb] that inv by (simp add: rb_deq_def rt_ringbuffer_getchar_def)
  assume c: "rb_list rb = x # xs"
  then have n: "1 \<le> rt_ringbuffer_data_len rb" using length_rb_list [of rb] by simp
  then have "rt_ringbuffer_get rb 1 = Some (1, [x], rb_advance_read rb 1)"
    using get_eq [OF inv, of 1] c by (simp add: min_absorb1)
  then show "\<exists>rb'. rb_deq rb = Some (Some x, rb') \<and> rb_inv rb' \<and>
      rb_list rb' = xs \<and> buffer_size rb' = buffer_size rb"
    using rb_advance_read_inv [OF inv n] c
    by (simp add: rb_deq_def getchar_get [OF inv] rb_advance_read_def)
qed

interpretation rb: bounded_fifo rb_inv rb_list buffer_size rb_enq rb_deq
  by unfold_locales (auto simp: data_len_le intro: rb_enq_eq rb_deq_eq)

text \<open>C23: a fresh ring buffer is observably a bounded byte queue: no call of a script of
  \<^verbatim>\<open>putchar\<close> and \<^verbatim>\<open>getchar\<close> calls fails, every call, also one after a refused call, gets the answer of the
  abstract queue whose capacity is the pool size rounded down to a multiple of 4, and at the end the buffer
  holds the bytes of that queue.\<close>

theorem ringbuffer_refines_queue:
  assumes "4 \<le> sz" "sz < 2 ^ 15" "nat sz \<le> length pool"
  shows "\<exists>rb as rb'. rt_ringbuffer_init pool sz = Some rb \<and> fifo_run rb_enq rb_deq script rb = Some (as, rb') \<and>
    fifo_run (list_enq (nat sz - nat sz mod 4)) list_deq script [] = Some (as, rb_list rb')"
proof -
  obtain rb where "rt_ringbuffer_init pool sz = Some rb" "rb_inv rb" "rb_list rb = []"
    "buffer_size rb = nat sz - nat sz mod 4"
    using init_inv [of sz pool] assms by auto
  then show ?thesis using rb.run_refines_list [of rb script] by auto
qed

lemma ringbuffer_refines_queue_witness:
  "\<exists>rb rb'. rt_ringbuffer_init [0, 0, 0, 0, 0, 0] 6 = Some rb \<and>
    fifo_run rb_enq rb_deq [Put 1, Put 2, Get, Put 3, Put 4, Put 5, Put 6, Get, Get] rb =
    Some ([Accepted, Accepted, Got 1, Accepted, Accepted, Accepted, Refused, Got 2, Got 3], rb')"
  using ringbuffer_refines_queue [of 6 "[0, 0, 0, 0, 0, 0]"
      "[Put 1, Put 2, Get, Put 3, Put 4, Put 5, Put 6, Get, Get]"]
  by (auto simp: list_enq_def)

end
