(* ===== verification/Ringblk.thy ===== *)
theory Ringblk
  imports Prelude
begin

text \<open>
  The ring block buffer of \<^verbatim>\<open>components/drivers/src/ringblk_buf.c\<close>: a byte buffer handed out
  in contiguous blocks, in ring order, without copying. A block record is named by its index
  in \<^verbatim>\<open>blk_set\<close>, the singly linked \<^verbatim>\<open>blk_list\<close> is the list of the indices it links, and a
  buffer pointer is its offset from \<^verbatim>\<open>rbb->buf\<close>, a 32-bit number whose arithmetic wraps as
  that of the code. \<open>None\<close> is a failed \<^verbatim>\<open>RT_ASSERT\<close> or an access outside \<^verbatim>\<open>blk_set\<close>.
\<close>

section \<open>Data and operations\<close>

datatype rbb_status = BLK_UNUSED | BLK_INITED | BLK_PUT | BLK_GET

record rbb_blk =
  blk_status :: rbb_status
  blk_size :: u32
  blk_buf :: u32

record rbb =
  rbb_buf_size :: u32
  blk_set :: "rbb_blk list"
  blk_list :: "nat list"

record rbb_queue =
  q_blocks :: nat
  q_num :: nat

abbreviation blk_of :: "rbb \<Rightarrow> nat \<Rightarrow> rbb_blk" where
  "blk_of r i \<equiv> blk_set r ! i"

definition set_blk :: "nat \<Rightarrow> (rbb_blk \<Rightarrow> rbb_blk) \<Rightarrow> rbb \<Rightarrow> rbb" where
  "set_blk i f r = r\<lparr>blk_set := (blk_set r)[i := f (blk_set r ! i)]\<rparr>"

definition rt_rbb_init :: "u32 \<Rightarrow> rbb_blk list \<Rightarrow> rbb" where
  "rt_rbb_init buf_size set0 =
     \<lparr>rbb_buf_size = buf_size, blk_set = map (\<lambda>b. b\<lparr>blk_status := BLK_UNUSED\<rparr>) set0, blk_list = []\<rparr>"

text \<open>\<^verbatim>\<open>rt_rbb_create\<close>: the three results of \<^verbatim>\<open>rt_malloc\<close> are whether the record, whether the
  buffer and the block set it gives.\<close>

definition rt_rbb_create :: "u32 \<Rightarrow> bool \<Rightarrow> bool \<Rightarrow> rbb_blk list option \<Rightarrow> rbb option" where
  "rt_rbb_create buf_size got_rbb got_buf got_set =
     (if \<not> got_rbb then None else if \<not> got_buf then None
      else case got_set of None \<Rightarrow> None | Some s \<Rightarrow> Some (rt_rbb_init buf_size s))"

fun find_unused :: "nat \<Rightarrow> rbb_blk list \<Rightarrow> nat option" where
  "find_unused i [] = None"
| "find_unused i (b # bs) = (if blk_status b = BLK_UNUSED then Some i else find_unused (Suc i) bs)"

definition find_empty_blk_in_set :: "rbb \<Rightarrow> nat option" where
  "find_empty_blk_in_set r = find_unused 0 (blk_set r)"

definition blk_end :: "rbb_blk \<Rightarrow> u32" where
  "blk_end b = blk_buf b + blk_size b"

definition rbb_append :: "nat \<Rightarrow> u32 \<Rightarrow> u32 \<Rightarrow> rbb \<Rightarrow> rbb" where
  "rbb_append i buf sz r =
     set_blk i (\<lambda>_. \<lparr>blk_status = BLK_INITED, blk_size = sz, blk_buf = buf\<rparr>)
       (r\<lparr>blk_list := blk_list r @ [i]\<rparr>)"

definition rt_rbb_blk_alloc :: "u32 \<Rightarrow> rbb \<Rightarrow> (nat option \<times> rbb) option" where
  "rt_rbb_blk_alloc sz r =
     (if \<not> sz < 2 ^ 24 then None
      else case find_empty_blk_in_set r of
        None \<Rightarrow> Some (None, r)
      | Some new \<Rightarrow>
          if length (blk_list r) < length (blk_set r) then
            (if blk_list r \<noteq> [] then
               (let hd_b = blk_of r (hd (blk_list r)); tl_b = blk_of r (last (blk_list r)) in
                if blk_buf hd_b \<le> blk_buf tl_b then
                  (let empty1 = rbb_buf_size r - blk_end tl_b; empty2 = blk_buf hd_b in
                   if sz \<le> empty1 then Some (Some new, rbb_append new (blk_end tl_b) sz r)
                   else if sz \<le> empty2 then Some (Some new, rbb_append new 0 sz r)
                   else Some (None, r))
                else
                  (let empty1 = blk_buf hd_b - blk_end tl_b in
                   if sz \<le> empty1 then Some (Some new, rbb_append new (blk_end tl_b) sz r)
                   else Some (None, r)))
             else Some (Some new, rbb_append new 0 sz r))
          else Some (None, r))"

definition rt_rbb_blk_put :: "nat \<Rightarrow> rbb \<Rightarrow> rbb option" where
  "rt_rbb_blk_put i r =
     (if blk_status (blk_of r i) = BLK_INITED
      then Some (set_blk i (\<lambda>b. b\<lparr>blk_status := BLK_PUT\<rparr>) r) else None)"

fun first_put :: "rbb \<Rightarrow> nat list \<Rightarrow> nat option" where
  "first_put r [] = None"
| "first_put r (i # is) = (if blk_status (blk_of r i) = BLK_PUT then Some i else first_put r is)"

definition rt_rbb_blk_get :: "rbb \<Rightarrow> nat option \<times> rbb" where
  "rt_rbb_blk_get r =
     (case first_put r (blk_list r) of
        None \<Rightarrow> (None, r)
      | Some i \<Rightarrow> (Some i, set_blk i (\<lambda>b. b\<lparr>blk_status := BLK_GET\<rparr>) r))"

definition rt_rbb_blk_free :: "nat \<Rightarrow> rbb \<Rightarrow> rbb option" where
  "rt_rbb_blk_free i r =
     (if i < length (blk_set r) \<and> blk_status (blk_of r i) \<noteq> BLK_UNUSED
      then Some (set_blk i (\<lambda>b. b\<lparr>blk_status := BLK_UNUSED\<rparr>) (r\<lparr>blk_list := remove1 i (blk_list r)\<rparr>))
      else None)"

text \<open>
  The loop of \<^verbatim>\<open>rt_rbb_blk_queue_get\<close> over the remaining nodes: \<open>lst\<close> is \<^verbatim>\<open>last_block\<close>. A
  node taken out of the list keeps its \<^verbatim>\<open>next\<close> pointer, so the walk goes on as it would have.
\<close>

fun queue_get_loop ::
    "u32 \<Rightarrow> nat option \<Rightarrow> u32 \<Rightarrow> nat list \<Rightarrow> rbb_queue \<Rightarrow> rbb \<Rightarrow> u32 \<times> rbb_queue \<times> rbb" where
  "queue_get_loop max_len lst len [] q r = (len, q, r)"
| "queue_get_loop max_len lst len (i # is) q r =
     (let take_it = (\<lambda>q. queue_get_loop max_len (Some i) (len + blk_size (blk_of r i)) is
          (q\<lparr>q_num := q_num q + 1\<rparr>)
          (set_blk i (\<lambda>b. b\<lparr>blk_status := BLK_GET\<rparr>) (r\<lparr>blk_list := remove1 i (blk_list r)\<rparr>))) in
      case lst of
        None \<Rightarrow>
          if blk_status (blk_of r i) = BLK_PUT then take_it (q\<lparr>q_blocks := i, q_num := 0\<rparr>)
          else queue_get_loop max_len None len is q r
      | Some j \<Rightarrow>
          if blk_status (blk_of r i) \<noteq> BLK_PUT \<or> blk_buf (blk_of r i) < blk_buf (blk_of r j) \<or>
             max_len < len + blk_size (blk_of r i)
          then (len, q, r) else take_it q)"

definition rt_rbb_blk_queue_get :: "u32 \<Rightarrow> rbb_queue \<Rightarrow> rbb \<Rightarrow> u32 \<times> rbb_queue \<times> rbb" where
  "rt_rbb_blk_queue_get max_len q r = queue_get_loop max_len None 0 (blk_list r) q r"

text \<open>\<^verbatim>\<open>blk_queue->blocks[i]\<close> is the block record \<open>i\<close> places behind the first one.\<close>

definition rt_rbb_blk_queue_len :: "rbb_queue \<Rightarrow> rbb \<Rightarrow> u32 option" where
  "rt_rbb_blk_queue_len q r =
     (if q_blocks q + q_num q \<le> length (blk_set r)
      then Some (\<Sum>i \<leftarrow> [0..<q_num q]. blk_size (blk_of r (q_blocks q + i))) else None)"

definition rt_rbb_blk_queue_buf :: "rbb_queue \<Rightarrow> rbb \<Rightarrow> u32 option" where
  "rt_rbb_blk_queue_buf q r =
     (if q_blocks q < length (blk_set r) then Some (blk_buf (blk_of r (q_blocks q))) else None)"

fun free_blocks :: "nat \<Rightarrow> nat \<Rightarrow> rbb \<Rightarrow> rbb option" where
  "free_blocks i 0 r = Some r"
| "free_blocks i (Suc n) r = Option.bind (rt_rbb_blk_free i r) (free_blocks (Suc i) n)"

definition rt_rbb_blk_queue_free :: "rbb_queue \<Rightarrow> rbb \<Rightarrow> rbb option" where
  "rt_rbb_blk_queue_free q r = free_blocks (q_blocks q) (q_num q) r"

fun next_len_loop :: "rbb \<Rightarrow> nat option \<Rightarrow> u32 \<Rightarrow> nat list \<Rightarrow> u32" where
  "next_len_loop r lst len [] = len"
| "next_len_loop r lst len (i # is) =
     (case lst of
        None \<Rightarrow> if blk_status (blk_of r i) \<noteq> BLK_PUT then next_len_loop r None len is
                else next_len_loop r (Some i) (len + blk_size (blk_of r i)) is
      | Some j \<Rightarrow>
          if blk_status (blk_of r i) \<noteq> BLK_PUT \<or> blk_buf (blk_of r i) < blk_buf (blk_of r j) then len
          else next_len_loop r (Some i) (len + blk_size (blk_of r i)) is)"

definition rt_rbb_next_blk_queue_len :: "rbb \<Rightarrow> u32" where
  "rt_rbb_next_blk_queue_len r = next_len_loop r None 0 (blk_list r)"

section \<open>The ring\<close>

text \<open>Segments of memory in ascending order between two bounds; a segment is an offset and a size.\<close>

fun asc :: "nat \<Rightarrow> (nat \<times> nat) list \<Rightarrow> nat \<Rightarrow> bool" where
  "asc s [] e = (s \<le> e)"
| "asc s ((b, z) # r) e = (s \<le> b \<and> 0 < z \<and> asc (b + z) r e)"

text \<open>In list order the blocks ascend through the buffer and may start over once, below the head.\<close>

definition ring_ok :: "nat \<Rightarrow> (nat \<times> nat) list \<Rightarrow> bool" where
  "ring_ok n segs \<longleftrightarrow> (\<exists>hi lo. segs = hi @ lo \<and> asc 0 hi n \<and>
     (lo = [] \<or> hi \<noteq> [] \<and> asc 0 lo (fst (hd hi))))"

definition seg :: "rbb \<Rightarrow> nat \<Rightarrow> nat \<times> nat" where
  "seg r i = (unat (blk_buf (blk_of r i)), unat (blk_size (blk_of r i)))"

definition rbb_ok :: "rbb \<Rightarrow> bool" where
  "rbb_ok r \<longleftrightarrow> distinct (blk_list r) \<and>
     (\<forall>i < length (blk_set r). i \<in> set (blk_list r) \<longleftrightarrow> blk_status (blk_of r i) \<noteq> BLK_UNUSED) \<and>
     (\<forall>i \<in> set (blk_list r). i < length (blk_set r)) \<and>
     ring_ok (unat (rbb_buf_size r)) (map (seg r) (blk_list r))"

lemma asc_mono: "asc s segs e \<Longrightarrow> s' \<le> s \<Longrightarrow> e \<le> e' \<Longrightarrow> asc s' segs e'"
  by (induction segs arbitrary: s s') auto

lemma asc_le: "asc s segs e \<Longrightarrow> s \<le> e"
  by (induction segs arbitrary: s) fastforce+

lemma asc_bounds: "asc s segs e \<Longrightarrow> (b, z) \<in> set segs \<Longrightarrow> s \<le> b \<and> b + z \<le> e \<and> 0 < z"
proof (induction segs arbitrary: s)
  case (Cons x xs)
  then show ?case by (cases x) (fastforce dest: asc_le)
qed simp

lemma asc_append: "asc s (xs @ ys) e \<longleftrightarrow> (\<exists>m. asc s xs m \<and> asc m ys e)"
proof (induction xs arbitrary: s)
  case Nil
  show ?case by (auto intro: asc_mono)
next
  case (Cons x xs)
  then show ?case by (cases x) auto
qed

lemma asc_remove: "asc s (xs @ x # ys) e \<Longrightarrow> asc s (xs @ ys) e"
proof -
  assume "asc s (xs @ x # ys) e"
  then obtain m where m: "asc s xs m" "asc m (x # ys) e" by (auto simp: asc_append)
  then have "asc m ys e" by (cases x) (auto intro: asc_mono)
  with m(1) show ?thesis by (auto simp: asc_append)
qed

lemma asc_snoc:
  "asc s xs e \<Longrightarrow> xs \<noteq> [] \<Longrightarrow> 0 < z \<Longrightarrow> fst (last xs) + snd (last xs) + z \<le> e' \<Longrightarrow>
   asc s (xs @ [(fst (last xs) + snd (last xs), z)]) e'"
proof (induction xs arbitrary: s)
  case (Cons x xs)
  show ?case
  proof (cases xs)
    case Nil
    with Cons.prems show ?thesis by (cases x) auto
  next
    case (Cons y ys)
    with Cons.prems Cons.IH [of "fst x + snd x"] show ?thesis by (cases x) auto
  qed
qed simp

lemma asc_last: "asc s xs e \<Longrightarrow> xs \<noteq> [] \<Longrightarrow> fst (hd xs) \<le> fst (last xs)"
proof -
  assume a: "asc s xs e" and ne: "xs \<noteq> []"
  then have "asc (fst (hd xs)) xs e" by (cases xs) auto
  then show ?thesis using asc_bounds last_in_set [OF ne] by (metis prod.collapse)
qed

definition seg_disjoint :: "nat \<times> nat \<Rightarrow> nat \<times> nat \<Rightarrow> bool" where
  "seg_disjoint a b \<longleftrightarrow> fst a + snd a \<le> fst b \<or> fst b + snd b \<le> fst a"

lemma asc_disjoint:
  "asc s segs e \<Longrightarrow> i < j \<Longrightarrow> j < length segs \<Longrightarrow> seg_disjoint (segs ! i) (segs ! j)"
proof (induction segs arbitrary: s i j)
  case (Cons x xs)
  obtain b z where x: "x = (b, z)" by (cases x)
  have a: "asc (b + z) xs e" using Cons.prems(1) x by simp
  obtain j' where j: "j = Suc j'" using Cons.prems(2) by (cases j) auto
  show ?case
  proof (cases i)
    case 0
    have "xs ! j' \<in> set xs" using Cons.prems(3) j by simp
    then have "b + z \<le> fst (xs ! j')" using asc_bounds [OF a] by (metis prod.collapse)
    then show ?thesis by (simp add: 0 j x seg_disjoint_def)
  next
    case (Suc i')
    then show ?thesis using Cons.IH [OF a, of i' j'] Cons.prems(2,3) j by simp
  qed
qed simp

lemma ring_disjoint:
  assumes "ring_ok n segs" "i < j" "j < length segs"
  shows "seg_disjoint (segs ! i) (segs ! j)"
proof -
  obtain hi lo where s: "segs = hi @ lo" "asc 0 hi n" "lo = [] \<or> hi \<noteq> [] \<and> asc 0 lo (fst (hd hi))"
    using assms(1) by (auto simp: ring_ok_def)
  consider "j < length hi" | "length hi \<le> i" | "i < length hi" "length hi \<le> j" by linarith
  then show ?thesis
  proof cases
    case 1
    then show ?thesis using asc_disjoint [OF s(2) assms(2)] s(1) assms(2) by (simp add: nth_append)
  next
    case 2
    then have "lo \<noteq> []" using assms(2,3) s(1) by auto
    then show ?thesis
      using asc_disjoint [of 0 lo _ "i - length hi" "j - length hi"] s assms(2,3) 2
      by (auto simp: nth_append)
  next
    case 3
    then have lo: "lo \<noteq> []" using assms(3) s(1) by auto
    let ?l = "lo ! (j - length hi)"
    have "?l \<in> set lo" using 3 assms(3) s(1) by (simp add: less_diff_conv2)
    then have "fst ?l + snd ?l \<le> fst (hd hi)"
      using asc_bounds [of 0 lo] s(3) lo by (metis prod.collapse)
    moreover have "fst (hd hi) \<le> fst (hi ! i)"
    proof -
      have "asc (fst (hd hi)) hi n" using s(2) 3(1) by (cases hi) auto
      moreover have "hi ! i \<in> set hi" using 3(1) by simp
      ultimately show ?thesis using asc_bounds by (metis prod.collapse)
    qed
    ultimately show ?thesis using 3 s(1) by (simp add: nth_append seg_disjoint_def)
  qed
qed

lemma ring_bounds: "ring_ok n segs \<Longrightarrow> (b, z) \<in> set segs \<Longrightarrow> b + z \<le> n \<and> 0 < z"
proof -
  assume "ring_ok n segs" and m: "(b, z) \<in> set segs"
  then obtain hi lo where s: "segs = hi @ lo" "asc 0 hi n" "lo = [] \<or> hi \<noteq> [] \<and> asc 0 lo (fst (hd hi))"
    by (auto simp: ring_ok_def)
  have "fst (hd hi) \<le> n" if "hi \<noteq> []"
    using asc_bounds [OF s(2), of "fst (hd hi)" "snd (hd hi)"] that by simp
  then show ?thesis
    using m s asc_bounds [of 0 hi n b z] asc_bounds [of 0 lo "fst (hd hi)" b z] by force
qed

lemma ring_remove:
  assumes "ring_ok n (xs @ x # ys)"
  shows "ring_ok n (xs @ ys)"
proof -
  obtain hi lo where s: "xs @ x # ys = hi @ lo" "asc 0 hi n" "lo = [] \<or> hi \<noteq> [] \<and> asc 0 lo (fst (hd hi))"
    using assms by (auto simp: ring_ok_def)
  from s(1) consider h2 where "hi = xs @ x # h2" "ys = h2 @ lo"
    | l1 where "xs = hi @ l1" "lo = l1 @ x # ys"
    by (auto simp: append_eq_append_conv2 Cons_eq_append_conv)
  then show ?thesis
  proof cases
    case 1
    have a: "asc 0 (xs @ h2) n" using s(2) 1(1) asc_remove by simp
    have x: "fst x \<le> n" using asc_bounds [OF s(2), of "fst x" "snd x"] 1(1) by simp
    show ?thesis
    proof (cases "xs @ h2 = [] \<or> lo = []")
      case True
      then show ?thesis
      proof
        assume "lo = []"
        then show ?thesis using a 1(2) by (auto simp: ring_ok_def)
      next
        assume e: "xs @ h2 = []"
        then have "asc 0 lo n" using s(3) 1(1) x by (cases lo) (auto intro: asc_mono)
        then show ?thesis using e 1(2) unfolding ring_ok_def by (intro exI [of _ lo] exI [of _ "[]"]) simp
      qed
    next
      case False
      have "fst (hd hi) \<le> fst (hd (xs @ h2))"
      proof (cases xs)
        case Nil
        then have "asc 0 (x # h2) n" using s(2) 1(1) by simp
        then show ?thesis using Nil False 1(1) by (cases x; cases h2) auto
      qed (simp add: 1(1))
      then have "asc 0 lo (fst (hd (xs @ h2)))" using s(3) False by (auto intro: asc_mono)
      then show ?thesis
        using a False 1(2) unfolding ring_ok_def
        by (intro exI [of _ "xs @ h2"] exI [of _ lo]) simp
    qed
  next
    case 2
    then have "hi \<noteq> []" "asc 0 (l1 @ x # ys) (fst (hd hi))" using s(3) by auto
    then have "hi \<noteq> []" "asc 0 (l1 @ ys) (fst (hd hi))" by (simp_all add: asc_remove)
    then show ?thesis
      using s(2) 2(1) unfolding ring_ok_def by (intro exI [of _ hi] exI [of _ "l1 @ ys"]) simp
  qed
qed

lemma ring_snoc:
  assumes ok: "ring_ok n segs" and ne: "segs \<noteq> []" and z: "0 < z"
    and h: "h = fst (hd segs)" and t: "t = fst (last segs)" "e = t + snd (last segs)"
  shows "h \<le> t \<Longrightarrow> e + z \<le> n \<Longrightarrow> ring_ok n (segs @ [(e, z)])"
    "h \<le> t \<Longrightarrow> z \<le> h \<Longrightarrow> ring_ok n (segs @ [(0, z)])"
    "t < h \<Longrightarrow> e + z \<le> h \<Longrightarrow> ring_ok n (segs @ [(e, z)])"
    "t < h \<Longrightarrow> e \<le> h"
proof -
  obtain hi lo where s: "segs = hi @ lo" "asc 0 hi n" "lo = [] \<or> hi \<noteq> [] \<and> asc 0 lo (fst (hd hi))"
    using ok by (auto simp: ring_ok_def)
  have hi: "hi \<noteq> []" using s ne by auto
  have hh: "h = fst (hd hi)" using hi s(1) h by simp
  have lo: "lo \<noteq> [] \<Longrightarrow> t < h \<and> e \<le> h"
    using s hh t asc_bounds [of 0 lo h t "snd (last lo)"] by (auto simp: last_in_set)
  have l: "lo = [] \<longleftrightarrow> h \<le> t" using lo asc_last [OF s(2) hi] hh t s(1) by (cases "lo = []") auto
  show "ring_ok n (segs @ [(e, z)])" if "h \<le> t" "e + z \<le> n"
  proof -
    have "segs = hi" using l that(1) s(1) by simp
    then have "asc 0 (segs @ [(e, z)]) n" using asc_snoc [OF s(2) hi z, of n] that(2) t by simp
    then show ?thesis unfolding ring_ok_def by (intro exI [of _ "segs @ [(e, z)]"] exI [of _ "[]"]) simp
  qed
  show "ring_ok n (segs @ [(0, z)])" if "h \<le> t" "z \<le> h"
    using l that s hi hh z unfolding ring_ok_def by (intro exI [of _ hi] exI [of _ "[(0, z)]"]) simp
  show "ring_ok n (segs @ [(e, z)])" if "t < h" "e + z \<le> h"
  proof -
    have ne: "lo \<noteq> []" using l that(1) by simp
    then have "asc 0 lo h" using s(3) hh by simp
    then have "asc 0 (lo @ [(e, z)]) h" using asc_snoc [of 0 lo h z h] ne z that(2) t s(1) by simp
    then show ?thesis
      using s hi hh unfolding ring_ok_def by (intro exI [of _ hi] exI [of _ "lo @ [(e, z)]"]) simp
  qed
  show "t < h \<Longrightarrow> e \<le> h" using l lo by auto
qed

lemma find_unused_Some:
  "find_unused k bs = Some i \<Longrightarrow> k \<le> i \<and> i < k + length bs \<and> blk_status (bs ! (i - k)) = BLK_UNUSED"
proof (induction k bs rule: find_unused.induct)
  case (2 k b bs)
  then show ?case by (auto split: if_splits simp: nth_Cons' Suc_diff_le)
qed simp

lemma find_unused_None: "find_unused k bs = None \<longleftrightarrow> (\<forall>b \<in> set bs. blk_status b \<noteq> BLK_UNUSED)"
  by (induction k bs rule: find_unused.induct) auto

lemma seg_set_blk:
  "i < length (blk_set r) \<Longrightarrow> seg (set_blk i f r) j = (if j = i
     then (unat (blk_buf (f (blk_of r i))), unat (blk_size (f (blk_of r i)))) else seg r j)"
  by (simp add: seg_def set_blk_def nth_list_update)

lemma set_blk_simps [simp]:
  "blk_list (set_blk i f r) = blk_list r" "rbb_buf_size (set_blk i f r) = rbb_buf_size r"
  "length (blk_set (set_blk i f r)) = length (blk_set r)"
  "seg (r\<lparr>blk_list := l\<rparr>) = seg r"
  by (auto simp: set_blk_def seg_def)

lemma rbb_append_ok:
  assumes ok: "rbb_ok r" and i: "find_empty_blk_in_set r = Some i"
    and ring: "ring_ok (unat (rbb_buf_size r)) (map (seg r) (blk_list r) @ [(unat b, unat z)])"
  shows "rbb_ok (rbb_append i b z r)" "i \<notin> set (blk_list r)" "i < length (blk_set r)"
proof -
  have u: "i < length (blk_set r)" "blk_status (blk_of r i) = BLK_UNUSED"
    using find_unused_Some [OF i [unfolded find_empty_blk_in_set_def]] by auto
  then show n: "i \<notin> set (blk_list r)" "i < length (blk_set r)" using ok by (auto simp: rbb_ok_def)
  have m: "map (seg (rbb_append i b z r)) (blk_list (rbb_append i b z r)) =
      map (seg r) (blk_list r) @ [(unat b, unat z)]"
    using u n by (auto simp: rbb_append_def seg_set_blk)
  have "ring_ok (unat (rbb_buf_size (rbb_append i b z r)))
      (map (seg (rbb_append i b z r)) (blk_list (rbb_append i b z r)))"
    unfolding m using ring by (simp add: rbb_append_def)
  moreover have "distinct (blk_list (rbb_append i b z r))"
    "\<forall>j \<in> set (blk_list (rbb_append i b z r)). j < length (blk_set (rbb_append i b z r))"
    "\<forall>j < length (blk_set (rbb_append i b z r)). j \<in> set (blk_list (rbb_append i b z r)) \<longleftrightarrow>
       blk_status (blk_of (rbb_append i b z r) j) \<noteq> BLK_UNUSED"
    using ok u n by (auto simp: rbb_ok_def rbb_append_def set_blk_def nth_list_update)
  ultimately show "rbb_ok (rbb_append i b z r)" by (simp add: rbb_ok_def)
qed

lemma alloc_ok:
  assumes ok: "rbb_ok r" and sz: "0 < sz" "sz < 2 ^ 24" "sz \<le> rbb_buf_size r"
  obtains new r' where "rt_rbb_blk_alloc sz r = Some (new, r')" "rbb_ok r'"
    "rbb_buf_size r' = rbb_buf_size r"
    "case new of None \<Rightarrow> r' = r
     | Some i \<Rightarrow> i \<notin> set (blk_list r) \<and> blk_list r' = blk_list r @ [i] \<and>
         blk_size (blk_of r' i) = sz \<and> blk_status (blk_of r' i) = BLK_INITED \<and>
         (\<forall>j. j \<noteq> i \<longrightarrow> blk_of r' j = blk_of r j)"
proof (cases "find_empty_blk_in_set r")
  case None
  then show thesis using that [of None r] sz ok by (simp add: rt_rbb_blk_alloc_def)
next
  case (Some i)
  note res = that
  let ?n = "unat (rbb_buf_size r)" and ?segs = "map (seg r) (blk_list r)"
  have took: thesis
    if a: "rt_rbb_blk_alloc sz r = Some (Some i, rbb_append i b sz r)"
      and ring: "ring_ok ?n (?segs @ [(unat b, unat sz)])" for b
  proof -
    note ap = rbb_append_ok [OF ok Some ring]
    show thesis
      by (rule res [OF a ap(1)])
        (use ap in \<open>auto simp: rbb_append_def set_blk_def nth_list_update\<close>)
  qed
  have none: thesis if "rt_rbb_blk_alloc sz r = Some (None, r)"
    by (rule res [OF that ok]) simp_all
  have sz0: "0 < unat sz" using sz(1) by (simp add: word_less_nat_alt)
  show thesis
  proof (cases "length (blk_list r) < length (blk_set r)")
    case False
    then show thesis using none Some sz by (simp add: rt_rbb_blk_alloc_def)
  next
    case len: True
    show thesis
    proof (cases "blk_list r = []")
      case True
      have "ring_ok ?n [(0, unat sz)]"
        using sz sz0 unfolding ring_ok_def
        by (intro exI [of _ "[(0, unat sz)]"] exI [of _ "[]"]) (simp add: word_le_nat_alt)
      then show thesis using took [of 0] Some len sz True by (simp add: rt_rbb_blk_alloc_def)
    next
      case False
      let ?h = "blk_of r (hd (blk_list r))" and ?t = "blk_of r (last (blk_list r))"
      have ring: "ring_ok ?n ?segs" using ok by (simp add: rbb_ok_def)
      have ne: "?segs \<noteq> []" using False by simp
      have h: "unat (blk_buf ?h) = fst (hd ?segs)" and t: "unat (blk_buf ?t) = fst (last ?segs)"
        using False by (simp_all add: hd_map last_map seg_def)
      have tb: "unat (blk_buf ?t) + unat (blk_size ?t) \<le> ?n"
        using ring_bounds [OF ring, of "unat (blk_buf ?t)" "unat (blk_size ?t)"] False
        by (force simp: seg_def)
      have n32: "?n < 2 ^ 32" using unsigned_less [of "rbb_buf_size r"] by simp
      have e: "unat (blk_end ?t) = unat (blk_buf ?t) + snd (last ?segs)"
        using tb n32 False by (simp add: blk_end_def unat_word_ariths last_map seg_def)
      note rs = ring_snoc [OF ring ne sz0 h t e]
      have el: "unat (blk_end ?t) \<le> ?n" using tb e False by (simp add: last_map seg_def)
      consider (lin) "blk_buf ?h \<le> blk_buf ?t" "sz \<le> rbb_buf_size r - blk_end ?t"
        | (start) "blk_buf ?h \<le> blk_buf ?t" "\<not> sz \<le> rbb_buf_size r - blk_end ?t" "sz \<le> blk_buf ?h"
        | (lin_no) "blk_buf ?h \<le> blk_buf ?t" "\<not> sz \<le> rbb_buf_size r - blk_end ?t" "\<not> sz \<le> blk_buf ?h"
        | (wrap) "\<not> blk_buf ?h \<le> blk_buf ?t" "sz \<le> blk_buf ?h - blk_end ?t"
        | (wrap_no) "\<not> blk_buf ?h \<le> blk_buf ?t" "\<not> sz \<le> blk_buf ?h - blk_end ?t"
        by blast
      then show thesis
      proof cases
        case lin
        have "unat (blk_end ?t) + unat sz \<le> ?n"
          using lin(2) el by (simp add: word_le_nat_alt unat_sub)
        then have "ring_ok ?n (?segs @ [(unat (blk_end ?t), unat sz)])"
          using rs(1) lin(1) by (simp add: word_le_nat_alt)
        then show thesis
          using took Some len sz False lin by (simp add: rt_rbb_blk_alloc_def Let_def)
      next
        case start
        have "ring_ok ?n (?segs @ [(unat (0 :: u32), unat sz)])"
          using rs(2) start(1,3) by (simp add: word_le_nat_alt)
        then show thesis
          using took Some len sz False start by (simp add: rt_rbb_blk_alloc_def Let_def)
      next
        case wrap
        have "unat (blk_buf ?t) < unat (blk_buf ?h)" using wrap(1) by (simp add: word_le_nat_alt)
        moreover from rs(4) [OF this] have "unat (blk_end ?t) + unat sz \<le> unat (blk_buf ?h)"
          using wrap(2) by (simp add: word_le_nat_alt unat_sub)
        ultimately have "ring_ok ?n (?segs @ [(unat (blk_end ?t), unat sz)])" by (rule rs(3))
        then show thesis
          using took Some len sz False wrap by (simp add: rt_rbb_blk_alloc_def Let_def)
      next
        case lin_no
        then show thesis using none Some len sz False by (simp add: rt_rbb_blk_alloc_def Let_def)
      next
        case wrap_no
        then show thesis using none Some len sz False by (simp add: rt_rbb_blk_alloc_def Let_def)
      qed
    qed
  qed
qed

lemma status_ok:
  assumes ok: "rbb_ok r" and i: "i \<in> set (blk_list r)" and st: "s \<noteq> BLK_UNUSED"
  shows "rbb_ok (set_blk i (\<lambda>b. b\<lparr>blk_status := s\<rparr>) r)"
proof -
  have il: "i < length (blk_set r)" using ok i by (simp add: rbb_ok_def)
  have m: "map (seg (set_blk i (\<lambda>b. b\<lparr>blk_status := s\<rparr>) r)) l = map (seg r) l" for l
    using il by (auto simp: seg_set_blk) (simp add: seg_def)
  show ?thesis
    using ok i st il by (auto simp: rbb_ok_def m) (auto simp: set_blk_def nth_list_update split: if_splits)
qed

lemma first_put_Some:
  "first_put r is = Some i \<Longrightarrow> \<exists>xs ys. is = xs @ i # ys \<and> blk_status (blk_of r i) = BLK_PUT \<and>
     (\<forall>j \<in> set xs. blk_status (blk_of r j) \<noteq> BLK_PUT)"
proof (induction r "is" rule: first_put.induct)
  case (2 r j js)
  show ?case
  proof (cases "blk_status (blk_of r j) = BLK_PUT")
    case True
    with 2 show ?thesis by (intro exI [of _ "[]"] exI [of _ js]) simp
  next
    case False
    with 2 obtain xs ys where "js = xs @ i # ys" "blk_status (blk_of r i) = BLK_PUT"
      "\<forall>j \<in> set xs. blk_status (blk_of r j) \<noteq> BLK_PUT" by auto
    with False show ?thesis by (intro exI [of _ "j # xs"] exI [of _ ys]) simp
  qed
qed simp

lemma first_put_None: "first_put r is = None \<longleftrightarrow> (\<forall>j \<in> set is. blk_status (blk_of r j) \<noteq> BLK_PUT)"
  by (induction r "is" rule: first_put.induct) auto

lemma free_ok:
  assumes ok: "rbb_ok r" and f: "rt_rbb_blk_free i r = Some r'"
  shows "rbb_ok r'" "blk_list r' = remove1 i (blk_list r)" "rbb_buf_size r' = rbb_buf_size r"
    "i \<in> set (blk_list r)"
proof -
  have il: "i < length (blk_set r)" "blk_status (blk_of r i) \<noteq> BLK_UNUSED"
    and r': "r' = set_blk i (\<lambda>b. b\<lparr>blk_status := BLK_UNUSED\<rparr>) (r\<lparr>blk_list := remove1 i (blk_list r)\<rparr>)"
    using f by (auto simp: rt_rbb_blk_free_def split: if_splits)
  then show i: "i \<in> set (blk_list r)" using ok by (simp add: rbb_ok_def)
  show l: "blk_list r' = remove1 i (blk_list r)" and sz: "rbb_buf_size r' = rbb_buf_size r"
    by (simp_all add: r')
  obtain xs ys where xy: "blk_list r = xs @ i # ys" "i \<notin> set xs" using i split_list_first by metis
  have "ring_ok (unat (rbb_buf_size r)) (map (seg r) xs @ map (seg r) ys)"
    using ring_remove [of _ "map (seg r) xs" "seg r i" "map (seg r) ys"] ok xy by (simp add: rbb_ok_def)
  moreover have "seg r' = seg r"
    using il by (auto simp: r' seg_def set_blk_def nth_list_update)
  moreover have "blk_list r' = xs @ ys"
    using xy by (simp add: l remove1_append)
  ultimately have "ring_ok (unat (rbb_buf_size r')) (map (seg r') (blk_list r'))" by (simp add: sz)
  moreover have "distinct (blk_list r')" "\<forall>j \<in> set (blk_list r'). j < length (blk_set r')"
    "\<forall>j < length (blk_set r'). j \<in> set (blk_list r') \<longleftrightarrow> blk_status (blk_of r' j) \<noteq> BLK_UNUSED"
    using ok il xy by (auto simp: rbb_ok_def l remove1_append r' set_blk_def nth_list_update)
  ultimately show "rbb_ok r'" by (simp add: rbb_ok_def)
qed

section \<open>Clients\<close>

datatype rbb_op = RAlloc u32 | RPut nat | RGet | RFree nat

fun rbb_step :: "rbb_op \<Rightarrow> rbb \<Rightarrow> rbb option" where
  "rbb_step (RAlloc sz) r = map_option snd (rt_rbb_blk_alloc sz r)"
| "rbb_step (RPut i) r = rt_rbb_blk_put i r"
| "rbb_step RGet r = Some (snd (rt_rbb_blk_get r))"
| "rbb_step (RFree i) r = rt_rbb_blk_free i r"

text \<open>What is asked of clients: they put and free blocks that were allocated, and ask for at least a byte and no
  more than the buffer has. The code does not check the size when the list is empty (\<open>alloc_empty_unchecked\<close>).\<close>

fun rbb_valid :: "rbb_op \<Rightarrow> rbb \<Rightarrow> bool" where
  "rbb_valid (RAlloc sz) r = (0 < sz \<and> sz < 2 ^ 24 \<and> sz \<le> rbb_buf_size r)"
| "rbb_valid (RPut i) r = (i \<in> set (blk_list r) \<and> blk_status (blk_of r i) = BLK_INITED)"
| "rbb_valid RGet r = True"
| "rbb_valid (RFree i) r = (i \<in> set (blk_list r))"

inductive rbb_reach :: "u32 \<Rightarrow> rbb \<Rightarrow> bool" where
  init: "rbb_reach n (rt_rbb_init n set0)"
| step: "rbb_reach n r \<Longrightarrow> rbb_valid op r \<Longrightarrow> rbb_step op r = Some r' \<Longrightarrow> rbb_reach n r'"

lemma step_ok:
  assumes ok: "rbb_ok r" and v: "rbb_valid op r"
  obtains r' where "rbb_step op r = Some r'" "rbb_ok r'" "rbb_buf_size r' = rbb_buf_size r"
proof (cases op)
  case (RAlloc sz)
  then have sz: "0 < sz" "sz < 2 ^ 24" "sz \<le> rbb_buf_size r" using v by auto
  obtain new r' where "rt_rbb_blk_alloc sz r = Some (new, r')" "rbb_ok r'"
    "rbb_buf_size r' = rbb_buf_size r"
    by (rule alloc_ok [OF ok sz])
  then show thesis using that RAlloc by simp
next
  case (RPut i)
  then show thesis
    using that [of "set_blk i (\<lambda>b. b\<lparr>blk_status := BLK_PUT\<rparr>) r"] v status_ok [OF ok, of i BLK_PUT]
    by (simp add: rt_rbb_blk_put_def)
next
  case RGet
  show thesis
  proof (cases "first_put r (blk_list r)")
    case None
    then show thesis using that [of r] ok RGet by (simp add: rt_rbb_blk_get_def)
  next
    case (Some i)
    then have "i \<in> set (blk_list r)" using first_put_Some by fastforce
    then show thesis
      using that [of "set_blk i (\<lambda>b. b\<lparr>blk_status := BLK_GET\<rparr>) r"] RGet Some status_ok [OF ok, of i BLK_GET]
      by (simp add: rt_rbb_blk_get_def)
  qed
next
  case (RFree i)
  then have "i < length (blk_set r)" "blk_status (blk_of r i) \<noteq> BLK_UNUSED"
    using v ok by (auto simp: rbb_ok_def)
  then obtain r' where r': "rt_rbb_blk_free i r = Some r'" by (simp add: rt_rbb_blk_free_def)
  then show thesis using that RFree free_ok [OF ok r'] by simp
qed

lemma init_ok: "rbb_ok (rt_rbb_init n set0)"
  by (simp add: rbb_ok_def rt_rbb_init_def ring_ok_def)

lemma reach_ok: "rbb_reach n r \<Longrightarrow> rbb_ok r \<and> rbb_buf_size r = n"
proof (induction rule: rbb_reach.induct)
  case (init n set0)
  show ?case using init_ok by (simp add: rt_rbb_init_def)
next
  case (step n r op r')
  then have ok: "rbb_ok r" and n: "rbb_buf_size r = n" by simp_all
  obtain r2 where "rbb_step op r = Some r2" "rbb_ok r2" "rbb_buf_size r2 = rbb_buf_size r"
    by (rule step_ok [OF ok step.hyps(2)])
  with step.hyps(3) n show ?case by simp
qed

text \<open>C24: for clients that ask for blocks of at least a byte, below \<open>2^24\<close> bytes and no larger than the buffer, put
  and free only blocks that are in the list, and get blocks one by one, not with \<^verbatim>\<open>rt_rbb_blk_queue_get\<close>
  (\<open>queue_get_loses_blocks\<close>): no operation fails, the blocks in the list lie inside the buffer and never overlap,
  and they are exactly the blocks in use.\<close>

theorem rbb_blocks_disjoint:
  assumes "rbb_reach n r"
  shows "(\<forall>op. rbb_valid op r \<longrightarrow> rbb_step op r \<noteq> None) \<and>
    (\<forall>i \<in> set (blk_list r). snd (seg r i) > 0 \<and> fst (seg r i) + snd (seg r i) \<le> unat n \<and>
       (\<forall>j \<in> set (blk_list r). j \<noteq> i \<longrightarrow> seg_disjoint (seg r i) (seg r j))) \<and>
    (\<forall>i < length (blk_set r). i \<in> set (blk_list r) \<longleftrightarrow> blk_status (blk_of r i) \<noteq> BLK_UNUSED)"
proof -
  have ok: "rbb_ok r" and n: "rbb_buf_size r = n" using reach_ok [OF assms] by auto
  have ring: "ring_ok (unat n) (map (seg r) (blk_list r))" using ok n by (simp add: rbb_ok_def)
  have "snd (seg r i) > 0 \<and> fst (seg r i) + snd (seg r i) \<le> unat n" if "i \<in> set (blk_list r)" for i
    using ring_bounds [OF ring, of "fst (seg r i)" "snd (seg r i)"] that by force
  moreover have "seg_disjoint (seg r i) (seg r j)"
    if ij: "i \<in> set (blk_list r)" "j \<in> set (blk_list r)" "j \<noteq> i" for i j
  proof -
    obtain a b where ab: "a < length (blk_list r)" "blk_list r ! a = i"
      "b < length (blk_list r)" "blk_list r ! b = j"
      using ij(1,2) by (metis in_set_conv_nth)
    then have "a < b \<or> b < a" using ij(3) by (metis nat_neq_iff)
    then show ?thesis
      using ring_disjoint [OF ring, of a b] ring_disjoint [OF ring, of b a] ab
      by (auto simp: seg_disjoint_def)
  qed
  moreover have "\<forall>op. rbb_valid op r \<longrightarrow> rbb_step op r \<noteq> None"
  proof (intro allI impI)
    fix op assume "rbb_valid op r"
    from step_ok [OF ok this] show "rbb_step op r \<noteq> None" by blast
  qed
  ultimately show ?thesis using ok by (auto simp: rbb_ok_def)
qed

text \<open>An empty list is given any block whatever the size of the buffer.\<close>

lemma alloc_empty_unchecked:
  "blk_list r = [] \<Longrightarrow> sz < 2 ^ 24 \<Longrightarrow> find_empty_blk_in_set r = Some i \<Longrightarrow>
   rt_rbb_blk_alloc sz r = Some (Some i, rbb_append i 0 sz r)"
  using find_unused_Some [of 0 "blk_set r" i]
  by (auto simp: rt_rbb_blk_alloc_def find_empty_blk_in_set_def)

lemma queue_loops_agree:
  assumes "distinct is" "\<And>i. i \<in> set is \<Longrightarrow> blk_of r' i = blk_of r i"
    "\<And>j. lst = Some j \<Longrightarrow> blk_buf (blk_of r' j) = blk_buf (blk_of r j)"
    "\<And>i. i \<in> set is \<Longrightarrow> i < length (blk_set r')"
  shows "fst (queue_get_loop 0xFFFFFFFF lst len is q r') = next_len_loop r lst len is"
  using assms
proof (induction "is" arbitrary: lst len q r')
  case (Cons i is')
  let ?r = "set_blk i (\<lambda>b. b\<lparr>blk_status := BLK_GET\<rparr>) (r'\<lparr>blk_list := remove1 i (blk_list r')\<rparr>)"
  have il: "i < length (blk_set r')" using Cons.prems(4) by simp
  have b: "blk_of ?r j = (if j = i then (blk_of r' i)\<lparr>blk_status := BLK_GET\<rparr> else blk_of r' j)" for j
    using il by (simp add: set_blk_def nth_list_update)
  have i: "blk_of r' i = blk_of r i" using Cons.prems(2) by simp
  have big: "\<not> 0xFFFFFFFF < (x :: u32)" for x
  proof -
    have "unat x < 2 ^ 32" using unsigned_less [of x] by simp
    then show ?thesis by (simp add: word_less_nat_alt)
  qed
  have take_it: "fst (queue_get_loop 0xFFFFFFFF (Some i) (len + blk_size (blk_of r i)) is' q' ?r) =
      next_len_loop r (Some i) (len + blk_size (blk_of r i)) is'" for q'
    by (rule Cons.IH) (use Cons.prems b i in \<open>auto simp: set_blk_def nth_list_update\<close>)
  have skip: "fst (queue_get_loop 0xFFFFFFFF None len is' q r') = next_len_loop r None len is'"
    by (rule Cons.IH) (use Cons.prems in auto)
  show ?case
    using Cons.prems(3) take_it skip i big by (cases lst) (auto simp: Let_def)
qed simp

text \<open>\<^verbatim>\<open>rt_rbb_next_blk_queue_len\<close> announces exactly the length that an unlimited
  \<^verbatim>\<open>rt_rbb_blk_queue_get\<close> then returns.\<close>

theorem next_queue_len_predicts:
  assumes "rbb_ok r"
  shows "fst (rt_rbb_blk_queue_get 0xFFFFFFFF q r) = rt_rbb_next_blk_queue_len r"
  unfolding rt_rbb_blk_queue_get_def rt_rbb_next_blk_queue_len_def
  by (rule queue_loops_agree) (use assms in \<open>simp_all add: rbb_ok_def\<close>)

definition demo_rbb :: rbb where
  "demo_rbb = rt_rbb_init 100
     (let b = \<lparr>blk_status = BLK_UNUSED, blk_size = 0, blk_buf = 0\<rparr> in [b, b, b])"

lemma rbb_blocks_disjoint_witness:
  "\<exists>r. rbb_reach 100 r \<and> blk_list r = [0, 1] \<and> seg_disjoint (seg r 0) (seg r 1)"
proof -
  let ?b0 = "\<lparr>blk_status = BLK_INITED, blk_size = 60, blk_buf = 0\<rparr>"
  let ?b1 = "\<lparr>blk_status = BLK_INITED, blk_size = 30, blk_buf = 60\<rparr>"
  let ?u = "\<lparr>blk_status = BLK_UNUSED, blk_size = 0, blk_buf = 0\<rparr>"
  let ?r1 = "\<lparr>rbb_buf_size = 100, blk_set = [?b0, ?u, ?u], blk_list = [0]\<rparr>"
  let ?r2 = "\<lparr>rbb_buf_size = 100, blk_set = [?b0, ?b1, ?u], blk_list = [0, 1]\<rparr>"
  note defs = rt_rbb_blk_alloc_def find_empty_blk_in_set_def rbb_append_def set_blk_def blk_end_def
    demo_rbb_def rt_rbb_init_def Let_def
  have r0: "rbb_reach 100 demo_rbb" unfolding demo_rbb_def by (rule rbb_reach.init)
  have r1: "rbb_reach 100 ?r1"
    by (rule rbb_reach.step [OF r0, of "RAlloc 60"]) (simp_all add: defs)
  have r2: "rbb_reach 100 ?r2"
    by (rule rbb_reach.step [OF r1, of "RAlloc 30"]) (simp_all add: defs)
  show ?thesis
    using r2 rbb_blocks_disjoint [OF r2] by (intro exI [of _ ?r2]) simp
qed

text \<open>\<^verbatim>\<open>rt_rbb_blk_queue_get\<close> may return more than the limit it is given, and it unlinks
  blocks that are still being read: the next allocation is given the same bytes.\<close>

theorem queue_get_loses_blocks:
  "\<exists>r q r1 r2. rbb_reach 100 r \<and>
     rt_rbb_blk_queue_get 10 \<lparr>q_blocks = 0, q_num = 0\<rparr> r = (60, q, r1) \<and>
     q = \<lparr>q_blocks = 0, q_num = 1\<rparr> \<and> blk_status (blk_of r1 0) = BLK_GET \<and>
     rt_rbb_blk_alloc 60 r1 = Some (Some 1, r2) \<and> blk_status (blk_of r2 0) = BLK_GET \<and>
     seg r2 0 = (0, 60) \<and> seg r2 1 = (0, 60)"
proof -
  let ?b0 = "\<lparr>blk_status = BLK_INITED, blk_size = 60, blk_buf = 0\<rparr>"
  let ?u = "\<lparr>blk_status = BLK_UNUSED, blk_size = 0, blk_buf = 0\<rparr>"
  let ?r1 = "\<lparr>rbb_buf_size = 100, blk_set = [?b0, ?u, ?u], blk_list = [0]\<rparr>"
  let ?r2 = "\<lparr>rbb_buf_size = 100, blk_set = [?b0\<lparr>blk_status := BLK_PUT\<rparr>, ?u, ?u], blk_list = [0]\<rparr>"
  let ?r3 = "\<lparr>rbb_buf_size = 100, blk_set = [?b0\<lparr>blk_status := BLK_GET\<rparr>, ?u, ?u], blk_list = []\<rparr>"
  let ?r4 = "\<lparr>rbb_buf_size = 100, blk_set = [?b0\<lparr>blk_status := BLK_GET\<rparr>, ?b0, ?u], blk_list = [1]\<rparr>"
  note defs = rt_rbb_blk_alloc_def find_empty_blk_in_set_def rbb_append_def set_blk_def blk_end_def
    demo_rbb_def rt_rbb_init_def rt_rbb_blk_put_def rt_rbb_blk_queue_get_def Let_def
  have r0: "rbb_reach 100 demo_rbb" unfolding demo_rbb_def by (rule rbb_reach.init)
  have r1: "rbb_reach 100 ?r1"
    by (rule rbb_reach.step [OF r0, of "RAlloc 60"]) (simp_all add: defs)
  have r2: "rbb_reach 100 ?r2"
    by (rule rbb_reach.step [OF r1, of "RPut 0"]) (simp_all add: defs)
  have g: "rt_rbb_blk_queue_get 10 \<lparr>q_blocks = 0, q_num = 0\<rparr> ?r2 = (60, \<lparr>q_blocks = 0, q_num = 1\<rparr>, ?r3)"
    by (simp add: defs)
  have a: "rt_rbb_blk_alloc 60 ?r3 = Some (Some 1, ?r4)" by (simp add: defs)
  show ?thesis
    by (rule exI [of _ ?r2], rule exI [of _ "\<lparr>q_blocks = 0, q_num = 1\<rparr>"], rule exI [of _ ?r3],
        rule exI [of _ ?r4]) (use r2 g a in \<open>simp add: seg_def\<close>)
qed

lemma next_queue_len_predicts_witness:
  "fst (rt_rbb_blk_queue_get 0xFFFFFFFF \<lparr>q_blocks = 0, q_num = 0\<rparr>
     (rt_rbb_init 100 [])) = rt_rbb_next_blk_queue_len (rt_rbb_init 100 [])"
  using next_queue_len_predicts [OF init_ok] by blast

end
