(* ===== verification/Mem.thy ===== *)
theory Mem
  imports Prelude
begin

text \<open>
  The small-memory heap, \<^verbatim>\<open>rt-thread/src/mem.c\<close>: \<^verbatim>\<open>rt_system_heap_init\<close>,
  \<^verbatim>\<open>rt_malloc\<close>, \<^verbatim>\<open>rt_realloc\<close>, \<^verbatim>\<open>rt_calloc\<close>, \<^verbatim>\<open>rt_free\<close>,
  \<^verbatim>\<open>rt_memory_info\<close> and the consistency walk \<^verbatim>\<open>memcheck\<close>.

  The heap is a chain of blocks that tile the heap area. A block starts with a 12-byte
  \<^verbatim>\<open>struct heap_mem\<close> whose \<^verbatim>\<open>next\<close> and \<^verbatim>\<open>prev\<close> are offsets from
  \<^verbatim>\<open>heap_ptr\<close>. The model keeps the headers in a map from offsets to header records and
  the user data in a map from offsets to bytes; pointers into the heap (\<^verbatim>\<open>lfree\<close>,
  \<^verbatim>\<open>heap_end\<close>, \<^verbatim>\<open>mem\<close>) are their offsets, and the addresses given to and taken from
  the caller are absolute 32-bit values. All arithmetic is 32 bits wide, as the code's.
  \<open>heap_sem\<close> is the value of the semaphore that protects the heap: \<open>None\<close> is the result of
  a call that would stop in an \<^verbatim>\<open>RT_ASSERT\<close>, that would have to wait for the semaphore,
  or whose search loop never ends. The check \<^verbatim>\<open>RT_DEBUG_NOT_IN_INTERRUPT\<close> at the head of the calls is
  left out: the heap is a state of its own, without the interrupt nesting of the kernel, and its
  callers are taken to be threads.

  The abstract state of the heap is the list of its blocks, a flag (in use) and a size each,
  and \<open>heap_ok\<close> relates it to the headers.
\<close>

section \<open>State\<close>

record heap_mem =
  h_magic :: u16
  h_used :: u16
  h_next :: u32
  h_prev :: u32

record heap =
  heap_ptr :: u32
  hdr :: "nat \<Rightarrow> heap_mem"
  bytes :: "nat \<Rightarrow> u8"
  heap_end :: u32
  lfree :: u32
  heap_sem :: u16
  mem_size_aligned :: u32
  used_mem :: u32
  max_mem :: u32

definition HEAP_MAGIC :: u16 where "HEAP_MAGIC = 0x1ea0"
definition MIN_SIZE :: u32 where "MIN_SIZE = 12"
definition MIN_SIZE_ALIGNED :: u32 where "MIN_SIZE_ALIGNED = RT_ALIGN MIN_SIZE RT_ALIGN_SIZE"
definition SIZEOF_STRUCT_MEM :: u32 where "SIZEOF_STRUCT_MEM = RT_ALIGN 12 RT_ALIGN_SIZE"

definition mem_at :: "heap \<Rightarrow> u32 \<Rightarrow> heap_mem" where
  "mem_at h off = hdr h (unat off)"

definition mem_upd :: "(heap_mem \<Rightarrow> heap_mem) \<Rightarrow> u32 \<Rightarrow> heap \<Rightarrow> heap" where
  "mem_upd f off h = h\<lparr>hdr := (hdr h)(unat off := f (hdr h (unat off)))\<rparr>"

definition haddr :: "heap \<Rightarrow> u32 \<Rightarrow> u32" where
  "haddr h off = heap_ptr h + off"

definition heap_lock :: "heap \<Rightarrow> heap option" where
  "heap_lock h = (if heap_sem h = 0 then None else Some (h\<lparr>heap_sem := heap_sem h - 1\<rparr>))"

definition heap_unlock :: "heap \<Rightarrow> heap" where
  "heap_unlock h = h\<lparr>heap_sem := heap_sem h + 1\<rparr>"

section \<open>Operations\<close>

text \<open>
  The two halves of \<^verbatim>\<open>plug_holes\<close> end in the same three updates, for \<open>a\<close> the lower and \<open>b\<close>
  the upper of two neighbouring free blocks.
\<close>

definition merge_blocks :: "u32 \<Rightarrow> u32 \<Rightarrow> heap \<Rightarrow> heap" where
  "merge_blocks a b h =
     (let h = (if lfree h = b then h\<lparr>lfree := a\<rparr> else h);
          h = mem_upd (\<lambda>m. m\<lparr>h_next := h_next (mem_at h b)\<rparr>) a h
      in mem_upd (\<lambda>m. m\<lparr>h_prev := a\<rparr>) (h_next (mem_at h b)) h)"

definition plug_forward :: "u32 \<Rightarrow> heap \<Rightarrow> heap" where
  "plug_forward mem h =
     (let nmem = h_next (mem_at h mem) in
      if mem \<noteq> nmem \<and> h_used (mem_at h nmem) = 0 \<and> nmem \<noteq> heap_end h
      then merge_blocks mem nmem h else h)"

definition plug_backward :: "u32 \<Rightarrow> heap \<Rightarrow> heap" where
  "plug_backward mem h =
     (let pmem = h_prev (mem_at h mem) in
      if pmem \<noteq> mem \<and> h_used (mem_at h pmem) = 0
      then merge_blocks pmem mem h else h)"

definition plug_holes :: "u32 \<Rightarrow> heap \<Rightarrow> heap option" where
  "plug_holes mem h =
     do {
       rt_assert (heap_ptr h \<le> haddr h mem);
       rt_assert (haddr h mem < haddr h (heap_end h));
       rt_assert (h_used (mem_at h mem) = 0);
       Some (plug_backward mem (plug_forward mem h))
     }"

definition rt_system_heap_init :: "u32 \<Rightarrow> u32 \<Rightarrow> heap \<Rightarrow> heap" where
  "rt_system_heap_init begin_addr end_addr h =
     (let begin_align = RT_ALIGN begin_addr RT_ALIGN_SIZE;
          end_align = RT_ALIGN_DOWN end_addr RT_ALIGN_SIZE in
      if 2 * SIZEOF_STRUCT_MEM < end_align \<and> begin_align \<le> end_align - 2 * SIZEOF_STRUCT_MEM then
        (let sz = end_align - begin_align - 2 * SIZEOF_STRUCT_MEM;
             h = h\<lparr>mem_size_aligned := sz, heap_ptr := begin_align\<rparr>;
             h = mem_upd (\<lambda>m. \<lparr>h_magic = HEAP_MAGIC, h_used = 0,
                               h_next = sz + SIZEOF_STRUCT_MEM, h_prev = 0\<rparr>) 0 h;
             h = h\<lparr>heap_end := h_next (mem_at h 0)\<rparr>;
             h = mem_upd (\<lambda>m. \<lparr>h_magic = HEAP_MAGIC, h_used = 1,
                               h_next = sz + SIZEOF_STRUCT_MEM, h_prev = sz + SIZEOF_STRUCT_MEM\<rparr>)
                   (heap_end h) h
         in h\<lparr>heap_sem := 1, lfree := 0\<rparr>)
      else h)"

text \<open>The search loop of \<^verbatim>\<open>rt_malloc\<close>: the offset of the block it takes, if any.\<close>

partial_function (option) malloc_search :: "heap \<Rightarrow> u32 \<Rightarrow> u32 \<Rightarrow> u32 option option" where
  "malloc_search h sz ptr =
     (if ptr < mem_size_aligned h - sz then
        (if h_used (mem_at h ptr) = 0 \<and>
            sz \<le> h_next (mem_at h ptr) - (ptr + SIZEOF_STRUCT_MEM)
         then Some (Some ptr)
         else malloc_search h sz (h_next (mem_at h ptr)))
      else Some None)"

text \<open>The loop that moves \<^verbatim>\<open>lfree\<close> to the next free block.\<close>

partial_function (option) lfree_advance :: "heap \<Rightarrow> u32 \<Rightarrow> u32 option" where
  "lfree_advance h l =
     (if h_used (mem_at h l) \<noteq> 0 \<and> l \<noteq> heap_end h
      then lfree_advance h (h_next (mem_at h l)) else Some l)"

definition count_used :: "u32 \<Rightarrow> heap \<Rightarrow> heap" where
  "count_used n h =
     (let u = used_mem h + n in h\<lparr>used_mem := u, max_mem := if max_mem h < u then u else max_mem h\<rparr>)"

text \<open>Cutting the block at \<open>ptr\<close> behind \<open>sz\<close> bytes of data: \<^verbatim>\<open>mem2\<close> is the remainder.\<close>

definition split_block :: "u32 \<Rightarrow> u32 \<Rightarrow> heap \<Rightarrow> heap" where
  "split_block ptr sz h =
     (let ptr2 = ptr + SIZEOF_STRUCT_MEM + sz;
          nxt = h_next (mem_at h ptr);
          h = mem_upd (\<lambda>m. \<lparr>h_magic = HEAP_MAGIC, h_used = 0, h_next = nxt, h_prev = ptr\<rparr>) ptr2 h;
          h = mem_upd (\<lambda>m. m\<lparr>h_next := ptr2\<rparr>) ptr h
      in if nxt \<noteq> mem_size_aligned h + SIZEOF_STRUCT_MEM
         then mem_upd (\<lambda>m. m\<lparr>h_prev := ptr2\<rparr>) nxt h else h)"

definition malloc_take :: "u32 \<Rightarrow> u32 \<Rightarrow> heap \<Rightarrow> heap option" where
  "malloc_take ptr sz h =
     (let h = (if sz + SIZEOF_STRUCT_MEM + MIN_SIZE_ALIGNED
                    \<le> h_next (mem_at h ptr) - (ptr + SIZEOF_STRUCT_MEM)
               then count_used (sz + SIZEOF_STRUCT_MEM)
                      (mem_upd (\<lambda>m. m\<lparr>h_used := 1\<rparr>) ptr (split_block ptr sz h))
               else count_used (h_next (mem_at h ptr) - ptr)
                      (mem_upd (\<lambda>m. m\<lparr>h_used := 1\<rparr>) ptr h));
          h = mem_upd (\<lambda>m. m\<lparr>h_magic := HEAP_MAGIC\<rparr>) ptr h
      in if ptr = lfree h
         then do {
           l \<leftarrow> lfree_advance h (lfree h);
           rt_assert (l = heap_end h \<or> h_used (mem_at h l) = 0);
           Some (h\<lparr>lfree := l\<rparr>)
         }
         else Some h)"

text \<open>\<^verbatim>\<open>rt_malloc\<close> from the taking of the semaphore on, for a size already rounded up.\<close>

definition malloc_locked :: "u32 \<Rightarrow> heap \<Rightarrow> (heap \<times> u32) option" where
  "malloc_locked sz h =
     do {
       h \<leftarrow> heap_lock h;
       r \<leftarrow> malloc_search h sz (lfree h);
       case r of
         None \<Rightarrow> Some (heap_unlock h, 0)
       | Some ptr \<Rightarrow> do {
           h \<leftarrow> malloc_take ptr sz h;
           let h = heap_unlock h;
           rt_assert (haddr h ptr + SIZEOF_STRUCT_MEM + sz \<le> haddr h (heap_end h));
           rt_assert ((haddr h ptr + SIZEOF_STRUCT_MEM) mod RT_ALIGN_SIZE = 0);
           rt_assert (haddr h ptr AND (RT_ALIGN_SIZE - 1) = 0);
           Some (h, haddr h ptr + SIZEOF_STRUCT_MEM)
         }
     }"

definition rt_malloc :: "u32 \<Rightarrow> heap \<Rightarrow> (heap \<times> u32) option" where
  "rt_malloc size0 h =
     (if size0 = 0 then Some (h, 0)
      else let sz = RT_ALIGN size0 RT_ALIGN_SIZE in
        if mem_size_aligned h < sz then Some (h, 0)
        else malloc_locked (if sz < MIN_SIZE_ALIGNED then MIN_SIZE_ALIGNED else sz) h)"

definition rt_free :: "u32 \<Rightarrow> heap \<Rightarrow> heap option" where
  "rt_free rmem h =
     (if rmem = 0 then Some h
      else do {
        rt_assert (rmem AND (RT_ALIGN_SIZE - 1) = 0);
        rt_assert (heap_ptr h \<le> rmem \<and> rmem < haddr h (heap_end h));
        let mem = rmem - SIZEOF_STRUCT_MEM - heap_ptr h;
        h \<leftarrow> heap_lock h;
        rt_assert (h_used (mem_at h mem) \<noteq> 0);
        rt_assert (h_magic (mem_at h mem) = HEAP_MAGIC);
        let h = mem_upd (\<lambda>m. m\<lparr>h_used := 0, h_magic := HEAP_MAGIC\<rparr>) mem h;
        let h = (if haddr h mem < haddr h (lfree h) then h\<lparr>lfree := mem\<rparr> else h);
        let h = h\<lparr>used_mem := used_mem h - (h_next (mem_at h mem) - mem)\<rparr>;
        h \<leftarrow> plug_holes mem h;
        Some (heap_unlock h)
      })"

text \<open>\<^verbatim>\<open>rt_memcpy\<close> and \<^verbatim>\<open>rt_memset\<close> between user blocks, at absolute addresses.\<close>

definition heap_memcpy :: "u32 \<Rightarrow> u32 \<Rightarrow> u32 \<Rightarrow> heap \<Rightarrow> heap" where
  "heap_memcpy dst src n h =
     h\<lparr>bytes := (\<lambda>a. if unat dst \<le> a \<and> a < unat dst + unat n
                     then bytes h (unat src + (a - unat dst)) else bytes h a)\<rparr>"

definition heap_memset :: "u32 \<Rightarrow> u8 \<Rightarrow> u32 \<Rightarrow> heap \<Rightarrow> heap" where
  "heap_memset dst c n h =
     h\<lparr>bytes := (\<lambda>a. if unat dst \<le> a \<and> a < unat dst + unat n then c else bytes h a)\<rparr>"

text \<open>\<^verbatim>\<open>rt_realloc\<close> once it has found the block: \<open>osz\<close> is the size it has now.\<close>

definition realloc_block :: "u32 \<Rightarrow> u32 \<Rightarrow> u32 \<Rightarrow> u32 \<Rightarrow> heap \<Rightarrow> (heap \<times> u32) option" where
  "realloc_block rmem newsize ptr osz h =
     (if osz = newsize then Some (heap_unlock h, rmem)
      else if newsize + SIZEOF_STRUCT_MEM + MIN_SIZE < osz then
        do {
          let h = split_block ptr newsize (h\<lparr>used_mem := used_mem h - (osz - newsize)\<rparr>);
          h \<leftarrow> plug_holes (ptr + SIZEOF_STRUCT_MEM + newsize) h;
          Some (heap_unlock h, rmem)
        }
      else do {
          (h, nmem) \<leftarrow> rt_malloc newsize (heap_unlock h);
          if nmem \<noteq> 0
          then do {
            h \<leftarrow> rt_free rmem (heap_memcpy nmem rmem (if osz < newsize then osz else newsize) h);
            Some (h, nmem)
          }
          else Some (h, nmem)
        })"

definition rt_realloc :: "u32 \<Rightarrow> u32 \<Rightarrow> heap \<Rightarrow> (heap \<times> u32) option" where
  "rt_realloc rmem size0 h =
     (let newsize = RT_ALIGN size0 RT_ALIGN_SIZE in
      if mem_size_aligned h < newsize then Some (h, 0)
      else if newsize = 0 then do { h \<leftarrow> rt_free rmem h; Some (h, 0) }
      else if rmem = 0 then rt_malloc newsize h
      else do {
        h \<leftarrow> heap_lock h;
        if rmem < heap_ptr h \<or> haddr h (heap_end h) \<le> rmem then Some (heap_unlock h, rmem)
        else let ptr = rmem - SIZEOF_STRUCT_MEM - heap_ptr h in
          realloc_block rmem newsize ptr (h_next (mem_at h ptr) - ptr - SIZEOF_STRUCT_MEM) h
      })"

definition rt_calloc :: "u32 \<Rightarrow> u32 \<Rightarrow> heap \<Rightarrow> (heap \<times> u32) option" where
  "rt_calloc count sz h =
     do {
       (h, p) \<leftarrow> rt_malloc (count * sz) h;
       Some (if p \<noteq> 0 then heap_memset p 0 (count * sz) h else h, p)
     }"

definition rt_memory_info :: "heap \<Rightarrow> u32 \<times> u32 \<times> u32" where
  "rt_memory_info h = (mem_size_aligned h, used_mem h, max_mem h)"

text \<open>\<^verbatim>\<open>memcheck\<close> walks the chain from the start: true when it meets no bad block.\<close>

partial_function (option) memcheck_from :: "heap \<Rightarrow> u32 \<Rightarrow> bool option" where
  "memcheck_from h mem =
     (if mem = heap_end h then Some True
      else if sint mem < 0 \<or> mem_size_aligned h < mem \<or>
              h_magic (mem_at h mem) \<noteq> HEAP_MAGIC \<or>
              (h_used (mem_at h mem) \<noteq> 0 \<and> h_used (mem_at h mem) \<noteq> 1)
      then Some False
      else memcheck_from h (h_next (mem_at h mem)))"

section \<open>The block list and the invariant\<close>

text \<open>A block: whether it is in use, and its size in bytes with its header.\<close>

type_synonym hblock = "bool \<times> nat"

definition blen :: "hblock list \<Rightarrow> nat" where
  "blen bs = sum_list (map snd bs)"

lemma blen_simps [simp]:
  "blen [] = 0" "blen (b # bs) = snd b + blen bs" "blen (xs @ ys) = blen xs + blen ys"
  by (simp_all add: blen_def)

definition hdr_ok :: "heap_mem \<Rightarrow> bool \<Rightarrow> nat \<Rightarrow> nat \<Rightarrow> bool" where
  "hdr_ok m u n q \<longleftrightarrow> h_magic m = HEAP_MAGIC \<and> h_used m = (if u then 1 else 0) \<and>
     unat (h_next m) = n \<and> unat (h_prev m) = q"

text \<open>
  \<open>hchain H p q bs\<close>: from offset \<open>p\<close> on the headers in \<open>H\<close> describe the blocks \<open>bs\<close>, and
  the block before \<open>p\<close> starts at \<open>q\<close>. A block has room for four bytes at least and its size
  is a multiple of four.
\<close>

fun hchain :: "(nat \<Rightarrow> heap_mem) \<Rightarrow> nat \<Rightarrow> nat \<Rightarrow> hblock list \<Rightarrow> bool" where
  "hchain H p q [] = True"
| "hchain H p q ((u, s) # bs) =
     (hdr_ok (H p) u (p + s) q \<and> 16 \<le> s \<and> 4 dvd s \<and> hchain H (p + s) p bs)"

fun last_pos :: "nat \<Rightarrow> nat \<Rightarrow> hblock list \<Rightarrow> nat" where
  "last_pos p q [] = q"
| "last_pos p q (b # bs) = last_pos (p + snd b) p bs"

fun no_adjacent_free :: "hblock list \<Rightarrow> bool" where
  "no_adjacent_free [] = True"
| "no_adjacent_free [b] = True"
| "no_adjacent_free ((u, s) # (v, t) # bs) = ((u \<or> v) \<and> no_adjacent_free ((v, t) # bs))"

text \<open>\<open>lfree_ok l p bs\<close>: \<open>l\<close> is the offset of a free block or the end of the blocks.\<close>

fun lfree_ok :: "nat \<Rightarrow> nat \<Rightarrow> hblock list \<Rightarrow> bool" where
  "lfree_ok l p [] = (l = p)"
| "lfree_ok l p ((u, s) # bs) = (if l = p then \<not> u else lfree_ok l (p + s) bs)"

text \<open>\<open>lowest_free l p bs\<close>: every block below \<open>l\<close> is in use.\<close>

fun lowest_free :: "nat \<Rightarrow> nat \<Rightarrow> hblock list \<Rightarrow> bool" where
  "lowest_free l p [] = True"
| "lowest_free l p ((u, s) # bs) = (l \<le> p \<or> u \<and> lowest_free l (p + s) bs)"

definition used_bytes :: "hblock list \<Rightarrow> nat" where
  "used_bytes bs = blen (filter fst bs)"

lemma used_bytes_simps [simp]:
  "used_bytes [] = 0"
  "used_bytes (b # bs) = (if fst b then snd b + used_bytes bs else used_bytes bs)"
  "used_bytes (xs @ ys) = used_bytes xs + used_bytes ys"
  by (simp_all add: used_bytes_def)

lemma used_bytes_le: "used_bytes bs \<le> blen bs"
  by (induction bs) (auto simp: trans_le_add2)

definition heap_core :: "heap \<Rightarrow> hblock list \<Rightarrow> bool" where
  "heap_core h bs \<longleftrightarrow>
     hchain (hdr h) 0 0 bs \<and> blen bs = unat (mem_size_aligned h) + 12 \<and>
     unat (heap_end h) = unat (mem_size_aligned h) + 12 \<and>
     12 \<le> unat (mem_size_aligned h) \<and> 4 dvd unat (heap_ptr h) \<and>
     unat (heap_ptr h) + unat (mem_size_aligned h) + 24 < 2 ^ 32 \<and>
     h_used (hdr h (unat (mem_size_aligned h) + 12)) = 1 \<and>
     h_next (hdr h (unat (mem_size_aligned h) + 12)) = heap_end h \<and>
     unat (used_mem h) = used_bytes bs \<and> used_mem h \<le> max_mem h"

definition heap_inv :: "heap \<Rightarrow> hblock list \<Rightarrow> bool" where
  "heap_inv h bs \<longleftrightarrow> heap_core h bs \<and> no_adjacent_free bs \<and> lfree_ok (unat (lfree h)) 0 bs"

definition heap_ok :: "heap \<Rightarrow> hblock list \<Rightarrow> bool" where
  "heap_ok h bs \<longleftrightarrow> heap_inv h bs \<and> heap_sem h = 1"

subsection \<open>Word arithmetic inside the heap\<close>

lemma unat_plus_less:
  "unat (a :: u32) + unat b < 2 ^ 32 \<Longrightarrow> unat (a + b) = unat a + unat b"
  by (simp add: unat_word_ariths)

lemma unat_minus_le: "unat (b :: u32) \<le> unat a \<Longrightarrow> unat (a - b) = unat a - unat b"
  by (simp add: unat_sub word_le_nat_alt)

lemma unat_u32_of_nat: "n < 2 ^ 32 \<Longrightarrow> unat (of_nat n :: u32) = n"
  by (simp add: unsigned_of_nat take_bit_nat_eq_self)

lemma sizeof_12 [simp]: "SIZEOF_STRUCT_MEM = 12" "MIN_SIZE_ALIGNED = 12" "MIN_SIZE = 12"
  by (simp_all add: SIZEOF_STRUCT_MEM_def MIN_SIZE_ALIGNED_def MIN_SIZE_def RT_ALIGN_def RT_ALIGN_SIZE_def)

lemma mem_at_upd: "mem_at (mem_upd f a h) b = (if unat a = unat b then f (mem_at h b) else mem_at h b)"
  by (simp add: mem_at_def mem_upd_def)

lemma hdr_upd: "hdr (mem_upd f a h) = (hdr h)(unat a := f (hdr h (unat a)))"
  by (simp add: mem_upd_def)

lemma mem_upd_frame [simp]:
  "heap_ptr (mem_upd f a h) = heap_ptr h" "bytes (mem_upd f a h) = bytes h"
  "heap_end (mem_upd f a h) = heap_end h" "lfree (mem_upd f a h) = lfree h"
  "heap_sem (mem_upd f a h) = heap_sem h" "mem_size_aligned (mem_upd f a h) = mem_size_aligned h"
  "used_mem (mem_upd f a h) = used_mem h" "max_mem (mem_upd f a h) = max_mem h"
  by (simp_all add: mem_upd_def)

subsection \<open>Chains\<close>

lemma hchain_append:
  "hchain H p q (xs @ ys) \<longleftrightarrow> hchain H p q xs \<and> hchain H (p + blen xs) (last_pos p q xs) ys"
  by (induction xs arbitrary: p q) (auto simp: add.assoc)

lemma last_pos_append: "last_pos p q (xs @ ys) = last_pos (p + blen xs) (last_pos p q xs) ys"
  by (induction xs arbitrary: p q) (auto simp: add.assoc)

lemma hchain_upd_outside:
  "r < p \<or> p + blen bs \<le> r \<Longrightarrow> hchain (H(r := x)) p q bs = hchain H p q bs"
proof (induction bs arbitrary: p q)
  case (Cons b bs)
  obtain u s where b: "b = (u, s)" by (cases b)
  show ?case
  proof (cases "16 \<le> s")
    case True
    with Cons.prems b have "r \<noteq> p" "r < p + s \<or> p + s + blen bs \<le> r" by auto
    with Cons.IH [of "p + s" p] b show ?thesis by simp
  qed (simp add: b)
qed simp

lemma hchain_cong:
  "(\<And>r. p \<le> r \<Longrightarrow> r < p + blen bs \<Longrightarrow> H r = H' r) \<Longrightarrow> hchain H p q bs = hchain H' p q bs"
proof (induction bs arbitrary: p q)
  case (Cons b bs)
  obtain u s where b: "b = (u, s)" by (cases b)
  show ?case
  proof (cases "16 \<le> s")
    case True
    have "hchain H (p + s) p bs = hchain H' (p + s) p bs"
      by (rule Cons.IH) (use Cons.prems b in auto)
    moreover have "H p = H' p" using Cons.prems b True by simp
    ultimately show ?thesis by (simp add: b)
  qed (simp add: b)
qed simp

lemma hchain_sizes: "hchain H p q bs \<Longrightarrow> (u, s) \<in> set bs \<Longrightarrow> 16 \<le> s \<and> 4 dvd s"
  by (induction bs arbitrary: p q) auto

lemma hchain_dvd: "hchain H p q bs \<Longrightarrow> 4 dvd blen bs"
  by (induction bs arbitrary: p q) (auto simp: dvd_add)

lemma hchain_prev: "hchain H p q bs \<Longrightarrow> q' = q \<or> bs = [] \<Longrightarrow> hchain H p q' bs"
  by auto

subsection \<open>The search loops\<close>

text \<open>First fit over the block list: the loop stops at the limit \<open>L\<close>.\<close>

fun find_fit :: "nat \<Rightarrow> nat \<Rightarrow> nat \<Rightarrow> hblock list \<Rightarrow> nat option" where
  "find_fit L n p [] = None"
| "find_fit L n p ((u, s) # bs) =
     (if p < L then if \<not> u \<and> n + 12 \<le> s then Some p else find_fit L n (p + s) bs else None)"

lemma malloc_search_chain:
  assumes "hchain (hdr h) p q bs" "unat w = p" "p + blen bs = unat (mem_size_aligned h) + 12"
    "unat (mem_size_aligned h) + 12 < 2 ^ 32" "sz \<le> mem_size_aligned h"
  shows "malloc_search h sz w =
    Some (map_option of_nat (find_fit (unat (mem_size_aligned h) - unat sz) (unat sz) p bs))"
  using assms
proof (induction bs arbitrary: p q w)
  case Nil
  then have "\<not> w < mem_size_aligned h - sz"
    by (simp add: word_less_nat_alt unat_minus_le word_le_nat_alt)
  then show ?case by (simp add: malloc_search.simps)
next
  case (Cons b bs)
  obtain u s where b: "b = (u, s)" by (cases b)
  let ?m = "mem_at h w"
  have m: "hdr_ok ?m u (p + s) q" and s: "16 \<le> s" and c: "hchain (hdr h) (p + s) p bs"
    using Cons.prems(1,2) by (auto simp: b mem_at_def)
  have nx: "unat (h_next ?m) = p + s" and us: "h_used ?m = 0 \<longleftrightarrow> \<not> u"
    using m by (auto simp: hdr_ok_def)
  have lim: "w < mem_size_aligned h - sz \<longleftrightarrow> p < unat (mem_size_aligned h) - unat sz"
    using Cons.prems(2,5) by (simp add: word_less_nat_alt unat_minus_le word_le_nat_alt)
  have "p + s \<le> unat (mem_size_aligned h) + 12"
    using Cons.prems(3) by (simp add: b)
  then have w12: "unat (w + 12) = p + 12"
    using Cons.prems(2,4) s by (simp add: unat_plus_less)
  have "unat (h_next ?m - (w + 12)) = s - 12"
    using nx w12 s by (simp add: unat_minus_le)
  then have fit: "sz \<le> h_next ?m - (w + 12) \<longleftrightarrow> unat sz + 12 \<le> s"
    using s by (auto simp: word_le_nat_alt)
  have IH: "malloc_search h sz (h_next ?m) =
      Some (map_option of_nat (find_fit (unat (mem_size_aligned h) - unat sz) (unat sz) (p + s) bs))"
    by (rule Cons.IH [OF c nx]) (use Cons.prems b in auto)
  show ?case
    using Cons.prems(2) lim us fit IH by (subst malloc_search.simps) (auto simp: b)
qed

text \<open>
  What first fit finds, and what it means that it finds nothing: a large enough free
  block is missed only behind the limit.
\<close>

lemma find_fit_Some:
  "find_fit L n p bs = Some r \<Longrightarrow>
   \<exists>xs s ys. bs = xs @ (False, s) # ys \<and> r = p + blen xs \<and> n + 12 \<le> s \<and> r < L \<and>
     (\<forall>(u, t) \<in> set xs. u \<or> t < n + 12)"
proof (induction L n p bs rule: find_fit.induct)
  case (2 L n p u s bs)
  show ?case
  proof (cases "\<not> u \<and> n + 12 \<le> s")
    case True
    with "2.prems" show ?thesis by (intro exI [of _ "[]"]) (auto split: if_splits)
  next
    case False
    with 2 obtain xs t ys where
      *: "bs = xs @ (False, t) # ys" "r = p + s + blen xs" "n + 12 \<le> t" "r < L"
        "\<forall>(u, t) \<in> set xs. u \<or> t < n + 12"
      by (auto split: if_splits)
    show ?thesis
      by (rule exI [of _ "(u, s) # xs"], rule exI [of _ t], rule exI [of _ ys])
        (use * False in auto)
  qed
qed simp

lemma find_fit_None:
  "find_fit L n p (xs @ (False, s) # ys) = None \<Longrightarrow> n + 12 \<le> s \<Longrightarrow> L \<le> p + blen xs"
proof (induction xs arbitrary: p)
  case (Cons x xs)
  obtain u t where x: "x = (u, t)" by (cases x)
  show ?case
    using Cons.prems Cons.IH [of "p + t"] by (auto simp: x split: if_splits)
qed (auto split: if_splits)

lemma lfree_advance_chain:
  assumes "hchain (hdr h) p q bs" "unat w = p" "p + blen bs = unat (heap_end h)"
  shows "\<exists>l. lfree_advance h w = Some l \<and> unat l = p + blen (takeWhile fst bs)"
  using assms
proof (induction bs arbitrary: p q w)
  case Nil
  then have "w = heap_end h" by (simp add: unsigned_word_eqI)
  then show ?case using Nil by (simp add: lfree_advance.simps)
next
  case (Cons b bs)
  obtain u s where b: "b = (u, s)" by (cases b)
  let ?m = "mem_at h w"
  have m: "hdr_ok ?m u (p + s) q" and s: "16 \<le> s" and c: "hchain (hdr h) (p + s) p bs"
    using Cons.prems(1,2) by (auto simp: b mem_at_def)
  have nx: "unat (h_next ?m) = p + s" and us: "h_used ?m = 0 \<longleftrightarrow> \<not> u"
    using m by (auto simp: hdr_ok_def)
  have ne: "w \<noteq> heap_end h" using Cons.prems(2,3) s by (auto simp: b)
  obtain l where "lfree_advance h (h_next ?m) = Some l" "unat l = p + s + blen (takeWhile fst bs)"
    using Cons.IH [OF c nx] Cons.prems(3) by (auto simp: b)
  then show ?case
    using Cons.prems(2) us ne by (subst lfree_advance.simps) (auto simp: b)
qed

subsection \<open>The position of \<^verbatim>\<open>lfree\<close>\<close>

lemma lfree_ok_split:
  "hchain H p q bs \<Longrightarrow> lfree_ok l p bs \<Longrightarrow>
   \<exists>xs ys. bs = xs @ ys \<and> l = p + blen xs \<and> (ys = [] \<or> \<not> fst (hd ys))"
proof (induction bs arbitrary: p q)
  case (Cons b bs)
  obtain u s where b: "b = (u, s)" by (cases b)
  show ?case
  proof (cases "l = p")
    case True
    with Cons.prems show ?thesis by (intro exI [of _ "[]"] exI [of _ "b # bs"]) (auto simp: b)
  next
    case False
    with Cons.prems Cons.IH [of "p + s" p] obtain xs ys where
      "bs = xs @ ys" "l = p + s + blen xs" "ys = [] \<or> \<not> fst (hd ys)"
      by (auto simp: b)
    then show ?thesis by (intro exI [of _ "b # xs"] exI [of _ ys]) (auto simp: b)
  qed
qed auto

lemma lfree_ok_at:
  "\<forall>(u, s) \<in> set xs. 0 < s \<Longrightarrow> lfree_ok (p + blen xs) p (xs @ ys) = (ys = [] \<or> \<not> fst (hd ys))"
proof (induction xs arbitrary: p)
  case Nil
  show ?case by (cases ys) auto
next
  case (Cons x xs)
  show ?case using Cons.prems Cons.IH [of "p + snd x"] by (cases x) (auto simp: add.assoc)
qed

lemma lowest_free_append:
  "lowest_free l p (xs @ ys) \<longleftrightarrow> lowest_free l p xs \<and> lowest_free l (p + blen xs) ys"
proof (induction xs arbitrary: p)
  case Nil
  show ?case by simp
next
  case (Cons x xs)
  have le: "l \<le> q \<Longrightarrow> lowest_free l q zs" for q zs by (cases zs) auto
  show ?case
    by (cases x) (use Cons.IH [of "p + snd x"] in \<open>auto simp: le add.assoc\<close>)
qed

lemma lowest_free_le: "l \<le> p \<Longrightarrow> lowest_free l p bs"
  by (cases bs) auto

lemma lowest_free_mono: "lowest_free l p bs \<Longrightarrow> l' \<le> l \<Longrightarrow> lowest_free l' p bs"
  by (induction bs arbitrary: p) auto

lemma lowest_free_used: "\<forall>b \<in> set xs. fst b \<Longrightarrow> lowest_free l p xs"
  by (induction xs arbitrary: p) auto

lemma lowest_free_set:
  "lowest_free (p + blen xs) p xs \<Longrightarrow> \<forall>(u, s) \<in> set xs. 0 < s \<Longrightarrow> \<forall>b \<in> set xs. fst b"
proof (induction xs arbitrary: p)
  case (Cons x xs)
  show ?case
    by (cases x) (use Cons.prems Cons.IH [of "p + snd x"] in \<open>auto simp: add.assoc\<close>)
qed simp

lemma lfree_ok_ge: "lfree_ok l p bs \<Longrightarrow> p \<le> l"
proof (induction bs arbitrary: p)
  case (Cons b bs)
  then show ?case by (cases b) (fastforce split: if_splits)
qed simp

lemma lfree_ok_le: "lfree_ok l p bs \<Longrightarrow> l \<le> p + blen bs"
proof (induction bs arbitrary: p)
  case (Cons b bs)
  then show ?case by (cases b) (fastforce split: if_splits)
qed simp

lemma lfree_ok_replace:
  assumes "lfree_ok l p (xs @ b # ys)" "l \<noteq> p + blen xs"
    and "\<And>q. q = p + blen xs \<Longrightarrow> lfree_ok l (q + snd b) ys \<Longrightarrow> lfree_ok l q zs"
  shows "lfree_ok l p (xs @ zs)"
  using assms
proof (induction xs arbitrary: p)
  case Nil
  then show ?case by (cases b) auto
next
  case (Cons x xs)
  show ?case
  proof (cases x)
    case (Pair u s)
    show ?thesis
      using Cons.prems Cons.IH [of "p + s"] by (auto simp: Pair add.assoc)
  qed
qed

subsection \<open>Updating the chain\<close>

lemma hchain_set_prev:
  "hchain H p q bs \<Longrightarrow> unat w = q' \<Longrightarrow> hchain (H(p := (H p)\<lparr>h_prev := w\<rparr>)) p q' bs"
  by (cases bs) (auto simp: hchain_upd_outside hdr_ok_def)

lemma hchain_set_block:
  assumes "hchain H p q (xs @ (u, s) # ys)" "r = p + blen xs"
    and "\<And>n k. hdr_ok (H r) u n k \<Longrightarrow> hdr_ok m v n k"
  shows "hchain (H(r := m)) p q (xs @ (v, s) # ys)"
  using assms by (auto simp: hchain_append hchain_upd_outside)

lemma split_block_frame [simp]:
  "heap_ptr (split_block w sz h) = heap_ptr h" "bytes (split_block w sz h) = bytes h"
  "heap_end (split_block w sz h) = heap_end h" "lfree (split_block w sz h) = lfree h"
  "heap_sem (split_block w sz h) = heap_sem h"
  "mem_size_aligned (split_block w sz h) = mem_size_aligned h"
  "used_mem (split_block w sz h) = used_mem h" "max_mem (split_block w sz h) = max_mem h"
  by (simp_all add: split_block_def Let_def)

lemma split_block_chain:
  assumes c: "hchain (hdr h) 0 0 (xs @ (u, s) # ys)"
    and len: "blen (xs @ (u, s) # ys) = unat (mem_size_aligned h) + 12"
    and bd: "unat (mem_size_aligned h) + 24 < 2 ^ 32"
    and w: "unat w = blen xs" and n: "n = unat sz" "4 \<le> n" "4 dvd n" "n + 28 \<le> s"
  shows "hchain (hdr (split_block w sz h)) 0 0 (xs @ (u, n + 12) # (False, s - 12 - n) # ys)"
    and "e = unat (mem_size_aligned h) + 12 \<Longrightarrow> hdr (split_block w sz h) e = hdr h e"
proof -
  let ?p = "blen xs" and ?w2 = "w + SIZEOF_STRUCT_MEM + sz" and ?nx = "h_next (mem_at h w)"
  let ?m2 = "\<lparr>h_magic = HEAP_MAGIC, h_used = 0, h_next = ?nx, h_prev = w\<rparr>"
  have cx: "hchain (hdr h) 0 0 xs" and hp: "hdr_ok (hdr h ?p) u (?p + s) (last_pos 0 0 xs)"
    and s4: "4 dvd s" and cy: "hchain (hdr h) (?p + s) ?p ys"
    using c by (auto simp: hchain_append)
  have w2: "unat ?w2 = ?p + 12 + n"
    using w n len bd by (simp add: unat_plus_less)
  have nx: "unat ?nx = ?p + s" using hp w by (simp add: hdr_ok_def mem_at_def)
  have le: "?p + s \<le> unat (mem_size_aligned h) + 12" using len by simp
  have e12: "unat (mem_size_aligned h + 12) = unat (mem_size_aligned h) + 12"
    using bd by (simp add: unat_plus_less)
  have last: "?nx \<noteq> mem_size_aligned h + SIZEOF_STRUCT_MEM \<longleftrightarrow> ys \<noteq> []"
  proof -
    have "?nx \<noteq> mem_size_aligned h + SIZEOF_STRUCT_MEM \<longleftrightarrow> ?p + s \<noteq> unat (mem_size_aligned h) + 12"
      using nx e12 by (metis sizeof_12(1) unsigned_word_eqI)
    also have "\<dots> \<longleftrightarrow> ys \<noteq> []"
      using len cy by (cases ys) auto
    finally show ?thesis .
  qed
  let ?H1 = "(hdr h)(?p + 12 + n := ?m2, ?p := (hdr h ?p)\<lparr>h_next := ?w2\<rparr>)"
  have H: "hdr (split_block w sz h) =
      (if ys \<noteq> [] then ?H1(?p + s := (?H1 (?p + s))\<lparr>h_prev := ?w2\<rparr>) else ?H1)"
    using n last nx w2
    by (auto simp: split_block_def Let_def hdr_upd w mem_at_def)
  show "hchain (hdr (split_block w sz h)) 0 0 (xs @ (u, n + 12) # (False, s - 12 - n) # ys)"
  proof (cases ys)
    case Nil
    have "hchain ?H1 0 0 xs"
      using cx by (simp add: hchain_upd_outside)
    with Nil hp n w w2 nx s4 show ?thesis
      by (auto simp: H hchain_append hdr_ok_def mem_at_def)
  next
    case (Cons y ys')
    have "hchain (hdr (split_block w sz h)) 0 0 xs"
      using cx by (auto simp: H hchain_upd_outside)
    moreover have "hchain (hdr (split_block w sz h)) (?p + s) (?p + (n + 12)) ys"
    proof -
      have "hchain ((hdr h)(?p + s := (hdr h (?p + s))\<lparr>h_prev := ?w2\<rparr>)) (?p + s) (?p + (n + 12)) ys"
        using cy by (rule hchain_set_prev) (simp add: w2 [simplified])
      also have "?this \<longleftrightarrow> ?thesis"
        by (rule hchain_cong) (use n in \<open>auto simp: H Cons\<close>)
      finally show ?thesis .
    qed
    ultimately show ?thesis
      using hp n w w2 nx s4 by (auto simp: H hchain_append hdr_ok_def mem_at_def Cons)
  qed
  show "e = unat (mem_size_aligned h) + 12 \<Longrightarrow> hdr (split_block w sz h) e = hdr h e"
    using len n cy by (cases ys) (auto simp: H)
qed


lemma heap_core_fields [simp]:
  "heap_core (h\<lparr>lfree := l\<rparr>) bs = heap_core h bs"
  "heap_core (h\<lparr>heap_sem := v\<rparr>) bs = heap_core h bs"
  "heap_core (h\<lparr>bytes := d\<rparr>) bs = heap_core h bs"
  by (simp_all add: heap_core_def)

lemma heap_inv_fields [simp]:
  "heap_inv (h\<lparr>heap_sem := v\<rparr>) bs = heap_inv h bs"
  "heap_inv (h\<lparr>bytes := d\<rparr>) bs = heap_inv h bs"
  by (simp_all add: heap_inv_def)

definition same_heap :: "heap \<Rightarrow> heap \<Rightarrow> bool" where
  "same_heap h h' \<longleftrightarrow> heap_ptr h' = heap_ptr h \<and> heap_end h' = heap_end h \<and>
     mem_size_aligned h' = mem_size_aligned h \<and> heap_sem h' = heap_sem h \<and> bytes h' = bytes h"

text \<open>What \<^verbatim>\<open>rt_malloc\<close> makes of the free block it takes.\<close>

definition alloc_block :: "nat \<Rightarrow> nat \<Rightarrow> hblock list" where
  "alloc_block n s = (if n + 36 \<le> s then [(True, n + 12), (False, s - 12 - n)] else [(True, s)])"

lemma heap_core_block:
  assumes "heap_core h (xs @ (u, s) # ys)" "unat w = blen xs"
  shows "hdr_ok (mem_at h w) u (blen xs + s) (last_pos 0 0 xs)" "16 \<le> s" "4 dvd s"
    "hchain (hdr h) 0 0 xs" "hchain (hdr h) (blen xs + s) (blen xs) ys"
    "blen xs + s + blen ys = unat (heap_end h)"
    "blen xs + s + blen ys = unat (mem_size_aligned h) + 12"
    "unat (heap_ptr h) + unat (mem_size_aligned h) + 24 < 2 ^ 32"
    "unat (heap_end h) = unat (mem_size_aligned h) + 12"
  using assms by (auto simp: heap_core_def hchain_append mem_at_def)

lemma no_adjacent_free_append:
  "no_adjacent_free (xs @ ys) \<longleftrightarrow> no_adjacent_free xs \<and> no_adjacent_free ys \<and>
     (xs \<noteq> [] \<longrightarrow> ys \<noteq> [] \<longrightarrow> fst (last xs) \<or> fst (hd ys))"
proof (induction xs rule: no_adjacent_free.induct)
  case (2 b)
  then show ?case by (cases b; cases ys) auto
qed auto

lemma no_adjacent_free_alloc:
  "no_adjacent_free (xs @ (False, s) # ys) \<Longrightarrow> no_adjacent_free (xs @ alloc_block n s @ ys)"
  by (cases ys) (auto simp: no_adjacent_free_append alloc_block_def)

lemma count_used_frame [simp]:
  "heap_ptr (count_used v h) = heap_ptr h" "bytes (count_used v h) = bytes h"
  "heap_end (count_used v h) = heap_end h" "lfree (count_used v h) = lfree h"
  "heap_sem (count_used v h) = heap_sem h" "hdr (count_used v h) = hdr h"
  "mem_size_aligned (count_used v h) = mem_size_aligned h"
  "used_mem (count_used v h) = used_mem h + v" "max_mem (count_used v h) = max (max_mem h) (used_mem h + v)"
  by (auto simp: count_used_def Let_def max_def)

lemma used_core_bound:
  assumes "heap_core h (xs @ (False, s) # ys)" "unat v \<le> s"
  shows "unat (used_mem h + v) = used_bytes xs + unat v + used_bytes ys"
proof -
  have "used_bytes xs + s + used_bytes ys \<le> blen xs + s + blen ys"
    by (simp add: add_mono used_bytes_le)
  then show ?thesis
    using assms by (auto simp: heap_core_def unat_plus_less)
qed

lemma mark_used_chain:
  assumes "hchain H 0 0 (xs @ (False, t) # ys)" "p = blen xs"
  shows "hchain (H(p := H p\<lparr>h_used := 1, h_magic := HEAP_MAGIC\<rparr>)) 0 0 (xs @ (True, t) # ys)"
  by (rule hchain_set_block [OF assms(1)]) (simp_all add: assms(2) hdr_ok_def)

lemma malloc_take_core:
  assumes core: "heap_core h (xs @ (False, s) # ys)" and w: "unat w = blen xs"
    and n: "n = unat sz" "12 \<le> n" "4 dvd n" "n + 12 \<le> s"
  defines "h1 \<equiv> mem_upd (\<lambda>m. m\<lparr>h_magic := HEAP_MAGIC\<rparr>) w
      (if sz + SIZEOF_STRUCT_MEM + MIN_SIZE_ALIGNED \<le> h_next (mem_at h w) - (w + SIZEOF_STRUCT_MEM)
       then count_used (sz + SIZEOF_STRUCT_MEM)
              (mem_upd (\<lambda>m. m\<lparr>h_used := 1\<rparr>) w (split_block w sz h))
       else count_used (h_next (mem_at h w) - w) (mem_upd (\<lambda>m. m\<lparr>h_used := 1\<rparr>) w h))"
  shows "heap_core h1 (xs @ alloc_block n s @ ys)" "same_heap h h1" "lfree h1 = lfree h"
proof -
  note b = heap_core_block [OF core w]
  have nx: "unat (h_next (mem_at h w)) = blen xs + s" using b(1) by (simp add: hdr_ok_def)
  have w12: "unat (w + 12) = blen xs + 12" using w b(2,7,8) by (simp add: unat_plus_less)
  have sz12: "unat (sz + 12) = n + 12" and sz24: "unat (24 + sz) = n + 24"
    using n b(2,7,8) by (auto simp: unat_plus_less)
  have room: "unat (h_next (mem_at h w) - (w + 12)) = s - 12"
    using nx w12 b(2) by (simp add: unat_minus_le)
  have len: "unat (h_next (mem_at h w) - w) = s" using nx w by (simp add: unat_minus_le)
  have fits: "sz + 12 + 12 \<le> h_next (mem_at h w) - (w + 12) \<longleftrightarrow> n + 36 \<le> s"
    using room sz24 b(2) by (auto simp: word_le_nat_alt)
  have pe: "blen xs \<noteq> unat (heap_end h)" using b(2,6) by simp
  have c: "hchain (hdr h) 0 0 (xs @ (False, s) # ys)"
    and l: "blen (xs @ (False, s) # ys) = unat (mem_size_aligned h) + 12"
    using core by (auto simp: heap_core_def)
  show "same_heap h h1" "lfree h1 = lfree h"
    by (auto simp: h1_def same_heap_def)
  show "heap_core h1 (xs @ alloc_block n s @ ys)"
  proof (cases "n + 36 \<le> s")
    case True
    have n4: "4 \<le> n" "n + 28 \<le> s" and bd: "unat (mem_size_aligned h) + 24 < 2 ^ 32"
      using True n b(8) by auto
    note sp = split_block_chain [OF c l bd w n(1) n4(1) n(3) n4(2)]
    have "hdr h1 = (hdr (split_block w sz h))(blen xs :=
        hdr (split_block w sz h) (blen xs)\<lparr>h_used := 1, h_magic := HEAP_MAGIC\<rparr>)"
      using True fits by (simp add: h1_def hdr_upd w)
    then have "hchain (hdr h1) 0 0 (xs @ (True, n + 12) # (False, s - 12 - n) # ys)"
      "hdr h1 (unat (heap_end h)) = hdr h (unat (heap_end h))"
      using mark_used_chain [OF sp(1)] sp(2) [OF b(9)] pe by simp_all
    moreover have "used_mem h1 = used_mem h + (sz + 12)" "used_mem h1 \<le> max_mem h1"
      using True fits by (auto simp: h1_def)
    moreover have "heap_end h1 = heap_end h" "mem_size_aligned h1 = mem_size_aligned h"
      "heap_ptr h1 = heap_ptr h"
      by (auto simp: h1_def)
    ultimately show ?thesis
      using core True sz12 used_core_bound [OF core, of "sz + 12"]
      by (auto simp: heap_core_def alloc_block_def)
  next
    case False
    have "hdr h1 = (hdr h)(blen xs := hdr h (blen xs)\<lparr>h_used := 1, h_magic := HEAP_MAGIC\<rparr>)"
      using False fits by (simp add: h1_def hdr_upd w)
    then have "hchain (hdr h1) 0 0 (xs @ (True, s) # ys)"
      "hdr h1 (unat (heap_end h)) = hdr h (unat (heap_end h))"
      using mark_used_chain [OF c] pe by simp_all
    moreover have "used_mem h1 = used_mem h + (h_next (mem_at h w) - w)" "used_mem h1 \<le> max_mem h1"
      using False fits by (auto simp: h1_def)
    moreover have "heap_end h1 = heap_end h" "mem_size_aligned h1 = mem_size_aligned h"
      "heap_ptr h1 = heap_ptr h"
      by (auto simp: h1_def)
    ultimately show ?thesis
      using core False len used_core_bound [OF core, of "h_next (mem_at h w) - w"]
      by (auto simp: heap_core_def alloc_block_def)
  qed
qed


lemma alloc_block_len: "n + 12 \<le> s \<Longrightarrow> blen (alloc_block n s) = s"
  by (auto simp: alloc_block_def)

lemma chain_pos: "hchain H p q xs \<Longrightarrow> \<forall>(u, s) \<in> set xs. 0 < s"
  by (auto dest: hchain_sizes)

lemma takeWhile_dropWhile_hd: "dropWhile P xs = [] \<or> \<not> P (hd (dropWhile P xs))"
  using hd_dropWhile by blast

lemma malloc_take_ok:
  assumes inv: "heap_inv h (xs @ (False, s) # ys)" and w: "unat w = blen xs"
    and n: "n = unat sz" "12 \<le> n" "4 dvd n" "n + 12 \<le> s"
  obtains h' where "malloc_take w sz h = Some h'" "heap_inv h' (xs @ alloc_block n s @ ys)"
    "same_heap h h'"
    "lowest_free (unat (lfree h)) 0 (xs @ (False, s) # ys) \<Longrightarrow>
     lowest_free (unat (lfree h')) 0 (xs @ alloc_block n s @ ys)"
proof -
  let ?bs = "xs @ (False, s) # ys" and ?bs' = "xs @ alloc_block n s @ ys"
  have core: "heap_core h ?bs" and adj: "no_adjacent_free ?bs" and lf: "lfree_ok (unat (lfree h)) 0 ?bs"
    using inv by (auto simp: heap_inv_def)
  note b = heap_core_block [OF core w]
  define h1 where "h1 = mem_upd (\<lambda>m. m\<lparr>h_magic := HEAP_MAGIC\<rparr>) w
      (if sz + SIZEOF_STRUCT_MEM + MIN_SIZE_ALIGNED \<le> h_next (mem_at h w) - (w + SIZEOF_STRUCT_MEM)
       then count_used (sz + SIZEOF_STRUCT_MEM)
              (mem_upd (\<lambda>m. m\<lparr>h_used := 1\<rparr>) w (split_block w sz h))
       else count_used (h_next (mem_at h w) - w) (mem_upd (\<lambda>m. m\<lparr>h_used := 1\<rparr>) w h))"
  note h1 = malloc_take_core [OF core w n, folded h1_def]
  have adj': "no_adjacent_free ?bs'" using adj by (rule no_adjacent_free_alloc)
  have take: "malloc_take w sz h =
     (if w = lfree h1
      then do { l \<leftarrow> lfree_advance h1 (lfree h1);
                rt_assert (l = heap_end h1 \<or> h_used (mem_at h1 l) = 0); Some (h1\<lparr>lfree := l\<rparr>) }
      else Some h1)"
    by (simp add: malloc_take_def h1_def Let_def)
  have end1: "heap_end h1 = heap_end h" using h1(2) by (simp add: same_heap_def)
  have c1: "hchain (hdr h1) 0 0 ?bs'" using h1(1) by (simp add: heap_core_def)
  show thesis
  proof (cases "w = lfree h")
    case False
    then have ne: "unat (lfree h) \<noteq> 0 + blen xs"
      using w by (metis add_0 unsigned_word_eqI)
    have "lfree_ok (unat (lfree h)) 0 ?bs'"
    proof (rule lfree_ok_replace [OF lf ne])
      fix q assume "lfree_ok (unat (lfree h)) (q + snd (False, s)) ys"
      moreover from this have "q + s \<le> unat (lfree h)" by (auto dest: lfree_ok_ge)
      ultimately show "lfree_ok (unat (lfree h)) q (alloc_block n s @ ys)"
        using b(2) n(4) by (auto simp: alloc_block_def)
    qed
    then have inv': "heap_inv h1 ?bs'" using h1 adj' by (simp add: heap_inv_def)
    have low: "lowest_free (unat (lfree h1)) 0 ?bs'" if "lowest_free (unat (lfree h)) 0 ?bs"
      using that by (auto simp: h1(3) lowest_free_append intro: lowest_free_le)
    have "malloc_take w sz h = Some h1" using False take h1(3) by simp
    from that [OF this inv' h1(2) low] show thesis .
  next
    case True
    define zs ds where "zs = takeWhile fst (alloc_block n s @ ys)"
      and "ds = dropWhile fst (alloc_block n s @ ys)"
    have zd: "alloc_block n s @ ys = zs @ ds" by (simp add: zs_def ds_def)
    have used: "\<forall>b \<in> set zs. fst b" unfolding zs_def by (blast dest: set_takeWhileD)
    have dh: "ds = [] \<or> \<not> fst (hd ds)" unfolding ds_def by (rule takeWhile_dropWhile_hd)
    have bs': "?bs' = (xs @ zs) @ ds" by (simp add: zd)
    have c2: "hchain (hdr h1) (blen xs) (last_pos 0 0 xs) (alloc_block n s @ ys)"
      using c1 by (simp add: hchain_append)
    have "blen xs + blen (alloc_block n s @ ys) = unat (heap_end h1)"
      using end1 b(6) n(4) by (simp add: alloc_block_len)
    then obtain l where l: "lfree_advance h1 w = Some l" "unat l = blen (xs @ zs)"
      using lfree_advance_chain [OF c2 w] by (auto simp: zs_def)
    have cz: "hchain (hdr h1) 0 0 (xs @ zs)"
      using c1 unfolding bs' by (simp add: hchain_append)
    have lfo: "lfree_ok (unat l) 0 ?bs'"
      using lfree_ok_at [OF chain_pos [OF cz], of 0 ds] dh by (simp only: bs' l(2) add_0)
    have as: "l = heap_end h1 \<or> h_used (mem_at h1 l) = 0"
    proof (cases ds)
      case Nil
      then have "unat l = unat (heap_end h1)"
        using h1(1) l(2) unfolding bs' by (simp add: heap_core_def)
      then show ?thesis by (simp add: unsigned_word_eqI)
    next
      case (Cons d ds')
      with dh obtain t where "?bs' = (xs @ zs) @ (False, t) # ds'"
        unfolding bs' by (cases d) auto
      then have "hdr_ok (mem_at h1 l) False (blen (xs @ zs) + t) (last_pos 0 0 (xs @ zs))"
        using heap_core_block(1) [OF _ l(2)] h1(1) by metis
      then show ?thesis by (simp add: hdr_ok_def)
    qed
    have inv': "heap_inv (h1\<lparr>lfree := l\<rparr>) ?bs'"
      using h1(1) adj' lfo by (simp add: heap_inv_def)
    have low: "lowest_free (unat (lfree (h1\<lparr>lfree := l\<rparr>))) 0 ?bs'"
      if "lowest_free (unat (lfree h)) 0 ?bs"
    proof -
      have "\<forall>b \<in> set xs. fst b"
        using that True w lowest_free_set [of 0 xs] chain_pos [OF b(4)]
        by (auto simp: lowest_free_append)
      with used have "\<forall>b \<in> set (xs @ zs). fst b"
        by auto
      then have "lowest_free (unat l) 0 (xs @ zs)" by (rule lowest_free_used)
      then have "lowest_free (unat l) 0 ((xs @ zs) @ ds)"
        unfolding lowest_free_append [of _ _ "xs @ zs"] by (simp only: l(2) lowest_free_le add_0 simp_thms)
      then show ?thesis unfolding bs' by simp
    qed
    show thesis
      by (rule that [of "h1\<lparr>lfree := l\<rparr>"])
        (use True h1(2,3) take l(1) as inv' low in \<open>simp_all add: same_heap_def rt_assert_def\<close>)
  qed
qed


section \<open>Allocation\<close>

definition req_size :: "u32 \<Rightarrow> nat" where
  "req_size sz = max 12 ((unat sz + 3) div 4 * 4)"

lemma heap_ok_lock:
  assumes "heap_ok h bs"
  obtains h0 where "heap_lock h = Some h0" "heap_inv h0 bs" "heap_unlock h0 = h"
    "h0 = h\<lparr>heap_sem := 0\<rparr>"
  using assms by (auto simp: heap_ok_def heap_lock_def heap_unlock_def)

lemma heap_unlock_ok:
  "heap_inv h bs \<Longrightarrow> heap_sem h = 0 \<Longrightarrow> heap_ok (heap_unlock h) bs"
  by (simp add: heap_ok_def heap_unlock_def)

lemma heap_unlock_fields [simp]:
  "heap_ptr (heap_unlock h) = heap_ptr h" "bytes (heap_unlock h) = bytes h"
  "heap_end (heap_unlock h) = heap_end h" "lfree (heap_unlock h) = lfree h"
  "hdr (heap_unlock h) = hdr h" "mem_size_aligned (heap_unlock h) = mem_size_aligned h"
  by (simp_all add: heap_unlock_def)

text \<open>
  \<^verbatim>\<open>rt_malloc\<close> on a heap in order: it takes a free block at or behind \<^verbatim>\<open>lfree\<close> that is large
  enough, the first one when nothing below \<^verbatim>\<open>lfree\<close> is free, and gives up, with the heap
  unchanged, only when no such block is there or the only one fits exactly at the heap's end.
\<close>

lemma haddr_bounds:
  assumes "heap_core h (xs @ (u, s) # ys)" "unat w = blen xs" "unat sz + 12 \<le> s"
  shows "unat (haddr h w + 12) = unat (heap_ptr h) + blen xs + 12"
    "haddr h w + 12 + sz \<le> haddr h (heap_end h)"
    "(haddr h w + 12) mod RT_ALIGN_SIZE = 0"
    "haddr h w AND (RT_ALIGN_SIZE - 1) = 0"
proof -
  note b = heap_core_block [OF assms(1,2)]
  have hw: "unat (haddr h w) = unat (heap_ptr h) + blen xs"
    using b(2,7,8) assms(2) by (simp add: haddr_def unat_plus_less)
  have d: "4 dvd unat (heap_ptr h)" "4 dvd blen xs"
    using assms(1) hchain_dvd [OF b(4)] by (simp_all add: heap_core_def)
  show hw12: "unat (haddr h w + 12) = unat (heap_ptr h) + blen xs + 12"
    using b(2,7,8) hw by (simp add: unat_plus_less)
  have "unat (haddr h w + 12 + sz) = unat (heap_ptr h) + blen xs + 12 + unat sz"
    using b(2,7,8) hw12 assms(3) by (simp add: unat_plus_less)
  moreover have "unat (haddr h (heap_end h)) = unat (heap_ptr h) + unat (heap_end h)"
    using b(8,9) by (simp add: haddr_def unat_plus_less)
  ultimately show "haddr h w + 12 + sz \<le> haddr h (heap_end h)"
    using b(6) assms(3) by (simp add: word_le_nat_alt)
  have "unat ((haddr h w + 12) mod RT_ALIGN_SIZE) = unat (haddr h w + 12) mod 4"
    by (simp add: unat_mod RT_ALIGN_SIZE_def)
  also have "\<dots> = 0" unfolding hw12 using d by presburger
  finally show "(haddr h w + 12) mod RT_ALIGN_SIZE = 0"
    by (simp add: unat_eq_zero)
  have "unat (haddr h w AND 3) = 0"
    using d by (simp add: unat_and_3 hw)
  then show "haddr h w AND (RT_ALIGN_SIZE - 1) = 0"
    by (simp add: RT_ALIGN_SIZE_def unat_eq_zero)
qed

lemma split_behind:
  assumes "xs0 @ ys0 = as @ (u, t) # cs" "blen xs0 \<le> blen as" "0 < t"
  obtains us where "as = xs0 @ us" "ys0 = us @ (u, t) # cs"
proof -
  from assms(1) consider us where "xs0 = as @ us" "us @ ys0 = (u, t) # cs"
    | us where "xs0 @ us = as" "ys0 = us @ (u, t) # cs"
    by (auto simp: append_eq_append_conv2)
  then show thesis
  proof cases
    case 1
    with assms(2,3) have "us = []" by (cases us) auto
    with 1 that [of "[]"] show thesis by simp
  next
    case 2
    with that [of us] show thesis by simp
  qed
qed

lemma blen_0: "hchain H p q bs \<Longrightarrow> blen bs = 0 \<longleftrightarrow> bs = []"
  by (cases bs) auto

lemma rt_malloc_cases:
  assumes ok: "heap_ok h bs" and sz: "0 < sz0" "unat sz0 + 3 < 2 ^ 32"
    and n: "n = req_size sz0"
  obtains
    (taken) h' w xs s ys where "rt_malloc sz0 h = Some (h', w)" "bs = xs @ (False, s) # ys"
      "n + 12 \<le> s" "unat (lfree h) \<le> blen xs"
      "\<forall>as t cs. xs = as @ (False, t) # cs \<longrightarrow> unat (lfree h) \<le> blen as \<longrightarrow> t < n + 12"
      "blen xs + n < unat (mem_size_aligned h)"
      "unat w = unat (heap_ptr h) + blen xs + 12"
      "heap_ok h' (xs @ alloc_block n s @ ys)" "same_heap h h'"
      "lowest_free (unat (lfree h)) 0 bs \<Longrightarrow>
       lowest_free (unat (lfree h')) 0 (xs @ alloc_block n s @ ys)"
  | (none) "rt_malloc sz0 h = Some (h, 0)"
      "\<And>xs s ys. bs = xs @ (False, s) # ys \<Longrightarrow> n + 12 \<le> s \<Longrightarrow> unat (lfree h) \<le> blen xs \<Longrightarrow>
         ys = [] \<and> s = n + 12"
proof -
  let ?al = "RT_ALIGN sz0 RT_ALIGN_SIZE" and ?M = "unat (mem_size_aligned h)"
  define sz where "sz = (if ?al < MIN_SIZE_ALIGNED then MIN_SIZE_ALIGNED else ?al)"
  have inv: "heap_inv h bs" and core: "heap_core h bs" and lf: "lfree_ok (unat (lfree h)) 0 bs"
    using ok by (auto simp: heap_ok_def heap_inv_def)
  have c: "hchain (hdr h) 0 0 bs" and len: "blen bs = ?M + 12" and M12: "12 \<le> ?M"
    and bd: "?M + 24 < 2 ^ 32"
    using core by (auto simp: heap_core_def)
  have al: "unat ?al = (unat sz0 + 3) div 4 * 4" using sz(2) by (rule unat_align)
  have szn: "unat sz = n"
    using al by (auto simp: sz_def n req_size_def word_less_nat_alt max_def)
  have n12: "12 \<le> n" "4 dvd n" by (auto simp: n req_size_def max_def)
  have pos: "(u, t) \<in> set bs \<Longrightarrow> 0 < t" for u t using hchain_sizes [OF c] by fastforce
  show thesis
  proof (cases "mem_size_aligned h < ?al")
    case True
    then have "?M < n" by (simp add: word_less_nat_alt al n req_size_def)
    then have "\<not> n + 12 \<le> s" if "bs = xs @ (False, s) # ys" for xs s ys
      using len that by auto
    moreover have "rt_malloc sz0 h = Some (h, 0)"
      using True sz(1) by (auto simp: rt_malloc_def Let_def)
    ultimately show thesis using none by blast
  next
    case False
    then have nM: "n \<le> ?M" using M12 al by (simp add: word_less_nat_alt n req_size_def)
    obtain h0 where h0: "heap_lock h = Some h0" "heap_inv h0 bs" "heap_unlock h0 = h"
      "h0 = h\<lparr>heap_sem := 0\<rparr>"
      using heap_ok_lock [OF ok] .
    obtain xs0 ys0 where sp: "bs = xs0 @ ys0" "unat (lfree h) = blen xs0"
      using lfree_ok_split [OF c lf] by auto
    have c0: "hchain (hdr h0) (blen xs0) (last_pos 0 0 xs0) ys0"
      using c h0(4) sp(1) by (simp add: hchain_append)
    have sM: "mem_size_aligned h0 = mem_size_aligned h" "lfree h0 = lfree h"
      "heap_ptr h0 = heap_ptr h" "heap_end h0 = heap_end h"
      by (simp_all add: h0(4))
    have search: "malloc_search h0 sz (lfree h) =
        Some (map_option of_nat (find_fit (?M - n) n (blen xs0) ys0))"
      using malloc_search_chain [OF c0 sp(2)] len sp(1) bd nM szn sM
      by (simp add: word_le_nat_alt)
    have call: "rt_malloc sz0 h = malloc_locked sz h"
      using False sz(1) by (auto simp: rt_malloc_def Let_def sz_def)
    show thesis
    proof (cases "find_fit (?M - n) n (blen xs0) ys0")
      case None
      show thesis
      proof (rule none)
        show "rt_malloc sz0 h = Some (h, 0)"
          using call None h0(1,3) search sM by (simp add: malloc_locked_def)
        fix xs s ys assume a: "bs = xs @ (False, s) # ys" "n + 12 \<le> s" "unat (lfree h) \<le> blen xs"
        obtain us where us: "xs = xs0 @ us" "ys0 = us @ (False, s) # ys"
          by (rule split_behind [of xs0 ys0 xs False s ys]) (use a sp n12 in auto)
        have "?M - n \<le> blen xs"
          using find_fit_None [of "?M - n" n "blen xs0" us s ys] None a(2) us by simp
        moreover have "blen xs + s + blen ys = ?M + 12" using len a(1) by simp
        ultimately have "s = n + 12 \<and> blen ys = 0" using a(2) by linarith
        then show "ys = [] \<and> s = n + 12"
          using blen_0 c a(1) by (auto simp: hchain_append)
      qed
    next
      case (Some r)
      then obtain zs s ys where f: "ys0 = zs @ (False, s) # ys" "r = blen xs0 + blen zs"
        "n + 12 \<le> s" "r < ?M - n" "\<forall>(u, t) \<in> set zs. u \<or> t < n + 12"
        using find_fit_Some by blast
      let ?xs = "xs0 @ zs" and ?w = "of_nat r :: u32"
      have bs: "bs = ?xs @ (False, s) # ys" using sp f by simp
      have w: "unat ?w = blen ?xs" using len bs bd f unat_u32_of_nat [of r] by simp
      obtain h1 where h1: "malloc_take ?w sz h0 = Some h1"
        "heap_inv h1 (?xs @ alloc_block n s @ ys)" "same_heap h0 h1"
        "lowest_free (unat (lfree h0)) 0 bs \<Longrightarrow>
         lowest_free (unat (lfree h1)) 0 (?xs @ alloc_block n s @ ys)"
        by (rule malloc_take_ok [of h0 ?xs s ys ?w n sz])
          (use h0(2) bs w szn n12 f(3) in \<open>simp_all add: sM\<close>)
      note as = haddr_bounds [OF core [unfolded bs] w, of sz, unfolded szn, OF f(3)]
      have u: "haddr (heap_unlock h1) = haddr h" "heap_end h1 = heap_end h"
        using h1(3) sM by (auto simp: haddr_def fun_eq_iff same_heap_def)
      show thesis
      proof (rule taken)
        show "rt_malloc sz0 h = Some (heap_unlock h1, haddr h ?w + 12)"
          using call Some h0(1) search sM h1(1) as
          by (simp add: malloc_locked_def rt_assert_def u Let_def)
        show "\<forall>as t cs. ?xs = as @ (False, t) # cs \<longrightarrow> unat (lfree h) \<le> blen as \<longrightarrow> t < n + 12"
        proof (intro allI impI)
          fix as t cs assume a: "?xs = as @ (False, t) # cs" "unat (lfree h) \<le> blen as"
          have "0 < t" using pos [of False t] bs a(1) by simp
          then obtain us where "zs = us @ (False, t) # cs"
            using split_behind [OF a(1)] a(2) sp(2) by metis
          then show "t < n + 12" using f(5) by auto
        qed
        show "heap_ok (heap_unlock h1) (?xs @ alloc_block n s @ ys)"
          by (rule heap_unlock_ok) (use h1(2,3) h0(4) in \<open>auto simp: same_heap_def\<close>)
        show "same_heap h (heap_unlock h1)"
          using h1(3) h0(4) ok by (auto simp: same_heap_def heap_unlock_def heap_ok_def)
        show "lowest_free (unat (lfree (heap_unlock h1))) 0 (?xs @ alloc_block n s @ ys)"
          if "lowest_free (unat (lfree h)) 0 bs"
          using h1(4) that by (simp add: sM)
      qed (use bs f(2,3,4) as(1) sp(2) in auto)
    qed
  qed
qed


section \<open>Release\<close>

text \<open>What \<^verbatim>\<open>plug_holes\<close> makes of a free block between the blocks \<open>xs\<close> and \<open>ys\<close>.\<close>

fun join_right :: "nat \<Rightarrow> hblock list \<Rightarrow> hblock list" where
  "join_right s ((False, t) # ys) = (False, s + t) # ys"
| "join_right s ys = (False, s) # ys"

definition coalesce :: "hblock list \<Rightarrow> nat \<Rightarrow> hblock list \<Rightarrow> hblock list" where
  "coalesce xs s ys =
     (if xs \<noteq> [] \<and> \<not> fst (last xs)
      then butlast xs @ join_right (snd (last xs) + s) ys else xs @ join_right s ys)"

lemma heap_core_used_le: "heap_core h bs \<Longrightarrow> used_mem h \<le> max_mem h"
  by (simp add: heap_core_def)

lemma merge_blocks_core:
  assumes core: "heap_core h (xs @ (False, r) # (False, t) # ys)"
    and a: "unat a = blen xs" and b: "unat b = blen xs + r"
  shows "heap_core (merge_blocks a b h) (xs @ (False, r + t) # ys)"
    "same_heap h (merge_blocks a b h)"
    "lfree (merge_blocks a b h) = (if lfree h = b then a else lfree h)"
proof -
  let ?h = "merge_blocks a b h" and ?p = "blen xs"
  have c: "hchain (hdr h) 0 0 xs" "hdr_ok (hdr h ?p) False (?p + r) (last_pos 0 0 xs)"
    "hdr_ok (hdr h (?p + r)) False (?p + r + t) ?p" "16 \<le> r" "4 dvd r" "16 \<le> t" "4 dvd t"
    "hchain (hdr h) (?p + r + t) (?p + r) ys"
    using core by (auto simp: heap_core_def hchain_append)
  let ?nx = "h_next (hdr h (?p + r))"
  have nx: "unat ?nx = ?p + r + t" using c(3) by (simp add: hdr_ok_def)
  have H: "hdr ?h = (hdr h)(?p := (hdr h ?p)\<lparr>h_next := ?nx\<rparr>,
      ?p + r + t := (hdr h (?p + r + t))\<lparr>h_prev := a\<rparr>)"
    using a b c(4,6) nx by (auto simp: merge_blocks_def Let_def hdr_upd mem_at_def)
  show sh: "same_heap h ?h" and "lfree ?h = (if lfree h = b then a else lfree h)"
    by (auto simp: merge_blocks_def Let_def same_heap_def)
  have um: "used_mem ?h = used_mem h" "max_mem ?h = max_mem h"
    by (auto simp: merge_blocks_def Let_def)
  have "hchain (hdr ?h) 0 0 xs" using c(1,4,6) by (simp add: H hchain_upd_outside)
  moreover have "hchain (hdr ?h) (?p + r + t) ?p ys"
  proof -
    have "hchain ((hdr h)(?p + r + t := (hdr h (?p + r + t))\<lparr>h_prev := a\<rparr>)) (?p + r + t) ?p ys"
      using c(8) a by (rule hchain_set_prev)
    also have "?this \<longleftrightarrow> ?thesis"
      by (rule hchain_cong) (use c(4,6) in \<open>auto simp: H\<close>)
    finally show ?thesis .
  qed
  moreover have "hdr_ok (hdr ?h ?p) False (?p + (r + t)) (last_pos 0 0 xs)"
    using c(2,4,6) nx by (simp add: H hdr_ok_def)
  ultimately have ch: "hchain (hdr ?h) 0 0 (xs @ (False, r + t) # ys)"
    using c(4-7) by (simp add: hchain_append add.assoc dvd_add)
  have "h_used (hdr ?h (unat (mem_size_aligned h) + 12)) = 1"
    "h_next (hdr ?h (unat (mem_size_aligned h) + 12)) = heap_end h"
    using core c(4) by (auto simp: H heap_core_def)
  moreover have "heap_end ?h = heap_end h" "mem_size_aligned ?h = mem_size_aligned h"
    "heap_ptr ?h = heap_ptr h"
    using sh by (simp_all add: same_heap_def)
  ultimately show "heap_core ?h (xs @ (False, r + t) # ys)"
    using core ch um unfolding heap_core_def by simp
qed

lemma lfree_ok_merge:
  "lfree_ok l p (xs @ (False, r) # (False, t) # ys) \<Longrightarrow> \<forall>(u, s) \<in> set xs. 0 < s \<Longrightarrow>
   lfree_ok (if l = p + blen xs + r then p + blen xs else l) p (xs @ (False, r + t) # ys)"
proof (induction xs arbitrary: p)
  case Nil
  then show ?case by (auto simp: add.assoc split: if_splits)
next
  case (Cons x xs)
  then show ?case
    by (cases x) (use Cons.IH [of "p + snd x"] Cons.prems in
      \<open>auto simp: add.assoc split: if_splits\<close>)
qed


lemma lowest_free_merge:
  assumes "lowest_free l 0 (xs @ (False, r) # zs)"
  shows "l \<le> blen xs" "lowest_free l 0 (xs @ ys)"
  using assms by (auto simp: lowest_free_append lowest_free_le)

text \<open>One merge of two free neighbours keeps all of the invariant that holds before it.\<close>

definition heap_loose :: "heap \<Rightarrow> hblock list \<Rightarrow> bool" where
  "heap_loose h bs \<longleftrightarrow> heap_core h bs \<and> lfree_ok (unat (lfree h)) 0 bs"

lemma merge_blocks_loose:
  assumes l: "heap_loose h (xs @ (False, r) # (False, t) # ys)"
    and a: "unat a = blen xs" and b: "unat b = blen xs + r"
  shows "heap_loose (merge_blocks a b h) (xs @ (False, r + t) # ys)"
    "same_heap h (merge_blocks a b h)"
    "lowest_free (unat (lfree h)) 0 (xs @ (False, r) # (False, t) # ys) \<Longrightarrow>
     lowest_free (unat (lfree (merge_blocks a b h))) 0 (xs @ (False, r + t) # ys)"
proof -
  have core: "heap_core h (xs @ (False, r) # (False, t) # ys)"
    and lf: "lfree_ok (unat (lfree h)) 0 (xs @ (False, r) # (False, t) # ys)"
    using l by (auto simp: heap_loose_def)
  note m = merge_blocks_core [OF core a b] and c = heap_core_block [OF core a]
  have eq: "lfree h = b \<longleftrightarrow> unat (lfree h) = blen xs + r"
    using b by (metis unsigned_word_eqI)
  have "lfree_ok (unat (lfree (merge_blocks a b h))) 0 (xs @ (False, r + t) # ys)"
    using lfree_ok_merge [OF lf chain_pos [OF c(4)]] a by (auto simp: m(3) eq split: if_splits)
  with m(1) show "heap_loose (merge_blocks a b h) (xs @ (False, r + t) # ys)"
    by (simp add: heap_loose_def)
  show "same_heap h (merge_blocks a b h)" by (rule m(2))
  assume low: "lowest_free (unat (lfree h)) 0 (xs @ (False, r) # (False, t) # ys)"
  have "lfree h \<noteq> b" using lowest_free_merge(1) [OF low] c(2) eq by simp
  then show "lowest_free (unat (lfree (merge_blocks a b h))) 0 (xs @ (False, r + t) # ys)"
    using lowest_free_merge(2) [OF low] by (simp add: m(3))
qed

lemma plug_forward_ok:
  assumes l: "heap_loose h (xs @ (False, s) # ys)" and w: "unat w = blen xs"
  shows "heap_loose (plug_forward w h) (xs @ join_right s ys)"
    "same_heap h (plug_forward w h)"
    "lowest_free (unat (lfree h)) 0 (xs @ (False, s) # ys) \<Longrightarrow>
     lowest_free (unat (lfree (plug_forward w h))) 0 (xs @ join_right s ys)"
proof -
  have core: "heap_core h (xs @ (False, s) # ys)" using l by (simp add: heap_loose_def)
  note c = heap_core_block [OF core w]
  let ?n = "h_next (mem_at h w)"
  have nx: "unat ?n = blen (xs @ [(False, s)])" using c(1) by (simp add: hdr_ok_def)
  have ne: "w \<noteq> ?n" using nx w c(2) by auto
  have free: "(h_used (mem_at h ?n) = 0 \<and> ?n \<noteq> heap_end h) = (\<exists>t zs. ys = (False, t) # zs)"
  proof (cases ys)
    case Nil
    then have "?n = heap_end h" using nx c(6) by (simp add: unsigned_word_eqI)
    with Nil show ?thesis by simp
  next
    case (Cons y zs)
    obtain u t where y: "y = (u, t)" by (cases y)
    have core2: "heap_core h ((xs @ [(False, s)]) @ (u, t) # zs)" using core Cons y by simp
    note c2 = heap_core_block [OF core2 nx]
    have "?n \<noteq> heap_end h" using c2(2,6) nx by auto
    with c2(1) show ?thesis by (auto simp: Cons y hdr_ok_def)
  qed
  have "plug_forward w h = h \<and> join_right s ys = (False, s) # ys" if "\<nexists>t zs. ys = (False, t) # zs"
    using that free ne by (cases "(s, ys)" rule: join_right.cases) (auto simp: plug_forward_def Let_def)
  moreover have "plug_forward w h = merge_blocks w ?n h" if "\<exists>t zs. ys = (False, t) # zs"
    using that free ne by (auto simp: plug_forward_def Let_def)
  moreover note merge_blocks_loose [OF _ w, of h s _ _ ?n]
  ultimately show "heap_loose (plug_forward w h) (xs @ join_right s ys)"
    "same_heap h (plug_forward w h)"
    "lowest_free (unat (lfree h)) 0 (xs @ (False, s) # ys) \<Longrightarrow>
     lowest_free (unat (lfree (plug_forward w h))) 0 (xs @ join_right s ys)"
    using l nx by (cases "\<exists>t zs. ys = (False, t) # zs"; force simp: same_heap_def)+
qed


lemma join_right_Cons: obtains t zs where "join_right s ys = (False, t) # zs"
  "\<forall>r. join_right (r + s) ys = (False, r + t) # zs"
proof (cases "\<exists>t zs. ys = (False, t) # zs")
  case True
  then show ?thesis using that by (auto simp: add.assoc)
next
  case False
  then have "join_right k ys = (False, k) # ys" for k
    by (cases "(k, ys)" rule: join_right.cases) auto
  then show ?thesis using that by blast
qed

lemma plug_backward_ok:
  assumes l: "heap_loose h (xs @ (False, t) # zs)" and w: "unat w = blen xs"
  defines "bs \<equiv> (if xs \<noteq> [] \<and> \<not> fst (last xs)
       then butlast xs @ (False, snd (last xs) + t) # zs else xs @ (False, t) # zs)"
  shows "heap_loose (plug_backward w h) bs"
    "same_heap h (plug_backward w h)"
    "lowest_free (unat (lfree h)) 0 (xs @ (False, t) # zs) \<Longrightarrow>
     lowest_free (unat (lfree (plug_backward w h))) 0 bs"
proof -
  have core: "heap_core h (xs @ (False, t) # zs)" using l by (simp add: heap_loose_def)
  note c = heap_core_block [OF core w]
  let ?q = "h_prev (mem_at h w)"
  have pv: "unat ?q = last_pos 0 0 xs" using c(1) by (simp add: hdr_ok_def)
  have "heap_loose (plug_backward w h) bs \<and> same_heap h (plug_backward w h) \<and>
    (lowest_free (unat (lfree h)) 0 (xs @ (False, t) # zs) \<longrightarrow>
     lowest_free (unat (lfree (plug_backward w h))) 0 bs)"
  proof (cases xs rule: rev_cases)
    case Nil
    then have "unat ?q = unat w" using pv w by simp
    then have "?q = w" by (rule unsigned_word_eqI)
    then show ?thesis using l by (simp add: plug_backward_def bs_def Nil same_heap_def)
  next
    case (snoc xs' x)
    obtain u r where x: "x = (u, r)" by (cases x)
    have qp: "unat ?q = blen xs'" using pv snoc x by (simp add: last_pos_append)
    have core': "heap_core h (xs' @ (u, r) # (False, t) # zs)" using core snoc x by simp
    note c' = heap_core_block [OF core' qp]
    have ne: "?q \<noteq> w" using qp w snoc x c'(2) by auto
    have us: "h_used (mem_at h ?q) = 0 \<longleftrightarrow> \<not> u" using c'(1) by (simp add: hdr_ok_def)
    show ?thesis
    proof (cases u)
      case True
      then show ?thesis
        using l us ne by (simp add: plug_backward_def bs_def snoc x same_heap_def)
    next
      case False
      then have e: "plug_backward w h = merge_blocks ?q w h"
        using us ne by (simp add: plug_backward_def Let_def)
      have l': "heap_loose h (xs' @ (False, r) # (False, t) # zs)"
        and w': "unat w = blen xs' + r"
        using l w snoc x False by simp_all
      show ?thesis
        using merge_blocks_loose [OF l' qp w'] False by (simp add: e bs_def snoc x)
    qed
  qed
  then show "heap_loose (plug_backward w h) bs" "same_heap h (plug_backward w h)"
    "lowest_free (unat (lfree h)) 0 (xs @ (False, t) # zs) \<Longrightarrow>
     lowest_free (unat (lfree (plug_backward w h))) 0 bs"
    by auto
qed

lemma same_heap_trans: "same_heap a b \<Longrightarrow> same_heap b c \<Longrightarrow> same_heap a c"
  by (simp add: same_heap_def)

lemma no_adjacent_join: "no_adjacent_free ys \<Longrightarrow> no_adjacent_free (join_right s ys)"
  by (cases "(s, ys)" rule: join_right.cases; cases "tl ys") auto

lemma hd_join_right [simp]: "join_right s ys \<noteq> []" "fst (hd (join_right s ys)) = False"
  by (cases "(s, ys)" rule: join_right.cases; simp)+

lemma no_adjacent_used [simp]: "no_adjacent_free ((True, s) # bs) = no_adjacent_free bs"
  by (cases bs) auto

lemma no_adjacent_coalesce:
  assumes "no_adjacent_free xs" "no_adjacent_free ys"
  shows "no_adjacent_free (coalesce xs s ys)"
  using assms
  by (cases xs rule: rev_cases)
    (auto simp: coalesce_def no_adjacent_free_append no_adjacent_join split: if_splits)

lemma plug_holes_ok:
  assumes l: "heap_loose h (xs @ (False, s) # ys)" and w: "unat w = blen xs"
    and adj: "no_adjacent_free xs" "no_adjacent_free ys"
  obtains h' where "plug_holes w h = Some h'" "heap_inv h' (coalesce xs s ys)" "same_heap h h'"
    "lowest_free (unat (lfree h)) 0 (xs @ (False, s) # ys) \<Longrightarrow>
     lowest_free (unat (lfree h')) 0 (coalesce xs s ys)"
proof -
  have core: "heap_core h (xs @ (False, s) # ys)" using l by (simp add: heap_loose_def)
  note c = heap_core_block [OF core w]
  have "unat (haddr h w) = unat (heap_ptr h) + blen xs"
    "unat (haddr h (heap_end h)) = unat (heap_ptr h) + unat (heap_end h)"
    using c(2,7,8,9) w by (simp_all add: haddr_def unat_plus_less)
  then have "heap_ptr h \<le> haddr h w" "haddr h w < haddr h (heap_end h)"
    using c(2,6) by (simp_all add: word_le_nat_alt word_less_nat_alt)
  moreover have "h_used (mem_at h w) = 0" using c(1) by (simp add: hdr_ok_def)
  ultimately have call: "plug_holes w h = Some (plug_backward w (plug_forward w h))"
    by (simp add: plug_holes_def rt_assert_def)
  obtain t zs where j: "join_right s ys = (False, t) # zs"
    "\<forall>r. join_right (r + s) ys = (False, r + t) # zs"
    using join_right_Cons [of s ys] .
  note f = plug_forward_ok [OF l w]
  note b = plug_backward_ok [OF f(1) [unfolded j(1)] w]
  have bs: "coalesce xs s ys = (if xs \<noteq> [] \<and> \<not> fst (last xs)
       then butlast xs @ (False, snd (last xs) + t) # zs else xs @ (False, t) # zs)"
    by (simp add: coalesce_def j)
  show thesis
  proof (rule that [OF call])
    show "heap_inv (plug_backward w (plug_forward w h)) (coalesce xs s ys)"
      using b(1) no_adjacent_coalesce [OF adj, of s] unfolding bs
      by (simp only: heap_loose_def heap_inv_def simp_thms)
    show "same_heap h (plug_backward w (plug_forward w h))"
      using f(2) b(2) by (rule same_heap_trans)
    assume "lowest_free (unat (lfree h)) 0 (xs @ (False, s) # ys)"
    from b(3) [OF f(3) [OF this, unfolded j(1)]]
    show "lowest_free (unat (lfree (plug_backward w (plug_forward w h)))) 0 (coalesce xs s ys)"
      by (simp add: bs)
  qed
qed


lemma user_pointer:
  assumes core: "heap_core h (xs @ (u, s) # ys)" and p: "unat p = unat (heap_ptr h) + blen xs + 12"
  shows "p \<noteq> 0" "p AND (RT_ALIGN_SIZE - 1) = 0" "heap_ptr h \<le> p" "p < haddr h (heap_end h)"
    "unat (p - 12 - heap_ptr h) = blen xs"
proof -
  have c: "16 \<le> s" "blen xs + s + blen ys = unat (heap_end h)"
    "unat (heap_ptr h) + unat (mem_size_aligned h) + 24 < 2 ^ 32"
    "unat (heap_end h) = unat (mem_size_aligned h) + 12" "4 dvd unat (heap_ptr h)" "4 dvd blen xs"
    using core by (auto simp: heap_core_def hchain_append dest: hchain_dvd)
  have "unat (haddr h (heap_end h)) = unat (heap_ptr h) + unat (heap_end h)"
    using c(3,4) by (simp add: haddr_def unat_plus_less)
  then show "p < haddr h (heap_end h)" "heap_ptr h \<le> p"
    using c(1,2) p by (simp_all add: word_less_nat_alt word_le_nat_alt)
  show "p \<noteq> 0" using p by auto
  have "unat (p AND 3) = 0" unfolding unat_and_3 p using c(5,6) by presburger
  then show "p AND (RT_ALIGN_SIZE - 1) = 0" by (simp add: RT_ALIGN_SIZE_def unat_eq_zero)
  show "unat (p - 12 - heap_ptr h) = blen xs" using p by (simp add: unat_minus_le)
qed

text \<open>Every block of the list but the ends of a run of free blocks leaves no two free neighbours.\<close>

lemma no_adjacent_parts:
  "no_adjacent_free (xs @ b # ys) \<Longrightarrow> no_adjacent_free xs \<and> no_adjacent_free ys"
  by (cases b; cases ys) (auto simp: no_adjacent_free_append)

lemma rt_free_cases:
  assumes ok: "heap_ok h (xs @ (True, s) # ys)" and p: "unat p = unat (heap_ptr h) + blen xs + 12"
  obtains h' where "rt_free p h = Some h'" "heap_ok h' (coalesce xs s ys)" "same_heap h h'"
    "lowest_free (unat (lfree h)) 0 (xs @ (True, s) # ys) \<Longrightarrow>
     lowest_free (unat (lfree h')) 0 (coalesce xs s ys)"
proof -
  let ?bs = "xs @ (True, s) # ys" and ?bs' = "xs @ (False, s) # ys"
  let ?w = "p - 12 - heap_ptr h"
  obtain h0 where h0: "heap_lock h = Some h0" "heap_inv h0 ?bs" "heap_unlock h0 = h"
    "h0 = h\<lparr>heap_sem := 0\<rparr>"
    using heap_ok_lock [OF ok] .
  have core: "heap_core h ?bs" and adj: "no_adjacent_free ?bs" and lf: "lfree_ok (unat (lfree h)) 0 ?bs"
    using ok by (auto simp: heap_ok_def heap_inv_def)
  note up = user_pointer [OF core p] and c = heap_core_block [OF core user_pointer(5) [OF core p]]
  define h1 where "h1 = mem_upd (\<lambda>m. m\<lparr>h_used := 0, h_magic := HEAP_MAGIC\<rparr>) ?w h0"
  define h2 where "h2 = (if haddr h1 ?w < haddr h1 (lfree h1) then h1\<lparr>lfree := ?w\<rparr> else h1)"
  define h3 where "h3 = h2\<lparr>used_mem := used_mem h2 - (h_next (mem_at h2 ?w) - ?w)\<rparr>"
  have f1: "heap_ptr h1 = heap_ptr h" "lfree h1 = lfree h" "heap_end h1 = heap_end h"
    "mem_size_aligned h1 = mem_size_aligned h" "used_mem h1 = used_mem h" "max_mem h1 = max_mem h"
    "heap_sem h1 = 0" "bytes h1 = bytes h"
    "hdr h1 = (hdr h)(blen xs := (hdr h (blen xs))\<lparr>h_used := 0, h_magic := HEAP_MAGIC\<rparr>)"
    by (simp_all add: h1_def h0(4) hdr_upd up(5))
  have nx: "unat (h_next (mem_at h1 ?w) - ?w) = s"
    using c(1) up(5) by (simp add: mem_at_def f1 hdr_ok_def unat_minus_le)
  have f3: "hdr h3 = hdr h1" "heap_ptr h3 = heap_ptr h" "heap_end h3 = heap_end h"
    "mem_size_aligned h3 = mem_size_aligned h" "max_mem h3 = max_mem h" "heap_sem h3 = 0"
    "bytes h3 = bytes h" "used_mem h3 = used_mem h - (h_next (mem_at h1 ?w) - ?w)"
    "lfree h3 = (if haddr h1 ?w < haddr h1 (lfree h) then ?w else lfree h)"
    by (simp_all add: h3_def h2_def f1 mem_at_def)
  have call: "rt_free p h = do { h \<leftarrow> plug_holes ?w h3; Some (heap_unlock h) }"
    using up c(1) h0(1,4)
    by (simp add: rt_free_def rt_assert_def h1_def h2_def h3_def Let_def mem_at_def hdr_ok_def haddr_def
        cong: if_cong)
  have lfle: "unat (lfree h) \<le> unat (heap_end h)"
    using lfree_ok_le [OF lf] c(6) by simp
  have lt: "haddr h1 ?w < haddr h1 (lfree h) \<longleftrightarrow> blen xs < unat (lfree h)"
    using unat_plus_less [of "heap_ptr h" ?w] up(5) lfle c(2,6,8,9)
    by (simp add: haddr_def f1 word_less_nat_alt unat_plus_less)
  have ne: "unat (lfree h) \<noteq> 0 + blen xs"
    using lf lfree_ok_at [OF chain_pos [OF c(4)], of 0 "(True, s) # ys"] by auto
  have lf3: "lfree_ok (unat (lfree h3)) 0 ?bs'"
  proof (cases "blen xs < unat (lfree h)")
    case True
    then show ?thesis
      using lfree_ok_at [OF chain_pos [OF c(4)], of 0 "(False, s) # ys"] by (simp add: f3 lt up(5))
  next
    case False
    have "lfree_ok (unat (lfree h)) 0 ?bs'" by (rule lfree_ok_replace [OF lf ne]) simp
    with False show ?thesis by (simp add: f3 lt)
  qed
  have "hchain (hdr h) 0 0 ?bs" using core by (simp add: heap_core_def)
  then have ch3: "hchain (hdr h3) 0 0 ?bs'"
    unfolding f3 f1 by (rule hchain_set_block) (simp_all add: hdr_ok_def)
  have um: "unat (used_mem h) = used_bytes ?bs" using core by (simp add: heap_core_def)
  then have um3: "unat (used_mem h3) = used_bytes ?bs'"
    by (simp add: f3 nx unat_minus_le)
  moreover have "used_mem h3 \<le> max_mem h3"
    using um um3 heap_core_used_le [OF core] by (simp add: f3 word_le_nat_alt)
  moreover have "h_used (hdr h3 (unat (mem_size_aligned h) + 12)) = 1"
    "h_next (hdr h3 (unat (mem_size_aligned h) + 12)) = heap_end h"
    using core c(2) by (simp_all add: f3(1) f1(9) heap_core_def)
  ultimately have core3: "heap_core h3 ?bs'"
    using core ch3 unfolding heap_core_def f3(2-5) by simp
  obtain h4 where h4: "plug_holes ?w h3 = Some h4" "heap_inv h4 (coalesce xs s ys)" "same_heap h3 h4"
    "lowest_free (unat (lfree h3)) 0 ?bs' \<Longrightarrow> lowest_free (unat (lfree h4)) 0 (coalesce xs s ys)"
    using plug_holes_ok [of h3 xs s ys ?w] no_adjacent_parts [OF adj] core3 lf3 up(5)
    by (metis heap_loose_def)
  show thesis
  proof (rule that)
    show "rt_free p h = Some (heap_unlock h4)" by (simp add: call h4(1))
    show "heap_ok (heap_unlock h4) (coalesce xs s ys)"
      by (rule heap_unlock_ok [OF h4(2)]) (use h4(3) in \<open>simp add: same_heap_def f3\<close>)
    show "same_heap h (heap_unlock h4)"
      using h4(3) ok by (simp add: same_heap_def f3 heap_unlock_def heap_ok_def)
    assume low: "lowest_free (unat (lfree h)) 0 ?bs"
    have "lowest_free (unat (lfree h3)) 0 ?bs'"
      using low lt ne by (auto simp: f3 up(5) lowest_free_append lowest_free_le not_less
          intro: lowest_free_mono)
    from h4(4) [OF this]
    show "lowest_free (unat (lfree (heap_unlock h4))) 0 (coalesce xs s ys)" by simp
  qed
qed


section \<open>The allocator as its callers see it\<close>

text \<open>
  The abstract state is the set of live allocations: the address and the usable size of
  every block in use.
\<close>

fun live :: "nat \<Rightarrow> hblock list \<Rightarrow> (nat \<times> nat) set" where
  "live p [] = {}"
| "live p ((u, s) # bs) = (if u then {(p + 12, s - 12)} else {}) \<union> live (p + s) bs"

definition heap_live :: "heap \<Rightarrow> (nat \<times> nat) set \<Rightarrow> bool" where
  "heap_live h A \<longleftrightarrow> (\<exists>bs. heap_ok h bs \<and> A = live (unat (heap_ptr h)) bs)"

definition disjoint_from :: "nat \<Rightarrow> nat \<Rightarrow> (nat \<times> nat) set \<Rightarrow> bool" where
  "disjoint_from a k A \<longleftrightarrow> (\<forall>(b, m) \<in> A. a + k \<le> b \<or> b + m \<le> a)"

lemma disjoint_from_mono: "disjoint_from a k A \<Longrightarrow> k' \<le> k \<Longrightarrow> disjoint_from a k' A"
  by (fastforce simp: disjoint_from_def)

lemma live_append: "live p (xs @ ys) = live p xs \<union> live (p + blen xs) ys"
  by (induction xs arbitrary: p) (auto simp: add.assoc)

lemma live_join_right [simp]: "live p (join_right s ys) = live (p + s) ys"
  by (cases "(s, ys)" rule: join_right.cases) (auto simp: add.assoc)

lemma live_coalesce: "live p (coalesce xs s ys) = live p xs \<union> live (p + blen xs + s) ys"
  by (cases xs rule: rev_cases) (auto simp: coalesce_def live_append add.assoc)

lemma live_alloc_block:
  "n + 12 \<le> s \<Longrightarrow> live p (alloc_block n s) = {(p + 12, if n + 36 \<le> s then n else s - 12)}"
  by (simp add: alloc_block_def)

lemma live_bounds:
  "(a, k) \<in> live p bs \<Longrightarrow> \<forall>(u, s) \<in> set bs. 16 \<le> s \<Longrightarrow> p + 12 \<le> a \<and> a + k \<le> p + blen bs \<and> 4 \<le> k"
  by (induction bs arbitrary: p) (fastforce split: if_splits)+

lemma live_split:
  "(a, k) \<in> live p bs \<Longrightarrow> \<forall>(u, s) \<in> set bs. 16 \<le> s \<Longrightarrow>
   \<exists>xs ys. bs = xs @ (True, k + 12) # ys \<and> a = p + blen xs + 12"
proof (induction bs arbitrary: p)
  case (Cons b bs)
  obtain u s where b: "b = (u, s)" by (cases b)
  show ?case
  proof (cases "u \<and> a = p + 12 \<and> k = s - 12")
    case True
    with Cons.prems b show ?thesis by (intro exI [of _ "[]"] exI [of _ bs]) auto
  next
    case False
    with Cons.prems b have "(a, k) \<in> live (p + s) bs" by (auto split: if_splits)
    with Cons.IH [of "p + s"] Cons.prems(2) obtain xs ys where
      "bs = xs @ (True, k + 12) # ys" "a = p + s + blen xs + 12"
      by auto
    then show ?thesis by (intro exI [of _ "b # xs"] exI [of _ ys]) (auto simp: b)
  qed
qed simp

lemma heap_ok_sizes: "heap_ok h bs \<Longrightarrow> \<forall>(u, s) \<in> set bs. 16 \<le> s"
  by (auto simp: heap_ok_def heap_inv_def heap_core_def dest: hchain_sizes)

text \<open>A block apart from the others: what lies before and behind it is disjoint from it.\<close>

lemma live_apart:
  assumes "\<forall>(u, s) \<in> set (xs @ (v, s) # ys). 16 \<le> s"
  shows "disjoint_from (p + blen xs + 12) (s - 12) (live p xs \<union> live (p + blen xs + s) ys)"
    "(p + blen xs + 12, m) \<notin> live p xs \<union> live (p + blen xs + s) ys"
  using assms live_bounds [of _ _ p xs] live_bounds [of _ _ "p + blen xs + s" ys]
  by (fastforce simp: disjoint_from_def)+

lemma malloc_live:
  assumes ok: "heap_ok h bs" and sz: "0 < sz" "unat sz + 3 < 2 ^ 32"
  obtains (taken) h' w bs' k where "rt_malloc sz h = Some (h', w)" "heap_ok h' bs'"
      "same_heap h h'" "w \<noteq> 0" "unat sz \<le> k"
      "live (unat (heap_ptr h)) bs' = insert (unat w, k) (live (unat (heap_ptr h)) bs)"
      "disjoint_from (unat w) k (live (unat (heap_ptr h)) bs)"
  | (none) "rt_malloc sz h = Some (h, 0)"
proof (cases rule: rt_malloc_cases [OF ok sz refl])
  case (1 h' w xs s ys)
  let ?p = "unat (heap_ptr h)" and ?n = "req_size sz"
  have sizes: "\<forall>(u, s) \<in> set (xs @ (False, s) # ys). 16 \<le> s"
    using heap_ok_sizes [OF ok] 1(2) by simp
  note ap = live_apart [OF sizes]
  let ?k = "if ?n + 36 \<le> s then ?n else s - 12"
  have "unat sz \<le> ?n" by (simp add: req_size_def)
  then have k: "unat sz \<le> ?k" "?k \<le> s - 12" using 1(3) by auto
  have lv: "live ?p bs = live ?p xs \<union> live (?p + blen xs + s) ys"
    by (simp add: 1(2) live_append add.assoc)
  show thesis
  proof (rule taken [OF 1(1) 1(8) 1(9)])
    show "w \<noteq> 0" using 1(7) by auto
    show "unat sz \<le> ?k" by (rule k)
    show "live ?p (xs @ alloc_block ?n s @ ys) = insert (unat w, ?k) (live ?p bs)"
      using 1(3) by (simp add: live_append live_alloc_block alloc_block_len lv 1(7) add.assoc)
    show "disjoint_from (unat w) ?k (live ?p bs)"
      unfolding lv 1(7) using ap(1) k(2) by (rule disjoint_from_mono)
  qed
next
  case 2
  then show thesis using none by simp
qed

lemma free_live:
  assumes ok: "heap_ok h bs" and p: "(unat p, k) \<in> live (unat (heap_ptr h)) bs"
  obtains h' bs' where "rt_free p h = Some h'" "heap_ok h' bs'" "same_heap h h'"
    "live (unat (heap_ptr h)) bs' = live (unat (heap_ptr h)) bs - {(unat p, k)}"
proof -
  let ?p = "unat (heap_ptr h)"
  obtain xs ys where bs: "bs = xs @ (True, k + 12) # ys" and a: "unat p = ?p + blen xs + 12"
    using live_split [OF p heap_ok_sizes [OF ok]] by blast
  have sizes: "\<forall>(u, s) \<in> set (xs @ (True, k + 12) # ys). 16 \<le> s"
    using heap_ok_sizes [OF ok] bs by simp
  obtain h' where "rt_free p h = Some h'" "heap_ok h' (coalesce xs (k + 12) ys)" "same_heap h h'"
    using rt_free_cases [OF ok [unfolded bs] a] .
  then show thesis
  proof (rule that)
    show "live ?p (coalesce xs (k + 12) ys) = live ?p bs - {(unat p, k)}"
      using live_apart(2) [OF sizes, of ?p k]
      by (auto simp: bs live_coalesce live_append a add.assoc)
  qed
qed


section \<open>Reallocation\<close>

lemma realloc_shrink:
  assumes ok: "heap_ok h (xs @ (True, s) # ys)" and p: "unat p = unat (heap_ptr h) + blen xs + 12"
    and n: "n = unat sz" "4 \<le> n" "4 dvd n" "n + 36 < s"
    and h0: "h0 = h\<lparr>heap_sem := 0\<rparr>" and w: "w = p - 12 - heap_ptr h"
    and d: "unat d = s - 12 - n"
  obtains h' where
    "plug_holes (w + SIZEOF_STRUCT_MEM + sz)
       (split_block w sz (h0\<lparr>used_mem := used_mem h0 - d\<rparr>)) = Some h'"
    "heap_ok (heap_unlock h') (xs @ (True, n + 12) # join_right (s - 12 - n) ys)"
    "same_heap h (heap_unlock h')"
proof -
  let ?bs = "xs @ (True, s) # ys" and ?xs' = "xs @ [(True, n + 12)]"
  let ?w2 = "w + SIZEOF_STRUCT_MEM + sz" and ?h1 = "h0\<lparr>used_mem := used_mem h0 - d\<rparr>"
  let ?h2 = "split_block w sz ?h1"
  have core: "heap_core h ?bs" and adj: "no_adjacent_free ?bs" and lf: "lfree_ok (unat (lfree h)) 0 ?bs"
    using ok by (auto simp: heap_ok_def heap_inv_def)
  have uw: "unat w = blen xs" unfolding w by (rule user_pointer(5) [OF core p])
  note c = heap_core_block [OF core uw]
  have c1: "hchain (hdr ?h1) 0 0 ?bs" and l1: "blen ?bs = unat (mem_size_aligned ?h1) + 12"
    and bd: "unat (mem_size_aligned ?h1) + 24 < 2 ^ 32" and n28: "n + 28 \<le> s"
    using core n(4) c(8) by (auto simp: heap_core_def h0)
  note sp = split_block_chain [OF c1 l1 bd uw n(1-3) n28]
  have um: "unat (used_mem h) = used_bytes ?bs" using core by (simp add: heap_core_def)
  then have um2: "unat (used_mem ?h2) = used_bytes (xs @ (True, n + 12) # (False, s - 12 - n) # ys)"
    using d n(4) by (simp add: h0 unat_minus_le)
  have "used_mem ?h2 \<le> max_mem ?h2"
    using um um2 n(4) heap_core_used_le [OF core] by (simp add: h0 word_le_nat_alt)
  with um2 sp core have core2: "heap_core ?h2 (?xs' @ (False, s - 12 - n) # ys)"
    using n(4) by (simp add: heap_core_def h0)
  have uw2: "unat ?w2 = blen ?xs'"
    using uw n c(7,8) by (simp add: unat_plus_less)
  have ne: "unat (lfree h) \<noteq> 0 + blen xs"
    using lf lfree_ok_at [OF chain_pos [OF c(4)], of 0 "(True, s) # ys"] by auto
  have "lfree_ok (unat (lfree h)) 0 (xs @ ((True, n + 12) # (False, s - 12 - n) # ys))"
  proof (rule lfree_ok_replace [OF lf ne])
    fix q assume "lfree_ok (unat (lfree h)) (q + snd (True, s)) ys"
    moreover from this have "q + s \<le> unat (lfree h)" by (auto dest: lfree_ok_ge)
    ultimately show "lfree_ok (unat (lfree h)) q ((True, n + 12) # (False, s - 12 - n) # ys)"
      using n(4) by auto
  qed
  with core2 have loose: "heap_loose ?h2 (?xs' @ (False, s - 12 - n) # ys)"
    by (simp add: heap_loose_def h0)
  have adj': "no_adjacent_free ?xs'" "no_adjacent_free ys"
    using adj by (auto simp: no_adjacent_free_append dest: no_adjacent_parts)
  obtain h' where h': "plug_holes ?w2 ?h2 = Some h'" "heap_inv h' (coalesce ?xs' (s - 12 - n) ys)"
    "same_heap ?h2 h'"
    using plug_holes_ok [OF loose uw2 adj'] by blast
  show thesis
  proof (rule that)
    show "plug_holes ?w2 ?h2 = Some h'" by (rule h'(1))
    show "heap_ok (heap_unlock h') (xs @ (True, n + 12) # join_right (s - 12 - n) ys)"
      by (rule heap_unlock_ok) (use h'(2,3) in \<open>simp_all add: coalesce_def same_heap_def h0\<close>)
    show "same_heap h (heap_unlock h')"
      using h'(3) ok by (simp add: same_heap_def h0 heap_unlock_def heap_ok_def)
  qed
qed


text \<open>
  The outcome of a \<^verbatim>\<open>realloc\<close> of the allocation \<open>(p, k)\<close>: either nothing changes and NULL
  comes back, or the allocation is replaced by one of at least the requested size, apart from
  all others, that starts with the bytes of the old one, and the others keep their bytes.
\<close>

definition realloc_outcome ::
    "u32 \<Rightarrow> nat \<Rightarrow> nat \<Rightarrow> heap \<Rightarrow> (nat \<times> nat) set \<Rightarrow> heap \<Rightarrow> u32 \<Rightarrow> (nat \<times> nat) set \<Rightarrow> bool" where
  "realloc_outcome p k n h A h' q A' \<longleftrightarrow>
     (if q = 0 then h' = h \<and> A' = A
      else \<exists>m \<ge> n. A' = insert (unat q, m) (A - {(unat p, k)}) \<and>
        disjoint_from (unat q) m (A - {(unat p, k)}) \<and>
        (\<forall>i < min k n. bytes h' (unat q + i) = bytes h (unat p + i)) \<and>
        (\<forall>(a, l) \<in> A - {(unat p, k)}. \<forall>i < l. bytes h' (a + i) = bytes h (a + i)))"

lemma heap_memcpy_fields [simp]:
  "heap_ok (heap_memcpy d s n h) bs = heap_ok h bs"
  "heap_ptr (heap_memcpy d s n h) = heap_ptr h" "heap_end (heap_memcpy d s n h) = heap_end h"
  "mem_size_aligned (heap_memcpy d s n h) = mem_size_aligned h"
  by (simp_all add: heap_memcpy_def heap_ok_def)

lemma realloc_live:
  assumes ok: "heap_ok h bs" and p: "(unat p, k) \<in> live (unat (heap_ptr h)) bs"
    and sz: "0 < sz" "unat sz + 3 < 2 ^ 32"
  obtains h' q bs' where "rt_realloc p sz h = Some (h', q)" "heap_ok h' bs'"
    "heap_ptr h' = heap_ptr h" "mem_size_aligned h' = mem_size_aligned h"
    "realloc_outcome p k (unat sz) h (live (unat (heap_ptr h)) bs) h' q (live (unat (heap_ptr h)) bs')"
proof -
  let ?p = "unat (heap_ptr h)" and ?ns = "RT_ALIGN sz RT_ALIGN_SIZE"
  let ?A = "live ?p bs"
  define w where "w = p - 12 - heap_ptr h"
  define osz where "osz = h_next (mem_at h w) - w - 12"
  obtain xs ys where bs: "bs = xs @ (True, k + 12) # ys" and a: "unat p = ?p + blen xs + 12"
    using live_split [OF p heap_ok_sizes [OF ok]] by blast
  have core: "heap_core h (xs @ (True, k + 12) # ys)"
    using ok by (simp add: heap_ok_def heap_inv_def bs)
  note up = user_pointer [OF core a, folded w_def] and c = heap_core_block [OF core up(5)]
  have sizes: "\<forall>(u, s) \<in> set (xs @ (True, k + 12) # ys). 16 \<le> s"
    using heap_ok_sizes [OF ok] bs by simp
  note ap = live_apart [OF sizes]
  have A': "?A - {(unat p, k)} = live ?p xs \<union> live (?p + blen xs + (k + 12)) ys"
    using ap(2) [of ?p k] by (auto simp: bs live_append a add.assoc)
  have apA: "disjoint_from (unat p) k (?A - {(unat p, k)})"
    unfolding A' using ap(1) [of ?p] by (simp add: a)
  have ns: "unat ?ns = (unat sz + 3) div 4 * 4" using sz(2) by (rule unat_align)
  have "1 \<le> unat sz" using sz(1) by (simp add: word_less_nat_alt)
  then have ns4: "4 \<le> unat ?ns" "4 dvd unat ?ns" "unat sz \<le> unat ?ns"
    unfolding ns by presburger+
  then have ns0: "?ns \<noteq> 0" by auto
  obtain h0 where h0: "heap_lock h = Some h0" "heap_unlock h0 = h" "h0 = h\<lparr>heap_sem := 0\<rparr>"
    using heap_ok_lock [OF ok] by metis
  have "unat (x - v - 12) = k" if "unat x = blen xs + (k + 12)" "unat v = blen xs" for x v :: u32
    using that by (simp add: unat_minus_le)
  then have osz: "unat osz = k" unfolding osz_def using c(1) up(5) by (simp only: hdr_ok_def)
  have call: "rt_realloc p sz h = realloc_block p ?ns w osz h0" if "\<not> mem_size_aligned h < ?ns"
  proof -
    have "\<not> p < heap_ptr h" "\<not> haddr h (heap_end h) \<le> p" using up(3,4) by simp_all
    then show ?thesis
      using that up(1) h0 ns0
      by (simp add: rt_realloc_def Let_def mem_at_def haddr_def w_def [symmetric] osz_def)
  qed
  consider (big) "mem_size_aligned h < ?ns" | (same) "\<not> mem_size_aligned h < ?ns" "osz = ?ns"
    | (shrink) "\<not> mem_size_aligned h < ?ns" "osz \<noteq> ?ns" "?ns + 24 < osz"
    | (move) "\<not> mem_size_aligned h < ?ns" "osz \<noteq> ?ns" "\<not> ?ns + 24 < osz"
    by blast
  then show thesis
  proof cases
    case big
    show thesis
      by (rule that [of h 0 bs]) (use big ok in \<open>auto simp: rt_realloc_def realloc_outcome_def\<close>)
  next
    case same
    then have k: "k = unat ?ns" using osz by auto
    have "rt_realloc p sz h = Some (h, p)"
      using same call h0(2) by (simp add: realloc_block_def)
    moreover have "realloc_outcome p k (unat sz) h ?A h p ?A"
      using up(1) p ns4(3) k apA unfolding realloc_outcome_def
      by (auto intro!: exI [of _ k] simp: insert_absorb)
    ultimately show thesis using that ok by blast
  next
    case shrink
    have "unat ?ns \<le> unat (mem_size_aligned h)" using shrink(1) by (simp add: not_less word_le_nat_alt)
    then have "unat (?ns + 24) = unat ?ns + 24"
      using c(8) by (simp add: unat_plus_less)
    then have lt: "unat ?ns + 36 < k + 12" using shrink(3) osz by (simp add: word_less_nat_alt)
    have d: "unat (osz - ?ns) = k + 12 - 12 - unat ?ns" using lt osz by (simp add: unat_minus_le)
    obtain h' where h': "plug_holes (w + SIZEOF_STRUCT_MEM + ?ns)
        (split_block w ?ns (h0\<lparr>used_mem := used_mem h0 - (osz - ?ns)\<rparr>)) = Some h'"
      "heap_ok (heap_unlock h') (xs @ (True, unat ?ns + 12) # join_right (k + 12 - 12 - unat ?ns) ys)"
      "same_heap h (heap_unlock h')"
      by (rule realloc_shrink [OF ok [unfolded bs] a refl ns4(1,2) lt h0(3) w_def d])
    have "rt_realloc p sz h = Some (heap_unlock h', p)"
      using shrink call h'(1) by (simp add: realloc_block_def Let_def add.assoc)
    moreover have "live ?p (xs @ (True, unat ?ns + 12) # join_right (k + 12 - 12 - unat ?ns) ys) =
        insert (unat p, unat ?ns) (?A - {(unat p, k)})"
      unfolding A' using lt by (simp add: live_append a add.assoc add.commute [of 12 k])
    ultimately show thesis
      using that [OF _ h'(2)] h'(3) up(1) ns4(3) lt disjoint_from_mono [OF apA, of "unat ?ns"]
      by (auto simp: same_heap_def realloc_outcome_def)
  next
    case move
    have ns3: "0 < ?ns" "unat ?ns + 3 < 2 ^ 32"
      using ns0 move(1) c(8) by (auto simp: word_gt_0 not_less word_le_nat_alt)
    have call2: "rt_realloc p sz h = do {
        (h, nmem) \<leftarrow> rt_malloc ?ns h;
        if nmem \<noteq> 0
        then do { h \<leftarrow> rt_free p (heap_memcpy nmem p (if osz < ?ns then osz else ?ns) h); Some (h, nmem) }
        else Some (h, nmem) }"
      using move call h0(2) by (simp add: realloc_block_def add.assoc)
    show thesis
    proof (cases rule: malloc_live [OF ok ns3])
      case (1 h1 q bs1 m)
      let ?n = "if osz < ?ns then osz else ?ns" and ?h2 = "heap_memcpy q p (if osz < ?ns then osz else ?ns) h1"
      have pt: "heap_ptr h1 = heap_ptr h" "bytes h1 = bytes h" using 1(3) by (auto simp: same_heap_def)
      have ok2: "heap_ok ?h2 bs1" using 1(2) by simp
      have in2: "(unat p, k) \<in> live (unat (heap_ptr ?h2)) bs1" using 1(6) p pt by simp
      obtain h3 bs3 where f: "rt_free p ?h2 = Some h3" "heap_ok h3 bs3" "same_heap ?h2 h3"
        "live (unat (heap_ptr ?h2)) bs3 = live (unat (heap_ptr ?h2)) bs1 - {(unat p, k)}"
        using free_live [OF ok2 in2] .
      have neq: "(unat q, m) \<noteq> (unat p, k)" using 1(5,7) p ns4 unfolding disjoint_from_def by fastforce
      have un: "unat ?n = min k (unat ?ns)" by (auto simp: osz word_less_nat_alt)
      have b3: "bytes h3 x = (if unat q \<le> x \<and> x < unat q + min k (unat ?ns)
          then bytes h (unat p + (x - unat q)) else bytes h x)" for x
        using f(3) pt un by (simp add: same_heap_def heap_memcpy_def)
      have keep: "bytes h3 (b + i) = bytes h (b + i)" if "(b, l) \<in> ?A" "i < l" for b l i
        using 1(5,7) that unfolding b3 disjoint_from_def by fastforce
      have "realloc_outcome p k (unat sz) h ?A h3 q (live ?p bs3)"
      proof -
        have "disjoint_from (unat q) m (?A - {(unat p, k)})"
          using 1(7) by (auto simp: disjoint_from_def)
        moreover have "live ?p bs3 = insert (unat q, m) (?A - {(unat p, k)})"
          using f(4) pt 1(6) neq by auto
        moreover have "\<forall>i < min k (unat sz). bytes h3 (unat q + i) = bytes h (unat p + i)"
          using ns4(3) by (auto simp: b3)
        moreover have "\<forall>(a, l) \<in> ?A - {(unat p, k)}. \<forall>i < l. bytes h3 (a + i) = bytes h (a + i)"
          using keep by auto
        moreover have "unat sz \<le> m" using 1(5) ns4(3) by simp
        ultimately show ?thesis
          unfolding realloc_outcome_def if_not_P [OF 1(4)] by (intro exI [of _ m]) simp
      qed
      moreover have "rt_realloc p sz h = Some (h3, q)"
        using call2 1(1,4) f(1) by simp
      ultimately show thesis
        using that f(2,3) 1(3) by (auto simp: same_heap_def)
    next
      case 2
      show thesis
        by (rule that [of h 0 bs]) (use 2 call2 ok in \<open>auto simp: realloc_outcome_def\<close>)
    qed
  qed
qed


section \<open>Clients\<close>

text \<open>
  A client calls the four operations. What it owns is a map \<open>B\<close> from the addresses it was
  given and has not released to the sizes it asked for; it releases and reallocates only what
  it owns, and asks for no size within three bytes of \<open>2 ^ 32\<close>.
\<close>

datatype heap_call =
  Malloc u32
| Calloc u32 u32
| Realloc u32 u32
| Free u32

fun heap_exec :: "heap_call \<Rightarrow> heap \<Rightarrow> (heap \<times> u32) option" where
  "heap_exec (Malloc n) h = rt_malloc n h"
| "heap_exec (Calloc c n) h = rt_calloc c n h"
| "heap_exec (Realloc p n) h = rt_realloc p n h"
| "heap_exec (Free p) h = map_option (\<lambda>h. (h, 0)) (rt_free p h)"

type_synonym owned = "nat \<rightharpoonup> nat"

fun call_ok :: "heap_call \<Rightarrow> owned \<Rightarrow> bool" where
  "call_ok (Malloc n) B = (unat n + 3 < 2 ^ 32)"
| "call_ok (Calloc c n) B = (unat c * unat n + 3 < 2 ^ 32)"
| "call_ok (Realloc p n) B = (unat n + 3 < 2 ^ 32 \<and> (p = 0 \<or> B (unat p) \<noteq> None))"
| "call_ok (Free p) B = (p = 0 \<or> B (unat p) \<noteq> None)"

definition gain :: "u32 \<Rightarrow> nat \<Rightarrow> owned \<Rightarrow> owned" where
  "gain q n B = (if q = 0 then B else B(unat q \<mapsto> n))"

fun call_owned :: "heap_call \<Rightarrow> u32 \<Rightarrow> owned \<Rightarrow> owned" where
  "call_owned (Malloc n) q B = gain q (unat n) B"
| "call_owned (Calloc c n) q B = gain q (unat c * unat n) B"
| "call_owned (Realloc p n) q B =
     (if n = 0 then B(unat p := None)
      else if q = 0 then B else (B(unat p := None))(unat q \<mapsto> unat n))"
| "call_owned (Free p) q B = B(unat p := None)"

inductive heap_reach :: "heap \<Rightarrow> owned \<Rightarrow> bool" where
  init: "unat b + 3 < 2 ^ 32 \<Longrightarrow>
    unat (RT_ALIGN b RT_ALIGN_SIZE) + 36 \<le> unat (RT_ALIGN_DOWN e RT_ALIGN_SIZE) \<Longrightarrow>
    used_mem h = 0 \<Longrightarrow> heap_reach (rt_system_heap_init b e h) Map.empty"
| call: "heap_reach h B \<Longrightarrow> call_ok c B \<Longrightarrow> heap_exec c h = Some (h', q) \<Longrightarrow>
    heap_reach h' (call_owned c q B)"

text \<open>
  What the client owns are exactly the live allocations, none smaller than the client thinks.
\<close>

definition owned_ok :: "heap \<Rightarrow> owned \<Rightarrow> bool" where
  "owned_ok h B \<longleftrightarrow> (\<exists>bs. heap_ok h bs \<and> dom B = fst ` live (unat (heap_ptr h)) bs \<and>
     (\<forall>a n. B a = Some n \<longrightarrow> (\<exists>k \<ge> n. (a, k) \<in> live (unat (heap_ptr h)) bs)))"

lemma heap_init_ok:
  assumes "unat b + 3 < 2 ^ 32" "unat (RT_ALIGN b RT_ALIGN_SIZE) + 36 \<le> unat (RT_ALIGN_DOWN e RT_ALIGN_SIZE)"
    and "used_mem h = 0"
  defines "h' \<equiv> rt_system_heap_init b e h"
  shows "heap_ok h' [(False, unat (mem_size_aligned h') + 12)]"
    "unat (heap_ptr h') = (unat b + 3) div 4 * 4"
    "unat (heap_ptr h') + unat (mem_size_aligned h') + 24 = unat e - unat e mod 4"
proof -
  let ?b = "RT_ALIGN b RT_ALIGN_SIZE" and ?e = "RT_ALIGN_DOWN e RT_ALIGN_SIZE"
  define sz where "sz = ?e - ?b - 24"
  have ub: "unat ?b = (unat b + 3) div 4 * 4" using assms(1) by (rule unat_align)
  have ue: "unat ?e = unat e - unat e mod 4" by (rule unat_align_down)
  have e24: "unat (?e - 24) = unat ?e - 24" using assms(2) by (simp add: unat_minus_le)
  have c: "24 < ?e" "?b \<le> ?e - 24"
    using assms(2) e24 by (simp_all add: word_less_nat_alt word_le_nat_alt)
  have "unat (?e - ?b) = unat ?e - unat ?b" using assms(2) by (simp add: unat_minus_le)
  then have usz: "unat sz = unat ?e - unat ?b - 24" unfolding sz_def using assms(2) by (simp add: unat_minus_le)
  have lt: "unat ?e < 2 ^ 32" using unsigned_less [of ?e] by simp
  have us12: "unat (sz + 12) = unat sz + 12" using usz lt by (simp add: unat_plus_less)
  have f: "heap_ptr h' = ?b" "mem_size_aligned h' = sz" "lfree h' = 0" "heap_sem h' = 1"
    "heap_end h' = sz + 12" "used_mem h' = 0"
    "hdr h' = (hdr h)(0 := \<lparr>h_magic = HEAP_MAGIC, h_used = 0, h_next = sz + 12, h_prev = 0\<rparr>,
       unat (sz + 12) := \<lparr>h_magic = HEAP_MAGIC, h_used = 1, h_next = sz + 12, h_prev = sz + 12\<rparr>)"
    using c assms(3)
    by (simp_all add: h'_def rt_system_heap_init_def Let_def mem_upd_def mem_at_def sz_def)
  have d: "4 dvd unat ?b" "4 dvd unat ?e" "4 dvd unat sz"
    using assms(2) by (simp_all add: usz ub ue dvd_diff_nat minus_mod_eq_mult_div)
  have "16 \<le> unat sz + 12" "12 \<le> unat sz" using assms(2) usz by simp_all
  then show "heap_ok h' [(False, unat (mem_size_aligned h') + 12)]"
    using d lt usz us12 assms(2)
    by (simp add: heap_ok_def heap_inv_def heap_core_def f hdr_ok_def)
  show "unat (heap_ptr h') = (unat b + 3) div 4 * 4" by (simp add: f ub)
  show "unat (heap_ptr h') + unat (mem_size_aligned h') + 24 = unat e - unat e mod 4"
    using assms(2) by (simp add: f usz ue)
qed


subsection \<open>Every call keeps the client's view\<close>

lemma live_disjoint:
  assumes ok: "heap_ok h bs" and "(a, k) \<in> live p bs" "(b, m) \<in> live p bs"
  shows "a = b \<and> k = m \<or> a + k \<le> b \<or> b + m \<le> a"
proof -
  obtain xs ys where bs: "bs = xs @ (True, k + 12) # ys" and a: "a = p + blen xs + 12"
    using live_split [OF assms(2) heap_ok_sizes [OF ok]] by blast
  have sizes: "\<forall>(u, s) \<in> set (xs @ (True, k + 12) # ys). 16 \<le> s"
    using heap_ok_sizes [OF ok] bs by simp
  have "(b, m) = (a, k) \<or> (b, m) \<in> live p xs \<union> live (p + blen xs + (k + 12)) ys"
    using assms(3) by (auto simp: bs live_append a add.assoc)
  then show ?thesis
    using live_apart(1) [OF sizes, of p] a by (auto simp: disjoint_from_def)
qed

lemma live_unique:
  assumes "heap_ok h bs" "(a, k) \<in> live p bs" "(a, m) \<in> live p bs"
  shows "k = m"
  using live_disjoint [OF assms] live_bounds [OF assms(2)] live_bounds [OF assms(3)]
    heap_ok_sizes [OF assms(1)] by auto

fun call_effect :: "heap_call \<Rightarrow> u32 \<Rightarrow> owned \<Rightarrow> heap \<Rightarrow> heap \<Rightarrow> bool" where
  "call_effect (Malloc n) q B h h' = (bytes h' = bytes h)"
| "call_effect (Calloc c n) q B h h' =
     (q \<noteq> 0 \<longrightarrow> (\<forall>i < unat c * unat n. bytes h' (unat q + i) = 0))"
| "call_effect (Realloc p n) q B h h' =
     (if n \<noteq> 0 \<and> q = 0 then h' = h
      else \<forall>m. B (unat p) = Some m \<longrightarrow> (\<forall>i < min m (unat n). bytes h' (unat q + i) = bytes h (unat p + i)))"
| "call_effect (Free p) q B h h' = (bytes h' = bytes h)"

fun releases :: "heap_call \<Rightarrow> nat \<Rightarrow> bool" where
  "releases (Realloc p n) a = (a = unat p)"
| "releases (Free p) a = (a = unat p)"
| "releases c a = False"

definition call_result :: "heap_call \<Rightarrow> heap \<Rightarrow> owned \<Rightarrow> bool" where
  "call_result c h B \<longleftrightarrow>
     (\<exists>h' q. heap_exec c h = Some (h', q) \<and> owned_ok h' (call_owned c q B) \<and>
       heap_ptr h' = heap_ptr h \<and> mem_size_aligned h' = mem_size_aligned h \<and>
       call_effect c q B h h' \<and>
       (\<forall>a n. B a = Some n \<longrightarrow> \<not> releases c a \<longrightarrow> (\<forall>i < n. bytes h' (a + i) = bytes h (a + i))))"

lemma owned_gain:
  assumes "owned_ok h B" "heap_ok h bs" "dom B = fst ` live (unat (heap_ptr h)) bs"
    "\<forall>a n. B a = Some n \<longrightarrow> (\<exists>k \<ge> n. (a, k) \<in> live (unat (heap_ptr h)) bs)"
    "heap_ok h' bs'" "heap_ptr h' = heap_ptr h" "w \<noteq> 0" "n \<le> k"
    "live (unat (heap_ptr h)) bs' = insert (unat w, k) (live (unat (heap_ptr h)) bs)"
  shows "owned_ok h' (gain w n B)"
  unfolding owned_ok_def
  by (rule exI [of _ bs']) (use assms in \<open>auto simp: gain_def\<close>)

lemma malloc_result:
  assumes "owned_ok h B" "unat n + 3 < 2 ^ 32"
  obtains h' q where "rt_malloc n h = Some (h', q)" "owned_ok h' (gain q (unat n) B)"
    "same_heap h h'" "q = 0 \<Longrightarrow> h' = h"
    "\<And>a m. q \<noteq> 0 \<Longrightarrow> B a = Some m \<Longrightarrow> unat q + unat n \<le> a \<or> a + m \<le> unat q"
proof -
  obtain bs where ok: "heap_ok h bs" "dom B = fst ` live (unat (heap_ptr h)) bs"
    "\<forall>a n. B a = Some n \<longrightarrow> (\<exists>k \<ge> n. (a, k) \<in> live (unat (heap_ptr h)) bs)"
    using assms(1) by (auto simp: owned_ok_def)
  show thesis
  proof (cases "n = 0")
    case True
    then show thesis
      using that [of h 0] assms(1) by (simp add: rt_malloc_def gain_def same_heap_def)
  next
    case False
    then have n: "0 < n" by (simp add: word_gt_0)
    show thesis
    proof (cases rule: malloc_live [OF ok(1) n assms(2)])
      case (1 h' w bs' k)
      show thesis
      proof (rule that [OF 1(1) _ 1(3)])
        show "owned_ok h' (gain w (unat n) B)"
          by (rule owned_gain [OF assms(1) ok 1(2) _ 1(4,5,6)]) (use 1(3) in \<open>simp add: same_heap_def\<close>)
        fix a m assume "B a = Some m"
        then obtain l where "m \<le> l" "(a, l) \<in> live (unat (heap_ptr h)) bs" using ok(3) by blast
        with 1(5,7) show "unat w + unat n \<le> a \<or> a + m \<le> unat w"
          by (fastforce simp: disjoint_from_def)
      qed (use 1(4) in simp)
    next
      case 2
      then show thesis using that [of h 0] assms(1) by (simp add: gain_def same_heap_def)
    qed
  qed
qed


lemma owned_zero:
  assumes "owned_ok h B"
  shows "B 0 = None"
proof -
  obtain bs where ok: "heap_ok h bs" "dom B = fst ` live (unat (heap_ptr h)) bs"
    using assms by (auto simp: owned_ok_def)
  have "(0, k) \<notin> live (unat (heap_ptr h)) bs" for k
    using live_bounds [of 0 k] heap_ok_sizes [OF ok(1)] by force
  then have "0 \<notin> dom B" unfolding ok(2) by force
  then show ?thesis by blast
qed

lemma fst_image_remove:
  "(\<And>m. (a, m) \<in> L \<Longrightarrow> m = k) \<Longrightarrow> fst ` (L - {(a, k)}) = fst ` L - {a}"
  by force

lemma free_result:
  assumes B: "owned_ok h B" and p: "p = 0 \<or> B (unat p) \<noteq> None"
  obtains h' where "rt_free p h = Some h'" "owned_ok h' (B(unat p := None))" "same_heap h h'"
proof -
  obtain bs where ok: "heap_ok h bs" "dom B = fst ` live (unat (heap_ptr h)) bs"
    "\<And>a n. B a = Some n \<Longrightarrow> \<exists>k \<ge> n. (a, k) \<in> live (unat (heap_ptr h)) bs"
    using B by (auto simp: owned_ok_def)
  let ?L = "live (unat (heap_ptr h)) bs"
  show thesis
  proof (cases "p = 0")
    case True
    have "B(0 := None) = B" using owned_zero [OF B] by (simp add: fun_upd_idem)
    then show thesis using that [of h] B True by (simp add: rt_free_def same_heap_def)
  next
    case False
    with p ok(3) obtain k where k: "(unat p, k) \<in> ?L" by blast
    obtain h' bs' where f: "rt_free p h = Some h'" "heap_ok h' bs'" "same_heap h h'"
      "live (unat (heap_ptr h)) bs' = ?L - {(unat p, k)}"
      using free_live [OF ok(1) k] .
    have un: "(unat p, m) \<in> ?L \<Longrightarrow> m = k" for m using live_unique [OF ok(1) _ k] by auto
    have "owned_ok h' (B(unat p := None))"
      unfolding owned_ok_def
    proof (intro exI [of _ bs'] conjI allI impI)
      show "heap_ok h' bs'" by (rule f(2))
      show "dom (B(unat p := None)) = fst ` live (unat (heap_ptr h')) bs'"
        using f(3,4) fst_image_remove [of "unat p" ?L k] un by (simp add: same_heap_def ok(2))
      fix a n assume a: "(B(unat p := None)) a = Some n"
      then obtain m where "n \<le> m" "(a, m) \<in> ?L" using ok(3) by (metis fun_upd_apply option.simps(3))
      then show "\<exists>m \<ge> n. (a, m) \<in> live (unat (heap_ptr h')) bs'"
        using a f(3,4) by (auto simp: same_heap_def split: if_splits)
    qed
    then show thesis using that f(1,3) by blast
  qed
qed


lemma owned_gain_mono:
  assumes "owned_ok h (gain q m B)" "n \<le> m"
  shows "owned_ok h (gain q n B)"
proof -
  obtain bs where bs: "heap_ok h bs" "dom (gain q m B) = fst ` live (unat (heap_ptr h)) bs"
    "\<And>a x. gain q m B a = Some x \<Longrightarrow> \<exists>k \<ge> x. (a, k) \<in> live (unat (heap_ptr h)) bs"
    using assms(1) by (auto simp: owned_ok_def)
  have "\<exists>k \<ge> x. (a, k) \<in> live (unat (heap_ptr h)) bs" if "gain q n B a = Some x" for a x
  proof (cases "q \<noteq> 0 \<and> a = unat q")
    case True
    with that assms(2) bs(3) [of a m] show ?thesis by (auto simp: gain_def intro: order_trans)
  next
    case False
    with that have "gain q m B a = Some x" by (auto simp: gain_def split: if_splits)
    then show ?thesis by (rule bs(3))
  qed
  moreover have "dom (gain q n B) = dom (gain q m B)" by (simp add: gain_def)
  ultimately show ?thesis using bs(1,2) by (auto simp: owned_ok_def)
qed

lemma realloc_result:
  assumes B: "owned_ok h B" and v: "call_ok (Realloc p n) B"
  shows "call_result (Realloc p n) h B"
proof -
  have sz: "unat n + 3 < 2 ^ 32" and p: "p = 0 \<or> B (unat p) \<noteq> None" using v by auto
  let ?ns = "RT_ALIGN n RT_ALIGN_SIZE"
  have ns: "unat ?ns = (unat n + 3) div 4 * 4" using sz by (rule unat_align)
  then have nle: "unat n \<le> unat ?ns" by simp
  have ns0: "?ns = 0 \<longleftrightarrow> n = 0" using ns by (auto simp: unat_eq_zero [symmetric])
  consider (free) "n = 0" | (malloc) "n \<noteq> 0" "p = 0" | (realloc) "n \<noteq> 0" "p \<noteq> 0" by blast
  then show ?thesis
  proof cases
    case free
    obtain h' where "rt_free p h = Some h'" "owned_ok h' (B(unat p := None))" "same_heap h h'"
      using free_result [OF B p] .
    then show ?thesis
      using free ns0 by (auto simp: call_result_def rt_realloc_def Let_def same_heap_def)
  next
    case malloc
    have B0: "B(0 := None) = B" using owned_zero [OF B] by (simp add: fun_upd_idem)
    show ?thesis
    proof (cases "mem_size_aligned h < ?ns")
      case True
      then show ?thesis using malloc B by (auto simp: call_result_def rt_realloc_def)
    next
      case False
      have "unat (mem_size_aligned h) + 24 < 2 ^ 32"
        using B by (auto simp: owned_ok_def heap_ok_def heap_inv_def heap_core_def)
      then have "unat ?ns + 3 < 2 ^ 32" using False by (simp add: not_less word_le_nat_alt)
      then obtain h' q where "rt_malloc ?ns h = Some (h', q)" "owned_ok h' (gain q (unat ?ns) B)"
        "same_heap h h'" "q = 0 \<Longrightarrow> h' = h"
        using malloc_result [OF B] by metis
      then show ?thesis
        using malloc False ns0 nle B0 owned_zero [OF B] owned_gain_mono [of h' q "unat ?ns" B "unat n"]
        by (auto simp: call_result_def rt_realloc_def same_heap_def gain_def split: if_splits)
    qed
  next
    case realloc
    then have n0: "0 < n" by (simp add: word_gt_0)
    obtain bs where ok: "heap_ok h bs" "dom B = fst ` live (unat (heap_ptr h)) bs"
      "\<And>a n. B a = Some n \<Longrightarrow> \<exists>k \<ge> n. (a, k) \<in> live (unat (heap_ptr h)) bs"
      using B by (auto simp: owned_ok_def)
    let ?L = "live (unat (heap_ptr h)) bs"
    obtain m where m: "B (unat p) = Some m" using p realloc by blast
    obtain k where k: "m \<le> k" "(unat p, k) \<in> ?L" using ok(3) [OF m] by blast
    have un: "(unat p, l) \<in> ?L \<Longrightarrow> l = k" for l using live_unique [OF ok(1) _ k(2)] by auto
    obtain h' q bs' where r: "rt_realloc p n h = Some (h', q)" "heap_ok h' bs'"
      "heap_ptr h' = heap_ptr h" "mem_size_aligned h' = mem_size_aligned h"
      "realloc_outcome p k (unat n) h ?L h' q (live (unat (heap_ptr h)) bs')"
      using realloc_live [OF ok(1) k(2) n0 sz] .
    show ?thesis
    proof (cases "q = 0")
      case True
      then show ?thesis
        using r realloc B by (auto simp: call_result_def realloc_outcome_def)
    next
      case False
      let ?B = "(B(unat p := None))(unat q \<mapsto> unat n)"
      obtain l where l: "unat n \<le> l" "live (unat (heap_ptr h)) bs' = insert (unat q, l) (?L - {(unat p, k)})"
        "\<forall>i < min k (unat n). bytes h' (unat q + i) = bytes h (unat p + i)"
        "\<forall>(a, l) \<in> ?L - {(unat p, k)}. \<forall>i < l. bytes h' (a + i) = bytes h (a + i)"
        using r(5) False by (auto simp: realloc_outcome_def)
      have "owned_ok h' ?B"
        unfolding owned_ok_def
      proof (intro exI [of _ bs'] conjI allI impI)
        show "dom ?B = fst ` live (unat (heap_ptr h')) bs'"
          using fst_image_remove [of "unat p" ?L k] un by (simp add: r(3) l(2) ok(2))
        fix a x assume a: "?B a = Some x"
        show "\<exists>k \<ge> x. (a, k) \<in> live (unat (heap_ptr h')) bs'"
        proof (cases "a = unat q")
          case False
          with a have "B a = Some x" "a \<noteq> unat p" by (auto split: if_splits)
          then obtain y where "x \<le> y" "(a, y) \<in> ?L" using ok(3) by blast
          with \<open>a \<noteq> unat p\<close> show ?thesis by (auto simp: r(3) l(2))
        qed (use a l(1) in \<open>auto simp: r(3) l(2)\<close>)
      qed (rule r(2))
      moreover have "bytes h' (a + i) = bytes h (a + i)"
        if "B a = Some x" "a \<noteq> unat p" "i < x" for a x i
      proof -
        obtain y where y: "x \<le> y" "(a, y) \<in> ?L" using ok(3) \<open>B a = Some x\<close> by blast
        have "\<forall>i < y. bytes h' (a + i) = bytes h (a + i)" using l(4) y(2) \<open>a \<noteq> unat p\<close> by blast
        with y(1) \<open>i < x\<close> show ?thesis by simp
      qed
      ultimately show ?thesis
        using r False realloc l(3) k(1) m by (auto simp: call_result_def)
    qed
  qed
qed


lemma owned_ok_memset: "owned_ok (heap_memset d c n h) B = owned_ok h B"
  by (simp add: owned_ok_def heap_memset_def heap_ok_def)

lemma calloc_result:
  assumes B: "owned_ok h B" and v: "call_ok (Calloc c n) B"
  shows "call_result (Calloc c n) h B"
proof -
  have lt: "unat c * unat n + 3 < 2 ^ 32" using v by simp
  then have cn: "unat (c * n) = unat c * unat n" by (simp add: unat_word_ariths)
  then obtain h' q where m: "rt_malloc (c * n) h = Some (h', q)"
    "owned_ok h' (gain q (unat c * unat n) B)" "same_heap h h'"
    "\<And>a m. q \<noteq> 0 \<Longrightarrow> B a = Some m \<Longrightarrow> unat q + unat c * unat n \<le> a \<or> a + m \<le> unat q"
    using malloc_result [OF B, of "c * n"] lt by metis
  let ?h = "if q \<noteq> 0 then heap_memset q 0 (c * n) h' else h'"
  have "owned_ok ?h (gain q (unat c * unat n) B)"
    using m(2) by (auto simp: owned_ok_memset)
  moreover have "rt_calloc c n h = Some (?h, q)" using m(1) by (simp add: rt_calloc_def)
  moreover have "bytes ?h (a + i) = bytes h (a + i)" if "B a = Some x" "i < x" for a x i
    using m(3) m(4) [OF _ \<open>B a = Some x\<close>] \<open>i < x\<close> by (auto simp: heap_memset_def cn same_heap_def)
  ultimately show ?thesis
    using m(3) cn by (auto simp: call_result_def same_heap_def heap_memset_def)
qed

lemma owned_call:
  assumes "owned_ok h B" "call_ok c B"
  shows "call_result c h B"
proof (cases c)
  case (Malloc n)
  have "unat n + 3 < 2 ^ 32" using assms(2) Malloc by simp
  obtain h' q where "rt_malloc n h = Some (h', q)" "owned_ok h' (gain q (unat n) B)" "same_heap h h'"
    by (rule malloc_result [OF assms(1) \<open>unat n + 3 < 2 ^ 32\<close>])
  then show ?thesis by (simp add: Malloc call_result_def same_heap_def)
next
  case (Calloc k n)
  then show ?thesis using assms calloc_result by simp
next
  case (Realloc p n)
  then show ?thesis using assms realloc_result by simp
next
  case (Free p)
  have "p = 0 \<or> B (unat p) \<noteq> None" using assms(2) Free by simp
  obtain h' where "rt_free p h = Some h'" "owned_ok h' (B(unat p := None))" "same_heap h h'"
    by (rule free_result [OF assms(1) \<open>p = 0 \<or> B (unat p) \<noteq> None\<close>])
  then show ?thesis by (simp add: Free call_result_def same_heap_def)
qed

lemma reach_owned: "heap_reach h B \<Longrightarrow> owned_ok h B"
proof (induction rule: heap_reach.induct)
  case (init b e h)
  then show ?case using heap_init_ok(1) by (fastforce simp: owned_ok_def)
next
  case (call h B c h' q)
  then have "call_result c h B" using owned_call by blast
  with call.hyps(3) show ?case by (auto simp: call_result_def)
qed

lemma all_free_one_block:
  assumes "heap_ok h bs" "live (unat (heap_ptr h)) bs = {}"
  shows "bs = [(False, unat (mem_size_aligned h) + 12)]"
proof -
  have len: "blen bs = unat (mem_size_aligned h) + 12" and adj: "no_adjacent_free bs"
    using assms(1) by (auto simp: heap_ok_def heap_inv_def heap_core_def)
  have nu: "live p bs = {} \<Longrightarrow> b \<in> set bs \<Longrightarrow> \<not> fst b" for p b
    by (induction bs arbitrary: p) (auto split: if_splits)
  show ?thesis
  proof (cases bs rule: no_adjacent_free.cases)
    case (3 u s v t zs)
    then show ?thesis
      using adj nu [OF assms(2), of "(u, s)"] nu [OF assms(2), of "(v, t)"] by auto
  next
    case 1
    then show ?thesis using len by simp
  next
    case (2 b)
    then show ?thesis using len nu [OF assms(2)] by (cases b) simp
  qed
qed

text \<open>The walk of \<^verbatim>\<open>memcheck\<close> finds nothing wrong with a heap in order below 2 GiB.\<close>

lemma memcheck_chain:
  assumes "hchain (hdr h) p q bs" "unat w = p" "p + blen bs = unat (heap_end h)"
    "unat (heap_end h) = unat (mem_size_aligned h) + 12" "unat (mem_size_aligned h) < 2 ^ 31"
  shows "memcheck_from h w = Some True"
  using assms
proof (induction bs arbitrary: p q w)
  case Nil
  then have "unat w = unat (heap_end h)" by simp
  then have "w = heap_end h" by (rule unsigned_word_eqI)
  then show ?case by (simp add: memcheck_from.simps)
next
  case (Cons b bs)
  obtain u s where b: "b = (u, s)" by (cases b)
  let ?m = "mem_at h w"
  have m: "hdr_ok ?m u (p + s) q" and s: "16 \<le> s" and c: "hchain (hdr h) (p + s) p bs"
    using Cons.prems(1,2) by (auto simp: b mem_at_def)
  have ne: "w \<noteq> heap_end h" using Cons.prems(2,3) s by (auto simp: b)
  have le: "\<not> mem_size_aligned h < w"
    using Cons.prems(2-4) s by (simp add: b word_less_nat_alt)
  have "uint w < 2 ^ 31" using Cons.prems(2-5) s by (simp add: b uint_nat)
  moreover have "- (2 ^ 31) \<le> uint w" by (rule order_trans [of _ 0]) simp_all
  ultimately have "sint w = uint w"
    using signed_take_bit_int_eq_self [of 31 "uint w"] by (simp add: sint_uint del: signed_take_bit_eq)
  then have pos: "\<not> sint w < 0" by simp
  have "memcheck_from h (h_next ?m) = Some True"
    by (rule Cons.IH [OF c]) (use m Cons.prems(3-5) in \<open>auto simp: b hdr_ok_def\<close>)
  then show ?case
    using ne le pos m by (subst memcheck_from.simps) (simp add: hdr_ok_def)
qed

section \<open>Properties\<close>

text \<open>C10: Every call of a client of the heap returns: none stops in an assertion, none hangs, none
  leaves the heap locked. It keeps the client's allocations what they were and does what it
  promises: \<^verbatim>\<open>rt_calloc\<close> delivers zeroes, \<^verbatim>\<open>rt_realloc\<close> keeps the contents and changes
  nothing when it fails, and no call writes to an allocation it does not release.\<close>

theorem heap_client_safe:
  assumes "heap_reach h B" "call_ok c B"
  shows "call_result c h B"
  using assms by (blast intro: owned_call reach_owned)

text \<open>C11: The allocations a client owns are aligned, lie inside the heap and never overlap.\<close>

theorem heap_regions_disjoint:
  assumes "heap_reach h B" "B a = Some n"
  shows "4 dvd a \<and> unat (heap_ptr h) + 12 \<le> a \<and>
    a + n \<le> unat (heap_ptr h) + unat (mem_size_aligned h) + 12 \<and>
    (\<forall>b m. B b = Some m \<longrightarrow> b \<noteq> a \<longrightarrow> a + n \<le> b \<or> b + m \<le> a)"
proof (intro conjI)
  obtain bs where ok: "heap_ok h bs"
    "\<And>a n. B a = Some n \<Longrightarrow> \<exists>k \<ge> n. (a, k) \<in> live (unat (heap_ptr h)) bs"
    using reach_owned [OF assms(1)] by (auto simp: owned_ok_def)
  obtain k where k: "n \<le> k" "(a, k) \<in> live (unat (heap_ptr h)) bs" using ok(2) assms(2) by blast
  obtain xs ys where bs: "bs = xs @ (True, k + 12) # ys" and a: "a = unat (heap_ptr h) + blen xs + 12"
    using live_split [OF k(2) heap_ok_sizes [OF ok(1)]] by blast
  have core: "4 dvd unat (heap_ptr h)" "hchain (hdr h) 0 0 xs" "blen bs = unat (mem_size_aligned h) + 12"
    using ok(1) by (auto simp: bs heap_ok_def heap_inv_def heap_core_def hchain_append)
  show "4 dvd a" using core(1) hchain_dvd [OF core(2)] by (simp add: a)
  show "unat (heap_ptr h) + 12 \<le> a" "a + n \<le> unat (heap_ptr h) + unat (mem_size_aligned h) + 12"
    using live_bounds [OF k(2) heap_ok_sizes [OF ok(1)]] core(3) k(1) by auto
  show "\<forall>b m. B b = Some m \<longrightarrow> b \<noteq> a \<longrightarrow> a + n \<le> b \<or> b + m \<le> a"
  proof (intro allI impI)
    fix b m assume b: "B b = Some m" "b \<noteq> a"
    then obtain l where l: "m \<le> l" "(b, l) \<in> live (unat (heap_ptr h)) bs" using ok(2) by blast
    show "a + n \<le> b \<or> b + m \<le> a"
      using live_disjoint [OF ok(1) k(2) l(2)] l(1) k(1) b(2) by auto
  qed
qed

text \<open>C21: A client that has released everything leaves no leak and no fragmentation: the heap is one
  free block again and counts no used byte.\<close>

theorem heap_released_whole:
  assumes "heap_reach h Map.empty"
  shows "heap_ok h [(False, unat (mem_size_aligned h) + 12)] \<and> used_mem h = 0"
proof
  obtain bs where ok: "heap_ok h bs" "live (unat (heap_ptr h)) bs = {}"
    using reach_owned [OF assms] by (auto simp: owned_ok_def)
  then show "heap_ok h [(False, unat (mem_size_aligned h) + 12)]"
    using all_free_one_block by metis
  then have "unat (used_mem h) = 0" by (simp add: heap_ok_def heap_inv_def heap_core_def)
  then show "used_mem h = 0" by (simp add: unat_eq_zero)
qed


text \<open>
  The free blocks a request of \<open>n\<close> bytes can be given: large enough, and not an exact fit at
  the end of the heap, which the loop condition of \<^verbatim>\<open>rt_malloc\<close> leaves out.
\<close>

definition usable :: "nat \<Rightarrow> nat \<Rightarrow> hblock list \<Rightarrow> bool" where
  "usable n s ys \<longleftrightarrow> n + 12 \<le> s \<and> (ys \<noteq> [] \<or> s \<noteq> n + 12)"

text \<open>\<^verbatim>\<open>rt_malloc\<close> is first fit over the whole heap while \<^verbatim>\<open>lfree\<close> is the lowest free
  block, and keeps it so: it takes the first usable free block, splits it when the rest has
  room for a block of its own, and returns NULL exactly when no free block is usable.\<close>

theorem rt_malloc_first_fit:
  assumes ok: "heap_ok h bs" and low: "lowest_free (unat (lfree h)) 0 bs"
    and sz: "0 < sz" "unat sz + 3 < 2 ^ 32" and n: "n = req_size sz"
  shows "(\<exists>h' w xs s ys. rt_malloc sz h = Some (h', w) \<and> bs = xs @ (False, s) # ys \<and> usable n s ys \<and>
      (\<forall>(u, t) \<in> set xs. u \<or> t < n + 12) \<and> unat w = unat (heap_ptr h) + blen xs + 12 \<and>
      heap_ok h' (xs @ alloc_block n s @ ys) \<and> bytes h' = bytes h \<and>
      lowest_free (unat (lfree h')) 0 (xs @ alloc_block n s @ ys)) \<or>
    rt_malloc sz h = Some (h, 0) \<and> (\<forall>xs s ys. bs = xs @ (False, s) # ys \<longrightarrow> \<not> usable n s ys)"
proof (cases rule: rt_malloc_cases [OF ok sz n])
  case (1 h' w xs s ys)
  have len: "blen bs = unat (mem_size_aligned h) + 12"
    using ok by (simp add: heap_ok_def heap_inv_def heap_core_def)
  have "usable n s ys" using 1(2,3,6) len by (auto simp: usable_def)
  moreover have "u \<or> t < n + 12" if "(u, t) \<in> set xs" for u t
  proof (cases u)
    case False
    with that obtain as cs where "xs = as @ (False, t) # cs" by (metis split_list)
    then show ?thesis
      using 1(2,5) lowest_free_merge(1) [of "unat (lfree h)" as t] low by auto
  qed simp
  ultimately show ?thesis
    using 1(1,2,7,8,9) 1(10) [OF low]
    by (intro disjI1 exI [of _ h'] exI [of _ w] exI [of _ xs] exI [of _ s] exI [of _ ys])
      (auto simp: same_heap_def)
next
  case 2
  have "\<not> usable n s ys" if "bs = xs @ (False, s) # ys" for xs s ys
    using 2(2) [OF that] low lowest_free_merge(1) [of "unat (lfree h)" xs s ys] that
    by (auto simp: usable_def)
  with 2(1) show ?thesis by blast
qed

text \<open>\<^verbatim>\<open>rt_free\<close> merges the block with the free neighbours it has and keeps \<^verbatim>\<open>lfree\<close> the
  lowest free block.\<close>

theorem rt_free_coalesces:
  assumes "heap_ok h (xs @ (True, s) # ys)" "unat p = unat (heap_ptr h) + blen xs + 12"
    "lowest_free (unat (lfree h)) 0 (xs @ (True, s) # ys)"
  shows "\<exists>h'. rt_free p h = Some h' \<and> heap_ok h' (coalesce xs s ys) \<and> bytes h' = bytes h \<and>
    lowest_free (unat (lfree h')) 0 (coalesce xs s ys)"
  using rt_free_cases [OF assms(1,2)] assms(3) by (metis same_heap_def)

text \<open>C22: To release what has just been allocated gives the heap back as it was, block by block.\<close>

theorem malloc_free_roundtrip:
  assumes ok: "heap_ok h bs" and sz: "0 < sz" "unat sz + 3 < 2 ^ 32"
    and m: "rt_malloc sz h = Some (h1, w)" "w \<noteq> 0"
  shows "\<exists>h2. rt_free w h1 = Some h2 \<and> heap_ok h2 bs \<and> bytes h2 = bytes h"
proof (cases rule: rt_malloc_cases [OF ok sz refl])
  case (1 h' w' xs s ys)
  let ?n = "req_size sz"
  have e: "h' = h1" "w' = w" using 1(1) m(1) by auto
  have adj: "no_adjacent_free (xs @ (False, s) # ys)"
    using ok 1(2) by (simp add: heap_ok_def heap_inv_def)
  obtain k zs where kz: "alloc_block ?n s @ ys = (True, k) # zs" "coalesce xs k zs = xs @ (False, s) # ys"
  proof (cases "?n + 36 \<le> s")
    case True
    then show thesis
      using that [of "?n + 12" "(False, s - 12 - ?n) # ys"] adj
      by (auto simp: alloc_block_def coalesce_def no_adjacent_free_append)
  next
    case False
    have "join_right s ys = (False, s) # ys"
      using adj by (cases "(s, ys)" rule: join_right.cases) (auto simp: no_adjacent_free_append)
    then show thesis
      using that [of s ys] False adj
      by (auto simp: alloc_block_def coalesce_def no_adjacent_free_append)
  qed
  have ok1: "heap_ok h1 (xs @ (True, k) # zs)" using 1(8) e kz(1) by simp
  have w: "unat w = unat (heap_ptr h1) + blen xs + 12" using 1(7,9) e by (simp add: same_heap_def)
  from rt_free_cases [OF ok1 w] show ?thesis
    using 1(2,9) e kz(2) by (metis same_heap_def)
qed (use m in simp)


text \<open>Sizes within three bytes of \<open>2 ^ 32\<close> wrap to zero when they are rounded up: such a
  request is served as one for twelve bytes, and \<^verbatim>\<open>rt_realloc\<close> takes it for a release. The
  product of \<^verbatim>\<open>rt_calloc\<close> wraps likewise.\<close>

theorem huge_sizes_wrap:
  assumes "2 ^ 32 - 3 \<le> unat sz" "heap_ok h bs"
  shows "rt_malloc sz h = rt_malloc 12 h \<and> rt_realloc p sz h = rt_realloc p 0 h \<and>
    rt_calloc 0x40000001 4 h = rt_calloc 1 4 h"
proof -
  obtain k where k: "unat sz = 4294967293 + k" using assms(1) by (auto dest: le_Suc_ex)
  have "unat sz < 2 ^ 32" using unsigned_less [of sz] by simp
  then have k2: "k \<le> 2" by (simp add: k)
  have "unat (sz + 3) = (4294967296 + k) mod 4294967296"
    by (simp add: unat_word_ariths k)
  also have "\<dots> = k" using k2 by simp
  finally have "unat (RT_ALIGN_DOWN (sz + 3) RT_ALIGN_SIZE) = 0"
    using k2 by (simp add: unat_align_down)
  moreover have "RT_ALIGN sz RT_ALIGN_SIZE = RT_ALIGN_DOWN (sz + 3) RT_ALIGN_SIZE"
    by (simp add: RT_ALIGN_def RT_ALIGN_DOWN_def RT_ALIGN_SIZE_def add.commute)
  ultimately have "unat (RT_ALIGN sz RT_ALIGN_SIZE) = 0" by simp
  then have z: "RT_ALIGN sz RT_ALIGN_SIZE = 0" by (simp add: unat_eq_zero)
  have z0: "RT_ALIGN 0 RT_ALIGN_SIZE = 0" "RT_ALIGN 12 RT_ALIGN_SIZE = 12"
    by (simp_all add: RT_ALIGN_def RT_ALIGN_SIZE_def)
  have "sz \<noteq> 0" using assms(1) by auto
  moreover have "\<not> mem_size_aligned h < 12"
    using assms(2) by (simp add: heap_ok_def heap_inv_def heap_core_def word_less_nat_alt)
  ultimately have "rt_malloc sz h = rt_malloc 12 h"
    by (simp add: rt_malloc_def z z0)
  moreover have "rt_realloc p sz h = rt_realloc p 0 h" by (simp add: rt_realloc_def z z0)
  moreover have "(0x40000001 * 4 :: u32) = 1 * 4"
    by (rule word_uint_eqI) (simp add: uint_word_ariths)
  then have "rt_calloc 0x40000001 4 h = rt_calloc 1 4 h" by (simp only: rt_calloc_def)
  ultimately show ?thesis by blast
qed

definition zero_heap :: heap where
  "zero_heap = \<lparr>heap_ptr = 0, hdr = (\<lambda>_. \<lparr>h_magic = 0, h_used = 0, h_next = 0, h_prev = 0\<rparr>),
     bytes = (\<lambda>_. 0), heap_end = 0, lfree = 0, heap_sem = 0, mem_size_aligned = 0,
     used_mem = 0, max_mem = 0\<rparr>"

definition demo_heap :: heap where
  "demo_heap = rt_system_heap_init 0x20000000 0x20000168 zero_heap"

lemmas heap_run_defs = rt_system_heap_init_def RT_ALIGN_def RT_ALIGN_DOWN_def RT_ALIGN_SIZE_def
  zero_heap_def mem_upd_def mem_at_def rt_malloc_def malloc_locked_def malloc_take_def heap_lock_def
  heap_unlock_def count_used_def split_block_def haddr_def rt_assert_def rt_realloc_def
  realloc_block_def plug_holes_def plug_forward_def plug_backward_def merge_blocks_def rt_free_def
  malloc_search.simps lfree_advance.simps HEAP_MAGIC_def

lemma demo_heap_eq: "demo_heap = zero_heap\<lparr>heap_ptr := 0x20000000,
    hdr := (\<lambda>_. \<lparr>h_magic = 0, h_used = 0, h_next = 0, h_prev = 0\<rparr>)
      (0 := \<lparr>h_magic = HEAP_MAGIC, h_used = 0, h_next = 348, h_prev = 0\<rparr>,
       348 := \<lparr>h_magic = HEAP_MAGIC, h_used = 1, h_next = 348, h_prev = 348\<rparr>),
    heap_end := 348, heap_sem := 1, mem_size_aligned := 336\<rparr>"
  by (simp add: demo_heap_def heap_run_defs)

lemma demo_heap_ok: "heap_ok demo_heap [(False, 348)]"
  by (simp add: demo_heap_eq zero_heap_def heap_ok_def heap_inv_def heap_core_def hdr_ok_def)

lemma demo_reach: "heap_reach demo_heap Map.empty"
  unfolding demo_heap_def
  by (rule heap_reach.init) (simp_all add: RT_ALIGN_def RT_ALIGN_DOWN_def RT_ALIGN_SIZE_def zero_heap_def)

lemma demo_heap_run:
  obtains h1 h2 where "rt_malloc 256 demo_heap = Some (h1, 0x2000000C)"
    "heap_ok h1 [(True, 268), (False, 80)]" "heap_ptr h1 = 0x20000000" "lfree h1 = 268"
    "rt_malloc 64 h1 = Some (h2, 0x20000118)"
    "heap_reach h2 [0x2000000C \<mapsto> 256, 0x20000118 \<mapsto> 64]"
proof -
  have "\<exists>h1 h2. rt_malloc 256 demo_heap = Some (h1, 0x2000000C) \<and>
    heap_ok h1 [(True, 268), (False, 80)] \<and> heap_ptr h1 = 0x20000000 \<and> lfree h1 = 268 \<and>
    rt_malloc 64 h1 = Some (h2, 0x20000118)"
    unfolding demo_heap_eq
    by (intro exI conjI)
      (simp add: heap_run_defs | simp add: heap_run_defs heap_ok_def heap_inv_def heap_core_def hdr_ok_def)+
  then obtain h1 h2 where m: "rt_malloc 256 demo_heap = Some (h1, 0x2000000C)"
    "heap_ok h1 [(True, 268), (False, 80)]" "heap_ptr h1 = 0x20000000" "lfree h1 = 268"
    "rt_malloc 64 h1 = Some (h2, 0x20000118)"
    by blast
  have "heap_reach h1 [0x2000000C \<mapsto> 256]"
    using heap_reach.call [OF demo_reach, of "Malloc 256" h1 "0x2000000C"] m(1) by (simp add: gain_def)
  from heap_reach.call [OF this, of "Malloc 64" h2 "0x20000118"] m(5)
  have "heap_reach h2 [0x2000000C \<mapsto> 256, 0x20000118 \<mapsto> 64]" by (simp add: gain_def)
  with m that show thesis by blast
qed

text \<open>Shrinking an allocation in place can hide free memory: \<^verbatim>\<open>rt_realloc\<close> does not lower
  \<^verbatim>\<open>lfree\<close> to the remainder it cuts off, so with every block behind it in use a request of
  100 bytes fails although 228 are free.\<close>

theorem realloc_hides_free_block:
  "\<exists>h1 h2 h3. rt_malloc 256 demo_heap = Some (h1, 0x2000000C) \<and>
    rt_malloc 64 h1 = Some (h2, 0x20000118) \<and>
    rt_realloc 0x2000000C 16 h2 = Some (h3, 0x2000000C) \<and>
    heap_ok h3 [(True, 28), (False, 240), (True, 80)] \<and> rt_malloc 100 h3 = Some (h3, 0)"
  unfolding demo_heap_eq
  by (intro exI conjI)
    (simp add: heap_run_defs | simp add: heap_run_defs heap_ok_def heap_inv_def heap_core_def hdr_ok_def)+

definition tiny_heap :: heap where
  "tiny_heap = rt_system_heap_init 0x20000000 0x2000001C zero_heap"

lemma search_at_end_diverges:
  assumes "heap_end h = 16" "mem_size_aligned h = 4" "h_used (mem_at h 16) = 1"
    "h_next (mem_at h 16) = 16" "h_next (mem_at h 0) = 16" "malloc_search h 12 ptr = Some r"
  shows "ptr \<noteq> 0 \<and> ptr \<noteq> 16"
proof -
  have neg: "(0 :: u32) < - 8" "(16 :: u32) < - 8" by (simp_all add: word_less_alt uint_word_ariths)
  have "h' = h \<longrightarrow> sz = 12 \<longrightarrow> p \<noteq> 0 \<and> p \<noteq> 16" if "malloc_search h' sz p = Some r'" for h' sz p r'
  proof (rule malloc_search.raw_induct
      [where P = "\<lambda>h' sz p r. h' = h \<longrightarrow> sz = 12 \<longrightarrow> p \<noteq> 0 \<and> p \<noteq> 16", OF _ that])
    fix f h' sz p r
    assume IH: "\<And>h' sz p r. f h' sz p = Some r \<Longrightarrow> h' = h \<longrightarrow> sz = 12 \<longrightarrow> p \<noteq> 0 \<and> p \<noteq> (16 :: u32)"
      and eq: "(if p < mem_size_aligned h' - sz then
        (if h_used (mem_at h' p) = 0 \<and> sz \<le> h_next (mem_at h' p) - (p + SIZEOF_STRUCT_MEM)
         then Some (Some p) else f h' sz (h_next (mem_at h' p))) else Some None) = Some r"
    show "h' = h \<longrightarrow> sz = 12 \<longrightarrow> p \<noteq> 0 \<and> p \<noteq> 16"
      using eq IH [of h' sz 16 r] assms(1-5) neg by (auto split: if_splits)
  qed
  with assms(6) show ?thesis by blast
qed

text \<open>A heap area of 28 to 35 bytes is accepted, but any request for at most four bytes on it
  never returns: the rounding up to twelve bytes makes the limit of the search wrap.\<close>

theorem tiny_heap_hangs:
  "heap_sem tiny_heap = 1 \<and> mem_size_aligned tiny_heap = 4 \<and> rt_malloc 4 tiny_heap = None"
proof -
  let ?h = "tiny_heap\<lparr>heap_sem := 0\<rparr>"
  have f: "heap_sem tiny_heap = 1" "mem_size_aligned tiny_heap = 4" "heap_end tiny_heap = 16"
    "h_used (mem_at tiny_heap 16) = 1" "h_next (mem_at tiny_heap 16) = 16"
    "h_next (mem_at tiny_heap 0) = 16" "lfree tiny_heap = 0"
    by (simp_all add: tiny_heap_def heap_run_defs)
  have "malloc_search ?h 12 0 = None"
    using search_at_end_diverges [of ?h 0] f by (cases "malloc_search ?h 12 0") (auto simp: mem_at_def)
  moreover have "heap_lock tiny_heap = Some ?h" by (simp add: heap_lock_def f)
  ultimately have "malloc_locked 12 tiny_heap = None" by (simp add: malloc_locked_def f)
  then show ?thesis
    using f by (simp add: rt_malloc_def RT_ALIGN_def RT_ALIGN_SIZE_def)
qed

section \<open>Witnesses\<close>

lemma heap_client_safe_witness:
  "call_ok (Malloc 256) Map.empty \<and> call_result (Malloc 256) demo_heap Map.empty"
  using heap_client_safe [OF demo_reach, of "Malloc 256"] by simp

lemma heap_regions_disjoint_witness:
  "\<exists>h B. heap_reach h B \<and> B 0x2000000C = Some 256 \<and> B 0x20000118 = Some 64 \<and>
    4 dvd (0x2000000C :: nat) \<and> 0x2000000C + 256 \<le> unat (heap_ptr h) + unat (mem_size_aligned h) + 12"
proof (rule demo_heap_run)
  fix h1 h2 assume r: "heap_reach h2 [0x2000000C \<mapsto> 256, 0x20000118 \<mapsto> 64]"
  from heap_regions_disjoint [OF r, of "0x2000000C" 256] r show ?thesis
    by (intro exI [of _ h2] exI [of _ "[0x2000000C \<mapsto> 256, 0x20000118 \<mapsto> 64]"]) simp
qed

lemma heap_released_whole_witness: "heap_ok demo_heap [(False, 348)] \<and> used_mem demo_heap = 0"
  using heap_released_whole [OF demo_reach] by (simp add: demo_heap_eq)

lemma req_size_256: "req_size 256 = 256"
  by (simp add: req_size_def)

lemma rt_malloc_first_fit_witness:
  "(0 :: u32) < 256 \<and> (\<exists>h' w. rt_malloc 256 demo_heap = Some (h', w) \<and> w \<noteq> 0 \<and>
     heap_ok h' (alloc_block 256 348))"
proof -
  have 1: "lowest_free (unat (lfree demo_heap)) 0 [(False, 348)]" by (simp add: demo_heap_eq zero_heap_def)
  have u: "[(False, 348 :: nat)] = xs @ (False, s) # ys \<longleftrightarrow> xs = [] \<and> s = 348 \<and> ys = []" for xs s ys
    by (cases xs) auto
  have "usable 256 348 []" by (simp add: usable_def)
  with rt_malloc_first_fit [OF demo_heap_ok 1, of 256, OF _ _ refl] show ?thesis
    by (auto simp: u req_size_256)
qed

lemma rt_free_coalesces_witness:
  "\<exists>h1 h2. rt_malloc 256 demo_heap = Some (h1, 0x2000000C) \<and> rt_free 0x2000000C h1 = Some h2 \<and>
     heap_ok h2 [(False, 348)]"
proof (rule demo_heap_run)
  fix h1 assume h: "rt_malloc 256 demo_heap = Some (h1, 0x2000000C)"
    "heap_ok h1 [(True, 268), (False, 80)]" "heap_ptr h1 = 0x20000000" "lfree h1 = 268"
  then show ?thesis
    using rt_free_coalesces [of h1 "[]" 268 "[(False, 80)]" "0x2000000C"] by (auto simp: coalesce_def)
qed

lemma malloc_free_roundtrip_witness:
  "\<exists>h1 h2. rt_malloc 256 demo_heap = Some (h1, 0x2000000C) \<and> rt_free 0x2000000C h1 = Some h2 \<and>
     heap_ok h2 [(False, 348)] \<and> bytes h2 = bytes demo_heap"
proof (rule demo_heap_run)
  fix h1 assume h: "rt_malloc 256 demo_heap = Some (h1, 0x2000000C)"
  then show ?thesis using malloc_free_roundtrip [OF demo_heap_ok _ _ h] by auto
qed

lemma huge_sizes_wrap_witness: "rt_malloc 0xFFFFFFFF demo_heap = rt_malloc 12 demo_heap"
  using huge_sizes_wrap [OF _ demo_heap_ok, of "0xFFFFFFFF" 0] by simp

end
