(* ===== verification/Ffs.thy ===== *)
theory Ffs
  imports Prelude
begin

text \<open>
  \<^verbatim>\<open>__rt_ffs\<close> of \<^verbatim>\<open>rt-thread/src/kservice.c\<close>: the position of the lowest set bit of a
  32-bit word, counted from 1, by byte-wise table lookup. The scheduler uses it to find
  the highest ready priority in its bitmap.
\<close>

section \<open>The lookup table and the function\<close>

definition lowest_bit_bitmap :: "nat list" where
  "lowest_bit_bitmap =
  [0, 0, 1, 0, 2, 0, 1, 0, 3, 0, 1, 0, 2, 0, 1, 0,
   4, 0, 1, 0, 2, 0, 1, 0, 3, 0, 1, 0, 2, 0, 1, 0,
   5, 0, 1, 0, 2, 0, 1, 0, 3, 0, 1, 0, 2, 0, 1, 0,
   4, 0, 1, 0, 2, 0, 1, 0, 3, 0, 1, 0, 2, 0, 1, 0,
   6, 0, 1, 0, 2, 0, 1, 0, 3, 0, 1, 0, 2, 0, 1, 0,
   4, 0, 1, 0, 2, 0, 1, 0, 3, 0, 1, 0, 2, 0, 1, 0,
   5, 0, 1, 0, 2, 0, 1, 0, 3, 0, 1, 0, 2, 0, 1, 0,
   4, 0, 1, 0, 2, 0, 1, 0, 3, 0, 1, 0, 2, 0, 1, 0,
   7, 0, 1, 0, 2, 0, 1, 0, 3, 0, 1, 0, 2, 0, 1, 0,
   4, 0, 1, 0, 2, 0, 1, 0, 3, 0, 1, 0, 2, 0, 1, 0,
   5, 0, 1, 0, 2, 0, 1, 0, 3, 0, 1, 0, 2, 0, 1, 0,
   4, 0, 1, 0, 2, 0, 1, 0, 3, 0, 1, 0, 2, 0, 1, 0,
   6, 0, 1, 0, 2, 0, 1, 0, 3, 0, 1, 0, 2, 0, 1, 0,
   4, 0, 1, 0, 2, 0, 1, 0, 3, 0, 1, 0, 2, 0, 1, 0,
   5, 0, 1, 0, 2, 0, 1, 0, 3, 0, 1, 0, 2, 0, 1, 0,
   4, 0, 1, 0, 2, 0, 1, 0, 3, 0, 1, 0, 2, 0, 1, 0]"

definition rt_ffs :: "u32 \<Rightarrow> nat" where
  "rt_ffs value =
     (if value = 0 then 0
      else if value AND 0xff \<noteq> 0 then lowest_bit_bitmap ! unat (value AND 0xff) + 1
      else if value AND 0xff00 \<noteq> 0
        then lowest_bit_bitmap ! unat (drop_bit 8 (value AND 0xff00)) + 9
      else if value AND 0xff0000 \<noteq> 0
        then lowest_bit_bitmap ! unat (drop_bit 16 (value AND 0xff0000)) + 17
      else lowest_bit_bitmap ! unat (drop_bit 24 (value AND 0xff000000)) + 25)"

section \<open>The table\<close>

text \<open>\<open>lowest b k\<close>: bit \<open>k\<close> of \<open>b\<close> is set and no lower one is.\<close>

definition lowest :: "nat \<Rightarrow> nat \<Rightarrow> bool" where
  "lowest b k \<longleftrightarrow> odd (b div 2 ^ k) \<and> b mod 2 ^ k = 0"

primrec table_lowest :: "nat \<Rightarrow> nat list \<Rightarrow> bool" where
  "table_lowest b [] = True"
| "table_lowest b (x # xs) = (lowest b x \<and> table_lowest (b + 1) xs)"

lemma table_lowest_nth:
  "table_lowest b xs \<Longrightarrow> i < length xs \<Longrightarrow> lowest (b + i) (xs ! i)"
proof (induction xs arbitrary: b i)
  case (Cons x xs)
  then show ?case by (cases i) fastforce+
qed simp

lemma bitmap_table: "table_lowest 1 (tl lowest_bit_bitmap)"
  by (simp add: lowest_bit_bitmap_def lowest_def)

lemma bitmap_lowest: "0 < b \<Longrightarrow> b < 256 \<Longrightarrow> lowest b (lowest_bit_bitmap ! b)"
proof -
  assume b: "0 < b" "b < 256"
  have len: "length (tl lowest_bit_bitmap) = 255" by (simp add: lowest_bit_bitmap_def)
  have "lowest (1 + (b - 1)) (tl lowest_bit_bitmap ! (b - 1))"
    by (rule table_lowest_nth [OF bitmap_table]) (use b len in simp)
  moreover have "tl lowest_bit_bitmap ! (b - 1) = lowest_bit_bitmap ! b"
    using b len by (simp add: nth_tl)
  ultimately show ?thesis using b by simp
qed

lemma lowest_bits: "lowest b k \<Longrightarrow> bit b k \<and> (\<forall>i<k. \<not> bit b i)"
proof -
  assume l: "lowest b k"
  then have "bit b k" by (simp add: lowest_def bit_iff_odd)
  moreover have "\<not> bit b i" if "i < k" for i
  proof -
    have "take_bit k b = 0" using l by (simp add: lowest_def take_bit_eq_mod)
    then show ?thesis using that by (metis bit_0_eq bit_take_bit_iff bot_apply bot_bool_def)
  qed
  ultimately show ?thesis by blast
qed

section \<open>Correctness\<close>

text \<open>One byte of the word: the lookup finds the lowest bit of the byte.\<close>

definition lowest_bit :: "u32 \<Rightarrow> nat \<Rightarrow> bool" where
  "lowest_bit v n \<longleftrightarrow> bit v n \<and> (\<forall>i<n. \<not> bit v i)"

lemma lookup_byte:
  fixes v :: u32
  assumes nz: "take_bit 8 (drop_bit s v) \<noteq> 0" and low: "take_bit s v = 0"
  shows "lowest_bit v (lowest_bit_bitmap ! unat (take_bit 8 (drop_bit s v)) + s)"
proof -
  define w where "w = take_bit 8 (drop_bit s v)"
  have bw: "bit w i \<longleftrightarrow> i < 8 \<and> bit v (s + i)" for i
    by (auto simp: w_def bit_take_bit_iff bit_drop_bit_eq)
  have "unat w = take_bit 8 (unat (drop_bit s v))" by (simp add: w_def unsigned_take_bit_eq)
  then have "unat w < 256" by (simp add: take_bit_eq_mod)
  moreover have "0 < unat w" using nz by (simp add: w_def unat_gt_0)
  ultimately have l: "bit (unat w) (lowest_bit_bitmap ! unat w)"
    "\<And>i. i < lowest_bit_bitmap ! unat w \<Longrightarrow> \<not> bit (unat w) i"
    using lowest_bits [OF bitmap_lowest, of "unat w"] by auto
  have u: "bit (unat w) i \<longleftrightarrow> bit w i" for i by (simp add: bit_unsigned_iff)
  let ?n = "lowest_bit_bitmap ! unat w"
  have n: "bit v (s + ?n)" "?n < 8" using l(1) by (simp_all add: u bw)
  have "\<not> bit v i" if "i < ?n + s" for i
  proof (cases "i < s")
    case True
    then show ?thesis using low by (metis bit_take_bit_iff bit_0_eq bot_apply bot_bool_def)
  next
    case False
    then have "i - s < ?n" "i - s < 8" "s + (i - s) = i" using that n by auto
    then show ?thesis using l(2) [of "i - s"] by (simp add: u bw)
  qed
  then show ?thesis using n by (simp add: lowest_bit_def w_def [symmetric] add.commute)
qed

text \<open>The masks of the code select one byte each.\<close>

lemma and_field:
  fixes v :: u32
  shows "drop_bit s (v AND push_bit s (mask 8)) = take_bit 8 (drop_bit s v)"
    and "v AND push_bit s (mask 8) = push_bit s (take_bit 8 (drop_bit s v))"
proof -
  show "drop_bit s (v AND push_bit s (mask 8)) = take_bit 8 (drop_bit s v)"
    by (rule bit_word_eqI) (auto simp: bit_simps dest: bit_imp_le_length)
  show "v AND push_bit s (mask 8) = push_bit s (take_bit 8 (drop_bit s v))"
    by (rule bit_word_eqI) (auto simp: bit_simps)
qed

lemma field_zero:
  "(v AND push_bit s (mask 8) = 0) \<longleftrightarrow> take_bit 8 (drop_bit s v) = 0" for v :: u32
proof
  assume "v AND push_bit s (mask 8) = 0"
  then have "drop_bit s (v AND push_bit s (mask 8)) = 0" by (simp only: drop_bit_of_0)
  then show "take_bit 8 (drop_bit s v) = 0" by (simp only: and_field(1))
next
  assume "take_bit 8 (drop_bit s v) = 0"
  then show "v AND push_bit s (mask 8) = 0" by (simp only: and_field(2) push_bit_of_0)
qed

lemma byte_masks:
  "(0xff :: u32) = push_bit 0 (mask 8)" "(0xff00 :: u32) = push_bit 8 (mask 8)"
  "(0xff0000 :: u32) = push_bit 16 (mask 8)" "(0xff000000 :: u32) = push_bit 24 (mask 8)"
  by (simp_all add: mask_eq_exp_minus_1 push_bit_eq_mult)

lemma rt_ffs_bytes:
  "rt_ffs v =
     (if v = 0 then 0
      else if take_bit 8 v \<noteq> 0 then lowest_bit_bitmap ! unat (take_bit 8 v) + 1
      else if take_bit 8 (drop_bit 8 v) \<noteq> 0
        then lowest_bit_bitmap ! unat (take_bit 8 (drop_bit 8 v)) + 9
      else if take_bit 8 (drop_bit 16 v) \<noteq> 0
        then lowest_bit_bitmap ! unat (take_bit 8 (drop_bit 16 v)) + 17
      else lowest_bit_bitmap ! unat (take_bit 8 (drop_bit 24 v)) + 25)"
  using field_zero [of v 0] field_zero [of v 8] field_zero [of v 16]
    and_field(1) [of 0 v] and_field(1) [of 8 v] and_field(1) [of 16 v] and_field(1) [of 24 v]
  unfolding rt_ffs_def byte_masks by (simp add: push_bit_eq_mult)

lemma take_bit_next:
  fixes v :: u32
  assumes "take_bit s v = 0" "take_bit 8 (drop_bit s v) = 0"
  shows "take_bit (s + 8) v = 0"
proof (rule bit_word_eqI)
  fix i
  have 1: "\<not> bit (take_bit s v) i" and 2: "\<not> bit (take_bit 8 (drop_bit s v)) (i - s)"
    using assms by simp_all
  show "bit (take_bit (s + 8) v) i \<longleftrightarrow> bit (0 :: u32) i"
    using 1 2 by (cases "i < s") (auto simp: bit_take_bit_iff bit_drop_bit_eq)
qed

lemma rt_ffs_lowest:
  assumes nz: "v \<noteq> 0"
  obtains n where "rt_ffs v = Suc n" "lowest_bit v n" "n < 32"
proof -
  let ?b = "\<lambda>s. take_bit 8 (drop_bit s v)"
  have z: "?b 0 = 0 \<Longrightarrow> take_bit 8 v = 0" by simp
  have z1: "take_bit 8 v = 0 \<Longrightarrow> ?b 8 = 0 \<Longrightarrow> take_bit 16 v = 0"
    using take_bit_next [of 8 v] by simp
  have z2: "take_bit 16 v = 0 \<Longrightarrow> ?b 16 = 0 \<Longrightarrow> take_bit 24 v = 0"
    using take_bit_next [of 16 v] by simp
  have z3: "take_bit 24 v = 0 \<Longrightarrow> ?b 24 \<noteq> 0"
  proof
    assume "take_bit 24 v = 0" "?b 24 = 0"
    then have "take_bit 32 v = 0" using take_bit_next [of 24 v] by simp
    then show False using nz take_bit_length_eq [of v] by simp
  qed
  have look: "?b s \<noteq> 0 \<Longrightarrow> take_bit s v = 0 \<Longrightarrow>
      lowest_bit v (lowest_bit_bitmap ! unat (?b s) + s)" for s
    by (rule lookup_byte)
  have "\<exists>n. rt_ffs v = Suc n \<and> lowest_bit v n"
  proof (cases "take_bit 8 v = 0")
    case False
    then show ?thesis using look [of 0] nz by (simp add: rt_ffs_bytes)
  next
    case b0: True
    show ?thesis
    proof (cases "?b 8 = 0")
      case False
      then show ?thesis using look [of 8] nz b0 by (simp add: rt_ffs_bytes add.commute)
    next
      case b1: True
      show ?thesis
      proof (cases "?b 16 = 0")
        case False
        then show ?thesis using look [of 16] nz b0 b1 z1 by (simp add: rt_ffs_bytes add.commute)
      next
        case b2: True
        show ?thesis
          using look [of 24] nz b0 b1 b2 z1 z2 z3 by (simp add: rt_ffs_bytes add.commute)
      qed
    qed
  qed
  then obtain n where "rt_ffs v = Suc n" "lowest_bit v n" by blast
  then show ?thesis using that bit_imp_le_length [of v n] by (simp add: lowest_bit_def)
qed

text \<open>\<^verbatim>\<open>__rt_ffs\<close> returns 0 exactly for the word 0, and otherwise the position, counted
  from 1, of the lowest set bit.\<close>

theorem rt_ffs_correct:
  "case rt_ffs v of 0 \<Rightarrow> v = 0
    | Suc n \<Rightarrow> n < 32 \<and> bit v n \<and> (\<forall>i. bit v i \<longrightarrow> n \<le> i)"
proof (cases "v = 0")
  case False
  then obtain n where "rt_ffs v = Suc n" "lowest_bit v n" "n < 32" by (rule rt_ffs_lowest)
  then show ?thesis by (auto simp: lowest_bit_def not_less [symmetric])
qed (simp add: rt_ffs_def)

lemma rt_ffs_correct_witness:
  "rt_ffs 0x00500000 = 21 \<and> bit (0x00500000 :: u32) 20 \<and> \<not> bit (0x00500000 :: u32) 3"
  using rt_ffs_correct [of "0x00500000"]
  by (simp add: rt_ffs_def lowest_bit_bitmap_def bit_iff_odd)

end
