(* ===== verification/KString.thy ===== *)
theory KString
  imports Prelude
begin

text \<open>
  The memory and string routines of \<^verbatim>\<open>rt-thread/src/kservice.c\<close>. A string is the list of
  the bytes from the pointer to the end of the object it points into; running past that
  end is \<open>None\<close>. \<^verbatim>\<open>char\<close> is unsigned, as on the ARM port. \<^verbatim>\<open>rt_memset\<close> and
  \<^verbatim>\<open>rt_memcpy\<close> are the word-wise versions (\<^verbatim>\<open>RT_USING_TINY_SIZE\<close> is not set); they return
  the bytes written from the destination on.
\<close>

section \<open>Memory\<close>

text \<open>The four bytes a little-endian \<^verbatim>\<open>unsigned long\<close> store writes.\<close>

definition long_bytes :: "u32 \<Rightarrow> u8 list" where
  "long_bytes w = [ucast w, ucast (drop_bit 8 w), ucast (drop_bit 16 w), ucast (drop_bit 24 w)]"

text \<open>The three loops of \<^verbatim>\<open>rt_memset\<close>: sixteen bytes, four bytes, one byte at a time; the
  first two also return what is left of \<^verbatim>\<open>count\<close>.\<close>

fun memset_blocks :: "u32 \<Rightarrow> nat \<Rightarrow> u8 list \<times> nat" where
  "memset_blocks buffer count =
     (if count \<ge> 16
      then let (bs, c) = memset_blocks buffer (count - 16)
           in (long_bytes buffer @ long_bytes buffer @ long_bytes buffer @ long_bytes buffer @ bs, c)
      else ([], count))"

fun memset_longs :: "u32 \<Rightarrow> nat \<Rightarrow> u8 list \<times> nat" where
  "memset_longs buffer count =
     (if count \<ge> 4
      then let (bs, c) = memset_longs buffer (count - 4) in (long_bytes buffer @ bs, c)
      else ([], count))"

definition rt_memset :: "u32 \<Rightarrow> u32 \<Rightarrow> nat \<Rightarrow> u8 list" where
  "rt_memset s c count =
     (let d = c AND 0xff in
      if \<not> count < 4 \<and> s AND 3 = 0
      then let buffer0 = push_bit 8 d OR d;
               buffer = buffer0 OR push_bit 16 buffer0;
               (bs1, c1) = memset_blocks buffer count;
               (bs2, c2) = memset_longs buffer c1
           in bs1 @ bs2 @ replicate c2 (ucast d)
      else replicate count (ucast d))"

fun memcpy_blocks :: "u8 list \<Rightarrow> nat \<Rightarrow> u8 list \<times> u8 list \<times> nat" where
  "memcpy_blocks src len =
     (if len \<ge> 16
      then let (bs, src', l) = memcpy_blocks (drop 16 src) (len - 16)
           in (take 4 src @ take 4 (drop 4 src) @ take 4 (drop 8 src) @ take 4 (drop 12 src) @ bs,
               src', l)
      else ([], src, len))"

fun memcpy_longs :: "u8 list \<Rightarrow> nat \<Rightarrow> u8 list \<times> u8 list \<times> nat" where
  "memcpy_longs src len =
     (if len \<ge> 4
      then let (bs, src', l) = memcpy_longs (drop 4 src) (len - 4) in (take 4 src @ bs, src', l)
      else ([], src, len))"

definition rt_memcpy :: "u32 \<Rightarrow> u32 \<Rightarrow> u8 list \<Rightarrow> nat \<Rightarrow> u8 list" where
  "rt_memcpy dst_addr src_addr src count =
     (if \<not> count < 16 \<and> (src_addr AND 3) OR (dst_addr AND 3) = 0
      then let (bs1, src1, l1) = memcpy_blocks src count;
               (bs2, src2, l2) = memcpy_longs src1 l1
           in bs1 @ bs2 @ take l2 src2
      else take count src)"

text \<open>\<^verbatim>\<open>rt_memmove\<close> inside one object: \<open>dest\<close> and \<open>s\<close> are offsets into the memory \<open>m\<close>.\<close>

fun memmove_down :: "'a list \<Rightarrow> nat \<Rightarrow> nat \<Rightarrow> nat \<Rightarrow> 'a list" where
  "memmove_down m tmp s 0 = m"
| "memmove_down m tmp s (Suc n) = memmove_down (m[tmp - 1 := m ! (s - 1)]) (tmp - 1) (s - 1) n"

fun memmove_up :: "'a list \<Rightarrow> nat \<Rightarrow> nat \<Rightarrow> nat \<Rightarrow> 'a list" where
  "memmove_up m tmp s 0 = m"
| "memmove_up m tmp s (Suc n) = memmove_up (m[tmp := m ! s]) (tmp + 1) (s + 1) n"

definition rt_memmove :: "'a list \<Rightarrow> nat \<Rightarrow> nat \<Rightarrow> nat \<Rightarrow> 'a list option" where
  "rt_memmove m dest s n =
     (if dest + n \<le> length m \<and> s + n \<le> length m
      then Some (if s < dest \<and> dest < s + n
                 then memmove_down m (dest + n) (s + n) n
                 else memmove_up m dest s n)
      else None)"

fun rt_memcmp :: "u8 list \<Rightarrow> u8 list \<Rightarrow> nat \<Rightarrow> int option" where
  "rt_memcmp cs ct 0 = Some 0"
| "rt_memcmp (c # cs) (d # ct) (Suc n) =
     (let res = uint c - uint d in if res \<noteq> 0 then Some res else rt_memcmp cs ct n)"
| "rt_memcmp _ _ (Suc n) = None"

section \<open>Strings\<close>

fun rt_strlen :: "u8 list \<Rightarrow> nat option" where
  "rt_strlen [] = None"
| "rt_strlen (c # cs) = (if c = 0 then Some 0 else map_option Suc (rt_strlen cs))"

fun rt_strnlen :: "u8 list \<Rightarrow> nat \<Rightarrow> nat option" where
  "rt_strnlen [] maxlen = None"
| "rt_strnlen (c # cs) maxlen =
     (if c \<noteq> 0 \<and> 0 < maxlen then map_option Suc (rt_strnlen cs (maxlen - 1)) else Some 0)"

fun rt_strncpy :: "u8 list \<Rightarrow> nat \<Rightarrow> u8 list option" where
  "rt_strncpy s 0 = Some []"
| "rt_strncpy [] (Suc n) = None"
| "rt_strncpy (c # s) (Suc n) =
     (if c = 0 then Some (0 # replicate n 0) else map_option ((#) c) (rt_strncpy s n))"

text \<open>The difference of two characters goes through a \<^verbatim>\<open>signed char\<close>.\<close>

fun rt_strncmp :: "u8 list \<Rightarrow> u8 list \<Rightarrow> nat \<Rightarrow> int option" where
  "rt_strncmp cs ct 0 = Some 0"
| "rt_strncmp (c # cs) (d # ct) (Suc n) =
     (let res = sint (word_of_int (uint c - uint d) :: u8)
      in if res \<noteq> 0 \<or> c = 0 then Some res else rt_strncmp cs ct n)"
| "rt_strncmp _ _ (Suc n) = None"

fun rt_strcmp :: "u8 list \<Rightarrow> u8 list \<Rightarrow> int option" where
  "rt_strcmp (c # cs) (d # ct) =
     (if c \<noteq> 0 \<and> c = d then rt_strcmp cs ct else Some (uint c - uint d))"
| "rt_strcmp _ _ = None"

definition to_lower :: "u8 \<Rightarrow> int" where
  "to_lower c = (if 65 \<le> uint c \<and> uint c \<le> 90 then uint c + 32 else uint c)"

fun rt_strcasecmp :: "u8 list \<Rightarrow> u8 list \<Rightarrow> u32 option" where
  "rt_strcasecmp (c # a) (d # b) =
     (let ca = to_lower c; cb = to_lower d
      in if ca = cb \<and> ca \<noteq> 0 then rt_strcasecmp a b else Some (word_of_int (ca - cb)))"
| "rt_strcasecmp _ _ = None"

text \<open>\<^verbatim>\<open>rt_strstr\<close> returns the position of the match; the inner \<open>option\<close> is the null pointer.\<close>

fun strstr_loop :: "u8 list \<Rightarrow> u8 list \<Rightarrow> nat \<Rightarrow> nat \<Rightarrow> nat \<Rightarrow> nat option option" where
  "strstr_loop s1 s2 pos l1 l2 =
     (if l2 \<le> l1 \<and> 0 < l1
      then (case rt_memcmp s1 s2 l2 of
              None \<Rightarrow> None
            | Some r \<Rightarrow> if r = 0 then Some (Some pos)
                        else strstr_loop (tl s1) s2 (pos + 1) (l1 - 1) l2)
      else Some None)"

definition rt_strstr :: "u8 list \<Rightarrow> u8 list \<Rightarrow> nat option option" where
  "rt_strstr s1 s2 =
     (case rt_strlen s2 of
        None \<Rightarrow> None
      | Some l2 \<Rightarrow>
          if l2 = 0 then Some (Some 0)
          else (case rt_strlen s1 of None \<Rightarrow> None | Some l1 \<Rightarrow> strstr_loop s1 s2 0 l1 l2))"

declare memset_blocks.simps [simp del] memset_longs.simps [simp del]
  memcpy_blocks.simps [simp del] memcpy_longs.simps [simp del] strstr_loop.simps [simp del]

section \<open>Lemmas\<close>

lemma replicate_split: "m \<le> n \<Longrightarrow> replicate m x @ replicate (n - m) x = replicate n x"
  by (metis le_add_diff_inverse replicate_add)

lemma long_bytes_fill:
  fixes d :: u32
  assumes "d = c AND 0xff"
  shows "long_bytes ((push_bit 8 d OR d) OR push_bit 16 (push_bit 8 d OR d)) =
    replicate 4 (ucast d)"
proof -
  have hi: "\<not> bit d i" if "8 \<le> i" for i
  proof -
    have "d = take_bit 8 c" using assms by (simp add: take_bit_eq_mask mask_eq_exp_minus_1)
    then show ?thesis using that by (simp add: bit_take_bit_iff)
  qed
  let ?b = "(push_bit 8 d OR d) OR push_bit 16 (push_bit 8 d OR d)"
  have "ucast ?b = (ucast d :: u8)" "ucast (drop_bit 8 ?b) = (ucast d :: u8)"
    "ucast (drop_bit 16 ?b) = (ucast d :: u8)" "ucast (drop_bit 24 ?b) = (ucast d :: u8)"
    by (rule bit_word_eqI, auto simp: bit_simps hi)+
  then show ?thesis by (simp add: long_bytes_def numeral_eq_Suc)
qed

lemma memset_blocks_fill:
  assumes "long_bytes buffer = replicate 4 d"
  shows "\<exists>c. memset_blocks buffer n = (replicate (n - c) d, c) \<and> c \<le> n"
proof (induction n rule: less_induct)
  case (less n)
  show ?case
  proof (cases "16 \<le> n")
    case True
    then obtain c where c: "memset_blocks buffer (n - 16) = (replicate (n - 16 - c) d, c)" "c \<le> n - 16"
      using less [of "n - 16"] by auto
    have "n - c = 16 + (n - 16 - c)" using c(2) True by simp
    then have "long_bytes buffer @ long_bytes buffer @ long_bytes buffer @ long_bytes buffer @
        replicate (n - 16 - c) d = replicate (n - c) d"
      by (simp add: assms numeral_eq_Suc)
    then show ?thesis
      using True c by (subst memset_blocks.simps) simp
  next
    case False
    then show ?thesis by (subst memset_blocks.simps) simp
  qed
qed

lemma memset_longs_fill:
  assumes "long_bytes buffer = replicate 4 d"
  shows "\<exists>c. memset_longs buffer n = (replicate (n - c) d, c) \<and> c \<le> n"
proof (induction n rule: less_induct)
  case (less n)
  show ?case
  proof (cases "4 \<le> n")
    case True
    then obtain c where c: "memset_longs buffer (n - 4) = (replicate (n - 4 - c) d, c)" "c \<le> n - 4"
      using less [of "n - 4"] by auto
    have "n - c = 4 + (n - 4 - c)" using c(2) True by simp
    then have "long_bytes buffer @ replicate (n - 4 - c) d = replicate (n - c) d"
      by (simp add: assms numeral_eq_Suc)
    then show ?thesis
      using True c by (subst memset_longs.simps) simp
  next
    case False
    then show ?thesis by (subst memset_longs.simps) simp
  qed
qed

text \<open>The word-wise \<^verbatim>\<open>rt_memset\<close> writes exactly \<open>count\<close> bytes, all equal to the low byte
  of its argument, whatever the alignment of the destination.\<close>

theorem memset_correct: "rt_memset s c count = replicate count (ucast c)"
proof -
  have m: "(0xff :: u32) = mask 8" by (simp add: mask_eq_exp_minus_1)
  have uc: "ucast (c AND 0xff) = (ucast c :: u8)"
    unfolding m by (rule bit_word_eqI) (auto simp: bit_simps)
  show ?thesis
  proof (cases "\<not> count < 4 \<and> s AND 3 = 0")
    case True
    let ?d = "c AND 0xff"
    let ?b = "(push_bit 8 ?d OR ?d) OR push_bit 16 (push_bit 8 ?d OR ?d)"
    have f: "long_bytes ?b = replicate 4 (ucast ?d)" by (rule long_bytes_fill) simp
    obtain c1 where c1: "memset_blocks ?b count = (replicate (count - c1) (ucast ?d), c1)" "c1 \<le> count"
      using memset_blocks_fill [OF f] by blast
    obtain c2 where c2: "memset_longs ?b c1 = (replicate (c1 - c2) (ucast ?d), c2)" "c2 \<le> c1"
      using memset_longs_fill [OF f] by blast
    show ?thesis
      using True c1 c2 by (simp add: rt_memset_def Let_def uc flip: replicate_add)
  qed (auto simp: rt_memset_def uc)
qed

lemma memcpy_blocks_copy:
  "n \<le> length src \<Longrightarrow> \<exists>l. memcpy_blocks src n = (take (n - l) src, drop (n - l) src, l) \<and> l \<le> n"
proof (induction n arbitrary: src rule: less_induct)
  case (less n)
  show ?case
  proof (cases "16 \<le> n")
    case True
    have "n - 16 < n" "n - 16 \<le> length (drop 16 src)" using True less.prems by auto
    from less.IH [OF this] obtain l where l: "memcpy_blocks (drop 16 src) (n - 16) =
        (take (n - 16 - l) (drop 16 src), drop (n - 16 - l) (drop 16 src), l)" "l \<le> n - 16"
      by blast
    have c4: "take 4 src @ take 4 (drop 4 src) @ take 4 (drop 8 src) @ take 4 (drop 12 src) =
        take 16 src"
      using take_add [of 12 4 src] take_add [of 8 4 src] take_add [of 4 4 src] by simp
    have "take 16 src @ take (n - 16 - l) (drop 16 src) = take (n - l) src"
      using take_add [of 16 "n - 16 - l" src] l(2) True by simp
    then have "take 4 src @ take 4 (drop 4 src) @ take 4 (drop 8 src) @ take 4 (drop 12 src) @
        take (n - 16 - l) (drop 16 src) = take (n - l) src"
      unfolding c4 [symmetric] by simp
    moreover have "drop (n - 16 - l) (drop 16 src) = drop (n - l) src"
      using l(2) True by (simp add: algebra_simps)
    ultimately show ?thesis
      using True l by (subst memcpy_blocks.simps) (auto simp del: drop_drop intro!: exI [of _ l])
  next
    case False
    then show ?thesis by (subst memcpy_blocks.simps) simp
  qed
qed

lemma memcpy_longs_copy:
  "n \<le> length src \<Longrightarrow> \<exists>l. memcpy_longs src n = (take (n - l) src, drop (n - l) src, l) \<and> l \<le> n"
proof (induction n arbitrary: src rule: less_induct)
  case (less n)
  show ?case
  proof (cases "4 \<le> n")
    case True
    have "n - 4 < n" "n - 4 \<le> length (drop 4 src)" using True less.prems by auto
    from less.IH [OF this] obtain l where l: "memcpy_longs (drop 4 src) (n - 4) =
        (take (n - 4 - l) (drop 4 src), drop (n - 4 - l) (drop 4 src), l)" "l \<le> n - 4"
      by blast
    have "take 4 src @ take (n - 4 - l) (drop 4 src) = take (n - l) src"
      using take_add [of 4 "n - 4 - l" src] l(2) True by simp
    moreover have "drop (n - 4 - l) (drop 4 src) = drop (n - l) src"
      using l(2) True by (simp add: algebra_simps)
    ultimately show ?thesis
      using True l by (subst memcpy_longs.simps) (auto simp del: drop_drop intro!: exI [of _ l])
  next
    case False
    then show ?thesis by (subst memcpy_longs.simps) simp
  qed
qed

text \<open>The word-wise \<^verbatim>\<open>rt_memcpy\<close> copies exactly the first \<open>count\<close> bytes.\<close>

theorem memcpy_correct:
  assumes "count \<le> length src"
  shows "rt_memcpy dst_addr src_addr src count = take count src"
proof (cases "\<not> count < 16 \<and> (src_addr AND 3) OR (dst_addr AND 3) = 0")
  case True
  obtain l1 where l1: "memcpy_blocks src count = (take (count - l1) src, drop (count - l1) src, l1)"
    "l1 \<le> count" using memcpy_blocks_copy [OF assms] by blast
  have "l1 \<le> length (drop (count - l1) src)" using assms l1(2) by simp
  then obtain l2 where l2: "memcpy_longs (drop (count - l1) src) l1 =
      (take (l1 - l2) (drop (count - l1) src), drop (l1 - l2) (drop (count - l1) src), l2)" "l2 \<le> l1"
    using memcpy_longs_copy by blast
  have "take (count - l1) src @ take (l1 - l2) (drop (count - l1) src) @
      take l2 (drop (l1 - l2) (drop (count - l1) src)) = take count src"
  proof -
    have "take (l1 - l2) (drop (count - l1) src) @ take l2 (drop (l1 - l2) (drop (count - l1) src))
        = take l1 (drop (count - l1) src)"
      using take_add [of "l1 - l2" l2 "drop (count - l1) src"] l2(2) by simp
    then show ?thesis using take_add [of "count - l1" l1 src] l1(2) by simp
  qed
  then show ?thesis using True l1 l2 by (simp add: rt_memcpy_def)
qed (auto simp: rt_memcpy_def)

lemma memcpy_correct_witness:
  "rt_memcpy 0x20000000 0x08000000 [1,2,3,4,5,6,7,8,9,10,11,12,13,14,15,16,17,18,19,20,21,22,23] 22 =
    [1,2,3,4,5,6,7,8,9,10,11,12,13,14,15,16,17,18,19,20,21,22]"
  using memcpy_correct [of 22 "[1,2,3,4,5,6,7,8,9,10,11,12,13,14,15,16,17,18,19,20,21,22,23]"
      "0x20000000" "0x08000000"]
  by simp

text \<open>\<open>moved m r d s n\<close>: \<open>r\<close> is \<open>m\<close> with the \<open>n\<close> cells at \<open>d\<close> replaced by the old cells at \<open>s\<close>.\<close>

definition moved :: "'a list \<Rightarrow> 'a list \<Rightarrow> nat \<Rightarrow> nat \<Rightarrow> nat \<Rightarrow> bool" where
  "moved m r d s n \<longleftrightarrow> length r = length m \<and> (\<forall>j<n. r ! (d + j) = m ! (s + j)) \<and>
     (\<forall>i<length m. i < d \<or> d + n \<le> i \<longrightarrow> r ! i = m ! i)"

lemma moved_eq:
  assumes "moved m r d s n" "d + n \<le> length m" "s + n \<le> length m"
  shows "r = take d m @ take n (drop s m) @ drop (d + n) m"
proof (rule nth_equalityI)
  show "length r = length (take d m @ take n (drop s m) @ drop (d + n) m)"
    using assms by (simp add: moved_def)
  fix i assume "i < length r"
  then have i: "i < length m" using assms by (simp add: moved_def)
  consider "i < d" | j where "i = d + j" "j < n" | "d + n \<le> i"
    by (metis le_add_diff_inverse nat_add_left_cancel_less not_le)
  then show "r ! i = (take d m @ take n (drop s m) @ drop (d + n) m) ! i"
    using assms i by cases (auto simp: moved_def nth_append)
qed

lemma memmove_down_moved:
  "s < d \<Longrightarrow> d + n \<le> length m \<Longrightarrow> moved m (memmove_down m (d + n) (s + n) n) d s n"
proof (induction n arbitrary: m)
  case (Suc n)
  have "moved (m[d + n := m ! (s + n)])
      (memmove_down (m[d + n := m ! (s + n)]) (d + n) (s + n) n) d s n"
    using Suc by simp
  then show ?case
    using Suc.prems by (auto simp: moved_def less_Suc_eq)
qed (simp add: moved_def)

lemma memmove_up_moved:
  "d + n \<le> length m \<Longrightarrow> d \<le> s \<or> s + n \<le> d \<Longrightarrow> moved m (memmove_up m d s n) d s n"
proof (induction n arbitrary: m d s)
  case (Suc n)
  let ?m = "m[d := m ! s]" and ?r = "memmove_up m d s (Suc n)"
  have "d + 1 + n \<le> length ?m" "d + 1 \<le> s + 1 \<or> s + 1 + n \<le> d + 1" using Suc.prems by auto
  from Suc.IH [OF this] have r: "moved ?m ?r (d + 1) (s + 1) n" by simp
  have "?r ! (d + j) = m ! (s + j)" if "j < Suc n" for j
  proof (cases j)
    case 0
    then show ?thesis using r Suc.prems by (simp add: moved_def)
  next
    case (Suc i)
    then have "?r ! (d + 1 + i) = ?m ! (s + 1 + i)" using r that by (simp add: moved_def)
    moreover have "s + 1 + i \<noteq> d" using Suc.prems Suc that by auto
    ultimately show ?thesis using Suc by simp
  qed
  then show ?case using r by (simp add: moved_def)
qed (simp add: moved_def)

text \<open>\<^verbatim>\<open>rt_memmove\<close> moves the bytes as if through a temporary buffer, also when the two
  ranges overlap.\<close>

theorem memmove_correct:
  assumes "dest + n \<le> length m" "s + n \<le> length m"
  shows "rt_memmove m dest s n = Some (take dest m @ take n (drop s m) @ drop (dest + n) m)"
proof -
  have "moved m (if s < dest \<and> dest < s + n then memmove_down m (dest + n) (s + n) n
      else memmove_up m dest s n) dest s n"
    using assms memmove_down_moved [of s dest n m] memmove_up_moved [of dest n m s] by auto
  from moved_eq [OF this assms] show ?thesis using assms by (simp add: rt_memmove_def)
qed

lemma memmove_correct_witness:
  "rt_memmove [1, 2, 3, 4, 5, 6 :: nat] 2 0 3 = Some [1, 2, 1, 2, 3, 6] \<and>
    rt_memmove [1, 2, 3, 4, 5, 6 :: nat] 0 2 3 = Some [3, 4, 5, 4, 5, 6]"
  using memmove_correct [of 2 3 "[1, 2, 3, 4, 5, 6 :: nat]" 0]
    memmove_correct [of 0 3 "[1, 2, 3, 4, 5, 6 :: nat]" 2]
  by simp

subsection \<open>Strings\<close>

text \<open>A NUL-terminated string: \<open>s\<close> holds the characters \<open>cs\<close>, none of them NUL, and a NUL.\<close>

definition cstring :: "u8 list \<Rightarrow> u8 list \<Rightarrow> bool" where
  "cstring s cs \<longleftrightarrow> 0 \<notin> set cs \<and> (\<exists>rest. s = cs @ 0 # rest)"

lemma cstring_Nil: "cstring s [] \<longleftrightarrow> (\<exists>rest. s = 0 # rest)"
  by (simp add: cstring_def)

lemma cstring_Cons: "cstring s (c # cs) \<longleftrightarrow> c \<noteq> 0 \<and> (\<exists>s'. s = c # s' \<and> cstring s' cs)"
  by (auto simp: cstring_def)

lemma rt_strlen_cstring: "cstring s cs \<Longrightarrow> rt_strlen s = Some (length cs)"
  by (induction cs arbitrary: s) (auto simp: cstring_Nil cstring_Cons)

lemma rt_strnlen_cstring: "cstring s cs \<Longrightarrow> rt_strnlen s n = Some (min n (length cs))"
  by (induction cs arbitrary: s n) (auto simp: cstring_Nil cstring_Cons min_def split: nat_diff_split)

lemma rt_strncpy_cstring:
  "cstring s cs \<Longrightarrow> rt_strncpy s n = Some (take n (cs @ replicate n 0))"
proof (induction cs arbitrary: s n)
  case Nil
  then show ?case by (cases n) (auto simp: cstring_Nil)
next
  case (Cons c cs)
  then show ?case
  proof (cases n)
    case (Suc m)
    moreover have "take m (cs @ replicate m 0) = take m (cs @ replicate (Suc m) (0 :: u8))"
      by (simp add: take_Cons' flip: replicate_append_same)
    ultimately show ?thesis using Cons by (auto simp: cstring_Cons)
  qed simp
qed

text \<open>The signed-char difference of two characters is 0 only for equal characters.\<close>

lemma schar_diff_zero: "sint (word_of_int (uint c - uint d) :: u8) = 0 \<longleftrightarrow> c = d" for c d :: u8
proof -
  have "sint (c - d) = 0 \<longleftrightarrow> c - d = 0" by (metis signed_0 signed_word_eqI)
  then show ?thesis by simp
qed

text \<open>The comparison of names: zero exactly when the first \<open>n\<close> characters agree.\<close>

lemma rt_strncmp_zero:
  assumes "cstring s cs" "cstring t ds"
  shows "\<exists>r. rt_strncmp s t n = Some r \<and> (r = 0 \<longleftrightarrow> take n cs = take n ds)"
  using assms
proof (induction cs arbitrary: s t ds n)
  case Nil
  show ?case
  proof (cases n)
    case (Suc m)
    show ?thesis
    proof (cases ds)
      case Nil
      then show ?thesis using Nil Nil.prems Suc by (auto simp: cstring_Nil Let_def)
    next
      case (Cons d ds')
      then have "\<exists>t'. t = d # t'" "d \<noteq> 0" "\<exists>s'. s = 0 # s'"
        using Nil.prems by (auto simp: cstring_Nil cstring_Cons)
      then show ?thesis
        using Suc Cons schar_diff_zero [of 0 d] by (auto simp: Let_def)
    qed
  qed simp
next
  case (Cons c cs)
  show ?case
  proof (cases n)
    case (Suc m)
    obtain s' where s: "s = c # s'" "cstring s' cs" "c \<noteq> 0"
      using Cons.prems by (auto simp: cstring_Cons)
    show ?thesis
    proof (cases ds)
      case Nil
      then obtain t' where "t = 0 # t'" using Cons.prems by (auto simp: cstring_Nil)
      then show ?thesis using s Suc Nil schar_diff_zero [of c 0] by (auto simp: Let_def)
    next
      case d: (Cons d ds')
      then obtain t' where t: "t = d # t'" "cstring t' ds'"
        using Cons.prems by (auto simp: cstring_Cons)
      obtain r where r: "rt_strncmp s' t' m = Some r" "(r = 0) = (take m cs = take m ds')"
        using Cons.IH [OF s(2) t(2)] by blast
      show ?thesis
        using s t d Suc r schar_diff_zero [of c d] by (auto simp: Let_def)
    qed
  qed simp
qed

lemma rt_strncmp_prefix: "n \<le> length cs \<Longrightarrow> rt_strncmp (cs @ zs) ct n = rt_strncmp cs ct n"
proof (induction n arbitrary: cs ct)
  case (Suc n)
  then obtain c cs' where "cs = c # cs'" "n \<le> length cs'" by (cases cs) auto
  then show ?case using Suc.IH by (cases ct) (auto simp: Let_def)
qed simp

text \<open>An object name, copied with \<^verbatim>\<open>rt_strncpy\<close> into a field of \<open>n\<close> bytes, compares
  equal (\<^verbatim>\<open>rt_strncmp\<close> over \<open>n\<close> bytes) to exactly the strings with the same first \<open>n\<close>
  characters; the copy fills the field and neither call reads past a terminator.\<close>

theorem name_roundtrip:
  assumes "cstring s cs" "cstring t ds"
  shows "\<exists>field r. rt_strncpy s n = Some field \<and> length field = n \<and>
    rt_strncmp field t n = Some r \<and> (r = 0 \<longleftrightarrow> take n cs = take n ds)"
proof -
  define field where "field = take n (cs @ replicate n 0)"
  have "cstring (field @ [0]) (take n cs)"
  proof (cases "n \<le> length cs")
    case True
    then show ?thesis using assms(1) by (auto simp: field_def cstring_def dest: in_set_takeD)
  next
    case False
    then have "field @ [0] = cs @ 0 # replicate (n - length cs) 0"
      by (simp add: field_def replicate_append_same min_def flip: replicate_Suc)
    then show ?thesis using assms(1) False by (auto simp: cstring_def)
  qed
  from rt_strncmp_zero [OF this assms(2), of n] obtain r where
    "rt_strncmp (field @ [0]) t n = Some r" "(r = 0) = (take n cs = take n ds)"
    by auto
  moreover have "rt_strncpy s n = Some field" "length field = n"
    using rt_strncpy_cstring [OF assms(1)] by (simp_all add: field_def)
  ultimately show ?thesis using rt_strncmp_prefix [of n field "[0]" t] by auto
qed

lemma name_roundtrip_witness:
  "\<exists>field r. rt_strncpy [116, 105, 100, 108, 101, 48, 0] 4 = Some field \<and> length field = 4 \<and>
    rt_strncmp field [116, 105, 100, 108, 0] 4 = Some r \<and> r = 0"
  using name_roundtrip [of "[116, 105, 100, 108, 101, 48, 0]" "[116, 105, 100, 108, 101, 48]"
      "[116, 105, 100, 108, 0]" "[116, 105, 100, 108]" 4]
  by (simp add: cstring_def)

text \<open>The sign of \<^verbatim>\<open>rt_strncmp\<close> is not the order of the characters: their difference is
  truncated to a signed char.\<close>

lemma rt_strncmp_sign: "rt_strncmp [200, 0] [50, 0] 2 = Some (- 106)"
  by code_simp

end
