(* ===== verification/KState.thy ===== *)
theory KState
  imports Ffs KString
begin

text \<open>
  The kernel state of \<^verbatim>\<open>rt-thread/src\<close>: the records of \<^verbatim>\<open>include/rtdef.h\<close> and the global
  variables of scheduler.c, timer.c, clock.c, irq.c and object.c in one record that every
  operation passes on.

  Intrusive lists. A doubly linked \<^verbatim>\<open>rt_list_t\<close> is the list of the threads it holds, in
  order from \<^verbatim>\<open>head.next\<close>; \<^verbatim>\<open>rt_list_insert_before(head, n)\<close> appends and
  \<^verbatim>\<open>rt_list_insert_after(head, n)\<close> puts in front. The node \<^verbatim>\<open>tlist\<close> of a thread is in at
  most one list (an invariant, below), so \<^verbatim>\<open>rt_list_remove(&thread->tlist)\<close> takes the thread
  out of whatever list holds it, and does nothing to an unlinked node.
\<close>

section \<open>Data\<close>

text \<open>The heads of the lists that link threads through \<^verbatim>\<open>tlist\<close>.\<close>

datatype lhead =
    LReady nat      \<comment> \<open>\<^verbatim>\<open>rt_thread_priority_table[p]\<close>\<close>
  | LDefunct        \<comment> \<open>\<^verbatim>\<open>rt_thread_defunct\<close>\<close>
  | LSem nat | LMutex nat | LEvent nat | LMb nat | LMbSender nat | LMq nat | LMp nat
  | LDqPush nat | LDqPop nat | LCompletion nat

text \<open>A timer is the built-in timer of a thread or one of the application.\<close>

datatype timer_id = TThread nat | TUser nat

datatype obj_class = Class_Thread | Class_Semaphore | Class_Mutex | Class_Event | Class_MailBox
  | Class_MessageQueue | Class_MemPool | Class_Device | Class_Timer

datatype kobj = OThread nat | OSem nat | OMutex nat | OEvent nat | OMb nat | OMq nat | OMp nat
  | ODevice nat | OTimer timer_id

text \<open>\<^verbatim>\<open>struct rt_object\<close> without its list node and its flag, which the records below keep.\<close>

record object =
  obj_name :: "u8 list"
  obj_type :: u8

record thread =
  th_error :: rt_err
  th_stat :: u8
  th_current_priority :: nat
  th_init_priority :: nat
  th_number_mask :: u32
  th_event_set :: u32
  th_event_info :: u8
  th_init_tick :: u32
  th_remaining_tick :: u32
  th_cleanup :: bool      \<comment> \<open>a cleanup function is set\<close>

record timer =
  tm_flag :: u8
  tm_init_tick :: u32
  tm_timeout_tick :: u32

record sem =
  sem_value :: u16
  sem_flag :: u8

record mutex =
  mtx_value :: u16
  mtx_original_priority :: nat
  mtx_hold :: u8
  mtx_owner :: "nat option"
  mtx_flag :: u8

record event =
  ev_set :: u32
  ev_flag :: u8

record mailbox =
  mb_msg_pool :: "u32 list"
  mb_size :: nat
  mb_entry :: nat
  mb_in_offset :: nat
  mb_out_offset :: nat
  mb_flag :: u8

text \<open>The message nodes of a queue are numbered in the order of the pool; a node is a next
  pointer and \<^verbatim>\<open>msg_size\<close> bytes.\<close>

record messagequeue =
  mq_next :: "nat \<Rightarrow> nat option"
  mq_data :: "nat \<Rightarrow> u8 list"
  mq_msg_size :: nat
  mq_max_msgs :: nat
  mq_entry :: nat
  mq_queue_head :: "nat option"
  mq_queue_tail :: "nat option"
  mq_queue_free :: "nat option"
  mq_flag :: u8

text \<open>The first word of a memory-pool block is the next free block or, in use, the pool.\<close>

datatype blk_link = BNext "nat option" | BOwner nat

record mempool =
  mp_link :: "nat \<Rightarrow> blk_link"
  mp_size :: u32
  mp_block_size :: u32
  mp_block_list :: "nat option"
  mp_block_total_count :: u32
  mp_block_free_count :: u32
  mp_suspend_thread_count :: u32

text \<open>The data queue, the completion and the wait queue of the device-driver framework
  (\<^verbatim>\<open>components/drivers/include/ipc\<close>). A data item is a pointer and a size; a node of a wait
  queue is named by a number and refers to the thread that polls.\<close>

record dataqueue =
  dq_size :: u16
  dq_lwm :: u16
  dq_get_index :: u16
  dq_put_index :: u16
  dq_items :: "(u32 \<times> u32) list"
  dq_notify :: bool      \<comment> \<open>an \<^verbatim>\<open>evt_notify\<close> function is set\<close>

record wqueue =
  wq_wakeup :: bool      \<comment> \<open>\<^verbatim>\<open>flag == RT_WQ_FLAG_WAKEUP\<close>\<close>
  wq_waiting :: "(nat \<times> nat) list"

record kernel =
  threads :: "nat \<Rightarrow> thread"
  lists :: "lhead \<Rightarrow> nat list"
  ready_priority_group :: u32
  current_thread :: "nat option"
  current_priority :: nat
  scheduler_lock_nest :: u16     \<comment> \<open>read as a signed 16-bit number\<close>
  interrupt_nest :: u8
  tick :: u32
  timers :: "timer_id \<Rightarrow> timer"
  timer_list :: "timer_id list"
  objects :: "kobj \<Rightarrow> object"
  object_container :: "obj_class \<Rightarrow> kobj list"
  sems :: "nat \<Rightarrow> sem"
  mutexes :: "nat \<Rightarrow> mutex"
  events :: "nat \<Rightarrow> event"
  mailboxes :: "nat \<Rightarrow> mailbox"
  msgqueues :: "nat \<Rightarrow> messagequeue"
  mempools :: "nat \<Rightarrow> mempool"
  dataqueues :: "nat \<Rightarrow> dataqueue"
  completions :: "nat \<Rightarrow> bool"      \<comment> \<open>the flag is \<^verbatim>\<open>RT_COMPLETED\<close>\<close>
  wqueues :: "nat \<Rightarrow> wqueue"

section \<open>Constants of rtdef.h and rtconfig.h\<close>

abbreviation "RT_THREAD_PRIORITY_MAX \<equiv> (32 :: nat)"
abbreviation "RT_THREAD_INIT \<equiv> (0x00 :: u8)"
abbreviation "RT_THREAD_READY \<equiv> (0x01 :: u8)"
abbreviation "RT_THREAD_SUSPEND \<equiv> (0x02 :: u8)"
abbreviation "RT_THREAD_CLOSE \<equiv> (0x04 :: u8)"
abbreviation "RT_THREAD_STAT_MASK \<equiv> (0x0f :: u8)"
abbreviation "RT_TICK_MAX \<equiv> (0xffffffff :: u32)"

text \<open>\<^verbatim>\<open>RT_TICK_MAX / 2\<close>.\<close>

abbreviation "TICK_HALF \<equiv> (0x7fffffff :: u32)"
abbreviation "RT_TIMER_FLAG_ACTIVATED \<equiv> (0x1 :: u8)"
abbreviation "RT_TIMER_FLAG_PERIODIC \<equiv> (0x2 :: u8)"
abbreviation "RT_IPC_FLAG_FIFO \<equiv> (0x00 :: u8)"
abbreviation "RT_IPC_FLAG_PRIO \<equiv> (0x01 :: u8)"

section \<open>Elementary steps\<close>

definition upd_thread :: "nat \<Rightarrow> (thread \<Rightarrow> thread) \<Rightarrow> kernel \<Rightarrow> kernel" where
  "upd_thread t f k = k\<lparr>threads := (threads k)(t := f (threads k t))\<rparr>"

definition set_error :: "nat \<Rightarrow> rt_err \<Rightarrow> kernel \<Rightarrow> kernel" where
  "set_error t e = upd_thread t (\<lambda>th. th\<lparr>th_error := e\<rparr>)"

definition set_stat :: "nat \<Rightarrow> u8 \<Rightarrow> kernel \<Rightarrow> kernel" where
  "set_stat t s = upd_thread t (\<lambda>th. th\<lparr>th_stat := s\<rparr>)"

text \<open>\<^verbatim>\<open>s | (thread->stat & ~RT_THREAD_STAT_MASK)\<close>.\<close>

definition with_stat :: "u8 \<Rightarrow> u8 \<Rightarrow> u8" where
  "with_stat s old = s OR (old AND NOT RT_THREAD_STAT_MASK)"

definition stat_of :: "kernel \<Rightarrow> nat \<Rightarrow> u8" where
  "stat_of k t = th_stat (threads k t) AND RT_THREAD_STAT_MASK"

definition list_remove :: "nat \<Rightarrow> kernel \<Rightarrow> kernel" where
  "list_remove t k = k\<lparr>lists := \<lambda>h. removeAll t (lists k h)\<rparr>"

definition list_insert_before :: "lhead \<Rightarrow> nat \<Rightarrow> kernel \<Rightarrow> kernel" where
  "list_insert_before h t k = k\<lparr>lists := (lists k)(h := lists k h @ [t])\<rparr>"

definition list_insert_after :: "lhead \<Rightarrow> nat \<Rightarrow> kernel \<Rightarrow> kernel" where
  "list_insert_after h t k = k\<lparr>lists := (lists k)(h := t # lists k h)\<rparr>"

abbreviation prio_of :: "kernel \<Rightarrow> nat \<Rightarrow> nat" where
  "prio_of k t \<equiv> th_current_priority (threads k t)"

abbreviation mask_of :: "kernel \<Rightarrow> nat \<Rightarrow> u32" where
  "mask_of k t \<equiv> th_number_mask (threads k t)"

abbreviation error_of :: "kernel \<Rightarrow> nat \<Rightarrow> rt_err" where
  "error_of k t \<equiv> th_error (threads k t)"

section \<open>Lemmas\<close>

lemma with_stat_mask:
  "with_stat RT_THREAD_READY s AND RT_THREAD_STAT_MASK = RT_THREAD_READY"
  "with_stat RT_THREAD_SUSPEND s AND RT_THREAD_STAT_MASK = RT_THREAD_SUSPEND"
proof -
  have m: "(s AND NOT RT_THREAD_STAT_MASK) AND RT_THREAD_STAT_MASK = 0"
    by (rule bit_word_eqI) (auto simp: bit_simps)
  show "with_stat RT_THREAD_READY s AND RT_THREAD_STAT_MASK = RT_THREAD_READY"
    "with_stat RT_THREAD_SUSPEND s AND RT_THREAD_STAT_MASK = RT_THREAD_SUSPEND"
    unfolding with_stat_def bit.conj_disj_distrib2 m by simp_all
qed

text \<open>What the elementary steps leave alone; they commute with everything else by \<open>simp\<close>.\<close>

lemma upd_thread_simps [simp]:
  "threads (upd_thread t f k) = (threads k)(t := f (threads k t))"
  "lists (upd_thread t f k) = lists k"
  "ready_priority_group (upd_thread t f k) = ready_priority_group k"
  "current_thread (upd_thread t f k) = current_thread k"
  "current_priority (upd_thread t f k) = current_priority k"
  "scheduler_lock_nest (upd_thread t f k) = scheduler_lock_nest k"
  "interrupt_nest (upd_thread t f k) = interrupt_nest k"
  "tick (upd_thread t f k) = tick k"
  "timers (upd_thread t f k) = timers k"
  "timer_list (upd_thread t f k) = timer_list k"
  "objects (upd_thread t f k) = objects k"
  "object_container (upd_thread t f k) = object_container k"
  "sems (upd_thread t f k) = sems k"
  "mutexes (upd_thread t f k) = mutexes k"
  "events (upd_thread t f k) = events k"
  "mailboxes (upd_thread t f k) = mailboxes k"
  "msgqueues (upd_thread t f k) = msgqueues k"
  "mempools (upd_thread t f k) = mempools k"
  "dataqueues (upd_thread t f k) = dataqueues k"
  "completions (upd_thread t f k) = completions k"
  "wqueues (upd_thread t f k) = wqueues k"
  by (simp_all add: upd_thread_def)

lemma list_steps_simps [simp]:
  "lists (list_remove t k) h = removeAll t (lists k h)"
  "lists (list_insert_before h t k) = (lists k)(h := lists k h @ [t])"
  "lists (list_insert_after h t k) = (lists k)(h := t # lists k h)"
  by (simp_all add: list_remove_def list_insert_before_def list_insert_after_def)

lemma list_remove_frame [simp]:
  "threads (list_remove t k) = threads k"
  "ready_priority_group (list_remove t k) = ready_priority_group k"
  "current_thread (list_remove t k) = current_thread k"
  "scheduler_lock_nest (list_remove t k) = scheduler_lock_nest k"
  "interrupt_nest (list_remove t k) = interrupt_nest k"
  "tick (list_remove t k) = tick k"
  "timers (list_remove t k) = timers k"
  "timer_list (list_remove t k) = timer_list k"
  by (simp_all add: list_remove_def)

lemma list_insert_frame [simp]:
  "threads (list_insert_before h t k) = threads k"
  "threads (list_insert_after h t k) = threads k"
  "ready_priority_group (list_insert_before h t k) = ready_priority_group k"
  "ready_priority_group (list_insert_after h t k) = ready_priority_group k"
  "current_thread (list_insert_before h t k) = current_thread k"
  "current_thread (list_insert_after h t k) = current_thread k"
  "scheduler_lock_nest (list_insert_before h t k) = scheduler_lock_nest k"
  "scheduler_lock_nest (list_insert_after h t k) = scheduler_lock_nest k"
  "interrupt_nest (list_insert_before h t k) = interrupt_nest k"
  "tick (list_insert_before h t k) = tick k"
  "timers (list_insert_before h t k) = timers k"
  "timer_list (list_insert_before h t k) = timer_list k"
  "timers (list_insert_after h t k) = timers k"
  "timer_list (list_insert_after h t k) = timer_list k"
  by (simp_all add: list_insert_before_def list_insert_after_def)

end
