(* ===== verification/Sched.thy ===== *)
theory Sched
  imports KState
begin

text \<open>
  The priority scheduler, \<^verbatim>\<open>rt-thread/src/scheduler.c\<close>: 32 ready lists and the bitmap of
  the non-empty ones. The context switch itself is assembly; a switch is a change of
  \<open>current_thread\<close>. The stack-overflow check (a diagnostic on the stack memory) and the
  hooks of the application are not modelled.
\<close>

section \<open>Operations\<close>

definition rt_system_scheduler_init :: "kernel \<Rightarrow> kernel" where
  "rt_system_scheduler_init k =
     k\<lparr>scheduler_lock_nest := 0,
       lists := (\<lambda>h. case h of LReady p \<Rightarrow> if p < RT_THREAD_PRIORITY_MAX then [] else lists k h
                    | LDefunct \<Rightarrow> [] | _ \<Rightarrow> lists k h),
       current_priority := RT_THREAD_PRIORITY_MAX - 1,
       current_thread := None,
       ready_priority_group := 0\<rparr>"

text \<open>
  \<^verbatim>\<open>__rt_ffs(group) - 1\<close> and the first thread of that ready list; \<open>None\<close> when no bit is
  set (the index would be out of range) or the list is empty (no thread to take).
\<close>

definition highest_ready :: "kernel \<Rightarrow> (nat \<times> nat) option" where
  "highest_ready k =
     (case rt_ffs (ready_priority_group k) of
        0 \<Rightarrow> None
      | Suc n \<Rightarrow> (case lists k (LReady n) of [] \<Rightarrow> None | t # _ \<Rightarrow> Some (n, t)))"

definition rt_system_scheduler_start :: "kernel \<Rightarrow> kernel option" where
  "rt_system_scheduler_start k =
     do { (p, to_thread) \<leftarrow> highest_ready k; Some (k\<lparr>current_thread := Some to_thread\<rparr>) }"

text \<open>A switch needs a thread to switch from: \<open>None\<close> before the scheduler has started.\<close>

definition rt_schedule :: "kernel \<Rightarrow> kernel option" where
  "rt_schedule k =
     (if scheduler_lock_nest k = 0
      then do {
        (p, to_thread) \<leftarrow> highest_ready k;
        if Some to_thread \<noteq> current_thread k
        then do {
          rt_assert (current_thread k \<noteq> None);
          Some (k\<lparr>current_priority := p, current_thread := Some to_thread\<rparr>)
        }
        else Some k
      }
      else Some k)"

definition rt_schedule_insert_thread :: "nat \<Rightarrow> kernel \<Rightarrow> kernel" where
  "rt_schedule_insert_thread t k0 =
     (let k1 = set_stat t (with_stat RT_THREAD_READY (th_stat (threads k0 t))) k0;
          k2 = list_insert_before (LReady (prio_of k1 t)) t k1
      in k2\<lparr>ready_priority_group := ready_priority_group k2 OR mask_of k2 t\<rparr>)"

definition rt_schedule_remove_thread :: "nat \<Rightarrow> kernel \<Rightarrow> kernel" where
  "rt_schedule_remove_thread t k0 =
     (let k1 = list_remove t k0
      in if lists k1 (LReady (prio_of k1 t)) = []
         then k1\<lparr>ready_priority_group := ready_priority_group k1 AND NOT (mask_of k1 t)\<rparr>
         else k1)"

definition rt_enter_critical :: "kernel \<Rightarrow> kernel" where
  "rt_enter_critical k = k\<lparr>scheduler_lock_nest := scheduler_lock_nest k + 1\<rparr>"

definition rt_exit_critical :: "kernel \<Rightarrow> kernel option" where
  "rt_exit_critical k0 =
     (let k = k0\<lparr>scheduler_lock_nest := scheduler_lock_nest k0 - 1\<rparr>
      in if sint (scheduler_lock_nest k) \<le> 0
         then let k' = k\<lparr>scheduler_lock_nest := 0\<rparr>
              in if current_thread k' \<noteq> None then rt_schedule k' else Some k'
         else Some k)"

definition rt_critical_level :: "kernel \<Rightarrow> u16" where
  "rt_critical_level k = scheduler_lock_nest k"

section \<open>The scheduler invariant\<close>

text \<open>
  \<open>sched_inv D k\<close>: every thread is in at most one list, once; outside \<open>D\<close> a thread is in
  the ready list of its priority exactly when its state is READY; waiting threads are
  suspended; the bitmap marks the non-empty ready lists. The threads of \<open>D\<close> are the ones an
  operation has unlinked and not linked again yet; between operations \<open>D\<close> is empty.
\<close>

abbreviation th_ready :: "kernel \<Rightarrow> nat \<Rightarrow> bool" where
  "th_ready k t \<equiv> stat_of k t = RT_THREAD_READY"

abbreviation th_suspended :: "kernel \<Rightarrow> nat \<Rightarrow> bool" where
  "th_suspended k t \<equiv> stat_of k t = RT_THREAD_SUSPEND"

definition mask_ok :: "thread \<Rightarrow> bool" where
  "mask_ok th \<longleftrightarrow> th_current_priority th < RT_THREAD_PRIORITY_MAX \<and>
     (th_number_mask th = 0 \<or> th_number_mask th = 2 ^ th_current_priority th) \<and>
     (th_stat th AND RT_THREAD_STAT_MASK \<in> {RT_THREAD_READY, RT_THREAD_SUSPEND} \<longrightarrow>
       th_number_mask th = 2 ^ th_current_priority th)"

fun stat_fits :: "lhead \<Rightarrow> u8 \<Rightarrow> bool" where
  "stat_fits (LReady p) s = (s = RT_THREAD_READY)"
| "stat_fits LDefunct s = (s = RT_THREAD_CLOSE)"
| "stat_fits _ s = (s = RT_THREAD_SUSPEND)"

definition links_ok :: "kernel \<Rightarrow> bool" where
  "links_ok k \<longleftrightarrow> (\<forall>h. distinct (lists k h)) \<and>
     (\<forall>t h h'. t \<in> set (lists k h) \<longrightarrow> t \<in> set (lists k h') \<longrightarrow> h = h')"

definition bitmap_ok :: "kernel \<Rightarrow> bool" where
  "bitmap_ok k \<longleftrightarrow> (\<forall>p. bit (ready_priority_group k) p \<longleftrightarrow> lists k (LReady p) \<noteq> [])"

definition ready_ok :: "nat set \<Rightarrow> kernel \<Rightarrow> bool" where
  "ready_ok D k \<longleftrightarrow>
     (\<forall>t h. t \<in> set (lists k h) \<longrightarrow> t \<notin> D \<and> stat_fits h (stat_of k t) \<and>
        (\<forall>p. h = LReady p \<longrightarrow> prio_of k t = p)) \<and>
     (\<forall>t. t \<notin> D \<longrightarrow> th_ready k t \<longrightarrow> t \<in> set (lists k (LReady (prio_of k t))))"

definition sched_inv :: "nat set \<Rightarrow> kernel \<Rightarrow> bool" where
  "sched_inv D k \<longleftrightarrow> links_ok k \<and> bitmap_ok k \<and> ready_ok D k \<and> (\<forall>t. mask_ok (threads k t))"

lemma sched_inv_D: "sched_inv D k \<Longrightarrow> t \<in> D \<Longrightarrow> t \<notin> set (lists k h)"
  by (auto simp: sched_inv_def ready_ok_def)

lemma sched_inv_unlinked:
  "sched_inv {} k \<Longrightarrow> (\<And>h. t \<notin> set (lists k h)) \<Longrightarrow> sched_inv {t} k"
  by (auto simp: sched_inv_def ready_ok_def)

lemma sched_inv_link:
  "sched_inv {t} k \<Longrightarrow> \<not> th_ready k t \<Longrightarrow> sched_inv {} k"
  by (auto simp: sched_inv_def ready_ok_def)

lemma ready_in_list: "sched_inv {} k \<Longrightarrow> th_ready k t \<Longrightarrow> t \<in> set (lists k (LReady (prio_of k t)))"
  by (auto simp: sched_inv_def ready_ok_def)

lemma in_list_ready:
  "sched_inv D k \<Longrightarrow> t \<in> set (lists k (LReady p)) \<Longrightarrow> th_ready k t \<and> prio_of k t = p"
  by (fastforce simp: sched_inv_def ready_ok_def)

lemma bit_one_mask: "p < 32 \<Longrightarrow> bit (2 ^ p :: u32) i \<longleftrightarrow> i = p"
  by (auto simp: bit_exp_iff)

text \<open>Removing any thread: afterwards it is detached, and the bitmap follows the lists.\<close>

lemma remove_thread_inv:
  assumes inv: "sched_inv D k"
  shows "sched_inv (insert t D) (rt_schedule_remove_thread t k)"
proof -
  let ?k = "rt_schedule_remove_thread t k" and ?p = "prio_of k t"
  have L: "lists ?k h = removeAll t (lists k h)" for h
    by (simp add: rt_schedule_remove_thread_def Let_def)
  have T: "threads ?k = threads k"
    by (simp add: rt_schedule_remove_thread_def Let_def)
  have "links_ok ?k" using inv by (auto simp: sched_inv_def links_ok_def L distinct_removeAll)
  moreover have "ready_ok (insert t D) ?k"
    using inv by (auto simp: sched_inv_def ready_ok_def L T stat_of_def)
  moreover have "bitmap_ok ?k"
    unfolding bitmap_ok_def
  proof
    fix p
    let ?l = "lists k (LReady ?p)"
    have b: "bit (ready_priority_group k) p \<longleftrightarrow> lists k (LReady p) \<noteq> []"
      using inv by (simp add: sched_inv_def bitmap_ok_def)
    have m: "mask_ok (threads k t)" using inv by (simp add: sched_inv_def)
    have G: "bit (ready_priority_group ?k) p \<longleftrightarrow> bit (ready_priority_group k) p \<and>
        \<not> (removeAll t ?l = [] \<and> bit (mask_of k t) p)"
      by (auto simp: rt_schedule_remove_thread_def Let_def bit_and_iff bit_not_iff
          dest: bit_imp_le_length)
    show "bit (ready_priority_group ?k) p \<longleftrightarrow> lists ?k (LReady p) \<noteq> []"
    proof (cases "p = ?p")
      case False
      then have "t \<notin> set (lists k (LReady p))" using in_list_ready [OF inv, of t p] by blast
      then have "lists ?k (LReady p) = lists k (LReady p)" by (simp add: L)
      moreover have "\<not> bit (mask_of k t) p" using m False by (auto simp: mask_ok_def bit_one_mask)
      ultimately show ?thesis using G b by simp
    next
      case True
      have "bit (mask_of k t) ?p" if "t \<in> set ?l"
        using m in_list_ready [OF inv that] by (auto simp: mask_ok_def stat_of_def bit_one_mask)
      moreover have "t \<in> set ?l" if "removeAll t ?l = []" "?l \<noteq> []"
        using that by (metis removeAll_id)
      ultimately show ?thesis using G b by (auto simp: L True)
    qed
  qed
  moreover have "\<forall>t. mask_ok (threads ?k t)" using inv by (simp add: sched_inv_def T)
  ultimately show ?thesis by (simp add: sched_inv_def)
qed

lemma list_remove_suspended:
  assumes inv: "sched_inv D k" and nr: "\<not> th_ready k t"
  shows "sched_inv (insert t D) (list_remove t k)"
proof -
  have "t \<notin> set (lists k (LReady p))" for p using in_list_ready [OF inv] nr by blast
  then have "lists (list_remove t k) (LReady p) = lists k (LReady p)" for p by simp
  then show ?thesis
    using inv
    by (auto simp: sched_inv_def links_ok_def bitmap_ok_def ready_ok_def stat_of_def
        distinct_removeAll)
qed

text \<open>Changing a detached thread, and linking it again.\<close>

lemma upd_detached:
  assumes "sched_inv D k" "t \<in> D" "mask_ok (f (threads k t))"
  shows "sched_inv D (upd_thread t f k)"
  using assms
  by (auto simp: sched_inv_def links_ok_def bitmap_ok_def ready_ok_def stat_of_def)

lemma upd_same_stat:
  assumes "sched_inv D k" "th_stat (f (threads k t)) = th_stat (threads k t)"
    "th_current_priority (f (threads k t)) = th_current_priority (threads k t)"
    "th_number_mask (f (threads k t)) = th_number_mask (threads k t)"
  shows "sched_inv D (upd_thread t f k)"
  using assms
  by (auto simp: sched_inv_def links_ok_def bitmap_ok_def ready_ok_def stat_of_def mask_ok_def)

lemma links_ok_insert:
  assumes ok: "links_ok k" and out: "\<And>h. t \<notin> set (lists k h)"
    and ins: "lists k' = (lists k)(h := xs @ t # ys)" "lists k h = xs @ ys"
  shows "links_ok k'"
    and "u \<in> set (lists k' h') \<longleftrightarrow> u \<in> set (lists k h') \<or> u = t \<and> h' = h"
proof -
  have mem: "u \<in> set (lists k' h') \<longleftrightarrow> u \<in> set (lists k h') \<or> u = t \<and> h' = h" for u h'
    using ins by auto
  show "u \<in> set (lists k' h') \<longleftrightarrow> u \<in> set (lists k h') \<or> u = t \<and> h' = h" by (rule mem)
  have d: "distinct (lists k h')" for h' using ok by (simp add: links_ok_def)
  have "distinct (xs @ t # ys)"
  proof -
    have "distinct (xs @ ys)" using d [of h] by (simp only: ins(2))
    moreover have "t \<notin> set (xs @ ys)" using out [of h] by (simp only: ins(2) not_False_eq_True)
    ultimately show ?thesis by auto
  qed
  then have "distinct (lists k' h')" for h' using d by (simp add: ins(1))
  moreover have "h1 = h2" if "u \<in> set (lists k' h1)" "u \<in> set (lists k' h2)" for u h1 h2
    using that ok out unfolding mem links_ok_def by metis
  ultimately show "links_ok k'" unfolding links_ok_def by blast
qed

lemma insert_thread_inv:
  assumes inv: "sched_inv (insert t D) k" and mask: "mask_of k t = 2 ^ prio_of k t"
    and D: "t \<notin> D"
  shows "sched_inv D (rt_schedule_insert_thread t k)"
proof -
  let ?k = "rt_schedule_insert_thread t k" and ?p = "prio_of k t"
  have L: "lists ?k = (lists k)(LReady ?p := lists k (LReady ?p) @ t # [])"
    and T: "threads ?k = (threads k)(t := (threads k t)
      \<lparr>th_stat := with_stat RT_THREAD_READY (th_stat (threads k t))\<rparr>)"
    and G: "ready_priority_group ?k = ready_priority_group k OR 2 ^ ?p"
    by (simp_all add: rt_schedule_insert_thread_def Let_def set_stat_def mask)
  have out: "t \<notin> set (lists k h)" for h using sched_inv_D [OF inv] by blast
  have m: "mask_ok (threads k t)" using inv by (simp add: sched_inv_def)
  then have p32: "?p < 32" by (simp add: mask_ok_def)
  have "links_ok k" using inv by (simp add: sched_inv_def)
  note lk = links_ok_insert [OF this out L, simplified]
  have "bitmap_ok ?k"
    using inv by (auto simp: sched_inv_def bitmap_ok_def L G bit_or_iff bit_one_mask [OF p32])
  moreover have "ready_ok D ?k"
    unfolding ready_ok_def lk(2)
    using inv D out
    by (auto simp: sched_inv_def ready_ok_def T stat_of_def with_stat_mask)
  moreover have "\<forall>t. mask_ok (threads ?k t)"
    using inv m by (auto simp: sched_inv_def T mask_ok_def mask)
  ultimately show ?thesis using lk(1) by (simp add: sched_inv_def)
qed

lemma link_inv:
  assumes inv: "sched_inv {t} k" and fits: "stat_fits h (stat_of k t)"
    and nr: "\<And>p. h \<noteq> LReady p"
    and ins: "lists k' = (lists k)(h := xs @ t # ys)" "lists k h = xs @ ys"
    and frame: "threads k' = threads k" "ready_priority_group k' = ready_priority_group k"
  shows "sched_inv {} k'"
proof -
  have out: "t \<notin> set (lists k h)" for h using sched_inv_D [OF inv] by blast
  have "links_ok k" using inv by (simp add: sched_inv_def)
  note lk = links_ok_insert [OF this out ins]
  have nready: "\<not> th_ready k t" using fits nr by (cases h) auto
  have "bitmap_ok k'"
    using inv nr by (auto simp: sched_inv_def bitmap_ok_def ins(1) frame)
  moreover have "ready_ok {} k'"
  proof -
    have "u \<noteq> t" if "th_ready k u" for u using that nready by auto
    then show ?thesis
      unfolding ready_ok_def lk(2)
      using inv nr fits by (auto simp: sched_inv_def ready_ok_def frame stat_of_def)
  qed
  ultimately show ?thesis using inv lk(1) by (simp add: sched_inv_def frame)
qed

section \<open>The choice of the scheduler\<close>

text \<open>\<open>top_ready k t\<close>: \<open>t\<close> is first in the ready list of the highest priority (the smallest
  number) any ready thread has.\<close>

definition top_ready :: "kernel \<Rightarrow> nat \<Rightarrow> bool" where
  "top_ready k t \<longleftrightarrow> (\<exists>ts. lists k (LReady (prio_of k t)) = t # ts) \<and>
     (\<forall>u. th_ready k u \<longrightarrow> prio_of k t \<le> prio_of k u)"

lemma top_ready_unique:
  assumes inv: "sched_inv {} k" and t: "top_ready k t" and u: "top_ready k u"
  shows "t = u"
proof -
  have "t \<in> set (lists k (LReady (prio_of k t)))" "u \<in> set (lists k (LReady (prio_of k u)))"
    using t u by (auto simp: top_ready_def)
  then have "th_ready k t" "th_ready k u" using in_list_ready [OF inv] by blast+
  then have "prio_of k t = prio_of k u" using t u by (auto simp: top_ready_def intro: le_antisym)
  then show ?thesis using t u by (auto simp: top_ready_def)
qed

lemma highest_ready_spec:
  assumes inv: "sched_inv {} k" and some: "th_ready k u"
  obtains t where "highest_ready k = Some (prio_of k t, t)" "th_ready k t" "top_ready k t"
proof -
  have bm: "bit (ready_priority_group k) p \<longleftrightarrow> lists k (LReady p) \<noteq> []" for p
    using inv by (simp add: sched_inv_def bitmap_ok_def)
  have "lists k (LReady (prio_of k u)) \<noteq> []" using ready_in_list [OF inv some] by auto
  then have "ready_priority_group k \<noteq> 0" using bm by (metis bit_0_eq bot_apply bot_bool_def)
  then obtain n where n: "rt_ffs (ready_priority_group k) = Suc n"
    "lowest_bit (ready_priority_group k) n" by (rule rt_ffs_lowest)
  then obtain t ts where l: "lists k (LReady n) = t # ts"
    using bm [of n] by (auto simp: lowest_bit_def neq_Nil_conv)
  have t: "th_ready k t" "prio_of k t = n" using in_list_ready [OF inv, of t n] l by auto
  have "n \<le> prio_of k v" if "th_ready k v" for v
  proof -
    have "lists k (LReady (prio_of k v)) \<noteq> []" using ready_in_list [OF inv that] by auto
    then have "bit (ready_priority_group k) (prio_of k v)" by (simp add: bm)
    then show ?thesis using n(2) by (auto simp: lowest_bit_def not_less [symmetric])
  qed
  then have "top_ready k t" using t l by (auto simp: top_ready_def)
  then show ?thesis using n l t by (intro that [of t]) (simp_all add: highest_ready_def)
qed

text \<open>What \<^verbatim>\<open>rt_schedule\<close> changes.\<close>

definition switch_only :: "kernel \<Rightarrow> kernel \<Rightarrow> bool" where
  "switch_only k k' \<longleftrightarrow>
     k' = k\<lparr>current_priority := current_priority k', current_thread := current_thread k'\<rparr>"

lemma switch_only_frame:
  assumes "switch_only k k'"
  shows "threads k' = threads k" "lists k' = lists k"
    "ready_priority_group k' = ready_priority_group k"
    "scheduler_lock_nest k' = scheduler_lock_nest k"
    "interrupt_nest k' = interrupt_nest k" "tick k' = tick k" "timers k' = timers k"
    "timer_list k' = timer_list k" "objects k' = objects k"
    "object_container k' = object_container k" "sems k' = sems k" "mutexes k' = mutexes k"
    "events k' = events k" "mailboxes k' = mailboxes k" "msgqueues k' = msgqueues k"
    "mempools k' = mempools k" "dataqueues k' = dataqueues k" "completions k' = completions k"
    "wqueues k' = wqueues k"
  by (subst assms [unfolded switch_only_def], simp)+

lemma schedule_switch_only: "rt_schedule k = Some k' \<Longrightarrow> switch_only k k'"
  by (auto simp: rt_schedule_def switch_only_def split: if_splits bind_splits)

lemma schedule_locked: "scheduler_lock_nest k \<noteq> 0 \<Longrightarrow> rt_schedule k = Some k"
  by (simp add: rt_schedule_def)

lemma schedule_spec:
  assumes inv: "sched_inv {} k" and some: "th_ready k u" and cur: "current_thread k \<noteq> None"
  obtains k' where "rt_schedule k = Some k'" "switch_only k k'" "current_thread k' \<noteq> None"
    "scheduler_lock_nest k = 0 \<Longrightarrow> \<exists>t. current_thread k' = Some t \<and> th_ready k t \<and> top_ready k t"
    "scheduler_lock_nest k \<noteq> 0 \<Longrightarrow> k' = k"
proof (cases "scheduler_lock_nest k = 0")
  case True
  obtain t where t: "highest_ready k = Some (prio_of k t, t)" "th_ready k t" "top_ready k t"
    by (rule highest_ready_spec [OF inv some])
  then obtain k' where k': "rt_schedule k = Some k'" "current_thread k' = Some t"
    using True cur by (cases "current_thread k = Some t") (auto simp: rt_schedule_def)
  show ?thesis
    by (rule that [OF k'(1) schedule_switch_only [OF k'(1)]]) (use True k' t in auto)
next
  case False
  show ?thesis
    by (rule that [of k]) (use False cur in \<open>simp_all add: schedule_locked switch_only_def\<close>)
qed

text \<open>C9: with the scheduler locked \<^verbatim>\<open>rt_schedule\<close> changes nothing. With it unlocked it makes the current thread the first
  thread of the highest ready priority: no ready thread has a higher priority, and among
  those of equal priority it is the one queued longest. Nothing but the current thread
  changes.\<close>

theorem schedule_picks_highest:
  assumes "sched_inv {} k" "th_ready k u" "current_thread k = Some c"
  shows "(scheduler_lock_nest k \<noteq> 0 \<longrightarrow> rt_schedule k = Some k) \<and>
    (scheduler_lock_nest k = 0 \<longrightarrow> (\<exists>k' t. rt_schedule k = Some k' \<and> current_thread k' = Some t \<and>
      th_ready k' t \<and> (\<forall>v. th_ready k' v \<longrightarrow> prio_of k' t \<le> prio_of k' v) \<and>
      hd (lists k' (LReady (prio_of k' t))) = t \<and>
      k' = k\<lparr>current_priority := current_priority k', current_thread := Some t\<rparr>))"
proof (cases "scheduler_lock_nest k = 0")
  case True
  obtain k' t where k': "rt_schedule k = Some k'" "switch_only k k'" "current_thread k' = Some t"
    "th_ready k t" "top_ready k t"
    using schedule_spec [OF assms(1,2)] assms(3) True by (metis option.distinct(1))
  have e: "k' = k\<lparr>current_priority := current_priority k', current_thread := Some t\<rparr>"
    using k'(2,3) by (simp add: switch_only_def)
  have "\<forall>v. th_ready k' v \<longrightarrow> prio_of k' t \<le> prio_of k' v"
    "hd (lists k' (LReady (prio_of k' t))) = t" "th_ready k' t"
    using k'(4,5) by (auto simp: top_ready_def stat_of_def switch_only_frame [OF k'(2)])
  then show ?thesis using k'(1,3) e True by blast
qed (simp add: rt_schedule_def)

text \<open>A small kernel for examples: threads 1 (priority 10) and 0 (idle, priority 31) are ready,
  thread 2 (priority 5) is suspended, thread 0 is running.\<close>

definition demo_thread :: "nat \<Rightarrow> u8 \<Rightarrow> thread" where
  "demo_thread p s = \<lparr>th_error = 0, th_stat = s, th_current_priority = p, th_init_priority = p,
     th_number_mask = 2 ^ p, th_event_set = 0, th_event_info = 0, th_init_tick = 20,
     th_remaining_tick = 20, th_cleanup = False\<rparr>"

definition demo_kernel :: kernel where
  "demo_kernel = \<lparr>
     threads = (\<lambda>t. if t = 0 then demo_thread 31 RT_THREAD_READY
                    else if t = 1 then demo_thread 10 RT_THREAD_READY
                    else if t = 2 then demo_thread 5 RT_THREAD_SUSPEND
                    else demo_thread 0 RT_THREAD_INIT),
     lists = (\<lambda>h. if h = LReady 31 then [0] else if h = LReady 10 then [1] else []),
     ready_priority_group = 0x80000400, current_thread = Some 0, current_priority = 31,
     scheduler_lock_nest = 0, interrupt_nest = 0, tick = 100,
     timers = (\<lambda>_. \<lparr>tm_flag = 0, tm_init_tick = 0, tm_timeout_tick = 0\<rparr>), timer_list = [],
     objects = (\<lambda>_. \<lparr>obj_name = [], obj_type = 0\<rparr>), object_container = (\<lambda>_. []),
     sems = (\<lambda>_. \<lparr>sem_value = 0, sem_flag = 0\<rparr>),
     mutexes = (\<lambda>_. \<lparr>mtx_value = 1, mtx_original_priority = 255, mtx_hold = 0,
                      mtx_owner = None, mtx_flag = 0\<rparr>),
     events = (\<lambda>_. \<lparr>ev_set = 0, ev_flag = 0\<rparr>),
     mailboxes = (\<lambda>_. \<lparr>mb_msg_pool = [0, 0], mb_size = 2, mb_entry = 0, mb_in_offset = 0,
                        mb_out_offset = 0, mb_flag = 0\<rparr>),
     msgqueues = (\<lambda>_. \<lparr>mq_next = (\<lambda>_. None), mq_data = (\<lambda>_. []), mq_msg_size = 4,
                        mq_max_msgs = 0, mq_entry = 0, mq_queue_head = None,
                        mq_queue_tail = None, mq_queue_free = None, mq_flag = 0\<rparr>),
     mempools = (\<lambda>_. \<lparr>mp_link = (\<lambda>_. BNext None), mp_size = 0, mp_block_size = 4,
                       mp_block_list = None, mp_block_total_count = 0,
                       mp_block_free_count = 0, mp_suspend_thread_count = 0\<rparr>),
     dataqueues = (\<lambda>_. \<lparr>dq_size = 2, dq_lwm = 1, dq_get_index = 0, dq_put_index = 0,
                         dq_items = [(0, 0), (0, 0)], dq_notify = False\<rparr>),
     completions = (\<lambda>_. False),
     wqueues = (\<lambda>_. \<lparr>wq_wakeup = False, wq_waiting = []\<rparr>)\<rparr>"

lemma demo_group: "bit (0x80000400 :: u32) p \<longleftrightarrow> p = 10 \<or> p = 31"
proof -
  have e: "(0x80000400 :: u32) = 2 ^ 31 OR 2 ^ 10" by simp
  show ?thesis
    unfolding e bit_or_iff using bit_one_mask [of 31 p] bit_one_mask [of 10 p] by auto
qed

lemma demo_inv: "sched_inv {} demo_kernel"
proof -
  have "ready_priority_group demo_kernel = 0x80000400" by (simp add: demo_kernel_def)
  then have "bitmap_ok demo_kernel"
    unfolding bitmap_ok_def by (simp only: demo_group) (simp add: demo_kernel_def)
  moreover have "links_ok demo_kernel" "ready_ok {} demo_kernel" "mask_ok (threads demo_kernel t)" for t
    by (auto simp: links_ok_def ready_ok_def mask_ok_def demo_kernel_def demo_thread_def stat_of_def)
  ultimately show ?thesis by (simp add: sched_inv_def)
qed

lemma schedule_picks_highest_witness:
  "\<exists>k' t. rt_schedule demo_kernel = Some k' \<and> current_thread k' = Some t \<and> th_ready k' t \<and>
    prio_of k' t \<le> 10"
proof -
  have "th_ready demo_kernel 1" "current_thread demo_kernel = Some 0"
    and lock: "scheduler_lock_nest demo_kernel = 0"
    by (simp_all add: demo_kernel_def demo_thread_def stat_of_def)
  from schedule_picks_highest [OF demo_inv this(1,2)] lock obtain k' t where
    k': "rt_schedule demo_kernel = Some k'" "current_thread k' = Some t" "th_ready k' t"
    "\<forall>v. th_ready k' v \<longrightarrow> prio_of k' t \<le> prio_of k' v"
    "k' = demo_kernel\<lparr>current_priority := current_priority k', current_thread := Some t\<rparr>"
    by blast
  have th: "threads k' = threads demo_kernel" by (subst k'(5)) simp
  have "th_ready k' 1" "prio_of k' 1 = 10"
    by (simp_all add: th demo_kernel_def demo_thread_def stat_of_def)
  then show ?thesis using k' by metis
qed

end
