(* ===== verification/KObject.thy ===== *)
theory KObject
  imports Sched
begin

text \<open>
  The object registry, \<^verbatim>\<open>rt-thread/src/object.c\<close>: every kernel object has a type byte, whose
  top bit marks a static object, a name of \<^verbatim>\<open>RT_NAME_MAX\<close> bytes, and a place in the container
  list of its class. Memory for dynamic objects comes from the heap; what \<^verbatim>\<open>rt_malloc\<close> returns
  is an argument (\<open>None\<close>: out of memory). Null-pointer and object-type assertions are static
  facts of the typed model and are not repeated.
\<close>

section \<open>Operations\<close>

abbreviation "RT_NAME_MAX \<equiv> (8 :: nat)"
abbreviation "RT_Object_Class_Static \<equiv> (0x80 :: u8)"

fun class_code :: "obj_class \<Rightarrow> u8" where
  "class_code Class_Thread = 1"
| "class_code Class_Semaphore = 2"
| "class_code Class_Mutex = 3"
| "class_code Class_Event = 4"
| "class_code Class_MailBox = 5"
| "class_code Class_MessageQueue = 6"
| "class_code Class_MemPool = 8"
| "class_code Class_Device = 9"
| "class_code Class_Timer = 10"

text \<open>\<^verbatim>\<open>rt_object_get_information\<close>: the container whose type is the given code, if any.\<close>

definition rt_object_container :: "obj_class list" where
  "rt_object_container = [Class_Thread, Class_Semaphore, Class_Mutex, Class_Event, Class_MailBox,
     Class_MessageQueue, Class_MemPool, Class_Device, Class_Timer]"

definition rt_object_get_information :: "u8 \<Rightarrow> obj_class option" where
  "rt_object_get_information ty = find (\<lambda>c. class_code c = ty) rt_object_container"

definition attach_object :: "kobj \<Rightarrow> obj_class \<Rightarrow> u8 \<Rightarrow> u8 list \<Rightarrow> kernel \<Rightarrow> kernel" where
  "attach_object ob cls ty nm k =
     k\<lparr>objects := (objects k)(ob := \<lparr>obj_name = nm, obj_type = ty\<rparr>),
       object_container := (object_container k)(cls := ob # object_container k cls)\<rparr>"

definition unlink_object :: "kobj \<Rightarrow> kernel \<Rightarrow> kernel" where
  "unlink_object ob k =
     k\<lparr>objects := (objects k)(ob := (objects k ob)\<lparr>obj_type := 0\<rparr>),
       object_container := \<lambda>c. removeAll ob (object_container k c)\<rparr>"

definition rt_object_init :: "kobj \<Rightarrow> obj_class \<Rightarrow> u8 list \<Rightarrow> kernel \<Rightarrow> kernel option" where
  "rt_object_init ob cls name k = do {
     let k1 = rt_enter_critical k;
     rt_assert (ob \<notin> set (object_container k1 cls));
     k2 \<leftarrow> rt_exit_critical k1;
     nm \<leftarrow> rt_strncpy name RT_NAME_MAX;
     Some (attach_object ob cls (class_code cls OR RT_Object_Class_Static) nm k2)
   }"

definition rt_object_detach :: "kobj \<Rightarrow> kernel \<Rightarrow> kernel" where
  "rt_object_detach ob k = unlink_object ob k"

definition rt_object_allocate ::
    "kobj option \<Rightarrow> obj_class \<Rightarrow> u8 list \<Rightarrow> kernel \<Rightarrow> (kobj option \<times> kernel) option" where
  "rt_object_allocate mem cls name k = do {
     rt_assert (interrupt_nest k = 0);
     case mem of
       None \<Rightarrow> Some (None, k)
     | Some ob \<Rightarrow> do {
         nm \<leftarrow> rt_strncpy name RT_NAME_MAX;
         Some (Some ob, attach_object ob cls (class_code cls) nm k)
       }
   }"

definition rt_object_is_systemobject :: "kobj \<Rightarrow> kernel \<Rightarrow> bool" where
  "rt_object_is_systemobject ob k \<longleftrightarrow> obj_type (objects k ob) AND RT_Object_Class_Static \<noteq> 0"

definition rt_object_get_type :: "kobj \<Rightarrow> kernel \<Rightarrow> u8" where
  "rt_object_get_type ob k = obj_type (objects k ob) AND NOT RT_Object_Class_Static"

definition rt_object_delete :: "kobj \<Rightarrow> kernel \<Rightarrow> kernel option" where
  "rt_object_delete ob k = do {
     rt_assert (\<not> rt_object_is_systemobject ob k);
     Some (unlink_object ob k)
   }"

text \<open>The search loop: the first object whose name agrees with \<open>name\<close> on 8 bytes.\<close>

fun find_by_name :: "kernel \<Rightarrow> u8 list \<Rightarrow> kobj list \<Rightarrow> kobj option option" where
  "find_by_name k name [] = Some None"
| "find_by_name k name (ob # obs) = do {
     r \<leftarrow> rt_strncmp (obj_name (objects k ob)) name RT_NAME_MAX;
     if r = 0 then Some (Some ob) else find_by_name k name obs
   }"

definition rt_object_find :: "u8 list \<Rightarrow> u8 \<Rightarrow> kernel \<Rightarrow> (kobj option \<times> kernel) option" where
  "rt_object_find name ty k =
     (if uint ty > 12 then Some (None, k)
      else do {
        rt_assert (interrupt_nest k = 0);
        let k1 = rt_enter_critical k;
        cls \<leftarrow> rt_object_get_information ty;
        r \<leftarrow> find_by_name k1 name (object_container k1 cls);
        k2 \<leftarrow> rt_exit_critical k1;
        Some (r, k2)
      })"

section \<open>Lemmas\<close>

text \<open>The registry does not touch scheduling state.\<close>

lemma attach_object_sched [simp]:
  "threads (attach_object ob cls ty nm k) = threads k"
  "lists (attach_object ob cls ty nm k) = lists k"
  "ready_priority_group (attach_object ob cls ty nm k) = ready_priority_group k"
  "current_thread (attach_object ob cls ty nm k) = current_thread k"
  "scheduler_lock_nest (attach_object ob cls ty nm k) = scheduler_lock_nest k"
  "timer_list (attach_object ob cls ty nm k) = timer_list k"
  "timers (attach_object ob cls ty nm k) = timers k"
  "tick (attach_object ob cls ty nm k) = tick k"
  by (simp_all add: attach_object_def)

lemma unlink_object_sched [simp]:
  "threads (unlink_object ob k) = threads k"
  "lists (unlink_object ob k) = lists k"
  "ready_priority_group (unlink_object ob k) = ready_priority_group k"
  "current_thread (unlink_object ob k) = current_thread k"
  "scheduler_lock_nest (unlink_object ob k) = scheduler_lock_nest k"
  "timer_list (unlink_object ob k) = timer_list k"
  "timers (unlink_object ob k) = timers k"
  "tick (unlink_object ob k) = tick k"
  by (simp_all add: unlink_object_def)

lemma sched_inv_cong:
  assumes "sched_inv D k" "threads k' = threads k" "lists k' = lists k"
    "ready_priority_group k' = ready_priority_group k"
  shows "sched_inv D k'"
  using assms
  by (simp add: sched_inv_def links_ok_def bitmap_ok_def ready_ok_def stat_of_def)

text \<open>The registry invariant: an object is in one container at most once, under the type
  of that container; names fill their field.\<close>

definition registry_inv :: "kernel \<Rightarrow> bool" where
  "registry_inv k \<longleftrightarrow> (\<forall>c. distinct (object_container k c)) \<and>
     (\<forall>c. \<forall>ob \<in> set (object_container k c).
        obj_type (objects k ob) AND NOT RT_Object_Class_Static = class_code c \<and>
        length (obj_name (objects k ob)) = RT_NAME_MAX)"

lemma class_code_inj: "class_code c = class_code d \<longleftrightarrow> c = d"
  by (cases c; cases d) simp_all

lemma class_code_static:
  "(class_code c OR RT_Object_Class_Static) AND NOT RT_Object_Class_Static = class_code c"
  "class_code c AND NOT RT_Object_Class_Static = class_code c"
  "class_code c \<noteq> 0"
  by (cases c, simp_all)+

lemma registry_unique:
  "registry_inv k \<Longrightarrow> ob \<in> set (object_container k c) \<Longrightarrow> ob \<in> set (object_container k d) \<Longrightarrow> c = d"
  unfolding registry_inv_def by (metis class_code_inj)

lemma unlink_registry: "registry_inv k \<Longrightarrow> registry_inv (unlink_object ob k)"
  by (auto simp: registry_inv_def unlink_object_def distinct_removeAll)

lemma attach_registry:
  assumes "registry_inv k" "\<And>d. ob \<notin> set (object_container k d)" "length nm = RT_NAME_MAX"
    "ty AND NOT RT_Object_Class_Static = class_code cls"
  shows "registry_inv (attach_object ob cls ty nm k)"
  using assms by (auto simp: registry_inv_def attach_object_def)

lemma rt_object_get_information_code: "rt_object_get_information (class_code c) = Some c"
  by (cases c) (simp_all add: rt_object_get_information_def rt_object_container_def)

end
