(* ===== verification/Timer.thy ===== *)
theory Timer
  imports KObject
begin

text \<open>
  The timers, \<^verbatim>\<open>rt-thread/src/timer.c\<close>, with one skip-list level and no soft timers as
  rtconfig.h and rtdef.h have it: one list, ordered by the tick the timers run out, on a
  32-bit tick counter that wraps. \<^verbatim>\<open>rt_timer_check\<close>, which calls the timeout functions, is
  in \<^verbatim>\<open>Clock\<close>.
\<close>

section \<open>Operations\<close>

abbreviation timer_of :: "kernel \<Rightarrow> timer_id \<Rightarrow> timer" where
  "timer_of k i \<equiv> timers k i"

definition upd_timer :: "timer_id \<Rightarrow> (timer \<Rightarrow> timer) \<Rightarrow> kernel \<Rightarrow> kernel" where
  "upd_timer i f k = k\<lparr>timers := (timers k)(i := f (timers k i))\<rparr>"

definition set_tflag :: "timer_id \<Rightarrow> u8 \<Rightarrow> kernel \<Rightarrow> kernel" where
  "set_tflag i b = upd_timer i (\<lambda>tm. tm\<lparr>tm_flag := tm_flag tm OR b\<rparr>)"

definition clear_tflag :: "timer_id \<Rightarrow> u8 \<Rightarrow> kernel \<Rightarrow> kernel" where
  "clear_tflag i b = upd_timer i (\<lambda>tm. tm\<lparr>tm_flag := tm_flag tm AND NOT b\<rparr>)"

definition tm_activated :: "kernel \<Rightarrow> timer_id \<Rightarrow> bool" where
  "tm_activated k i \<longleftrightarrow> tm_flag (timers k i) AND RT_TIMER_FLAG_ACTIVATED \<noteq> 0"

definition tm_periodic :: "kernel \<Rightarrow> timer_id \<Rightarrow> bool" where
  "tm_periodic k i \<longleftrightarrow> tm_flag (timers k i) AND RT_TIMER_FLAG_PERIODIC \<noteq> 0"

text \<open>\<^verbatim>\<open>_rt_timer_remove\<close>.\<close>

definition timer_remove :: "timer_id \<Rightarrow> kernel \<Rightarrow> kernel" where
  "timer_remove i k = k\<lparr>timer_list := removeAll i (timer_list k)\<rparr>"

definition timer_init_core :: "timer_id \<Rightarrow> u32 \<Rightarrow> u8 \<Rightarrow> kernel \<Rightarrow> kernel" where
  "timer_init_core i time flag =
     upd_timer i (\<lambda>tm. \<lparr>tm_flag = flag AND NOT RT_TIMER_FLAG_ACTIVATED,
       tm_init_tick = time, tm_timeout_tick = 0\<rparr>)"

definition rt_timer_init :: "timer_id \<Rightarrow> u8 list \<Rightarrow> u32 \<Rightarrow> u8 \<Rightarrow> kernel \<Rightarrow> kernel option" where
  "rt_timer_init i name time flag k = do {
     k1 \<leftarrow> rt_object_init (OTimer i) Class_Timer name k;
     Some (timer_init_core i time flag k1)
   }"

definition rt_timer_detach :: "timer_id \<Rightarrow> kernel \<Rightarrow> kernel option" where
  "rt_timer_detach i k = do {
     rt_assert (rt_object_is_systemobject (OTimer i) k);
     Some (rt_object_detach (OTimer i) (timer_remove i k))
   }"

definition rt_timer_create ::
    "nat option \<Rightarrow> u8 list \<Rightarrow> u32 \<Rightarrow> u8 \<Rightarrow> kernel \<Rightarrow> (nat option \<times> kernel) option" where
  "rt_timer_create mem name time flag k = do {
     (r, k1) \<leftarrow> rt_object_allocate (map_option (OTimer \<circ> TUser) mem) Class_Timer name k;
     case mem of None \<Rightarrow> Some (None, k1)
     | Some i \<Rightarrow> Some (Some i, timer_init_core (TUser i) time flag k1)
   }"

definition rt_timer_delete :: "timer_id \<Rightarrow> kernel \<Rightarrow> kernel option" where
  "rt_timer_delete i k = do {
     rt_assert (\<not> rt_object_is_systemobject (OTimer i) k);
     rt_object_delete (OTimer i) (timer_remove i k)
   }"

text \<open>
  The insertion loop of \<^verbatim>\<open>rt_timer_start\<close>: past timers that run out at the same tick, stop
  before the first one that runs out later, where later is a wrapped difference below
  \<^verbatim>\<open>RT_TICK_MAX / 2\<close>. \<open>tt\<close> gives the timeout ticks.
\<close>

fun insert_timer :: "(timer_id \<Rightarrow> u32) \<Rightarrow> timer_id \<Rightarrow> timer_id list \<Rightarrow> timer_id list" where
  "insert_timer tt new [] = [new]"
| "insert_timer tt new (t # ts) =
     (if tt t - tt new = 0 then t # insert_timer tt new ts
      else if tt t - tt new < TICK_HALF then new # t # ts
      else t # insert_timer tt new ts)"

definition rt_timer_start :: "timer_id \<Rightarrow> kernel \<Rightarrow> kernel option" where
  "rt_timer_start i k = do {
     let k1 = clear_tflag i RT_TIMER_FLAG_ACTIVATED (timer_remove i k);
     rt_assert (tm_init_tick (timers k1 i) < TICK_HALF);
     let k2 = upd_timer i (\<lambda>tm. tm\<lparr>tm_timeout_tick := tick k1 + tm_init_tick tm\<rparr>) k1;
     let k3 = k2\<lparr>timer_list :=
                   insert_timer (\<lambda>t. tm_timeout_tick (timers k2 t)) i (timer_list k2)\<rparr>;
     Some (set_tflag i RT_TIMER_FLAG_ACTIVATED k3)
   }"

definition rt_timer_stop :: "timer_id \<Rightarrow> kernel \<Rightarrow> rt_err \<times> kernel" where
  "rt_timer_stop i k =
     (if \<not> tm_activated k i then (- RT_ERROR, k)
      else (RT_EOK, clear_tflag i RT_TIMER_FLAG_ACTIVATED (timer_remove i k)))"

datatype timer_cmd = CTRL_SET_TIME | CTRL_GET_TIME | CTRL_SET_ONESHOT | CTRL_SET_PERIODIC

text \<open>The argument is a tick that the command reads or writes.\<close>

definition rt_timer_control :: "timer_id \<Rightarrow> timer_cmd \<Rightarrow> u32 \<Rightarrow> kernel \<Rightarrow> u32 \<times> kernel" where
  "rt_timer_control i cmd arg k =
     (case cmd of
        CTRL_GET_TIME \<Rightarrow> (tm_init_tick (timers k i), k)
      | CTRL_SET_TIME \<Rightarrow> (arg, upd_timer i (\<lambda>tm. tm\<lparr>tm_init_tick := arg\<rparr>) k)
      | CTRL_SET_ONESHOT \<Rightarrow> (arg, clear_tflag i RT_TIMER_FLAG_PERIODIC k)
      | CTRL_SET_PERIODIC \<Rightarrow> (arg, set_tflag i RT_TIMER_FLAG_PERIODIC k))"

definition rt_timer_next_timeout_tick :: "kernel \<Rightarrow> u32" where
  "rt_timer_next_timeout_tick k =
     (case timer_list k of [] \<Rightarrow> RT_TICK_MAX | t # _ \<Rightarrow> tm_timeout_tick (timers k t))"

definition rt_system_timer_init :: "kernel \<Rightarrow> kernel" where
  "rt_system_timer_init k = k\<lparr>timer_list := []\<rparr>"

text \<open>\<^verbatim>\<open>rt_timer_control(&thread->thread_timer, RT_TIMER_CTRL_SET_TIME, &time)\<close> followed by
  \<^verbatim>\<open>rt_timer_start\<close>, as every blocking call does.\<close>

definition start_thread_timer :: "nat \<Rightarrow> u32 \<Rightarrow> kernel \<Rightarrow> kernel option" where
  "start_thread_timer t time k =
     rt_timer_start (TThread t) (snd (rt_timer_control (TThread t) CTRL_SET_TIME time k))"

section \<open>The order of the timer list\<close>

text \<open>Ticks left until a timer runs out, seen from tick \<open>b\<close>.\<close>

definition ticks_left :: "u32 \<Rightarrow> (timer_id \<Rightarrow> u32) \<Rightarrow> timer_id \<Rightarrow> nat" where
  "ticks_left b tt i = unat (tt i - b)"

definition timers_sorted :: "u32 \<Rightarrow> (timer_id \<Rightarrow> u32) \<Rightarrow> timer_id list \<Rightarrow> bool" where
  "timers_sorted b tt ts \<longleftrightarrow> distinct ts \<and> (\<forall>t \<in> set ts. ticks_left b tt t \<le> unat TICK_HALF) \<and>
     sorted_wrt (\<lambda>x y. ticks_left b tt x \<le> ticks_left b tt y) ts"

lemma wrapped_later:
  assumes "ticks_left b tt x \<le> unat TICK_HALF" "ticks_left b tt y \<le> unat TICK_HALF"
    "ticks_left b tt x < ticks_left b tt y + unat TICK_HALF"
  shows "(tt x - tt y \<noteq> 0 \<and> tt x - tt y < TICK_HALF) \<longleftrightarrow> ticks_left b tt y < ticks_left b tt x"
proof -
  have e: "tt x - tt y = (tt x - b) - (tt y - b)" by simp
  show ?thesis
  proof (cases "tt y - b \<le> tt x - b")
    case True
    then have u: "unat (tt x - tt y) = ticks_left b tt x - ticks_left b tt y"
      unfolding e ticks_left_def by (rule unat_sub)
    have le: "ticks_left b tt y \<le> ticks_left b tt x"
      using True by (simp add: ticks_left_def word_le_nat_alt)
    have "tt x - tt y \<noteq> 0 \<longleftrightarrow> 0 < unat (tt x - tt y)" by (simp add: unat_gt_0)
    moreover have "tt x - tt y < TICK_HALF \<longleftrightarrow> unat (tt x - tt y) < unat TICK_HALF"
      by (rule word_less_nat_alt)
    ultimately show ?thesis unfolding u using assms(3) le by linarith
  next
    case False
    have lt: "ticks_left b tt x < ticks_left b tt y"
      using False by (simp add: ticks_left_def word_le_nat_alt)
    have sub: "unat (X - Y) = 2 ^ 32 + unat X - unat Y" if "\<not> Y \<le> X" for X Y :: u32
      using that by (simp add: unat_sub_if_size word_le_nat_alt word_size)
    have "unat (tt x - tt y) = 2 ^ 32 + ticks_left b tt x - ticks_left b tt y"
      unfolding e ticks_left_def by (rule sub) (rule False)
    then have "\<not> tt x - tt y < TICK_HALF"
      using assms lt by (simp add: word_less_nat_alt)
    then show ?thesis using lt by simp
  qed
qed

abbreviation later_than :: "(timer_id \<Rightarrow> u32) \<Rightarrow> timer_id \<Rightarrow> timer_id \<Rightarrow> bool" where
  "later_than tt new x \<equiv> tt x - tt new \<noteq> 0 \<and> tt x - tt new < TICK_HALF"

lemma insert_timer_split:
  "\<exists>xs ys. ts = xs @ ys \<and> insert_timer tt new ts = xs @ new # ys \<and>
    (\<forall>x \<in> set xs. \<not> later_than tt new x) \<and> (\<forall>y zs. ys = y # zs \<longrightarrow> later_than tt new y)"
proof (induction ts)
  case Nil
  show ?case by (rule exI [of _ "[]"]) simp
next
  case (Cons t ts)
  show ?case
  proof (cases "later_than tt new t")
    case True
    then show ?thesis by (intro exI [of _ "[]"] exI [of _ "t # ts"]) simp
  next
    case False
    obtain xs ys where s: "ts = xs @ ys" "insert_timer tt new ts = xs @ new # ys"
      "\<forall>x \<in> set xs. \<not> later_than tt new x" "\<forall>y zs. ys = y # zs \<longrightarrow> later_than tt new y"
      using Cons.IH by blast
    have "insert_timer tt new (t # ts) = (t # xs) @ new # ys" using False s(2) by auto
    then show ?thesis using s False by (intro exI [of _ "t # xs"] exI [of _ ys]) auto
  qed
qed

lemma set_insert_timer [simp]: "set (insert_timer tt new ts) = insert new (set ts)"
  by (induction ts) auto

lemma distinct_insert_timer: "distinct ts \<Longrightarrow> new \<notin> set ts \<Longrightarrow> distinct (insert_timer tt new ts)"
  by (induction ts) auto

text \<open>The insertion puts the new timer behind those that run out no later, before the rest.\<close>

lemma insert_timer_order:
  assumes s: "timers_sorted b tt ts" and new: "ticks_left b tt new \<le> unat TICK_HALF"
    and range: "\<And>x. x \<in> set ts \<Longrightarrow> ticks_left b tt x < ticks_left b tt new + unat TICK_HALF"
  shows "insert_timer tt new ts =
    filter (\<lambda>x. ticks_left b tt x \<le> ticks_left b tt new) ts @ new #
    filter (\<lambda>x. \<not> ticks_left b tt x \<le> ticks_left b tt new) ts"
proof -
  let ?l = "ticks_left b tt"
  obtain xs ys where sp: "ts = xs @ ys" "insert_timer tt new ts = xs @ new # ys"
    "\<forall>x \<in> set xs. \<not> later_than tt new x" "\<forall>y zs. ys = y # zs \<longrightarrow> later_than tt new y"
    using insert_timer_split [of ts tt new] by blast
  have later: "later_than tt new x \<longleftrightarrow> ?l new < ?l x" if "x \<in> set ts" for x
    by (rule wrapped_later) (use s new range that in \<open>auto simp: timers_sorted_def\<close>)
  have le: "?l x \<le> ?l new" if "x \<in> set xs" for x
    using sp(3) later [of x] that sp(1) by auto
  have gt: "?l new < ?l y" if y: "y \<in> set ys" for y
  proof -
    obtain z zs where ys: "ys = z # zs" using y by (cases ys) auto
    have "?l new < ?l z" using sp(4) later [of z] sp(1) ys by auto
    moreover have "?l z \<le> ?l y"
      using s y sp(1) ys by (auto simp: timers_sorted_def sorted_wrt_append)
    ultimately show ?thesis by linarith
  qed
  have "filter (\<lambda>x. ?l x \<le> ?l new) ts = xs" "filter (\<lambda>x. \<not> ?l x \<le> ?l new) ts = ys"
    using le gt unfolding sp(1) by (auto simp: filter_empty_conv not_le dest!: le intro!: filter_True)
  then show ?thesis using sp(2) by simp
qed

lemma insert_timer_sorted:
  assumes s: "timers_sorted b tt ts" and new: "ticks_left b tt new \<le> unat TICK_HALF"
    and range: "\<And>x. x \<in> set ts \<Longrightarrow> ticks_left b tt x < ticks_left b tt new + unat TICK_HALF"
    and fresh: "new \<notin> set ts"
  shows "timers_sorted b tt (insert_timer tt new ts)"
proof -
  have "sorted_wrt (\<lambda>x y. ticks_left b tt x \<le> ticks_left b tt y) (insert_timer tt new ts)"
    unfolding insert_timer_order [OF s new range, simplified]
    using s by (auto simp: timers_sorted_def sorted_wrt_append intro!: sorted_wrt_filter)
  then show ?thesis
    using s new fresh distinct_insert_timer [of ts new tt] by (auto simp: timers_sorted_def)
qed

section \<open>The timer invariant\<close>

text \<open>
  \<open>timer_inv d k\<close>: seen from tick \<open>tick - d\<close>, the list is ordered and every timer runs out
  less than half the tick range ahead; a thread timer in the list is marked active and its
  thread is suspended. \<open>d\<close> is 0 between ticks and 1 inside the tick interrupt, where the
  counter has moved on but the expired timers have not been taken out yet. (A timer of the
  application can be in the list without being marked active, see \<^verbatim>\<open>Clock\<close>.)
\<close>

abbreviation timeout_of :: "kernel \<Rightarrow> timer_id \<Rightarrow> u32" where
  "timeout_of k i \<equiv> tm_timeout_tick (timers k i)"

definition timer_inv :: "nat \<Rightarrow> kernel \<Rightarrow> bool" where
  "timer_inv d k \<longleftrightarrow>
     timers_sorted (tick k - of_nat d) (timeout_of k) (timer_list k) \<and>
     (\<forall>i \<in> set (timer_list k).
        ticks_left (tick k - of_nat d) (timeout_of k) i < unat TICK_HALF + d) \<and>
     (\<forall>t. TThread t \<in> set (timer_list k) \<longrightarrow> tm_activated k (TThread t) \<and> th_suspended k t)"

lemma upd_timer_simps [simp]:
  "timers (upd_timer i f k) = (timers k)(i := f (timers k i))"
  "timer_list (upd_timer i f k) = timer_list k"
  "timers (timer_remove i k) = timers k"
  "timer_list (timer_remove i k) = removeAll i (timer_list k)"
  by (simp_all add: upd_timer_def timer_remove_def)

text \<open>The timer operations change no field but \<open>timers\<close> and \<open>timer_list\<close>.\<close>

definition timers_only :: "kernel \<Rightarrow> kernel \<Rightarrow> bool" where
  "timers_only k k' \<longleftrightarrow> threads k' = threads k \<and>
     lists k' = lists k \<and>
     ready_priority_group k' = ready_priority_group k \<and>
     current_thread k' = current_thread k \<and>
     current_priority k' = current_priority k \<and>
     scheduler_lock_nest k' = scheduler_lock_nest k \<and>
     interrupt_nest k' = interrupt_nest k \<and>
     tick k' = tick k \<and>
     objects k' = objects k \<and>
     object_container k' = object_container k \<and>
     sems k' = sems k \<and>
     mutexes k' = mutexes k \<and>
     events k' = events k \<and>
     mailboxes k' = mailboxes k \<and>
     msgqueues k' = msgqueues k \<and>
     mempools k' = mempools k \<and> dataqueues k' = dataqueues k \<and>
     completions k' = completions k \<and> wqueues k' = wqueues k"

lemma timers_only_refl: "timers_only k k"
  by (simp add: timers_only_def)

lemma timers_only_trans: "timers_only k k' \<Longrightarrow> timers_only k' k'' \<Longrightarrow> timers_only k k''"
  by (simp add: timers_only_def)

lemma timers_only_steps [simp]:
  "timers_only k (upd_timer i f k)" "timers_only k (timer_remove i k)"
  by (simp_all add: timers_only_def upd_timer_def timer_remove_def)

lemma timers_only_frame:
  assumes "timers_only k k'"
  shows "threads k' = threads k" "lists k' = lists k" "ready_priority_group k' = ready_priority_group
    k" "current_thread k' = current_thread k" "current_priority k' = current_priority k"
    "scheduler_lock_nest k' = scheduler_lock_nest k" "interrupt_nest k' = interrupt_nest k" "tick
    k' = tick k" "objects k' = objects k" "object_container k' = object_container k" "sems k' =
    sems k" "mutexes k' = mutexes k" "events k' = events k" "mailboxes k' = mailboxes k" "msgqueues
    k' = msgqueues k" "mempools k' = mempools k" "dataqueues k' = dataqueues k"
    "completions k' = completions k" "wqueues k' = wqueues k"
  using assms by (simp_all add: timers_only_def)

lemma timers_only_sched: "timers_only k k' \<Longrightarrow> sched_inv D k' = sched_inv D k"
  using sched_inv_cong [of D k k'] sched_inv_cong [of D k' k]
  by (auto simp: timers_only_frame)

lemma timer_stop_only: "timers_only k (snd (rt_timer_stop i k))"
  by (simp add: rt_timer_stop_def clear_tflag_def timers_only_def upd_timer_def timer_remove_def)

lemma timer_control_only: "timers_only k (snd (rt_timer_control i cmd arg k))"
  by (cases cmd) (simp_all add: rt_timer_control_def clear_tflag_def set_tflag_def timers_only_refl)

text \<open>\<^verbatim>\<open>rt_timer_start\<close> in one update.\<close>

lemma rt_timer_start_eq:
  "rt_timer_start i k =
    (if tm_init_tick (timers k i) < TICK_HALF
     then let T = (timers k)(i := (timers k i)
                \<lparr>tm_flag := tm_flag (timers k i) AND NOT RT_TIMER_FLAG_ACTIVATED OR
                   RT_TIMER_FLAG_ACTIVATED,
                 tm_timeout_tick := tick k + tm_init_tick (timers k i)\<rparr>)
          in Some (k\<lparr>timers := T, timer_list :=
               insert_timer (\<lambda>t. tm_timeout_tick (T t)) i (removeAll i (timer_list k))\<rparr>)
     else None)"
proof (cases "tm_init_tick (timers k i) < TICK_HALF")
  case True
  define k2 where "k2 = upd_timer i (\<lambda>tm. tm\<lparr>tm_timeout_tick := tick k + tm_init_tick tm\<rparr>)
    (clear_tflag i RT_TIMER_FLAG_ACTIVATED (timer_remove i k))"
  define T where "T = (timers k)(i := (timers k i)
    \<lparr>tm_flag := tm_flag (timers k i) AND NOT RT_TIMER_FLAG_ACTIVATED OR RT_TIMER_FLAG_ACTIVATED,
     tm_timeout_tick := tick k + tm_init_tick (timers k i)\<rparr>)"
  have e: "(\<lambda>t. tm_timeout_tick (timers k2 t)) = (\<lambda>t. tm_timeout_tick (T t))"
    by (rule ext) (simp add: k2_def T_def clear_tflag_def)
  have tick: "tick (clear_tflag i RT_TIMER_FLAG_ACTIVATED (timer_remove i k)) = tick k"
    by (simp add: clear_tflag_def upd_timer_def timer_remove_def)
  have "rt_timer_start i k = Some (set_tflag i RT_TIMER_FLAG_ACTIVATED
      (k2\<lparr>timer_list := insert_timer (\<lambda>t. tm_timeout_tick (timers k2 t)) i (timer_list k2)\<rparr>))"
    using True unfolding rt_timer_start_def Let_def tick k2_def [symmetric]
    by (simp add: clear_tflag_def)
  also have "set_tflag i RT_TIMER_FLAG_ACTIVATED
      (k2\<lparr>timer_list := insert_timer (\<lambda>t. tm_timeout_tick (timers k2 t)) i (timer_list k2)\<rparr>) =
      k\<lparr>timers := T, timer_list := insert_timer (\<lambda>t. tm_timeout_tick (T t)) i (removeAll i (timer_list k))\<rparr>"
    unfolding e
    by (rule kernel.equality)
      (auto simp: set_tflag_def k2_def T_def clear_tflag_def upd_timer_def timer_remove_def
        intro!: ext timer.equality)
  finally show ?thesis using True by (simp add: T_def Let_def)
next
  case False
  then show ?thesis by (simp add: rt_timer_start_def clear_tflag_def Let_def)
qed

lemma timer_start_only: "rt_timer_start i k = Some k' \<Longrightarrow> timers_only k k'"
  by (auto simp: rt_timer_start_eq timers_only_def Let_def split: if_splits)

lemma tm_activated_simps:
  "tm_activated (set_tflag i RT_TIMER_FLAG_ACTIVATED k) j \<longleftrightarrow> i = j \<or> tm_activated k j"
  "tm_activated (clear_tflag i RT_TIMER_FLAG_ACTIVATED k) j \<longleftrightarrow> i \<noteq> j \<and> tm_activated k j"
proof -
  have a: "(x OR 1) AND 1 = (1 :: u8)" for x by (rule bit_word_eqI) (auto simp: bit_simps)
  have b: "(x AND - 2) AND 1 = (0 :: u8)" for x by (simp add: and.assoc)
  show "tm_activated (set_tflag i RT_TIMER_FLAG_ACTIVATED k) j \<longleftrightarrow> i = j \<or> tm_activated k j"
    "tm_activated (clear_tflag i RT_TIMER_FLAG_ACTIVATED k) j \<longleftrightarrow> i \<noteq> j \<and> tm_activated k j"
    by (auto simp: tm_activated_def set_tflag_def clear_tflag_def a b)
qed

lemma timers_sorted_remove:
  "timers_sorted b tt ts \<Longrightarrow> timers_sorted b tt (removeAll i ts)"
  by (auto simp: timers_sorted_def distinct_removeAll removeAll_filter_not_eq
      intro: sorted_wrt_filter)

lemma timers_sorted_cong:
  "timers_sorted b tt ts \<Longrightarrow> (\<And>i. i \<in> set ts \<Longrightarrow> tt' i = tt i) \<Longrightarrow> timers_sorted b tt' ts"
  unfolding timers_sorted_def ticks_left_def
  by (auto intro: sorted_wrt_mono_rel [rotated])

lemma timer_remove_inv: "timer_inv d k \<Longrightarrow> timer_inv d (timer_remove i k)"
  using timers_sorted_remove [of "tick k - of_nat d" "timeout_of k" "timer_list k" i]
  by (simp add: timer_inv_def tm_activated_def stat_of_def timers_only_frame [of k "timer_remove i k"])

lemma upd_unlinked_timer_inv:
  assumes inv: "timer_inv d k" and out: "i \<notin> set (timer_list k)"
  shows "timer_inv d (upd_timer i f k)"
proof -
  have "timers_sorted (tick k - of_nat d) (timeout_of (upd_timer i f k)) (timer_list k)"
    by (rule timers_sorted_cong [of _ "timeout_of k"]) (use inv out in \<open>auto simp: timer_inv_def\<close>)
  moreover have "ticks_left b (timeout_of (upd_timer i f k)) j = ticks_left b (timeout_of k) j"
    if "j \<in> set (timer_list k)" for b j
    using that out by (auto simp: ticks_left_def)
  moreover have "tm_activated (upd_timer i f k) j = tm_activated k j"
    if "j \<in> set (timer_list k)" for j
    using that out by (auto simp: tm_activated_def)
  ultimately show ?thesis
    using inv by (simp add: timer_inv_def stat_of_def timers_only_frame [of k "upd_timer i f k"])
qed

lemma timer_stop_inv: "timer_inv d k \<Longrightarrow> timer_inv d (snd (rt_timer_stop i k))"
  by (auto simp: rt_timer_stop_def clear_tflag_def intro!: upd_unlinked_timer_inv timer_remove_inv)

lemma timer_stop_unlinked:
  assumes "timer_inv d k" shows "TThread t \<notin> set (timer_list (snd (rt_timer_stop (TThread t) k)))"
  using assms by (auto simp: rt_timer_stop_def clear_tflag_def timer_inv_def)

text \<open>Starting a timer: it succeeds for times below half the range, and the timer is put
  behind all timers that run out no later.\<close>

lemma timer_start_inv:
  assumes inv: "timer_inv d k" and d: "d \<le> 1" and time: "tm_init_tick (timers k i) < TICK_HALF"
    and sus: "\<And>t. i = TThread t \<Longrightarrow> th_suspended k t"
  obtains k' where "rt_timer_start i k = Some k'" "timer_inv d k'"
    "set (timer_list k') = insert i (set (timer_list k))" "tm_activated k' i"
    "timeout_of k' i = tick k + tm_init_tick (timers k i)"
    "timer_list k' = insert_timer (timeout_of k') i (removeAll i (timer_list k))"
proof -
  let ?b = "tick k - of_nat d" and ?l = "removeAll i (timer_list k)"
  define T where "T = (timers k)(i := (timers k i)
    \<lparr>tm_flag := tm_flag (timers k i) AND NOT RT_TIMER_FLAG_ACTIVATED OR RT_TIMER_FLAG_ACTIVATED,
     tm_timeout_tick := tick k + tm_init_tick (timers k i)\<rparr>)"
  define k' where "k' = k\<lparr>timers := T, timer_list := insert_timer (\<lambda>t. tm_timeout_tick (T t)) i ?l\<rparr>"
  have start: "rt_timer_start i k = Some k'"
    using time by (simp add: rt_timer_start_eq k'_def T_def Let_def)
  have inv2: "timer_inv d (k\<lparr>timers := T, timer_list := ?l\<rparr>)"
  proof -
    have "k\<lparr>timers := T, timer_list := ?l\<rparr> = upd_timer i (\<lambda>_. T i) (timer_remove i k)"
      by (simp add: T_def upd_timer_def timer_remove_def)
    then show ?thesis using upd_unlinked_timer_inv [OF timer_remove_inv [OF inv]] by simp
  qed
  have tt: "timeout_of k' = (\<lambda>t. tm_timeout_tick (T t))" "timeout_of k' i = tick k + tm_init_tick (timers k i)"
    by (auto simp: k'_def T_def)
  have t: "unat (tm_init_tick (timers k i)) < unat TICK_HALF" using time by (simp add: word_less_nat_alt)
  have left: "ticks_left ?b (timeout_of k') i = unat (tm_init_tick (timers k i)) + d"
  proof -
    have "timeout_of k' i - ?b = tm_init_tick (timers k i) + of_nat d" by (simp add: tt)
    then have "ticks_left ?b (timeout_of k') i = unat (tm_init_tick (timers k i) + of_nat d)"
      by (simp only: ticks_left_def)
    moreover have "unat (of_nat d :: u32) = d" using d by (cases d) simp_all
    ultimately show ?thesis using d t by (simp add: unat_word_ariths)
  qed
  have old: "ticks_left ?b (timeout_of k') x < unat TICK_HALF + d" if "x \<in> set ?l" for x
    using inv2 that by (simp add: timer_inv_def tt)
  have "timers_sorted ?b (timeout_of k') (insert_timer (timeout_of k') i ?l)"
  proof (rule insert_timer_sorted)
    show "timers_sorted ?b (timeout_of k') ?l" using inv2 by (simp add: timer_inv_def tt)
    show "ticks_left ?b (timeout_of k') i \<le> unat TICK_HALF" using left t d by simp
    fix x assume "x \<in> set ?l"
    then show "ticks_left ?b (timeout_of k') x < ticks_left ?b (timeout_of k') i + unat TICK_HALF"
      using old [of x] left by simp
  qed simp
  moreover have l': "timer_list k' = insert_timer (timeout_of k') i ?l" by (simp add: k'_def tt)
  moreover have act: "tm_activated k' i"
  proof -
    have "(x OR 1) AND 1 = (1 :: u8)" for x by (rule bit_word_eqI) (auto simp: bit_simps)
    then show ?thesis by (simp add: tm_activated_def k'_def T_def)
  qed
  moreover have "tm_activated k' (TThread t) \<and> th_suspended k' t" if "TThread t \<in> set (timer_list k')" for t
  proof (cases "TThread t = i")
    case True
    then show ?thesis using act sus by (simp add: k'_def stat_of_def)
  next
    case False
    then have "TThread t \<in> set ?l" using that by (auto simp: l')
    then show ?thesis using inv2 by (auto simp: timer_inv_def k'_def stat_of_def tm_activated_def)
  qed
  moreover have "ticks_left ?b (timeout_of k') x < unat TICK_HALF + d" if "x \<in> set (timer_list k')" for x
    using that old [of x] left t by (cases "x = i") (auto simp: l')
  moreover have "tick k' = tick k" by (simp add: k'_def)
  ultimately have "timer_inv d k'" by (simp add: timer_inv_def)
  then show ?thesis using start act l' tt by (intro that [of k']) auto
qed

end
