(* ===== verification/Thread.thy ===== *)
theory Thread
  imports Timer
begin

text \<open>
  The threads, \<^verbatim>\<open>rt-thread/src/thread.c\<close>, and the reclamation of dead threads in idle.c. The
  stack contents, the entry function and the hooks of the application are not modelled.

  A call that blocks runs until \<^verbatim>\<open>rt_schedule\<close> has switched to another thread; its result is
  then \<open>Blocked\<close>, and what it does when the thread runs again is a separate definition with
  the suffix \<open>_resumed\<close>. When \<^verbatim>\<open>rt_schedule\<close> does not switch (the scheduler is locked) the
  same code runs at once.
\<close>

section \<open>Operations\<close>

datatype outcome = Returned rt_err | Blocked

text \<open>What follows a call of \<^verbatim>\<open>rt_schedule\<close> in thread \<open>t\<close>.\<close>

definition after_schedule ::
    "nat \<Rightarrow> (kernel \<Rightarrow> (outcome \<times> kernel) option) \<Rightarrow> kernel \<Rightarrow> (outcome \<times> kernel) option" where
  "after_schedule t rest k =
     (if current_thread k = Some t then rest k else Some (Blocked, k))"

definition rt_thread_self :: "kernel \<Rightarrow> nat option" where
  "rt_thread_self k = current_thread k"

definition thread_init_core :: "nat \<Rightarrow> u8 list \<Rightarrow> nat \<Rightarrow> u32 \<Rightarrow> kernel \<Rightarrow> kernel option" where
  "thread_init_core t name priority tk k = do {
     rt_assert (priority < RT_THREAD_PRIORITY_MAX);
     let k1 = upd_thread t (\<lambda>th. th\<lparr>th_init_priority := priority, th_current_priority := priority,
                th_number_mask := 0, th_init_tick := tk, th_remaining_tick := tk,
                th_error := RT_EOK, th_stat := RT_THREAD_INIT, th_cleanup := False\<rparr>) k;
     rt_timer_init (TThread t) name 0 0 k1
   }"

definition rt_thread_init :: "nat \<Rightarrow> u8 list \<Rightarrow> nat \<Rightarrow> u32 \<Rightarrow> kernel \<Rightarrow> kernel option" where
  "rt_thread_init t name priority tk k = do {
     k1 \<leftarrow> rt_object_init (OThread t) Class_Thread name k;
     thread_init_core t (obj_name (objects k1 (OThread t))) priority tk k1
   }"

definition rt_thread_resume :: "nat \<Rightarrow> kernel \<Rightarrow> rt_err \<times> kernel" where
  "rt_thread_resume t k =
     (if stat_of k t \<noteq> RT_THREAD_SUSPEND then (- RT_ERROR, k)
      else let k1 = list_remove t k;
               k2 = snd (rt_timer_stop (TThread t) k1)
           in (RT_EOK, rt_schedule_insert_thread t k2))"

definition rt_thread_suspend :: "nat \<Rightarrow> kernel \<Rightarrow> rt_err \<times> kernel" where
  "rt_thread_suspend t k =
     (if stat_of k t \<noteq> RT_THREAD_READY then (- RT_ERROR, k)
      else let k1 = set_stat t (with_stat RT_THREAD_SUSPEND (th_stat (threads k t))) k;
               k2 = rt_schedule_remove_thread t k1
           in (RT_EOK, snd (rt_timer_stop (TThread t) k2)))"

definition rt_thread_startup :: "nat \<Rightarrow> kernel \<Rightarrow> kernel option" where
  "rt_thread_startup t k = do {
     rt_assert (stat_of k t = RT_THREAD_INIT);
     let k1 = upd_thread t (\<lambda>th. th\<lparr>th_current_priority := th_init_priority th,
                th_number_mask := push_bit (th_init_priority th) 1,
                th_stat := RT_THREAD_SUSPEND\<rparr>) k;
     let k2 = snd (rt_thread_resume t k1);
     if rt_thread_self k2 \<noteq> None then rt_schedule k2 else Some k2
   }"

text \<open>The common end of \<^verbatim>\<open>rt_thread_exit\<close> and \<^verbatim>\<open>rt_thread_detach\<close>: a static thread without
  cleanup leaves the registry, any other waits for the idle thread.\<close>

definition retire_thread :: "nat \<Rightarrow> kernel \<Rightarrow> kernel" where
  "retire_thread t k =
     (if rt_object_is_systemobject (OThread t) k \<and> \<not> th_cleanup (threads k t)
      then rt_object_detach (OThread t) k
      else list_insert_after LDefunct t k)"

definition rt_thread_exit :: "kernel \<Rightarrow> kernel option" where
  "rt_thread_exit k = do {
     t \<leftarrow> current_thread k;
     let k1 = set_stat t RT_THREAD_CLOSE (rt_schedule_remove_thread t k);
     k2 \<leftarrow> rt_timer_detach (TThread t) k1;
     rt_schedule (retire_thread t k2)
   }"

definition rt_thread_detach :: "nat \<Rightarrow> kernel \<Rightarrow> kernel option" where
  "rt_thread_detach t k = do {
     rt_assert (rt_object_is_systemobject (OThread t) k);
     let k1 = (if stat_of k t \<noteq> RT_THREAD_INIT then rt_schedule_remove_thread t k else k);
     k2 \<leftarrow> rt_timer_detach (TThread t) k1;
     Some (retire_thread t (set_stat t RT_THREAD_CLOSE k2))
   }"

text \<open>\<^verbatim>\<open>rt_memset(object, 0, size)\<close> of a fresh thread object.\<close>

definition zero_thread :: thread where
  "zero_thread = \<lparr>th_error = 0, th_stat = 0, th_current_priority = 0, th_init_priority = 0,
     th_number_mask = 0, th_event_set = 0, th_event_info = 0, th_init_tick = 0,
     th_remaining_tick = 0, th_cleanup = False\<rparr>"

text \<open>\<open>mem\<close>: the thread object the heap gives, \<open>stack\<close>: whether it has room for the stack.\<close>

definition rt_thread_create ::
    "nat option \<Rightarrow> bool \<Rightarrow> u8 list \<Rightarrow> nat \<Rightarrow> u32 \<Rightarrow> kernel \<Rightarrow> (nat option \<times> kernel) option" where
  "rt_thread_create mem stack name priority tk k = do {
     (ob, k1) \<leftarrow> rt_object_allocate (map_option OThread mem) Class_Thread name k;
     case mem of
       None \<Rightarrow> Some (None, k1)
     | Some t \<Rightarrow>
         let k2 = upd_thread t (\<lambda>_. zero_thread) k1 in
         if \<not> stack then do { k3 \<leftarrow> rt_object_delete (OThread t) k2; Some (None, k3) }
         else do { k3 \<leftarrow> thread_init_core t name priority tk k2; Some (Some t, k3) }
   }"

definition rt_thread_delete :: "nat \<Rightarrow> kernel \<Rightarrow> kernel option" where
  "rt_thread_delete t k = do {
     rt_assert (\<not> rt_object_is_systemobject (OThread t) k);
     let k1 = (if stat_of k t \<noteq> RT_THREAD_INIT then rt_schedule_remove_thread t k else k);
     k2 \<leftarrow> rt_timer_detach (TThread t) k1;
     Some (list_insert_after LDefunct t (set_stat t RT_THREAD_CLOSE k2))
   }"

text \<open>\<^verbatim>\<open>tlist.next != tlist.prev\<close> for a READY thread: another thread is in its ready list.\<close>

definition rt_thread_yield :: "kernel \<Rightarrow> kernel option" where
  "rt_thread_yield k = do {
     t \<leftarrow> current_thread k;
     if stat_of k t = RT_THREAD_READY \<and> length (lists k (LReady (prio_of k t))) > 1
     then rt_schedule (list_insert_before (LReady (prio_of k t)) t (list_remove t k))
     else Some k
   }"

definition rt_thread_sleep_resumed :: "nat \<Rightarrow> kernel \<Rightarrow> (outcome \<times> kernel) option" where
  "rt_thread_sleep_resumed t k =
     Some (Returned RT_EOK, if error_of k t = - RT_ETIMEOUT then set_error t RT_EOK k else k)"

definition rt_thread_sleep :: "u32 \<Rightarrow> kernel \<Rightarrow> (outcome \<times> kernel) option" where
  "rt_thread_sleep tk k = do {
     t \<leftarrow> current_thread k;
     let k1 = snd (rt_thread_suspend t k);
     k2 \<leftarrow> start_thread_timer t tk k1;
     k3 \<leftarrow> rt_schedule k2;
     after_schedule t (rt_thread_sleep_resumed t) k3
   }"

definition rt_thread_delay :: "u32 \<Rightarrow> kernel \<Rightarrow> (outcome \<times> kernel) option" where
  "rt_thread_delay tk k = rt_thread_sleep tk k"

text \<open>The new priority is a byte; above 31 the code shifts by more than the word has bits
  and indexes past the table of ready lists.\<close>

definition change_priority :: "nat \<Rightarrow> nat \<Rightarrow> kernel \<Rightarrow> kernel" where
  "change_priority t p k =
     (let setp = upd_thread t (\<lambda>th. th\<lparr>th_current_priority := p, th_number_mask := push_bit p 1\<rparr>)
      in if stat_of k t = RT_THREAD_READY
         then rt_schedule_insert_thread t (setp (rt_schedule_remove_thread t k))
         else setp k)"

datatype thread_cmd = CTRL_CHANGE_PRIORITY nat | CTRL_STARTUP | CTRL_CLOSE | CTRL_OTHER

definition rt_thread_control :: "nat \<Rightarrow> thread_cmd \<Rightarrow> kernel \<Rightarrow> kernel option" where
  "rt_thread_control t cmd k =
     (case cmd of
        CTRL_CHANGE_PRIORITY p \<Rightarrow>
          do { rt_assert (p < RT_THREAD_PRIORITY_MAX); Some (change_priority t p k) }
      | CTRL_STARTUP \<Rightarrow> rt_thread_startup t k
      | CTRL_CLOSE \<Rightarrow> rt_thread_delete t k
      | CTRL_OTHER \<Rightarrow> Some k)"

definition rt_thread_timeout :: "nat \<Rightarrow> kernel \<Rightarrow> kernel option" where
  "rt_thread_timeout t k = do {
     rt_assert (stat_of k t = RT_THREAD_SUSPEND);
     let k1 = list_remove t (set_error t (- RT_ETIMEOUT) k);
     rt_schedule (rt_schedule_insert_thread t k1)
   }"

definition rt_thread_find :: "u8 list \<Rightarrow> kernel \<Rightarrow> (kobj option \<times> kernel) option" where
  "rt_thread_find name k = do {
     let k1 = (if rt_thread_self k \<noteq> None then rt_enter_critical k else k);
     r \<leftarrow> find_by_name k1 name (object_container k1 Class_Thread);
     k2 \<leftarrow> (if rt_thread_self k1 \<noteq> None then rt_exit_critical k1 else Some k1);
     Some (r, k2)
   }"

text \<open>\<^verbatim>\<open>rt_thread_idle_excute\<close>, with the effect of the cleanup functions of the application
  as an argument. The loop removes one thread from the defunct list in each round.\<close>

partial_function (option) rt_thread_idle_excute ::
    "(nat \<Rightarrow> kernel \<Rightarrow> kernel) \<Rightarrow> kernel \<Rightarrow> kernel option" where
  "rt_thread_idle_excute cleanup k =
     (case lists k LDefunct of
        [] \<Rightarrow> Some k
      | t # _ \<Rightarrow>
          if interrupt_nest k = 0 then
            (let k1 = rt_enter_critical (list_remove t k);
                 k2 = (if th_cleanup (threads k1 t) then cleanup t k1 else k1)
             in if rt_object_is_systemobject (OThread t) k2
                then rt_exit_critical (rt_object_detach (OThread t) k2)
                else Option.bind (rt_exit_critical k2)
                       (\<lambda>k3. Option.bind (rt_object_delete (OThread t) k3)
                         (\<lambda>k4. rt_thread_idle_excute cleanup k4)))
          else None)"

section \<open>Invariant\<close>

definition kinv :: "nat \<Rightarrow> kernel \<Rightarrow> bool" where
  "kinv d k \<longleftrightarrow> sched_inv {} k \<and> timer_inv d k"

text \<open>The fields only other components change.\<close>

definition core_only :: "kernel \<Rightarrow> kernel \<Rightarrow> bool" where
  "core_only k k' \<longleftrightarrow> scheduler_lock_nest k' = scheduler_lock_nest k \<and>
     interrupt_nest k' = interrupt_nest k \<and> tick k' = tick k \<and> objects k' = objects k \<and>
     object_container k' = object_container k \<and> sems k' = sems k \<and> mutexes k' = mutexes k \<and>
     events k' = events k \<and> mailboxes k' = mailboxes k \<and> msgqueues k' = msgqueues k \<and>
     mempools k' = mempools k \<and> dataqueues k' = dataqueues k \<and>
     completions k' = completions k \<and> wqueues k' = wqueues k"

lemma core_only_refl [simp]: "core_only k k"
  by (simp add: core_only_def)

lemma core_only_trans: "core_only k k' \<Longrightarrow> core_only k' k'' \<Longrightarrow> core_only k k''"
  by (simp add: core_only_def)

lemma core_only_frame:
  assumes "core_only k k'"
  shows "scheduler_lock_nest k' = scheduler_lock_nest k" "interrupt_nest k' = interrupt_nest k"
    "tick k' = tick k" "objects k' = objects k" "object_container k' = object_container k"
    "sems k' = sems k" "mutexes k' = mutexes k" "events k' = events k"
    "mailboxes k' = mailboxes k" "msgqueues k' = msgqueues k" "mempools k' = mempools k"
    "dataqueues k' = dataqueues k" "completions k' = completions k" "wqueues k' = wqueues k"
  using assms by (simp_all add: core_only_def)

lemma timers_only_core: "timers_only k k' \<Longrightarrow> core_only k k'"
  by (simp add: core_only_def timers_only_def)

lemma core_only_steps:
  "core_only k (upd_thread t f k)" "core_only k (list_remove t k)"
  "core_only k (list_insert_before h t k)" "core_only k (list_insert_after h t k)"
  "core_only k (rt_schedule_insert_thread t k)" "core_only k (rt_schedule_remove_thread t k)"
  "core_only k (set_error t e k)"
  by (simp_all add: core_only_def upd_thread_def list_remove_def list_insert_before_def
      list_insert_after_def rt_schedule_insert_thread_def rt_schedule_remove_thread_def set_stat_def
      set_error_def Let_def)

text \<open>The scheduling steps and the timers.\<close>

lemma sched_steps_timers [simp]:
  "timers (rt_schedule_insert_thread t k) = timers k"
  "timer_list (rt_schedule_insert_thread t k) = timer_list k"
  "tick (rt_schedule_insert_thread t k) = tick k"
  "timers (rt_schedule_remove_thread t k) = timers k"
  "timer_list (rt_schedule_remove_thread t k) = timer_list k"
  "tick (rt_schedule_remove_thread t k) = tick k"
  "current_thread (rt_schedule_insert_thread t k) = current_thread k"
  "current_thread (rt_schedule_remove_thread t k) = current_thread k"
  by (simp_all add: rt_schedule_insert_thread_def rt_schedule_remove_thread_def set_stat_def Let_def)

lemma sched_steps_effect [simp]:
  "threads (rt_schedule_insert_thread t k) =
     (threads k)(t := (threads k t)\<lparr>th_stat := with_stat RT_THREAD_READY (th_stat (threads k t))\<rparr>)"
  "lists (rt_schedule_insert_thread t k) =
     (lists k)(LReady (prio_of k t) := lists k (LReady (prio_of k t)) @ [t])"
  "threads (rt_schedule_remove_thread t k) = threads k"
  "lists (rt_schedule_remove_thread t k) = (\<lambda>h. removeAll t (lists k h))"
  by (auto simp: rt_schedule_insert_thread_def rt_schedule_remove_thread_def set_stat_def Let_def)

lemma timer_inv_cong:
  assumes "timer_inv d k" "timers k' = timers k" "timer_list k' = timer_list k" "tick k' = tick k"
    "\<And>t. TThread t \<in> set (timer_list k) \<Longrightarrow> stat_of k' t = stat_of k t"
  shows "timer_inv d k'"
  using assms by (auto simp: timer_inv_def tm_activated_def)

subsection \<open>Suspending and resuming\<close>

lemma remove_set_stat:
  "rt_schedule_remove_thread t (set_stat u s k) = set_stat u s (rt_schedule_remove_thread t k)"
  by (rule kernel.equality)
    (auto simp: rt_schedule_remove_thread_def set_stat_def upd_thread_def list_remove_def Let_def)

lemma suspend_spec:
  assumes inv: "kinv d k" and ready: "th_ready k t"
  defines "k' \<equiv> snd (rt_thread_suspend t k)"
  shows "fst (rt_thread_suspend t k) = RT_EOK" "kinv d k'" "sched_inv {t} k'" "th_suspended k' t"
    "lists k' = (\<lambda>h. removeAll t (lists k h))"
    "threads k' = (threads k)(t := (threads k t)
       \<lparr>th_stat := with_stat RT_THREAD_SUSPEND (th_stat (threads k t))\<rparr>)"
    "current_thread k' = current_thread k" "core_only k k'" "TThread t \<notin> set (timer_list k')"
    "timer_list k' = timer_list k"
proof -
  let ?s = "with_stat RT_THREAD_SUSPEND (th_stat (threads k t))"
  let ?k2 = "set_stat t ?s (rt_schedule_remove_thread t k)"
  have k': "rt_thread_suspend t k = (RT_EOK, k')" "k' = snd (rt_timer_stop (TThread t) ?k2)"
    using ready by (simp_all add: rt_thread_suspend_def k'_def Let_def remove_set_stat)
  note f = timers_only_frame [OF timer_stop_only [of ?k2 "TThread t"], folded k'(2)]
  have m: "mask_ok (threads k t)" using inv by (simp add: kinv_def sched_inv_def)
  then have m2: "mask_ok ((threads k t)\<lparr>th_stat := ?s\<rparr>)"
    using ready by (simp add: mask_ok_def with_stat_mask stat_of_def)
  have "sched_inv {t} (rt_schedule_remove_thread t k)"
    using remove_thread_inv [of "{}" k t] inv by (simp add: kinv_def)
  then have "sched_inv {t} ?k2" unfolding set_stat_def by (rule upd_detached) (simp_all add: m2)
  then show si: "sched_inv {t} k'"
    using timers_only_sched [OF timer_stop_only] k'(2) by blast
  show sus: "th_suspended k' t" by (simp add: stat_of_def f set_stat_def with_stat_mask)
  have "sched_inv {} k'" by (rule sched_inv_link [OF si]) (simp add: sus)
  moreover have out: "TThread t \<notin> set (timer_list k)"
    using inv ready by (auto simp: kinv_def timer_inv_def)
  have "timer_inv d ?k2"
    by (rule timer_inv_cong [of d k])
      (use inv out in \<open>auto simp: kinv_def set_stat_def stat_of_def\<close>)
  then have "timer_inv d k'" unfolding k'(2) by (rule timer_stop_inv)
  ultimately show "kinv d k'" by (simp add: kinv_def)
  show "fst (rt_thread_suspend t k) = RT_EOK" by (simp add: k')
  show "lists k' = (\<lambda>h. removeAll t (lists k h))" by (simp add: f set_stat_def)
  show "threads k' = (threads k)(t := (threads k t)\<lparr>th_stat := ?s\<rparr>)"
    by (simp add: f set_stat_def)
  show "current_thread k' = current_thread k" by (simp add: f set_stat_def)
  have "core_only k ?k2"
    unfolding set_stat_def
    by (rule core_only_trans [OF core_only_steps(6) core_only_steps(1)])
  then show "core_only k k'"
    unfolding k'(2) by (rule core_only_trans) (rule timers_only_core [OF timer_stop_only])
  have "timer_list k' = removeAll (TThread t) (timer_list k) \<or> timer_list k' = timer_list k"
    by (simp add: k'(2) rt_timer_stop_def clear_tflag_def set_stat_def)
  then show "timer_list k' = timer_list k" "TThread t \<notin> set (timer_list k')" using out by auto
qed

lemma resume_spec:
  assumes inv: "kinv d k" and sus: "th_suspended k t"
  defines "k' \<equiv> snd (rt_thread_resume t k)"
  shows "fst (rt_thread_resume t k) = RT_EOK" "kinv d k'" "th_ready k' t"
    "lists k' = (\<lambda>h. removeAll t (lists k h))
      (LReady (prio_of k t) := lists k (LReady (prio_of k t)) @ [t])"
    "threads k' = (threads k)(t := (threads k t)
       \<lparr>th_stat := with_stat RT_THREAD_READY (th_stat (threads k t))\<rparr>)"
    "current_thread k' = current_thread k" "core_only k k'" "TThread t \<notin> set (timer_list k')"
proof -
  let ?k1 = "list_remove t k" and ?k2 = "snd (rt_timer_stop (TThread t) (list_remove t k))"
  have k': "rt_thread_resume t k = (RT_EOK, k')" "k' = rt_schedule_insert_thread t ?k2"
    using sus by (simp_all add: rt_thread_resume_def k'_def Let_def)
  note f = timers_only_frame [OF timer_stop_only [of ?k1 "TThread t"]]
  have "sched_inv {t} ?k1"
    using list_remove_suspended [of "{}" k t] inv sus by (simp add: kinv_def)
  then have s2: "sched_inv {t} ?k2" using timers_only_sched [OF timer_stop_only] by blast
  have m: "mask_of k t = 2 ^ prio_of k t"
    using inv sus by (auto simp: kinv_def sched_inv_def mask_ok_def stat_of_def)
  have si: "sched_inv {} k'"
    unfolding k'(2) by (rule insert_thread_inv) (use s2 m in \<open>simp_all add: f\<close>)
  have t1: "timer_inv d ?k1"
    by (rule timer_inv_cong [of d k]) (use inv in \<open>auto simp: kinv_def stat_of_def\<close>)
  then have t2: "timer_inv d ?k2" and out: "TThread t \<notin> set (timer_list ?k2)"
    using timer_stop_inv timer_stop_unlinked by blast+
  have "timer_inv d k'"
    unfolding k'(2)
    by (rule timer_inv_cong [OF t2]) (use out in \<open>auto simp: stat_of_def\<close>)
  then show "kinv d k'" using si by (simp add: kinv_def)
  show "th_ready k' t" by (simp add: k'(2) stat_of_def with_stat_mask)
  show "fst (rt_thread_resume t k) = RT_EOK" by (simp add: k')
  have "t \<notin> set (lists k (LReady (prio_of k t)))"
    using inv sus in_list_ready [of "{}" k t "prio_of k t"] by (auto simp: kinv_def)
  then show "lists k' = (\<lambda>h. removeAll t (lists k h))
      (LReady (prio_of k t) := lists k (LReady (prio_of k t)) @ [t])"
    by (auto simp: k'(2) f fun_eq_iff)
  show "threads k' = (threads k)(t := (threads k t)
       \<lparr>th_stat := with_stat RT_THREAD_READY (th_stat (threads k t))\<rparr>)"
    by (simp add: k'(2) f)
  show "current_thread k' = current_thread k" by (simp add: k'(2) f)
  have "core_only k ?k1" by (rule core_only_steps)
  then have "core_only k ?k2" by (rule core_only_trans) (rule timers_only_core [OF timer_stop_only])
  then show "core_only k k'" unfolding k'(2) by (rule core_only_trans) (rule core_only_steps)
  show "TThread t \<notin> set (timer_list k')" using out by (simp add: k'(2))
qed

subsection \<open>Scheduling\<close>

lemma switch_only_core: "switch_only k k' \<Longrightarrow> core_only k k'"
  by (simp add: core_only_def switch_only_frame)

lemma switch_only_kinv: "switch_only k k' \<Longrightarrow> kinv d k' = kinv d k"
proof -
  assume s: "switch_only k k'"
  note f = switch_only_frame [OF s]
  show ?thesis
    using sched_inv_cong [of "{}" k k'] sched_inv_cong [of "{}" k' k]
      timer_inv_cong [of d k k'] timer_inv_cong [of d k' k]
    by (auto simp: kinv_def f stat_of_def)
qed

text \<open>The running thread is the one the scheduler would choose.\<close>

definition current_top :: "kernel \<Rightarrow> bool" where
  "current_top k \<longleftrightarrow> (\<exists>t. current_thread k = Some t \<and> th_ready k t \<and> top_ready k t)"

lemma schedule_kinv:
  assumes inv: "kinv d k" and some: "th_ready k u" and cur: "current_thread k \<noteq> None"
  obtains k' where "rt_schedule k = Some k'" "switch_only k k'" "kinv d k'" "core_only k k'"
    "current_thread k' \<noteq> None" "scheduler_lock_nest k = 0 \<longrightarrow> current_top k'"
    "scheduler_lock_nest k \<noteq> 0 \<longrightarrow> k' = k"
proof -
  have "sched_inv {} k" using inv by (simp add: kinv_def)
  from schedule_spec [OF this some cur] obtain k' where k': "rt_schedule k = Some k'"
    "switch_only k k'" "current_thread k' \<noteq> None"
    "scheduler_lock_nest k = 0 \<Longrightarrow> \<exists>t. current_thread k' = Some t \<and> th_ready k t \<and> top_ready k t"
    "scheduler_lock_nest k \<noteq> 0 \<Longrightarrow> k' = k"
    by blast
  have "stat_of k' u = stat_of k u" "top_ready k' u = top_ready k u" for u
    by (simp_all add: stat_of_def top_ready_def switch_only_frame [OF k'(2)])
  then have "scheduler_lock_nest k = 0 \<longrightarrow> current_top k'" using k'(4) by (auto simp: current_top_def)
  then show ?thesis
    using that [of k'] k' inv switch_only_kinv [OF k'(2)] switch_only_core [OF k'(2)] by simp
qed

subsection \<open>The remaining thread operations\<close>

lemma upd_waiting_prio:
  assumes inv: "sched_inv {} k" and nr: "\<not> th_ready k t"
    and st: "th_stat (f (threads k t)) = th_stat (threads k t)" and m: "mask_ok (f (threads k t))"
  shows "sched_inv {} (upd_thread t f k)"
proof -
  have "t \<notin> set (lists k (LReady p))" for p using in_list_ready [OF inv] nr by blast
  then show ?thesis
    using inv st m nr
    by (auto simp: sched_inv_def links_ok_def bitmap_ok_def ready_ok_def stat_of_def)
qed

lemma change_priority_kinv:
  assumes inv: "kinv d k" and p: "p < RT_THREAD_PRIORITY_MAX"
  shows "kinv d (change_priority t p k)"
    and "current_thread (change_priority t p k) = current_thread k"
    and "core_only k (change_priority t p k)"
    and "timer_list (change_priority t p k) = timer_list k"
    and "stat_of (change_priority t p k) u = stat_of k u"
    and "prio_of (change_priority t p k) u = (if u = t then p else prio_of k u)"
    and "\<And>h. (\<And>q. h \<noteq> LReady q) \<Longrightarrow> lists (change_priority t p k) h = lists k h"
proof -
  let ?f = "\<lambda>th. th\<lparr>th_current_priority := p, th_number_mask := 2 ^ p\<rparr>"
  let ?r = "rt_schedule_remove_thread t k"
  have si: "sched_inv {} k" using inv by (simp add: kinv_def)
  have m: "mask_ok (?f (threads k t))" using p by (simp add: mask_ok_def)
  have def: "change_priority t p k = (if th_ready k t
      then rt_schedule_insert_thread t (upd_thread t ?f ?r) else upd_thread t ?f k)"
    by (simp add: change_priority_def Let_def)
  have "sched_inv {} (rt_schedule_insert_thread t (upd_thread t ?f ?r))"
  proof (rule insert_thread_inv)
    have "sched_inv {t} ?r" using remove_thread_inv [of "{}" k t] si by simp
    then show "sched_inv {t} (upd_thread t ?f ?r)" by (rule upd_detached) (simp_all add: m)
  qed simp_all
  moreover have "sched_inv {} (upd_thread t ?f k)" if "\<not> th_ready k t"
    by (rule upd_waiting_prio [OF si that]) (simp_all add: m)
  ultimately have s: "sched_inv {} (change_priority t p k)" by (simp add: def)
  show st: "stat_of (change_priority t p k) u = stat_of k u" for u
    by (simp add: def stat_of_def with_stat_mask)
  show tl: "timer_list (change_priority t p k) = timer_list k" by (simp add: def)
  have "timer_inv d (change_priority t p k)"
    by (rule timer_inv_cong [of d k]) (use inv in \<open>simp_all add: kinv_def st tl\<close>, simp_all add: def)
  then show "kinv d (change_priority t p k)" using s by (simp add: kinv_def)
  show "current_thread (change_priority t p k) = current_thread k" by (simp add: def)
  have "core_only k (rt_schedule_insert_thread t (upd_thread t ?f ?r))"
    by (meson core_only_steps core_only_trans)
  then show "core_only k (change_priority t p k)" by (simp add: def core_only_steps)
  show "prio_of (change_priority t p k) u = (if u = t then p else prio_of k u)" by (simp add: def)
  show "lists (change_priority t p k) h = lists k h" if "\<And>q. h \<noteq> LReady q" for h
  proof -
    have "t \<notin> set (lists k h)" if "th_ready k t"
      using si that \<open>\<And>q. h \<noteq> LReady q\<close> ready_in_list [OF si that]
      unfolding sched_inv_def links_ok_def by metis
    then show ?thesis using that by (auto simp: def)
  qed
qed

lemma startup_kinv:
  assumes inv: "kinv d k" and init: "stat_of k t = RT_THREAD_INIT"
    and p: "th_init_priority (threads k t) < RT_THREAD_PRIORITY_MAX"
    and tm: "TThread t \<notin> set (timer_list k)"
  obtains k' where "rt_thread_startup t k = Some k'" "kinv d k'" "th_ready k' t" "core_only k k'"
    "current_thread k = None \<Longrightarrow> current_thread k' = None"
    "current_thread k \<noteq> None \<and> scheduler_lock_nest k = 0 \<longrightarrow> current_top k'"
proof -
  let ?f = "\<lambda>th. th\<lparr>th_current_priority := th_init_priority th,
    th_number_mask := 2 ^ th_init_priority th, th_stat := RT_THREAD_SUSPEND\<rparr>"
  let ?k1 = "upd_thread t ?f k"
  have si: "sched_inv {} k" using inv by (simp add: kinv_def)
  have "stat_fits h RT_THREAD_INIT = False" for h by (cases h) simp_all
  then have out: "t \<notin> set (lists k h)" for h
    using si init unfolding sched_inv_def ready_ok_def by metis
  have "mask_ok (?f (threads k t))" using p by (simp add: mask_ok_def)
  then have "sched_inv {t} ?k1" by (intro upd_detached sched_inv_unlinked si out) simp_all
  then have "sched_inv {} ?k1" by (rule sched_inv_link) (simp add: stat_of_def)
  moreover have "timer_inv d ?k1"
    by (rule timer_inv_cong [of d k]) (use inv tm in \<open>auto simp: kinv_def stat_of_def\<close>)
  ultimately have k1: "kinv d ?k1" by (simp add: kinv_def)
  have "th_suspended ?k1 t" by (simp add: stat_of_def)
  note r = resume_spec [OF k1 this]
  let ?k2 = "snd (rt_thread_resume t ?k1)"
  have core: "core_only k ?k2" by (rule core_only_trans [OF core_only_steps(1) r(7)])
  have cur: "current_thread ?k2 = current_thread k" by (simp add: r(6))
  have def: "rt_thread_startup t k = (if current_thread k \<noteq> None then rt_schedule ?k2 else Some ?k2)"
    using init by (simp add: rt_thread_startup_def Let_def rt_thread_self_def cur)
  show ?thesis
  proof (cases "current_thread k = None")
    case True
    then show ?thesis using def r(2,3) core cur by (intro that [of ?k2]) simp_all
  next
    case False
    then have c2: "current_thread ?k2 \<noteq> None" by (simp add: cur)
    obtain k' where k': "rt_schedule ?k2 = Some k'" "switch_only ?k2 k'" "kinv d k'" "core_only ?k2 k'"
      "current_thread k' \<noteq> None" "scheduler_lock_nest ?k2 = 0 \<longrightarrow> current_top k'"
      "scheduler_lock_nest ?k2 \<noteq> 0 \<longrightarrow> k' = ?k2"
      by (rule schedule_kinv [OF r(2,3) c2])
    have "th_ready k' t" using r(3) by (simp add: stat_of_def switch_only_frame [OF k'(2)])
    moreover have "core_only k k'" by (rule core_only_trans [OF core k'(4)])
    moreover have "scheduler_lock_nest k = 0 \<longrightarrow> current_top k'"
      using k'(6) by (simp add: core_only_frame [OF core])
    ultimately show ?thesis using def k'(1,3) False by (intro that [of k']) simp_all
  qed
qed

lemma timeout_kinv:
  assumes inv: "kinv d k" and sus: "th_suspended k t" and tm: "TThread t \<notin> set (timer_list k)"
    and cur: "current_thread k \<noteq> None"
  obtains k' where "rt_thread_timeout t k = Some k'" "kinv d k'" "core_only k k'"
    "timers k' = timers k" "timer_list k' = timer_list k" "current_thread k' \<noteq> None"
    "threads k' = (threads k)(t := (threads k t)\<lparr>th_error := - RT_ETIMEOUT,
       th_stat := with_stat RT_THREAD_READY (th_stat (threads k t))\<rparr>)"
    "lists k' = (\<lambda>h. removeAll t (lists k h))
      (LReady (prio_of k t) := lists k (LReady (prio_of k t)) @ [t])"
    "scheduler_lock_nest k = 0 \<longrightarrow> current_top k'"
proof -
  let ?e = "set_error t (- RT_ETIMEOUT) k"
  let ?k1 = "list_remove t ?e" and ?k2 = "rt_schedule_insert_thread t (list_remove t (set_error t (- RT_ETIMEOUT) k))"
  have "sched_inv {} ?e"
    unfolding set_error_def by (rule upd_same_stat) (use inv in \<open>simp_all add: kinv_def\<close>)
  then have "sched_inv {t} ?k1"
    by (rule list_remove_suspended) (use sus in \<open>simp add: set_error_def stat_of_def\<close>)
  moreover have m: "mask_of k t = 2 ^ prio_of k t"
    using inv sus by (auto simp: kinv_def sched_inv_def mask_ok_def stat_of_def)
  ultimately have si: "sched_inv {} ?k2"
    by (intro insert_thread_inv) (simp_all add: set_error_def)
  have "timer_inv d ?k2"
    by (rule timer_inv_cong [of d k])
      (use inv tm in \<open>auto simp: kinv_def stat_of_def set_error_def\<close>)
  then have k2: "kinv d ?k2" using si by (simp add: kinv_def)
  have r: "th_ready ?k2 t" by (simp add: stat_of_def with_stat_mask)
  have c2: "current_thread ?k2 \<noteq> None" using cur by (simp add: set_error_def)
  have core: "core_only k ?k2"
    by (rule core_only_trans [OF core_only_trans [OF core_only_steps(7) core_only_steps(2)]
        core_only_steps(5)])
  have def: "rt_thread_timeout t k = rt_schedule ?k2" using sus by (simp add: rt_thread_timeout_def)
  have out: "t \<notin> set (lists k (LReady (prio_of k t)))"
    using inv sus in_list_ready [of "{}" k t "prio_of k t"] by (auto simp: kinv_def)
  obtain k' where k': "rt_schedule ?k2 = Some k'" "switch_only ?k2 k'" "kinv d k'" "core_only ?k2 k'"
    "current_thread k' \<noteq> None" "scheduler_lock_nest ?k2 = 0 \<longrightarrow> current_top k'"
    "scheduler_lock_nest ?k2 \<noteq> 0 \<longrightarrow> k' = ?k2"
    by (rule schedule_kinv [OF k2 r c2])
  note f = switch_only_frame [OF k'(2)]
  show ?thesis
  proof (rule that [of k'])
    show "threads k' = (threads k)(t := (threads k t)\<lparr>th_error := - RT_ETIMEOUT,
       th_stat := with_stat RT_THREAD_READY (th_stat (threads k t))\<rparr>)"
      by (simp add: f set_error_def)
    show "lists k' = (\<lambda>h. removeAll t (lists k h))
      (LReady (prio_of k t) := lists k (LReady (prio_of k t)) @ [t])"
      using out by (auto simp: f set_error_def fun_eq_iff)
    show "core_only k k'" by (rule core_only_trans [OF core k'(4)])
    show "scheduler_lock_nest k = 0 \<longrightarrow> current_top k'"
      using k'(6) by (simp add: core_only_frame [OF core])
  qed (use def k' in \<open>simp_all add: f set_error_def\<close>)
qed

lemma ready_ok_cong:
  assumes "ready_ok D k" "\<And>h. set (lists k' h) = set (lists k h)"
    "\<And>u. stat_of k' u = stat_of k u" "\<And>u. prio_of k' u = prio_of k u"
  shows "ready_ok D k'"
  using assms unfolding ready_ok_def by simp

lemma yield_kinv:
  assumes inv: "kinv d k" and cur: "current_thread k = Some t" and ready: "th_ready k t"
  obtains k' where "rt_thread_yield k = Some k'" "kinv d k'" "core_only k k'"
    "threads k' = threads k" "timers k' = timers k" "timer_list k' = timer_list k"
    "current_thread k' \<noteq> None"
    "lists k' = (lists k)(LReady (prio_of k t) :=
       (if length (lists k (LReady (prio_of k t))) > 1
        then removeAll t (lists k (LReady (prio_of k t))) @ [t]
        else lists k (LReady (prio_of k t))))"
    "scheduler_lock_nest k = 0 \<and> length (lists k (LReady (prio_of k t))) > 1 \<longrightarrow> current_top k'"
proof (cases "length (lists k (LReady (prio_of k t))) > 1")
  case False
  then have "rt_thread_yield k = Some k" using cur by (simp add: rt_thread_yield_def)
  then show ?thesis using False inv cur by (intro that [of k]) simp_all
next
  case True
  let ?h = "LReady (prio_of k t)"
  let ?k1 = "list_remove t k" and ?k2 = "list_insert_before ?h t (list_remove t k)"
  have si: "sched_inv {} k" using inv by (simp add: kinv_def)
  have t_in: "t \<in> set (lists k ?h)" by (rule ready_in_list [OF si ready])
  have d: "distinct (lists k ?h)" using si by (simp add: sched_inv_def links_ok_def)
  have only: "t \<notin> set (lists k h)" if "h \<noteq> ?h" for h
    using si t_in that unfolding sched_inv_def links_ok_def by blast
  have ne: "removeAll t (lists k ?h) \<noteq> []"
  proof
    assume "removeAll t (lists k ?h) = []"
    then have "set (lists k ?h) - {t} = {}" by (metis set_removeAll set_empty)
    then have "card (set (lists k ?h)) \<le> card {t}" by (intro card_mono) auto
    then have "length (lists k ?h) \<le> 1" using distinct_card [OF d] by simp
    then show False using True by simp
  qed
  have L1: "lists ?k1 h = removeAll t (lists k h)" for h by simp
  have L2: "lists ?k2 = (lists k)(?h := removeAll t (lists k ?h) @ [t])"
    using only by (auto simp: fun_eq_iff)
  have "links_ok ?k1" using si by (auto simp: sched_inv_def links_ok_def distinct_removeAll)
  then have "links_ok ?k2" by (rule links_ok_insert(1) [where h = ?h and ys = "[]"]) simp_all
  moreover have "bitmap_ok ?k2"
    using si t_in by (auto simp: sched_inv_def bitmap_ok_def only)
  moreover have "ready_ok {} ?k2"
  proof -
    have m: "set (lists ?k2 h) = set (lists k h)" for h
      unfolding L2 using t_in by (cases "h = ?h") auto
    have r: "ready_ok {} k" using si by (simp add: sched_inv_def)
    show ?thesis by (rule ready_ok_cong [OF r m]) (simp_all add: stat_of_def)
  qed
  ultimately have s2: "sched_inv {} ?k2" using si by (simp add: sched_inv_def)
  have "timer_inv d ?k2"
    by (rule timer_inv_cong [of d k]) (use inv in \<open>auto simp: kinv_def stat_of_def\<close>)
  then have k2: "kinv d ?k2" using s2 by (simp add: kinv_def)
  have r2: "th_ready ?k2 t" using ready by (simp add: stat_of_def)
  have c2: "current_thread ?k2 \<noteq> None" using cur by simp
  have core: "core_only k ?k2" by (rule core_only_trans [OF core_only_steps(2) core_only_steps(3)])
  obtain k' where k': "rt_schedule ?k2 = Some k'" "switch_only ?k2 k'" "kinv d k'" "core_only ?k2 k'"
    "current_thread k' \<noteq> None" "scheduler_lock_nest ?k2 = 0 \<longrightarrow> current_top k'"
    "scheduler_lock_nest ?k2 \<noteq> 0 \<longrightarrow> k' = ?k2"
    by (rule schedule_kinv [OF k2 r2 c2])
  note f = switch_only_frame [OF k'(2)]
  show ?thesis
  proof (rule that [of k'])
    show "rt_thread_yield k = Some k'"
      using True cur ready k'(1) by (simp add: rt_thread_yield_def)
    show "lists k' = (lists k)(?h := (if length (lists k ?h) > 1
        then removeAll t (lists k ?h) @ [t] else lists k ?h))"
      using True by (simp only: f L2 if_True)
    show "core_only k k'" by (rule core_only_trans [OF core k'(4)])
  qed (use k' in \<open>simp_all add: f\<close>)
qed

subsection \<open>The end of a thread\<close>

lemma unlink_object_kinv: "kinv d (unlink_object ob k) = kinv d k"
  using sched_inv_cong [of "{}" k "unlink_object ob k"] sched_inv_cong [of "{}" "unlink_object ob k" k]
    timer_inv_cong [of d k "unlink_object ob k"] timer_inv_cong [of d "unlink_object ob k" k]
  by (auto simp: kinv_def stat_of_def)

text \<open>A closed, detached thread whose timer is out of the list.\<close>

lemma retire_kinv:
  assumes si: "sched_inv {t} k" and ti: "timer_inv d k" and cl: "stat_of k t = RT_THREAD_CLOSE"
  shows "kinv d (list_insert_after LDefunct t k)" "kinv d (retire_thread t k)"
proof -
  have "sched_inv {} (list_insert_after LDefunct t k)"
    by (rule link_inv [OF si, where xs = "[]" and h = LDefunct]) (simp_all add: cl)
  moreover have "timer_inv d (list_insert_after LDefunct t k)"
    by (rule timer_inv_cong [OF ti])
      (auto simp: stat_of_def list_insert_after_def)
  ultimately show i: "kinv d (list_insert_after LDefunct t k)" by (simp add: kinv_def)
  have "sched_inv {} k" by (rule sched_inv_link [OF si]) (simp add: cl)
  then have "kinv d (rt_object_detach (OThread t) k)"
    using ti unlink_object_kinv by (simp add: kinv_def rt_object_detach_def)
  then show "kinv d (retire_thread t k)" using i by (simp add: retire_thread_def)
qed

lemma timer_detach_spec:
  assumes st: "rt_object_is_systemobject (OTimer i) k"
  obtains k' where "rt_timer_detach i k = Some k'" "threads k' = threads k" "lists k' = lists k"
    "ready_priority_group k' = ready_priority_group k" "current_thread k' = current_thread k"
    "scheduler_lock_nest k' = scheduler_lock_nest k" "tick k' = tick k" "timers k' = timers k"
    "timer_list k' = removeAll i (timer_list k)" "\<forall>d. timer_inv d k \<longrightarrow> timer_inv d k'"
proof -
  let ?k = "rt_object_detach (OTimer i) (timer_remove i k)"
  note f = timers_only_frame [OF timers_only_steps(2), of i k]
  have "timer_inv d ?k" if "timer_inv d k" for d
    by (rule timer_inv_cong [OF timer_remove_inv [OF that, of i]])
      (simp_all add: rt_object_detach_def stat_of_def f)
  then show ?thesis
    using st by (intro that [of ?k]) (simp_all add: rt_timer_detach_def rt_object_detach_def f)
qed

text \<open>\<^verbatim>\<open>rt_thread_delete\<close> and \<^verbatim>\<open>rt_thread_detach\<close> up to the registry.\<close>

lemma close_spec:
  assumes inv: "kinv d k" and st: "rt_object_is_systemobject (OTimer (TThread t)) k"
  defines "k1 \<equiv> (if stat_of k t \<noteq> RT_THREAD_INIT then rt_schedule_remove_thread t k else k)"
  obtains k2 where "rt_timer_detach (TThread t) k1 = Some k2"
    "sched_inv {t} (set_stat t RT_THREAD_CLOSE k2)" "timer_inv d (set_stat t RT_THREAD_CLOSE k2)"
    "stat_of (set_stat t RT_THREAD_CLOSE k2) t = RT_THREAD_CLOSE"
proof -
  have si: "sched_inv {} k" using inv by (simp add: kinv_def)
  have out: "t \<notin> set (lists k h)" if "stat_of k t = RT_THREAD_INIT" for h
  proof -
    have "stat_fits h RT_THREAD_INIT = False" by (cases h) simp_all
    then show ?thesis using si that unfolding sched_inv_def ready_ok_def by metis
  qed
  have s1: "sched_inv {t} k1"
    using remove_thread_inv [OF si, of t] sched_inv_unlinked [OF si out] by (simp add: k1_def)
  have t1: "timer_inv d k1"
    by (rule timer_inv_cong [of d k]) (use inv in \<open>simp_all add: k1_def kinv_def stat_of_def\<close>)
  have st1: "rt_object_is_systemobject (OTimer (TThread t)) k1"
    using st core_only_frame(4) [OF core_only_steps(6), of t k]
    by (simp add: k1_def rt_object_is_systemobject_def)
  obtain k2 where k2: "rt_timer_detach (TThread t) k1 = Some k2" "threads k2 = threads k1"
    "lists k2 = lists k1" "ready_priority_group k2 = ready_priority_group k1"
    "current_thread k2 = current_thread k1" "scheduler_lock_nest k2 = scheduler_lock_nest k1"
    "tick k2 = tick k1" "timers k2 = timers k1"
    "timer_list k2 = removeAll (TThread t) (timer_list k1)"
    "\<forall>d. timer_inv d k1 \<longrightarrow> timer_inv d k2"
    by (rule timer_detach_spec [OF st1])
  have "sched_inv {t} k2" by (rule sched_inv_cong [OF s1]) (simp_all add: k2)
  moreover have "mask_ok ((threads k2 t)\<lparr>th_stat := RT_THREAD_CLOSE\<rparr>)"
    using s1 by (simp add: k2(2) sched_inv_def mask_ok_def)
  ultimately have s3: "sched_inv {t} (set_stat t RT_THREAD_CLOSE k2)"
    unfolding set_stat_def by (intro upd_detached) simp_all
  have "timer_inv d k2" using k2(10) t1 by blast
  then have "timer_inv d (set_stat t RT_THREAD_CLOSE k2)"
    by (rule timer_inv_cong) (auto simp: set_stat_def stat_of_def k2(9))
  then show ?thesis using k2(1) s3 by (intro that [of k2]) (simp_all add: stat_of_def set_stat_def)
qed

end
