(* ===== verification/Clock.thy ===== *)
theory Clock
  imports Thread
begin

text \<open>
  The system tick, \<^verbatim>\<open>rt-thread/src/clock.c\<close>, and \<^verbatim>\<open>rt_timer_check\<close> of timer.c, which the tick
  interrupt calls. The timeout function of a thread timer is \<^verbatim>\<open>rt_thread_timeout\<close>; those of the
  application's timers are an argument of the definitions, \<open>cb i\<close> for timer \<open>i\<close>.
\<close>

section \<open>Operations\<close>

type_synonym callbacks = "nat \<Rightarrow> kernel \<Rightarrow> kernel option"

definition rt_tick_get :: "kernel \<Rightarrow> u32" where
  "rt_tick_get k = tick k"

definition rt_tick_set :: "u32 \<Rightarrow> kernel \<Rightarrow> kernel" where
  "rt_tick_set tk k = k\<lparr>tick := tk\<rparr>"

fun timeout_func :: "callbacks \<Rightarrow> timer_id \<Rightarrow> kernel \<Rightarrow> kernel option" where
  "timeout_func cb (TThread t) k = rt_thread_timeout t k"
| "timeout_func cb (TUser i) k = cb i k"

text \<open>The body of the loop for a timer that has run out.\<close>

definition fire_timer :: "callbacks \<Rightarrow> timer_id \<Rightarrow> kernel \<Rightarrow> kernel option" where
  "fire_timer cb t k = do {
     k1 \<leftarrow> timeout_func cb t (timer_remove t k);
     if tm_periodic k1 t \<and> tm_activated k1 t
     then rt_timer_start t (clear_tflag t RT_TIMER_FLAG_ACTIVATED k1)
     else Some (clear_tflag t RT_TIMER_FLAG_ACTIVATED k1)
   }"

partial_function (option) timer_check_loop :: "callbacks \<Rightarrow> u32 \<Rightarrow> kernel \<Rightarrow> kernel option" where
  "timer_check_loop cb current_tick k =
     (case timer_list k of
        [] \<Rightarrow> Some k
      | t # _ \<Rightarrow>
          if current_tick - timeout_of k t < TICK_HALF
          then Option.bind (fire_timer cb t k) (\<lambda>k1. timer_check_loop cb (rt_tick_get k1) k1)
          else Some k)"

definition rt_timer_check :: "callbacks \<Rightarrow> kernel \<Rightarrow> kernel option" where
  "rt_timer_check cb k = timer_check_loop cb (rt_tick_get k) k"

definition rt_tick_increase :: "callbacks \<Rightarrow> kernel \<Rightarrow> kernel option" where
  "rt_tick_increase cb k = do {
     let k1 = k\<lparr>tick := tick k + 1\<rparr>;
     t \<leftarrow> rt_thread_self k1;
     let k2 = upd_thread t (\<lambda>th. th\<lparr>th_remaining_tick := th_remaining_tick th - 1\<rparr>) k1;
     k3 \<leftarrow> (if th_remaining_tick (threads k2 t) = 0
            then rt_thread_yield
              (upd_thread t (\<lambda>th. th\<lparr>th_remaining_tick := th_init_tick th\<rparr>) k2)
            else Some k2);
     rt_timer_check cb k3
   }"

abbreviation "RT_TICK_PER_SECOND \<equiv> (1000 :: int)"

definition rt_tick_from_millisecond :: "int \<Rightarrow> u32" where
  "rt_tick_from_millisecond ms =
     (if ms < 0 then word_of_int (- 1)
      else word_of_int (RT_TICK_PER_SECOND * (ms div 1000)) +
           word_of_int ((RT_TICK_PER_SECOND * (ms mod 1000) + 999) div 1000))"

definition rt_thread_mdelay :: "int \<Rightarrow> kernel \<Rightarrow> (outcome \<times> kernel) option" where
  "rt_thread_mdelay ms k = rt_thread_sleep (rt_tick_from_millisecond ms) k"

definition rt_interrupt_enter :: "kernel \<Rightarrow> kernel" where
  "rt_interrupt_enter k = k\<lparr>interrupt_nest := interrupt_nest k + 1\<rparr>"

definition rt_interrupt_leave :: "kernel \<Rightarrow> kernel" where
  "rt_interrupt_leave k = k\<lparr>interrupt_nest := interrupt_nest k - 1\<rparr>"

definition rt_interrupt_get_nest :: "kernel \<Rightarrow> u8" where
  "rt_interrupt_get_nest k = interrupt_nest k"

section \<open>Expired timers\<close>

definition expired :: "kernel \<Rightarrow> timer_id \<Rightarrow> bool" where
  "expired k t \<longleftrightarrow> tick k - timeout_of k t < TICK_HALF"

definition expired_list :: "kernel \<Rightarrow> timer_id list" where
  "expired_list k = filter (expired k) (timer_list k)"

text \<open>In the tick interrupt, the expired timers are those with at most one tick left before it.\<close>

lemma expired_left:
  assumes "ticks_left (tick k - 1) (timeout_of k) t < unat TICK_HALF + 1"
  shows "expired k t \<longleftrightarrow> ticks_left (tick k - 1) (timeout_of k) t \<le> 1"
proof -
  have key: "1 - x < TICK_HALF \<longleftrightarrow> unat x \<le> 1" if x: "unat x \<le> 0x7fffffff" for x :: u32
  proof (cases "x \<le> 1")
    case True
    then have "unat (1 - x) = unat (1 :: u32) - unat x" by (rule unat_sub)
    then have "unat (1 - x) < unat TICK_HALF" by simp
    then have "1 - x < TICK_HALF" by (simp only: word_less_nat_alt)
    moreover have "unat x \<le> 1" using True by (simp add: word_le_nat_alt)
    ultimately show ?thesis by simp
  next
    case False
    then have "unat (1 - x) = 2 ^ 32 + 1 - unat x"
      by (simp add: unat_sub_if_size word_le_nat_alt word_size)
    then have "\<not> unat (1 - x) < unat TICK_HALF" using x by simp
    then have "\<not> 1 - x < TICK_HALF" by (simp only: word_less_nat_alt not_False_eq_True)
    moreover have "\<not> unat x \<le> 1" using False by (simp add: word_le_nat_alt)
    ultimately show ?thesis by simp
  qed
  have e: "tick k - timeout_of k t = 1 - (timeout_of k t - (tick k - 1))" by simp
  have "unat (timeout_of k t - (tick k - 1)) \<le> 0x7fffffff"
    using assms by (simp add: ticks_left_def)
  from key [OF this] show ?thesis unfolding expired_def ticks_left_def e .
qed

lemma tick_kinv:
  assumes inv: "kinv 0 k" shows "kinv 1 (k\<lparr>tick := tick k + 1\<rparr>)"
proof -
  have "sched_inv {} (k\<lparr>tick := tick k + 1\<rparr>)"
    by (rule sched_inv_cong [of _ k]) (use inv in \<open>simp_all add: kinv_def\<close>)
  then show ?thesis
    using inv by (auto simp: kinv_def timer_inv_def tm_activated_def stat_of_def intro: less_SucI)
qed

text \<open>Without expired timers the interrupt invariant is the ordinary one again.\<close>

lemma check_done_kinv:
  assumes inv: "kinv 1 k" and none: "\<And>t. t \<in> set (timer_list k) \<Longrightarrow> \<not> expired k t"
  shows "kinv 0 k"
proof -
  let ?l1 = "ticks_left (tick k - 1) (timeout_of k)" and ?l0 = "ticks_left (tick k) (timeout_of k)"
  have b: "?l1 t < unat TICK_HALF + 1" if "t \<in> set (timer_list k)" for t
    using inv that by (simp add: kinv_def timer_inv_def)
  have gt: "1 < ?l1 t" if "t \<in> set (timer_list k)" for t
    using expired_left [OF b [OF that]] none [OF that] by simp
  have l0: "?l0 t = ?l1 t - 1" if "t \<in> set (timer_list k)" for t
  proof -
    have sub: "unat (y - 1) = unat y - 1" if "1 < unat y" for y :: u32
      using that by (simp add: unat_sub word_le_nat_alt)
    have "timeout_of k t - tick k = (timeout_of k t - (tick k - 1)) - 1" by simp
    then show ?thesis
      unfolding ticks_left_def using sub gt [OF that, unfolded ticks_left_def] by (simp only:)
  qed
  have "sorted_wrt (\<lambda>x y. ?l1 x \<le> ?l1 y) (timer_list k)"
    using inv by (simp add: kinv_def timer_inv_def timers_sorted_def)
  then have "sorted_wrt (\<lambda>x y. ?l0 x \<le> ?l0 y) (timer_list k)"
    by (rule sorted_wrt_mono_rel [rotated]) (simp add: l0)
  then show ?thesis
    using inv b l0 by (fastforce simp: kinv_def timer_inv_def timers_sorted_def)
qed

text \<open>The head of the list decides: if it has not expired, no timer has.\<close>

lemma head_not_expired:
  assumes inv: "kinv 1 k" and l: "timer_list k = t # ts" and h: "\<not> expired k t"
    and x: "x \<in> set (timer_list k)"
  shows "\<not> expired k x"
proof -
  let ?l1 = "ticks_left (tick k - 1) (timeout_of k)"
  have b: "?l1 u < unat TICK_HALF + 1" if "u \<in> set (timer_list k)" for u
    using inv that by (simp add: kinv_def timer_inv_def)
  have "?l1 t \<le> ?l1 x"
    using inv x l by (auto simp: kinv_def timer_inv_def timers_sorted_def)
  then show ?thesis
    using expired_left [OF b, of t] expired_left [OF b [OF x]] h l by simp
qed

section \<open>The check fires every expired timer and stops\<close>

text \<open>What the check needs of the application: periods are between one tick and half the
  range, and a timeout function keeps the kernel invariants and leaves no timer expired that
  was not (it may stop timers, and start them with a delay).\<close>

definition periods_ok :: "kernel \<Rightarrow> bool" where
  "periods_ok k \<longleftrightarrow> (\<forall>t. \<not> tm_periodic k (TThread t)) \<and>
     (\<forall>i. tm_periodic k (TUser i) \<longrightarrow>
        0 < tm_init_tick (timers k (TUser i)) \<and> tm_init_tick (timers k (TUser i)) < TICK_HALF)"

definition tick_inv :: "kernel \<Rightarrow> bool" where
  "tick_inv k \<longleftrightarrow> kinv 1 k \<and> periods_ok k \<and> current_thread k \<noteq> None"

definition calm :: "callbacks \<Rightarrow> bool" where
  "calm cb \<longleftrightarrow> (\<forall>i k. tick_inv k \<longrightarrow>
     (\<exists>k'. cb i k = Some k' \<and> tick_inv k' \<and> tick k' = tick k \<and>
        set (expired_list k') \<subseteq> set (expired_list k)))"

lemma set_expired_list: "set (expired_list k) = {t \<in> set (timer_list k). expired k t}"
  by (auto simp: expired_list_def)

lemma periodic_simps:
  "tm_periodic (set_tflag i RT_TIMER_FLAG_ACTIVATED k) j = tm_periodic k j"
  "tm_periodic (clear_tflag i RT_TIMER_FLAG_ACTIVATED k) j = tm_periodic k j"
proof -
  have a: "(x OR 1) AND 2 = x AND (2 :: u8)" for x by (simp add: bit.conj_disj_distrib2)
  have b: "(x AND - 2) AND 2 = x AND (2 :: u8)" for x by (simp add: and.assoc)
  show "tm_periodic (set_tflag i RT_TIMER_FLAG_ACTIVATED k) j = tm_periodic k j"
    "tm_periodic (clear_tflag i RT_TIMER_FLAG_ACTIVATED k) j = tm_periodic k j"
    by (auto simp: tm_periodic_def set_tflag_def clear_tflag_def a b)
qed

lemma tick_inv_frame:
  assumes "tick_inv k" "threads k' = threads k" "lists k' = lists k"
    "ready_priority_group k' = ready_priority_group k" "current_thread k' = current_thread k"
    "timer_inv 1 k'" "periods_ok k'"
  shows "tick_inv k'"
  using assms sched_inv_cong [of "{}" k k'] by (simp add: tick_inv_def kinv_def)

lemma clear_activated_inv:
  assumes inv: "tick_inv k" and out: "\<And>t. i = TThread t \<Longrightarrow> i \<notin> set (timer_list k)"
  shows "tick_inv (clear_tflag i RT_TIMER_FLAG_ACTIVATED k)"
    and "expired_list (clear_tflag i RT_TIMER_FLAG_ACTIVATED k) = expired_list k"
    and "tick (clear_tflag i RT_TIMER_FLAG_ACTIVATED k) = tick k"
proof -
  let ?k = "clear_tflag i RT_TIMER_FLAG_ACTIVATED k"
  have o: "timers_only k ?k" by (simp add: clear_tflag_def)
  note f = timers_only_frame [OF o]
  have tt: "timeout_of ?k j = timeout_of k j" "timer_list ?k = timer_list k"
    "tm_init_tick (timers ?k j) = tm_init_tick (timers k j)" for j
    by (auto simp: clear_tflag_def)
  have tt': "timeout_of ?k = timeout_of k" using tt(1) by auto
  have "timer_inv 1 ?k"
    using inv out
    by (auto simp: tick_inv_def kinv_def timer_inv_def tt tt' f tm_activated_simps stat_of_def)
  moreover have "periods_ok ?k"
    using inv by (simp add: tick_inv_def periods_ok_def periodic_simps tt)
  ultimately show "tick_inv ?k" by (intro tick_inv_frame [OF inv]) (simp_all add: f)
  show "expired_list ?k = expired_list k" "tick ?k = tick k"
    by (simp_all add: expired_list_def expired_def [abs_def] tt f)
qed

lemma restart_inv:
  assumes inv: "tick_inv k" and per: "tm_periodic k (TUser i)"
  obtains k' where "rt_timer_start (TUser i) k = Some k'" "tick_inv k'" "tick k' = tick k"
    "set (expired_list k') \<subseteq> set (expired_list k)"
proof -
  let ?i = "TUser i"
  have time: "0 < tm_init_tick (timers k ?i)" "tm_init_tick (timers k ?i) < TICK_HALF"
    using inv per by (auto simp: tick_inv_def periods_ok_def)
  have ti: "timer_inv 1 k" using inv by (simp add: tick_inv_def kinv_def)
  obtain k' where k': "rt_timer_start ?i k = Some k'" "timer_inv 1 k'"
    "set (timer_list k') = insert ?i (set (timer_list k))" "tm_activated k' ?i"
    "timeout_of k' ?i = tick k + tm_init_tick (timers k ?i)"
    "timer_list k' = insert_timer (timeout_of k') ?i (removeAll ?i (timer_list k))"
    by (rule timer_start_inv [OF ti order_refl time(2)]) simp
  note f = timers_only_frame [OF timer_start_only [OF k'(1)]]
  have T: "timers k' = (timers k)(?i := timers k' ?i)"
    "tm_init_tick (timers k' ?i) = tm_init_tick (timers k ?i)"
    "tm_periodic k' ?i = tm_periodic k ?i"
  proof -
    have "(x AND - 2 OR 1) AND 2 = x AND (2 :: u8)" for x
      by (simp add: bit.conj_disj_distrib2 and.assoc)
    then show "timers k' = (timers k)(?i := timers k' ?i)"
      "tm_init_tick (timers k' ?i) = tm_init_tick (timers k ?i)"
      "tm_periodic k' ?i = tm_periodic k ?i"
      using k'(1) time(2)
      by (auto simp: rt_timer_start_eq Let_def tm_periodic_def)
  qed
  have other: "timers k' j = timers k j" if "j \<noteq> ?i" for j using T(1) that by (metis fun_upd_apply)
  have "periods_ok k'"
    unfolding periods_ok_def
  proof (intro conjI allI impI)
    show "\<not> tm_periodic k' (TThread t)" for t
      using inv other [of "TThread t"] by (simp add: tick_inv_def periods_ok_def tm_periodic_def)
    fix j assume "tm_periodic k' (TUser j)"
    then show "0 < tm_init_tick (timers k' (TUser j))" "tm_init_tick (timers k' (TUser j)) < TICK_HALF"
      using inv other [of "TUser j"] T(2) time
      by (cases "j = i"; force simp: tick_inv_def periods_ok_def tm_periodic_def)+
  qed
  then have "tick_inv k'" by (intro tick_inv_frame [OF inv] k'(2)) (simp_all add: f)
  moreover have "\<not> expired k' ?i"
  proof -
    have "\<not> - x < TICK_HALF" if x: "0 < x" "x < TICK_HALF" for x :: u32
    proof -
      have "unat (0 - x) = 2 ^ 32 - unat x"
        unfolding unat_sub_if_size using x by (simp add: word_less_nat_alt word_size)
      then have "\<not> unat (0 - x) < unat TICK_HALF" using x by (simp add: word_less_nat_alt)
      then show ?thesis by (simp add: word_less_nat_alt)
    qed
    then show ?thesis using time by (simp add: expired_def k'(5) f)
  qed
  moreover have "expired k' j = expired k j" if "j \<noteq> ?i" for j
    using other [OF that] by (simp add: expired_def f)
  ultimately have "tick_inv k'" "set (expired_list k') \<subseteq> set (expired_list k)"
    using k'(3) unfolding set_expired_list by (blast, metis (no_types, lifting) insertE mem_Collect_eq subsetI)
  then show ?thesis using k'(1) by (intro that [of k']) (simp_all add: f)
qed

text \<open>Firing the timer of a thread wakes the thread.\<close>

lemma fire_thread:
  assumes inv: "tick_inv k" and l: "TThread th \<in> set (timer_list k)"
  obtains k' where "fire_timer cb (TThread th) k = Some k'" "tick_inv k'" "tick k' = tick k"
    "timer_list k' = removeAll (TThread th) (timer_list k)"
    "\<forall>j. expired k' j = expired k j"
    "threads k' = (threads k)(th := (threads k th)\<lparr>th_error := - RT_ETIMEOUT,
       th_stat := with_stat RT_THREAD_READY (th_stat (threads k th))\<rparr>)"
    "scheduler_lock_nest k = 0 \<longrightarrow> current_top k'"
    "scheduler_lock_nest k' = scheduler_lock_nest k" "core_only k k'"
    "\<forall>h. (\<forall>p. h \<noteq> LReady p) \<longrightarrow> lists k' h = removeAll th (lists k h)"
proof -
  let ?t = "TThread th" and ?k0 = "timer_remove (TThread th) k"
  note f0 = timers_only_frame [OF timers_only_steps(2), of ?t k]
  have p0: "periods_ok ?k0" using inv by (simp add: tick_inv_def periods_ok_def tm_periodic_def)
  have "timer_inv 1 ?k0" using inv by (auto simp: tick_inv_def kinv_def intro: timer_remove_inv)
  then have inv0: "tick_inv ?k0" using p0 by (intro tick_inv_frame [OF inv]) (simp_all add: f0)
  have s0: "stat_of ?k0 u = stat_of k u" for u by (simp add: stat_of_def f0)
  have sus: "th_suspended ?k0 th"
    unfolding s0 using inv l by (auto simp: tick_inv_def kinv_def timer_inv_def)
  have kinv0: "kinv 1 ?k0" "current_thread ?k0 \<noteq> None" using inv0 by (auto simp: tick_inv_def)
  have out0: "?t \<notin> set (timer_list ?k0)" by simp
  obtain k1 where k1: "rt_thread_timeout th ?k0 = Some k1" "kinv 1 k1" "core_only ?k0 k1"
    "timers k1 = timers ?k0" "timer_list k1 = timer_list ?k0" "current_thread k1 \<noteq> None"
    "threads k1 = (threads ?k0)(th := (threads ?k0 th)\<lparr>th_error := - RT_ETIMEOUT,
       th_stat := with_stat RT_THREAD_READY (th_stat (threads ?k0 th))\<rparr>)"
    "lists k1 = (\<lambda>h. removeAll th (lists ?k0 h))
      (LReady (prio_of ?k0 th) := lists ?k0 (LReady (prio_of ?k0 th)) @ [th])"
    "scheduler_lock_nest ?k0 = 0 \<longrightarrow> current_top k1"
    by (rule timeout_kinv [OF kinv0(1) sus out0 kinv0(2)])
  note c1 = core_only_frame [OF k1(3)]
  have "periods_ok k1" using p0 by (simp add: periods_ok_def tm_periodic_def k1(4))
  then have inv1: "tick_inv k1" using k1(2,6) by (simp add: tick_inv_def)
  have np: "\<not> tm_periodic k1 ?t" using inv1 by (simp add: tick_inv_def periods_ok_def)
  let ?k2 = "clear_tflag ?t RT_TIMER_FLAG_ACTIVATED k1"
  have o2: "timers_only k1 ?k2" by (simp add: clear_tflag_def)
  note f2 = timers_only_frame [OF o2]
  have "current_top k1 \<Longrightarrow> current_top ?k2"
    by (simp add: current_top_def top_ready_def stat_of_def f2)
  moreover have "expired ?k2 j = expired k j" for j
  proof -
    have "timeout_of ?k2 j = timeout_of k j" by (simp add: clear_tflag_def k1(4))
    moreover have "tick ?k2 = tick k" by (simp add: f2 c1 f0)
    ultimately show ?thesis by (simp only: expired_def)
  qed
  moreover have "tick_inv ?k2" using clear_activated_inv(1) [OF inv1, of ?t] by (simp add: k1(5))
  moreover have "timer_list ?k2 = removeAll ?t (timer_list k)" by (simp add: clear_tflag_def k1(5))
  moreover have "core_only k ?k2"
    by (rule core_only_trans [OF core_only_trans [OF timers_only_core [OF timers_only_steps(2)] k1(3)]
          timers_only_core [OF o2]])
  moreover have "lists ?k2 h = removeAll th (lists k h)" if "\<forall>p. h \<noteq> LReady p" for h
    using that by (simp add: f2 k1(8) f0)
  moreover have "fire_timer cb ?t k = Some ?k2" using k1(1) np by (simp add: fire_timer_def)
  ultimately show ?thesis
    using k1(7,9) by (intro that [of ?k2]) (simp_all add: f2 c1 f0)
qed

lemma fire_spec:
  assumes inv: "tick_inv k" and calm: "calm cb" and l: "timer_list k = t # ts" and ex: "expired k t"
  obtains k' where "fire_timer cb t k = Some k'" "tick_inv k'" "tick k' = tick k"
    "set (expired_list k') \<subseteq> set (expired_list k) - {t}"
proof -
  let ?k0 = "timer_remove t k"
  note f0 = timers_only_frame [OF timers_only_steps(2), of t k]
  have p0: "periods_ok ?k0" using inv by (simp add: tick_inv_def periods_ok_def tm_periodic_def)
  have "timer_inv 1 ?k0" using inv by (auto simp: tick_inv_def kinv_def intro: timer_remove_inv)
  then have inv0: "tick_inv ?k0" using p0 by (intro tick_inv_frame [OF inv]) (simp_all add: f0)
  have ex0: "set (expired_list ?k0) = set (expired_list k) - {t}"
    by (auto simp: set_expired_list expired_def f0)
  show ?thesis
  proof (cases t)
    case (TThread th)
    then have "TThread th \<in> set (timer_list k)" using l by simp
    from fire_thread [OF inv this, of cb] TThread obtain k' where k': "fire_timer cb t k = Some k'"
      "tick_inv k'" "tick k' = tick k" "timer_list k' = removeAll t (timer_list k)"
      "\<forall>j. expired k' j = expired k j" by metis
    then show ?thesis by (intro that [of k']) (auto simp: set_expired_list)
  next
    case (TUser i)
    obtain k1 where k1: "cb i ?k0 = Some k1" "tick_inv k1" "tick k1 = tick ?k0"
      "set (expired_list k1) \<subseteq> set (expired_list ?k0)"
      using calm inv0 unfolding calm_def by blast
    let ?k2 = "clear_tflag t RT_TIMER_FLAG_ACTIVATED k1"
    have k2: "tick_inv ?k2" "expired_list ?k2 = expired_list k1" "tick ?k2 = tick k1"
      using clear_activated_inv [OF k1(2), of t] TUser by auto
    show ?thesis
    proof (cases "tm_periodic k1 t \<and> tm_activated k1 t")
      case False
      then show ?thesis
        using k1 k2 ex0 by (intro that [of ?k2]) (auto simp: fire_timer_def TUser f0 [unfolded TUser])
    next
      case True
      have per2: "tm_periodic ?k2 (TUser i)" using True by (simp add: periodic_simps TUser)
      obtain k3 where k3: "rt_timer_start (TUser i) ?k2 = Some k3" "tick_inv k3" "tick k3 = tick ?k2"
        "set (expired_list k3) \<subseteq> set (expired_list ?k2)"
        by (rule restart_inv [OF k2(1) per2])
      then show ?thesis
        using True k1 k2 ex0 by (intro that [of k3]) (auto simp: fire_timer_def TUser f0 [unfolded TUser])
    qed
  qed
qed

lemma timer_check_spec:
  assumes "tick_inv k" and calm: "calm cb"
  shows "\<exists>k'. timer_check_loop cb (tick k) k = Some k' \<and> tick_inv k' \<and> tick k' = tick k \<and>
    expired_list k' = []"
  using assms(1)
proof (induction "card (set (expired_list k))" arbitrary: k rule: less_induct)
  case less
  show ?case
  proof (cases "timer_list k")
    case Nil
    then show ?thesis
      using less.prems by (subst timer_check_loop.simps) (simp add: expired_list_def)
  next
    case (Cons t ts)
    show ?thesis
    proof (cases "expired k t")
      case False
      have "kinv 1 k" using less.prems by (simp add: tick_inv_def)
      then have "expired_list k = []"
        using head_not_expired [OF _ Cons False] by (auto simp: expired_list_def filter_empty_conv)
      then show ?thesis
        using less.prems Cons False
        by (subst timer_check_loop.simps) (simp add: expired_def)
    next
      case True
      obtain k1 where k1: "fire_timer cb t k = Some k1" "tick_inv k1" "tick k1 = tick k"
        "set (expired_list k1) \<subseteq> set (expired_list k) - {t}"
        by (rule fire_spec [OF less.prems calm Cons True])
      have "t \<in> set (expired_list k)" using Cons True by (simp add: set_expired_list)
      then have "card (set (expired_list k1)) < card (set (expired_list k))"
        using k1(4) by (intro psubset_card_mono) auto
      from less.hyps [OF this k1(2)] k1 show ?thesis
        using Cons True
        by (subst timer_check_loop.simps) (simp add: expired_def rt_tick_get_def)
    qed
  qed
qed

text \<open>The tick before \<^verbatim>\<open>rt_timer_check\<close>: the time slice of the running thread.\<close>

lemma tick_slice:
  assumes inv: "kinv 0 k" and per: "periods_ok k"
    and cur: "current_thread k = Some t" and ready: "th_ready k t"
  obtains k3 r where "\<forall>cb. rt_tick_increase cb k = timer_check_loop cb (tick k3) k3" "tick_inv k3"
    "core_only (k\<lparr>tick := tick k + 1\<rparr>) k3" "timers k3 = timers k" "timer_list k3 = timer_list k"
    "threads k3 = (threads k)(t := (threads k t)\<lparr>th_remaining_tick := r\<rparr>)"
    "\<forall>h. (\<forall>p. h \<noteq> LReady p) \<longrightarrow> lists k3 h = lists k h"
    "scheduler_lock_nest k = 0 \<longrightarrow> (\<exists>u. current_thread k3 = Some u \<and> th_ready k3 u)"
proof -
  let ?k1 = "k\<lparr>tick := tick k + 1\<rparr>"
  let ?k2 = "upd_thread t (\<lambda>th. th\<lparr>th_remaining_tick := th_remaining_tick th - 1\<rparr>) ?k1"
  let ?k2' = "upd_thread t (\<lambda>th. th\<lparr>th_remaining_tick := th_init_tick th\<rparr>) ?k2"
  have k1: "kinv 1 ?k1" by (rule tick_kinv [OF inv])
  have upd: "kinv 1 (upd_thread t f k)" if "kinv 1 k"
    "\<And>th. th_stat (f th) = th_stat th" "\<And>th. th_current_priority (f th) = th_current_priority th"
    "\<And>th. th_number_mask (f th) = th_number_mask th" for f k
  proof -
    have "sched_inv {} (upd_thread t f k)" by (rule upd_same_stat) (use that in \<open>auto simp: kinv_def\<close>)
    moreover have "timer_inv 1 (upd_thread t f k)"
      by (rule timer_inv_cong [of 1 k]) (use that in \<open>auto simp: kinv_def stat_of_def\<close>)
    ultimately show ?thesis by (simp add: kinv_def)
  qed
  have k2: "kinv 1 ?k2" by (rule upd [OF k1]) simp_all
  have k2': "kinv 1 ?k2'" by (rule upd [OF k2]) simp_all
  have core: "core_only ?k1 ?k2" "core_only ?k1 ?k2'"
    by (rule core_only_steps, rule core_only_trans [OF core_only_steps(1) core_only_steps(1)])
  have run: "rt_tick_increase cb k = Option.bind (if th_remaining_tick (threads ?k2 t) = 0
      then rt_thread_yield ?k2' else Some ?k2) (\<lambda>k3. timer_check_loop cb (tick k3) k3)" for cb
    using cur by (simp add: rt_tick_increase_def rt_thread_self_def rt_timer_check_def [abs_def]
        rt_tick_get_def Let_def)
  have c2: "current_thread ?k2 = Some t" "th_ready ?k2 t" "current_thread ?k2' = Some t" "th_ready ?k2' t"
    using cur ready by (simp_all add: stat_of_def)
  show ?thesis
  proof (cases "th_remaining_tick (threads ?k2 t) = 0")
    case True
    let ?l = "lists ?k2' (LReady (prio_of ?k2' t))"
    obtain k3 where k3: "rt_thread_yield ?k2' = Some k3" "kinv 1 k3" "core_only ?k2' k3"
      "threads k3 = threads ?k2'" "timers k3 = timers ?k2'" "timer_list k3 = timer_list ?k2'"
      "current_thread k3 \<noteq> None"
      "lists k3 = (lists ?k2')(LReady (prio_of ?k2' t) := (if length ?l > 1 then removeAll t ?l @ [t] else ?l))"
      "scheduler_lock_nest ?k2' = 0 \<and> length ?l > 1 \<longrightarrow> current_top k3"
      by (rule yield_kinv [OF k2' c2(3,4)])
    have "\<exists>u. current_thread k3 = Some u \<and> th_ready k3 u" if "scheduler_lock_nest k = 0"
    proof (cases "length ?l > 1")
      case True
      then show ?thesis using k3(9) that by (auto simp: current_top_def)
    next
      case False
      then have "k3 = ?k2'" using k3(1) c2(3) by (simp add: rt_thread_yield_def)
      then show ?thesis using c2(3,4) by simp
    qed
    moreover have "periods_ok k3" using per by (simp add: periods_ok_def tm_periodic_def k3(5))
    moreover have "rt_tick_increase cb k = timer_check_loop cb (tick k3) k3" for cb
      unfolding run using True k3(1) by simp
    ultimately show ?thesis
      using k3(2,7) core_only_trans [OF core(2) k3(3)]
      by (intro that [of k3 "th_init_tick (threads k t)"]) (simp_all add: tick_inv_def k3(4,5,6,8))
  next
    case False
    have "periods_ok ?k2" using per by (simp add: periods_ok_def tm_periodic_def)
    moreover have "rt_tick_increase cb k = timer_check_loop cb (tick ?k2) ?k2" for cb
      unfolding run using False by simp
    ultimately show ?thesis
      using k2 core(1) c2 cur
      by (intro that [of ?k2 "th_remaining_tick (threads k t) - 1"]) (simp_all add: tick_inv_def)
  qed
qed

text \<open>C8: \<^verbatim>\<open>rt_tick_increase\<close>, the tick interrupt, always returns and keeps the kernel
  invariants, advances the tick by one and leaves no expired timer in the list; in
  particular the assertion of \<^verbatim>\<open>rt_thread_timeout\<close> that its thread is suspended never fails.\<close>

theorem tick_keeps_invariants:
  assumes inv: "kinv 0 k" and per: "periods_ok k" and calm: "calm cb"
    and cur: "current_thread k = Some t" and ready: "th_ready k t"
  shows "\<exists>k'. rt_tick_increase cb k = Some k' \<and> kinv 0 k' \<and> tick k' = tick k + 1 \<and>
    (\<forall>i \<in> set (timer_list k'). \<not> expired k' i)"
proof -
  obtain k3 r where k3: "\<forall>cb. rt_tick_increase cb k = timer_check_loop cb (tick k3) k3" "tick_inv k3"
    "core_only (k\<lparr>tick := tick k + 1\<rparr>) k3" by (rule tick_slice [OF inv per cur ready])
  obtain k' where k': "timer_check_loop cb (tick k3) k3 = Some k'" "tick_inv k'" "tick k' = tick k3"
    "expired_list k' = []" using timer_check_spec [OF k3(2) calm] by blast
  have ne: "\<not> expired k' i" if "i \<in> set (timer_list k')" for i
    using k'(4) that by (auto simp: expired_list_def filter_empty_conv)
  have "kinv 0 k'" by (rule check_done_kinv) (use k'(2) ne in \<open>auto simp: tick_inv_def\<close>)
  moreover have "tick k3 = tick k + 1" using core_only_frame(3) [OF k3(3)] by simp
  ultimately show ?thesis using k' k3(1) ne by auto
qed

text \<open>A sleeping thread: thread 2 of the demo kernel, whose timer runs out at tick 101.\<close>

definition demo_sleep :: kernel where
  "demo_sleep = demo_kernel\<lparr>
     timers := (\<lambda>_. \<lparr>tm_flag = RT_TIMER_FLAG_ACTIVATED, tm_init_tick = 10, tm_timeout_tick = 101\<rparr>),
     timer_list := [TThread 2], current_thread := Some 1, current_priority := 10\<rparr>"

lemma demo_sleep_inv: "kinv 0 demo_sleep" "periods_ok demo_sleep"
proof -
  have "sched_inv {} demo_sleep"
    by (rule sched_inv_cong [OF demo_inv]) (simp_all add: demo_sleep_def)
  moreover have "timer_inv 0 demo_sleep"
    by (auto simp: timer_inv_def timers_sorted_def demo_sleep_def demo_kernel_def demo_thread_def
        ticks_left_def stat_of_def tm_activated_def)
  ultimately show "kinv 0 demo_sleep" by (simp add: kinv_def)
  show "periods_ok demo_sleep" by (simp add: periods_ok_def tm_periodic_def demo_sleep_def)
qed

lemma calm_skip: "calm (\<lambda>_ k. Some k)"
  by (simp add: calm_def)

lemma tick_keeps_invariants_witness:
  "\<exists>k'. rt_tick_increase (\<lambda>_ k. Some k) demo_sleep = Some k' \<and> kinv 0 k' \<and> tick k' = 101 \<and>
    (\<forall>i \<in> set (timer_list k'). \<not> expired k' i)"
proof -
  have "current_thread demo_sleep = Some 1" "th_ready demo_sleep 1" "tick demo_sleep + 1 = 101"
    by (simp_all add: demo_sleep_def demo_kernel_def demo_thread_def stat_of_def)
  then show ?thesis
    using tick_keeps_invariants [OF demo_sleep_inv calm_skip, of 1] by simp
qed

section \<open>Which threads a check wakes\<close>

abbreviation timed_out :: "thread \<Rightarrow> thread" where
  "timed_out th \<equiv> th\<lparr>th_error := - RT_ETIMEOUT, th_stat := with_stat RT_THREAD_READY (th_stat th)\<rparr>"

lemma check_wakes:
  assumes "tick_inv k" "\<forall>t \<in> set (expired_list k). \<exists>th. t = TThread th"
  shows "\<exists>k'. timer_check_loop cb (tick k) k = Some k' \<and>
    timer_list k' = filter (\<lambda>t. \<not> expired k t) (timer_list k) \<and>
    threads k' = (\<lambda>u. if TThread u \<in> set (expired_list k) then timed_out (threads k u)
                      else threads k u) \<and>
    (scheduler_lock_nest k = 0 \<and> expired_list k \<noteq> [] \<longrightarrow> current_top k')"
  using assms
proof (induction "card (set (expired_list k))" arbitrary: k rule: less_induct)
  case less
  show ?case
  proof (cases "timer_list k")
    case Nil
    then show ?thesis by (subst timer_check_loop.simps) (simp add: expired_list_def)
  next
    case (Cons t ts)
    show ?thesis
    proof (cases "expired k t")
      case False
      have "kinv 1 k" using less.prems by (simp add: tick_inv_def)
      then have n: "\<not> expired k x" if "x \<in> set (timer_list k)" for x
        using head_not_expired [OF _ Cons False that] by simp
      have e: "expired_list k = []" using n by (simp add: expired_list_def filter_empty_conv)
      have f: "filter (\<lambda>t. \<not> expired k t) (timer_list k) = timer_list k" using n by simp
      have "timer_check_loop cb (tick k) k = Some k"
        using Cons False by (subst timer_check_loop.simps) (simp add: expired_def)
      then show ?thesis using e f by simp
    next
      case True
      have t_in: "t \<in> set (expired_list k)" using Cons True by (simp add: set_expired_list)
      then obtain th where th: "t = TThread th" using less.prems(2) by blast
      have "TThread th \<in> set (timer_list k)" using th Cons by simp
      from fire_thread [OF less.prems(1) this, of cb] obtain k1 where
        k1: "fire_timer cb (TThread th) k = Some k1" "tick_inv k1" "tick k1 = tick k"
        "timer_list k1 = removeAll (TThread th) (timer_list k)" "\<forall>j. expired k1 j = expired k j"
        "threads k1 = (threads k)(th := timed_out (threads k th))"
        "scheduler_lock_nest k = 0 \<longrightarrow> current_top k1"
        "scheduler_lock_nest k1 = scheduler_lock_nest k" by metis
      have ex1: "set (expired_list k1) = set (expired_list k) - {t}"
        using k1(4,5) by (auto simp: set_expired_list th)
      then have "card (set (expired_list k1)) < card (set (expired_list k))"
        using t_in by (intro psubset_card_mono) auto
      moreover have "\<forall>t \<in> set (expired_list k1). \<exists>th. t = TThread th" using less.prems(2) ex1 by auto
      ultimately obtain k' where k': "timer_check_loop cb (tick k1) k1 = Some k'"
        "timer_list k' = filter (\<lambda>t. \<not> expired k1 t) (timer_list k1)"
        "threads k' = (\<lambda>u. if TThread u \<in> set (expired_list k1) then timed_out (threads k1 u)
                      else threads k1 u)"
        "scheduler_lock_nest k1 = 0 \<and> expired_list k1 \<noteq> [] \<longrightarrow> current_top k'"
        using less.hyps [OF _ k1(2)] by blast
      have loop: "timer_check_loop cb (tick k) k = Some k'"
        using Cons True k1(1,3) k'(1) th
        by (subst timer_check_loop.simps) (simp add: expired_def rt_tick_get_def)
      moreover have "timer_list k' = filter (\<lambda>t. \<not> expired k t) (timer_list k)"
        using k'(2) k1(4,5) True th
        by (auto simp: removeAll_filter_not_eq intro: filter_cong)
      moreover have "threads k' = (\<lambda>u. if TThread u \<in> set (expired_list k)
          then timed_out (threads k u) else threads k u)"
        using k'(3) k1(6) ex1 t_in th by (auto simp: fun_eq_iff)
      moreover have "current_top k'" if "scheduler_lock_nest k = 0"
      proof (cases "expired_list k1 = []")
        case False
        then show ?thesis using k'(4) that k1(8) by simp
      next
        case e: True
        have "timer_check_loop cb (tick k1) k1 = Some k1"
        proof (cases "timer_list k1")
          case (Cons x xs)
          then have "\<not> expired k1 x" using e by (auto simp: expired_list_def filter_empty_conv)
          then show ?thesis using Cons by (subst timer_check_loop.simps) (simp add: expired_def)
        qed (subst timer_check_loop.simps, simp)
        then show ?thesis using k'(1) k1(7) that by simp
      qed
      ultimately show ?thesis by blast
    qed
  qed
qed

text \<open>C15: when the timers that have run out are thread timers, \<^verbatim>\<open>rt_timer_check\<close> takes exactly
  those out of the list, wakes exactly their threads with the error \<^verbatim>\<open>-RT_ETIMEOUT\<close>, changes
  no other thread, and leaves the highest-priority ready thread running.\<close>

theorem timer_check_wakes_expired:
  assumes "kinv 1 k" "periods_ok k" "current_thread k = Some c" "scheduler_lock_nest k = 0"
    and "\<forall>t \<in> set (timer_list k). expired k t \<longrightarrow> (\<exists>th. t = TThread th)"
    and "t0 \<in> set (timer_list k)" "expired k t0"
  shows "\<exists>k'. rt_timer_check cb k = Some k' \<and>
    timer_list k' = filter (\<lambda>t. \<not> expired k t) (timer_list k) \<and>
    (\<forall>u. threads k' u =
      (if TThread u \<in> set (timer_list k) \<and> expired k (TThread u)
       then (threads k u)\<lparr>th_error := - RT_ETIMEOUT,
              th_stat := with_stat RT_THREAD_READY (th_stat (threads k u))\<rparr>
       else threads k u)) \<and>
    current_top k'"
proof -
  have i: "tick_inv k" using assms(1,2,3) by (simp add: tick_inv_def)
  have e: "\<forall>t \<in> set (expired_list k). \<exists>th. t = TThread th"
    using assms(5) by (simp add: set_expired_list)
  have ne: "expired_list k \<noteq> []" using assms(6,7) by (auto simp: expired_list_def filter_empty_conv)
  from check_wakes [OF i e, of cb] ne assms(4) show ?thesis
    by (auto simp: rt_timer_check_def rt_tick_get_def set_expired_list)
qed

lemma timer_check_wakes_expired_witness:
  "\<exists>k'. rt_timer_check (\<lambda>_ _. None) (demo_sleep\<lparr>tick := 101\<rparr>) = Some k' \<and> timer_list k' = [] \<and>
    error_of k' 2 = - RT_ETIMEOUT \<and> error_of k' 1 = RT_EOK \<and> current_top k'"
proof -
  let ?k = "demo_sleep\<lparr>tick := 101\<rparr>"
  have tk: "tick demo_sleep + 1 = 101" by (simp add: demo_sleep_def demo_kernel_def)
  have i: "kinv 1 ?k" using tick_kinv [OF demo_sleep_inv(1)] unfolding tk .
  have p: "periods_ok ?k" using demo_sleep_inv(2) by (simp add: periods_ok_def tm_periodic_def)
  have x: "current_thread ?k = Some 1" "scheduler_lock_nest ?k = 0"
    "\<forall>t \<in> set (timer_list ?k). expired ?k t \<longrightarrow> (\<exists>th. t = TThread th)"
    "TThread 2 \<in> set (timer_list ?k)" "expired ?k (TThread 2)"
    by (simp_all add: demo_sleep_def demo_kernel_def expired_def)
  from timer_check_wakes_expired [OF i p x, of "\<lambda>_ _. None"] obtain k' where
    k': "rt_timer_check (\<lambda>_ _. None) ?k = Some k'"
    "timer_list k' = filter (\<lambda>t. \<not> expired ?k t) (timer_list ?k)"
    "\<forall>u. threads k' u = (if TThread u \<in> set (timer_list ?k) \<and> expired ?k (TThread u)
       then timed_out (threads ?k u) else threads ?k u)" "current_top k'" by blast
  have "timer_list ?k = [TThread 2]" by (simp add: demo_sleep_def)
  then show ?thesis
    using k' x(5) by (auto simp: demo_sleep_def demo_kernel_def demo_thread_def RT_EOK_def)
qed

section \<open>Time slices\<close>

text \<open>When the time slice of the running thread ends and other threads of its priority are
  ready, the thread goes behind them, gets a new slice, and the next one runs: threads of
  equal priority take turns.\<close>

theorem tick_round_robin:
  assumes inv: "kinv 0 k" and cur: "current_thread k = Some t" and top: "current_top k"
    and slice: "th_remaining_tick (threads k t) = 1" and unl: "scheduler_lock_nest k = 0"
    and tl: "timer_list k = []" and l: "lists k (LReady (prio_of k t)) = t # u # us"
  shows "\<exists>k'. rt_tick_increase cb k = Some k' \<and> current_thread k' = Some u \<and>
    lists k' (LReady (prio_of k t)) = u # us @ [t] \<and>
    th_remaining_tick (threads k' t) = th_init_tick (threads k t)"
proof -
  let ?k1 = "k\<lparr>tick := tick k + 1\<rparr>"
  let ?k2 = "upd_thread t (\<lambda>th. th\<lparr>th_remaining_tick := th_remaining_tick th - 1\<rparr>) ?k1"
  let ?k3 = "upd_thread t (\<lambda>th. th\<lparr>th_remaining_tick := th_init_tick th\<rparr>) ?k2"
  have ready: "th_ready k t" and le: "\<And>v. th_ready k v \<Longrightarrow> prio_of k t \<le> prio_of k v"
    using top cur by (auto simp: current_top_def top_ready_def)
  have k1: "kinv 1 ?k1" by (rule tick_kinv [OF inv])
  have s3: "stat_of ?k3 v = stat_of k v" "prio_of ?k3 v = prio_of k v" for v
    by (simp_all add: stat_of_def)
  have "sched_inv {} ?k2" by (rule upd_same_stat) (use k1 in \<open>auto simp: kinv_def\<close>)
  then have "sched_inv {} ?k3" by (rule upd_same_stat) simp_all
  moreover have "timer_inv 1 ?k3" by (simp add: timer_inv_def timers_sorted_def tl)
  ultimately have k3: "kinv 1 ?k3" by (simp add: kinv_def)
  have c3: "current_thread ?k3 = Some t" "th_ready ?k3 t" using cur ready s3 by simp_all
  obtain k4 where k4: "rt_thread_yield ?k3 = Some k4" "kinv 1 k4" "core_only ?k3 k4"
    "threads k4 = threads ?k3" "timers k4 = timers ?k3" "timer_list k4 = timer_list ?k3"
    "current_thread k4 \<noteq> None"
    "lists k4 = (lists ?k3)(LReady (prio_of ?k3 t) :=
       (if length (lists ?k3 (LReady (prio_of ?k3 t))) > 1
        then removeAll t (lists ?k3 (LReady (prio_of ?k3 t))) @ [t]
        else lists ?k3 (LReady (prio_of ?k3 t))))"
    "scheduler_lock_nest ?k3 = 0 \<and> length (lists ?k3 (LReady (prio_of ?k3 t))) > 1 \<longrightarrow> current_top k4"
    by (rule yield_kinv [OF k3 c3])
  have d: "distinct (t # u # us)" using inv l unfolding kinv_def sched_inv_def links_ok_def by metis
  then have rm: "removeAll t (t # u # us) = u # us" by auto
  have l3: "lists ?k3 (LReady (prio_of k t)) = t # u # us" using l by simp
  have l4: "lists k4 (LReady (prio_of k t)) = u # us @ [t]" using k4(8) rm by (simp add: l)
  have t4: "threads k4 v = threads ?k3 v" for v by (simp only: k4(4))
  have u4: "th_ready k4 u" "prio_of k4 u = prio_of k t"
    using in_list_ready [of "{}" k4 u "prio_of k t"] k4(2) l4 by (auto simp: kinv_def)
  obtain c where c: "current_thread k4 = Some c" "th_ready k4 c" "top_ready k4 c"
    using k4(9) unl l3 s3 by (auto simp: current_top_def)
  have "prio_of k4 c = prio_of k t"
  proof (rule antisym)
    show "prio_of k4 c \<le> prio_of k t" using c(3) u4 by (auto simp: top_ready_def)
    have "th_ready k c" "prio_of k4 c = prio_of k c"
      using c(2) s3 by (simp_all add: stat_of_def t4)
    then show "prio_of k t \<le> prio_of k4 c" using le by simp
  qed
  then have "c = u" using c(3) l4 by (auto simp: top_ready_def)
  moreover have "rt_tick_increase cb k = Some k4"
  proof -
    have "rt_timer_check cb k4 = Some k4"
      by (simp add: rt_timer_check_def, subst timer_check_loop.simps) (simp add: k4(6) tl)
    then show ?thesis
      using k4(1) cur slice by (simp add: rt_tick_increase_def rt_thread_self_def Let_def)
  qed
  moreover have "th_remaining_tick (threads k4 t) = th_init_tick (threads k t)" by (simp add: t4)
  ultimately show ?thesis using c(1) l4 by blast
qed

definition demo_slice :: kernel where
  "demo_slice = demo_kernel\<lparr>
     threads := (\<lambda>t. if t = 0 then demo_thread 31 RT_THREAD_READY
                    else if t = 1 then (demo_thread 10 RT_THREAD_READY)\<lparr>th_remaining_tick := 1\<rparr>
                    else if t = 2 then demo_thread 10 RT_THREAD_READY
                    else demo_thread 0 RT_THREAD_INIT),
     lists := (\<lambda>h. if h = LReady 31 then [0] else if h = LReady 10 then [1, 2] else []),
     current_thread := Some 1, current_priority := 10\<rparr>"

lemma demo_slice_inv: "kinv 0 demo_slice" "current_top demo_slice"
proof -
  have "ready_priority_group demo_slice = 0x80000400" by (simp add: demo_slice_def demo_kernel_def)
  then have "bitmap_ok demo_slice"
    unfolding bitmap_ok_def by (simp only: demo_group) (simp add: demo_slice_def)
  moreover have "links_ok demo_slice" "ready_ok {} demo_slice" "mask_ok (threads demo_slice t)" for t
    by (auto simp: links_ok_def ready_ok_def mask_ok_def demo_slice_def demo_thread_def stat_of_def
        split: if_splits)
  moreover have "timer_inv 0 demo_slice"
    by (simp add: timer_inv_def timers_sorted_def demo_slice_def demo_kernel_def)
  ultimately show "kinv 0 demo_slice" by (simp add: kinv_def sched_inv_def)
  show "current_top demo_slice"
    by (auto simp: current_top_def top_ready_def demo_slice_def demo_thread_def stat_of_def)
qed

lemma tick_round_robin_witness:
  "\<exists>k'. rt_tick_increase (\<lambda>_ k. Some k) demo_slice = Some k' \<and> current_thread k' = Some 2 \<and>
    lists k' (LReady 10) = [2, 1] \<and> th_remaining_tick (threads k' 1) = 20"
  using tick_round_robin [OF demo_slice_inv(1) _ demo_slice_inv(2), of 1 2 "[]" "\<lambda>_ k. Some k"]
  by (simp add: demo_slice_def demo_kernel_def demo_thread_def)

section \<open>Timers that restart or repeat at once\<close>

text \<open>A one-shot timer whose timeout function starts it again is left in the timer list
  but marked inactive, so that \<^verbatim>\<open>rt_timer_stop\<close> refuses to stop it and it will still fire.\<close>

theorem restart_in_callback_unstoppable:
  assumes l: "timer_list k = [TUser i]" and ex: "expired k (TUser i)"
    and one: "\<not> tm_periodic k (TUser i)"
    and time: "0 < tm_init_tick (timers k (TUser i))" "tm_init_tick (timers k (TUser i)) < TICK_HALF"
    and cb: "cb i = rt_timer_start (TUser i)"
  shows "\<exists>k'. rt_timer_check cb k = Some k' \<and> timer_list k' = [TUser i] \<and>
    rt_timer_stop (TUser i) k' = (- RT_ERROR, k')"
proof -
  let ?i = "TUser i" and ?k0 = "timer_remove (TUser i) k"
  note f0 = timers_only_frame [OF timers_only_steps(2), of ?i k]
  obtain k1 where k1: "rt_timer_start ?i ?k0 = Some k1" "timer_list k1 = [?i]"
    "timeout_of k1 ?i = tick k + tm_init_tick (timers k ?i)" "tm_periodic k1 ?i = tm_periodic k ?i"
    "tick k1 = tick k"
    using time(2) by (simp add: rt_timer_start_eq Let_def l f0 tm_periodic_def
        bit.conj_disj_distrib2 and.assoc)
  let ?k2 = "clear_tflag ?i RT_TIMER_FLAG_ACTIVATED k1"
  have fire: "fire_timer cb ?i k = Some ?k2" using k1 one cb by (simp add: fire_timer_def)
  have k2: "timer_list ?k2 = [?i]" "timeout_of ?k2 ?i = tick k + tm_init_tick (timers k ?i)"
    "tick ?k2 = tick k"
    using k1 timers_only_frame(8) [OF timers_only_steps(1)] by (simp_all add: clear_tflag_def)
  have na: "\<not> tm_activated ?k2 ?i" by (simp add: tm_activated_simps)
  have "\<not> - x < TICK_HALF" if x: "0 < x" "x < TICK_HALF" for x :: u32
  proof -
    have "unat (0 - x) = 2 ^ 32 - unat x"
      unfolding unat_sub_if_size using x by (simp add: word_less_nat_alt word_size)
    then have "\<not> unat (0 - x) < unat TICK_HALF" using x by (simp add: word_less_nat_alt)
    then show ?thesis by (simp add: word_less_nat_alt)
  qed
  then have "timer_check_loop cb (tick k) ?k2 = Some ?k2"
    using k2 time by (subst timer_check_loop.simps) simp
  then have "rt_timer_check cb k = Some ?k2"
    using l ex fire k2(3)
    by (simp add: rt_timer_check_def rt_tick_get_def, subst timer_check_loop.simps)
      (simp add: expired_def rt_tick_get_def)
  then show ?thesis using k2(1) na by (auto simp: rt_timer_stop_def)
qed

definition demo_user_timer :: "u8 \<Rightarrow> u32 \<Rightarrow> kernel" where
  "demo_user_timer flag init = demo_kernel\<lparr>
     timers := (\<lambda>_. \<lparr>tm_flag = flag, tm_init_tick = init, tm_timeout_tick = 100\<rparr>),
     timer_list := [TUser 7]\<rparr>"

lemma restart_in_callback_unstoppable_witness:
  "\<exists>k'. rt_timer_check (\<lambda>i. rt_timer_start (TUser i)) (demo_user_timer 1 10) = Some k' \<and>
    timer_list k' = [TUser 7] \<and> rt_timer_stop (TUser 7) k' = (- RT_ERROR, k')"
  by (rule restart_in_callback_unstoppable)
    (simp_all add: demo_user_timer_def demo_kernel_def expired_def tm_periodic_def)

text \<open>A periodic timer of period 0 expires again as soon as it is restarted.\<close>

definition spinning :: "nat \<Rightarrow> callbacks \<Rightarrow> u32 \<Rightarrow> kernel \<Rightarrow> bool" where
  "spinning i cb c k \<longleftrightarrow> timer_list k = [TUser i] \<and> tm_periodic k (TUser i) \<and>
     tm_activated k (TUser i) \<and> tm_init_tick (timers k (TUser i)) = 0 \<and>
     timeout_of k (TUser i) = tick k \<and> c = tick k \<and> (\<forall>k. cb i k = Some k)"

lemma spinning_step:
  assumes "spinning i cb c k"
  obtains k' where "fire_timer cb (TUser i) k = Some k'" "spinning i cb (tick k') k'"
proof -
  let ?i = "TUser i"
  let ?k1 = "clear_tflag ?i RT_TIMER_FLAG_ACTIVATED (timer_remove ?i k)"
  have o: "timers_only k ?k1"
    unfolding clear_tflag_def by (rule timers_only_trans [OF timers_only_steps(2) timers_only_steps(1)])
  have p1: "tm_periodic ?k1 ?i"
    unfolding periodic_simps using assms by (simp add: spinning_def tm_periodic_def)
  have k1: "timer_list ?k1 = []" "tm_init_tick (timers ?k1 ?i) = 0" "tick ?k1 = tick k"
    using assms timers_only_frame(8) [OF o] by (simp_all add: spinning_def clear_tflag_def)
  obtain k' where k': "rt_timer_start ?i ?k1 = Some k'" using k1 by (simp add: rt_timer_start_eq Let_def)
  have e: "k' = ?k1\<lparr>timers := (timers ?k1)(?i := (timers ?k1 ?i)
      \<lparr>tm_flag := tm_flag (timers ?k1 ?i) AND NOT RT_TIMER_FLAG_ACTIVATED OR RT_TIMER_FLAG_ACTIVATED,
       tm_timeout_tick := tick ?k1\<rparr>), timer_list := [?i]\<rparr>"
    using k' k1 by (simp add: rt_timer_start_eq Let_def)
  have "(x AND - 2 OR 1) AND 2 = x AND (2 :: u8)" "(x AND - 2 OR 1) AND 1 = (1 :: u8)" for x
    by (simp_all add: bit.conj_disj_distrib2 and.assoc)
  then have "tm_periodic k' ?i" "tm_activated k' ?i"
    using p1 by (simp_all add: e tm_periodic_def tm_activated_def)
  then have "spinning i cb (tick k') k'" using assms k1 by (simp add: spinning_def e)
  moreover have "fire_timer cb ?i k = Some k'"
    using assms k' by (simp add: fire_timer_def spinning_def tm_periodic_def tm_activated_def)
  ultimately show ?thesis using that by blast
qed

lemma spinning_diverges:
  assumes "timer_check_loop cb c k = Some y" shows "\<not> spinning i cb c k"
proof (rule timer_check_loop.raw_induct [OF _ assms, of "\<lambda>cb c k y. \<not> spinning i cb c k"])
  fix loop cb c k y
  assume IH: "\<And>cb c k y. loop cb c k = Some y \<Longrightarrow> \<not> spinning i cb c k"
    and step: "(case timer_list k of [] \<Rightarrow> Some k
      | t # x \<Rightarrow> if c - timeout_of k t < TICK_HALF
          then Option.bind (fire_timer cb t k) (\<lambda>k1. loop cb (rt_tick_get k1) k1)
          else Some k) = Some y"
  show "\<not> spinning i cb c k"
  proof
    assume s: "spinning i cb c k"
    obtain k' where k': "fire_timer cb (TUser i) k = Some k'" "spinning i cb (tick k') k'"
      by (rule spinning_step [OF s])
    have "timer_list k = [TUser i]" "c - timeout_of k (TUser i) < TICK_HALF"
      using s by (simp_all add: spinning_def)
    then have "loop cb (tick k') k' = Some y"
      using step k'(1) by (simp add: rt_tick_get_def)
    then show False using IH k'(2) by blast
  qed
qed

text \<open>A periodic timer with period 0 (accepted by \<^verbatim>\<open>rt_timer_init\<close> and \<^verbatim>\<open>rt_timer_start\<close>)
  makes \<^verbatim>\<open>rt_timer_check\<close> loop for ever inside the tick interrupt.\<close>

theorem zero_period_hangs:
  assumes "timer_list k = [TUser i]" "tm_periodic k (TUser i)" "tm_activated k (TUser i)"
    "tm_init_tick (timers k (TUser i)) = 0" "timeout_of k (TUser i) = tick k" "\<forall>k. cb i k = Some k"
  shows "rt_timer_check cb k = None"
proof (cases "rt_timer_check cb k")
  case (Some y)
  then have "\<not> spinning i cb (tick k) k"
    by (intro spinning_diverges) (simp add: rt_timer_check_def rt_tick_get_def)
  then show ?thesis using assms by (simp add: spinning_def)
qed simp

lemma zero_period_hangs_witness:
  "rt_timer_check (\<lambda>_ k. Some k) (demo_user_timer 3 0) = None"
  by (rule zero_period_hangs)
    (simp_all add: demo_user_timer_def demo_kernel_def tm_periodic_def tm_activated_def)

end
