(* ===== verification/Ipc.thy ===== *)
theory Ipc
  imports Clock
begin

text \<open>
  What the IPC objects of \<^verbatim>\<open>rt-thread/src/ipc.c\<close> share: suspending the running thread on a
  wait list, in arrival or priority order, with an optional timeout, and resuming the first
  or all waiting threads. Every blocking call of ipc.c contains the same steps; they are one
  definition here, \<open>suspend_current\<close>.
\<close>

section \<open>Operations\<close>

text \<open>The insertion loop for \<^verbatim>\<open>RT_IPC_FLAG_PRIO\<close>: before the first thread of lower priority.\<close>

fun insert_prio :: "(nat \<Rightarrow> nat) \<Rightarrow> nat \<Rightarrow> nat list \<Rightarrow> nat list" where
  "insert_prio pr t [] = [t]"
| "insert_prio pr t (s # ss) = (if pr t < pr s then t # s # ss else s # insert_prio pr t ss)"

definition rt_ipc_list_suspend :: "lhead \<Rightarrow> nat \<Rightarrow> u8 \<Rightarrow> kernel \<Rightarrow> kernel" where
  "rt_ipc_list_suspend h t flag k =
     (let k1 = snd (rt_thread_suspend t k)
      in if flag = RT_IPC_FLAG_FIFO then list_insert_before h t k1
         else if flag = RT_IPC_FLAG_PRIO
         then k1\<lparr>lists := (lists k1)(h := insert_prio (prio_of k1) t (lists k1 h))\<rparr>
         else k1)"

definition rt_ipc_list_resume :: "lhead \<Rightarrow> kernel \<Rightarrow> kernel option" where
  "rt_ipc_list_resume h k =
     (case lists k h of [] \<Rightarrow> None | t # _ \<Rightarrow> Some (snd (rt_thread_resume t k)))"

partial_function (option) rt_ipc_list_resume_all :: "lhead \<Rightarrow> kernel \<Rightarrow> kernel option" where
  "rt_ipc_list_resume_all h k =
     (case lists k h of
        [] \<Rightarrow> Some k
      | t # _ \<Rightarrow> rt_ipc_list_resume_all h
                   (snd (rt_thread_resume t (set_error t (- RT_ERROR) k))))"

definition arm_and_schedule :: "int \<Rightarrow> nat \<Rightarrow> kernel \<Rightarrow> kernel option" where
  "arm_and_schedule time t k = do {
     k1 \<leftarrow> (if time > 0 then start_thread_timer t (word_of_int time) k else Some k);
     rt_schedule k1
   }"

definition suspend_current :: "lhead \<Rightarrow> u8 \<Rightarrow> int \<Rightarrow> nat \<Rightarrow> kernel \<Rightarrow> kernel option" where
  "suspend_current h flag time t k = arm_and_schedule time t (rt_ipc_list_suspend h t flag k)"

text \<open>\<^verbatim>\<open>RT_DEBUG_IN_THREAD_CONTEXT\<close>: the scheduler runs and no interrupt is being served.\<close>

definition in_thread_context :: "kernel \<Rightarrow> bool" where
  "in_thread_context k \<longleftrightarrow> current_thread k \<noteq> None \<and> interrupt_nest k = 0"

text \<open>The end of a waking call: the first waiting thread becomes ready.\<close>

definition wake_and_schedule :: "lhead \<Rightarrow> kernel \<Rightarrow> kernel option" where
  "wake_and_schedule h k =
     (if lists k h \<noteq> [] then do { k1 \<leftarrow> rt_ipc_list_resume h k; rt_schedule k1 } else Some k)"

text \<open>A thread that waited from the tick \<open>start\<close> on and was woken recomputes its timeout:
  \<^verbatim>\<open>timeout -= tick_delta\<close> mixes a signed and an unsigned 32-bit number, and a negative result
  is made 0.\<close>

definition remaining_timeout :: "int \<Rightarrow> u32 \<Rightarrow> kernel \<Rightarrow> int" where
  "remaining_timeout timeout start k =
     (if timeout > 0
      then let rest = sint (word_of_int timeout - (tick k - start)) in if rest < 0 then 0 else rest
      else timeout)"

text \<open>\<^verbatim>\<open>rt_ipc_object_init\<close>: an empty wait list.\<close>

definition rt_ipc_object_init :: "lhead \<Rightarrow> kernel \<Rightarrow> kernel" where
  "rt_ipc_object_init h k = k\<lparr>lists := (lists k)(h := [])\<rparr>"

section \<open>Lemmas\<close>

fun wait_head :: "lhead \<Rightarrow> bool" where
  "wait_head (LReady p) = False"
| "wait_head LDefunct = False"
| "wait_head _ = True"

lemma wait_head_fits: "wait_head h \<Longrightarrow> stat_fits h s = (s = RT_THREAD_SUSPEND)"
  by (cases h) simp_all

lemma wait_head_not_ready: "wait_head h \<Longrightarrow> h \<noteq> LReady p"
  by auto

lemma waiting_suspended:
  "kinv d k \<Longrightarrow> wait_head h \<Longrightarrow> t \<in> set (lists k h) \<Longrightarrow> th_suspended k t"
  unfolding kinv_def sched_inv_def ready_ok_def using wait_head_fits by blast

lemma waiting_one_list:
  "kinv d k \<Longrightarrow> t \<in> set (lists k h) \<Longrightarrow> t \<in> set (lists k h') \<Longrightarrow> h = h'"
  unfolding kinv_def sched_inv_def links_ok_def by blast

lemma ready_not_waiting: "kinv d k \<Longrightarrow> th_ready k t \<Longrightarrow> wait_head h \<Longrightarrow> t \<notin> set (lists k h)"
  using waiting_suspended by fastforce

lemma insert_prio_split:
  "\<exists>xs ys. l = xs @ ys \<and> insert_prio pr t l = xs @ t # ys \<and> (\<forall>s \<in> set xs. pr s \<le> pr t)"
proof (induction l)
  case Nil
  show ?case by (rule exI [of _ "[]"]) simp
next
  case (Cons s ss)
  then obtain xs ys where s: "ss = xs @ ys" "insert_prio pr t ss = xs @ t # ys"
    "\<forall>s \<in> set xs. pr s \<le> pr t" by blast
  show ?case
  proof (cases "pr t < pr s")
    case True
    then show ?thesis by (intro exI [of _ "[]"] exI [of _ "s # ss"]) simp
  next
    case False
    then show ?thesis using s by (intro exI [of _ "s # xs"] exI [of _ ys]) auto
  qed
qed

text \<open>In a list ordered by priority the insertion keeps the order, behind equal priorities.\<close>

lemma insert_prio_sorted:
  "sorted_wrt (\<lambda>x y. pr x \<le> pr y) l \<Longrightarrow> sorted_wrt (\<lambda>x y. pr x \<le> pr y) (insert_prio pr t l)"
proof -
  have set: "set (insert_prio pr t l) = insert t (set l)" for l by (induction l) auto
  show "sorted_wrt (\<lambda>x y. pr x \<le> pr y) l \<Longrightarrow> ?thesis"
    by (induction l) (auto simp: set)
qed

definition wait_insert :: "u8 \<Rightarrow> kernel \<Rightarrow> nat \<Rightarrow> nat list \<Rightarrow> nat list" where
  "wait_insert flag k t l =
     (if flag = RT_IPC_FLAG_FIFO then l @ [t] else insert_prio (prio_of k) t l)"

definition flag_ok :: "u8 \<Rightarrow> bool" where
  "flag_ok flag \<longleftrightarrow> flag = RT_IPC_FLAG_FIFO \<or> flag = RT_IPC_FLAG_PRIO"

lemma set_wait_insert [simp]: "set (wait_insert flag k t l) = insert t (set l)"
proof -
  have "set (insert_prio (prio_of k) t l) = insert t (set l)" by (induction l) auto
  then show ?thesis by (simp add: wait_insert_def)
qed

lemma list_suspend_spec:
  assumes inv: "kinv d k" and ready: "th_ready k t" and h: "wait_head h" and flag: "flag_ok flag"
  defines "k' \<equiv> rt_ipc_list_suspend h t flag k"
  shows "kinv d k'" "th_suspended k' t" "current_thread k' = current_thread k" "core_only k k'"
    "TThread t \<notin> set (timer_list k')"
    "threads k' = (threads k)(t := (threads k t)
       \<lparr>th_stat := with_stat RT_THREAD_SUSPEND (th_stat (threads k t))\<rparr>)"
    "lists k' h = wait_insert flag k t (lists k h)"
    "\<And>h'. wait_head h' \<Longrightarrow> h' \<noteq> h \<Longrightarrow> lists k' h' = lists k h'"
    "\<And>p u. u \<in> set (lists k' (LReady p)) \<longleftrightarrow> u \<in> set (lists k (LReady p)) \<and> u \<noteq> t"
proof -
  let ?k1 = "snd (rt_thread_suspend t k)"
  note s = suspend_spec [OF inv ready]
  have out: "t \<notin> set (lists k h')" if "wait_head h'" for h' by (rule ready_not_waiting [OF inv ready that])
  have l1: "lists ?k1 h' = lists k h'" if "wait_head h'" for h'
    using out [OF that] by (simp add: s(5))
  have p1: "prio_of ?k1 = prio_of k" by (auto simp: s(6))
  have k': "k' = ?k1\<lparr>lists := (lists ?k1)(h := wait_insert flag k t (lists k h))\<rparr>"
    using flag by (auto simp: k'_def rt_ipc_list_suspend_def flag_ok_def wait_insert_def
        list_insert_before_def Let_def l1 [OF h] p1)
  obtain xs ys where xy: "lists k h = xs @ ys" "wait_insert flag k t (lists k h) = xs @ t # ys"
  proof (cases "flag = RT_IPC_FLAG_FIFO")
    case True
    then show ?thesis by (intro that [of "lists k h" "[]"]) (simp_all add: wait_insert_def)
  next
    case False
    then show ?thesis
      using insert_prio_split [of "lists k h" "prio_of k" t] that by (auto simp: wait_insert_def)
  qed
  have "sched_inv {} k'"
    by (rule link_inv [OF s(3), where h = h and xs = xs and ys = ys])
      (use h s(4) xy l1 [OF h] in \<open>simp_all add: wait_head_fits wait_head_not_ready k'\<close>)
  moreover have "timer_inv d k'"
    by (rule timer_inv_cong [of d ?k1]) (use s(2) in \<open>simp_all add: kinv_def k' stat_of_def\<close>)
  ultimately show "kinv d k'" by (simp add: kinv_def)
  show "th_suspended k' t" using s(4) by (simp add: k' stat_of_def)
  show "current_thread k' = current_thread k" by (simp add: k' s(7))
  show "core_only k k'" using s(8) by (simp add: k' core_only_def)
  show "TThread t \<notin> set (timer_list k')" using s(9) by (simp add: k')
  show "threads k' = (threads k)(t := (threads k t)
       \<lparr>th_stat := with_stat RT_THREAD_SUSPEND (th_stat (threads k t))\<rparr>)"
    by (simp add: k' s(6))
  show "lists k' h = wait_insert flag k t (lists k h)" by (simp add: k')
  show "lists k' h' = lists k h'" if "wait_head h'" "h' \<noteq> h" for h'
    using that l1 by (simp add: k')
  show "u \<in> set (lists k' (LReady p)) \<longleftrightarrow> u \<in> set (lists k (LReady p)) \<and> u \<noteq> t" for p u
    using wait_head_not_ready [OF h] by (auto simp: k' s(5))
qed

text \<open>Arming the timer of a suspended thread and scheduling: it always switches away.\<close>

lemma arm_and_schedule_spec:
  assumes inv: "kinv 0 k" and cur: "current_thread k \<noteq> None" and sus: "th_suspended k t"
    and out: "TThread t \<notin> set (timer_list k)" and other: "th_ready k u"
    and unl: "scheduler_lock_nest k = 0" and time: "time < 0x7fffffff"
  obtains k' where "arm_and_schedule time t k = Some k'" "kinv 0 k'" "current_top k'"
    "current_thread k' \<noteq> Some t" "core_only k k'" "threads k' = threads k" "lists k' = lists k"
    "0 < time \<longrightarrow> TThread t \<in> set (timer_list k') \<and>
       timeout_of k' (TThread t) = tick k + word_of_int time"
    "\<not> 0 < time \<longrightarrow> TThread t \<notin> set (timer_list k')"
proof -
  have "\<exists>k2. (if time > 0 then start_thread_timer t (word_of_int time) k else Some k) = Some k2 \<and>
      kinv 0 k2 \<and> timers_only k k2 \<and>
      (0 < time \<longrightarrow> TThread t \<in> set (timer_list k2) \<and>
         timeout_of k2 (TThread t) = tick k + word_of_int time) \<and>
      (\<not> 0 < time \<longrightarrow> TThread t \<notin> set (timer_list k2))"
  proof (cases "time > 0")
    case False
    then show ?thesis using inv out timers_only_refl by auto
  next
    case True
    let ?kc = "snd (rt_timer_control (TThread t) CTRL_SET_TIME (word_of_int time) k)"
    have kc: "?kc = upd_timer (TThread t) (\<lambda>tm. tm\<lparr>tm_init_tick := word_of_int time\<rparr>) k"
      by (simp add: rt_timer_control_def)
    have oc: "timers_only k ?kc" by (rule timer_control_only)
    have tc: "timer_inv 0 ?kc"
      unfolding kc by (rule upd_unlinked_timer_inv) (use inv out in \<open>simp_all add: kinv_def\<close>)
    have it: "tm_init_tick (timers ?kc (TThread t)) < TICK_HALF"
    proof -
      have "unat (word_of_int time :: u32) = nat time"
        using True time by (simp add: unat_eq_nat_uint uint_word_of_int)
      then show ?thesis using time True by (simp add: kc word_less_nat_alt nat_less_iff)
    qed
    have sc: "TThread t = TThread t' \<Longrightarrow> th_suspended ?kc t'" for t'
      using sus timers_only_frame(1) [OF oc] by (simp add: stat_of_def)
    obtain k2 where k2: "rt_timer_start (TThread t) ?kc = Some k2" "timer_inv 0 k2"
      "set (timer_list k2) = insert (TThread t) (set (timer_list ?kc))" "tm_activated k2 (TThread t)"
      "timeout_of k2 (TThread t) = tick ?kc + tm_init_tick (timers ?kc (TThread t))"
      "timer_list k2 = insert_timer (timeout_of k2) (TThread t) (removeAll (TThread t) (timer_list ?kc))"
      by (rule timer_start_inv [OF tc _ it sc]) simp_all
    have o: "timers_only k k2" by (rule timers_only_trans [OF oc timer_start_only [OF k2(1)]])
    have "sched_inv {} k2" using inv timers_only_sched [OF o] by (simp add: kinv_def)
    then have "kinv 0 k2" using k2(2) by (simp add: kinv_def)
    moreover have "timeout_of k2 (TThread t) = tick k + word_of_int time"
      using k2(5) timers_only_frame(8) [OF oc] by (simp add: kc)
    ultimately show ?thesis using True k2(1,3) o by (auto simp: start_thread_timer_def)
  qed
  then obtain k2 where k2: "(if time > 0 then start_thread_timer t (word_of_int time) k
      else Some k) = Some k2" "kinv 0 k2" "timers_only k k2"
    "0 < time \<longrightarrow> TThread t \<in> set (timer_list k2) \<and>
         timeout_of k2 (TThread t) = tick k + word_of_int time"
    "\<not> 0 < time \<longrightarrow> TThread t \<notin> set (timer_list k2)"
    by blast
  note f2 = timers_only_frame [OF k2(3)]
  have r2: "th_ready k2 u" using other by (simp add: stat_of_def f2)
  have cu2: "current_thread k2 \<noteq> None" using cur by (simp add: f2)
  obtain k' where k': "rt_schedule k2 = Some k'" "switch_only k2 k'" "kinv 0 k'" "core_only k2 k'"
    "current_thread k' \<noteq> None" "scheduler_lock_nest k2 = 0 \<longrightarrow> current_top k'"
    "scheduler_lock_nest k2 \<noteq> 0 \<longrightarrow> k' = k2"
    by (rule schedule_kinv [OF k2(2) r2 cu2])
  note f' = switch_only_frame [OF k'(2)]
  have top: "current_top k'" using k'(6) unl by (simp add: f2)
  have sus': "th_suspended k' t" using sus by (simp add: stat_of_def f' f2)
  show ?thesis
  proof (rule that [of k'])
    show "arm_and_schedule time t k = Some k'"
      using k2(1) k'(1) by (simp add: arm_and_schedule_def)
    show "current_thread k' \<noteq> Some t" using top sus' by (auto simp: current_top_def)
    show "core_only k k'" by (rule core_only_trans [OF timers_only_core [OF k2(3)] k'(4)])
  qed (use k' top k2(4,5) in \<open>simp_all add: f' f2\<close>)
qed

text \<open>Suspending the running thread.\<close>

lemma suspend_current_spec:
  assumes inv: "kinv 0 k" and cur: "current_thread k = Some t" and ready: "th_ready k t"
    and other: "th_ready k u" "u \<noteq> t" and unl: "scheduler_lock_nest k = 0"
    and h: "wait_head h" and flag: "flag_ok flag" and time: "time < 0x7fffffff"
  obtains k' where "suspend_current h flag time t k = Some k'" "kinv 0 k'" "current_top k'"
    "current_thread k' \<noteq> Some t" "core_only k k'" "th_suspended k' t"
    "threads k' = (threads k)(t := (threads k t)
       \<lparr>th_stat := with_stat RT_THREAD_SUSPEND (th_stat (threads k t))\<rparr>)"
    "lists k' h = wait_insert flag k t (lists k h)"
    "\<forall>h'. wait_head h' \<longrightarrow> h' \<noteq> h \<longrightarrow> lists k' h' = lists k h'"
    "0 < time \<longrightarrow> TThread t \<in> set (timer_list k') \<and>
       timeout_of k' (TThread t) = tick k + word_of_int time"
    "\<not> 0 < time \<longrightarrow> TThread t \<notin> set (timer_list k')"
proof -
  let ?k1 = "rt_ipc_list_suspend h t flag k"
  note s = list_suspend_spec [OF inv ready h flag]
  note c1 = core_only_frame [OF s(4)]
  have cur1: "current_thread ?k1 \<noteq> None" using cur by (simp add: s(3))
  have r1: "th_ready ?k1 u" using other by (simp add: stat_of_def s(6))
  have unl1: "scheduler_lock_nest ?k1 = 0" using unl by (simp add: c1)
  obtain k' where k': "arm_and_schedule time t ?k1 = Some k'" "kinv 0 k'" "current_top k'"
    "current_thread k' \<noteq> Some t" "core_only ?k1 k'" "threads k' = threads ?k1" "lists k' = lists ?k1"
    "0 < time \<longrightarrow> TThread t \<in> set (timer_list k') \<and>
       timeout_of k' (TThread t) = tick ?k1 + word_of_int time"
    "\<not> 0 < time \<longrightarrow> TThread t \<notin> set (timer_list k')"
    by (rule arm_and_schedule_spec [OF s(1) cur1 s(2) s(5) r1 unl1 time])
  show ?thesis
  proof (rule that [of k'])
    show "suspend_current h flag time t k = Some k'" using k'(1) by (simp add: suspend_current_def)
    show "core_only k k'" by (rule core_only_trans [OF s(4) k'(5)])
    show "th_suspended k' t" using s(2) by (simp add: stat_of_def k'(6))
    show "lists k' h = wait_insert flag k t (lists k h)" by (simp only: k'(7) s(7))
    show "\<forall>h'. wait_head h' \<longrightarrow> h' \<noteq> h \<longrightarrow> lists k' h' = lists k h'" by (simp add: k'(7) s(8))
    show "threads k' = (threads k)(t := (threads k t)
       \<lparr>th_stat := with_stat RT_THREAD_SUSPEND (th_stat (threads k t))\<rparr>)"
      by (simp only: k'(6) s(6))
  qed (use k' in \<open>simp_all add: c1\<close>)
qed

text \<open>Resuming the first waiting thread.\<close>

lemma list_resume_spec:
  assumes inv: "kinv d k" and h: "wait_head h" and l: "lists k h = w # ws"
  obtains k' where "rt_ipc_list_resume h k = Some k'" "kinv d k'" "th_ready k' w" "core_only k k'"
    "threads k' = (threads k)(w := (threads k w)
       \<lparr>th_stat := with_stat RT_THREAD_READY (th_stat (threads k w))\<rparr>)"
    "lists k' h = ws" "\<forall>h'. wait_head h' \<longrightarrow> h' \<noteq> h \<longrightarrow> lists k' h' = lists k h'"
    "current_thread k' = current_thread k" "TThread w \<notin> set (timer_list k')"
proof -
  let ?k' = "snd (rt_thread_resume w k)"
  have sus: "th_suspended k w" by (rule waiting_suspended [OF inv h]) (simp add: l)
  note r = resume_spec [OF inv sus]
  have d: "distinct (w # ws)" using inv l unfolding kinv_def sched_inv_def links_ok_def by metis
  have out: "w \<notin> set (lists k h')" if "h' \<noteq> h" for h'
    using waiting_one_list [OF inv, of w h h'] that l by auto
  show ?thesis
  proof (rule that [of ?k'])
    show "rt_ipc_list_resume h k = Some ?k'" by (simp add: rt_ipc_list_resume_def l)
    show "lists ?k' h = ws" using d h by (auto simp: r(4) l)
    show "\<forall>h'. wait_head h' \<longrightarrow> h' \<noteq> h \<longrightarrow> lists ?k' h' = lists k h'"
      using out by (auto simp: r(4))
  qed (use r in simp_all)
qed

lemma resume_all_spec:
  assumes "kinv d k" and h: "wait_head h"
  shows "\<exists>k'. rt_ipc_list_resume_all h k = Some k' \<and> kinv d k' \<and> core_only k k' \<and>
    lists k' h = [] \<and> (\<forall>h'. wait_head h' \<longrightarrow> h' \<noteq> h \<longrightarrow> lists k' h' = lists k h') \<and>
    current_thread k' = current_thread k \<and>
    (\<forall>u. threads k' u = (if u \<in> set (lists k h)
       then (threads k u)\<lparr>th_error := - RT_ERROR,
              th_stat := with_stat RT_THREAD_READY (th_stat (threads k u))\<rparr>
       else threads k u))"
  using assms(1)
proof (induction "lists k h" arbitrary: k)
  case Nil
  then show ?case by (subst rt_ipc_list_resume_all.simps) (auto simp flip: Nil(1))
next
  case (Cons w ws)
  let ?k1 = "set_error w (- RT_ERROR) k"
  have "sched_inv {} ?k1"
    unfolding set_error_def by (rule upd_same_stat) (use Cons.prems in \<open>simp_all add: kinv_def\<close>)
  moreover have "timer_inv d ?k1"
    by (rule timer_inv_cong [of d k])
      (use Cons.prems in \<open>auto simp: kinv_def set_error_def stat_of_def\<close>)
  ultimately have k1: "kinv d ?k1" by (simp add: kinv_def)
  have l1: "lists ?k1 = lists k" by (simp add: set_error_def)
  have lw: "lists ?k1 h = w # ws" using Cons(2) by (simp add: l1)
  from list_resume_spec [OF k1 h lw] obtain k2 where k2: "rt_ipc_list_resume h ?k1 = Some k2"
    "kinv d k2" "core_only ?k1 k2"
    "threads k2 = (threads ?k1)(w := (threads ?k1 w)
       \<lparr>th_stat := with_stat RT_THREAD_READY (th_stat (threads ?k1 w))\<rparr>)"
    "lists k2 h = ws" "\<forall>h'. wait_head h' \<longrightarrow> h' \<noteq> h \<longrightarrow> lists k2 h' = lists ?k1 h'"
    "current_thread k2 = current_thread ?k1" by metis
  obtain k' where k': "rt_ipc_list_resume_all h k2 = Some k'" "kinv d k'" "core_only k2 k'"
    "lists k' h = []" "\<forall>h'. wait_head h' \<longrightarrow> h' \<noteq> h \<longrightarrow> lists k' h' = lists k2 h'"
    "current_thread k' = current_thread k2"
    "\<forall>u. threads k' u = (if u \<in> set (lists k2 h)
       then (threads k2 u)\<lparr>th_error := - RT_ERROR,
              th_stat := with_stat RT_THREAD_READY (th_stat (threads k2 u))\<rparr>
       else threads k2 u)"
    using Cons(1) [OF k2(5) [symmetric] k2(2)] by blast
  have "k2 = snd (rt_thread_resume w ?k1)" using k2(1) by (simp add: rt_ipc_list_resume_def lw)
  then have "rt_ipc_list_resume_all h k = Some k'"
    using k'(1) by (subst rt_ipc_list_resume_all.simps) (simp add: Cons(2) [symmetric])
  moreover have "core_only k k'"
    by (rule core_only_trans [OF core_only_steps(7) core_only_trans [OF k2(3) k'(3)]])
  moreover have "distinct (w # ws)"
    using Cons.prems Cons(2) unfolding kinv_def sched_inv_def links_ok_def by metis
  then have "\<forall>u. threads k' u = (if u \<in> set (lists k h)
       then (threads k u)\<lparr>th_error := - RT_ERROR,
              th_stat := with_stat RT_THREAD_READY (th_stat (threads k u))\<rparr>
       else threads k u)"
    using k'(7) by (auto simp: k2(4,5) set_error_def simp flip: Cons(2))
  ultimately show ?case
    using k' k2 by (intro exI [of _ k']) (simp add: l1 set_error_def)
qed

section \<open>Blocking calls\<close>

text \<open>The kernel invariant does not read the IPC objects.\<close>

lemma kinv_cong:
  assumes "kinv d k" "threads k' = threads k" "lists k' = lists k"
    "ready_priority_group k' = ready_priority_group k" "timers k' = timers k"
    "timer_list k' = timer_list k" "tick k' = tick k"
  shows "kinv d k'"
  using assms sched_inv_cong [of "{}" k k'] timer_inv_cong [of d k k']
  by (simp add: kinv_def stat_of_def)

lemma set_error_simps [simp]:
  "lists (set_error t e k) = lists k" "current_thread (set_error t e k) = current_thread k"
  "scheduler_lock_nest (set_error t e k) = scheduler_lock_nest k"
  "interrupt_nest (set_error t e k) = interrupt_nest k" "tick (set_error t e k) = tick k"
  "sems (set_error t e k) = sems k" "mutexes (set_error t e k) = mutexes k"
  "events (set_error t e k) = events k" "mailboxes (set_error t e k) = mailboxes k"
  "msgqueues (set_error t e k) = msgqueues k" "mempools (set_error t e k) = mempools k"
  "dataqueues (set_error t e k) = dataqueues k" "completions (set_error t e k) = completions k"
  "wqueues (set_error t e k) = wqueues k"
  "prio_of (set_error t e k) u = prio_of k u" "stat_of (set_error t e k) u = stat_of k u"
  "th_event_set (threads (set_error t e k) u) = th_event_set (threads k u)"
  "th_event_info (threads (set_error t e k) u) = th_event_info (threads k u)"
  "error_of (set_error t e k) u = (if u = t then e else error_of k u)"
  by (simp_all add: set_error_def stat_of_def)

lemma set_error_kinv: "kinv d k \<Longrightarrow> kinv d (set_error t e k)"
proof -
  assume inv: "kinv d k"
  have "sched_inv {} (set_error t e k)"
    unfolding set_error_def by (rule upd_same_stat) (use inv in \<open>simp_all add: kinv_def\<close>)
  moreover have "timer_inv d (set_error t e k)"
    by (rule timer_inv_cong [of d k]) (use inv in \<open>auto simp: kinv_def set_error_def stat_of_def\<close>)
  ultimately show ?thesis by (simp add: kinv_def)
qed

text \<open>A thread that may block: it is running and ready, some other thread is ready (the idle
  thread always is), and the scheduler is not locked.\<close>

definition may_block :: "kernel \<Rightarrow> nat \<Rightarrow> bool" where
  "may_block k t \<longleftrightarrow> kinv 0 k \<and> current_thread k = Some t \<and> th_ready k t \<and>
     (\<exists>u. u \<noteq> t \<and> th_ready k u) \<and> scheduler_lock_nest k = 0 \<and> interrupt_nest k = 0"

lemma may_block_set_error:
  assumes "may_block k t" shows "may_block (set_error t e k) t"
proof -
  have "stat_of (set_error t e k) u = stat_of k u" for u by (simp add: set_error_def stat_of_def)
  then show ?thesis
    using assms set_error_kinv [of 0 k t e] by (auto simp: may_block_def set_error_def)
qed

text \<open>A blocking call first clears the error code of the thread.\<close>

lemma block_spec:
  assumes m: "may_block k t" and h: "wait_head h" and flag: "flag_ok flag"
    and time: "time < 0x7fffffff"
  obtains k' where "suspend_current h flag time t (set_error t RT_EOK k) = Some k'" "kinv 0 k'"
    "current_top k'" "current_thread k' \<noteq> Some t" "core_only k k'" "th_suspended k' t"
    "\<forall>u. error_of k' u = (if u = t then RT_EOK else error_of k u)"
    "lists k' h = wait_insert flag k t (lists k h)"
    "\<forall>h'. wait_head h' \<longrightarrow> h' \<noteq> h \<longrightarrow> lists k' h' = lists k h'"
    "TThread t \<in> set (timer_list k') \<longleftrightarrow> 0 < time"
    "0 < time \<longrightarrow> timeout_of k' (TThread t) = tick k + word_of_int time"
proof -
  let ?k1 = "set_error t RT_EOK k"
  have m1: "may_block ?k1 t" by (rule may_block_set_error [OF m])
  then obtain u where u: "th_ready ?k1 u" "u \<noteq> t" by (auto simp: may_block_def)
  have pre: "kinv 0 ?k1" "current_thread ?k1 = Some t" "th_ready ?k1 t" "scheduler_lock_nest ?k1 = 0"
    using m1 by (simp_all add: may_block_def)
  obtain k' where k': "suspend_current h flag time t ?k1 = Some k'" "kinv 0 k'" "current_top k'"
    "current_thread k' \<noteq> Some t" "core_only ?k1 k'" "th_suspended k' t"
    "threads k' = (threads ?k1)(t := (threads ?k1 t)
       \<lparr>th_stat := with_stat RT_THREAD_SUSPEND (th_stat (threads ?k1 t))\<rparr>)"
    "lists k' h = wait_insert flag ?k1 t (lists ?k1 h)"
    "\<forall>h'. wait_head h' \<longrightarrow> h' \<noteq> h \<longrightarrow> lists k' h' = lists ?k1 h'"
    "0 < time \<longrightarrow> TThread t \<in> set (timer_list k') \<and>
       timeout_of k' (TThread t) = tick ?k1 + word_of_int time"
    "\<not> 0 < time \<longrightarrow> TThread t \<notin> set (timer_list k')"
    by (rule suspend_current_spec [OF pre(1-3) u pre(4) h flag time])
  have "wait_insert flag ?k1 t l = wait_insert flag k t l" for l by (simp add: wait_insert_def)
  moreover have "core_only k k'" by (rule core_only_trans [OF core_only_steps(7) k'(5)])
  ultimately show ?thesis
    using k' by (intro that [of k']) (auto simp: k'(7))
qed

text \<open>Waking the first thread of a wait list, if there is one.\<close>

lemma wake_and_schedule_spec:
  assumes inv: "kinv 0 k" and cur: "current_thread k \<noteq> None" and h: "wait_head h"
  obtains k' where "wake_and_schedule h k = Some k'" "kinv 0 k'" "current_thread k' \<noteq> None"
    "core_only k k'" "lists k' h = tl (lists k h)"
    "\<forall>h'. wait_head h' \<longrightarrow> h' \<noteq> h \<longrightarrow> lists k' h' = lists k h'"
    "\<forall>u. error_of k' u = error_of k u"
    "lists k h \<noteq> [] \<longrightarrow> th_ready k' (hd (lists k h)) \<and>
       (scheduler_lock_nest k = 0 \<longrightarrow> current_top k')"
    "lists k h = [] \<longrightarrow> k' = k"
proof (cases "lists k h")
  case Nil
  then show ?thesis using that [of k] inv cur by (simp add: wake_and_schedule_def)
next
  case (Cons w ws)
  obtain k1 where k1: "rt_ipc_list_resume h k = Some k1" "kinv 0 k1" "th_ready k1 w" "core_only k k1"
    "threads k1 = (threads k)(w := (threads k w)
       \<lparr>th_stat := with_stat RT_THREAD_READY (th_stat (threads k w))\<rparr>)"
    "lists k1 h = ws" "\<forall>h'. wait_head h' \<longrightarrow> h' \<noteq> h \<longrightarrow> lists k1 h' = lists k h'"
    "current_thread k1 = current_thread k" "TThread w \<notin> set (timer_list k1)"
    by (rule list_resume_spec [OF inv h Cons])
  have c1: "current_thread k1 \<noteq> None" using cur k1(8) by simp
  obtain k' where k': "rt_schedule k1 = Some k'" "switch_only k1 k'" "kinv 0 k'" "core_only k1 k'"
    "current_thread k' \<noteq> None" "scheduler_lock_nest k1 = 0 \<longrightarrow> current_top k'"
    "scheduler_lock_nest k1 \<noteq> 0 \<longrightarrow> k' = k1"
    by (rule schedule_kinv [OF k1(2,3) c1])
  note f = switch_only_frame [OF k'(2)]
  show ?thesis
  proof (rule that [of k'])
    show "wake_and_schedule h k = Some k'" using Cons k1(1) k'(1) by (simp add: wake_and_schedule_def)
    show "core_only k k'" by (rule core_only_trans [OF k1(4) k'(4)])
    show "lists k h \<noteq> [] \<longrightarrow> th_ready k' (hd (lists k h)) \<and>
       (scheduler_lock_nest k = 0 \<longrightarrow> current_top k')"
      using Cons k1(3) k'(6) core_only_frame(1) [OF k1(4)] by (simp add: stat_of_def f)
    show "\<forall>u. error_of k' u = error_of k u" by (simp add: f k1(5))
  qed (use k1 k' Cons in \<open>simp_all add: f\<close>)
qed

section \<open>The wait lists of a class of objects\<close>

text \<open>
  What an IPC class uses of the functions above, for the wait lists \<open>head i\<close> of its objects:
  the operations of another object, or of another class, leave the list alone. Semaphores,
  mutexes, events, mailboxes (two lists), message queues, memory pools, data queues (two lists)
  and completions interpret it.
\<close>

locale wait_queue =
  fixes head :: "nat \<Rightarrow> lhead"
  assumes wait: "wait_head (head i)"
    and inj: "head i = head j \<longleftrightarrow> i = j"
begin

lemma waiter_suspended: "kinv d k \<Longrightarrow> t \<in> set (lists k (head i)) \<Longrightarrow> th_suspended k t"
  using waiting_suspended wait by blast

lemma suspend:
  assumes "kinv 0 k" "current_thread k = Some t" "th_ready k t" "th_ready k u" "u \<noteq> t"
    "scheduler_lock_nest k = 0" "flag_ok flag" "time < 0x7fffffff"
  obtains k' where "suspend_current (head i) flag time t k = Some k'" "kinv 0 k'" "current_top k'"
    "current_thread k' \<noteq> Some t" "core_only k k'" "th_suspended k' t"
    "threads k' = (threads k)(t := (threads k t)
       \<lparr>th_stat := with_stat RT_THREAD_SUSPEND (th_stat (threads k t))\<rparr>)"
    "lists k' (head i) = wait_insert flag k t (lists k (head i))"
    "\<forall>h'. wait_head h' \<longrightarrow> h' \<noteq> head i \<longrightarrow> lists k' h' = lists k h'"
    "\<forall>j. j \<noteq> i \<longrightarrow> lists k' (head j) = lists k (head j)"
    "0 < time \<longrightarrow> TThread t \<in> set (timer_list k') \<and>
       timeout_of k' (TThread t) = tick k + word_of_int time"
    "\<not> 0 < time \<longrightarrow> TThread t \<notin> set (timer_list k')"
proof -
  obtain k' where k': "suspend_current (head i) flag time t k = Some k'" "kinv 0 k'" "current_top k'"
    "current_thread k' \<noteq> Some t" "core_only k k'" "th_suspended k' t"
    "threads k' = (threads k)(t := (threads k t)
       \<lparr>th_stat := with_stat RT_THREAD_SUSPEND (th_stat (threads k t))\<rparr>)"
    "lists k' (head i) = wait_insert flag k t (lists k (head i))"
    "\<forall>h'. wait_head h' \<longrightarrow> h' \<noteq> head i \<longrightarrow> lists k' h' = lists k h'"
    "0 < time \<longrightarrow> TThread t \<in> set (timer_list k') \<and>
       timeout_of k' (TThread t) = tick k + word_of_int time"
    "\<not> 0 < time \<longrightarrow> TThread t \<notin> set (timer_list k')"
    by (rule suspend_current_spec [OF assms(1-6) wait assms(7,8)])
  have "\<forall>j. j \<noteq> i \<longrightarrow> lists k' (head j) = lists k (head j)"
    using k'(9) by (simp add: wait inj)
  with k' show ?thesis by (intro that [of k']) assumption+
qed

lemma block:
  assumes "may_block k t" "flag_ok flag" "time < 0x7fffffff"
  obtains k' where "suspend_current (head i) flag time t (set_error t RT_EOK k) = Some k'" "kinv 0 k'"
    "current_top k'" "current_thread k' \<noteq> Some t" "core_only k k'" "th_suspended k' t"
    "\<forall>u. error_of k' u = (if u = t then RT_EOK else error_of k u)"
    "lists k' (head i) = wait_insert flag k t (lists k (head i))"
    "\<forall>j. j \<noteq> i \<longrightarrow> lists k' (head j) = lists k (head j)"
    "TThread t \<in> set (timer_list k') \<longleftrightarrow> 0 < time"
    "0 < time \<longrightarrow> timeout_of k' (TThread t) = tick k + word_of_int time"
proof -
  obtain k' where k': "suspend_current (head i) flag time t (set_error t RT_EOK k) = Some k'" "kinv 0 k'"
    "current_top k'" "current_thread k' \<noteq> Some t" "core_only k k'" "th_suspended k' t"
    "\<forall>u. error_of k' u = (if u = t then RT_EOK else error_of k u)"
    "lists k' (head i) = wait_insert flag k t (lists k (head i))"
    "\<forall>h'. wait_head h' \<longrightarrow> h' \<noteq> head i \<longrightarrow> lists k' h' = lists k h'"
    "TThread t \<in> set (timer_list k') \<longleftrightarrow> 0 < time"
    "0 < time \<longrightarrow> timeout_of k' (TThread t) = tick k + word_of_int time"
    by (rule block_spec [OF assms(1) wait assms(2,3)])
  have "\<forall>j. j \<noteq> i \<longrightarrow> lists k' (head j) = lists k (head j)"
    using k'(9) by (simp add: wait inj)
  with k' show ?thesis by (intro that [of k']) assumption+
qed

lemma resume_first:
  assumes "kinv d k" "lists k (head i) = w # ws"
  obtains k' where "rt_ipc_list_resume (head i) k = Some k'" "kinv d k'" "th_ready k' w" "core_only k k'"
    "threads k' = (threads k)(w := (threads k w)
       \<lparr>th_stat := with_stat RT_THREAD_READY (th_stat (threads k w))\<rparr>)"
    "lists k' (head i) = ws" "\<forall>h'. wait_head h' \<longrightarrow> h' \<noteq> head i \<longrightarrow> lists k' h' = lists k h'"
    "\<forall>j. j \<noteq> i \<longrightarrow> lists k' (head j) = lists k (head j)"
    "current_thread k' = current_thread k" "TThread w \<notin> set (timer_list k')"
proof -
  obtain k' where k': "rt_ipc_list_resume (head i) k = Some k'" "kinv d k'" "th_ready k' w" "core_only k k'"
    "threads k' = (threads k)(w := (threads k w)
       \<lparr>th_stat := with_stat RT_THREAD_READY (th_stat (threads k w))\<rparr>)"
    "lists k' (head i) = ws" "\<forall>h'. wait_head h' \<longrightarrow> h' \<noteq> head i \<longrightarrow> lists k' h' = lists k h'"
    "current_thread k' = current_thread k" "TThread w \<notin> set (timer_list k')"
    by (rule list_resume_spec [OF assms(1) wait assms(2)])
  have "\<forall>j. j \<noteq> i \<longrightarrow> lists k' (head j) = lists k (head j)"
    using k'(7) by (simp add: wait inj)
  with k' show ?thesis by (intro that [of k']) assumption+
qed

text \<open>Resuming the first waiter and scheduling, as every waking call does.\<close>

lemma resume_and_schedule:
  assumes inv: "kinv d k" and l: "lists k (head i) = w # ws" and cur: "current_thread k \<noteq> None"
  obtains k1 k' where "rt_ipc_list_resume (head i) k = Some k1" "rt_schedule k1 = Some k'"
    "kinv d k'" "th_ready k' w" "core_only k k'" "current_thread k' \<noteq> None"
    "threads k' = (threads k)(w := (threads k w)
       \<lparr>th_stat := with_stat RT_THREAD_READY (th_stat (threads k w))\<rparr>)"
    "lists k' (head i) = ws" "\<forall>h'. wait_head h' \<longrightarrow> h' \<noteq> head i \<longrightarrow> lists k' h' = lists k h'"
    "\<forall>j. j \<noteq> i \<longrightarrow> lists k' (head j) = lists k (head j)"
    "scheduler_lock_nest k = 0 \<longrightarrow> current_top k'"
proof -
  obtain k1 where k1: "rt_ipc_list_resume (head i) k = Some k1" "kinv d k1" "th_ready k1 w" "core_only k k1"
    "threads k1 = (threads k)(w := (threads k w)
       \<lparr>th_stat := with_stat RT_THREAD_READY (th_stat (threads k w))\<rparr>)"
    "lists k1 (head i) = ws" "\<forall>h'. wait_head h' \<longrightarrow> h' \<noteq> head i \<longrightarrow> lists k1 h' = lists k h'"
    "\<forall>j. j \<noteq> i \<longrightarrow> lists k1 (head j) = lists k (head j)"
    "current_thread k1 = current_thread k" "TThread w \<notin> set (timer_list k1)"
    by (rule resume_first [OF inv l])
  have c1: "current_thread k1 \<noteq> None" using cur k1(9) by simp
  obtain k' where k': "rt_schedule k1 = Some k'" "switch_only k1 k'" "kinv d k'" "core_only k1 k'"
    "current_thread k' \<noteq> None" "scheduler_lock_nest k1 = 0 \<longrightarrow> current_top k'"
    "scheduler_lock_nest k1 \<noteq> 0 \<longrightarrow> k' = k1"
    by (rule schedule_kinv [OF k1(2,3) c1])
  note f = switch_only_frame [OF k'(2)]
  show ?thesis
  proof (rule that [of k1 k'])
    show "th_ready k' w" using k1(3) by (simp add: stat_of_def f)
    show "core_only k k'" by (rule core_only_trans [OF k1(4) k'(4)])
    show "scheduler_lock_nest k = 0 \<longrightarrow> current_top k'"
      using k'(6) core_only_frame(1) [OF k1(4)] by simp
  qed (use k1 k' in \<open>simp_all add: f\<close>)
qed

end

interpretation sem_q: wait_queue LSem by unfold_locales simp_all
interpretation mutex_q: wait_queue LMutex by unfold_locales simp_all
interpretation event_q: wait_queue LEvent by unfold_locales simp_all
interpretation mb_q: wait_queue LMb by unfold_locales simp_all
interpretation mb_sender_q: wait_queue LMbSender by unfold_locales simp_all
interpretation mq_q: wait_queue LMq by unfold_locales simp_all
interpretation mp_q: wait_queue LMp by unfold_locales simp_all
interpretation dq_push_q: wait_queue LDqPush by unfold_locales simp_all
interpretation dq_pop_q: wait_queue LDqPop by unfold_locales simp_all
interpretation completion_q: wait_queue LCompletion by unfold_locales simp_all

end
