(* ===== verification/Sem.thy ===== *)
theory Sem
  imports Ipc
begin

text \<open>
  Semaphores, \<^verbatim>\<open>rt_sem_*\<close> of \<^verbatim>\<open>rt-thread/src/ipc.c\<close>. The value is a 16-bit counter; the
  waiting threads are in \<open>LSem s\<close>.
\<close>

section \<open>Operations\<close>

definition upd_sem :: "nat \<Rightarrow> (sem \<Rightarrow> sem) \<Rightarrow> kernel \<Rightarrow> kernel" where
  "upd_sem s f k = k\<lparr>sems := (sems k)(s := f (sems k s))\<rparr>"

definition rt_sem_init :: "nat \<Rightarrow> u8 list \<Rightarrow> u32 \<Rightarrow> u8 \<Rightarrow> kernel \<Rightarrow> kernel option" where
  "rt_sem_init s name value flag k = do {
     rt_assert (value < 0x10000);
     k1 \<leftarrow> rt_object_init (OSem s) Class_Semaphore name k;
     let k2 = rt_ipc_object_init (LSem s) k1;
     Some (upd_sem s (\<lambda>_. \<lparr>sem_value = ucast value, sem_flag = flag\<rparr>) k2)
   }"

definition rt_sem_detach :: "nat \<Rightarrow> kernel \<Rightarrow> kernel option" where
  "rt_sem_detach s k = do {
     rt_assert (rt_object_is_systemobject (OSem s) k);
     k1 \<leftarrow> rt_ipc_list_resume_all (LSem s) k;
     Some (rt_object_detach (OSem s) k1)
   }"

definition rt_sem_create ::
    "nat option \<Rightarrow> u8 list \<Rightarrow> u32 \<Rightarrow> u8 \<Rightarrow> kernel \<Rightarrow> (nat option \<times> kernel) option" where
  "rt_sem_create mem name value flag k = do {
     rt_assert (interrupt_nest k = 0);
     rt_assert (value < 0x10000);
     (ob, k1) \<leftarrow> rt_object_allocate (map_option OSem mem) Class_Semaphore name k;
     case mem of None \<Rightarrow> Some (None, k1)
     | Some s \<Rightarrow>
         let k2 = rt_ipc_object_init (LSem s) k1
         in Some (Some s, upd_sem s (\<lambda>_. \<lparr>sem_value = ucast value, sem_flag = flag\<rparr>) k2)
   }"

definition rt_sem_delete :: "nat \<Rightarrow> kernel \<Rightarrow> kernel option" where
  "rt_sem_delete s k = do {
     rt_assert (interrupt_nest k = 0);
     rt_assert (\<not> rt_object_is_systemobject (OSem s) k);
     k1 \<leftarrow> rt_ipc_list_resume_all (LSem s) k;
     rt_object_delete (OSem s) k1
   }"

definition rt_sem_take_resumed :: "nat \<Rightarrow> kernel \<Rightarrow> (outcome \<times> kernel) option" where
  "rt_sem_take_resumed t k =
     (if error_of k t \<noteq> RT_EOK then Some (Returned (error_of k t), k)
      else Some (Returned RT_EOK, k))"

definition rt_sem_take :: "nat \<Rightarrow> int \<Rightarrow> kernel \<Rightarrow> (outcome \<times> kernel) option" where
  "rt_sem_take s time k =
     (if sem_value (sems k s) > 0
      then Some (Returned RT_EOK, upd_sem s (\<lambda>sm. sm\<lparr>sem_value := sem_value sm - 1\<rparr>) k)
      else if time = 0 then Some (Returned (- RT_ETIMEOUT), k)
      else do {
        rt_assert (in_thread_context k);
        t \<leftarrow> rt_thread_self k;
        let k1 = set_error t RT_EOK k;
        k2 \<leftarrow> suspend_current (LSem s) (sem_flag (sems k1 s)) time t k1;
        after_schedule t (rt_sem_take_resumed t) k2
      })"

definition rt_sem_trytake :: "nat \<Rightarrow> kernel \<Rightarrow> (outcome \<times> kernel) option" where
  "rt_sem_trytake s k = rt_sem_take s 0 k"

definition rt_sem_release :: "nat \<Rightarrow> kernel \<Rightarrow> kernel option" where
  "rt_sem_release s k =
     (if lists k (LSem s) \<noteq> []
      then do { k1 \<leftarrow> rt_ipc_list_resume (LSem s) k; rt_schedule k1 }
      else Some (upd_sem s (\<lambda>sm. sm\<lparr>sem_value := sem_value sm + 1\<rparr>) k))"

text \<open>\<^verbatim>\<open>RT_IPC_CMD_RESET\<close> is command 1; the argument is the new value.\<close>

definition rt_sem_control :: "nat \<Rightarrow> nat \<Rightarrow> u32 \<Rightarrow> kernel \<Rightarrow> (rt_err \<times> kernel) option" where
  "rt_sem_control s cmd arg k =
     (if cmd = 1
      then do {
        k1 \<leftarrow> rt_ipc_list_resume_all (LSem s) k;
        let k2 = upd_sem s (\<lambda>sm. sm\<lparr>sem_value := ucast arg\<rparr>) k1;
        k3 \<leftarrow> rt_schedule k2;
        Some (RT_EOK, k3)
      }
      else Some (- RT_ERROR, k))"

section \<open>Invariant\<close>

text \<open>No thread waits for a semaphore that has a token: no wakeup is lost.\<close>

definition sem_ok :: "kernel \<Rightarrow> nat \<Rightarrow> bool" where
  "sem_ok k s \<longleftrightarrow> flag_ok (sem_flag (sems k s)) \<and>
     (0 < sem_value (sems k s) \<longrightarrow> lists k (LSem s) = [])"

lemma upd_sem_simps [simp]:
  "sems (upd_sem s f k) = (sems k)(s := f (sems k s))"
  "threads (upd_sem s f k) = threads k" "lists (upd_sem s f k) = lists k"
  "current_thread (upd_sem s f k) = current_thread k"
  "scheduler_lock_nest (upd_sem s f k) = scheduler_lock_nest k"
  by (simp_all add: upd_sem_def)

lemma upd_sem_kinv: "kinv d k \<Longrightarrow> kinv d (upd_sem s f k)"
  by (erule kinv_cong) (simp_all add: upd_sem_def)

section \<open>Properties\<close>

text \<open>\<^verbatim>\<open>rt_sem_take\<close> takes a token if there is one; without a token it returns a timeout
  error at once for time 0, and otherwise suspends the caller in the wait list, at the end or
  by priority as the flag says, starts its timer exactly for a positive time, and lets the
  highest-priority ready thread run. The kernel invariants and the invariant that no thread
  waits while there is a token are kept.\<close>

theorem sem_take_correct:
  assumes m: "may_block k t" and ok: "sem_ok k s" and time: "time < 0x7fffffff"
  shows "\<exists>r k'. rt_sem_take s time k = Some (r, k') \<and> kinv 0 k' \<and> sem_ok k' s \<and>
    (if 0 < sem_value (sems k s)
     then r = Returned RT_EOK \<and> k' = k\<lparr>sems := (sems k)(s := (sems k s)
            \<lparr>sem_value := sem_value (sems k s) - 1\<rparr>)\<rparr>
     else if time = 0 then r = Returned (- RT_ETIMEOUT) \<and> k' = k
     else r = Blocked \<and> current_top k' \<and> th_suspended k' t \<and> error_of k' t = RT_EOK \<and>
       sems k' = sems k \<and>
       lists k' (LSem s) = wait_insert (sem_flag (sems k s)) k t (lists k (LSem s)) \<and>
       (TThread t \<in> set (timer_list k') \<longleftrightarrow> 0 < time))"
proof -
  have inv: "kinv 0 k" using m by (simp add: may_block_def)
  consider "0 < sem_value (sems k s)" | "sem_value (sems k s) = 0" "time = 0"
    | "sem_value (sems k s) = 0" "time \<noteq> 0" by (auto simp: word_gt_0)
  then show ?thesis
  proof cases
    case 1
    then show ?thesis
      using ok upd_sem_kinv [OF inv, of s "\<lambda>sm. sm\<lparr>sem_value := sem_value sm - 1\<rparr>"]
      by (auto simp: rt_sem_take_def sem_ok_def) (simp add: upd_sem_def)
  next
    case 2
    then show ?thesis using ok inv by (simp add: rt_sem_take_def)
  next
    case 3
    have flag: "flag_ok (sem_flag (sems k s))" using ok by (simp add: sem_ok_def)
    obtain k' where k': "suspend_current (LSem s) (sem_flag (sems k s)) time t (set_error t RT_EOK k) = Some k'"
      "kinv 0 k'" "current_top k'" "current_thread k' \<noteq> Some t" "core_only k k'" "th_suspended k' t"
      "\<forall>u. error_of k' u = (if u = t then RT_EOK else error_of k u)"
      "lists k' (LSem s) = wait_insert (sem_flag (sems k s)) k t (lists k (LSem s))"
      "\<forall>j. j \<noteq> s \<longrightarrow> lists k' (LSem j) = lists k (LSem j)"
      "TThread t \<in> set (timer_list k') \<longleftrightarrow> 0 < time"
      "0 < time \<longrightarrow> timeout_of k' (TThread t) = tick k + word_of_int time"
      by (rule sem_q.block [OF m flag time])
    have sm: "sems k' = sems k" by (rule core_only_frame(6) [OF k'(5)])
    have "rt_sem_take s time k = Some (Blocked, k')"
      using 3 m k'(1,4)
      by (simp add: rt_sem_take_def in_thread_context_def may_block_def rt_thread_self_def
          after_schedule_def Let_def)
    moreover have "sem_ok k' s" using 3 ok by (simp add: sem_ok_def sm)
    ultimately show ?thesis
      using k' 3 by (intro exI [of _ Blocked] exI [of _ k']) (auto simp: sm)
  qed
qed

lemma sem_release_spec:
  assumes inv: "kinv 0 k" and ok: "sem_ok k s" and cur: "current_thread k = Some c"
  shows "\<exists>k'. rt_sem_release s k = Some k' \<and> kinv 0 k' \<and> sem_ok k' s \<and>
    (case lists k (LSem s) of
       [] \<Rightarrow> k' = k\<lparr>sems := (sems k)(s := (sems k s)\<lparr>sem_value := sem_value (sems k s) + 1\<rparr>)\<rparr>
     | w # ws \<Rightarrow> sems k' = sems k \<and> lists k' (LSem s) = ws \<and> th_ready k' w \<and>
         error_of k' w = error_of k w \<and> current_thread k' \<noteq> None \<and>
         (scheduler_lock_nest k = 0 \<longrightarrow> current_top k'))"
proof (cases "lists k (LSem s)")
  case Nil
  have "kinv 0 (upd_sem s (\<lambda>sm. sm\<lparr>sem_value := sem_value sm + 1\<rparr>) k)" by (rule upd_sem_kinv [OF inv])
  then show ?thesis
    using Nil ok by (simp add: rt_sem_release_def sem_ok_def) (simp add: upd_sem_def)
next
  case (Cons w ws)
  have cur': "current_thread k \<noteq> None" using cur by simp
  obtain k1 k' where k': "rt_ipc_list_resume (LSem s) k = Some k1" "rt_schedule k1 = Some k'"
    "kinv 0 k'" "th_ready k' w" "core_only k k'" "current_thread k' \<noteq> None"
    "threads k' = (threads k)(w := (threads k w)
       \<lparr>th_stat := with_stat RT_THREAD_READY (th_stat (threads k w))\<rparr>)"
    "lists k' (LSem s) = ws" "\<forall>h'. wait_head h' \<longrightarrow> h' \<noteq> LSem s \<longrightarrow> lists k' h' = lists k h'"
    "\<forall>j. j \<noteq> s \<longrightarrow> lists k' (LSem j) = lists k (LSem j)"
    "scheduler_lock_nest k = 0 \<longrightarrow> current_top k'"
    by (rule sem_q.resume_and_schedule [OF inv Cons cur'])
  note f = core_only_frame [OF k'(5)]
  have "rt_sem_release s k = Some k'" using Cons k'(1,2) by (simp add: rt_sem_release_def)
  moreover have "sem_ok k' s" using ok Cons by (auto simp: sem_ok_def f)
  ultimately show ?thesis using Cons k' by (intro exI [of _ k']) (simp add: f)
qed

text \<open>C18: \<^verbatim>\<open>rt_sem_release\<close> hands the token to the first waiting thread, which becomes ready
  without the value changing and runs if it has the highest priority; without waiting
  threads the value grows by one, modulo \<open>2^16\<close>, and nothing else changes.\<close>

theorem sem_release_correct:
  assumes inv: "kinv 0 k" and ok: "sem_ok k s" and cur: "current_thread k = Some c"
    and unl: "scheduler_lock_nest k = 0"
  shows "\<exists>k'. rt_sem_release s k = Some k' \<and> kinv 0 k' \<and> sem_ok k' s \<and>
    (case lists k (LSem s) of
       [] \<Rightarrow> k' = k\<lparr>sems := (sems k)(s := (sems k s)\<lparr>sem_value := sem_value (sems k s) + 1\<rparr>)\<rparr>
     | w # ws \<Rightarrow> sems k' = sems k \<and> lists k' (LSem s) = ws \<and> th_ready k' w \<and>
         error_of k' w = error_of k w \<and> current_top k')"
  using sem_release_spec [OF inv ok cur] unl by (auto split: list.splits)

text \<open>The demo kernel with thread 1 running; thread 2, of higher priority, waits for
  semaphore 5.\<close>

definition demo_run :: kernel where
  "demo_run = demo_kernel\<lparr>current_thread := Some 1, current_priority := 10\<rparr>"

definition demo_wait :: "lhead \<Rightarrow> kernel" where
  "demo_wait h = demo_run\<lparr>lists := (lists demo_run)(h := [2])\<rparr>"

lemma demo_facts [simp]:
  "prio_of demo_run 0 = 31" "prio_of demo_run 1 = 10" "prio_of demo_run 2 = 5"
  "stat_of demo_run 0 = RT_THREAD_READY" "stat_of demo_run 1 = RT_THREAD_READY"
  "stat_of demo_run 2 = RT_THREAD_SUSPEND" "current_thread demo_run = Some 1"
  "scheduler_lock_nest demo_run = 0" "interrupt_nest demo_run = 0" "tick demo_run = 100"
  "lists demo_run (LMutex i) = []" "lists demo_run (LEvent i) = []" "lists demo_run (LMb i) = []"
  "lists demo_run (LMbSender i) = []" "lists demo_run (LMq i) = []" "lists demo_run (LMp i) = []"
  "lists demo_run (LDqPush i) = []" "lists demo_run (LDqPop i) = []"
  "lists demo_run (LCompletion i) = []"
  by (simp_all add: demo_run_def demo_kernel_def demo_thread_def stat_of_def)

lemma demo_wait_facts [simp]:
  "threads (demo_wait h) = threads demo_run" "stat_of (demo_wait h) u = stat_of demo_run u"
  "lists (demo_wait h) h = [2]" "h' \<noteq> h \<Longrightarrow> lists (demo_wait h) h' = lists demo_run h'"
  "current_thread (demo_wait h) = current_thread demo_run"
  "scheduler_lock_nest (demo_wait h) = scheduler_lock_nest demo_run"
  "interrupt_nest (demo_wait h) = interrupt_nest demo_run" "tick (demo_wait h) = tick demo_run"
  by (simp_all add: demo_wait_def stat_of_def)

lemma demo_run_inv: "kinv 0 demo_run" "may_block demo_run 1"
proof -
  have "sched_inv {} demo_run" by (rule sched_inv_cong [OF demo_inv]) (simp_all add: demo_run_def)
  moreover have "timer_inv 0 demo_run"
    by (simp add: timer_inv_def timers_sorted_def demo_run_def demo_kernel_def)
  ultimately show i: "kinv 0 demo_run" by (simp add: kinv_def)
  have "th_ready demo_run 0" "th_ready demo_run 1"
    by (simp_all add: demo_run_def demo_kernel_def demo_thread_def stat_of_def)
  then show "may_block demo_run 1"
    using i by (auto simp: may_block_def intro!: exI [of _ 0])
qed

lemma demo_wait_inv: "wait_head h \<Longrightarrow> kinv 0 (demo_wait h)"
proof -
  assume h: "wait_head h"
  have "2 \<notin> set (lists demo_run h')" for h' by (simp add: demo_run_def demo_kernel_def)
  then have "sched_inv {2} demo_run"
    using demo_run_inv(1) by (intro sched_inv_unlinked) (simp_all add: kinv_def)
  moreover have "stat_of demo_run 2 = RT_THREAD_SUSPEND"
    by (simp add: demo_run_def demo_kernel_def demo_thread_def stat_of_def)
  moreover have "lists demo_run h = []" using h by (auto simp: demo_run_def demo_kernel_def)
  ultimately have "sched_inv {} (demo_wait h)"
    by (intro link_inv [of 2 demo_run h "demo_wait h" "[]" "[]"])
      (use h in \<open>simp_all add: wait_head_fits wait_head_not_ready demo_wait_def\<close>)
  moreover have "timer_inv 0 (demo_wait h)"
    by (simp add: timer_inv_def timers_sorted_def demo_wait_def demo_run_def demo_kernel_def)
  ultimately show ?thesis by (simp add: kinv_def)
qed

lemma sem_take_correct_witness:
  "\<exists>k'. rt_sem_take 5 100 demo_run = Some (Blocked, k') \<and> kinv 0 k' \<and> current_top k' \<and>
    lists k' (LSem 5) = [1] \<and> TThread 1 \<in> set (timer_list k')"
proof -
  have "sem_ok demo_run 5" "sem_value (sems demo_run 5) = 0" "sem_flag (sems demo_run 5) = 0"
    "lists demo_run (LSem 5) = []"
    by (simp_all add: sem_ok_def flag_ok_def demo_run_def demo_kernel_def)
  then show ?thesis
    using sem_take_correct [OF demo_run_inv(2), of 5 100] by (auto simp: wait_insert_def)
qed

lemma sem_release_correct_witness:
  "\<exists>k'. rt_sem_release 5 (demo_wait (LSem 5)) = Some k' \<and> kinv 0 k' \<and> th_ready k' 2 \<and>
    lists k' (LSem 5) = [] \<and> current_top k'"
proof -
  have "sem_ok (demo_wait (LSem 5)) 5" "lists (demo_wait (LSem 5)) (LSem 5) = [2]"
    "current_thread (demo_wait (LSem 5)) = Some 1" "scheduler_lock_nest (demo_wait (LSem 5)) = 0"
    by (simp_all add: sem_ok_def flag_ok_def demo_wait_def demo_run_def demo_kernel_def)
  then show ?thesis
    using sem_release_correct [OF demo_wait_inv, of "LSem 5" 5 1] by auto
qed

subsection \<open>The counter wraps\<close>

text \<open>Releasing a semaphore 65536 times without a take leaves its value where it was:
  \<^verbatim>\<open>rt_sem_release\<close> does not check the 16-bit counter for overflow, and all tokens are lost.\<close>

theorem sem_release_wraps:
  assumes "lists k (LSem s) = []" and "sem_value (sems k s) = 0xffff"
  shows "\<exists>k'. rt_sem_release s k = Some k' \<and> sem_value (sems k' s) = 0"
  using assms by (simp add: rt_sem_release_def)

lemma sem_release_wraps_witness:
  "\<exists>k'. rt_sem_release 5 (upd_sem 5 (\<lambda>_. \<lparr>sem_value = 0xffff, sem_flag = 0\<rparr>) demo_run) = Some k' \<and>
    sem_value (sems k' 5) = 0"
  by (rule sem_release_wraps) (simp_all add: demo_run_def demo_kernel_def)

subsection \<open>Waiting with the scheduler locked\<close>

text \<open>Inside \<^verbatim>\<open>rt_enter_critical\<close> a waiting \<^verbatim>\<open>rt_sem_take\<close> does not wait: \<^verbatim>\<open>rt_schedule\<close>
  does nothing, and the call returns \<^verbatim>\<open>RT_EOK\<close> at once although the semaphore has no token;
  the caller keeps running while it is marked suspended and stands in the wait list.\<close>

theorem sem_take_locked_takes_nothing:
  assumes inv: "kinv 0 k" and cur: "current_thread k = Some t" and ready: "th_ready k t"
    and lock: "scheduler_lock_nest k \<noteq> 0" and nest: "interrupt_nest k = 0"
    and flag: "flag_ok (sem_flag (sems k s))"
    and empty: "sem_value (sems k s) = 0" and time: "time < 0"
  shows "\<exists>k'. rt_sem_take s time k = Some (Returned RT_EOK, k') \<and> sem_value (sems k' s) = 0 \<and>
    current_thread k' = Some t \<and> th_suspended k' t \<and> t \<in> set (lists k' (LSem s))"
proof -
  let ?k1 = "set_error t RT_EOK k"
  have k1: "kinv 0 ?k1" "th_ready ?k1 t" "flag_ok (sem_flag (sems ?k1 s))" "wait_head (LSem s)"
    using set_error_kinv [OF inv] ready flag by (simp_all add: set_error_def stat_of_def)
  let ?k2 = "rt_ipc_list_suspend (LSem s) t (sem_flag (sems ?k1 s)) ?k1"
  note s = list_suspend_spec [OF k1(1,2,4,3)]
  note f = core_only_frame [OF s(4)]
  have nest2: "scheduler_lock_nest ?k2 = scheduler_lock_nest k"
    by (simp only: f(1)) (simp add: set_error_def)
  have sems2: "sems ?k2 = sems k" by (simp only: f(6)) (simp add: set_error_def)
  have sus2: "th_suspended ?k2 t" by (rule s(2))
  have lst2: "t \<in> set (lists ?k2 (LSem s))" by (simp only: s(7)) simp
  have thr2: "error_of ?k2 t = RT_EOK" by (simp only: s(6)) (simp add: set_error_def)
  have cur2: "current_thread ?k2 = Some t" by (simp only: s(3)) (simp add: cur set_error_def)
  have "rt_schedule ?k2 = Some ?k2" by (rule schedule_locked) (use lock nest2 in simp)
  then have "suspend_current (LSem s) (sem_flag (sems ?k1 s)) time t ?k1 = Some ?k2"
    using time by (simp add: suspend_current_def arm_and_schedule_def)
  moreover define k2 where "k2 = ?k2"
  ultimately have "rt_sem_take s time k = Some (Returned RT_EOK, k2)"
    using empty time cur nest cur2 thr2
    by (simp add: rt_sem_take_def in_thread_context_def rt_thread_self_def after_schedule_def
        rt_sem_take_resumed_def Let_def)
  then show ?thesis
    using sus2 lst2 cur2 sems2 empty unfolding k2_def [symmetric] by simp
qed

lemma sem_take_locked_takes_nothing_witness:
  "\<exists>k'. rt_sem_take 5 (- 1) (rt_enter_critical demo_run) = Some (Returned RT_EOK, k') \<and>
    sem_value (sems k' 5) = 0 \<and> current_thread k' = Some 1 \<and> th_suspended k' 1 \<and>
    1 \<in> set (lists k' (LSem 5))"
proof (rule sem_take_locked_takes_nothing)
  show "kinv 0 (rt_enter_critical demo_run)"
    by (rule kinv_cong [OF demo_run_inv(1)]) (simp_all add: rt_enter_critical_def)
qed (simp_all add: rt_enter_critical_def demo_run_def demo_kernel_def demo_thread_def stat_of_def
    flag_ok_def)

end
