(* ===== verification/Mutex.thy ===== *)
theory Mutex
  imports Sem
begin

text \<open>
  Mutexes, \<^verbatim>\<open>rt_mutex_*\<close> of \<^verbatim>\<open>rt-thread/src/ipc.c\<close>: recursive locks whose owner runs at
  least at the priority of the threads it keeps waiting. The waiting threads are in
  \<open>LMutex m\<close>.
\<close>

section \<open>Operations\<close>

definition upd_mutex :: "nat \<Rightarrow> (mutex \<Rightarrow> mutex) \<Rightarrow> kernel \<Rightarrow> kernel" where
  "upd_mutex m f k = k\<lparr>mutexes := (mutexes k)(m := f (mutexes k m))\<rparr>"

definition fresh_mutex :: "u8 \<Rightarrow> mutex" where
  "fresh_mutex flag = \<lparr>mtx_value = 1, mtx_original_priority = 0xFF, mtx_hold = 0,
     mtx_owner = None, mtx_flag = flag\<rparr>"

definition rt_mutex_init :: "nat \<Rightarrow> u8 list \<Rightarrow> u8 \<Rightarrow> kernel \<Rightarrow> kernel option" where
  "rt_mutex_init m name flag k = do {
     k1 \<leftarrow> rt_object_init (OMutex m) Class_Mutex name k;
     let k2 = rt_ipc_object_init (LMutex m) k1;
     Some (upd_mutex m (\<lambda>_. fresh_mutex flag) k2)
   }"

definition rt_mutex_detach :: "nat \<Rightarrow> kernel \<Rightarrow> kernel option" where
  "rt_mutex_detach m k = do {
     rt_assert (rt_object_is_systemobject (OMutex m) k);
     k1 \<leftarrow> rt_ipc_list_resume_all (LMutex m) k;
     Some (rt_object_detach (OMutex m) k1)
   }"

definition rt_mutex_create ::
    "nat option \<Rightarrow> u8 list \<Rightarrow> u8 \<Rightarrow> kernel \<Rightarrow> (nat option \<times> kernel) option" where
  "rt_mutex_create mem name flag k = do {
     rt_assert (interrupt_nest k = 0);
     (ob, k1) \<leftarrow> rt_object_allocate (map_option OMutex mem) Class_Mutex name k;
     case mem of None \<Rightarrow> Some (None, k1)
     | Some m \<Rightarrow>
         let k2 = rt_ipc_object_init (LMutex m) k1
         in Some (Some m, upd_mutex m (\<lambda>_. fresh_mutex flag) k2)
   }"

definition rt_mutex_delete :: "nat \<Rightarrow> kernel \<Rightarrow> kernel option" where
  "rt_mutex_delete m k = do {
     rt_assert (interrupt_nest k = 0);
     rt_assert (\<not> rt_object_is_systemobject (OMutex m) k);
     k1 \<leftarrow> rt_ipc_list_resume_all (LMutex m) k;
     rt_object_delete (OMutex m) k1
   }"

text \<open>A thread of higher priority than the owner lends it its priority.\<close>

definition inherit_priority :: "nat \<Rightarrow> nat \<Rightarrow> kernel \<Rightarrow> kernel option" where
  "inherit_priority m t k = do {
     ow \<leftarrow> mtx_owner (mutexes k m);
     if prio_of k t < prio_of k ow
     then rt_thread_control ow (CTRL_CHANGE_PRIORITY (prio_of k t)) k
     else Some k
   }"

text \<open>The code from \<^verbatim>\<open>__again\<close> on; the rest after \<^verbatim>\<open>rt_schedule\<close> is reached at once only when
  the scheduler is locked, otherwise when the thread runs again.\<close>

partial_function (option) rt_mutex_take_again ::
    "nat \<Rightarrow> int \<Rightarrow> nat \<Rightarrow> kernel \<Rightarrow> (outcome \<times> kernel) option" where
  "rt_mutex_take_again m time t k =
     (if mtx_value (mutexes k m) > 0
      then Some (Returned RT_EOK,
             upd_mutex m (\<lambda>mx. mx\<lparr>mtx_value := mtx_value mx - 1, mtx_owner := Some t,
               mtx_original_priority := prio_of k t, mtx_hold := mtx_hold mx + 1\<rparr>) k)
      else if time = 0 then Some (Returned (- RT_ETIMEOUT), set_error t (- RT_ETIMEOUT) k)
      else Option.bind (inherit_priority m t k)
       (\<lambda>k1. Option.bind (suspend_current (LMutex m) (mtx_flag (mutexes k1 m)) time t k1)
         (\<lambda>k2. if current_thread k2 = Some t
            then if error_of k2 t = - RT_EINTR then rt_mutex_take_again m time t k2
                 else Some (Returned (error_of k2 t), k2)
            else Some (Blocked, k2))))"

definition rt_mutex_take_resumed :: "nat \<Rightarrow> int \<Rightarrow> nat \<Rightarrow> kernel \<Rightarrow> (outcome \<times> kernel) option" where
  "rt_mutex_take_resumed m time t k =
     (if error_of k t \<noteq> RT_EOK
      then if error_of k t = - RT_EINTR then rt_mutex_take_again m time t k
           else Some (Returned (error_of k t), k)
      else Some (Returned RT_EOK, k))"

definition rt_mutex_take :: "nat \<Rightarrow> int \<Rightarrow> kernel \<Rightarrow> (outcome \<times> kernel) option" where
  "rt_mutex_take m time k = do {
     rt_assert (in_thread_context k);
     t \<leftarrow> rt_thread_self k;
     let k1 = set_error t RT_EOK k;
     if mtx_owner (mutexes k1 m) = Some t
     then Some (Returned RT_EOK, upd_mutex m (\<lambda>mx. mx\<lparr>mtx_hold := mtx_hold mx + 1\<rparr>) k1)
     else rt_mutex_take_again m time t k1
   }"

text \<open>The part of \<^verbatim>\<open>rt_mutex_release\<close> that gives the mutex to the first waiting thread or, when
  none waits, frees it; the flag is \<^verbatim>\<open>need_schedule\<close>.\<close>

definition hand_over :: "nat \<Rightarrow> kernel \<Rightarrow> (bool \<times> kernel) option" where
  "hand_over m k =
     (case lists k (LMutex m) of
        w # _ \<Rightarrow> do {
          let k1 = upd_mutex m (\<lambda>mx. mx\<lparr>mtx_owner := Some w,
                     mtx_original_priority := prio_of k w, mtx_hold := mtx_hold mx + 1\<rparr>) k;
          k2 \<leftarrow> rt_ipc_list_resume (LMutex m) k1;
          Some (True, k2)
        }
      | [] \<Rightarrow> Some (False, upd_mutex m (\<lambda>mx. mx\<lparr>mtx_value := mtx_value mx + 1,
                mtx_owner := None, mtx_original_priority := 0xff\<rparr>) k))"

definition restore_priority :: "nat \<Rightarrow> nat \<Rightarrow> kernel \<Rightarrow> kernel option" where
  "restore_priority m ow k =
     (let p = mtx_original_priority (mutexes k m)
      in if p \<noteq> prio_of k ow then rt_thread_control ow (CTRL_CHANGE_PRIORITY p) k else Some k)"

definition rt_mutex_release :: "nat \<Rightarrow> kernel \<Rightarrow> (rt_err \<times> kernel) option" where
  "rt_mutex_release m k = do {
     rt_assert (in_thread_context k);
     t \<leftarrow> rt_thread_self k;
     if mtx_owner (mutexes k m) \<noteq> Some t
     then Some (- RT_ERROR, set_error t (- RT_ERROR) k)
     else do {
       let k1 = upd_mutex m (\<lambda>mx. mx\<lparr>mtx_hold := mtx_hold mx - 1\<rparr>) k;
       (need_schedule, k3) \<leftarrow>
         (if mtx_hold (mutexes k1 m) = 0
          then do { k2 \<leftarrow> restore_priority m t k1; hand_over m k2 }
          else Some (False, k1));
       k4 \<leftarrow> (if need_schedule then rt_schedule k3 else Some k3);
       Some (RT_EOK, k4)
     }
   }"

definition rt_mutex_control :: "nat \<Rightarrow> nat \<Rightarrow> u32 \<Rightarrow> kernel \<Rightarrow> rt_err \<times> kernel" where
  "rt_mutex_control m cmd arg k = (- RT_ERROR, k)"

section \<open>Invariant\<close>

text \<open>A free mutex has value 1 and no waiting thread; an owned one has value 0, a positive
  hold count and an original priority, and its owner does not wait for it.\<close>

definition mutex_ok :: "kernel \<Rightarrow> nat \<Rightarrow> bool" where
  "mutex_ok k m \<longleftrightarrow> flag_ok (mtx_flag (mutexes k m)) \<and>
     (case mtx_owner (mutexes k m) of
        None \<Rightarrow> mtx_value (mutexes k m) = 1 \<and> mtx_hold (mutexes k m) = 0 \<and> lists k (LMutex m) = []
      | Some ow \<Rightarrow> mtx_value (mutexes k m) = 0 \<and> mtx_hold (mutexes k m) \<noteq> 0 \<and>
          mtx_original_priority (mutexes k m) < RT_THREAD_PRIORITY_MAX \<and>
          ow \<notin> set (lists k (LMutex m)))"

text \<open>Priority inheritance: no thread waits for an owner of lower priority.\<close>

definition inherits :: "kernel \<Rightarrow> nat \<Rightarrow> bool" where
  "inherits k m \<longleftrightarrow> (\<forall>ow w. mtx_owner (mutexes k m) = Some ow \<longrightarrow>
     w \<in> set (lists k (LMutex m)) \<longrightarrow> prio_of k ow \<le> prio_of k w)"

lemma upd_mutex_simps [simp]:
  "mutexes (upd_mutex m f k) = (mutexes k)(m := f (mutexes k m))"
  "threads (upd_mutex m f k) = threads k" "lists (upd_mutex m f k) = lists k"
  "current_thread (upd_mutex m f k) = current_thread k"
  "scheduler_lock_nest (upd_mutex m f k) = scheduler_lock_nest k"
  by (simp_all add: upd_mutex_def)

lemma upd_mutex_kinv: "kinv d k \<Longrightarrow> kinv d (upd_mutex m f k)"
  by (erule kinv_cong) (simp_all add: upd_mutex_def)

lemma owned_simps:
  assumes "mutex_ok k m" "mtx_owner (mutexes k m) = Some ow"
  shows "mtx_value (mutexes k m) = 0" "mtx_hold (mutexes k m) \<noteq> 0"
    "mtx_original_priority (mutexes k m) < RT_THREAD_PRIORITY_MAX"
    "ow \<notin> set (lists k (LMutex m))" "flag_ok (mtx_flag (mutexes k m))"
  using assms by (simp_all add: mutex_ok_def)

text \<open>Lending the priority: the owner is raised, nothing else changes.\<close>

lemma inherit_priority_spec:
  assumes inv: "kinv d k" and ow: "mtx_owner (mutexes k m) = Some ow" and ne: "ow \<noteq> t"
  obtains k' where "inherit_priority m t k = Some k'" "kinv d k'" "core_only k k'"
    "current_thread k' = current_thread k" "\<forall>u. stat_of k' u = stat_of k u"
    "\<forall>u. prio_of k' u = (if u = ow then min (prio_of k ow) (prio_of k t) else prio_of k u)"
    "\<forall>h. wait_head h \<longrightarrow> lists k' h = lists k h"
proof (cases "prio_of k t < prio_of k ow")
  case False
  then show ?thesis using that [of k] inv ow by (simp add: inherit_priority_def)
next
  case True
  have p: "prio_of k t < RT_THREAD_PRIORITY_MAX"
    using inv by (simp add: kinv_def sched_inv_def mask_ok_def)
  let ?k = "change_priority ow (prio_of k t) k"
  note c = change_priority_kinv [OF inv p, where t = ow]
  show ?thesis
  proof (rule that [of ?k])
    show "inherit_priority m t k = Some ?k"
      using True ow p by (simp add: inherit_priority_def rt_thread_control_def)
    show "\<forall>h. wait_head h \<longrightarrow> lists ?k h = lists k h"
      using wait_head_not_ready by (intro allI impI c(7)) blast
  qed (use c True in \<open>auto simp: min_def\<close>)
qed

lemma restore_priority_spec:
  assumes inv: "kinv d k" and p: "mtx_original_priority (mutexes k m) < RT_THREAD_PRIORITY_MAX"
  obtains k' where "restore_priority m ow k = Some k'" "kinv d k'" "core_only k k'"
    "current_thread k' = current_thread k" "\<forall>u. stat_of k' u = stat_of k u"
    "\<forall>u. prio_of k' u = (if u = ow then mtx_original_priority (mutexes k m) else prio_of k u)"
    "\<forall>h. wait_head h \<longrightarrow> lists k' h = lists k h"
proof (cases "mtx_original_priority (mutexes k m) = prio_of k ow")
  case True
  then show ?thesis using that [of k] inv by (simp add: restore_priority_def)
next
  case False
  let ?k = "change_priority ow (mtx_original_priority (mutexes k m)) k"
  note c = change_priority_kinv [OF inv p, where t = ow]
  show ?thesis
  proof (rule that [of ?k])
    show "restore_priority m ow k = Some ?k"
      using False p by (simp add: restore_priority_def rt_thread_control_def)
    show "\<forall>h. wait_head h \<longrightarrow> lists ?k h = lists k h"
      using wait_head_not_ready by (intro allI impI c(7)) blast
  qed (use c in auto)
qed

section \<open>Taking\<close>

lemma hold_not_zero: "h \<noteq> 0xff \<Longrightarrow> h + 1 \<noteq> (0 :: u8)"
proof -
  have "(0xff :: u8) = - 1" by simp
  then show "h \<noteq> 0xff \<Longrightarrow> h + 1 \<noteq> (0 :: u8)" by (metis eq_neg_iff_add_eq_0)
qed

text \<open>Waiting for a mutex another thread owns.\<close>

lemma mutex_wait:
  assumes m: "may_block k t" and ok: "mutex_ok k m" and ow: "mtx_owner (mutexes k m) = Some ow"
    and ne: "ow \<noteq> t" and time: "time \<noteq> 0" "time < 0x7fffffff"
  shows "\<exists>k'. rt_mutex_take_again m time t k = Some (Blocked, k') \<and> kinv 0 k' \<and>
    current_top k' \<and> th_suspended k' t \<and> mutexes k' = mutexes k \<and>
    set (lists k' (LMutex m)) = insert t (set (lists k (LMutex m))) \<and>
    (\<forall>u. prio_of k' u = (if u = ow then min (prio_of k ow) (prio_of k t) else prio_of k u)) \<and>
    (\<forall>u. error_of k' u = error_of k u)"
proof -
  note os = owned_simps [OF ok ow]
  have inv: "kinv 0 k" using m by (simp add: may_block_def)
  have p: "prio_of k t < RT_THREAD_PRIORITY_MAX"
    using inv by (simp add: kinv_def sched_inv_def mask_ok_def)
  obtain k1 where k1: "inherit_priority m t k = Some k1" "kinv 0 k1" "core_only k k1"
    "current_thread k1 = current_thread k" "\<forall>u. stat_of k1 u = stat_of k u"
    "\<forall>u. prio_of k1 u = (if u = ow then min (prio_of k ow) (prio_of k t) else prio_of k u)"
    "\<forall>h. wait_head h \<longrightarrow> lists k1 h = lists k h"
    by (rule inherit_priority_spec [OF inv ow ne])
  have e1: "error_of k1 u = error_of k u" for u
    using k1(1) ow p by (auto simp: inherit_priority_def rt_thread_control_def change_priority_def
        Let_def split: if_splits)
  note f1 = core_only_frame [OF k1(3)]
  from m obtain u where u: "th_ready k1 u" "u \<noteq> t" by (auto simp: may_block_def k1(5))
  have pre: "current_thread k1 = Some t" "th_ready k1 t" "scheduler_lock_nest k1 = 0"
    using m by (simp_all add: may_block_def k1(4,5) f1)
  have flag: "flag_ok (mtx_flag (mutexes k1 m))" using os by (simp add: f1)
  obtain k' where k': "suspend_current (LMutex m) (mtx_flag (mutexes k1 m)) time t k1 = Some k'"
    "kinv 0 k'" "current_top k'" "current_thread k' \<noteq> Some t" "core_only k1 k'" "th_suspended k' t"
    "threads k' = (threads k1)(t := (threads k1 t)
       \<lparr>th_stat := with_stat RT_THREAD_SUSPEND (th_stat (threads k1 t))\<rparr>)"
    "lists k' (LMutex m) = wait_insert (mtx_flag (mutexes k1 m)) k1 t (lists k1 (LMutex m))"
    "\<forall>h'. wait_head h' \<longrightarrow> h' \<noteq> LMutex m \<longrightarrow> lists k' h' = lists k1 h'"
    "\<forall>j. j \<noteq> m \<longrightarrow> lists k' (LMutex j) = lists k1 (LMutex j)"
    "0 < time \<longrightarrow> TThread t \<in> set (timer_list k') \<and>
       timeout_of k' (TThread t) = tick k1 + word_of_int time"
    "\<not> 0 < time \<longrightarrow> TThread t \<notin> set (timer_list k')"
    by (rule mutex_q.suspend [OF k1(2) pre(1,2) u pre(3) flag time(2)])
  have "rt_mutex_take_again m time t k = Some (Blocked, k')"
    using os(1) time(1) k1(1) k'(1,4) by (subst rt_mutex_take_again.simps) simp
  moreover have "mutexes k' = mutexes k" using core_only_frame(7) [OF k'(5)] f1 by simp
  ultimately show ?thesis
    using k'(2,3,6) k1(6,7) by (intro exI [of _ k']) (simp add: k'(7,8) e1)
qed

text \<open>C12: \<^verbatim>\<open>rt_mutex_take\<close> by a thread that may block: a free mutex becomes its own, with hold
  count 1; its own mutex is held once more; a mutex of another thread gives a timeout error
  for time 0 and otherwise suspends the caller, raises the owner to at least the caller's
  priority and switches to the highest ready thread. Every case keeps the mutex and kernel
  invariants and priority inheritance.\<close>

theorem mutex_take_correct:
  assumes m: "may_block k t" and ok: "mutex_ok k m" and hold: "mtx_hold (mutexes k m) \<noteq> 0xff"
    and inh: "inherits k m" and time: "time < 0x7fffffff"
  shows "\<exists>r k'. rt_mutex_take m time k = Some (r, k') \<and> kinv 0 k' \<and> mutex_ok k' m \<and> inherits k' m \<and>
    (case mtx_owner (mutexes k m) of
       None \<Rightarrow> r = Returned RT_EOK \<and> mtx_owner (mutexes k' m) = Some t \<and>
         mtx_hold (mutexes k' m) = 1 \<and> mtx_original_priority (mutexes k' m) = prio_of k t
     | Some ow \<Rightarrow>
         if ow = t then r = Returned RT_EOK \<and>
           mutexes k' m = (mutexes k m)\<lparr>mtx_hold := mtx_hold (mutexes k m) + 1\<rparr>
         else if time = 0 then r = Returned (- RT_ETIMEOUT) \<and> mutexes k' = mutexes k \<and>
           lists k' = lists k
         else r = Blocked \<and> current_top k' \<and> th_suspended k' t \<and> mutexes k' = mutexes k \<and>
           set (lists k' (LMutex m)) = insert t (set (lists k (LMutex m))) \<and>
           prio_of k' ow = min (prio_of k ow) (prio_of k t))"
proof -
  let ?k1 = "set_error t RT_EOK k"
  have inv: "kinv 0 k" and run: "in_thread_context k" "rt_thread_self k = Some t"
    using m by (auto simp: may_block_def in_thread_context_def rt_thread_self_def)
  have inv1: "kinv 0 (set_error t e k)" for e by (rule set_error_kinv [OF inv])
  have p: "prio_of k t < RT_THREAD_PRIORITY_MAX"
    using inv by (simp add: kinv_def sched_inv_def mask_ok_def)
  show ?thesis
  proof (cases "mtx_owner (mutexes k m)")
    case None
    then show ?thesis
      using ok run p upd_mutex_kinv [OF inv1, of m]
      by (simp add: mutex_ok_def rt_mutex_take_def rt_mutex_take_again.simps inherits_def)
  next
    case (Some ow)
    note os = owned_simps [OF ok Some]
    show ?thesis
    proof (cases "ow = t")
      case True
      have "mtx_hold (mutexes k m) + 1 \<noteq> 0" using hold by (rule hold_not_zero)
      then show ?thesis
        using ok inh Some True run upd_mutex_kinv [OF inv1, of m]
        by (simp add: mutex_ok_def rt_mutex_take_def inherits_def)
    next
      case ne: False
      have m1: "may_block ?k1 t" by (rule may_block_set_error [OF m])
      have ok1: "mutex_ok ?k1 m" using ok by (simp add: mutex_ok_def split: option.splits)
      have ow1: "mtx_owner (mutexes ?k1 m) = Some ow" using Some by simp
      show ?thesis
      proof (cases "time = 0")
        case True
        then show ?thesis
          using Some ne os run inh ok inv1 set_error_kinv [OF inv1]
          by (simp add: rt_mutex_take_def rt_mutex_take_again.simps mutex_ok_def inherits_def)
      next
        case False
        from mutex_wait [OF m1 ok1 ow1 ne False time]
        obtain k' where k': "rt_mutex_take_again m time t ?k1 = Some (Blocked, k')" "kinv 0 k'"
          "current_top k'" "th_suspended k' t" "mutexes k' = mutexes ?k1"
          "set (lists k' (LMutex m)) = insert t (set (lists ?k1 (LMutex m)))"
          "\<forall>u. prio_of k' u = (if u = ow then min (prio_of ?k1 ow) (prio_of ?k1 t) else prio_of ?k1 u)"
          by blast
        have "rt_mutex_take m time k = Some (Blocked, k')"
          using run Some ne k'(1) by (simp add: rt_mutex_take_def)
        moreover have "mutex_ok k' m" using ok Some ne k'(5,6)
          by (simp add: mutex_ok_def)
        moreover have "inherits k' m"
          using inh Some ne k'(5-7) by (auto simp: inherits_def min_def)
        ultimately show ?thesis
          using Some ne False k' by (intro exI [of _ Blocked] exI [of _ k']) simp
      qed
    qed
  qed
qed

text \<open>A mutex owned by \<open>ow\<close>, of original priority \<open>p\<close>.\<close>

definition demo_owned :: "nat \<Rightarrow> nat \<Rightarrow> kernel \<Rightarrow> kernel" where
  "demo_owned ow p = upd_mutex 7 (\<lambda>_. \<lparr>mtx_value = 0, mtx_original_priority = p, mtx_hold = 1,
     mtx_owner = Some ow, mtx_flag = 0\<rparr>)"

lemma demo_owned_simps [simp]:
  "mutexes (demo_owned ow p k) 7 = \<lparr>mtx_value = 0, mtx_original_priority = p, mtx_hold = 1,
     mtx_owner = Some ow, mtx_flag = 0\<rparr>"
  "lists (demo_owned ow p k) = lists k" "threads (demo_owned ow p k) = threads k"
  "current_thread (demo_owned ow p k) = current_thread k"
  "scheduler_lock_nest (demo_owned ow p k) = scheduler_lock_nest k"
  "interrupt_nest (demo_owned ow p k) = interrupt_nest k"
  "stat_of (demo_owned ow p k) u = stat_of k u"
  "kinv 0 k \<Longrightarrow> kinv 0 (demo_owned ow p k)"
  by (simp_all add: demo_owned_def stat_of_def upd_mutex_kinv) (simp_all add: upd_mutex_def)

lemma mutex_take_correct_witness:
  "\<exists>k'. rt_mutex_take 7 (- 1) (demo_owned 0 31 demo_run) = Some (Blocked, k') \<and> current_top k' \<and>
    set (lists k' (LMutex 7)) = {1} \<and> prio_of k' 0 = 10"
proof -
  let ?k = "demo_owned 0 31 demo_run"
  have m: "may_block ?k 1" using demo_run_inv(2) by (auto simp: may_block_def)
  have l: "lists ?k (LMutex 7) = []" "prio_of ?k 0 = 31" "prio_of ?k 1 = 10"
    by (simp_all add: demo_run_def demo_kernel_def demo_thread_def)
  then have "mutex_ok ?k 7" "inherits ?k 7" "mtx_hold (mutexes ?k 7) \<noteq> 0xff"
    by (simp_all add: mutex_ok_def flag_ok_def inherits_def)
  from mutex_take_correct [OF m this(1,3,2), of "- 1"] l show ?thesis by auto
qed

section \<open>Releasing\<close>

text \<open>The mutex at its last release: the owner gets its original priority back, then the first
  waiting thread gets the mutex.\<close>

lemma hand_over_spec:
  assumes inv: "kinv 0 k" and l: "lists k (LMutex m) = w # ws" and hold: "mtx_hold (mutexes k m) = 0"
    and val: "mtx_value (mutexes k m) = 0" and flag: "flag_ok (mtx_flag (mutexes k m))"
  obtains k' where "hand_over m k = Some (True, k')" "kinv 0 k'" "mutex_ok k' m" "th_ready k' w"
    "mtx_owner (mutexes k' m) = Some w" "mtx_hold (mutexes k' m) = 1"
    "mtx_original_priority (mutexes k' m) = prio_of k w" "lists k' (LMutex m) = ws"
    "\<forall>u. prio_of k' u = prio_of k u" "current_thread k' = current_thread k"
    "scheduler_lock_nest k' = scheduler_lock_nest k" "\<forall>u. error_of k' u = error_of k u"
    "\<forall>u. u \<noteq> w \<longrightarrow> stat_of k' u = stat_of k u"
proof -
  let ?k1 = "upd_mutex m (\<lambda>mx. mx\<lparr>mtx_owner := Some w, mtx_original_priority := prio_of k w,
    mtx_hold := mtx_hold mx + 1\<rparr>) k"
  have inv1: "kinv 0 ?k1" by (rule upd_mutex_kinv [OF inv])
  have l1: "lists ?k1 (LMutex m) = w # ws" using l by simp
  have d: "w \<notin> set ws"
    using inv l unfolding kinv_def sched_inv_def links_ok_def by (metis distinct.simps(2))
  have p: "prio_of k w < RT_THREAD_PRIORITY_MAX"
    using inv by (simp add: kinv_def sched_inv_def mask_ok_def)
  obtain k' where k': "rt_ipc_list_resume (LMutex m) ?k1 = Some k'" "kinv 0 k'" "th_ready k' w"
    "core_only ?k1 k'"
    "threads k' = (threads ?k1)(w := (threads ?k1 w)
       \<lparr>th_stat := with_stat RT_THREAD_READY (th_stat (threads ?k1 w))\<rparr>)"
    "lists k' (LMutex m) = ws" "\<forall>h'. wait_head h' \<longrightarrow> h' \<noteq> LMutex m \<longrightarrow> lists k' h' = lists ?k1 h'"
    "\<forall>j. j \<noteq> m \<longrightarrow> lists k' (LMutex j) = lists ?k1 (LMutex j)"
    "current_thread k' = current_thread ?k1" "TThread w \<notin> set (timer_list k')"
    by (rule mutex_q.resume_first [OF inv1 l1])
  have mx: "mutexes k' = mutexes ?k1" by (rule core_only_frame(7) [OF k'(4)])
  show ?thesis
  proof (rule that [of k'])
    show "hand_over m k = Some (True, k')" using l k'(1) by (simp add: hand_over_def)
    show "scheduler_lock_nest k' = scheduler_lock_nest k" using core_only_frame(1) [OF k'(4)] by simp
    show "mutex_ok k' m" using flag val hold p d by (simp add: mutex_ok_def mx k'(6))
  qed (use k' hold in \<open>simp_all add: mx stat_of_def\<close>)
qed

text \<open>The last release, with the priority restored.\<close>

lemma mutex_last_release:
  assumes inv: "kinv 0 k" and cur: "current_thread k = Some t" and ready: "th_ready k t"
    and unl: "scheduler_lock_nest k = 0" and nest: "interrupt_nest k = 0" and ok: "mutex_ok k m"
    and ow: "mtx_owner (mutexes k m) = Some t" and hold: "mtx_hold (mutexes k m) = 1"
  obtains k' where "rt_mutex_release m k = Some (RT_EOK, k')" "kinv 0 k'" "mutex_ok k' m"
    "\<forall>u. prio_of k' u = (if u = t then mtx_original_priority (mutexes k m) else prio_of k u)"
    "case lists k (LMutex m) of
       [] \<Rightarrow> mtx_owner (mutexes k' m) = None \<and> lists k' (LMutex m) = [] \<and>
         current_thread k' = Some t \<and> (\<forall>u. stat_of k' u = stat_of k u)
     | w # ws \<Rightarrow> mtx_owner (mutexes k' m) = Some w \<and> mtx_hold (mutexes k' m) = 1 \<and>
         lists k' (LMutex m) = ws \<and> th_ready k' w \<and> current_top k'"
proof -
  note os = owned_simps [OF ok ow]
  let ?k1 = "upd_mutex m (\<lambda>mx. mx\<lparr>mtx_hold := mtx_hold mx - 1\<rparr>) k"
  have inv1: "kinv 0 ?k1" by (rule upd_mutex_kinv [OF inv])
  have p1: "mtx_original_priority (mutexes ?k1 m) < RT_THREAD_PRIORITY_MAX" using os by simp
  obtain k2 where k2: "restore_priority m t ?k1 = Some k2" "kinv 0 k2" "core_only ?k1 k2"
    "current_thread k2 = current_thread ?k1" "\<forall>u. stat_of k2 u = stat_of ?k1 u"
    "\<forall>u. prio_of k2 u = (if u = t then mtx_original_priority (mutexes ?k1 m) else prio_of ?k1 u)"
    "\<forall>h. wait_head h \<longrightarrow> lists k2 h = lists ?k1 h"
    by (rule restore_priority_spec [OF inv1 p1])
  have st1: "stat_of ?k1 u = stat_of k u" for u by (simp add: stat_of_def)
  have m2: "mutexes k2 m = (mutexes k m)\<lparr>mtx_hold := 0\<rparr>"
    using core_only_frame(7) [OF k2(3)] hold by simp
  have run: "in_thread_context k" "rt_thread_self k = Some t"
    using cur nest by (simp_all add: in_thread_context_def rt_thread_self_def)
  show ?thesis
  proof (cases "lists k (LMutex m)")
    case Nil
    let ?k3 = "upd_mutex m (\<lambda>mx. mx\<lparr>mtx_value := mtx_value mx + 1, mtx_owner := None,
      mtx_original_priority := 0xff\<rparr>) k2"
    show ?thesis
    proof (rule that [of ?k3])
      show "rt_mutex_release m k = Some (RT_EOK, ?k3)"
        using run ow hold Nil k2(1,7) by (simp add: rt_mutex_release_def hand_over_def)
      show "kinv 0 ?k3" by (rule upd_mutex_kinv [OF k2(2)])
      show "mutex_ok ?k3 m" using os Nil k2(7) by (simp add: mutex_ok_def m2)
      have "stat_of ?k3 u = stat_of k u" for u using k2(5) st1 by (simp add: stat_of_def)
      then show "case lists k (LMutex m) of
         [] \<Rightarrow> mtx_owner (mutexes ?k3 m) = None \<and> lists ?k3 (LMutex m) = [] \<and>
           current_thread ?k3 = Some t \<and> (\<forall>u. stat_of ?k3 u = stat_of k u)
       | w # ws \<Rightarrow> mtx_owner (mutexes ?k3 m) = Some w \<and> mtx_hold (mutexes ?k3 m) = 1 \<and>
           lists ?k3 (LMutex m) = ws \<and> th_ready ?k3 w \<and> current_top ?k3"
        using Nil k2(4,7) cur by simp
    qed (use k2(6) in simp)
  next
    case (Cons w ws)
    have l2: "lists k2 (LMutex m) = w # ws" using k2(7) Cons by simp
    have h2: "mtx_hold (mutexes k2 m) = 0" "mtx_value (mutexes k2 m) = 0"
      "flag_ok (mtx_flag (mutexes k2 m))" using os by (simp_all add: m2)
    obtain k3 where k3: "hand_over m k2 = Some (True, k3)" "kinv 0 k3" "mutex_ok k3 m" "th_ready k3 w"
      "mtx_owner (mutexes k3 m) = Some w" "mtx_hold (mutexes k3 m) = 1"
      "mtx_original_priority (mutexes k3 m) = prio_of k2 w" "lists k3 (LMutex m) = ws"
      "\<forall>u. prio_of k3 u = prio_of k2 u" "current_thread k3 = current_thread k2"
      "scheduler_lock_nest k3 = scheduler_lock_nest k2" "\<forall>u. error_of k3 u = error_of k2 u"
      "\<forall>u. u \<noteq> w \<longrightarrow> stat_of k3 u = stat_of k2 u"
      by (rule hand_over_spec [OF k2(2) l2 h2])
    have c3: "current_thread k3 \<noteq> None" using k3(10) k2(4) cur by simp
    obtain k' where k': "rt_schedule k3 = Some k'" "switch_only k3 k'" "kinv 0 k'" "core_only k3 k'"
      "current_thread k' \<noteq> None" "scheduler_lock_nest k3 = 0 \<longrightarrow> current_top k'"
      "scheduler_lock_nest k3 \<noteq> 0 \<longrightarrow> k' = k3"
      by (rule schedule_kinv [OF k3(2,4) c3])
    note f = switch_only_frame [OF k'(2)]
    have mx: "mutexes k' = mutexes k3" by (rule core_only_frame(7) [OF k'(4)])
    have "scheduler_lock_nest k3 = 0"
      using k3(11) core_only_frame(1) [OF k2(3)] unl by simp
    then have top: "current_top k'" using k'(6) by simp
    show ?thesis
    proof (rule that [of k'])
      show "rt_mutex_release m k = Some (RT_EOK, k')"
        using run ow hold k2(1) k3(1) k'(1) by (simp add: rt_mutex_release_def)
      show "mutex_ok k' m" using k3(3) by (simp add: mutex_ok_def mx f split: option.splits)
      show "\<forall>u. prio_of k' u = (if u = t then mtx_original_priority (mutexes k m) else prio_of k u)"
        using k3(9) k2(6) by (simp add: f)
      show "case lists k (LMutex m) of
         [] \<Rightarrow> mtx_owner (mutexes k' m) = None \<and> lists k' (LMutex m) = [] \<and>
           current_thread k' = Some t \<and> (\<forall>u. stat_of k' u = stat_of k u)
       | w # ws \<Rightarrow> mtx_owner (mutexes k' m) = Some w \<and> mtx_hold (mutexes k' m) = 1 \<and>
           lists k' (LMutex m) = ws \<and> th_ready k' w \<and> current_top k'"
        using Cons k3 top by (simp add: mx f stat_of_def)
    qed (rule k'(3))
  qed
qed

text \<open>C13: \<^verbatim>\<open>rt_mutex_release\<close> by a thread that does not own the mutex fails and changes only
  its error code. By the owner it takes one hold back; at the last one the owner gets its
  original priority back, and the mutex passes to the first waiting thread, which becomes
  ready, or becomes free; whatever the order of the list, it is the first that gets it. The mutex and
  kernel invariants are kept. Priority inheritance is kept too, at the last release if the waiting threads are in
  priority order.\<close>

theorem mutex_release_correct:
  assumes inv: "kinv 0 k" and cur: "current_thread k = Some t" and ready: "th_ready k t"
    and unl: "scheduler_lock_nest k = 0" and nest: "interrupt_nest k = 0" and ok: "mutex_ok k m"
  shows "\<exists>e k'. rt_mutex_release m k = Some (e, k') \<and> kinv 0 k' \<and> mutex_ok k' m \<and>
    (if mtx_owner (mutexes k m) \<noteq> Some t
     then e = - RT_ERROR \<and> k' = set_error t (- RT_ERROR) k
     else e = RT_EOK \<and>
      (if mtx_hold (mutexes k m) \<noteq> 1
       then k' = k\<lparr>mutexes := (mutexes k)(m := (mutexes k m)
              \<lparr>mtx_hold := mtx_hold (mutexes k m) - 1\<rparr>)\<rparr>
       else prio_of k' t = mtx_original_priority (mutexes k m) \<and>
         (\<forall>u. u \<noteq> t \<longrightarrow> prio_of k' u = prio_of k u) \<and>
         (case lists k (LMutex m) of
            [] \<Rightarrow> mtx_owner (mutexes k' m) = None \<and> lists k' (LMutex m) = []
          | w # ws \<Rightarrow> mtx_owner (mutexes k' m) = Some w \<and> mtx_hold (mutexes k' m) = 1 \<and>
              lists k' (LMutex m) = ws \<and> th_ready k' w \<and> current_top k'))) \<and>
    (inherits k m \<longrightarrow>
      (mtx_owner (mutexes k m) = Some t \<and> mtx_hold (mutexes k m) = 1 \<longrightarrow>
        sorted_wrt (\<lambda>x y. prio_of k x \<le> prio_of k y) (lists k (LMutex m))) \<longrightarrow> inherits k' m)"
proof -
  have run: "in_thread_context k" "rt_thread_self k = Some t"
    using cur nest by (simp_all add: in_thread_context_def rt_thread_self_def)
  consider "mtx_owner (mutexes k m) \<noteq> Some t"
    | "mtx_owner (mutexes k m) = Some t" "mtx_hold (mutexes k m) \<noteq> 1"
    | "mtx_owner (mutexes k m) = Some t" "mtx_hold (mutexes k m) = 1" by blast
  then show ?thesis
  proof cases
    case 1
    have "mutex_ok (set_error t (- RT_ERROR) k) m"
      using ok by (simp add: mutex_ok_def split: option.splits)
    then show ?thesis
      using 1 run set_error_kinv [OF inv] by (simp add: rt_mutex_release_def inherits_def)
  next
    case 2
    note os = owned_simps [OF ok 2(1)]
    let ?k = "upd_mutex m (\<lambda>mx. mx\<lparr>mtx_hold := mtx_hold mx - 1\<rparr>) k"
    have "mtx_hold (mutexes k m) - 1 \<noteq> 0" using 2 by simp
    then have "mutex_ok ?k m" "inherits k m \<longrightarrow> inherits ?k m"
      using 2 os by (simp_all add: mutex_ok_def inherits_def)
    moreover have "rt_mutex_release m k = Some (RT_EOK, ?k)"
      using 2 run by (simp add: rt_mutex_release_def)
    ultimately show ?thesis
      using 2 upd_mutex_kinv [OF inv] by (intro exI [of _ RT_EOK] exI [of _ ?k]) (simp add: upd_mutex_def)
  next
    case 3
    note os = owned_simps [OF ok 3(1)]
    obtain k' where k': "rt_mutex_release m k = Some (RT_EOK, k')" "kinv 0 k'" "mutex_ok k' m"
      "\<forall>u. prio_of k' u = (if u = t then mtx_original_priority (mutexes k m) else prio_of k u)"
      "case lists k (LMutex m) of
         [] \<Rightarrow> mtx_owner (mutexes k' m) = None \<and> lists k' (LMutex m) = [] \<and>
           current_thread k' = Some t \<and> (\<forall>u. stat_of k' u = stat_of k u)
       | w # ws \<Rightarrow> mtx_owner (mutexes k' m) = Some w \<and> mtx_hold (mutexes k' m) = 1 \<and>
           lists k' (LMutex m) = ws \<and> th_ready k' w \<and> current_top k'"
      by (rule mutex_last_release [OF inv cur ready unl nest ok 3])
    have "inherits k' m" if "sorted_wrt (\<lambda>x y. prio_of k x \<le> prio_of k y) (lists k (LMutex m))"
      using k'(4,5) os(4) that by (auto simp: inherits_def split: list.splits)
    then show ?thesis using 3 k' by (intro exI [of _ RT_EOK] exI [of _ k']) (auto split: list.splits)
  qed
qed

lemma mutex_release_correct_witness:
  "\<exists>k'. rt_mutex_release 7 (demo_owned 1 10 (change_priority 1 5 (demo_wait (LMutex 7)))) =
     Some (RT_EOK, k') \<and> prio_of k' 1 = 10 \<and> mtx_owner (mutexes k' 7) = Some 2 \<and> th_ready k' 2 \<and>
     current_top k'"
proof -
  let ?k = "demo_owned 1 10 (change_priority 1 5 (demo_wait (LMutex 7)))"
  have w: "kinv 0 (demo_wait (LMutex 7))" by (rule demo_wait_inv) simp
  have p5: "(5 :: nat) < RT_THREAD_PRIORITY_MAX" by simp
  note c = change_priority_kinv [OF w p5, where t = 1]
  note f = core_only_frame [OF c(3)]
  have inv: "kinv 0 ?k" using c(1) by simp
  have cur: "current_thread ?k = Some 1" "th_ready ?k 1" "scheduler_lock_nest ?k = 0"
    "interrupt_nest ?k = 0"
    by (simp_all add: c f del: One_nat_def)
  have l: "lists ?k (LMutex 7) = [2]" by (simp add: c del: One_nat_def)
  have p: "prio_of ?k 1 = 5" "prio_of ?k 2 = 5"
    by (simp_all add: c del: One_nat_def)
  have ok: "mutex_ok ?k 7" using l by (simp add: mutex_ok_def flag_ok_def)
  from mutex_release_correct [OF inv cur ok] l show ?thesis by auto
qed

section \<open>Flaws\<close>

text \<open>When the last release gives a raised priority back and nobody waits any more (the
  waiting thread has timed out), \<^verbatim>\<open>rt_mutex_release\<close> does not call the scheduler: the caller
  goes on running although a ready thread has a higher priority.\<close>

theorem mutex_release_no_reschedule:
  assumes inv: "kinv 0 k" and cur: "current_thread k = Some t" and ready: "th_ready k t"
    and unl: "scheduler_lock_nest k = 0" and nest: "interrupt_nest k = 0" and ok: "mutex_ok k m"
    and ow: "mtx_owner (mutexes k m) = Some t" and hold: "mtx_hold (mutexes k m) = 1"
    and empty: "lists k (LMutex m) = []"
    and u: "th_ready k u" "u \<noteq> t" "prio_of k u < mtx_original_priority (mutexes k m)"
  shows "\<exists>k'. rt_mutex_release m k = Some (RT_EOK, k') \<and> current_thread k' = Some t \<and>
    th_ready k' u \<and> prio_of k' u < prio_of k' t"
proof -
  obtain k' where k': "rt_mutex_release m k = Some (RT_EOK, k')" "kinv 0 k'" "mutex_ok k' m"
    "\<forall>u. prio_of k' u = (if u = t then mtx_original_priority (mutexes k m) else prio_of k u)"
    "case lists k (LMutex m) of
       [] \<Rightarrow> mtx_owner (mutexes k' m) = None \<and> lists k' (LMutex m) = [] \<and>
         current_thread k' = Some t \<and> (\<forall>u. stat_of k' u = stat_of k u)
     | w # ws \<Rightarrow> mtx_owner (mutexes k' m) = Some w \<and> mtx_hold (mutexes k' m) = 1 \<and>
         lists k' (LMutex m) = ws \<and> th_ready k' w \<and> current_top k'"
    by (rule mutex_last_release [OF inv cur ready unl nest ok ow hold])
  then show ?thesis using empty u by (intro exI [of _ k']) simp
qed

lemma mutex_release_no_reschedule_witness:
  "\<exists>k'. rt_mutex_release 7 (demo_owned 0 31 (change_priority 0 5 (demo_run\<lparr>current_thread := Some 0\<rparr>))) =
     Some (RT_EOK, k') \<and> current_thread k' = Some 0 \<and> th_ready k' 1 \<and> prio_of k' 1 < prio_of k' 0"
proof -
  let ?r = "demo_run\<lparr>current_thread := Some 0\<rparr>"
  let ?k = "demo_owned 0 31 (change_priority 0 5 (demo_run\<lparr>current_thread := Some 0\<rparr>))"
  have r: "kinv 0 ?r" by (rule kinv_cong [OF demo_run_inv(1)]) simp_all
  have p5: "(5 :: nat) < RT_THREAD_PRIORITY_MAX" by simp
  note c = change_priority_kinv [OF r p5, where t = 0]
  note f = core_only_frame [OF c(3)]
  have st: "stat_of ?r u = stat_of demo_run u" for u by (simp add: stat_of_def)
  have l: "lists ?k (LMutex 7) = []" by (simp add: c st del: One_nat_def)
  have "kinv 0 ?k" using c(1) by simp
  then show ?thesis
  proof (rule mutex_release_no_reschedule)
    show "mutex_ok ?k 7" using l by (simp add: mutex_ok_def flag_ok_def)
    show "current_thread ?k = Some 0" "scheduler_lock_nest ?k = 0" "interrupt_nest ?k = 0"
      by (simp_all add: c f st del: One_nat_def)
    show "th_ready ?k 0" "th_ready ?k 1" by (simp_all add: c st del: One_nat_def)
    show "prio_of ?k 1 < mtx_original_priority (mutexes ?k 7)" by (simp add: c st del: One_nat_def)
  qed (use l in simp_all)
qed

text \<open>A mutex with \<^verbatim>\<open>RT_IPC_FLAG_FIFO\<close> loses priority inheritance when it changes hands: the
  new owner does not inherit the priority of the threads that still wait.\<close>

theorem mutex_fifo_inversion:
  assumes inv: "kinv 0 k" and cur: "current_thread k = Some t" and ready: "th_ready k t"
    and unl: "scheduler_lock_nest k = 0" and nest: "interrupt_nest k = 0" and ok: "mutex_ok k m"
    and ow: "mtx_owner (mutexes k m) = Some t" and hold: "mtx_hold (mutexes k m) = 1"
    and l: "lists k (LMutex m) = w # ws" and u: "u \<in> set ws" "prio_of k u < prio_of k w"
  shows "\<exists>k'. rt_mutex_release m k = Some (RT_EOK, k') \<and> \<not> inherits k' m"
proof -
  obtain k' where k': "rt_mutex_release m k = Some (RT_EOK, k')" "kinv 0 k'" "mutex_ok k' m"
    "\<forall>u. prio_of k' u = (if u = t then mtx_original_priority (mutexes k m) else prio_of k u)"
    "case lists k (LMutex m) of
       [] \<Rightarrow> mtx_owner (mutexes k' m) = None \<and> lists k' (LMutex m) = [] \<and>
         current_thread k' = Some t \<and> (\<forall>u. stat_of k' u = stat_of k u)
     | w # ws \<Rightarrow> mtx_owner (mutexes k' m) = Some w \<and> mtx_hold (mutexes k' m) = 1 \<and>
         lists k' (LMutex m) = ws \<and> th_ready k' w \<and> current_top k'"
    by (rule mutex_last_release [OF inv cur ready unl nest ok ow hold])
  have "t \<noteq> w" "t \<noteq> u" using owned_simps(4) [OF ok ow] l u by auto
  then have "prio_of k' u < prio_of k' w" using k'(4) u by simp
  moreover have "u \<in> set (lists k' (LMutex m))" "mtx_owner (mutexes k' m) = Some w"
    using k'(5) l u by simp_all
  ultimately show ?thesis using k'(1) by (auto simp: inherits_def)
qed

definition demo_fifo :: kernel where
  "demo_fifo = demo_owned 0 31 (rt_ipc_list_suspend (LMutex 7) 1 RT_IPC_FLAG_FIFO
     (change_priority 1 3 (demo_wait (LMutex 7)\<lparr>current_thread := Some 0\<rparr>)))"

lemma mutex_fifo_inversion_witness:
  "\<exists>k'. rt_mutex_release 7 demo_fifo = Some (RT_EOK, k') \<and> \<not> inherits k' 7"
proof -
  let ?r = "demo_wait (LMutex 7)\<lparr>current_thread := Some 0\<rparr>"
  let ?c = "change_priority 1 3 ?r"
  have st: "stat_of ?r u = stat_of demo_run u" for u by (simp add: stat_of_def)
  have r: "kinv 0 ?r" by (rule kinv_cong [OF demo_wait_inv [of "LMutex 7"]]) simp_all
  have p3: "(3 :: nat) < RT_THREAD_PRIORITY_MAX" by simp
  note c = change_priority_kinv [OF r p3, where t = 1]
  note fc = core_only_frame [OF c(3)]
  have rc: "th_ready ?c 1" by (simp add: c st del: One_nat_def)
  have h: "wait_head (LMutex 7)" "flag_ok RT_IPC_FLAG_FIFO" by (simp_all add: flag_ok_def)
  note s = list_suspend_spec [OF c(1) rc h]
  note fs = core_only_frame [OF s(4)]
  have lc: "lists ?c (LMutex 7) = [2]" by (simp add: c st del: One_nat_def)
  have l: "lists demo_fifo (LMutex 7) = 2 # [1]"
    by (simp add: demo_fifo_def s(7) wait_insert_def lc del: One_nat_def)
  have "kinv 0 demo_fifo" using s(1) by (simp add: demo_fifo_def)
  then show ?thesis
  proof (rule mutex_fifo_inversion)
    show "current_thread demo_fifo = Some 0" "scheduler_lock_nest demo_fifo = 0"
      "interrupt_nest demo_fifo = 0"
      unfolding demo_fifo_def by (simp_all add: s(3) c fs fc del: One_nat_def)
    have "stat_of demo_fifo 0 = stat_of ?c 0"
      by (simp add: demo_fifo_def stat_of_def s(6) del: One_nat_def)
    then show "th_ready demo_fifo 0" by (simp add: c st del: One_nat_def)
    have "prio_of demo_fifo u = prio_of ?c u" for u
      by (simp add: demo_fifo_def s(6) del: One_nat_def)
    then show "prio_of demo_fifo 1 < prio_of demo_fifo 2" by (simp add: c st del: One_nat_def)
    show "mutex_ok demo_fifo 7" using l by (simp add: mutex_ok_def demo_fifo_def flag_ok_def)
    show "lists demo_fifo (LMutex 7) = 2 # [1]" by (rule l)
    show "(1 :: nat) \<in> set [1]" by (rule list.set_intros(1))
  qed (simp_all add: demo_fifo_def)
qed

text \<open>The hold count is a byte: the 256th recursive take makes it 0, and the next release
  then does not free the mutex.\<close>

lemma mutex_hold_wraps:
  assumes "may_block k t" "mtx_owner (mutexes k m) = Some t" "mtx_hold (mutexes k m) = 0xff"
  shows "\<exists>k'. rt_mutex_take m time k = Some (Returned RT_EOK, k') \<and> mtx_hold (mutexes k' m) = 0"
  using assms by (auto simp: may_block_def rt_mutex_take_def in_thread_context_def rt_thread_self_def)

end
