(* ===== verification/Event.thy ===== *)
theory Event
  imports Mutex
begin

text \<open>
  Events, \<^verbatim>\<open>rt_event_*\<close> of \<^verbatim>\<open>rt-thread/src/ipc.c\<close>: a set of 32 bits; a thread waits for all
  (\<^verbatim>\<open>RT_EVENT_FLAG_AND\<close>) or one (\<^verbatim>\<open>RT_EVENT_FLAG_OR\<close>) of the bits it names and may take the
  bits it receives out of the set (\<^verbatim>\<open>RT_EVENT_FLAG_CLEAR\<close>). The waiting threads are in
  \<open>LEvent e\<close>.
\<close>

section \<open>Operations\<close>

abbreviation "RT_EVENT_FLAG_AND \<equiv> (0x01 :: u8)"
abbreviation "RT_EVENT_FLAG_OR \<equiv> (0x02 :: u8)"
abbreviation "RT_EVENT_FLAG_CLEAR \<equiv> (0x04 :: u8)"

definition upd_event :: "nat \<Rightarrow> (event \<Rightarrow> event) \<Rightarrow> kernel \<Rightarrow> kernel" where
  "upd_event e f k = k\<lparr>events := (events k)(e := f (events k e))\<rparr>"

definition rt_event_init :: "nat \<Rightarrow> u8 list \<Rightarrow> u8 \<Rightarrow> kernel \<Rightarrow> kernel option" where
  "rt_event_init e name flag k = do {
     k1 \<leftarrow> rt_object_init (OEvent e) Class_Event name k;
     let k2 = rt_ipc_object_init (LEvent e) k1;
     Some (upd_event e (\<lambda>_. \<lparr>ev_set = 0, ev_flag = flag\<rparr>) k2)
   }"

definition rt_event_detach :: "nat \<Rightarrow> kernel \<Rightarrow> kernel option" where
  "rt_event_detach e k = do {
     rt_assert (rt_object_is_systemobject (OEvent e) k);
     k1 \<leftarrow> rt_ipc_list_resume_all (LEvent e) k;
     Some (rt_object_detach (OEvent e) k1)
   }"

definition rt_event_create ::
    "nat option \<Rightarrow> u8 list \<Rightarrow> u8 \<Rightarrow> kernel \<Rightarrow> (nat option \<times> kernel) option" where
  "rt_event_create mem name flag k = do {
     rt_assert (interrupt_nest k = 0);
     (ob, k1) \<leftarrow> rt_object_allocate (map_option OEvent mem) Class_Event name k;
     case mem of None \<Rightarrow> Some (None, k1)
     | Some e \<Rightarrow>
         let k2 = rt_ipc_object_init (LEvent e) k1
         in Some (Some e, upd_event e (\<lambda>_. \<lparr>ev_set = 0, ev_flag = flag\<rparr>) k2)
   }"

definition rt_event_delete :: "nat \<Rightarrow> kernel \<Rightarrow> kernel option" where
  "rt_event_delete e k = do {
     rt_assert (\<not> rt_object_is_systemobject (OEvent e) k);
     rt_assert (interrupt_nest k = 0);
     k1 \<leftarrow> rt_ipc_list_resume_all (LEvent e) k;
     rt_object_delete (OEvent e) k1
   }"

text \<open>One round of the loop of \<^verbatim>\<open>rt_event_send\<close> for the waiting thread \<open>t\<close>: whether its condition
  holds, and the event set it is left with.\<close>

definition event_match :: "u8 \<Rightarrow> u32 \<Rightarrow> u32 \<Rightarrow> u32 option" where
  "event_match info want has =
     (if info AND RT_EVENT_FLAG_AND \<noteq> 0 then (if want AND has = want then Some want else None)
      else if info AND RT_EVENT_FLAG_OR \<noteq> 0 then
        (if want AND has \<noteq> 0 then Some (want AND has) else None)
      else None)"

text \<open>The loop moves to the next node before it resumes a thread, so it visits the threads the
  list had at the start.\<close>

fun event_send_loop :: "nat \<Rightarrow> nat list \<Rightarrow> bool \<Rightarrow> kernel \<Rightarrow> bool \<times> kernel" where
  "event_send_loop e [] need k = (need, k)"
| "event_send_loop e (t # ts) need k =
     (let th = threads k t in
      case event_match (th_event_info th) (th_event_set th) (ev_set (events k e)) of
        None \<Rightarrow> event_send_loop e ts need k
      | Some got \<Rightarrow>
          let k1 = upd_thread t (\<lambda>th. th\<lparr>th_event_set := got\<rparr>) k;
              k2 = (if th_event_info th AND RT_EVENT_FLAG_CLEAR \<noteq> 0
                    then upd_event e (\<lambda>ev. ev\<lparr>ev_set := ev_set ev AND NOT got\<rparr>) k1 else k1)
          in event_send_loop e ts True (snd (rt_thread_resume t k2)))"

definition rt_event_send :: "nat \<Rightarrow> u32 \<Rightarrow> kernel \<Rightarrow> (rt_err \<times> kernel) option" where
  "rt_event_send e bits k =
     (if bits = 0 then Some (- RT_ERROR, k)
      else do {
        let k1 = upd_event e (\<lambda>ev. ev\<lparr>ev_set := ev_set ev OR bits\<rparr>) k;
        let (need, k2) = event_send_loop e (lists k1 (LEvent e)) False k1;
        k3 \<leftarrow> (if need then rt_schedule k2 else Some k2);
        Some (RT_EOK, k3)
      })"

text \<open>The second component of the result is what \<^verbatim>\<open>*recved\<close> is set to.\<close>

definition rt_event_recv_resumed ::
    "nat \<Rightarrow> kernel \<Rightarrow> (outcome \<times> u32 option \<times> kernel) option" where
  "rt_event_recv_resumed t k =
     (if error_of k t \<noteq> RT_EOK then Some (Returned (error_of k t), None, k)
      else Some (Returned (error_of k t), Some (th_event_set (threads k t)), k))"

definition rt_event_recv ::
    "nat \<Rightarrow> u32 \<Rightarrow> u8 \<Rightarrow> int \<Rightarrow> kernel \<Rightarrow> (outcome \<times> u32 option \<times> kernel) option" where
  "rt_event_recv e bits option timeout k = do {
     rt_assert (in_thread_context k);
     if bits = 0 then Some (Returned (- RT_ERROR), None, k)
     else do {
       t \<leftarrow> rt_thread_self k;
       let k1 = set_error t RT_EOK k;
       let has = ev_set (events k1 e);
       rt_assert (option AND RT_EVENT_FLAG_AND \<noteq> 0 \<or> option AND RT_EVENT_FLAG_OR \<noteq> 0);
       if (if option AND RT_EVENT_FLAG_AND \<noteq> 0 then has AND bits = bits else has AND bits \<noteq> 0)
       then Some (Returned RT_EOK, Some (has AND bits),
              if option AND RT_EVENT_FLAG_CLEAR \<noteq> 0
              then upd_event e (\<lambda>ev. ev\<lparr>ev_set := has AND NOT bits\<rparr>) k1 else k1)
       else if timeout = 0
       then Some (Returned (- RT_ETIMEOUT), None, set_error t (- RT_ETIMEOUT) k1)
       else do {
         let k2 = upd_thread t (\<lambda>th. th\<lparr>th_event_set := bits, th_event_info := option\<rparr>) k1;
         k3 \<leftarrow> suspend_current (LEvent e) (ev_flag (events k2 e)) timeout t k2;
         if current_thread k3 = Some t then rt_event_recv_resumed t k3
         else Some (Blocked, None, k3)
       }
     }
   }"

text \<open>\<^verbatim>\<open>RT_IPC_CMD_RESET\<close> is command 1.\<close>

definition rt_event_control :: "nat \<Rightarrow> nat \<Rightarrow> kernel \<Rightarrow> (rt_err \<times> kernel) option" where
  "rt_event_control e cmd k =
     (if cmd = 1
      then do {
        k1 \<leftarrow> rt_ipc_list_resume_all (LEvent e) k;
        let k2 = upd_event e (\<lambda>ev. ev\<lparr>ev_set := 0\<rparr>) k1;
        k3 \<leftarrow> rt_schedule k2;
        Some (RT_EOK, k3)
      }
      else Some (- RT_ERROR, k))"

section \<open>Invariant\<close>

abbreviation waits_for :: "kernel \<Rightarrow> nat \<Rightarrow> u32" where
  "waits_for k t \<equiv> th_event_set (threads k t)"

abbreviation info_of :: "kernel \<Rightarrow> nat \<Rightarrow> u8" where
  "info_of k t \<equiv> th_event_info (threads k t)"

text \<open>No thread waits for an event whose condition holds.\<close>

definition event_ok :: "kernel \<Rightarrow> nat \<Rightarrow> bool" where
  "event_ok k e \<longleftrightarrow> flag_ok (ev_flag (events k e)) \<and>
     (\<forall>w \<in> set (lists k (LEvent e)). waits_for k w \<noteq> 0 \<and>
        event_match (info_of k w) (waits_for k w) (ev_set (events k e)) = None)"

abbreviation bits_in :: "u32 \<Rightarrow> u32 \<Rightarrow> bool" where
  "bits_in a b \<equiv> a AND b = a"

lemma bits_in_iff: "bits_in a b \<longleftrightarrow> (\<forall>n. bit a n \<longrightarrow> bit b n)"
proof
  assume e: "bits_in a b"
  then have "bit (a AND b) n = bit a n" for n by simp
  then show "\<forall>n. bit a n \<longrightarrow> bit b n" by (simp only: bit_and_iff) blast
qed (rule bit_eqI, auto simp: bit_and_iff)

lemma bits_in_trans: "bits_in a b \<Longrightarrow> bits_in b c \<Longrightarrow> bits_in a c"
  by (auto simp: bits_in_iff)

lemma bits_disjoint_iff: "a AND b = (0 :: u32) \<longleftrightarrow> (\<forall>n. \<not> (bit a n \<and> bit b n))"
proof
  assume e: "a AND b = 0"
  then have "bit (a AND b) n = bit (0 :: u32) n" for n by simp
  then show "\<forall>n. \<not> (bit a n \<and> bit b n)" by (simp only: bit_and_iff bit_0_eq) simp
qed (rule bit_eqI, auto simp: bit_and_iff)

lemma bits_disjoint_mono: "bits_in a b \<Longrightarrow> c AND b = (0 :: u32) \<Longrightarrow> c AND a = 0"
  by (auto simp: bits_in_iff bits_disjoint_iff)

lemma event_match_mono:
  "event_match info want b = None \<Longrightarrow> bits_in a b \<Longrightarrow> event_match info want a = None"
  unfolding event_match_def
  by (auto simp: bits_in_iff bits_disjoint_iff split: if_splits)

lemma event_match_Some:
  "event_match info want has = Some got \<Longrightarrow> want \<noteq> 0 \<Longrightarrow>
     got \<noteq> 0 \<and> bits_in got want \<and> bits_in got has \<and>
     (info AND RT_EVENT_FLAG_AND \<noteq> 0 \<longrightarrow> got = want)"
  unfolding event_match_def by (auto simp: bits_in_iff bit_simps split: if_splits)

lemma upd_event_simps [simp]:
  "events (upd_event e f k) = (events k)(e := f (events k e))"
  "threads (upd_event e f k) = threads k" "lists (upd_event e f k) = lists k"
  "current_thread (upd_event e f k) = current_thread k"
  "scheduler_lock_nest (upd_event e f k) = scheduler_lock_nest k"
  "stat_of (upd_event e f k) u = stat_of k u"
  by (simp_all add: upd_event_def stat_of_def)

lemma upd_event_kinv: "kinv d k \<Longrightarrow> kinv d (upd_event e f k)"
  by (erule kinv_cong) (simp_all add: upd_event_def)

text \<open>Storing what a thread waits for.\<close>

lemma set_wait_kinv:
  assumes inv: "kinv d k"
  shows "kinv d (upd_thread t (\<lambda>th. th\<lparr>th_event_set := bs, th_event_info := opt\<rparr>) k)"
    (is "kinv d ?k")
proof -
  have "sched_inv {} ?k" by (rule upd_same_stat) (use inv in \<open>simp_all add: kinv_def\<close>)
  moreover have "timer_inv d ?k"
    by (rule timer_inv_cong [of d k]) (use inv in \<open>auto simp: kinv_def stat_of_def\<close>)
  ultimately show ?thesis by (simp add: kinv_def)
qed

lemma set_wait_may_block:
  assumes m: "may_block k t"
  shows "may_block (upd_thread t (\<lambda>th. th\<lparr>th_event_set := bs, th_event_info := opt\<rparr>) k) t"
    (is "may_block ?k t")
proof -
  have "stat_of ?k u = stat_of k u" for u by (simp add: stat_of_def)
  then show ?thesis using m set_wait_kinv [of 0 k] by (auto simp: may_block_def)
qed

section \<open>Sending\<close>

text \<open>What a thread that \<^verbatim>\<open>rt_event_send\<close> wakes has received.\<close>

definition delivered :: "nat \<Rightarrow> kernel \<Rightarrow> kernel \<Rightarrow> nat \<Rightarrow> bool" where
  "delivered e k k' w \<longleftrightarrow> th_ready k' w \<and> waits_for k' w \<noteq> 0 \<and>
     bits_in (waits_for k' w) (waits_for k w) \<and> bits_in (waits_for k' w) (ev_set (events k e)) \<and>
     (info_of k w AND RT_EVENT_FLAG_AND \<noteq> 0 \<longrightarrow> waits_for k' w = waits_for k w) \<and>
     (info_of k w AND RT_EVENT_FLAG_CLEAR \<noteq> 0 \<longrightarrow> waits_for k' w AND ev_set (events k' e) = 0)"

text \<open>One thread of the loop whose condition holds.\<close>

lemma event_wake_one:
  assumes inv: "kinv d k" and l: "lists k (LEvent e) = pre @ t # ts"
    and want: "waits_for k t \<noteq> 0"
    and match: "event_match (info_of k t) (waits_for k t) (ev_set (events k e)) = Some got"
  defines "k1 \<equiv> upd_thread t (\<lambda>th. th\<lparr>th_event_set := got\<rparr>) k"
  defines "k2 \<equiv> (if info_of k t AND RT_EVENT_FLAG_CLEAR \<noteq> 0
                  then upd_event e (\<lambda>ev. ev\<lparr>ev_set := ev_set ev AND NOT got\<rparr>) k1 else k1)"
  defines "k3 \<equiv> snd (rt_thread_resume t k2)"
  shows "event_send_loop e (t # ts) need k = event_send_loop e ts True k3" "kinv d k3"
    "th_ready k3 t" "waits_for k3 t = got" "\<And>u. u \<noteq> t \<Longrightarrow> threads k3 u = threads k u"
    "lists k3 (LEvent e) = pre @ ts" "\<And>h. wait_head h \<Longrightarrow> h \<noteq> LEvent e \<Longrightarrow> lists k3 h = lists k h"
    "current_thread k3 = current_thread k" "scheduler_lock_nest k3 = scheduler_lock_nest k"
    "bits_in (ev_set (events k3 e)) (ev_set (events k e))"
    "ev_flag (events k3 e) = ev_flag (events k e)"
    "info_of k t AND RT_EVENT_FLAG_CLEAR \<noteq> 0 \<Longrightarrow> got AND ev_set (events k3 e) = 0"
    "\<And>n. bit (ev_set (events k e)) n \<Longrightarrow> bit (ev_set (events k3 e)) n \<or>
       info_of k t AND RT_EVENT_FLAG_CLEAR \<noteq> 0 \<and> bit got n"
proof -
  have si: "sched_inv {} k1"
    unfolding k1_def by (rule upd_same_stat) (use inv in \<open>simp_all add: kinv_def\<close>)
  have "timer_inv d k1"
    by (rule timer_inv_cong [of d k]) (use inv in \<open>auto simp: kinv_def k1_def stat_of_def\<close>)
  then have "kinv d k1" using si by (simp add: kinv_def)
  then have inv2: "kinv d k2" using upd_event_kinv by (simp add: k2_def)
  have th2: "threads k2 = (threads k)(t := (threads k t)\<lparr>th_event_set := got\<rparr>)"
    "lists k2 = lists k" "current_thread k2 = current_thread k"
    "scheduler_lock_nest k2 = scheduler_lock_nest k"
    "ev_flag (events k2 e) = ev_flag (events k e)"
    by (simp_all add: k2_def k1_def)
  have ev2: "ev_set (events k2 e) = (if info_of k t AND RT_EVENT_FLAG_CLEAR \<noteq> 0
      then ev_set (events k e) AND NOT got else ev_set (events k e))"
    by (simp add: k2_def k1_def)
  have "th_suspended k t" by (rule waiting_suspended [OF inv, of "LEvent e"]) (use l in simp_all)
  then have sus: "th_suspended k2 t" by (simp add: stat_of_def th2)
  note r = resume_spec [OF inv2 sus, folded k3_def]
  note f = core_only_frame [OF r(7)]
  have d: "distinct (pre @ t # ts)"
    using inv l unfolding kinv_def sched_inv_def links_ok_def by metis
  have out: "t \<notin> set (lists k h)" if "h \<noteq> LEvent e" for h
    using waiting_one_list [OF inv, of t "LEvent e" h] that l by auto
  show "event_send_loop e (t # ts) need k = event_send_loop e ts True k3"
    using match by (simp add: k3_def k2_def k1_def Let_def)
  show "kinv d k3" "th_ready k3 t" by (rule r(2,3))+
  show "waits_for k3 t = got" "\<And>u. u \<noteq> t \<Longrightarrow> threads k3 u = threads k u"
    by (simp_all add: r(5) th2)
  show "lists k3 (LEvent e) = pre @ ts" using d by (simp add: r(4) th2 l)
  show "lists k3 h = lists k h" if "wait_head h" "h \<noteq> LEvent e" for h
    using out [OF that(2)] wait_head_not_ready [OF that(1)] by (simp add: r(4) th2)
  show "current_thread k3 = current_thread k" "scheduler_lock_nest k3 = scheduler_lock_nest k"
    by (simp_all add: r(6) f th2)
  show "ev_flag (events k3 e) = ev_flag (events k e)" by (simp add: f th2)
  show "bits_in (ev_set (events k3 e)) (ev_set (events k e))"
    by (simp only: f ev2) (simp add: bits_in_iff bit_and_iff)
  show "bit (ev_set (events k3 e)) n \<or> info_of k t AND RT_EVENT_FLAG_CLEAR \<noteq> 0 \<and> bit got n"
    if "bit (ev_set (events k e)) n" for n
    using that bit_imp_le_length [OF that]
    by (simp only: f ev2) (auto simp: bit_and_iff bit_not_iff)
  show "got AND ev_set (events k3 e) = 0" if "info_of k t AND RT_EVENT_FLAG_CLEAR \<noteq> 0"
    using that by (simp only: f ev2) (simp add: bits_disjoint_iff bit_and_iff bit_not_iff)
qed

lemma event_send_loop_spec:
  assumes "kinv d k" "lists k (LEvent e) = pre @ ts"
    "\<forall>w \<in> set pre. event_match (info_of k w) (waits_for k w) (ev_set (events k e)) = None"
    "\<forall>w \<in> set ts. waits_for k w \<noteq> 0"
  shows "\<exists>need' k' ts'. event_send_loop e ts need k = (need', k') \<and> kinv d k' \<and>
    lists k' (LEvent e) = pre @ ts' \<and> set ts' \<subseteq> set ts \<and>
    current_thread k' = current_thread k \<and> scheduler_lock_nest k' = scheduler_lock_nest k \<and>
    ev_flag (events k' e) = ev_flag (events k e) \<and>
    bits_in (ev_set (events k' e)) (ev_set (events k e)) \<and>
    (\<forall>w \<in> set (pre @ ts'). event_match (info_of k' w) (waits_for k' w) (ev_set (events k' e)) = None) \<and>
    (\<forall>w. w \<notin> set ts \<or> w \<in> set ts' \<longrightarrow> threads k' w = threads k w) \<and>
    (\<forall>w \<in> set ts. w \<notin> set ts' \<longrightarrow> delivered e k k' w) \<and>
    (\<forall>u \<in> set ts. \<forall>v \<in> set ts. u \<notin> set ts' \<longrightarrow> v \<notin> set ts' \<longrightarrow> u \<noteq> v \<longrightarrow>
       info_of k u AND RT_EVENT_FLAG_CLEAR \<noteq> 0 \<longrightarrow> info_of k v AND RT_EVENT_FLAG_CLEAR \<noteq> 0 \<longrightarrow>
       waits_for k' u AND waits_for k' v = 0) \<and>
    (need' \<longleftrightarrow> need \<or> (\<exists>w \<in> set ts. w \<notin> set ts')) \<and>
    (\<forall>n. bit (ev_set (events k e)) n \<longrightarrow> bit (ev_set (events k' e)) n \<or>
       (\<exists>w \<in> set ts. w \<notin> set ts' \<and> info_of k w AND RT_EVENT_FLAG_CLEAR \<noteq> 0 \<and>
          bit (waits_for k' w) n))"
  using assms
proof (induction ts arbitrary: pre need k)
  case Nil
  then show ?case by simp
next
  case (Cons t ts)
  have d: "distinct (pre @ t # ts)"
    using Cons.prems(1,2) unfolding kinv_def sched_inv_def links_ok_def by metis
  show ?case
  proof (cases "event_match (info_of k t) (waits_for k t) (ev_set (events k e))")
    case None
    have pre': "lists k (LEvent e) = (pre @ [t]) @ ts" using Cons.prems(2) by simp
    have "\<forall>w \<in> set (pre @ [t]). event_match (info_of k w) (waits_for k w) (ev_set (events k e)) = None"
      using Cons.prems(3) None by simp
    from Cons.IH [OF Cons.prems(1) pre' this, of need] Cons.prems(4)
    obtain need' k' ts' where ih: "event_send_loop e ts need k = (need', k')" "kinv d k'"
      "lists k' (LEvent e) = (pre @ [t]) @ ts'" "set ts' \<subseteq> set ts"
      "current_thread k' = current_thread k" "scheduler_lock_nest k' = scheduler_lock_nest k"
      "ev_flag (events k' e) = ev_flag (events k e)"
      "bits_in (ev_set (events k' e)) (ev_set (events k e))"
      "\<forall>w \<in> set ((pre @ [t]) @ ts'). event_match (info_of k' w) (waits_for k' w) (ev_set (events k' e)) = None"
      "\<forall>w. w \<notin> set ts \<or> w \<in> set ts' \<longrightarrow> threads k' w = threads k w"
      "\<forall>w \<in> set ts. w \<notin> set ts' \<longrightarrow> delivered e k k' w"
      "\<forall>u \<in> set ts. \<forall>v \<in> set ts. u \<notin> set ts' \<longrightarrow> v \<notin> set ts' \<longrightarrow> u \<noteq> v \<longrightarrow>
         info_of k u AND RT_EVENT_FLAG_CLEAR \<noteq> 0 \<longrightarrow> info_of k v AND RT_EVENT_FLAG_CLEAR \<noteq> 0 \<longrightarrow>
         waits_for k' u AND waits_for k' v = 0"
      "need' \<longleftrightarrow> need \<or> (\<exists>w \<in> set ts. w \<notin> set ts')"
      "\<forall>n. bit (ev_set (events k e)) n \<longrightarrow> bit (ev_set (events k' e)) n \<or>
       (\<exists>w \<in> set ts. w \<notin> set ts' \<and> info_of k w AND RT_EVENT_FLAG_CLEAR \<noteq> 0 \<and>
          bit (waits_for k' w) n)" by auto
    have "event_send_loop e (t # ts) need k = (need', k')" using None ih(1) by simp
    then show ?thesis
      using ih(2-14) d by (intro exI [of _ need'] exI [of _ k'] exI [of _ "t # ts'"]) auto
  next
    case (Some got)
    have want: "waits_for k t \<noteq> 0" using Cons.prems(4) by simp
    note w = event_wake_one [OF Cons.prems(1,2) want Some]
    let ?k3 = "snd (rt_thread_resume t (if info_of k t AND RT_EVENT_FLAG_CLEAR \<noteq> 0
      then upd_event e (\<lambda>ev. ev\<lparr>ev_set := ev_set ev AND NOT got\<rparr>)
        (upd_thread t (\<lambda>th. th\<lparr>th_event_set := got\<rparr>) k)
      else upd_thread t (\<lambda>th. th\<lparr>th_event_set := got\<rparr>) k))"
    define k3 where "k3 = ?k3"
    note w = w [folded k3_def]
    note g = event_match_Some [OF Some want]
    have th3: "threads k3 u = threads k u" if "u \<in> set pre \<or> u \<in> set ts" for u
      using that d by (intro w(5)) auto
    have "\<forall>u \<in> set pre. event_match (info_of k3 u) (waits_for k3 u) (ev_set (events k3 e)) = None"
      using Cons.prems(3) th3 event_match_mono [OF _ w(10)] by simp
    moreover have "\<forall>u \<in> set ts. waits_for k3 u \<noteq> 0" using Cons.prems(4) th3 by simp
    ultimately obtain need' k' ts' where ih: "event_send_loop e ts True k3 = (need', k')" "kinv d k'"
      "lists k' (LEvent e) = pre @ ts'" "set ts' \<subseteq> set ts"
      "current_thread k' = current_thread k3" "scheduler_lock_nest k' = scheduler_lock_nest k3"
      "ev_flag (events k' e) = ev_flag (events k3 e)"
      "bits_in (ev_set (events k' e)) (ev_set (events k3 e))"
      "\<forall>w \<in> set (pre @ ts'). event_match (info_of k' w) (waits_for k' w) (ev_set (events k' e)) = None"
      "\<forall>w. w \<notin> set ts \<or> w \<in> set ts' \<longrightarrow> threads k' w = threads k3 w"
      "\<forall>w \<in> set ts. w \<notin> set ts' \<longrightarrow> delivered e k3 k' w"
      "\<forall>u \<in> set ts. \<forall>v \<in> set ts. u \<notin> set ts' \<longrightarrow> v \<notin> set ts' \<longrightarrow> u \<noteq> v \<longrightarrow>
         info_of k3 u AND RT_EVENT_FLAG_CLEAR \<noteq> 0 \<longrightarrow> info_of k3 v AND RT_EVENT_FLAG_CLEAR \<noteq> 0 \<longrightarrow>
         waits_for k' u AND waits_for k' v = 0"
      "need' \<longleftrightarrow> True \<or> (\<exists>w \<in> set ts. w \<notin> set ts')"
      "\<forall>n. bit (ev_set (events k3 e)) n \<longrightarrow> bit (ev_set (events k' e)) n \<or>
       (\<exists>w \<in> set ts. w \<notin> set ts' \<and> info_of k3 w AND RT_EVENT_FLAG_CLEAR \<noteq> 0 \<and>
          bit (waits_for k' w) n)"
      using Cons.IH [OF w(2,6), of True] by auto
    have tn: "t \<notin> set ts" "t \<notin> set ts'" "t \<notin> set pre" using d ih(4) by auto
    have tk: "threads k' t = threads k3 t" using ih(10) tn by blast
    have "delivered e k k' t"
      unfolding delivered_def using w(3,4) g tk bits_disjoint_mono [OF ih(8) w(12)]
      by (simp add: stat_of_def)
    moreover have "delivered e k k' u" if "u \<in> set ts" "u \<notin> set ts'" for u
      using ih(11) that th3 bits_in_trans [OF _ w(10)] by (simp add: delivered_def)
    moreover have "got AND waits_for k' u = 0"
      if "u \<in> set ts" "u \<notin> set ts'" "info_of k t AND RT_EVENT_FLAG_CLEAR \<noteq> 0" for u
      using bits_disjoint_mono [OF _ w(12) [OF that(3)], of "waits_for k' u"] ih(11) that
      by (simp add: delivered_def)
    moreover have "event_send_loop e (t # ts) need k = (need', k')" using w(1) ih(1) by simp
    moreover have "bits_in (ev_set (events k' e)) (ev_set (events k e))"
      by (rule bits_in_trans [OF ih(8) w(10)])
    moreover have "bit (ev_set (events k' e)) n \<or> (\<exists>w \<in> set (t # ts). w \<notin> set ts' \<and>
        info_of k w AND RT_EVENT_FLAG_CLEAR \<noteq> 0 \<and> bit (waits_for k' w) n)"
      if "bit (ev_set (events k e)) n" for n
      using w(13) [OF that] ih(14) tn tk w(4) th3 by (metis list.set_intros)
    ultimately show ?thesis
      using ih(2-13) w(4,5,8,9,11) tk tn th3
      by (intro exI [of _ need'] exI [of _ k'] exI [of _ ts']) (auto simp: and.commute)
  qed
qed

lemma event_send_spec:
  assumes inv: "kinv 0 k" and ok: "event_ok k e" and cur: "current_thread k \<noteq> None"
    and bits: "bits \<noteq> 0"
  defines "k1 \<equiv> upd_event e (\<lambda>ev. ev\<lparr>ev_set := ev_set ev OR bits\<rparr>) k"
  obtains k' where "rt_event_send e bits k = Some (RT_EOK, k')" "kinv 0 k'" "event_ok k' e"
    "bits_in (ev_set (events k' e)) (ev_set (events k e) OR bits)"
    "set (lists k' (LEvent e)) \<subseteq> set (lists k (LEvent e))"
    "\<forall>w \<in> set (lists k' (LEvent e)). threads k' w = threads k w"
    "\<forall>w \<in> set (lists k (LEvent e)). w \<notin> set (lists k' (LEvent e)) \<longrightarrow> delivered e k1 k' w"
    "\<forall>u \<in> set (lists k (LEvent e)). \<forall>v \<in> set (lists k (LEvent e)).
       u \<notin> set (lists k' (LEvent e)) \<longrightarrow> v \<notin> set (lists k' (LEvent e)) \<longrightarrow> u \<noteq> v \<longrightarrow>
       info_of k u AND RT_EVENT_FLAG_CLEAR \<noteq> 0 \<longrightarrow> info_of k v AND RT_EVENT_FLAG_CLEAR \<noteq> 0 \<longrightarrow>
       waits_for k' u AND waits_for k' v = 0"
    "scheduler_lock_nest k = 0 \<longrightarrow> set (lists k' (LEvent e)) \<noteq> set (lists k (LEvent e)) \<longrightarrow>
       current_top k'"
    "\<forall>n. bit (ev_set (events k e) OR bits) n \<longrightarrow> bit (ev_set (events k' e)) n \<or>
       (\<exists>w \<in> set (lists k (LEvent e)). w \<notin> set (lists k' (LEvent e)) \<and>
          info_of k w AND RT_EVENT_FLAG_CLEAR \<noteq> 0 \<and> bit (waits_for k' w) n)"
proof -
  let ?ts = "lists k (LEvent e)"
  have inv1: "kinv 0 k1" unfolding k1_def by (rule upd_event_kinv [OF inv])
  have l1: "lists k1 (LEvent e) = [] @ ?ts" by (simp add: k1_def)
  have n1: "\<forall>w \<in> set []. event_match (info_of k1 w) (waits_for k1 w) (ev_set (events k1 e)) = None"
    by simp
  have w1: "\<forall>w \<in> set ?ts. waits_for k1 w \<noteq> 0" using ok by (simp add: event_ok_def k1_def)
  obtain need k2 ts' where k2: "event_send_loop e ?ts False k1 = (need, k2)" "kinv 0 k2"
    "lists k2 (LEvent e) = ts'" "set ts' \<subseteq> set ?ts"
    "current_thread k2 = current_thread k1" "scheduler_lock_nest k2 = scheduler_lock_nest k1"
    "ev_flag (events k2 e) = ev_flag (events k1 e)"
    "bits_in (ev_set (events k2 e)) (ev_set (events k1 e))"
    "\<forall>w \<in> set ts'. event_match (info_of k2 w) (waits_for k2 w) (ev_set (events k2 e)) = None"
    "\<forall>w. w \<notin> set ?ts \<or> w \<in> set ts' \<longrightarrow> threads k2 w = threads k1 w"
    "\<forall>w \<in> set ?ts. w \<notin> set ts' \<longrightarrow> delivered e k1 k2 w"
    "\<forall>u \<in> set ?ts. \<forall>v \<in> set ?ts. u \<notin> set ts' \<longrightarrow> v \<notin> set ts' \<longrightarrow> u \<noteq> v \<longrightarrow>
       info_of k1 u AND RT_EVENT_FLAG_CLEAR \<noteq> 0 \<longrightarrow> info_of k1 v AND RT_EVENT_FLAG_CLEAR \<noteq> 0 \<longrightarrow>
       waits_for k2 u AND waits_for k2 v = 0"
    "need \<longleftrightarrow> (\<exists>w \<in> set ?ts. w \<notin> set ts')"
    "\<forall>n. bit (ev_set (events k1 e)) n \<longrightarrow> bit (ev_set (events k2 e)) n \<or>
       (\<exists>w \<in> set ?ts. w \<notin> set ts' \<and> info_of k1 w AND RT_EVENT_FLAG_CLEAR \<noteq> 0 \<and>
          bit (waits_for k2 w) n)"
    using event_send_loop_spec [OF inv1 l1 n1 w1, of False] by auto
  have c2: "current_thread k2 \<noteq> None" using cur k2(5) by (simp add: k1_def)
  have "\<exists>k'. (if need then rt_schedule k2 else Some k2) = Some k' \<and> switch_only k2 k' \<and> kinv 0 k' \<and>
      (need \<longrightarrow> scheduler_lock_nest k = 0 \<longrightarrow> current_top k')"
  proof (cases need)
    case False
    then show ?thesis using k2(2) by (auto simp: switch_only_def)
  next
    case True
    then obtain w where "w \<in> set ?ts" "w \<notin> set ts'" using k2(13) by blast
    then have "th_ready k2 w" using k2(11) by (simp add: delivered_def)
    from schedule_kinv [OF k2(2) this c2] obtain k' where "rt_schedule k2 = Some k'"
      "switch_only k2 k'" "kinv 0 k'" "scheduler_lock_nest k2 = 0 \<longrightarrow> current_top k'" by metis
    then show ?thesis using True k2(6) by (intro exI [of _ k']) (simp add: k1_def)
  qed
  then obtain k' where k': "(if need then rt_schedule k2 else Some k2) = Some k'"
    "switch_only k2 k'" "kinv 0 k'" "need \<longrightarrow> scheduler_lock_nest k = 0 \<longrightarrow> current_top k'" by blast
  note f = switch_only_frame [OF k'(2)]
  have ev: "events k' = events k2"
    by (rule core_only_frame(8) [OF switch_only_core [OF k'(2)]])
  have fl: "ev_flag (events k' e) = ev_flag (events k e)" by (simp add: ev k2(7) k1_def)
  have th: "\<forall>w \<in> set ts'. threads k' w = threads k w" using k2(10) by (simp add: f k1_def)
  have l': "lists k' (LEvent e) = ts'" by (simp add: f k2(3))
  show ?thesis
  proof (rule that [of k'])
    show "rt_event_send e bits k = Some (RT_EOK, k')"
      using bits k2(1) k'(1) by (simp add: rt_event_send_def Let_def k1_def)
    show "event_ok k' e"
      using ok k2(4,9) th by (auto simp: event_ok_def f ev k2(3,7) k1_def)
    show "bits_in (ev_set (events k' e)) (ev_set (events k e) OR bits)"
      using k2(8) by (simp add: ev k1_def)
    show "\<forall>w \<in> set ?ts. w \<notin> set (lists k' (LEvent e)) \<longrightarrow> delivered e k1 k' w"
      using k2(11) by (simp add: delivered_def f ev stat_of_def k2(3))
    show "\<forall>n. bit (ev_set (events k e) OR bits) n \<longrightarrow> bit (ev_set (events k' e)) n \<or>
       (\<exists>w \<in> set ?ts. w \<notin> set (lists k' (LEvent e)) \<and>
          info_of k w AND RT_EVENT_FLAG_CLEAR \<noteq> 0 \<and> bit (waits_for k' w) n)"
      using k2(14) by (simp add: f ev k1_def k2(3))
    show "scheduler_lock_nest k = 0 \<longrightarrow> set (lists k' (LEvent e)) \<noteq> set ?ts \<longrightarrow> current_top k'"
      using k2(4,13) k'(4) by (auto simp: l')
  qed (use k2(4,12) k'(3) th in \<open>simp_all add: f k1_def k2(3)\<close>)
qed

text \<open>What exactly each woken thread gets: of the bits it asked for those that are set and that no thread
  before it in the list has taken away.\<close>

definition taken_before :: "nat list \<Rightarrow> nat list \<Rightarrow> kernel \<Rightarrow> kernel \<Rightarrow> nat \<Rightarrow> nat \<Rightarrow> bool" where
  "taken_before ts ts' k k' w n \<longleftrightarrow> (\<exists>u \<in> set (takeWhile (\<lambda>x. x \<noteq> w) ts). u \<notin> set ts' \<and>
     info_of k u AND RT_EVENT_FLAG_CLEAR \<noteq> 0 \<and> bit (waits_for k' u) n)"

lemma event_match_exact: "event_match info want has = Some got \<Longrightarrow> got = want AND has"
  by (auto simp: event_match_def split: if_splits)

lemma event_send_loop_exact:
  assumes "kinv d k" "lists k (LEvent e) = pre @ ts" "\<forall>w \<in> set ts. waits_for k w \<noteq> 0"
    "event_send_loop e ts need k = (need', k')"
  shows "\<exists>ts'. lists k' (LEvent e) = pre @ ts' \<and> set ts' \<subseteq> set ts \<and>
    (\<forall>w. w \<notin> set ts \<or> w \<in> set ts' \<longrightarrow> threads k' w = threads k w) \<and>
    (\<forall>w \<in> set ts. w \<notin> set ts' \<longrightarrow> (\<forall>n. bit (waits_for k' w) n \<longleftrightarrow>
       bit (waits_for k w) n \<and> bit (ev_set (events k e)) n \<and> \<not> taken_before ts ts' k k' w n))"
  using assms
proof (induction ts arbitrary: pre need k)
  case Nil
  then show ?case by simp
next
  case (Cons t ts)
  have d: "distinct (pre @ t # ts)"
    using Cons.prems(1,2) unfolding kinv_def sched_inv_def links_ok_def by metis
  show ?case
  proof (cases "event_match (info_of k t) (waits_for k t) (ev_set (events k e))")
    case None
    have pre': "lists k (LEvent e) = (pre @ [t]) @ ts" using Cons.prems(2) by simp
    have run: "event_send_loop e ts need k = (need', k')" using Cons.prems(4) None by simp
    obtain ts' where ih: "lists k' (LEvent e) = (pre @ [t]) @ ts'" "set ts' \<subseteq> set ts"
      "\<forall>w. w \<notin> set ts \<or> w \<in> set ts' \<longrightarrow> threads k' w = threads k w"
      "\<forall>w \<in> set ts. w \<notin> set ts' \<longrightarrow> (\<forall>n. bit (waits_for k' w) n \<longleftrightarrow>
         bit (waits_for k w) n \<and> bit (ev_set (events k e)) n \<and> \<not> taken_before ts ts' k k' w n)"
      using Cons.IH [OF Cons.prems(1) pre' _ run] Cons.prems(3) by auto
    have "taken_before (t # ts) (t # ts') k k' w n \<longleftrightarrow> taken_before ts ts' k k' w n" if "w \<in> set ts" for w n
    proof -
      have "w \<noteq> t" "t \<notin> set ts" using that d by auto
      then show ?thesis unfolding taken_before_def by (auto dest: set_takeWhileD)
    qed
    moreover have "t \<notin> set ts" using d by simp
    ultimately show ?thesis using ih by (intro exI [of _ "t # ts'"]) auto
  next
    case (Some got)
    have want: "waits_for k t \<noteq> 0" using Cons.prems(3) by simp
    note w = event_wake_one [OF Cons.prems(1,2) want Some]
    define k3 where "k3 = snd (rt_thread_resume t (if info_of k t AND RT_EVENT_FLAG_CLEAR \<noteq> 0
      then upd_event e (\<lambda>ev. ev\<lparr>ev_set := ev_set ev AND NOT got\<rparr>)
        (upd_thread t (\<lambda>th. th\<lparr>th_event_set := got\<rparr>) k)
      else upd_thread t (\<lambda>th. th\<lparr>th_event_set := got\<rparr>) k))"
    note w = w [folded k3_def]
    have th3: "threads k3 u = threads k u" if "u \<in> set ts" for u using that d by (intro w(5)) auto
    have left: "bit (ev_set (events k3 e)) n \<longleftrightarrow>
        bit (ev_set (events k e)) n \<and> \<not> (info_of k t AND RT_EVENT_FLAG_CLEAR \<noteq> 0 \<and> bit got n)" for n
    proof -
      have "info_of k t AND RT_EVENT_FLAG_CLEAR \<noteq> 0 \<Longrightarrow> bit got n \<Longrightarrow> \<not> bit (ev_set (events k3 e)) n"
        using w(12) by (simp add: bits_disjoint_iff)
      then show ?thesis using w(10) w(13) [of n] by (auto simp: bits_in_iff)
    qed
    have run: "event_send_loop e ts True k3 = (need', k')" using Cons.prems(4) w(1) [of need] by simp
    obtain ts' where ih: "lists k' (LEvent e) = pre @ ts'" "set ts' \<subseteq> set ts"
      "\<forall>w. w \<notin> set ts \<or> w \<in> set ts' \<longrightarrow> threads k' w = threads k3 w"
      "\<forall>w \<in> set ts. w \<notin> set ts' \<longrightarrow> (\<forall>n. bit (waits_for k' w) n \<longleftrightarrow>
         bit (waits_for k3 w) n \<and> bit (ev_set (events k3 e)) n \<and> \<not> taken_before ts ts' k3 k' w n)"
      using Cons.IH [OF w(2,6) _ run] Cons.prems(3) th3 by auto
    have tn: "t \<notin> set ts" "t \<notin> set ts'" using d ih(2) by auto
    have tk: "waits_for k' t = got" using ih(3) tn w(4) by simp
    have later: "taken_before (t # ts) ts' k k' u n \<longleftrightarrow>
        (info_of k t AND RT_EVENT_FLAG_CLEAR \<noteq> 0 \<and> bit got n) \<or> taken_before ts ts' k3 k' u n" if "u \<in> set ts" for u n
    proof -
      have "u \<noteq> t" using that tn by auto
      moreover have "info_of k3 x = info_of k x" if "x \<in> set (takeWhile (\<lambda>x. x \<noteq> u) ts)" for x
        using th3 [of x] set_takeWhileD [OF that] by simp
      ultimately show ?thesis using tn tk by (simp add: taken_before_def cong: bex_cong)
    qed
    have "bit (waits_for k' u) n \<longleftrightarrow> bit (waits_for k u) n \<and> bit (ev_set (events k e)) n \<and>
        \<not> taken_before (t # ts) ts' k k' u n" if "u \<in> set (t # ts)" "u \<notin> set ts'" for u n
    proof (cases "u = t")
      case True
      then show ?thesis using event_match_exact [OF Some] tk by (simp add: taken_before_def bit_and_iff)
    next
      case False
      then have "u \<in> set ts" using that by simp
      then show ?thesis using ih(4) that(2) th3 later left by auto
    qed
    moreover have "threads k' u = threads k u" if "u \<notin> set (t # ts) \<or> u \<in> set ts'" for u
    proof -
      have "u \<noteq> t" using that tn by auto
      then show ?thesis using that ih(2,3) w(5) by auto
    qed
    ultimately show ?thesis using ih(1,2) by (intro exI [of _ ts']) auto
  qed
qed

lemma schedule_same: "rt_schedule k = Some k' \<Longrightarrow> threads k' = threads k \<and> lists k' = lists k \<and> events k' = events k"
  by (auto simp: rt_schedule_def Option.bind_eq_Some_conv Let_def split: if_splits)

lemma event_send_exact:
  assumes inv: "kinv 0 k" and ok: "event_ok k e" and send: "rt_event_send e bits k = Some (RT_EOK, k')"
    and w: "w \<in> set (lists k (LEvent e))" "w \<notin> set (lists k' (LEvent e))"
  shows "bit (waits_for k' w) n \<longleftrightarrow> bit (waits_for k w) n \<and> bit (ev_set (events k e) OR bits) n \<and>
    \<not> taken_before (lists k (LEvent e)) (lists k' (LEvent e)) k k' w n"
proof -
  define k1 where "k1 = upd_event e (\<lambda>ev. ev\<lparr>ev_set := ev_set ev OR bits\<rparr>) k"
  have k1: "kinv 0 k1" "lists k1 (LEvent e) = [] @ lists k (LEvent e)" "threads k1 = threads k"
    "ev_set (events k1 e) = ev_set (events k e) OR bits"
    using upd_event_kinv [OF inv] by (simp_all add: k1_def)
  obtain need k2 where k2: "event_send_loop e (lists k (LEvent e)) False k1 = (need, k2)" by fastforce
  have "bits \<noteq> 0" using send by (auto simp: rt_event_send_def rt_err_simps)
  then have "threads k' = threads k2" "lists k' = lists k2"
    using send k2 schedule_same [of k2 k']
    by (auto simp: rt_event_send_def Let_def k1_def [symmetric] k1(2) Option.bind_eq_Some_conv split: if_splits)
  moreover have "\<forall>u \<in> set (lists k (LEvent e)). waits_for k1 u \<noteq> 0" using ok k1(3) by (auto simp: event_ok_def)
  ultimately show ?thesis
    using event_send_loop_exact [OF k1(1,2) _ k2] w by (auto simp: k1(3,4) taken_before_def)
qed

text \<open>C17: \<^verbatim>\<open>rt_event_send\<close> adds the bits and wakes waiting threads. Afterwards no thread is left
  waiting whose condition holds; those that still wait are unchanged, and a bit is only
  missing from the set if a woken thread took it. Every woken thread is
  ready and its event set holds exactly the bits it asked for that were set and that no thread woken before
  it has cleared; that is at least one, all of them under \<^verbatim>\<open>RT_EVENT_FLAG_AND\<close>, and none of them is still
  set under \<^verbatim>\<open>RT_EVENT_FLAG_CLEAR\<close>. If any thread was
  woken, the highest-priority ready thread runs.\<close>

theorem event_send_correct:
  assumes inv: "kinv 0 k" and ok: "event_ok k e" and cur: "current_thread k = Some c"
    and unl: "scheduler_lock_nest k = 0" and bits: "bits \<noteq> 0"
  shows "\<exists>k'. rt_event_send e bits k = Some (RT_EOK, k') \<and> kinv 0 k' \<and> event_ok k' e \<and>
    (\<forall>w \<in> set (lists k' (LEvent e)). w \<in> set (lists k (LEvent e)) \<and> threads k' w = threads k w) \<and>
    (\<forall>n. bit (ev_set (events k e) OR bits) n \<longrightarrow> bit (ev_set (events k' e)) n \<or>
       (\<exists>w \<in> set (lists k (LEvent e)). w \<notin> set (lists k' (LEvent e)) \<and>
          info_of k w AND RT_EVENT_FLAG_CLEAR \<noteq> 0 \<and> bit (waits_for k' w) n)) \<and>
    (\<forall>w \<in> set (lists k (LEvent e)). w \<notin> set (lists k' (LEvent e)) \<longrightarrow>
       current_top k' \<and> th_ready k' w \<and> waits_for k' w \<noteq> 0 \<and>
       (\<forall>n. bit (waits_for k' w) n \<longleftrightarrow> bit (waits_for k w) n \<and> bit (ev_set (events k e) OR bits) n \<and>
          \<not> taken_before (lists k (LEvent e)) (lists k' (LEvent e)) k k' w n) \<and>
       waits_for k' w AND waits_for k w = waits_for k' w \<and>
       waits_for k' w AND (ev_set (events k e) OR bits) = waits_for k' w \<and>
       (info_of k w AND RT_EVENT_FLAG_AND \<noteq> 0 \<longrightarrow> waits_for k' w = waits_for k w) \<and>
       (info_of k w AND RT_EVENT_FLAG_CLEAR \<noteq> 0 \<longrightarrow> waits_for k' w AND ev_set (events k' e) = 0))"
proof -
  have cur': "current_thread k \<noteq> None" using cur by simp
  let ?k1 = "upd_event e (\<lambda>ev. ev\<lparr>ev_set := ev_set ev OR bits\<rparr>) k"
  obtain k' where k': "rt_event_send e bits k = Some (RT_EOK, k')" "kinv 0 k'" "event_ok k' e"
    "bits_in (ev_set (events k' e)) (ev_set (events k e) OR bits)"
    "set (lists k' (LEvent e)) \<subseteq> set (lists k (LEvent e))"
    "\<forall>w \<in> set (lists k' (LEvent e)). threads k' w = threads k w"
    "\<forall>w \<in> set (lists k (LEvent e)). w \<notin> set (lists k' (LEvent e)) \<longrightarrow> delivered e ?k1 k' w"
    "\<forall>u \<in> set (lists k (LEvent e)). \<forall>v \<in> set (lists k (LEvent e)).
       u \<notin> set (lists k' (LEvent e)) \<longrightarrow> v \<notin> set (lists k' (LEvent e)) \<longrightarrow> u \<noteq> v \<longrightarrow>
       info_of k u AND RT_EVENT_FLAG_CLEAR \<noteq> 0 \<longrightarrow> info_of k v AND RT_EVENT_FLAG_CLEAR \<noteq> 0 \<longrightarrow>
       waits_for k' u AND waits_for k' v = 0"
    "scheduler_lock_nest k = 0 \<longrightarrow> set (lists k' (LEvent e)) \<noteq> set (lists k (LEvent e)) \<longrightarrow>
       current_top k'"
    "\<forall>n. bit (ev_set (events k e) OR bits) n \<longrightarrow> bit (ev_set (events k' e)) n \<or>
       (\<exists>w \<in> set (lists k (LEvent e)). w \<notin> set (lists k' (LEvent e)) \<and>
          info_of k w AND RT_EVENT_FLAG_CLEAR \<noteq> 0 \<and> bit (waits_for k' w) n)"
    by (rule event_send_spec [OF inv ok cur' bits])
  have top: "current_top k'" if "w \<in> set (lists k (LEvent e))" "w \<notin> set (lists k' (LEvent e))" for w
    using k'(9) unl that by blast
  have del: "\<forall>w \<in> set (lists k (LEvent e)). w \<notin> set (lists k' (LEvent e)) \<longrightarrow>
       th_ready k' w \<and> waits_for k' w \<noteq> 0 \<and>
       waits_for k' w AND waits_for k w = waits_for k' w \<and>
       waits_for k' w AND (ev_set (events k e) OR bits) = waits_for k' w \<and>
       (info_of k w AND RT_EVENT_FLAG_AND \<noteq> 0 \<longrightarrow> waits_for k' w = waits_for k w) \<and>
       (info_of k w AND RT_EVENT_FLAG_CLEAR \<noteq> 0 \<longrightarrow> waits_for k' w AND ev_set (events k' e) = 0)"
    using k'(7) by (simp only: delivered_def upd_event_simps fun_upd_same event.simps) simp
  have stay: "\<forall>w \<in> set (lists k' (LEvent e)).
      w \<in> set (lists k (LEvent e)) \<and> threads k' w = threads k w" using k'(5,6) by blast
  show ?thesis
  proof (intro exI [of _ k'] conjI k'(1-3) stay k'(10) ballI impI)
    fix w assume w: "w \<in> set (lists k (LEvent e))" "w \<notin> set (lists k' (LEvent e))"
    show "current_top k'" by (rule top [OF w])
    show "\<forall>n. bit (waits_for k' w) n \<longleftrightarrow> bit (waits_for k w) n \<and> bit (ev_set (events k e) OR bits) n \<and>
        \<not> taken_before (lists k (LEvent e)) (lists k' (LEvent e)) k k' w n"
      by (intro allI event_send_exact [OF inv ok k'(1) w])
  qed (use del in simp_all)
qed

text \<open>Threads 2 and 1 wait for event 5, for bit 0 and for bit 0 or 1, and take what they receive.\<close>

definition demo_event :: kernel where
  "demo_event =
     upd_thread 2 (\<lambda>th. th\<lparr>th_event_set := 1, th_event_info := 5\<rparr>)
      (upd_thread 1 (\<lambda>th. th\<lparr>th_event_set := 3, th_event_info := 6\<rparr>)
        (rt_ipc_list_suspend (LEvent 5) 1 RT_IPC_FLAG_FIFO
          (demo_wait (LEvent 5)\<lparr>current_thread := Some 0\<rparr>)))"

lemma demo_event_facts:
  "kinv 0 demo_event" "lists demo_event (LEvent 5) = [2, 1]" "event_ok demo_event 5"
  "current_thread demo_event = Some 0" "scheduler_lock_nest demo_event = 0"
  "waits_for demo_event 2 = 1" "info_of demo_event 2 = 5"
  "waits_for demo_event 1 = 3" "info_of demo_event 1 = 6" "ev_set (events demo_event 5) = 0"
proof -
  let ?r = "demo_wait (LEvent 5)\<lparr>current_thread := Some 0\<rparr>"
  have r: "kinv 0 ?r" by (rule kinv_cong [OF demo_wait_inv [of "LEvent 5"]]) simp_all
  have rc: "th_ready ?r 1" by (simp add: stat_of_def) (simp add: demo_run_def demo_kernel_def demo_thread_def)
  have h: "wait_head (LEvent 5)" "flag_ok RT_IPC_FLAG_FIFO" by (simp_all add: flag_ok_def)
  note s = list_suspend_spec [OF r rc h]
  note f = core_only_frame [OF s(4)]
  show "kinv 0 demo_event" unfolding demo_event_def by (intro set_wait_kinv s(1))
  show l: "lists demo_event (LEvent 5) = [2, 1]"
    by (simp add: demo_event_def s(7) wait_insert_def del: One_nat_def)
  show w: "waits_for demo_event 2 = 1" "info_of demo_event 2 = 5"
    "waits_for demo_event 1 = 3" "info_of demo_event 1 = 6"
    by (simp_all add: demo_event_def)
  show "current_thread demo_event = Some 0" "scheduler_lock_nest demo_event = 0"
    by (simp_all add: demo_event_def s(3) f del: One_nat_def)
  have e: "events demo_event 5 = \<lparr>ev_set = 0, ev_flag = 0\<rparr>"
    by (simp add: demo_event_def f del: One_nat_def)
      (simp add: demo_wait_def demo_run_def demo_kernel_def)
  then show "ev_set (events demo_event 5) = 0" by simp
  show "event_ok demo_event 5"
    unfolding event_ok_def e l by (simp add: w flag_ok_def event_match_def del: One_nat_def)
qed

lemma event_send_correct_witness:
  "\<exists>k'. rt_event_send 5 3 demo_event = Some (RT_EOK, k') \<and> event_ok k' 5 \<and>
    (\<forall>w \<in> {1, 2}. w \<notin> set (lists k' (LEvent 5)) \<longrightarrow> current_top k' \<and> th_ready k' w)"
proof -
  note d = demo_event_facts
  have "(3 :: u32) \<noteq> 0" by simp
  from event_send_correct [OF d(1,3-5) this] d(2) show ?thesis by auto
qed

text \<open>Two threads that \<^verbatim>\<open>rt_event_send\<close> wakes with \<^verbatim>\<open>RT_EVENT_FLAG_CLEAR\<close> never receive the
  same bit: each event bit goes to one of them.\<close>

theorem event_clear_exclusive:
  assumes inv: "kinv 0 k" and ok: "event_ok k e" and cur: "current_thread k = Some c"
    and bits: "bits \<noteq> 0" and uv: "u \<noteq> v"
    and old: "u \<in> set (lists k (LEvent e))" "v \<in> set (lists k (LEvent e))"
    and clear: "info_of k u AND RT_EVENT_FLAG_CLEAR \<noteq> 0" "info_of k v AND RT_EVENT_FLAG_CLEAR \<noteq> 0"
  shows "\<exists>k'. rt_event_send e bits k = Some (RT_EOK, k') \<and>
    (u \<notin> set (lists k' (LEvent e)) \<longrightarrow> v \<notin> set (lists k' (LEvent e)) \<longrightarrow>
     waits_for k' u AND waits_for k' v = 0)"
proof -
  have cur': "current_thread k \<noteq> None" using cur by simp
  show ?thesis
  proof (rule event_send_spec [OF inv ok cur' bits])
    fix k'
    assume "rt_event_send e bits k = Some (RT_EOK, k')"
      "\<forall>u \<in> set (lists k (LEvent e)). \<forall>v \<in> set (lists k (LEvent e)).
       u \<notin> set (lists k' (LEvent e)) \<longrightarrow> v \<notin> set (lists k' (LEvent e)) \<longrightarrow> u \<noteq> v \<longrightarrow>
       info_of k u AND RT_EVENT_FLAG_CLEAR \<noteq> 0 \<longrightarrow> info_of k v AND RT_EVENT_FLAG_CLEAR \<noteq> 0 \<longrightarrow>
       waits_for k' u AND waits_for k' v = 0"
    then show ?thesis using uv old clear by (intro exI [of _ k']) simp
  qed
qed

lemma event_clear_exclusive_witness:
  "\<exists>k'. rt_event_send 5 3 demo_event = Some (RT_EOK, k') \<and>
    (2 \<notin> set (lists k' (LEvent 5)) \<longrightarrow> 1 \<notin> set (lists k' (LEvent 5)) \<longrightarrow>
     waits_for k' 2 AND waits_for k' 1 = 0)"
  by (rule event_clear_exclusive)
    (use demo_event_facts in \<open>simp_all add: demo_event_facts del: One_nat_def\<close>)

section \<open>Receiving\<close>

lemma event_match_recv:
  assumes "option AND RT_EVENT_FLAG_AND \<noteq> 0 \<or> option AND RT_EVENT_FLAG_OR \<noteq> 0"
  shows "(if option AND RT_EVENT_FLAG_AND \<noteq> 0 then has AND bits = bits else has AND bits \<noteq> 0) \<longleftrightarrow>
    event_match option bits has \<noteq> None"
  using assms by (auto simp: event_match_def and.commute)

text \<open>\<^verbatim>\<open>rt_event_recv\<close>: if the condition holds it returns the wanted bits that are set, and
  takes all wanted bits out of the set under \<^verbatim>\<open>RT_EVENT_FLAG_CLEAR\<close>; otherwise it fails at once
  for timeout 0 and else waits, with its condition stored, the event set unchanged and the
  highest-priority ready thread running.\<close>

theorem event_recv_correct:
  assumes m: "may_block k t" and ok: "event_ok k e" and bits: "bits \<noteq> 0"
    and opt: "option AND RT_EVENT_FLAG_AND \<noteq> 0 \<or> option AND RT_EVENT_FLAG_OR \<noteq> 0"
    and time: "timeout < 0x7fffffff"
  shows "\<exists>r got k'. rt_event_recv e bits option timeout k = Some (r, got, k') \<and> kinv 0 k' \<and>
    event_ok k' e \<and>
    (if event_match option bits (ev_set (events k e)) \<noteq> None
     then r = Returned RT_EOK \<and> got = Some (ev_set (events k e) AND bits) \<and>
       ev_set (events k' e) = (if option AND RT_EVENT_FLAG_CLEAR \<noteq> 0
         then ev_set (events k e) AND NOT bits else ev_set (events k e))
     else if timeout = 0 then r = Returned (- RT_ETIMEOUT) \<and> got = None \<and> events k' = events k
     else r = Blocked \<and> got = None \<and> events k' = events k \<and> current_top k' \<and> th_suspended k' t \<and>
       waits_for k' t = bits \<and> info_of k' t = option \<and>
       lists k' (LEvent e) = wait_insert (ev_flag (events k e)) k t (lists k (LEvent e)))"
proof -
  let ?k1 = "set_error t RT_EOK k"
  have inv: "kinv 0 k" and run: "in_thread_context k" "rt_thread_self k = Some t"
    using m by (auto simp: may_block_def in_thread_context_def rt_thread_self_def)
  have inv1: "kinv 0 (set_error t e k)" for e by (rule set_error_kinv [OF inv])
  have m1: "may_block ?k1 t" by (rule may_block_set_error [OF m])
  consider "event_match option bits (ev_set (events k e)) \<noteq> None"
    | "event_match option bits (ev_set (events k e)) = None" "timeout = 0"
    | "event_match option bits (ev_set (events k e)) = None" "timeout \<noteq> 0" by blast
  then show ?thesis
  proof cases
    case 1
    let ?k' = "if option AND RT_EVENT_FLAG_CLEAR \<noteq> 0
      then upd_event e (\<lambda>ev. ev\<lparr>ev_set := ev_set (events k e) AND NOT bits\<rparr>) ?k1 else ?k1"
    have "rt_event_recv e bits option timeout k =
        Some (Returned RT_EOK, Some (ev_set (events k e) AND bits), ?k')"
      using 1 run bits opt
      by (simp only: rt_event_recv_def Let_def event_match_recv [OF opt] set_error_simps) simp
    moreover have "event_match i w (ev_set (events k e)) = None \<Longrightarrow>
        event_match i w (ev_set (events k e) AND NOT bits) = None" for i w
      by (erule event_match_mono) (simp add: bits_in_iff bit_and_iff)
    then have "event_ok ?k' e" using ok by (simp add: event_ok_def)
    ultimately show ?thesis
      using 1 inv1 upd_event_kinv [OF inv1]
      by (intro exI [of _ "Returned RT_EOK"] exI [of _ "Some (ev_set (events k e) AND bits)"]
          exI [of _ ?k']) simp
  next
    case 2
    let ?k' = "set_error t (- RT_ETIMEOUT) ?k1"
    have "rt_event_recv e bits option timeout k = Some (Returned (- RT_ETIMEOUT), None, ?k')"
      using 2 run bits opt
      by (simp only: rt_event_recv_def Let_def event_match_recv [OF opt] set_error_simps) simp
    moreover have "events ?k' = events k" "waits_for ?k' u = waits_for k u" "info_of ?k' u = info_of k u" for u
      by (simp_all add: set_error_def)
    moreover have "event_ok ?k' e" using ok by (simp add: event_ok_def calculation)
    ultimately show ?thesis using 2 set_error_kinv [OF inv1] by simp
  next
    case 3
    let ?k2 = "upd_thread t (\<lambda>th. th\<lparr>th_event_set := bits, th_event_info := option\<rparr>) ?k1"
    have m2: "may_block ?k2 t" by (rule set_wait_may_block [OF m1])
    then obtain u where u: "th_ready ?k2 u" "u \<noteq> t" by (auto simp: may_block_def)
    have pre: "kinv 0 ?k2" "current_thread ?k2 = Some t" "th_ready ?k2 t"
      "scheduler_lock_nest ?k2 = 0" using m2 by (auto simp: may_block_def)
    have flag: "flag_ok (ev_flag (events ?k2 e))" using ok by (simp add: event_ok_def)
    obtain k' where k': "suspend_current (LEvent e) (ev_flag (events ?k2 e)) timeout t ?k2 = Some k'"
      "kinv 0 k'" "current_top k'" "current_thread k' \<noteq> Some t" "core_only ?k2 k'" "th_suspended k' t"
      "threads k' = (threads ?k2)(t := (threads ?k2 t)
         \<lparr>th_stat := with_stat RT_THREAD_SUSPEND (th_stat (threads ?k2 t))\<rparr>)"
      "lists k' (LEvent e) = wait_insert (ev_flag (events ?k2 e)) ?k2 t (lists ?k2 (LEvent e))"
      "\<forall>h'. wait_head h' \<longrightarrow> h' \<noteq> LEvent e \<longrightarrow> lists k' h' = lists ?k2 h'"
      "\<forall>j. j \<noteq> e \<longrightarrow> lists k' (LEvent j) = lists ?k2 (LEvent j)"
      "0 < timeout \<longrightarrow> TThread t \<in> set (timer_list k') \<and>
         timeout_of k' (TThread t) = tick ?k2 + word_of_int timeout"
      "\<not> 0 < timeout \<longrightarrow> TThread t \<notin> set (timer_list k')"
      by (rule event_q.suspend [OF pre(1-3) u pre(4) flag time])
    have ev: "events k' = events k" using core_only_frame(8) [OF k'(5)] by simp
    have "rt_event_recv e bits option timeout k = Some (Blocked, None, k')"
      using 3 run bits opt k'(1,4)
      by (simp only: rt_event_recv_def Let_def event_match_recv [OF opt] set_error_simps) simp
    moreover have "prio_of ?k2 = prio_of k" by (auto simp: set_error_def)
    then have wi: "wait_insert f ?k2 t l = wait_insert f k t l" for f l by (simp add: wait_insert_def)
    have th: "waits_for k' u = (if u = t then bits else waits_for k u)"
      "info_of k' u = (if u = t then option else info_of k u)" for u
      by (simp_all add: k'(7))
    moreover have "event_ok k' e"
      using ok 3 bits unfolding event_ok_def ev k'(8) th by auto
    ultimately show ?thesis
      using 3 k'(2,3,6,8) wi
      by (intro exI [of _ Blocked] exI [of _ None] exI [of _ k']) (simp add: ev)
  qed
qed

lemma event_recv_correct_witness:
  "\<exists>k'. rt_event_recv 5 2 RT_EVENT_FLAG_OR 10 demo_run = Some (Blocked, None, k') \<and>
    current_top k' \<and> waits_for k' 1 = 2 \<and> event_ok k' 5"
proof -
  have e: "events demo_run 5 = \<lparr>ev_set = 0, ev_flag = 0\<rparr>" by (simp add: demo_run_def demo_kernel_def)
  have ok: "event_ok demo_run 5" by (simp add: event_ok_def e flag_ok_def)
  have "(2 :: u32) \<noteq> 0" "RT_EVENT_FLAG_OR AND RT_EVENT_FLAG_AND \<noteq> 0 \<or> RT_EVENT_FLAG_OR AND RT_EVENT_FLAG_OR \<noteq> 0"
    "(10 :: int) < 0x7fffffff" by simp_all
  from event_recv_correct [OF demo_run_inv(2) ok this] show ?thesis
    by (auto simp: e event_match_def)
qed

end
