(* ===== verification/Mailbox.thy ===== *)
theory Mailbox
  imports Event
begin

text \<open>
  Mailboxes, \<^verbatim>\<open>rt_mb_*\<close> of \<^verbatim>\<open>rt-thread/src/ipc.c\<close>: a ring of 32-bit mails with two wait lists,
  the receivers in \<open>LMb m\<close> and the senders in \<open>LMbSender m\<close>. The offsets and counters are 16-bit
  numbers bounded by the size, which never wrap.
\<close>

section \<open>Operations\<close>

definition upd_mb :: "nat \<Rightarrow> (mailbox \<Rightarrow> mailbox) \<Rightarrow> kernel \<Rightarrow> kernel" where
  "upd_mb m f k = k\<lparr>mailboxes := (mailboxes k)(m := f (mailboxes k m))\<rparr>"

definition fresh_mb :: "u32 list \<Rightarrow> nat \<Rightarrow> u8 \<Rightarrow> mailbox" where
  "fresh_mb pool sz flag = \<lparr>mb_msg_pool = pool, mb_size = sz mod 65536, mb_entry = 0,
     mb_in_offset = 0, mb_out_offset = 0, mb_flag = flag\<rparr>"

definition rt_mb_init :: "nat \<Rightarrow> u8 list \<Rightarrow> u32 list \<Rightarrow> nat \<Rightarrow> u8 \<Rightarrow> kernel \<Rightarrow> kernel option" where
  "rt_mb_init m name pool sz flag k = do {
     k1 \<leftarrow> rt_object_init (OMb m) Class_MailBox name k;
     let k2 = rt_ipc_object_init (LMb m) k1;
     let k3 = upd_mb m (\<lambda>_. fresh_mb pool sz flag) k2;
     Some (rt_ipc_object_init (LMbSender m) k3)
   }"

definition rt_mb_detach :: "nat \<Rightarrow> kernel \<Rightarrow> kernel option" where
  "rt_mb_detach m k = do {
     rt_assert (rt_object_is_systemobject (OMb m) k);
     k1 \<leftarrow> rt_ipc_list_resume_all (LMb m) k;
     k2 \<leftarrow> rt_ipc_list_resume_all (LMbSender m) k1;
     Some (rt_object_detach (OMb m) k2)
   }"

text \<open>\<open>mem\<close> is the mailbox object and \<open>pool\<close> the message pool the heap gives.\<close>

definition rt_mb_create ::
    "nat option \<Rightarrow> u32 list option \<Rightarrow> u8 list \<Rightarrow> nat \<Rightarrow> u8 \<Rightarrow> kernel \<Rightarrow> (nat option \<times> kernel) option" where
  "rt_mb_create mem pool name sz flag k = do {
     rt_assert (interrupt_nest k = 0);
     (ob, k1) \<leftarrow> rt_object_allocate (map_option OMb mem) Class_MailBox name k;
     case mem of None \<Rightarrow> Some (None, k1)
     | Some m \<Rightarrow>
         let k2 = rt_ipc_object_init (LMb m) k1 in
         (case pool of
            None \<Rightarrow> do { k3 \<leftarrow> rt_object_delete (OMb m) k2; Some (None, k3) }
          | Some p \<Rightarrow> Some (Some m, rt_ipc_object_init (LMbSender m)
                              (upd_mb m (\<lambda>_. fresh_mb p sz flag) k2)))
   }"

definition rt_mb_delete :: "nat \<Rightarrow> kernel \<Rightarrow> kernel option" where
  "rt_mb_delete m k = do {
     rt_assert (interrupt_nest k = 0);
     rt_assert (\<not> rt_object_is_systemobject (OMb m) k);
     k1 \<leftarrow> rt_ipc_list_resume_all (LMb m) k;
     k2 \<leftarrow> rt_ipc_list_resume_all (LMbSender m) k1;
     rt_object_delete (OMb m) k2
   }"

text \<open>Writing and reading the ring.\<close>

definition mb_put :: "u32 \<Rightarrow> mailbox \<Rightarrow> mailbox" where
  "mb_put v b = b\<lparr>mb_msg_pool := (mb_msg_pool b)[mb_in_offset b := v],
     mb_in_offset := (if mb_in_offset b + 1 \<ge> mb_size b then 0 else mb_in_offset b + 1),
     mb_entry := mb_entry b + 1\<rparr>"

definition mb_get :: "mailbox \<Rightarrow> u32 \<times> mailbox" where
  "mb_get b = (mb_msg_pool b ! mb_out_offset b,
     b\<lparr>mb_out_offset := (if mb_out_offset b + 1 \<ge> mb_size b then 0 else mb_out_offset b + 1),
       mb_entry := mb_entry b - 1\<rparr>)"

text \<open>The ends of \<^verbatim>\<open>rt_mb_send_wait\<close> and \<^verbatim>\<open>rt_mb_recv\<close>, after their loops.\<close>

definition mb_send_end :: "nat \<Rightarrow> u32 \<Rightarrow> kernel \<Rightarrow> (outcome \<times> kernel) option" where
  "mb_send_end m v k = do {
     k1 \<leftarrow> wake_and_schedule (LMb m) (upd_mb m (mb_put v) k);
     Some (Returned RT_EOK, k1)
   }"

definition mb_recv_end :: "nat \<Rightarrow> kernel \<Rightarrow> (outcome \<times> u32 option \<times> kernel) option" where
  "mb_recv_end m k = do {
     let (v, b) = mb_get (mailboxes k m);
     k1 \<leftarrow> wake_and_schedule (LMbSender m) (upd_mb m (\<lambda>_. b) k);
     Some (Returned RT_EOK, Some v, k1)
   }"

text \<open>The waiting loops. \<open>th\<close> is \<^verbatim>\<open>rt_thread_self()\<close>, the null pointer before the scheduler starts.\<close>

partial_function (option) mb_send_loop ::
    "nat \<Rightarrow> u32 \<Rightarrow> int \<Rightarrow> nat option \<Rightarrow> kernel \<Rightarrow> (outcome \<times> kernel) option" where
  "mb_send_loop m v timeout th k =
     (if mb_entry (mailboxes k m) = mb_size (mailboxes k m)
      then Option.bind th (\<lambda>t.
        let k1 = set_error t RT_EOK k in
        if timeout = 0 then Some (Returned (- RT_EFULL), k1)
        else if \<not> in_thread_context k1 then None
        else Option.bind (suspend_current (LMbSender m) (mb_flag (mailboxes k1 m)) timeout t k1)
          (\<lambda>k2. if current_thread k2 = Some t
             then if error_of k2 t \<noteq> RT_EOK then Some (Returned (error_of k2 t), k2)
                  else mb_send_loop m v (remaining_timeout timeout (tick k1) k2) th k2
             else Some (Blocked, k2)))
      else mb_send_end m v k)"

definition mb_send_resumed ::
    "nat \<Rightarrow> u32 \<Rightarrow> int \<Rightarrow> u32 \<Rightarrow> nat \<Rightarrow> kernel \<Rightarrow> (outcome \<times> kernel) option" where
  "mb_send_resumed m v timeout start t k =
     (if error_of k t \<noteq> RT_EOK then Some (Returned (error_of k t), k)
      else mb_send_loop m v (remaining_timeout timeout start k) (Some t) k)"

definition rt_mb_send_wait :: "nat \<Rightarrow> u32 \<Rightarrow> int \<Rightarrow> kernel \<Rightarrow> (outcome \<times> kernel) option" where
  "rt_mb_send_wait m v timeout k =
     (if mb_entry (mailboxes k m) = mb_size (mailboxes k m) \<and> timeout = 0
      then Some (Returned (- RT_EFULL), k)
      else mb_send_loop m v timeout (rt_thread_self k) k)"

definition rt_mb_send :: "nat \<Rightarrow> u32 \<Rightarrow> kernel \<Rightarrow> (outcome \<times> kernel) option" where
  "rt_mb_send m v k = rt_mb_send_wait m v 0 k"

partial_function (option) mb_recv_loop ::
    "nat \<Rightarrow> int \<Rightarrow> nat option \<Rightarrow> kernel \<Rightarrow> (outcome \<times> u32 option \<times> kernel) option" where
  "mb_recv_loop m timeout th k =
     (if mb_entry (mailboxes k m) = 0
      then Option.bind th (\<lambda>t.
        let k1 = set_error t RT_EOK k in
        if timeout = 0 then Some (Returned (- RT_ETIMEOUT), None, set_error t (- RT_ETIMEOUT) k1)
        else if \<not> in_thread_context k1 then None
        else Option.bind (suspend_current (LMb m) (mb_flag (mailboxes k1 m)) timeout t k1)
          (\<lambda>k2. if current_thread k2 = Some t
             then if error_of k2 t \<noteq> RT_EOK then Some (Returned (error_of k2 t), None, k2)
                  else mb_recv_loop m (remaining_timeout timeout (tick k1) k2) th k2
             else Some (Blocked, None, k2)))
      else mb_recv_end m k)"

definition mb_recv_resumed ::
    "nat \<Rightarrow> int \<Rightarrow> u32 \<Rightarrow> nat \<Rightarrow> kernel \<Rightarrow> (outcome \<times> u32 option \<times> kernel) option" where
  "mb_recv_resumed m timeout start t k =
     (if error_of k t \<noteq> RT_EOK then Some (Returned (error_of k t), None, k)
      else mb_recv_loop m (remaining_timeout timeout start k) (Some t) k)"

definition rt_mb_recv :: "nat \<Rightarrow> int \<Rightarrow> kernel \<Rightarrow> (outcome \<times> u32 option \<times> kernel) option" where
  "rt_mb_recv m timeout k =
     (if mb_entry (mailboxes k m) = 0 \<and> timeout = 0 then Some (Returned (- RT_ETIMEOUT), None, k)
      else mb_recv_loop m timeout (rt_thread_self k) k)"

definition rt_mb_control :: "nat \<Rightarrow> nat \<Rightarrow> kernel \<Rightarrow> (rt_err \<times> kernel) option" where
  "rt_mb_control m cmd k =
     (if cmd = 1
      then do {
        k1 \<leftarrow> rt_ipc_list_resume_all (LMb m) k;
        k2 \<leftarrow> rt_ipc_list_resume_all (LMbSender m) k1;
        let k3 = upd_mb m (\<lambda>b. b\<lparr>mb_entry := 0, mb_in_offset := 0, mb_out_offset := 0\<rparr>) k2;
        k4 \<leftarrow> rt_schedule k3;
        Some (RT_EOK, k4)
      }
      else Some (- RT_ERROR, k))"

section \<open>The ring\<close>

definition mb_ok :: "mailbox \<Rightarrow> bool" where
  "mb_ok b \<longleftrightarrow> 0 < mb_size b \<and> mb_size b < 65536 \<and> length (mb_msg_pool b) = mb_size b \<and>
     mb_entry b \<le> mb_size b \<and> mb_in_offset b < mb_size b \<and> mb_out_offset b < mb_size b \<and>
     mb_in_offset b = (mb_out_offset b + mb_entry b) mod mb_size b \<and> flag_ok (mb_flag b)"

text \<open>The mails in the order in which they are received.\<close>

definition mails :: "mailbox \<Rightarrow> u32 list" where
  "mails b = map (\<lambda>i. mb_msg_pool b ! ((mb_out_offset b + i) mod mb_size b)) [0..<mb_entry b]"

lemma length_mails [simp]: "length (mails b) = mb_entry b"
  by (simp add: mails_def)

lemma ring_step: "x < (n::nat) \<Longrightarrow> (if x + 1 \<ge> n then 0 else x + 1) = (x + 1) mod n"
  by (auto simp: le_Suc_eq)

lemma mb_put_spec:
  assumes ok: "mb_ok b" and space: "mb_entry b < mb_size b"
  shows "mb_ok (mb_put v b)" "mails (mb_put v b) = mails b @ [v]"
    "mb_size (mb_put v b) = mb_size b" "mb_flag (mb_put v b) = mb_flag b"
    "mb_entry (mb_put v b) = mb_entry b + 1"
proof -
  let ?n = "mb_size b" and ?o = "mb_out_offset b"
  have n: "0 < ?n" "mb_in_offset b < ?n" "?o < ?n" "length (mb_msg_pool b) = ?n"
    "mb_in_offset b = (?o + mb_entry b) mod ?n" using ok by (simp_all add: mb_ok_def)
  have off: "mb_in_offset (mb_put v b) = (mb_in_offset b + 1) mod ?n"
    using ring_step [OF n(2)] by (simp add: mb_put_def)
  have "(mb_in_offset b + 1) mod ?n = (?o + (mb_entry b + 1)) mod ?n"
    by (simp add: n(5) mod_simps)
  then show "mb_ok (mb_put v b)"
    using ok space off n(1) by (simp add: mb_ok_def mb_put_def)
  have other: "(?o + i) mod ?n \<noteq> mb_in_offset b" if "i < mb_entry b" for i
  proof
    assume "(?o + i) mod ?n = mb_in_offset b"
    then have "(?o + mb_entry b) mod ?n = (?o + i) mod ?n" using n(5) by simp
    then have "?n dvd (?o + mb_entry b) - (?o + i)" using that by (simp add: mod_eq_dvd_iff_nat)
    then show False using that space by (auto dest: dvd_imp_le)
  qed
  have "mails (mb_put v b) =
      map (\<lambda>i. (mb_msg_pool b)[mb_in_offset b := v] ! ((?o + i) mod ?n)) [0..<mb_entry b + 1]"
    by (simp add: mails_def mb_put_def)
  also have "\<dots> = mails b @ [v]"
    using other n by (auto simp: mails_def nth_list_update dest: sym)
  finally show "mails (mb_put v b) = mails b @ [v]" .
qed (simp_all add: mb_put_def)

lemma mb_get_spec:
  assumes ok: "mb_ok b" and some: "0 < mb_entry b"
  obtains b' where "mb_get b = (hd (mails b), b')" "mb_ok b'" "mails b' = tl (mails b)"
    "mb_size b' = mb_size b" "mb_flag b' = mb_flag b" "mb_entry b' = mb_entry b - 1"
proof -
  let ?n = "mb_size b" and ?o = "mb_out_offset b"
  have n: "0 < ?n" "?o < ?n" "mb_in_offset b = (?o + mb_entry b) mod ?n"
    using ok by (simp_all add: mb_ok_def)
  obtain e where e: "mb_entry b = Suc e" using some by (cases "mb_entry b") auto
  let ?b = "snd (mb_get b)"
  have off: "mb_out_offset ?b = (?o + 1) mod ?n"
    using ring_step [OF n(2)] by (simp add: mb_get_def)
  have "(?o + mb_entry b) mod ?n = ((?o + 1) mod ?n + e) mod ?n" by (simp add: e mod_simps)
  then have ok': "mb_ok ?b" using ok off n by (simp add: mb_ok_def mb_get_def e)
  have c: "mails b = mb_msg_pool b ! ?o # map (\<lambda>i. mb_msg_pool b ! ((?o + Suc i) mod ?n)) [0..<e]"
    using n(2) unfolding mails_def e
    by (simp only: upt_conv_Cons map_Suc_upt [symmetric] map_map o_def zero_less_Suc list.map) simp
  have m': "mails ?b = tl (mails b)"
  proof -
    have "mails ?b = map (\<lambda>i. mb_msg_pool b ! ((mb_out_offset ?b + i) mod ?n)) [0..<e]"
      by (simp add: mails_def mb_get_def e)
    then show ?thesis unfolding c off by (simp add: mod_simps)
  qed
  have "mb_get b = (hd (mails b), ?b)" by (simp add: c) (simp add: mb_get_def)
  then show ?thesis using that [of ?b] ok' m' by (simp add: mb_get_def)
qed

section \<open>The operations on the kernel\<close>

lemma upd_mb_simps [simp]:
  "mailboxes (upd_mb m f k) = (mailboxes k)(m := f (mailboxes k m))"
  "threads (upd_mb m f k) = threads k" "lists (upd_mb m f k) = lists k"
  "current_thread (upd_mb m f k) = current_thread k"
  "scheduler_lock_nest (upd_mb m f k) = scheduler_lock_nest k"
  "tick (upd_mb m f k) = tick k" "interrupt_nest (upd_mb m f k) = interrupt_nest k"
  by (simp_all add: upd_mb_def)

lemma upd_mb_kinv: "kinv d k \<Longrightarrow> kinv d (upd_mb m f k)"
  by (erule kinv_cong) (simp_all add: upd_mb_def)

lemma mb_send_end_spec:
  assumes inv: "kinv 0 k" and cur: "current_thread k \<noteq> None" and ok: "mb_ok (mailboxes k m)"
    and space: "mb_entry (mailboxes k m) < mb_size (mailboxes k m)"
  obtains k' where "mb_send_end m v k = Some (Returned RT_EOK, k')" "kinv 0 k'"
    "current_thread k' \<noteq> None" "mb_ok (mailboxes k' m)"
    "mails (mailboxes k' m) = mails (mailboxes k m) @ [v]"
    "mb_size (mailboxes k' m) = mb_size (mailboxes k m)"
    "lists k' (LMb m) = tl (lists k (LMb m))" "lists k' (LMbSender m) = lists k (LMbSender m)"
    "\<forall>u. error_of k' u = error_of k u"
    "lists k (LMb m) \<noteq> [] \<longrightarrow> th_ready k' (hd (lists k (LMb m))) \<and>
       (scheduler_lock_nest k = 0 \<longrightarrow> current_top k')"
    "lists k (LMb m) = [] \<longrightarrow> k' = upd_mb m (mb_put v) k"
proof -
  let ?k1 = "upd_mb m (mb_put v) k"
  note p = mb_put_spec [OF ok space]
  have inv1: "kinv 0 ?k1" by (rule upd_mb_kinv [OF inv])
  have pre: "current_thread ?k1 \<noteq> None" "wait_head (LMb m)" using cur by simp_all
  obtain k' where k': "wake_and_schedule (LMb m) ?k1 = Some k'" "kinv 0 k'"
    "current_thread k' \<noteq> None" "core_only ?k1 k'" "lists k' (LMb m) = tl (lists ?k1 (LMb m))"
    "\<forall>h'. wait_head h' \<longrightarrow> h' \<noteq> LMb m \<longrightarrow> lists k' h' = lists ?k1 h'"
    "\<forall>u. error_of k' u = error_of ?k1 u"
    "lists ?k1 (LMb m) \<noteq> [] \<longrightarrow> th_ready k' (hd (lists ?k1 (LMb m))) \<and>
       (scheduler_lock_nest ?k1 = 0 \<longrightarrow> current_top k')"
    "lists ?k1 (LMb m) = [] \<longrightarrow> k' = ?k1"
    by (rule wake_and_schedule_spec [OF inv1 pre])
  have b: "mailboxes k' = mailboxes ?k1" by (rule core_only_frame(9) [OF k'(4)])
  show ?thesis
  proof (rule that [of k'])
    show "mb_send_end m v k = Some (Returned RT_EOK, k')" using k'(1) by (simp add: mb_send_end_def)
  qed (use k' p in \<open>simp_all add: b\<close>)
qed

lemma mb_recv_end_spec:
  assumes inv: "kinv 0 k" and cur: "current_thread k \<noteq> None" and ok: "mb_ok (mailboxes k m)"
    and some: "0 < mb_entry (mailboxes k m)"
  obtains k' where "mb_recv_end m k = Some (Returned RT_EOK, Some (hd (mails (mailboxes k m))), k')"
    "kinv 0 k'" "current_thread k' \<noteq> None" "mb_ok (mailboxes k' m)"
    "mails (mailboxes k' m) = tl (mails (mailboxes k m))"
    "mb_size (mailboxes k' m) = mb_size (mailboxes k m)"
    "lists k' (LMbSender m) = tl (lists k (LMbSender m))" "lists k' (LMb m) = lists k (LMb m)"
    "\<forall>u. error_of k' u = error_of k u"
    "lists k (LMbSender m) \<noteq> [] \<longrightarrow> th_ready k' (hd (lists k (LMbSender m))) \<and>
       (scheduler_lock_nest k = 0 \<longrightarrow> current_top k')"
proof -
  obtain b where b: "mb_get (mailboxes k m) = (hd (mails (mailboxes k m)), b)" "mb_ok b"
    "mails b = tl (mails (mailboxes k m))" "mb_size b = mb_size (mailboxes k m)"
    "mb_flag b = mb_flag (mailboxes k m)" "mb_entry b = mb_entry (mailboxes k m) - 1"
    by (rule mb_get_spec [OF ok some])
  let ?k1 = "upd_mb m (\<lambda>_. b) k"
  have inv1: "kinv 0 ?k1" by (rule upd_mb_kinv [OF inv])
  have pre: "current_thread ?k1 \<noteq> None" "wait_head (LMbSender m)" using cur by simp_all
  obtain k' where k': "wake_and_schedule (LMbSender m) ?k1 = Some k'" "kinv 0 k'"
    "current_thread k' \<noteq> None" "core_only ?k1 k'"
    "lists k' (LMbSender m) = tl (lists ?k1 (LMbSender m))"
    "\<forall>h'. wait_head h' \<longrightarrow> h' \<noteq> LMbSender m \<longrightarrow> lists k' h' = lists ?k1 h'"
    "\<forall>u. error_of k' u = error_of ?k1 u"
    "lists ?k1 (LMbSender m) \<noteq> [] \<longrightarrow> th_ready k' (hd (lists ?k1 (LMbSender m))) \<and>
       (scheduler_lock_nest ?k1 = 0 \<longrightarrow> current_top k')"
    "lists ?k1 (LMbSender m) = [] \<longrightarrow> k' = ?k1"
    by (rule wake_and_schedule_spec [OF inv1 pre])
  have c: "mailboxes k' = mailboxes ?k1" by (rule core_only_frame(9) [OF k'(4)])
  show ?thesis
  proof (rule that [of k'])
    show "mb_recv_end m k = Some (Returned RT_EOK, Some (hd (mails (mailboxes k m))), k')"
      using k'(1) b(1) by (simp add: mb_recv_end_def)
  qed (use k' b in \<open>simp_all add: c\<close>)
qed

section \<open>Blocking calls\<close>

text \<open>\<^verbatim>\<open>rt_mb_send_wait\<close>: with room the mail goes behind the others and the first waiting
  receiver becomes ready; a full mailbox gives \<^verbatim>\<open>RT_EFULL\<close> for timeout 0, and otherwise suspends
  the sender in the sender list and switches to the highest-priority ready thread.\<close>

theorem mb_send_wait_correct:
  assumes m: "may_block k t" and ok: "mb_ok (mailboxes k m)" and time: "timeout < 0x7fffffff"
  shows "\<exists>r k'. rt_mb_send_wait m v timeout k = Some (r, k') \<and> kinv 0 k' \<and> mb_ok (mailboxes k' m) \<and>
    (if mb_entry (mailboxes k m) < mb_size (mailboxes k m)
     then r = Returned RT_EOK \<and> mails (mailboxes k' m) = mails (mailboxes k m) @ [v] \<and>
       lists k' (LMb m) = tl (lists k (LMb m)) \<and>
       (lists k (LMb m) \<noteq> [] \<longrightarrow> th_ready k' (hd (lists k (LMb m))) \<and> current_top k')
     else if timeout = 0 then r = Returned (- RT_EFULL) \<and> k' = k
     else r = Blocked \<and> mailboxes k' = mailboxes k \<and> current_top k' \<and> th_suspended k' t \<and>
       error_of k' t = RT_EOK \<and>
       lists k' (LMbSender m) = wait_insert (mb_flag (mailboxes k m)) k t (lists k (LMbSender m)))"
proof -
  have inv: "kinv 0 k" and run: "in_thread_context k" "rt_thread_self k = Some t"
    and cur: "current_thread k \<noteq> None" and unl: "scheduler_lock_nest k = 0"
    using m by (auto simp: may_block_def in_thread_context_def rt_thread_self_def)
  consider "mb_entry (mailboxes k m) < mb_size (mailboxes k m)"
    | "mb_entry (mailboxes k m) = mb_size (mailboxes k m)" "timeout = 0"
    | "mb_entry (mailboxes k m) = mb_size (mailboxes k m)" "timeout \<noteq> 0"
    using ok unfolding mb_ok_def by linarith
  then show ?thesis
  proof cases
    case 1
    obtain k' where k': "mb_send_end m v k = Some (Returned RT_EOK, k')" "kinv 0 k'"
      "current_thread k' \<noteq> None" "mb_ok (mailboxes k' m)"
      "mails (mailboxes k' m) = mails (mailboxes k m) @ [v]"
      "mb_size (mailboxes k' m) = mb_size (mailboxes k m)"
      "lists k' (LMb m) = tl (lists k (LMb m))" "lists k' (LMbSender m) = lists k (LMbSender m)"
      "\<forall>u. error_of k' u = error_of k u"
      "lists k (LMb m) \<noteq> [] \<longrightarrow> th_ready k' (hd (lists k (LMb m))) \<and>
         (scheduler_lock_nest k = 0 \<longrightarrow> current_top k')"
      "lists k (LMb m) = [] \<longrightarrow> k' = upd_mb m (mb_put v) k"
      by (rule mb_send_end_spec [OF inv cur ok 1])
    have "rt_mb_send_wait m v timeout k = Some (Returned RT_EOK, k')"
      using 1 k'(1) by (simp add: rt_mb_send_wait_def mb_send_loop.simps)
    then show ?thesis
      using 1 k'(2,4,5,7,10) unl by (intro exI [of _ "Returned RT_EOK"] exI [of _ k']) simp
  next
    case 2
    then show ?thesis using inv ok by (simp add: rt_mb_send_wait_def)
  next
    case 3
    have flag: "flag_ok (mb_flag (mailboxes k m))" using ok by (simp add: mb_ok_def)
    obtain k' where k': "suspend_current (LMbSender m) (mb_flag (mailboxes k m)) timeout t (set_error t RT_EOK k) = Some k'"
      "kinv 0 k'" "current_top k'" "current_thread k' \<noteq> Some t" "core_only k k'" "th_suspended k' t"
      "\<forall>u. error_of k' u = (if u = t then RT_EOK else error_of k u)"
      "lists k' (LMbSender m) = wait_insert (mb_flag (mailboxes k m)) k t (lists k (LMbSender m))"
      "\<forall>j. j \<noteq> m \<longrightarrow> lists k' (LMbSender j) = lists k (LMbSender j)"
      "TThread t \<in> set (timer_list k') \<longleftrightarrow> 0 < timeout"
      "0 < timeout \<longrightarrow> timeout_of k' (TThread t) = tick k + word_of_int timeout"
      by (rule mb_sender_q.block [OF m flag time])
    have b': "mailboxes k' = mailboxes k" by (rule core_only_frame(9) [OF k'(5)])
    have "rt_mb_send_wait m v timeout k = Some (Blocked, k')"
      using 3 m run k'(1,4)
      by (simp add: rt_mb_send_wait_def mb_send_loop.simps Let_def may_block_def in_thread_context_def)
    then show ?thesis using 3 ok k'(2,3,6-8) by (intro exI [of _ Blocked] exI [of _ k']) (simp add: b')
  qed
qed

text \<open>\<^verbatim>\<open>rt_mb_recv\<close>: it takes the oldest mail and makes the first waiting sender ready; an
  empty mailbox gives \<^verbatim>\<open>RT_ETIMEOUT\<close> for timeout 0, and otherwise suspends the receiver and
  switches to the highest-priority ready thread.\<close>

theorem mb_recv_correct:
  assumes m: "may_block k t" and ok: "mb_ok (mailboxes k m)" and time: "timeout < 0x7fffffff"
  shows "\<exists>r got k'. rt_mb_recv m timeout k = Some (r, got, k') \<and> kinv 0 k' \<and> mb_ok (mailboxes k' m) \<and>
    (case mails (mailboxes k m) of
       v # vs \<Rightarrow> r = Returned RT_EOK \<and> got = Some v \<and> mails (mailboxes k' m) = vs \<and>
         lists k' (LMbSender m) = tl (lists k (LMbSender m)) \<and>
         (lists k (LMbSender m) \<noteq> [] \<longrightarrow> th_ready k' (hd (lists k (LMbSender m))) \<and> current_top k')
     | [] \<Rightarrow> if timeout = 0 then r = Returned (- RT_ETIMEOUT) \<and> got = None \<and> k' = k
         else r = Blocked \<and> got = None \<and> mailboxes k' = mailboxes k \<and> current_top k' \<and>
           th_suspended k' t \<and> error_of k' t = RT_EOK \<and>
           lists k' (LMb m) = wait_insert (mb_flag (mailboxes k m)) k t (lists k (LMb m)))"
proof -
  have inv: "kinv 0 k" and run: "in_thread_context k" "rt_thread_self k = Some t"
    and cur: "current_thread k \<noteq> None" and unl: "scheduler_lock_nest k = 0"
    using m by (auto simp: may_block_def in_thread_context_def rt_thread_self_def)
  have len: "mb_entry (mailboxes k m) = length (mails (mailboxes k m))" by simp
  show ?thesis
  proof (cases "mails (mailboxes k m)")
    case (Cons v vs)
    have some: "0 < mb_entry (mailboxes k m)" unfolding len Cons by simp
    obtain k' where k': "mb_recv_end m k = Some (Returned RT_EOK, Some (hd (mails (mailboxes k m))), k')"
      "kinv 0 k'" "current_thread k' \<noteq> None" "mb_ok (mailboxes k' m)"
      "mails (mailboxes k' m) = tl (mails (mailboxes k m))"
      "mb_size (mailboxes k' m) = mb_size (mailboxes k m)"
      "lists k' (LMbSender m) = tl (lists k (LMbSender m))" "lists k' (LMb m) = lists k (LMb m)"
      "\<forall>u. error_of k' u = error_of k u"
      "lists k (LMbSender m) \<noteq> [] \<longrightarrow> th_ready k' (hd (lists k (LMbSender m))) \<and>
         (scheduler_lock_nest k = 0 \<longrightarrow> current_top k')"
      by (rule mb_recv_end_spec [OF inv cur ok some])
    have "rt_mb_recv m timeout k = Some (Returned RT_EOK, Some v, k')"
      using some k'(1) Cons by (simp add: rt_mb_recv_def mb_recv_loop.simps)
    then show ?thesis
      using k'(2,4,5,7,10) unl Cons
      by (intro exI [of _ "Returned RT_EOK"] exI [of _ "Some v"] exI [of _ k']) simp
  next
    case Nil
    have none: "mb_entry (mailboxes k m) = 0" unfolding len Nil by simp
    show ?thesis
    proof (cases "timeout = 0")
      case True
      then show ?thesis using inv ok none Nil by (simp add: rt_mb_recv_def)
    next
      case False
      have flag: "flag_ok (mb_flag (mailboxes k m))" using ok by (simp add: mb_ok_def)
      obtain k' where k': "suspend_current (LMb m) (mb_flag (mailboxes k m)) timeout t (set_error t RT_EOK k) = Some k'"
        "kinv 0 k'" "current_top k'" "current_thread k' \<noteq> Some t" "core_only k k'" "th_suspended k' t"
        "\<forall>u. error_of k' u = (if u = t then RT_EOK else error_of k u)"
        "lists k' (LMb m) = wait_insert (mb_flag (mailboxes k m)) k t (lists k (LMb m))"
        "\<forall>j. j \<noteq> m \<longrightarrow> lists k' (LMb j) = lists k (LMb j)"
        "TThread t \<in> set (timer_list k') \<longleftrightarrow> 0 < timeout"
        "0 < timeout \<longrightarrow> timeout_of k' (TThread t) = tick k + word_of_int timeout"
        by (rule mb_q.block [OF m flag time])
      have b': "mailboxes k' = mailboxes k" by (rule core_only_frame(9) [OF k'(5)])
      have "rt_mb_recv m timeout k = Some (Blocked, None, k')"
        using False none m run k'(1,4)
        by (simp add: rt_mb_recv_def mb_recv_loop.simps Let_def may_block_def in_thread_context_def)
      then show ?thesis using False Nil ok k'(2,3,6-8) by (intro exI [of _ Blocked] exI [of _ None] exI [of _ k']) (simp add: b')
    qed
  qed
qed

text \<open>The demo kernel with a mailbox of two mails, the oldest 11.\<close>

definition demo_mb :: "u32 list \<Rightarrow> kernel \<Rightarrow> kernel" where
  "demo_mb vs = upd_mb 9 (\<lambda>_. fold mb_put vs (fresh_mb [0, 0] 2 0))"

lemma demo_mb_simps [simp]:
  "threads (demo_mb vs k) = threads k" "lists (demo_mb vs k) = lists k"
  "current_thread (demo_mb vs k) = current_thread k" "stat_of (demo_mb vs k) u = stat_of k u"
  "scheduler_lock_nest (demo_mb vs k) = scheduler_lock_nest k"
  "mailboxes (demo_mb vs k) 9 = fold mb_put vs (fresh_mb [0, 0] 2 0)"
  "interrupt_nest (demo_mb vs k) = interrupt_nest k" "kinv 0 k \<Longrightarrow> kinv 0 (demo_mb vs k)"
  by (simp_all add: demo_mb_def stat_of_def upd_mb_kinv)

lemma fresh_mb_ok: "mb_ok (fresh_mb [0, 0] 2 0)" "mails (fresh_mb [0, 0] 2 0) = []"
  by (simp_all add: mb_ok_def mails_def fresh_mb_def flag_ok_def)

lemma demo_full: "mb_ok (fold mb_put [11, 12] (fresh_mb [0, 0] 2 0))"
  "mails (fold mb_put [11, 12] (fresh_mb [0, 0] 2 0)) = [11, 12]"
  by (simp_all add: mb_ok_def mails_def mb_put_def fresh_mb_def flag_ok_def upt_rec)

lemma mb_send_wait_correct_witness:
  "\<exists>k'. rt_mb_send_wait 9 13 (- 1) (demo_mb [11, 12] demo_run) = Some (Blocked, k') \<and> current_top k' \<and>
    lists k' (LMbSender 9) = [1]"
proof -
  let ?k = "demo_mb [11, 12] demo_run"
  have m: "may_block ?k 1" using demo_run_inv(2) by (auto simp: may_block_def)
  have ok: "mb_ok (mailboxes ?k 9)" using demo_full by simp
  have e: "mb_entry (mailboxes ?k 9) = 2" "mb_size (mailboxes ?k 9) = 2"
    "mb_flag (mailboxes ?k 9) = 0" by (simp_all add: mb_put_def fresh_mb_def)
  have "(- 1 :: int) < 0x7fffffff" by simp
  from mb_send_wait_correct [OF m ok this, of 13] e show ?thesis by (auto simp: wait_insert_def)
qed

lemma mb_recv_correct_witness:
  "\<exists>k'. rt_mb_recv 9 (- 1) (demo_mb [11, 12] demo_run) = Some (Returned RT_EOK, Some 11, k') \<and>
    mails (mailboxes k' 9) = [12]"
proof -
  let ?k = "demo_mb [11, 12] demo_run"
  have m: "may_block ?k 1" using demo_run_inv(2) by (auto simp: may_block_def)
  have ok: "mb_ok (mailboxes ?k 9)" "mails (mailboxes ?k 9) = [11, 12]" using demo_full by simp_all
  have "(- 1 :: int) < 0x7fffffff" by simp
  from mb_recv_correct [OF m ok(1) this] ok(2) show ?thesis by auto
qed

section \<open>The mailbox is a bounded queue\<close>

text \<open>The calls that do not wait, as operations of a bounded queue. Threads that wait for the
  mailbox may be woken by them, and the scheduler may switch.\<close>

definition mb_inv :: "nat \<Rightarrow> kernel \<Rightarrow> bool" where
  "mb_inv m k \<longleftrightarrow> kinv 0 k \<and> current_thread k \<noteq> None \<and> mb_ok (mailboxes k m)"

definition mb_mails :: "nat \<Rightarrow> kernel \<Rightarrow> u32 list" where
  "mb_mails m k = mails (mailboxes k m)"

definition mb_capacity :: "nat \<Rightarrow> kernel \<Rightarrow> nat" where
  "mb_capacity m k = mb_size (mailboxes k m)"

text \<open>A call that does not wait, as a step of the queue; it fails if the call does, blocks, or returns
  anything else than success or that the mailbox is full, or empty.\<close>

definition mb_try_send :: "nat \<Rightarrow> u32 \<Rightarrow> kernel \<Rightarrow> (bool \<times> kernel) option" where
  "mb_try_send m v k =
     (case rt_mb_send m v k of
        Some (Returned e, k') \<Rightarrow>
          if e = RT_EOK then Some (True, k') else if e = - RT_EFULL then Some (False, k') else None
      | _ \<Rightarrow> None)"

definition mb_try_recv :: "nat \<Rightarrow> kernel \<Rightarrow> (u32 option \<times> kernel) option" where
  "mb_try_recv m k =
     (case rt_mb_recv m 0 k of
        Some (Returned e, r, k') \<Rightarrow>
          if e = RT_EOK \<and> r \<noteq> None \<or> e = - RT_ETIMEOUT \<and> r = None then Some (r, k') else None
      | _ \<Rightarrow> None)"

lemma mb_try_send_space:
  assumes inv: "mb_inv m k" and space: "length (mb_mails m k) < mb_capacity m k"
  shows "\<exists>k'. mb_try_send m v k = Some (True, k') \<and> mb_inv m k' \<and> mb_mails m k' = mb_mails m k @ [v] \<and>
    mb_capacity m k' = mb_capacity m k"
proof -
  have pre: "kinv 0 k" "current_thread k \<noteq> None" "mb_ok (mailboxes k m)"
    "mb_entry (mailboxes k m) < mb_size (mailboxes k m)"
    using inv space by (simp_all add: mb_inv_def mb_mails_def mb_capacity_def)
  obtain k' where k': "mb_send_end m v k = Some (Returned RT_EOK, k')" "kinv 0 k'"
    "current_thread k' \<noteq> None" "mb_ok (mailboxes k' m)"
    "mails (mailboxes k' m) = mails (mailboxes k m) @ [v]"
    "mb_size (mailboxes k' m) = mb_size (mailboxes k m)"
    "lists k' (LMb m) = tl (lists k (LMb m))" "lists k' (LMbSender m) = lists k (LMbSender m)"
    "\<forall>u. error_of k' u = error_of k u"
    "lists k (LMb m) \<noteq> [] \<longrightarrow> th_ready k' (hd (lists k (LMb m))) \<and>
       (scheduler_lock_nest k = 0 \<longrightarrow> current_top k')"
    "lists k (LMb m) = [] \<longrightarrow> k' = upd_mb m (mb_put v) k"
    by (rule mb_send_end_spec [OF pre])
  have "mb_try_send m v k = Some (True, k')"
    using pre(4) k'(1) by (simp add: mb_try_send_def rt_mb_send_def rt_mb_send_wait_def mb_send_loop.simps)
  then show ?thesis
    using k'(2-6) by (intro exI [of _ k']) (simp add: mb_inv_def mb_mails_def mb_capacity_def)
qed

lemma mb_try_recv_some:
  assumes inv: "mb_inv m k" and c: "mb_mails m k = x # xs"
  shows "\<exists>k'. mb_try_recv m k = Some (Some x, k') \<and> mb_inv m k' \<and> mb_mails m k' = xs \<and>
    mb_capacity m k' = mb_capacity m k"
proof -
  have "0 < length (mb_mails m k)" using c by simp
  then have pre: "kinv 0 k" "current_thread k \<noteq> None" "mb_ok (mailboxes k m)"
    "0 < mb_entry (mailboxes k m)"
    using inv by (simp_all add: mb_inv_def mb_mails_def)
  obtain k' where k': "mb_recv_end m k = Some (Returned RT_EOK, Some (hd (mails (mailboxes k m))), k')"
    "kinv 0 k'" "current_thread k' \<noteq> None" "mb_ok (mailboxes k' m)"
    "mails (mailboxes k' m) = tl (mails (mailboxes k m))"
    "mb_size (mailboxes k' m) = mb_size (mailboxes k m)"
    "lists k' (LMbSender m) = tl (lists k (LMbSender m))" "lists k' (LMb m) = lists k (LMb m)"
    "\<forall>u. error_of k' u = error_of k u"
    "lists k (LMbSender m) \<noteq> [] \<longrightarrow> th_ready k' (hd (lists k (LMbSender m))) \<and>
       (scheduler_lock_nest k = 0 \<longrightarrow> current_top k')"
    by (rule mb_recv_end_spec [OF pre])
  have "mb_try_recv m k = Some (Some x, k')"
    using pre(4) k'(1) c by (simp add: mb_try_recv_def rt_mb_recv_def mb_recv_loop.simps mb_mails_def)
  then show ?thesis
    using k'(2-6) c by (intro exI [of _ k']) (simp add: mb_inv_def mb_mails_def mb_capacity_def)
qed

lemma mb_refused:
  "mb_entry (mailboxes k m) = mb_size (mailboxes k m) \<Longrightarrow> rt_mb_send m v k = Some (Returned (- RT_EFULL), k)"
  "mb_entry (mailboxes k m) = 0 \<Longrightarrow> rt_mb_recv m 0 k = Some (Returned (- RT_ETIMEOUT), None, k)"
  by (simp_all add: rt_mb_send_def rt_mb_send_wait_def rt_mb_recv_def)

interpretation mb: bounded_fifo "mb_inv m" "mb_mails m" "mb_capacity m" "mb_try_send m" "mb_try_recv m"
  for m :: nat
proof unfold_locales
  fix k v assume i: "mb_inv m k" and f: "length (mb_mails m k) = mb_capacity m k"
  then have "mb_try_send m v k = Some (False, k)"
    by (simp add: mb_try_send_def mb_refused mb_mails_def mb_capacity_def rt_err_simps)
  then show "\<exists>k'. mb_try_send m v k = Some (False, k') \<and> mb_inv m k' \<and> mb_mails m k' = mb_mails m k \<and>
      mb_capacity m k' = mb_capacity m k" using i by simp
next
  fix k assume i: "mb_inv m k" and e: "mb_mails m k = []"
  then have "length (mb_mails m k) = 0" by simp
  then have "mb_try_recv m k = Some (None, k)"
    by (simp add: mb_try_recv_def mb_refused mb_mails_def rt_err_simps)
  then show "\<exists>k'. mb_try_recv m k = Some (None, k') \<and> mb_inv m k' \<and> mb_mails m k' = [] \<and>
      mb_capacity m k' = mb_capacity m k" using i e by simp
next
  fix k assume "mb_inv m k"
  then show "length (mb_mails m k) \<le> mb_capacity m k"
    by (simp add: mb_inv_def mb_mails_def mb_capacity_def mb_ok_def)
qed (blast intro: mb_try_send_space mb_try_recv_some)+

text \<open>C16: a mailbox refines a bounded queue of mails: whatever threads wait for it and get woken, no call
  of a script of calls that do not wait fails, every call, also one after a refused call, gets the answer of
  the abstract queue, at the end the mailbox holds the mails of that queue, and a call that is refused
  changes nothing.\<close>

theorem mailbox_refines_queue:
  assumes "kinv 0 k" "current_thread k = Some t" "mb_ok (mailboxes k m)"
  shows "(\<exists>as k'. fifo_run (mb_try_send m) (mb_try_recv m) script k = Some (as, k') \<and>
      fifo_run (list_enq (mb_size (mailboxes k m))) list_deq script (mails (mailboxes k m)) =
        Some (as, mails (mailboxes k' m)) \<and> kinv 0 k' \<and> mb_ok (mailboxes k' m)) \<and>
    (length (mails (mailboxes k m)) = mb_size (mailboxes k m) \<longrightarrow>
      rt_mb_send m v k = Some (Returned (- RT_EFULL), k)) \<and>
    (mails (mailboxes k m) = [] \<longrightarrow> rt_mb_recv m 0 k = Some (Returned (- RT_ETIMEOUT), None, k))"
proof -
  have "mb_inv m k" using assms by (simp add: mb_inv_def)
  from mb.run_refines_list [OF this, of script]
  have "\<exists>as k'. fifo_run (mb_try_send m) (mb_try_recv m) script k = Some (as, k') \<and>
      fifo_run (list_enq (mb_size (mailboxes k m))) list_deq script (mails (mailboxes k m)) =
        Some (as, mails (mailboxes k' m)) \<and> kinv 0 k' \<and> mb_ok (mailboxes k' m)"
    by (auto simp: mb_capacity_def mb_mails_def mb_inv_def)
  moreover have "mails (mailboxes k m) = [] \<Longrightarrow> mb_entry (mailboxes k m) = 0"
    by (metis length_mails list.size(3))
  ultimately show ?thesis by (simp add: mb_refused)
qed

lemma mailbox_refines_queue_witness:
  "\<exists>k'. fifo_run (mb_try_send 9) (mb_try_recv 9) [Get, Put 13, Put 14, Get, Get, Get]
     (demo_mb [11, 12] (demo_wait (LMb 9))) =
   Some ([Got 11, Accepted, Refused, Got 12, Got 13, Nothing], k') \<and> mails (mailboxes k' 9) = []"
proof -
  let ?k = "demo_mb [11, 12] (demo_wait (LMb 9))"
  have pre: "kinv 0 ?k" "current_thread ?k = Some 1" "mb_ok (mailboxes ?k 9)"
    using demo_wait_inv [of "LMb 9"] demo_full by simp_all
  let ?s = "[Get, Put 13, Put 14, Get, Get, Get]"
  have "mb_size (mailboxes ?k 9) = 2" "mails (mailboxes ?k 9) = [11, 12]"
    using demo_full(2) by (simp_all add: mb_put_def fresh_mb_def)
  moreover have "fifo_run (list_enq 2) list_deq ?s [11, 12] =
      Some ([Got 11, Accepted, Refused, Got 12, Got 13, Nothing], [])"
    by (simp add: list_enq_def)
  ultimately show ?thesis using mailbox_refines_queue [OF pre, of ?s] by (metis option.inject prod.inject)
qed

section \<open>Handing a mail over\<close>

text \<open>A mail sent to an empty mailbox reaches the receiver that waits first: it becomes
  ready, and when it runs, \<^verbatim>\<open>rt_mb_recv\<close> returns the mail to it, whatever its timeout was.\<close>

theorem mailbox_handoff:
  assumes inv: "kinv 0 k" and cur: "current_thread k = Some t" and ok: "mb_ok (mailboxes k m)"
    and empty: "mails (mailboxes k m) = []" and l: "lists k (LMb m) = w # ws"
    and err: "error_of k w = RT_EOK"
  shows "\<exists>k'. rt_mb_send m v k = Some (Returned RT_EOK, k') \<and> th_ready k' w \<and>
    lists k' (LMb m) = ws \<and>
    (\<exists>k''. mb_recv_resumed m timeout start w (k'\<lparr>current_thread := Some w\<rparr>) =
       Some (Returned RT_EOK, Some v, k'') \<and> mails (mailboxes k'' m) = [])"
proof -
  have "mb_entry (mailboxes k m) = length (mails (mailboxes k m))" by simp
  then have e: "mb_entry (mailboxes k m) = 0" unfolding empty by simp
  have cur': "current_thread k \<noteq> None" using cur by simp
  have space: "mb_entry (mailboxes k m) < mb_size (mailboxes k m)" using ok e by (simp add: mb_ok_def)
  obtain k' where k': "mb_send_end m v k = Some (Returned RT_EOK, k')" "kinv 0 k'"
    "current_thread k' \<noteq> None" "mb_ok (mailboxes k' m)"
    "mails (mailboxes k' m) = mails (mailboxes k m) @ [v]"
    "mb_size (mailboxes k' m) = mb_size (mailboxes k m)"
    "lists k' (LMb m) = tl (lists k (LMb m))" "lists k' (LMbSender m) = lists k (LMbSender m)"
    "\<forall>u. error_of k' u = error_of k u"
    "lists k (LMb m) \<noteq> [] \<longrightarrow> th_ready k' (hd (lists k (LMb m))) \<and>
       (scheduler_lock_nest k = 0 \<longrightarrow> current_top k')"
    "lists k (LMb m) = [] \<longrightarrow> k' = upd_mb m (mb_put v) k"
    by (rule mb_send_end_spec [OF inv cur' ok space])
  let ?k2 = "k'\<lparr>current_thread := Some w\<rparr>"
  have inv2: "kinv 0 ?k2" by (rule kinv_cong [OF k'(2)]) simp_all
  have "0 < length (mails (mailboxes k' m))" using k'(5) by simp
  then have some: "0 < mb_entry (mailboxes ?k2 m)" by simp
  have pre: "current_thread ?k2 \<noteq> None" "mb_ok (mailboxes ?k2 m)" using k'(4) by simp_all
  obtain k3 where k3: "mb_recv_end m ?k2 = Some (Returned RT_EOK, Some (hd (mails (mailboxes ?k2 m))), k3)"
    "kinv 0 k3" "current_thread k3 \<noteq> None" "mb_ok (mailboxes k3 m)"
    "mails (mailboxes k3 m) = tl (mails (mailboxes ?k2 m))"
    "mb_size (mailboxes k3 m) = mb_size (mailboxes ?k2 m)"
    "lists k3 (LMbSender m) = tl (lists ?k2 (LMbSender m))" "lists k3 (LMb m) = lists ?k2 (LMb m)"
    "\<forall>u. error_of k3 u = error_of ?k2 u"
    "lists ?k2 (LMbSender m) \<noteq> [] \<longrightarrow> th_ready k3 (hd (lists ?k2 (LMbSender m))) \<and>
       (scheduler_lock_nest ?k2 = 0 \<longrightarrow> current_top k3)"
    by (rule mb_recv_end_spec [OF inv2 pre some])
  have "rt_mb_send m v k = Some (Returned RT_EOK, k')"
    using space k'(1) by (simp add: rt_mb_send_def rt_mb_send_wait_def mb_send_loop.simps)
  moreover have "mb_recv_resumed m timeout start w ?k2 = Some (Returned RT_EOK, Some v, k3)"
    using some k3(1) k'(5,9) empty err by (simp add: mb_recv_resumed_def mb_recv_loop.simps)
  ultimately show ?thesis using k'(5,7,10) k3(5) empty l by (intro exI [of _ k']) simp
qed

lemma mailbox_handoff_witness:
  "\<exists>k'. rt_mb_send 9 7 (demo_mb [] (demo_wait (LMb 9))) = Some (Returned RT_EOK, k') \<and> th_ready k' 2 \<and>
    lists k' (LMb 9) = [] \<and>
    (\<exists>k''. mb_recv_resumed 9 5 100 2 (k'\<lparr>current_thread := Some 2\<rparr>) =
       Some (Returned RT_EOK, Some 7, k'') \<and> mails (mailboxes k'' 9) = [])"
proof (rule mailbox_handoff)
  show "kinv 0 (demo_mb [] (demo_wait (LMb 9)))" using demo_wait_inv [of "LMb 9"] by simp
  show "error_of (demo_mb [] (demo_wait (LMb 9))) 2 = RT_EOK"
    by (simp add: demo_run_def demo_kernel_def demo_thread_def rt_err_simps)
qed (use fresh_mb_ok in simp_all)

end
