(* ===== verification/Mq.thy ===== *)
theory Mq
  imports Mailbox
begin

text \<open>
  Message queues, \<^verbatim>\<open>rt_mq_*\<close> of \<^verbatim>\<open>rt-thread/src/ipc.c\<close>. The pool is \<open>max_msgs\<close> nodes, each a next
  pointer and \<open>msg_size\<close> bytes; a node is in the linked list of messages, in the free list, or
  in flight: \<^verbatim>\<open>rt_mq_send\<close> and \<^verbatim>\<open>rt_mq_recv\<close> take it out in one critical section, copy the bytes
  with interrupts enabled, and put it back in a second one. The receivers wait in \<open>LMq m\<close>.
\<close>

section \<open>Operations\<close>

definition upd_mq :: "nat \<Rightarrow> (messagequeue \<Rightarrow> messagequeue) \<Rightarrow> kernel \<Rightarrow> kernel" where
  "upd_mq m f k = k\<lparr>msgqueues := (msgqueues k)(m := f (msgqueues k m))\<rparr>"

text \<open>The critical sections, one definition each.\<close>

definition mq_take_free :: "messagequeue \<Rightarrow> (nat \<times> messagequeue) option" where
  "mq_take_free b =
     (case mq_queue_free b of None \<Rightarrow> None
      | Some n \<Rightarrow> Some (n, b\<lparr>mq_queue_free := mq_next b n\<rparr>))"

definition mq_put_free :: "nat \<Rightarrow> messagequeue \<Rightarrow> messagequeue" where
  "mq_put_free n b = b\<lparr>mq_next := (mq_next b)(n := mq_queue_free b), mq_queue_free := Some n\<rparr>"

text \<open>\<^verbatim>\<open>rt_memcpy(msg + 1, buffer, size)\<close>.\<close>

definition mq_fill :: "nat \<Rightarrow> u8 list \<Rightarrow> messagequeue \<Rightarrow> messagequeue" where
  "mq_fill n buf b = b\<lparr>mq_data := (mq_data b)(n := buf @ drop (length buf) (mq_data b n))\<rparr>"

definition mq_link_tail :: "nat \<Rightarrow> messagequeue \<Rightarrow> messagequeue" where
  "mq_link_tail n b =
     (let b1 = (case mq_queue_tail b of None \<Rightarrow> b
                | Some l \<Rightarrow> b\<lparr>mq_next := (mq_next b)(l := Some n)\<rparr>);
          b2 = b1\<lparr>mq_queue_tail := Some n\<rparr>;
          b3 = (if mq_queue_head b2 = None then b2\<lparr>mq_queue_head := Some n\<rparr> else b2)
      in b3\<lparr>mq_entry := mq_entry b3 + 1\<rparr>)"

definition mq_link_head :: "nat \<Rightarrow> messagequeue \<Rightarrow> messagequeue" where
  "mq_link_head n b =
     (let b1 = b\<lparr>mq_next := (mq_next b)(n := mq_queue_head b), mq_queue_head := Some n\<rparr>;
          b2 = (if mq_queue_tail b1 = None then b1\<lparr>mq_queue_tail := Some n\<rparr> else b1)
      in b2\<lparr>mq_entry := mq_entry b2 + 1\<rparr>)"

definition mq_pop_head :: "messagequeue \<Rightarrow> (nat \<times> messagequeue) option" where
  "mq_pop_head b =
     (case mq_queue_head b of None \<Rightarrow> None
      | Some n \<Rightarrow>
          let b1 = b\<lparr>mq_queue_head := mq_next b n\<rparr>
          in Some (n, if mq_queue_tail b1 = Some n then b1\<lparr>mq_queue_tail := None\<rparr> else b1))"

definition mq_unlink :: "messagequeue \<Rightarrow> (nat \<times> messagequeue) option" where
  "mq_unlink b = map_option (\<lambda>(n, b1). (n, b1\<lparr>mq_entry := mq_entry b1 - 1\<rparr>)) (mq_pop_head b)"

text \<open>\<open>data\<close> is what the memory of the pool holds. Sizes are stored in 16 bits.\<close>

definition fresh_mq :: "(nat \<Rightarrow> u8 list) \<Rightarrow> u32 \<Rightarrow> nat \<Rightarrow> u8 \<Rightarrow> messagequeue" where
  "fresh_mq data msg_sz max_msgs flag =
     (let b = \<lparr>mq_next = (\<lambda>_. None), mq_data = data,
            mq_msg_size = unat (RT_ALIGN msg_sz 4) mod 65536, mq_max_msgs = max_msgs mod 65536,
            mq_entry = 0, mq_queue_head = None, mq_queue_tail = None, mq_queue_free = None,
            mq_flag = flag\<rparr>
      in fold mq_put_free [0..<mq_max_msgs b] b)"

definition rt_mq_init ::
    "nat \<Rightarrow> u8 list \<Rightarrow> (nat \<Rightarrow> u8 list) \<Rightarrow> u32 \<Rightarrow> u32 \<Rightarrow> u8 \<Rightarrow> kernel \<Rightarrow> kernel option" where
  "rt_mq_init m name data msg_sz pool_sz flag k = do {
     k1 \<leftarrow> rt_object_init (OMq m) Class_MessageQueue name k;
     let k2 = rt_ipc_object_init (LMq m) k1;
     let max_msgs = unat pool_sz div (unat (RT_ALIGN msg_sz 4) mod 65536 + 4);
     Some (upd_mq m (\<lambda>_. fresh_mq data msg_sz max_msgs flag) k2)
   }"

definition rt_mq_detach :: "nat \<Rightarrow> kernel \<Rightarrow> kernel option" where
  "rt_mq_detach m k = do {
     rt_assert (rt_object_is_systemobject (OMq m) k);
     k1 \<leftarrow> rt_ipc_list_resume_all (LMq m) k;
     Some (rt_object_detach (OMq m) k1)
   }"

definition rt_mq_delete :: "nat \<Rightarrow> kernel \<Rightarrow> kernel option" where
  "rt_mq_delete m k = do {
     rt_assert (interrupt_nest k = 0);
     rt_assert (\<not> rt_object_is_systemobject (OMq m) k);
     k1 \<leftarrow> rt_ipc_list_resume_all (LMq m) k;
     rt_object_delete (OMq m) k1
   }"

definition rt_mq_create ::
    "nat option \<Rightarrow> (nat \<Rightarrow> u8 list) option \<Rightarrow> u8 list \<Rightarrow> u32 \<Rightarrow> nat \<Rightarrow> u8 \<Rightarrow> kernel \<Rightarrow>
     (nat option \<times> kernel) option" where
  "rt_mq_create mem data name msg_sz max_msgs flag k = do {
     rt_assert (interrupt_nest k = 0);
     (ob, k1) \<leftarrow> rt_object_allocate (map_option OMq mem) Class_MessageQueue name k;
     case mem of None \<Rightarrow> Some (None, k1)
     | Some m \<Rightarrow>
         let k2 = rt_ipc_object_init (LMq m) k1 in
         (case data of
            None \<Rightarrow> do { k3 \<leftarrow> rt_mq_delete m k2; Some (None, k3) }
          | Some d \<Rightarrow> Some (Some m, upd_mq m (\<lambda>_. fresh_mq d msg_sz max_msgs flag) k2))
   }"

text \<open>\<^verbatim>\<open>rt_mq_send\<close> and \<^verbatim>\<open>rt_mq_urgent\<close>, with no other thread running between their critical
  sections; \<open>mq_step\<close> below has the sections interleaved. \<open>buf\<close> is the \<^verbatim>\<open>size\<close> bytes to send.\<close>

definition rt_mq_send :: "nat \<Rightarrow> u8 list \<Rightarrow> kernel \<Rightarrow> (rt_err \<times> kernel) option" where
  "rt_mq_send m buf k = do {
     rt_assert (buf \<noteq> []);
     if length buf > mq_msg_size (msgqueues k m) then Some (- RT_ERROR, k)
     else case mq_take_free (msgqueues k m) of
       None \<Rightarrow> Some (- RT_EFULL, k)
     | Some (n, b1) \<Rightarrow> do {
         let b2 = mq_fill n buf (b1\<lparr>mq_next := (mq_next b1)(n := None)\<rparr>);
         k1 \<leftarrow> wake_and_schedule (LMq m) (upd_mq m (\<lambda>_. mq_link_tail n b2) k);
         Some (RT_EOK, k1)
       }
   }"

definition rt_mq_urgent :: "nat \<Rightarrow> u8 list \<Rightarrow> kernel \<Rightarrow> (rt_err \<times> kernel) option" where
  "rt_mq_urgent m buf k = do {
     rt_assert (buf \<noteq> []);
     if length buf > mq_msg_size (msgqueues k m) then Some (- RT_ERROR, k)
     else case mq_take_free (msgqueues k m) of
       None \<Rightarrow> Some (- RT_EFULL, k)
     | Some (n, b1) \<Rightarrow> do {
         let b2 = mq_fill n buf b1;
         k1 \<leftarrow> wake_and_schedule (LMq m) (upd_mq m (\<lambda>_. mq_link_head n b2) k);
         Some (RT_EOK, k1)
       }
   }"

text \<open>The end of \<^verbatim>\<open>rt_mq_recv\<close>, after its loop: the bytes copied into the buffer.\<close>

definition mq_recv_end :: "nat \<Rightarrow> nat \<Rightarrow> kernel \<Rightarrow> (outcome \<times> u8 list option \<times> kernel) option" where
  "mq_recv_end m sz k = do {
     (n, b1) \<leftarrow> mq_unlink (msgqueues k m);
     let got = take (if sz > mq_msg_size b1 then mq_msg_size b1 else sz) (mq_data b1 n);
     Some (Returned RT_EOK, Some got, upd_mq m (\<lambda>_. mq_put_free n b1) k)
   }"

partial_function (option) mq_recv_loop ::
    "nat \<Rightarrow> nat \<Rightarrow> int \<Rightarrow> nat option \<Rightarrow> kernel \<Rightarrow> (outcome \<times> u8 list option \<times> kernel) option" where
  "mq_recv_loop m sz timeout th k =
     (if mq_entry (msgqueues k m) = 0
      then if \<not> in_thread_context k then None
      else Option.bind th (\<lambda>t.
        let k1 = set_error t RT_EOK k in
        if timeout = 0 then Some (Returned (- RT_ETIMEOUT), None, set_error t (- RT_ETIMEOUT) k1)
        else Option.bind (suspend_current (LMq m) (mq_flag (msgqueues k1 m)) timeout t k1)
          (\<lambda>k2. if current_thread k2 = Some t
             then if error_of k2 t \<noteq> RT_EOK then Some (Returned (error_of k2 t), None, k2)
                  else mq_recv_loop m sz (remaining_timeout timeout (tick k1) k2) th k2
             else Some (Blocked, None, k2)))
      else mq_recv_end m sz k)"

definition mq_recv_resumed ::
    "nat \<Rightarrow> nat \<Rightarrow> int \<Rightarrow> u32 \<Rightarrow> nat \<Rightarrow> kernel \<Rightarrow> (outcome \<times> u8 list option \<times> kernel) option" where
  "mq_recv_resumed m sz timeout start t k =
     (if error_of k t \<noteq> RT_EOK then Some (Returned (error_of k t), None, k)
      else mq_recv_loop m sz (remaining_timeout timeout start k) (Some t) k)"

definition rt_mq_recv ::
    "nat \<Rightarrow> nat \<Rightarrow> int \<Rightarrow> kernel \<Rightarrow> (outcome \<times> u8 list option \<times> kernel) option" where
  "rt_mq_recv m sz timeout k = do {
     rt_assert (sz \<noteq> 0);
     if mq_entry (msgqueues k m) = 0 \<and> timeout = 0 then Some (Returned (- RT_ETIMEOUT), None, k)
     else mq_recv_loop m sz timeout (rt_thread_self k) k
   }"

text \<open>The loop of \<^verbatim>\<open>rt_mq_control\<close> that gives all messages back to the free list.\<close>

partial_function (option) mq_drain :: "messagequeue \<Rightarrow> messagequeue option" where
  "mq_drain b =
     (case mq_pop_head b of None \<Rightarrow> Some b
      | Some (n, b1) \<Rightarrow> mq_drain (mq_put_free n b1))"

definition rt_mq_control :: "nat \<Rightarrow> nat \<Rightarrow> kernel \<Rightarrow> (rt_err \<times> kernel) option" where
  "rt_mq_control m cmd k =
     (if cmd = 1
      then do {
        k1 \<leftarrow> rt_ipc_list_resume_all (LMq m) k;
        b \<leftarrow> mq_drain (msgqueues k1 m);
        k2 \<leftarrow> rt_schedule (upd_mq m (\<lambda>_. b\<lparr>mq_entry := 0\<rparr>) k1);
        Some (RT_EOK, k2)
      }
      else Some (- RT_ERROR, k))"

section \<open>The linked lists\<close>

fun chain :: "(nat \<Rightarrow> nat option) \<Rightarrow> nat option \<Rightarrow> nat list \<Rightarrow> bool" where
  "chain nx p [] = (p = None)"
| "chain nx p (x # xs) = (p = Some x \<and> chain nx (nx x) xs)"

fun walk :: "(nat \<Rightarrow> nat option) \<Rightarrow> nat option \<Rightarrow> nat \<Rightarrow> nat list" where
  "walk nx p 0 = []"
| "walk nx None (Suc n) = []"
| "walk nx (Some a) (Suc n) = a # walk nx (nx a) n"

lemma walk_chain: "chain nx p xs \<Longrightarrow> walk nx p (length xs) = xs"
  by (induction xs arbitrary: p) auto

lemma chain_upd_out: "n \<notin> set xs \<Longrightarrow> chain (nx(n := v)) p xs = chain nx p xs"
  by (induction xs arbitrary: p) auto

lemma chain_upd_last:
  "chain nx p xs \<Longrightarrow> xs \<noteq> [] \<Longrightarrow> distinct xs \<Longrightarrow> n \<notin> set xs \<Longrightarrow> nx n = None \<Longrightarrow>
     chain (nx(last xs := Some n)) p (xs @ [n])"
proof (induction xs arbitrary: p)
  case (Cons x xs)
  then show ?case by (cases "xs = []") (auto simp: chain_upd_out)
qed simp

text \<open>The queue \<open>b\<close> holds the messages \<open>q\<close>, from oldest to newest, and the free nodes \<open>f\<close>; the
  nodes \<open>F\<close> are in flight. Every node of the pool is in exactly one of the three.\<close>

definition mq_rep :: "messagequeue \<Rightarrow> nat set \<Rightarrow> nat list \<Rightarrow> nat list \<Rightarrow> bool" where
  "mq_rep b F q f \<longleftrightarrow> chain (mq_next b) (mq_queue_head b) q \<and> chain (mq_next b) (mq_queue_free b) f \<and>
     mq_queue_tail b = (if q = [] then None else Some (last q)) \<and>
     distinct (q @ f) \<and> F \<inter> set (q @ f) = {} \<and> F \<union> set (q @ f) = {..<mq_max_msgs b} \<and>
     mq_entry b = length q \<and> (\<forall>n < mq_max_msgs b. length (mq_data b n) = mq_msg_size b) \<and>
     flag_ok (mq_flag b)"

definition mq_ok :: "messagequeue \<Rightarrow> nat set \<Rightarrow> bool" where
  "mq_ok b F \<longleftrightarrow> (\<exists>q f. mq_rep b F q f)"

text \<open>The messages in the order in which they are received.\<close>

definition messages :: "messagequeue \<Rightarrow> u8 list list" where
  "messages b = map (mq_data b) (walk (mq_next b) (mq_queue_head b) (mq_entry b))"

lemma rep_messages: "mq_rep b F q f \<Longrightarrow> messages b = map (mq_data b) q"
  unfolding messages_def mq_rep_def using walk_chain by metis

lemma rep_in_pool: "mq_rep b F q f \<Longrightarrow> n \<in> F \<or> n \<in> set q \<or> n \<in> set f \<Longrightarrow> n < mq_max_msgs b"
  unfolding mq_rep_def by auto

lemma take_free_rep:
  assumes r: "mq_rep b F q f"
  shows "f = [] \<and> mq_take_free b = None \<or>
    (\<exists>n f' b'. f = n # f' \<and> mq_take_free b = Some (n, b') \<and> mq_rep b' (insert n F) q f' \<and>
       n \<notin> F \<and> messages b' = messages b \<and> mq_msg_size b' = mq_msg_size b \<and>
       mq_max_msgs b' = mq_max_msgs b)"
proof (cases f)
  case Nil
  then show ?thesis using r by (simp add: mq_rep_def mq_take_free_def)
next
  case (Cons n f')
  let ?b = "b\<lparr>mq_queue_free := mq_next b n\<rparr>"
  have rep: "mq_rep ?b (insert n F) q f'" using r Cons by (auto simp: mq_rep_def)
  have "messages ?b = messages b" using rep_messages [OF r] rep_messages [OF rep] by simp
  then show ?thesis
    using Cons r rep by (auto simp: mq_take_free_def mq_rep_def)
qed

lemma put_free_rep:
  assumes r: "mq_rep b F q f" and n: "n \<in> F"
  shows "mq_rep (mq_put_free n b) (F - {n}) q (n # f)" "messages (mq_put_free n b) = messages b"
proof -
  have out: "n \<notin> set q" "n \<notin> set f" using r n by (auto simp: mq_rep_def)
  then show 1: "mq_rep (mq_put_free n b) (F - {n}) q (n # f)"
    using r n by (auto simp: mq_rep_def mq_put_free_def chain_upd_out)
  show "messages (mq_put_free n b) = messages b"
    using rep_messages [OF r] rep_messages [OF 1] by (simp add: mq_put_free_def)
qed

lemma fill_rep:
  assumes r: "mq_rep b F q f" and n: "n \<in> F" and len: "length buf \<le> mq_msg_size b"
  shows "mq_rep (mq_fill n buf b) F q f" "messages (mq_fill n buf b) = messages b"
proof -
  have out: "n \<notin> set q" "n < mq_max_msgs b" using r n rep_in_pool [OF r] by (auto simp: mq_rep_def)
  show 1: "mq_rep (mq_fill n buf b) F q f"
    using r len by (simp add: mq_rep_def mq_fill_def)
  show "messages (mq_fill n buf b) = messages b"
    using rep_messages [OF r] rep_messages [OF 1] out by (simp add: mq_fill_def)
qed

lemma clear_next_rep:
  assumes r: "mq_rep b F q f" and n: "n \<in> F"
  shows "mq_rep (b\<lparr>mq_next := (mq_next b)(n := None)\<rparr>) F q f" (is "mq_rep ?b F q f")
    and "messages (b\<lparr>mq_next := (mq_next b)(n := None)\<rparr>) = messages b"
proof -
  have out: "n \<notin> set q" "n \<notin> set f" using r n by (auto simp: mq_rep_def)
  then show 1: "mq_rep ?b F q f" using r by (simp add: mq_rep_def chain_upd_out)
  show "messages ?b = messages b" using rep_messages [OF r] rep_messages [OF 1] by simp
qed

lemma link_tail_rep:
  assumes r: "mq_rep b F q f" and n: "n \<in> F" and nx: "mq_next b n = None"
  shows "mq_rep (mq_link_tail n b) (F - {n}) (q @ [n]) f"
    "messages (mq_link_tail n b) = messages b @ [mq_data b n]"
proof -
  have out: "n \<notin> set q" "n \<notin> set f" using r n by (auto simp: mq_rep_def)
  show 1: "mq_rep (mq_link_tail n b) (F - {n}) (q @ [n]) f"
  proof (cases "q = []")
    case True
    then show ?thesis
      using r n out nx by (auto simp: mq_rep_def mq_link_tail_def Let_def)
  next
    case False
    then obtain x where h: "mq_queue_head b = Some x" using r by (cases q) (auto simp: mq_rep_def)
    have "last q \<in> set q" using False by simp
    then have "last q \<notin> set f" using r by (auto simp: mq_rep_def)
    then show ?thesis
      using r n out nx False h chain_upd_last [of "mq_next b" "mq_queue_head b" q n]
      by (auto simp: mq_rep_def mq_link_tail_def Let_def chain_upd_out)
  qed
  have "mq_data (mq_link_tail n b) = mq_data b"
    by (simp add: mq_link_tail_def Let_def split: option.split)
  then show "messages (mq_link_tail n b) = messages b @ [mq_data b n]"
    using rep_messages [OF r] rep_messages [OF 1] by simp
qed

lemma link_head_rep:
  assumes r: "mq_rep b F q f" and n: "n \<in> F"
  shows "mq_rep (mq_link_head n b) (F - {n}) (n # q) f"
    "messages (mq_link_head n b) = mq_data b n # messages b"
proof -
  have out: "n \<notin> set q" "n \<notin> set f" using r n by (auto simp: mq_rep_def)
  then show 1: "mq_rep (mq_link_head n b) (F - {n}) (n # q) f"
    using r n by (auto simp: mq_rep_def mq_link_head_def Let_def chain_upd_out)
  have "mq_data (mq_link_head n b) = mq_data b" by (simp add: mq_link_head_def Let_def)
  then show "messages (mq_link_head n b) = mq_data b n # messages b"
    using rep_messages [OF r] rep_messages [OF 1] by simp
qed

lemma unlink_rep:
  assumes r: "mq_rep b F q f"
  shows "q = [] \<and> mq_unlink b = None \<or>
    (\<exists>n q' b'. q = n # q' \<and> mq_unlink b = Some (n, b') \<and> mq_rep b' (insert n F) q' f \<and> n \<notin> F \<and>
       messages b = mq_data b' n # messages b' \<and> mq_msg_size b' = mq_msg_size b)"
proof (cases q)
  case Nil
  then show ?thesis using r by (simp add: mq_rep_def mq_unlink_def mq_pop_head_def)
next
  case (Cons n q')
  let ?b1 = "b\<lparr>mq_queue_head := mq_next b n\<rparr>"
  let ?b2 = "if mq_queue_tail ?b1 = Some n then ?b1\<lparr>mq_queue_tail := None\<rparr> else ?b1"
  let ?b = "?b2\<lparr>mq_entry := mq_entry ?b2 - 1\<rparr>"
  have u: "mq_unlink b = Some (n, ?b)"
    using r Cons by (simp add: mq_rep_def mq_unlink_def mq_pop_head_def Let_def)
  have t: "mq_queue_tail b = Some n \<longleftrightarrow> q' = []"
    using r Cons by (cases q' rule: rev_cases) (auto simp: mq_rep_def)
  have rep: "mq_rep ?b (insert n F) q' f"
    using r Cons t by (auto simp: mq_rep_def)
  have "messages b = mq_data ?b n # messages ?b"
    using rep_messages [OF r] rep_messages [OF rep] Cons by simp
  then show ?thesis using u rep r Cons by (auto simp: mq_rep_def)
qed

section \<open>Interleaved critical sections\<close>

text \<open>
  What threads that use one queue at the same time can do to it, one uninterrupted step at a
  time. \<open>S\<close> says for each node in flight that a sender has how far its call of \<^verbatim>\<open>rt_mq_send\<close> or
  \<^verbatim>\<open>rt_mq_urgent\<close> (\<open>True\<close>) is and what its buffer holds, \<open>R\<close> the same for receivers and the size of their
  buffer. A step may be visible as an event of the queue; a receiver takes a message when it unlinks the
  node, and gets its bytes when it copies them.
\<close>

datatype mq_sender = Taken bool "u8 list" | Cleared "u8 list" | Filled bool "u8 list"

datatype mq_receiver = Holds nat | Copied_out

datatype mq_event = Internal | Sent "u8 list" | SentFirst "u8 list" | Takes nat | Copies nat nat "u8 list"

type_synonym mq_conc = "messagequeue \<times> (nat \<rightharpoonup> mq_sender) \<times> (nat \<rightharpoonup> mq_receiver)"

inductive mq_step :: "mq_conc \<Rightarrow> mq_event \<Rightarrow> mq_conc \<Rightarrow> bool" where
  take_free: "buf \<noteq> [] \<Longrightarrow> \<not> length buf > mq_msg_size b \<Longrightarrow> mq_take_free b = Some (n, b') \<Longrightarrow>
    mq_step (b, S, R) Internal (b', S(n \<mapsto> Taken urgent buf), R)"
| clear_next: "S n = Some (Taken False buf) \<Longrightarrow>
    mq_step (b, S, R) Internal (b\<lparr>mq_next := (mq_next b)(n := None)\<rparr>, S(n \<mapsto> Cleared buf), R)"
| fill: "S n = Some (Cleared buf) \<Longrightarrow>
    mq_step (b, S, R) Internal (mq_fill n buf b, S(n \<mapsto> Filled False buf), R)"
| fill_urgent: "S n = Some (Taken True buf) \<Longrightarrow>
    mq_step (b, S, R) Internal (mq_fill n buf b, S(n \<mapsto> Filled True buf), R)"
| link_tail: "S n = Some (Filled False buf) \<Longrightarrow>
    mq_step (b, S, R) (Sent buf) (mq_link_tail n b, S(n := None), R)"
| link_head: "S n = Some (Filled True buf) \<Longrightarrow>
    mq_step (b, S, R) (SentFirst buf) (mq_link_head n b, S(n := None), R)"
| unlink: "sz \<noteq> 0 \<Longrightarrow> mq_unlink b = Some (n, b') \<Longrightarrow>
    mq_step (b, S, R) (Takes n) (b', S, R(n \<mapsto> Holds sz))"
| copy: "R n = Some (Holds sz) \<Longrightarrow>
    mq_step (b, S, R) (Copies n sz (take (if sz > mq_msg_size b then mq_msg_size b else sz) (mq_data b n)))
      (b, S, R(n \<mapsto> Copied_out))"
| put_free: "R n = Some Copied_out \<Longrightarrow>
    mq_step (b, S, R) Internal (mq_put_free n b, S, R(n := None))"

inductive mq_run :: "mq_conc \<Rightarrow> mq_event list \<Rightarrow> mq_conc \<Rightarrow> bool" where
  start: "mq_run s [] s"
| step: "mq_run s es s' \<Longrightarrow> mq_step s' e s'' \<Longrightarrow> mq_run s (es @ [e]) s''"

inductive_cases mq_stepE: "mq_step (b, S, R) e s'"

text \<open>With no other thread in between, the steps of a sender are what \<^verbatim>\<open>rt_mq_send\<close> does to the queue.\<close>

lemma send_is_run:
  assumes "buf \<noteq> []" "length buf \<le> mq_msg_size b" "mq_take_free b = Some (n, b1)"
  shows "mq_run (b, Map.empty, Map.empty) [Internal, Internal, Internal, Sent buf]
    (mq_link_tail n (mq_fill n buf (b1\<lparr>mq_next := (mq_next b1)(n := None)\<rparr>)), Map.empty, Map.empty)"
proof -
  let ?b2 = "b1\<lparr>mq_next := (mq_next b1)(n := None)\<rparr>"
  have 1: "mq_step (b, Map.empty, Map.empty) Internal (b1, [n \<mapsto> Taken False buf], Map.empty)"
    by (rule mq_step.take_free) (use assms in auto)
  have 2: "mq_step (b1, [n \<mapsto> Taken False buf], Map.empty) Internal (?b2, [n \<mapsto> Cleared buf], Map.empty)"
    using mq_step.clear_next [of "[n \<mapsto> Taken False buf]" n buf b1 Map.empty] by simp
  have 3: "mq_step (?b2, [n \<mapsto> Cleared buf], Map.empty) Internal (mq_fill n buf ?b2, [n \<mapsto> Filled False buf], Map.empty)"
    using mq_step.fill [of "[n \<mapsto> Cleared buf]" n buf ?b2 Map.empty] by simp
  have 4: "mq_step (mq_fill n buf ?b2, [n \<mapsto> Filled False buf], Map.empty) (Sent buf)
      (mq_link_tail n (mq_fill n buf ?b2), Map.empty, Map.empty)"
    using mq_step.link_tail [of "[n \<mapsto> Filled False buf]" n buf "mq_fill n buf ?b2" Map.empty] by simp
  show ?thesis
    using mq_run.step [OF mq_run.step [OF mq_run.step [OF mq_run.step [OF mq_run.start 1] 2] 3] 4] by simp
qed

text \<open>The abstract queue: the buffers sent, and for each receiver that has taken a message and not copied it,
  under the number of its node, that message. A receiver with a buffer of \<open>sz\<close> bytes gets as much as fits of
  the \<open>msz\<close> bytes of a message; they begin with the bytes that were sent.\<close>

fun queue_event :: "nat \<Rightarrow> mq_event \<Rightarrow> u8 list list \<times> (nat \<rightharpoonup> u8 list) \<Rightarrow> (u8 list list \<times> (nat \<rightharpoonup> u8 list)) option" where
  "queue_event msz Internal (q, p) = Some (q, p)"
| "queue_event msz (Sent d) (q, p) = Some (q @ [d], p)"
| "queue_event msz (SentFirst d) (q, p) = Some (d # q, p)"
| "queue_event msz (Takes n) (q, p) = (case q of [] \<Rightarrow> None | x # q' \<Rightarrow> Some (q', p(n \<mapsto> x)))"
| "queue_event msz (Copies n sz got) (q, p) =
     (case p n of
        None \<Rightarrow> None
      | Some x \<Rightarrow> if length got = min sz msz \<and> take (length x) got = take (length got) x
                  then Some (q, p(n := None)) else None)"

definition queue_events ::
    "nat \<Rightarrow> mq_event list \<Rightarrow> u8 list list \<times> (nat \<rightharpoonup> u8 list) \<Rightarrow> (u8 list list \<times> (nat \<rightharpoonup> u8 list)) option" where
  "queue_events msz es a = fold (\<lambda>e r. Option.bind r (queue_event msz e)) es (Some a)"

definition begins :: "u8 list \<Rightarrow> u8 list \<Rightarrow> bool" where
  "begins x d \<longleftrightarrow> take (length x) d = x"

fun sender_ok :: "messagequeue \<Rightarrow> nat \<Rightarrow> mq_sender \<Rightarrow> bool" where
  "sender_ok b n (Taken urgent buf) = (length buf \<le> mq_msg_size b)"
| "sender_ok b n (Cleared buf) = (length buf \<le> mq_msg_size b \<and> mq_next b n = None)"
| "sender_ok b n (Filled urgent buf) = (begins buf (mq_data b n) \<and> (urgent \<or> mq_next b n = None))"

fun conc_rel :: "mq_conc \<Rightarrow> u8 list list \<times> (nat \<rightharpoonup> u8 list) \<Rightarrow> bool" where
  "conc_rel (b, S, R) (q, p) \<longleftrightarrow> mq_ok b (dom S \<union> dom R) \<and> dom S \<inter> dom R = {} \<and>
     list_all2 begins q (messages b) \<and> (\<forall>n s. S n = Some s \<longrightarrow> sender_ok b n s) \<and>
     (\<forall>n. (\<exists>sz. R n = Some (Holds sz)) \<longleftrightarrow> p n \<noteq> None) \<and> (\<forall>n x. p n = Some x \<longrightarrow> begins x (mq_data b n))"

lemma mq_data_steps [simp]:
  "mq_data (mq_link_tail n b) = mq_data b" "mq_data (mq_link_head n b) = mq_data b"
  "mq_data (mq_put_free n b) = mq_data b"
  "mq_msg_size (mq_link_tail n b) = mq_msg_size b" "mq_msg_size (mq_link_head n b) = mq_msg_size b"
  "mq_msg_size (mq_put_free n b) = mq_msg_size b" "mq_msg_size (mq_fill n buf b) = mq_msg_size b"
  "mq_next (mq_fill n buf b) = mq_next b"
  by (simp_all add: mq_link_tail_def mq_link_head_def mq_put_free_def mq_fill_def Let_def split: option.split)

lemma mq_next_steps:
  "i \<noteq> n \<Longrightarrow> mq_next (mq_link_head n b) i = mq_next b i" "i \<noteq> n \<Longrightarrow> mq_next (mq_put_free n b) i = mq_next b i"
  "mq_queue_tail b \<noteq> Some i \<Longrightarrow> mq_next (mq_link_tail n b) i = mq_next b i"
  by (auto simp: mq_link_tail_def mq_link_head_def mq_put_free_def Let_def split: option.split)

lemma sender_ok_frame:
  "sender_ok b n s \<Longrightarrow> mq_msg_size b' = mq_msg_size b \<Longrightarrow> mq_next b' n = mq_next b n \<Longrightarrow> mq_data b' n = mq_data b n \<Longrightarrow>
   sender_ok b' n s"
  by (cases s) auto

lemma fill_begins: "length buf \<le> mq_msg_size b \<Longrightarrow> begins buf (mq_data (mq_fill n buf b) n)"
  by (simp add: begins_def mq_fill_def)

text \<open>Every step is one of the abstract queue.\<close>

lemma mq_step_sim:
  assumes rel: "conc_rel (b, S, R) (q, p)" and st: "mq_step (b, S, R) e s'"
  shows "mq_msg_size (fst s') = mq_msg_size b \<and> (\<exists>a'. queue_event (mq_msg_size b) e (q, p) = Some a' \<and> conc_rel s' a')"
proof -
  from rel obtain l f where r: "mq_rep b (dom S \<union> dom R) l f" and dis: "dom S \<inter> dom R = {}"
    and qs: "list_all2 begins q (messages b)" and snd_ok: "\<And>n s. S n = Some s \<Longrightarrow> sender_ok b n s"
    and hold: "\<And>n. (\<exists>sz. R n = Some (Holds sz)) \<longleftrightarrow> p n \<noteq> None"
    and held: "\<And>n x. p n = Some x \<Longrightarrow> begins x (mq_data b n)" by (auto simp: mq_ok_def)
  have pR: "p n = None" if "n \<notin> dom R" for n using hold [of n] that by auto
  have filled: "conc_rel (mq_fill n buf b, S(n \<mapsto> Filled u buf), R) (q, p)"
    if n: "n \<in> dom S" and len: "length buf \<le> mq_msg_size b" and nx: "u \<or> mq_next b n = None" for n buf u
  proof -
    have "sender_ok (mq_fill n buf b) i s" if "(S(n \<mapsto> Filled u buf)) i = Some s" for i s
      using that snd_ok [of i s] fill_begins [OF len, of n] nx
      by (cases "i = n") (auto intro: sender_ok_frame simp: mq_fill_def)
    moreover have "begins x (mq_data (mq_fill n buf b) i)" if "p i = Some x" for i x
    proof -
      have "i \<noteq> n" using that n pR [of i] dis by auto
      then show ?thesis using held [OF that] by (simp add: mq_fill_def)
    qed
    moreover have "mq_ok (mq_fill n buf b) (dom S \<union> dom R)" "messages (mq_fill n buf b) = messages b"
      using fill_rep [OF r _ len, of n] n by (auto simp: mq_ok_def)
    ultimately show ?thesis using n dis qs hold by (simp add: insert_absorb)
  qed
  from st show ?thesis
  proof (cases rule: mq_stepE [consumes 1])
    case (1 buf n b' urgent)
    from take_free_rep [OF r] 1(5) obtain f' where
      t: "mq_rep b' (insert n (dom S \<union> dom R)) l f'" "n \<notin> dom S \<union> dom R" "messages b' = messages b" by auto
    have same: "mq_data b' = mq_data b" "mq_next b' = mq_next b" "mq_msg_size b' = mq_msg_size b"
      using 1(5) by (auto simp: mq_take_free_def split: option.splits)
    have "sender_ok b' i s" if "(S(n \<mapsto> Taken urgent buf)) i = Some s" for i s
      using that snd_ok [of i s] 1(4) same by (cases "i = n") (auto intro: sender_ok_frame)
    moreover have "mq_ok b' (insert n (dom S \<union> dom R))" using t(1) by (auto simp: mq_ok_def)
    ultimately show ?thesis
      using 1(1,2) t(2,3) dis qs hold held same by (simp add: insert_commute)
  next
    case (2 n buf)
    have n: "n \<in> dom S" using 2 by auto
    let ?b = "b\<lparr>mq_next := (mq_next b)(n := None)\<rparr>"
    have "sender_ok ?b i s" if "(S(n \<mapsto> Cleared buf)) i = Some s" for i s
      using that snd_ok [of i s] snd_ok [OF 2(3)] by (cases "i = n") (auto intro: sender_ok_frame)
    moreover have "mq_ok ?b (dom S \<union> dom R)" "messages ?b = messages b"
      using clear_next_rep [OF r, of n] n by (auto simp: mq_ok_def)
    ultimately show ?thesis using 2(1,2) n dis qs hold held by (simp add: insert_absorb)
  next
    case (3 n buf)
    have n: "n \<in> dom S" and len: "length buf \<le> mq_msg_size b" and nx: "mq_next b n = None"
      using 3 snd_ok [OF 3(3)] by auto
    show ?thesis using 3(1,2) filled [OF n len, of False] nx by simp
  next
    case (4 n buf)
    have n: "n \<in> dom S" and len: "length buf \<le> mq_msg_size b" using 4 snd_ok [OF 4(3)] by auto
    show ?thesis using 4(1,2) filled [OF n len, of True] by simp
  next
    case (5 n buf)
    have n: "n \<in> dom S" and ok: "begins buf (mq_data b n)" "mq_next b n = None" using 5 snd_ok [OF 5(3)] by auto
    have "dom (S(n := None)) \<union> dom R = dom S \<union> dom R - {n}" using n dis by auto
    moreover have "mq_ok (mq_link_tail n b) (dom S \<union> dom R - {n})" "messages (mq_link_tail n b) = messages b @ [mq_data b n]"
      using link_tail_rep [OF r, of n] n ok(2) by (auto simp: mq_ok_def)
    moreover have "sender_ok (mq_link_tail n b) i s" if "(S(n := None)) i = Some s" for i s
    proof -
      have i: "i \<noteq> n" "i \<in> dom S" "S i = Some s" using that by (auto split: if_splits)
      then have "mq_queue_tail b \<noteq> Some i" using r by (cases l rule: rev_cases) (auto simp: mq_rep_def)
      then show ?thesis using snd_ok [OF i(3)] by (auto intro: sender_ok_frame simp: mq_next_steps)
    qed
    moreover have "list_all2 begins (q @ [buf]) (messages b @ [mq_data b n])"
      using qs ok(1) by (simp add: list_all2_appendI)
    ultimately show ?thesis using 5(1,2) dis hold held by auto
  next
    case (6 n buf)
    have n: "n \<in> dom S" and ok: "begins buf (mq_data b n)" using 6 snd_ok [OF 6(3)] by auto
    have "dom (S(n := None)) \<union> dom R = dom S \<union> dom R - {n}" using n dis by auto
    moreover have "mq_ok (mq_link_head n b) (dom S \<union> dom R - {n})" "messages (mq_link_head n b) = mq_data b n # messages b"
      using link_head_rep [OF r, of n] n by (auto simp: mq_ok_def)
    moreover have "sender_ok (mq_link_head n b) i s" if "(S(n := None)) i = Some s" for i s
      using that snd_ok [of i s] by (auto intro: sender_ok_frame simp: mq_next_steps split: if_splits)
    moreover have "list_all2 begins (buf # q) (mq_data b n # messages b)" using qs ok by simp
    ultimately show ?thesis using 6(1,2) dis hold held by auto
  next
    case (7 sz n b')
    from unlink_rep [OF r] 7(4) obtain l' where
      t: "mq_rep b' (insert n (dom S \<union> dom R)) l' f" "n \<notin> dom S \<union> dom R" "messages b = mq_data b' n # messages b'"
      by auto
    have same: "mq_data b' = mq_data b" "mq_next b' = mq_next b" "mq_msg_size b' = mq_msg_size b"
      using 7(4) by (auto simp: mq_unlink_def mq_pop_head_def Let_def split: option.splits if_splits)
    obtain x q' where q: "q = x # q'" "begins x (mq_data b n)" "list_all2 begins q' (messages b')"
      using qs t(3) same by (cases q) auto
    have "sender_ok b' i s" if "S i = Some s" for i s
      using snd_ok [OF that] same by (auto intro: sender_ok_frame)
    moreover have "mq_ok b' (insert n (dom S \<union> dom R))" using t(1) by (auto simp: mq_ok_def)
    ultimately show ?thesis
      using 7(1,2) t(2) dis q hold held same by (simp add: Un_insert_right)
  next
    case (8 n sz)
    obtain x where x: "p n = Some x" "begins x (mq_data b n)" using hold [of n] held 8(3) by blast
    have nR: "n \<in> dom R" using 8(3) by auto
    then have "length (mq_data b n) = mq_msg_size b" using r rep_in_pool [OF r, of n] by (auto simp: mq_rep_def)
    then have "length (take (if sz > mq_msg_size b then mq_msg_size b else sz) (mq_data b n)) = min sz (mq_msg_size b)"
      by simp
    moreover have "take (length x) (take k (mq_data b n)) = take (length (take k (mq_data b n))) x" for k
    proof -
      have "take (length x) (take k (mq_data b n)) = take k x"
        using x(2) unfolding begins_def by (metis take_take min.commute)
      moreover have "length x \<le> length (mq_data b n)" using x(2) unfolding begins_def by (metis length_take min.cobounded1)
      then have "take (length (take k (mq_data b n))) x = take k x" by (cases "k \<le> length x") simp_all
      ultimately show ?thesis by simp
    qed
    moreover have "(\<exists>sz'. (R(n \<mapsto> Copied_out)) i = Some (Holds sz')) \<longleftrightarrow> (p(n := None)) i \<noteq> None" for i
      using hold [of i] by simp
    ultimately show ?thesis
      using 8(1,2) x(1) nR dis qs held r snd_ok by (simp add: mq_ok_def insert_absorb) blast
  next
    case (9 n)
    have n: "n \<in> dom R" and pn: "p n = None" using 9(3) hold [of n] by auto
    have "dom S \<union> dom (R(n := None)) = dom S \<union> dom R - {n}" using n dis by auto
    moreover have "mq_ok (mq_put_free n b) (dom S \<union> dom R - {n})" "messages (mq_put_free n b) = messages b"
      using put_free_rep [OF r, of n] n by (auto simp: mq_ok_def)
    moreover have "sender_ok (mq_put_free n b) i s" if "S i = Some s" for i s
    proof -
      have "i \<noteq> n" using that n dis by auto
      then show ?thesis using snd_ok [OF that] by (auto intro: sender_ok_frame simp: mq_next_steps)
    qed
    moreover have "(\<exists>sz'. (R(n := None)) i = Some (Holds sz')) \<longleftrightarrow> p i \<noteq> None" for i
      using hold [of i] pn by simp
    ultimately show ?thesis using 9(1,2) dis qs held by auto
  qed
qed

text \<open>C14: however the critical sections and the copying of concurrent \<^verbatim>\<open>rt_mq_send\<close>, \<^verbatim>\<open>rt_mq_urgent\<close> and
  \<^verbatim>\<open>rt_mq_recv\<close> calls interleave, no node is lost or linked twice, the receivers take the messages in the
  order of the abstract queue of the buffers sent, and every receiver copies the bytes that were sent to it,
  as many as its buffer and the message have room for.\<close>

theorem mq_interleaving:
  assumes run: "mq_run (b, Map.empty, Map.empty) es (b', S, R)" and ok: "mq_ok b {}"
  shows "mq_ok b' (dom S \<union> dom R) \<and>
    (\<exists>q p. queue_events (mq_msg_size b) es (messages b, Map.empty) = Some (q, p) \<and>
      list_all2 begins q (messages b') \<and> (\<forall>n. (\<exists>sz. R n = Some (Holds sz)) \<longleftrightarrow> p n \<noteq> None) \<and>
      (\<forall>n x. p n = Some x \<longrightarrow> begins x (mq_data b' n)))"
proof -
  have sim: "\<exists>a'. queue_events (mq_msg_size (fst s)) es a = Some a' \<and> conc_rel s' a' \<and> mq_msg_size (fst s') = mq_msg_size (fst s)"
    if "mq_run s es s'" "conc_rel s a" for s es s' a
    using that
  proof (induction rule: mq_run.induct)
    case (start s)
    then show ?case by (simp add: queue_events_def)
  next
    case (step s es s' e s'')
    then obtain a' where a': "queue_events (mq_msg_size (fst s)) es a = Some a'" "conc_rel s' a'"
        "mq_msg_size (fst s') = mq_msg_size (fst s)" by blast
    obtain c S R q p where s': "s' = (c, S, R)" "a' = (q, p)" by (metis prod_cases3 surj_pair)
    have rel: "conc_rel (c, S, R) (q, p)" and st: "mq_step (c, S, R) e s''" using a'(2) step.hyps(2) by (simp_all only: s')
    obtain a'' where "queue_event (mq_msg_size c) e (q, p) = Some a''" "conc_rel s'' a''" "mq_msg_size (fst s'') = mq_msg_size c"
      using mq_step_sim [OF rel st] by blast
    moreover have "mq_msg_size c = mq_msg_size (fst s)" using a'(3) s' by simp
    ultimately show ?case using a'(1) s'(2) by (intro exI [of _ a'']) (simp add: queue_events_def)
  qed
  have "list_all2 begins (messages b) (messages b)" by (simp add: list_all2_same begins_def)
  then have "conc_rel (b, Map.empty, Map.empty) (messages b, Map.empty)" using ok by simp
  from sim [OF run this] obtain a' where "queue_events (mq_msg_size b) es (messages b, Map.empty) = Some a'" "conc_rel (b', S, R) a'"
    unfolding fst_conv by blast
  then show ?thesis by (cases a') auto
qed

text \<open>Initialisation links every node into the free list.\<close>

lemma init_free_list:
  assumes "mq_queue_head b = None" "mq_queue_free b = None"
  shows "\<exists>nx fr. fold mq_put_free [0..<n] b = b\<lparr>mq_next := nx, mq_queue_free := fr\<rparr> \<and>
    chain nx fr (rev [0..<n])"
proof (induction n)
  case 0
  have "b = b\<lparr>mq_next := mq_next b, mq_queue_free := None\<rparr>" using assms by simp
  then show ?case by (metis chain.simps(1) fold_simps(1) rev.simps(1) upt_0)
next
  case (Suc n)
  then obtain nx fr where e: "fold mq_put_free [0..<n] b = b\<lparr>mq_next := nx, mq_queue_free := fr\<rparr>"
    "chain nx fr (rev [0..<n])" by blast
  have "fold mq_put_free [0..<Suc n] b = mq_put_free n (b\<lparr>mq_next := nx, mq_queue_free := fr\<rparr>)"
    by (simp add: e(1))
  also have "\<dots> = b\<lparr>mq_next := nx(n := fr), mq_queue_free := Some n\<rparr>"
    by (simp add: mq_put_free_def)
  finally have "fold mq_put_free [0..<Suc n] b =
    b\<lparr>mq_next := nx(n := fr), mq_queue_free := Some n\<rparr>" .
  moreover have "chain (nx(n := fr)) (Some n) (rev [0..<Suc n])"
    using e(2) chain_upd_out [of n "rev [0..<n]" nx fr fr] by simp
  ultimately show ?case by blast
qed

lemma fresh_mq_ok:
  assumes data: "\<And>n. length (data n) = unat (RT_ALIGN msg_sz 4) mod 65536" and flag: "flag_ok flag"
  shows "mq_ok (fresh_mq data msg_sz max_msgs flag) {}"
    "messages (fresh_mq data msg_sz max_msgs flag) = []"
proof -
  let ?n = "max_msgs mod 65536"
  define b where "b = \<lparr>mq_next = (\<lambda>_. None), mq_data = data,
    mq_msg_size = unat (RT_ALIGN msg_sz 4) mod 65536, mq_max_msgs = ?n, mq_entry = 0,
    mq_queue_head = None, mq_queue_tail = None, mq_queue_free = None, mq_flag = flag\<rparr>"
  have f: "fresh_mq data msg_sz max_msgs flag = fold mq_put_free [0..<?n] b"
    by (simp add: fresh_mq_def b_def Let_def)
  have i: "mq_queue_head b = None" "mq_queue_free b = None" by (simp_all add: b_def)
  from init_free_list [OF i] obtain nx fr where
    e: "fold mq_put_free [0..<?n] b = b\<lparr>mq_next := nx, mq_queue_free := fr\<rparr>"
      "chain nx fr (rev [0..<?n])" by blast
  have "mq_rep (b\<lparr>mq_next := nx, mq_queue_free := fr\<rparr>) {} [] (rev [0..<?n])"
    using e(2) data flag by (auto simp: mq_rep_def b_def)
  then show "mq_ok (fresh_mq data msg_sz max_msgs flag) {}" "messages (fresh_mq data msg_sz max_msgs flag) = []"
    using rep_messages by (auto simp: f e(1) mq_ok_def)
qed

section \<open>The calls\<close>

lemma upd_mq_simps [simp]:
  "msgqueues (upd_mq m f k) = (msgqueues k)(m := f (msgqueues k m))"
  "threads (upd_mq m f k) = threads k" "lists (upd_mq m f k) = lists k"
  "current_thread (upd_mq m f k) = current_thread k"
  "scheduler_lock_nest (upd_mq m f k) = scheduler_lock_nest k"
  "tick (upd_mq m f k) = tick k" "interrupt_nest (upd_mq m f k) = interrupt_nest k"
  "stat_of (upd_mq m f k) u = stat_of k u"
  by (simp_all add: upd_mq_def stat_of_def)

lemma upd_mq_kinv: "kinv d k \<Longrightarrow> kinv d (upd_mq m f k)"
  by (erule kinv_cong) (simp_all add: upd_mq_def)

lemma rep_count:
  assumes r: "mq_rep b F q f"
  shows "length (messages b) + card F + length f = mq_max_msgs b"
proof -
  have "card (F \<union> set (q @ f)) = mq_max_msgs b" using r by (simp add: mq_rep_def)
  moreover have "finite F"
  proof (rule finite_subset)
    show "F \<subseteq> {..<mq_max_msgs b}" using r unfolding mq_rep_def by blast
  qed simp
  moreover have "F \<inter> set (q @ f) = {}" "distinct (q @ f)" using r by (auto simp: mq_rep_def)
  moreover have "card (set (q @ f)) = length q + length f"
    using distinct_card [OF calculation(4)] by simp
  ultimately show ?thesis using rep_messages [OF r] card_Un_disjoint [of F "set (q @ f)"] by simp
qed

text \<open>Putting a filled node into the queue, at either end.\<close>

definition mq_insert :: "bool \<Rightarrow> u8 list \<Rightarrow> nat \<Rightarrow> messagequeue \<Rightarrow> messagequeue" where
  "mq_insert front buf n b1 =
     (if front then mq_link_head n (mq_fill n buf b1)
      else mq_link_tail n (mq_fill n buf (b1\<lparr>mq_next := (mq_next b1)(n := None)\<rparr>)))"

lemma insert_rep:
  assumes r: "mq_rep b F q f" and n: "n \<in> F" and len: "length buf \<le> mq_msg_size b"
  shows "mq_ok (mq_insert front buf n b) (F - {n})"
    "\<exists>d. length d = mq_msg_size b \<and> take (length buf) d = buf \<and>
       messages (mq_insert front buf n b) = (if front then d # messages b else messages b @ [d])"
proof -
  let ?d = "buf @ drop (length buf) (mq_data b n)"
  have d: "length ?d = mq_msg_size b" "take (length buf) ?d = buf"
    using r len rep_in_pool [OF r] n by (simp_all add: mq_rep_def)
  let ?c = "b\<lparr>mq_next := (mq_next b)(n := None)\<rparr>"
  note c = clear_next_rep [OF r n]
  have lc: "length buf \<le> mq_msg_size ?c" using len by simp
  note fc = fill_rep [OF c(1) n lc] and fb = fill_rep [OF r n len]
  have nx: "mq_next (mq_fill n buf ?c) n = None" by (simp add: mq_fill_def)
  have dt: "mq_data (mq_fill n buf ?c) n = ?d" "mq_data (mq_fill n buf b) n = ?d"
    by (simp_all add: mq_fill_def)
  show "mq_ok (mq_insert front buf n b) (F - {n})"
    using link_tail_rep(1) [OF fc(1) n nx] link_head_rep(1) [OF fb(1) n]
    by (auto simp: mq_insert_def mq_ok_def)
  show "\<exists>d. length d = mq_msg_size b \<and> take (length buf) d = buf \<and>
       messages (mq_insert front buf n b) = (if front then d # messages b else messages b @ [d])"
    using d dt link_tail_rep(2) [OF fc(1) n nx] link_head_rep(2) [OF fb(1) n] fc(2) fb(2) c(2)
    by (intro exI [of _ ?d]) (simp add: mq_insert_def)
qed

text \<open>\<^verbatim>\<open>rt_mq_send\<close> and \<^verbatim>\<open>rt_mq_urgent\<close>: a message that is too long or finds no free node is
  refused and nothing changes; any other is queued last, or first when urgent, with its bytes
  unchanged, and the thread that waits first becomes ready. \<open>F\<close> are the nodes that other
  threads have in flight.\<close>

theorem mq_send_correct:
  assumes inv: "kinv 0 k" and cur: "current_thread k = Some t" and ok: "mq_ok (msgqueues k m) F"
    and buf: "buf \<noteq> []"
  shows "\<exists>e k'. (if front then rt_mq_urgent m buf k else rt_mq_send m buf k) = Some (e, k') \<and>
    kinv 0 k' \<and> mq_ok (msgqueues k' m) F \<and>
    (if length buf > mq_msg_size (msgqueues k m) then e = - RT_ERROR \<and> k' = k
     else if length (messages (msgqueues k m)) + card F = mq_max_msgs (msgqueues k m)
     then e = - RT_EFULL \<and> k' = k
     else e = RT_EOK \<and>
       (\<exists>d. length d = mq_msg_size (msgqueues k m) \<and> take (length buf) d = buf \<and>
          messages (msgqueues k' m) = (if front then d # messages (msgqueues k m)
                                       else messages (msgqueues k m) @ [d])) \<and>
       lists k' (LMq m) = tl (lists k (LMq m)) \<and>
       (lists k (LMq m) \<noteq> [] \<longrightarrow> th_ready k' (hd (lists k (LMq m)))))"
proof -
  let ?b = "msgqueues k m"
  from ok obtain q f where r: "mq_rep ?b F q f" by (auto simp: mq_ok_def)
  note cnt = rep_count [OF r]
  show ?thesis
  proof (cases "length buf > mq_msg_size ?b")
    case True
    then show ?thesis using inv ok buf by (simp add: rt_mq_send_def rt_mq_urgent_def)
  next
    case len: False
    from take_free_rep [OF r] show ?thesis
    proof (elim disjE conjE exE)
      assume "f = []" "mq_take_free ?b = None"
      then show ?thesis using len inv ok buf cnt by (simp add: rt_mq_send_def rt_mq_urgent_def)
    next
      fix n f' b1
      assume t: "f = n # f'" "mq_take_free ?b = Some (n, b1)" "mq_rep b1 (insert n F) q f'" "n \<notin> F"
        "messages b1 = messages ?b" "mq_msg_size b1 = mq_msg_size ?b" "mq_max_msgs b1 = mq_max_msgs ?b"
      have len1: "length buf \<le> mq_msg_size b1" using len t(6) by simp
      have Fn: "insert n F - {n} = F" using t(4) by auto
      note ins = insert_rep [OF t(3) insertI1 len1, of front, unfolded Fn t(5,6)]
      let ?k1 = "upd_mq m (\<lambda>_. mq_insert front buf n b1) k"
      have inv1: "kinv 0 ?k1" by (rule upd_mq_kinv [OF inv])
      have pre: "current_thread ?k1 \<noteq> None" "wait_head (LMq m)" using cur by simp_all
      obtain k' where k': "wake_and_schedule (LMq m) ?k1 = Some k'" "kinv 0 k'"
        "current_thread k' \<noteq> None" "core_only ?k1 k'" "lists k' (LMq m) = tl (lists ?k1 (LMq m))"
        "\<forall>h'. wait_head h' \<longrightarrow> h' \<noteq> LMq m \<longrightarrow> lists k' h' = lists ?k1 h'"
        "\<forall>u. error_of k' u = error_of ?k1 u"
        "lists ?k1 (LMq m) \<noteq> [] \<longrightarrow> th_ready k' (hd (lists ?k1 (LMq m))) \<and>
           (scheduler_lock_nest ?k1 = 0 \<longrightarrow> current_top k')"
        "lists ?k1 (LMq m) = [] \<longrightarrow> k' = ?k1"
        by (rule wake_and_schedule_spec [OF inv1 pre])
      have "(if front then rt_mq_urgent m buf k else rt_mq_send m buf k) = Some (RT_EOK, k')"
        using len buf t(2) k'(1)
        by (cases front) (simp_all add: rt_mq_send_def rt_mq_urgent_def mq_insert_def Let_def)
      moreover have "msgqueues k' m = mq_insert front buf n b1"
        using core_only_frame(10) [OF k'(4)] by simp
      ultimately show ?thesis
        using len cnt t(1) k'(2,5,8) ins by (intro exI [of _ RT_EOK] exI [of _ k']) simp
    qed
  qed
qed

text \<open>\<^verbatim>\<open>rt_mq_recv\<close> takes the first message and returns its bytes, at most as many as the
  buffer and a message hold, and frees the node; an empty queue gives \<^verbatim>\<open>RT_ETIMEOUT\<close> for timeout
  0 and otherwise suspends the caller and switches to the highest-priority ready thread.\<close>

theorem mq_recv_correct:
  assumes m: "may_block k t" and ok: "mq_ok (msgqueues k m) F" and sz: "sz \<noteq> 0"
    and time: "timeout < 0x7fffffff"
  shows "\<exists>r got k'. rt_mq_recv m sz timeout k = Some (r, got, k') \<and> kinv 0 k' \<and>
    mq_ok (msgqueues k' m) F \<and>
    (case messages (msgqueues k m) of
       d # ds \<Rightarrow> r = Returned RT_EOK \<and> got = Some (take (min sz (mq_msg_size (msgqueues k m))) d) \<and>
         messages (msgqueues k' m) = ds \<and> lists k' = lists k \<and> threads k' = threads k
     | [] \<Rightarrow> if timeout = 0 then r = Returned (- RT_ETIMEOUT) \<and> got = None \<and> k' = k
         else r = Blocked \<and> got = None \<and> msgqueues k' = msgqueues k \<and> current_top k' \<and>
           th_suspended k' t \<and> error_of k' t = RT_EOK \<and>
           lists k' (LMq m) = wait_insert (mq_flag (msgqueues k m)) k t (lists k (LMq m)))"
proof -
  let ?b = "msgqueues k m"
  from ok obtain q f where r: "mq_rep ?b F q f" by (auto simp: mq_ok_def)
  have inv: "kinv 0 k" and run: "in_thread_context k" "rt_thread_self k = Some t"
    using m by (auto simp: may_block_def in_thread_context_def rt_thread_self_def)
  have e: "mq_entry ?b = length q" using r by (simp add: mq_rep_def)
  from unlink_rep [OF r] show ?thesis
  proof (elim disjE conjE exE)
    fix n q' b1
    assume u: "q = n # q'" "mq_unlink ?b = Some (n, b1)" "mq_rep b1 (insert n F) q' f" "n \<notin> F"
      "messages ?b = mq_data b1 n # messages b1" "mq_msg_size b1 = mq_msg_size ?b"
    have Fn: "insert n F - {n} = F" using u(4) by auto
    note p = put_free_rep [OF u(3) insertI1, unfolded Fn]
    let ?k' = "upd_mq m (\<lambda>_. mq_put_free n b1) k"
    have "rt_mq_recv m sz timeout k =
        Some (Returned RT_EOK, Some (take (min sz (mq_msg_size ?b)) (mq_data b1 n)), ?k')"
      using sz e u(1,2,6) by (simp add: rt_mq_recv_def mq_recv_loop.simps mq_recv_end_def min_def)
    then show ?thesis
      using upd_mq_kinv [OF inv, of m] p u(5) by (auto simp: mq_ok_def)
  next
    assume u: "q = []" "mq_unlink ?b = None"
    have none: "messages ?b = []" using rep_messages [OF r] u by simp
    show ?thesis
    proof (cases "timeout = 0")
      case True
      then show ?thesis using inv ok e u none sz by (simp add: rt_mq_recv_def)
    next
      case False
      have flag: "flag_ok (mq_flag ?b)" using r by (simp add: mq_rep_def)
      obtain k' where k': "suspend_current (LMq m) (mq_flag ?b) timeout t (set_error t RT_EOK k) = Some k'"
        "kinv 0 k'" "current_top k'" "current_thread k' \<noteq> Some t" "core_only k k'" "th_suspended k' t"
        "\<forall>u. error_of k' u = (if u = t then RT_EOK else error_of k u)"
        "lists k' (LMq m) = wait_insert (mq_flag ?b) k t (lists k (LMq m))"
        "\<forall>j. j \<noteq> m \<longrightarrow> lists k' (LMq j) = lists k (LMq j)"
        "TThread t \<in> set (timer_list k') \<longleftrightarrow> 0 < timeout"
        "0 < timeout \<longrightarrow> timeout_of k' (TThread t) = tick k + word_of_int timeout"
        by (rule mq_q.block [OF m flag time])
      have b': "msgqueues k' = msgqueues k" by (rule core_only_frame(10) [OF k'(5)])
      have "rt_mq_recv m sz timeout k = Some (Blocked, None, k')"
        using False e u sz run k'(1,4) by (simp add: rt_mq_recv_def mq_recv_loop.simps Let_def)
      then show ?thesis
        using False none ok k'(2,3,6-8)
        by (intro exI [of _ Blocked] exI [of _ None] exI [of _ k']) (simp add: b')
    qed
  qed
qed

section \<open>Reset\<close>

text \<open>The loop of the reset pops every message; it does not count down, so the invariant holds
  with the entry set to what is left.\<close>

lemma drain_rep:
  "mq_rep (b\<lparr>mq_entry := length q\<rparr>) F q f \<Longrightarrow>
     \<exists>b'. mq_drain b = Some b' \<and> mq_rep (b'\<lparr>mq_entry := 0\<rparr>) F [] (rev q @ f)"
proof (induction q arbitrary: b f)
  case Nil
  then show ?case by (subst mq_drain.simps) (simp add: mq_rep_def mq_pop_head_def)
next
  case (Cons n q)
  let ?b1 = "b\<lparr>mq_queue_head := mq_next b n\<rparr>"
  let ?b2 = "if mq_queue_tail ?b1 = Some n then ?b1\<lparr>mq_queue_tail := None\<rparr> else ?b1"
  have h: "mq_queue_head b = Some n" using Cons.prems by (simp add: mq_rep_def)
  have pop: "mq_pop_head b = Some (n, ?b2)" using h by (simp add: mq_pop_head_def Let_def)
  have u: "mq_unlink (b\<lparr>mq_entry := length (n # q)\<rparr>) = Some (n, ?b2\<lparr>mq_entry := length q\<rparr>)"
    using h by (simp add: mq_unlink_def mq_pop_head_def Let_def)
  from unlink_rep [OF Cons.prems] u
  have "mq_rep (?b2\<lparr>mq_entry := length q\<rparr>) (insert n F) q f" and nF: "n \<notin> F" by auto
  from put_free_rep(1) [OF this(1) insertI1] nF
  have "mq_rep (mq_put_free n (?b2\<lparr>mq_entry := length q\<rparr>)) F q (n # f)" by simp
  moreover have "mq_put_free n (c\<lparr>mq_entry := l\<rparr>) = (mq_put_free n c)\<lparr>mq_entry := l\<rparr>" for c l
    by (simp add: mq_put_free_def)
  ultimately have "mq_rep ((mq_put_free n ?b2)\<lparr>mq_entry := length q\<rparr>) F q (n # f)" by (simp only:)
  from Cons.IH [OF this] show ?case
    by (subst mq_drain.simps) (simp only: pop option.case prod.case rev.simps append_assoc append_Cons append_Nil)
qed

text \<open>The reset of \<^verbatim>\<open>rt_mq_control\<close> ends, wakes every waiting thread with an error and leaves
  an empty queue whose nodes are all free, those in flight apart.\<close>

theorem mq_reset_correct:
  assumes inv: "kinv 0 k" and cur: "current_thread k = Some t" and ready: "th_ready k t"
    and ok: "mq_ok (msgqueues k m) F"
  shows "\<exists>k'. rt_mq_control m 1 k = Some (RT_EOK, k') \<and> kinv 0 k' \<and> mq_ok (msgqueues k' m) F \<and>
    messages (msgqueues k' m) = [] \<and> lists k' (LMq m) = [] \<and>
    (\<forall>w \<in> set (lists k (LMq m)). th_ready k' w \<and> error_of k' w = - RT_ERROR)"
proof -
  from ok obtain q f where r: "mq_rep (msgqueues k m) F q f" by (auto simp: mq_ok_def)
  have h: "wait_head (LMq m)" by simp
  from resume_all_spec [OF inv h] obtain k1 where k1: "rt_ipc_list_resume_all (LMq m) k = Some k1"
    "kinv 0 k1" "core_only k k1" "lists k1 (LMq m) = []" "current_thread k1 = current_thread k"
    "\<forall>u. threads k1 u = (if u \<in> set (lists k (LMq m))
       then (threads k u)\<lparr>th_error := - RT_ERROR,
              th_stat := with_stat RT_THREAD_READY (th_stat (threads k u))\<rparr>
       else threads k u)" by blast
  have b1: "msgqueues k1 = msgqueues k" by (rule core_only_frame(10) [OF k1(3)])
  have "mq_entry (msgqueues k m) = length q" using r by (simp add: mq_rep_def)
  then have "(msgqueues k m)\<lparr>mq_entry := length q\<rparr> = msgqueues k m" by simp
  then have "mq_rep ((msgqueues k1 m)\<lparr>mq_entry := length q\<rparr>) F q f" using r by (simp only: b1)
  from drain_rep [OF this] obtain b where b: "mq_drain (msgqueues k1 m) = Some b"
    "mq_rep (b\<lparr>mq_entry := 0\<rparr>) F [] (rev q @ f)" by blast
  let ?k2 = "upd_mq m (\<lambda>_. b\<lparr>mq_entry := 0\<rparr>) k1"
  have woken: "th_ready k1 w \<and> error_of k1 w = - RT_ERROR" if "w \<in> set (lists k (LMq m))" for w
    using k1(6) that by (simp add: stat_of_def with_stat_mask)
  have rt: "th_ready ?k2 t"
  proof -
    have "t \<notin> set (lists k (LMq m))" by (rule ready_not_waiting [OF inv ready h])
    then show ?thesis using k1(6) ready by (simp add: stat_of_def)
  qed
  have pre: "kinv 0 ?k2" "current_thread ?k2 \<noteq> None"
    using upd_mq_kinv [OF k1(2)] k1(5) cur by simp_all
  obtain k' where k': "rt_schedule ?k2 = Some k'" "switch_only ?k2 k'" "kinv 0 k'" "core_only ?k2 k'"
    "current_thread k' \<noteq> None" "scheduler_lock_nest ?k2 = 0 \<longrightarrow> current_top k'"
    "scheduler_lock_nest ?k2 \<noteq> 0 \<longrightarrow> k' = ?k2"
    by (rule schedule_kinv [OF pre(1) rt pre(2)])
  note fr = switch_only_frame [OF k'(2)]
  have mq': "msgqueues k' m = b\<lparr>mq_entry := 0\<rparr>" using core_only_frame(10) [OF k'(4)] by simp
  have "rt_mq_control m 1 k = Some (RT_EOK, k')"
    using k1(1) b(1) k'(1) by (simp add: rt_mq_control_def)
  moreover have "messages (msgqueues k' m) = []" using rep_messages [OF b(2)] by (simp add: mq')
  moreover have "mq_ok (msgqueues k' m) F" using b(2) by (auto simp: mq' mq_ok_def)
  moreover have "lists k' (LMq m) = []" by (simp add: fr k1(4))
  moreover have "th_ready k' w \<and> error_of k' w = - RT_ERROR" if "w \<in> set (lists k (LMq m))" for w
    using woken [OF that] by (simp add: fr stat_of_def)
  ultimately show ?thesis using k'(3) by (intro exI [of _ k']) blast
qed

section \<open>Witnesses\<close>

definition demo_msgs :: messagequeue where
  "demo_msgs = fresh_mq (\<lambda>_. [0, 0, 0, 0]) 4 2 0"

definition demo_mq :: "kernel \<Rightarrow> kernel" where
  "demo_mq = upd_mq 3 (\<lambda>_. demo_msgs)"

lemma demo_msgs_eq:
  "demo_msgs = \<lparr>mq_next = (\<lambda>_. None)(1 := Some 0), mq_data = (\<lambda>_. [0, 0, 0, 0]), mq_msg_size = 4,
     mq_max_msgs = 2, mq_entry = 0, mq_queue_head = None, mq_queue_tail = None,
     mq_queue_free = Some 1, mq_flag = 0\<rparr>"
  by (auto simp: demo_msgs_def fresh_mq_def mq_put_free_def RT_ALIGN_def upt_rec Let_def)

lemma demo_msgs_ok: "mq_ok demo_msgs {}" "messages demo_msgs = []"
  unfolding demo_msgs_def by (rule fresh_mq_ok, simp add: RT_ALIGN_def, simp add: flag_ok_def)+

lemma mq_interleaving_witness:
  "\<exists>b' R. mq_run (demo_msgs, Map.empty, Map.empty)
       [Internal, Internal, Internal, Sent [7, 8], Takes 1, Copies 1 3 [7, 8, 0]] (b', Map.empty, R) \<and>
     mq_ok b' {1} \<and> messages b' = []"
proof -
  let ?b1 = "demo_msgs\<lparr>mq_queue_free := Some 0\<rparr>"
  let ?b4 = "mq_link_tail 1 (mq_fill 1 [7, 8] (?b1\<lparr>mq_next := (mq_next ?b1)(1 := None)\<rparr>))"
  define b5 where "b5 = ?b4\<lparr>mq_queue_head := None, mq_queue_tail := None, mq_entry := 0\<rparr>"
  have t: "mq_take_free demo_msgs = Some (1, ?b1)" by (simp add: mq_take_free_def demo_msgs_eq)
  have r1: "mq_run (demo_msgs, Map.empty, Map.empty) [Internal, Internal, Internal, Sent [7, 8]] (?b4, Map.empty, Map.empty)"
    using send_is_run [OF _ _ t, of "[7, 8]"] by (simp add: demo_msgs_eq)
  have "mq_unlink ?b4 = Some (1, b5)"
    by (simp add: b5_def mq_unlink_def mq_pop_head_def mq_link_tail_def mq_fill_def demo_msgs_eq Let_def)
  from mq_step.unlink [OF _ this, of 3 Map.empty Map.empty]
  have s5: "mq_step (?b4, Map.empty, Map.empty) (Takes 1) (b5, Map.empty, [1 \<mapsto> Holds 3])" by simp
  have d: "mq_data b5 1 = [7, 8, 0, 0]" "mq_msg_size b5 = 4" by (simp_all add: b5_def mq_fill_def demo_msgs_eq)
  have s6: "mq_step (b5, Map.empty, [1 \<mapsto> Holds 3]) (Copies 1 3 [7, 8, 0]) (b5, Map.empty, [1 \<mapsto> Copied_out])"
    using mq_step.copy [of "[1 \<mapsto> Holds 3]" 1 3 b5 Map.empty] by (simp add: d del: One_nat_def)
  have run: "mq_run (demo_msgs, Map.empty, Map.empty)
      [Internal, Internal, Internal, Sent [7, 8], Takes 1, Copies 1 3 [7, 8, 0]] (b5, Map.empty, [1 \<mapsto> Copied_out])"
    using mq_run.step [OF mq_run.step [OF r1 s5] s6] by simp
  note t = mq_interleaving [OF run demo_msgs_ok(1)]
  then have "mq_ok b5 {1}" by simp
  moreover have "messages b5 = []" by (simp add: messages_def b5_def)
  ultimately show ?thesis using run by blast
qed

lemma demo_mq_simps [simp]:
  "threads (demo_mq k) = threads k" "lists (demo_mq k) = lists k" "msgqueues (demo_mq k) 3 = demo_msgs"
  "current_thread (demo_mq k) = current_thread k" "stat_of (demo_mq k) u = stat_of k u"
  "scheduler_lock_nest (demo_mq k) = scheduler_lock_nest k"
  "interrupt_nest (demo_mq k) = interrupt_nest k" "kinv 0 k \<Longrightarrow> kinv 0 (demo_mq k)"
  by (simp_all add: demo_mq_def upd_mq_kinv)

lemma mq_send_correct_witness:
  "\<exists>k' d. rt_mq_send 3 [7, 8] (demo_mq (demo_wait (LMq 3))) = Some (RT_EOK, k') \<and> th_ready k' 2 \<and>
    messages (msgqueues k' 3) = [d] \<and> take 2 d = [7, 8]"
proof -
  let ?k = "demo_mq (demo_wait (LMq 3))"
  have pre: "kinv 0 ?k" "current_thread ?k = Some 1" "mq_ok (msgqueues ?k 3) {}"
    using demo_wait_inv [of "LMq 3"] demo_msgs_ok by simp_all
  have d: "mq_msg_size demo_msgs = 4" "mq_max_msgs demo_msgs = 2" by (simp_all add: demo_msgs_eq)
  have "[7, 8 :: u8] \<noteq> []" by simp
  from mq_send_correct [OF pre this, of False] d demo_msgs_ok(2) show ?thesis
    by (auto simp: numeral_2_eq_2)
qed

lemma mq_recv_correct_witness:
  "\<exists>k'. rt_mq_recv 3 4 10 (demo_mq demo_run) = Some (Blocked, None, k') \<and> current_top k' \<and>
    lists k' (LMq 3) = [1]"
proof -
  let ?k = "demo_mq demo_run"
  have m: "may_block ?k 1" using demo_run_inv(2) by (auto simp: may_block_def)
  have ok: "mq_ok (msgqueues ?k 3) {}" using demo_msgs_ok by simp
  have fl: "mq_flag demo_msgs = 0" by (simp add: demo_msgs_eq)
  have "(4 :: nat) \<noteq> 0" "(10 :: int) < 0x7fffffff" by simp_all
  from mq_recv_correct [OF m ok this] demo_msgs_ok(2) fl show ?thesis by (auto simp: wait_insert_def)
qed

lemma mq_reset_correct_witness:
  "\<exists>k'. rt_mq_control 3 1 (demo_mq (demo_wait (LMq 3))) = Some (RT_EOK, k') \<and>
    lists k' (LMq 3) = [] \<and> th_ready k' 2 \<and> error_of k' 2 = - RT_ERROR"
proof -
  let ?k = "demo_mq (demo_wait (LMq 3))"
  have pre: "kinv 0 ?k" "current_thread ?k = Some 1" "th_ready ?k 1" "mq_ok (msgqueues ?k 3) {}"
    using demo_wait_inv [of "LMq 3"] demo_msgs_ok by (simp_all del: One_nat_def)
  from mq_reset_correct [OF pre] show ?thesis by auto
qed

end
