(* ===== verification/Mempool.thy ===== *)
theory Mempool
  imports Mq
begin

text \<open>
  Memory pools, \<^verbatim>\<open>rt-thread/src/mempool.c\<close>: blocks of one size, numbered here from the start of
  the pool. The word in front of a block is the next free block or, while the block is in use,
  the pool it belongs to. The waiting threads are in \<open>LMp m\<close>, and the pool counts them.
\<close>

section \<open>Operations\<close>

definition upd_mp :: "nat \<Rightarrow> (mempool \<Rightarrow> mempool) \<Rightarrow> kernel \<Rightarrow> kernel" where
  "upd_mp m f k = k\<lparr>mempools := (mempools k)(m := f (mempools k m))\<rparr>"

text \<open>The loop that links the blocks, and the store that ends the list. Without a block the
  store goes in front of the pool.\<close>

definition link_blocks :: "nat \<Rightarrow> (nat \<Rightarrow> blk_link) \<Rightarrow> (nat \<Rightarrow> blk_link) option" where
  "link_blocks cnt mem =
     (if cnt = 0 then None
      else Some ((fold (\<lambda>i l. l(i := BNext (Some (i + 1)))) [0..<cnt] mem)
                  (cnt - 1 := BNext None)))"

text \<open>\<open>mem\<close> is what the headers of the blocks hold before.\<close>

definition rt_mp_init ::
    "nat \<Rightarrow> u8 list \<Rightarrow> (nat \<Rightarrow> blk_link) \<Rightarrow> u32 \<Rightarrow> u32 \<Rightarrow> kernel \<Rightarrow> kernel option" where
  "rt_mp_init m name mem sz block_sz k = do {
     k1 \<leftarrow> rt_object_init (OMp m) Class_MemPool name k;
     let bs = RT_ALIGN block_sz 4;
     let sz' = RT_ALIGN_DOWN sz 4;
     let cnt = sz' div (bs + 4);
     rt_assert (bs + 4 \<noteq> 0);
     lk \<leftarrow> link_blocks (unat cnt) mem;
     Some (upd_mp m (\<lambda>_. \<lparr>mp_link = lk, mp_size = sz', mp_block_size = bs,
       mp_block_list = Some 0, mp_block_total_count = cnt, mp_block_free_count = cnt,
       mp_suspend_thread_count = 0\<rparr>) (rt_ipc_object_init (LMp m) k1))
   }"

definition rt_mp_create ::
    "nat option \<Rightarrow> (nat \<Rightarrow> blk_link) option \<Rightarrow> u8 list \<Rightarrow> u32 \<Rightarrow> u32 \<Rightarrow> kernel \<Rightarrow>
     (nat option \<times> kernel) option" where
  "rt_mp_create ob mem name block_count block_sz k = do {
     rt_assert (interrupt_nest k = 0);
     (r, k1) \<leftarrow> rt_object_allocate (map_option OMp ob) Class_MemPool name k;
     case ob of None \<Rightarrow> Some (None, k1)
     | Some m \<Rightarrow>
         let bs = RT_ALIGN block_sz 4 in
         (case mem of
            None \<Rightarrow> do { k2 \<leftarrow> rt_object_delete (OMp m) k1; Some (None, k2) }
          | Some l \<Rightarrow> do {
              lk \<leftarrow> link_blocks (unat block_count) l;
              Some (Some m, upd_mp m (\<lambda>_. \<lparr>mp_link = lk, mp_size = (bs + 4) * block_count,
                mp_block_size = bs, mp_block_list = Some 0, mp_block_total_count = block_count,
                mp_block_free_count = block_count, mp_suspend_thread_count = 0\<rparr>)
                (rt_ipc_object_init (LMp m) k1))
            })
   }"

partial_function (option) mp_wake_all :: "nat \<Rightarrow> kernel \<Rightarrow> kernel option" where
  "mp_wake_all m k =
     (case lists k (LMp m) of [] \<Rightarrow> Some k
      | t # _ \<Rightarrow>
          mp_wake_all m
            (upd_mp m (\<lambda>p. p\<lparr>mp_suspend_thread_count := mp_suspend_thread_count p - 1\<rparr>)
              (snd (rt_thread_resume t (set_error t (- RT_ERROR) k)))))"

definition rt_mp_detach :: "nat \<Rightarrow> kernel \<Rightarrow> kernel option" where
  "rt_mp_detach m k = do {
     rt_assert (rt_object_is_systemobject (OMp m) k);
     k1 \<leftarrow> mp_wake_all m k;
     Some (rt_object_detach (OMp m) k1)
   }"

definition rt_mp_delete :: "nat \<Rightarrow> kernel \<Rightarrow> kernel option" where
  "rt_mp_delete m k = do {
     rt_assert (interrupt_nest k = 0);
     rt_assert (\<not> rt_object_is_systemobject (OMp m) k);
     k1 \<leftarrow> mp_wake_all m k;
     rt_object_delete (OMp m) k1
   }"

text \<open>A call gives a block, the null pointer, or waits.\<close>

datatype mp_result = Block nat | NoBlock | Waits

definition rt_set_errno :: "rt_err \<Rightarrow> kernel \<Rightarrow> kernel" where
  "rt_set_errno e k =
     (if interrupt_nest k \<noteq> 0 then k
      else case rt_thread_self k of None \<Rightarrow> k | Some t \<Rightarrow> set_error t e k)"

definition mp_take :: "nat \<Rightarrow> mempool \<Rightarrow> (nat \<times> mempool) option" where
  "mp_take m p =
     (case mp_block_list p of
        None \<Rightarrow> None
      | Some i \<Rightarrow>
          (case mp_link p i of
             BNext nx \<Rightarrow> Some (i, p\<lparr>mp_block_free_count := mp_block_free_count p - 1,
               mp_block_list := nx, mp_link := (mp_link p)(i := BOwner m)\<rparr>)
           | BOwner _ \<Rightarrow> None))"

definition mp_suspend :: "nat \<Rightarrow> nat \<Rightarrow> kernel \<Rightarrow> kernel" where
  "mp_suspend m t k =
     upd_mp m (\<lambda>p. p\<lparr>mp_suspend_thread_count := mp_suspend_thread_count p + 1\<rparr>)
       (list_insert_after (LMp m) t (snd (rt_thread_suspend t k)))"

partial_function (option) mp_alloc_loop ::
    "nat \<Rightarrow> int \<Rightarrow> nat option \<Rightarrow> kernel \<Rightarrow> (mp_result \<times> kernel) option" where
  "mp_alloc_loop m time th k =
     (if mp_block_free_count (mempools k m) = 0
      then if time = 0 then Some (NoBlock, rt_set_errno (- RT_ETIMEOUT) k)
        else if interrupt_nest k \<noteq> 0 then None
        else Option.bind th (\<lambda>t.
          let k1 = set_error t RT_EOK k in
          Option.bind (arm_and_schedule time t (mp_suspend m t k1))
            (\<lambda>k2. if current_thread k2 = Some t
               then if error_of k2 t \<noteq> RT_EOK then Some (NoBlock, k2)
                    else mp_alloc_loop m (remaining_timeout time (tick k1) k2) th k2
               else Some (Waits, k2)))
      else Option.bind (mp_take m (mempools k m))
             (\<lambda>(i, p). Some (Block i, upd_mp m (\<lambda>_. p) k)))"

definition mp_alloc_resumed ::
    "nat \<Rightarrow> int \<Rightarrow> u32 \<Rightarrow> nat \<Rightarrow> kernel \<Rightarrow> (mp_result \<times> kernel) option" where
  "mp_alloc_resumed m time start t k =
     (if error_of k t \<noteq> RT_EOK then Some (NoBlock, k)
      else mp_alloc_loop m (remaining_timeout time start k) (Some t) k)"

definition rt_mp_alloc :: "nat \<Rightarrow> int \<Rightarrow> kernel \<Rightarrow> (mp_result \<times> kernel) option" where
  "rt_mp_alloc m time k = mp_alloc_loop m time (rt_thread_self k) k"

text \<open>Freeing block \<open>i\<close>, which must be in use: its header says which pool it belongs to. With a
  positive count and an empty list \<^verbatim>\<open>rt_list_entry\<close> would take the pool itself for a thread.\<close>

definition rt_mp_free :: "nat \<Rightarrow> nat \<Rightarrow> kernel \<Rightarrow> kernel option" where
  "rt_mp_free m i k = do {
     rt_assert (mp_link (mempools k m) i = BOwner m);
     let k1 = upd_mp m (\<lambda>p. p\<lparr>mp_block_free_count := mp_block_free_count p + 1,
                mp_link := (mp_link p)(i := BNext (mp_block_list p)), mp_block_list := Some i\<rparr>) k;
     if mp_suspend_thread_count (mempools k1 m) > 0
     then case lists k1 (LMp m) of
         [] \<Rightarrow> None
       | t # _ \<Rightarrow>
           rt_schedule (upd_mp m (\<lambda>p. p\<lparr>mp_suspend_thread_count := mp_suspend_thread_count p - 1\<rparr>)
             (snd (rt_thread_resume t (set_error t RT_EOK k1))))
     else Some k1
   }"

section \<open>The free list\<close>

fun bchain :: "(nat \<Rightarrow> blk_link) \<Rightarrow> nat option \<Rightarrow> nat list \<Rightarrow> bool" where
  "bchain lk p [] = (p = None)"
| "bchain lk p (x # xs) = (p = Some x \<and>
     (case lk x of BNext q \<Rightarrow> bchain lk q xs | BOwner _ \<Rightarrow> False))"

lemma bchain_upd_out: "i \<notin> set xs \<Longrightarrow> bchain (lk(i := v)) p xs = bchain lk p xs"
  by (induction xs arbitrary: p) (auto split: blk_link.split)

text \<open>The blocks in use. Every block is in use or in the free list, which the count measures.\<close>

definition mp_used :: "nat \<Rightarrow> mempool \<Rightarrow> nat set" where
  "mp_used m p = {i. i < unat (mp_block_total_count p) \<and> mp_link p i = BOwner m}"

definition mp_rep :: "nat \<Rightarrow> mempool \<Rightarrow> nat list \<Rightarrow> bool" where
  "mp_rep m p f \<longleftrightarrow> bchain (mp_link p) (mp_block_list p) f \<and> distinct f \<and>
     set f \<inter> mp_used m p = {} \<and> set f \<union> mp_used m p = {..<unat (mp_block_total_count p)} \<and>
     mp_block_free_count p = of_nat (length f)"

text \<open>The pool and the count of its waiting threads.\<close>

definition mp_ok :: "nat \<Rightarrow> kernel \<Rightarrow> bool" where
  "mp_ok m k \<longleftrightarrow> (\<exists>f. mp_rep m (mempools k m) f) \<and>
     mp_suspend_thread_count (mempools k m) = of_nat (length (lists k (LMp m))) \<and>
     length (lists k (LMp m)) < 2 ^ 32 - 1"

lemma rep_length:
  assumes "mp_rep m p f" shows "unat (mp_block_free_count p) = length f" "length f < 2 ^ 32"
proof -
  have "card (set f) \<le> card {..<unat (mp_block_total_count p)}"
    by (rule card_mono) (use assms in \<open>auto simp: mp_rep_def\<close>)
  then have "length f \<le> unat (mp_block_total_count p)"
    using assms distinct_card [of f] by (simp add: mp_rep_def)
  also have "\<dots> < 2 ^ 32" using unsigned_less [of "mp_block_total_count p"] by simp
  finally show l: "length f < 2 ^ 32" .
  show "unat (mp_block_free_count p) = length f"
    using assms l by (simp add: mp_rep_def unsigned_of_nat take_bit_nat_eq_self)
qed

lemma take_rep:
  assumes r: "mp_rep m p f"
  shows "f = [] \<and> mp_block_free_count p = 0 \<or>
    (\<exists>i f' p'. f = i # f' \<and> mp_block_free_count p \<noteq> 0 \<and> mp_take m p = Some (i, p') \<and>
       mp_rep m p' f' \<and> i \<notin> mp_used m p \<and> mp_used m p' = insert i (mp_used m p) \<and>
       mp_suspend_thread_count p' = mp_suspend_thread_count p \<and>
       mp_block_free_count p' = mp_block_free_count p - 1)"
proof (cases f)
  case Nil
  then show ?thesis using r by (simp add: mp_rep_def)
next
  case (Cons i f')
  then obtain nx where nx: "mp_link p i = BNext nx" "bchain (mp_link p) nx f'" "mp_block_list p = Some i"
    using r by (auto simp: mp_rep_def split: blk_link.splits)
  let ?p = "p\<lparr>mp_block_free_count := mp_block_free_count p - 1, mp_block_list := nx,
    mp_link := (mp_link p)(i := BOwner m)\<rparr>"
  have t: "mp_take m p = Some (i, ?p)" using nx by (simp add: mp_take_def)
  have i: "i < unat (mp_block_total_count p)" "i \<notin> mp_used m p" "i \<notin> set f'"
    using r Cons by (auto simp: mp_rep_def)
  have u: "mp_used m ?p = insert i (mp_used m p)" using i by (auto simp: mp_used_def)
  have "mp_block_free_count p = of_nat (Suc (length f'))" using r Cons by (simp add: mp_rep_def)
  then have c: "mp_block_free_count p - 1 = of_nat (length f')" by simp
  have rep: "mp_rep m ?p f'"
    unfolding mp_rep_def u using r Cons nx i c by (auto simp: mp_rep_def bchain_upd_out)
  have "unat (mp_block_free_count p) \<noteq> 0" using rep_length [OF r] Cons by simp
  then have "mp_block_free_count p \<noteq> 0" by auto
  then show ?thesis using Cons t rep i(2) u by auto
qed

lemma give_rep:
  assumes r: "mp_rep m p f" and i: "i \<in> mp_used m p"
  defines "p' \<equiv> p\<lparr>mp_block_free_count := mp_block_free_count p + 1,
                mp_link := (mp_link p)(i := BNext (mp_block_list p)), mp_block_list := Some i\<rparr>"
  shows "mp_rep m p' (i # f)" "mp_used m p' = mp_used m p - {i}"
proof -
  have out: "i \<notin> set f" "i < unat (mp_block_total_count p)" using r i by (auto simp: mp_rep_def mp_used_def)
  show u: "mp_used m p' = mp_used m p - {i}" by (auto simp: mp_used_def p'_def)
  show "mp_rep m p' (i # f)"
    unfolding mp_rep_def u using r i out by (auto simp: mp_rep_def p'_def bchain_upd_out)
qed

section \<open>Allocating and freeing\<close>

lemma upd_mp_simps [simp]:
  "mempools (upd_mp m f k) = (mempools k)(m := f (mempools k m))"
  "threads (upd_mp m f k) = threads k" "lists (upd_mp m f k) = lists k"
  "current_thread (upd_mp m f k) = current_thread k"
  "scheduler_lock_nest (upd_mp m f k) = scheduler_lock_nest k"
  "tick (upd_mp m f k) = tick k" "interrupt_nest (upd_mp m f k) = interrupt_nest k"
  "timer_list (upd_mp m f k) = timer_list k" "stat_of (upd_mp m f k) u = stat_of k u"
  by (simp_all add: upd_mp_def stat_of_def)

lemma upd_mp_kinv: "kinv d k \<Longrightarrow> kinv d (upd_mp m f k)"
  by (erule kinv_cong) (simp_all add: upd_mp_def)

lemma set_errno_spec:
  assumes "kinv 0 k"
  shows "kinv 0 (rt_set_errno e k)" "mempools (rt_set_errno e k) = mempools k"
    "lists (rt_set_errno e k) = lists k"
  using assms by (auto simp: rt_set_errno_def set_error_kinv split: option.split)

text \<open>The thread that starts to wait goes in front of the others.\<close>

lemma mp_suspend_spec:
  fixes m :: nat
  assumes inv: "kinv d k" and ready: "th_ready k t"
  defines "k' \<equiv> mp_suspend m t k"
  shows "kinv d k'" "th_suspended k' t" "current_thread k' = current_thread k"
    "scheduler_lock_nest k' = scheduler_lock_nest k" "TThread t \<notin> set (timer_list k')"
    "threads k' = (threads k)(t := (threads k t)
       \<lparr>th_stat := with_stat RT_THREAD_SUSPEND (th_stat (threads k t))\<rparr>)"
    "lists k' (LMp m) = t # lists k (LMp m)" "tick k' = tick k"
    "mempools k' = (mempools k)(m := (mempools k m)
       \<lparr>mp_suspend_thread_count := mp_suspend_thread_count (mempools k m) + 1\<rparr>)"
proof -
  let ?k1 = "snd (rt_thread_suspend t k)" and ?k2 = "list_insert_after (LMp m) t (snd (rt_thread_suspend t k))"
  note s = suspend_spec [OF inv ready]
  have h: "wait_head (LMp m)" by simp
  have out: "t \<notin> set (lists k (LMp m))" by (rule ready_not_waiting [OF inv ready h])
  have l1: "lists ?k1 (LMp m) = lists k (LMp m)" using out by (simp add: s(5))
  have "sched_inv {} ?k2"
    by (rule link_inv [OF s(3), where h = "LMp m" and xs = "[]" and ys = "lists k (LMp m)"])
      (use s(4) l1 in \<open>simp_all add: list_insert_after_def\<close>)
  moreover have "timer_inv d ?k2"
    by (rule timer_inv_cong [of d ?k1])
      (use s(2) in \<open>simp_all add: kinv_def list_insert_after_def stat_of_def\<close>)
  ultimately have "kinv d ?k2" by (simp add: kinv_def)
  then show "kinv d k'" unfolding k'_def mp_suspend_def by (rule upd_mp_kinv)
  show "th_suspended k' t" using s(4) by (simp add: k'_def mp_suspend_def stat_of_def)
  show "current_thread k' = current_thread k" by (simp add: k'_def mp_suspend_def s(7))
  note f = core_only_frame [OF s(8)]
  show "scheduler_lock_nest k' = scheduler_lock_nest k" by (simp add: k'_def mp_suspend_def f)
  show "TThread t \<notin> set (timer_list k')" using s(9) by (simp add: k'_def mp_suspend_def)
  show "threads k' = (threads k)(t := (threads k t)
       \<lparr>th_stat := with_stat RT_THREAD_SUSPEND (th_stat (threads k t))\<rparr>)"
    by (simp add: k'_def mp_suspend_def s(6))
  show "lists k' (LMp m) = t # lists k (LMp m)" by (simp add: k'_def mp_suspend_def l1)
  show "tick k' = tick k" by (simp add: k'_def mp_suspend_def f list_insert_after_def)
  show "mempools k' = (mempools k)(m := (mempools k m)
       \<lparr>mp_suspend_thread_count := mp_suspend_thread_count (mempools k m) + 1\<rparr>)"
    by (simp add: k'_def mp_suspend_def f list_insert_after_def)
qed

text \<open>C19: \<^verbatim>\<open>rt_mp_alloc\<close> gives a block that is not in use, which then is; without a free block it
  gives the null pointer for time 0, and otherwise suspends the caller in front of the wait
  list and switches to the highest-priority ready thread. The pool invariants are kept.\<close>

theorem mp_alloc_correct:
  assumes m: "may_block k t" and ok: "mp_ok m k" and time: "time < 0x7fffffff"
    and few: "length (lists k (LMp m)) < 2 ^ 32 - 2"
  shows "\<exists>r k'. rt_mp_alloc m time k = Some (r, k') \<and> kinv 0 k' \<and> mp_ok m k' \<and>
    (if mp_block_free_count (mempools k m) \<noteq> 0
     then \<exists>i. r = Block i \<and> i < unat (mp_block_total_count (mempools k m)) \<and>
       i \<notin> mp_used m (mempools k m) \<and>
       mp_used m (mempools k' m) = insert i (mp_used m (mempools k m)) \<and>
       lists k' = lists k \<and> threads k' = threads k
     else if time = 0 then r = NoBlock \<and> mempools k' = mempools k \<and> error_of k' t = - RT_ETIMEOUT
     else r = Waits \<and> current_top k' \<and> th_suspended k' t \<and> error_of k' t = RT_EOK \<and>
       lists k' (LMp m) = t # lists k (LMp m) \<and>
       mp_used m (mempools k' m) = mp_used m (mempools k m))"
proof -
  let ?p = "mempools k m"
  have inv: "kinv 0 k" and run: "interrupt_nest k = 0" "rt_thread_self k = Some t"
    using m by (auto simp: may_block_def rt_thread_self_def)
  from ok obtain f where r: "mp_rep m ?p f" by (auto simp: mp_ok_def)
  from take_rep [OF r] show ?thesis
  proof (elim disjE exE conjE)
    fix i f' p'
    assume t: "f = i # f'" "mp_block_free_count ?p \<noteq> 0" "mp_take m ?p = Some (i, p')" "mp_rep m p' f'"
      "i \<notin> mp_used m ?p" "mp_used m p' = insert i (mp_used m ?p)"
      "mp_suspend_thread_count p' = mp_suspend_thread_count ?p"
    let ?k' = "upd_mp m (\<lambda>_. p') k"
    have "rt_mp_alloc m time k = Some (Block i, ?k')"
      using t(2,3) by (simp add: rt_mp_alloc_def mp_alloc_loop.simps)
    moreover have "mp_ok m ?k'" using ok t(4,7) by (auto simp: mp_ok_def)
    moreover have "i < unat (mp_block_total_count ?p)" using r t(1) by (auto simp: mp_rep_def)
    ultimately show ?thesis
      using t(2,5,6) upd_mp_kinv [OF inv] by (intro exI [of _ "Block i"] exI [of _ ?k']) simp
  next
    assume none: "f = []" "mp_block_free_count ?p = 0"
    show ?thesis
    proof (cases "time = 0")
      case True
      have "error_of (rt_set_errno (- RT_ETIMEOUT) k) t = - RT_ETIMEOUT"
        using run by (simp add: rt_set_errno_def)
      moreover have "mp_ok m (rt_set_errno (- RT_ETIMEOUT) k)"
        using ok set_errno_spec [OF inv, of "- RT_ETIMEOUT"] by (simp add: mp_ok_def)
      ultimately show ?thesis
        using True none run set_errno_spec [OF inv]
        by (simp add: rt_mp_alloc_def mp_alloc_loop.simps)
    next
      case False
      let ?k1 = "set_error t RT_EOK k"
      have m1: "may_block ?k1 t" by (rule may_block_set_error [OF m])
      then obtain u where u: "th_ready ?k1 u" "u \<noteq> t" by (auto simp: may_block_def)
      have pre: "kinv 0 ?k1" "th_ready ?k1 t" using m1 by (simp_all add: may_block_def)
      note s = mp_suspend_spec [OF pre, where m = m]
      let ?k2 = "mp_suspend m t ?k1"
      have pre2: "current_thread ?k2 \<noteq> None" "scheduler_lock_nest ?k2 = 0"
        using m1 by (simp_all add: s may_block_def)
      have u2: "th_ready ?k2 u" using u by (simp add: stat_of_def s(6))
      obtain k' where k': "arm_and_schedule time t ?k2 = Some k'" "kinv 0 k'" "current_top k'"
        "current_thread k' \<noteq> Some t" "core_only ?k2 k'" "threads k' = threads ?k2"
        "lists k' = lists ?k2"
        "0 < time \<longrightarrow> TThread t \<in> set (timer_list k') \<and>
           timeout_of k' (TThread t) = tick ?k2 + word_of_int time"
        "\<not> 0 < time \<longrightarrow> TThread t \<notin> set (timer_list k')"
        by (rule arm_and_schedule_spec [OF s(1) pre2(1) s(2,5) u2 pre2(2) time])
      have mp': "mempools k' m = ?p\<lparr>mp_suspend_thread_count := mp_suspend_thread_count ?p + 1\<rparr>"
        using core_only_frame(11) [OF k'(5)] by (simp add: s(9))
      have l': "lists k' (LMp m) = t # lists k (LMp m)" by (simp add: k'(7) s(7))
      have us: "mp_used m (mempools k' m) = mp_used m ?p" by (simp add: mp' mp_used_def)
      have "rt_mp_alloc m time k = Some (Waits, k')"
        using False none run k'(1,4) by (simp add: rt_mp_alloc_def mp_alloc_loop.simps Let_def)
      moreover have "mp_rep m (mempools k' m) f"
        unfolding mp_rep_def us using r by (simp add: mp' mp_rep_def)
      then have "mp_ok m k'" using ok few l' by (auto simp: mp_ok_def mp')
      moreover have "th_suspended k' t" "error_of k' t = RT_EOK"
        using s(2) by (simp_all add: stat_of_def k'(6) s(6))
      ultimately show ?thesis
        using False none k'(2,3) l' us by (intro exI [of _ Waits] exI [of _ k']) simp
    qed
  qed
qed

text \<open>\<^verbatim>\<open>rt_mp_free\<close> of a block in use puts it back into the free list, and the thread that
  waits in front becomes ready to try again.\<close>

theorem mp_free_correct:
  assumes inv: "kinv 0 k" and cur: "current_thread k = Some t" and ok: "mp_ok m k"
    and used: "i \<in> mp_used m (mempools k m)"
  shows "\<exists>k'. rt_mp_free m i k = Some k' \<and> kinv 0 k' \<and> mp_ok m k' \<and>
    mp_used m (mempools k' m) = mp_used m (mempools k m) - {i} \<and>
    mp_block_free_count (mempools k' m) = mp_block_free_count (mempools k m) + 1 \<and>
    lists k' (LMp m) = tl (lists k (LMp m)) \<and>
    (lists k (LMp m) \<noteq> [] \<longrightarrow> th_ready k' (hd (lists k (LMp m))) \<and>
       error_of k' (hd (lists k (LMp m))) = RT_EOK)"
proof -
  let ?p = "mempools k m"
  let ?g = "\<lambda>p. p\<lparr>mp_block_free_count := mp_block_free_count p + 1,
                mp_link := (mp_link p)(i := BNext (mp_block_list p)), mp_block_list := Some i\<rparr>"
  let ?k1 = "upd_mp m ?g k"
  from ok obtain f where r: "mp_rep m ?p f" by (auto simp: mp_ok_def)
  note g = give_rep [OF r used]
  have own: "mp_link ?p i = BOwner m" using used by (simp add: mp_used_def)
  have inv1: "kinv 0 ?k1" by (rule upd_mp_kinv [OF inv])
  have cnt: "mp_suspend_thread_count ?p = of_nat (length (lists k (LMp m)))"
    "length (lists k (LMp m)) < 2 ^ 32 - 1" using ok by (simp_all add: mp_ok_def)
  have pos: "mp_suspend_thread_count ?p > 0 \<longleftrightarrow> lists k (LMp m) \<noteq> []"
  proof -
    have "unat (mp_suspend_thread_count ?p) = length (lists k (LMp m))"
      using cnt by (simp add: unsigned_of_nat take_bit_nat_eq_self)
    then show ?thesis by (auto simp: word_gt_0 unat_eq_0)
  qed
  show ?thesis
  proof (cases "lists k (LMp m)")
    case Nil
    have "rt_mp_free m i k = Some ?k1" using own pos Nil by (simp add: rt_mp_free_def Let_def)
    then show ?thesis using Nil inv1 g cnt by (intro exI [of _ ?k1]) (auto simp: mp_ok_def)
  next
    case (Cons w ws)
    let ?k2 = "set_error w RT_EOK ?k1"
    have inv2: "kinv 0 ?k2" by (rule set_error_kinv [OF inv1])
    have h: "wait_head (LMp m)" and l2: "lists ?k2 (LMp m) = w # ws" using Cons by simp_all
    obtain k3 where k3: "rt_ipc_list_resume (LMp m) ?k2 = Some k3" "kinv 0 k3" "th_ready k3 w"
      "core_only ?k2 k3"
      "threads k3 = (threads ?k2)(w := (threads ?k2 w)
         \<lparr>th_stat := with_stat RT_THREAD_READY (th_stat (threads ?k2 w))\<rparr>)"
      "lists k3 (LMp m) = ws" "\<forall>h'. wait_head h' \<longrightarrow> h' \<noteq> LMp m \<longrightarrow> lists k3 h' = lists ?k2 h'"
      "current_thread k3 = current_thread ?k2" "TThread w \<notin> set (timer_list k3)"
      by (rule list_resume_spec [OF inv2 h l2])
    have e3: "snd (rt_thread_resume w ?k2) = k3" using k3(1) l2 by (simp add: rt_ipc_list_resume_def)
    let ?k4 = "upd_mp m (\<lambda>p. p\<lparr>mp_suspend_thread_count := mp_suspend_thread_count p - 1\<rparr>) k3"
    have pre: "kinv 0 ?k4" "th_ready ?k4 w" "current_thread ?k4 \<noteq> None"
      using upd_mp_kinv [OF k3(2)] k3(3,8) cur by simp_all
    obtain k' where k': "rt_schedule ?k4 = Some k'" "switch_only ?k4 k'" "kinv 0 k'" "core_only ?k4 k'"
      "current_thread k' \<noteq> None" "scheduler_lock_nest ?k4 = 0 \<longrightarrow> current_top k'"
      "scheduler_lock_nest ?k4 \<noteq> 0 \<longrightarrow> k' = ?k4"
      by (rule schedule_kinv [OF pre])
    note f = switch_only_frame [OF k'(2)]
    have mp3: "mempools k3 = mempools ?k1" using core_only_frame(11) [OF k3(4)] by simp
    have mp': "mempools k' m = (?g ?p)\<lparr>mp_suspend_thread_count := mp_suspend_thread_count ?p - 1\<rparr>"
      using core_only_frame(11) [OF k'(4)] by (simp add: mp3)
    have l': "lists k' (LMp m) = ws" by (simp add: f k3(6))
    have us: "mp_used m (mempools k' m) = mp_used m ?p - {i}"
      using g(2) by (simp add: mp' mp_used_def)
    have "mp_rep m (mempools k' m) (i # f)"
      unfolding mp_rep_def us using g by (simp add: mp' mp_rep_def)
    moreover have "mp_suspend_thread_count ?p - 1 = of_nat (length ws)" using cnt Cons by simp
    ultimately have ok': "mp_ok m k'" using cnt(2) Cons l' by (auto simp: mp_ok_def mp')
    have "rt_mp_free m i k = Some k'"
      using own pos Cons e3 k'(1) by (simp add: rt_mp_free_def Let_def)
    moreover have "th_ready k' w" "error_of k' w = RT_EOK"
      using k3(3) by (simp_all add: stat_of_def f k3(5))
    ultimately show ?thesis using Cons ok' l' us k'(3) by (intro exI [of _ k']) (simp add: mp')
  qed
qed

section \<open>Flaws\<close>

text \<open>A thread whose \<^verbatim>\<open>rt_mp_alloc\<close> times out leaves the wait list, but nobody counts it down:
  the next \<^verbatim>\<open>rt_mp_free\<close> believes a thread waits, and resumes what is no thread, the list head
  inside the pool.\<close>

theorem mp_timeout_breaks_free:
  assumes inv: "kinv 0 k" and cur: "current_thread k = Some t" and ok: "mp_ok m k"
    and wait: "lists k (LMp m) = [w]" and expired: "TThread w \<notin> set (timer_list k)"
    and used: "i \<in> mp_used m (mempools k m)"
  shows "\<exists>k'. rt_thread_timeout w k = Some k' \<and> kinv 0 k' \<and> lists k' (LMp m) = [] \<and>
    \<not> mp_ok m k' \<and> i \<in> mp_used m (mempools k' m) \<and> rt_mp_free m i k' = None"
proof -
  have h: "wait_head (LMp m)" by simp
  have sus: "th_suspended k w" by (rule waiting_suspended [OF inv h]) (simp add: wait)
  have cur': "current_thread k \<noteq> None" using cur by simp
  obtain k' where k': "rt_thread_timeout w k = Some k'" "kinv 0 k'" "core_only k k'"
    "timers k' = timers k" "timer_list k' = timer_list k" "current_thread k' \<noteq> None"
    "threads k' = (threads k)(w := (threads k w)\<lparr>th_error := - RT_ETIMEOUT,
       th_stat := with_stat RT_THREAD_READY (th_stat (threads k w))\<rparr>)"
    "lists k' = (\<lambda>h. removeAll w (lists k h))
      (LReady (prio_of k w) := lists k (LReady (prio_of k w)) @ [w])"
    "scheduler_lock_nest k = 0 \<longrightarrow> current_top k'"
    by (rule timeout_kinv [OF inv sus expired cur'])
  have mp': "mempools k' = mempools k" by (rule core_only_frame(11) [OF k'(3)])
  have l': "lists k' (LMp m) = []" using wait by (simp add: k'(8))
  have one: "mp_suspend_thread_count (mempools k m) = 1" using ok wait by (simp add: mp_ok_def)
  have own: "mp_link (mempools k m) i = BOwner m" using used by (simp add: mp_used_def)
  have "rt_mp_free m i k' = None" using own one l' by (simp add: rt_mp_free_def mp' Let_def)
  moreover have "\<not> mp_ok m k'" using one l' by (simp add: mp_ok_def mp')
  ultimately show ?thesis using k'(1,2) l' used by (intro exI [of _ k']) (simp add: mp')
qed

section \<open>Initialisation\<close>

lemma link_blocks_chain:
  assumes "link_blocks n mem = Some lk"
  shows "bchain lk (Some 0) [0..<n]" "0 < n" "\<And>i. i < n \<Longrightarrow> \<exists>q. lk i = BNext q"
proof -
  show n: "0 < n" using assms by (simp add: link_blocks_def split: if_splits)
  have fold: "fold (\<lambda>i l. l(i := BNext (Some (i + 1)))) [0..<j] mem i =
      (if i < j then BNext (Some (i + 1)) else mem i)" for i j
    by (induction j) auto
  have lk: "lk i = (if i = n - 1 then BNext None else if i < n then BNext (Some (i + 1)) else mem i)" for i
    using assms fold [of n i] by (auto simp: link_blocks_def split: if_splits)
  then show "\<exists>q. lk i = BNext q" if "i < n" for i using that by auto
  have "a < n \<Longrightarrow> bchain lk (Some a) [a..<n]" for a
  proof (induction "n - a" arbitrary: a)
    case (Suc d)
    then show ?case by (cases "Suc a = n") (auto simp: upt_rec [of a] lk)
  qed simp
  from this [OF n] show "bchain lk (Some 0) [0..<n]" .
qed

lemma linked_pool_rep:
  assumes "link_blocks (unat n) mem = Some lk"
    "mp_link p = lk" "mp_block_list p = Some 0" "mp_block_total_count p = n" "mp_block_free_count p = n"
  shows "mp_rep m p [0..<unat n]"
proof -
  note l = link_blocks_chain [OF assms(1)]
  have "mp_used m p = {}"
  proof -
    have "mp_link p i \<noteq> BOwner m" if "i < unat n" for i using l(3) [OF that] assms(2) by auto
    then show ?thesis using assms(4) by (auto simp: mp_used_def)
  qed
  then show ?thesis using l(1) assms by (auto simp: mp_rep_def)
qed

section \<open>Witnesses\<close>

text \<open>A pool of two blocks, the first \<open>u\<close> of them in use and \<open>c\<close> threads counted as waiting.\<close>

definition demo_pool :: "nat \<Rightarrow> u32 \<Rightarrow> mempool" where
  "demo_pool u c = \<lparr>mp_link = (\<lambda>i. if i < u then BOwner 4 else if i = 0 then BNext (Some 1) else BNext None),
     mp_size = 16, mp_block_size = 4, mp_block_list = (if u = 0 then Some 0 else if u = 1 then Some 1 else None),
     mp_block_total_count = 2, mp_block_free_count = 2 - of_nat u, mp_suspend_thread_count = c\<rparr>"

definition demo_mp :: "nat \<Rightarrow> u32 \<Rightarrow> kernel \<Rightarrow> kernel" where
  "demo_mp u c = upd_mp 4 (\<lambda>_. demo_pool u c)"

lemma demo_mp_simps [simp]:
  "threads (demo_mp u c k) = threads k" "lists (demo_mp u c k) = lists k"
  "current_thread (demo_mp u c k) = current_thread k" "stat_of (demo_mp u c k) t = stat_of k t"
  "scheduler_lock_nest (demo_mp u c k) = scheduler_lock_nest k" "timer_list (demo_mp u c k) = timer_list k"
  "mempools (demo_mp u c k) 4 = demo_pool u c"
  "interrupt_nest (demo_mp u c k) = interrupt_nest k" "kinv 0 k \<Longrightarrow> kinv 0 (demo_mp u c k)"
  by (simp_all add: demo_mp_def upd_mp_kinv)

lemma demo_pool_rep:
  "mp_rep 4 (demo_pool 1 c) [1]" "mp_used 4 (demo_pool 1 c) = {0}"
  "mp_rep 4 (demo_pool 2 c) []" "mp_used 4 (demo_pool 2 c) = {0, 1}"
  by (auto simp: mp_rep_def mp_used_def demo_pool_def)

lemma mp_alloc_correct_witness:
  "\<exists>k'. rt_mp_alloc 4 10 (demo_mp 1 0 demo_run) = Some (Block 1, k') \<and>
     mp_used 4 (mempools k' 4) = {0, 1}"
proof -
  let ?k = "demo_mp 1 0 demo_run"
  have m: "may_block ?k 1" using demo_run_inv(2) by (auto simp: may_block_def)
  have ok: "mp_ok 4 ?k" using demo_pool_rep(1) by (auto simp: mp_ok_def) (simp add: demo_pool_def)
  have t: "(10 :: int) < 0x7fffffff" "length (lists ?k (LMp 4)) < 2 ^ 32 - 2" by simp_all
  have c: "mp_block_free_count (demo_pool 1 0) = 1" "mp_block_total_count (demo_pool 1 0) = 2"
    by (simp_all add: demo_pool_def)
  obtain i k' where "rt_mp_alloc 4 10 ?k = Some (Block i, k')" "i < 2" "i \<notin> {0}"
    "mp_used 4 (mempools k' 4) = insert i {0}"
    using mp_alloc_correct [OF m ok t] c demo_pool_rep(2) by auto
  moreover have "i = 1" using calculation(2,3) by simp
  ultimately show ?thesis by (auto simp: insert_commute)
qed

lemma demo_waiting_pool:
  "kinv 0 (demo_mp 2 1 (demo_wait (LMp 4)))" "mp_ok 4 (demo_mp 2 1 (demo_wait (LMp 4)))"
  "0 \<in> mp_used 4 (mempools (demo_mp 2 1 (demo_wait (LMp 4))) 4)"
  using demo_wait_inv [of "LMp 4"] demo_pool_rep(3,4)
  by (auto simp: mp_ok_def) (simp add: demo_pool_def)

lemma mp_free_correct_witness:
  "\<exists>k'. rt_mp_free 4 0 (demo_mp 2 1 (demo_wait (LMp 4))) = Some k' \<and> th_ready k' 2 \<and>
     mp_used 4 (mempools k' 4) = {1}"
proof -
  have cur: "current_thread (demo_mp 2 1 (demo_wait (LMp 4))) = Some 1" by simp
  from mp_free_correct [OF demo_waiting_pool(1) cur demo_waiting_pool(2,3)] demo_pool_rep(4)
  show ?thesis by auto
qed

lemma mp_timeout_breaks_free_witness:
  "\<exists>k'. rt_thread_timeout 2 (demo_mp 2 1 (demo_wait (LMp 4))) = Some k' \<and>
     lists k' (LMp 4) = [] \<and> rt_mp_free 4 0 k' = None"
proof -
  let ?k = "demo_mp 2 1 (demo_wait (LMp 4))"
  have "current_thread ?k = Some 1" "lists ?k (LMp 4) = [2]" "TThread 2 \<notin> set (timer_list ?k)"
    by simp_all (simp add: demo_wait_def demo_run_def demo_kernel_def)
  from mp_timeout_breaks_free [OF demo_waiting_pool(1) this(1) demo_waiting_pool(2) this(2,3)
      demo_waiting_pool(3)] show ?thesis by blast
qed

end
