(* ===== verification/Dataqueue.thy ===== *)
theory Dataqueue
  imports Sem
begin

text \<open>
  The data queue of \<^verbatim>\<open>components/drivers/src/dataqueue.c\<close>: a ring of (pointer, size) items
  between a driver and its client, with a list of blocked pushers (\<open>LDqPush n\<close>) and of blocked
  poppers (\<open>LDqPop n\<close>). The two indices are 16-bit numbers that only grow; the code subtracts
  them as signed 32-bit integers (C promotes them) and takes them modulo the size. A call of
  \<^verbatim>\<open>evt_notify\<close> is returned as an event next to the result.
\<close>

section \<open>Operations\<close>

datatype dq_event = Ev_Pop | Ev_Push | Ev_Lwm

type_synonym dq_item = "u32 \<times> u32"

definition upd_dq :: "nat \<Rightarrow> (dataqueue \<Rightarrow> dataqueue) \<Rightarrow> kernel \<Rightarrow> kernel" where
  "upd_dq n f k = k\<lparr>dataqueues := (dataqueues k)(n := f (dataqueues k n))\<rparr>"

text \<open>\<^verbatim>\<open>put_index - get_index\<close> after the promotion to \<^verbatim>\<open>int\<close>.\<close>

definition dq_diff :: "dataqueue \<Rightarrow> int" where
  "dq_diff q = uint (dq_put_index q) - uint (dq_get_index q)"

definition dq_full :: "dataqueue \<Rightarrow> bool" where
  "dq_full q \<longleftrightarrow> dq_diff q = uint (dq_size q)"

definition dq_empty :: "dataqueue \<Rightarrow> bool" where
  "dq_empty q \<longleftrightarrow> dq_get_index q = dq_put_index q"

text \<open>\<open>mem\<close> is the item array the heap gives.\<close>

definition rt_data_queue_init ::
    "nat \<Rightarrow> u16 \<Rightarrow> u16 \<Rightarrow> bool \<Rightarrow> dq_item list option \<Rightarrow> kernel \<Rightarrow> rt_err \<times> kernel" where
  "rt_data_queue_init n sz lwm notify mem k =
     (let k1 = upd_dq n (\<lambda>q. q\<lparr>dq_notify := notify, dq_size := sz, dq_lwm := lwm,
                 dq_get_index := 0, dq_put_index := 0\<rparr>) k;
          k2 = rt_ipc_object_init (LDqPop n) (rt_ipc_object_init (LDqPush n) k1)
      in case mem of
           None \<Rightarrow> (- RT_ENOMEM, upd_dq n (\<lambda>q. q\<lparr>dq_items := []\<rparr>) k2)
         | Some items \<Rightarrow> (RT_EOK, upd_dq n (\<lambda>q. q\<lparr>dq_items := items\<rparr>) k2))"

text \<open>Writing and reading the ring; \<open>None\<close> is a division by zero or an access outside the array.\<close>

definition dq_put :: "dq_item \<Rightarrow> dataqueue \<Rightarrow> dataqueue option" where
  "dq_put x q =
     (let i = unat (dq_put_index q) mod unat (dq_size q) in
      if dq_size q \<noteq> 0 \<and> i < length (dq_items q)
      then Some (q\<lparr>dq_items := (dq_items q)[i := x], dq_put_index := dq_put_index q + 1\<rparr>) else None)"

definition dq_peek :: "dataqueue \<Rightarrow> dq_item option" where
  "dq_peek q =
     (let i = unat (dq_get_index q) mod unat (dq_size q) in
      if dq_size q \<noteq> 0 \<and> i < length (dq_items q) then Some (dq_items q ! i) else None)"

definition notify_if :: "bool \<Rightarrow> dq_event \<Rightarrow> dq_event option" where
  "notify_if b e = (if b then Some e else None)"

definition dq_push_end :: "nat \<Rightarrow> dq_item \<Rightarrow> kernel \<Rightarrow> (outcome \<times> dq_event option \<times> kernel) option" where
  "dq_push_end n x k = do {
     q \<leftarrow> dq_put x (dataqueues k n);
     let k1 = upd_dq n (\<lambda>_. q) k;
     k2 \<leftarrow> wake_and_schedule (LDqPop n) k1;
     Some (Returned RT_EOK,
       if lists k1 (LDqPop n) \<noteq> [] then None else notify_if (dq_notify q) Ev_Push, k2)
   }"

definition dq_pop_end ::
    "nat \<Rightarrow> kernel \<Rightarrow> (outcome \<times> dq_item option \<times> dq_event option \<times> kernel) option" where
  "dq_pop_end n k = do {
     x \<leftarrow> dq_peek (dataqueues k n);
     let q = (dataqueues k n)\<lparr>dq_get_index := dq_get_index (dataqueues k n) + 1\<rparr>;
     let k1 = upd_dq n (\<lambda>_. q) k;
     if dq_diff q \<le> uint (dq_lwm q)
     then do {
       k2 \<leftarrow> wake_and_schedule (LDqPush n) k1;
       Some (Returned RT_EOK, Some x, notify_if (dq_notify q) Ev_Lwm, k2)
     }
     else Some (Returned RT_EOK, Some x, notify_if (dq_notify q) Ev_Pop, k1)
   }"

text \<open>The waiting loops; \<open>th\<close> is \<^verbatim>\<open>rt_thread_self()\<close>. A thread that waits again waits for the
  whole timeout again.\<close>

partial_function (option) dq_push_loop ::
    "nat \<Rightarrow> dq_item \<Rightarrow> int \<Rightarrow> nat option \<Rightarrow> kernel \<Rightarrow> (outcome \<times> dq_event option \<times> kernel) option" where
  "dq_push_loop n x timeout th k =
     (if dq_full (dataqueues k n)
      then if timeout = 0 then Some (Returned (- RT_ETIMEOUT), None, k)
        else if interrupt_nest k \<noteq> 0 then None
        else Option.bind th (\<lambda>t.
          Option.bind (suspend_current (LDqPush n) RT_IPC_FLAG_FIFO timeout t (set_error t RT_EOK k))
            (\<lambda>k2. if current_thread k2 = Some t
               then if error_of k2 t \<noteq> RT_EOK then Some (Returned (error_of k2 t), None, k2)
                    else dq_push_loop n x timeout th k2
               else Some (Blocked, None, k2)))
      else dq_push_end n x k)"

definition rt_data_queue_push ::
    "nat \<Rightarrow> dq_item \<Rightarrow> int \<Rightarrow> kernel \<Rightarrow> (outcome \<times> dq_event option \<times> kernel) option" where
  "rt_data_queue_push n x timeout k = dq_push_loop n x timeout (rt_thread_self k) k"

definition dq_push_resumed ::
    "nat \<Rightarrow> dq_item \<Rightarrow> int \<Rightarrow> nat \<Rightarrow> kernel \<Rightarrow> (outcome \<times> dq_event option \<times> kernel) option" where
  "dq_push_resumed n x timeout t k =
     (if error_of k t \<noteq> RT_EOK then Some (Returned (error_of k t), None, k)
      else dq_push_loop n x timeout (Some t) k)"

partial_function (option) dq_pop_loop ::
    "nat \<Rightarrow> int \<Rightarrow> nat option \<Rightarrow> kernel \<Rightarrow>
     (outcome \<times> dq_item option \<times> dq_event option \<times> kernel) option" where
  "dq_pop_loop n timeout th k =
     (if dq_empty (dataqueues k n)
      then if timeout = 0 then Some (Returned (- RT_ETIMEOUT), None, None, k)
        else if interrupt_nest k \<noteq> 0 then None
        else Option.bind th (\<lambda>t.
          Option.bind (suspend_current (LDqPop n) RT_IPC_FLAG_FIFO timeout t (set_error t RT_EOK k))
            (\<lambda>k2. if current_thread k2 = Some t
               then if error_of k2 t \<noteq> RT_EOK then Some (Returned (error_of k2 t), None, None, k2)
                    else dq_pop_loop n timeout th k2
               else Some (Blocked, None, None, k2)))
      else dq_pop_end n k)"

definition rt_data_queue_pop ::
    "nat \<Rightarrow> int \<Rightarrow> kernel \<Rightarrow> (outcome \<times> dq_item option \<times> dq_event option \<times> kernel) option" where
  "rt_data_queue_pop n timeout k = dq_pop_loop n timeout (rt_thread_self k) k"

definition dq_pop_resumed ::
    "nat \<Rightarrow> int \<Rightarrow> nat \<Rightarrow> kernel \<Rightarrow> (outcome \<times> dq_item option \<times> dq_event option \<times> kernel) option" where
  "dq_pop_resumed n timeout t k =
     (if error_of k t \<noteq> RT_EOK then Some (Returned (error_of k t), None, None, k)
      else dq_pop_loop n timeout (Some t) k)"

definition rt_data_queue_peak :: "nat \<Rightarrow> kernel \<Rightarrow> (rt_err \<times> dq_item option) option" where
  "rt_data_queue_peak n k =
     (if dq_empty (dataqueues k n) then Some (- RT_EEMPTY, None)
      else map_option (\<lambda>x. (RT_EOK, Some x)) (dq_peek (dataqueues k n)))"

definition rt_data_queue_reset :: "nat \<Rightarrow> kernel \<Rightarrow> kernel option" where
  "rt_data_queue_reset n k = do {
     let k1 = rt_enter_critical k;
     k2 \<leftarrow> rt_ipc_list_resume_all (LDqPop n) k1;
     k3 \<leftarrow> rt_ipc_list_resume_all (LDqPush n) k2;
     k4 \<leftarrow> rt_exit_critical k3;
     rt_schedule k4
   }"

section \<open>The ring\<close>

text \<open>
  The queue is in order as long as the put index has not wrapped: the indices count the items
  ever put and taken. \<open>dq_content\<close> are the items in the order in which they are taken.
\<close>

definition dq_ok :: "dataqueue \<Rightarrow> bool" where
  "dq_ok q \<longleftrightarrow> 0 < unat (dq_size q) \<and> length (dq_items q) = unat (dq_size q) \<and>
     unat (dq_get_index q) \<le> unat (dq_put_index q) \<and>
     unat (dq_put_index q) - unat (dq_get_index q) \<le> unat (dq_size q)"

definition dq_content :: "dataqueue \<Rightarrow> dq_item list" where
  "dq_content q = map (\<lambda>i. dq_items q ! (i mod unat (dq_size q)))
     [unat (dq_get_index q)..<unat (dq_put_index q)]"

lemma dq_diff_length:
  assumes "unat (dq_get_index q) \<le> unat (dq_put_index q)"
  shows "dq_diff q = int (length (dq_content q))"
  unfolding dq_diff_def dq_content_def uint_nat length_map length_upt
  by (rule of_nat_diff [OF assms, symmetric])

lemma dq_full_iff:
  assumes "dq_ok q" shows "dq_full q \<longleftrightarrow> length (dq_content q) = unat (dq_size q)"
proof -
  have le: "unat (dq_get_index q) \<le> unat (dq_put_index q)" using assms by (simp add: dq_ok_def)
  show ?thesis unfolding dq_full_def dq_diff_length [OF le] unfolding uint_nat by (rule of_nat_eq_iff)
qed

lemma dq_empty_iff:
  assumes "dq_ok q" shows "dq_empty q \<longleftrightarrow> dq_content q = []"
proof -
  have le: "unat (dq_get_index q) \<le> unat (dq_put_index q)" using assms by (simp add: dq_ok_def)
  have "dq_empty q \<longleftrightarrow> unat (dq_get_index q) = unat (dq_put_index q)"
    by (simp add: dq_empty_def word_unat_eq_iff)
  then show ?thesis using le by (auto simp: dq_content_def)
qed

lemma mod_close:
  assumes "i < j" "j - i < (n::nat)"
  shows "i mod n \<noteq> j mod n"
proof
  assume "i mod n = j mod n"
  then have "j mod n = i mod n" by simp
  then have "n dvd j - i" using assms(1) by (simp add: mod_eq_dvd_iff_nat)
  then show False using assms by (auto dest: dvd_imp_le)
qed

lemma dq_put_spec:
  assumes ok: "dq_ok q" and space: "length (dq_content q) < unat (dq_size q)"
    and nw: "unat (dq_put_index q) < 65535"
  obtains q' where "dq_put x q = Some q'" "dq_ok q'" "dq_content q' = dq_content q @ [x]"
    "dq_size q' = dq_size q" "dq_lwm q' = dq_lwm q" "dq_notify q' = dq_notify q"
    "dq_put_index q' = dq_put_index q + 1" "dq_get_index q' = dq_get_index q"
proof -
  define n p g where "n = unat (dq_size q)" and "p = unat (dq_put_index q)"
    and "g = unat (dq_get_index q)"
  have n: "0 < n" "length (dq_items q) = n" "g \<le> p" "p - g < n"
    using ok space by (simp_all add: dq_ok_def dq_content_def n_def p_def g_def)
  let ?q = "q\<lparr>dq_items := (dq_items q)[p mod n := x], dq_put_index := dq_put_index q + 1\<rparr>"
  have p1: "unat (dq_put_index q + 1) = p + 1" using nw by (simp add: unat_word_ariths p_def)
  have pm: "p mod n < length (dq_items q)" using n by simp
  have "dq_size q \<noteq> 0" using n(1) by (auto simp: n_def)
  then have put: "dq_put x q = Some ?q" using pm by (simp add: dq_put_def Let_def p_def n_def)
  have ok': "dq_ok ?q" using n by (simp add: dq_ok_def p1 flip: n_def g_def)
  have other: "(dq_items q)[p mod n := x] ! (i mod n) = dq_items q ! (i mod n)"
    if "g \<le> i" "i < p" for i
    using mod_close [of i p n] that n(4) diff_le_mono2 [OF that(1), of p] by simp
  have "dq_content ?q = map (\<lambda>i. (dq_items q)[p mod n := x] ! (i mod n)) [g..<p + 1]"
    by (simp add: dq_content_def p1 flip: n_def g_def)
  also have "\<dots> = map (\<lambda>i. (dq_items q)[p mod n := x] ! (i mod n)) [g..<p] @ [x]"
    using n(3) pm by simp
  also have "map (\<lambda>i. (dq_items q)[p mod n := x] ! (i mod n)) [g..<p] = dq_content q"
    unfolding dq_content_def by (rule map_cong) (simp_all add: other flip: n_def g_def p_def)
  finally show thesis using that [OF put ok'] by simp
qed

lemma dq_pop_spec:
  assumes ok: "dq_ok q" and c: "dq_content q = x # xs"
  defines "q' \<equiv> q\<lparr>dq_get_index := dq_get_index q + 1\<rparr>"
  shows "dq_peek q = Some x" "dq_ok q'" "dq_content q' = xs" "dq_diff q' = int (length xs)"
proof -
  let ?n = "unat (dq_size q)" and ?p = "unat (dq_put_index q)" and ?g = "unat (dq_get_index q)"
  have n: "0 < ?n" "length (dq_items q) = ?n" using ok by (simp_all add: dq_ok_def)
  have lt: "?g < ?p" using c by (cases "?g < ?p") (simp_all add: dq_content_def)
  have "?p < 65536" using unsigned_less [of "dq_put_index q"] by simp
  then have g1: "unat (dq_get_index q + 1) = ?g + 1" using lt by (simp add: unat_word_ariths)
  have ct: "dq_content q = dq_items q ! (?g mod ?n) # dq_content q'"
    using lt by (simp add: dq_content_def upt_conv_Cons q'_def g1)
  then show xs: "dq_content q' = xs" and "dq_peek q = Some x"
    using c n by (auto simp: dq_peek_def Let_def)
  show "dq_ok q'" using ok lt g1 by (auto simp: dq_ok_def q'_def)
  have "unat (dq_get_index q') \<le> unat (dq_put_index q')" using lt g1 by (simp add: q'_def)
  from dq_diff_length [OF this] show "dq_diff q' = int (length xs)" by (simp add: xs)
qed

section \<open>The operations on the kernel\<close>

lemma upd_dq_simps [simp]:
  "dataqueues (upd_dq n f k) = (dataqueues k)(n := f (dataqueues k n))"
  "threads (upd_dq n f k) = threads k" "lists (upd_dq n f k) = lists k"
  "current_thread (upd_dq n f k) = current_thread k" "stat_of (upd_dq n f k) u = stat_of k u"
  "scheduler_lock_nest (upd_dq n f k) = scheduler_lock_nest k"
  "tick (upd_dq n f k) = tick k" "interrupt_nest (upd_dq n f k) = interrupt_nest k"
  by (simp_all add: upd_dq_def stat_of_def)

lemma upd_dq_kinv: "kinv d k \<Longrightarrow> kinv d (upd_dq n f k)"
  by (erule kinv_cong) (simp_all add: upd_dq_def)

text \<open>The pushed item is added, and the first waiting popper is woken.\<close>

lemma dq_push_end_spec:
  assumes inv: "kinv 0 k" and cur: "current_thread k \<noteq> None"
    and put: "dq_put x (dataqueues k n) = Some q"
  obtains ev k' where "dq_push_end n x k = Some (Returned RT_EOK, ev, k')" "kinv 0 k'"
    "current_thread k' \<noteq> None" "dataqueues k' n = q"
    "lists k' (LDqPop n) = tl (lists k (LDqPop n))"
    "lists k (LDqPop n) \<noteq> [] \<longrightarrow> th_ready k' (hd (lists k (LDqPop n))) \<and>
       (scheduler_lock_nest k = 0 \<longrightarrow> current_top k')"
    "ev = (if lists k (LDqPop n) = [] \<and> dq_notify q then Some Ev_Push else None)"
proof -
  let ?k1 = "upd_dq n (\<lambda>_. q) k"
  have inv1: "kinv 0 ?k1" by (rule upd_dq_kinv [OF inv])
  have pre: "current_thread ?k1 \<noteq> None" "wait_head (LDqPop n)" using cur by simp_all
  obtain k' where k': "wake_and_schedule (LDqPop n) ?k1 = Some k'" "kinv 0 k'"
    "current_thread k' \<noteq> None" "core_only ?k1 k'" "lists k' (LDqPop n) = tl (lists ?k1 (LDqPop n))"
    "\<forall>h'. wait_head h' \<longrightarrow> h' \<noteq> LDqPop n \<longrightarrow> lists k' h' = lists ?k1 h'"
    "\<forall>u. error_of k' u = error_of ?k1 u"
    "lists ?k1 (LDqPop n) \<noteq> [] \<longrightarrow> th_ready k' (hd (lists ?k1 (LDqPop n))) \<and>
       (scheduler_lock_nest ?k1 = 0 \<longrightarrow> current_top k')"
    "lists ?k1 (LDqPop n) = [] \<longrightarrow> k' = ?k1"
    by (rule wake_and_schedule_spec [OF inv1 pre])
  let ?ev = "if lists k (LDqPop n) = [] \<and> dq_notify q then Some Ev_Push else None"
  have d: "dataqueues k' = dataqueues ?k1" using k'(4) by (simp add: core_only_frame)
  show ?thesis
  proof (rule that [of ?ev k'])
    show "dq_push_end n x k = Some (Returned RT_EOK, ?ev, k')"
      using k'(1) put by (simp add: dq_push_end_def notify_if_def)
  qed (use k' in \<open>simp_all add: d\<close>)
qed

text \<open>The oldest item is taken; once the queue is down to the low-water mark the first waiting
  pusher is woken.\<close>

lemma dq_pop_end_spec:
  assumes inv: "kinv 0 k" and cur: "current_thread k \<noteq> None"
    and ok: "dq_ok (dataqueues k n)" and c: "dq_content (dataqueues k n) = x # xs"
  defines "low \<equiv> length xs \<le> unat (dq_lwm (dataqueues k n))"
  obtains ev k' where "dq_pop_end n k = Some (Returned RT_EOK, Some x, ev, k')" "kinv 0 k'"
    "current_thread k' \<noteq> None" "dq_ok (dataqueues k' n)" "dq_content (dataqueues k' n) = xs"
    "low \<longrightarrow> lists k' (LDqPush n) = tl (lists k (LDqPush n)) \<and>
       (lists k (LDqPush n) \<noteq> [] \<longrightarrow> th_ready k' (hd (lists k (LDqPush n))) \<and>
         (scheduler_lock_nest k = 0 \<longrightarrow> current_top k'))"
    "\<not> low \<longrightarrow> lists k' = lists k \<and> current_thread k' = current_thread k"
    "ev = (if dq_notify (dataqueues k n) then Some (if low then Ev_Lwm else Ev_Pop) else None)"
proof -
  define q where "q = (dataqueues k n)\<lparr>dq_get_index := dq_get_index (dataqueues k n) + 1\<rparr>"
  note p = dq_pop_spec [OF ok c, folded q_def]
  have qf: "dq_lwm q = dq_lwm (dataqueues k n)" "dq_notify q = dq_notify (dataqueues k n)"
    by (simp_all add: q_def)
  have low: "dq_diff q \<le> uint (dq_lwm q) \<longleftrightarrow> low"
    unfolding p(4) qf(1) low_def uint_nat by (rule of_nat_le_iff)
  let ?k1 = "upd_dq n (\<lambda>_. q) k"
  let ?ev = "if dq_notify (dataqueues k n) then Some (if low then Ev_Lwm else Ev_Pop) else None"
  have inv1: "kinv 0 ?k1" by (rule upd_dq_kinv [OF inv])
  show ?thesis
  proof (cases low)
    case False
    show ?thesis
    proof (rule that [of ?ev ?k1])
      show "dq_pop_end n k = Some (Returned RT_EOK, Some x, ?ev, ?k1)"
        using p(1) False low qf(2) by (simp add: dq_pop_end_def Let_def notify_if_def flip: q_def)
    qed (use inv1 cur p False in simp_all)
  next
    case True
    have pre: "current_thread ?k1 \<noteq> None" "wait_head (LDqPush n)" using cur by simp_all
    obtain k' where k': "wake_and_schedule (LDqPush n) ?k1 = Some k'" "kinv 0 k'"
      "current_thread k' \<noteq> None" "core_only ?k1 k'" "lists k' (LDqPush n) = tl (lists ?k1 (LDqPush n))"
      "\<forall>h'. wait_head h' \<longrightarrow> h' \<noteq> LDqPush n \<longrightarrow> lists k' h' = lists ?k1 h'"
      "\<forall>u. error_of k' u = error_of ?k1 u"
      "lists ?k1 (LDqPush n) \<noteq> [] \<longrightarrow> th_ready k' (hd (lists ?k1 (LDqPush n))) \<and>
         (scheduler_lock_nest ?k1 = 0 \<longrightarrow> current_top k')"
      "lists ?k1 (LDqPush n) = [] \<longrightarrow> k' = ?k1"
      by (rule wake_and_schedule_spec [OF inv1 pre])
    have d: "dataqueues k' = dataqueues ?k1" using k'(4) by (simp add: core_only_frame)
    show ?thesis
    proof (rule that [of ?ev k'])
      show "dq_pop_end n k = Some (Returned RT_EOK, Some x, ?ev, k')"
        using p(1) True low k'(1) qf(2) by (simp add: dq_pop_end_def Let_def notify_if_def flip: q_def)
    qed (use k' p True in \<open>simp_all add: d\<close>)
  qed
qed

section \<open>Pushing and popping\<close>

text \<open>\<^verbatim>\<open>rt_data_queue_push\<close>, as long as the 16-bit index does not wrap: with room the item
  goes behind the others and the first waiting popper becomes ready; a full queue gives
  \<^verbatim>\<open>RT_ETIMEOUT\<close> for timeout 0, and otherwise suspends the caller behind the waiting pushers.\<close>

theorem dq_push_correct:
  assumes m: "may_block k t" and ok: "dq_ok (dataqueues k n)" and time: "timeout < 0x7fffffff"
    and nw: "unat (dq_put_index (dataqueues k n)) < 65535"
  shows "\<exists>r ev k'. rt_data_queue_push n x timeout k = Some (r, ev, k') \<and> kinv 0 k' \<and>
    dq_ok (dataqueues k' n) \<and>
    (if length (dq_content (dataqueues k n)) < unat (dq_size (dataqueues k n))
     then r = Returned RT_EOK \<and> dq_content (dataqueues k' n) = dq_content (dataqueues k n) @ [x] \<and>
       lists k' (LDqPop n) = tl (lists k (LDqPop n)) \<and>
       (lists k (LDqPop n) \<noteq> [] \<longrightarrow> th_ready k' (hd (lists k (LDqPop n))) \<and> current_top k')
     else if timeout = 0 then r = Returned (- RT_ETIMEOUT) \<and> k' = k
     else r = Blocked \<and> dataqueues k' = dataqueues k \<and> current_top k' \<and> th_suspended k' t \<and>
       lists k' (LDqPush n) = lists k (LDqPush n) @ [t])"
proof -
  let ?q = "dataqueues k n"
  have inv: "kinv 0 k" and run: "in_thread_context k" "rt_thread_self k = Some t"
    and cur: "current_thread k \<noteq> None" and unl: "scheduler_lock_nest k = 0"
    using m by (auto simp: may_block_def in_thread_context_def rt_thread_self_def)
  have "length (dq_content ?q) \<le> unat (dq_size ?q)" using ok by (simp add: dq_content_def dq_ok_def)
  then consider "length (dq_content ?q) < unat (dq_size ?q)" "\<not> dq_full ?q"
    | "\<not> length (dq_content ?q) < unat (dq_size ?q)" "dq_full ?q" "timeout = 0"
    | "\<not> length (dq_content ?q) < unat (dq_size ?q)" "dq_full ?q" "timeout \<noteq> 0"
    unfolding dq_full_iff [OF ok] by linarith
  then show ?thesis
  proof cases
    case 1
    obtain q where q: "dq_put x ?q = Some q" "dq_ok q" "dq_content q = dq_content ?q @ [x]"
      by (rule dq_put_spec [OF ok 1(1) nw, of x])
    obtain ev k' where k': "dq_push_end n x k = Some (Returned RT_EOK, ev, k')" "kinv 0 k'"
      "current_thread k' \<noteq> None" "dataqueues k' n = q"
      "lists k' (LDqPop n) = tl (lists k (LDqPop n))"
      "lists k (LDqPop n) \<noteq> [] \<longrightarrow> th_ready k' (hd (lists k (LDqPop n))) \<and>
         (scheduler_lock_nest k = 0 \<longrightarrow> current_top k')"
      by (rule dq_push_end_spec [OF inv cur q(1)])
    have "rt_data_queue_push n x timeout k = Some (Returned RT_EOK, ev, k')"
      using 1(2) k'(1) by (simp add: rt_data_queue_push_def dq_push_loop.simps)
    then show ?thesis using 1(1) k' q unl
      by (intro exI [of _ "Returned RT_EOK"] exI [of _ ev] exI [of _ k']) simp
  next
    case 2
    then show ?thesis using inv ok by (simp add: rt_data_queue_push_def dq_push_loop.simps)
  next
    case 3
    have flag: "flag_ok RT_IPC_FLAG_FIFO" by (simp add: flag_ok_def)
    obtain k' where k': "suspend_current (LDqPush n) RT_IPC_FLAG_FIFO timeout t (set_error t RT_EOK k) = Some k'"
      "kinv 0 k'" "current_top k'" "current_thread k' \<noteq> Some t" "core_only k k'" "th_suspended k' t"
      "\<forall>u. error_of k' u = (if u = t then RT_EOK else error_of k u)"
      "lists k' (LDqPush n) = wait_insert RT_IPC_FLAG_FIFO k t (lists k (LDqPush n))"
      by (rule dq_push_q.block [OF m flag time])
    have d: "dataqueues k' = dataqueues k" using k'(5) by (simp add: core_only_frame)
    have "rt_data_queue_push n x timeout k = Some (Blocked, None, k')"
      using 3 m run k'(1,4) by (simp add: rt_data_queue_push_def dq_push_loop.simps may_block_def)
    then show ?thesis using 3 ok k'(2,3,6-8)
      by (intro exI [of _ Blocked] exI [of _ None] exI [of _ k']) (simp add: d wait_insert_def)
  qed
qed

text \<open>\<^verbatim>\<open>rt_data_queue_pop\<close>: it takes the oldest item; when at most \<^verbatim>\<open>lwm\<close> items are left it
  wakes the first waiting pusher, and otherwise nobody, however many pushers wait; an empty
  queue gives \<^verbatim>\<open>RT_ETIMEOUT\<close> for timeout 0 and otherwise suspends the caller.\<close>

theorem dq_pop_correct:
  assumes m: "may_block k t" and ok: "dq_ok (dataqueues k n)" and time: "timeout < 0x7fffffff"
  shows "\<exists>r got ev k'. rt_data_queue_pop n timeout k = Some (r, got, ev, k') \<and> kinv 0 k' \<and>
    dq_ok (dataqueues k' n) \<and>
    (case dq_content (dataqueues k n) of
       x # xs \<Rightarrow> r = Returned RT_EOK \<and> got = Some x \<and> dq_content (dataqueues k' n) = xs \<and>
         (if length xs \<le> unat (dq_lwm (dataqueues k n))
          then lists k' (LDqPush n) = tl (lists k (LDqPush n)) \<and>
            (lists k (LDqPush n) \<noteq> [] \<longrightarrow> th_ready k' (hd (lists k (LDqPush n))) \<and> current_top k')
          else lists k' = lists k)
     | [] \<Rightarrow> got = None \<and>
         (if timeout = 0 then r = Returned (- RT_ETIMEOUT) \<and> k' = k
          else r = Blocked \<and> dataqueues k' = dataqueues k \<and> current_top k' \<and> th_suspended k' t \<and>
            lists k' (LDqPop n) = lists k (LDqPop n) @ [t]))"
proof -
  let ?q = "dataqueues k n"
  have inv: "kinv 0 k" and run: "in_thread_context k" "rt_thread_self k = Some t"
    and cur: "current_thread k \<noteq> None" and unl: "scheduler_lock_nest k = 0"
    using m by (auto simp: may_block_def in_thread_context_def rt_thread_self_def)
  show ?thesis
  proof (cases "dq_content ?q")
    case (Cons x xs)
    obtain ev k' where k': "dq_pop_end n k = Some (Returned RT_EOK, Some x, ev, k')" "kinv 0 k'"
      "current_thread k' \<noteq> None" "dq_ok (dataqueues k' n)" "dq_content (dataqueues k' n) = xs"
      "length xs \<le> unat (dq_lwm ?q) \<longrightarrow> lists k' (LDqPush n) = tl (lists k (LDqPush n)) \<and>
         (lists k (LDqPush n) \<noteq> [] \<longrightarrow> th_ready k' (hd (lists k (LDqPush n))) \<and>
           (scheduler_lock_nest k = 0 \<longrightarrow> current_top k'))"
      "\<not> length xs \<le> unat (dq_lwm ?q) \<longrightarrow> lists k' = lists k \<and> current_thread k' = current_thread k"
      by (rule dq_pop_end_spec [OF inv cur ok Cons])
    have "\<not> dq_empty ?q" using Cons dq_empty_iff [OF ok] by simp
    then have "rt_data_queue_pop n timeout k = Some (Returned RT_EOK, Some x, ev, k')"
      using k'(1) by (simp add: rt_data_queue_pop_def dq_pop_loop.simps)
    then show ?thesis using k'(2,4-7) unl Cons
      by (intro exI [of _ "Returned RT_EOK"] exI [of _ "Some x"] exI [of _ ev] exI [of _ k']) simp
  next
    case Nil
    then have e: "dq_empty ?q" using dq_empty_iff [OF ok] by simp
    show ?thesis
    proof (cases "timeout = 0")
      case True
      then show ?thesis using inv ok e Nil by (simp add: rt_data_queue_pop_def dq_pop_loop.simps)
    next
      case False
      have flag: "flag_ok RT_IPC_FLAG_FIFO" by (simp add: flag_ok_def)
      obtain k' where k': "suspend_current (LDqPop n) RT_IPC_FLAG_FIFO timeout t (set_error t RT_EOK k) = Some k'"
        "kinv 0 k'" "current_top k'" "current_thread k' \<noteq> Some t" "core_only k k'" "th_suspended k' t"
        "\<forall>u. error_of k' u = (if u = t then RT_EOK else error_of k u)"
        "lists k' (LDqPop n) = wait_insert RT_IPC_FLAG_FIFO k t (lists k (LDqPop n))"
        by (rule dq_pop_q.block [OF m flag time])
      have d: "dataqueues k' = dataqueues k" using k'(5) by (simp add: core_only_frame)
      have "rt_data_queue_pop n timeout k = Some (Blocked, None, None, k')"
        using False e m run k'(1,4) by (simp add: rt_data_queue_pop_def dq_pop_loop.simps may_block_def)
      then show ?thesis using False ok Nil k'(2,3,6-8)
        by (intro exI [of _ Blocked] exI [of _ None] exI [of _ None] exI [of _ k'])
          (simp add: d wait_insert_def)
    qed
  qed
qed

section \<open>The 16-bit indices wrap\<close>

text \<open>After 65536 pushes the test for a full queue, \<^verbatim>\<open>put_index - get_index == size\<close> in
  \<^verbatim>\<open>int\<close>, never holds while the put index is the smaller one: a push with timeout 0 into a queue
  whose slots are all unread is accepted and replaces the oldest item.\<close>

theorem dq_wrap_overruns:
  assumes inv: "kinv 0 k" and cur: "current_thread k \<noteq> None"
    and wrapped: "dq_put_index (dataqueues k n) < dq_get_index (dataqueues k n)"
    and full: "unat (dq_put_index (dataqueues k n) - dq_get_index (dataqueues k n)) =
      unat (dq_size (dataqueues k n))"
    and sz: "unat (dq_size (dataqueues k n)) dvd 65536"
    and mem: "length (dq_items (dataqueues k n)) = unat (dq_size (dataqueues k n))"
  shows "\<exists>ev k'. rt_data_queue_push n x 0 k = Some (Returned RT_EOK, ev, k') \<and>
    dq_peek (dataqueues k' n) = Some x"
proof -
  let ?q = "dataqueues k n"
  define p g s where "p = unat (dq_put_index ?q)" and "g = unat (dq_get_index ?q)"
    and "s = unat (dq_size ?q)"
  have lt: "p < g" using wrapped by (simp add: word_less_nat_alt p_def g_def)
  have gb: "g < 65536" using unsigned_less [of "dq_get_index ?q"] by (simp add: g_def)
  have s: "s = p + 65536 - g"
    using full lt gb by (simp add: unat_sub_if' p_def g_def s_def word_less_nat_alt)
  have s0: "0 < s" using s gb by simp
  have "p + 65536 = g + s" using s gb by simp
  then have "(p + 65536) mod s = g mod s" by simp
  moreover have "(p + 65536) mod s = p mod s"
    using sz by (metis add.right_neutral dvd_imp_mod_0 mod_add_right_eq s_def)
  ultimately have slot: "p mod s = g mod s" by simp
  have "\<not> dq_full ?q"
  proof -
    have "dq_diff ?q < 0" using lt by (simp add: dq_diff_def p_def g_def word_less_def wrapped [unfolded word_less_def])
    moreover have "0 \<le> uint (dq_size ?q)" by simp
    ultimately show ?thesis unfolding dq_full_def by linarith
  qed
  let ?q' = "?q\<lparr>dq_items := (dq_items ?q)[p mod s := x], dq_put_index := dq_put_index ?q + 1\<rparr>"
  have pm: "p mod s < length (dq_items ?q)" using s0 mem by (simp add: s_def)
  have nz: "dq_size ?q \<noteq> 0" using s0 by (auto simp: s_def)
  have put: "dq_put x ?q = Some ?q'" using pm nz by (simp add: dq_put_def Let_def p_def s_def)
  obtain ev k' where k': "dq_push_end n x k = Some (Returned RT_EOK, ev, k')" "kinv 0 k'"
    "current_thread k' \<noteq> None" "dataqueues k' n = ?q'"
    by (rule dq_push_end_spec [OF inv cur put])
  have "dq_peek ?q' = Some x"
    using pm nz slot by (simp add: dq_peek_def Let_def flip: s_def g_def)
  moreover have "rt_data_queue_push n x 0 k = Some (Returned RT_EOK, ev, k')"
    using \<open>\<not> dq_full ?q\<close> k'(1) by (simp add: rt_data_queue_push_def dq_push_loop.simps)
  ultimately show ?thesis using k'(4) by auto
qed

section \<open>Reset\<close>

text \<open>\<^verbatim>\<open>rt_data_queue_reset\<close> wakes every waiting thread with \<^verbatim>\<open>RT_ERROR\<close>, but keeps the items.\<close>

theorem dq_reset_wakes_all:
  assumes inv: "kinv 0 k" and cur: "current_thread k = Some t" and ready: "th_ready k t"
    and unl: "scheduler_lock_nest k = 0"
  shows "\<exists>k'. rt_data_queue_reset n k = Some k' \<and> kinv 0 k' \<and> current_top k' \<and>
    dataqueues k' = dataqueues k \<and> lists k' (LDqPush n) = [] \<and> lists k' (LDqPop n) = [] \<and>
    (\<forall>w. w \<in> set (lists k (LDqPop n)) \<or> w \<in> set (lists k (LDqPush n)) \<longrightarrow>
       th_ready k' w \<and> error_of k' w = - RT_ERROR)"
proof -
  let ?k1 = "rt_enter_critical k"
  have inv1: "kinv 0 ?k1" by (rule kinv_cong [OF inv]) (simp_all add: rt_enter_critical_def)
  have f1: "lists ?k1 = lists k" "threads ?k1 = threads k" "current_thread ?k1 = current_thread k"
    "dataqueues ?k1 = dataqueues k" "scheduler_lock_nest ?k1 = 1"
    using unl by (simp_all add: rt_enter_critical_def)
  from resume_all_spec [OF inv1, of "LDqPop n"] obtain k2 where
    k2: "rt_ipc_list_resume_all (LDqPop n) ?k1 = Some k2" "kinv 0 k2" "core_only ?k1 k2"
    "lists k2 (LDqPop n) = []" "\<forall>h'. wait_head h' \<longrightarrow> h' \<noteq> LDqPop n \<longrightarrow> lists k2 h' = lists ?k1 h'"
    "current_thread k2 = current_thread ?k1"
    "\<forall>u. threads k2 u = (if u \<in> set (lists ?k1 (LDqPop n))
       then (threads ?k1 u)\<lparr>th_error := - RT_ERROR,
              th_stat := with_stat RT_THREAD_READY (th_stat (threads ?k1 u))\<rparr>
       else threads ?k1 u)" by auto
  from resume_all_spec [OF k2(2), of "LDqPush n"] obtain k3 where
    k3: "rt_ipc_list_resume_all (LDqPush n) k2 = Some k3" "kinv 0 k3" "core_only k2 k3"
    "lists k3 (LDqPush n) = []" "\<forall>h'. wait_head h' \<longrightarrow> h' \<noteq> LDqPush n \<longrightarrow> lists k3 h' = lists k2 h'"
    "current_thread k3 = current_thread k2"
    "\<forall>u. threads k3 u = (if u \<in> set (lists k2 (LDqPush n))
       then (threads k2 u)\<lparr>th_error := - RT_ERROR,
              th_stat := with_stat RT_THREAD_READY (th_stat (threads k2 u))\<rparr>
       else threads k2 u)" by auto
  have push2: "lists k2 (LDqPush n) = lists k (LDqPush n)" using k2(5) by (simp add: f1)
  have th3: "threads k3 u = (if u \<in> set (lists k (LDqPop n)) \<or> u \<in> set (lists k (LDqPush n))
       then (threads k u)\<lparr>th_error := - RT_ERROR,
              th_stat := with_stat RT_THREAD_READY (th_stat (threads k u))\<rparr>
       else threads k u)" for u
  proof -
    have "\<not> (u \<in> set (lists k (LDqPop n)) \<and> u \<in> set (lists k (LDqPush n)))"
      using waiting_one_list [OF inv, of u "LDqPop n" "LDqPush n"] by auto
    then show ?thesis using k3(7) k2(7) by (auto simp: push2 f1)
  qed
  have woken: "th_ready k3 u \<and> error_of k3 u = - RT_ERROR"
    if "u \<in> set (lists k (LDqPop n)) \<or> u \<in> set (lists k (LDqPush n))" for u
    using th3 [of u] that by (auto simp: stat_of_def with_stat_mask)
  have r3: "th_ready k3 t"
    using th3 [of t] ready woken [of t] by (auto simp: stat_of_def split: if_splits)
  let ?k4 = "k3\<lparr>scheduler_lock_nest := 0\<rparr>"
  have lock3: "scheduler_lock_nest k3 = 1" using k2(3) k3(3) f1(5) by (simp add: core_only_frame)
  have pre4: "kinv 0 ?k4" "th_ready ?k4 t" "current_thread ?k4 \<noteq> None"
    using kinv_cong [OF k3(2), of ?k4] r3 cur k3(6) k2(6) by (simp_all add: stat_of_def f1)
  obtain k5 where k5: "rt_schedule ?k4 = Some k5" "switch_only ?k4 k5" "kinv 0 k5" "core_only ?k4 k5"
    "current_thread k5 \<noteq> None" by (rule schedule_kinv [OF pre4])
  note f5 = switch_only_frame [OF k5(2)]
  have r5: "th_ready k5 t" using r3 by (simp add: stat_of_def f5)
  obtain k' where k': "rt_schedule k5 = Some k'" "switch_only k5 k'" "kinv 0 k'" "core_only k5 k'"
    "current_thread k' \<noteq> None" "scheduler_lock_nest k5 = 0 \<longrightarrow> current_top k'"
    by (rule schedule_kinv [OF k5(3) r5 k5(5)])
  note f' = switch_only_frame [OF k'(2)]
  have "rt_exit_critical k3 = Some k5"
    using k5(1) pre4(3) by (simp add: rt_exit_critical_def lock3)
  then have "rt_data_queue_reset n k = Some k'"
    using k2(1) k3(1) k'(1) by (simp add: rt_data_queue_reset_def)
  moreover have "lists k' (LDqPush n) = []" "lists k' (LDqPop n) = []"
    using k3(4,5) k2(4) by (simp_all add: f' f5)
  moreover have "th_ready k' u \<and> error_of k' u = - RT_ERROR"
    if "u \<in> set (lists k (LDqPop n)) \<or> u \<in> set (lists k (LDqPush n))" for u
    using woken [OF that] by (simp add: f' f5 stat_of_def)
  moreover have "dataqueues k' = dataqueues k"
    using k2(3) k3(3) by (simp add: f' f5 core_only_frame f1)
  ultimately show ?thesis using k'(3,6) by (intro exI [of _ k']) (simp add: f5)
qed

section \<open>Witnesses\<close>

definition demo_dq :: "u16 \<Rightarrow> u16 \<Rightarrow> kernel \<Rightarrow> kernel" where
  "demo_dq g p = upd_dq 4 (\<lambda>_. \<lparr>dq_size = 2, dq_lwm = 1, dq_get_index = g, dq_put_index = p,
     dq_items = [(100, 10), (200, 20)], dq_notify = False\<rparr>)"

lemma demo_dq_simps [simp]:
  "dataqueues (demo_dq g p k) 4 = \<lparr>dq_size = 2, dq_lwm = 1, dq_get_index = g, dq_put_index = p,
     dq_items = [(100, 10), (200, 20)], dq_notify = False\<rparr>"
  "lists (demo_dq g p k) = lists k" "current_thread (demo_dq g p k) = current_thread k"
  "stat_of (demo_dq g p k) u = stat_of k u"
  "scheduler_lock_nest (demo_dq g p k) = scheduler_lock_nest k"
  "interrupt_nest (demo_dq g p k) = interrupt_nest k" "kinv 0 k \<Longrightarrow> kinv 0 (demo_dq g p k)"
  by (simp_all add: demo_dq_def upd_dq_kinv)

lemma dq_push_correct_witness:
  "\<exists>k'. rt_data_queue_push 4 (7, 8) (- 1) (demo_dq 0 2 demo_run) = Some (Blocked, k') \<and>
    lists (snd k') (LDqPush 4) = [1]"
proof -
  let ?k = "demo_dq 0 2 demo_run"
  have m: "may_block ?k 1" using demo_run_inv(2) by (auto simp: may_block_def)
  have ok: "dq_ok (dataqueues ?k 4)" by (simp add: dq_ok_def)
  have c: "\<not> length (dq_content (dataqueues ?k 4)) < unat (dq_size (dataqueues ?k 4))"
    by (simp add: dq_content_def)
  have t: "(- 1 :: int) < 0x7fffffff" "unat (dq_put_index (dataqueues ?k 4)) < 65535" by simp_all
  from dq_push_correct [OF m ok t, of "(7, 8)"] c show ?thesis by auto
qed

lemma dq_pop_correct_witness:
  "\<exists>ev k'. rt_data_queue_pop 4 0 (demo_dq 0 2 (demo_wait (LDqPush 4))) =
     Some (Returned RT_EOK, Some (100, 10), ev, k') \<and> lists k' (LDqPush 4) = [] \<and> th_ready k' 2"
proof -
  let ?k = "demo_dq 0 2 (demo_wait (LDqPush 4))"
  have r: "th_ready demo_run 0" "th_ready demo_run 1" by (rule demo_facts)+
  have "kinv 0 ?k" using demo_wait_inv [of "LDqPush 4"] by simp
  then have m: "may_block ?k 1" using r by (auto simp: may_block_def simp del: One_nat_def intro!: exI [of _ 0])
  have ok: "dq_ok (dataqueues ?k 4)" by (simp add: dq_ok_def)
  have c: "dq_content (dataqueues ?k 4) = [(100, 10), (200, 20)]" by (simp add: dq_content_def upt_rec)
  have t: "(0 :: int) < 0x7fffffff" by simp
  from dq_pop_correct [OF m ok t] show ?thesis unfolding c by auto
qed

lemma dq_wrap_overruns_witness:
  "\<exists>ev k'. rt_data_queue_push 4 (7, 8) 0 (demo_dq 65534 0 demo_run) = Some (Returned RT_EOK, ev, k') \<and>
    dq_peek (dataqueues k' 4) = Some (7, 8)"
  by (rule dq_wrap_overruns) (use demo_run_inv(1) in simp_all)

end
