(* ===== verification/Completion.thy ===== *)
theory Completion
  imports Sem
begin

text \<open>
  Completions, \<^verbatim>\<open>components/drivers/src/completion.c\<close>: a flag and the list of the one thread
  that may wait for it (\<open>LCompletion c\<close>). \<open>completions k c\<close> says that the flag is
  \<^verbatim>\<open>RT_COMPLETED\<close>.
\<close>

section \<open>Operations\<close>

definition set_completed :: "nat \<Rightarrow> bool \<Rightarrow> kernel \<Rightarrow> kernel" where
  "set_completed c b k = k\<lparr>completions := (completions k)(c := b)\<rparr>"

definition rt_completion_init :: "nat \<Rightarrow> kernel \<Rightarrow> kernel" where
  "rt_completion_init c k = rt_ipc_object_init (LCompletion c) (set_completed c False k)"

definition rt_completion_wait_resumed :: "nat \<Rightarrow> nat \<Rightarrow> kernel \<Rightarrow> (outcome \<times> kernel) option" where
  "rt_completion_wait_resumed c t k = Some (Returned (error_of k t), set_completed c False k)"

text \<open>The interrupt check comes after the thread is linked into the list, and stops there.\<close>

definition rt_completion_wait :: "nat \<Rightarrow> int \<Rightarrow> kernel \<Rightarrow> (outcome \<times> kernel) option" where
  "rt_completion_wait c timeout k =
     (if completions k c then Some (Returned RT_EOK, set_completed c False k)
      else do {
        rt_assert (lists k (LCompletion c) = []);
        if timeout = 0 then Some (Returned (- RT_ETIMEOUT), k)
        else do {
          t \<leftarrow> rt_thread_self k;
          let k1 = rt_ipc_list_suspend (LCompletion c) t RT_IPC_FLAG_FIFO (set_error t RT_EOK k);
          rt_assert (interrupt_nest k1 = 0);
          k2 \<leftarrow> arm_and_schedule timeout t k1;
          after_schedule t (rt_completion_wait_resumed c t) k2
        }
      })"

definition rt_completion_done :: "nat \<Rightarrow> kernel \<Rightarrow> kernel option" where
  "rt_completion_done c k =
     (if completions k c then Some k
      else wake_and_schedule (LCompletion c) (set_completed c True k))"

section \<open>Lemmas\<close>

lemma set_completed_simps [simp]:
  "completions (set_completed c b k) = (completions k)(c := b)"
  "threads (set_completed c b k) = threads k" "lists (set_completed c b k) = lists k"
  "current_thread (set_completed c b k) = current_thread k"
  "stat_of (set_completed c b k) u = stat_of k u"
  "scheduler_lock_nest (set_completed c b k) = scheduler_lock_nest k"
  "interrupt_nest (set_completed c b k) = interrupt_nest k"
  by (simp_all add: set_completed_def stat_of_def)

lemma set_completed_kinv: "kinv d k \<Longrightarrow> kinv d (set_completed c b k)"
  by (erule kinv_cong) (simp_all add: set_completed_def)

section \<open>Waiting and completing\<close>

text \<open>\<^verbatim>\<open>rt_completion_wait\<close>: a set flag is taken at once; otherwise a timeout of 0 gives
  \<^verbatim>\<open>RT_ETIMEOUT\<close>, and any other suspends the caller, the only waiter, and switches away.\<close>

theorem completion_wait_correct:
  assumes m: "may_block k t" and alone: "lists k (LCompletion c) = []"
    and time: "timeout < 0x7fffffff"
  shows "\<exists>r k'. rt_completion_wait c timeout k = Some (r, k') \<and> kinv 0 k' \<and>
    (if completions k c then r = Returned RT_EOK \<and> \<not> completions k' c \<and> lists k' = lists k
     else if timeout = 0 then r = Returned (- RT_ETIMEOUT) \<and> k' = k
     else r = Blocked \<and> current_top k' \<and> th_suspended k' t \<and> \<not> completions k' c \<and>
       lists k' (LCompletion c) = [t] \<and> (TThread t \<in> set (timer_list k') \<longleftrightarrow> 0 < timeout))"
proof -
  have inv: "kinv 0 k" and run: "rt_thread_self k = Some t"
    using m by (auto simp: may_block_def rt_thread_self_def)
  consider "completions k c" | "\<not> completions k c" "timeout = 0"
    | "\<not> completions k c" "timeout \<noteq> 0" by blast
  then show ?thesis
  proof cases
    case 1
    then show ?thesis using set_completed_kinv [OF inv, of c False] by (simp add: rt_completion_wait_def)
  next
    case 2
    then show ?thesis using inv alone by (simp add: rt_completion_wait_def)
  next
    case 3
    have flag: "flag_ok RT_IPC_FLAG_FIFO" by (simp add: flag_ok_def)
    obtain k' where k': "suspend_current (LCompletion c) RT_IPC_FLAG_FIFO timeout t (set_error t RT_EOK k) = Some k'"
      "kinv 0 k'" "current_top k'" "current_thread k' \<noteq> Some t" "core_only k k'" "th_suspended k' t"
      "\<forall>u. error_of k' u = (if u = t then RT_EOK else error_of k u)"
      "lists k' (LCompletion c) = wait_insert RT_IPC_FLAG_FIFO k t (lists k (LCompletion c))"
      "\<forall>j. j \<noteq> c \<longrightarrow> lists k' (LCompletion j) = lists k (LCompletion j)"
      "TThread t \<in> set (timer_list k') \<longleftrightarrow> 0 < timeout"
      by (rule completion_q.block [OF m flag time])
    let ?k1 = "rt_ipc_list_suspend (LCompletion c) t RT_IPC_FLAG_FIFO (set_error t RT_EOK k)"
    have "core_only (set_error t RT_EOK k) ?k1"
      using may_block_set_error [OF m, of RT_EOK] flag
      by (intro list_suspend_spec(4) [where d = 0]) (simp_all add: may_block_def)
    then have "interrupt_nest ?k1 = 0" using m by (simp add: core_only_frame may_block_def)
    moreover have "completions k' = completions k" using k'(5) by (simp add: core_only_frame)
    moreover have "arm_and_schedule timeout t ?k1 = Some k'" using k'(1) by (simp add: suspend_current_def)
    ultimately show ?thesis
      using 3 alone run k'(2-4,6,8,10)
      by (intro exI [of _ Blocked] exI [of _ k'])
        (simp add: rt_completion_wait_def Let_def after_schedule_def wait_insert_def)
  qed
qed

text \<open>\<^verbatim>\<open>rt_completion_done\<close> sets the flag and makes the waiting thread ready; when that thread
  runs, \<^verbatim>\<open>rt_completion_wait\<close> returns \<^verbatim>\<open>RT_EOK\<close> to it and clears the flag.\<close>

theorem completion_handoff:
  assumes inv: "kinv 0 k" and cur: "current_thread k = Some t" and off: "\<not> completions k c"
    and l: "lists k (LCompletion c) = [w]" and err: "error_of k w = RT_EOK"
  shows "\<exists>k'. rt_completion_done c k = Some k' \<and> kinv 0 k' \<and> completions k' c \<and> th_ready k' w \<and>
    lists k' (LCompletion c) = [] \<and> (scheduler_lock_nest k = 0 \<longrightarrow> current_top k') \<and>
    (\<exists>k''. rt_completion_wait_resumed c w k' = Some (Returned RT_EOK, k'') \<and> \<not> completions k'' c)"
proof -
  let ?k1 = "set_completed c True k"
  have pre: "kinv 0 ?k1" "current_thread ?k1 \<noteq> None" "wait_head (LCompletion c)"
    using set_completed_kinv [OF inv, of c True] cur by simp_all
  obtain k' where k': "wake_and_schedule (LCompletion c) ?k1 = Some k'" "kinv 0 k'"
    "current_thread k' \<noteq> None" "core_only ?k1 k'"
    "lists k' (LCompletion c) = tl (lists ?k1 (LCompletion c))"
    "\<forall>h'. wait_head h' \<longrightarrow> h' \<noteq> LCompletion c \<longrightarrow> lists k' h' = lists ?k1 h'"
    "\<forall>u. error_of k' u = error_of ?k1 u"
    "lists ?k1 (LCompletion c) \<noteq> [] \<longrightarrow> th_ready k' (hd (lists ?k1 (LCompletion c))) \<and>
       (scheduler_lock_nest ?k1 = 0 \<longrightarrow> current_top k')"
    by (rule wake_and_schedule_spec [OF pre])
  have "completions k' c" using k'(4) by (simp add: core_only_frame)
  then show ?thesis using off l err k'
    by (intro exI [of _ k']) (simp add: rt_completion_done_def rt_completion_wait_resumed_def)
qed

text \<open>A completion can get lost. A waiter whose timeout has expired is ready but has not run
  yet; \<^verbatim>\<open>rt_completion_done\<close> then finds nobody waiting and sets the flag, and the waiter, when it
  runs, returns \<^verbatim>\<open>RT_ETIMEOUT\<close> and clears the flag as well: nobody sees the completion, and
  the next \<^verbatim>\<open>rt_completion_wait\<close> waits for another one.\<close>

theorem completion_lost_on_timeout:
  assumes off: "\<not> completions k c" and l: "lists k (LCompletion c) = []"
    and timed_out: "error_of k w = - RT_ETIMEOUT"
  shows "\<exists>k1 k2. rt_completion_done c k = Some k1 \<and> completions k1 c \<and>
    rt_completion_wait_resumed c w k1 = Some (Returned (- RT_ETIMEOUT), k2) \<and>
    rt_completion_wait c 0 k2 = Some (Returned (- RT_ETIMEOUT), k2)"
  using assms
  by (simp add: rt_completion_done_def wake_and_schedule_def rt_completion_wait_resumed_def
      rt_completion_wait_def)

section \<open>Witnesses\<close>

lemma completion_wait_correct_witness:
  "\<exists>k'. rt_completion_wait 7 50 demo_run = Some (Blocked, k') \<and> lists k' (LCompletion 7) = [1] \<and>
    TThread 1 \<in> set (timer_list k')"
proof -
  have "\<not> completions demo_run 7" by (simp add: demo_run_def demo_kernel_def)
  then show ?thesis using completion_wait_correct [OF demo_run_inv(2), of 7 50] by auto
qed

lemma completion_handoff_witness:
  "\<exists>k'. rt_completion_done 7 (demo_wait (LCompletion 7)) = Some k' \<and> th_ready k' 2 \<and>
    (\<exists>k''. rt_completion_wait_resumed 7 2 k' = Some (Returned RT_EOK, k''))"
proof -
  let ?k = "demo_wait (LCompletion 7)"
  have "kinv 0 ?k" "current_thread ?k = Some 1" "\<not> completions ?k 7" "lists ?k (LCompletion 7) = [2]"
    "error_of ?k 2 = RT_EOK"
    using demo_wait_inv [of "LCompletion 7"]
    by (simp_all add: demo_wait_def demo_run_def demo_kernel_def demo_thread_def rt_err_simps)
  from completion_handoff [OF this] show ?thesis by auto
qed

lemma completion_lost_on_timeout_witness:
  "\<exists>k1 k2. rt_completion_done 7 (set_error 2 (- RT_ETIMEOUT) demo_run) = Some k1 \<and> completions k1 7 \<and>
    rt_completion_wait_resumed 7 2 k1 = Some (Returned (- RT_ETIMEOUT), k2) \<and>
    rt_completion_wait 7 0 k2 = Some (Returned (- RT_ETIMEOUT), k2)"
  by (rule completion_lost_on_timeout) (simp_all, simp add: demo_run_def demo_kernel_def)

end
