(* ===== verification/Waitqueue.thy ===== *)
theory Waitqueue
  imports Completion
begin

text \<open>
  Wait queues, \<^verbatim>\<open>components/drivers/src/waitqueue.c\<close>: threads that poll a device. A waiting
  thread is suspended without being in any list of the kernel; the queue links the node on its
  stack, which is a number here, with the thread it refers to. The function \<^verbatim>\<open>wakeup\<close> of a node
  decides whether a wake-up with a given key concerns it and is a parameter: \<open>wake node\<close> says
  that it returns 0.
\<close>

section \<open>Operations\<close>

definition upd_wq :: "nat \<Rightarrow> (wqueue \<Rightarrow> wqueue) \<Rightarrow> kernel \<Rightarrow> kernel" where
  "upd_wq q f k = k\<lparr>wqueues := (wqueues k)(q := f (wqueues k q))\<rparr>"

definition rt_wqueue_init :: "nat \<Rightarrow> kernel \<Rightarrow> kernel" where
  "rt_wqueue_init q = upd_wq q (\<lambda>_. \<lparr>wq_wakeup = False, wq_waiting = []\<rparr>)"

definition rt_wqueue_add :: "nat \<Rightarrow> nat \<times> nat \<Rightarrow> kernel \<Rightarrow> kernel" where
  "rt_wqueue_add q node = upd_wq q (\<lambda>w. w\<lparr>wq_waiting := wq_waiting w @ [node]\<rparr>)"

definition rt_wqueue_remove :: "nat \<Rightarrow> kernel \<Rightarrow> kernel" where
  "rt_wqueue_remove node k = k\<lparr>wqueues := \<lambda>q. (wqueues k q)
     \<lparr>wq_waiting := filter (\<lambda>e. fst e \<noteq> node) (wq_waiting (wqueues k q))\<rparr>\<rparr>"

definition rt_wqueue_wakeup :: "(nat \<Rightarrow> bool) \<Rightarrow> nat \<Rightarrow> kernel \<Rightarrow> kernel option" where
  "rt_wqueue_wakeup wake q k =
     (let k1 = upd_wq q (\<lambda>w. w\<lparr>wq_wakeup := True\<rparr>) k
      in case find (\<lambda>e. wake (fst e)) (wq_waiting (wqueues k1 q)) of
           None \<Rightarrow> Some k1
         | Some (node, t) \<Rightarrow> rt_schedule (rt_wqueue_remove node (snd (rt_thread_resume t k1))))"

text \<open>The end of \<^verbatim>\<open>rt_wqueue_wait\<close>, for a thread that was woken, timed out or never slept.\<close>

definition wqueue_wait_exit :: "nat \<Rightarrow> nat \<Rightarrow> kernel \<Rightarrow> (outcome \<times> kernel) option" where
  "wqueue_wait_exit q node k =
     Some (Returned 0, rt_wqueue_remove node (upd_wq q (\<lambda>w. w\<lparr>wq_wakeup := False\<rparr>) k))"

definition rt_wqueue_wait ::
    "nat \<Rightarrow> nat \<Rightarrow> bool \<Rightarrow> int \<Rightarrow> kernel \<Rightarrow> (outcome \<times> kernel) option" where
  "rt_wqueue_wait q node condition msec k = do {
     rt_assert (interrupt_nest k = 0);
     let tk = rt_tick_from_millisecond msec;
     if condition \<or> tk = 0 then Some (Returned 0, k)
     else if wq_wakeup (wqueues k q) then wqueue_wait_exit q node k
     else do {
       t \<leftarrow> rt_thread_self k;
       let k1 = rt_wqueue_add q (node, t) k;
       let k2 = snd (rt_thread_suspend t k1);
       k3 \<leftarrow> (if tk \<noteq> - 1 then start_thread_timer t tk k2 else Some k2);
       k4 \<leftarrow> rt_schedule k3;
       after_schedule t (wqueue_wait_exit q node) k4
     }
   }"

section \<open>Lemmas\<close>

lemma upd_wq_simps [simp]:
  "wqueues (upd_wq q f k) = (wqueues k)(q := f (wqueues k q))"
  "threads (upd_wq q f k) = threads k" "lists (upd_wq q f k) = lists k"
  "current_thread (upd_wq q f k) = current_thread k" "stat_of (upd_wq q f k) u = stat_of k u"
  "scheduler_lock_nest (upd_wq q f k) = scheduler_lock_nest k"
  "interrupt_nest (upd_wq q f k) = interrupt_nest k" "tick (upd_wq q f k) = tick k"
  by (simp_all add: upd_wq_def stat_of_def)

lemma wqueue_remove_simps [simp]:
  "wqueues (rt_wqueue_remove node k) q = (wqueues k q)
     \<lparr>wq_waiting := filter (\<lambda>e. fst e \<noteq> node) (wq_waiting (wqueues k q))\<rparr>"
  "threads (rt_wqueue_remove node k) = threads k" "lists (rt_wqueue_remove node k) = lists k"
  "current_thread (rt_wqueue_remove node k) = current_thread k"
  "stat_of (rt_wqueue_remove node k) u = stat_of k u"
  "scheduler_lock_nest (rt_wqueue_remove node k) = scheduler_lock_nest k"
  by (simp_all add: rt_wqueue_remove_def stat_of_def)

lemma wqueue_steps_kinv:
  "kinv d k \<Longrightarrow> kinv d (upd_wq q f k)" "kinv d k \<Longrightarrow> kinv d (rt_wqueue_remove node k)"
  by (erule kinv_cong, simp_all add: upd_wq_def rt_wqueue_remove_def)+

section \<open>Waiting\<close>

text \<open>\<^verbatim>\<open>rt_wqueue_wait\<close> returns at once when the condition holds, the time is 0 or a wake-up
  came before; otherwise the caller is suspended behind the waiting threads, with a timeout
  unless it waits forever, and the processor goes to the highest-priority ready thread.\<close>

theorem wqueue_wait_correct:
  assumes m: "may_block k t"
    and tk: "rt_tick_from_millisecond msec = - 1 \<or> rt_tick_from_millisecond msec < TICK_HALF"
  shows "\<exists>r k'. rt_wqueue_wait q node condition msec k = Some (r, k') \<and> kinv 0 k' \<and>
    (if condition \<or> rt_tick_from_millisecond msec = 0 then r = Returned 0 \<and> k' = k
     else if wq_wakeup (wqueues k q)
     then r = Returned 0 \<and> \<not> wq_wakeup (wqueues k' q) \<and> lists k' = lists k
     else r = Blocked \<and> th_suspended k' t \<and> current_top k' \<and>
       wq_waiting (wqueues k' q) = wq_waiting (wqueues k q) @ [(node, t)] \<and>
       (TThread t \<in> set (timer_list k') \<longleftrightarrow> rt_tick_from_millisecond msec \<noteq> - 1))"
proof -
  define tks where "tks = rt_tick_from_millisecond msec"
  have inv: "kinv 0 k" and ready: "th_ready k t" and cur: "current_thread k = Some t"
    and unl: "scheduler_lock_nest k = 0" and irq: "interrupt_nest k = 0"
    using m by (auto simp: may_block_def)
  obtain u where u: "u \<noteq> t" "th_ready k u" using m by (auto simp: may_block_def)
  consider "condition \<or> tks = 0" | "\<not> condition" "tks \<noteq> 0" "wq_wakeup (wqueues k q)"
    | "\<not> condition" "tks \<noteq> 0" "\<not> wq_wakeup (wqueues k q)" by blast
  then show ?thesis
  proof cases
    case 1
    then show ?thesis
      using irq inv by (simp add: rt_wqueue_wait_def flip: tks_def)
  next
    case 2
    then show ?thesis
      using irq wqueue_steps_kinv inv
      by (simp add: rt_wqueue_wait_def wqueue_wait_exit_def flip: tks_def)
  next
    case 3
    let ?k1 = "rt_wqueue_add q (node, t) k"
    have k1: "kinv 0 ?k1" "th_ready ?k1 t" "th_ready ?k1 u" "current_thread ?k1 = Some t"
      "scheduler_lock_nest ?k1 = 0"
      using wqueue_steps_kinv(1) [OF inv] ready u cur unl by (simp_all add: rt_wqueue_add_def)
    let ?k2 = "snd (rt_thread_suspend t ?k1)"
    note s = suspend_spec [OF k1(1,2)]
    have pre: "current_thread ?k2 \<noteq> None" "th_ready ?k2 u" "scheduler_lock_nest ?k2 = 0"
      using s(7) k1 u(1) core_only_frame(1) [OF s(8)] by (simp_all add: stat_of_def s(6))
    define time where "time = (if tks = - 1 then - 1 else uint tks)"
    have time: "time < 0x7fffffff"
      using tk by (auto simp: time_def tks_def word_less_def)
    have pos: "0 < time \<longleftrightarrow> tks \<noteq> - 1" and tick: "word_of_int time = tks"
      using 3(2) by (auto simp: time_def order_less_le uint_0_iff)
    obtain k' where k': "arm_and_schedule time t ?k2 = Some k'" "kinv 0 k'" "current_top k'"
      "current_thread k' \<noteq> Some t" "core_only ?k2 k'" "threads k' = threads ?k2"
      "lists k' = lists ?k2"
      "0 < time \<longrightarrow> TThread t \<in> set (timer_list k') \<and>
         timeout_of k' (TThread t) = tick ?k2 + word_of_int time"
      "\<not> 0 < time \<longrightarrow> TThread t \<notin> set (timer_list k')"
      by (rule arm_and_schedule_spec [OF s(2) pre(1) s(4) s(9) pre(2,3) time])
    obtain k3 where k3: "(if tks \<noteq> - 1 then start_thread_timer t tks ?k2 else Some ?k2) = Some k3"
      "rt_schedule k3 = Some k'"
      using k'(1) unfolding arm_and_schedule_def pos tick by (auto split: bind_splits)
    have "wqueues k' = wqueues ?k1" using k'(5) s(8) by (simp add: core_only_frame)
    moreover have "th_suspended k' t" using s(4) by (simp add: stat_of_def k'(6))
    moreover have "rt_wqueue_wait q node condition msec k = Some (Blocked, k')"
      using 3 irq cur k3 k'(4)
      by (simp add: rt_wqueue_wait_def rt_thread_self_def after_schedule_def flip: tks_def)
    ultimately show ?thesis
      using 3 k' pos by (intro exI [of _ Blocked] exI [of _ k']) (auto simp: rt_wqueue_add_def simp flip: tks_def)
  qed
qed

section \<open>Waking\<close>

text \<open>\<^verbatim>\<open>rt_wqueue_wakeup\<close> leaves the wake-up flag set, takes the first node whose function
  agrees out of the queue and makes its thread ready, if that thread still sleeps; with no such
  node only the flag remembers the wake-up.\<close>

theorem wqueue_wakeup_correct:
  assumes inv: "kinv 0 k" and cur: "current_thread k = Some t" and ready: "th_ready k t"
  shows "\<exists>k'. rt_wqueue_wakeup wake q k = Some k' \<and> kinv 0 k' \<and> wq_wakeup (wqueues k' q) \<and>
    (case find (\<lambda>e. wake (fst e)) (wq_waiting (wqueues k q)) of
       None \<Rightarrow> wq_waiting (wqueues k' q) = wq_waiting (wqueues k q) \<and> threads k' = threads k
     | Some (node, w) \<Rightarrow>
         wq_waiting (wqueues k' q) = filter (\<lambda>e. fst e \<noteq> node) (wq_waiting (wqueues k q)) \<and>
         (if th_suspended k w then th_ready k' w else threads k' = threads k) \<and>
         (scheduler_lock_nest k = 0 \<longrightarrow> current_top k'))"
proof -
  let ?k1 = "upd_wq q (\<lambda>w. w\<lparr>wq_wakeup := True\<rparr>) k"
  have inv1: "kinv 0 ?k1" by (rule wqueue_steps_kinv(1) [OF inv])
  show ?thesis
  proof (cases "find (\<lambda>e. wake (fst e)) (wq_waiting (wqueues k q))")
    case None
    then show ?thesis using inv1 by (simp add: rt_wqueue_wakeup_def Let_def)
  next
    case (Some e)
    obtain node w where e: "e = (node, w)" by (cases e)
    let ?k2 = "snd (rt_thread_resume w ?k1)"
    have r: "kinv 0 ?k2 \<and> th_ready ?k2 t \<and> current_thread ?k2 = Some t \<and> core_only ?k1 ?k2 \<and>
      (if th_suspended k w then th_ready ?k2 w else threads ?k2 = threads k)"
    proof (cases "th_suspended k w")
      case False
      then have "?k2 = ?k1" by (simp add: rt_thread_resume_def)
      then show ?thesis using inv1 ready cur False core_only_refl by simp
    next
      case True
      then have sus: "th_suspended ?k1 w" by simp
      note r = resume_spec [OF inv1 sus]
      have "t \<noteq> w" using ready True by auto
      then have "th_ready ?k2 t" using ready by (simp add: stat_of_def r(5))
      then show ?thesis using r True cur by simp
    qed
    let ?k3 = "rt_wqueue_remove node ?k2"
    have pre: "kinv 0 ?k3" "th_ready ?k3 t" "current_thread ?k3 \<noteq> None"
      using r wqueue_steps_kinv(2) by auto
    obtain k' where k': "rt_schedule ?k3 = Some k'" "switch_only ?k3 k'" "kinv 0 k'" "core_only ?k3 k'"
      "current_thread k' \<noteq> None" "scheduler_lock_nest ?k3 = 0 \<longrightarrow> current_top k'"
      by (rule schedule_kinv [OF pre])
    note f = switch_only_frame [OF k'(2)]
    have co: "core_only ?k1 ?k2" using r by blast
    have "wqueues ?k2 = wqueues ?k1" "scheduler_lock_nest ?k2 = scheduler_lock_nest k"
      by (simp_all add: core_only_frame [OF co])
    moreover have "if th_suspended k w then th_ready k' w else threads k' = threads k"
    proof (cases "th_suspended k w")
      case True
      then have "th_ready ?k2 w" using r by simp
      then show ?thesis using True by (simp add: stat_of_def f)
    next
      case False
      then show ?thesis using r by (simp add: f)
    qed
    ultimately show ?thesis using Some e k'(1,3,6)
      by (intro exI [of _ k']) (simp add: rt_wqueue_wakeup_def Let_def f)
  qed
qed

text \<open>A wake-up can be lost. When the first node belongs to a thread whose timeout has expired
  but that has not run yet, \<^verbatim>\<open>rt_wqueue_wakeup\<close> spends the wake-up on it: the thread behind it,
  still suspended, is not woken, and the flag is cleared by the first one.\<close>

theorem wqueue_wakeup_lost:
  assumes inv: "kinv 0 k" and cur: "current_thread k = Some t" and ready: "th_ready k t"
    and q: "wq_waiting (wqueues k q) = [(m, v), (n, w)]" and other: "m \<noteq> n"
    and expired: "\<not> th_suspended k v" and waits: "th_suspended k w"
  shows "\<exists>k1 k2. rt_wqueue_wakeup (\<lambda>_. True) q k = Some k1 \<and> th_suspended k1 w \<and>
    wqueue_wait_exit q m k1 = Some (Returned 0, k2) \<and> \<not> wq_wakeup (wqueues k2 q) \<and>
    wq_waiting (wqueues k2 q) = [(n, w)] \<and> th_suspended k2 w"
proof -
  have "find (\<lambda>e. True) (wq_waiting (wqueues k q)) = Some (m, v)" by (simp add: q)
  then obtain k1 where k1: "rt_wqueue_wakeup (\<lambda>_. True) q k = Some k1"
    "wq_waiting (wqueues k1 q) = [(n, w)]" "threads k1 = threads k"
    using wqueue_wakeup_correct [OF inv cur ready, of "\<lambda>_. True" q] expired other
    by (auto simp: q)
  have "th_suspended k1 w" using waits by (simp add: stat_of_def k1(3))
  then show ?thesis using k1(1,2) other by (simp add: wqueue_wait_exit_def)
qed

section \<open>Witnesses\<close>

text \<open>The demo kernel with a wait queue holding the nodes \<open>ns\<close>.\<close>

definition demo_wq :: "(nat \<times> nat) list \<Rightarrow> kernel" where
  "demo_wq ns = upd_wq 6 (\<lambda>_. \<lparr>wq_wakeup = False, wq_waiting = ns\<rparr>) demo_run"

lemma demo_wq_facts:
  "kinv 0 (demo_wq ns)" "may_block (demo_wq ns) 1" "current_thread (demo_wq ns) = Some 1"
  "th_ready (demo_wq ns) 1" "th_suspended (demo_wq ns) 2"
  "wqueues (demo_wq ns) 6 = \<lparr>wq_wakeup = False, wq_waiting = ns\<rparr>"
  using demo_run_inv wqueue_steps_kinv(1) by (auto simp: demo_wq_def may_block_def)

lemma wqueue_wait_correct_witness:
  "\<exists>k'. rt_wqueue_wait 6 8 False 50 (demo_wq [(3, 2)]) = Some (Blocked, k') \<and>
    wq_waiting (wqueues k' 6) = [(3, 2), (8, 1)] \<and> TThread 1 \<in> set (timer_list k')"
proof -
  have tk: "rt_tick_from_millisecond 50 = 50" by (simp add: rt_tick_from_millisecond_def)
  have "rt_tick_from_millisecond 50 = - 1 \<or> rt_tick_from_millisecond 50 < TICK_HALF" by (simp add: tk)
  from wqueue_wait_correct [OF demo_wq_facts(2) [of "[(3, 2)]"] this, of 6 8 False]
  show ?thesis unfolding tk by (auto simp: demo_wq_facts)
qed

lemma wqueue_wakeup_correct_witness:
  "\<exists>k'. rt_wqueue_wakeup (\<lambda>n. n = 3) 6 (demo_wq [(8, 1), (3, 2)]) = Some k' \<and> th_ready k' 2 \<and>
    wq_waiting (wqueues k' 6) = [(8, 1)]"
  using wqueue_wakeup_correct [OF demo_wq_facts(1,3,4), of "\<lambda>n. n = 3" 6 "[(8, 1), (3, 2)]"]
  by (auto simp: demo_wq_facts)

lemma wqueue_wakeup_lost_witness:
  "\<exists>k1 k2. rt_wqueue_wakeup (\<lambda>_. True) 6 (demo_wq [(8, 1), (3, 2)]) = Some k1 \<and> th_suspended k1 2 \<and>
    wqueue_wait_exit 6 8 k1 = Some (Returned 0, k2) \<and> \<not> wq_wakeup (wqueues k2 6) \<and>
    wq_waiting (wqueues k2 6) = [(3, 2)] \<and> th_suspended k2 2"
proof (rule wqueue_wakeup_lost [OF demo_wq_facts(1,3,4)])
  show "\<not> th_suspended (demo_wq [(8, 1), (3, 2)]) 1" unfolding demo_wq_facts(4) by simp
qed (simp_all add: demo_wq_facts)

end
