(* ===== verification/Msh.thy ===== *)
theory Msh
  imports Prelude
begin

text \<open>
  The command interpreter of the shell, \<^verbatim>\<open>components/finsh/msh.c\<close>: splitting a line into arguments,
  looking up the command, calling it. A line is an array of bytes; a pointer into it is an
  offset, and \<open>None\<close> is an access outside the array.
\<close>

section \<open>C strings in a buffer\<close>

definition is_blank :: "u8 \<Rightarrow> bool" where
  "is_blank c \<longleftrightarrow> c = 32 \<or> c = 9"

definition cstr :: "u8 list \<Rightarrow> nat \<Rightarrow> u8 list" where
  "cstr buf off = takeWhile (\<lambda>c. c \<noteq> 0) (drop off buf)"

text \<open>The string at an offset, when it ends inside the array.\<close>

definition str_at :: "u8 list \<Rightarrow> nat \<Rightarrow> u8 list option" where
  "str_at buf off = (if 0 \<in> set (drop off buf) then Some (cstr buf off) else None)"

text \<open>\<^verbatim>\<open>strncmp(a, b, n) == 0\<close> for strings without their terminating zero.\<close>

fun strncmp_eq :: "nat \<Rightarrow> u8 list \<Rightarrow> u8 list \<Rightarrow> bool" where
  "strncmp_eq 0 a b = True"
| "strncmp_eq (Suc n) [] b = (b = [] \<or> hd b = 0)"
| "strncmp_eq (Suc n) (x # a) [] = (x = 0)"
| "strncmp_eq (Suc n) (x # a) (y # b) = (x = y \<and> (x = 0 \<or> strncmp_eq n a b))"

section \<open>\<open>msh_split\<close>\<close>

abbreviation "FINSH_ARG_MAX \<equiv> (10 :: nat)"

text \<open>The blanks before an argument become string ends.\<close>

function split_strip :: "nat \<Rightarrow> nat \<Rightarrow> u8 list \<Rightarrow> (nat \<times> u8 list) option" where
  "split_strip len pos buf =
     (if pos < length buf
      then if is_blank (buf ! pos) \<and> pos < len then split_strip len (pos + 1) (buf[pos := 0])
           else Some (pos, buf)
      else None)"
  by auto
termination by (relation "measure (\<lambda>(len, pos, buf). len - pos)") auto

text \<open>The end of a quoted argument: \<open>\"\<close> does not end it when a backslash precedes.\<close>

function split_quoted :: "nat \<Rightarrow> nat \<Rightarrow> u8 list \<Rightarrow> nat option" where
  "split_quoted len pos buf =
     (if pos < length buf
      then if buf ! pos \<noteq> 34 \<and> pos < len
           then if buf ! pos = 92
                then if pos + 1 < length buf
                     then split_quoted len (if buf ! (pos + 1) = 34 then pos + 2 else pos + 1) buf
                     else None
                else split_quoted len (pos + 1) buf
           else Some pos
      else None)"
  by auto
termination by (relation "measure (\<lambda>(len, pos, buf). len - pos)") auto

function split_word :: "nat \<Rightarrow> nat \<Rightarrow> u8 list \<Rightarrow> nat option" where
  "split_word len pos buf =
     (if pos < length buf
      then if \<not> is_blank (buf ! pos) \<and> pos < len then split_word len (pos + 1) buf else Some pos
      else None)"
  by auto
termination by (relation "measure (\<lambda>(len, pos, buf). len - pos)") auto

declare split_strip.simps [simp del] split_quoted.simps [simp del] split_word.simps [simp del]

lemma split_strip_ge: "split_strip len pos buf = Some (pos', buf') \<Longrightarrow>
    pos \<le> pos' \<and> length buf' = length buf \<and> pos' < length buf \<and>
    (pos' < len \<longrightarrow> \<not> is_blank (buf' ! pos'))"
proof (induction len pos buf arbitrary: pos' buf' rule: split_strip.induct)
  case (1 len pos buf)
  from "1.prems" show ?case
    by (subst (asm) split_strip.simps) (auto split: if_splits dest: "1.IH")
qed

lemma split_quoted_ge: "split_quoted len pos buf = Some pos' \<Longrightarrow> pos \<le> pos' \<and> pos' < length buf"
proof (induction len pos buf arbitrary: pos' rule: split_quoted.induct)
  case (1 len pos buf)
  show ?case
    using "1.prems" [unfolded split_quoted.simps [of len pos buf]] "1.IH"(1) [of pos'] "1.IH"(2) [of pos']
    by (auto split: if_splits)
qed

lemma split_word_ge: "split_word len pos buf = Some pos' \<Longrightarrow> pos \<le> pos' \<and> pos' < length buf \<and>
    (pos < len \<longrightarrow> \<not> is_blank (buf ! pos) \<longrightarrow> pos < pos')"
proof (induction len pos buf arbitrary: pos' rule: split_word.induct)
  case (1 len pos buf)
  from "1.prems" show ?case
    by (subst (asm) split_word.simps) (fastforce split: if_splits dest: "1.IH")
qed

function msh_split_loop ::
    "nat \<Rightarrow> nat \<Rightarrow> nat list \<Rightarrow> u8 list \<Rightarrow> (nat list \<times> u8 list) option" where
  "msh_split_loop len pos argv buf =
     (if pos < len
      then Option.bind (split_strip len pos buf) (\<lambda>(p, b).
        if length argv \<ge> FINSH_ARG_MAX then Some (argv, b)
        else if p \<ge> len then Some (argv, b)
        else if b ! p = 34
        then Option.bind (split_quoted len (p + 1) b) (\<lambda>e.
          if e \<ge> len then Some (argv @ [p + 1], b)
          else msh_split_loop len (e + 1) (argv @ [p + 1]) (b[e := 0]))
        else Option.bind (split_word len p b) (\<lambda>e.
          if e \<ge> len then Some (argv @ [p], b)
          else msh_split_loop len e (argv @ [p]) b))
      else Some (argv, buf))"
  by auto
termination
  by (relation "measure (\<lambda>(len, pos, argv, buf). len - pos)")
    (auto dest!: split_strip_ge split_quoted_ge split_word_ge)

declare msh_split_loop.simps [simp del]

definition msh_split :: "u8 list \<Rightarrow> nat \<Rightarrow> (nat list \<times> u8 list) option" where
  "msh_split cmd len = msh_split_loop len 0 [] cmd"

section \<open>Looking up and calling a command\<close>

text \<open>\<^verbatim>\<open>"__cmd_"\<close>.\<close>

abbreviation "cmd_prefix \<equiv> [95, 95, 99, 109, 100, 95 :: u8]"

text \<open>The table holds the names and functions of the exported symbols.\<close>

definition msh_get_cmd :: "(u8 list \<times> 'f) list \<Rightarrow> u8 list \<Rightarrow> nat \<Rightarrow> 'f option" where
  "msh_get_cmd table cmd n =
     map_option snd (find (\<lambda>(name, f). strncmp_eq 6 name cmd_prefix \<and>
       strncmp_eq n (drop 6 name) cmd \<and> length name = 6 + n) table)"

text \<open>What becomes of a line: nothing to do, an unknown command, or a call with its arguments.\<close>

datatype 'f msh_result = Nothing | Not_found "u8 list" | Call 'f "u8 list list"

function cmd0_size :: "nat \<Rightarrow> nat \<Rightarrow> u8 list \<Rightarrow> nat option" where
  "cmd0_size len n cmd =
     (if n < length cmd
      then if \<not> is_blank (cmd ! n) \<and> n < len then cmd0_size len (n + 1) cmd else Some n
      else None)"
  by auto
termination by (relation "measure (\<lambda>(len, n, cmd). len - n)") auto

declare cmd0_size.simps [simp del]

text \<open>A command reads its arguments as strings, so they have to end inside the line.\<close>

definition msh_exec_cmd ::
    "(u8 list \<times> 'f) list \<Rightarrow> u8 list \<Rightarrow> nat \<Rightarrow> ('f \<times> u8 list list) option option" where
  "msh_exec_cmd table cmd len = do {
     n \<leftarrow> cmd0_size len 0 cmd;
     if n = 0 then Some None
     else case msh_get_cmd table cmd n of
       None \<Rightarrow> Some None
     | Some f \<Rightarrow> do {
         (argv, cmd1) \<leftarrow> msh_split cmd len;
         if argv = [] then Some None
         else do {
           args \<leftarrow> those (map (str_at cmd1) argv);
           Some (Some (f, args))
         }
       }
   }"

text \<open>The leading blanks are skipped without a look at the length, a 32-bit number.\<close>

function exec_trim :: "u32 \<Rightarrow> u8 list \<Rightarrow> (u32 \<times> u8 list) option" where
  "exec_trim len [] = None"
| "exec_trim len (c # cmd) = (if is_blank c then exec_trim (len - 1) cmd else Some (len, c # cmd))"
  by pat_completeness auto
termination by (relation "measure (length \<circ> snd)") auto

definition msh_exec :: "(u8 list \<times> 'f) list \<Rightarrow> u8 list \<Rightarrow> u32 \<Rightarrow> 'f msh_result option" where
  "msh_exec table line len = do {
     (n, cmd) \<leftarrow> exec_trim len line;
     if n = 0 then Some Nothing
     else do {
       r \<leftarrow> msh_exec_cmd table cmd (unat n);
       case r of
         Some (f, argv) \<Rightarrow> Some (Call f argv)
       | None \<Rightarrow>
           if 32 \<in> set cmd \<or> 0 \<in> set cmd
           then Some (Not_found (takeWhile (\<lambda>c. c \<noteq> 32 \<and> c \<noteq> 0) cmd)) else None
     }
   }"

section \<open>The arguments are the words of the line\<close>

text \<open>The words of a line, with no reference to a buffer.\<close>

function words :: "u8 list \<Rightarrow> u8 list list" where
  "words cs = (case dropWhile is_blank cs of
       [] \<Rightarrow> []
     | c # r \<Rightarrow> (c # takeWhile (\<lambda>x. \<not> is_blank x) r) # words (dropWhile (\<lambda>x. \<not> is_blank x) r))"
  by auto
termination
proof (relation "measure length")
  fix cs c and r :: "u8 list"
  assume "dropWhile is_blank cs = c # r"
  then have "length (c # r) \<le> length cs" using length_dropWhile_le [of is_blank cs] by simp
  then show "(dropWhile (\<lambda>x. \<not> is_blank x) r, cs) \<in> measure length"
    using length_dropWhile_le [of "\<lambda>x. \<not> is_blank x" r] by simp
qed simp

declare words.simps [simp del]

lemma drop_dropWhile: "drop (length (takeWhile P cs)) cs = dropWhile P cs"
  by (induction cs) auto

lemma strip_spec:
  assumes "pos \<le> len" "len < length buf"
  shows "\<exists>b. split_strip len pos buf =
      Some (pos + length (takeWhile is_blank (take (len - pos) (drop pos buf))), b) \<and> length b = length buf \<and>
    (\<forall>i. b ! i = (if pos \<le> i \<and> i < pos + length (takeWhile is_blank (take (len - pos) (drop pos buf)))
       then 0 else buf ! i))"
  using assms
proof (induction len pos buf rule: split_strip.induct)
  case (1 len pos buf)
  have pb: "pos < length buf" using "1.prems" by simp
  show ?case
  proof (cases "is_blank (buf ! pos) \<and> pos < len")
    case False
    then have "takeWhile is_blank (take (len - pos) (drop pos buf)) = []"
      using pb by (cases "len - pos") (auto simp: Cons_nth_drop_Suc [symmetric])
    moreover have "split_strip len pos buf = Some (pos, buf)"
      by (subst split_strip.simps) (simp only: pb if_True False if_False)
    ultimately show ?thesis by auto
  next
    case True
    let ?b = "buf[pos := 0]"
    let ?n = "length (takeWhile is_blank (take (len - (pos + 1)) (drop (pos + 1) ?b)))"
    from "1.IH" [OF pb True] "1.prems" True obtain b where
      b: "split_strip len (pos + 1) ?b = Some (pos + 1 + ?n, b)" "length b = length buf"
        "\<forall>i. b ! i = (if pos + 1 \<le> i \<and> i < pos + 1 + ?n then 0 else ?b ! i)" by auto
    obtain k where k: "len - pos = Suc k" using True by (cases "len - pos") auto
    then have k': "len - Suc pos = k" by simp
    have n: "length (takeWhile is_blank (take (len - pos) (drop pos buf))) = Suc ?n"
      using True by (simp add: k k' Cons_nth_drop_Suc [OF pb, symmetric])
    have "split_strip len pos buf = Some (pos + Suc ?n, b)"
      using b(1) pb True by (simp add: split_strip.simps [of len pos buf])
    moreover have "b ! i = (if pos \<le> i \<and> i < pos + Suc ?n then 0 else buf ! i)" for i
      using b(3) pb by (cases "i = pos") (auto simp: nth_list_update)
    ultimately show ?thesis unfolding n using b(2) by auto
  qed
qed

lemma word_spec:
  assumes "pos \<le> len" "len < length buf"
  shows "split_word len pos buf =
      Some (pos + length (takeWhile (\<lambda>x. \<not> is_blank x) (take (len - pos) (drop pos buf))))"
  using assms
proof (induction len pos buf rule: split_word.induct)
  case (1 len pos buf)
  have pb: "pos < length buf" using "1.prems" by simp
  show ?case
  proof (cases "\<not> is_blank (buf ! pos) \<and> pos < len")
    case False
    then have "takeWhile (\<lambda>x. \<not> is_blank x) (take (len - pos) (drop pos buf)) = []"
      using pb by (cases "len - pos") (auto simp: Cons_nth_drop_Suc [symmetric])
    moreover have "split_word len pos buf = Some pos"
      by (subst split_word.simps) (simp only: pb if_True False if_False)
    ultimately show ?thesis by simp
  next
    case True
    obtain k where k: "len - pos = Suc k" using True by (cases "len - pos") auto
    then have k': "len - Suc pos = k" by simp
    note d = Cons_nth_drop_Suc [OF pb, symmetric]
    have "split_word len pos buf = split_word len (pos + 1) buf"
      by (subst split_word.simps) (simp only: pb if_True True not_False_eq_True conj_absorb)
    then show ?thesis using "1.IH" [OF pb True] "1.prems" True by (simp add: k k' d)
  qed
qed

text \<open>The loop, in a buffer \<open>buf\<close> that still agrees with the line \<open>cs\<close> from \<open>pos\<close> on.\<close>

lemma split_loop_words:
  assumes "pos \<le> length cs" "length cs < length buf" "buf ! length cs = 0"
    "\<forall>i. pos \<le> i \<longrightarrow> i < length cs \<longrightarrow> buf ! i = cs ! i"
    "34 \<notin> set cs" "0 \<notin> set cs" "length argv + length (words (drop pos cs)) \<le> FINSH_ARG_MAX"
  shows "\<exists>offs b. msh_split_loop (length cs) pos argv buf = Some (argv @ offs, b) \<and>
    length b = length buf \<and> (\<forall>i < pos. b ! i = buf ! i) \<and>
    (pos = length cs \<or> is_blank (cs ! pos) \<longrightarrow> b ! pos = 0) \<and>
    map (str_at b) offs = map Some (words (drop pos cs))"
  using assms
proof (induction "length cs - pos" arbitrary: pos argv buf rule: less_induct)
  case less
  note pre = less.prems
  show ?case
  proof (cases "pos < length cs")
    case False
    then show ?thesis using pre
      by (intro exI [of _ "[] :: nat list"] exI [of _ buf])
        (simp add: msh_split_loop.simps [of "length cs" "length cs"] words.simps [of "[]"])
  next
    case True
    have dr: "take (length cs - pos) (drop pos buf) = drop pos cs"
      using pre(1,2,4) by (intro nth_equalityI) auto
    define k where "k = length (takeWhile is_blank (drop pos cs))"
    obtain b where b: "split_strip (length cs) pos buf = Some (pos + k, b)" "length b = length buf"
      "\<forall>i. b ! i = (if pos \<le> i \<and> i < pos + k then 0 else buf ! i)"
      using strip_spec [OF pre(1,2)] unfolding dr k_def by blast
    have kle: "pos + k \<le> length cs" using True length_takeWhile_le [of is_blank "drop pos cs"] by (simp add: k_def)
    have rest: "dropWhile is_blank (drop pos cs) = drop (pos + k) cs"
      by (simp add: k_def drop_dropWhile [symmetric] add.commute)
    have bl: "b ! length cs = 0" using b(3) kle pre(3) by auto
    have head: "b ! pos = 0" if "is_blank (cs ! pos)"
    proof -
      have "k \<noteq> 0" using that True by (simp add: k_def Cons_nth_drop_Suc [symmetric])
      then show ?thesis using b(3) by simp
    qed
    show ?thesis
    proof (cases "pos + k = length cs")
      case fin: True
      have "dropWhile is_blank (drop pos cs) = []" using rest fin by simp
      then have "words (drop pos cs) = []" by (subst words.simps) (simp only: list.case)
      moreover have "msh_split_loop (length cs) pos argv buf = Some (argv, b)"
        using True b(1) fin by (subst msh_split_loop.simps) simp
      ultimately show ?thesis using b(2,3) head True by (intro exI [of _ "[] :: nat list"] exI [of _ b]) auto
    next
      case more: False
      let ?p = "pos + k"
      have lt: "?p < length cs" using kle more by simp
      have nb: "\<not> is_blank (cs ! ?p)"
        using rest lt by (metis Cons_nth_drop_Suc hd_dropWhile list.discI list.sel(1))
      have bp: "b ! i = cs ! i" if "?p \<le> i" "i < length cs" for i using b(3) pre(4) that by simp
      define w where "w = takeWhile (\<lambda>x. \<not> is_blank x) (drop ?p cs)"
      have dw: "drop ?p cs = cs ! ?p # drop (Suc ?p) cs" using lt by (simp add: Cons_nth_drop_Suc)
      have ws: "words (drop pos cs) = w # words (drop (?p + length w) cs)"
        using nb unfolding words.simps [of "drop pos cs"] rest dw w_def
        by (simp add: drop_dropWhile [symmetric] add.commute)
      have w0: "w \<noteq> []" using nb by (simp add: w_def dw)
      have full: "length argv < FINSH_ARG_MAX" using pre(7) ws by simp
      have q: "b ! ?p \<noteq> 34" using bp [of ?p] lt pre(5) by (metis nth_mem order.refl)
      have drb: "take (length cs - ?p) (drop ?p b) = drop ?p cs"
        using lt pre(2) b(2) bp by (intro nth_equalityI) auto
      have sw: "split_word (length cs) ?p b = Some (?p + length w)"
        using word_spec [of ?p "length cs" b] lt pre(2) b(2) drb by (simp add: w_def)
      let ?e = "?p + length w"
      have le: "?e \<le> length cs" using lt length_takeWhile_le [of "\<lambda>x. \<not> is_blank x" "drop ?p cs"]
        by (simp add: w_def)
      have wi: "i < length w \<Longrightarrow> w ! i = cs ! (?p + i)" for i
        using lt by (simp add: w_def takeWhile_nth)
      have wcs: "x \<in> set w \<Longrightarrow> x \<in> set cs" for x
        unfolding w_def by (meson in_set_dropD set_takeWhileD)
      have cw: "str_at c ?p = Some w" if "c ! ?e = 0" "length c = length buf" "\<forall>i < ?e. c ! i = b ! i" for c
      proof -
        have "drop ?p c = w @ drop ?e c"
        proof (rule nth_equalityI)
          show "length (drop ?p c) = length (w @ drop ?e c)" using that(2) le pre(2) by simp
          show "drop ?p c ! i = (w @ drop ?e c) ! i" if "i < length (drop ?p c)" for i
            using that \<open>\<forall>i < ?e. c ! i = b ! i\<close> \<open>length c = length buf\<close> wi bp le pre(2)
            by (cases "i < length w") (auto simp: nth_append add.assoc)
        qed
        moreover have "drop ?e c = 0 # drop (Suc ?e) c"
          using that le pre(2) by (simp add: Cons_nth_drop_Suc [symmetric])
        moreover have "\<forall>x \<in> set w. x \<noteq> 0" using wcs pre(6) by metis
        ultimately show ?thesis by (simp add: str_at_def cstr_def takeWhile_append)
      qed
      have step: "msh_split_loop (length cs) pos argv buf =
          (if ?e \<ge> length cs then Some (argv @ [?p], b) else msh_split_loop (length cs) ?e (argv @ [?p]) b)"
        using True b(1) full lt q sw by (subst msh_split_loop.simps) simp
      show ?thesis
      proof (cases "?e = length cs")
        case fin: True
        then have "words (drop ?e cs) = []" by (simp add: words.simps [of "[]"])
        moreover have "str_at b ?p = Some w" by (rule cw) (use bl fin b(2) in simp_all)
        ultimately show ?thesis using step fin b(2,3) head True ws
          by (intro exI [of _ "[?p]"] exI [of _ b]) auto
      next
        case go: False
        then have e: "?e < length cs" using le by simp
        have blank: "is_blank (cs ! ?e)"
        proof -
          have "dropWhile (\<lambda>x. \<not> is_blank x) (drop ?p cs) = drop ?e cs"
            by (simp add: w_def drop_dropWhile [symmetric] add.commute)
          moreover have "drop ?e cs \<noteq> []" using e by simp
          ultimately show ?thesis by (metis e hd_drop_conv_nth hd_dropWhile)
        qed
        have "length cs - ?e < length cs - pos" using w0 e by (cases w) auto
        moreover have "\<forall>i. ?e \<le> i \<longrightarrow> i < length cs \<longrightarrow> b ! i = cs ! i" using bp by simp
        moreover have "length (argv @ [?p]) + length (words (drop ?e cs)) \<le> FINSH_ARG_MAX" using pre(7) ws by simp
        ultimately obtain offs c where c:
          "msh_split_loop (length cs) ?e (argv @ [?p]) b = Some ((argv @ [?p]) @ offs, c)"
          "length c = length b" "\<forall>i < ?e. c ! i = b ! i" "c ! ?e = 0" "map (str_at c) offs = map Some (words (drop ?e cs))"
          using less.hyps [of ?e b "argv @ [?p]"] le pre(2,5,6) b(2) bl blank by metis
        have "str_at c ?p = Some w" by (rule cw) (use c b(2) in simp_all)
        moreover have "c ! i = b ! i" if "i \<le> pos" for i
          using c(3) that w0 by (cases w) auto
        ultimately show ?thesis using step go le c b(2,3) head True ws
          by (intro exI [of _ "?p # offs"] exI [of _ c]) auto
      qed
    qed
  qed
qed

text \<open>A line without quotes, with up to ten words, is split into its words: each argument is the
  string that the buffer then holds at its offset.\<close>

lemma msh_split_words:
  assumes "0 \<notin> set cs" "34 \<notin> set cs" "length (words cs) \<le> FINSH_ARG_MAX"
  shows "\<exists>argv b. msh_split (cs @ 0 # z) (length cs) = Some (argv, b) \<and>
    map (str_at b) argv = map Some (words cs)"
  using split_loop_words [of 0 cs "cs @ 0 # z" "[]"] assms
  by (force simp: msh_split_def nth_append)

text \<open>The first word, and the command it names.\<close>

lemma cmd0_spec:
  assumes "n \<le> len" "len < length cmd"
  shows "cmd0_size len n cmd =
      Some (n + length (takeWhile (\<lambda>x. \<not> is_blank x) (take (len - n) (drop n cmd))))"
proof -
  have "cmd0_size len n cmd = split_word len n cmd"
    by (induction len n cmd rule: split_word.induct) (subst cmd0_size.simps, subst split_word.simps, simp)
  then show ?thesis using word_spec [OF assms] by simp
qed

lemma strncmp_eq_take:
  "0 \<notin> set a \<Longrightarrow> n \<le> length a \<Longrightarrow> strncmp_eq n a b \<longleftrightarrow> take n a = take n b"
  by (induction n a b rule: strncmp_eq.induct) auto

lemma short_not_prefix: "0 \<notin> set b \<Longrightarrow> length a < n \<Longrightarrow> n \<le> length b \<Longrightarrow> \<not> strncmp_eq n a b"
  by (induction n a b rule: strncmp_eq.induct) (auto simp: Suc_le_length_iff)

text \<open>The function a name stands for: the first entry of that name.\<close>

definition lookup_cmd :: "(u8 list \<times> 'f) list \<Rightarrow> u8 list \<Rightarrow> 'f option" where
  "lookup_cmd table w = map_of table (cmd_prefix @ w)"

lemma get_cmd_lookup:
  assumes t: "\<forall>e \<in> set table. 0 \<notin> set (fst e)" and n: "n \<le> length cmd"
  shows "msh_get_cmd table cmd n = lookup_cmd table (take n cmd)"
proof -
  have e: "strncmp_eq 6 name cmd_prefix \<and> strncmp_eq n (drop 6 name) cmd \<and> length name = 6 + n \<longleftrightarrow>
      name = cmd_prefix @ take n cmd" if nz: "0 \<notin> set name" for name
  proof (cases "length name = 6 + n")
    case True
    have "0 \<notin> set (drop 6 name)" using nz by (meson in_set_dropD)
    then have "strncmp_eq n (drop 6 name) cmd \<longleftrightarrow> drop 6 name = take n cmd"
      using strncmp_eq_take [of "drop 6 name" n cmd] True by simp
    moreover have "strncmp_eq 6 name cmd_prefix \<longleftrightarrow> take 6 name = cmd_prefix"
      using strncmp_eq_take [OF nz, of 6 cmd_prefix] True by simp
    moreover have "name = cmd_prefix @ take n cmd \<longleftrightarrow> take 6 name = cmd_prefix \<and> drop 6 name = take n cmd"
    proof -
      have "length cmd_prefix = 6" by simp
      then show ?thesis using append_eq_conv_conj [of cmd_prefix "take n cmd" name] by metis
    qed
    ultimately show ?thesis using True by blast
  next
    case False
    then show ?thesis using n by auto
  qed
  show ?thesis
    using t unfolding msh_get_cmd_def lookup_cmd_def
  proof (induction table)
    case (Cons x table)
    then show ?case using e [of "fst x"] by (cases x) auto
  qed simp
qed

lemma not_blank_0 [simp]: "\<not> is_blank 0"
  unfolding is_blank_def by code_simp

lemma exec_trim_spec:
  "exec_trim len (cs @ 0 # z) =
     Some (len - of_nat (length (takeWhile is_blank cs)), dropWhile is_blank cs @ 0 # z)"
  by (induction cs arbitrary: len) (auto simp: algebra_simps)

lemma words_Cons:
  "words cs = (case dropWhile is_blank cs of [] \<Rightarrow> []
     | c # r \<Rightarrow> takeWhile (\<lambda>x. \<not> is_blank x) (c # r) # words (dropWhile (\<lambda>x. \<not> is_blank x) (c # r)))"
proof (cases "dropWhile is_blank cs")
  case Nil
  then show ?thesis by (subst words.simps) (simp only: list.case)
next
  case (Cons c r)
  then have "\<not> is_blank c" by (metis hd_dropWhile list.discI list.sel(1))
  then show ?thesis using Cons by (simp add: words.simps [of cs])
qed

lemma words_word:
  assumes "w \<noteq> []" "\<forall>c \<in> set w. \<not> is_blank c"
  shows "words w = [w]" "words (w @ 32 # cs) = w # words cs"
proof -
  obtain c v where w: "w = c # v" "\<not> is_blank c" "\<forall>x \<in> set v. \<not> is_blank x" using assms by (cases w) auto
  then have v: "takeWhile (\<lambda>x. \<not> is_blank x) v = v" "dropWhile (\<lambda>x. \<not> is_blank x) v = []"
    by (simp_all add: takeWhile_eq_all_conv dropWhile_eq_Nil_conv)
  have b: "is_blank 32" by (simp add: is_blank_def)
  have "words (32 # cs) = words cs" using b by (simp add: words.simps [of "32 # cs"] words.simps [of cs])
  moreover have "takeWhile (\<lambda>x. \<not> is_blank x) (v @ 32 # cs) = v"
    "dropWhile (\<lambda>x. \<not> is_blank x) (v @ 32 # cs) = 32 # cs"
    using w(3) b by (simp_all add: takeWhile_append dropWhile_append v)
  ultimately show "words (w @ 32 # cs) = w # words cs" using w by (simp add: words.simps [of "c # v @ 32 # cs"])
  show "words w = [w]" using w(1,2) by (simp only: words.simps [of "c # v"]) (simp add: v words.simps [of "[]"])
qed

lemma words_trim: "words (dropWhile is_blank cs) = words cs"
  unfolding words_Cons [of cs] words_Cons [of "dropWhile is_blank cs"] by simp

text \<open>On a line without quotes and with up to ten words \<^verbatim>\<open>msh_exec\<close> calls the first command of the
  table that has the name of the first word, with the words as its arguments; it reports an
  unknown command and does nothing on an empty line. It reads nothing outside the buffer.\<close>

lemma msh_exec_spec:
  assumes nz: "0 \<notin> set cs" and nq: "34 \<notin> set cs" and nw: "length (words cs) \<le> FINSH_ARG_MAX"
    and len: "length cs < 2 ^ 32" and t: "\<forall>e \<in> set table. 0 \<notin> set (fst e)"
  shows "msh_exec table (cs @ 0 # z) (of_nat (length cs)) = Some (case words cs of
      [] \<Rightarrow> Nothing
    | w # ws \<Rightarrow> (case lookup_cmd table w of
          Some f \<Rightarrow> Call f (w # ws)
        | None \<Rightarrow> Not_found (takeWhile (\<lambda>c. c \<noteq> 32) (dropWhile is_blank cs))))"
proof -
  define cmd where "cmd = dropWhile is_blank cs"
  define k where "k = length (takeWhile is_blank cs)"
  have kl: "k + length cmd = length cs"
    unfolding k_def cmd_def by (metis length_append takeWhile_dropWhile_id)
  have sub: "set cmd \<subseteq> set cs" unfolding cmd_def by (auto dest: set_dropWhileD)
  have "of_nat (length cs) - of_nat k = (of_nat (length cmd) :: u32)" by (simp flip: kl)
  then have trim: "exec_trim (of_nat (length cs)) (cs @ 0 # z) = Some (of_nat (length cmd), cmd @ 0 # z)"
    using exec_trim_spec [of "of_nat (length cs)" cs z] by (simp add: k_def cmd_def)
  have un: "unat (of_nat (length cmd) :: u32) = length cmd"
    using kl len by (simp add: unat_of_nat take_bit_nat_eq_self)
  have wc: "words cs = words cmd" by (simp add: cmd_def words_trim)
  show ?thesis
  proof (cases cmd)
    case Nil
    have "words cs = []" using Nil unfolding words_Cons [of cs] cmd_def [symmetric] by simp
    then show ?thesis using trim Nil by (simp add: msh_exec_def)
  next
    case (Cons c r)
    define w where "w = takeWhile (\<lambda>x. \<not> is_blank x) cmd"
    have nb: "\<not> is_blank c" using Cons unfolding cmd_def by (metis hd_dropWhile list.discI list.sel(1))
    obtain ws where ws: "words cmd = w # ws"
      unfolding words_Cons [of cmd] w_def using Cons nb by simp
    have nz0: "(of_nat (length cmd) :: u32) \<noteq> 0" using un Cons by (metis length_greater_0_conv list.discI unat_0 less_irrefl)
    have n0: "cmd0_size (length cmd) 0 (cmd @ 0 # z) = Some (length w)"
      using cmd0_spec [of 0 "length cmd" "cmd @ 0 # z"] by (simp add: w_def)
    have w0: "w \<noteq> []" using Cons nb by (simp add: w_def)
    have "take (length w) cmd = w" unfolding w_def by (metis takeWhile_eq_take)
    moreover have wl: "length w \<le> length cmd" unfolding w_def by (rule length_takeWhile_le)
    ultimately have gc: "msh_get_cmd table (cmd @ 0 # z) (length w) = lookup_cmd table w"
      using get_cmd_lookup [OF t, of "length w" "cmd @ 0 # z"] by simp
    show ?thesis
    proof (cases "lookup_cmd table w")
      case None
      have "takeWhile (\<lambda>c. c \<noteq> 32 \<and> c \<noteq> 0) (cmd @ 0 # z) = takeWhile (\<lambda>c. c \<noteq> 32) cmd"
        using sub nz by (induction cmd) auto
      then show ?thesis using trim nz0 un n0 w0 gc None ws wc
        by (simp add: msh_exec_def msh_exec_cmd_def cmd_def [symmetric])
    next
      case (Some f)
      have "0 \<notin> set cmd" "34 \<notin> set cmd" using sub nz nq by auto
      then obtain argv b where s: "msh_split (cmd @ 0 # z) (length cmd) = Some (argv, b)"
        "map (str_at b) argv = map Some (words cmd)"
        using msh_split_words [of cmd z] nw wc by auto
      have "argv \<noteq> []" using s(2) ws by auto
      moreover have "those (map Some xs) = Some xs" for xs :: "u8 list list" by (induction xs) auto
      ultimately show ?thesis using trim nz0 un n0 w0 gc Some ws wc s
        by (simp add: msh_exec_def msh_exec_cmd_def del: those.simps list.map)
    qed
  qed
qed

section \<open>Every line is safe\<close>

text \<open>On a line that ends with a zero inside its buffer nothing outside is accessed, whatever the line
  holds.\<close>

lemma quoted_safe:
  "pos \<le> len \<Longrightarrow> len < length buf \<Longrightarrow> buf ! len = 0 \<Longrightarrow> \<exists>e. split_quoted len pos buf = Some e \<and> e \<le> len"
proof (induction len pos buf rule: split_quoted.induct)
  case (1 len pos buf)
  have pb: "pos < length buf" using "1.prems" by simp
  show ?case
  proof (cases "buf ! pos \<noteq> 34 \<and> pos < len")
    case False
    then have "split_quoted len pos buf = Some pos"
      by (subst split_quoted.simps) (simp only: pb if_True False if_False)
    then show ?thesis using "1.prems" by simp
  next
    case True
    then have lt: "pos + 1 \<le> len" "pos + 1 < length buf" using "1.prems" by simp_all
    show ?thesis
    proof (cases "buf ! pos = 92")
      case bs: True
      let ?p = "if buf ! (pos + 1) = 34 then pos + 2 else pos + 1"
      have "buf ! (pos + 1) = 34 \<Longrightarrow> pos + 1 \<noteq> len" using "1.prems"(3) by auto
      then have "?p \<le> len" using lt(1) by auto
      from "1.IH"(1) [OF pb True bs lt(2) this "1.prems"(2,3)] obtain e where
        "split_quoted len ?p buf = Some e" "e \<le> len" by blast
      moreover have "split_quoted len pos buf = split_quoted len ?p buf"
        using bs True lt(2) pb by (subst split_quoted.simps) (simp only: if_True simp_thms)
      ultimately show ?thesis by auto
    next
      case nbs: False
      from "1.IH"(2) [OF pb True nbs lt(1) "1.prems"(2,3)] obtain e where
        "split_quoted len (pos + 1) buf = Some e" "e \<le> len" by blast
      moreover have "split_quoted len pos buf = split_quoted len (pos + 1) buf"
        by (subst split_quoted.simps) (simp only: pb True nbs if_True if_False not_False_eq_True simp_thms)
      ultimately show ?thesis by auto
    qed
  qed
qed

lemma split_loop_safe:
  "pos \<le> len \<Longrightarrow> len < length buf \<Longrightarrow> buf ! len = 0 \<Longrightarrow> \<forall>o1 \<in> set argv. o1 \<le> len \<Longrightarrow>
   \<exists>offs b. msh_split_loop len pos argv buf = Some (offs, b) \<and> (\<forall>o1 \<in> set offs. o1 \<le> len) \<and>
     length b = length buf \<and> b ! len = 0"
proof (induction "len - pos" arbitrary: pos argv buf rule: less_induct)
  case less
  note pre = less.prems
  show ?case
  proof (cases "pos < len")
    case False
    then show ?thesis using pre by (subst msh_split_loop.simps) auto
  next
    case True
    define k where "k = length (takeWhile is_blank (take (len - pos) (drop pos buf)))"
    obtain b where b: "split_strip len pos buf = Some (pos + k, b)" "length b = length buf"
      "\<forall>i. b ! i = (if pos \<le> i \<and> i < pos + k then 0 else buf ! i)"
      using strip_spec [OF pre(1,2)] unfolding k_def by blast
    let ?p = "pos + k"
    have bl: "b ! len = 0" "len < length b" using b(2,3) pre(2,3) by simp_all
    have g: "?p < len \<longrightarrow> \<not> is_blank (b ! ?p)" using split_strip_ge [OF b(1)] by simp
    show ?thesis
    proof (cases "length argv \<ge> FINSH_ARG_MAX \<or> ?p \<ge> len")
      case True
      then have "msh_split_loop len pos argv buf = Some (argv, b)"
        using \<open>pos < len\<close> b(1) by (subst msh_split_loop.simps) auto
      then show ?thesis using b(2) bl(1) pre(4) by auto
    next
      case go: False
      then have lt: "?p < len" by simp
      show ?thesis
      proof (cases "b ! ?p = 34")
        case q: True
        obtain e where e: "split_quoted len (?p + 1) b = Some e" "e \<le> len"
          using quoted_safe [of "?p + 1" len b] lt bl by auto
        have ge: "?p + 1 \<le> e" using split_quoted_ge [OF e(1)] by simp
        have step: "msh_split_loop len pos argv buf = (if e \<ge> len then Some (argv @ [?p + 1], b)
            else msh_split_loop len (e + 1) (argv @ [?p + 1]) (b[e := 0]))"
          using \<open>pos < len\<close> b(1) go q e(1) by (subst msh_split_loop.simps) simp
        show ?thesis
        proof (cases "e \<ge> len")
          case True
          then show ?thesis using step b(2) bl(1) pre(4) lt by auto
        next
          case False
          have "len - (e + 1) < len - pos" "e + 1 \<le> len" "len < length (b[e := 0])" "(b[e := 0]) ! len = 0"
            "\<forall>o1 \<in> set (argv @ [?p + 1]). o1 \<le> len"
            using False ge lt bl pre(4) by (auto simp: nth_list_update)
          from less.hyps [OF this] show ?thesis using step False b(2) by auto
        qed
      next
        case w: False
        define e where "e = ?p + length (takeWhile (\<lambda>x. \<not> is_blank x) (take (len - ?p) (drop ?p b)))"
        have sw: "split_word len ?p b = Some e" using word_spec [of ?p len b] lt bl(2) by (simp add: e_def)
        have ge: "?p < e" using split_word_ge [OF sw] lt g by simp
        have step: "msh_split_loop len pos argv buf = (if e \<ge> len then Some (argv @ [?p], b)
            else msh_split_loop len e (argv @ [?p]) b)"
          using \<open>pos < len\<close> b(1) go w sw by (subst msh_split_loop.simps) simp
        show ?thesis
        proof (cases "e \<ge> len")
          case True
          then show ?thesis using step b(2) bl(1) pre(4) lt by auto
        next
          case False
          have "len - e < len - pos" "e \<le> len" "len < length b" "b ! len = 0"
            "\<forall>o1 \<in> set (argv @ [?p]). o1 \<le> len"
            using False ge lt bl pre(4) by auto
          from less.hyps [OF this] show ?thesis using step False b(2) by auto
        qed
      qed
    qed
  qed
qed

lemma those_str_at:
  assumes "\<forall>o1 \<in> set offs. o1 \<le> len" "len < length b" "b ! len = 0"
  shows "\<exists>args. those (map (str_at b) offs) = Some args"
  using assms
proof (induction offs)
  case (Cons o1 offs)
  then have o1: "o1 \<le> len" by simp
  then have "drop o1 b ! (len - o1) = 0" using Cons.prems by simp
  moreover have "len - o1 < length (drop o1 b)" using o1 Cons.prems(2) by simp
  ultimately have "0 \<in> set (drop o1 b)" by (metis nth_mem)
  then show ?case using Cons by (auto simp: str_at_def)
qed simp

lemma msh_exec_safe:
  assumes nz: "0 \<notin> set cs" and len: "length cs < 2 ^ 32"
  shows "\<exists>r. msh_exec table (cs @ 0 # z) (of_nat (length cs)) = Some r"
proof -
  define cmd where "cmd = dropWhile is_blank cs"
  have kl: "length (takeWhile is_blank cs) + length cmd = length cs"
    unfolding cmd_def by (metis length_append takeWhile_dropWhile_id)
  have "of_nat (length cs) - of_nat (length (takeWhile is_blank cs)) = (of_nat (length cmd) :: u32)"
    by (simp flip: kl)
  then have trim: "exec_trim (of_nat (length cs)) (cs @ 0 # z) = Some (of_nat (length cmd), cmd @ 0 # z)"
    using exec_trim_spec [of "of_nat (length cs)" cs z] by (simp add: cmd_def)
  have un: "unat (of_nat (length cmd) :: u32) = length cmd"
    using kl len by (simp add: unat_of_nat take_bit_nat_eq_self)
  have n0: "\<exists>n. cmd0_size (length cmd) 0 (cmd @ 0 # z) = Some n"
    using cmd0_spec [of 0 "length cmd" "cmd @ 0 # z"] by simp
  obtain offs b where s: "msh_split (cmd @ 0 # z) (length cmd) = Some (offs, b)"
    "\<forall>o1 \<in> set offs. o1 \<le> length cmd" "length b = length (cmd @ 0 # z)" "b ! length cmd = 0"
    using split_loop_safe [of 0 "length cmd" "cmd @ 0 # z" "[]"] by (auto simp: msh_split_def)
  have "\<exists>args. those (map (str_at b) offs) = Some args"
    by (rule those_str_at [OF s(2) _ s(4)]) (simp add: s(3))
  then have "\<exists>x. msh_exec_cmd table (cmd @ 0 # z) (length cmd) = Some x"
    using n0 s(1) by (auto simp: msh_exec_cmd_def split: option.splits)
  then show ?thesis using trim un by (auto simp: msh_exec_def split: option.splits)
qed

section \<open>Completing a command name\<close>

text \<open>The length of the common prefix of two strings.\<close>

fun str_common :: "u8 list \<Rightarrow> u8 list \<Rightarrow> nat" where
  "str_common (x # a) (y # b) = (if x = y then Suc (str_common a b) else 0)"
| "str_common a b = 0"

text \<open>The loop over the table; the state is the first match and the length common to all of them,
  and what is printed.\<close>

fun complete_step :: "u8 list \<Rightarrow> u8 list \<Rightarrow> (u8 list \<times> nat) option \<times> u8 list list \<Rightarrow>
    (u8 list \<times> nat) option \<times> u8 list list" where
  "complete_step prefix name (best, out) =
     (if strncmp_eq 6 name cmd_prefix \<and> strncmp_eq (length prefix) prefix (drop 6 name)
      then let cmd_name = drop 6 name;
             (name_ptr, min_length) = (case best of
                 Some (n, m) \<Rightarrow> if m = 0 then (cmd_name, length cmd_name) else (n, m)
               | None \<Rightarrow> (cmd_name, length cmd_name));
             len = str_common name_ptr cmd_name
           in (Some (name_ptr, if len < min_length then len else min_length), out @ [cmd_name])
      else (best, out))"

text \<open>The new line and the candidates printed; \<open>None\<close> when the buffer is too short for the name. An
  empty line lists all commands.\<close>

definition msh_auto_complete :: "u8 list list \<Rightarrow> u8 list \<Rightarrow> (u8 list \<times> u8 list list) option" where
  "msh_auto_complete names line =
     (if cstr line 0 = []
      then Some (line, map (drop 6) (filter (\<lambda>n. strncmp_eq 6 n cmd_prefix) names))
      else case foldl (\<lambda>st n. complete_step (cstr line 0) n st) (None, []) names of
        (None, out) \<Rightarrow> Some (line, out)
      | (Some (name_ptr, min_length), out) \<Rightarrow>
          if min_length \<le> length line
          then Some (take min_length name_ptr @ drop min_length line, out) else None)"

lemma str_common_take:
  "n \<le> length a \<Longrightarrow> n \<le> length b \<Longrightarrow> take n a = take n b \<longleftrightarrow> n \<le> str_common a b"
  by (induction a b arbitrary: n rule: str_common.induct) (auto simp: take_Cons split: nat.splits)

lemma str_common_bounds: "str_common a b \<le> length a" "str_common a b \<le> length b"
  by (induction a b rule: str_common.induct) auto

lemma str_common_self: "str_common a a = length a"
  by (induction a) auto

definition completions :: "u8 list list \<Rightarrow> u8 list \<Rightarrow> u8 list list" where
  "completions names p =
     map (drop 6) (filter (\<lambda>n. take 6 n = cmd_prefix \<and> take (length p) (drop 6 n) = p) names)"

text \<open>The first match and the length common to all matches \<open>ms\<close>.\<close>

definition best_ok :: "u8 list \<Rightarrow> u8 list list \<Rightarrow> (u8 list \<times> nat) option \<Rightarrow> bool" where
  "best_ok p ms best = (case best of None \<Rightarrow> ms = []
     | Some (m0, l) \<Rightarrow> m0 \<in> set ms \<and> length p \<le> l \<and> l \<le> length m0 \<and>
         (\<forall>m \<in> set ms. l \<le> str_common m0 m) \<and> (\<exists>m \<in> set ms. l = str_common m0 m))"

lemma complete_loop:
  assumes p: "p \<noteq> []" "0 \<notin> set p" and ns: "\<forall>n \<in> set ns. 0 \<notin> set n"
  shows "\<exists>best. foldl (\<lambda>st n. complete_step p n st) (None, []) ns = (best, completions ns p) \<and>
    best_ok p (completions ns p) best"
  using ns
proof (induction ns rule: rev_induct)
  case Nil
  then show ?case by (simp add: completions_def best_ok_def)
next
  case (snoc n ns)
  obtain best where best: "foldl (\<lambda>st n. complete_step p n st) (None, []) ns = (best, completions ns p)"
    "best_ok p (completions ns p) best"
    using snoc by auto
  have nz: "0 \<notin> set n" using snoc.prems by simp
  have m6: "strncmp_eq 6 n cmd_prefix \<longleftrightarrow> take 6 n = cmd_prefix"
  proof (cases "6 \<le> length n")
    case True
    then show ?thesis using strncmp_eq_take [OF nz True] by simp
  next
    case False
    then have "length (take 6 n) \<noteq> length cmd_prefix" by simp
    then have "take 6 n \<noteq> cmd_prefix" by metis
    moreover have "\<not> strncmp_eq 6 n cmd_prefix"
      using False short_not_prefix [of cmd_prefix n 6] by simp
    ultimately show ?thesis by blast
  qed
  have mp: "strncmp_eq (length p) p (drop 6 n) \<longleftrightarrow> take (length p) (drop 6 n) = p"
    using strncmp_eq_take [OF p(2), of "length p" "drop 6 n"] by auto
  show ?case
  proof (cases "take 6 n = cmd_prefix \<and> take (length p) (drop 6 n) = p")
    case False
    then have "completions (ns @ [n]) p = completions ns p" by (simp add: completions_def)
    moreover have "complete_step p n (best, completions ns p) = (best, completions ns p)"
      by (simp only: complete_step.simps m6 mp False if_False)
    ultimately show ?thesis using best by (simp del: complete_step.simps)
  next
    case True
    let ?c = "drop 6 n"
    have cs: "completions (ns @ [n]) p = completions ns p @ [?c]" using True by (simp add: completions_def)
    have lc: "length p \<le> length ?c" using True by (metis length_take min.cobounded1 min_def order.refl)
    have common: "length p \<le> str_common m ?c" if "take (length p) m = p" "length p \<le> length m" for m
      using that True lc str_common_take [of "length p" m ?c] by simp
    show ?thesis
    proof (cases best)
      case None
      then have "foldl (\<lambda>st n. complete_step p n st) (None, []) (ns @ [n]) =
          (Some (?c, length ?c), completions (ns @ [n]) p)"
        using best True m6 mp by (simp add: Let_def cs str_common_self)
      moreover have "best_ok p (completions (ns @ [n]) p) (Some (?c, length ?c))"
        using None best(2) lc cs by (simp add: str_common_self best_ok_def)
      ultimately show ?thesis by blast
    next
      case (Some ml)
      obtain m0 l where ml: "ml = (m0, l)" by (cases ml)
      have b: "m0 \<in> set (completions ns p)" "length p \<le> l" "l \<le> length m0"
        "\<forall>m \<in> set (completions ns p). l \<le> str_common m0 m"
        "\<exists>m \<in> set (completions ns p). l = str_common m0 m" using best(2) Some ml by (simp_all add: best_ok_def)
      have l0: "l \<noteq> 0" using b(2) p(1) by (cases p) auto
      have "take (length p) m0 = p" using b(1) by (auto simp: completions_def)
      then have c0: "length p \<le> str_common m0 ?c" using common b(2,3) by simp
      have "foldl (\<lambda>st n. complete_step p n st) (None, []) (ns @ [n]) =
          (Some (m0, min l (str_common m0 ?c)), completions (ns @ [n]) p)"
        using best(1) Some ml True m6 mp l0 by (simp add: Let_def cs min_def)
      moreover have "best_ok p (completions (ns @ [n]) p) (Some (m0, min l (str_common m0 ?c)))"
        using b c0 str_common_bounds [of m0 ?c] unfolding cs by (auto simp: min_def best_ok_def)
      ultimately show ?thesis by blast
    qed
  qed
qed

text \<open>Completing a non-empty prefix writes the longest common prefix of all commands that start
  with it over the line, and prints those commands; with no such command the line stays.\<close>

theorem msh_auto_complete_correct:
  assumes p: "cstr line 0 = p" "p \<noteq> []" and ns: "\<forall>n \<in> set names. 0 \<notin> set n"
    and room: "\<forall>m \<in> set (completions names p). length m \<le> length line"
  shows "\<exists>line'. msh_auto_complete names line = Some (line', completions names p) \<and>
    (if completions names p = [] then line' = line
     else \<exists>l. line' = take l line' @ drop l line \<and> l \<le> length line \<and>
       (\<forall>m \<in> set (completions names p). take l m = take l line') \<and>
       (\<forall>k. (\<exists>q. \<forall>m \<in> set (completions names p). k \<le> length m \<and> take k m = q) \<longrightarrow> k \<le> l))"
proof -
  have z: "0 \<notin> set p" using p(1) unfolding cstr_def by (metis set_takeWhileD)
  obtain best where best: "foldl (\<lambda>st n. complete_step p n st) (None, []) names = (best, completions names p)"
    "best_ok p (completions names p) best"
    using complete_loop [OF p(2) z ns] by blast
  show ?thesis
  proof (cases best)
    case None
    then show ?thesis using best p by (simp add: msh_auto_complete_def best_ok_def)
  next
    case (Some ml)
    obtain m0 l where ml: "ml = (m0, l)" by (cases ml)
    have b: "m0 \<in> set (completions names p)" "l \<le> length m0"
      "\<forall>m \<in> set (completions names p). l \<le> str_common m0 m"
      "\<exists>m \<in> set (completions names p). l = str_common m0 m" using best(2) Some ml by (simp_all add: best_ok_def)
    have ll: "l \<le> length line" using b(1,2) room by force
    let ?line = "take l m0 @ drop l line"
    have run: "msh_auto_complete names line = Some (?line, completions names p)"
      using best(1) Some ml p ll by (simp add: msh_auto_complete_def)
    have tl: "take l ?line = take l m0" using b(2) by simp
    have same: "take l m = take l m0" if "m \<in> set (completions names p)" for m
    proof -
      have "l \<le> str_common m0 m" using b(3) that by blast
      then have "l \<le> length m" using str_common_bounds(2) [of m0 m] by linarith
      then show ?thesis using str_common_take [OF b(2), of m] \<open>l \<le> str_common m0 m\<close> by simp
    qed
    have max: "k \<le> l" if "\<forall>m \<in> set (completions names p). k \<le> length m \<and> take k m = q" for k q
    proof -
      obtain m where m: "m \<in> set (completions names p)" "l = str_common m0 m" using b(4) by blast
      then have "k \<le> length m0" "k \<le> length m" "take k m0 = take k m" using that b(1) by auto
      then show ?thesis using str_common_take [of k m0 m] m(2) by simp
    qed
    have ne: "completions names p \<noteq> []" using b(1) by auto
    have "?line = take l ?line @ drop l line" unfolding tl ..
    moreover have "\<forall>m \<in> set (completions names p). take l m = take l ?line" using same tl by simp
    moreover have "\<forall>k. (\<exists>q. \<forall>m \<in> set (completions names p). k \<le> length m \<and> take k m = q) \<longrightarrow> k \<le> l"
      using max by blast
    ultimately have "\<exists>l. ?line = take l ?line @ drop l line \<and> l \<le> length line \<and>
       (\<forall>m \<in> set (completions names p). take l m = take l ?line) \<and>
       (\<forall>k. (\<exists>q. \<forall>m \<in> set (completions names p). k \<le> length m \<and> take k m = q) \<longrightarrow> k \<le> l)"
      using ll by blast
    then show ?thesis using run ne by (intro exI [of _ ?line]) (simp only: if_False simp_thms)
  qed
qed


text \<open>With the commands \<open>abc\<close> and \<open>abd\<close>, the prefix \<open>a\<close> becomes \<open>ab\<close>.\<close>

lemma msh_auto_complete_correct_witness:
  "msh_auto_complete [cmd_prefix @ [97, 98, 99], cmd_prefix @ [97, 98, 100]] [97, 0, 0, 0] =
     Some ([97, 98, 0, 0], [[97, 98, 99], [97, 98, 100]])"
proof -
  let ?names = "[cmd_prefix @ [97, 98, 99], cmd_prefix @ [97, 98, 100]]" and ?line = "[97, 0, 0, 0 :: u8]"
  have c: "completions ?names [97] = [[97, 98, 99], [97, 98, 100]]" by (simp add: completions_def)
  obtain line' l where "msh_auto_complete ?names ?line = Some (line', completions ?names [97])"
    "line' = take l line' @ drop l ?line" "l \<le> length ?line"
    "\<forall>m \<in> set (completions ?names [97]). take l m = take l line'"
    "\<forall>k. (\<exists>q. \<forall>m \<in> set (completions ?names [97]). k \<le> length m \<and> take k m = q) \<longrightarrow> k \<le> l"
    using msh_auto_complete_correct [of ?line "[97]" ?names] c by (auto simp: cstr_def)
  note r = this
  have "2 \<le> l" using r(5) unfolding c by (elim allE [of _ 2]) simp
  moreover have "take l [97, 98, 99] = take l [97, 98, 100 :: u8]" using r(4) unfolding c by simp
  then have "l < 3" by (cases "l < 3") (simp_all add: not_less)
  ultimately have l: "l = 2" by simp
  have "take l line' = [97, 98]" using r(4) l unfolding c by simp
  then have "line' = [97, 98] @ drop l [97, 0, 0, 0]" using r(2) by argo
  then show ?thesis using r(1) l unfolding c by simp
qed

end
