(* ===== verification/Shell.thy ===== *)
theory Shell
  imports Msh
begin

text \<open>
  The line editor of the shell, \<^verbatim>\<open>components/finsh/shell.c\<close> in the configuration of
  \<^verbatim>\<open>rtconfig.h\<close> (history, msh only, no password): what one byte from the console does to the line,
  the cursor, the history and the screen. \<open>None\<close> is an access outside an array of the shell; the
  two positions are bytes, with their wrap-around written out.
\<close>

section \<open>State\<close>

abbreviation "FINSH_CMD_SIZE \<equiv> (80 :: nat)"
abbreviation "FINSH_HISTORY_LINES \<equiv> (5 :: nat)"

datatype input_stat = WAIT_NORMAL | WAIT_SPEC_KEY | WAIT_FUNC_KEY

record finsh_shell =
  stat :: input_stat
  echo_mode :: bool
  current_history :: nat
  history_count :: nat
  cmd_history :: "u8 list list"
  line :: "u8 list"
  line_position :: nat
  line_curpos :: nat

text \<open>What a byte causes: text on the console, the list of commands with their descriptions, and a line
  that is executed.\<close>

datatype 'f shell_out = Text "u8 list" | Help "u8 list list" | Run "'f msh_result"

type_synonym 'f shell_res = "('f shell_out list \<times> finsh_shell) option"

text \<open>\<^verbatim>\<open>"msh >"\<close>, the prompt without a file system.\<close>

definition FINSH_PROMPT :: "u8 list" where
  "FINSH_PROMPT = [109, 115, 104, 32, 62]"

lemma length_prompt [simp]: "length FINSH_PROMPT = 5"
  by (simp add: FINSH_PROMPT_def)

section \<open>Bytes in arrays\<close>

text \<open>\<^verbatim>\<open>rt_memmove(&line[dst], &line[src], n)\<close> inside the line.\<close>

definition move :: "nat \<Rightarrow> nat \<Rightarrow> nat \<Rightarrow> u8 list \<Rightarrow> u8 list option" where
  "move dst src n buf =
     (if dst + n \<le> length buf \<and> src + n \<le> length buf
      then Some (take dst buf @ take n (drop src buf) @ drop (dst + n) buf) else None)"

definition set_at :: "nat \<Rightarrow> u8 \<Rightarrow> u8 list \<Rightarrow> u8 list option" where
  "set_at i c buf = (if i < length buf then Some (buf[i := c]) else None)"

section \<open>History\<close>

text \<open>The entry for a line: its bytes, then zeros.\<close>

definition history_entry :: "finsh_shell \<Rightarrow> u8 list" where
  "history_entry sh = take (line_position sh) (line sh) @ replicate (FINSH_CMD_SIZE - line_position sh) 0"

definition shell_push_history :: "finsh_shell \<Rightarrow> finsh_shell" where
  "shell_push_history sh =
     (let sh1 =
        (if line_position sh \<noteq> 0
         then if history_count sh \<ge> FINSH_HISTORY_LINES
              then if cmd_history sh ! (FINSH_HISTORY_LINES - 1) \<noteq> line sh
                   then sh\<lparr>cmd_history := tl (cmd_history sh) @ [history_entry sh],
                           history_count := FINSH_HISTORY_LINES\<rparr>
                   else sh
              else if history_count sh = 0 \<or> cmd_history sh ! (history_count sh - 1) \<noteq> line sh
                   then sh\<lparr>cmd_history := (cmd_history sh)[history_count sh := history_entry sh],
                           history_count := history_count sh + 1\<rparr>
                   else sh
         else sh)
      in sh1\<lparr>current_history := history_count sh1\<rparr>)"

text \<open>The entry becomes the line, and the screen shows it.\<close>

definition shell_recall :: "finsh_shell \<Rightarrow> 'f shell_res" where
  "shell_recall sh = do {
     l \<leftarrow> (if current_history sh < length (cmd_history sh) then Some (cmd_history sh ! current_history sh) else None);
     s \<leftarrow> str_at l 0;
     Some ([Text [27, 91, 50, 75, 13], Text (FINSH_PROMPT @ s)],
           sh\<lparr>line := l, line_curpos := length s, line_position := length s\<rparr>)
   }"

definition shell_up :: "finsh_shell \<Rightarrow> 'f shell_res" where
  "shell_up sh =
     (if current_history sh > 0 then shell_recall (sh\<lparr>current_history := current_history sh - 1\<rparr>)
      else Some ([], sh\<lparr>current_history := 0\<rparr>))"

definition shell_down :: "finsh_shell \<Rightarrow> 'f shell_res" where
  "shell_down sh =
     (if int (current_history sh) < int (history_count sh) - 1
      then shell_recall (sh\<lparr>current_history := current_history sh + 1\<rparr>)
      else if history_count sh \<noteq> 0
      then shell_recall (sh\<lparr>current_history := history_count sh - 1\<rparr>)
      else Some ([], sh))"

section \<open>Keys\<close>

abbreviation backs :: "nat \<Rightarrow> 'f shell_out list" where
  "backs n \<equiv> replicate n (Text [8])"

definition shell_left :: "finsh_shell \<Rightarrow> 'f shell_res" where
  "shell_left sh = Some (if line_curpos sh \<noteq> 0
     then ([Text [8]], sh\<lparr>line_curpos := line_curpos sh - 1\<rparr>) else ([], sh))"

definition shell_right :: "finsh_shell \<Rightarrow> 'f shell_res" where
  "shell_right sh =
     (if line_curpos sh < line_position sh
      then if line_curpos sh < length (line sh)
           then Some ([Text [line sh ! line_curpos sh]], sh\<lparr>line_curpos := (line_curpos sh + 1) mod 256\<rparr>)
           else None
      else Some ([], sh))"

definition shell_tab :: "(u8 list \<times> 'f) list \<Rightarrow> finsh_shell \<Rightarrow> 'f shell_res" where
  "shell_tab table sh = do {
     _ \<leftarrow> str_at (line sh) 0;
     (l, names) \<leftarrow> msh_auto_complete (map fst table) (line sh);
     s \<leftarrow> str_at l 0;
     Some (backs (line_curpos sh) @ [Text [10]] @
             (if cstr (line sh) 0 = [] then [Help names] else map (\<lambda>n. Text (n @ [10])) names) @
             [Text (FINSH_PROMPT @ s)],
           sh\<lparr>line := l, line_curpos := length s mod 256, line_position := length s mod 256\<rparr>)
   }"

definition shell_backspace :: "finsh_shell \<Rightarrow> 'f shell_res" where
  "shell_backspace sh =
     (if line_curpos sh = 0 then Some ([], sh)
      else
        let p = (line_position sh + 255) mod 256; c = (line_curpos sh + 255) mod 256 in
        if p > c
        then do {
          l1 \<leftarrow> move c (c + 1) (p - c) (line sh);
          l2 \<leftarrow> set_at p 0 l1;
          s \<leftarrow> str_at l2 c;
          Some ([Text ([8] @ s @ [32, 32, 8])] @ backs (p - c + 1),
                sh\<lparr>line := l2, line_position := p, line_curpos := c\<rparr>)
        }
        else do {
          l1 \<leftarrow> set_at p 0 (line sh);
          Some ([Text [8, 32, 8]], sh\<lparr>line := l1, line_position := p, line_curpos := c\<rparr>)
        })"

definition shell_enter :: "(u8 list \<times> 'f) list \<Rightarrow> finsh_shell \<Rightarrow> 'f shell_res" where
  "shell_enter table sh = do {
     let sh1 = shell_push_history sh;
     r \<leftarrow> msh_exec table (line sh1) (of_nat (line_position sh1));
     Some ((if echo_mode sh1 then [Text [10]] else []) @ [Run r, Text FINSH_PROMPT],
           sh1\<lparr>line := replicate FINSH_CMD_SIZE 0, line_curpos := 0, line_position := 0\<rparr>)
   }"

definition shell_insert :: "u8 \<Rightarrow> finsh_shell \<Rightarrow> 'f shell_res" where
  "shell_insert ch sh0 = do {
     let sh = (if line_position sh0 \<ge> FINSH_CMD_SIZE then sh0\<lparr>line_position := 0\<rparr> else sh0);
     let p = line_position sh;
     let c = line_curpos sh;
     (out, l) \<leftarrow>
       (if c < p
        then do {
          l1 \<leftarrow> move (c + 1) c (p - c) (line sh);
          l2 \<leftarrow> set_at c ch l1;
          s \<leftarrow> (if echo_mode sh then map_option (\<lambda>s. [Text s]) (str_at l2 c) else Some []);
          Some (s @ backs (p - c), l2)
        }
        else do {
          l1 \<leftarrow> set_at p ch (line sh);
          Some (if echo_mode sh then [Text [ch]] else [], l1)
        });
     let p1 = (p + 1) mod 256;
     let c1 = (c + 1) mod 256;
     Some (out, if p1 \<ge> FINSH_CMD_SIZE then sh\<lparr>line := l, line_position := 0, line_curpos := 0\<rparr>
                else sh\<lparr>line := l, line_position := p1, line_curpos := c1\<rparr>)
   }"

text \<open>A byte that is no part of an escape sequence.\<close>

definition shell_char :: "(u8 list \<times> 'f) list \<Rightarrow> u8 \<Rightarrow> finsh_shell \<Rightarrow> 'f shell_res" where
  "shell_char table ch sh =
     (if ch = 0 \<or> ch = 0xff then Some ([], sh)
      else if ch = 9 then shell_tab table sh
      else if ch = 0x7f \<or> ch = 8 then shell_backspace sh
      else if ch = 13 \<or> ch = 10 then shell_enter table sh
      else shell_insert ch sh)"

text \<open>One pass of the loop of \<^verbatim>\<open>finsh_thread_entry\<close>.\<close>

definition shell_key :: "(u8 list \<times> 'f) list \<Rightarrow> u8 \<Rightarrow> finsh_shell \<Rightarrow> 'f shell_res" where
  "shell_key table ch sh =
     (if ch = 0x1b then Some ([], sh\<lparr>stat := WAIT_SPEC_KEY\<rparr>)
      else if stat sh = WAIT_SPEC_KEY
      then if ch = 0x5b then Some ([], sh\<lparr>stat := WAIT_FUNC_KEY\<rparr>)
           else shell_char table ch (sh\<lparr>stat := WAIT_NORMAL\<rparr>)
      else if stat sh = WAIT_FUNC_KEY
      then let sh1 = sh\<lparr>stat := WAIT_NORMAL\<rparr> in
           if ch = 0x41 then shell_up sh1
           else if ch = 0x42 then shell_down sh1
           else if ch = 0x44 then shell_left sh1
           else if ch = 0x43 then shell_right sh1
           else shell_char table ch sh1
      else shell_char table ch sh)"

fun shell_keys :: "(u8 list \<times> 'f) list \<Rightarrow> u8 list \<Rightarrow> finsh_shell \<Rightarrow> 'f shell_res" where
  "shell_keys table [] sh = Some ([], sh)"
| "shell_keys table (ch # cs) sh = do {
     (o1, sh1) \<leftarrow> shell_key table ch sh;
     (o2, sh2) \<leftarrow> shell_keys table cs sh1;
     Some (o1 @ o2, sh2)
   }"

text \<open>The shell when its thread starts: zeroed memory, echo on, the prompt printed.\<close>

definition finsh_start :: finsh_shell where
  "finsh_start = \<lparr>stat = WAIT_NORMAL, echo_mode = True, current_history = 0, history_count = 0,
     cmd_history = replicate FINSH_HISTORY_LINES (replicate FINSH_CMD_SIZE 0),
     line = replicate FINSH_CMD_SIZE 0, line_position = 0, line_curpos = 0\<rparr>"

section \<open>Invariant\<close>

definition padded :: "u8 list \<Rightarrow> u8 list" where
  "padded t = t @ replicate (FINSH_CMD_SIZE - length t) 0"

definition text_of :: "finsh_shell \<Rightarrow> u8 list" where
  "text_of sh = take (line_position sh) (line sh)"

text \<open>The line is a text shorter than the array, followed by zeros, and so is every history entry.\<close>

definition is_line :: "u8 list \<Rightarrow> bool" where
  "is_line l \<longleftrightarrow> (\<exists>t. l = padded t \<and> 0 \<notin> set t \<and> length t < FINSH_CMD_SIZE)"

definition sh_ok :: "finsh_shell \<Rightarrow> bool" where
  "sh_ok sh \<longleftrightarrow> line sh = padded (text_of sh) \<and> 0 \<notin> set (text_of sh) \<and>
     length (text_of sh) = line_position sh \<and> line_position sh < FINSH_CMD_SIZE \<and>
     line_curpos sh \<le> line_position sh \<and> length (cmd_history sh) = FINSH_HISTORY_LINES \<and>
     history_count sh \<le> FINSH_HISTORY_LINES \<and> current_history sh \<le> history_count sh \<and>
     (\<forall>h \<in> set (cmd_history sh). is_line h)"

lemma length_padded [simp]: "length t < FINSH_CMD_SIZE \<Longrightarrow> length (padded t) = FINSH_CMD_SIZE"
  by (simp add: padded_def)

lemma padded_inj: "padded s = padded t \<Longrightarrow> 0 \<notin> set s \<Longrightarrow> 0 \<notin> set t \<Longrightarrow> s = t"
proof -
  assume a: "padded s = padded t" "0 \<notin> set s" "0 \<notin> set t"
  have "takeWhile (\<lambda>c. c \<noteq> 0) (padded u) = u" if "0 \<notin> set u" for u
    using that by (auto simp: padded_def takeWhile_append takeWhile_replicate)
  then show ?thesis using a by metis
qed

lemma str_at_padded:
  assumes "0 \<notin> set t" "length t < FINSH_CMD_SIZE" "i \<le> length t"
  shows "str_at (padded t) i = Some (drop i t)"
proof -
  have d: "drop i (padded t) = drop i t @ 0 # replicate (FINSH_CMD_SIZE - length t - 1) 0"
    using assms by (cases "FINSH_CMD_SIZE - length t") (simp_all add: padded_def)
  moreover have "\<forall>x \<in> set (drop i t). x \<noteq> 0" using assms(1) by (auto dest: in_set_dropD)
  ultimately show ?thesis by (simp add: str_at_def cstr_def takeWhile_append)
qed

lemma padded_line: "line sh = padded t \<Longrightarrow> line_position sh = length t \<Longrightarrow> text_of sh = t"
  by (simp add: text_of_def padded_def)

lemma finsh_start_ok: "sh_ok finsh_start"
proof -
  have "is_line (replicate FINSH_CMD_SIZE 0)" unfolding is_line_def padded_def by (rule exI [of _ "[]"]) simp
  then show ?thesis by (simp add: sh_ok_def finsh_start_def text_of_def padded_def)
qed

text \<open>A state with another line.\<close>

lemma sh_okI:
  assumes "sh_ok sh" "0 \<notin> set t" "length t < FINSH_CMD_SIZE" "c \<le> length t"
    "line sh' = padded t" "line_position sh' = length t" "line_curpos sh' = c"
    "cmd_history sh' = cmd_history sh" "history_count sh' = history_count sh"
    "current_history sh' \<le> history_count sh"
  shows "sh_ok sh' \<and> text_of sh' = t"
proof -
  have "text_of sh' = t" by (rule padded_line [OF assms(5,6)])
  then show ?thesis using assms by (simp add: sh_ok_def)
qed

section \<open>Editing\<close>

text \<open>The text on both sides of the cursor.\<close>

definition zipper :: "finsh_shell \<Rightarrow> u8 list \<times> u8 list" where
  "zipper sh = (take (line_curpos sh) (text_of sh), drop (line_curpos sh) (text_of sh))"

datatype edit = Char u8 | Erase | Left | Right

fun edit_step :: "edit \<Rightarrow> u8 list \<times> u8 list \<Rightarrow> u8 list \<times> u8 list" where
  "edit_step (Char c) (l, r) = (l @ [c], r)"
| "edit_step Erase (l, r) = (butlast l, r)"
| "edit_step Left (l, r) = (if l = [] then (l, r) else (butlast l, last l # r))"
| "edit_step Right (l, r) = (case r of [] \<Rightarrow> (l, r) | c # r' \<Rightarrow> (l @ [c], r'))"

text \<open>The bytes a key sends.\<close>

fun encode :: "edit \<Rightarrow> u8 list" where
  "encode (Char c) = [c]"
| "encode Erase = [8]"
| "encode Left = [27, 91, 68]"
| "encode Right = [27, 91, 67]"

definition printable :: "u8 \<Rightarrow> bool" where
  "printable c \<longleftrightarrow> 32 \<le> c \<and> c < 127"

lemma printable_simps:
  assumes "printable c"
  shows "c \<noteq> 0" "c \<noteq> 0xff" "c \<noteq> 9" "c \<noteq> 0x7f" "c \<noteq> 8" "c \<noteq> 13" "c \<noteq> 10" "c \<noteq> 27"
  using assms by (auto simp: printable_def word_le_nat_alt word_less_nat_alt)

text \<open>The line around the cursor.\<close>

lemma sh_ok_split:
  assumes "sh_ok sh" "zipper sh = (l, r)"
  shows "text_of sh = l @ r" "line sh = padded (l @ r)" "line_curpos sh = length l"
    "line_position sh = length l + length r" "length l + length r < FINSH_CMD_SIZE" "0 \<notin> set l" "0 \<notin> set r"
proof -
  show t: "text_of sh = l @ r" using assms(2) by (metis append_take_drop_id fst_conv snd_conv zipper_def)
  have "length l = line_curpos sh" using assms by (auto simp: zipper_def sh_ok_def)
  then show "line_curpos sh = length l" by simp
  show "line sh = padded (l @ r)" "line_position sh = length l + length r"
    "length l + length r < FINSH_CMD_SIZE" "0 \<notin> set l" "0 \<notin> set r"
    using assms(1) t by (auto simp: sh_ok_def)
qed

lemma move_right:
  assumes "length l + length r < FINSH_CMD_SIZE - 1"
  shows "\<exists>l1. move (length l + 1) (length l) (length r) (padded (l @ r)) = Some l1 \<and> length l1 = FINSH_CMD_SIZE \<and>
    l1[length l := c] = padded (l @ c # r)"
proof -
  obtain n where n: "FINSH_CMD_SIZE - (length l + length r) = Suc n" using assms
    by (cases "FINSH_CMD_SIZE - (length l + length r)") auto
  have p: "padded (l @ r) = l @ r @ 0 # replicate n 0" "padded (l @ c # r) = l @ c # r @ replicate n 0"
    using n by (simp_all add: padded_def)
  have len: "length (padded (l @ r)) = FINSH_CMD_SIZE" using assms by simp
  let ?l1 = "l @ hd (r @ [0]) # r @ replicate n 0"
  have "take (length l + 1) (padded (l @ r)) = l @ [hd (r @ [0])]" unfolding p by (cases r) simp_all
  moreover have "take (length r) (drop (length l) (padded (l @ r))) = r" unfolding p by simp
  moreover have "drop (length l + 1 + length r) (padded (l @ r)) = replicate n 0" unfolding p by simp
  ultimately have "move (length l + 1) (length l) (length r) (padded (l @ r)) = Some ?l1"
    using assms by (simp add: move_def len)
  moreover have "length ?l1 = FINSH_CMD_SIZE" using n by simp
  moreover have "?l1[length l := c] = padded (l @ c # r)" by (simp add: p)
  ultimately show ?thesis by blast
qed

lemma move_left:
  assumes "length l + length r < FINSH_CMD_SIZE - 1"
  shows "\<exists>l1. move (length l) (length l + 1) (length r) (padded (l @ c # r)) = Some l1 \<and> length l1 = FINSH_CMD_SIZE \<and>
    l1[length l + length r := 0] = padded (l @ r)"
proof -
  obtain n where n: "FINSH_CMD_SIZE - (length l + length r) = Suc n" using assms
    by (cases "FINSH_CMD_SIZE - (length l + length r)") auto
  have p: "padded (l @ r) = l @ r @ 0 # replicate n 0" "padded (l @ c # r) = l @ c # r @ replicate n 0"
    using n by (simp_all add: padded_def)
  have len: "length (padded (l @ c # r)) = FINSH_CMD_SIZE" using assms by simp
  let ?x = "last (c # r)"
  let ?l1 = "l @ r @ ?x # replicate n 0"
  have "take (length l) (padded (l @ c # r)) = l" unfolding p by simp
  moreover have "take (length r) (drop (length l + 1) (padded (l @ c # r))) = r" unfolding p by simp
  moreover have "drop (length l + length r) (padded (l @ c # r)) = ?x # replicate n 0"
    unfolding p by (cases r rule: rev_cases) simp_all
  ultimately have "move (length l) (length l + 1) (length r) (padded (l @ c # r)) = Some ?l1"
    using assms by (simp add: move_def len)
  moreover have "length ?l1 = FINSH_CMD_SIZE" using n by simp
  moreover have "?l1[length l + length r := 0] = padded (l @ r)"
    unfolding p using list_update_append [of "l @ r" "?x # replicate n 0" "length l + length r" 0] by simp
  ultimately show ?thesis by blast
qed

subsection \<open>The screen\<close>

text \<open>The row of the terminal the cursor is in, and the column of the cursor. A backspace moves the
  cursor, a printable byte fills the cell under it.\<close>

type_synonym screen = "(nat \<Rightarrow> u8) \<times> nat"

fun put :: "u8 \<Rightarrow> screen \<Rightarrow> screen" where
  "put c (row, col) = (if c = 8 then (row, col - 1) else (row(col := c), col + 1))"

fun display1 :: "'f shell_out \<Rightarrow> screen \<Rightarrow> screen" where
  "display1 (Text s) sc = fold put s sc"
| "display1 _ sc = sc"

definition display :: "'f shell_out list \<Rightarrow> screen \<Rightarrow> screen" where
  "display out sc = fold display1 out sc"

text \<open>The row shows \<open>t\<close> and nothing behind it.\<close>

definition shown :: "u8 list \<Rightarrow> nat \<Rightarrow> screen" where
  "shown t col = (\<lambda>i. if i < length t then t ! i else 32, col)"

lemma display_simps [simp]:
  "display [] sc = sc" "display (x # xs) sc = display xs (display1 x sc)"
  "display (xs @ ys) sc = display ys (display xs sc)"
  by (simp_all add: display_def)

lemma fold_put:
  "8 \<notin> set s \<Longrightarrow> fold put s (row, col) =
     (\<lambda>i. if col \<le> i \<and> i < col + length s then s ! (i - col) else row i, col + length s)"
proof (induction s arbitrary: row col)
  case (Cons c s)
  then have "fold put (c # s) (row, col) = (\<lambda>i. if col + 1 \<le> i \<and> i < col + 1 + length s
      then s ! (i - (col + 1)) else (row(col := c)) i, col + 1 + length s)" by auto
  also have "\<dots> = (\<lambda>i. if col \<le> i \<and> i < col + length (c # s) then (c # s) ! (i - col) else row i,
      col + length (c # s))"
    by (auto simp: fun_eq_iff nth_Cons')
  finally show ?case .
qed (auto simp: fun_eq_iff)

lemma display_backs: "display (backs n) (row, col) = (row, col - n)"
  by (induction n arbitrary: col) simp_all

lemma shown_write:
  assumes "8 \<notin> set s" "length p \<le> length t" "length t \<le> length p + length s"
    "take (length p) t = p"
  shows "fold put s (shown t (length p)) = shown (p @ s) (length p + length s)"
proof -
  have "(if length p \<le> i \<and> i < length p + length s then s ! (i - length p)
      else if i < length t then t ! i else 32) = (if i < length (p @ s) then (p @ s) ! i else 32)" for i
    using assms(2-4) by (auto simp: nth_append) (metis assms(4) nth_take)
  then show ?thesis using fold_put [OF assms(1)] by (simp add: shown_def fun_eq_iff)
qed

text \<open>Trailing blanks are not seen.\<close>

lemma shown_blank: "shown (t @ [32]) col = shown t col"
  by (auto simp: shown_def fun_eq_iff nth_append)

lemma shown_backs: "display (backs n) (shown t col) = shown t (col - n)"
  by (simp add: shown_def display_backs)

subsection \<open>One key\<close>

definition chars :: "u8 list \<times> u8 list \<Rightarrow> bool" where
  "chars z \<longleftrightarrow> (\<forall>c \<in> set (fst z @ snd z). printable c)"

lemma printable_8: "\<forall>c \<in> set s. printable c \<Longrightarrow> 8 \<notin> set s"
  using printable_simps(5) by blast

text \<open>What every editing key does: the text and cursor of the abstract editor, on the line and on the
  screen, and the rest of the shell unchanged.\<close>

definition edited :: "edit \<Rightarrow> finsh_shell \<Rightarrow> 'f shell_res \<Rightarrow> bool" where
  "edited e sh res \<longleftrightarrow> (\<exists>out sh'. res = Some (out, sh') \<and> sh_ok sh' \<and> stat sh' = WAIT_NORMAL \<and>
     echo_mode sh' = echo_mode sh \<and> zipper sh' = edit_step e (zipper sh) \<and>
     cmd_history sh' = cmd_history sh \<and> history_count sh' = history_count sh \<and>
     display out (shown (FINSH_PROMPT @ text_of sh) (5 + line_curpos sh)) =
       shown (FINSH_PROMPT @ text_of sh') (5 + line_curpos sh'))"

lemma editedI:
  assumes ok: "sh_ok sh" and n: "stat sh = WAIT_NORMAL" and z: "zipper sh = (l, r)"
    and z': "edit_step e (l, r) = (l', r')" and nz: "0 \<notin> set (l' @ r')" "length (l' @ r') < FINSH_CMD_SIZE"
    and res: "res = Some (out, sh\<lparr>line := padded (l' @ r'), line_position := length (l' @ r'),
      line_curpos := length l'\<rparr>)"
    and d: "display out (shown (FINSH_PROMPT @ l @ r) (5 + length l)) =
      shown (FINSH_PROMPT @ l' @ r') (5 + length l')"
  shows "edited e sh res"
proof -
  let ?sh = "sh\<lparr>line := padded (l' @ r'), line_position := length (l' @ r'), line_curpos := length l'\<rparr>"
  note s = sh_ok_split [OF ok z]
  have ok': "sh_ok ?sh \<and> text_of ?sh = l' @ r'"
    by (rule sh_okI [OF ok nz, of "length l'"]) (use ok in \<open>simp_all add: sh_ok_def\<close>)
  moreover have "zipper ?sh = (l', r')" using ok' by (simp add: zipper_def)
  ultimately show ?thesis
    unfolding edited_def res using n z z' d s(1,3) by (intro exI [of _ out] exI [of _ ?sh]) simp
qed

lemma left_key:
  assumes ok: "sh_ok sh" and n: "stat sh = WAIT_NORMAL" and ch: "chars (zipper sh)"
  shows "edited Left sh (shell_left sh)"
proof -
  obtain l r where z: "zipper sh = (l, r)" by (cases "zipper sh")
  note s = sh_ok_split [OF ok z]
  have eq: "sh\<lparr>line := padded (l @ r), line_position := length (l @ r), line_curpos := c\<rparr> = sh\<lparr>line_curpos := c\<rparr>" for c
    using s by simp
  show ?thesis
  proof (cases l rule: rev_cases)
    case Nil
    show ?thesis
      by (rule editedI [OF ok n z, where l' = "[]" and r' = r and out = "[]"]) (use Nil s eq [of 0] in \<open>simp_all add: shell_left_def\<close>)
  next
    case (snoc l0 x)
    show ?thesis
      by (rule editedI [OF ok n z, where l' = l0 and r' = "x # r" and out = "[Text [8]]"])
        (use snoc s eq [of "length l0"] in \<open>simp_all add: shell_left_def shown_def\<close>)
  qed
qed

lemma right_key:
  assumes ok: "sh_ok sh" and n: "stat sh = WAIT_NORMAL" and ch: "chars (zipper sh)"
  shows "edited Right sh (shell_right sh)"
proof -
  obtain l r where z: "zipper sh = (l, r)" by (cases "zipper sh")
  note s = sh_ok_split [OF ok z]
  have eq: "sh\<lparr>line := padded (l @ r), line_position := length (l @ r), line_curpos := c\<rparr> = sh\<lparr>line_curpos := c\<rparr>" for c
    using s by simp
  show ?thesis
  proof (cases r)
    case Nil
    show ?thesis
      by (rule editedI [OF ok n z, where l' = l and r' = "[]" and out = "[]"])
        (use Nil s eq [of "length l"] in \<open>simp_all add: shell_right_def\<close>)
  next
    case (Cons x r0)
    have x8: "x \<noteq> 8" using ch Cons z printable_simps(5) by (auto simp: chars_def)
    have lx: "padded (l @ r) ! length l = x" "length (padded (l @ r)) = FINSH_CMD_SIZE"
      using s(5) Cons by (simp_all add: padded_def nth_append)
    show ?thesis
    proof (rule editedI [OF ok n z, where l' = "l @ [x]" and r' = r0 and out = "[Text [x]]"])
      show "shell_right sh = Some ([Text [x]], sh\<lparr>line := padded ((l @ [x]) @ r0),
          line_position := length ((l @ [x]) @ r0), line_curpos := length (l @ [x])\<rparr>)"
        using s lx Cons eq [of "Suc (length l)"] by (simp add: shell_right_def)
      have "FINSH_PROMPT @ l @ r = (FINSH_PROMPT @ l) @ x # r0" using Cons by simp
      then show "display [Text [x]] (shown (FINSH_PROMPT @ l @ r) (5 + length l)) =
          shown (FINSH_PROMPT @ (l @ [x]) @ r0) (5 + length (l @ [x]))"
        using x8 by (auto simp: shown_def fun_eq_iff nth_append nth_Cons split: nat.splits)
    qed (use Cons s in simp_all)
  qed
qed

lemma insert_state:
  assumes ok: "sh_ok sh" and z: "zipper sh = (l, r)" and c: "c \<noteq> 0" and room: "line_position sh < FINSH_CMD_SIZE - 1"
  shows "shell_insert c sh = Some ((if echo_mode sh then [Text (c # r)] else []) @ backs (length r),
    sh\<lparr>line := padded (l @ c # r), line_position := length (l @ c # r), line_curpos := length l + 1\<rparr>)"
proof -
  note s = sh_ok_split [OF ok z]
  have sz: "length l + length r < FINSH_CMD_SIZE - 1" using room s(4) by simp
  have nz: "0 \<notin> set (l @ c # r)" using s(6,7) c by auto
  show ?thesis
  proof (cases r)
    case Nil
    obtain m where "FINSH_CMD_SIZE - length l = Suc m" using sz by (cases "FINSH_CMD_SIZE - length l") auto
    then have "(padded l)[length l := c] = padded (l @ [c])" by (simp add: padded_def)
    then show ?thesis using s sz Nil by (simp add: shell_insert_def set_at_def Let_def)
  next
    case (Cons x r0)
    obtain l1 where l1: "move (length l + 1) (length l) (length r) (padded (l @ r)) = Some l1"
      "length l1 = FINSH_CMD_SIZE" "l1[length l := c] = padded (l @ c # r)"
      using move_right [OF sz] by blast
    have "str_at (padded (l @ c # r)) (length l) = Some (c # r)"
      using str_at_padded [of "l @ c # r" "length l"] nz sz by simp
    then have "str_at (l1[length l := c]) (length l) = Some (c # r)" using l1(3) by simp
    then show ?thesis using s sz Cons l1 by (simp add: shell_insert_def set_at_def Let_def)
  qed
qed

lemma insert_key:
  assumes ok: "sh_ok sh" and n: "stat sh = WAIT_NORMAL" and ch: "chars (zipper sh)" and echo: "echo_mode sh"
    and c: "printable c" and room: "line_position sh < FINSH_CMD_SIZE - 1"
  shows "edited (Char c) sh (shell_insert c sh)"
proof -
  obtain l r where z: "zipper sh = (l, r)" by (cases "zipper sh")
  note s = sh_ok_split [OF ok z]
  note pc = printable_simps [OF c]
  have r8: "8 \<notin> set (c # r)" using ch z printable_8 [of r] pc(5) by (auto simp: chars_def)
  show ?thesis
  proof (rule editedI [OF ok n z, where l' = "l @ [c]" and r' = r and out = "[Text (c # r)] @ backs (length r)"])
    show "shell_insert c sh = Some ([Text (c # r)] @ backs (length r), sh\<lparr>line := padded ((l @ [c]) @ r),
        line_position := length ((l @ [c]) @ r), line_curpos := length (l @ [c])\<rparr>)"
      using insert_state [OF ok z pc(1) room] echo by simp
    have "fold put (c # r) (shown (FINSH_PROMPT @ l @ r) (5 + length l)) =
        shown ((FINSH_PROMPT @ l) @ c # r) (5 + length l + length (c # r))"
      using shown_write [OF r8, of "FINSH_PROMPT @ l" "FINSH_PROMPT @ l @ r"] by simp
    then show "display ([Text (c # r)] @ backs (length r)) (shown (FINSH_PROMPT @ l @ r) (5 + length l)) =
        shown (FINSH_PROMPT @ (l @ [c]) @ r) (5 + length (l @ [c]))"
      by (simp only: display_simps display1.simps shown_backs) simp
  qed (use s room pc in auto)
qed

lemma backspace_state:
  assumes ok: "sh_ok sh" and z: "zipper sh = (l0 @ [x], r)"
  shows "shell_backspace sh = Some (if r = [] then [Text [8, 32, 8]]
      else [Text ([8] @ r @ [32, 32, 8])] @ backs (length r + 1),
    sh\<lparr>line := padded (l0 @ r), line_position := length (l0 @ r), line_curpos := length l0\<rparr>)"
proof -
  note s = sh_ok_split [OF ok z]
  have pos: "(line_position sh + 255) mod 256 = length l0 + length r"
    "(line_curpos sh + 255) mod 256 = length l0" "line_curpos sh \<noteq> 0"
    using s(3-5) by simp_all
  have sz: "length l0 + length r < FINSH_CMD_SIZE - 1" using s(5) by simp
  have nz: "0 \<notin> set (l0 @ r)" using s(6,7) by simp
  show ?thesis
  proof (cases r)
    case r: Nil
    obtain m where "FINSH_CMD_SIZE - length l0 = Suc m" using sz by (cases "FINSH_CMD_SIZE - length l0") auto
    then have lu: "(padded (l0 @ [x]))[length l0 := 0] = padded l0" by (simp add: padded_def)
    have "length (padded (l0 @ [x])) = FINSH_CMD_SIZE" using sz r by simp
    then show ?thesis using pos s(2) r lu sz by (simp add: shell_backspace_def set_at_def Let_def)
  next
    case (Cons y r0)
    obtain l1 where l1: "move (length l0) (length l0 + 1) (length r) (padded (l0 @ x # r)) = Some l1"
      "length l1 = FINSH_CMD_SIZE" "l1[length l0 + length r := 0] = padded (l0 @ r)"
      using move_left [OF sz] by blast
    have "str_at (padded (l0 @ r)) (length l0) = Some r"
      using str_at_padded [of "l0 @ r" "length l0"] nz sz by simp
    then have str: "str_at (l1[length l0 + length r := 0]) (length l0) = Some r" using l1(3) by simp
    show ?thesis using pos s(2) l1 str sz Cons by (simp add: shell_backspace_def set_at_def Let_def)
  qed
qed

lemma erase_key:
  assumes ok: "sh_ok sh" and n: "stat sh = WAIT_NORMAL" and ch: "chars (zipper sh)"
  shows "edited Erase sh (shell_backspace sh)"
proof -
  obtain l r where z: "zipper sh = (l, r)" by (cases "zipper sh")
  note s = sh_ok_split [OF ok z]
  have eq: "sh\<lparr>line := padded (l @ r), line_position := length (l @ r), line_curpos := c\<rparr> = sh\<lparr>line_curpos := c\<rparr>" for c
    using s by simp
  have r8: "8 \<notin> set r" using ch z printable_8 [of r] by (auto simp: chars_def)
  show ?thesis
  proof (cases l rule: rev_cases)
    case Nil
    show ?thesis
      by (rule editedI [OF ok n z, where l' = "[]" and r' = r and out = "[]"])
        (use Nil s eq [of 0] in \<open>simp_all add: shell_backspace_def\<close>)
  next
    case (snoc l0 x)
    let ?out = "if r = [] then [Text [8, 32, 8]] else [Text ([8] @ r @ [32, 32, 8])] @ backs (length r + 1)"
    show ?thesis
    proof (rule editedI [OF ok n z, where l' = l0 and r' = r and out = ?out])
      show "shell_backspace sh = Some (?out, sh\<lparr>line := padded (l0 @ r),
          line_position := length (l0 @ r), line_curpos := length l0\<rparr>)"
        by (rule backspace_state [OF ok z [unfolded snoc]])
      have left: "fold put [8] (shown (FINSH_PROMPT @ l @ r) (5 + length l)) =
          shown (FINSH_PROMPT @ l0 @ x # r) (length (FINSH_PROMPT @ l0))"
        using snoc by (simp add: shown_def)
      have wr: "fold put (r @ b) (shown (FINSH_PROMPT @ l0 @ x # r) (length (FINSH_PROMPT @ l0))) =
          shown ((FINSH_PROMPT @ l0) @ r @ b) (length (FINSH_PROMPT @ l0) + length (r @ b))"
        if "8 \<notin> set b" "b \<noteq> []" for b
      proof (rule shown_write)
        show "length (FINSH_PROMPT @ l0 @ x # r) \<le> length (FINSH_PROMPT @ l0) + length (r @ b)"
          using that(2) by (cases b) simp_all
      qed (use r8 that in simp_all)
      have w1: "fold put (r @ [32]) (shown (FINSH_PROMPT @ l0 @ x # r) (length (FINSH_PROMPT @ l0))) =
          shown ((FINSH_PROMPT @ l0) @ r @ [32]) (length (FINSH_PROMPT @ l0) + length (r @ [32]))"
        by (rule wr) simp_all
      have w2: "fold put (r @ [32, 32]) (shown (FINSH_PROMPT @ l0 @ x # r) (length (FINSH_PROMPT @ l0))) =
          shown ((FINSH_PROMPT @ l0) @ r @ [32, 32]) (length (FINSH_PROMPT @ l0) + length (r @ [32, 32]))"
        by (rule wr) simp_all
      have three: "fold put (a @ b @ c) sc = fold put c (fold put b (fold put a sc))" for a b c sc by simp
      have bk: "fold put [8] (shown ((FINSH_PROMPT @ l0) @ b) c) = shown ((FINSH_PROMPT @ l0) @ b) (c - 1)" for b c
        by (simp add: shown_def)
      have blank: "shown ((FINSH_PROMPT @ l0) @ r @ [32, 32]) c = shown (FINSH_PROMPT @ l0 @ r) c"
        "shown ((FINSH_PROMPT @ l0) @ r @ [32]) c = shown (FINSH_PROMPT @ l0 @ r) c" for c
        using shown_blank [of "FINSH_PROMPT @ l0 @ r @ [32]"] shown_blank [of "FINSH_PROMPT @ l0 @ r"] by simp_all
      show "display ?out (shown (FINSH_PROMPT @ l @ r) (5 + length l)) =
          shown (FINSH_PROMPT @ l0 @ r) (5 + length l0)"
      proof (cases "r = []")
        case True
        have "fold put ([8] @ (r @ [32]) @ [8]) (shown (FINSH_PROMPT @ l @ r) (5 + length l)) =
            shown (FINSH_PROMPT @ l0 @ r) (5 + length l0)"
          by (simp only: three left w1 bk, simp only: blank) (simp add: True)
        then have "display [Text ([8] @ (r @ [32]) @ [8])] (shown (FINSH_PROMPT @ l @ r) (5 + length l)) =
            shown (FINSH_PROMPT @ l0 @ r) (5 + length l0)"
          by (simp only: display_simps display1.simps)
        then show ?thesis using True by (simp del: display1.simps)
      next
        case False
        have "fold put ([8] @ (r @ [32, 32]) @ [8]) (shown (FINSH_PROMPT @ l @ r) (5 + length l)) =
            shown (FINSH_PROMPT @ l0 @ r) (5 + length l0 + length r + 1)"
          by (simp only: three left w2 bk, simp only: blank) simp
        then show ?thesis using False
          by (simp only: if_False display_simps display1.simps shown_backs append_assoc append_Cons append_Nil) simp
      qed
    qed (use snoc s in simp_all)
  qed
qed

subsection \<open>Any sequence of keys\<close>

lemma shell_keys_append:
  "shell_keys table (as @ bs) sh = Option.bind (shell_keys table as sh) (\<lambda>(o1, sh1).
     Option.bind (shell_keys table bs sh1) (\<lambda>(o2, sh2). Some (o1 @ o2, sh2)))"
  by (induction as arbitrary: sh) (auto split: bind_splits prod.splits simp: Option.bind_eq_Some_conv)

text \<open>The keys that lengthen the text.\<close>

fun grows :: "edit \<Rightarrow> nat" where
  "grows (Char c) = 1"
| "grows e = 0"

fun key_ok :: "edit \<Rightarrow> bool" where
  "key_ok (Char c) = printable c"
| "key_ok e = True"

lemma chars_step:
  assumes "chars z" "key_ok e" shows "chars (edit_step e z)"
  using assms
  by (cases z; cases e) (auto simp: chars_def split: list.splits dest: in_set_butlastD)

lemma step_length: "length (fst (edit_step e z)) + length (snd (edit_step e z)) \<le>
    length (fst z) + length (snd z) + grows e"
  by (cases z; cases e) (auto split: list.splits)

lemma key_edited:
  assumes ok: "sh_ok sh" and n: "stat sh = WAIT_NORMAL" and ch: "chars (zipper sh)" and echo: "echo_mode sh"
    and k: "key_ok e" and room: "line_position sh + grows e < FINSH_CMD_SIZE"
  shows "edited e sh (shell_keys table (encode e) sh)"
proof -
  have sh: "sh\<lparr>stat := WAIT_NORMAL\<rparr> = sh" using n by simp
  have one: "shell_keys table [c] sh = shell_key table c sh" for c :: u8
    by (cases "shell_key table c sh") auto
  show ?thesis
  proof (cases e)
    case (Char c)
    then have pc: "printable c" using k by simp
    note p = printable_simps [OF pc]
    have "shell_keys table (encode e) sh = shell_insert c sh"
      using Char n p by (simp add: one shell_key_def shell_char_def del: shell_keys.simps)
    then show ?thesis using insert_key [OF ok n ch echo pc] room Char by simp
  next
    case Erase
    have "shell_keys table (encode e) sh = shell_backspace sh"
      using Erase n by (simp add: one shell_key_def shell_char_def del: shell_keys.simps)
    then show ?thesis using erase_key [OF ok n ch] Erase by simp
  next
    case Left
    have "shell_keys table (encode e) sh = shell_left sh"
      using Left sh by (simp add: shell_key_def shell_left_def)
    then show ?thesis using left_key [OF ok n ch] Left by simp
  next
    case Right
    have "shell_keys table (encode e) sh = Option.bind (shell_right sh) (\<lambda>(o2, sh2). Some (o2, sh2))"
      using Right sh by (simp add: shell_key_def)
    then have "shell_keys table (encode e) sh = shell_right sh" by (cases "shell_right sh") auto
    then show ?thesis using right_key [OF ok n ch] Right by simp
  qed
qed

lemma edit_keys:
  assumes "sh_ok sh" "stat sh = WAIT_NORMAL" "echo_mode sh" "chars (zipper sh)" "\<forall>e \<in> set es. key_ok e"
    "line_position sh + sum_list (map grows es) < FINSH_CMD_SIZE"
  shows "\<exists>out sh'. shell_keys table (concat (map encode es)) sh = Some (out, sh') \<and> sh_ok sh' \<and>
    stat sh' = WAIT_NORMAL \<and> echo_mode sh' \<and> zipper sh' = fold edit_step es (zipper sh) \<and>
    display out (shown (FINSH_PROMPT @ text_of sh) (5 + line_curpos sh)) =
      shown (FINSH_PROMPT @ text_of sh') (5 + line_curpos sh')"
  using assms
proof (induction es arbitrary: sh)
  case (Cons e es)
  have k: "key_ok e" and room: "line_position sh + grows e < FINSH_CMD_SIZE" using Cons.prems by simp_all
  obtain o1 sh1 where r1: "shell_keys table (encode e) sh = Some (o1, sh1)" "sh_ok sh1"
    "stat sh1 = WAIT_NORMAL" "echo_mode sh1 = echo_mode sh" "zipper sh1 = edit_step e (zipper sh)"
    "display o1 (shown (FINSH_PROMPT @ text_of sh) (5 + line_curpos sh)) =
       shown (FINSH_PROMPT @ text_of sh1) (5 + line_curpos sh1)"
    using key_edited [OF Cons.prems(1,2,4,3) k room, of table] unfolding edited_def by blast
  have ch1: "chars (zipper sh1)" unfolding r1(5) by (rule chars_step [OF Cons.prems(4) k])
  have pos: "line_position u = length (fst (zipper u)) + length (snd (zipper u))" if "sh_ok u" for u
    using sh_ok_split(4) [OF that, of "fst (zipper u)" "snd (zipper u)"] by simp
  have "line_position sh1 \<le> line_position sh + grows e"
    using step_length [of e "zipper sh"] pos [OF r1(2)] pos [OF Cons.prems(1)] r1(5) by simp
  then have "line_position sh1 + sum_list (map grows es) < FINSH_CMD_SIZE" using Cons.prems(6) by simp
  with Cons.IH [OF r1(2,3) _ ch1] r1(4) Cons.prems(3,5) obtain o2 sh2 where
    r2: "shell_keys table (concat (map encode es)) sh1 = Some (o2, sh2)" "sh_ok sh2" "stat sh2 = WAIT_NORMAL"
      "echo_mode sh2" "zipper sh2 = fold edit_step es (zipper sh1)"
      "display o2 (shown (FINSH_PROMPT @ text_of sh1) (5 + line_curpos sh1)) =
         shown (FINSH_PROMPT @ text_of sh2) (5 + line_curpos sh2)" by auto
  have "shell_keys table (concat (map encode (e # es))) sh = Some (o1 @ o2, sh2)"
    using r1(1) r2(1) by (simp add: shell_keys_append)
  then show ?case using r1(5,6) r2 by simp
qed simp

text \<open>C36: the line editor implements the abstract editor of a text with a cursor. Whatever characters
  are typed and erased and however the cursor is moved, as long as the text stays shorter than the
  array, no byte outside it is touched, the line is the text of the abstract editor, and the
  screen shows the prompt, that text and the cursor at its place.\<close>

theorem line_editor_correct:
  assumes "sh_ok sh" "stat sh = WAIT_NORMAL" "echo_mode sh" "chars (zipper sh)" "\<forall>e \<in> set es. key_ok e"
    "line_position sh + sum_list (map grows es) < FINSH_CMD_SIZE"
  shows "\<exists>out sh'. shell_keys table (concat (map encode es)) sh = Some (out, sh') \<and> sh_ok sh' \<and>
    stat sh' = WAIT_NORMAL \<and> echo_mode sh' \<and> zipper sh' = fold edit_step es (zipper sh) \<and>
    display out (shown (FINSH_PROMPT @ text_of sh) (5 + line_curpos sh)) =
      shown (FINSH_PROMPT @ text_of sh') (5 + line_curpos sh')"
  by (rule edit_keys [OF assms])

section \<open>Executing and recalling a line\<close>

lemma padded_zero: "length t < FINSH_CMD_SIZE \<Longrightarrow> padded t = t @ 0 # replicate (FINSH_CMD_SIZE - length t - 1) 0"
  by (cases "FINSH_CMD_SIZE - length t") (simp_all add: padded_def)

lemma history_entry_line: "sh_ok sh \<Longrightarrow> history_entry sh = line sh"
  by (simp add: sh_ok_def history_entry_def padded_def text_of_def [symmetric])

lemma push_history_spec:
  assumes ok: "sh_ok sh"
  shows "sh_ok (shell_push_history sh)"
    "line (shell_push_history sh) = line sh" "line_position (shell_push_history sh) = line_position sh"
    "line_curpos (shell_push_history sh) = line_curpos sh" "stat (shell_push_history sh) = stat sh"
    "echo_mode (shell_push_history sh) = echo_mode sh"
    "current_history (shell_push_history sh) = history_count (shell_push_history sh)"
    "line_position sh \<noteq> 0 \<Longrightarrow> 0 < history_count (shell_push_history sh) \<and>
       cmd_history (shell_push_history sh) ! (history_count (shell_push_history sh) - 1) = line sh"
proof -
  let ?q = "shell_push_history sh"
  have f: "line ?q = line sh" "line_position ?q = line_position sh" "line_curpos ?q = line_curpos sh"
    "stat ?q = stat sh" "echo_mode ?q = echo_mode sh" "current_history ?q = history_count ?q"
    by (auto simp: shell_push_history_def Let_def)
  then show "line ?q = line sh" "line_position ?q = line_position sh" "line_curpos ?q = line_curpos sh"
    "stat ?q = stat sh" "echo_mode ?q = echo_mode sh" "current_history ?q = history_count ?q" by simp_all
  have len: "length (cmd_history sh) = FINSH_HISTORY_LINES" "history_count sh \<le> FINSH_HISTORY_LINES"
    using ok by (simp_all add: sh_ok_def)
  have il: "is_line (line sh)" using ok by (auto simp: sh_ok_def is_line_def)
  have ne: "cmd_history sh \<noteq> []" using len(1) by auto
  have old: "\<forall>h \<in> set (cmd_history sh). is_line h" using ok by (simp add: sh_ok_def)
  have "set (tl (cmd_history sh) @ [line sh]) \<subseteq> insert (line sh) (set (cmd_history sh))"
    using ne by (auto dest: list.set_sel(2))
  moreover have "set ((cmd_history sh)[i := line sh]) \<subseteq> insert (line sh) (set (cmd_history sh))" for i
    by (rule set_update_subset_insert)
  ultimately have h: "length (cmd_history ?q) = FINSH_HISTORY_LINES" "history_count ?q \<le> FINSH_HISTORY_LINES"
    "\<forall>h \<in> set (cmd_history ?q). is_line h"
    using len ne il old by (auto simp: shell_push_history_def Let_def history_entry_line [OF ok])
  have "text_of ?q = text_of sh" by (simp add: text_of_def f)
  then show "sh_ok ?q" using ok h by (simp add: sh_ok_def f)
  show "0 < history_count ?q \<and> cmd_history ?q ! (history_count ?q - 1) = line sh" if "line_position sh \<noteq> 0"
    using that len ne by (auto simp: shell_push_history_def Let_def history_entry_line [OF ok] nth_append nth_list_update)
qed

lemma cleared_ok:
  assumes "sh_ok sh"
  shows "sh_ok (sh\<lparr>line := replicate FINSH_CMD_SIZE 0, line_curpos := 0, line_position := 0\<rparr>) \<and>
    text_of (sh\<lparr>line := replicate FINSH_CMD_SIZE 0, line_curpos := 0, line_position := 0\<rparr>) = []"
  by (rule sh_okI [OF assms, of "[]" 0]) (use assms in \<open>simp_all add: sh_ok_def padded_def\<close>)

text \<open>What \<^verbatim>\<open>msh_exec\<close> makes of a text.\<close>

definition exec_text :: "(u8 list \<times> 'f) list \<Rightarrow> u8 list \<Rightarrow> 'f msh_result" where
  "exec_text table t = (case words t of
      [] \<Rightarrow> Nothing
    | w # ws \<Rightarrow> (case lookup_cmd table w of
          Some f \<Rightarrow> Call f (w # ws)
        | None \<Rightarrow> Not_found (takeWhile (\<lambda>c. c \<noteq> 32) (dropWhile is_blank t))))"

lemma enter_spec:
  assumes ok: "sh_ok sh" and n: "stat sh = WAIT_NORMAL"
  obtains r sh' where "shell_key table 13 sh =
      Some ((if echo_mode sh then [Text [10]] else []) @ [Run r, Text FINSH_PROMPT], sh')"
    "sh_ok sh'" "text_of sh' = []" "stat sh' = WAIT_NORMAL" "echo_mode sh' = echo_mode sh"
    "line_curpos sh' = 0" "current_history sh' = history_count sh'"
    "text_of sh \<noteq> [] \<longrightarrow> 0 < history_count sh' \<and> cmd_history sh' ! (history_count sh' - 1) = line sh"
    "34 \<notin> set (text_of sh) \<longrightarrow> length (words (text_of sh)) \<le> FINSH_ARG_MAX \<longrightarrow>
       (\<forall>e \<in> set table. 0 \<notin> set (fst e)) \<longrightarrow> r = exec_text table (text_of sh)"
proof -
  let ?t = "text_of sh" and ?q = "shell_push_history sh"
  have t: "line sh = padded ?t" "0 \<notin> set ?t" "length ?t = line_position sh" "length ?t < FINSH_CMD_SIZE"
    using ok by (simp_all add: sh_ok_def)
  note h = push_history_spec [OF ok]
  have l: "line ?q = ?t @ 0 # replicate (FINSH_CMD_SIZE - length ?t - 1) 0"
    using padded_zero [OF t(4)] t(1) h(2) by simp
  have p: "line_position ?q = length ?t" using h(3) t(3) by simp
  have len: "length ?t < 2 ^ 32" using t(4) by simp
  obtain r where r: "msh_exec table (line ?q) (of_nat (line_position ?q)) = Some r"
    using msh_exec_safe [OF t(2) len] unfolding l p by blast
  have key: "shell_key table 13 sh = shell_enter table sh"
    using n by (simp add: shell_key_def shell_char_def)
  let ?s = "?q\<lparr>line := replicate FINSH_CMD_SIZE 0, line_curpos := 0, line_position := 0\<rparr>"
  show ?thesis
  proof (rule that)
    show "shell_key table 13 sh = Some ((if echo_mode sh then [Text [10]] else []) @ [Run r, Text FINSH_PROMPT],
        ?q\<lparr>line := replicate FINSH_CMD_SIZE 0, line_curpos := 0, line_position := 0\<rparr>)"
      using r h(6) by (simp add: key shell_enter_def Let_def)
    show "34 \<notin> set ?t \<longrightarrow> length (words ?t) \<le> FINSH_ARG_MAX \<longrightarrow>
       (\<forall>e \<in> set table. 0 \<notin> set (fst e)) \<longrightarrow> r = exec_text table ?t"
    proof (intro impI)
      assume a: "34 \<notin> set ?t" "length (words ?t) \<le> FINSH_ARG_MAX" "\<forall>e \<in> set table. 0 \<notin> set (fst e)"
      have "msh_exec table (line ?q) (of_nat (line_position ?q)) = Some (exec_text table ?t)"
        unfolding l p exec_text_def by (rule msh_exec_spec [OF t(2) a(1,2) len a(3)])
      then show "r = exec_text table ?t" using r by simp
    qed
    show "?t \<noteq> [] \<longrightarrow> 0 < history_count ?s \<and> cmd_history ?s ! (history_count ?s - 1) = line sh"
    proof (intro impI)
      assume "?t \<noteq> []"
      then have "line_position sh \<noteq> 0" using t(3) by (metis length_0_conv)
      then show "0 < history_count ?s \<and> cmd_history ?s ! (history_count ?s - 1) = line sh" using h(8) by simp
    qed
  qed (use cleared_ok [OF h(1)] h(5-7) n in simp_all)
qed

lemma edit_and_run:
  assumes ok: "sh_ok sh" and n: "stat sh = WAIT_NORMAL" and echo: "echo_mode sh" and empty: "text_of sh = []"
    and es: "\<forall>e \<in> set es. key_ok e" "sum_list (map grows es) < FINSH_CMD_SIZE"
    and t: "fold edit_step es ([], []) = (l, r)" "34 \<notin> set (l @ r)" "length (words (l @ r)) \<le> FINSH_ARG_MAX"
    and ns: "\<forall>e \<in> set table. 0 \<notin> set (fst e)"
  shows "\<exists>out sh'. shell_keys table (concat (map encode es) @ [13]) sh =
      Some (out @ [Text [10], Run (exec_text table (l @ r)), Text FINSH_PROMPT], sh') \<and>
    sh_ok sh' \<and> text_of sh' = []"
proof -
  have p: "line_position sh = 0" using ok empty by (simp add: sh_ok_def)
  have z: "zipper sh = ([], [])" using empty by (simp add: zipper_def)
  obtain o1 sh1 where r1: "shell_keys table (concat (map encode es)) sh = Some (o1, sh1)" "sh_ok sh1"
    "stat sh1 = WAIT_NORMAL" "echo_mode sh1" "zipper sh1 = (l, r)"
    using edit_keys [OF ok n echo _ es(1), of table] es(2) p z t(1) by (auto simp: chars_def)
  have t1: "text_of sh1 = l @ r" by (rule sh_ok_split(1) [OF r1(2,5)])
  obtain x sh2 where r2: "shell_key table 13 sh1 =
      Some ((if echo_mode sh1 then [Text [10]] else []) @ [Run x, Text FINSH_PROMPT], sh2)"
    "sh_ok sh2" "text_of sh2 = []"
    "34 \<notin> set (text_of sh1) \<longrightarrow> length (words (text_of sh1)) \<le> FINSH_ARG_MAX \<longrightarrow>
       (\<forall>e \<in> set table. 0 \<notin> set (fst e)) \<longrightarrow> x = exec_text table (text_of sh1)"
    by (rule enter_spec [OF r1(2,3), of table])
  have "x = exec_text table (l @ r)" using r2(4) t(2,3) ns t1 by simp
  then have "shell_keys table (concat (map encode es) @ [13]) sh =
      Some (o1 @ [Text [10], Run (exec_text table (l @ r)), Text FINSH_PROMPT], sh2)"
    using r1(1,4) r2(1) by (simp add: shell_keys_append)
  then show ?thesis using r2(2,3) by blast
qed

text \<open>Whatever way a line is edited into being, the return key runs the command named by its first
  word with its words as arguments, and leaves an empty line.\<close>

theorem edited_line_runs:
  assumes ok: "sh_ok sh" and n: "stat sh = WAIT_NORMAL" and echo: "echo_mode sh" and empty: "text_of sh = []"
    and es: "\<forall>e \<in> set es. key_ok e" "sum_list (map grows es) < FINSH_CMD_SIZE"
    and t: "fold edit_step es ([], []) = (l, r)" "34 \<notin> set (l @ r)" "length (words (l @ r)) \<le> FINSH_ARG_MAX"
    and ns: "\<forall>e \<in> set table. 0 \<notin> set (fst e)"
  shows "\<exists>out sh'. shell_keys table (concat (map encode es) @ [13]) sh =
      Some (out @ [Text [10], Run (exec_text table (l @ r)), Text FINSH_PROMPT], sh') \<and>
    sh_ok sh' \<and> text_of sh' = []"
  by (rule edit_and_run [OF assms])

text \<open>The line that an arrow key puts back.\<close>

lemma recall_spec:
  assumes ok: "sh_ok sh" and i: "i < FINSH_HISTORY_LINES" "i \<le> history_count sh"
  obtains out :: "'f shell_out list" and t
    where "shell_recall (sh\<lparr>current_history := i\<rparr>) = Some (out, sh\<lparr>current_history := i,
      line := padded t, line_curpos := length t, line_position := length t\<rparr>)"
    "cmd_history sh ! i = padded t" "0 \<notin> set t" "length t < FINSH_CMD_SIZE"
    "sh_ok (sh\<lparr>current_history := i, line := padded t, line_curpos := length t, line_position := length t\<rparr>)"
proof -
  have len: "length (cmd_history sh) = FINSH_HISTORY_LINES" using ok by (simp add: sh_ok_def)
  then have "is_line (cmd_history sh ! i)" using ok i by (auto simp: sh_ok_def)
  then obtain t where t: "cmd_history sh ! i = padded t" "0 \<notin> set t" "length t < FINSH_CMD_SIZE"
    by (auto simp: is_line_def)
  have s: "str_at (padded t) 0 = Some t" using str_at_padded [OF t(2,3), of 0] by simp
  let ?sh = "sh\<lparr>current_history := i, line := padded t, line_curpos := length t, line_position := length t\<rparr>"
  have "shell_recall (sh\<lparr>current_history := i\<rparr>) = Some ([Text [27, 91, 50, 75, 13], Text (FINSH_PROMPT @ t)], ?sh)"
    using i len t(1) s by (simp add: shell_recall_def)
  moreover have "sh_ok ?sh \<and> text_of ?sh = t"
    by (rule sh_okI [OF ok t(2,3), of "length t"]) (use i in simp_all)
  ultimately show ?thesis using that t by blast
qed

text \<open>The line that was executed last is the one that the up key brings back, with the cursor
  behind it.\<close>

theorem history_recalls_last:
  fixes table :: "(u8 list \<times> 'f) list"
  assumes ok: "sh_ok sh" and n: "stat sh = WAIT_NORMAL" and t: "text_of sh \<noteq> []"
  shows "\<exists>out sh'. shell_keys table [13, 27, 91, 65] sh = Some (out, sh') \<and> sh_ok sh' \<and>
    text_of sh' = text_of sh \<and> line_curpos sh' = length (text_of sh)"
proof -
  obtain r sh1 where e: "shell_key table 13 sh =
      Some ((if echo_mode sh then [Text [10]] else []) @ [Run r, Text FINSH_PROMPT], sh1)"
    "sh_ok sh1" "text_of sh1 = []" "stat sh1 = WAIT_NORMAL" "echo_mode sh1 = echo_mode sh"
    "line_curpos sh1 = 0" "current_history sh1 = history_count sh1"
    "text_of sh \<noteq> [] \<longrightarrow> 0 < history_count sh1 \<and> cmd_history sh1 ! (history_count sh1 - 1) = line sh"
    by (rule enter_spec [OF ok n])
  let ?i = "history_count sh1 - 1"
  have c: "0 < history_count sh1" "cmd_history sh1 ! ?i = line sh" using e(8) t by simp_all
  have i: "?i < FINSH_HISTORY_LINES" "?i \<le> history_count sh1" using e(2) c(1) by (auto simp: sh_ok_def)
  obtain out :: "'f shell_out list" and u where u: "shell_recall (sh1\<lparr>current_history := ?i\<rparr>) = Some (out, sh1\<lparr>current_history := ?i,
      line := padded u, line_curpos := length u, line_position := length u\<rparr>)"
    "cmd_history sh1 ! ?i = padded u" "0 \<notin> set u" "length u < FINSH_CMD_SIZE"
    "sh_ok (sh1\<lparr>current_history := ?i, line := padded u, line_curpos := length u, line_position := length u\<rparr>)"
    by (rule recall_spec [OF e(2) i])
  have l: "line sh = padded (text_of sh)" "0 \<notin> set (text_of sh)" using ok by (simp_all add: sh_ok_def)
  have "padded u = padded (text_of sh)" using c(2) u(2) l(1) by simp
  then have ut: "u = text_of sh" using u(3) l(2) by (rule padded_inj)
  have n1: "sh1\<lparr>stat := WAIT_NORMAL\<rparr> = sh1" using e(4) by simp
  have "shell_keys table [27, 91, 65] sh1 = Some (out, sh1\<lparr>current_history := ?i,
      line := padded u, line_curpos := length u, line_position := length u\<rparr>)"
    using n1 u(1) c(1) e(7) by (simp add: shell_key_def shell_up_def)
  then have "\<exists>o1. shell_keys table ([13] @ [27, 91, 65]) sh = Some (o1, sh1\<lparr>current_history := ?i,
      line := padded u, line_curpos := length u, line_position := length u\<rparr>)"
  proof -
    assume "shell_keys table [27, 91, 65] sh1 = Some (out, sh1\<lparr>current_history := ?i,
      line := padded u, line_curpos := length u, line_position := length u\<rparr>)"
    moreover have "shell_keys table [13] sh =
        Some ((if echo_mode sh then [Text [10]] else []) @ [Run r, Text FINSH_PROMPT], sh1)"
      using e(1) by simp
    ultimately show ?thesis unfolding shell_keys_append by (simp del: shell_keys.simps)
  qed
  moreover have "text_of (sh1\<lparr>current_history := ?i, line := padded u, line_curpos := length u,
      line_position := length u\<rparr>) = u"
    by (rule padded_line) simp_all
  ultimately show ?thesis using u(5) ut by auto
qed


section \<open>Bytes in any order\<close>

lemma tab_ok:
  assumes ok: "sh_ok sh" and ns: "\<forall>e \<in> set table. 0 \<notin> set (fst e) \<and> length (fst e) < FINSH_CMD_SIZE"
  shows "\<exists>out sh'. shell_tab table sh = Some (out, sh') \<and> sh_ok sh'"
proof -
  let ?t = "text_of sh" and ?ns = "map fst table"
  have t: "line sh = padded ?t" "0 \<notin> set ?t" "length ?t < FINSH_CMD_SIZE" using ok by (simp_all add: sh_ok_def)
  have s0: "str_at (line sh) 0 = Some ?t" using str_at_padded [OF t(2,3), of 0] t(1) by simp
  then have c0: "cstr (line sh) 0 = ?t" by (simp add: str_at_def split: if_splits)
  have "\<exists>t' out. msh_auto_complete ?ns (line sh) = Some (padded t', out) \<and> 0 \<notin> set t' \<and> length t' < FINSH_CMD_SIZE"
  proof (cases "?t = []")
    case True
    then show ?thesis using c0 t by (auto simp: msh_auto_complete_def)
  next
    case False
    obtain best where best: "foldl (\<lambda>st n. complete_step ?t n st) (None, []) ?ns = (best, completions ?ns ?t)"
      "best_ok ?t (completions ?ns ?t) best"
      using complete_loop [OF False t(2), of ?ns] ns by auto
    show ?thesis
    proof (cases best)
      case None
      then show ?thesis using best(1) c0 False t by (auto simp: msh_auto_complete_def)
    next
      case (Some ml)
      obtain m l where ml: "ml = (m, l)" by (cases ml)
      have b: "m \<in> set (completions ?ns ?t)" "length ?t \<le> l" "l \<le> length m"
        using best(2) Some ml by (simp_all add: best_ok_def)
      have m: "0 \<notin> set m" "length m < FINSH_CMD_SIZE"
        using b(1) ns by (auto simp: completions_def dest: in_set_dropD)
      have "drop l (line sh) = replicate (FINSH_CMD_SIZE - l) 0" using b(2) t(1,3) by (simp add: padded_def)
      then have "take l m @ drop l (line sh) = padded (take l m)" using b(3) by (simp add: padded_def)
      moreover have "0 \<notin> set (take l m)" using m(1) by (auto dest: in_set_takeD)
      ultimately show ?thesis
        using best(1) Some ml c0 False t(1,3) b(3) m(2) by (auto simp: msh_auto_complete_def)
    qed
  qed
  then obtain t' out where a: "msh_auto_complete ?ns (line sh) = Some (padded t', out)" "0 \<notin> set t'"
    "length t' < FINSH_CMD_SIZE" by blast
  have s1: "str_at (padded t') 0 = Some t'" using str_at_padded [OF a(2,3), of 0] by simp
  have m: "length t' mod 256 = length t'" using a(3) by simp
  let ?sh = "sh\<lparr>line := padded t', line_curpos := length t', line_position := length t'\<rparr>"
  have "\<exists>out. shell_tab table sh = Some (out, ?sh)" using s0 a(1) s1 m by (simp add: shell_tab_def)
  moreover have "sh_ok ?sh \<and> text_of ?sh = t'"
    by (rule sh_okI [OF ok a(2,3), of "length t'"]) (use ok in \<open>simp_all add: sh_ok_def\<close>)
  ultimately show ?thesis by blast
qed

lemma right_ok: "sh_ok sh \<Longrightarrow> \<exists>out sh'. shell_right sh = Some (out, sh') \<and> sh_ok sh'"
  by (auto simp: shell_right_def sh_ok_def text_of_def)

lemma stat_ok [simp]: "sh_ok (sh\<lparr>stat := x\<rparr>) = sh_ok sh" "line_position (sh\<lparr>stat := x\<rparr>) = line_position sh"
  by (simp_all add: sh_ok_def text_of_def)

lemma left_key_ok: "sh_ok sh \<Longrightarrow> \<exists>out sh'. shell_left sh = Some (out, sh') \<and> sh_ok sh'"
  by (auto simp: shell_left_def sh_ok_def text_of_def)

lemma recall_ok:
  assumes "sh_ok sh" "i < FINSH_HISTORY_LINES" "i \<le> history_count sh"
  shows "\<exists>out sh'. shell_recall (sh\<lparr>current_history := i\<rparr>) = Some (out, sh') \<and> sh_ok sh'"
  by (rule recall_spec [OF assms]) blast

lemma history_bounds: "sh_ok sh \<Longrightarrow> current_history sh \<le> history_count sh \<and> history_count sh \<le> FINSH_HISTORY_LINES"
  by (simp add: sh_ok_def)

lemma up_ok:
  assumes ok: "sh_ok sh" shows "\<exists>out sh'. shell_up sh = Some (out, sh') \<and> sh_ok sh'"
proof (cases "current_history sh = 0")
  case True
  then show ?thesis using ok by (simp add: shell_up_def sh_ok_def text_of_def)
next
  case False
  then have "current_history sh - 1 < FINSH_HISTORY_LINES" "current_history sh - 1 \<le> history_count sh"
    using history_bounds [OF ok] by linarith+
  then show ?thesis using recall_ok [OF ok, of "current_history sh - 1"] False by (simp add: shell_up_def)
qed

lemma down_ok:
  assumes ok: "sh_ok sh" shows "\<exists>out sh'. shell_down sh = Some (out, sh') \<and> sh_ok sh'"
proof -
  consider "int (current_history sh) < int (history_count sh) - 1"
    | "\<not> int (current_history sh) < int (history_count sh) - 1" "history_count sh \<noteq> 0"
    | "\<not> int (current_history sh) < int (history_count sh) - 1" "history_count sh = 0" by blast
  then show ?thesis
  proof cases
    case 1
    then have "current_history sh + 1 < FINSH_HISTORY_LINES" "current_history sh + 1 \<le> history_count sh"
      using history_bounds [OF ok] by linarith+
    then show ?thesis using recall_ok [OF ok, of "current_history sh + 1"] 1 by (simp add: shell_down_def)
  next
    case 2
    then have "history_count sh - 1 < FINSH_HISTORY_LINES" "history_count sh - 1 \<le> history_count sh"
      using history_bounds [OF ok] by linarith+
    then show ?thesis using recall_ok [OF ok, of "history_count sh - 1"] 2 by (simp add: shell_down_def)
  next
    case 3
    then show ?thesis using ok by (simp add: shell_down_def)
  qed
qed

lemma backspace_ok:
  assumes ok: "sh_ok sh"
  shows "\<exists>out sh'. shell_backspace sh = Some (out, sh') \<and> sh_ok sh'"
proof -
  obtain l r where z: "zipper sh = (l, r)" by (cases "zipper sh")
  note s = sh_ok_split [OF ok z]
  show ?thesis
  proof (cases l rule: rev_cases)
    case Nil
    then show ?thesis using s(3) ok by (simp add: shell_backspace_def)
  next
    case (snoc l0 x)
    let ?sh = "sh\<lparr>line := padded (l0 @ r), line_position := length (l0 @ r), line_curpos := length l0\<rparr>"
    have "sh_ok ?sh \<and> text_of ?sh = l0 @ r"
      by (rule sh_okI [OF ok, of "l0 @ r" "length l0"]) (use ok s snoc in \<open>simp_all add: sh_ok_def\<close>)
    then show ?thesis using backspace_state [OF ok z [unfolded snoc]] by blast
  qed
qed

lemma insert_ok:
  assumes ok: "sh_ok sh" and c: "c \<noteq> 0" and room: "line_position sh < FINSH_CMD_SIZE - 1"
  shows "\<exists>out sh'. shell_insert c sh = Some (out, sh') \<and> sh_ok sh'"
proof -
  obtain l r where z: "zipper sh = (l, r)" by (cases "zipper sh")
  note s = sh_ok_split [OF ok z]
  let ?sh = "sh\<lparr>line := padded (l @ c # r), line_position := length (l @ c # r), line_curpos := length l + 1\<rparr>"
  have "sh_ok ?sh \<and> text_of ?sh = l @ c # r"
    by (rule sh_okI [OF ok, of "l @ c # r" "length l + 1"]) (use ok s c room in \<open>auto simp: sh_ok_def\<close>)
  then show ?thesis using insert_state [OF ok z c room] by blast
qed

lemma enter_ok: "sh_ok sh \<Longrightarrow> \<exists>out sh'. shell_enter table sh = Some (out, sh') \<and> sh_ok sh'"
proof -
  assume ok: "sh_ok sh"
  let ?sh = "sh\<lparr>stat := WAIT_NORMAL\<rparr>"
  have "sh_ok ?sh" "stat ?sh = WAIT_NORMAL" using ok by simp_all
  then obtain r sh' where "shell_key table 13 ?sh =
      Some ((if echo_mode ?sh then [Text [10]] else []) @ [Run r, Text FINSH_PROMPT], sh')" "sh_ok sh'"
    by (rule enter_spec)
  then have "\<exists>x. shell_enter table ?sh = Some x" by (simp add: shell_key_def shell_char_def)
  then have "\<exists>r. msh_exec table (line (shell_push_history sh)) (of_nat (line_position (shell_push_history sh))) = Some r"
    using push_history_spec(2,3) [OF ok] push_history_spec(2,3) [of ?sh] ok
    by (auto simp: shell_enter_def Let_def split: bind_splits)
  then show ?thesis using cleared_ok [OF push_history_spec(1) [OF ok]] by (auto simp: shell_enter_def Let_def)
qed

text \<open>C37: whatever byte the console sends, the shell touches only its own arrays, and the line and
  every history entry stay texts shorter than the array followed by zeros, as long as no character is
  added to a line of 79.\<close>

theorem shell_key_safe:
  assumes ok: "sh_ok sh" and ns: "\<forall>e \<in> set table. 0 \<notin> set (fst e) \<and> length (fst e) < FINSH_CMD_SIZE"
    and room: "line_position sh < FINSH_CMD_SIZE - 1 \<or> ch \<in> {0, 8, 9, 10, 13, 27, 0x7f, 0xff}"
  shows "\<exists>out sh'. shell_key table ch sh = Some (out, sh') \<and> sh_ok sh'"
proof -
  let ?n = "sh\<lparr>stat := WAIT_NORMAL\<rparr>"
  have char: "\<exists>out sh'. shell_char table ch u = Some (out, sh') \<and> sh_ok sh'"
    if u: "sh_ok u" "line_position u = line_position sh" "ch \<noteq> 27" for u
    using tab_ok [OF u(1) ns] backspace_ok [OF u(1)] enter_ok [OF u(1), of table] insert_ok [OF u(1), of ch]
      u(1,2) room that(3)
    by (auto simp: shell_char_def)
  have n: "sh_ok ?n" using ok by simp
  show ?thesis
    using char [OF ok] char [OF n] ok up_ok [OF n] down_ok [OF n] left_key_ok [OF n] right_ok [OF n]
    by (auto simp: shell_key_def Let_def)
qed


section \<open>A line of 80 characters\<close>

text \<open>A character typed in the middle of a line of 79 leaves no zero in the array, and the echo
  of the rest of the line reads past its end.\<close>

theorem insert_reads_past_end:
  assumes ok: "sh_ok sh" and n: "stat sh = WAIT_NORMAL" and echo: "echo_mode sh"
    and full: "line_position sh = FINSH_CMD_SIZE - 1" and mid: "line_curpos sh < line_position sh" and c: "printable c"
  shows "shell_key table c sh = None"
proof -
  obtain l r where z: "zipper sh = (l, r)" by (cases "zipper sh")
  note s = sh_ok_split [OF ok z]
  have len: "length l + length r = FINSH_CMD_SIZE - 1" "r \<noteq> []" using s(3,4) full mid by auto
  then have ln: "line sh = l @ r @ [0]" using s(2) by (simp add: padded_def)
  have m: "move (length l + 1) (length l) (length r) (line sh) = Some (l @ [hd r] @ r)"
    using len by (cases r) (simp_all add: ln move_def)
  have "str_at ((l @ [hd r] @ r)[length l := c]) (length l) = None"
    using s(7) printable_simps(1) [OF c] by (simp add: str_at_def)
  moreover have "79 - length l = length r" "length l < 79" using len by (cases r; simp)+
  ultimately have "shell_insert c sh = None"
    using s(3) full m echo by (simp add: shell_insert_def set_at_def Let_def)
  then show ?thesis using n printable_simps [OF c] by (simp add: shell_key_def shell_char_def)
qed

lemma type_at_end:
  assumes "stat sh = WAIT_NORMAL" "line_curpos sh = line_position sh" "length (line sh) = FINSH_CMD_SIZE"
    "line_position sh < FINSH_CMD_SIZE" "line_position sh + length cs \<le> FINSH_CMD_SIZE" "\<forall>c \<in> set cs. printable c"
  shows "\<exists>out. shell_keys table cs sh = Some (out, sh\<lparr>
    line := take (line_position sh) (line sh) @ cs @ drop (line_position sh + length cs) (line sh),
    line_position := (line_position sh + length cs) mod FINSH_CMD_SIZE,
    line_curpos := (line_position sh + length cs) mod FINSH_CMD_SIZE\<rparr>)"
  using assms
proof (induction cs arbitrary: sh)
  case Nil
  then show ?case by (cases sh) simp
next
  case (Cons c cs)
  let ?p = "line_position sh"
  let ?q = "(?p + 1) mod FINSH_CMD_SIZE"
  let ?sh = "sh\<lparr>line := (line sh)[?p := c], line_position := ?q, line_curpos := ?q\<rparr>"
  have pc: "printable c" using Cons.prems(6) by simp
  have "?q = (if ?p + 1 \<ge> FINSH_CMD_SIZE then 0 else ?p + 1)" "(?p + 1) mod 256 = ?p + 1"
    using Cons.prems(4) by (cases "?p = 79"; simp)+
  then have "\<exists>out. shell_insert c sh = Some (out, ?sh)"
    using Cons.prems(2-4) by (auto simp: shell_insert_def set_at_def Let_def)
  then obtain o1 where o1: "shell_key table c sh = Some (o1, ?sh)"
    using Cons.prems(1) printable_simps [OF pc] by (auto simp: shell_key_def shell_char_def)
  have up: "(line sh)[?p := c] = take ?p (line sh) @ c # drop (?p + 1) (line sh)"
    using Cons.prems(3,4) by (simp add: upd_conv_take_nth_drop)
  show ?case
  proof (cases "cs = []")
    case True
    then show ?thesis using o1 up by simp
  next
    case False
    then have q: "?q = ?p + 1" "?p + 1 < FINSH_CMD_SIZE" using Cons.prems(5) by (cases cs; simp)+
    have "\<exists>out. shell_keys table cs ?sh = Some (out, ?sh\<lparr>
      line := take (line_position ?sh) (line ?sh) @ cs @ drop (line_position ?sh + length cs) (line ?sh),
      line_position := (line_position ?sh + length cs) mod FINSH_CMD_SIZE,
      line_curpos := (line_position ?sh + length cs) mod FINSH_CMD_SIZE\<rparr>)"
      by (rule Cons.IH) (use Cons.prems q in simp_all)
    then obtain o2 where o2: "shell_keys table cs ?sh = Some (o2, ?sh\<lparr>
      line := take (?p + 1) (line ?sh) @ cs @ drop (?p + 1 + length cs) (line ?sh),
      line_position := (?p + 1 + length cs) mod FINSH_CMD_SIZE,
      line_curpos := (?p + 1 + length cs) mod FINSH_CMD_SIZE\<rparr>)" using q by auto
    have "take (?p + 1) (line ?sh) = take ?p (line sh) @ [c]"
      "drop (?p + 1 + length cs) (line ?sh) = drop (?p + 1 + length cs) (line sh)"
      using Cons.prems(3,4) by (simp_all add: up add_ac)
    then show ?thesis using o1 o2 by simp
  qed
qed

lemma exec_unterminated:
  assumes t: "t \<noteq> []" "\<forall>c \<in> set t. \<not> is_blank c" "34 \<notin> set t" and nz: "0 \<notin> set (t @ z)" and z: "z \<noteq> []"
    and len: "length t < 2 ^ 32" and f: "lookup_cmd table t = Some f" and ns: "\<forall>e \<in> set table. 0 \<notin> set (fst e)"
  shows "msh_exec table (t @ z) (of_nat (length t)) = None"
proof -
  obtain c t' where ct: "t = c # t'" using t(1) by (cases t) auto
  have nb: "\<not> is_blank c" using t(2) ct by simp
  have trim: "exec_trim (of_nat (length t)) (t @ z) = Some (of_nat (length t), t @ z)" using nb by (simp add: ct)
  have un: "unat (of_nat (length t) :: u32) = length t" using len by (simp add: unat_of_nat take_bit_nat_eq_self)
  then have n0: "(of_nat (length t) :: u32) \<noteq> 0" using t(1) by (metis length_0_conv unat_0)
  have all: "takeWhile (\<lambda>x. \<not> is_blank x) t = t" using t(2) by (simp add: takeWhile_eq_all_conv)
  have lz: "length t < length (t @ z)" using z by simp
  have size: "cmd0_size (length t) 0 (t @ z) = Some (length t)" using cmd0_spec [of 0 "length t" "t @ z"] lz all by simp
  have get: "msh_get_cmd table (t @ z) (length t) = Some f" using get_cmd_lookup [OF ns, of "length t" "t @ z"] f by simp
  have strip: "split_strip (length t) 0 (t @ z) = Some (0, t @ z)"
    using nb by (subst split_strip.simps) (simp add: ct)
  have word: "split_word (length t) 0 (t @ z) = Some (length t)" using word_spec [of 0 "length t" "t @ z"] lz all by simp
  have "c \<noteq> 34" using t(3) ct by simp
  then have "msh_split (t @ z) (length t) = Some ([0], t @ z)"
    using strip word unfolding msh_split_def by (subst msh_split_loop.simps) (simp add: ct)
  moreover have "str_at (t @ z) 0 = None" using nz by (simp add: str_at_def)
  ultimately have "msh_exec_cmd table (t @ z) (length t) = None"
    using size get t(1) by (simp add: msh_exec_cmd_def)
  then show ?thesis using trim n0 un by (simp add: msh_exec_def)
qed

text \<open>The line that fills the array is dropped by setting the positions to zero, but its characters
  stay: the next command gets them behind its last argument, which is not terminated inside the
  array.\<close>

theorem long_line_corrupts_next:
  assumes cs: "length cs = FINSH_CMD_SIZE" "\<forall>c \<in> set cs. printable c"
    and t: "t \<noteq> []" "length t < FINSH_CMD_SIZE" "\<forall>c \<in> set t. printable c \<and> c \<noteq> 32 \<and> c \<noteq> 34"
    and f: "lookup_cmd table t = Some f" and ns: "\<forall>e \<in> set table. 0 \<notin> set (fst e)"
  shows "shell_keys table (cs @ t @ [13]) finsh_start = None"
proof -
  have pt: "\<forall>c \<in> set t. printable c" using t(3) by blast
  let ?s1 = "finsh_start\<lparr>line := cs\<rparr>"
  have "\<exists>o1. shell_keys table cs finsh_start = Some (o1, ?s1)"
    using type_at_end [of finsh_start cs table] cs by (simp add: finsh_start_def)
  then obtain o1 where r1: "shell_keys table cs finsh_start = Some (o1, ?s1)" ..
  let ?s2 = "?s1\<lparr>line := t @ drop (length t) cs, line_position := length t, line_curpos := length t\<rparr>"
  have "\<exists>o2. shell_keys table t ?s1 = Some (o2, ?s2)"
    using type_at_end [of ?s1 t table] cs(1) t(2) pt by (simp add: finsh_start_def)
  then obtain o2 where r2: "shell_keys table t ?s1 = Some (o2, ?s2)" ..
  have push: "line (shell_push_history sh) = line sh" "line_position (shell_push_history sh) = line_position sh" for sh
    by (simp_all add: shell_push_history_def Let_def)
  have nz: "0 \<notin> set (t @ drop (length t) cs)"
    using cs(2) pt printable_simps(1) by (auto dest: in_set_dropD)
  have nb: "\<forall>c \<in> set t. \<not> is_blank c" "34 \<notin> set t" using t(3) printable_simps(3) by (auto simp: is_blank_def)
  have "msh_exec table (t @ drop (length t) cs) (of_nat (length t)) = None"
    by (rule exec_unterminated [OF t(1) nb nz _ _ f ns]) (use t(2) cs(1) in auto)
  then have "shell_enter table ?s2 = None" by (simp add: shell_enter_def push Let_def)
  then have "shell_keys table [13] ?s2 = None"
    by (simp add: shell_key_def shell_char_def finsh_start_def)
  then show ?thesis using r1 r2 by (simp only: shell_keys_append) simp
qed


section \<open>Examples\<close>

text \<open>A command \<open>go\<close>.\<close>

definition demo_table :: "(u8 list \<times> bool) list" where
  "demo_table = [(cmd_prefix @ [103, 111], True)]"

lemma demo_table_ok: "\<forall>e \<in> set demo_table. 0 \<notin> set (fst e) \<and> length (fst e) < FINSH_CMD_SIZE"
  by (simp add: demo_table_def)

lemma finsh_start_simps: "stat finsh_start = WAIT_NORMAL" "echo_mode finsh_start" "text_of finsh_start = []"
  "zipper finsh_start = ([], [])" "line_position finsh_start = 0" "line_curpos finsh_start = 0"
  by (simp_all add: finsh_start_def text_of_def zipper_def)

lemma printable_go: "printable 103" "printable 111" "printable 120"
  by (simp_all add: printable_def)

lemma line_editor_correct_witness:
  "\<exists>out sh'. shell_keys demo_table (concat (map encode [Char 111, Left, Char 103, Right, Char 120, Erase])) finsh_start =
     Some (out, sh') \<and> zipper sh' = ([103, 111], [])"
  using line_editor_correct [OF finsh_start_ok finsh_start_simps(1,2),
    of "[Char 111, Left, Char 103, Right, Char 120, Erase]" demo_table] printable_go
  by (auto simp: finsh_start_simps chars_def)

lemma words_go: "words [103, 111] = [[103, 111]]" "words [] = []"
  by (simp_all add: words.simps [of "[103, 111]"] words.simps [of "[]"] is_blank_def)

lemma edited_line_runs_witness:
  "\<exists>out sh'. shell_keys demo_table (concat (map encode [Char 111, Left, Char 103]) @ [13]) finsh_start =
     Some (out @ [Text [10], Run (Call True [[103, 111]]), Text FINSH_PROMPT], sh')"
proof -
  have "exec_text demo_table ([103] @ [111]) = Call True [[103, 111]]"
    by (simp add: exec_text_def words_go lookup_cmd_def demo_table_def)
  then show ?thesis
    using edited_line_runs [OF finsh_start_ok finsh_start_simps(1-3), of "[Char 111, Left, Char 103]" "[103]" "[111]" demo_table]
      printable_go demo_table_ok by (auto simp: words_go)
qed

text \<open>The same shell with \<open>go\<close> typed.\<close>

definition shell_go :: finsh_shell where
  "shell_go = finsh_start\<lparr>line := padded [103, 111], line_position := 2, line_curpos := 2\<rparr>"

lemma shell_go_ok: "sh_ok shell_go" "text_of shell_go = [103, 111]"
proof -
  have "sh_ok shell_go \<and> text_of shell_go = [103, 111]" unfolding shell_go_def
    by (rule sh_okI [OF finsh_start_ok, of "[103, 111]" 2]) (simp_all add: finsh_start_def)
  then show "sh_ok shell_go" "text_of shell_go = [103, 111]" by simp_all
qed

lemma history_recalls_last_witness:
  "\<exists>out sh'. shell_keys demo_table [13, 27, 91, 65] shell_go = Some (out, sh') \<and> text_of sh' = [103, 111]"
  using history_recalls_last [OF shell_go_ok(1), of demo_table] shell_go_ok(2)
  by (auto simp: shell_go_def finsh_start_simps)

lemma shell_key_safe_witness: "\<exists>out sh'. shell_key demo_table 9 shell_go = Some (out, sh') \<and> sh_ok sh'"
  by (rule shell_key_safe [OF shell_go_ok(1) demo_table_ok]) simp

definition shell_79 :: finsh_shell where
  "shell_79 = finsh_start\<lparr>line := padded (replicate 79 103), line_position := 79, line_curpos := 78\<rparr>"

lemma insert_reads_past_end_witness: "shell_key demo_table 111 shell_79 = None"
proof (rule insert_reads_past_end)
  have "sh_ok shell_79 \<and> text_of shell_79 = replicate 79 103" unfolding shell_79_def
    by (rule sh_okI [OF finsh_start_ok, of "replicate 79 103" 78]) (simp_all add: finsh_start_def)
  then show "sh_ok shell_79" ..
qed (simp_all add: shell_79_def finsh_start_simps printable_go)

lemma long_line_corrupts_next_witness:
  "shell_keys demo_table (replicate 80 120 @ [103, 111] @ [13]) finsh_start = None"
  by (rule long_line_corrupts_next [of _ _ _ True]) (use printable_go demo_table_ok in \<open>simp_all add: lookup_cmd_def demo_table_def\<close>)

end
