(* ===== verification/Float32.thy ===== *)
theory Float32
  imports Prelude "HOL-Library.Log_Nat"
begin

text \<open>
  The type \<^verbatim>\<open>float\<close> of C as the processor has it: IEEE 754 binary32 with rounding to nearest, ties
  to even. A finite value is the rational number it stands for (the sign of zero is not kept);
  every operation is the exact one followed by one rounding. The theorem of this theory is the
  bound on the rounding error; overflow gives an infinity.
\<close>

section \<open>Rounding\<close>

datatype f32 = Fin rat | Inf bool | NaN

text \<open>\<open>ilog2 x\<close>: the exponent of the highest power of two not above \<open>x > 0\<close>.\<close>

definition ilog2 :: "rat \<Rightarrow> int" where
  "ilog2 x = (let (p, q) = quotient_of x; k = bitlen p - bitlen q in
     if 2 powi k \<le> x then k else k - 1)"

text \<open>Rounding to an integer, ties to even.\<close>

definition round_even :: "rat \<Rightarrow> int" where
  "round_even x = (let n = \<lfloor>x\<rfloor>; d = x - of_int n in
     if d < 1 / 2 \<or> d = 1 / 2 \<and> even n then n else n + 1)"

text \<open>The weight of the last of the 24 bits of the significand, at least \<open>2 ^ -149\<close>.\<close>

definition ulp32 :: "rat \<Rightarrow> rat" where
  "ulp32 x = 2 powi (max (- 149) (ilog2 \<bar>x\<bar> - 23))"

definition round32 :: "rat \<Rightarrow> rat" where
  "round32 x = (if x = 0 then 0 else of_int (round_even (x / ulp32 x)) * ulp32 x)"

definition f32_of :: "rat \<Rightarrow> f32" where
  "f32_of x = (if \<bar>round32 x\<bar> < 2 ^ 128 then Fin (round32 x) else Inf (x < 0))"

section \<open>Operations\<close>

fun f32_add :: "f32 \<Rightarrow> f32 \<Rightarrow> f32" where
  "f32_add (Fin x) (Fin y) = f32_of (x + y)"
| "f32_add (Inf s) (Fin y) = Inf s"
| "f32_add (Fin x) (Inf s) = Inf s"
| "f32_add (Inf s) (Inf r) = (if s = r then Inf s else NaN)"
| "f32_add _ _ = NaN"

fun f32_mul :: "f32 \<Rightarrow> f32 \<Rightarrow> f32" where
  "f32_mul (Fin x) (Fin y) = f32_of (x * y)"
| "f32_mul (Inf s) (Fin y) = (if y = 0 then NaN else Inf (s \<noteq> (y < 0)))"
| "f32_mul (Fin x) (Inf s) = (if x = 0 then NaN else Inf (s \<noteq> (x < 0)))"
| "f32_mul (Inf s) (Inf r) = Inf (s \<noteq> r)"
| "f32_mul _ _ = NaN"

text \<open>Division by a finite number that is not zero.\<close>

fun f32_div :: "f32 \<Rightarrow> rat \<Rightarrow> f32" where
  "f32_div (Fin x) y = f32_of (x / y)"
| "f32_div (Inf s) y = Inf (s \<noteq> (y < 0))"
| "f32_div NaN y = NaN"

text \<open>\<open>x * y + z\<close> with one rounding, which a compiler may use for the two operations.\<close>

fun f32_fma :: "f32 \<Rightarrow> rat \<Rightarrow> rat \<Rightarrow> f32" where
  "f32_fma (Fin x) y z = f32_of (x * y + z)"
| "f32_fma (Inf s) y z = (if y = 0 then NaN else Inf (s \<noteq> (y < 0)))"
| "f32_fma NaN y z = NaN"

section \<open>The rounding error\<close>

lemma ilog2_bounds:
  assumes "0 < x" shows "2 powi ilog2 x \<le> x" "x < 2 powi (ilog2 x + 1)"
proof -
  obtain p q where pq: "quotient_of x = (p, q)" by (cases "quotient_of x")
  then have q: "0 < q" "x = of_int p / of_int q"
    using quotient_of_denom_pos quotient_of_div by auto
  then have p: "0 < p" using assms by (simp add: zero_less_divide_iff)
  have b: "2 powi (bitlen n - 1) \<le> (of_int n :: rat)" "(of_int n :: rat) < 2 powi (bitlen n)" if "0 < n" for n
  proof -
    have l: "0 < bitlen n" "2 ^ nat (bitlen n - 1) \<le> n" "n < 2 ^ nat (bitlen n)"
      using that bitlen_bounds [of n] bitlen_eq_zero_iff [of n] bitlen_nonneg [of n] by (auto simp: order.strict_iff_order)
    have "(2 :: rat) powi (bitlen n - 1) = of_int (2 ^ nat (bitlen n - 1))"
      "(2 :: rat) powi (bitlen n) = of_int (2 ^ nat (bitlen n))"
      using l(1) by (simp_all add: power_int_def)
    then show "2 powi (bitlen n - 1) \<le> (of_int n :: rat)" "(of_int n :: rat) < 2 powi (bitlen n)"
      using l(2,3) by (metis of_int_le_iff, metis of_int_less_iff)
  qed
  let ?k = "bitlen p - bitlen q"
  have "x < 2 powi (bitlen p) / 2 powi (bitlen q - 1)"
    using b(2) [OF p] b(1) [OF q(1)] q p by (simp add: frac_less)
  also have "\<dots> = 2 powi (?k + 1)" by (simp add: power_int_diff power_int_add)
  finally have u: "x < 2 powi (?k + 1)" .
  have "?k - 1 = (bitlen p - 1) - bitlen q" by simp
  then have "(2 :: rat) powi (?k - 1) = 2 powi (bitlen p - 1) / 2 powi (bitlen q)"
    by (simp only:) (simp add: power_int_diff)
  also have "\<dots> \<le> x" using b(1) [OF p] b(2) [OF q(1)] q p by (simp add: frac_le)
  finally have l: "2 powi (?k - 1) \<le> x" .
  show "2 powi ilog2 x \<le> x" "x < 2 powi (ilog2 x + 1)"
    using u l by (simp_all add: ilog2_def pq Let_def)
qed

lemma round_even_error: "\<bar>of_int (round_even x) - x\<bar> \<le> 1 / 2"
proof -
  let ?n = "of_int \<lfloor>x\<rfloor> :: rat"
  have n: "?n \<le> x" "x < ?n + 1" by linarith+
  have "\<bar>?n - x\<bar> = x - ?n" "\<bar>?n + 1 - x\<bar> = 1 - (x - ?n)" using n by linarith+
  then show ?thesis by (auto simp: round_even_def Let_def)
qed

lemma round_even_int [simp]: "round_even (of_int n) = n"
  by (simp add: round_even_def)

lemma ulp32_pos [simp]: "0 < ulp32 x"
  by (simp add: ulp32_def)

lemma round32_error: "\<bar>round32 x - x\<bar> \<le> ulp32 x / 2"
proof (cases "x = 0")
  case False
  have "\<bar>(of_int (round_even (x / ulp32 x)) - x / ulp32 x) * ulp32 x\<bar> \<le> 1 / 2 * ulp32 x"
    unfolding abs_mult using round_even_error [of "x / ulp32 x"] ulp32_pos [of x]
    by (intro mult_mono) (simp_all add: less_imp_le)
  then show ?thesis using False ulp32_pos [of x] by (simp add: round32_def algebra_simps)
qed (simp add: round32_def less_imp_le)

text \<open>Above \<open>2 ^ -126\<close> the relative error of a rounding is at most \<open>2 ^ -24\<close>.\<close>

lemma round32_relative:
  assumes "1 / 2 ^ 126 \<le> \<bar>x\<bar>" shows "\<bar>round32 x - x\<bar> \<le> \<bar>x\<bar> / 2 ^ 24"
proof -
  have x: "0 < \<bar>x\<bar>" using assms by (metis less_le_trans zero_less_divide_1_iff zero_less_numeral zero_less_power)
  note l = ilog2_bounds [OF x]
  have "- 126 \<le> ilog2 \<bar>x\<bar>"
  proof (rule ccontr)
    assume "\<not> - 126 \<le> ilog2 \<bar>x\<bar>"
    then have "(2 :: rat) powi (ilog2 \<bar>x\<bar> + 1) \<le> 2 powi (- 126)" by (intro power_int_increasing) simp_all
    then show False using l(2) assms by (simp add: power_int_def field_simps)
  qed
  then have "ulp32 x = 2 powi (ilog2 \<bar>x\<bar> - 23)" by (simp add: ulp32_def)
  also have "\<dots> = 2 powi ilog2 \<bar>x\<bar> / 2 ^ 23" by (simp add: power_int_diff)
  finally have "ulp32 x / 2 = 2 powi ilog2 \<bar>x\<bar> / 2 ^ 24" by simp
  also have "\<dots> \<le> \<bar>x\<bar> / 2 ^ 24" using l(1) by (intro divide_right_mono) simp_all
  finally show ?thesis using round32_error [of x] by linarith
qed

lemma round32_0 [simp]: "round32 0 = 0"
  by (simp add: round32_def)

text \<open>Integers of at most 24 bits are exact.\<close>

lemma round32_exact: "x = of_int m * ulp32 x \<Longrightarrow> round32 x = x"
  using ulp32_pos [of x] by (metis nonzero_mult_div_cancel_right not_less_iff_gr_or_eq round32_def round_even_int)

lemma round32_int:
  assumes "\<bar>n\<bar> \<le> 2 ^ 24" shows "round32 (of_int n) = of_int n"
proof (cases "n = 0")
  case False
  let ?x = "of_int n :: rat"
  have x: "0 < \<bar>?x\<bar>" "1 \<le> \<bar>?x\<bar>" "\<bar>?x\<bar> \<le> 2 ^ 24"
    using False assms by (simp_all flip: of_int_abs)
  note l = ilog2_bounds [OF x(1)]
  have j0: "0 \<le> ilog2 \<bar>?x\<bar>"
  proof (rule ccontr)
    assume "\<not> 0 \<le> ilog2 \<bar>?x\<bar>"
    then have "(2 :: rat) powi (ilog2 \<bar>?x\<bar> + 1) \<le> 2 powi 0" by (intro power_int_increasing) simp_all
    then show False using l(2) x(2) by simp
  qed
  then have u: "ulp32 ?x = 2 powi (ilog2 \<bar>?x\<bar> - 23)" by (simp add: ulp32_def)
  show ?thesis
  proof (cases "ilog2 \<bar>?x\<bar> \<le> 23")
    case True
    then obtain m where m: "23 - ilog2 \<bar>?x\<bar> = int m" using nonneg_int_cases [of "23 - ilog2 \<bar>?x\<bar>"] by auto
    then have "ilog2 \<bar>?x\<bar> - 23 = - int m" by simp
    then have "ulp32 ?x = 1 / 2 ^ m" unfolding u by (simp only: power_int_minus power_int_of_nat inverse_eq_divide)
    then have "?x = of_int (n * 2 ^ m) * ulp32 ?x" by simp
    then show ?thesis by (rule round32_exact)
  next
    case f: False
    have "ilog2 \<bar>?x\<bar> \<le> 24"
    proof (rule ccontr)
      assume "\<not> ilog2 \<bar>?x\<bar> \<le> 24"
      then have "(2 :: rat) powi 25 \<le> 2 powi ilog2 \<bar>?x\<bar>" by (intro power_int_increasing) simp_all
      then show False using l(1) x(3) by simp
    qed
    then have j: "ilog2 \<bar>?x\<bar> = 24" using f by simp
    then have "(2 :: rat) ^ 24 \<le> \<bar>?x\<bar>" using l(1) by simp
    then have "\<bar>n\<bar> = 2 ^ 24" using x(3) assms by (simp flip: of_int_abs)
    then have "\<bar>n\<bar> = 16777216" by simp
    then have "n = 2 * (n div 2)" by presburger
    then have "?x = of_int (n div 2) * ulp32 ?x" using j u by (simp flip: of_int_mult)
    then show ?thesis by (rule round32_exact)
  qed
qed simp

lemma f32_of_int: "\<bar>n\<bar> \<le> 2 ^ 24 \<Longrightarrow> f32_of (of_int n) = Fin (of_int n)"
proof -
  assume n: "\<bar>n\<bar> \<le> 2 ^ 24"
  have "\<bar>of_int n :: rat\<bar> \<le> 2 ^ 24" using n by (metis of_int_abs of_int_le_iff of_int_numeral of_int_power)
  then have "\<bar>of_int n :: rat\<bar> < 2 ^ 128" by (rule le_less_trans) simp
  then show ?thesis using round32_int [OF n] by (simp add: f32_of_def)
qed

end
