(* ===== verification/KEffect.thy ===== *)
theory KEffect
  imports Mq
begin

text \<open>
  What a kernel call leaves alone. Each call acts for one thread and one object; \<open>effect t C k k'\<close>
  says that the step from \<open>k\<close> to \<open>k'\<close>, made by the thread \<open>t\<close>, keeps the kernel invariant, leaves
  every object outside \<open>C\<close> and its wait lists as they were, and does no more to other threads
  than wake them. The calls of the IPC objects are compositions of a few steps, and so are
  their effects.
\<close>

section \<open>Timers\<close>

text \<open>A step that sets no timer but those of the threads in \<open>X\<close>, and makes none periodic.\<close>

definition timers_kept :: "nat set \<Rightarrow> kernel \<Rightarrow> kernel \<Rightarrow> bool" where
  "timers_kept X k k' \<longleftrightarrow> (\<forall>i. i \<notin> TThread ` X \<longrightarrow> timers k' i = timers k i \<and>
       (i \<in> set (timer_list k') \<longleftrightarrow> i \<in> set (timer_list k))) \<and>
     (\<forall>u. tm_periodic k' (TThread u) = tm_periodic k (TThread u))"

lemma timers_kept_refl [simp]: "timers_kept X k k"
  by (simp add: timers_kept_def)

lemma timers_kept_mono: "timers_kept X k k' \<Longrightarrow> X \<subseteq> Y \<Longrightarrow> timers_kept Y k k'"
  unfolding timers_kept_def by (meson image_mono subsetD)

lemma timers_kept_trans: "timers_kept X k k1 \<Longrightarrow> timers_kept X k1 k2 \<Longrightarrow> timers_kept X k k2"
  by (simp add: timers_kept_def)

lemma timers_kept_eq:
  "timers k' = timers k \<Longrightarrow> timer_list k' = timer_list k \<Longrightarrow> timers_kept X k k'"
  by (simp add: timers_kept_def tm_periodic_def)

lemma timers_kept_ok: "timers_kept X k k' \<Longrightarrow> periods_ok k \<Longrightarrow> periods_ok k'"
proof -
  assume a: "timers_kept X k k'" "periods_ok k"
  have "timers k' (TUser i) = timers k (TUser i)" for i using a(1) by (auto simp: timers_kept_def)
  then show "periods_ok k'" using a by (simp add: timers_kept_def periods_ok_def tm_periodic_def)
qed

lemma flag_bits:
  "(x AND - 2) AND 2 = x AND (2 :: u8)" "(x AND - 2 OR 1) AND 2 = x AND (2 :: u8)"
  by (simp_all add: and.assoc bit.conj_disj_distrib2)

lemma timers_kept_timers:
  "timers_kept {t} k (snd (rt_timer_stop (TThread t) k))"
  "timers_kept {t} k (snd (rt_timer_control (TThread t) CTRL_SET_TIME tk k))"
  "rt_timer_start (TThread t) k = Some k' \<Longrightarrow> timers_kept {t} k k'"
proof -
  show "timers_kept {t} k (snd (rt_timer_stop (TThread t) k))"
    by (auto simp: rt_timer_stop_def timer_remove_def clear_tflag_def timers_kept_def
        tm_periodic_def flag_bits)
  show "timers_kept {t} k (snd (rt_timer_control (TThread t) CTRL_SET_TIME tk k))"
    by (auto simp: rt_timer_control_def timers_kept_def tm_periodic_def)
  show "rt_timer_start (TThread t) k = Some k' \<Longrightarrow> timers_kept {t} k k'"
    by (auto simp: rt_timer_start_eq Let_def timers_kept_def tm_periodic_def flag_bits
        split: if_splits)
qed

lemma timers_kept_start: "start_thread_timer t tk k = Some k' \<Longrightarrow> timers_kept {t} k k'"
  unfolding start_thread_timer_def using timers_kept_timers(2,3) timers_kept_trans by blast

lemma timers_kept_schedule: "rt_schedule k = Some k' \<Longrightarrow> timers_kept X k k'"
  by (rule timers_kept_eq) (rule switch_only_frame [OF schedule_switch_only], assumption)+

lemma timers_kept_resume: "timers_kept {t} k (snd (rt_thread_resume t k))"
proof (cases "th_suspended k t")
  case True
  let ?k1 = "list_remove t k"
  have "snd (rt_thread_resume t k) = rt_schedule_insert_thread t (snd (rt_timer_stop (TThread t) ?k1))"
    using True by (simp add: rt_thread_resume_def Let_def)
  moreover have "timers_kept {t} k ?k1" by (rule timers_kept_eq) simp_all
  moreover have "timers_kept {t} k2 (rt_schedule_insert_thread t k2)" for k2
    by (rule timers_kept_eq) simp_all
  ultimately show ?thesis using timers_kept_trans timers_kept_timers(1) by metis
next
  case False
  then show ?thesis by (simp add: rt_thread_resume_def)
qed

lemma timers_kept_suspend: "timers_kept {t} k (snd (rt_thread_suspend t k))"
proof (cases "th_ready k t")
  case True
  let ?k1 = "rt_schedule_remove_thread t
    (set_stat t (with_stat RT_THREAD_SUSPEND (th_stat (threads k t))) k)"
  have "snd (rt_thread_suspend t k) = snd (rt_timer_stop (TThread t) ?k1)"
    using True by (simp add: rt_thread_suspend_def Let_def)
  moreover have "timers_kept {t} k ?k1" by (rule timers_kept_eq) (simp_all add: set_stat_def)
  ultimately show ?thesis using timers_kept_trans timers_kept_timers(1) by metis
next
  case False
  then show ?thesis by (simp add: rt_thread_suspend_def)
qed

lemma timers_kept_arm: "arm_and_schedule time t k = Some k' \<Longrightarrow> timers_kept {t} k k'"
  unfolding arm_and_schedule_def
  by (auto split: if_splits bind_splits
      intro: timers_kept_trans [OF timers_kept_start timers_kept_schedule] timers_kept_schedule)

lemma timers_kept_suspend_current: "suspend_current h flag time t k = Some k' \<Longrightarrow> timers_kept {t} k k'"
proof -
  have "timers_kept {t} (snd (rt_thread_suspend t k)) (rt_ipc_list_suspend h t flag k)"
    by (rule timers_kept_eq) (simp_all add: rt_ipc_list_suspend_def Let_def list_insert_before_def)
  then have "timers_kept {t} k (rt_ipc_list_suspend h t flag k)"
    by (rule timers_kept_trans [OF timers_kept_suspend])
  then show "suspend_current h flag time t k = Some k' \<Longrightarrow> ?thesis"
    unfolding suspend_current_def using timers_kept_arm timers_kept_trans by blast
qed

lemma timers_kept_priority: "timers_kept X k (change_priority t p k)"
  by (rule timers_kept_eq) (simp_all add: change_priority_def Let_def)

section \<open>Effects\<close>

fun heads_of :: "kobj \<Rightarrow> lhead set" where
  "heads_of (OSem s) = {LSem s}"
| "heads_of (OMutex m) = {LMutex m}"
| "heads_of (OEvent e) = {LEvent e}"
| "heads_of (OMb m) = {LMb m, LMbSender m}"
| "heads_of (OMq m) = {LMq m}"
| "heads_of _ = {}"

definition others_kept :: "kobj set \<Rightarrow> kernel \<Rightarrow> kernel \<Rightarrow> bool" where
  "others_kept C k k' \<longleftrightarrow> (\<forall>s. OSem s \<notin> C \<longrightarrow> sems k' s = sems k s) \<and>
     (\<forall>m. OMutex m \<notin> C \<longrightarrow> mutexes k' m = mutexes k m) \<and>
     (\<forall>e. OEvent e \<notin> C \<longrightarrow> events k' e = events k e) \<and>
     (\<forall>m. OMb m \<notin> C \<longrightarrow> mailboxes k' m = mailboxes k m) \<and>
     (\<forall>m. OMq m \<notin> C \<longrightarrow> msgqueues k' m = msgqueues k m) \<and>
     (\<forall>h. wait_head h \<longrightarrow> (\<forall>o1 \<in> C. h \<notin> heads_of o1) \<longrightarrow> lists k' h = lists k h)"

text \<open>The lists of the IPC objects a thread waits in; there is never more than one.\<close>

definition in_lists :: "kernel \<Rightarrow> nat \<Rightarrow> lhead set" where
  "in_lists k u = {h. wait_head h \<and> u \<in> set (lists k h)}"

lemma in_lists_eq: "(\<And>h. wait_head h \<Longrightarrow> lists k' h = lists k h) \<Longrightarrow> in_lists k' u = in_lists k u"
  by (auto simp: in_lists_def)

lemma in_lists_insert:
  assumes "lists k' h = wait_insert flag k t (lists k h)" "u \<noteq> t"
    "\<forall>h'. wait_head h' \<longrightarrow> h' \<noteq> h \<longrightarrow> lists k' h' = lists k h'"
  shows "in_lists k' u = in_lists k u"
proof -
  have "u \<in> set (lists k' x) \<longleftrightarrow> u \<in> set (lists k x)" if "wait_head x" for x
    using assms that by (cases "x = h") auto
  then show ?thesis unfolding in_lists_def by blast
qed

definition threads_kept :: "nat \<Rightarrow> kernel \<Rightarrow> kernel \<Rightarrow> bool" where
  "threads_kept t k k' \<longleftrightarrow> (\<forall>u. u \<noteq> t \<longrightarrow> error_of k' u = error_of k u \<and>
     (th_ready k u \<longrightarrow> th_ready k' u) \<and>
     (th_suspended k' u \<longrightarrow> th_suspended k u \<and> waits_for k' u = waits_for k u \<and>
        info_of k' u = info_of k u \<and> in_lists k' u = in_lists k u) \<and>
     (th_suspended k u \<and> \<not> th_suspended k' u \<longrightarrow> in_lists k u \<noteq> {}))"

definition current_ready :: "kernel \<Rightarrow> bool" where
  "current_ready k \<longleftrightarrow> (\<exists>u. current_thread k = Some u \<and> th_ready k u)"

text \<open>The thread itself and those it wakes are the only ones whose timers change.\<close>

definition timers_safe :: "nat \<Rightarrow> kernel \<Rightarrow> kernel \<Rightarrow> bool" where
  "timers_safe t k k' \<longleftrightarrow> timers_kept (insert t {u. \<not> th_suspended k' u}) k k'"

lemma timers_safe_only: "timers_kept {t} k k' \<Longrightarrow> timers_safe t k k'"
  unfolding timers_safe_def by (rule timers_kept_mono) auto

lemma timers_safe_woken: "timers_kept {u} k k' \<Longrightarrow> th_ready k' u \<Longrightarrow> timers_safe t k k'"
  unfolding timers_safe_def by (rule timers_kept_mono) auto

lemma timers_safe_eq:
  "timers k' = timers k \<Longrightarrow> timer_list k' = timer_list k \<Longrightarrow> timers_safe t k k'"
  unfolding timers_safe_def by (rule timers_kept_eq)

lemma timers_safe_ok: "timers_safe t k k' \<Longrightarrow> periods_ok k \<Longrightarrow> periods_ok k'"
  unfolding timers_safe_def by (rule timers_kept_ok)

lemma timers_safe_trans:
  assumes a: "timers_safe t k k1" and b: "timers_safe t k1 k2" and c: "threads_kept t k1 k2"
  shows "timers_safe t k k2"
proof -
  have "insert t {u. \<not> th_suspended k1 u} \<subseteq> insert t {u. \<not> th_suspended k2 u}"
    using c by (auto simp: threads_kept_def)
  from timers_kept_mono [OF a [unfolded timers_safe_def] this] show ?thesis
    using b timers_kept_trans unfolding timers_safe_def by blast
qed

definition effect :: "nat \<Rightarrow> kobj set \<Rightarrow> kernel \<Rightarrow> kernel \<Rightarrow> bool" where
  "effect t C k k' \<longleftrightarrow> kinv 0 k' \<and> current_ready k' \<and>
     scheduler_lock_nest k' = scheduler_lock_nest k \<and> interrupt_nest k' = interrupt_nest k \<and>
     tick k' = tick k \<and> others_kept C k k' \<and> threads_kept t k k' \<and> timers_safe t k k' \<and>
     error_of k' t \<in> {error_of k t, RT_EOK, - RT_ETIMEOUT, - RT_ERROR}"

lemma upd_stat [simp]:
  "stat_of (upd_sem s f1 k) u = stat_of k u" "stat_of (upd_mutex m f2 k) u = stat_of k u"
  "stat_of (upd_mb m f3 k) u = stat_of k u"
  by (simp_all add: stat_of_def)

lemma others_kept_trans: "others_kept C k k1 \<Longrightarrow> others_kept C k1 k2 \<Longrightarrow> others_kept C k k2"
  by (simp add: others_kept_def)

lemma others_kept_mono: "others_kept C k k' \<Longrightarrow> C \<subseteq> D \<Longrightarrow> others_kept D k k'"
  unfolding others_kept_def by (meson subsetD)

lemma others_kept_core:
  assumes "core_only k k'"
    "\<And>h. wait_head h \<Longrightarrow> (\<forall>o1 \<in> C. h \<notin> heads_of o1) \<Longrightarrow> lists k' h = lists k h"
  shows "others_kept C k k'"
  using assms(2) by (simp add: others_kept_def core_only_frame [OF assms(1)])

lemma threads_kept_trans:
  assumes "threads_kept t k k1" "threads_kept t k1 k2" shows "threads_kept t k k2"
  unfolding threads_kept_def
proof (intro allI impI)
  fix u assume u: "u \<noteq> t"
  note a = assms [unfolded threads_kept_def, rule_format, OF u]
  show "error_of k2 u = error_of k u \<and> (th_ready k u \<longrightarrow> th_ready k2 u) \<and>
     (th_suspended k2 u \<longrightarrow> th_suspended k u \<and> waits_for k2 u = waits_for k u \<and>
        info_of k2 u = info_of k u \<and> in_lists k2 u = in_lists k u) \<and>
     (th_suspended k u \<and> \<not> th_suspended k2 u \<longrightarrow> in_lists k u \<noteq> {})"
    using a by (cases "th_suspended k1 u") auto
qed

lemma threads_kept_eq:
  "(\<And>u. u \<noteq> t \<Longrightarrow> threads k' u = threads k u) \<Longrightarrow>
   (\<And>u. u \<noteq> t \<Longrightarrow> in_lists k' u = in_lists k u) \<Longrightarrow> threads_kept t k k'"
  by (simp add: threads_kept_def stat_of_def)

lemma effect_refl: "kinv 0 k \<Longrightarrow> current_ready k \<Longrightarrow> effect t C k k"
  by (simp add: effect_def others_kept_def threads_kept_def timers_safe_def)

lemma effect_trans:
  assumes a: "effect t C k k1" and b: "effect t C k1 k2" shows "effect t C k k2"
proof -
  have "others_kept C k k2" by (rule others_kept_trans [of C k k1]) (use a b in \<open>simp_all add: effect_def\<close>)
  moreover have "threads_kept t k k2"
    by (rule threads_kept_trans [of t k k1]) (use a b in \<open>simp_all add: effect_def\<close>)
  moreover have "timers_safe t k k2"
    by (rule timers_safe_trans [of t k k1]) (use a b in \<open>simp_all add: effect_def\<close>)
  moreover have "error_of k2 t \<in> {error_of k t, RT_EOK, - RT_ETIMEOUT, - RT_ERROR}"
    using a b unfolding effect_def insert_iff empty_iff by metis
  ultimately show ?thesis using a b by (simp add: effect_def)
qed

lemma effect_mono: "effect t C k k' \<Longrightarrow> C \<subseteq> D \<Longrightarrow> effect t D k k'"
  unfolding effect_def using others_kept_mono by blast

text \<open>The elementary steps.\<close>

lemma effect_core:
  assumes "kinv 0 k'" "current_ready k'" "core_only k k'" "threads_kept t k k'" "timers_safe t k k'"
    "error_of k' t \<in> {error_of k t, RT_EOK, - RT_ETIMEOUT, - RT_ERROR}"
    "\<And>h. wait_head h \<Longrightarrow> (\<forall>o1 \<in> C. h \<notin> heads_of o1) \<Longrightarrow> lists k' h = lists k h"
  shows "effect t C k k'"
  using assms others_kept_core [OF assms(3,7)] by (simp add: effect_def core_only_frame [OF assms(3)])

lemma effect_error:
  assumes "kinv 0 k" "current_ready k" "e \<in> {RT_EOK, - RT_ETIMEOUT, - RT_ERROR}"
  shows "effect t C k (set_error t e k)"
proof (rule effect_core)
  show "kinv 0 (set_error t e k)" by (rule set_error_kinv [OF assms(1)])
  show "core_only k (set_error t e k)" by (rule core_only_steps)
  show "timers_safe t k (set_error t e k)" by (rule timers_safe_eq) (simp_all add: set_error_def)
qed (use assms in \<open>auto simp: current_ready_def threads_kept_def in_lists_def\<close>)

lemma effect_table:
  assumes "kinv 0 k'" "current_ready k" "threads k' = threads k" "lists k' = lists k"
    "current_thread k' = current_thread k" "scheduler_lock_nest k' = scheduler_lock_nest k"
    "interrupt_nest k' = interrupt_nest k" "tick k' = tick k" "timers k' = timers k"
    "timer_list k' = timer_list k" "others_kept C k k'"
  shows "effect t C k k'"
proof -
  have "threads_kept t k k'" by (rule threads_kept_eq) (simp_all add: assms(3,4) in_lists_def)
  moreover have "current_ready k'" using assms(2) by (simp add: current_ready_def assms(3,5) stat_of_def)
  ultimately show ?thesis using assms timers_safe_eq by (simp add: effect_def)
qed

lemma effect_upd:
  assumes "kinv 0 k" "current_ready k"
  shows "effect t {OSem s} k (upd_sem s f1 k)" "effect t {OMutex m} k (upd_mutex m f2 k)"
    "effect t {OEvent e} k (upd_event e f3 k)" "effect t {OMb m} k (upd_mb m f4 k)"
    "effect t {OMq m} k (upd_mq m f5 k)"
proof -
  show "effect t {OSem s} k (upd_sem s f1 k)"
    by (rule effect_table [OF upd_sem_kinv [OF assms(1)] assms(2)])
      (simp_all add: upd_sem_def others_kept_def)
  show "effect t {OMutex m} k (upd_mutex m f2 k)"
    by (rule effect_table [OF upd_mutex_kinv [OF assms(1)] assms(2)])
      (simp_all add: upd_mutex_def others_kept_def)
  show "effect t {OEvent e} k (upd_event e f3 k)"
    by (rule effect_table [OF upd_event_kinv [OF assms(1)] assms(2)])
      (simp_all add: upd_event_def others_kept_def)
  show "effect t {OMb m} k (upd_mb m f4 k)"
    by (rule effect_table [OF upd_mb_kinv [OF assms(1)] assms(2)])
      (simp_all add: upd_mb_def others_kept_def)
  show "effect t {OMq m} k (upd_mq m f5 k)"
    by (rule effect_table [OF upd_mq_kinv [OF assms(1)] assms(2)])
      (simp_all add: upd_mq_def others_kept_def)
qed

lemma effect_schedule:
  assumes inv: "kinv 0 k" and cur: "current_thread k \<noteq> None" and some: "th_ready k u"
    and unl: "scheduler_lock_nest k = 0"
  obtains k' where "rt_schedule k = Some k'" "effect t C k k'" "switch_only k k'" "current_top k'"
proof -
  obtain k' where k': "rt_schedule k = Some k'" "switch_only k k'" "kinv 0 k'" "core_only k k'"
    "current_thread k' \<noteq> None" "scheduler_lock_nest k = 0 \<longrightarrow> current_top k'"
    by (rule schedule_kinv [OF inv some cur])
  note f = switch_only_frame [OF k'(2)]
  have top: "current_top k'" using k'(6) unl by simp
  have "effect t C k k'"
    by (rule effect_core [OF k'(3) _ k'(4)])
      (use top timers_safe_only [OF timers_kept_schedule [OF k'(1)]] in
        \<open>auto simp: current_ready_def current_top_def threads_kept_def f stat_of_def in_lists_def\<close>)
  then show ?thesis using that k' top by blast
qed

lemma effect_wake:
  assumes inv: "kinv 0 k" and cur: "current_ready k" and unl: "scheduler_lock_nest k = 0"
    and h: "wait_head h" "h \<in> heads_of o1"
  obtains k' where "wake_and_schedule h k = Some k'" "effect t {o1} k k'" "core_only k k'"
    "lists k' h = tl (lists k h)" "\<forall>h'. wait_head h' \<longrightarrow> h' \<noteq> h \<longrightarrow> lists k' h' = lists k h'"
    "\<forall>u. th_ready k u \<longrightarrow> th_ready k' u"
    "\<forall>u. th_event_set (threads k' u) = th_event_set (threads k u)"
    "\<forall>u. th_event_info (threads k' u) = th_event_info (threads k u)"
    "\<forall>u. error_of k' u = error_of k u"
proof (cases "lists k h")
  case Nil
  then show ?thesis
    using that [of k] effect_refl [OF inv cur] by (simp add: wake_and_schedule_def)
next
  case (Cons w ws)
  obtain k1 where k1: "rt_ipc_list_resume h k = Some k1" "kinv 0 k1" "th_ready k1 w" "core_only k k1"
    "threads k1 = (threads k)(w := (threads k w)
       \<lparr>th_stat := with_stat RT_THREAD_READY (th_stat (threads k w))\<rparr>)"
    "lists k1 h = ws" "\<forall>h'. wait_head h' \<longrightarrow> h' \<noteq> h \<longrightarrow> lists k1 h' = lists k h'"
    "current_thread k1 = current_thread k"
    by (rule list_resume_spec [OF inv h(1) Cons])
  have s1: "th_ready k1 u" if "th_ready k u" for u
    using that k1(3) by (cases "u = w") (simp_all add: stat_of_def k1(5))
  have c1: "current_ready k1" using cur s1 by (auto simp: current_ready_def k1(8))
  have "timers_kept {w} k k1"
    using k1(1) Cons timers_kept_resume [of w k] by (simp add: rt_ipc_list_resume_def)
  then have p1: "timers_safe t k k1" using k1(3) by (rule timers_safe_woken)
  have "th_suspended k1 u \<Longrightarrow> th_suspended k u" for u
    using k1(3) by (cases "u = w") (simp_all add: stat_of_def k1(5))
  moreover have "in_lists k1 u = in_lists k u" if "th_suspended k1 u" for u
  proof -
    have "u \<in> set (lists k1 x) \<longleftrightarrow> u \<in> set (lists k x)" if "wait_head x" for x
      using that k1(3,6,7) Cons \<open>th_suspended k1 u\<close> by (cases "x = h") auto
    then show ?thesis unfolding in_lists_def by blast
  qed
  moreover have "in_lists k u \<noteq> {}" if "th_suspended k u" "\<not> th_suspended k1 u" for u
  proof -
    have "u = w" using that by (auto simp: stat_of_def k1(5) split: if_splits)
    then show ?thesis using h(1) Cons by (auto simp: in_lists_def)
  qed
  ultimately have "threads_kept t k k1" using s1 by (auto simp: threads_kept_def k1(5))
  then have e1: "effect t {o1} k k1"
    by (intro effect_core [OF k1(2) c1 k1(4) _ p1]) (use k1(7) h in \<open>auto simp: k1(5)\<close>)
  have pre: "current_thread k1 \<noteq> None" "scheduler_lock_nest k1 = 0"
    using c1 unl by (auto simp: current_ready_def core_only_frame [OF k1(4)])
  obtain k' where k': "rt_schedule k1 = Some k'" "effect t {o1} k1 k'" "switch_only k1 k'" "current_top k'"
    by (rule effect_schedule [OF k1(2) pre(1) k1(3) pre(2)])
  note f = switch_only_frame [OF k'(3)]
  show ?thesis
  proof (rule that [of k'])
    show "wake_and_schedule h k = Some k'" using Cons k1(1) k'(1) by (simp add: wake_and_schedule_def)
    show "effect t {o1} k k'" by (rule effect_trans [OF e1 k'(2)])
    show "core_only k k'" by (rule core_only_trans [OF k1(4) switch_only_core [OF k'(3)]])
    show "\<forall>u. th_ready k u \<longrightarrow> th_ready k' u" using s1 by (simp add: stat_of_def f)
  qed (use k1 Cons in \<open>simp_all add: f\<close>)
qed

text \<open>Suspending the caller.\<close>

lemma effect_block:
  assumes m: "may_block k t" and h: "wait_head h" "h \<in> heads_of o1" and flag: "flag_ok flag"
    and time: "time < 0x7fffffff"
  obtains k' where "suspend_current h flag time t k = Some k'" "effect t {o1} k k'" "core_only k k'"
    "th_suspended k' t" "current_thread k' \<noteq> Some t"
    "lists k' h = wait_insert flag k t (lists k h)"
    "\<forall>h'. wait_head h' \<longrightarrow> h' \<noteq> h \<longrightarrow> lists k' h' = lists k h'"
    "\<forall>u. error_of k' u = error_of k u" "\<forall>u. waits_for k' u = waits_for k u"
    "\<forall>u. info_of k' u = info_of k u" "\<forall>u. prio_of k' u = prio_of k u"
proof -
  have pre: "kinv 0 k" "current_thread k = Some t" "th_ready k t" "scheduler_lock_nest k = 0"
    using m by (simp_all add: may_block_def)
  obtain u where u: "th_ready k u" "u \<noteq> t" using m by (auto simp: may_block_def)
  obtain k' where k': "suspend_current h flag time t k = Some k'" "kinv 0 k'" "current_top k'"
    "current_thread k' \<noteq> Some t" "core_only k k'" "th_suspended k' t"
    "threads k' = (threads k)(t := (threads k t)
       \<lparr>th_stat := with_stat RT_THREAD_SUSPEND (th_stat (threads k t))\<rparr>)"
    "lists k' h = wait_insert flag k t (lists k h)"
    "\<forall>h'. wait_head h' \<longrightarrow> h' \<noteq> h \<longrightarrow> lists k' h' = lists k h'"
    by (rule suspend_current_spec [OF pre(1-3) u pre(4) h(1) flag time])
  have "threads_kept t k k'"
    by (rule threads_kept_eq [OF _ in_lists_insert [OF k'(8) _ k'(9)]]) (simp_all add: k'(7))
  moreover have "current_ready k'" using k'(3) by (auto simp: current_ready_def current_top_def)
  ultimately have "effect t {o1} k k'"
    by (intro effect_core [OF k'(2) _ k'(5)] timers_safe_only [OF timers_kept_suspend_current [OF k'(1)]])
      (use k'(9) h in \<open>auto simp: k'(7)\<close>)
  then show ?thesis
    using k' by (intro that [of k']) simp_all
qed

lemma effect_priority:
  assumes inv: "kinv 0 k" and cur: "current_ready k" and p: "p < RT_THREAD_PRIORITY_MAX"
  shows "effect t C k (change_priority u p k)"
proof -
  note c = change_priority_kinv [OF inv p, where t = u]
  have th: "error_of (change_priority u p k) v = error_of k v"
    "waits_for (change_priority u p k) v = waits_for k v"
    "info_of (change_priority u p k) v = info_of k v" for v
    by (simp_all add: change_priority_def Let_def)
  show ?thesis
  proof (rule effect_core [OF c(1) _ c(3) _ timers_safe_only [OF timers_kept_priority]])
    show "current_ready (change_priority u p k)" using cur by (simp add: current_ready_def c(2,5))
    have "lists (change_priority u p k) h = lists k h" if "wait_head h" for h
      using that wait_head_not_ready by (intro c(7)) blast
    then have "in_lists (change_priority u p k) v = in_lists k v" for v by (rule in_lists_eq)
    then show "threads_kept t k (change_priority u p k)" by (simp add: threads_kept_def c(5) th)
    show "lists (change_priority u p k) h = lists k h" if "wait_head h" for h
      using that wait_head_not_ready by (intro c(7)) blast
  qed (simp add: th)
qed

section \<open>Semaphores\<close>

text \<open>The state in which the running thread \<open>t\<close>, not the idle one, makes a call.\<close>

lemma may_block_ready: "may_block k t \<Longrightarrow> kinv 0 k \<and> current_ready k \<and> scheduler_lock_nest k = 0 \<and>
    interrupt_nest k = 0 \<and> current_thread k = Some t \<and> th_ready k t"
  by (auto simp: may_block_def current_ready_def)

lemma may_block_ctx: "may_block k t \<Longrightarrow> in_thread_context k \<and> rt_thread_self k = Some t"
  by (auto simp: may_block_def in_thread_context_def rt_thread_self_def)

text \<open>The result of a call by \<open>t\<close> that may wait in the list \<open>h\<close>.\<close>

definition stops :: "nat \<Rightarrow> lhead \<Rightarrow> outcome \<Rightarrow> kernel \<Rightarrow> bool" where
  "stops t h r k \<longleftrightarrow>
     (if r = Blocked then th_suspended k t \<and> t \<in> set (lists k h) \<and> error_of k t = RT_EOK
      else th_ready k t)"

lemma stops_simps [simp]:
  "stops t h Blocked k \<longleftrightarrow> th_suspended k t \<and> t \<in> set (lists k h) \<and> error_of k t = RT_EOK"
  "stops t h (Returned e) k = th_ready k t"
  by (simp_all add: stops_def)

lemma sem_take_effect:
  assumes m: "may_block k t" and ok: "sem_ok k s" and time: "time < 0x7fffffff"
  obtains r k' where "rt_sem_take s time k = Some (r, k')" "effect t {OSem s} k k'" "sem_ok k' s"
    "stops t (LSem s) r k'"
    "r = Returned RT_EOK \<longrightarrow> 0 < sem_value (sems k s) \<and> sem_value (sems k' s) = sem_value (sems k s) - 1"
    "r \<noteq> Returned RT_EOK \<longrightarrow> sems k' = sems k"
    "r = Blocked \<longrightarrow> set (lists k' (LSem s)) = insert t (set (lists k (LSem s))) \<and> error_of k' t = RT_EOK"
    "r \<noteq> Blocked \<longrightarrow> lists k' (LSem s) = lists k (LSem s)"
proof -
  note b = may_block_ready [OF m] and c = may_block_ctx [OF m]
  consider "0 < sem_value (sems k s)" | "sem_value (sems k s) = 0" "time = 0"
    | "sem_value (sems k s) = 0" "time \<noteq> 0" by (auto simp: word_gt_0)
  then show ?thesis
  proof cases
    case 1
    let ?k = "upd_sem s (\<lambda>sm. sm\<lparr>sem_value := sem_value sm - 1\<rparr>) k"
    have r: "rt_sem_take s time k = Some (Returned RT_EOK, ?k)" using 1 by (simp add: rt_sem_take_def)
    have e: "effect t {OSem s} k ?k" using b by (intro effect_upd) auto
    show ?thesis by (rule that [OF r e]) (use 1 ok b in \<open>simp_all add: sem_ok_def stat_of_def\<close>)
  next
    case 2
    have r: "rt_sem_take s time k = Some (Returned (- RT_ETIMEOUT), k)"
      using 2 by (simp add: rt_sem_take_def)
    have e: "effect t {OSem s} k k" using b by (intro effect_refl) auto
    show ?thesis by (rule that [OF r e]) (use ok b in \<open>simp_all add: rt_err_simps\<close>)
  next
    case 3
    let ?k1 = "set_error t RT_EOK k"
    have m1: "may_block ?k1 t" by (rule may_block_set_error [OF m])
    have e1: "effect t {OSem s} k ?k1" using b by (intro effect_error) auto
    have fl: "flag_ok (sem_flag (sems k s))" using ok by (simp add: sem_ok_def)
    have h: "wait_head (LSem s)" "LSem s \<in> heads_of (OSem s)" by simp_all
    obtain k' where k': "suspend_current (LSem s) (sem_flag (sems k s)) time t ?k1 = Some k'"
      "effect t {OSem s} ?k1 k'" "core_only ?k1 k'" "th_suspended k' t" "current_thread k' \<noteq> Some t"
      "lists k' (LSem s) = wait_insert (sem_flag (sems k s)) ?k1 t (lists ?k1 (LSem s))"
      "\<forall>h'. wait_head h' \<longrightarrow> h' \<noteq> LSem s \<longrightarrow> lists k' h' = lists ?k1 h'"
      "\<forall>u. error_of k' u = error_of ?k1 u"
      by (rule effect_block [OF m1 h fl time])
    have r: "rt_sem_take s time k = Some (Blocked, k')"
      using 3 c k'(1,5) by (simp add: rt_sem_take_def after_schedule_def)
    have e: "effect t {OSem s} k k'" by (rule effect_trans [OF e1 k'(2)])
    have s: "sems k' = sems k" by (simp add: core_only_frame [OF k'(3)])
    show ?thesis
      by (rule that [OF r e]) (use 3 ok k' in \<open>simp_all add: s sem_ok_def\<close>)
  qed
qed

lemma sem_release_effect:
  assumes m: "may_block k t" and ok: "sem_ok k s"
  obtains k' where "rt_sem_release s k = Some k'" "effect t {OSem s} k k'" "sem_ok k' s" "th_ready k' t"
    "lists k (LSem s) = [] \<longrightarrow> lists k' (LSem s) = [] \<and>
       sem_value (sems k' s) = sem_value (sems k s) + 1"
    "lists k (LSem s) \<noteq> [] \<longrightarrow> lists k' (LSem s) = tl (lists k (LSem s)) \<and> sems k' = sems k"
    "\<forall>u. error_of k' u = error_of k u"
proof (cases "lists k (LSem s) = []")
  case True
  note b = may_block_ready [OF m]
  let ?k = "upd_sem s (\<lambda>sm. sm\<lparr>sem_value := sem_value sm + 1\<rparr>) k"
  have r: "rt_sem_release s k = Some ?k" using True by (simp add: rt_sem_release_def)
  have e: "effect t {OSem s} k ?k" using b by (intro effect_upd) auto
  show ?thesis by (rule that [OF r e]) (use True ok b in \<open>simp_all add: sem_ok_def stat_of_def\<close>)
next
  case False
  note b = may_block_ready [OF m]
  have h: "wait_head (LSem s)" "LSem s \<in> heads_of (OSem s)" by simp_all
  have pre: "kinv 0 k" "current_ready k" "scheduler_lock_nest k = 0" using b by auto
  obtain k' where k': "wake_and_schedule (LSem s) k = Some k'" "effect t {OSem s} k k'" "core_only k k'"
    "lists k' (LSem s) = tl (lists k (LSem s))"
    "\<forall>h'. wait_head h' \<longrightarrow> h' \<noteq> LSem s \<longrightarrow> lists k' h' = lists k h'"
    "\<forall>u. th_ready k u \<longrightarrow> th_ready k' u"
    "\<forall>u. th_event_set (threads k' u) = th_event_set (threads k u)"
    "\<forall>u. th_event_info (threads k' u) = th_event_info (threads k u)"
    "\<forall>u. error_of k' u = error_of k u"
    by (rule effect_wake [OF pre h, where t = t])
  have r: "rt_sem_release s k = Some k'"
    using False k'(1) by (simp add: rt_sem_release_def wake_and_schedule_def)
  have s: "sems k' = sems k" by (simp add: core_only_frame [OF k'(3)])
  show ?thesis
    by (rule that [OF r k'(2)]) (use False ok k' b in \<open>auto simp: s sem_ok_def\<close>)
qed

section \<open>Mutexes\<close>

lemma inherit_effect:
  assumes inv: "kinv 0 k" and cur: "current_ready k" and ow: "mtx_owner (mutexes k m) = Some ow"
    and ne: "ow \<noteq> t"
  obtains k' where "inherit_priority m t k = Some k'" "effect a C k k'" "core_only k k'"
    "current_thread k' = current_thread k" "\<forall>u. stat_of k' u = stat_of k u"
    "\<forall>h. wait_head h \<longrightarrow> lists k' h = lists k h" "\<forall>u. error_of k' u = error_of k u"
proof -
  have p: "prio_of k t < RT_THREAD_PRIORITY_MAX"
    using inv by (simp add: kinv_def sched_inv_def mask_ok_def)
  obtain k' where k': "inherit_priority m t k = Some k'" "kinv 0 k'" "core_only k k'"
    "current_thread k' = current_thread k" "\<forall>u. stat_of k' u = stat_of k u"
    "\<forall>u. prio_of k' u = (if u = ow then min (prio_of k ow) (prio_of k t) else prio_of k u)"
    "\<forall>h. wait_head h \<longrightarrow> lists k' h = lists k h"
    by (rule inherit_priority_spec [OF inv ow ne])
  have c: "k' = k \<or> k' = change_priority ow (prio_of k t) k"
    using k'(1) ow p by (auto simp: inherit_priority_def rt_thread_control_def split: if_splits)
  then have "effect a C k k'" using effect_refl [OF inv cur] effect_priority [OF inv cur p] by metis
  moreover have "\<forall>u. error_of k' u = error_of k u"
    using c by (auto simp: change_priority_def Let_def)
  ultimately show ?thesis using that k' by blast
qed

lemma restore_effect:
  assumes inv: "kinv 0 k" and cur: "current_ready k"
    and p: "mtx_original_priority (mutexes k m) < RT_THREAD_PRIORITY_MAX"
  obtains k' where "restore_priority m t k = Some k'" "effect a C k k'" "core_only k k'"
    "current_thread k' = current_thread k" "\<forall>u. stat_of k' u = stat_of k u"
    "\<forall>h. wait_head h \<longrightarrow> lists k' h = lists k h"
proof -
  obtain k' where k': "restore_priority m t k = Some k'" "kinv 0 k'" "core_only k k'"
    "current_thread k' = current_thread k" "\<forall>u. stat_of k' u = stat_of k u"
    "\<forall>u. prio_of k' u = (if u = t then mtx_original_priority (mutexes k m) else prio_of k u)"
    "\<forall>h. wait_head h \<longrightarrow> lists k' h = lists k h"
    by (rule restore_priority_spec [OF inv p])
  have "k' = k \<or> k' = change_priority t (mtx_original_priority (mutexes k m)) k"
    using k'(1) p by (auto simp: restore_priority_def rt_thread_control_def Let_def split: if_splits)
  then have "effect a C k k'" using effect_refl [OF inv cur] effect_priority [OF inv cur p] by metis
  then show ?thesis using that k' by blast
qed

lemma mutex_take_effect:
  assumes m: "may_block k t" and ok: "mutex_ok k x" and hold: "mtx_hold (mutexes k x) \<noteq> 0xff"
    and time: "time < 0x7fffffff"
  obtains r k' where "rt_mutex_take x time k = Some (r, k')" "effect t {OMutex x} k k'"
    "mutex_ok k' x" "stops t (LMutex x) r k'"
    "r = Returned RT_EOK \<longrightarrow> mtx_owner (mutexes k x) \<in> {None, Some t} \<and>
       mtx_owner (mutexes k' x) = Some t \<and> mtx_hold (mutexes k' x) = mtx_hold (mutexes k x) + 1"
    "r \<noteq> Returned RT_EOK \<longrightarrow> mutexes k' = mutexes k"
    "r = Blocked \<longrightarrow> set (lists k' (LMutex x)) = insert t (set (lists k (LMutex x))) \<and>
       error_of k' t = RT_EOK"
    "r \<noteq> Blocked \<longrightarrow> lists k' (LMutex x) = lists k (LMutex x)"
proof -
  note b = may_block_ready [OF m] and c = may_block_ctx [OF m]
  let ?k1 = "set_error t RT_EOK k"
  have m1: "may_block ?k1 t" by (rule may_block_set_error [OF m])
  note b1 = may_block_ready [OF m1]
  have e1: "effect t {OMutex x} k ?k1" using b by (intro effect_error) auto
  have pr: "prio_of k t < RT_THREAD_PRIORITY_MAX"
    using b by (simp add: kinv_def sched_inv_def mask_ok_def)
  have up: "effect t {OMutex x} k (upd_mutex x f ?k1)" for f
    by (rule effect_trans [OF e1 effect_upd(2)]) (use b1 in auto)
  show ?thesis
  proof (cases "mtx_owner (mutexes k x)")
    case None
    let ?k2 = "upd_mutex x (\<lambda>mx. mx\<lparr>mtx_value := mtx_value mx - 1, mtx_owner := Some t,
      mtx_original_priority := prio_of ?k1 t, mtx_hold := mtx_hold mx + 1\<rparr>) ?k1"
    have "rt_mutex_take x time k = Some (Returned RT_EOK, ?k2)"
      using ok None c by (simp add: mutex_ok_def rt_mutex_take_def rt_mutex_take_again.simps)
    from that [OF this up] show ?thesis
      using ok None pr b by (simp add: mutex_ok_def)
  next
    case (Some ow)
    note os = owned_simps [OF ok Some]
    show ?thesis
    proof (cases "ow = t")
      case True
      let ?k2 = "upd_mutex x (\<lambda>mx. mx\<lparr>mtx_hold := mtx_hold mx + 1\<rparr>) ?k1"
      have "rt_mutex_take x time k = Some (Returned RT_EOK, ?k2)"
        using Some True c by (simp add: rt_mutex_take_def)
      from that [OF this up] show ?thesis
        using ok Some True hold_not_zero [OF hold] b by (simp add: mutex_ok_def)
    next
      case ne: False
      show ?thesis
      proof (cases "time = 0")
        case True
        let ?k2 = "set_error t (- RT_ETIMEOUT) ?k1"
        have "rt_mutex_take x time k = Some (Returned (- RT_ETIMEOUT), ?k2)"
          using Some ne os True c by (simp add: rt_mutex_take_def rt_mutex_take_again.simps)
        moreover have "effect t {OMutex x} k ?k2"
          by (rule effect_trans [OF e1 effect_error]) (use b1 in auto)
        ultimately show ?thesis
          by (rule that) (use ok b in \<open>simp_all add: mutex_ok_def rt_err_simps split: option.splits\<close>)
      next
        case False
        have ow1: "mtx_owner (mutexes ?k1 x) = Some ow" using Some by simp
        have pre1: "kinv 0 ?k1" "current_ready ?k1" using b1 by auto
        obtain k2 where k2: "inherit_priority x t ?k1 = Some k2" "effect t {OMutex x} ?k1 k2"
          "core_only ?k1 k2" "current_thread k2 = current_thread ?k1" "\<forall>u. stat_of k2 u = stat_of ?k1 u"
          "\<forall>h. wait_head h \<longrightarrow> lists k2 h = lists ?k1 h" "\<forall>u. error_of k2 u = error_of ?k1 u"
          by (rule inherit_effect [OF pre1 ow1 ne, where a = t])
        note f2 = core_only_frame [OF k2(3)]
        have m2: "may_block k2 t" using m1 k2(2) by (auto simp: may_block_def k2(4,5) f2 effect_def)
        have fl: "flag_ok (mtx_flag (mutexes k2 x))" using os by (simp add: f2)
        have h: "wait_head (LMutex x)" "LMutex x \<in> heads_of (OMutex x)" by simp_all
        obtain k' where k': "suspend_current (LMutex x) (mtx_flag (mutexes k2 x)) time t k2 = Some k'"
          "effect t {OMutex x} k2 k'" "core_only k2 k'" "th_suspended k' t" "current_thread k' \<noteq> Some t"
          "lists k' (LMutex x) = wait_insert (mtx_flag (mutexes k2 x)) k2 t (lists k2 (LMutex x))"
          "\<forall>h'. wait_head h' \<longrightarrow> h' \<noteq> LMutex x \<longrightarrow> lists k' h' = lists k2 h'"
          "\<forall>u. error_of k' u = error_of k2 u"
          by (rule effect_block [OF m2 h fl time])
        have "rt_mutex_take_again x time t ?k1 = Some (Blocked, k')"
          using os(1) False k2(1) k'(1,5) by (subst rt_mutex_take_again.simps) simp
        then have r: "rt_mutex_take x time k = Some (Blocked, k')"
          using c Some ne by (simp add: rt_mutex_take_def)
        have e: "effect t {OMutex x} k k'" by (rule effect_trans [OF effect_trans [OF e1 k2(2)] k'(2)])
        have mx: "mutexes k' = mutexes k" by (simp add: core_only_frame [OF k'(3)] f2)
        have l: "set (lists k' (LMutex x)) = insert t (set (lists k (LMutex x)))"
          using k2(6) by (simp add: k'(6))
        show ?thesis
          by (rule that [OF r e]) (use Some ne ok k'(4,8) k2(7) l in \<open>simp_all add: mx mutex_ok_def\<close>)
      qed
    qed
  qed
qed

lemma mutex_release_effect:
  assumes m: "may_block k t" and ok: "mutex_ok k x"
  obtains e k' where "rt_mutex_release x k = Some (e, k')" "effect t {OMutex x} k k'"
    "mutex_ok k' x" "th_ready k' t"
    "e \<noteq> RT_EOK \<longrightarrow> mutexes k' = mutexes k \<and> mtx_owner (mutexes k x) \<noteq> Some t \<and>
       lists k' = lists k"
    "e = RT_EOK \<longrightarrow> mtx_owner (mutexes k x) = Some t \<and>
       (if mtx_hold (mutexes k x) \<noteq> 1
        then mtx_owner (mutexes k' x) = Some t \<and> mtx_hold (mutexes k' x) = mtx_hold (mutexes k x) - 1 \<and>
          lists k' (LMutex x) = lists k (LMutex x)
        else lists k' (LMutex x) = tl (lists k (LMutex x)) \<and>
          (case lists k (LMutex x) of [] \<Rightarrow> mtx_owner (mutexes k' x) = None
           | w # ws \<Rightarrow> mtx_owner (mutexes k' x) = Some w \<and> mtx_hold (mutexes k' x) = 1))"
proof -
  note b = may_block_ready [OF m] and c = may_block_ctx [OF m]
  have pre: "kinv 0 k" "current_thread k = Some t" "th_ready k t" "scheduler_lock_nest k = 0"
    "interrupt_nest k = 0" "current_ready k" using b by auto
  consider "mtx_owner (mutexes k x) \<noteq> Some t"
    | "mtx_owner (mutexes k x) = Some t" "mtx_hold (mutexes k x) \<noteq> 1"
    | "mtx_owner (mutexes k x) = Some t" "mtx_hold (mutexes k x) = 1" by blast
  then show ?thesis
  proof cases
    case 1
    let ?k = "set_error t (- RT_ERROR) k"
    have "rt_mutex_release x k = Some (- RT_ERROR, ?k)" using 1 c by (simp add: rt_mutex_release_def)
    moreover have "effect t {OMutex x} k ?k" using pre by (intro effect_error) auto
    ultimately show ?thesis
      by (rule that) (use 1 ok pre in \<open>simp_all add: mutex_ok_def rt_err_simps split: option.splits\<close>)
  next
    case 2
    note os = owned_simps [OF ok 2(1)]
    let ?k = "upd_mutex x (\<lambda>mx. mx\<lparr>mtx_hold := mtx_hold mx - 1\<rparr>) k"
    have "mtx_hold (mutexes k x) - 1 \<noteq> 0" using 2 by simp
    then have "mutex_ok ?k x" using 2 os by (simp add: mutex_ok_def)
    moreover have "rt_mutex_release x k = Some (RT_EOK, ?k)"
      using 2 c by (simp add: rt_mutex_release_def)
    moreover have "effect t {OMutex x} k ?k" using pre by (intro effect_upd)
    ultimately show ?thesis using that 2 pre(3) by simp
  next
    case 3
    note os = owned_simps [OF ok 3(1)]
    obtain k' where k': "rt_mutex_release x k = Some (RT_EOK, k')" "kinv 0 k'" "mutex_ok k' x"
      by (rule mutex_last_release [OF pre(1-5) ok 3])
    let ?k1 = "upd_mutex x (\<lambda>mx. mx\<lparr>mtx_hold := mtx_hold mx - 1\<rparr>) k"
    have e1: "effect t {OMutex x} k ?k1" using pre by (intro effect_upd)
    then have pre1: "kinv 0 ?k1" "current_ready ?k1" by (simp_all add: effect_def)
    have p1: "mtx_original_priority (mutexes ?k1 x) < RT_THREAD_PRIORITY_MAX" using os by simp
    obtain k2 where k2: "restore_priority x t ?k1 = Some k2" "effect t {OMutex x} ?k1 k2"
      "core_only ?k1 k2" "current_thread k2 = current_thread ?k1" "\<forall>u. stat_of k2 u = stat_of ?k1 u"
      "\<forall>h. wait_head h \<longrightarrow> lists k2 h = lists ?k1 h"
      by (rule restore_effect [OF pre1 p1, where a = t and C = "{OMutex x}"])
    have e2: "effect t {OMutex x} k k2" by (rule effect_trans [OF e1 k2(2)])
    have r2: "th_ready k2 t" using k2(5) pre(3) by (simp add: stat_of_def)
    show ?thesis
    proof (cases "lists k (LMutex x)")
      case Nil
      let ?k3 = "upd_mutex x (\<lambda>mx. mx\<lparr>mtx_value := mtx_value mx + 1, mtx_owner := None,
        mtx_original_priority := 0xff\<rparr>) k2"
      have "rt_mutex_release x k = Some (RT_EOK, ?k3)"
        using c 3 Nil k2(1,6) by (simp add: rt_mutex_release_def hand_over_def)
      then have eq: "k' = ?k3" using k'(1) by simp
      have "effect t {OMutex x} k2 ?k3" using e2 by (intro effect_upd) (simp_all add: effect_def)
      then have "effect t {OMutex x} k k'" unfolding eq by (rule effect_trans [OF e2])
      then show ?thesis
        by (rule that [OF k'(1) _ k'(3)]) (use r2 3 k2(6) Nil in \<open>simp_all add: eq\<close>)
    next
      case (Cons w ws)
      let ?k3 = "upd_mutex x (\<lambda>mx. mx\<lparr>mtx_owner := Some w, mtx_original_priority := prio_of k2 w,
        mtx_hold := mtx_hold mx + 1\<rparr>) k2"
      have e3: "effect t {OMutex x} k2 ?k3" using e2 by (intro effect_upd) (simp_all add: effect_def)
      have pre3: "kinv 0 ?k3" "current_ready ?k3" "scheduler_lock_nest ?k3 = 0"
        using e3 e2 pre by (simp_all add: effect_def)
      have h: "wait_head (LMutex x)" "LMutex x \<in> heads_of (OMutex x)" by simp_all
      obtain k4 where k4: "wake_and_schedule (LMutex x) ?k3 = Some k4" "effect t {OMutex x} ?k3 k4"
        "core_only ?k3 k4" "lists k4 (LMutex x) = tl (lists ?k3 (LMutex x))"
        "\<forall>h'. wait_head h' \<longrightarrow> h' \<noteq> LMutex x \<longrightarrow> lists k4 h' = lists ?k3 h'"
        "\<forall>u. th_ready ?k3 u \<longrightarrow> th_ready k4 u"
        by (rule effect_wake [OF pre3 h, where t = t])
      have l2: "lists k2 (LMutex x) = w # ws" using k2(6) Cons by simp
      have "rt_mutex_release x k = Some (RT_EOK, k4)"
        using c 3 l2 k2(1) k4(1)
        by (auto simp: rt_mutex_release_def hand_over_def wake_and_schedule_def split: bind_splits)
      then have eq: "k' = k4" using k'(1) by simp
      have "effect t {OMutex x} k k'" unfolding eq by (rule effect_trans [OF effect_trans [OF e2 e3] k4(2)])
      then show ?thesis
        by (rule that [OF k'(1) _ k'(3)])
          (use k4(4,6) r2 3 l2 Cons in
            \<open>simp_all add: eq core_only_frame [OF k4(3)] core_only_frame [OF k2(3)]\<close>)
    qed
  qed
qed

end
