(* ===== verification/KCalls.thy ===== *)
theory KCalls
  imports KEffect
begin

text \<open>
  The effects of the other calls: events, mailboxes, message queues, sleeping and yielding,
  and the tick interrupt.
\<close>

section \<open>Events\<close>

text \<open>One waiting thread \<open>u\<close> of the loop of \<^verbatim>\<open>rt_event_send\<close> whose condition holds.\<close>

lemma event_wake_effect:
  assumes inv: "kinv 0 k" and cur: "current_ready k" and l: "lists k (LEvent e) = pre @ u # ts"
    and match: "event_match (info_of k u) (waits_for k u) (ev_set (events k e)) = Some got"
  defines "k1 \<equiv> upd_thread u (\<lambda>th. th\<lparr>th_event_set := got\<rparr>) k"
  defines "k2 \<equiv> (if info_of k u AND RT_EVENT_FLAG_CLEAR \<noteq> 0
                  then upd_event e (\<lambda>ev. ev\<lparr>ev_set := ev_set ev AND NOT got\<rparr>) k1 else k1)"
  defines "k3 \<equiv> snd (rt_thread_resume u k2)"
  shows "event_send_loop e (u # ts) need k = event_send_loop e ts True k3"
    "effect t {OEvent e} k k3" "\<forall>v. th_ready k v \<longrightarrow> th_ready k3 v"
    "\<forall>v. error_of k3 v = error_of k v" "lists k3 (LEvent e) = pre @ ts" "th_ready k3 u"
proof -
  have si: "sched_inv {} k1"
    unfolding k1_def by (rule upd_same_stat) (use inv in \<open>simp_all add: kinv_def\<close>)
  have "timer_inv 0 k1"
    by (rule timer_inv_cong [of 0 k]) (use inv in \<open>auto simp: kinv_def k1_def stat_of_def\<close>)
  then have "kinv 0 k1" using si by (simp add: kinv_def)
  then have inv2: "kinv 0 k2" using upd_event_kinv by (simp add: k2_def)
  have th2: "threads k2 = (threads k)(u := (threads k u)\<lparr>th_event_set := got\<rparr>)"
    "lists k2 = lists k" "current_thread k2 = current_thread k"
    by (simp_all add: k2_def k1_def)
  have "th_suspended k u" by (rule waiting_suspended [OF inv, of "LEvent e"]) (use l in simp_all)
  then have sus: "th_suspended k2 u" and sus0: "th_suspended k u" by (simp_all add: stat_of_def th2)
  note r = resume_spec [OF inv2 sus, folded k3_def]
  have d: "distinct (pre @ u # ts)" using inv l unfolding kinv_def sched_inv_def links_ok_def by metis
  have out: "u \<notin> set (lists k h)" if "h \<noteq> LEvent e" for h
    using waiting_one_list [OF inv, of u "LEvent e" h] that l by auto
  show "event_send_loop e (u # ts) need k = event_send_loop e ts True k3"
    using match by (simp add: k3_def k2_def k1_def Let_def)
  show "lists k3 (LEvent e) = pre @ ts" using d by (simp add: r(4) th2 l)
  show "th_ready k3 u" by (rule r(3))
  have st: "stat_of k3 v = (if v = u then RT_THREAD_READY else stat_of k v)" for v
    using r(3) by (simp add: stat_of_def r(5) th2)
  show ready: "\<forall>v. th_ready k v \<longrightarrow> th_ready k3 v" by (simp add: st)
  show "\<forall>v. error_of k3 v = error_of k v" by (simp add: r(5) th2)
  have cur3: "current_ready k3" using cur ready by (auto simp: current_ready_def r(6) th2)
  have "in_lists k3 v = in_lists k v" if "v \<noteq> u" for v
    using that by (auto simp: in_lists_def r(4) th2)
  moreover have "in_lists k u \<noteq> {}" using l by (auto simp: in_lists_def intro: exI [of _ "LEvent e"])
  ultimately have "threads_kept t k k3" unfolding threads_kept_def st by (simp add: r(5) th2)
  moreover note cur3
  moreover have "timers_kept {u} k k2"
    by (rule timers_kept_eq) (simp_all add: k2_def k1_def upd_event_def)
  then have "timers_kept {u} k k3" unfolding k3_def using timers_kept_resume by (rule timers_kept_trans)
  then have "timers_safe t k k3" using r(3) by (rule timers_safe_woken)
  moreover have "others_kept {OEvent e} k k3"
  proof (rule others_kept_trans)
    show "others_kept {OEvent e} k k2" by (simp add: others_kept_def k2_def k1_def upd_event_def)
    show "others_kept {OEvent e} k2 k3"
      by (rule others_kept_core [OF r(7)]) (use out in \<open>auto simp: r(4) th2\<close>)
  qed
  ultimately show "effect t {OEvent e} k k3"
    using r(2) by (simp add: effect_def r(5) th2 core_only_frame [OF r(7)])
      (simp add: k2_def k1_def upd_event_def)
qed

lemma event_loop_effect:
  assumes "kinv 0 k" "current_ready k" "lists k (LEvent e) = pre @ ts"
  shows "\<exists>need' k'. event_send_loop e ts need k = (need', k') \<and> effect t {OEvent e} k k' \<and>
    (\<forall>v. th_ready k v \<longrightarrow> th_ready k' v) \<and> (\<forall>v. error_of k' v = error_of k v)"
  using assms
proof (induction ts arbitrary: pre need k)
  case Nil
  then show ?case using effect_refl by simp
next
  case (Cons u ts)
  show ?case
  proof (cases "event_match (info_of k u) (waits_for k u) (ev_set (events k e))")
    case None
    have "lists k (LEvent e) = (pre @ [u]) @ ts" using Cons.prems(3) by simp
    from Cons.IH [OF Cons.prems(1,2) this, of need] None show ?thesis by simp
  next
    case (Some got)
    define k3 where "k3 = snd (rt_thread_resume u (if info_of k u AND RT_EVENT_FLAG_CLEAR \<noteq> 0
      then upd_event e (\<lambda>ev. ev\<lparr>ev_set := ev_set ev AND NOT got\<rparr>)
        (upd_thread u (\<lambda>th. th\<lparr>th_event_set := got\<rparr>) k)
      else upd_thread u (\<lambda>th. th\<lparr>th_event_set := got\<rparr>) k))"
    note w = event_wake_effect [OF Cons.prems Some, folded k3_def]
    note wt = w(2) [where t = t]
    have pre3: "kinv 0 k3" "current_ready k3" using wt by (simp_all add: effect_def)
    from Cons.IH [OF pre3 w(5), of True] obtain need' k' where ih:
      "event_send_loop e ts True k3 = (need', k')" "effect t {OEvent e} k3 k'"
      "\<forall>v. th_ready k3 v \<longrightarrow> th_ready k' v" "\<forall>v. error_of k' v = error_of k3 v" by blast
    have "effect t {OEvent e} k k'" by (rule effect_trans [OF wt ih(2)])
    then show ?thesis using w(1,3,4) ih by simp
  qed
qed

lemma event_send_effect:
  assumes m: "may_block k t" and ok: "event_ok k e"
  obtains r k' where "rt_event_send e bits k = Some (r, k')" "effect t {OEvent e} k k'"
    "event_ok k' e" "th_ready k' t"
proof (cases "bits = 0")
  case True
  note b = may_block_ready [OF m]
  have "effect t {OEvent e} k k" using b by (intro effect_refl) auto
  then show ?thesis using that True ok b by (simp add: rt_event_send_def)
next
  case False
  note b = may_block_ready [OF m]
  have pre: "kinv 0 k" "current_ready k" "scheduler_lock_nest k = 0" "current_thread k \<noteq> None" using b by auto
  obtain k' where k': "rt_event_send e bits k = Some (RT_EOK, k')" "kinv 0 k'" "event_ok k' e"
    by (rule event_send_spec [OF pre(1) ok pre(4) False])
  let ?k1 = "upd_event e (\<lambda>ev. ev\<lparr>ev_set := ev_set ev OR bits\<rparr>) k"
  have e1: "effect t {OEvent e} k ?k1" by (rule effect_upd [OF pre(1,2)])
  then have pre1: "kinv 0 ?k1" "current_ready ?k1" by (simp_all add: effect_def)
  have l1: "lists ?k1 (LEvent e) = [] @ lists k (LEvent e)" by simp
  from event_loop_effect [OF pre1 l1, of False t] obtain need k2 where
    k2: "event_send_loop e (lists k (LEvent e)) False ?k1 = (need, k2)" "effect t {OEvent e} ?k1 k2"
      "\<forall>v. th_ready ?k1 v \<longrightarrow> th_ready k2 v" by blast
  have e2: "effect t {OEvent e} k k2" by (rule effect_trans [OF e1 k2(2)])
  have r2: "th_ready k2 t" using k2(3) b by simp
  show ?thesis
  proof (cases need)
    case nn: False
    then have "k' = k2" using k'(1) False k2(1) by (simp add: rt_event_send_def)
    then show ?thesis using that k'(1,3) e2 r2 by simp
  next
    case True
    have pre2: "kinv 0 k2" "current_thread k2 \<noteq> None" "scheduler_lock_nest k2 = 0"
      using e2 pre by (auto simp: effect_def current_ready_def)
    obtain k3 where k3: "rt_schedule k2 = Some k3" "effect t {OEvent e} k2 k3" "switch_only k2 k3"
      by (rule effect_schedule [OF pre2(1,2) r2 pre2(3)])
    have eq: "k' = k3" using k'(1) False True k2(1) k3(1) by (simp add: rt_event_send_def)
    have "effect t {OEvent e} k k'" unfolding eq by (rule effect_trans [OF e2 k3(2)])
    then show ?thesis
      using that k'(1,3) r2 by (simp add: eq stat_of_def switch_only_frame [OF k3(3)])
  qed
qed

lemma event_recv_effect:
  assumes m: "may_block k t" and ok: "event_ok k e" and time: "time < 0x7fffffff"
    and opt: "option AND RT_EVENT_FLAG_AND \<noteq> 0 \<or> option AND RT_EVENT_FLAG_OR \<noteq> 0"
  obtains r got k' where "rt_event_recv e bits option time k = Some (r, got, k')"
    "effect t {OEvent e} k k'" "event_ok k' e" "stops t (LEvent e) r k'"
proof -
  note b = may_block_ready [OF m] and c = may_block_ctx [OF m]
  let ?k1 = "set_error t RT_EOK k" and ?has = "ev_set (events k e)"
  let ?sat = "event_match option bits ?has \<noteq> None"
  have m1: "may_block ?k1 t" by (rule may_block_set_error [OF m])
  note b1 = may_block_ready [OF m1]
  have e1: "effect t {OEvent e} k ?k1" using b by (intro effect_error) auto
  have outw: "t \<notin> set (lists k (LEvent e))" using ready_not_waiting [of 0 k t "LEvent e"] b by auto
  show ?thesis
  proof (cases "bits = 0")
    case True
    have "effect t {OEvent e} k k" using b by (intro effect_refl) auto
    then show ?thesis using that True c ok b by (simp add: rt_event_recv_def)
  next
    case nz: False
    show ?thesis
    proof (cases ?sat)
      case True
      let ?k2 = "if option AND RT_EVENT_FLAG_CLEAR \<noteq> 0
        then upd_event e (\<lambda>ev. ev\<lparr>ev_set := ?has AND NOT bits\<rparr>) ?k1 else ?k1"
      have "rt_event_recv e bits option time k = Some (Returned RT_EOK, Some (?has AND bits), ?k2)"
        using True nz c opt
        by (simp only: rt_event_recv_def Let_def event_match_recv [OF opt] set_error_simps) simp
      moreover have "effect t {OEvent e} k ?k2"
        using e1 effect_trans [OF e1 effect_upd(3)] b1 by auto
      moreover have "event_ok ?k2 e"
      proof -
        have "bits_in (ev_set (events ?k2 e)) ?has" by (auto simp: bits_in_iff bit_simps)
        then show ?thesis using ok event_match_mono by (auto simp: event_ok_def)
      qed
      ultimately show ?thesis using that b by simp
    next
      case uns: False
      show ?thesis
      proof (cases "time = 0")
        case True
        let ?k2 = "set_error t (- RT_ETIMEOUT) ?k1"
        have "rt_event_recv e bits option time k = Some (Returned (- RT_ETIMEOUT), None, ?k2)"
          using True uns nz c opt
          by (simp only: rt_event_recv_def Let_def event_match_recv [OF opt] set_error_simps) simp
        moreover have "effect t {OEvent e} k ?k2"
          by (rule effect_trans [OF e1 effect_error]) (use b1 in auto)
        moreover have "event_ok ?k2 e" using ok by (simp add: event_ok_def)
        ultimately show ?thesis using that b by simp
      next
        case False
        let ?k2 = "upd_thread t (\<lambda>th. th\<lparr>th_event_set := bits, th_event_info := option\<rparr>) ?k1"
        have m2: "may_block ?k2 t" by (rule set_wait_may_block [OF m1])
        have "current_ready ?k2" using may_block_ready [OF m2] by simp
        then have e2: "effect t {OEvent e} ?k1 ?k2"
          by (intro effect_core [OF set_wait_kinv] core_only_steps timers_safe_eq)
            (use b1 in \<open>auto simp: threads_kept_def stat_of_def in_lists_def\<close>)
        have fl: "flag_ok (ev_flag (events k e))" using ok by (simp add: event_ok_def)
        have h: "wait_head (LEvent e)" "LEvent e \<in> heads_of (OEvent e)" by simp_all
        obtain k' where k': "suspend_current (LEvent e) (ev_flag (events k e)) time t ?k2 = Some k'"
          "effect t {OEvent e} ?k2 k'" "core_only ?k2 k'" "th_suspended k' t" "current_thread k' \<noteq> Some t"
          "lists k' (LEvent e) = wait_insert (ev_flag (events k e)) ?k2 t (lists ?k2 (LEvent e))"
          "\<forall>h'. wait_head h' \<longrightarrow> h' \<noteq> LEvent e \<longrightarrow> lists k' h' = lists ?k2 h'"
          "\<forall>u. error_of k' u = error_of ?k2 u" "\<forall>u. waits_for k' u = waits_for ?k2 u"
          "\<forall>u. info_of k' u = info_of ?k2 u"
          by (rule effect_block [OF m2 h fl time])
        have ev: "events k' = events k" by (simp add: core_only_frame [OF k'(3)])
        have "rt_event_recv e bits option time k = Some (Blocked, None, k')"
          using False uns nz c opt k'(1,5)
          by (simp only: rt_event_recv_def Let_def event_match_recv [OF opt] set_error_simps) simp
        moreover have "effect t {OEvent e} k k'"
          by (rule effect_trans [OF effect_trans [OF e1 e2] k'(2)])
        moreover have "event_match option bits ?has = None" using uns by simp
        then have "event_ok k' e"
          using ok nz outw k'(6,9,10) by (auto simp: event_ok_def ev)
        moreover have "stops t (LEvent e) Blocked k'" using k'(4,6,8) by simp
        ultimately show ?thesis by (intro that)
      qed
    qed
  qed
qed

section \<open>Mailboxes\<close>

text \<open>After a put or a get the first thread of the other list is woken.\<close>

lemma mb_wake_effect:
  assumes m: "may_block k t" and h: "wait_head h" "h \<in> heads_of (OMb x)" and ok: "mb_ok b"
  obtains k' where "wake_and_schedule h (upd_mb x (\<lambda>_. b) k) = Some k'" "effect t {OMb x} k k'"
    "mailboxes k' x = b" "th_ready k' t"
proof -
  note c = may_block_ready [OF m]
  let ?k1 = "upd_mb x (\<lambda>_. b) k"
  have e1: "effect t {OMb x} k ?k1" using c by (intro effect_upd) auto
  have pre: "kinv 0 ?k1" "current_ready ?k1" "scheduler_lock_nest ?k1 = 0"
    using e1 c by (simp_all add: effect_def)
  obtain k' where k': "wake_and_schedule h ?k1 = Some k'" "effect t {OMb x} ?k1 k'" "core_only ?k1 k'"
    "lists k' h = tl (lists ?k1 h)" "\<forall>h'. wait_head h' \<longrightarrow> h' \<noteq> h \<longrightarrow> lists k' h' = lists ?k1 h'"
    "\<forall>u. th_ready ?k1 u \<longrightarrow> th_ready k' u"
    by (rule effect_wake [OF pre h, where t = t])
  show ?thesis
    by (rule that [OF k'(1) effect_trans [OF e1 k'(2)]])
      (use k'(6) c in \<open>simp_all add: core_only_frame [OF k'(3)]\<close>)
qed

lemma mb_block_effect:
  assumes m: "may_block k t" and h: "wait_head h" "h \<in> heads_of (OMb x)" and ok: "mb_ok (mailboxes k x)"
    and time: "time < 0x7fffffff"
  obtains k' where
    "suspend_current h (mb_flag (mailboxes k x)) time t (set_error t RT_EOK k) = Some k'"
    "effect t {OMb x} k k'" "mailboxes k' = mailboxes k" "stops t h Blocked k'" "current_thread k' \<noteq> Some t"
proof -
  note b = may_block_ready [OF m]
  let ?k1 = "set_error t RT_EOK k"
  have m1: "may_block ?k1 t" by (rule may_block_set_error [OF m])
  have e1: "effect t {OMb x} k ?k1" using b by (intro effect_error) auto
  have fl: "flag_ok (mb_flag (mailboxes k x))" using ok by (simp add: mb_ok_def)
  obtain k' where k': "suspend_current h (mb_flag (mailboxes k x)) time t ?k1 = Some k'"
    "effect t {OMb x} ?k1 k'" "core_only ?k1 k'" "th_suspended k' t" "current_thread k' \<noteq> Some t"
    "lists k' h = wait_insert (mb_flag (mailboxes k x)) ?k1 t (lists ?k1 h)"
    "\<forall>h'. wait_head h' \<longrightarrow> h' \<noteq> h \<longrightarrow> lists k' h' = lists ?k1 h'"
    "\<forall>u. error_of k' u = error_of ?k1 u"
    by (rule effect_block [OF m1 h fl time])
  show ?thesis
    by (rule that [OF k'(1) effect_trans [OF e1 k'(2)] _ _ k'(5)])
      (use k'(4,6,8) in \<open>simp_all add: core_only_frame [OF k'(3)]\<close>)
qed

lemma mb_send_loop_effect:
  assumes m: "may_block k t" and ok: "mb_ok (mailboxes k x)" and time: "time < 0x7fffffff"
  obtains r k' where "mb_send_loop x v time (Some t) k = Some (r, k')" "effect t {OMb x} k k'"
    "mb_ok (mailboxes k' x)" "stops t (LMbSender x) r k'"
proof -
  note b = may_block_ready [OF m] and c = may_block_ctx [OF m]
  have h: "wait_head (LMb x)" "LMb x \<in> heads_of (OMb x)" "wait_head (LMbSender x)"
    "LMbSender x \<in> heads_of (OMb x)" by simp_all
  consider "mb_entry (mailboxes k x) < mb_size (mailboxes k x)"
    | "mb_entry (mailboxes k x) = mb_size (mailboxes k x)" "time = 0"
    | "mb_entry (mailboxes k x) = mb_size (mailboxes k x)" "time \<noteq> 0"
    using ok unfolding mb_ok_def by linarith
  then show ?thesis
  proof cases
    case 1
    note p = mb_put_spec [OF ok 1]
    obtain k' where k': "wake_and_schedule (LMb x) (upd_mb x (\<lambda>_. mb_put v (mailboxes k x)) k) = Some k'"
      "effect t {OMb x} k k'" "mailboxes k' x = mb_put v (mailboxes k x)" "th_ready k' t"
      by (rule mb_wake_effect [OF m h(1,2) p(1)])
    have "upd_mb x (mb_put v) k = upd_mb x (\<lambda>_. mb_put v (mailboxes k x)) k" by (simp add: upd_mb_def)
    then have "mb_send_loop x v time (Some t) k = Some (Returned RT_EOK, k')"
      using 1 k'(1) by (simp add: mb_send_loop.simps mb_send_end_def)
    from that [OF this k'(2)] show ?thesis using p(1) k'(3,4) by simp
  next
    case 2
    let ?k1 = "set_error t RT_EOK k"
    have "mb_send_loop x v time (Some t) k = Some (Returned (- RT_EFULL), ?k1)"
      using 2 by (simp add: mb_send_loop.simps)
    moreover have "effect t {OMb x} k ?k1" using b by (intro effect_error) auto
    ultimately show ?thesis using that ok b by simp
  next
    case 3
    obtain k' where k': "suspend_current (LMbSender x) (mb_flag (mailboxes k x)) time t
        (set_error t RT_EOK k) = Some k'" "effect t {OMb x} k k'" "mailboxes k' = mailboxes k"
      "stops t (LMbSender x) Blocked k'" "current_thread k' \<noteq> Some t"
      by (rule mb_block_effect [OF m h(3,4) ok time])
    have "mb_send_loop x v time (Some t) k = Some (Blocked, k')"
      using 3 k'(1,5) c by (simp add: mb_send_loop.simps Let_def in_thread_context_def)
    from that [OF this k'(2)] show ?thesis using ok k'(3,4) by simp
  qed
qed

lemma mb_recv_loop_effect:
  assumes m: "may_block k t" and ok: "mb_ok (mailboxes k x)" and time: "time < 0x7fffffff"
  obtains r got k' where "mb_recv_loop x time (Some t) k = Some (r, got, k')" "effect t {OMb x} k k'"
    "mb_ok (mailboxes k' x)" "stops t (LMb x) r k'"
proof -
  note b = may_block_ready [OF m] and c = may_block_ctx [OF m]
  have h: "wait_head (LMb x)" "LMb x \<in> heads_of (OMb x)" "wait_head (LMbSender x)"
    "LMbSender x \<in> heads_of (OMb x)" by simp_all
  consider "0 < mb_entry (mailboxes k x)" | "mb_entry (mailboxes k x) = 0" "time = 0"
    | "mb_entry (mailboxes k x) = 0" "time \<noteq> 0" by blast
  then show ?thesis
  proof cases
    case 1
    obtain bx where g: "mb_get (mailboxes k x) = (hd (mails (mailboxes k x)), bx)" "mb_ok bx"
      by (rule mb_get_spec [OF ok 1])
    obtain k' where k': "wake_and_schedule (LMbSender x) (upd_mb x (\<lambda>_. bx) k) = Some k'"
      "effect t {OMb x} k k'" "mailboxes k' x = bx" "th_ready k' t"
      by (rule mb_wake_effect [OF m h(3,4) g(2)])
    have "mb_recv_loop x time (Some t) k = Some (Returned RT_EOK, Some (hd (mails (mailboxes k x))), k')"
      using 1 g(1) k'(1) by (simp add: mb_recv_loop.simps mb_recv_end_def)
    from that [OF this k'(2)] show ?thesis using g(2) k'(3,4) by simp
  next
    case 2
    let ?k1 = "set_error t RT_EOK k" and ?k2 = "set_error t (- RT_ETIMEOUT) (set_error t RT_EOK k)"
    have "mb_recv_loop x time (Some t) k = Some (Returned (- RT_ETIMEOUT), None, ?k2)"
      using 2 by (simp add: mb_recv_loop.simps)
    moreover have e1: "effect t {OMb x} k ?k1" using b by (intro effect_error) auto
    have "effect t {OMb x} k ?k2"
      by (rule effect_trans [OF e1 effect_error]) (use e1 in \<open>auto simp: effect_def\<close>)
    ultimately show ?thesis using that ok b by simp
  next
    case 3
    obtain k' where k': "suspend_current (LMb x) (mb_flag (mailboxes k x)) time t
        (set_error t RT_EOK k) = Some k'" "effect t {OMb x} k k'" "mailboxes k' = mailboxes k"
      "stops t (LMb x) Blocked k'" "current_thread k' \<noteq> Some t"
      by (rule mb_block_effect [OF m h(1,2) ok time])
    have "mb_recv_loop x time (Some t) k = Some (Blocked, None, k')"
      using 3 k'(1,5) c by (simp add: mb_recv_loop.simps Let_def in_thread_context_def)
    from that [OF this k'(2)] show ?thesis using ok k'(3,4) by simp
  qed
qed

text \<open>The calls, and what they do when the thread runs again.\<close>

lemma mb_send_effect:
  assumes m: "may_block k t" and ok: "mb_ok (mailboxes k x)" and time: "time < 0x7fffffff"
  obtains r k' where "rt_mb_send_wait x v time k = Some (r, k')" "effect t {OMb x} k k'"
    "mb_ok (mailboxes k' x)" "stops t (LMbSender x) r k'"
proof (cases "mb_entry (mailboxes k x) = mb_size (mailboxes k x) \<and> time = 0")
  case True
  note b = may_block_ready [OF m]
  have "effect t {OMb x} k k" using b by (intro effect_refl) auto
  then show ?thesis using that True ok b by (simp add: rt_mb_send_wait_def)
next
  case False
  note c = may_block_ctx [OF m]
  obtain r k' where k': "mb_send_loop x v time (Some t) k = Some (r, k')" "effect t {OMb x} k k'"
    "mb_ok (mailboxes k' x)" "stops t (LMbSender x) r k'" by (rule mb_send_loop_effect [OF m ok time, where v = v])
  have "rt_mb_send_wait x v time k = Some (r, k')"
    using False c k'(1) by (auto simp: rt_mb_send_wait_def)
  from that [OF this k'(2-4)] show ?thesis .
qed

lemma mb_recv_effect:
  assumes m: "may_block k t" and ok: "mb_ok (mailboxes k x)" and time: "time < 0x7fffffff"
  obtains r got k' where "rt_mb_recv x time k = Some (r, got, k')" "effect t {OMb x} k k'"
    "mb_ok (mailboxes k' x)" "stops t (LMb x) r k'"
proof (cases "mb_entry (mailboxes k x) = 0 \<and> time = 0")
  case True
  note b = may_block_ready [OF m]
  have "effect t {OMb x} k k" using b by (intro effect_refl) auto
  then show ?thesis using that True ok b by (simp add: rt_mb_recv_def)
next
  case False
  note c = may_block_ctx [OF m]
  obtain r got k' where k': "mb_recv_loop x time (Some t) k = Some (r, got, k')" "effect t {OMb x} k k'"
    "mb_ok (mailboxes k' x)" "stops t (LMb x) r k'" by (rule mb_recv_loop_effect [OF m ok time])
  have "rt_mb_recv x time k = Some (r, got, k')" using False c k'(1) by (auto simp: rt_mb_recv_def)
  from that [OF this k'(2-4)] show ?thesis .
qed

lemma remaining_small:
  assumes time: "time < 0x7fffffff" and age: "0 < time \<longrightarrow> unat (tick k - start) < 2 ^ 31"
  shows "remaining_timeout time start k < 0x7fffffff"
proof (cases "time > 0")
  case True
  define d where "d = tick k - start"
  have d: "unat d < 2 ^ 31" using age True by (simp add: d_def)
  have "uint d < 2 ^ 31" using d by (simp add: nat_less_iff flip: nat_uint_eq del: nat_uint_eq)
  then have "- (2 ^ 31) \<le> time - uint d \<and> time - uint d \<le> time" using d True by simp
  moreover have "sint (word_of_int time - d) = signed_take_bit 31 (time - uint d)"
  proof -
    have "word_of_int time - d = word_of_int (time - uint d)" by simp
    then show ?thesis by (simp only: sint_sbintrunc') simp
  qed
  moreover have "signed_take_bit 31 (time - uint d) = time - uint d"
  proof (rule signed_take_bit_int_eq_self)
    show "- (2 ^ 31) \<le> time - uint d" using calculation(1) by blast
    have "time < 2 ^ 31" using time by simp
    then show "time - uint d < 2 ^ 31" by (rule le_less_trans [OF calculation(1) [THEN conjunct2]])
  qed
  moreover have "time - uint d < 0x7fffffff"
    by (rule le_less_trans [OF calculation(1) [THEN conjunct2] time])
  ultimately show ?thesis using True by (simp add: remaining_timeout_def Let_def d_def)
next
  case False
  then show ?thesis using time by (simp add: remaining_timeout_def)
qed

section \<open>Message queues\<close>

lemma mq_upd_effect: "may_block k t \<Longrightarrow> effect t {OMq m} k (upd_mq m f k)"
  using may_block_ready by (intro effect_upd) auto

lemma mq_send_effect:
  assumes m: "may_block k t" and ok: "mq_ok (msgqueues k x) {}" and buf: "buf \<noteq> []"
  obtains e k' where "(if front then rt_mq_urgent x buf k else rt_mq_send x buf k) = Some (e, k')"
    "effect t {OMq x} k k'" "mq_ok (msgqueues k' x) {}" "th_ready k' t"
proof -
  note b = may_block_ready [OF m]
  have refl: "effect t {OMq x} k k" using b by (intro effect_refl) auto
  from ok obtain q f where r: "mq_rep (msgqueues k x) {} q f" by (auto simp: mq_ok_def)
  show ?thesis
  proof (cases "length buf > mq_msg_size (msgqueues k x)")
    case True
    then show ?thesis
      by (intro that [OF _ refl]) (use ok buf b in \<open>simp_all add: rt_mq_send_def rt_mq_urgent_def\<close>)
  next
    case len: False
    from take_free_rep [OF r] show ?thesis
    proof (elim disjE conjE exE)
      assume "mq_take_free (msgqueues k x) = None"
      then show ?thesis
        using len by (intro that [OF _ refl])
          (use ok buf b in \<open>simp_all add: rt_mq_send_def rt_mq_urgent_def\<close>)
    next
      fix n f' b1
      assume t: "mq_take_free (msgqueues k x) = Some (n, b1)" "mq_rep b1 (insert n {}) q f'"
        "n \<notin> {}" "mq_msg_size b1 = mq_msg_size (msgqueues k x)"
      let ?k1 = "upd_mq x (\<lambda>_. mq_insert front buf n b1) k"
      have ok1: "mq_ok (mq_insert front buf n b1) {}"
        using insert_rep(1) [OF t(2) insertI1, of buf front] t(3,4) len by simp
      have e1: "effect t {OMq x} k ?k1" by (rule mq_upd_effect [OF m])
      have pre: "kinv 0 ?k1" "current_ready ?k1" "scheduler_lock_nest ?k1 = 0"
        using e1 b by (simp_all add: effect_def)
      have h: "wait_head (LMq x)" "LMq x \<in> heads_of (OMq x)" by simp_all
      obtain k' where k': "wake_and_schedule (LMq x) ?k1 = Some k'" "effect t {OMq x} ?k1 k'"
        "core_only ?k1 k'" "lists k' (LMq x) = tl (lists ?k1 (LMq x))"
        "\<forall>h'. wait_head h' \<longrightarrow> h' \<noteq> LMq x \<longrightarrow> lists k' h' = lists ?k1 h'"
        "\<forall>u. th_ready ?k1 u \<longrightarrow> th_ready k' u" by (rule effect_wake [OF pre h])
      have "(if front then rt_mq_urgent x buf k else rt_mq_send x buf k) = Some (RT_EOK, k')"
        using len buf t(1) k'(1)
        by (cases front) (simp_all add: rt_mq_send_def rt_mq_urgent_def mq_insert_def Let_def)
      then show ?thesis
        by (rule that [OF _ effect_trans [OF e1 k'(2)]])
          (use ok1 k'(6) b in \<open>simp_all add: core_only_frame [OF k'(3)]\<close>)
    qed
  qed
qed

lemma mq_recv_loop_effect:
  assumes m: "may_block k t" and ok: "mq_ok (msgqueues k x) {}" and time: "time < 0x7fffffff"
  obtains r got k' where "mq_recv_loop x sz time (Some t) k = Some (r, got, k')"
    "effect t {OMq x} k k'" "mq_ok (msgqueues k' x) {}" "stops t (LMq x) r k'"
proof -
  note b = may_block_ready [OF m] and c = may_block_ctx [OF m]
  from ok obtain q f where r: "mq_rep (msgqueues k x) {} q f" by (auto simp: mq_ok_def)
  have e: "mq_entry (msgqueues k x) = length q" using r by (simp add: mq_rep_def)
  let ?k1 = "set_error t RT_EOK k"
  have e1: "effect t {OMq x} k ?k1" using b by (intro effect_error) auto
  from unlink_rep [OF r] show ?thesis
  proof (elim disjE conjE exE)
    fix n q' b1
    assume u: "q = n # q'" "mq_unlink (msgqueues k x) = Some (n, b1)" "mq_rep b1 (insert n {}) q' f"
      "n \<notin> {}"
    let ?k' = "upd_mq x (\<lambda>_. mq_put_free n b1) k"
    have p: "mq_ok (mq_put_free n b1) {}"
      using put_free_rep(1) [OF u(3) insertI1] by (auto simp: mq_ok_def)
    obtain got where "mq_recv_loop x sz time (Some t) k = Some (Returned RT_EOK, got, ?k')"
      using e u(1,2) by (simp add: mq_recv_loop.simps mq_recv_end_def)
    then show ?thesis
      by (rule that [OF _ mq_upd_effect [OF m]]) (use p b in \<open>simp_all\<close>)
  next
    assume u: "q = []"
    show ?thesis
    proof (cases "time = 0")
      case True
      let ?k2 = "set_error t (- RT_ETIMEOUT) ?k1"
      have "mq_recv_loop x sz time (Some t) k = Some (Returned (- RT_ETIMEOUT), None, ?k2)"
        using True e u c by (simp add: mq_recv_loop.simps Let_def in_thread_context_def)
      moreover have "effect t {OMq x} k ?k2"
        by (rule effect_trans [OF e1 effect_error]) (use e1 in \<open>auto simp: effect_def\<close>)
      ultimately show ?thesis using that ok b by simp
    next
      case False
      have m1: "may_block ?k1 t" by (rule may_block_set_error [OF m])
      have fl: "flag_ok (mq_flag (msgqueues k x))" using r by (simp add: mq_rep_def)
      have h: "wait_head (LMq x)" "LMq x \<in> heads_of (OMq x)" by simp_all
      obtain k' where k': "suspend_current (LMq x) (mq_flag (msgqueues k x)) time t ?k1 = Some k'"
        "effect t {OMq x} ?k1 k'" "core_only ?k1 k'" "th_suspended k' t" "current_thread k' \<noteq> Some t"
        "lists k' (LMq x) = wait_insert (mq_flag (msgqueues k x)) ?k1 t (lists ?k1 (LMq x))"
        "\<forall>h'. wait_head h' \<longrightarrow> h' \<noteq> LMq x \<longrightarrow> lists k' h' = lists ?k1 h'"
        "\<forall>u. error_of k' u = error_of ?k1 u"
        by (rule effect_block [OF m1 h fl time])
      have "mq_recv_loop x sz time (Some t) k = Some (Blocked, None, k')"
        using False e u c k'(1,5) by (simp add: mq_recv_loop.simps Let_def in_thread_context_def)
      then show ?thesis
        by (rule that [OF _ effect_trans [OF e1 k'(2)]])
          (use ok k'(4,6,8) in \<open>simp_all add: core_only_frame [OF k'(3)]\<close>)
    qed
  qed
qed

lemma mq_recv_effect:
  assumes m: "may_block k t" and ok: "mq_ok (msgqueues k x) {}" and sz: "sz \<noteq> 0"
    and time: "time < 0x7fffffff"
  obtains r got k' where "rt_mq_recv x sz time k = Some (r, got, k')"
    "effect t {OMq x} k k'" "mq_ok (msgqueues k' x) {}" "stops t (LMq x) r k'"
proof (cases "mq_entry (msgqueues k x) = 0 \<and> time = 0")
  case True
  note b = may_block_ready [OF m]
  have "effect t {OMq x} k k" using b by (intro effect_refl) auto
  then show ?thesis using that True ok b sz by (simp add: rt_mq_recv_def)
next
  case False
  note c = may_block_ctx [OF m]
  obtain r got k' where k': "mq_recv_loop x sz time (Some t) k = Some (r, got, k')"
    "effect t {OMq x} k k'" "mq_ok (msgqueues k' x) {}" "stops t (LMq x) r k'"
    by (rule mq_recv_loop_effect [OF m ok time])
  have "rt_mq_recv x sz time k = Some (r, got, k')" using False c sz k'(1) by (auto simp: rt_mq_recv_def)
  from that [OF this k'(2-4)] show ?thesis .
qed

end
