(* ===== verification/KTick.thy ===== *)
theory KTick
  imports KCalls
begin

text \<open>
  The effects of sleeping, of giving up the processor, and of the tick interrupt
  \<^verbatim>\<open>SysTick_Handler\<close> of \<^verbatim>\<open>libraries/HAL_Drivers/drv_common.c\<close>. The interrupt acts for no
  thread: it wakes those whose time is up and takes them out of the lists they waited in.
\<close>

section \<open>Sleeping and yielding\<close>

lemma sleep_effect:
  assumes m: "may_block k t" and tk: "0 < tk" "tk < 0x7fffffff"
  obtains k' where "rt_thread_sleep tk k = Some (Blocked, k')" "effect t {} k k'" "th_suspended k' t"
proof -
  note b = may_block_ready [OF m]
  obtain u where u: "th_ready k u" "u \<noteq> t" using m by (auto simp: may_block_def)
  have inv: "kinv 0 k" and ready: "th_ready k t" using b by auto
  let ?k1 = "snd (rt_thread_suspend t k)"
  note s = suspend_spec [OF inv ready]
  have r1: "th_ready ?k1 u" using u by (simp add: stat_of_def s(6))
  have pre: "current_thread ?k1 \<noteq> None" "scheduler_lock_nest ?k1 = 0"
    using b by (simp_all add: s(7) core_only_frame [OF s(8)])
  have pos: "0 < uint tk" using tk(1) by (simp add: word_less_def)
  have time: "uint tk < 0x7fffffff" using tk(2) by (simp add: word_less_def)
  obtain k' where k': "arm_and_schedule (uint tk) t ?k1 = Some k'" "kinv 0 k'" "current_top k'"
    "current_thread k' \<noteq> Some t" "core_only ?k1 k'" "threads k' = threads ?k1" "lists k' = lists ?k1"
    by (rule arm_and_schedule_spec [OF s(2) pre(1) s(4) s(9) r1 pre(2) time])
  have "rt_thread_sleep tk k = Some (Blocked, k')"
    using b pos k'(1,4)
    by (auto simp: rt_thread_sleep_def arm_and_schedule_def after_schedule_def split: bind_splits)
  moreover have "th_suspended k' t" using s(4) by (simp add: stat_of_def k'(6))
  moreover have "effect t {} k k'"
  proof (rule effect_core [OF k'(2)])
    show "current_ready k'" using k'(3) by (auto simp: current_ready_def current_top_def)
    show "core_only k k'" by (rule core_only_trans [OF s(8) k'(5)])
    show l: "lists k' h = lists k h" if "wait_head h" for h
      using ready_not_waiting [OF inv ready that] by (simp add: k'(7) s(5))
    show "threads_kept t k k'" by (rule threads_kept_eq [OF _ in_lists_eq [OF l]]) (simp_all add: k'(6) s(6))
    show "timers_safe t k k'"
      by (rule timers_safe_only [OF timers_kept_trans [OF timers_kept_suspend timers_kept_arm [OF k'(1)]]])
    show "error_of k' t \<in> {error_of k t, RT_EOK, - RT_ETIMEOUT, - RT_ERROR}" by (simp add: k'(6) s(6))
  qed
  ultimately show ?thesis using that by blast
qed

lemma yield_effect:
  assumes m: "may_block k t"
  obtains k' where "rt_thread_yield k = Some k'" "effect t {} k k'" "th_ready k' t"
proof -
  note b = may_block_ready [OF m]
  have pre: "kinv 0 k" "current_thread k = Some t" "th_ready k t" using b by auto
  let ?h = "LReady (prio_of k t)" and ?l = "lists k (LReady (prio_of k t))"
  obtain k' where k': "rt_thread_yield k = Some k'" "kinv 0 k'" "core_only k k'"
    "threads k' = threads k" "timers k' = timers k" "timer_list k' = timer_list k"
    "current_thread k' \<noteq> None"
    "lists k' = (lists k)(?h := (if length ?l > 1 then removeAll t ?l @ [t] else ?l))"
    "scheduler_lock_nest k = 0 \<and> length ?l > 1 \<longrightarrow> current_top k'"
    by (rule yield_kinv [OF pre])
  have rd: "th_ready k' u \<longleftrightarrow> th_ready k u" for u by (simp add: stat_of_def k'(4))
  have cur: "current_ready k'"
  proof (cases "length ?l > 1")
    case True
    then show ?thesis using b k'(9) by (auto simp: current_ready_def current_top_def)
  next
    case False
    then have "k' = k" using k'(1) b by (simp add: rt_thread_yield_def)
    then show ?thesis using b by simp
  qed
  have "effect t {} k k'"
    by (rule effect_core [OF k'(2) cur k'(3) threads_kept_eq [OF _ in_lists_eq] timers_safe_eq])
      (use wait_head_not_ready in \<open>auto simp: k'(4,5,6,8)\<close>)
  then show ?thesis using that k'(1) b rd by blast
qed

section \<open>The tick interrupt\<close>

definition SysTick_Handler :: "callbacks \<Rightarrow> kernel \<Rightarrow> kernel option" where
  "SysTick_Handler cb k = do {
     k1 \<leftarrow> rt_tick_increase cb (rt_interrupt_enter k);
     Some (rt_interrupt_leave k1)
   }"

text \<open>The timer of the thread \<open>u\<close> runs on undisturbed.\<close>

definition same_timer :: "kernel \<Rightarrow> kernel \<Rightarrow> nat \<Rightarrow> bool" where
  "same_timer k0 k u \<longleftrightarrow> timers k (TThread u) = timers k0 (TThread u) \<and>
     (TThread u \<in> set (timer_list k) \<longleftrightarrow> TThread u \<in> set (timer_list k0))"

lemma same_timer_trans: "same_timer k0 k u \<Longrightarrow> same_timer k k' u \<Longrightarrow> same_timer k0 k' u"
  by (simp add: same_timer_def)

text \<open>What the loop over the expired timers may do to the state \<open>k0\<close> it starts in.\<close>

definition ticked :: "kernel \<Rightarrow> kernel \<Rightarrow> bool" where
  "ticked k0 k \<longleftrightarrow> core_only k0 k \<and> current_ready k \<and>
     (\<forall>u. threads k u = threads k0 u \<or> th_suspended k0 u \<and> threads k u = timed_out (threads k0 u) \<and>
        TThread u \<in> set (timer_list k0) \<and> expired k0 (TThread u)) \<and>
     (\<forall>u. th_suspended k u \<longrightarrow> same_timer k0 k u) \<and>
     (\<forall>h. wait_head h \<longrightarrow> lists k h = filter (th_suspended k) (lists k0 h))"

text \<open>The timeout functions of the application's timers work on the data of the application and
  may start, stop and change the timers of the application.\<close>

definition quiet :: "callbacks \<Rightarrow> bool" where
  "quiet cb \<longleftrightarrow> calm cb \<and>
     (\<forall>i k k'. cb i k = Some k' \<longrightarrow> timers_only k k' \<and> (\<forall>u. same_timer k k' u))"

lemma ticked_timers:
  assumes "ticked k0 k" "timers_only k k'" "\<forall>u. same_timer k k' u" shows "ticked k0 k'"
  using assms core_only_trans [OF _ timers_only_core [OF assms(2)], of k0] same_timer_trans [of k0 k]
  by (simp add: ticked_def current_ready_def stat_of_def timers_only_frame [OF assms(2)])

lemma timed_out_ready: "threads k u = timed_out th \<Longrightarrow> th_ready k u"
  by (simp add: stat_of_def with_stat_mask)

lemma ticked_wake:
  assumes p: "ticked k0 k" and sus: "th_suspended k t" and co: "core_only k k'"
    and due: "TThread t \<in> set (timer_list k)" "expired k (TThread t)"
    and tm: "\<forall>u. u \<noteq> t \<longrightarrow> same_timer k k' u"
    and th: "threads k' = (threads k)(t := timed_out (threads k t))"
    and l: "\<forall>h. (\<forall>p. h \<noteq> LReady p) \<longrightarrow> lists k' h = removeAll t (lists k h)" and top: "current_top k'"
  shows "ticked k0 k'"
proof -
  have st: "stat_of k' u = (if u = t then RT_THREAD_READY else stat_of k u)" for u
    by (simp add: stat_of_def th with_stat_mask)
  have c: "core_only k0 k'" using p core_only_trans [OF _ co] by (simp add: ticked_def)
  have cr: "current_ready k'" using top by (auto simp: current_ready_def current_top_def)
  have "threads k t \<noteq> timed_out (threads k0 t)" using sus timed_out_ready [of k t] by auto
  then have t0: "threads k t = threads k0 t" using p by (auto simp: ticked_def)
  then have s0: "th_suspended k0 t" using sus by (simp add: stat_of_def)
  have "same_timer k0 k t" using p sus by (simp add: ticked_def)
  then have due0: "TThread t \<in> set (timer_list k0)" "expired k0 (TThread t)"
    using due p by (auto simp: same_timer_def expired_def ticked_def core_only_def)
  then have "threads k' u = threads k0 u \<or> th_suspended k0 u \<and> threads k' u = timed_out (threads k0 u) \<and>
      TThread u \<in> set (timer_list k0) \<and> expired k0 (TThread u)" for u
    using p t0 s0 by (auto simp: ticked_def th)
  moreover have "same_timer k0 k' u" if "th_suspended k' u" for u
  proof -
    have "u \<noteq> t" "th_suspended k u" using that by (simp_all add: st split: if_splits)
    then show ?thesis using p tm same_timer_trans unfolding ticked_def by blast
  qed
  moreover have "lists k' h = filter (th_suspended k') (lists k0 h)" if "wait_head h" for h
  proof -
    have "lists k' h = removeAll t (filter (th_suspended k) (lists k0 h))"
      using that l wait_head_not_ready [OF that] p by (auto simp: ticked_def)
    then show ?thesis by (auto simp: st removeAll_filter_not_eq intro!: filter_cong)
  qed
  ultimately show ?thesis using c cr by (auto simp: ticked_def)
qed

lemma fire_same_timer:
  assumes "fire_timer cb (TThread u) k = Some k1" "v \<noteq> u" shows "same_timer k k1 v"
proof -
  obtain k2 where k2: "rt_thread_timeout u (timer_remove (TThread u) k) = Some k2"
    "k1 = clear_tflag (TThread u) RT_TIMER_FLAG_ACTIVATED k2 \<or>
     rt_timer_start (TThread u) (clear_tflag (TThread u) RT_TIMER_FLAG_ACTIVATED k2) = Some k1"
    using assms(1) by (auto simp: fire_timer_def split: bind_splits if_splits)
  obtain k3 where k3: "rt_schedule k3 = Some k2" "timers k3 = timers k"
    "timer_list k3 = removeAll (TThread u) (timer_list k)"
    using k2(1) by (auto simp: rt_thread_timeout_def rt_assert_def Let_def timer_remove_def set_error_def
        split: bind_splits if_splits)
  then have "timers k2 = timers k" "timer_list k2 = removeAll (TThread u) (timer_list k)"
    using switch_only_frame [OF schedule_switch_only [OF k3(1)]] by simp_all
  then show ?thesis using k2(2) assms(2)
    by (auto simp: same_timer_def clear_tflag_def rt_timer_start_eq Let_def split: if_splits)
qed

lemma ticked_fire:
  assumes i: "tick_inv k" and p: "ticked k0 k" and cb: "quiet cb" and l: "timer_list k = t # ts"
    and due: "expired k t" and unl: "scheduler_lock_nest k0 = 0" and f: "fire_timer cb t k = Some k1"
  shows "ticked k0 k1"
proof (cases t)
  case (TThread u)
  have m: "TThread u \<in> set (timer_list k)" using l TThread by simp
  have unl': "scheduler_lock_nest k = 0" using p unl by (simp add: ticked_def core_only_def)
  have sus: "th_suspended k u" using i m by (auto simp: tick_inv_def kinv_def timer_inv_def)
  obtain k' where k': "fire_timer cb (TThread u) k = Some k'" "tick_inv k'" "tick k' = tick k"
    "timer_list k' = removeAll (TThread u) (timer_list k)" "\<forall>j. expired k' j = expired k j"
    "threads k' = (threads k)(u := timed_out (threads k u))"
    "scheduler_lock_nest k = 0 \<longrightarrow> current_top k'" "scheduler_lock_nest k' = scheduler_lock_nest k"
    "core_only k k'" "\<forall>h. (\<forall>p. h \<noteq> LReady p) \<longrightarrow> lists k' h = removeAll u (lists k h)"
    by (rule fire_thread [OF i m, where cb = cb])
  have "k1 = k'" using f k'(1) TThread by simp
  moreover have "\<forall>v. v \<noteq> u \<longrightarrow> same_timer k k' v" using fire_same_timer [OF k'(1)] by blast
  ultimately show ?thesis using ticked_wake [OF p sus k'(9) m _ _ k'(6,10)] due k'(7) unl' TThread by simp
next
  case (TUser i)
  obtain k2 where k2: "cb i (timer_remove t k) = Some k2"
    "k1 = clear_tflag t RT_TIMER_FLAG_ACTIVATED k2 \<or>
     rt_timer_start t (clear_tflag t RT_TIMER_FLAG_ACTIVATED k2) = Some k1"
    using f TUser by (auto simp: fire_timer_def split: bind_splits if_splits)
  have o2: "timers_only k k2"
    using cb k2(1) timers_only_trans [OF timers_only_steps(2)] unfolding quiet_def by blast
  have "same_timer (timer_remove t k) k2 u" for u using cb k2(1) by (simp add: quiet_def)
  then have s2: "same_timer k k2 u" for u using TUser by (simp add: same_timer_def timer_remove_def)
  have o3: "timers_only k (clear_tflag t RT_TIMER_FLAG_ACTIVATED k2)"
    unfolding clear_tflag_def by (rule timers_only_trans [OF o2 timers_only_steps(1)])
  have "timers_only k k1" using k2(2) o3 timers_only_trans [OF o3 timer_start_only] by auto
  moreover have "same_timer k2 k1 u" for u
    using k2(2) TUser by (auto simp: same_timer_def clear_tflag_def rt_timer_start_eq Let_def split: if_splits)
  then have "\<forall>u. same_timer k k1 u" using s2 same_timer_trans by blast
  ultimately show ?thesis by (rule ticked_timers [OF p])
qed

lemma ticked_loop:
  assumes "timer_check_loop cb c k = Some y" and unl: "scheduler_lock_nest k0 = 0"
  shows "quiet cb \<longrightarrow> c = tick k \<longrightarrow> tick_inv k \<longrightarrow> ticked k0 k \<longrightarrow> ticked k0 y"
proof (rule timer_check_loop.raw_induct [OF _ assms(1),
    of "\<lambda>cb c k y. quiet cb \<longrightarrow> c = tick k \<longrightarrow> tick_inv k \<longrightarrow> ticked k0 k \<longrightarrow> ticked k0 y"],
    intro impI)
  fix loop cb c k y
  assume IH: "\<And>cb c k y. loop cb c k = Some y \<Longrightarrow>
      quiet cb \<longrightarrow> c = tick k \<longrightarrow> tick_inv k \<longrightarrow> ticked k0 k \<longrightarrow> ticked k0 y"
    and step: "(case timer_list k of [] \<Rightarrow> Some k
      | t # x \<Rightarrow> if c - timeout_of k t < TICK_HALF
          then Option.bind (fire_timer cb t k) (\<lambda>k1. loop cb (rt_tick_get k1) k1)
          else Some k) = Some y"
    and q: "quiet cb" "c = tick k" "tick_inv k" "ticked k0 k"
  show "ticked k0 y"
  proof (cases "timer_list k = [] \<or> \<not> expired k (hd (timer_list k))")
    case True
    then show ?thesis using step q by (auto simp: expired_def split: list.splits)
  next
    case False
    then obtain t ts where l: "timer_list k = t # ts" "expired k t"
      by (cases "timer_list k") auto
    have "calm cb" using q by (simp add: quiet_def)
    obtain k1 where k1: "fire_timer cb t k = Some k1" "tick_inv k1" "tick k1 = tick k"
      by (rule fire_spec [OF q(3) \<open>calm cb\<close> l])
    have "ticked k0 k1" by (rule ticked_fire [OF q(3,4,1) l unl k1(1)])
    moreover have "loop cb (rt_tick_get k1) k1 = Some y"
      using step l k1(1) q(2) by (simp add: expired_def)
    ultimately show ?thesis using IH q(1) k1(2) by (simp add: rt_tick_get_def)
  qed
qed

text \<open>The whole interrupt.\<close>

definition tick_effect :: "kernel \<Rightarrow> kernel \<Rightarrow> bool" where
  "tick_effect k k' \<longleftrightarrow> kinv 0 k' \<and> periods_ok k' \<and> current_ready k' \<and> tick k' = tick k + 1 \<and>
     scheduler_lock_nest k' = scheduler_lock_nest k \<and> interrupt_nest k' = interrupt_nest k \<and>
     sems k' = sems k \<and> mutexes k' = mutexes k \<and> events k' = events k \<and>
     mailboxes k' = mailboxes k \<and> msgqueues k' = msgqueues k \<and>
     (\<forall>u. waits_for k' u = waits_for k u \<and> info_of k' u = info_of k u \<and> prio_of k' u = prio_of k u \<and>
        (if th_suspended k u \<and> \<not> th_suspended k' u
         then th_ready k' u \<and> error_of k' u = - RT_ETIMEOUT \<and>
           TThread u \<in> set (timer_list k) \<and> tick k + 1 - timeout_of k (TThread u) < TICK_HALF
         else stat_of k' u = stat_of k u \<and> error_of k' u = error_of k u)) \<and>
     (\<forall>u. th_suspended k' u \<longrightarrow> same_timer k k' u) \<and>
     (\<forall>h. wait_head h \<longrightarrow> lists k' h = filter (th_suspended k') (lists k h))"

lemma systick_effect:
  assumes inv: "kinv 0 k" and per: "periods_ok k" and q: "quiet cb" and cur: "current_ready k"
    and unl: "scheduler_lock_nest k = 0"
  obtains k' where "SysTick_Handler cb k = Some k'" "tick_effect k k'"
    "\<forall>i \<in> set (timer_list k'). \<not> expired k' i"
proof -
  let ?k = "rt_interrupt_enter k"
  have e: "threads ?k = threads k" "lists ?k = lists k" "current_thread ?k = current_thread k"
    "timers ?k = timers k" "timer_list ?k = timer_list k"
    "ready_priority_group ?k = ready_priority_group k" "tick ?k = tick k"
    by (simp_all add: rt_interrupt_enter_def)
  have inv1: "kinv 0 ?k" by (rule kinv_cong [OF _ e(1-2) e(6)]) (simp_all add: inv e)
  have per1: "periods_ok ?k" using per by (simp add: periods_ok_def tm_periodic_def e)
  obtain t where t: "current_thread ?k = Some t" "th_ready ?k t"
    using cur by (auto simp: current_ready_def e stat_of_def)
  obtain k3 r where k3: "\<forall>cb. rt_tick_increase cb ?k = timer_check_loop cb (tick k3) k3" "tick_inv k3"
    "core_only (?k\<lparr>tick := tick ?k + 1\<rparr>) k3" "timers k3 = timers ?k" "timer_list k3 = timer_list ?k"
    "threads k3 = (threads ?k)(t := (threads ?k t)\<lparr>th_remaining_tick := r\<rparr>)"
    "\<forall>h. (\<forall>p. h \<noteq> LReady p) \<longrightarrow> lists k3 h = lists ?k h"
    "scheduler_lock_nest ?k = 0 \<longrightarrow> (\<exists>u. current_thread k3 = Some u \<and> th_ready k3 u)"
    by (rule tick_slice [OF inv1 per1 t])
  note c3 = core_only_frame [OF k3(3)]
  have f: "stat_of k3 u = stat_of k u" "error_of k3 u = error_of k u" "prio_of k3 u = prio_of k u"
    "waits_for k3 u = waits_for k u" "info_of k3 u = info_of k u" for u
    by (simp_all add: k3(6) stat_of_def e)
  have calm: "calm cb" using q by (simp add: quiet_def)
  obtain k4 where k4: "timer_check_loop cb (tick k3) k3 = Some k4" "tick_inv k4" "tick k4 = tick k3"
    "expired_list k4 = []" using timer_check_spec [OF k3(2) calm] by blast
  have unl3: "scheduler_lock_nest k3 = 0" "current_ready k3"
    using unl k3(8) by (simp_all add: c3 current_ready_def rt_interrupt_enter_def)
  have l3: "lists k3 h = lists k h" "filter (th_suspended k3) (lists k3 h) = lists k3 h"
    if "wait_head h" for h
  proof -
    show "lists k3 h = lists k h" using that wait_head_not_ready [OF that] k3(7) by (simp add: e)
    then show "filter (th_suspended k3) (lists k3 h) = lists k3 h"
      using waiting_suspended [OF inv that] by (auto simp: filter_id_conv f)
  qed
  then have "ticked k3 k3" using unl3 by (simp add: ticked_def same_timer_def)
  then have p: "ticked k3 k4"
    using ticked_loop [OF k4(1) unl3(1)] q k3(2) by simp
  then have c4: "core_only k3 k4" by (simp add: ticked_def)
  note g = core_only_frame [OF c4]
  have ne: "\<not> expired k4 i" if "i \<in> set (timer_list k4)" for i
    using k4(4) that by (auto simp: expired_list_def filter_empty_conv)
  have inv4: "kinv 0 k4" by (rule check_done_kinv) (use k4(2) ne in \<open>auto simp: tick_inv_def\<close>)
  let ?k' = "rt_interrupt_leave k4"
  have e': "threads ?k' = threads k4" "lists ?k' = lists k4" "current_thread ?k' = current_thread k4"
    "timers ?k' = timers k4" "timer_list ?k' = timer_list k4"
    "ready_priority_group ?k' = ready_priority_group k4" "tick ?k' = tick k4"
    by (simp_all add: rt_interrupt_leave_def)
  have th: "threads k4 u = threads k3 u \<or> th_suspended k3 u \<and> threads k4 u = timed_out (threads k3 u) \<and>
      TThread u \<in> set (timer_list k3) \<and> expired k3 (TThread u)" for u
    using p by (simp add: ticked_def)
  have tk3: "tick k3 = tick k + 1" "timeout_of k3 i = timeout_of k i" "timer_list k3 = timer_list k" for i
    by (simp_all add: c3 k3(4,5) e)
  have u: "waits_for k4 u = waits_for k u \<and> info_of k4 u = info_of k u \<and> prio_of k4 u = prio_of k u \<and>
        (if th_suspended k u \<and> \<not> th_suspended k4 u
         then th_ready k4 u \<and> error_of k4 u = - RT_ETIMEOUT \<and>
           TThread u \<in> set (timer_list k) \<and> tick k + 1 - timeout_of k (TThread u) < TICK_HALF
         else stat_of k4 u = stat_of k u \<and> error_of k4 u = error_of k u)" for u
    using th [of u]
  proof
    assume "threads k4 u = threads k3 u"
    then show ?thesis using f by (simp add: stat_of_def)
  next
    assume a: "th_suspended k3 u \<and> threads k4 u = timed_out (threads k3 u) \<and>
      TThread u \<in> set (timer_list k3) \<and> expired k3 (TThread u)"
    then have "th_ready k4 u" using timed_out_ready by blast
    then show ?thesis using a f by (simp add: expired_def tk3)
  qed
  have s': "stat_of ?k' v = stat_of k4 v" for v by (simp add: stat_of_def e')
  have "tick_effect k ?k'"
    unfolding tick_effect_def
  proof (intro conjI allI impI)
    show "kinv 0 ?k'" by (rule kinv_cong [OF _ e'(1-2) e'(6)]) (simp_all add: inv4 e')
    show "periods_ok ?k'" using k4(2) by (simp add: tick_inv_def periods_ok_def tm_periodic_def e')
    show "current_ready ?k'" using p by (simp add: ticked_def current_ready_def e' s')
    show "lists ?k' h = filter (th_suspended ?k') (lists k h)" if "wait_head h" for h
      using that p l3 by (simp add: ticked_def e' s')
    show "same_timer k ?k' u" if "th_suspended ?k' u" for u
    proof -
      have "same_timer k3 k4 u" using that p by (simp add: ticked_def s')
      then show ?thesis by (simp add: same_timer_def e' k3(4) tk3 e)
    qed
  qed (use u in \<open>simp_all add: e' s' k4(3) c3 g e\<close>,
    simp_all add: rt_interrupt_leave_def rt_interrupt_enter_def g c3)
  moreover have "SysTick_Handler cb k = Some ?k'"
    using k3(1) k4(1) by (simp add: SysTick_Handler_def)
  moreover have "\<forall>i \<in> set (timer_list ?k'). \<not> expired ?k' i" using ne by (simp add: e' expired_def)
  ultimately show ?thesis using that by blast
qed

end
