(* ===== verification/KSystem.thy ===== *)
theory KSystem
  imports KTick
begin

text \<open>
  The kernel as a whole: several threads that use the IPC objects at the same time, interrupted
  by the tick. A step of the system is a call of the running thread up to the point where it
  returns or is suspended, the rest of a call whose thread runs again, or a tick interrupt; the
  scheduler decides which thread is next. For each suspended call the system keeps what is left
  of it. The calls are those of \<open>sys_call\<close>: resuming, suspending and controlling threads, resetting objects,
  timers and memory pools are not among them.
  The theorems say that the parts work together: whichever calls the threads make, the invariants
  of all components hold, no call runs into an assertion or a null pointer, semaphores hand out
  no token twice and mutexes exclude each other.
\<close>

section \<open>The system\<close>

datatype sys_call =
    CSemTake nat int | CSemRelease nat | CMutexTake nat int | CMutexRelease nat
  | CEventSend nat u32 | CEventRecv nat u32 u8 int | CMbSend nat u32 int | CMbRecv nat int
  | CMqSend bool nat "u8 list" | CMqRecv nat nat int | CSleep u32 | CYield

text \<open>What is left of a suspended call: the object it waits for and the local variables it still
  needs, the timeout and the tick at which it went to sleep.\<close>

datatype pending =
    PSem nat | PMutex nat int | PEvent nat | PMbSend nat u32 int u32 | PMbRecv nat int u32
  | PMqRecv nat nat int u32 | PSleep

abbreviation no_data :: "(outcome \<times> 'a \<times> kernel) option \<Rightarrow> (outcome \<times> kernel) option" where
  "no_data \<equiv> map_option (\<lambda>(r, got, k). (r, k))"

abbreviation error_result :: "(rt_err \<times> kernel) option \<Rightarrow> (outcome \<times> kernel) option" where
  "error_result \<equiv> map_option (\<lambda>(e, k). (Returned e, k))"

fun do_call :: "sys_call \<Rightarrow> kernel \<Rightarrow> (outcome \<times> kernel) option" where
  "do_call (CSemTake s time) k = rt_sem_take s time k"
| "do_call (CSemRelease s) k = map_option (Pair (Returned RT_EOK)) (rt_sem_release s k)"
| "do_call (CMutexTake m time) k = rt_mutex_take m time k"
| "do_call (CMutexRelease m) k = error_result (rt_mutex_release m k)"
| "do_call (CEventSend e bits) k = error_result (rt_event_send e bits k)"
| "do_call (CEventRecv e bits opt time) k = no_data (rt_event_recv e bits opt time k)"
| "do_call (CMbSend m v time) k = rt_mb_send_wait m v time k"
| "do_call (CMbRecv m time) k = no_data (rt_mb_recv m time k)"
| "do_call (CMqSend front m buf) k =
     error_result (if front then rt_mq_urgent m buf k else rt_mq_send m buf k)"
| "do_call (CMqRecv m sz time) k = no_data (rt_mq_recv m sz time k)"
| "do_call (CSleep tk) k = rt_thread_sleep tk k"
| "do_call CYield k = map_option (Pair (Returned RT_EOK)) (rt_thread_yield k)"

text \<open>What is left of call \<open>c\<close> when it suspends its thread at tick \<open>n\<close>.\<close>

fun left_of :: "sys_call \<Rightarrow> u32 \<Rightarrow> pending" where
  "left_of (CSemTake s time) n = PSem s"
| "left_of (CMutexTake m time) n = PMutex m time"
| "left_of (CEventRecv e bits opt time) n = PEvent e"
| "left_of (CMbSend m v time) n = PMbSend m v time n"
| "left_of (CMbRecv m time) n = PMbRecv m time n"
| "left_of (CMqRecv m sz time) n = PMqRecv m sz time n"
| "left_of _ n = PSleep"

fun do_resume :: "pending \<Rightarrow> nat \<Rightarrow> kernel \<Rightarrow> (outcome \<times> kernel) option" where
  "do_resume (PSem s) t k = rt_sem_take_resumed t k"
| "do_resume (PMutex m time) t k = rt_mutex_take_resumed m time t k"
| "do_resume (PEvent e) t k = no_data (rt_event_recv_resumed t k)"
| "do_resume (PMbSend m v time start) t k = mb_send_resumed m v time start t k"
| "do_resume (PMbRecv m time start) t k = no_data (mb_recv_resumed m time start t k)"
| "do_resume (PMqRecv m sz time start) t k = no_data (mq_recv_resumed m sz time start t k)"
| "do_resume PSleep t k = rt_thread_sleep_resumed t k"

text \<open>The loops of mailboxes and message queues go round with the time that remains.\<close>

fun left_again :: "pending \<Rightarrow> kernel \<Rightarrow> pending" where
  "left_again (PMbSend m v time start) k = PMbSend m v (remaining_timeout time start k) (tick k)"
| "left_again (PMbRecv m time start) k = PMbRecv m (remaining_timeout time start k) (tick k)"
| "left_again (PMqRecv m sz time start) k = PMqRecv m sz (remaining_timeout time start k) (tick k)"
| "left_again p k = p"

record system =
  kern :: kernel
  pend :: "nat \<Rightarrow> pending option"

text \<open>The objects a call works on, and the list its thread may wait in.\<close>

fun call_obj :: "sys_call \<Rightarrow> kobj set" where
  "call_obj (CSemTake s time) = {OSem s}"
| "call_obj (CSemRelease s) = {OSem s}"
| "call_obj (CMutexTake m time) = {OMutex m}"
| "call_obj (CMutexRelease m) = {OMutex m}"
| "call_obj (CEventSend e bits) = {OEvent e}"
| "call_obj (CEventRecv e bits opt time) = {OEvent e}"
| "call_obj (CMbSend m v time) = {OMb m}"
| "call_obj (CMbRecv m time) = {OMb m}"
| "call_obj (CMqSend front m buf) = {OMq m}"
| "call_obj (CMqRecv m sz time) = {OMq m}"
| "call_obj _ = {}"

fun left_obj :: "pending \<Rightarrow> kobj set" where
  "left_obj (PSem s) = {OSem s}"
| "left_obj (PMutex m time) = {OMutex m}"
| "left_obj (PEvent e) = {OEvent e}"
| "left_obj (PMbSend m v time start) = {OMb m}"
| "left_obj (PMbRecv m time start) = {OMb m}"
| "left_obj (PMqRecv m sz time start) = {OMq m}"
| "left_obj PSleep = {}"

fun wait_at :: "pending \<Rightarrow> lhead option" where
  "wait_at (PSem s) = Some (LSem s)"
| "wait_at (PMutex m time) = Some (LMutex m)"
| "wait_at (PEvent e) = Some (LEvent e)"
| "wait_at (PMbSend m v time start) = Some (LMbSender m)"
| "wait_at (PMbRecv m time start) = Some (LMb m)"
| "wait_at (PMqRecv m sz time start) = Some (LMq m)"
| "wait_at PSleep = None"

text \<open>What the documentation asks of the caller: timeouts below half the range of the tick, a
  receive option, a message and a buffer that are not empty; and a mutex is not taken 255 times
  by its owner, which the code does not check (\<open>hold\<close> is a byte).\<close>

fun sys_call_ok :: "sys_call \<Rightarrow> kernel \<Rightarrow> bool" where
  "sys_call_ok (CSemTake s time) k \<longleftrightarrow> time < 0x7fffffff"
| "sys_call_ok (CMutexTake m time) k \<longleftrightarrow> time < 0x7fffffff \<and> mtx_hold (mutexes k m) \<noteq> 0xff"
| "sys_call_ok (CEventRecv e bits opt time) k \<longleftrightarrow> time < 0x7fffffff \<and>
     (opt AND RT_EVENT_FLAG_AND \<noteq> 0 \<or> opt AND RT_EVENT_FLAG_OR \<noteq> 0)"
| "sys_call_ok (CMbSend m v time) k \<longleftrightarrow> time < 0x7fffffff"
| "sys_call_ok (CMbRecv m time) k \<longleftrightarrow> time < 0x7fffffff"
| "sys_call_ok (CMqSend front m buf) k \<longleftrightarrow> buf \<noteq> []"
| "sys_call_ok (CMqRecv m sz time) k \<longleftrightarrow> sz \<noteq> 0 \<and> time < 0x7fffffff"
| "sys_call_ok (CSleep tk) k \<longleftrightarrow> 0 < tk \<and> tk < 0x7fffffff"
| "sys_call_ok _ k \<longleftrightarrow> True"

text \<open>A thread whose call waits with a timeout runs again within \<open>2 ^ 31\<close> ticks.\<close>

fun in_time :: "pending \<Rightarrow> kernel \<Rightarrow> bool" where
  "in_time (PMbSend m v time start) k \<longleftrightarrow> (0 < time \<longrightarrow> unat (tick k - start) < 2 ^ 31)"
| "in_time (PMbRecv m time start) k \<longleftrightarrow> (0 < time \<longrightarrow> unat (tick k - start) < 2 ^ 31)"
| "in_time (PMqRecv m sz time start) k \<longleftrightarrow> (0 < time \<longrightarrow> unat (tick k - start) < 2 ^ 31)"
| "in_time p k \<longleftrightarrow> True"

fun left_time :: "pending \<Rightarrow> int" where
  "left_time (PMbSend m v time start) = time"
| "left_time (PMbRecv m time start) = time"
| "left_time (PMqRecv m sz time start) = time"
| "left_time p = 0"

datatype act = Called nat sys_call outcome | Resumed nat pending outcome | Ticked

inductive sys_step :: "callbacks \<Rightarrow> kobj set \<Rightarrow> nat \<Rightarrow> system \<Rightarrow> act \<Rightarrow> system \<Rightarrow> bool"
  for cb C idle where
  call: "current_thread (kern s) = Some t \<Longrightarrow> t \<noteq> idle \<Longrightarrow> pend s t = None \<Longrightarrow>
    call_obj c \<subseteq> C \<Longrightarrow> sys_call_ok c (kern s) \<Longrightarrow> do_call c (kern s) = Some (r, k') \<Longrightarrow>
    sys_step cb C idle s (Called t c r) \<lparr>kern = k', pend = (pend s)(t :=
      if r = Blocked then Some (left_of c (tick (kern s))) else None)\<rparr>"
| resume: "current_thread (kern s) = Some t \<Longrightarrow> pend s t = Some p \<Longrightarrow> in_time p (kern s) \<Longrightarrow>
    do_resume p t (kern s) = Some (r, k') \<Longrightarrow>
    sys_step cb C idle s (Resumed t p r) \<lparr>kern = k', pend = (pend s)(t :=
      if r = Blocked then Some (left_again p (kern s)) else None)\<rparr>"
| tick: "SysTick_Handler cb (kern s) = Some k' \<Longrightarrow>
    sys_step cb C idle s Ticked \<lparr>kern = k', pend = pend s\<rparr>"

inductive sys_run :: "callbacks \<Rightarrow> kobj set \<Rightarrow> nat \<Rightarrow> system \<Rightarrow> act list \<Rightarrow> system \<Rightarrow> bool"
  for cb C idle where
  sys_start: "sys_run cb C idle s [] s"
| sys_next: "sys_run cb C idle s ns s' \<Longrightarrow> sys_step cb C idle s' n s'' \<Longrightarrow>
    sys_run cb C idle s (ns @ [n]) s''"

section \<open>Invariant\<close>

fun obj_ok :: "kernel \<Rightarrow> kobj \<Rightarrow> bool" where
  "obj_ok k (OSem s) = sem_ok k s"
| "obj_ok k (OMutex m) = mutex_ok k m"
| "obj_ok k (OEvent e) = event_ok k e"
| "obj_ok k (OMb m) = mb_ok (mailboxes k m)"
| "obj_ok k (OMq m) = mq_ok (msgqueues k m) {}"
| "obj_ok k _ = True"

text \<open>A thread with an unfinished call: while it is suspended it is in the list its call names and
  in no other, and its error is cleared; the error it gets is one of the three the kernel sets.\<close>

definition left_ok :: "kobj set \<Rightarrow> kernel \<Rightarrow> nat \<Rightarrow> pending \<Rightarrow> bool" where
  "left_ok C k u p \<longleftrightarrow> left_obj p \<subseteq> C \<and> left_time p < 0x7fffffff \<and>
     (wait_at p \<noteq> None \<longrightarrow> error_of k u \<in> {RT_EOK, - RT_ETIMEOUT, - RT_ERROR}) \<and>
     (th_suspended k u \<longrightarrow> in_lists k u = set_option (wait_at p) \<and>
        (wait_at p \<noteq> None \<longrightarrow> error_of k u = RT_EOK))"

definition sys_inv :: "kobj set \<Rightarrow> nat \<Rightarrow> system \<Rightarrow> bool" where
  "sys_inv C idle s \<longleftrightarrow> kinv 0 (kern s) \<and> periods_ok (kern s) \<and> current_ready (kern s) \<and>
     scheduler_lock_nest (kern s) = 0 \<and> interrupt_nest (kern s) = 0 \<and>
     th_ready (kern s) idle \<and> pend s idle = None \<and> (\<forall>ob \<in> C. obj_ok (kern s) ob) \<and>
     (\<forall>u. case pend s u of None \<Rightarrow> \<not> th_suspended (kern s) u | Some p \<Rightarrow> left_ok C (kern s) u p)"

subsection \<open>Calls\<close>

text \<open>Objects that the step does not work on stay well formed.\<close>

lemma obj_ok_kept:
  assumes e: "effect t D k k'" and inv: "kinv 0 k" and ready: "th_ready k t"
    and out: "ob \<notin> D" and ok: "obj_ok k ob"
  shows "obj_ok k' ob"
proof -
  have ok': "others_kept D k k'" "threads_kept t k k'" "kinv 0 k'" using e by (simp_all add: effect_def)
  have l: "lists k' h = lists k h" if "wait_head h" "h \<in> heads_of ob" for h
  proof -
    have "\<forall>o1 \<in> D. h \<notin> heads_of o1" using that out by (cases ob; clarsimp) (case_tac o1; force)+
    then show ?thesis using ok'(1) that by (simp add: others_kept_def)
  qed
  show ?thesis
  proof (cases ob)
    case (OSem x)
    then show ?thesis using ok ok'(1) out l [of "LSem x"] by (simp add: sem_ok_def others_kept_def)
  next
    case (OMutex x)
    then have "mutexes k' x = mutexes k x" using ok'(1) out by (simp add: others_kept_def)
    then show ?thesis using OMutex ok l [of "LMutex x"]
      by (cases "mtx_owner (mutexes k x)") (simp_all add: mutex_ok_def)
  next
    case (OEvent x)
    have ll: "lists k' (LEvent x) = lists k (LEvent x)" using l [of "LEvent x"] OEvent by simp
    have "waits_for k' w = waits_for k w \<and> info_of k' w = info_of k w" if "w \<in> set (lists k (LEvent x))" for w
    proof -
      have "w \<noteq> t" using ready_not_waiting [OF inv ready, of "LEvent x"] that by auto
      moreover have "th_suspended k' w" using waiting_suspended [OF ok'(3), of "LEvent x" w] that ll by simp
      ultimately show ?thesis using ok'(2) by (simp add: threads_kept_def)
    qed
    then show ?thesis using OEvent ok ok'(1) out ll by (simp add: event_ok_def others_kept_def)
  next
    case (OMb x)
    then show ?thesis using ok ok'(1) out by (simp add: others_kept_def)
  next
    case (OMq x)
    then show ?thesis using ok ok'(1) out by (simp add: others_kept_def)
  qed simp_all
qed

text \<open>What a step of the thread \<open>t\<close> leaves it in.\<close>

definition stops_at :: "nat \<Rightarrow> pending \<Rightarrow> outcome \<Rightarrow> kernel \<Rightarrow> bool" where
  "stops_at t p r k \<longleftrightarrow> (if r = Blocked
     then th_suspended k t \<and> in_lists k t = set_option (wait_at p) \<and>
       (wait_at p \<noteq> None \<longrightarrow> error_of k t = RT_EOK)
     else th_ready k t)"

lemma in_lists_ready: "kinv 0 k \<Longrightarrow> th_ready k t \<Longrightarrow> in_lists k t = {}"
  using ready_not_waiting by (auto simp: in_lists_def)

lemma in_lists_one:
  assumes inv: "kinv 0 k" and h: "wait_head h" and m: "t \<in> set (lists k h)"
  shows "in_lists k t = {h}"
proof -
  have "x = h" if "t \<in> set (lists k x)" for x using waiting_one_list [OF inv m that] by simp
  then show ?thesis using h m unfolding in_lists_def by blast
qed

lemma stops_stops_at:
  assumes "stops t h r k" "kinv 0 k" "wait_at p = Some h" "wait_head h"
  shows "stops_at t p r k"
  using assms in_lists_one [OF assms(2,4)] by (auto simp: stops_at_def stops_def)

lemma stops_at_ready: "th_ready k t \<Longrightarrow> r \<noteq> Blocked \<Longrightarrow> stops_at t p r k"
  by (simp add: stops_at_def)

text \<open>Every call that respects its conditions returns or suspends its thread.\<close>

definition runs :: "nat \<Rightarrow> kobj set \<Rightarrow> pending \<Rightarrow> kernel \<Rightarrow> (outcome \<times> kernel) option \<Rightarrow> bool" where
  "runs t D p k res \<longleftrightarrow> (\<exists>r k'. res = Some (r, k') \<and> effect t D k k' \<and>
     (\<forall>ob \<in> D. obj_ok k' ob) \<and> stops_at t p r k')"

lemma runsI:
  assumes "res = Some (r, k')" "effect t D k k'" "\<And>ob. ob \<in> D \<Longrightarrow> obj_ok k' ob"
    "stops t h r k'" "wait_at p = Some h" "wait_head h"
  shows "runs t D p k res"
  using assms stops_stops_at [OF assms(4) _ assms(5,6)] by (auto simp: runs_def effect_def)

lemma runsI_ready:
  assumes "res = Some (Returned e, k')" "effect t D k k'" "\<And>ob. ob \<in> D \<Longrightarrow> obj_ok k' ob" "th_ready k' t"
  shows "runs t D p k res"
  using assms stops_at_ready by (auto simp: runs_def)

lemma call_runs:
  assumes m: "may_block k t" and ok: "\<forall>ob \<in> call_obj c. obj_ok k ob" and c: "sys_call_ok c k"
  shows "runs t (call_obj c) (left_of c n) k (do_call c k)"
proof (cases c)
  case (CSemTake s time)
  then have a: "sem_ok k s" "time < 0x7fffffff" using ok c by simp_all
  show ?thesis
    by (rule sem_take_effect [OF m a], rule runsI) (use CSemTake in auto)
next
  case (CSemRelease s)
  then have a: "sem_ok k s" using ok by simp
  show ?thesis by (rule sem_release_effect [OF m a], rule runsI_ready) (use CSemRelease in auto)
next
  case (CMutexTake x time)
  then have a: "mutex_ok k x" "mtx_hold (mutexes k x) \<noteq> 0xff" "time < 0x7fffffff" using ok c by simp_all
  show ?thesis by (rule mutex_take_effect [OF m a], rule runsI) (use CMutexTake in auto)
next
  case (CMutexRelease x)
  then have a: "mutex_ok k x" using ok by simp
  show ?thesis by (rule mutex_release_effect [OF m a], rule runsI_ready) (use CMutexRelease in auto)
next
  case (CEventSend x bits)
  then have a: "event_ok k x" using ok by simp
  show ?thesis
    by (rule event_send_effect [OF m a, where bits = bits], rule runsI_ready) (use CEventSend in auto)
next
  case (CEventRecv x bits opt time)
  then have a: "event_ok k x" "time < 0x7fffffff"
    "opt AND RT_EVENT_FLAG_AND \<noteq> 0 \<or> opt AND RT_EVENT_FLAG_OR \<noteq> 0" using ok c by simp_all
  show ?thesis
    by (rule event_recv_effect [OF m a, where bits = bits], rule runsI) (use CEventRecv in auto)
next
  case (CMbSend x v time)
  then have a: "mb_ok (mailboxes k x)" "time < 0x7fffffff" using ok c by simp_all
  show ?thesis by (rule mb_send_effect [OF m a, where v = v], rule runsI) (use CMbSend in auto)
next
  case (CMbRecv x time)
  then have a: "mb_ok (mailboxes k x)" "time < 0x7fffffff" using ok c by simp_all
  show ?thesis by (rule mb_recv_effect [OF m a], rule runsI) (use CMbRecv in auto)
next
  case (CMqSend front x buf)
  then have a: "mq_ok (msgqueues k x) {}" "buf \<noteq> []" using ok c by simp_all
  show ?thesis
    by (rule mq_send_effect [OF m a, where front = front], rule runsI_ready) (use CMqSend in auto)
next
  case (CMqRecv x sz time)
  then have a: "mq_ok (msgqueues k x) {}" "sz \<noteq> 0" "time < 0x7fffffff" using ok c by simp_all
  show ?thesis by (rule mq_recv_effect [OF m a], rule runsI) (use CMqRecv in auto)
next
  case (CSleep tk)
  then have a: "0 < tk" "tk < 0x7fffffff" using c by simp_all
  obtain k' where k': "rt_thread_sleep tk k = Some (Blocked, k')" "effect t {} k k'" "th_suspended k' t"
    by (rule sleep_effect [OF m a])
  have "lists k' h = lists k h" if "wait_head h" for h
    using k'(2) that by (simp add: effect_def others_kept_def)
  then have "in_lists k' t = {}"
    using in_lists_eq in_lists_ready [of k t] may_block_ready [OF m] by metis
  then show ?thesis using CSleep k' by (simp add: runs_def stops_at_def)
next
  case CYield
  show ?thesis by (rule yield_effect [OF m], rule runsI_ready) (use CYield in auto)
qed

subsection \<open>Resumed calls\<close>

lemma runs_same:
  assumes "may_block k t" "res = Some (Returned e, k)" "\<forall>ob \<in> D. obj_ok k ob"
  shows "runs t D p k res"
  by (rule runsI_ready) (use assms may_block_ready effect_refl in auto)

lemma resume_runs:
  assumes m: "may_block k t" and l: "left_ok C k t p" and ok: "\<forall>ob \<in> left_obj p. obj_ok k ob"
    and i: "in_time p k"
  shows "runs t (left_obj p) (left_again p k) k (do_resume p t k)"
proof -
  have err: "error_of k t \<in> {RT_EOK, - RT_ETIMEOUT, - RT_ERROR}" if "wait_at p \<noteq> None"
    using l that by (simp add: left_ok_def)
  have tm: "left_time p < 0x7fffffff" using l by (simp add: left_ok_def)
  show ?thesis
  proof (cases p)
    case (PSem s)
    show ?thesis
      by (rule runs_same [OF m _ ok, of _ "error_of k t"]) (simp add: PSem rt_sem_take_resumed_def)
  next
    case (PMutex x time)
    then have "error_of k t \<noteq> - RT_EINTR" using err by (auto simp: rt_err_simps)
    then show ?thesis
      by (intro runs_same [OF m _ ok, of _ "error_of k t"]) (simp add: PMutex rt_mutex_take_resumed_def)
  next
    case (PEvent e)
    show ?thesis
      by (rule runs_same [OF m _ ok, of _ "error_of k t"]) (simp add: PEvent rt_event_recv_resumed_def)
  next
    case (PMbSend x v time start)
    have a: "mb_ok (mailboxes k x)" using ok PMbSend by simp
    have r: "remaining_timeout time start k < 0x7fffffff"
      by (rule remaining_small) (use tm i PMbSend in simp_all)
    show ?thesis
    proof (cases "error_of k t = RT_EOK")
      case False
      then show ?thesis
        by (intro runs_same [OF m _ ok, of _ "error_of k t"]) (simp add: PMbSend mb_send_resumed_def)
    next
      case True
      show ?thesis
        by (rule mb_send_loop_effect [OF m a r, where v = v], rule runsI)
          (use True PMbSend in \<open>auto simp: mb_send_resumed_def\<close>)
    qed
  next
    case (PMbRecv x time start)
    have a: "mb_ok (mailboxes k x)" using ok PMbRecv by simp
    have r: "remaining_timeout time start k < 0x7fffffff"
      by (rule remaining_small) (use tm i PMbRecv in simp_all)
    show ?thesis
    proof (cases "error_of k t = RT_EOK")
      case False
      then show ?thesis
        by (intro runs_same [OF m _ ok, of _ "error_of k t"]) (simp add: PMbRecv mb_recv_resumed_def)
    next
      case True
      show ?thesis
        by (rule mb_recv_loop_effect [OF m a r], rule runsI)
          (use True PMbRecv in \<open>auto simp: mb_recv_resumed_def\<close>)
    qed
  next
    case (PMqRecv x sz time start)
    have a: "mq_ok (msgqueues k x) {}" using ok PMqRecv by simp
    have r: "remaining_timeout time start k < 0x7fffffff"
      by (rule remaining_small) (use tm i PMqRecv in simp_all)
    show ?thesis
    proof (cases "error_of k t = RT_EOK")
      case False
      then show ?thesis
        by (intro runs_same [OF m _ ok, of _ "error_of k t"]) (simp add: PMqRecv mq_recv_resumed_def)
    next
      case True
      show ?thesis
        by (rule mq_recv_loop_effect [OF m a r, where sz = sz], rule runsI)
          (use True PMqRecv in \<open>auto simp: mq_recv_resumed_def\<close>)
    qed
  next
    case PSleep
    note b = may_block_ready [OF m]
    have "effect t {} k (set_error t RT_EOK k)" "effect t {} k k"
      using b by (auto intro: effect_error effect_refl)
    then show ?thesis
      using PSleep b by (intro runsI_ready [of _ RT_EOK "if error_of k t = - RT_ETIMEOUT
          then set_error t RT_EOK k else k"]) (auto simp: rt_thread_sleep_resumed_def)
  qed
qed

subsection \<open>Steps keep the invariant\<close>

lemma inv_may_block:
  assumes "sys_inv C idle s" "current_thread (kern s) = Some t" "t \<noteq> idle"
  shows "may_block (kern s) t"
  using assms by (auto simp: sys_inv_def may_block_def current_ready_def)

lemma left_props:
  "left_obj (left_again p k) = left_obj p" "wait_at (left_again p k) = wait_at p"
  "left_time p < 0x7fffffff \<Longrightarrow> in_time p k \<Longrightarrow> left_time (left_again p k) < 0x7fffffff"
  by (cases p; simp add: remaining_small)+

lemma left_of_props:
  "do_call c k = Some (Blocked, k') \<Longrightarrow> left_obj (left_of c n) = call_obj c"
  "sys_call_ok c k \<Longrightarrow> left_time (left_of c n) < 0x7fffffff"
  by (cases c; auto)+

text \<open>The thread \<open>t\<close> makes a step that works on the objects \<open>D\<close> and waits, if at all, as \<open>p\<close> says.\<close>

lemma thread_step_inv:
  assumes inv: "sys_inv C idle s" and t: "t \<noteq> idle" "th_ready (kern s) t"
    and e: "effect t D (kern s) k'" and D: "\<forall>ob \<in> D. obj_ok k' ob" and st: "stops_at t p r k'"
    and p: "r = Blocked \<longrightarrow> left_obj p \<subseteq> C \<and> left_time p < 0x7fffffff"
  shows "sys_inv C idle \<lparr>kern = k', pend = (pend s)(t := if r = Blocked then Some p else None)\<rparr>"
proof -
  let ?k = "kern s"
  have f: "kinv 0 k'" "current_ready k'" "scheduler_lock_nest k' = scheduler_lock_nest ?k"
    "interrupt_nest k' = interrupt_nest ?k" "threads_kept t ?k k'" "timers_safe t ?k k'"
    using e by (simp_all add: effect_def)
  have o: "obj_ok k' ob" if "ob \<in> C" for ob
  proof (cases "ob \<in> D")
    case False
    then show ?thesis using obj_ok_kept [OF e _ t(2)] inv that by (auto simp: sys_inv_def)
  qed (use D in blast)
  have u: "case ((pend s)(t := if r = Blocked then Some p else None)) u of
      None \<Rightarrow> \<not> th_suspended k' u | Some q \<Rightarrow> left_ok C k' u q" for u
  proof (cases "u = t")
    case True
    then show ?thesis using st p by (auto simp: stops_at_def left_ok_def split: if_splits)
  next
    case False
    then have kept: "error_of k' u = error_of ?k u"
      "th_suspended k' u \<longrightarrow> th_suspended ?k u \<and> in_lists k' u = in_lists ?k u"
      using f(5) by (simp_all add: threads_kept_def)
    have "case pend s u of None \<Rightarrow> \<not> th_suspended ?k u | Some q \<Rightarrow> left_ok C ?k u q"
      using inv by (simp add: sys_inv_def)
    then show ?thesis using False kept by (auto simp: left_ok_def split: option.splits)
  qed
  have "th_ready k' idle" using f(5) inv t(1) by (auto simp: sys_inv_def threads_kept_def)
  moreover have "periods_ok k'" using timers_safe_ok [OF f(6)] inv by (simp add: sys_inv_def)
  ultimately show ?thesis
    unfolding sys_inv_def system.simps using inv [unfolded sys_inv_def] t(1) f(1-4)
    by (intro conjI allI ballI o u) simp_all
qed

lemma tick_step_inv:
  assumes inv: "sys_inv C idle s" and e: "tick_effect (kern s) k'"
  shows "sys_inv C idle \<lparr>kern = k', pend = pend s\<rparr>"
proof -
  let ?k = "kern s"
  have th: "waits_for k' u = waits_for ?k u" "info_of k' u = info_of ?k u"
    "if th_suspended ?k u \<and> \<not> th_suspended k' u then th_ready k' u \<and> error_of k' u = - RT_ETIMEOUT
     else stat_of k' u = stat_of ?k u \<and> error_of k' u = error_of ?k u" for u
    using e by (simp_all add: tick_effect_def)
  have l: "lists k' h = filter (th_suspended k') (lists ?k h)" if "wait_head h" for h
    using e that by (simp add: tick_effect_def)
  have tab: "sems k' = sems ?k" "mutexes k' = mutexes ?k" "events k' = events ?k"
    "mailboxes k' = mailboxes ?k" "msgqueues k' = msgqueues ?k"
    using e by (simp_all add: tick_effect_def)
  have o: "obj_ok k' ob" if "obj_ok ?k ob" for ob
  proof (cases ob)
    case (OMutex x)
    then show ?thesis using that l [of "LMutex x"]
      by (cases "mtx_owner (mutexes ?k x)") (simp_all add: mutex_ok_def tab)
  next
    case (OSem x)
    then show ?thesis using that l [of "LSem x"] by (simp add: sem_ok_def tab)
  next
    case (OEvent x)
    then show ?thesis using that l [of "LEvent x"] by (simp add: event_ok_def tab th(1,2))
  qed (use that in \<open>simp_all add: tab\<close>)
  have u: "case pend s u of None \<Rightarrow> \<not> th_suspended k' u | Some q \<Rightarrow> left_ok C k' u q" for u
  proof -
    have old: "case pend s u of None \<Rightarrow> \<not> th_suspended ?k u | Some q \<Rightarrow> left_ok C ?k u q"
      using inv by (simp add: sys_inv_def)
    have "in_lists k' u = in_lists ?k u" if "th_suspended k' u"
      using that l by (auto simp: in_lists_def)
    then show ?thesis using old th(3) [of u] by (auto simp: left_ok_def split: option.splits if_splits)
  qed
  have "th_ready k' idle" using th(3) [of idle] inv by (auto simp: sys_inv_def)
  then show ?thesis
    unfolding sys_inv_def system.simps using inv [unfolded sys_inv_def] e [unfolded tick_effect_def]
    by (intro conjI allI ballI o u) simp_all
qed

lemma sys_step_inv:
  assumes st: "sys_step cb C idle s n s'" and inv: "sys_inv C idle s" and q: "quiet cb"
  shows "sys_inv C idle s'"
  using st
proof cases
  case (call t c r k')
  have m: "may_block (kern s) t" by (rule inv_may_block [OF inv call(3,4)])
  have "\<forall>ob \<in> call_obj c. obj_ok (kern s) ob" using inv call(6) by (auto simp: sys_inv_def)
  from call_runs [OF m this call(7), of "tick (kern s)"] call(8) obtain
    "effect t (call_obj c) (kern s) k'" "\<forall>ob \<in> call_obj c. obj_ok k' ob"
    "stops_at t (left_of c (tick (kern s))) r k'" by (auto simp: runs_def)
  then show ?thesis
    unfolding call(2) using may_block_ready [OF m] call left_of_props
    by (intro thread_step_inv [OF inv call(4)]) auto
next
  case (resume t p r k')
  have l: "left_ok C (kern s) t p" using inv resume(4) by (auto simp: sys_inv_def split: option.splits)
  have t: "t \<noteq> idle" using inv resume(4) by (auto simp: sys_inv_def)
  have m: "may_block (kern s) t" by (rule inv_may_block [OF inv resume(3) t])
  have "\<forall>ob \<in> left_obj p. obj_ok (kern s) ob" using inv l by (auto simp: sys_inv_def left_ok_def)
  from resume_runs [OF m l this resume(5)] resume(6) obtain
    "effect t (left_obj p) (kern s) k'" "\<forall>ob \<in> left_obj p. obj_ok k' ob"
    "stops_at t (left_again p (kern s)) r k'" by (auto simp: runs_def)
  then show ?thesis
    unfolding resume(2) using may_block_ready [OF m] resume l
    by (intro thread_step_inv [OF inv t]) (auto simp: left_props left_ok_def)
next
  case (tick k')
  have "kinv 0 (kern s)" "periods_ok (kern s)" "current_ready (kern s)" "scheduler_lock_nest (kern s) = 0"
    using inv by (simp_all add: sys_inv_def)
  from systick_effect [OF this(1,2) q this(3,4)] tick(3) have "tick_effect (kern s) k'" by force
  then show ?thesis unfolding tick(2) by (rule tick_step_inv [OF inv])
qed

lemma sys_run_inv: "sys_run cb C idle s ns s' \<Longrightarrow> sys_inv C idle s \<Longrightarrow> quiet cb \<Longrightarrow> sys_inv C idle s'"
  by (induction rule: sys_run.induct) (auto intro: sys_step_inv)

end
