(* ===== verification/KSafety.thy ===== *)
theory KSafety
  imports KSystem
begin

text \<open>
  Safety of whole runs of the system: the counts of what threads have taken and given. The
  arguments follow one semaphore, or one mutex, through the steps: a step that does not work
  on it leaves it and the threads that wait for it alone.
\<close>

section \<open>Steps that leave an object alone\<close>

lemma kept_elsewhere:
  assumes "effect t D k k'"
  shows "OSem x \<notin> D \<Longrightarrow> sems k' x = sems k x \<and> lists k' (LSem x) = lists k (LSem x)"
    and "OMutex x \<notin> D \<Longrightarrow> mutexes k' x = mutexes k x \<and> lists k' (LMutex x) = lists k (LMutex x)"
    and "u \<noteq> t \<Longrightarrow> error_of k' u = error_of k u"
proof -
  have o: "others_kept D k k'" and th: "threads_kept t k k'" using assms by (simp_all add: effect_def)
  have h: "h \<in> heads_of o1 \<Longrightarrow> h = LSem x \<Longrightarrow> o1 = OSem x"
    "h \<in> heads_of o1 \<Longrightarrow> h = LMutex x \<Longrightarrow> o1 = OMutex x" for h o1
    by (cases o1; auto)+
  show "OSem x \<notin> D \<Longrightarrow> sems k' x = sems k x \<and> lists k' (LSem x) = lists k (LSem x)"
    using o h(1) unfolding others_kept_def by (metis wait_head.simps)
  show "OMutex x \<notin> D \<Longrightarrow> mutexes k' x = mutexes k x \<and> lists k' (LMutex x) = lists k (LMutex x)"
    using o h(2) unfolding others_kept_def by (metis wait_head.simps)
  show "u \<noteq> t \<Longrightarrow> error_of k' u = error_of k u" using th by (simp add: threads_kept_def)
qed

text \<open>The threads of a step.\<close>

lemma call_step_effect:
  assumes inv: "sys_inv C idle s" and c: "current_thread (kern s) = Some t" "t \<noteq> idle"
    "call_obj c \<subseteq> C" "sys_call_ok c (kern s)" "do_call c (kern s) = Some (r, k')"
  shows "may_block (kern s) t" "effect t (call_obj c) (kern s) k'"
    "stops_at t (left_of c (tick (kern s))) r k'"
proof -
  show m: "may_block (kern s) t" by (rule inv_may_block [OF inv c(1,2)])
  have "\<forall>ob \<in> call_obj c. obj_ok (kern s) ob" using inv c(3) by (auto simp: sys_inv_def)
  from call_runs [OF m this c(4), of "tick (kern s)"] c(5)
  show "effect t (call_obj c) (kern s) k'" "stops_at t (left_of c (tick (kern s))) r k'"
    by (auto simp: runs_def)
qed

lemma inv_left_ok: "sys_inv C idle s \<Longrightarrow> pend s u = Some p \<Longrightarrow> left_ok C (kern s) u p"
  unfolding sys_inv_def by (metis option.simps(5))

lemma inv_suspended: "sys_inv C idle s \<Longrightarrow> th_suspended (kern s) u \<Longrightarrow> \<exists>p. pend s u = Some p"
  unfolding sys_inv_def by (metis not_None_eq option.simps(4))

lemma resume_step_effect:
  assumes inv: "sys_inv C idle s" and c: "current_thread (kern s) = Some t" "pend s t = Some p"
    "in_time p (kern s)" "do_resume p t (kern s) = Some (r, k')"
  shows "t \<noteq> idle" "may_block (kern s) t" "left_ok C (kern s) t p"
    "effect t (left_obj p) (kern s) k'" "stops_at t (left_again p (kern s)) r k'"
proof -
  show l: "left_ok C (kern s) t p" by (rule inv_left_ok [OF inv c(2)])
  show t: "t \<noteq> idle" using inv c(2) by (auto simp: sys_inv_def)
  show m: "may_block (kern s) t" by (rule inv_may_block [OF inv c(1) t])
  have "\<forall>ob \<in> left_obj p. obj_ok (kern s) ob" using inv l by (auto simp: sys_inv_def left_ok_def)
  from resume_runs [OF m l this c(3)] c(4)
  show "effect t (left_obj p) (kern s) k'" "stops_at t (left_again p (kern s)) r k'"
    by (auto simp: runs_def)
qed

lemma tick_step_effect:
  assumes inv: "sys_inv C idle s" and q: "quiet cb" and k': "SysTick_Handler cb (kern s) = Some k'"
  shows "tick_effect (kern s) k'"
proof -
  have "kinv 0 (kern s)" "periods_ok (kern s)" "current_ready (kern s)" "scheduler_lock_nest (kern s) = 0"
    using inv by (simp_all add: sys_inv_def)
  from systick_effect [OF this(1,2) q this(3,4)] k' show ?thesis by force
qed

text \<open>A thread in the wait list of an object waits for that object.\<close>

lemma waiter_pending:
  assumes inv: "sys_inv C idle s" and h: "wait_head h" and w: "w \<in> set (lists (kern s) h)"
  obtains p where "pend s w = Some p" "wait_at p = Some h" "error_of (kern s) w = RT_EOK"
proof -
  have k: "kinv 0 (kern s)" using inv by (simp add: sys_inv_def)
  have sus: "th_suspended (kern s) w" by (rule waiting_suspended [OF k h w])
  then obtain p where p: "pend s w = Some p" "left_ok C (kern s) w p"
    using inv_suspended [OF inv] inv_left_ok [OF inv] by blast
  have "h \<in> in_lists (kern s) w" using h w by (simp add: in_lists_def)
  then show ?thesis using that p sus by (cases "wait_at p") (auto simp: left_ok_def)
qed

lemma wait_at_sem: "wait_at p = Some (LSem x) \<longleftrightarrow> p = PSem x"
  by (cases p) auto

lemma wait_at_mutex: "wait_at p = Some (LMutex x) \<longleftrightarrow> (\<exists>time. p = PMutex x time)"
  by (cases p) auto

lemma pending_listed:
  assumes inv: "sys_inv C idle s" and p: "pend s u = Some p" "wait_at p = Some h"
  shows "th_suspended (kern s) u \<longleftrightarrow> u \<in> set (lists (kern s) h)"
proof -
  have h: "wait_head h" using p(2) by (cases p) auto
  have "left_ok C (kern s) u p" by (rule inv_left_ok [OF inv p(1)])
  then have "th_suspended (kern s) u \<Longrightarrow> h \<in> in_lists (kern s) u" using p(2) by (simp add: left_ok_def)
  then show ?thesis using waiting_suspended [OF _ h, of 0 "kern s" u] inv
    by (auto simp: in_lists_def sys_inv_def)
qed

section \<open>Well-typed states\<close>

text \<open>C20: threads and lists stay well typed in every reachable state: priorities index the table of
  ready lists and match the thread's bit in the bitmap, a thread is in at most one list, once,
  and only in one that fits its status and priority, and the bitmap shows the non-empty lists.\<close>

theorem system_well_typed:
  assumes run: "sys_run cb C idle s ns s'" and inv: "sys_inv C idle s" and q: "quiet cb"
  shows "(\<forall>u. prio_of (kern s') u < RT_THREAD_PRIORITY_MAX) \<and>
    (\<forall>u. th_ready (kern s') u \<or> th_suspended (kern s') u \<longrightarrow>
       th_number_mask (threads (kern s') u) = 2 ^ prio_of (kern s') u) \<and>
    (\<forall>h. distinct (lists (kern s') h)) \<and>
    (\<forall>u h h'. u \<in> set (lists (kern s') h) \<longrightarrow> u \<in> set (lists (kern s') h') \<longrightarrow> h = h') \<and>
    (\<forall>u h. u \<in> set (lists (kern s') h) \<longrightarrow> stat_fits h (stat_of (kern s') u) \<and>
       (\<forall>p. h = LReady p \<longrightarrow> prio_of (kern s') u = p)) \<and>
    (\<forall>u. th_ready (kern s') u \<longrightarrow> u \<in> set (lists (kern s') (LReady (prio_of (kern s') u)))) \<and>
    bitmap_ok (kern s')"
proof -
  have "sched_inv {} (kern s')"
    using sys_run_inv [OF run inv q] by (simp add: sys_inv_def kinv_def)
  then have i: "links_ok (kern s')" "bitmap_ok (kern s')" "ready_ok {} (kern s')"
    "\<And>u. mask_ok (threads (kern s') u)" by (simp_all add: sched_inv_def)
  show ?thesis
  proof (intro conjI)
    show "\<forall>u. prio_of (kern s') u < RT_THREAD_PRIORITY_MAX" using i(4) by (simp add: mask_ok_def)
    show "\<forall>u. th_ready (kern s') u \<or> th_suspended (kern s') u \<longrightarrow>
       th_number_mask (threads (kern s') u) = 2 ^ prio_of (kern s') u"
      using i(4) by (simp add: mask_ok_def stat_of_def)
  qed (use i(1-3) in \<open>simp_all add: links_ok_def ready_ok_def\<close>)
qed

text \<open>C2: the invariants of all components hold together in every reachable state: no semaphore has
  tokens while a thread waits for it, no free mutex has waiters, no thread waits for an event
  whose condition holds, mailboxes and message queues are well formed; and a thread is in the
  wait list of an object exactly if it is suspended in a call that waits for that object.\<close>

theorem system_invariant:
  assumes run: "sys_run cb C idle s ns s'" and inv: "sys_inv C idle s" and q: "quiet cb"
  shows "(\<forall>ob \<in> C. obj_ok (kern s') ob) \<and>
    (\<forall>u h. wait_head h \<longrightarrow> (u \<in> set (lists (kern s') h) \<longleftrightarrow> th_suspended (kern s') u \<and>
       (\<exists>p. pend s' u = Some p \<and> wait_at p = Some h)))"
proof (intro conjI allI impI)
  have i: "sys_inv C idle s'" by (rule sys_run_inv [OF run inv q])
  then show "\<forall>ob \<in> C. obj_ok (kern s') ob" by (simp add: sys_inv_def)
  fix u h assume h: "wait_head h"
  show "u \<in> set (lists (kern s') h) \<longleftrightarrow>
    th_suspended (kern s') u \<and> (\<exists>p. pend s' u = Some p \<and> wait_at p = Some h)"
  proof
    assume u: "u \<in> set (lists (kern s') h)"
    obtain p where p: "pend s' u = Some p" "wait_at p = Some h" by (rule waiter_pending [OF i h u])
    then show "th_suspended (kern s') u \<and> (\<exists>p. pend s' u = Some p \<and> wait_at p = Some h)"
      using pending_listed [OF i p] u by blast
  next
    assume "th_suspended (kern s') u \<and> (\<exists>p. pend s' u = Some p \<and> wait_at p = Some h)"
    then show "u \<in> set (lists (kern s') h)" using pending_listed [OF i] by blast
  qed
qed

section \<open>Semaphores\<close>

text \<open>The acts by which a token of semaphore \<open>x\<close> is taken and given back.\<close>

fun takes :: "nat \<Rightarrow> act \<Rightarrow> nat" where
  "takes x (Called t (CSemTake y time) r) = (if y = x \<and> r = Returned RT_EOK then 1 else 0)"
| "takes x (Resumed t (PSem y) r) = (if y = x \<and> r = Returned RT_EOK then 1 else 0)"
| "takes x _ = 0"

fun gives :: "nat \<Rightarrow> act \<Rightarrow> nat" where
  "gives x (Called t (CSemRelease y) r) = (if y = x then 1 else 0)"
| "gives x _ = 0"

text \<open>Threads that were given a token while they waited and have not run since.\<close>

definition granted :: "nat \<Rightarrow> system \<Rightarrow> nat set" where
  "granted x s = {u. pend s u = Some (PSem x) \<and> u \<notin> set (lists (kern s) (LSem x)) \<and>
     error_of (kern s) u = RT_EOK}"

abbreviation tokens :: "nat \<Rightarrow> system \<Rightarrow> nat" where
  "tokens x s \<equiv> unat (sem_value (sems (kern s) x)) + card (granted x s)"

lemma granted_kept:
  assumes e: "effect t D (kern s) k'" and out: "OSem x \<notin> D"
    and p: "pend s t \<noteq> Some (PSem x)" "q \<noteq> Some (PSem x)"
  shows "granted x \<lparr>kern = k', pend = (pend s)(t := q)\<rparr> = granted x s" "sems k' x = sems (kern s) x"
proof -
  note l = kept_elsewhere(1) [OF e out] and er = kept_elsewhere(3) [OF e]
  show "sems k' x = sems (kern s) x" using l by simp
  have "u \<in> granted x \<lparr>kern = k', pend = (pend s)(t := q)\<rparr> \<longleftrightarrow> u \<in> granted x s" for u
    using p l er [of u] by (cases "u = t") (auto simp: granted_def)
  then show "granted x \<lparr>kern = k', pend = (pend s)(t := q)\<rparr> = granted x s" by blast
qed

lemma sem_take_tokens:
  assumes inv: "sys_inv C idle s" and m: "may_block (kern s) t" and p: "pend s t = None"
    and ok: "sem_ok (kern s) x" and time: "time < 0x7fffffff"
    and c: "rt_sem_take x time (kern s) = Some (r, k')" and fin: "finite (granted x s)"
  defines "s' \<equiv> \<lparr>kern = k', pend = (pend s)(t := if r = Blocked then Some (PSem x) else None)\<rparr>"
  shows "granted x s' = granted x s \<and>
    unat (sem_value (sems k' x)) + (if r = Returned RT_EOK then 1 else 0) =
      unat (sem_value (sems (kern s) x))"
proof -
  obtain r1 k1 where k1: "rt_sem_take x time (kern s) = Some (r1, k1)" "effect t {OSem x} (kern s) k1"
    "sem_ok k1 x" "stops t (LSem x) r1 k1"
    "r1 = Returned RT_EOK \<longrightarrow> 0 < sem_value (sems (kern s) x) \<and>
       sem_value (sems k1 x) = sem_value (sems (kern s) x) - 1"
    "r1 \<noteq> Returned RT_EOK \<longrightarrow> sems k1 = sems (kern s)"
    "r1 = Blocked \<longrightarrow> set (lists k1 (LSem x)) = insert t (set (lists (kern s) (LSem x))) \<and>
       error_of k1 t = RT_EOK"
    "r1 \<noteq> Blocked \<longrightarrow> lists k1 (LSem x) = lists (kern s) (LSem x)"
    by (rule sem_take_effect [OF m ok time])
  have eq: "r1 = r" "k1 = k'" using k1(1) c by simp_all
  note er = kept_elsewhere(3) [OF k1(2) [unfolded eq]]
  have "u \<in> granted x s' \<longleftrightarrow> u \<in> granted x s" for u
    using p k1(7,8) er [of u] by (cases "u = t") (auto simp: granted_def s'_def eq split: if_splits)
  then have g: "granted x s' = granted x s" by blast
  have "unat (sem_value (sems k' x)) + (if r = Returned RT_EOK then 1 else 0) =
      unat (sem_value (sems (kern s) x))"
  proof (cases "r = Returned RT_EOK")
    case True
    then have "1 \<le> sem_value (sems (kern s) x)" "sem_value (sems k' x) = sem_value (sems (kern s) x) - 1"
      using k1(5) by (simp_all add: eq word_le_nat_alt word_less_nat_alt)
    then show ?thesis using True by (simp add: unat_sub word_le_nat_alt)
  next
    case False
    then show ?thesis using k1(6) by (simp add: eq)
  qed
  then show ?thesis using g by blast
qed

lemma sem_release_tokens:
  assumes inv: "sys_inv C idle s" and m: "may_block (kern s) t" and p: "pend s t = None"
    and ok: "sem_ok (kern s) x" and c: "rt_sem_release x (kern s) = Some k'"
    and fin: "finite (granted x s)" and room: "unat (sem_value (sems (kern s) x)) + 1 < 65536"
  defines "s' \<equiv> \<lparr>kern = k', pend = (pend s)(t := None)\<rparr>"
  shows "finite (granted x s') \<and> tokens x s' = tokens x s + 1"
proof -
  let ?k = "kern s"
  obtain k1 where k1: "rt_sem_release x ?k = Some k1" "effect t {OSem x} ?k k1" "sem_ok k1 x" "th_ready k1 t"
    "lists ?k (LSem x) = [] \<longrightarrow> lists k1 (LSem x) = [] \<and>
       sem_value (sems k1 x) = sem_value (sems ?k x) + 1"
    "lists ?k (LSem x) \<noteq> [] \<longrightarrow> lists k1 (LSem x) = tl (lists ?k (LSem x)) \<and> sems k1 = sems ?k"
    "\<forall>u. error_of k1 u = error_of ?k u"
    by (rule sem_release_effect [OF m ok])
  have eq: "k1 = k'" using k1(1) c by simp
  show ?thesis
  proof (cases "lists ?k (LSem x)")
    case Nil
    have "granted x s' = granted x s" using p Nil k1(5,7) by (auto simp: granted_def s'_def eq)
    moreover have "unat (sem_value (sems ?k x) + 1) = unat (sem_value (sems ?k x)) + 1"
      using room by (simp add: unat_word_ariths)
    ultimately show ?thesis using Nil k1(5) fin by (simp add: s'_def eq)
  next
    case (Cons w ws)
    have "wait_head (LSem x)" "w \<in> set (lists ?k (LSem x))" using Cons by simp_all
    from waiter_pending [OF inv this] obtain q where
      w: "pend s w = Some q" "wait_at q = Some (LSem x)" "error_of ?k w = RT_EOK" by blast
    have q: "q = PSem x" using w(2) by (simp add: wait_at_sem)
    have "distinct (lists ?k (LSem x))"
      using inv unfolding sys_inv_def kinv_def sched_inv_def links_ok_def by blast
    then have d: "w \<notin> set ws" using Cons by simp
    have "granted x s' = insert w (granted x s)"
      using p w q d Cons k1(6,7) by (auto simp: granted_def s'_def eq)
    moreover have "w \<notin> granted x s" using Cons by (simp add: granted_def)
    ultimately show ?thesis using fin Cons k1(6) by (simp add: s'_def eq)
  qed
qed

lemma resume_tokens:
  assumes inv: "sys_inv C idle s" and cur: "current_thread (kern s) = Some t"
    and p: "pend s t = Some (PSem x)" and fin: "finite (granted x s)"
  defines "s' \<equiv> \<lparr>kern = kern s, pend = (pend s)(t := None)\<rparr>"
  shows "finite (granted x s') \<and>
    tokens x s' + (if error_of (kern s) t = RT_EOK then 1 else 0) = tokens x s"
proof -
  have "th_ready (kern s) t" using inv cur by (auto simp: sys_inv_def current_ready_def)
  then have "t \<notin> set (lists (kern s) (LSem x))"
    using pending_listed [OF inv p, of "LSem x"] by simp
  then have "t \<in> granted x s \<longleftrightarrow> error_of (kern s) t = RT_EOK" using p by (simp add: granted_def)
  moreover have "granted x s' = granted x s - {t}" by (auto simp: granted_def s'_def)
  ultimately show ?thesis using fin card.remove [OF fin, of t] by (auto simp: s'_def)
qed

lemma tick_granted:
  assumes inv: "sys_inv C idle s" and e: "tick_effect (kern s) k'"
  shows "granted x \<lparr>kern = k', pend = pend s\<rparr> = granted x s" "sems k' = sems (kern s)"
proof -
  let ?k = "kern s"
  have th: "if th_suspended ?k u \<and> \<not> th_suspended k' u then th_ready k' u \<and> error_of k' u = - RT_ETIMEOUT
     else stat_of k' u = stat_of ?k u \<and> error_of k' u = error_of ?k u" for u
    using e by (simp add: tick_effect_def)
  have l: "lists k' (LSem x) = filter (th_suspended k') (lists ?k (LSem x))"
    using e by (simp add: tick_effect_def)
  have "u \<in> granted x \<lparr>kern = k', pend = pend s\<rparr> \<longleftrightarrow> u \<in> granted x s" for u
  proof (cases "pend s u = Some (PSem x)")
    case True
    have "th_suspended ?k u \<longleftrightarrow> u \<in> set (lists ?k (LSem x))"
      by (rule pending_listed [OF inv True]) simp
    then show ?thesis using th [of u] l True
      by (cases "th_suspended ?k u"; cases "th_suspended k' u") (auto simp: granted_def rt_err_simps)
  next
    case False
    then show ?thesis by (simp add: granted_def)
  qed
  then show "granted x \<lparr>kern = k', pend = pend s\<rparr> = granted x s" by blast
  show "sems k' = sems ?k" using e by (simp add: tick_effect_def)
qed

lemma obj_in:
  "sys_inv C idle s \<Longrightarrow> OSem x \<in> C \<Longrightarrow> sem_ok (kern s) x"
  "sys_inv C idle s \<Longrightarrow> OMutex x \<in> C \<Longrightarrow> mutex_ok (kern s) x"
  unfolding sys_inv_def using obj_ok.simps(1,2) by blast+

lemma tokens_step:
  assumes st: "sys_step cb C idle s n s'" and inv: "sys_inv C idle s" and q: "quiet cb"
    and x: "OSem x \<in> C" and fin: "finite (granted x s)"
    and room: "unat (sem_value (sems (kern s) x)) + gives x n < 65536"
  shows "finite (granted x s') \<and> tokens x s' + takes x n = tokens x s + gives x n"
  using st
proof cases
  case (call t c r k')
  note e = call_step_effect [OF inv call(3,4,6-8)]
  have ok: "sem_ok (kern s) x" by (rule obj_in(1) [OF inv x])
  show ?thesis
  proof (cases "OSem x \<in> call_obj c")
    case False
    have p: "left_of c (tick (kern s)) \<noteq> PSem x" using False by (cases c) auto
    have "takes x n = 0" "gives x n = 0" using False call(1) by (cases c; auto)+
    then show ?thesis
      using granted_kept [OF e(2) False, of "if r = Blocked then Some (left_of c (tick (kern s))) else None"]
        p call(5) fin by (auto simp: call(2))
  next
    case True
    then consider time where "c = CSemTake x time" | "c = CSemRelease x" by (cases c) auto
    then show ?thesis
    proof cases
      case 1
      then have "time < 0x7fffffff" "rt_sem_take x time (kern s) = Some (r, k')" using call(7,8) by simp_all
      from sem_take_tokens [OF inv e(1) call(5) ok this fin] show ?thesis
        using 1 fin by (auto simp: call(1,2))
    next
      case 2
      then have "rt_sem_release x (kern s) = Some k'" "r = Returned RT_EOK" using call(8) by auto
      from sem_release_tokens [OF inv e(1) call(5) ok this(1) fin] this(2) room show ?thesis
        using 2 by (auto simp: call(1,2))
    qed
  qed
next
  case (resume t p r k')
  note e = resume_step_effect [OF inv resume(3-6)]
  show ?thesis
  proof (cases "p = PSem x")
    case True
    have p: "pend s t = Some (PSem x)" using resume(4) True by simp
    have "r = Returned (error_of (kern s) t)" "k' = kern s"
      using resume(6) True by (auto simp: rt_sem_take_resumed_def split: if_splits)
    then show ?thesis
      using resume_tokens [OF inv resume(3) p fin] True by (auto simp: resume(1,2))
  next
    case False
    then have out: "OSem x \<notin> left_obj p" by (cases p) auto
    have "left_again p (kern s) \<noteq> PSem x" using False by (cases p) auto
    moreover have "takes x n = 0" "gives x n = 0" using False resume(1) by (cases p; auto)+
    ultimately show ?thesis
      using granted_kept [OF e(4) out, of "if r = Blocked then Some (left_again p (kern s)) else None"]
        False resume(4) fin by (auto simp: resume(2))
  qed
next
  case (tick k')
  note e = tick_step_effect [OF inv q tick(3)]
  show ?thesis using tick_granted(1) [OF inv e, of x] tick_granted(2) [OF inv e] fin by (simp add: tick(1,2))
qed

text \<open>C3: however threads and the tick interleave, a semaphore hands out exactly the tokens it
  was given: its count, the tokens taken and the tokens of threads that were woken and have not
  run yet add up to the initial count and the number of \<^verbatim>\<open>rt_sem_release\<close> calls, as long as that
  sum fits the 16-bit count. So no more takes succeed than tokens were given, and no token is lost.\<close>

theorem semaphore_conservation:
  assumes run: "sys_run cb C idle s ns s'" and inv: "sys_inv C idle s" and q: "quiet cb"
    and x: "OSem x \<in> C" and none: "granted x s = {}"
    and room: "unat (sem_value (sems (kern s) x)) + sum_list (map (gives x) ns) < 65536"
  shows "unat (sem_value (sems (kern s') x)) + card (granted x s') + sum_list (map (takes x) ns) =
    unat (sem_value (sems (kern s) x)) + sum_list (map (gives x) ns)"
proof -
  have "finite (granted x s') \<and> tokens x s' + sum_list (map (takes x) ns) =
      unat (sem_value (sems (kern s) x)) + sum_list (map (gives x) ns)"
    using run room inv none
  proof (induction rule: sys_run.induct)
    case (sys_start s)
    then show ?case by simp
  next
    case (sys_next s ns s' n s'')
    have r: "unat (sem_value (sems (kern s) x)) + sum_list (map (gives x) ns) + gives x n < 65536"
      using sys_next.prems(1) by simp
    have ih: "finite (granted x s')" "tokens x s' + sum_list (map (takes x) ns) =
        unat (sem_value (sems (kern s) x)) + sum_list (map (gives x) ns)"
      using sys_next.IH r sys_next.prems(2,3) by auto
    have inv': "sys_inv C idle s'" by (rule sys_run_inv [OF sys_next.hyps(1) sys_next.prems(2) q])
    have "unat (sem_value (sems (kern s') x)) + gives x n < 65536" using ih(2) r by linarith
    from tokens_step [OF sys_next.hyps(2) inv' q x ih(1) this] ih(2) show ?case by simp
  qed
  then show ?thesis by simp
qed

section \<open>Mutexes\<close>

text \<open>How an act changes the number of times thread \<open>t\<close> holds mutex \<open>x\<close>.\<close>

fun locks :: "nat \<Rightarrow> nat \<Rightarrow> act \<Rightarrow> int" where
  "locks x t (Called u (CMutexTake y time) r) = (if y = x \<and> u = t \<and> r = Returned RT_EOK then 1 else 0)"
| "locks x t (Resumed u (PMutex y time) r) = (if y = x \<and> u = t \<and> r = Returned RT_EOK then 1 else 0)"
| "locks x t (Called u (CMutexRelease y) r) = (if y = x \<and> u = t \<and> r = Returned RT_EOK then - 1 else 0)"
| "locks x t _ = 0"

definition waits_mutex :: "nat \<Rightarrow> system \<Rightarrow> nat \<Rightarrow> bool" where
  "waits_mutex x s t \<longleftrightarrow> (case pend s t of Some p \<Rightarrow> wait_at p = Some (LMutex x) | None \<Rightarrow> False)"

text \<open>The number the state shows: the owner's \<open>hold\<close>, unless the owner was handed the mutex and
  has not run since.\<close>

definition held :: "nat \<Rightarrow> system \<Rightarrow> nat \<Rightarrow> int" where
  "held x s t = (if mtx_owner (mutexes (kern s) x) = Some t \<and> \<not> waits_mutex x s t
     then int (unat (mtx_hold (mutexes (kern s) x))) else 0)"

text \<open>A thread that waits for the mutex is in its list, or was handed it, or timed out.\<close>

definition handed_ok :: "nat \<Rightarrow> system \<Rightarrow> bool" where
  "handed_ok x s \<longleftrightarrow> (\<forall>t. waits_mutex x s t \<longrightarrow>
     (if mtx_owner (mutexes (kern s) x) = Some t
      then mtx_hold (mutexes (kern s) x) = 1 \<and> error_of (kern s) t = RT_EOK
      else t \<in> set (lists (kern s) (LMutex x)) \<or> error_of (kern s) t \<noteq> RT_EOK))"

lemma waits_mutex_upd:
  "waits_mutex x \<lparr>kern = k, pend = (pend s)(t := q)\<rparr> u \<longleftrightarrow>
     (if u = t then (case q of Some p \<Rightarrow> wait_at p = Some (LMutex x) | None \<Rightarrow> False)
      else waits_mutex x s u)"
  by (simp add: waits_mutex_def)

lemma held_kept:
  assumes e: "effect t D (kern s) k'" and out: "OMutex x \<notin> D" and p: "\<not> waits_mutex x s t"
    and q: "\<And>p. q = Some p \<Longrightarrow> wait_at p \<noteq> Some (LMutex x)"
  defines "s' \<equiv> \<lparr>kern = k', pend = (pend s)(t := q)\<rparr>"
  shows "held x s' u = held x s u" "handed_ok x s \<Longrightarrow> handed_ok x s'"
proof -
  note l = kept_elsewhere(2) [OF e out] and er = kept_elsewhere(3) [OF e]
  have w: "waits_mutex x s' v = waits_mutex x s v" for v
    unfolding s'_def waits_mutex_upd using p q by (auto split: option.splits)
  have k: "kern s' = k'" by (simp add: s'_def)
  show "held x s' u = held x s u" by (simp add: held_def w k l)
  show "handed_ok x s'" if "handed_ok x s"
    unfolding handed_ok_def
  proof (intro allI impI)
    fix v assume v: "waits_mutex x s' v"
    then have "v \<noteq> t" "waits_mutex x s v" using w p by auto
    then show "if mtx_owner (mutexes (kern s') x) = Some v
      then mtx_hold (mutexes (kern s') x) = 1 \<and> error_of (kern s') v = RT_EOK
      else v \<in> set (lists (kern s') (LMutex x)) \<or> error_of (kern s') v \<noteq> RT_EOK"
      using that er [of v] l by (simp add: handed_ok_def k)
  qed
qed

lemma other_holds_nothing: "mtx_owner (mutexes (kern s) x) \<in> {None, Some t} \<Longrightarrow> u \<noteq> t \<Longrightarrow> held x s u = 0"
  by (auto simp: held_def)

lemma mutex_take_held:
  assumes m: "may_block (kern s) t" and p: "pend s t = None" and ok: "mutex_ok (kern s) x"
    and hold: "mtx_hold (mutexes (kern s) x) \<noteq> 0xff" and time: "time < 0x7fffffff"
    and c: "rt_mutex_take x time (kern s) = Some (r, k')" and h: "handed_ok x s"
  defines "s' \<equiv> \<lparr>kern = k', pend = (pend s)(t := if r = Blocked then Some (PMutex x time) else None)\<rparr>"
  shows "held x s' u = held x s u + (if u = t \<and> r = Returned RT_EOK then 1 else 0) \<and> handed_ok x s'"
proof -
  let ?k = "kern s"
  obtain r1 k1 where k1: "rt_mutex_take x time ?k = Some (r1, k1)" "effect t {OMutex x} ?k k1"
    "mutex_ok k1 x" "stops t (LMutex x) r1 k1"
    "r1 = Returned RT_EOK \<longrightarrow> mtx_owner (mutexes ?k x) \<in> {None, Some t} \<and>
       mtx_owner (mutexes k1 x) = Some t \<and> mtx_hold (mutexes k1 x) = mtx_hold (mutexes ?k x) + 1"
    "r1 \<noteq> Returned RT_EOK \<longrightarrow> mutexes k1 = mutexes ?k"
    "r1 = Blocked \<longrightarrow> set (lists k1 (LMutex x)) = insert t (set (lists ?k (LMutex x))) \<and>
       error_of k1 t = RT_EOK"
    "r1 \<noteq> Blocked \<longrightarrow> lists k1 (LMutex x) = lists ?k (LMutex x)"
    by (rule mutex_take_effect [OF m ok hold time])
  have eq: "r1 = r" "k1 = k'" using k1(1) c by simp_all
  note er = kept_elsewhere(3) [OF k1(2) [unfolded eq]]
  have k: "kern s' = k'" by (simp add: s'_def)
  have nw: "\<not> waits_mutex x s t" using p by (simp add: waits_mutex_def)
  have w: "waits_mutex x s' v \<longleftrightarrow> (if v = t then r = Blocked else waits_mutex x s v)" for v
    unfolding s'_def waits_mutex_upd by simp
  show ?thesis
  proof (cases "r = Returned RT_EOK")
    case True
    then have o: "mtx_owner (mutexes ?k x) \<in> {None, Some t}" "mtx_owner (mutexes k' x) = Some t"
      "mtx_hold (mutexes k' x) = mtx_hold (mutexes ?k x) + 1" "lists k' (LMutex x) = lists ?k (LMutex x)"
      using k1(5,8) by (simp_all add: eq)
    have "unat (mtx_hold (mutexes k' x)) = unat (mtx_hold (mutexes ?k x)) + 1"
    proof -
      have "mtx_hold (mutexes ?k x) + 1 \<noteq> 0" using hold_not_zero [OF hold] .
      then show ?thesis
        unfolding o(3) using unatSuc [of "mtx_hold (mutexes ?k x)"] by (simp add: add.commute)
    qed
    moreover have "held x s t = int (unat (mtx_hold (mutexes ?k x)))"
      using o(1) ok nw by (auto simp: held_def mutex_ok_def)
    ultimately have "held x s' t = held x s t + 1" using True o(2) w by (simp add: held_def k)
    moreover have "held x s' u = held x s u" if "u \<noteq> t"
      using other_holds_nothing [of s x t u] other_holds_nothing [of s' x t u] o that by (simp add: k)
    moreover have "handed_ok x s'"
      unfolding handed_ok_def
    proof (intro allI impI)
      fix v assume v: "waits_mutex x s' v"
      then have vt: "v \<noteq> t" "waits_mutex x s v" using w True by (auto split: if_splits)
      then have "v \<in> set (lists ?k (LMutex x)) \<or> error_of ?k v \<noteq> RT_EOK"
        using h o(1) by (auto simp: handed_ok_def)
      then show "if mtx_owner (mutexes (kern s') x) = Some v
        then mtx_hold (mutexes (kern s') x) = 1 \<and> error_of (kern s') v = RT_EOK
        else v \<in> set (lists (kern s') (LMutex x)) \<or> error_of (kern s') v \<noteq> RT_EOK"
        using o vt er [of v] by (simp add: k)
    qed
    ultimately show ?thesis using True by auto
  next
    case False
    then have mx: "mutexes k' = mutexes ?k" using k1(6) by (simp add: eq)
    have nt: "r = Blocked \<Longrightarrow> mtx_owner (mutexes ?k x) \<noteq> Some t"
      using k1(3,7) by (auto simp: eq mutex_ok_def mx split: option.splits)
    have "held x s' u = held x s u" using w nw nt by (auto simp: held_def k mx)
    moreover have "handed_ok x s'"
      unfolding handed_ok_def
    proof (intro allI impI)
      fix v assume v: "waits_mutex x s' v"
      show "if mtx_owner (mutexes (kern s') x) = Some v
        then mtx_hold (mutexes (kern s') x) = 1 \<and> error_of (kern s') v = RT_EOK
        else v \<in> set (lists (kern s') (LMutex x)) \<or> error_of (kern s') v \<noteq> RT_EOK"
      proof (cases "v = t")
        case True
        then have "r = Blocked" using v w by simp
        then show ?thesis using True nt k1(7) by (simp add: k mx eq)
      next
        case vt: False
        then have "waits_mutex x s v" using v w by simp
        moreover have "v \<in> set (lists k' (LMutex x)) \<longleftrightarrow> v \<in> set (lists ?k (LMutex x))"
          using vt k1(7,8) by (cases "r = Blocked") (simp_all add: eq)
        ultimately show ?thesis using h er [OF vt] by (simp add: handed_ok_def k mx)
      qed
    qed
    ultimately show ?thesis using False by simp
  qed
qed

lemma mutex_release_held:
  assumes inv: "sys_inv C idle s" and m: "may_block (kern s) t" and p: "pend s t = None"
    and ok: "mutex_ok (kern s) x" and c: "rt_mutex_release x (kern s) = Some (e, k')" and h: "handed_ok x s"
  defines "s' \<equiv> \<lparr>kern = k', pend = (pend s)(t := None)\<rparr>"
  shows "held x s' u = held x s u + (if u = t \<and> e = RT_EOK then - 1 else 0) \<and> handed_ok x s'"
proof -
  let ?k = "kern s"
  obtain e1 k1 where k1: "rt_mutex_release x ?k = Some (e1, k1)" "effect t {OMutex x} ?k k1"
    "mutex_ok k1 x" "th_ready k1 t"
    "e1 \<noteq> RT_EOK \<longrightarrow> mutexes k1 = mutexes ?k \<and> mtx_owner (mutexes ?k x) \<noteq> Some t \<and> lists k1 = lists ?k"
    "e1 = RT_EOK \<longrightarrow> mtx_owner (mutexes ?k x) = Some t \<and>
       (if mtx_hold (mutexes ?k x) \<noteq> 1
        then mtx_owner (mutexes k1 x) = Some t \<and> mtx_hold (mutexes k1 x) = mtx_hold (mutexes ?k x) - 1 \<and>
          lists k1 (LMutex x) = lists ?k (LMutex x)
        else lists k1 (LMutex x) = tl (lists ?k (LMutex x)) \<and>
          (case lists ?k (LMutex x) of [] \<Rightarrow> mtx_owner (mutexes k1 x) = None
           | w # ws \<Rightarrow> mtx_owner (mutexes k1 x) = Some w \<and> mtx_hold (mutexes k1 x) = 1))"
    by (rule mutex_release_effect [OF m ok])
  have eq: "e1 = e" "k1 = k'" using k1(1) c by simp_all
  note er = kept_elsewhere(3) [OF k1(2) [unfolded eq]]
  have k: "kern s' = k'" by (simp add: s'_def)
  have nw: "\<not> waits_mutex x s t" using p by (simp add: waits_mutex_def)
  have w: "waits_mutex x s' v \<longleftrightarrow> waits_mutex x s v" for v
    unfolding s'_def waits_mutex_upd using nw by simp
  have wait: "v \<noteq> t" "if mtx_owner (mutexes ?k x) = Some v
      then mtx_hold (mutexes ?k x) = 1 \<and> error_of ?k v = RT_EOK
      else v \<in> set (lists ?k (LMutex x)) \<or> error_of ?k v \<noteq> RT_EOK" if "waits_mutex x s' v" for v
    using that h w nw by (auto simp: handed_ok_def)
  show ?thesis
  proof (cases "e = RT_EOK")
    case False
    then have mx: "mutexes k' = mutexes ?k" "lists k' = lists ?k" using k1(5) by (simp_all add: eq)
    have "held x s' u = held x s u" by (simp add: held_def w k mx)
    moreover have "handed_ok x s'"
      unfolding handed_ok_def using wait er by (simp add: k mx)
    ultimately show ?thesis using False by simp
  next
    case True
    then have own: "mtx_owner (mutexes ?k x) = Some t" using k1(6) by (simp add: eq)
    then have nz: "mtx_hold (mutexes ?k x) \<noteq> 0" using ok by (simp add: mutex_ok_def)
    have t0: "held x s t = int (unat (mtx_hold (mutexes ?k x)))" "u \<noteq> t \<Longrightarrow> held x s u = 0"
      using own nw by (simp_all add: held_def)
    have un: "unat (mtx_hold (mutexes ?k x) - 1) + 1 = unat (mtx_hold (mutexes ?k x))"
    proof -
      have "unat (mtx_hold (mutexes ?k x)) \<noteq> 0" using nz by (simp add: unat_eq_zero)
      then show ?thesis using unat_minus_one [OF nz] by simp
    qed
    show ?thesis
    proof (cases "mtx_hold (mutexes ?k x) = 1")
      case False
      then have n: "mtx_owner (mutexes k' x) = Some t" "lists k' (LMutex x) = lists ?k (LMutex x)"
        "mtx_hold (mutexes k' x) = mtx_hold (mutexes ?k x) - 1" using k1(6) True by (simp_all add: eq)
      have "int (unat (mtx_hold (mutexes k' x))) = int (unat (mtx_hold (mutexes ?k x))) - 1"
        unfolding n(3) using un by linarith
      moreover have "held x s' t = int (unat (mtx_hold (mutexes k' x)))"
        using n(1) nw w by (simp add: held_def k)
      ultimately have "held x s' t = held x s t - 1" by (simp only: t0)
      moreover have "u \<noteq> t \<Longrightarrow> held x s' u = 0" using n(1) by (simp add: held_def k)
      moreover have "handed_ok x s'"
        unfolding handed_ok_def using wait er n own by (auto simp: k)
      ultimately show ?thesis using True t0 by auto
    next
      case one: True
      show ?thesis
      proof (cases "lists ?k (LMutex x)")
        case Nil
        then have n: "mtx_owner (mutexes k' x) = None" "lists k' (LMutex x) = []"
          using k1(6) True one by (simp_all add: eq)
        have "held x s' v = 0" for v using n(1) by (simp add: held_def k)
        moreover have "error_of k' v \<noteq> RT_EOK" if "waits_mutex x s' v" for v
          using wait [OF that] er [of v] own Nil by auto
        then have "handed_ok x s'" using n by (simp add: handed_ok_def k)
        ultimately show ?thesis using True t0 one by auto
      next
        case (Cons y ys)
        then have n: "mtx_owner (mutexes k' x) = Some y" "lists k' (LMutex x) = ys"
          "mtx_hold (mutexes k' x) = 1" using k1(6) True one by (simp_all add: eq)
        have "wait_head (LMutex x)" "y \<in> set (lists ?k (LMutex x))" using Cons by simp_all
        from waiter_pending [OF inv this] obtain q where
          y: "pend s y = Some q" "wait_at q = Some (LMutex x)" "error_of ?k y = RT_EOK" by blast
        have wy: "waits_mutex x s y" using y by (simp add: waits_mutex_def)
        have "held x s' v = 0" for v using n(1) wy w by (auto simp: held_def k)
        moreover have "handed_ok x s'"
          unfolding handed_ok_def
        proof (intro allI impI)
          fix v assume v: "waits_mutex x s' v"
          have "v \<noteq> y \<Longrightarrow> v \<in> set ys \<or> error_of ?k v \<noteq> RT_EOK"
            using wait [OF v] own Cons by auto
          then show "if mtx_owner (mutexes (kern s') x) = Some v
            then mtx_hold (mutexes (kern s') x) = 1 \<and> error_of (kern s') v = RT_EOK
            else v \<in> set (lists (kern s') (LMutex x)) \<or> error_of (kern s') v \<noteq> RT_EOK"
            using n y(3) er [OF wait(1) [OF v]] by (auto simp: k)
        qed
        ultimately show ?thesis using True t0 one by auto
      qed
    qed
  qed
qed

lemma mutex_resume_held:
  assumes inv: "sys_inv C idle s" and cur: "current_thread (kern s) = Some t"
    and p: "pend s t = Some (PMutex x time)" and h: "handed_ok x s"
  defines "s' \<equiv> \<lparr>kern = kern s, pend = (pend s)(t := None)\<rparr>"
  shows "held x s' u = held x s u + (if u = t \<and> error_of (kern s) t = RT_EOK then 1 else 0)"
    "handed_ok x s'"
proof -
  have "th_ready (kern s) t" using inv cur by (auto simp: sys_inv_def current_ready_def)
  then have out: "t \<notin> set (lists (kern s) (LMutex x))"
    using pending_listed [OF inv p, of "LMutex x"] by simp
  have wt: "waits_mutex x s t" using p by (simp add: waits_mutex_def)
  have w: "waits_mutex x s' v \<longleftrightarrow> v \<noteq> t \<and> waits_mutex x s v" for v
    unfolding s'_def waits_mutex_upd by simp
  have k: "kern s' = kern s" by (simp add: s'_def)
  have t: "if mtx_owner (mutexes (kern s) x) = Some t
    then mtx_hold (mutexes (kern s) x) = 1 \<and> error_of (kern s) t = RT_EOK
    else error_of (kern s) t \<noteq> RT_EOK" using h wt out by (auto simp: handed_ok_def)
  show "held x s' u = held x s u + (if u = t \<and> error_of (kern s) t = RT_EOK then 1 else 0)"
    using t wt w [of u] by (auto simp: held_def k split: if_splits)
  show "handed_ok x s'" unfolding handed_ok_def k using h w unfolding handed_ok_def by blast
qed

lemma tick_held:
  assumes inv: "sys_inv C idle s" and e: "tick_effect (kern s) k'" and ok: "mutex_ok (kern s) x"
  defines "s' \<equiv> \<lparr>kern = k', pend = pend s\<rparr>"
  shows "held x s' u = held x s u" "handed_ok x s \<Longrightarrow> handed_ok x s'"
proof -
  let ?k = "kern s"
  have th: "if th_suspended ?k v \<and> \<not> th_suspended k' v then th_ready k' v \<and> error_of k' v = - RT_ETIMEOUT
     else stat_of k' v = stat_of ?k v \<and> error_of k' v = error_of ?k v" for v
    using e by (simp add: tick_effect_def)
  have l: "lists k' (LMutex x) = filter (th_suspended k') (lists ?k (LMutex x))"
    and mx: "mutexes k' = mutexes ?k" using e by (simp_all add: tick_effect_def)
  have w: "waits_mutex x s' v = waits_mutex x s v" for v by (simp add: waits_mutex_def s'_def)
  have k: "kern s' = k'" by (simp add: s'_def)
  show "held x s' u = held x s u" by (simp add: held_def w k mx)
  show "handed_ok x s'" if h: "handed_ok x s"
    unfolding handed_ok_def
  proof (intro allI impI)
    fix v assume "waits_mutex x s' v"
    then have v: "waits_mutex x s v" by (simp add: w)
    then obtain p where p: "pend s v = Some p" "wait_at p = Some (LMutex x)"
      by (auto simp: waits_mutex_def split: option.splits)
    have sus: "th_suspended ?k v \<longleftrightarrow> v \<in> set (lists ?k (LMutex x))" by (rule pending_listed [OF inv p])
    have old: "if mtx_owner (mutexes ?k x) = Some v
      then mtx_hold (mutexes ?k x) = 1 \<and> error_of ?k v = RT_EOK
      else v \<in> set (lists ?k (LMutex x)) \<or> error_of ?k v \<noteq> RT_EOK" using h v by (simp add: handed_ok_def)
    have "mtx_owner (mutexes ?k x) = Some v \<Longrightarrow> \<not> th_suspended ?k v"
      using ok sus by (simp add: mutex_ok_def)
    then show "if mtx_owner (mutexes (kern s') x) = Some v
      then mtx_hold (mutexes (kern s') x) = 1 \<and> error_of (kern s') v = RT_EOK
      else v \<in> set (lists (kern s') (LMutex x)) \<or> error_of (kern s') v \<noteq> RT_EOK"
      using old th [of v] sus l
      by (cases "th_suspended ?k v"; cases "th_suspended k' v") (auto simp: k mx rt_err_simps)
  qed
qed

lemma held_step:
  assumes st: "sys_step cb C idle s n s'" and inv: "sys_inv C idle s" and q: "quiet cb"
    and x: "OMutex x \<in> C" and h: "handed_ok x s"
  shows "held x s' u = held x s u + locks x u n \<and> handed_ok x s'"
  using st
proof cases
  case (call t c r k')
  note e = call_step_effect [OF inv call(3,4,6-8)]
  have ok: "mutex_ok (kern s) x" by (rule obj_in(2) [OF inv x])
  have nw: "\<not> waits_mutex x s t" using call(5) by (simp add: waits_mutex_def)
  show ?thesis
  proof (cases "OMutex x \<in> call_obj c")
    case False
    define q1 where "q1 = (if r = Blocked then Some (left_of c (tick (kern s))) else None)"
    have "wait_at (left_of c (tick (kern s))) \<noteq> Some (LMutex x)" using False by (cases c) auto
    then have q1: "wait_at p \<noteq> Some (LMutex x)" if "q1 = Some p" for p
      using that by (auto simp: q1_def split: if_splits)
    have "locks x u n = 0" using False call(1) by (cases c) auto
    then show ?thesis
      unfolding call(2) q1_def [symmetric] using held_kept [OF e(2) False nw q1] h by simp
  next
    case True
    then consider time where "c = CMutexTake x time" | "c = CMutexRelease x" by (cases c) auto
    then show ?thesis
    proof cases
      case 1
      then have "mtx_hold (mutexes (kern s) x) \<noteq> 0xff" "time < 0x7fffffff"
        "rt_mutex_take x time (kern s) = Some (r, k')" using call(7,8) by simp_all
      from mutex_take_held [OF e(1) call(5) ok this h, of u] show ?thesis
        using 1 by (auto simp: call(1,2))
    next
      case 2
      then obtain er where er: "rt_mutex_release x (kern s) = Some (er, k')" "r = Returned er"
        using call(8) by auto
      from mutex_release_held [OF inv e(1) call(5) ok er(1) h, of u] er(2) show ?thesis
        using 2 by (auto simp: call(1,2))
    qed
  qed
next
  case (resume t p r k')
  note e = resume_step_effect [OF inv resume(3-6)]
  show ?thesis
  proof (cases "OMutex x \<in> left_obj p")
    case True
    then obtain time where p: "p = PMutex x time" by (cases p) auto
    have "error_of (kern s) t \<in> {RT_EOK, - RT_ETIMEOUT, - RT_ERROR}"
      using e(3) p unfolding left_ok_def by simp
    then have "error_of (kern s) t \<noteq> - RT_EINTR" by (auto simp: rt_err_simps)
    then have "r = Returned (error_of (kern s) t)" "k' = kern s"
      using resume(6) p by (auto simp: rt_mutex_take_resumed_def split: if_splits)
    then have n: "n = Resumed t (PMutex x time) (Returned (error_of (kern s) t))"
      "s' = \<lparr>kern = kern s, pend = (pend s)(t := None)\<rparr>" using resume(1,2) p by simp_all
    have pt: "pend s t = Some (PMutex x time)" using resume(4) p by simp
    show ?thesis
      unfolding n using mutex_resume_held [OF inv resume(3) pt h] by simp
  next
    case False
    have "wait_at p \<noteq> Some (LMutex x)" using False by (cases p) auto
    then have nw: "\<not> waits_mutex x s t" "wait_at (left_again p (kern s)) \<noteq> Some (LMutex x)"
      using resume(4) by (simp_all add: waits_mutex_def left_props)
    define q1 where "q1 = (if r = Blocked then Some (left_again p (kern s)) else None)"
    have q1: "wait_at p \<noteq> Some (LMutex x)" if "q1 = Some p" for p
      using that nw(2) by (auto simp: q1_def split: if_splits)
    have "locks x u n = 0" using False resume(1) by (cases p) auto
    then show ?thesis
      unfolding resume(2) q1_def [symmetric] using held_kept [OF e(4) False nw(1) q1] h by simp
  qed
next
  case (tick k')
  note e = tick_step_effect [OF inv q tick(3)]
  show ?thesis
    using tick_held [OF inv e obj_in(2) [OF inv x]] h by (simp add: tick(1,2))
qed

text \<open>C4: mutexes exclude each other: over any run from a state in which the mutex is free, a
  thread has taken it more often than it has released it only if it is the owner, so never two
  threads at once; the count is the owner's \<open>hold\<close>.\<close>

theorem mutual_exclusion:
  assumes run: "sys_run cb C idle s ns s'" and inv: "sys_inv C idle s" and q: "quiet cb"
    and x: "OMutex x \<in> C" and free: "mtx_owner (mutexes (kern s) x) = None" "\<forall>t. \<not> waits_mutex x s t"
  shows "(\<forall>t. 0 \<le> sum_list (map (locks x t) ns)) \<and>
    (\<forall>t. 0 < sum_list (map (locks x t) ns) \<longrightarrow> mtx_owner (mutexes (kern s') x) = Some t \<and>
       sum_list (map (locks x t) ns) = uint (mtx_hold (mutexes (kern s') x))) \<and>
    (\<forall>t u. 0 < sum_list (map (locks x t) ns) \<longrightarrow> 0 < sum_list (map (locks x u) ns) \<longrightarrow> t = u)"
proof -
  have "handed_ok x s' \<and> (\<forall>t. held x s' t = sum_list (map (locks x t) ns))"
    using run inv free
  proof (induction rule: sys_run.induct)
    case (sys_start s)
    then show ?case by (simp add: handed_ok_def held_def)
  next
    case (sys_next s ns s' n s'')
    have ih: "handed_ok x s'" "\<And>t. held x s' t = sum_list (map (locks x t) ns)"
      using sys_next.IH sys_next.prems by auto
    have "sys_inv C idle s'" by (rule sys_run_inv [OF sys_next.hyps(1) sys_next.prems(1) q])
    from held_step [OF sys_next.hyps(2) this q x ih(1)] show ?case by (simp add: ih(2))
  qed
  then have sum: "sum_list (map (locks x t) ns) = held x s' t" for t by simp
  show ?thesis unfolding sum held_def by auto
qed

section \<open>Progress\<close>

text \<open>C1: in every reachable state there is a ready running thread, and whatever it does next
  returns or suspends it: no call that respects its conditions, no resumed call and no tick
  interrupt fails an assertion, follows a null pointer or loops for ever.\<close>

theorem system_progress:
  assumes run: "sys_run cb C idle s ns s'" and inv: "sys_inv C idle s" and q: "quiet cb"
  shows "\<exists>t. current_thread (kern s') = Some t \<and> th_ready (kern s') t \<and>
    (case pend s' t of
       None \<Rightarrow> \<forall>c. t \<noteq> idle \<longrightarrow> call_obj c \<subseteq> C \<longrightarrow> sys_call_ok c (kern s') \<longrightarrow>
         (\<exists>r k. do_call c (kern s') = Some (r, k) \<and> (r = Blocked \<longleftrightarrow> th_suspended k t))
     | Some p \<Rightarrow> in_time p (kern s') \<longrightarrow>
         (\<exists>r k. do_resume p t (kern s') = Some (r, k) \<and> (r = Blocked \<longleftrightarrow> th_suspended k t))) \<and>
    (\<exists>k. SysTick_Handler cb (kern s') = Some k \<and> tick k = tick (kern s') + 1)"
proof -
  have i: "sys_inv C idle s'" by (rule sys_run_inv [OF run inv q])
  then have k: "kinv 0 (kern s')" "periods_ok (kern s')" "current_ready (kern s')"
    "scheduler_lock_nest (kern s') = 0" by (simp_all add: sys_inv_def)
  obtain t where t: "current_thread (kern s') = Some t" "th_ready (kern s') t"
    using k(3) by (auto simp: current_ready_def)
  obtain kt where kt: "SysTick_Handler cb (kern s') = Some kt" "tick_effect (kern s') kt"
    by (rule systick_effect [OF k(1,2) q k(3,4)])
  have blk: "r = Blocked \<longleftrightarrow> th_suspended k t" if "stops_at t p r k" for r k p
    using that by (auto simp: stops_at_def split: if_splits)
  have "case pend s' t of
       None \<Rightarrow> \<forall>c. t \<noteq> idle \<longrightarrow> call_obj c \<subseteq> C \<longrightarrow> sys_call_ok c (kern s') \<longrightarrow>
         (\<exists>r k. do_call c (kern s') = Some (r, k) \<and> (r = Blocked \<longleftrightarrow> th_suspended k t))
     | Some p \<Rightarrow> in_time p (kern s') \<longrightarrow>
         (\<exists>r k. do_resume p t (kern s') = Some (r, k) \<and> (r = Blocked \<longleftrightarrow> th_suspended k t))"
  proof (cases "pend s' t")
    case None
    have "\<exists>r k. do_call c (kern s') = Some (r, k) \<and> (r = Blocked \<longleftrightarrow> th_suspended k t)"
      if "t \<noteq> idle" "call_obj c \<subseteq> C" "sys_call_ok c (kern s')" for c
    proof -
      have "\<forall>ob \<in> call_obj c. obj_ok (kern s') ob" using i that(2) by (auto simp: sys_inv_def)
      from call_runs [OF inv_may_block [OF i t(1) that(1)] this that(3)] blk show ?thesis
        unfolding runs_def by meson
    qed
    then show ?thesis using None by simp
  next
    case (Some p)
    have "\<exists>r k. do_resume p t (kern s') = Some (r, k) \<and> (r = Blocked \<longleftrightarrow> th_suspended k t)"
      if "in_time p (kern s')"
    proof -
      have l: "left_ok C (kern s') t p" by (rule inv_left_ok [OF i Some])
      have ti: "t \<noteq> idle" using i Some by (auto simp: sys_inv_def)
      have "\<forall>ob \<in> left_obj p. obj_ok (kern s') ob" using i l by (auto simp: sys_inv_def left_ok_def)
      from resume_runs [OF inv_may_block [OF i t(1) ti] l this that] blk show ?thesis
        unfolding runs_def by meson
    qed
    then show ?thesis using Some by simp
  qed
  then show ?thesis using t kt by (auto simp: tick_effect_def)
qed

section \<open>Witnesses\<close>

text \<open>Thread 1 runs, thread 2 sleeps, thread 0 is the idle thread.\<close>

definition demo_sys :: system where
  "demo_sys = \<lparr>kern = demo_run, pend = [2 \<mapsto> PSleep]\<rparr>"

abbreviation "skip_cb \<equiv> (\<lambda>_. Some) :: callbacks"

abbreviation "demo_objs \<equiv> {OSem 5, OMutex 5}"

lemma quiet_skip: "quiet skip_cb"
  using calm_skip timers_only_refl by (simp add: quiet_def same_timer_def)

lemma demo_sys_simps [simp]: "kern demo_sys = demo_run" "pend demo_sys = [2 \<mapsto> PSleep]"
  by (simp_all add: demo_sys_def)

lemma demo_sys_inv: "sys_inv demo_objs 0 demo_sys"
proof -
  have th: "th_suspended demo_run u \<longleftrightarrow> u = 2" for u
    by (simp add: stat_of_def demo_run_def demo_kernel_def demo_thread_def)
  have "periods_ok demo_run" by (simp add: periods_ok_def tm_periodic_def demo_run_def demo_kernel_def)
  moreover have "current_ready demo_run" "th_ready demo_run 0"
    unfolding current_ready_def using demo_facts(4,5,7) by blast+
  moreover have "obj_ok demo_run (OSem 5)" "obj_ok demo_run (OMutex 5)"
    by (simp_all add: sem_ok_def mutex_ok_def flag_ok_def demo_run_def demo_kernel_def)
  moreover have "in_lists demo_run 2 = {}"
    by (simp add: in_lists_def demo_run_def demo_kernel_def)
  then have "left_ok demo_objs demo_run 2 PSleep" by (simp add: left_ok_def)
  ultimately show ?thesis
    unfolding sys_inv_def demo_sys_simps using demo_run_inv(1)
    by (intro conjI allI) (auto simp: th)
qed

lemma demo_start: "sys_run skip_cb demo_objs 0 demo_sys [] demo_sys"
  by (rule sys_run.sys_start)

lemma semaphore_conservation_witness:
  "\<exists>s'. sys_run skip_cb demo_objs 0 demo_sys [Called 1 (CSemRelease 5) (Returned RT_EOK),
       Called 1 (CSemTake 5 0) (Returned RT_EOK)] s' \<and>
     unat (sem_value (sems (kern s') 5)) = 0 \<and> granted 5 s' = {}"
proof -
  let ?k1 = "upd_sem 5 (\<lambda>sm. sm\<lparr>sem_value := sem_value sm + 1\<rparr>) demo_run"
  let ?k2 = "upd_sem 5 (\<lambda>sm. sm\<lparr>sem_value := sem_value sm - 1\<rparr>) ?k1"
  let ?s1 = "\<lparr>kern = ?k1, pend = [2 \<mapsto> PSleep]\<rparr>" and ?s2 = "\<lparr>kern = ?k2, pend = [2 \<mapsto> PSleep]\<rparr>"
  have l: "lists demo_run (LSem 5) = []" "sem_value (sems demo_run 5) = 0"
    by (simp_all add: demo_run_def demo_kernel_def)
  have p: "[2 :: nat \<mapsto> PSleep](1 := None) = [2 \<mapsto> PSleep]" by auto
  have "sys_step skip_cb demo_objs 0 demo_sys (Called 1 (CSemRelease 5) (Returned RT_EOK))
      \<lparr>kern = ?k1, pend = (pend demo_sys)(1 := if Returned RT_EOK = Blocked
         then Some (left_of (CSemRelease 5) (tick (kern demo_sys))) else None)\<rparr>"
    by (rule sys_step.call) (simp_all add: rt_sem_release_def l)
  then have 1: "sys_step skip_cb demo_objs 0 demo_sys (Called 1 (CSemRelease 5) (Returned RT_EOK)) ?s1"
    by (simp add: p)
  have "sys_step skip_cb demo_objs 0 ?s1 (Called 1 (CSemTake 5 0) (Returned RT_EOK))
      \<lparr>kern = ?k2, pend = (pend ?s1)(1 := if Returned RT_EOK = Blocked
         then Some (left_of (CSemTake 5 0) (tick (kern ?s1))) else None)\<rparr>"
    by (rule sys_step.call) (simp_all add: rt_sem_take_def l)
  then have 2: "sys_step skip_cb demo_objs 0 ?s1 (Called 1 (CSemTake 5 0) (Returned RT_EOK)) ?s2"
    by (simp add: p)
  have run: "sys_run skip_cb demo_objs 0 demo_sys [Called 1 (CSemRelease 5) (Returned RT_EOK),
       Called 1 (CSemTake 5 0) (Returned RT_EOK)] ?s2"
    using sys_run.sys_next [OF sys_run.sys_next [OF demo_start 1] 2] by simp
  have "OSem 5 \<in> demo_objs" "granted 5 demo_sys = {}" by (simp_all add: granted_def)
  from semaphore_conservation [OF run demo_sys_inv quiet_skip this] l
  have "unat (sem_value (sems (kern ?s2) 5)) = 0" by simp
  moreover have "granted 5 ?s2 = {}" by (simp add: granted_def)
  ultimately show ?thesis using run by blast
qed

lemma mutual_exclusion_witness:
  "\<exists>s'. sys_run skip_cb demo_objs 0 demo_sys [Called 1 (CMutexTake 5 0) (Returned RT_EOK)] s' \<and>
     mtx_owner (mutexes (kern s') 5) = Some 1"
proof -
  let ?c = "CMutexTake 5 0"
  have m: "mtx_owner (mutexes demo_run 5) = None" "mtx_value (mutexes demo_run 5) = 1"
    "mtx_hold (mutexes demo_run 5) = 0" by (simp_all add: demo_run_def demo_kernel_def)
  have ctx: "in_thread_context demo_run" "rt_thread_self demo_run = Some 1"
    by (simp_all add: in_thread_context_def rt_thread_self_def)
  obtain k' where k': "rt_mutex_take 5 0 demo_run = Some (Returned RT_EOK, k')"
    using m ctx by (simp add: rt_mutex_take_def rt_mutex_take_again.simps)
  have s: "sys_step skip_cb demo_objs 0 demo_sys (Called 1 ?c (Returned RT_EOK))
      \<lparr>kern = k', pend = (pend demo_sys)(1 := if Returned RT_EOK = Blocked
         then Some (left_of ?c (tick (kern demo_sys))) else None)\<rparr>" (is "sys_step _ _ _ _ _ ?s")
    by (rule sys_step.call) (simp_all add: k' m)
  have run: "sys_run skip_cb demo_objs 0 demo_sys [Called 1 ?c (Returned RT_EOK)] ?s"
    using sys_run.sys_next [OF demo_start s] by simp
  have "OMutex 5 \<in> demo_objs" "mtx_owner (mutexes (kern demo_sys) 5) = None"
    "\<forall>t. \<not> waits_mutex 5 demo_sys t" using m by (auto simp: waits_mutex_def)
  from mutual_exclusion [OF run demo_sys_inv quiet_skip this]
  have "0 < sum_list (map (locks 5 1) [Called 1 ?c (Returned RT_EOK)]) \<longrightarrow>
    mtx_owner (mutexes (kern ?s) 5) = Some 1" by blast
  then show ?thesis using run by auto
qed

lemma system_progress_witness:
  "\<exists>r k. do_call (CSemTake 5 100) demo_run = Some (r, k) \<and> (r = Blocked \<longleftrightarrow> th_suspended k 1)"
proof -
  have "\<forall>c. call_obj c \<subseteq> demo_objs \<longrightarrow> sys_call_ok c demo_run \<longrightarrow>
      (\<exists>r k. do_call c demo_run = Some (r, k) \<and> (r = Blocked \<longleftrightarrow> th_suspended k 1))"
    using system_progress [OF demo_start demo_sys_inv quiet_skip] by auto
  from this [rule_format, of "CSemTake 5 100"] show ?thesis by simp
qed

lemma system_well_typed_witness:
  "prio_of demo_run 1 < RT_THREAD_PRIORITY_MAX \<and> bitmap_ok demo_run"
  using system_well_typed [OF demo_start demo_sys_inv quiet_skip] by simp

lemma system_invariant_witness:
  "mutex_ok demo_run 5 \<and> (\<forall>u. u \<notin> set (lists demo_run (LMutex 5)))"
proof -
  note i = system_invariant [OF demo_start demo_sys_inv quiet_skip]
  have "wait_head (LMutex 5)" by simp
  then show ?thesis using i by (auto split: if_splits)
qed

end
