(* ===== verification/KTime.thy ===== *)
theory KTime
  imports KSafety
begin

text \<open>
  Time in the system of KSystem: a call that waits with a timeout waits no longer than that many
  ticks, and a sleep lasts exactly as many ticks as it asks for, whatever the other threads, the
  interrupt and the timers of the application do meanwhile.
\<close>

section \<open>Arming the timer of the caller\<close>

definition armed :: "kernel \<Rightarrow> nat \<Rightarrow> u32 \<Rightarrow> bool" where
  "armed k t e \<longleftrightarrow> TThread t \<in> set (timer_list k) \<and> timeout_of k (TThread t) = e"

lemma tick_upd_timer [simp]: "tick (upd_timer i f k) = tick k"
  by (simp add: upd_timer_def)

lemma start_armed:
  assumes "start_thread_timer t time k = Some k'"
  shows "armed k' t (tick k + time)" "tick k' = tick k"
  using assms unfolding start_thread_timer_def armed_def
  by (auto simp: rt_timer_start_eq rt_timer_control_def Let_def split: if_splits)

lemma schedule_armed:
  assumes "rt_schedule k = Some k'" "armed k t e" shows "armed k' t e"
  using assms(2) switch_only_frame [OF schedule_switch_only [OF assms(1)]] by (simp add: armed_def)

lemma arm_armed:
  "arm_and_schedule time t k = Some k' \<Longrightarrow> 0 < time \<Longrightarrow> armed k' t (tick k + word_of_int time)"
  unfolding arm_and_schedule_def using start_armed schedule_armed by (auto split: bind_splits)

lemma suspend_current_armed:
  assumes "suspend_current h flag time t k = Some k'" "0 < time"
  shows "armed k' t (tick k + word_of_int time)"
proof -
  have "tick (rt_ipc_list_suspend h t flag k) = tick k"
    by (simp add: rt_ipc_list_suspend_def rt_thread_suspend_def rt_timer_stop_def Let_def
        list_insert_before_def clear_tflag_def timer_remove_def set_stat_def)
  then show ?thesis
    using arm_armed [of time t "rt_ipc_list_suspend h t flag k" k'] assms by (simp add: suspend_current_def)
qed

text \<open>The timeout of a call.\<close>

fun call_time :: "sys_call \<Rightarrow> int" where
  "call_time (CSemTake s time) = time"
| "call_time (CMutexTake m time) = time"
| "call_time (CEventRecv e bits opt time) = time"
| "call_time (CMbSend m v time) = time"
| "call_time (CMbRecv m time) = time"
| "call_time (CMqRecv m sz time) = time"
| "call_time (CSleep tk) = uint tk"
| "call_time _ = 0"

text \<open>The caller is not the running thread once it is suspended.\<close>

lemma suspended_elsewhere:
  assumes m: "may_block k t" and h: "wait_head h" "h \<in> heads_of ob" and f: "flag_ok flag"
    and t: "time < 0x7fffffff" and s: "suspend_current h flag time t k = Some k'"
  shows "current_thread k' \<noteq> Some t"
  using effect_block [OF m h f t] s by (metis option.inject)

lemma take_again_armed:
  assumes m: "may_block k t" and fl: "flag_ok (mtx_flag (mutexes k x))"
    and tm: "0 < time" "time < 0x7fffffff" and ow: "mtx_owner (mutexes k x) = Some ow" "ow \<noteq> t"
    and r: "rt_mutex_take_again x time t k = Some (Blocked, k')"
  shows "armed k' t (tick k + word_of_int time)"
proof -
  note b = may_block_ready [OF m]
  obtain k1 where k1: "inherit_priority x t k = Some k1" "effect t {OMutex x} k k1" "core_only k k1"
    "current_thread k1 = current_thread k" "\<forall>u. stat_of k1 u = stat_of k u"
    using inherit_effect [OF _ _ ow, where a = t] b by metis
  note f = core_only_frame [OF k1(3)]
  have m1: "may_block k1 t" using m k1(2) by (auto simp: may_block_def k1(4,5) f effect_def)
  have fl1: "flag_ok (mtx_flag (mutexes k1 x))" using fl by (simp add: f)
  obtain k2 where k2: "suspend_current (LMutex x) (mtx_flag (mutexes k1 x)) time t k1 = Some k2"
    "current_thread k2 \<noteq> Some t"
    by (rule effect_block [OF m1 _ _ fl1 tm(2), of "LMutex x" "OMutex x"]) simp_all
  have "k' = k2" using r k1(1) k2 tm by (subst (asm) rt_mutex_take_again.simps) (simp split: if_splits)
  then show ?thesis using suspend_current_armed [OF k2(1) tm(1)] by (simp add: f)
qed

lemma mb_send_armed:
  assumes m: "may_block k t" and ok: "mb_ok (mailboxes k x)" and tm: "0 < time" "time < 0x7fffffff"
    and r: "mb_send_loop x v time (Some t) k = Some (Blocked, k')"
  shows "armed k' t (tick k + word_of_int time)"
proof -
  let ?k = "set_error t RT_EOK k"
  have fl: "flag_ok (mb_flag (mailboxes ?k x))" using ok by (simp add: mb_ok_def)
  obtain k2 where k2: "suspend_current (LMbSender x) (mb_flag (mailboxes ?k x)) time t ?k = Some k2"
    "current_thread k2 \<noteq> Some t"
    by (rule effect_block [OF may_block_set_error [OF m] _ _ fl tm(2), of "LMbSender x" "OMb x"]) simp_all
  have "k' = k2" using r k2 tm
    by (subst (asm) mb_send_loop.simps) (auto simp: mb_send_end_def Let_def split: if_splits bind_splits)
  then show ?thesis using suspend_current_armed [OF k2(1) tm(1)] by simp
qed

lemma mb_recv_armed:
  assumes m: "may_block k t" and ok: "mb_ok (mailboxes k x)" and tm: "0 < time" "time < 0x7fffffff"
    and r: "mb_recv_loop x time (Some t) k = Some (Blocked, got, k')"
  shows "armed k' t (tick k + word_of_int time)"
proof -
  let ?k = "set_error t RT_EOK k"
  have fl: "flag_ok (mb_flag (mailboxes ?k x))" using ok by (simp add: mb_ok_def)
  obtain k2 where k2: "suspend_current (LMb x) (mb_flag (mailboxes ?k x)) time t ?k = Some k2"
    "current_thread k2 \<noteq> Some t"
    by (rule effect_block [OF may_block_set_error [OF m] _ _ fl tm(2), of "LMb x" "OMb x"]) simp_all
  have "k' = k2" using r k2 tm
    by (subst (asm) mb_recv_loop.simps)
      (auto simp: mb_recv_end_def Let_def split: if_splits bind_splits prod.splits)
  then show ?thesis using suspend_current_armed [OF k2(1) tm(1)] by simp
qed

lemma mq_recv_armed:
  assumes m: "may_block k t" and ok: "mq_ok (msgqueues k x) {}" and tm: "0 < time" "time < 0x7fffffff"
    and r: "mq_recv_loop x sz time (Some t) k = Some (Blocked, got, k')"
  shows "armed k' t (tick k + word_of_int time)"
proof -
  let ?k = "set_error t RT_EOK k"
  have fl: "flag_ok (mq_flag (msgqueues ?k x))" using ok by (auto simp: mq_ok_def mq_rep_def)
  obtain k2 where k2: "suspend_current (LMq x) (mq_flag (msgqueues ?k x)) time t ?k = Some k2"
    "current_thread k2 \<noteq> Some t"
    by (rule effect_block [OF may_block_set_error [OF m] _ _ fl tm(2), of "LMq x" "OMq x"]) simp_all
  have "k' = k2" using r k2 tm
    by (subst (asm) mq_recv_loop.simps)
      (auto simp: mq_recv_end_def Let_def split: if_splits bind_splits prod.splits)
  then show ?thesis using suspend_current_armed [OF k2(1) tm(1)] by simp
qed

lemma call_armed:
  assumes m: "may_block k t" and ok: "\<forall>ob \<in> call_obj c. obj_ok k ob" and c: "sys_call_ok c k"
    and r: "do_call c k = Some (Blocked, k')" and pos: "0 < call_time c"
  shows "armed k' t (tick k + word_of_int (call_time c))"
proof -
  note b = may_block_ready [OF m] and x = may_block_ctx [OF m]
  have sc: "armed k2 t (tick k + word_of_int time)"
    if "suspend_current h flag time t k1 = Some k2" "tick k1 = tick k" "0 < time" for h flag time k1 k2
    using suspend_current_armed [OF that(1,3)] that(2) by simp
  show ?thesis
  proof (cases c)
    case (CSemTake s time)
    then show ?thesis using r x pos sc
      by (auto simp: rt_sem_take_def after_schedule_def rt_sem_take_resumed_def split: if_splits bind_splits)
  next
    case (CMutexTake mx time)
    let ?k = "set_error t RT_EOK k"
    have mo: "mutex_ok k mx" "time < 0x7fffffff" using ok c CMutexTake by simp_all
    have r': "(if mtx_owner (mutexes k mx) = Some t
        then Some (Returned RT_EOK, upd_mutex mx (\<lambda>mx. mx\<lparr>mtx_hold := mtx_hold mx + 1\<rparr>) ?k)
        else rt_mutex_take_again mx time t ?k) = Some (Blocked, k')"
      using r CMutexTake x by (simp add: rt_mutex_take_def Let_def)
    then have a: "rt_mutex_take_again mx time t ?k = Some (Blocked, k')" "mtx_owner (mutexes k mx) \<noteq> Some t"
      by (auto split: if_splits)
    obtain ow where ow: "mtx_owner (mutexes k mx) = Some ow"
      using a(1) mo(1) by (cases "mtx_owner (mutexes k mx)")
        (auto simp: mutex_ok_def rt_mutex_take_again.simps)
    have "armed k' t (tick ?k + word_of_int time)"
      by (rule take_again_armed [OF may_block_set_error [OF m] _ _ mo(2) _ _ a(1)])
        (use ow a(2) pos CMutexTake owned_simps [OF mo(1) ow] in simp_all)
    then show ?thesis using CMutexTake by simp
  next
    case (CEventRecv e bits opt time)
    then show ?thesis using r x pos sc
      by (auto simp: rt_event_recv_def rt_event_recv_resumed_def Let_def split: if_splits bind_splits)
  next
    case (CMbSend mb v time)
    then show ?thesis using r x pos ok c
      by (auto simp: rt_mb_send_wait_def intro: mb_send_armed [OF m] split: if_splits)
  next
    case (CMbRecv mb time)
    then show ?thesis using r x pos ok c
      by (auto simp: rt_mb_recv_def intro: mb_recv_armed [OF m] split: if_splits)
  next
    case (CMqRecv mq sz time)
    then show ?thesis using r x pos ok c
      by (auto simp: rt_mq_recv_def rt_assert_def intro: mq_recv_armed [OF m] split: if_splits)
  next
    case (CSleep tk)
    obtain k2 where k2: "start_thread_timer t tk (snd (rt_thread_suspend t k)) = Some k2" "rt_schedule k2 = Some k'"
      using r CSleep b by (auto simp: rt_thread_sleep_def after_schedule_def rt_thread_sleep_resumed_def Let_def split: bind_splits if_splits)
    have "tick (snd (rt_thread_suspend t k)) = tick k"
      using suspend_spec [of 0 k t] b by (auto simp: core_only_frame)
    then show ?thesis using schedule_armed [OF k2(2) start_armed(1) [OF k2(1)]] CSleep by simp
  qed (use pos in simp_all)
qed

section \<open>A waiting thread while the others run\<close>

definition ticks_in :: "act list \<Rightarrow> nat" where
  "ticks_in ns = count_list ns Ticked"

definition not_resumed :: "nat \<Rightarrow> act list \<Rightarrow> bool" where
  "not_resumed t ns \<longleftrightarrow> (\<forall>p r. Resumed t p r \<notin> set ns)"

text \<open>One step of the system in which the thread \<open>t\<close> does not run again.\<close>

lemma others_step:
  assumes e: "effect u D k k'" and u: "u \<noteq> t"
  shows "tick k' = tick k" "th_suspended k' t \<Longrightarrow> th_suspended k t \<and> same_timer k k' t"
    "th_suspended k t \<Longrightarrow> in_lists k t = {} \<Longrightarrow> th_suspended k' t"
proof -
  have tk: "threads_kept u k k'" "timers_safe u k k'" "tick k' = tick k" using e by (simp_all add: effect_def)
  show "tick k' = tick k" by (rule tk)
  note kt = tk(1) [unfolded threads_kept_def, rule_format, OF u [symmetric]]
  show "th_suspended k t \<and> same_timer k k' t" if s: "th_suspended k' t"
  proof
    show "th_suspended k t" using kt s by simp
    have "TThread t \<notin> TThread ` insert u {v. \<not> th_suspended k' v}" using u s by auto
    then show "same_timer k k' t"
      using tk(2) unfolding timers_safe_def timers_kept_def same_timer_def by blast
  qed
  show "th_suspended k' t" if "th_suspended k t" "in_lists k t = {}"
    using kt that by blast
qed

lemma waiting_step:
  assumes st: "sys_step cb C idle s n s'" and inv: "sys_inv C idle s" and q: "quiet cb"
    and p: "pend s t = Some p" and nr: "\<forall>p r. n \<noteq> Resumed t p r"
  shows "pend s' t = Some p" "tick (kern s') = tick (kern s) + (if n = Ticked then 1 else 0)"
    "th_suspended (kern s') t \<Longrightarrow> th_suspended (kern s) t \<and> same_timer (kern s) (kern s') t"
    "n = Ticked \<Longrightarrow> th_suspended (kern s') t \<Longrightarrow> TThread t \<in> set (timer_list (kern s')) \<Longrightarrow>
       \<not> expired (kern s') (TThread t)"
    "n \<noteq> Ticked \<Longrightarrow> th_suspended (kern s) t \<Longrightarrow> in_lists (kern s) t = {} \<Longrightarrow> th_suspended (kern s') t"
    "n = Ticked \<Longrightarrow> th_suspended (kern s) t \<Longrightarrow> \<not> th_suspended (kern s') t \<Longrightarrow>
       tick (kern s) + 1 - timeout_of (kern s) (TThread t) < TICK_HALF"
proof -
  have other: "pend s' t = Some p \<and> n \<noteq> Ticked \<and> (\<exists>u D. u \<noteq> t \<and> effect u D (kern s) (kern s'))" if "n \<noteq> Ticked"
    using st
  proof cases
    case (call u c r k')
    have m: "may_block (kern s) u" by (rule inv_may_block [OF inv call(3,4)])
    have "\<forall>ob \<in> call_obj c. obj_ok (kern s) ob" using inv call(6) by (auto simp: sys_inv_def)
    from call_runs [OF m this call(7), of "tick (kern s)"] call(8)
    have e: "effect u (call_obj c) (kern s) k'" by (auto simp: runs_def)
    have "u \<noteq> t" using call(5) p by auto
    then show ?thesis using e call(1,2) p by auto
  next
    case (resume u x r k')
    have l: "left_ok C (kern s) u x" using inv resume(4) by (auto simp: sys_inv_def split: option.splits)
    have i: "u \<noteq> idle" using inv resume(4) by (auto simp: sys_inv_def)
    have m: "may_block (kern s) u" by (rule inv_may_block [OF inv resume(3) i])
    have "\<forall>ob \<in> left_obj x. obj_ok (kern s) ob" using inv l by (auto simp: sys_inv_def left_ok_def)
    from resume_runs [OF m l this resume(5)] resume(6)
    have e: "effect u (left_obj x) (kern s) k'" by (auto simp: runs_def)
    have "u \<noteq> t" using nr resume(1) by blast
    then show ?thesis using e resume(1,2) p by auto
  next
    case (tick k')
    then show ?thesis using that by simp
  qed
  have tk: "pend s' t = Some p \<and> tick_effect (kern s) (kern s') \<and>
      (\<forall>i \<in> set (timer_list (kern s')). \<not> expired (kern s') i)" if "n = Ticked"
    using st that
  proof cases
    case (tick k')
    have "kinv 0 (kern s)" "periods_ok (kern s)" "current_ready (kern s)" "scheduler_lock_nest (kern s) = 0"
      using inv by (simp_all add: sys_inv_def)
    from systick_effect [OF this(1,2) q this(3,4)] tick(3)
    have "tick_effect (kern s) k'" "\<forall>i \<in> set (timer_list k'). \<not> expired k' i" by force+
    then show ?thesis using tick(2) p by simp
  qed simp_all
  have te: "th_suspended (kern s') t \<Longrightarrow> th_suspended (kern s) t \<and> same_timer (kern s) (kern s') t"
    "th_suspended (kern s) t \<Longrightarrow> \<not> th_suspended (kern s') t \<Longrightarrow>
       tick (kern s) + 1 - timeout_of (kern s) (TThread t) < TICK_HALF"
    "tick (kern s') = tick (kern s) + 1" if "n = Ticked"
  proof -
    note e = tk [OF that, THEN conjunct2, THEN conjunct1, unfolded tick_effect_def]
    have a: "if th_suspended (kern s) t \<and> \<not> th_suspended (kern s') t
         then th_ready (kern s') t \<and> error_of (kern s') t = - RT_ETIMEOUT \<and>
           TThread t \<in> set (timer_list (kern s)) \<and>
           tick (kern s) + 1 - timeout_of (kern s) (TThread t) < TICK_HALF
         else stat_of (kern s') t = stat_of (kern s) t \<and> error_of (kern s') t = error_of (kern s) t"
      using e by blast
    have b: "th_suspended (kern s') t \<longrightarrow> same_timer (kern s) (kern s') t" using e by blast
    show "th_suspended (kern s') t \<Longrightarrow> th_suspended (kern s) t \<and> same_timer (kern s) (kern s') t"
      using a b by (simp split: if_splits)
    show "th_suspended (kern s) t \<Longrightarrow> \<not> th_suspended (kern s') t \<Longrightarrow>
       tick (kern s) + 1 - timeout_of (kern s) (TThread t) < TICK_HALF" using a by simp
    show "tick (kern s') = tick (kern s) + 1" using e by blast
  qed
  show "pend s' t = Some p" using other tk by blast
  show "tick (kern s') = tick (kern s) + (if n = Ticked then 1 else 0)"
    using other others_step(1) te(3) by (cases "n = Ticked") auto
  show "th_suspended (kern s') t \<Longrightarrow> th_suspended (kern s) t \<and> same_timer (kern s) (kern s') t"
    using other others_step(2) te(1) by (cases "n = Ticked") blast+
  show "n = Ticked \<Longrightarrow> th_suspended (kern s') t \<Longrightarrow> TThread t \<in> set (timer_list (kern s')) \<Longrightarrow>
       \<not> expired (kern s') (TThread t)" using tk by blast
  show "n \<noteq> Ticked \<Longrightarrow> th_suspended (kern s) t \<Longrightarrow> in_lists (kern s) t = {} \<Longrightarrow> th_suspended (kern s') t"
    using other others_step(3) by blast
  show "n = Ticked \<Longrightarrow> th_suspended (kern s) t \<Longrightarrow> \<not> th_suspended (kern s') t \<Longrightarrow>
       tick (kern s) + 1 - timeout_of (kern s) (TThread t) < TICK_HALF" by (rule te(2))
qed

text \<open>Word arithmetic on ticks: \<open>m\<close> ticks after it was armed for \<open>d\<close> ticks, a timer is due when
  \<open>d \<le> m\<close>.\<close>

lemma not_due:
  assumes "0 < n" "n < 2 ^ 31" shows "\<not> - (of_nat n :: u32) < TICK_HALF"
proof -
  have neg: "- (of_nat n :: u32) = of_nat (2 ^ 32 - n)" using assms by (simp add: of_nat_diff)
  have "unat (of_nat (2 ^ 32 - n) :: u32) = 2 ^ 32 - n"
    using assms by (subst unat_of_nat) (simp add: take_bit_nat_eq_self)
  then have "unat (- (of_nat n :: u32)) = 2 ^ 32 - n" by (simp only: neg)
  then show ?thesis using assms by (simp add: word_less_nat_alt)
qed

lemma due_iff:
  assumes "m \<le> d" "d < 2 ^ 31"
  shows "(b + of_nat m) - (b + of_nat d) < TICK_HALF \<longleftrightarrow> m = d"
proof -
  have "(b + of_nat m) - (b + of_nat d) = - (of_nat (d - m) :: u32)" using assms(1) by (simp add: of_nat_diff)
  then show ?thesis using not_due [of "d - m"] assms by (cases "m = d") simp_all
qed

text \<open>The state of the thread \<open>t\<close> during a run that starts when its timer was armed for \<open>d\<close> ticks.\<close>

lemma waiting_run:
  assumes run: "sys_run cb C idle s ns s'" and inv: "sys_inv C idle s" and q: "quiet cb"
    and p: "pend s t = Some p" and nr: "not_resumed t ns" and d: "0 < d" "d < 2 ^ 31"
    and arm: "armed (kern s) t (tick (kern s) + of_nat d)" and sus: "th_suspended (kern s) t"
  shows "pend s' t = Some p \<and> tick (kern s') = tick (kern s) + of_nat (ticks_in ns) \<and>
    (th_suspended (kern s') t \<longrightarrow> ticks_in ns < d \<and> armed (kern s') t (tick (kern s) + of_nat d)) \<and>
    (wait_at p = None \<longrightarrow> ticks_in ns < d \<longrightarrow> th_suspended (kern s') t)"
  using run inv p nr arm sus
proof induction
  case (sys_start s)
  then show ?case using d by (simp add: ticks_in_def)
next
  case (sys_next s ns s1 n s2)
  note inv = sys_next.prems(1) and p = sys_next.prems(2) and arm = sys_next.prems(4,5)
  have nr1: "not_resumed t ns" and nr: "\<forall>p r. n \<noteq> Resumed t p r"
    using sys_next.prems by (auto simp: not_resumed_def)
  note ih = sys_next.IH [OF inv p nr1 arm]
  have inv1: "sys_inv C idle s1" by (rule sys_run_inv [OF sys_next.hyps(1) inv q])
  have p1: "pend s1 t = Some p" using ih by simp
  note w = waiting_step [OF sys_next.hyps(2) inv1 q p1 nr]
  have tk: "ticks_in (ns @ [n]) = ticks_in ns + (if n = Ticked then 1 else 0)"
    by (simp add: ticks_in_def count_list_append)
  then have tick2: "tick (kern s2) = tick (kern s) + of_nat (ticks_in (ns @ [n]))"
    using w(2) ih by simp
  have a2: "ticks_in (ns @ [n]) < d \<and> armed (kern s2) t (tick (kern s) + of_nat d)"
    if s2: "th_suspended (kern s2) t"
  proof -
    have s1: "th_suspended (kern s1) t" "same_timer (kern s1) (kern s2) t" using w(3) [OF s2] by simp_all
    then have arm2: "armed (kern s2) t (tick (kern s) + of_nat d)"
      using ih by (simp add: armed_def same_timer_def)
    have lt: "ticks_in ns < d" using ih s1 by simp
    have "ticks_in ns + 1 \<noteq> d" if "n = Ticked"
    proof
      assume eq: "ticks_in ns + 1 = d"
      have "\<not> expired (kern s2) (TThread t)" using w(4) [OF that s2] arm2 by (simp add: armed_def)
      then show False using arm2 tick2 tk that eq by (simp add: expired_def armed_def)
    qed
    then show ?thesis using arm2 lt tk by auto
  qed
  have "th_suspended (kern s2) t" if sl: "wait_at p = None" "ticks_in (ns @ [n]) < d"
  proof -
    have lt: "ticks_in ns < d" using sl(2) tk by (simp split: if_splits)
    then have s1: "th_suspended (kern s1) t" "armed (kern s1) t (tick (kern s) + of_nat d)"
      using ih sl(1) by simp_all
    have "left_ok C (kern s1) t p" using inv1 p1 by (auto simp: sys_inv_def split: option.splits)
    then have out: "in_lists (kern s1) t = {}" using s1(1) sl(1) by (simp add: left_ok_def)
    show ?thesis
    proof (cases "n = Ticked")
      case True
      have "\<not> tick (kern s1) + 1 - timeout_of (kern s1) (TThread t) < TICK_HALF"
      proof -
        have "tick (kern s1) + 1 = tick (kern s) + of_nat (ticks_in ns + 1)" using ih by simp
        then show ?thesis
          using due_iff [of "ticks_in ns + 1" d "tick (kern s)"] s1(2) sl(2) tk True d
          by (simp only: armed_def) simp
      qed
      then show ?thesis using w(6) [OF True s1(1)] by blast
    next
      case False
      then show ?thesis using w(5) s1(1) out by blast
    qed
  qed
  then show ?case using w(1) tick2 a2 by blast
qed

section \<open>The theorems\<close>

lemma waiting_start:
  assumes st: "sys_step cb C idle s (Called t c Blocked) s1" and inv: "sys_inv C idle s"
    and pos: "0 < call_time c"
  shows "call_time c < 2 ^ 31" "pend s1 t = Some (left_of c (tick (kern s)))" "th_suspended (kern s1) t"
    "armed (kern s1) t (tick (kern s1) + of_nat (nat (call_time c)))"
proof -
  have "do_call c (kern s) = Some (Blocked, kern s1)" "current_thread (kern s) = Some t" "t \<noteq> idle"
    "call_obj c \<subseteq> C" "sys_call_ok c (kern s)" and p: "pend s1 t = Some (left_of c (tick (kern s)))"
    using st by (cases; simp)+
  note d = this
  have m: "may_block (kern s) t" by (rule inv_may_block [OF inv d(2,3)])
  have ok: "\<forall>ob \<in> call_obj c. obj_ok (kern s) ob" using inv d(4) by (auto simp: sys_inv_def)
  from call_runs [OF m ok d(5), of "tick (kern s)"] d(1)
  have e: "effect t (call_obj c) (kern s) (kern s1)" "stops_at t (left_of c (tick (kern s))) Blocked (kern s1)"
    by (auto simp: runs_def)
  show "call_time c < 2 ^ 31" using d(5) by (cases c) (auto simp: word_less_def)
  show "pend s1 t = Some (left_of c (tick (kern s)))" by (rule p)
  show "th_suspended (kern s1) t" using e(2) by (simp add: stops_at_def)
  obtain n where "call_time c = int n" using pos by (metis less_imp_le nonneg_int_cases)
  then have "word_of_int (call_time c) = (of_nat (nat (call_time c)) :: u32)" by simp
  moreover have "tick (kern s1) = tick (kern s)" using e(1) by (simp add: effect_def)
  ultimately show "armed (kern s1) t (tick (kern s1) + of_nat (nat (call_time c)))"
    using call_armed [OF m ok d(5,1) pos] by simp
qed

lemma waiting_after_call:
  assumes inv: "sys_inv C idle s" and q: "quiet cb"
    and st: "sys_step cb C idle s (Called t c Blocked) s1" and pos: "0 < call_time c"
    and run: "sys_run cb C idle s1 ns s2" and nr: "not_resumed t ns"
  shows "(th_suspended (kern s2) t \<longrightarrow> ticks_in ns < nat (call_time c)) \<and>
    (wait_at (left_of c (tick (kern s))) = None \<longrightarrow> ticks_in ns < nat (call_time c) \<longrightarrow>
       th_suspended (kern s2) t)"
proof -
  note w = waiting_start [OF st inv pos]
  have d: "0 < nat (call_time c)" "nat (call_time c) < 2 ^ 31" using pos w(1) by simp_all
  have inv1: "sys_inv C idle s1" by (rule sys_step_inv [OF st inv q])
  from waiting_run [OF run inv1 q w(2) nr d w(4,3)] show ?thesis by blast
qed


text \<open>C6: a thread that sleeps for \<open>n\<close> ticks is suspended until the \<open>n\<close>-th tick interrupt and ready
  from then on: no call of another thread wakes it early, and the tick does not wake it late.\<close>

theorem sleep_exact:
  assumes "sys_inv C idle s" "quiet cb" "sys_step cb C idle s (Called t (CSleep n) Blocked) s1"
    "sys_run cb C idle s1 ns s2" "not_resumed t ns"
  shows "th_suspended (kern s2) t \<longleftrightarrow> ticks_in ns < unat n"
proof -
  have pos: "0 < call_time (CSleep n)"
    using assms(3) by cases (auto simp: word_less_def)
  from waiting_after_call [OF assms(1-3) pos assms(4,5)] show ?thesis by auto
qed

section \<open>Witnesses\<close>

lemma tick_step: "sys_inv C idle s \<Longrightarrow> quiet cb \<Longrightarrow> \<exists>s'. sys_step cb C idle s Ticked s'"
proof -
  assume i: "sys_inv C idle s" and q: "quiet cb"
  have "kinv 0 (kern s)" "periods_ok (kern s)" "current_ready (kern s)" "scheduler_lock_nest (kern s) = 0"
    using i by (simp_all add: sys_inv_def)
  then obtain k' where "SysTick_Handler cb (kern s) = Some k'" using systick_effect [OF _ _ q] by metis
  then show ?thesis using sys_step.tick by metis
qed

lemma tick_run:
  "sys_inv C idle s \<Longrightarrow> quiet cb \<Longrightarrow> \<exists>s'. sys_run cb C idle s (replicate n Ticked) s'"
proof (induction n)
  case 0
  then show ?case using sys_run.sys_start [of cb C idle s] by auto
next
  case (Suc n)
  then obtain s1 where s1: "sys_run cb C idle s (replicate n Ticked) s1" by blast
  have "sys_inv C idle s1" by (rule sys_run_inv [OF s1 Suc.prems])
  from tick_step [OF this Suc.prems(2)] obtain s2 where "sys_step cb C idle s1 Ticked s2" by blast
  with s1 have "sys_run cb C idle s (replicate n Ticked @ [Ticked]) s2" by (rule sys_run.sys_next)
  moreover have "replicate n Ticked @ [Ticked] = replicate (Suc n) Ticked"
    by (simp add: replicate_append_same)
  ultimately show ?case by auto
qed

lemma demo_call:
  assumes "call_obj c \<subseteq> demo_objs" "sys_call_ok c demo_run" "do_call c demo_run = Some (r, k)"
  shows "\<exists>s. sys_step skip_cb demo_objs 0 demo_sys (Called 1 c r) s"
  using sys_step.call [of demo_sys 1 0 c demo_objs r k skip_cb] assms by auto

lemma demo_sleep_step: "\<exists>s. sys_step skip_cb demo_objs 0 demo_sys (Called 1 (CSleep 3) Blocked) s"
proof -
  have m: "may_block demo_run 1" using inv_may_block [OF demo_sys_inv, of 1] by simp
  obtain k' where "rt_thread_sleep 3 demo_run = Some (Blocked, k')" using sleep_effect [OF m, of 3] by auto
  then show ?thesis by (intro demo_call) simp_all
qed


lemma ticks_in_replicate [simp]: "ticks_in (replicate n Ticked) = n" "not_resumed t (replicate n Ticked)"
  by (induction n) (simp_all add: ticks_in_def not_resumed_def)

lemma sleep_exact_witness:
  "\<exists>s1 s2. sys_step skip_cb demo_objs 0 demo_sys (Called 1 (CSleep 3) Blocked) s1 \<and>
     sys_run skip_cb demo_objs 0 s1 (replicate 2 Ticked) s2 \<and> th_suspended (kern s2) 1"
proof -
  obtain s1 where s1: "sys_step skip_cb demo_objs 0 demo_sys (Called 1 (CSleep 3) Blocked) s1"
    using demo_sleep_step by blast
  have "sys_inv demo_objs 0 s1" by (rule sys_step_inv [OF s1 demo_sys_inv quiet_skip])
  from tick_run [OF this quiet_skip] obtain s2 where
    s2: "sys_run skip_cb demo_objs 0 s1 (replicate 2 Ticked) s2" by blast
  from sleep_exact [OF demo_sys_inv quiet_skip s1 s2] have "th_suspended (kern s2) 1" by simp
  then show ?thesis using s1 s2 by blast
qed


end
