(* ===== verification/Robot.thy ===== *)
theory Robot
  imports Float32 KTime
begin

text \<open>
  The application, \<^verbatim>\<open>applications/\<close>: the shell command \<^verbatim>\<open>mobile_robot\<close> (mobile_cmd.c), the set-up
  and the control thread of the car (car.c) and \<^verbatim>\<open>main\<close> (main.c). What the robot package and the
  pin driver are asked to do is a trace of events; strings are lists of bytes without the zero
  at their end.
\<close>

section \<open>Numbers from the command line\<close>

definition digit :: "u8 \<Rightarrow> int" where
  "digit c = int (unat c) - 48"

definition is_digit :: "u8 \<Rightarrow> bool" where
  "is_digit c \<longleftrightarrow> 0 \<le> digit c \<and> digit c \<le> 9"

text \<open>One pass of the loop of \<^verbatim>\<open>stof\<close>; \<open>fused\<close> says whether the compiler contracts
  \<^verbatim>\<open>rez * 10.0f + (float)d\<close> into one operation.\<close>

fun stof_step :: "bool \<Rightarrow> f32 \<times> f32 \<times> bool \<Rightarrow> u8 \<Rightarrow> f32 \<times> f32 \<times> bool" where
  "stof_step fused (rez, fct, point_seen) c =
     (if c = 46 then (rez, fct, True)
      else let d = int (unat c) - 48 in
        if d \<ge> 0 \<and> d \<le> 9
        then (if fused then f32_fma rez 10 (of_int d) else f32_add (f32_mul rez (Fin 10)) (Fin (of_int d)),
              if point_seen then f32_div fct 10 else fct, point_seen)
        else (rez, fct, point_seen))"

definition stof :: "bool \<Rightarrow> u8 list \<Rightarrow> f32" where
  "stof fused s =
     (let (s1, sgn0) = (if s \<noteq> [] \<and> hd s = 45 then (tl s, Fin (- 1)) else (s, Fin 1));
          (rez, fct, p) = foldl (stof_step fused) (Fin 0, sgn0, False) s1
      in f32_mul rez fct)"

text \<open>\<^verbatim>\<open>atoi\<close> of the C library: white space, a sign, digits; a number outside \<^verbatim>\<open>int\<close> is undefined.\<close>

definition is_space :: "u8 \<Rightarrow> bool" where
  "is_space c \<longleftrightarrow> c \<in> {32, 9, 10, 11, 12, 13}"

definition int_of_digits :: "u8 list \<Rightarrow> int" where
  "int_of_digits ds = foldl (\<lambda>n c. 10 * n + digit c) 0 ds"

definition atoi :: "u8 list \<Rightarrow> int option" where
  "atoi s =
     (let s1 = dropWhile is_space s;
          neg = (s1 \<noteq> [] \<and> hd s1 = 45);
          s2 = (if s1 \<noteq> [] \<and> hd s1 \<in> {43, 45} then tl s1 else s1);
          n = int_of_digits (takeWhile is_digit s2);
          v = (if neg then - n else n)
      in if - (2 ^ 31) \<le> v \<and> v < 2 ^ 31 then Some v else None)"

subsection \<open>The error of \<open>stof\<close>\<close>

text \<open>\<open>x\<close> is \<open>v\<close> up to \<open>m\<close> roundings.\<close>

abbreviation "unit32 \<equiv> (1 / 2 ^ 24 :: rat)"

definition close :: "nat \<Rightarrow> rat \<Rightarrow> rat \<Rightarrow> bool" where
  "close m x v \<longleftrightarrow> \<bar>x - v\<bar> \<le> \<bar>v\<bar> * ((1 + unit32) ^ m - 1)"

lemma close_exact [simp]: "close 0 v v"
  by (simp add: close_def)

lemma power_bound:
  fixes u :: rat
  assumes "0 \<le> u" shows "2 * of_nat m * u \<le> 1 \<Longrightarrow> (1 + u) ^ m \<le> 1 + 2 * of_nat m * u"
proof (induction m)
  case (Suc m)
  let ?a = "2 * of_nat m * u"
  have a: "0 \<le> ?a" "?a \<le> 1" using Suc.prems assms by (simp_all add: algebra_simps)
  have "(1 + u) ^ Suc m \<le> (1 + u) * (1 + ?a)"
    using Suc.IH a(2) assms by (simp add: mult_left_mono)
  also have "\<dots> = 1 + ?a + u + u * ?a" by (simp add: algebra_simps)
  also have "\<dots> \<le> 1 + ?a + u + u * 1" using a(2) assms by (intro add_mono mult_left_mono) simp_all
  finally show ?case by (simp add: algebra_simps)
qed simp

lemma power_unit_bound: "2 * of_nat m * unit32 \<le> 1 \<Longrightarrow> (1 + unit32) ^ m \<le> 1 + 2 * of_nat m * unit32"
  by (rule power_bound) simp_all

lemma unit_half: "2 * x * unit32 = x / 2 ^ 23"
  by simp

lemma close_round:
  assumes c: "close m x v" and r: "x = 0 \<or> 1 / 2 ^ 126 \<le> \<bar>x\<bar>" shows "close (Suc m) (round32 x) v"
proof -
  let ?A = "(1 + unit32) ^ m"
  have e: "\<bar>round32 x - x\<bar> \<le> \<bar>x\<bar> * unit32" using r round32_relative [of x] by (cases "x = 0") simp_all
  have x: "\<bar>x\<bar> \<le> \<bar>v\<bar> * ?A" using c by (simp add: close_def algebra_simps)
  have "\<bar>round32 x - v\<bar> \<le> \<bar>x\<bar> * unit32 + \<bar>v\<bar> * (?A - 1)" using e c unfolding close_def by linarith
  also have "\<dots> \<le> \<bar>v\<bar> * ?A * unit32 + \<bar>v\<bar> * (?A - 1)" using x by (intro add_mono mult_right_mono) simp_all
  also have "\<dots> = \<bar>v\<bar> * ((1 + unit32) ^ Suc m - 1)" by (simp add: algebra_simps)
  finally show ?thesis by (simp add: close_def)
qed

lemma close_mult:
  assumes "close m x v" "close n y w" shows "close (m + n) (x * y) (v * w)"
proof -
  let ?A = "(1 + unit32) ^ m - 1" and ?B = "(1 + unit32) ^ n - 1"
  have p: "0 \<le> ?A" "0 \<le> ?B" by simp_all
  have a: "\<bar>x - v\<bar> \<le> \<bar>v\<bar> * ?A" and b: "\<bar>y - w\<bar> \<le> \<bar>w\<bar> * ?B" using assms by (simp_all add: close_def)
  have "\<bar>x * y - v * w\<bar> = \<bar>(x - v) * (y - w) + (x - v) * w + v * (y - w)\<bar>" by (simp add: algebra_simps)
  also have "\<dots> \<le> \<bar>x - v\<bar> * \<bar>y - w\<bar> + \<bar>x - v\<bar> * \<bar>w\<bar> + \<bar>v\<bar> * \<bar>y - w\<bar>"
    unfolding abs_mult [symmetric] by linarith
  also have "\<dots> \<le> (\<bar>v\<bar> * ?A) * (\<bar>w\<bar> * ?B) + (\<bar>v\<bar> * ?A) * \<bar>w\<bar> + \<bar>v\<bar> * (\<bar>w\<bar> * ?B)"
    using a b p by (intro add_mono mult_mono) simp_all
  also have "\<dots> = \<bar>v * w\<bar> * ((1 + unit32) ^ (m + n) - 1)" by (simp add: abs_mult power_add algebra_simps)
  finally show ?thesis by (simp add: close_def)
qed

lemma close_add:
  assumes "close m x v" "0 \<le> v" "0 \<le> d" shows "close m (x + d) (v + d)"
proof -
  have "\<bar>x - v\<bar> \<le> v * ((1 + unit32) ^ m - 1)" using assms by (simp add: close_def)
  also have "\<dots> \<le> (v + d) * ((1 + unit32) ^ m - 1)" using assms(3) by (intro mult_right_mono) simp_all
  finally show ?thesis using assms by (simp add: close_def)
qed

lemma close_scale: "close m x v \<Longrightarrow> close m (x * c) (v * c)"
  using close_mult [of m x v 0 c c] by simp

lemma close_range:
  assumes "close m x v" "m \<le> 2 ^ 19" shows "\<bar>v\<bar> / 2 \<le> \<bar>x\<bar>" "\<bar>x\<bar> \<le> 2 * \<bar>v\<bar>"
proof -
  have "of_nat m \<le> (2 ^ 19 :: rat)" using assms(2) by (metis of_nat_le_iff of_nat_numeral of_nat_power)
  then have "2 * of_nat m * unit32 \<le> 1 / 16" by simp
  then have "(1 + unit32) ^ m - 1 \<le> 1 / 2" using power_unit_bound [of m] by linarith
  then have "\<bar>v\<bar> * ((1 + unit32) ^ m - 1) \<le> \<bar>v\<bar> * (1 / 2)" by (intro mult_left_mono) simp_all
  then have "\<bar>x - v\<bar> \<le> \<bar>v\<bar> / 2" using assms(1) by (simp add: close_def)
  then show "\<bar>v\<bar> / 2 \<le> \<bar>x\<bar>" "\<bar>x\<bar> \<le> 2 * \<bar>v\<bar>" by (auto simp: abs_if split: if_splits)
qed

lemma close_mono: "close m x v \<Longrightarrow> m \<le> n \<Longrightarrow> close n x v"
proof -
  assume c: "close m x v" and "m \<le> n"
  then have "(1 + unit32) ^ m \<le> (1 + unit32) ^ n" by (intro power_increasing) simp_all
  then have "\<bar>v\<bar> * ((1 + unit32) ^ m - 1) \<le> \<bar>v\<bar> * ((1 + unit32) ^ n - 1)" by (intro mult_left_mono) simp_all
  then show ?thesis using c by (simp add: close_def)
qed

text \<open>A value of moderate size is rounded, not lost.\<close>

lemma f32_of_close:
  assumes c: "close m x v" and m: "m < 2 ^ 19" and v: "v = 0 \<or> 1 / 10 ^ 37 \<le> \<bar>v\<bar> \<and> \<bar>v\<bar> \<le> 10 ^ 38"
  shows "f32_of x = Fin (round32 x)" "close (Suc m) (round32 x) v"
proof -
  note r = close_range [OF c less_imp_le [OF m]]
  have "x = 0 \<or> 1 / 2 ^ 126 \<le> \<bar>x\<bar>"
  proof (cases "v = 0")
    case False
    then have "1 / 10 ^ 37 \<le> \<bar>v\<bar>" using v by blast
    then have "1 / 10 ^ 37 / 2 \<le> \<bar>v\<bar> / 2" by (rule divide_right_mono) simp
    then have "1 / 10 ^ 37 / 2 \<le> \<bar>x\<bar>" using r(1) by (rule order.trans)
    moreover have "(1 :: rat) / 2 ^ 126 \<le> 1 / 10 ^ 37 / 2" by simp
    ultimately show ?thesis by linarith
  qed (use r(2) in simp)
  from close_round [OF c this] show c': "close (Suc m) (round32 x) v" .
  have "Suc m \<le> 2 ^ 19" using m by simp
  note r' = close_range(2) [OF c' this]
  have "\<bar>v\<bar> \<le> 10 ^ 38" using v by auto
  then have "\<bar>round32 x\<bar> \<le> 2 * 10 ^ 38" using r' by linarith
  moreover have "(2 * 10 ^ 38 :: rat) < 2 ^ 128" by simp
  ultimately have "\<bar>round32 x\<bar> < 2 ^ 128" by (rule le_less_trans)
  then show "f32_of x = Fin (round32 x)" by (simp add: f32_of_def)
qed

text \<open>The loop: \<open>r\<close> stands for the integer \<open>N\<close> of the \<open>n\<close> digits read so far.\<close>

lemma stof_rez:
  assumes c: "close (2 * n) r (of_int N)" and N: "0 \<le> N" "N < 10 ^ n" and n: "n < 36"
    and d: "0 \<le> d" "d \<le> 9"
  shows "\<exists>r'. (if fused then f32_fma (Fin r) 10 (of_int d)
      else f32_add (f32_mul (Fin r) (Fin 10)) (Fin (of_int d))) = Fin r' \<and>
    close (2 * Suc n) r' (of_int (10 * N + d))"
proof -
  have le: "(10 :: int) ^ Suc n \<le> 10 ^ 36" using n by (intro power_increasing) simp_all
  have b: "10 * N + d < 10 ^ Suc n" "0 \<le> 10 * N + d" using N d by simp_all
  have v1: "of_int k = (0 :: rat) \<or> 1 / 10 ^ 37 \<le> \<bar>of_int k :: rat\<bar> \<and> \<bar>of_int k :: rat\<bar> \<le> 10 ^ 38"
    if "0 \<le> k" "k < 10 ^ 36" for k :: int
  proof -
    have "(of_int k :: rat) < 10 ^ 36" using that(2) by (metis of_int_less_iff of_int_numeral of_int_power)
    then have u: "(of_int k :: rat) \<le> 10 ^ 38" by (rule order.trans [OF less_imp_le]) simp
    have "k = 0 \<or> 1 \<le> k" using that(1) by linarith
    then have "k = 0 \<or> (1 :: rat) \<le> of_int k" by simp
    moreover have "(1 :: rat) / 10 ^ 37 \<le> 1" by simp
    ultimately show ?thesis using u by (auto simp: abs_if)
  qed
  have k: "10 * N < 10 ^ 36" "10 * N + d < 10 ^ 36" using b le d by linarith+
  have cm: "close (2 * n) (r * 10) (of_int (10 * N))" using close_scale [OF c, of 10] by (simp add: mult.commute)
  have m: "2 * n < 2 ^ 19" "Suc (2 * n) < 2 ^ 19" using n by simp_all
  show ?thesis
  proof (cases fused)
    case True
    have "close (2 * n) (r * 10 + of_int d) (of_int (10 * N) + of_int d)"
      by (rule close_add [OF cm]) (use N d in simp_all)
    then have ca: "close (2 * n) (r * 10 + of_int d) (of_int (10 * N + d))" by simp
    note f = f32_of_close [OF ca m(1) v1 [OF b(2) k(2)]]
    have "close (2 * Suc n) (round32 (r * 10 + of_int d)) (of_int (10 * N + d))" by (rule close_mono [OF f(2)]) simp
    then show ?thesis using True f(1) by simp
  next
    case False
    have N10: "0 \<le> 10 * N" using N by simp
    note f = f32_of_close [OF cm m(1) v1 [OF N10 k(1)]]
    have "close (Suc (2 * n)) (round32 (r * 10) + of_int d) (of_int (10 * N) + of_int d)"
      by (rule close_add [OF f(2)]) (use N d in simp_all)
    then have ca: "close (Suc (2 * n)) (round32 (r * 10) + of_int d) (of_int (10 * N + d))" by simp
    note g = f32_of_close [OF ca m(2) v1 [OF b(2) k(2)]]
    show ?thesis using False f(1) g by simp
  qed
qed

lemma stof_fact:
  assumes c: "close k f (\<sigma> / 10 ^ k)" and k: "k < 36" and s: "\<bar>\<sigma>\<bar> = 1"
  shows "\<exists>f'. f32_div (Fin f) 10 = Fin f' \<and> close (Suc k) f' (\<sigma> / 10 ^ Suc k)"
proof -
  have c': "close k (f / 10) (\<sigma> / 10 ^ Suc k)" using close_scale [OF c, of "1 / 10"] by (simp add: mult.commute)
  have "(10 :: rat) ^ Suc k \<le> 10 ^ 37" using k by (intro power_increasing) simp_all
  then have "1 / 10 ^ 37 \<le> \<bar>\<sigma> / 10 ^ Suc k\<bar>" unfolding abs_divide s by (intro divide_left_mono) simp_all
  moreover have "\<bar>\<sigma> / 10 ^ Suc k\<bar> \<le> 1" unfolding abs_divide s
    using one_le_power [of "10 :: rat" "Suc k"] by (simp add: divide_le_eq_1 del: power_Suc)
  then have "\<bar>\<sigma> / 10 ^ Suc k\<bar> \<le> 10 ^ 38" by (rule order.trans) simp
  moreover have "k < 2 ^ 19" using k by simp
  ultimately have "f32_of (f / 10) = Fin (round32 (f / 10))" "close (Suc k) (round32 (f / 10)) (\<sigma> / 10 ^ Suc k)"
    using f32_of_close [OF c'] by blast+
  then show ?thesis by simp
qed

lemma int_of_digits_simps [simp]:
  "int_of_digits [] = 0" "int_of_digits (ds @ [c]) = 10 * int_of_digits ds + digit c"
  by (simp_all add: int_of_digits_def)

lemma int_of_digits_bound:
  "\<forall>c \<in> set ds. is_digit c \<Longrightarrow> 0 \<le> int_of_digits ds \<and> int_of_digits ds < 10 ^ length ds"
  by (induction ds rule: rev_induct) (auto simp: is_digit_def)

text \<open>What the loop has computed after \<open>n\<close> digits, \<open>k\<close> of them behind the point.\<close>

definition stof_inv :: "rat \<Rightarrow> nat \<Rightarrow> nat \<Rightarrow> u8 list \<Rightarrow> f32 \<times> f32 \<times> bool \<Rightarrow> bool" where
  "stof_inv \<sigma> n k ds st \<longleftrightarrow> (\<exists>r f p. st = (Fin r, Fin f, p) \<and> length ds = n \<and>
     (\<forall>c \<in> set ds. is_digit c) \<and> close (2 * n) r (of_int (int_of_digits ds)) \<and> close k f (\<sigma> / 10 ^ k))"

lemma stof_digit:
  assumes inv: "stof_inv \<sigma> n k ds st" and c: "is_digit c" and n: "n < 36" "k < 36" and s: "\<bar>\<sigma>\<bar> = 1"
    and p: "snd (snd st) = p"
  shows "stof_inv \<sigma> (Suc n) (if p then Suc k else k) (ds @ [c]) (stof_step fused st c)"
    "snd (snd (stof_step fused st c)) = p"
proof -
  obtain r f where st: "st = (Fin r, Fin f, p)" "length ds = n" "\<forall>c \<in> set ds. is_digit c"
    "close (2 * n) r (of_int (int_of_digits ds))" "close k f (\<sigma> / 10 ^ k)"
    using inv p by (auto simp: stof_inv_def)
  have N: "0 \<le> int_of_digits ds" "int_of_digits ds < 10 ^ n"
    using int_of_digits_bound [OF st(3)] st(2) by simp_all
  have d: "0 \<le> digit c" "digit c \<le> 9" "c \<noteq> 46" using c by (auto simp: is_digit_def digit_def)
  obtain r' where r': "(if fused then f32_fma (Fin r) 10 (of_int (digit c))
      else f32_add (f32_mul (Fin r) (Fin 10)) (Fin (of_int (digit c)))) = Fin r'"
    "close (2 * Suc n) r' (of_int (10 * int_of_digits ds + digit c))"
    using stof_rez [OF st(4) N n(1) d(1,2)] by blast
  obtain f' where f': "f32_div (Fin f) 10 = Fin f'" "close (Suc k) f' (\<sigma> / 10 ^ Suc k)"
    using stof_fact [OF st(5) n(2) s] by blast
  have dd: "int (unat c) - 48 = digit c" by (simp only: digit_def)
  have "stof_step fused st c = (Fin r', if p then Fin f' else Fin f, p)"
    by (simp only: st(1) stof_step.simps dd Let_def) (use d r'(1) f'(1) in simp)
  then show "stof_inv \<sigma> (Suc n) (if p then Suc k else k) (ds @ [c]) (stof_step fused st c)"
    "snd (snd (stof_step fused st c)) = p"
    using st r'(2) f'(2) c by (auto simp: stof_inv_def)
qed

lemma stof_digits:
  assumes "stof_inv \<sigma> n k ds st" "\<forall>c \<in> set es. is_digit c" "n + length es \<le> 36" "k \<le> n"
    "\<bar>\<sigma>\<bar> = 1" "snd (snd st) = p"
  shows "stof_inv \<sigma> (n + length es) (if p then k + length es else k) (ds @ es) (foldl (stof_step fused) st es) \<and>
    snd (snd (foldl (stof_step fused) st es)) = p"
  using assms
proof (induction es rule: rev_induct)
  case (snoc c es)
  let ?st = "foldl (stof_step fused) st es"
  have ih: "stof_inv \<sigma> (n + length es) (if p then k + length es else k) (ds @ es) ?st" "snd (snd ?st) = p"
    using snoc by simp_all
  have b: "is_digit c" "n + length es < 36" "(if p then k + length es else k) < 36" using snoc.prems by simp_all
  from stof_digit [OF ih(1) b(1-3) snoc.prems(5) ih(2)] show ?case by (auto split: if_splits)
qed simp

text \<open>C40: on a decimal number with up to 36 digits, with or without a sign and a point, \<open>k\<close> of the digits
  behind the point, \<^verbatim>\<open>stof\<close> is exact
  up to a relative error of \<open>(2n + k + 1) / 2 ^ 23\<close>, whether or not the compiler fuses the
  operations of its loop.\<close>

theorem stof_error:
  fixes neg fused point :: bool
  assumes dig: "\<forall>c \<in> set (ds @ es). is_digit c" and n: "length ds + length es \<le> 36" and np: "point \<or> es = []"
  defines "v \<equiv> (if neg then - 1 else 1) * of_int (int_of_digits (ds @ es)) / 10 ^ length es"
  shows "\<exists>x. stof fused ((if neg then [45] else []) @ ds @ (if point then 46 # es else [])) = Fin x \<and>
    \<bar>x - v\<bar> \<le> \<bar>v\<bar> * of_nat (2 * (length ds + length es) + length es + 1) / 2 ^ 23"
proof -
  define \<sigma> :: rat where "\<sigma> = (if neg then - 1 else 1)"
  define pt where "pt = (if point then 46 # es else [])"
  have s: "\<bar>\<sigma>\<bar> = 1" by (simp add: \<sigma>_def)
  have "stof_inv \<sigma> 0 0 [] (Fin 0, Fin \<sigma>, False)" unfolding stof_inv_def
    by (rule exI [of _ 0], rule exI [of _ \<sigma>], rule exI [of _ False]) simp
  from stof_digits [OF this, of ds False fused] dig n s
  have a: "stof_inv \<sigma> (length ds) 0 ds (foldl (stof_step fused) (Fin 0, Fin \<sigma>, False) ds)" by simp
  then obtain r f p where st: "foldl (stof_step fused) (Fin 0, Fin \<sigma>, False) ds = (Fin r, Fin f, p)"
    by (auto simp: stof_inv_def)
  have "stof_inv \<sigma> (length ds) 0 ds (Fin r, Fin f, point)" using a unfolding st stof_inv_def by blast
  from stof_digits [OF this, of es point fused] dig n s np obtain r' f' p' where
    st': "foldl (stof_step fused) (Fin r, Fin f, p) pt = (Fin r', Fin f', p')"
      "close (2 * (length ds + length es)) r' (of_int (int_of_digits (ds @ es)))"
      "close (length es) f' (\<sigma> / 10 ^ length es)"
    using a by (cases point) (auto simp: stof_inv_def pt_def st)
  let ?m = "2 * (length ds + length es) + length es"
  have c: "close ?m (r' * f') v"
    using close_mult [OF st'(2,3)] by (cases neg) (simp_all add: v_def \<sigma>_def)
  have hd: "ds @ pt = [] \<or> hd (ds @ pt) \<noteq> 45" using dig by (cases ds) (auto simp: is_digit_def digit_def pt_def)
  have "stof fused ((if neg then [45] else []) @ ds @ pt) = f32_of (r' * f')"
    using st st' hd by (auto simp: stof_def \<sigma>_def)
  moreover have "v = 0 \<or> 1 / 10 ^ 37 \<le> \<bar>v\<bar> \<and> \<bar>v\<bar> \<le> 10 ^ 38"
  proof -
    let ?N = "int_of_digits (ds @ es)"
    have N: "0 \<le> ?N" "?N < 10 ^ (length ds + length es)" using int_of_digits_bound [OF dig] by simp_all
    have "(10 :: int) ^ (length ds + length es) \<le> 10 ^ 36" using n by (intro power_increasing) simp_all
    then have "(of_int ?N :: rat) < 10 ^ 36" using N(2) by (metis less_le_trans of_int_less_iff of_int_numeral of_int_power)
    then have u: "(of_int ?N :: rat) \<le> 10 ^ 38" by (rule order.trans [OF less_imp_le]) simp
    have av: "\<bar>v\<bar> = of_int ?N / 10 ^ length es" using N(1) by (simp add: v_def abs_mult)
    have "(1 :: rat) \<le> 10 ^ length es" by (rule one_le_power) simp
    then have "\<bar>v\<bar> \<le> of_int ?N" using N(1) unfolding av
      using mult_left_mono [of 1 "(10 :: rat) ^ length es" "of_int ?N"] by (simp add: divide_le_eq)
    then have up: "\<bar>v\<bar> \<le> 10 ^ 38" using u by linarith
    show ?thesis
    proof (cases "?N = 0")
      case False
      then have "1 \<le> ?N" using N(1) by linarith
      then have "1 / 10 ^ length es \<le> \<bar>v\<bar>" unfolding av by (intro divide_right_mono) simp_all
      moreover have "(10 :: rat) ^ length es \<le> 10 ^ 37" using n by (intro power_increasing) simp_all
      then have "1 / 10 ^ 37 \<le> (1 :: rat) / 10 ^ length es" by (intro divide_left_mono) simp_all
      ultimately show ?thesis using up by linarith
    qed (simp add: v_def)
  qed
  moreover have m: "?m < 2 ^ 19" using n by simp
  ultimately have x: "stof fused ((if neg then [45] else []) @ ds @ pt) = Fin (round32 (r' * f'))"
    "close (Suc ?m) (round32 (r' * f')) v"
    using f32_of_close [OF c] by simp_all
  have "of_nat (Suc ?m) \<le> (2 ^ 19 :: rat)" using m by (metis Suc_leI of_nat_le_iff of_nat_numeral of_nat_power)
  then have "2 * of_nat (Suc ?m) * unit32 \<le> 1" by simp
  from power_unit_bound [OF this]
  have "(1 + unit32) ^ Suc ?m - 1 \<le> of_nat (Suc ?m) / 2 ^ 23" unfolding unit_half by linarith
  then have "\<bar>v\<bar> * ((1 + unit32) ^ Suc ?m - 1) \<le> \<bar>v\<bar> * (of_nat (Suc ?m) / 2 ^ 23)"
    by (intro mult_left_mono) simp_all
  then have "\<bar>round32 (r' * f') - v\<bar> \<le> \<bar>v\<bar> * of_nat (2 * (length ds + length es) + length es + 1) / 2 ^ 23"
    using x(2) by (simp add: close_def)
  then show ?thesis using x(1) by (auto simp: pt_def)
qed

section \<open>The command \<open>mobile_robot\<close>\<close>

text \<open>What the command asks for, and how far it got: it waits in \<^verbatim>\<open>rt_thread_mdelay\<close>, it is through,
  or an assertion of the kernel failed (the state is then the one before the call).\<close>

datatype robot_event = Set_velocity f32 f32 f32 | Print_help | Update | Pin_mode_out | Pin_write bool

datatype progress = Sleeping | Finished | Failed

abbreviation "halt \<equiv> Set_velocity (Fin 0) (Fin 0) (Fin 0)"

definition mobile_robot ::
    "bool \<Rightarrow> u8 list list \<Rightarrow> kernel \<Rightarrow> robot_event list \<times> progress \<times> kernel" where
  "mobile_robot fused argv k =
     (if length argv < 5 then ([Print_help], Finished, k)
      else
        let linear_x = stof fused (argv ! 1); linear_y = stof fused (argv ! 2);
            angular_z = stof fused (argv ! 3)
        in case atoi (argv ! 4) of
          None \<Rightarrow> ([], Failed, k)
        | Some duration \<Rightarrow>
            let go = Set_velocity linear_x linear_y angular_z in
            if duration > 0
            then (case rt_thread_mdelay duration k of
                None \<Rightarrow> ([go], Failed, k)
              | Some (Blocked, k1) \<Rightarrow> ([go], Sleeping, k1)
              | Some (Returned e, k1) \<Rightarrow> ([go, halt], Finished, k1))
            else ([go], Finished, k))"

text \<open>The rest of the command, when its thread \<open>t\<close> runs again.\<close>

definition mobile_robot_resumed ::
    "nat \<Rightarrow> kernel \<Rightarrow> robot_event list \<times> progress \<times> kernel" where
  "mobile_robot_resumed t k =
     (case rt_thread_sleep_resumed t k of None \<Rightarrow> ([], Failed, k) | Some (r, k1) \<Rightarrow> ([halt], Finished, k1))"

lemma tick_from_millisecond: "0 \<le> ms \<Longrightarrow> rt_tick_from_millisecond ms = word_of_int ms"
proof -
  assume ms: "0 \<le> ms"
  have "(1000 * (ms mod 1000) + 999) div 1000 = ms mod 1000" by simp
  moreover have "1000 * (ms div 1000) + ms mod 1000 = ms" by simp
  ultimately have "RT_TICK_PER_SECOND * (ms div 1000) + (RT_TICK_PER_SECOND * (ms mod 1000) + 999) div 1000 = ms"
    by presburger
  then have "(word_of_int (RT_TICK_PER_SECOND * (ms div 1000)) +
      word_of_int ((RT_TICK_PER_SECOND * (ms mod 1000) + 999) div 1000) :: u32) = word_of_int ms"
    by (simp only: flip: of_int_add)
  then show ?thesis using ms by (simp only: rt_tick_from_millisecond_def) simp
qed

lemma sleep_resumed_returns: "\<exists>k1. rt_thread_sleep_resumed t k = Some (Returned RT_EOK, k1)"
  by (simp add: rt_thread_sleep_resumed_def)

lemma mobile_robot_course:
  assumes inv: "sys_inv C idle s" and q: "quiet cb" and cur: "current_thread (kern s) = Some t"
    and t: "t \<noteq> idle" "pend s t = None" and argv: "5 \<le> length argv"
    and d: "atoi (argv ! 4) = Some d" "0 < d" "d < 2 ^ 31 - 1"
  shows "\<exists>s1. mobile_robot fused argv (kern s) = ([Set_velocity (stof fused (argv ! 1))
        (stof fused (argv ! 2)) (stof fused (argv ! 3))], Sleeping, kern s1) \<and>
      sys_step cb C idle s (Called t (CSleep (word_of_int d)) Blocked) s1 \<and>
      (\<forall>ns s2. sys_run cb C idle s1 ns s2 \<longrightarrow> not_resumed t ns \<longrightarrow>
        (th_suspended (kern s2) t \<longleftrightarrow> int (ticks_in ns) < d) \<and>
        fst (mobile_robot_resumed t (kern s2)) = [halt])"
proof -
  let ?n = "word_of_int d :: u32"
  have u: "uint ?n = d" using d by (simp add: unsigned_of_int take_bit_int_eq_self)
  have n: "0 < ?n" "?n < 0x7fffffff" using u d by (simp_all add: word_less_def)
  have m: "may_block (kern s) t" by (rule inv_may_block [OF inv cur t(1)])
  obtain k1 where k1: "rt_thread_sleep ?n (kern s) = Some (Blocked, k1)"
    using sleep_effect [OF m n] by metis
  have st: "sys_step cb C idle s (Called t (CSleep ?n) Blocked) \<lparr>kern = k1, pend = (pend s)(t :=
      if Blocked = Blocked then Some (left_of (CSleep ?n) (tick (kern s))) else None)\<rparr>" (is "sys_step _ _ _ _ _ ?s1")
    by (rule sys_step.call [OF cur t]) (use n k1 in simp_all)
  have "rt_thread_mdelay d (kern s) = Some (Blocked, k1)"
    using k1 d(2) by (simp add: rt_thread_mdelay_def tick_from_millisecond)
  then have "mobile_robot fused argv (kern s) = ([Set_velocity (stof fused (argv ! 1))
      (stof fused (argv ! 2)) (stof fused (argv ! 3))], Sleeping, kern ?s1)"
    using argv d by (simp add: mobile_robot_def Let_def)
  moreover have "th_suspended (kern s2) t \<longleftrightarrow> int (ticks_in ns) < d"
    if "sys_run cb C idle ?s1 ns s2" "not_resumed t ns" for ns s2
    using waiting_after_call [OF inv q st _ that] u d(2) by auto
  moreover have "fst (mobile_robot_resumed t k) = [halt]" for k
    using sleep_resumed_returns [of t k] by (auto simp: mobile_robot_resumed_def)
  ultimately show ?thesis using st by blast
qed

text \<open>C5: a command with a duration of \<open>d\<close> milliseconds sets the velocity, and exactly \<open>d\<close> ticks
  later its thread is ready to stop the robot; the next thing the command does is to set
  every velocity to zero. Nothing another thread or the interrupt does changes that.\<close>

theorem mobile_robot_stops:
  assumes inv: "sys_inv C idle s" and q: "quiet cb" and cur: "current_thread (kern s) = Some t"
    and t: "t \<noteq> idle" "pend s t = None" and argv: "5 \<le> length argv"
    and d: "atoi (argv ! 4) = Some d" "0 < d" "d < 2 ^ 31 - 1"
  shows "\<exists>s1. mobile_robot fused argv (kern s) = ([Set_velocity (stof fused (argv ! 1))
        (stof fused (argv ! 2)) (stof fused (argv ! 3))], Sleeping, kern s1) \<and>
      sys_step cb C idle s (Called t (CSleep (word_of_int d)) Blocked) s1 \<and>
      (\<forall>ns s2. sys_run cb C idle s1 ns s2 \<longrightarrow> not_resumed t ns \<longrightarrow>
        (th_suspended (kern s2) t \<longleftrightarrow> int (ticks_in ns) < d) \<and>
        fst (mobile_robot_resumed t (kern s2)) = [halt])"
  by (rule mobile_robot_course [OF assms])

text \<open>With the largest duration the robot starts to move, and the assertion of
  \<^verbatim>\<open>rt_timer_start\<close> that a timeout is below half the range of ticks ends the command: nothing
  stops the robot.\<close>

theorem longest_duration_never_stops:
  assumes "current_thread k = Some t" "5 \<le> length argv" "atoi (argv ! 4) = Some (2 ^ 31 - 1)"
  shows "mobile_robot fused argv k = ([Set_velocity (stof fused (argv ! 1))
        (stof fused (argv ! 2)) (stof fused (argv ! 3))], Failed, k)"
proof -
  have "rt_thread_mdelay (2 ^ 31 - 1) k = None"
    using assms(1)
    by (simp add: rt_thread_mdelay_def rt_tick_from_millisecond_def rt_thread_sleep_def start_thread_timer_def
        rt_timer_control_def rt_timer_start_eq rt_thread_self_def split: bind_splits)
  then show ?thesis using assms by (simp add: mobile_robot_def Let_def)
qed

text \<open>Everything but digits and points is skipped, also the sign of an exponent: \<^verbatim>\<open>1e-1\<close> is 11.\<close>

lemma stof_step_skips: "c \<noteq> 46 \<Longrightarrow> \<not> is_digit c \<Longrightarrow> stof_step fused st c = st"
  by (cases st) (auto simp: is_digit_def digit_def)

lemma stof_loop_skips:
  "foldl (stof_step fused) st s = foldl (stof_step fused) st (filter (\<lambda>c. c = 46 \<or> is_digit c) s)"
  by (induction s arbitrary: st) (auto simp: stof_step_skips simp del: stof_step.simps)

text \<open>\<^verbatim>\<open>stof\<close> reads digits and points only: whatever else follows the first character is
  skipped, so that the exponent of a number becomes more of its digits.\<close>

theorem stof_skips_junk:
  "stof fused (c # s) = stof fused (c # filter (\<lambda>c. c = 46 \<or> is_digit c) s)"
  unfolding stof_def by (simp add: stof_loop_skips [of _ _ s] del: stof_step.simps)

section \<open>The control thread of the car\<close>

abbreviation "ENCODER_SAMPLE_TIME \<equiv> (50 :: int)"

text \<open>A turn of the loop up to the next \<^verbatim>\<open>rt_thread_mdelay\<close>, after the events \<open>evs\<close>.\<close>

definition car_thread_wait :: "robot_event list \<Rightarrow> kernel \<Rightarrow> robot_event list \<times> progress \<times> kernel" where
  "car_thread_wait evs k =
     (case rt_thread_mdelay ENCODER_SAMPLE_TIME k of
        None \<Rightarrow> (evs, Failed, k)
      | Some (r, k1) \<Rightarrow> (evs, Sleeping, k1))"

definition car_thread :: "kernel \<Rightarrow> robot_event list \<times> progress \<times> kernel" where
  "car_thread k = car_thread_wait [halt] k"

text \<open>The thread \<open>t\<close> runs again: the rest of the delay, an update, the next turn.\<close>

definition car_thread_resumed :: "nat \<Rightarrow> kernel \<Rightarrow> robot_event list \<times> progress \<times> kernel" where
  "car_thread_resumed t k =
     (case rt_thread_sleep_resumed t k of None \<Rightarrow> ([], Failed, k)
      | Some (r, k1) \<Rightarrow> car_thread_wait [Update] k1)"

text \<open>Each turn of the control loop ends in a sleep of exactly 50 ticks: the next update of the
  chassis cannot come sooner, and its thread is ready for it at the 50th tick.\<close>

theorem car_update_period:
  assumes inv: "sys_inv C idle s" and q: "quiet cb" and cur: "current_thread (kern s) = Some t"
    and t: "t \<noteq> idle" "pend s t = None"
  shows "\<exists>s1. car_thread_wait evs (kern s) = (evs, Sleeping, kern s1) \<and>
      sys_step cb C idle s (Called t (CSleep 50) Blocked) s1 \<and>
      (\<forall>ns s2. sys_run cb C idle s1 ns s2 \<longrightarrow> not_resumed t ns \<longrightarrow>
        (th_suspended (kern s2) t \<longleftrightarrow> ticks_in ns < 50) \<and>
        fst (car_thread_resumed t (kern s2)) = [Update])"
proof -
  have n: "(0 :: u32) < 50" "(50 :: u32) < 0x7fffffff" by simp_all
  have m: "may_block (kern s) t" by (rule inv_may_block [OF inv cur t(1)])
  obtain k1 where k1: "rt_thread_sleep 50 (kern s) = Some (Blocked, k1)"
    using sleep_effect [OF m n] by metis
  have st: "sys_step cb C idle s (Called t (CSleep 50) Blocked) \<lparr>kern = k1, pend = (pend s)(t :=
      if Blocked = Blocked then Some (left_of (CSleep 50) (tick (kern s))) else None)\<rparr>" (is "sys_step _ _ _ _ _ ?s1")
    by (rule sys_step.call [OF cur t]) (use n k1 in simp_all)
  have "car_thread_wait evs (kern s) = (evs, Sleeping, kern ?s1)"
    using k1 by (simp add: car_thread_wait_def rt_thread_mdelay_def tick_from_millisecond)
  moreover have "th_suspended (kern s2) t \<longleftrightarrow> ticks_in ns < 50"
    if "sys_run cb C idle ?s1 ns s2" "not_resumed t ns" for ns s2
    using waiting_after_call [OF inv q st _ that] by auto
  moreover have "fst (car_thread_resumed t k) = [Update]" for k
    using sleep_resumed_returns [of t k]
    by (auto simp: car_thread_resumed_def car_thread_wait_def split: option.splits)
  ultimately show ?thesis using st by blast
qed

section \<open>Set-up\<close>

text \<open>The calls of \<^verbatim>\<open>car_init\<close> to the heap, the robot package and the kernel; pointers are words.\<close>

datatype setup_call =
    Malloc_wheels nat
  | Motor_create string nat string nat
  | Encoder_create nat nat nat nat
  | Pid_create rat rat rat nat
  | Wheel_create u32 u32 u32 rat nat
  | Kinematics_create string rat rat rat
  | Chassis_create u32 u32
  | Chassis_enable u32
  | Command_init u32
  | Ps2_init nat nat nat nat
  | Thread_create string nat nat nat
  | Thread_startup u32

text \<open>\<open>ans\<close> gives the result of a call from the calls made so far.\<close>

definition ask :: "(setup_call list \<Rightarrow> u32) \<Rightarrow> setup_call \<Rightarrow> setup_call list \<Rightarrow> u32 \<times> setup_call list" where
  "ask ans c tr = (ans (tr @ [c]), tr @ [c])"

text \<open>The trace of the set-up and whether it came to its end. A null pointer for the two wheels is only
  logged; storing the first wheel through it is undefined. \<open>wsize\<close> is \<^verbatim>\<open>sizeof(wheel_t)\<close>.\<close>

definition car_init_rest ::
    "(setup_call list \<Rightarrow> u32) \<Rightarrow> u32 \<Rightarrow> u32 \<Rightarrow> u32 \<Rightarrow> u32 \<Rightarrow> setup_call list \<Rightarrow> setup_call list" where
  "car_init_rest ans c_wheels right_motor right_encoder right_pid tr =
     (let (w1, tr) = ask ans (Wheel_create right_motor right_encoder right_pid (66 / 1000) 1) tr;
          (c_kinematics, tr) = ask ans (Kinematics_create ''TWO_WD'' 0 (13 / 100) (66 / 1000)) tr;
          (chas, tr) = ask ans (Chassis_create c_wheels c_kinematics) tr;
          (r1, tr) = ask ans (Chassis_enable chas) tr;
          (r2, tr) = ask ans (Command_init chas) tr;
          (r3, tr) = ask ans (Ps2_init 28 29 4 36) tr;
          (tid_car, tr) = ask ans (Thread_create ''tcar'' 512 10 5) tr
      in if tid_car \<noteq> 0 then snd (ask ans (Thread_startup tid_car) tr) else tr)"

definition car_init :: "nat \<Rightarrow> (setup_call list \<Rightarrow> u32) \<Rightarrow> setup_call list \<times> bool" where
  "car_init wsize ans =
     (let (c_wheels, tr) = ask ans (Malloc_wheels (wsize * 2)) [];
          (left_motor, tr) = ask ans (Motor_create ''pwm4'' 3 ''pwm4'' 4) tr;
          (right_motor, tr) = ask ans (Motor_create ''pwm2'' 3 ''pwm2'' 4) tr;
          (left_encoder, tr) = ask ans (Encoder_create 31 34 2000 50) tr;
          (right_encoder, tr) = ask ans (Encoder_create 38 39 2000 50) tr;
          (left_pid, tr) = ask ans (Pid_create (66 / 10) (65 / 10) (76 / 10) 50) tr;
          (right_pid, tr) = ask ans (Pid_create (66 / 10) (65 / 10) (76 / 10) 50) tr;
          (w0, tr) = ask ans (Wheel_create left_motor left_encoder left_pid (66 / 1000) 1) tr
      in if c_wheels = 0 then (tr, False)
         else (car_init_rest ans c_wheels right_motor right_encoder right_pid tr, True))"

fun starts_control :: "setup_call \<Rightarrow> bool" where
  "starts_control (Chassis_enable c) = True"
| "starts_control (Command_init c) = True"
| "starts_control (Thread_startup t) = True"
| "starts_control c = False"

lemma car_init_rest_order:
  assumes "\<not> (\<exists>c \<in> set tr. starts_control c)"
  shows "\<exists>chas pre post. car_init_rest ans w m e p tr = pre @ Chassis_enable chas # Command_init chas # post \<and>
     (\<forall>c \<in> set pre. \<not> starts_control c) \<and> (\<exists>k. Chassis_create w k \<in> set pre)"
proof -
  define w1 where "w1 = Wheel_create m e p (66 / 1000) 1"
  define kc where "kc = Kinematics_create ''TWO_WD'' 0 (13 / 100) (66 / 1000)"
  define ck where "ck = ans (tr @ [w1] @ [kc])"
  define chas where "chas = ans (tr @ [w1] @ [kc] @ [Chassis_create w ck])"
  have pre: "\<forall>c \<in> set (tr @ [w1, kc, Chassis_create w ck]). \<not> starts_control c"
    using assms by (auto simp: w1_def kc_def)
  have "\<exists>post. car_init_rest ans w m e p tr =
      (tr @ [w1, kc, Chassis_create w ck]) @ Chassis_enable chas # Command_init chas # post"
    unfolding car_init_rest_def ask_def Let_def prod.case w1_def [symmetric] kc_def [symmetric]
    by (simp add: ck_def chas_def)
  then obtain post where "car_init_rest ans w m e p tr =
      (tr @ [w1, kc, Chassis_create w ck]) @ Chassis_enable chas # Command_init chas # post" ..
  then show ?thesis using pre by fastforce
qed

text \<open>The set-up ends exactly when the memory for the wheels is there; then remote control and
  the control thread start only after the chassis has been made and enabled. Otherwise the code
  writes through a null pointer: it has only logged the failure.\<close>

theorem car_init_order:
  "snd (car_init wsize ans) = (ans [Malloc_wheels (wsize * 2)] \<noteq> 0) \<and>
   (if snd (car_init wsize ans)
    then \<exists>chas pre post. fst (car_init wsize ans) = pre @ Chassis_enable chas # Command_init chas # post \<and>
      (\<forall>c \<in> set pre. \<not> starts_control c) \<and> (\<exists>k. Chassis_create (ans [Malloc_wheels (wsize * 2)]) k \<in> set pre)
    else \<forall>c \<in> set (fst (car_init wsize ans)). \<not> starts_control c)"
proof -
  let ?w = "ans [Malloc_wheels (wsize * 2)]"
  have "\<exists>m e p tr. car_init wsize ans =
        (if ?w = 0 then (tr, False) else (car_init_rest ans ?w m e p tr, True)) \<and>
      \<not> (\<exists>c \<in> set tr. starts_control c)"
    unfolding car_init_def ask_def Let_def prod.case append_Nil
    by (rule exI, rule exI, rule exI, rule exI, rule conjI, rule refl, simp)
  then obtain m e p tr where tr: "\<not> (\<exists>c \<in> set tr. starts_control c)"
    "car_init wsize ans = (if ?w = 0 then (tr, False) else (car_init_rest ans ?w m e p tr, True))"
    by blast
  from car_init_rest_order [OF tr(1), of ans ?w m e p] tr show ?thesis by simp
qed

section \<open>\<open>main\<close>\<close>

text \<open>The loop of \<^verbatim>\<open>main\<close> waits after it has switched the lamp on and after it has switched it off.
  \<open>count\<close> is a signed 32-bit integer; \<^verbatim>\<open>count++\<close> is undefined when it has its largest value.\<close>

datatype main_pc = Lamp_on | Lamp_off

definition main_wait ::
    "robot_event list \<Rightarrow> main_pc \<times> int \<Rightarrow> kernel \<Rightarrow> robot_event list \<times> progress \<times> (main_pc \<times> int) \<times> kernel" where
  "main_wait evs pc k = (case rt_thread_mdelay 500 k of
      None \<Rightarrow> (evs, Failed, pc, k) | Some (r, k1) \<Rightarrow> (evs, Sleeping, pc, k1))"

definition main_loop ::
    "robot_event list \<Rightarrow> int \<Rightarrow> kernel \<Rightarrow> robot_event list \<times> progress \<times> (main_pc \<times> int) \<times> kernel" where
  "main_loop evs count k =
     (if count = 2 ^ 31 - 1 then (evs, Failed, (Lamp_off, count), k)
      else if count = 0 then (evs, Finished, (Lamp_off, count + 1), k)
      else main_wait (evs @ [Pin_write True]) (Lamp_on, count + 1) k)"

definition main :: "kernel \<Rightarrow> robot_event list \<times> progress \<times> (main_pc \<times> int) \<times> kernel" where
  "main k = main_loop [Pin_mode_out] 1 k"

definition main_resumed ::
    "main_pc \<times> int \<Rightarrow> nat \<Rightarrow> kernel \<Rightarrow> robot_event list \<times> progress \<times> (main_pc \<times> int) \<times> kernel" where
  "main_resumed pc t k =
     (case rt_thread_sleep_resumed t k of
        None \<Rightarrow> ([], Failed, pc, k)
      | Some (r, k1) \<Rightarrow> (case fst pc of
          Lamp_on \<Rightarrow> main_wait [Pin_write False] (Lamp_off, snd pc) k1
        | Lamp_off \<Rightarrow> main_loop [] (snd pc) k1))"

text \<open>The lamp changes at every delay, until the counter overflows after \<open>2 ^ 31 - 2\<close> turns.\<close>

lemma main_toggles:
  assumes "0 < count" "count < 2 ^ 31 - 1" "main_resumed (pc, count) t k = (evs, r, (pc', count'), k')" "r \<noteq> Failed"
  shows "evs = [Pin_write (pc = Lamp_off)] \<and> pc' \<noteq> pc \<and> r = Sleeping \<and>
    count' = (if pc = Lamp_off then count + 1 else count)"
  using assms sleep_resumed_returns [of t k]
  by (cases pc) (auto simp: main_resumed_def main_loop_def main_wait_def split: option.splits)

section \<open>Witnesses\<close>

text \<open>The command \<^verbatim>\<open>mobile_robot -1.25 0 0 5\<close>.\<close>

definition demo_argv :: "u8 list list" where
  "demo_argv = [[109], [45, 49, 46, 50, 53], [48], [48], [53]]"

lemma stof_error_witness:
  "\<exists>x. stof False [45, 49, 46, 50, 53] = Fin x \<and> \<bar>x - (- (125 / 100))\<bar> \<le> 125 / 100 * 9 / 2 ^ 23"
  using stof_error [of "[49]" "[50, 53]" True False True]
  by (simp add: is_digit_def digit_def int_of_digits_def)

lemma atoi_5: "atoi [53] = Some 5"
  by (simp add: atoi_def is_space_def is_digit_def digit_def int_of_digits_def)

lemma mobile_robot_stops_witness:
  "\<exists>s1 :: system. mobile_robot False demo_argv demo_run =
      ([Set_velocity (stof False [45, 49, 46, 50, 53]) (stof False [48]) (stof False [48])], Sleeping, kern s1)"
proof -
  have a: "5 \<le> length demo_argv" "demo_argv ! 1 = [45, 49, 46, 50, 53]" "demo_argv ! 2 = [48]"
    "demo_argv ! 3 = [48]" "demo_argv ! 4 = [53]" by (simp_all add: demo_argv_def)
  have d: "atoi (demo_argv ! 4) = Some 5" "(0 :: int) < 5" "(5 :: int) < 2 ^ 31 - 1" by (simp_all add: a atoi_5)
  have t: "current_thread (kern demo_sys) = Some 1" "(1 :: nat) \<noteq> 0" "pend demo_sys 1 = None" by simp_all
  from mobile_robot_stops [OF demo_sys_inv quiet_skip t a(1) d, of False]
  show ?thesis unfolding a demo_sys_simps by blast
qed

lemma longest_duration_never_stops_witness:
  "fst (snd (mobile_robot True [[], [49], [48], [48], [50, 49, 52, 55, 52, 56, 51, 54, 52, 55]] demo_run)) = Failed"
proof -
  let ?argv = "[[], [49], [48], [48], [50, 49, 52, 55, 52, 56, 51, 54, 52, 55]] :: u8 list list"
  have "current_thread demo_run = Some 1" "5 \<le> length ?argv" by simp_all
  moreover have "atoi (?argv ! 4) = Some (2 ^ 31 - 1)"
    by (simp add: atoi_def is_space_def is_digit_def digit_def int_of_digits_def)
  ultimately have "mobile_robot True ?argv demo_run = ([Set_velocity (stof True (?argv ! 1))
        (stof True (?argv ! 2)) (stof True (?argv ! 3))], Failed, demo_run)"
    by (rule longest_duration_never_stops)
  then show ?thesis by simp
qed

lemma car_update_period_witness:
  "\<exists>s1 :: system. car_thread demo_run = ([halt], Sleeping, kern s1)"
proof -
  have t: "current_thread (kern demo_sys) = Some 1" "(1 :: nat) \<noteq> 0" "pend demo_sys 1 = None" by simp_all
  from car_update_period [OF demo_sys_inv quiet_skip t, of "[halt]"]
  show ?thesis unfolding car_thread_def demo_sys_simps by blast
qed

lemma car_init_order_witness: "snd (car_init 24 (\<lambda>_. 1))"
  using car_init_order [of 24 "\<lambda>_. 1"] by simp

text \<open>\<^verbatim>\<open>stof("1e-1")\<close> is 11.\<close>

lemma stof_skips_junk_witness: "stof False [49, 101, 45, 49] = Fin 11"
proof -
  have "stof False (49 # filter (\<lambda>c. c = 46 \<or> is_digit c) [101, 45, 49]) = stof False [49, 49]"
    by (simp add: is_digit_def digit_def)
  also have "\<dots> = Fin 11" by code_simp
  finally show ?thesis using stof_skips_junk [of False 49 "[101, 45, 49]"] by simp
qed

end
