(* ===== verification/Console.thy ===== *)
theory Console
  imports Shell Robot
begin

text \<open>
  The way of a command from the console to the wheels: the keys, the line editor and the command
  interpreter of the shell, the command \<^verbatim>\<open>mobile_robot\<close> of \<^verbatim>\<open>applications/mobile_cmd.c\<close> in the
  thread of the shell, and the timer that ends its delay.
\<close>

text \<open>\<^verbatim>\<open>"mobile_robot"\<close>, the name under which \<^verbatim>\<open>MSH_CMD_EXPORT\<close> puts the command into the table.\<close>

definition mobile_robot_name :: "u8 list" where
  "mobile_robot_name = [109, 111, 98, 105, 108, 101, 95, 114, 111, 98, 111, 116]"

text \<open>C35: editing a line into the words \<open>mobile_robot x y z d\<close> and pressing return makes the shell call
  the command with these words. Called in the shell's thread \<open>t\<close>, the command sets the velocities that
  \<open>x\<close>, \<open>y\<close> and \<open>z\<close> denote, sleeps for exactly \<open>d\<close> ticks whatever the other threads and the
  interrupt do, and then stops the robot.\<close>

theorem typed_command_drives_robot:
  assumes sh: "sh_ok sh" "stat sh = WAIT_NORMAL" "echo_mode sh" "text_of sh = []"
    and es: "\<forall>e \<in> set es. key_ok e" "sum_list (map grows es) < FINSH_CMD_SIZE"
    and typed: "fold edit_step es ([], []) = (l, r)" "34 \<notin> set (l @ r)"
    and ws: "words (l @ r) = [mobile_robot_name, x, y, z, w]"
    and table: "\<forall>e \<in> set table. 0 \<notin> set (fst e)" "lookup_cmd table mobile_robot_name = Some f"
    and sys: "sys_inv C idle s" "quiet cb" "current_thread (kern s) = Some t" "t \<noteq> idle" "pend s t = None"
    and d: "atoi w = Some d" "0 < d" "d < 2 ^ 31 - 1"
  shows "\<exists>out sh' s1. shell_keys table (concat (map encode es) @ [13]) sh =
      Some (out @ [Text [10], Run (Call f [mobile_robot_name, x, y, z, w]), Text FINSH_PROMPT], sh') \<and> sh_ok sh' \<and> text_of sh' = [] \<and>
    mobile_robot fused [mobile_robot_name, x, y, z, w] (kern s) =
      ([Set_velocity (stof fused x) (stof fused y) (stof fused z)], Sleeping, kern s1) \<and>
    sys_step cb C idle s (Called t (CSleep (word_of_int d)) Blocked) s1 \<and>
    (\<forall>ns s2. sys_run cb C idle s1 ns s2 \<longrightarrow> not_resumed t ns \<longrightarrow>
      (th_suspended (kern s2) t \<longleftrightarrow> int (ticks_in ns) < d) \<and> fst (mobile_robot_resumed t (kern s2)) = [halt])"
proof -
  let ?argv = "[mobile_robot_name, x, y, z, w]"
  have len: "length (words (l @ r)) \<le> FINSH_ARG_MAX" by (simp add: ws)
  have "exec_text table (l @ r) = Call f ?argv" by (simp add: exec_text_def ws table)
  then obtain out sh' where keys: "shell_keys table (concat (map encode es) @ [13]) sh =
      Some (out @ [Text [10], Run (Call f ?argv), Text FINSH_PROMPT], sh')" "sh_ok sh'" "text_of sh' = []"
    using edit_and_run [OF sh es typed len table(1)] by auto
  have argv: "5 \<le> length ?argv" "?argv ! 1 = x" "?argv ! 2 = y" "?argv ! 3 = z" "?argv ! 4 = w" by simp_all
  have w: "atoi (?argv ! 4) = Some d" using d(1) argv(5) by simp
  show ?thesis
    using mobile_robot_course [OF sys argv(1) w d(2,3), of fused] keys unfolding argv by blast
qed

text \<open>\<^verbatim>\<open>mobile_robot 1 0 0 5\<close>, typed with its first two letters swapped and put right.\<close>

definition demo_keys :: "edit list" where
  "demo_keys = Char 111 # Left # Char 109 # Right #
     map Char [98, 105, 108, 101, 95, 114, 111, 98, 111, 116, 32, 49, 32, 48, 32, 48, 32, 53]"

lemma typed_command_drives_robot_witness:
  "\<exists>out sh' s1. shell_keys [(cmd_prefix @ mobile_robot_name, True)] (concat (map encode demo_keys) @ [13]) finsh_start =
      Some (out @ [Text [10], Run (Call True [mobile_robot_name, [49], [48], [48], [53]]), Text FINSH_PROMPT], sh') \<and>
    mobile_robot False [mobile_robot_name, [49], [48], [48], [53]] demo_run =
      ([Set_velocity (stof False [49]) (stof False [48]) (stof False [48])], Sleeping, kern (s1 :: system))"
proof -
  let ?ws = "[mobile_robot_name, [49], [48], [48], [53]] :: u8 list list"
  let ?l = "mobile_robot_name @ 32 # [49] @ 32 # [48] @ 32 # [48] @ 32 # [53]"
  have blank: "\<not> is_blank c" if "48 \<le> c" for c using that by (auto simp: is_blank_def)
  have key: "\<forall>e \<in> set demo_keys. key_ok e" by (simp add: demo_keys_def printable_def)
  have grow: "sum_list (map grows demo_keys) < FINSH_CMD_SIZE" by (simp add: demo_keys_def)
  have edit: "fold edit_step demo_keys ([], []) = (?l, [])" by (simp add: demo_keys_def mobile_robot_name_def)
  have quote: "34 \<notin> set (?l @ [])" by (simp add: mobile_robot_name_def)
  have name: "mobile_robot_name \<noteq> []" "\<forall>c \<in> set mobile_robot_name. \<not> is_blank c"
    by (simp_all add: mobile_robot_name_def is_blank_def)
  have one: "words (c # 32 # cs) = [c] # words cs" "words [c] = [[c]]" if "48 \<le> c" for c cs
    using words_word(1) [of "[c]"] words_word(2) [of "[c]" cs] blank [OF that] by simp_all
  have words: "words (?l @ []) = ?ws"
    unfolding append_Nil2 by (simp only: words_word(2) [OF name]) (simp add: one)
  have tab: "\<forall>e \<in> set [(cmd_prefix @ mobile_robot_name, True)]. 0 \<notin> set (fst e)"
    "lookup_cmd [(cmd_prefix @ mobile_robot_name, True)] mobile_robot_name = Some True"
    by (simp_all add: mobile_robot_name_def lookup_cmd_def)
  have t: "current_thread (kern demo_sys) = Some 1" "(1 :: nat) \<noteq> 0" "pend demo_sys 1 = None" by simp_all
  have d: "(0 :: int) < 5" "(5 :: int) < 2 ^ 31 - 1" by simp_all
  show ?thesis
    using typed_command_drives_robot [OF finsh_start_ok finsh_start_simps(1-3) key grow edit quote words tab
      demo_sys_inv quiet_skip t atoi_5 d, of False]
    unfolding demo_sys_simps by blast
qed

end
