(* ===== verification/Device.thy ===== *)
theory Device
  imports KObject
begin

text \<open>
  The device framework, \<^verbatim>\<open>src/device.c\<close>: a device is registered under a name, opened and closed by
  any number of users, and its driver is called through function pointers, which can be null. An
  assertion that fails and an access a driver must not make give \<open>None\<close>. The entries of the driver
  are the record \<open>dev_ops\<close>, the driver's own structure behind the device is \<open>dev_priv\<close>. A device is a value
  of its own type, so the assertions that an object has the type \<^verbatim>\<open>RT_Object_Class_Device\<close> are left out.
\<close>

section \<open>Devices\<close>

definition RT_ENOSYS :: rt_err where "RT_ENOSYS = 6"
definition RT_EBUSY :: rt_err where "RT_EBUSY = 7"
definition RT_EIO :: rt_err where "RT_EIO = 8"
definition RT_EINVAL :: rt_err where "RT_EINVAL = 10"

lemmas err_defs = RT_EOK_def RT_ERROR_def RT_ENOSYS_def RT_EBUSY_def RT_EIO_def

abbreviation "RT_DEVICE_FLAG_STANDALONE \<equiv> (0x008 :: u16)"
abbreviation "RT_DEVICE_FLAG_SUSPENDED \<equiv> (0x020 :: u16)"
abbreviation "RT_DEVICE_FLAG_ACTIVATED \<equiv> (0x010 :: u16)"
abbreviation "RT_DEVICE_FLAG_STREAM \<equiv> (0x040 :: u16)"
abbreviation "RT_DEVICE_FLAG_INT_RX \<equiv> (0x100 :: u16)"
abbreviation "RT_DEVICE_FLAG_DMA_RX \<equiv> (0x200 :: u16)"
abbreviation "RT_DEVICE_FLAG_INT_TX \<equiv> (0x400 :: u16)"
abbreviation "RT_DEVICE_FLAG_DMA_TX \<equiv> (0x800 :: u16)"
abbreviation "RT_DEVICE_OFLAG_RDWR \<equiv> (0x003 :: u16)"
abbreviation "RT_DEVICE_OFLAG_OPEN \<equiv> (0x008 :: u16)"
abbreviation "RT_DEVICE_OFLAG_CLOSE \<equiv> (0x000 :: u16)"
abbreviation "RT_DEVICE_OFLAG_MASK \<equiv> (0xf0f :: u16)"

record 'd device =
  dev_flag :: u16
  dev_open_flag :: u16
  dev_ref_count :: u8
  dev_rx_indicate :: bool  \<comment> \<open>a callback is set\<close>
  dev_tx_complete :: bool
  dev_priv :: 'd

text \<open>A read gives the bytes and the count it returns, a write the count; the argument of a control call
  is a number or null.\<close>

record 'd dev_ops =
  op_init :: "('d device \<Rightarrow> (rt_err \<times> 'd device) option) option"
  op_open :: "(u16 \<Rightarrow> 'd device \<Rightarrow> (rt_err \<times> 'd device) option) option"
  op_close :: "('d device \<Rightarrow> (rt_err \<times> 'd device) option) option"
  op_read :: "(nat \<Rightarrow> 'd device \<Rightarrow> (u8 list \<times> nat \<times> 'd device) option) option"
  op_write :: "(u8 list \<Rightarrow> 'd device \<Rightarrow> (nat \<times> 'd device) option) option"
  op_control :: "(nat \<Rightarrow> nat option \<Rightarrow> 'd device \<Rightarrow> (rt_err \<times> 'd device) option) option"

definition has_flag :: "u16 \<Rightarrow> u16 \<Rightarrow> bool" where
  "has_flag w f \<longleftrightarrow> w AND f \<noteq> 0"

definition rt_device_init :: "'d dev_ops \<Rightarrow> 'd device \<Rightarrow> (rt_err \<times> 'd device) option" where
  "rt_device_init ops d =
     (case op_init ops of
        Some f \<Rightarrow>
          if \<not> has_flag (dev_flag d) RT_DEVICE_FLAG_ACTIVATED
          then do {
            (r, d1) \<leftarrow> f d;
            Some (r, if r \<noteq> RT_EOK then d1 else d1\<lparr>dev_flag := dev_flag d1 OR RT_DEVICE_FLAG_ACTIVATED\<rparr>)
          }
          else Some (RT_EOK, d)
      | None \<Rightarrow> Some (RT_EOK, d))"

text \<open>\<^verbatim>\<open>rt_device_open\<close>, the driver's part first.\<close>

definition device_activate :: "'d dev_ops \<Rightarrow> 'd device \<Rightarrow> (rt_err \<times> 'd device) option" where
  "device_activate ops d =
     (if \<not> has_flag (dev_flag d) RT_DEVICE_FLAG_ACTIVATED
      then do {
        (r, d1) \<leftarrow> (case op_init ops of Some f \<Rightarrow> f d | None \<Rightarrow> Some (RT_EOK, d));
        Some (r, if r \<noteq> RT_EOK then d1 else d1\<lparr>dev_flag := dev_flag d1 OR RT_DEVICE_FLAG_ACTIVATED\<rparr>)
      }
      else Some (RT_EOK, d))"

definition rt_device_open :: "'d dev_ops \<Rightarrow> u16 \<Rightarrow> 'd device \<Rightarrow> (rt_err \<times> 'd device) option" where
  "rt_device_open ops oflag d = do {
     (r0, d1) \<leftarrow> device_activate ops d;
     if r0 \<noteq> RT_EOK then Some (r0, d1)
     else if has_flag (dev_flag d1) RT_DEVICE_FLAG_STANDALONE \<and> has_flag (dev_open_flag d1) RT_DEVICE_OFLAG_OPEN
     then Some (- RT_EBUSY, d1)
     else do {
       (r, d2) \<leftarrow> (case op_open ops of
           Some f \<Rightarrow> f oflag d1
         | None \<Rightarrow> Some (RT_EOK, d1\<lparr>dev_open_flag := oflag AND RT_DEVICE_OFLAG_MASK\<rparr>));
       if r = RT_EOK \<or> r = - RT_ENOSYS
       then do {
         let d3 = d2\<lparr>dev_open_flag := dev_open_flag d2 OR RT_DEVICE_OFLAG_OPEN, dev_ref_count := dev_ref_count d2 + 1\<rparr>;
         rt_assert (dev_ref_count d3 \<noteq> 0);
         Some (r, d3)
       }
       else Some (r, d2)
     }
   }"

definition rt_device_close :: "'d dev_ops \<Rightarrow> 'd device \<Rightarrow> (rt_err \<times> 'd device) option" where
  "rt_device_close ops d =
     (if dev_ref_count d = 0 then Some (- RT_ERROR, d)
      else
        let d1 = d\<lparr>dev_ref_count := dev_ref_count d - 1\<rparr> in
        if dev_ref_count d1 \<noteq> 0 then Some (RT_EOK, d1)
        else do {
          (r, d2) \<leftarrow> (case op_close ops of Some f \<Rightarrow> f d1 | None \<Rightarrow> Some (RT_EOK, d1));
          Some (r, if r = RT_EOK \<or> r = - RT_ENOSYS then d2\<lparr>dev_open_flag := RT_DEVICE_OFLAG_CLOSE\<rparr> else d2)
        })"

text \<open>The calls that transfer data; the first component is what is stored in \<^verbatim>\<open>errno\<close>, if anything.\<close>

definition rt_device_read ::
    "'d dev_ops \<Rightarrow> nat \<Rightarrow> 'd device \<Rightarrow> (rt_err option \<times> u8 list \<times> nat \<times> 'd device) option" where
  "rt_device_read ops n d =
     (if dev_ref_count d = 0 then Some (Some (- RT_ERROR), [], 0, d)
      else case op_read ops of
        Some f \<Rightarrow> map_option (\<lambda>r. (None, r)) (f n d)
      | None \<Rightarrow> Some (Some (- RT_ENOSYS), [], 0, d))"

definition rt_device_write ::
    "'d dev_ops \<Rightarrow> u8 list \<Rightarrow> 'd device \<Rightarrow> (rt_err option \<times> nat \<times> 'd device) option" where
  "rt_device_write ops bs d =
     (if dev_ref_count d = 0 then Some (Some (- RT_ERROR), 0, d)
      else case op_write ops of
        Some f \<Rightarrow> map_option (\<lambda>r. (None, r)) (f bs d)
      | None \<Rightarrow> Some (Some (- RT_ENOSYS), 0, d))"

definition rt_device_control ::
    "'d dev_ops \<Rightarrow> nat \<Rightarrow> nat option \<Rightarrow> 'd device \<Rightarrow> (rt_err \<times> 'd device) option" where
  "rt_device_control ops cmd arg d =
     (case op_control ops of Some f \<Rightarrow> f cmd arg d | None \<Rightarrow> Some (- RT_ENOSYS, d))"

definition rt_device_set_rx_indicate :: "bool \<Rightarrow> 'd device \<Rightarrow> 'd device" where
  "rt_device_set_rx_indicate cb d = d\<lparr>dev_rx_indicate := cb\<rparr>"

definition rt_device_set_tx_complete :: "bool \<Rightarrow> 'd device \<Rightarrow> 'd device" where
  "rt_device_set_tx_complete cb d = d\<lparr>dev_tx_complete := cb\<rparr>"

section \<open>The registry\<close>

text \<open>The search is done with the scheduler locked, when there is a thread.\<close>

definition rt_device_find :: "u8 list \<Rightarrow> kernel \<Rightarrow> (kobj option \<times> kernel) option" where
  "rt_device_find name k = do {
     let lock = current_thread k \<noteq> None;
     let k1 = (if lock then rt_enter_critical k else k);
     r \<leftarrow> find_by_name k1 name (object_container k1 Class_Device);
     k2 \<leftarrow> (if lock then rt_exit_critical k1 else Some k1);
     Some (r, k2)
   }"

definition rt_device_register ::
    "nat \<Rightarrow> u8 list \<Rightarrow> u16 \<Rightarrow> 'd device \<Rightarrow> kernel \<Rightarrow> (rt_err \<times> 'd device \<times> kernel) option" where
  "rt_device_register i name flags d k = do {
     (r, k1) \<leftarrow> rt_device_find name k;
     case r of
       Some _ \<Rightarrow> Some (- RT_ERROR, d, k1)
     | None \<Rightarrow> do {
         k2 \<leftarrow> rt_object_init (ODevice i) Class_Device name k1;
         Some (RT_EOK, d\<lparr>dev_flag := flags, dev_ref_count := 0, dev_open_flag := 0\<rparr>, k2)
       }
   }"

definition rt_device_unregister :: "nat \<Rightarrow> kernel \<Rightarrow> (rt_err \<times> kernel) option" where
  "rt_device_unregister i k = do {
     rt_assert (rt_object_get_type (ODevice i) k = class_code Class_Device);
     rt_assert (rt_object_is_systemobject (ODevice i) k);
     Some (RT_EOK, rt_object_detach (ODevice i) k)
   }"

subsection \<open>Names\<close>

definition dev_name :: "kernel \<Rightarrow> kobj \<Rightarrow> u8 list" where
  "dev_name k ob = takeWhile (\<lambda>c. c \<noteq> 0) (obj_name (objects k ob))"

lemma field_cstring: "cstring (fd @ [0]) (takeWhile (\<lambda>c. c \<noteq> 0) fd)"
proof -
  have "\<exists>z. fd @ [0] = takeWhile (\<lambda>c. c \<noteq> 0) fd @ 0 # z" by (induction fd) auto
  moreover have "0 \<notin> set (takeWhile (\<lambda>c. c \<noteq> 0) fd)" by (metis set_takeWhileD)
  ultimately show ?thesis by (auto simp: cstring_def)
qed

lemma find_by_name_spec:
  assumes t: "cstring t ds" and ob: "\<forall>ob \<in> set obs. length (obj_name (objects k ob)) = RT_NAME_MAX"
  shows "find_by_name k t obs = Some (find (\<lambda>ob. dev_name k ob = take RT_NAME_MAX ds) obs)"
  using ob
proof (induction obs)
  case (Cons o1 obs)
  let ?fd = "obj_name (objects k o1)"
  have len: "length ?fd = RT_NAME_MAX" using Cons.prems by simp
  obtain r where r: "rt_strncmp (?fd @ [0]) t RT_NAME_MAX = Some r"
    "r = 0 \<longleftrightarrow> take RT_NAME_MAX (dev_name k o1) = take RT_NAME_MAX ds"
    using rt_strncmp_zero [OF field_cstring t, of ?fd RT_NAME_MAX] by (auto simp: dev_name_def)
  have "rt_strncmp ?fd t RT_NAME_MAX = Some r" using r(1) rt_strncmp_prefix [of RT_NAME_MAX ?fd "[0]" t] len by simp
  moreover have "take RT_NAME_MAX (dev_name k o1) = dev_name k o1"
    using len length_takeWhile_le [of "\<lambda>c. c \<noteq> 0" ?fd] by (simp add: dev_name_def)
  ultimately show ?case using Cons r(2) by simp
qed simp

lemma critical_at_start:
  assumes "current_thread k = None" "scheduler_lock_nest k = 0"
  shows "rt_exit_critical (rt_enter_critical k) = Some k"
  using assms by (simp add: rt_exit_critical_def rt_enter_critical_def Let_def)

lemma device_find_start:
  assumes reg: "registry_inv k" and cur: "current_thread k = None" and t: "cstring t ds"
  shows "rt_device_find t k =
    Some (find (\<lambda>ob. dev_name k ob = take RT_NAME_MAX ds) (object_container k Class_Device), k)"
  using cur find_by_name_spec [OF t, of "object_container k Class_Device" k] reg
  by (simp add: rt_device_find_def registry_inv_def)

text \<open>While the system starts, a device is registered exactly if no device has a name with the same
  first eight characters; then that name finds it, and every other name what it found before.\<close>

theorem device_names_unique:
  assumes reg: "registry_inv k" and cur: "current_thread k = None" and lock: "scheduler_lock_nest k = 0"
    and new: "\<And>c. ODevice i \<notin> set (object_container k c)" and name: "cstring name ds"
    and uniq: "distinct (map (dev_name k) (object_container k Class_Device))"
  shows "\<exists>r d' k'. rt_device_register i name flags d k = Some (r, d', k') \<and> registry_inv k' \<and>
    distinct (map (dev_name k') (object_container k' Class_Device)) \<and>
    (r = RT_EOK \<longleftrightarrow> fst (the (rt_device_find name k)) = None) \<and>
    (if r = RT_EOK
     then dev_flag d' = flags \<and> dev_ref_count d' = 0 \<and> dev_open_flag d' = 0 \<and>
       (\<forall>name2 ds2. cstring name2 ds2 \<longrightarrow> rt_device_find name2 k' =
          Some (if take RT_NAME_MAX ds2 = take RT_NAME_MAX ds then Some (ODevice i)
                else fst (the (rt_device_find name2 k)), k'))
     else r = - RT_ERROR \<and> d' = d \<and> k' = k)"
proof -
  let ?L = "object_container k Class_Device" and ?n = "take RT_NAME_MAX ds"
  note find = device_find_start [OF reg cur]
  show ?thesis
  proof (cases "find (\<lambda>ob. dev_name k ob = ?n) ?L")
    case (Some ob)
    then have "rt_device_register i name flags d k = Some (- RT_ERROR, d, k)"
      using find [OF name] by (simp add: rt_device_register_def)
    then show ?thesis using reg uniq Some find [OF name] by (auto simp: err_defs)
  next
    case None
    let ?fd = "take RT_NAME_MAX (ds @ replicate RT_NAME_MAX 0)"
    let ?k = "attach_object (ODevice i) Class_Device (class_code Class_Device OR RT_Object_Class_Static) ?fd k"
    have cp: "rt_strncpy name RT_NAME_MAX = Some ?fd" using rt_strncpy_cstring [OF name] .
    have run: "rt_device_register i name flags d k =
        Some (RT_EOK, d\<lparr>dev_flag := flags, dev_ref_count := 0, dev_open_flag := 0\<rparr>, ?k)"
      using None find [OF name] new [of Class_Device] critical_at_start [OF cur lock] cp
      by (simp add: rt_device_register_def rt_object_init_def Let_def rt_enter_critical_def)
    have len: "length ?fd = RT_NAME_MAX" by simp
    have reg': "registry_inv ?k"
      by (rule attach_registry [OF reg new len]) (rule class_code_static(1))
    have own: "dev_name ?k (ODevice i) = ?n"
    proof -
      have nz: "0 \<notin> set ds" using name by (auto simp: cstring_def)
      have "takeWhile (\<lambda>c. c \<noteq> 0) ?fd = ?n"
      proof (cases "RT_NAME_MAX \<le> length ds")
        case True
        then show ?thesis using nz by (auto simp: takeWhile_eq_all_conv dest: in_set_takeD)
      next
        case False
        then show ?thesis using nz by (cases "RT_NAME_MAX - length ds") (auto simp: takeWhile_append)
      qed
      then show ?thesis by (simp add: dev_name_def attach_object_def)
    qed
    have other: "dev_name ?k ob = dev_name k ob" if "ob \<in> set ?L" for ob
      using that new [of Class_Device] by (auto simp: dev_name_def attach_object_def)
    have cont: "object_container ?k Class_Device = ODevice i # ?L" by (simp add: attach_object_def)
    define K where "K = ?k"
    note K = run [folded K_def] reg' [folded K_def] own [folded K_def] other [folded K_def] cont [folded K_def]
    have cur': "current_thread K = None" using cur by (simp add: K_def)
    have "?n \<notin> dev_name k ` set ?L" using None by (auto simp: find_None_iff)
    moreover have "map (dev_name K) (object_container K Class_Device) = ?n # map (dev_name k) ?L"
      using K(3-5) by simp
    ultimately have "distinct (map (dev_name K) (object_container K Class_Device))"
      using uniq by simp
    moreover have "rt_device_find name2 K = Some (if take RT_NAME_MAX ds2 = ?n then Some (ODevice i)
        else fst (the (rt_device_find name2 k)), K)" if "cstring name2 ds2" for name2 ds2
    proof -
      have "find (\<lambda>ob. dev_name K ob = take RT_NAME_MAX ds2) ?L = find (\<lambda>ob. dev_name k ob = take RT_NAME_MAX ds2) ?L"
        using K(4) by (intro find_cong) simp_all
      then show ?thesis
        using device_find_start [OF K(2) cur' that] find [OF that] K(3,5) by auto
    qed
    ultimately show ?thesis using K(1,2) None find [OF name] by (auto simp: err_defs)
  qed
qed

definition demo_dev :: "unit device" where
  "demo_dev = \<lparr>dev_flag = 0, dev_open_flag = 0, dev_ref_count = 3, dev_rx_indicate = False, dev_tx_complete = False, dev_priv = ()\<rparr>"

lemma device_names_unique_witness:
  "\<exists>r d' k'. rt_device_register 4 [117, 97, 114, 116, 49, 0] 0x503 demo_dev (demo_kernel\<lparr>current_thread := None\<rparr>) =
      Some (r, d', k') \<and> r = RT_EOK \<and> dev_flag d' = 0x503 \<and>
    (\<exists>r2. rt_device_find [117, 97, 114, 116, 49, 0] k' = Some (r2, k') \<and> r2 = Some (ODevice 4))"
proof -
  let ?k = "demo_kernel\<lparr>current_thread := None\<rparr>" and ?n = "[117, 97, 114, 116, 49, 0] :: u8 list"
  have k: "registry_inv ?k" "current_thread ?k = None" "scheduler_lock_nest ?k = 0"
    "ODevice 4 \<notin> set (object_container ?k c)" "distinct (map (dev_name ?k) (object_container ?k Class_Device))" for c
    by (simp_all add: registry_inv_def demo_kernel_def)
  have n: "cstring ?n [117, 97, 114, 116, 49]" by (simp add: cstring_def)
  have find: "rt_device_find ?n ?k = Some (None, ?k)"
    by (simp add: rt_device_find_def demo_kernel_def)
  show ?thesis
    using device_names_unique [OF k(1-4) n k(5), where flags = "0x503" and d = demo_dev] n by (fastforce simp: find)
qed

section \<open>The contract of a driver\<close>

text \<open>Users that open and close the device; the result is the number of opens that succeeded less that
  of closes that did.\<close>

datatype dev_use = Use_open u16 | Use_close

fun dev_uses :: "'d dev_ops \<Rightarrow> dev_use list \<Rightarrow> 'd device \<Rightarrow> (int \<times> 'd device) option" where
  "dev_uses ops [] d = Some (0, d)"
| "dev_uses ops (u # us) d = do {
     (r, d1) \<leftarrow> (case u of Use_open oflag \<Rightarrow> rt_device_open ops oflag d | Use_close \<Rightarrow> rt_device_close ops d);
     (n, d2) \<leftarrow> dev_uses ops us d1;
     Some (if r \<noteq> RT_EOK then n else case u of Use_open _ \<Rightarrow> n + 1 | Use_close \<Rightarrow> n - 1, d2)
   }"

text \<open>A device is marked open as long as someone uses it.\<close>

definition dev_ok :: "'d device \<Rightarrow> bool" where
  "dev_ok d \<longleftrightarrow> (has_flag (dev_open_flag d) RT_DEVICE_OFLAG_OPEN \<longleftrightarrow> dev_ref_count d \<noteq> 0)"

lemma has_open: "has_flag (w OR RT_DEVICE_OFLAG_OPEN) RT_DEVICE_OFLAG_OPEN" "\<not> has_flag 0 f"
  by (simp_all add: has_flag_def bit.conj_disj_distrib2)

lemma succ_u8: "dev_ref_count d + 1 \<noteq> 0 \<Longrightarrow> unat (dev_ref_count d + 1) = unat (dev_ref_count d) + 1"
  by (metis Suc_eq_plus1 unatSuc add.commute)

text \<open>A driver opens and closes without touching the reference count of the framework, and what it
  refuses to open it leaves as it was.\<close>

locale device_driver =
  fixes ops :: "'d dev_ops"
  assumes init_keeps: "op_init ops = Some f \<Longrightarrow> f d = Some (r, d') \<Longrightarrow>
      dev_ref_count d' = dev_ref_count d \<and> dev_open_flag d' = dev_open_flag d"
    and open_keeps: "op_open ops = Some g \<Longrightarrow> g oflag d = Some (r, d') \<Longrightarrow>
      dev_ref_count d' = dev_ref_count d \<and> r \<noteq> - RT_ENOSYS \<and> (r \<noteq> RT_EOK \<longrightarrow> d' = d)"
    and close_keeps: "op_close ops = Some h \<Longrightarrow> h d = Some (r, d') \<Longrightarrow>
      dev_ref_count d' = dev_ref_count d \<and> r = RT_EOK"
begin

lemma activate_keeps:
  assumes "device_activate ops d = Some (r, d')"
  shows "dev_ref_count d' = dev_ref_count d \<and> dev_open_flag d' = dev_open_flag d"
  using assms init_keeps
  by (auto simp: device_activate_def Option.bind_eq_Some_conv split: if_splits option.splits)

lemma open_counts:
  assumes ok: "dev_ok d" and o: "rt_device_open ops oflag d = Some (r, d')"
  shows "dev_ok d' \<and> unat (dev_ref_count d') = unat (dev_ref_count d) + (if r = RT_EOK then 1 else 0)"
proof -
  obtain r0 d1 where a: "device_activate ops d = Some (r0, d1)"
    using o by (cases "device_activate ops d") (auto simp: rt_device_open_def)
  note k = activate_keeps [OF a]
  have ok1: "dev_ok d1" using ok k by (simp add: dev_ok_def)
  consider "r0 \<noteq> RT_EOK" | "r0 = RT_EOK" "has_flag (dev_flag d1) RT_DEVICE_FLAG_STANDALONE"
      "has_flag (dev_open_flag d1) RT_DEVICE_OFLAG_OPEN"
    | "r0 = RT_EOK" "\<not> (has_flag (dev_flag d1) RT_DEVICE_FLAG_STANDALONE \<and>
        has_flag (dev_open_flag d1) RT_DEVICE_OFLAG_OPEN)" by blast
  then show ?thesis
  proof cases
    case 1
    then show ?thesis using o a k ok1 by (simp add: rt_device_open_def)
  next
    case 2
    then show ?thesis using o a k ok1 by (simp add: rt_device_open_def err_defs)
  next
    case 3
    obtain r2 d2 where d2: "(case op_open ops of Some f \<Rightarrow> f oflag d1
        | None \<Rightarrow> Some (RT_EOK, d1\<lparr>dev_open_flag := oflag AND RT_DEVICE_OFLAG_MASK\<rparr>)) = Some (r2, d2)"
      using o a 3 by (auto simp: rt_device_open_def Option.bind_eq_Some_conv)
    have r2: "dev_ref_count d2 = dev_ref_count d" "r2 \<noteq> - RT_ENOSYS" "r2 \<noteq> RT_EOK \<longrightarrow> d2 = d1"
      using d2 open_keeps k by (auto split: option.splits simp: err_defs)
    have e: "rt_device_open ops oflag d = (if r2 = RT_EOK
        then Option.bind (rt_assert (dev_ref_count d2 + 1 \<noteq> 0)) (\<lambda>_. Some (r2, d2\<lparr>dev_open_flag :=
          dev_open_flag d2 OR RT_DEVICE_OFLAG_OPEN, dev_ref_count := dev_ref_count d2 + 1\<rparr>))
        else Some (r2, d2))"
      using a 3 d2 r2(2) by (simp add: rt_device_open_def Let_def del: de_Morgan_conj)
    show ?thesis
    proof (cases "r2 = RT_EOK")
      case True
      then have nz: "dev_ref_count d2 + 1 \<noteq> 0" and d': "r = RT_EOK"
        "d' = d2\<lparr>dev_open_flag := dev_open_flag d2 OR RT_DEVICE_OFLAG_OPEN, dev_ref_count := dev_ref_count d2 + 1\<rparr>"
        using o e by (auto simp: rt_assert_def split: if_splits)
      show ?thesis using succ_u8 [OF nz] nz r2(1) d' has_open by (simp add: dev_ok_def)
    next
      case False
      then show ?thesis using o e r2 k ok1 by simp
    qed
  qed
qed

lemma close_counts:
  assumes ok: "dev_ok d" and c: "rt_device_close ops d = Some (r, d')"
  shows "dev_ok d' \<and> unat (dev_ref_count d') = unat (dev_ref_count d) - 1 \<and> (r = RT_EOK \<longleftrightarrow> dev_ref_count d \<noteq> 0)"
proof (cases "dev_ref_count d = 0")
  case True
  then show ?thesis using c ok by (auto simp: rt_device_close_def err_defs)
next
  case False
  let ?d1 = "d\<lparr>dev_ref_count := dev_ref_count d - 1\<rparr>"
  have n: "unat (dev_ref_count d - 1) = unat (dev_ref_count d) - 1" using False by (rule unat_minus_one)
  show ?thesis
  proof (cases "dev_ref_count d - 1 = 0")
    case True
    obtain d2 where d2: "(case op_close ops of Some f \<Rightarrow> f ?d1 | None \<Rightarrow> Some (RT_EOK, ?d1)) = Some (RT_EOK, d2)"
      "dev_ref_count d2 = 0"
      using c True False close_keeps
      by (fastforce simp: rt_device_close_def Option.bind_eq_Some_conv split: option.splits)
    have "dev_ref_count ?d1 = 0" using True by simp
    then have "rt_device_close ops d = Some (RT_EOK, d2\<lparr>dev_open_flag := RT_DEVICE_OFLAG_CLOSE\<rparr>)"
      using d2(1) False unfolding rt_device_close_def Let_def by simp
    then show ?thesis using c d2(2) n True False has_open by (simp add: dev_ok_def)
  next
    case nz: False
    then have "rt_device_close ops d = Some (RT_EOK, ?d1)" using False by (simp add: rt_device_close_def Let_def)
    then show ?thesis using c ok n nz False by (simp add: dev_ok_def)
  qed
qed

text \<open>Any sequence of opens and closes.\<close>

lemma uses_count:
  assumes "dev_ok d" "dev_uses ops us d = Some (n, d')"
  shows "dev_ok d' \<and> int (unat (dev_ref_count d')) = int (unat (dev_ref_count d)) + n"
  using assms
proof (induction us arbitrary: d n)
  case (Cons u us)
  obtain r d1 m where s: "(case u of Use_open oflag \<Rightarrow> rt_device_open ops oflag d | Use_close \<Rightarrow> rt_device_close ops d) =
      Some (r, d1)" "dev_uses ops us d1 = Some (m, d')"
    "n = (if r \<noteq> RT_EOK then m else case u of Use_open _ \<Rightarrow> m + 1 | Use_close \<Rightarrow> m - 1)"
    using Cons.prems(2) by (auto simp: Option.bind_eq_Some_conv split: prod.splits)
  have "dev_ok d1 \<and> int (unat (dev_ref_count d1)) = int (unat (dev_ref_count d)) + (n - m)"
  proof (cases u)
    case (Use_open oflag)
    then show ?thesis using open_counts [OF Cons.prems(1), of oflag r d1] s(1,3) by auto
  next
    case Use_close
    then have "0 < unat (dev_ref_count d)" if "r = RT_EOK"
      using that close_counts [OF Cons.prems(1), of r d1] s(1) by (simp add: unat_gt_0)
    then show ?thesis
      using Use_close close_counts [OF Cons.prems(1), of r d1] s(1,3) by (auto simp: of_nat_diff Suc_leI)
  qed
  then show ?case using Cons.IH [OF _ s(2)] by simp
qed simp

end

end
