(* ===== verification/Serial.thy ===== *)
theory Serial
  imports Device
begin

text \<open>
  The serial driver, \<^verbatim>\<open>components/drivers/serial/serial.c\<close>: a receive buffer that the interrupt fills
  byte by byte or by DMA, and the entries of the device. The hardware below is \<open>sr_line\<close>, the bytes
  \<^verbatim>\<open>getc\<close> gives before it answers -1, \<open>sr_sent\<close>, the bytes \<^verbatim>\<open>putc\<close> got, and \<open>sr_calls\<close>, the other calls
  into it. Indices are 16 bits wide. \<open>None\<close> is a failed assertion or an access outside the buffer.
\<close>

section \<open>State\<close>

record rx_fifo =
  rx_buffer :: "u8 list"
  rx_put :: nat
  rx_get :: nat
  rx_full :: bool

text \<open>What \<^verbatim>\<open>serial_rx\<close> and \<^verbatim>\<open>serial_tx\<close> point to.\<close>

datatype serial_rx = Rx_null | Rx_fifo rx_fifo | Rx_dma bool
datatype serial_tx = Tx_null | Tx_fifo | Tx_dma bool "u8 list list"

text \<open>A call into the hardware.\<close>

datatype hw_call = Configure | Control nat u16 | Transmit "u8 list"

record serial =
  sr_bufsz :: nat
  sr_rx :: serial_rx
  sr_tx :: serial_tx
  sr_line :: "u8 list"
  sr_sent :: "u8 list"
  sr_calls :: "hw_call list"

type_synonym uart = "serial device"

abbreviation "RT_DEVICE_CTRL_RESUME \<equiv> (1 :: nat)"
abbreviation "RT_DEVICE_CTRL_SUSPEND \<equiv> (2 :: nat)"
abbreviation "RT_DEVICE_CTRL_CONFIG \<equiv> (3 :: nat)"
abbreviation "RT_DEVICE_CTRL_SET_INT \<equiv> (16 :: nat)"
abbreviation "RT_DEVICE_CTRL_CLR_INT \<equiv> (17 :: nat)"

definition upd_rx :: "serial_rx \<Rightarrow> uart \<Rightarrow> uart" where
  "upd_rx r d = d\<lparr>dev_priv := (dev_priv d)\<lparr>sr_rx := r\<rparr>\<rparr>"

definition upd_tx :: "serial_tx \<Rightarrow> uart \<Rightarrow> uart" where
  "upd_tx t d = d\<lparr>dev_priv := (dev_priv d)\<lparr>sr_tx := t\<rparr>\<rparr>"

definition hw :: "hw_call \<Rightarrow> uart \<Rightarrow> uart" where
  "hw c d = d\<lparr>dev_priv := (dev_priv d)\<lparr>sr_calls := sr_calls (dev_priv d) @ [c]\<rparr>\<rparr>"

abbreviation ctl :: "nat \<Rightarrow> u16 \<Rightarrow> uart \<Rightarrow> uart" where
  "ctl cmd arg \<equiv> hw (Control cmd arg)"

definition set_open_flag :: "u16 \<Rightarrow> uart \<Rightarrow> uart" where
  "set_open_flag f d = d\<lparr>dev_open_flag := dev_open_flag d OR f\<rparr>"

definition clear_open_flag :: "u16 \<Rightarrow> uart \<Rightarrow> uart" where
  "clear_open_flag f d = d\<lparr>dev_open_flag := dev_open_flag d AND NOT f\<rparr>"

section \<open>The receive buffer\<close>

text \<open>The interrupt stores a byte; when the buffer is full, the oldest one goes.\<close>

definition fifo_put :: "nat \<Rightarrow> u8 \<Rightarrow> rx_fifo \<Rightarrow> rx_fifo option" where
  "fifo_put n ch f =
     (if rx_put f < length (rx_buffer f)
      then
        let p0 = rx_put f + 1; p = (if p0 \<ge> n then 0 else p0); f1 = f\<lparr>rx_buffer := (rx_buffer f)[rx_put f := ch], rx_put := p\<rparr> in
        Some (if p = rx_get f
              then let g0 = rx_get f + 1 in f1\<lparr>rx_get := (if g0 \<ge> n then 0 else g0), rx_full := True\<rparr>
              else f1)
      else None)"

fun fifo_puts :: "nat \<Rightarrow> u8 list \<Rightarrow> rx_fifo \<Rightarrow> rx_fifo option" where
  "fifo_puts n [] f = Some f"
| "fifo_puts n (c # cs) f = do { f1 \<leftarrow> fifo_put n c f; fifo_puts n cs f1 }"

text \<open>\<^verbatim>\<open>_serial_int_rx\<close>.\<close>

fun serial_int_rx :: "nat \<Rightarrow> nat \<Rightarrow> rx_fifo \<Rightarrow> (u8 list \<times> rx_fifo) option" where
  "serial_int_rx n 0 f = Some ([], f)"
| "serial_int_rx n (Suc len) f =
     (if rx_get f = rx_put f \<and> \<not> rx_full f then Some ([], f)
      else if rx_get f < length (rx_buffer f)
      then
        let ch = rx_buffer f ! rx_get f; g = rx_get f + 1 in
        do {
          (bs, f1) \<leftarrow> serial_int_rx n len (f\<lparr>rx_get := (if g \<ge> n then 0 else g), rx_full := False\<rparr>);
          Some (ch # bs, f1)
        }
      else None)"

definition serial_fifo_calc_recved_len :: "nat \<Rightarrow> rx_fifo \<Rightarrow> nat" where
  "serial_fifo_calc_recved_len n f =
     (if rx_put f = rx_get f then (if \<not> rx_full f then 0 else n)
      else if rx_put f > rx_get f then rx_put f - rx_get f else n - (rx_get f - rx_put f))"

text \<open>The indices after DMA has delivered or a read has taken bytes; sums are cut to 16 bits.\<close>

definition rt_dma_recv_update_get_index :: "nat \<Rightarrow> nat \<Rightarrow> rx_fifo \<Rightarrow> rx_fifo option" where
  "rt_dma_recv_update_get_index n len f =
     (if len \<le> serial_fifo_calc_recved_len n f
      then
        let g = (rx_get f + len) mod 2 ^ 16 in
        Some (f\<lparr>rx_full := rx_full f \<and> len = 0, rx_get := (if g \<ge> n then g mod n else g)\<rparr>)
      else None)"

definition rt_dma_recv_update_put_index :: "nat \<Rightarrow> nat \<Rightarrow> rx_fifo \<Rightarrow> rx_fifo" where
  "rt_dma_recv_update_put_index n len f =
     (let p = (rx_put f + len) mod 2 ^ 16;
          f1 = (if rx_get f \<le> rx_put f
                then if p \<ge> n
                     then if p mod n \<ge> rx_get f then f\<lparr>rx_put := p mod n, rx_full := True\<rparr> else f\<lparr>rx_put := p mod n\<rparr>
                     else f\<lparr>rx_put := p\<rparr>
                else if p \<ge> rx_get f
                     then f\<lparr>rx_put := (if p \<ge> n then p mod n else p), rx_full := True\<rparr>
                     else f\<lparr>rx_put := p\<rparr>);
          f2 = (if rx_full f1 then f1\<lparr>rx_get := rx_put f1\<rparr> else f1)
      in if rx_get f2 \<ge> n then f2\<lparr>rx_get := 0\<rparr> else f2)"

text \<open>\<^verbatim>\<open>_serial_dma_rx\<close> with a buffer: one or two copies.\<close>

definition serial_dma_rx :: "nat \<Rightarrow> nat \<Rightarrow> rx_fifo \<Rightarrow> (u8 list \<times> rx_fifo) option" where
  "serial_dma_rx n len f = do {
     let got = serial_fifo_calc_recved_len n f;
     let k = (if len < got then len else got);
     bs \<leftarrow> (if rx_get f + k < n then memread (rx_buffer f) (rx_get f) k
           else do {
             b1 \<leftarrow> memread (rx_buffer f) (rx_get f) (n - rx_get f);
             b2 \<leftarrow> memread (rx_buffer f) 0 (k + rx_get f - n);
             Some (b1 @ b2)
           });
     f1 \<leftarrow> rt_dma_recv_update_get_index n k f;
     Some (bs, f1)
   }"

section \<open>The entries of the device\<close>

text \<open>\<open>conf\<close> is the answer of the hardware's \<^verbatim>\<open>configure\<close>, \<open>mem\<close> whether the heap has the memory
  asked for; without memory an assertion fails.\<close>

definition rt_serial_init :: "rt_err \<Rightarrow> uart \<Rightarrow> (rt_err \<times> uart) option" where
  "rt_serial_init conf d = Some (conf, hw Configure (upd_tx Tx_null (upd_rx Rx_null d)))"

definition new_fifo :: "nat \<Rightarrow> rx_fifo" where
  "new_fifo n = \<lparr>rx_buffer = replicate n 0, rx_put = 0, rx_get = 0, rx_full = False\<rparr>"

definition open_rx :: "bool \<Rightarrow> u16 \<Rightarrow> uart \<Rightarrow> uart option" where
  "open_rx mem oflag d =
     (let n = sr_bufsz (dev_priv d) in
      if sr_rx (dev_priv d) = Rx_null
      then if has_flag oflag RT_DEVICE_FLAG_INT_RX
        then do {
          rt_assert mem;
          Some (ctl RT_DEVICE_CTRL_SET_INT RT_DEVICE_FLAG_INT_RX
            (set_open_flag RT_DEVICE_FLAG_INT_RX (upd_rx (Rx_fifo (new_fifo n)) d)))
        }
        else if has_flag oflag RT_DEVICE_FLAG_DMA_RX
        then do {
          rt_assert mem;
          Some (set_open_flag RT_DEVICE_FLAG_DMA_RX
            (if n = 0 then upd_rx (Rx_dma False) d
             else ctl RT_DEVICE_CTRL_CONFIG RT_DEVICE_FLAG_DMA_RX (upd_rx (Rx_fifo (new_fifo n)) d)))
        }
        else Some (upd_rx Rx_null d)
      else Some (if has_flag oflag RT_DEVICE_FLAG_INT_RX then set_open_flag RT_DEVICE_FLAG_INT_RX d
                 else if has_flag oflag RT_DEVICE_FLAG_DMA_RX then set_open_flag RT_DEVICE_FLAG_DMA_RX d else d))"

definition open_tx :: "bool \<Rightarrow> u16 \<Rightarrow> uart \<Rightarrow> uart option" where
  "open_tx mem oflag d =
     (if sr_tx (dev_priv d) = Tx_null
      then if has_flag oflag RT_DEVICE_FLAG_INT_TX
        then do {
          rt_assert mem;
          Some (ctl RT_DEVICE_CTRL_SET_INT RT_DEVICE_FLAG_INT_TX (set_open_flag RT_DEVICE_FLAG_INT_TX (upd_tx Tx_fifo d)))
        }
        else if has_flag oflag RT_DEVICE_FLAG_DMA_TX
        then do {
          rt_assert mem;
          Some (ctl RT_DEVICE_CTRL_CONFIG RT_DEVICE_FLAG_DMA_TX (set_open_flag RT_DEVICE_FLAG_DMA_TX (upd_tx (Tx_dma False []) d)))
        }
        else Some (upd_tx Tx_null d)
      else Some (if has_flag oflag RT_DEVICE_FLAG_INT_TX then set_open_flag RT_DEVICE_FLAG_INT_TX d
                 else if has_flag oflag RT_DEVICE_FLAG_DMA_TX then set_open_flag RT_DEVICE_FLAG_DMA_TX d else d))"

definition rt_serial_open :: "bool \<Rightarrow> u16 \<Rightarrow> uart \<Rightarrow> (rt_err \<times> uart) option" where
  "rt_serial_open mem oflag d =
     (if \<exists>f \<in> {RT_DEVICE_FLAG_DMA_RX, RT_DEVICE_FLAG_DMA_TX, RT_DEVICE_FLAG_INT_RX, RT_DEVICE_FLAG_INT_TX}.
           has_flag oflag f \<and> \<not> has_flag (dev_flag d) f
      then Some (- RT_EIO, d)
      else do {
        let stream = (if has_flag oflag RT_DEVICE_FLAG_STREAM \<or> has_flag (dev_open_flag d) RT_DEVICE_FLAG_STREAM
                      then RT_DEVICE_FLAG_STREAM else 0);
        d1 \<leftarrow> open_rx mem oflag (d\<lparr>dev_open_flag := oflag AND 0xff\<rparr>);
        d2 \<leftarrow> open_tx mem oflag d1;
        Some (RT_EOK, set_open_flag stream d2)
      })"

definition close_rx :: "uart \<Rightarrow> uart option" where
  "close_rx d =
     (if has_flag (dev_open_flag d) RT_DEVICE_FLAG_INT_RX
      then do {
        rt_assert (sr_rx (dev_priv d) \<noteq> Rx_null);
        Some (ctl RT_DEVICE_CTRL_CLR_INT RT_DEVICE_FLAG_INT_RX (clear_open_flag RT_DEVICE_FLAG_INT_RX (upd_rx Rx_null d)))
      }
      else if has_flag (dev_open_flag d) RT_DEVICE_FLAG_DMA_RX
      then do {
        rt_assert (sr_rx (dev_priv d) \<noteq> Rx_null);
        Some (clear_open_flag RT_DEVICE_FLAG_DMA_RX (upd_rx Rx_null (ctl RT_DEVICE_CTRL_CLR_INT RT_DEVICE_FLAG_DMA_RX d)))
      }
      else Some d)"

definition close_tx :: "uart \<Rightarrow> uart option" where
  "close_tx d =
     (if has_flag (dev_open_flag d) RT_DEVICE_FLAG_INT_TX
      then do {
        rt_assert (sr_tx (dev_priv d) \<noteq> Tx_null);
        Some (ctl RT_DEVICE_CTRL_CLR_INT RT_DEVICE_FLAG_INT_TX (clear_open_flag RT_DEVICE_FLAG_INT_TX (upd_tx Tx_null d)))
      }
      else if has_flag (dev_open_flag d) RT_DEVICE_FLAG_DMA_TX
      then do {
        rt_assert (sr_tx (dev_priv d) \<noteq> Tx_null);
        Some (clear_open_flag RT_DEVICE_FLAG_DMA_TX (upd_tx Tx_null d))
      }
      else Some d)"

definition rt_serial_close :: "uart \<Rightarrow> (rt_err \<times> uart) option" where
  "rt_serial_close d =
     (if dev_ref_count d > 1 then Some (RT_EOK, d)
      else do { d1 \<leftarrow> close_rx d; d2 \<leftarrow> close_tx d1; Some (RT_EOK, d2) })"

text \<open>Polling reads up to the end of a line.\<close>

fun serial_poll_rx :: "nat \<Rightarrow> u8 list \<Rightarrow> u8 list \<times> u8 list" where
  "serial_poll_rx 0 ln = ([], ln)"
| "serial_poll_rx (Suc len) [] = ([], [])"
| "serial_poll_rx (Suc len) (c # ln) =
     (if c = 10 then ([c], ln) else let (bs, r) = serial_poll_rx len ln in (c # bs, r))"

definition rt_serial_read :: "nat \<Rightarrow> uart \<Rightarrow> (u8 list \<times> nat \<times> uart) option" where
  "rt_serial_read len d =
     (let n = sr_bufsz (dev_priv d) in
      if len = 0 then Some ([], 0, d)
      else if has_flag (dev_open_flag d) RT_DEVICE_FLAG_INT_RX
      then (case sr_rx (dev_priv d) of
          Rx_fifo f \<Rightarrow> map_option (\<lambda>(bs, f1). (bs, length bs, upd_rx (Rx_fifo f1) d)) (serial_int_rx n len f)
        | _ \<Rightarrow> None)
      else if has_flag (dev_open_flag d) RT_DEVICE_FLAG_DMA_RX
      then (case sr_rx (dev_priv d) of
          Rx_fifo f \<Rightarrow> if n = 0 then None else
            map_option (\<lambda>(bs, f1). (bs, length bs, upd_rx (Rx_fifo f1) d)) (serial_dma_rx n len f)
        | Rx_dma active \<Rightarrow> if n \<noteq> 0 then None
            else if \<not> active then Some ([], len, upd_rx (Rx_dma True) d) else Some ([], 0, d)
        | Rx_null \<Rightarrow> None)
      else let (bs, r) = serial_poll_rx len (sr_line (dev_priv d))
           in Some (bs, length bs, d\<lparr>dev_priv := (dev_priv d)\<lparr>sr_line := r\<rparr>\<rparr>))"

text \<open>Polling output: a carriage return in front of every line feed of a stream.\<close>

fun serial_poll_tx :: "bool \<Rightarrow> u8 list \<Rightarrow> u8 list" where
  "serial_poll_tx stream [] = []"
| "serial_poll_tx stream (c # cs) = (if c = 10 \<and> stream then [13] else []) @ c # serial_poll_tx stream cs"

text \<open>Output by interrupt: \<^verbatim>\<open>putc\<close> answers whether it took the byte; if not, the thread waits and tries
  again. \<open>None\<close> when it still waits after the given answers.\<close>

fun serial_int_tx :: "bool list \<Rightarrow> u8 list \<Rightarrow> u8 list option" where
  "serial_int_tx as [] = Some []"
| "serial_int_tx [] (c # cs) = None"
| "serial_int_tx (a # as) (c # cs) =
     (if a then map_option ((#) c) (serial_int_tx as cs) else serial_int_tx as (c # cs))"

text \<open>Output by DMA: the data queue of 8 entries, then the transfer, unless one is running. The two
  halves are separate: interrupts are enabled between them. \<open>None\<close> when the queue is full and the
  thread has to wait.\<close>

definition dma_tx_push :: "u8 list \<Rightarrow> uart \<Rightarrow> uart option" where
  "dma_tx_push bs d =
     (case sr_tx (dev_priv d) of
        Tx_dma active q \<Rightarrow> if length q < 8 then Some (upd_tx (Tx_dma active (q @ [bs])) d) else None
      | _ \<Rightarrow> None)"

definition dma_tx_start :: "u8 list \<Rightarrow> uart \<Rightarrow> uart option" where
  "dma_tx_start bs d =
     (case sr_tx (dev_priv d) of
        Tx_dma active q \<Rightarrow> Some (if active then d else hw (Transmit bs) (upd_tx (Tx_dma True q) d))
      | _ \<Rightarrow> None)"

text \<open>The end of a transfer: the queue loses its first entry, and the next one is sent.\<close>

definition serial_isr_dma_tx :: "uart \<Rightarrow> uart option" where
  "serial_isr_dma_tx d =
     (case sr_tx (dev_priv d) of
        Tx_dma active q \<Rightarrow> Some (case tl q of
            [] \<Rightarrow> upd_tx (Tx_dma False []) d
          | bs # q' \<Rightarrow> hw (Transmit bs) (upd_tx (Tx_dma True (bs # q')) d))
      | _ \<Rightarrow> None)"

definition send :: "u8 list \<Rightarrow> uart \<Rightarrow> uart" where
  "send out d = d\<lparr>dev_priv := (dev_priv d)\<lparr>sr_sent := sr_sent (dev_priv d) @ out\<rparr>\<rparr>"

definition rt_serial_write :: "bool list \<Rightarrow> u8 list \<Rightarrow> uart \<Rightarrow> (nat \<times> uart) option" where
  "rt_serial_write answers bs d =
     (if bs = [] then Some (0, d)
      else do {
        d1 \<leftarrow> (if has_flag (dev_open_flag d) RT_DEVICE_FLAG_INT_TX
              then if sr_tx (dev_priv d) = Tx_null then None
                   else map_option (\<lambda>out. send out d) (serial_int_tx answers bs)
              else if has_flag (dev_open_flag d) RT_DEVICE_FLAG_DMA_TX
              then Option.bind (dma_tx_push bs d) (dma_tx_start bs)
              else Some (send (serial_poll_tx (has_flag (dev_open_flag d) RT_DEVICE_FLAG_STREAM) bs) d));
        Some (length bs, d1)
      })"

text \<open>\<^verbatim>\<open>rt_serial_control\<close>; the argument of a configuration is the buffer size in it, \<open>answer\<close> what the
  hardware says to other commands.\<close>

definition rt_serial_control :: "rt_err \<Rightarrow> nat \<Rightarrow> nat option \<Rightarrow> uart \<Rightarrow> (rt_err \<times> uart) option" where
  "rt_serial_control answer cmd arg d = Some
     (if cmd = RT_DEVICE_CTRL_SUSPEND then (RT_EOK, d\<lparr>dev_flag := dev_flag d OR RT_DEVICE_FLAG_SUSPENDED\<rparr>)
      else if cmd = RT_DEVICE_CTRL_RESUME then (RT_EOK, d\<lparr>dev_flag := dev_flag d AND NOT RT_DEVICE_FLAG_SUSPENDED\<rparr>)
      else if cmd = RT_DEVICE_CTRL_CONFIG
      then (case arg of
          None \<Rightarrow> (RT_EOK, d)
        | Some n \<Rightarrow>
            if n \<noteq> sr_bufsz (dev_priv d) \<and> dev_ref_count d \<noteq> 0 then (RT_EBUSY, d)
            else let d1 = d\<lparr>dev_priv := (dev_priv d)\<lparr>sr_bufsz := n\<rparr>\<rparr>
                 in (RT_EOK, if dev_ref_count d1 \<noteq> 0 then hw Configure d1 else d1))
      else (answer, hw (Control cmd (case arg of Some n \<Rightarrow> of_nat n | None \<Rightarrow> 0)) d))"

text \<open>\<^verbatim>\<open>rt_hw_serial_isr\<close> for received bytes: everything the line has goes to the buffer; the result is the
  length the callback gets, if there is a callback and something to read.\<close>

definition serial_isr_rx :: "uart \<Rightarrow> (nat option \<times> uart) option" where
  "serial_isr_rx d =
     (case sr_rx (dev_priv d) of
        Rx_fifo f0 \<Rightarrow> do {
          let n = sr_bufsz (dev_priv d);
          f \<leftarrow> fifo_puts n (sr_line (dev_priv d)) f0;
          let len = (if rx_put f \<ge> rx_get f then rx_put f - rx_get f else n - (rx_get f - rx_put f));
          Some (if dev_rx_indicate d \<and> len \<noteq> 0 then Some len else None,
                d\<lparr>dev_priv := (dev_priv d)\<lparr>sr_rx := Rx_fifo f, sr_line := []\<rparr>\<rparr>)
        }
      | _ \<Rightarrow> None)"

text \<open>\<^verbatim>\<open>RT_SERIAL_EVENT_RX_DMADONE\<close>: \<open>len\<close> more bytes are in the buffer.\<close>

definition serial_isr_dma_rx :: "nat \<Rightarrow> uart \<Rightarrow> (nat option \<times> uart) option" where
  "serial_isr_dma_rx len d =
     (let n = sr_bufsz (dev_priv d) in
      case sr_rx (dev_priv d) of
        Rx_null \<Rightarrow> None
      | Rx_dma _ \<Rightarrow> if n = 0 \<and> dev_rx_indicate d then Some (Some len, upd_rx (Rx_dma False) d) else None
      | Rx_fifo f0 \<Rightarrow>
          if n = 0 then None
          else let f = rt_dma_recv_update_put_index n len f0
               in Some (if dev_rx_indicate d then Some (serial_fifo_calc_recved_len n f) else None, upd_rx (Rx_fifo f) d))"

definition serial_ops :: "rt_err \<Rightarrow> bool \<Rightarrow> bool list \<Rightarrow> rt_err \<Rightarrow> serial dev_ops" where
  "serial_ops conf mem answers answer =
     \<lparr>op_init = Some (rt_serial_init conf), op_open = Some (rt_serial_open mem), op_close = Some rt_serial_close,
      op_read = Some rt_serial_read, op_write = Some (rt_serial_write answers), op_control = Some (rt_serial_control answer)\<rparr>"

section \<open>Opening and closing\<close>

lemma upd_simps [simp]:
  "dev_ref_count (upd_rx r d) = dev_ref_count d" "dev_ref_count (upd_tx t d) = dev_ref_count d"
  "dev_ref_count (hw c d) = dev_ref_count d" "dev_ref_count (set_open_flag f d) = dev_ref_count d"
  "dev_ref_count (clear_open_flag f d) = dev_ref_count d"
  "dev_open_flag (upd_rx r d) = dev_open_flag d" "dev_open_flag (upd_tx t d) = dev_open_flag d"
  "dev_open_flag (hw c d) = dev_open_flag d" "dev_open_flag (set_open_flag f d) = dev_open_flag d OR f"
  "dev_open_flag (clear_open_flag f d) = dev_open_flag d AND NOT f"
  by (simp_all add: upd_rx_def upd_tx_def hw_def set_open_flag_def clear_open_flag_def)

lemma open_halves:
  "open_rx mem oflag d = Some d1 \<Longrightarrow> dev_ref_count d1 = dev_ref_count d"
  "open_tx mem oflag d = Some d1 \<Longrightarrow> dev_ref_count d1 = dev_ref_count d"
  by (auto simp: open_rx_def open_tx_def Let_def Option.bind_eq_Some_conv split: if_splits)

lemma close_halves:
  "close_rx d = Some d1 \<Longrightarrow> dev_ref_count d1 = dev_ref_count d"
  "close_tx d = Some d1 \<Longrightarrow> dev_ref_count d1 = dev_ref_count d"
  by (auto simp: close_rx_def close_tx_def Option.bind_eq_Some_conv split: if_splits)

interpretation serial_drv: device_driver "serial_ops conf mem answers answer"
proof
  show "dev_ref_count d' = dev_ref_count d \<and> dev_open_flag d' = dev_open_flag d"
    if "op_init (serial_ops conf mem answers answer) = Some f" "f d = Some (r, d')" for f d r d'
    using that by (auto simp: serial_ops_def rt_serial_init_def)
  show "dev_ref_count d' = dev_ref_count d \<and> r \<noteq> - RT_ENOSYS \<and> (r \<noteq> RT_EOK \<longrightarrow> d' = d)"
    if "op_open (serial_ops conf mem answers answer) = Some g" "g oflag d = Some (r, d')" for g oflag d r d'
    using that
    by (auto simp: serial_ops_def rt_serial_open_def Let_def Option.bind_eq_Some_conv err_defs
      dest!: open_halves split: if_splits)
  show "dev_ref_count d' = dev_ref_count d \<and> r = RT_EOK"
    if "op_close (serial_ops conf mem answers answer) = Some h" "h d = Some (r, d')" for h d r d'
    using that
    by (auto simp: serial_ops_def rt_serial_close_def Option.bind_eq_Some_conv dest!: close_halves split: if_splits)
qed

text \<open>Whatever users open and close a serial device, refused opens included, its reference count is
  the number of opens less that of closes, and it is marked open exactly while the count is not 0.\<close>

theorem serial_uses_counted:
  assumes "dev_uses (serial_ops conf mem answers answer) us d = Some (n, d')"
    "has_flag (dev_open_flag d) RT_DEVICE_OFLAG_OPEN \<longleftrightarrow> dev_ref_count d \<noteq> 0"
  shows "int (unat (dev_ref_count d')) = int (unat (dev_ref_count d)) + n \<and>
    (has_flag (dev_open_flag d') RT_DEVICE_OFLAG_OPEN \<longleftrightarrow> dev_ref_count d' \<noteq> 0)"
  using serial_drv.uses_count [of d, OF _ assms(1)] assms(2) by (simp add: dev_ok_def)

end
