(* ===== verification/SerialRx.thy ===== *)
theory SerialRx
  imports Serial
begin

text \<open>
  What the receive buffer of a serial device is: a queue that forgets its oldest bytes. In interrupt
  mode a buffer of \<open>n\<close> bytes keeps the last \<open>n - 1\<close>, in DMA mode the last \<open>n\<close>, and reads take from the
  front, however arrivals and reads are interleaved.
\<close>

section \<open>The bytes of the buffer\<close>

definition fifo_bytes :: "nat \<Rightarrow> rx_fifo \<Rightarrow> u8 list" where
  "fifo_bytes n f = ring_read (rx_buffer f) n (rx_get f) (serial_fifo_calc_recved_len n f)"

definition lastn :: "nat \<Rightarrow> 'a list \<Rightarrow> 'a list" where
  "lastn m xs = drop (length xs - m) xs"

lemma length_lastn [simp]: "length (lastn m xs) = min m (length xs)"
  by (simp add: lastn_def)

lemma lastn_short: "length xs \<le> m \<Longrightarrow> lastn m xs = xs"
  by (simp add: lastn_def)

lemma lastn_lastn: "lastn m (lastn m xs @ ys) = lastn m (xs @ ys)"
  by (cases "length xs \<le> m") (simp_all add: lastn_def add.commute)

definition fifo_shape :: "nat \<Rightarrow> rx_fifo \<Rightarrow> bool" where
  "fifo_shape n f \<longleftrightarrow> length (rx_buffer f) = n \<and> rx_put f < n \<and> rx_get f < n"

text \<open>In interrupt mode the flag is only set while the buffer has bytes.\<close>

definition int_fifo :: "nat \<Rightarrow> rx_fifo \<Rightarrow> bool" where
  "int_fifo n f \<longleftrightarrow> 2 \<le> n \<and> fifo_shape n f \<and> \<not> (rx_full f \<and> rx_put f = rx_get f)"

lemma int_fifo_len:
  assumes "int_fifo n f"
  shows "serial_fifo_calc_recved_len n f < n"
    "rx_put f = (rx_get f + serial_fifo_calc_recved_len n f) mod n"
    "serial_fifo_calc_recved_len n f = 0 \<longleftrightarrow> rx_put f = rx_get f"
  using assms by (auto simp: int_fifo_def fifo_shape_def serial_fifo_calc_recved_len_def mod_one_turn)

lemma len_int:
  assumes "int_fifo n f" "k < n" "rx_put f = (rx_get f + k) mod n"
  shows "serial_fifo_calc_recved_len n f = k"
  using assms
  by (auto simp: int_fifo_def fifo_shape_def serial_fifo_calc_recved_len_def mod_one_turn split: if_splits)

text \<open>A ring that grows by an element, and one that is written over.\<close>

lemma ring_grow:
  assumes "length b = n" "r < n" "k < n"
  shows "ring_read (b[(r + k) mod n := c]) n r (Suc k) = ring_read b n r k @ [c]"
proof -
  have ne: "(r + k) mod n \<noteq> (r + i) mod n" if "i < k" for i
    using that assms by (auto simp: mod_one_turn)
  have "ring_read (b[(r + k) mod n := c]) n r (k + length [c]) = ring_read b n r k @ [c]"
    using ne assms by (intro ring_read_append) (auto simp: nth_list_update)
  then show ?thesis by simp
qed

lemma ring_over:
  assumes "length b = n" "r < n" "k < n"
  shows "ring_read (b[(r + k) mod n := c]) n ((r + 1) mod n) k = drop 1 (ring_read b n r k @ [c])"
  using arg_cong [OF ring_grow [OF assms, of c], of "drop 1"] drop_ring_read [of 1 "Suc k" "b[(r + k) mod n := c]" n r]
  by (simp add: ring_read_mod)

section \<open>Interrupt mode\<close>

lemma fifo_put_eq:
  assumes "int_fifo n f"
  shows "fifo_put n c f =
    (let p = (rx_put f + 1) mod n; f1 = f\<lparr>rx_buffer := (rx_buffer f)[rx_put f := c], rx_put := p\<rparr> in
     Some (if p = rx_get f then f1\<lparr>rx_get := (rx_get f + 1) mod n, rx_full := True\<rparr> else f1))"
proof -
  have w: "(if i + 1 \<ge> n then 0 else i + 1) = (i + 1) mod n" if "i < n" for i
  proof (cases "i + 1 = n")
    case False
    then have "i + 1 < n" using that by simp
    then show ?thesis by simp
  qed simp
  have "rx_put f < n" "rx_get f < n" "length (rx_buffer f) = n"
    using assms by (auto simp: int_fifo_def fifo_shape_def)
  then show ?thesis unfolding fifo_put_def Let_def by (simp only: w if_True)
qed

lemma fifo_put_keeps_last:
  assumes "int_fifo n f"
  obtains f' where "fifo_put n c f = Some f'" "int_fifo n f'"
    "fifo_bytes n f' = lastn (n - 1) (fifo_bytes n f @ [c])"
proof -
  let ?k = "serial_fifo_calc_recved_len n f"
  have f: "2 \<le> n" "length (rx_buffer f) = n" "rx_put f < n" "rx_get f < n"
    using assms by (auto simp: int_fifo_def fifo_shape_def)
  note L = int_fifo_len [OF assms]
  let ?p = "(rx_put f + 1) mod n" and ?b = "(rx_buffer f)[rx_put f := c]"
  show thesis
  proof (cases "?k = n - 1")
    case True
    let ?f = "f\<lparr>rx_buffer := ?b, rx_put := ?p, rx_get := (rx_get f + 1) mod n, rx_full := True\<rparr>"
    have eq: "?p = rx_get f" using True L(2) f by (auto simp: mod_one_turn split: if_splits)
    then have run: "fifo_put n c f = Some ?f"
      using fifo_put_eq [OF assms, of c] by (simp add: Let_def)
    have "rx_get f \<noteq> (rx_get f + 1) mod n" using f by (auto simp: mod_one_turn)
    then have inv: "int_fifo n ?f" using f eq by (simp add: int_fifo_def fifo_shape_def)
    have len: "serial_fifo_calc_recved_len n ?f = n - 1"
      using inv by (rule len_int) (use f eq in \<open>auto simp: mod_one_turn\<close>)
    have "fifo_bytes n ?f = drop 1 (fifo_bytes n f @ [c])"
      using ring_over [of "rx_buffer f" n "rx_get f" ?k c] f L True
      unfolding fifo_bytes_def len by simp
    then show thesis using that [OF run inv] f True by (simp add: lastn_def fifo_bytes_def)
  next
    case False
    let ?f = "f\<lparr>rx_buffer := ?b, rx_put := ?p\<rparr>"
    have k: "?k + 1 < n" using False L(1) by simp
    have p': "?p = (rx_get f + (?k + 1)) mod n" using L(2) by (metis add.assoc mod_add_left_eq)
    have ne: "?p \<noteq> rx_get f" using k f unfolding p' by (auto simp: mod_one_turn)
    then have run: "fifo_put n c f = Some ?f" using fifo_put_eq [OF assms, of c] by (simp add: Let_def)
    have inv: "int_fifo n ?f" using f ne by (simp add: int_fifo_def fifo_shape_def)
    have len: "serial_fifo_calc_recved_len n ?f = Suc ?k"
      using inv by (rule len_int) (use k p' in simp_all)
    have "fifo_bytes n ?f = fifo_bytes n f @ [c]"
      using ring_grow [of "rx_buffer f" n "rx_get f" ?k c] f L unfolding fifo_bytes_def len by simp
    then show thesis using that [OF run inv] k by (simp add: lastn_short fifo_bytes_def)
  qed
qed

lemma fifo_puts_keep_last:
  assumes "int_fifo n f"
  shows "\<exists>f'. fifo_puts n cs f = Some f' \<and> int_fifo n f' \<and> fifo_bytes n f' = lastn (n - 1) (fifo_bytes n f @ cs)"
  using assms
proof (induction cs arbitrary: f)
  case Nil
  then show ?case using int_fifo_len(1) [OF Nil] by (simp add: lastn_short fifo_bytes_def)
next
  case (Cons c cs)
  obtain f1 where f1: "fifo_put n c f = Some f1" "int_fifo n f1"
    "fifo_bytes n f1 = lastn (n - 1) (fifo_bytes n f @ [c])"
    using fifo_put_keeps_last [OF Cons.prems] .
  from Cons.IH [OF f1(2)] show ?case using f1 by (auto simp: lastn_lastn)
qed

lemma int_rx_takes:
  assumes "int_fifo n f"
  shows "\<exists>f'. serial_int_rx n len f = Some (take len (fifo_bytes n f), f') \<and> int_fifo n f' \<and>
    fifo_bytes n f' = drop len (fifo_bytes n f)"
  using assms
proof (induction len arbitrary: f)
  case 0
  then show ?case by simp
next
  case (Suc len)
  let ?k = "serial_fifo_calc_recved_len n f"
  have f: "2 \<le> n" "length (rx_buffer f) = n" "rx_put f < n" "rx_get f < n" "\<not> (rx_full f \<and> rx_put f = rx_get f)"
    using Suc.prems by (auto simp: int_fifo_def fifo_shape_def)
  note L = int_fifo_len [OF Suc.prems]
  show ?case
  proof (cases "?k = 0")
    case True
    then have "serial_int_rx n (Suc len) f = Some ([], f)" using L(3) f by auto
    then show ?thesis using True Suc.prems by (simp add: fifo_bytes_def)
  next
    case False
    let ?f = "f\<lparr>rx_get := (if rx_get f + 1 \<ge> n then 0 else rx_get f + 1), rx_full := False\<rparr>"
    have g: "(if rx_get f + 1 \<ge> n then 0 else rx_get f + 1) = (rx_get f + 1) mod n" using f by (auto simp: mod_one_turn)
    have inv: "int_fifo n ?f" using f by (auto simp: int_fifo_def fifo_shape_def)
    have len: "serial_fifo_calc_recved_len n ?f = ?k - 1"
    proof (rule len_int [OF inv])
      have "((rx_get f + 1) mod n + (?k - 1)) mod n = (rx_get f + 1 + (?k - 1)) mod n" by (rule mod_add_left_eq)
      then have "((rx_get f + 1) mod n + (?k - 1)) mod n = (rx_get f + ?k) mod n" using False by simp
      then show "rx_put ?f = (rx_get ?f + (?k - 1)) mod n" using L(2) g by simp
    qed (use L in simp)
    have "drop 1 (fifo_bytes n f) = fifo_bytes n ?f"
      unfolding fifo_bytes_def len using drop_ring_read [of 1 ?k "rx_buffer f" n "rx_get f"] False g
      by (simp add: ring_read_mod)
    moreover have "fifo_bytes n f \<noteq> []" "hd (fifo_bytes n f) = rx_buffer f ! rx_get f"
      using False f by (simp_all add: fifo_bytes_def ring_read_def hd_map)
    ultimately have b: "fifo_bytes n f = rx_buffer f ! rx_get f # fifo_bytes n ?f"
      by (metis drop0 drop_Suc list.collapse One_nat_def)
    from Suc.IH [OF inv] obtain f' where f': "serial_int_rx n len ?f = Some (take len (fifo_bytes n ?f), f')"
      "int_fifo n f'" "fifo_bytes n f' = drop len (fifo_bytes n ?f)" by blast
    have "serial_int_rx n (Suc len) f = Some (take (Suc len) (fifo_bytes n f), f')"
      using False L(3) f f'(1) b by (auto simp: Let_def)
    then show ?thesis using f'(2,3) b by simp
  qed
qed

section \<open>DMA mode\<close>

text \<open>In DMA mode the hardware itself stores what it receives, round and round from the put index on; the
  interrupt only tells how many bytes these were. The flag then means a full buffer.\<close>

fun dma_store :: "nat \<Rightarrow> nat \<Rightarrow> u8 list \<Rightarrow> u8 list \<Rightarrow> u8 list" where
  "dma_store n p [] buf = buf"
| "dma_store n p (b # bs) buf = dma_store n ((p + 1) mod n) bs (buf[p := b])"

definition dma_fifo :: "nat \<Rightarrow> rx_fifo \<Rightarrow> bool" where
  "dma_fifo n f \<longleftrightarrow> 0 < n \<and> n \<le> 2 ^ 15 \<and> fifo_shape n f \<and> (rx_full f \<longrightarrow> rx_put f = rx_get f)"

lemma dma_fifo_len:
  assumes "dma_fifo n f"
  shows "serial_fifo_calc_recved_len n f \<le> n"
    "rx_put f = (rx_get f + serial_fifo_calc_recved_len n f) mod n"
    "serial_fifo_calc_recved_len n f = n \<longleftrightarrow> rx_full f"
  using assms by (auto simp: dma_fifo_def fifo_shape_def serial_fifo_calc_recved_len_def mod_one_turn)

lemma len_dma:
  assumes f: "dma_fifo n f" and k: "k \<le> n" "rx_put f = (rx_get f + k) mod n" "rx_full f \<longleftrightarrow> k = n"
  shows "serial_fifo_calc_recved_len n f = k"
proof -
  have b: "rx_put f < n" "rx_get f < n" using f by (auto simp: dma_fifo_def fifo_shape_def)
  consider "k = n" | "k < n" "rx_get f + k < n" | "k < n" "n \<le> rx_get f + k" using k(1) by linarith
  then show ?thesis
  proof cases
    case 1
    then show ?thesis using b k by (simp add: serial_fifo_calc_recved_len_def)
  next
    case 2
    then show ?thesis using b k by (simp add: serial_fifo_calc_recved_len_def)
  next
    case 3
    then have "rx_put f = rx_get f + k - n" using b k(2) by (simp add: mod_one_turn)
    then show ?thesis using 3 b k(3) by (auto simp: serial_fifo_calc_recved_len_def)
  qed
qed

lemma length_dma_store [simp]: "length (dma_store n p bs buf) = length buf"
  by (induction bs arbitrary: p buf) auto

text \<open>The ring after a transfer: it grew, or it lost its first elements.\<close>

lemma dma_store_ring:
  assumes "length b = n" "r < n" "k \<le> n"
  shows "ring_read (dma_store n ((r + k) mod n) bs b) n (r + (k + length bs - n)) (min n (k + length bs)) =
    lastn n (ring_read b n r k @ bs)"
  using assms
proof (induction bs arbitrary: b r k)
  case Nil
  then show ?case by (simp add: lastn_short)
next
  case (Cons c bs)
  have n: "0 < n" using Cons.prems by simp
  let ?p = "(r + k) mod n"
  have p1: "(?p + 1) mod n = (r + (k + 1)) mod n" by (simp add: mod_Suc_eq)
  show ?case
  proof (cases "k < n")
    case True
    then show ?thesis
      using Cons.IH [of "b[?p := c]" r "k + 1"] Cons.prems p1 ring_grow [of b n r k c] by simp
  next
    case False
    then have k: "k = n" using Cons.prems by simp
    let ?r = "(r + 1) mod n"
    have "(?r + (n - 1)) mod n = (r + 1 + (n - 1)) mod n" by (rule mod_add_left_eq)
    then have p: "?p = (?r + (n - 1)) mod n" using n k by simp
    have s: "ring_read (b[?p := c]) n ?r n = drop 1 (ring_read b n r n) @ [c]"
      using ring_grow [of b n ?r "n - 1" c] n Cons.prems p drop_ring_read [of 1 n b n r]
      by (simp add: ring_read_mod)
    have m: "ring_read b' n (?r + x) y = ring_read b' n (r + (1 + x)) y" for b' :: "u8 list" and x y
      by (metis add.assoc mod_add_left_eq ring_read_mod)
    have "(?p + 1) mod n = (?r + n) mod n" using p1 k by (simp add: mod_Suc_eq)
    then have "ring_read (dma_store n ?p (c # bs) b) n (?r + length bs) n =
        lastn n ((drop 1 (ring_read b n r n) @ [c]) @ bs)"
      using Cons.IH [of "b[?p := c]" ?r n] Cons.prems n s by simp
    then show ?thesis using m k n by (simp add: lastn_def)
  qed
qed

lemma dma_put_index:
  assumes f: "dma_fifo n f" and len: "len \<le> n"
  defines "k \<equiv> serial_fifo_calc_recved_len n f"
  shows "rx_put (rt_dma_recv_update_put_index n len f) = (rx_get f + (k + len)) mod n"
    "rx_full (rt_dma_recv_update_put_index n len f) \<longleftrightarrow> n \<le> k + len"
    "rx_get (rt_dma_recv_update_put_index n len f) = (rx_get f + (k + len - n)) mod n"
    "rx_buffer (rt_dma_recv_update_put_index n len f) = rx_buffer f"
proof -
  have b: "0 < n" "n \<le> 2 ^ 15" "rx_put f < n" "rx_get f < n" "rx_full f \<longrightarrow> rx_put f = rx_get f"
    using f by (auto simp: dma_fifo_def fifo_shape_def)
  have t: "(n + a + c) mod n = (a + c) mod n" "(a + (n + c)) mod n = (a + c) mod n" for a c
    by (metis add.assoc mod_add_self1, metis add.left_commute mod_add_self1)
  have w: "(rx_put f + len) mod 2 ^ 16 = rx_put f + len" using b len by simp
  have m: "(rx_put f + len) mod n = (if rx_put f + len < n then rx_put f + len else rx_put f + len - n)"
    using b len by (simp add: mod_one_turn)
  show "rx_put (rt_dma_recv_update_put_index n len f) = (rx_get f + (k + len)) mod n"
    "rx_full (rt_dma_recv_update_put_index n len f) \<longleftrightarrow> n \<le> k + len"
    "rx_get (rt_dma_recv_update_put_index n len f) = (rx_get f + (k + len - n)) mod n"
    "rx_buffer (rt_dma_recv_update_put_index n len f) = rx_buffer f"
    using b len unfolding rt_dma_recv_update_put_index_def w k_def serial_fifo_calc_recved_len_def Let_def
    by (auto simp: mod_one_turn m t)
qed

lemma dma_arrival:
  assumes f: "dma_fifo n f" and len: "length bs \<le> n"
  defines "f' \<equiv> rt_dma_recv_update_put_index n (length bs) (f\<lparr>rx_buffer := dma_store n (rx_put f) bs (rx_buffer f)\<rparr>)"
  shows "dma_fifo n f' \<and> fifo_bytes n f' = lastn n (fifo_bytes n f @ bs)"
proof -
  let ?k = "serial_fifo_calc_recved_len n f"
  let ?b = "dma_store n (rx_put f) bs (rx_buffer f)"
  let ?g = "f\<lparr>rx_buffer := ?b\<rparr>"
  have b: "0 < n" "n \<le> 2 ^ 15" "length (rx_buffer f) = n" "rx_get f < n"
    using f by (auto simp: dma_fifo_def fifo_shape_def)
  have g: "dma_fifo n ?g" "serial_fifo_calc_recved_len n ?g = ?k"
    using f by (auto simp: dma_fifo_def fifo_shape_def serial_fifo_calc_recved_len_def)
  have i: "rx_put f' = (rx_get f + (?k + length bs)) mod n" "rx_full f' \<longleftrightarrow> n \<le> ?k + length bs"
      "rx_get f' = (rx_get f + (?k + length bs - n)) mod n" "rx_buffer f' = ?b"
    using dma_put_index [OF g(1) len] unfolding f'_def g(2) by auto
  have eq: "rx_put f' = rx_get f'" if "rx_full f'"
  proof -
    have "rx_get f + (?k + length bs) = rx_get f + (?k + length bs - n) + n" using that i(2) by simp
    then show ?thesis using i(1,3) by (metis mod_add_self2)
  qed
  have inv: "dma_fifo n f'" using b i eq by (simp add: dma_fifo_def fifo_shape_def)
  have "(rx_get f' + min n (?k + length bs)) mod n = rx_put f'"
  proof (cases "rx_full f'")
    case True
    then show ?thesis using i(2) eq b inv by (simp add: dma_fifo_def fifo_shape_def)
  next
    case False
    then show ?thesis using i(1-3) b by simp
  qed
  then have "serial_fifo_calc_recved_len n f' = min n (?k + length bs)"
    using i(2) by (intro len_dma [OF inv]) auto
  then have "fifo_bytes n f' = lastn n (fifo_bytes n f @ bs)"
    using dma_store_ring [OF b(3,4) dma_fifo_len(1) [OF f], of bs] dma_fifo_len(2) [OF f] i(3,4)
    by (simp add: fifo_bytes_def ring_read_mod)
  then show ?thesis using inv by simp
qed

lemma ring_linear: "length b = n \<Longrightarrow> r + k \<le> n \<Longrightarrow> ring_read b n r k = take k (drop r b)"
  by (rule nth_equalityI) (auto simp: nth_ring_read)

lemma dma_rx_takes:
  assumes f: "dma_fifo n f"
  shows "\<exists>f'. serial_dma_rx n len f = Some (take len (fifo_bytes n f), f') \<and> dma_fifo n f' \<and>
    fifo_bytes n f' = drop len (fifo_bytes n f)"
proof -
  let ?got = "serial_fifo_calc_recved_len n f"
  define k where "k = (if len < ?got then len else ?got)"
  have b: "0 < n" "n \<le> 2 ^ 15" "length (rx_buffer f) = n" "rx_get f < n" "rx_put f < n"
    using f by (auto simp: dma_fifo_def fifo_shape_def)
  note L = dma_fifo_len [OF f]
  have k: "k \<le> ?got" "k \<le> n" using L(1) by (auto simp: k_def)
  let ?f = "f\<lparr>rx_full := rx_full f \<and> k = 0, rx_get := (rx_get f + k) mod n\<rparr>"
  have upd: "rt_dma_recv_update_get_index n k f = Some ?f"
    using k b by (simp add: rt_dma_recv_update_get_index_def Let_def)
  have out: "(if rx_get f + k < n then memread (rx_buffer f) (rx_get f) k
      else do {
        b1 \<leftarrow> memread (rx_buffer f) (rx_get f) (n - rx_get f);
        b2 \<leftarrow> memread (rx_buffer f) 0 (k + rx_get f - n);
        Some (b1 @ b2)
      }) = Some (ring_read (rx_buffer f) n (rx_get f) k)"
  proof (cases "rx_get f + k < n")
    case True
    then show ?thesis using b ring_linear [of "rx_buffer f" n "rx_get f" k] by (simp add: memread_def)
  next
    case False
    let ?a = "n - rx_get f"
    have "ring_read (rx_buffer f) n (rx_get f) k =
        take ?a (ring_read (rx_buffer f) n (rx_get f) k) @ drop ?a (ring_read (rx_buffer f) n (rx_get f) k)" by simp
    also have "\<dots> = ring_read (rx_buffer f) n (rx_get f) ?a @ ring_read (rx_buffer f) n (rx_get f + ?a) (k - ?a)"
      using False b by (simp only: take_ring_read drop_ring_read)
    also have "\<dots> = take ?a (drop (rx_get f) (rx_buffer f)) @ take (k + rx_get f - n) (rx_buffer f)"
      using False b k ring_linear [of "rx_buffer f" n "rx_get f" ?a] ring_linear [of "rx_buffer f" n 0 "k - ?a"]
        ring_read_mod [of "rx_buffer f" n n]
      by simp
    finally show ?thesis using False b k by (simp add: memread_def)
  qed
  have run: "serial_dma_rx n len f = Some (ring_read (rx_buffer f) n (rx_get f) k, ?f)"
    unfolding serial_dma_rx_def Let_def k_def [symmetric] out by (simp add: upd)
  have inv: "dma_fifo n ?f" using f b by (auto simp: dma_fifo_def fifo_shape_def)
  have "serial_fifo_calc_recved_len n ?f = ?got - k"
  proof (rule len_dma [OF inv])
    have "((rx_get f + k) mod n + (?got - k)) mod n = (rx_get f + k + (?got - k)) mod n" by (rule mod_add_left_eq)
    then show "rx_put ?f = (rx_get ?f + (?got - k)) mod n" using L(2) k by simp
  qed (use k L in auto)
  then have "fifo_bytes n ?f = drop k (fifo_bytes n f)"
    using k drop_ring_read [of k ?got "rx_buffer f" n "rx_get f"] by (simp add: fifo_bytes_def ring_read_mod)
  moreover have "take k (fifo_bytes n f) = ring_read (rx_buffer f) n (rx_get f) k"
    using k by (simp add: fifo_bytes_def take_ring_read)
  moreover have "take k (fifo_bytes n f) = take len (fifo_bytes n f)" "drop k (fifo_bytes n f) = drop len (fifo_bytes n f)"
    by (auto simp: k_def fifo_bytes_def)
  ultimately show ?thesis using run inv by auto
qed

section \<open>A queue that forgets\<close>

text \<open>Bytes arrive and are read in any order; \<open>recent_run\<close> is what should come out of a queue that keeps
  the last \<open>m\<close> bytes.\<close>

datatype 'a io = Arrive "'a list" | Fetch nat

fun recent_run :: "nat \<Rightarrow> 'a io list \<Rightarrow> 'a list \<Rightarrow> 'a list list" where
  "recent_run m [] q = []"
| "recent_run m (Arrive bs # ios) q = recent_run m ios (lastn m (q @ bs))"
| "recent_run m (Fetch len # ios) q = take len q # recent_run m ios (drop len q)"

fun io_run :: "('a list \<Rightarrow> 's \<Rightarrow> 's option) \<Rightarrow> (nat \<Rightarrow> 's \<Rightarrow> ('a list \<times> 's) option) \<Rightarrow> 'a io list \<Rightarrow> 's \<Rightarrow>
    'a list list option" where
  "io_run arr fetch [] s = Some []"
| "io_run arr fetch (Arrive bs # ios) s = do { s1 \<leftarrow> arr bs s; io_run arr fetch ios s1 }"
| "io_run arr fetch (Fetch len # ios) s = do {
     (bs, s1) \<leftarrow> fetch len s;
     outs \<leftarrow> io_run arr fetch ios s1;
     Some (bs # outs)
   }"

fun arrivals_within :: "nat \<Rightarrow> 'a io list \<Rightarrow> bool" where
  "arrivals_within m [] \<longleftrightarrow> True"
| "arrivals_within m (Arrive bs # ios) \<longleftrightarrow> length bs \<le> m \<and> arrivals_within m ios"
| "arrivals_within m (Fetch len # ios) \<longleftrightarrow> arrivals_within m ios"

lemma arrivals_bounded: "\<exists>l. arrivals_within l ios"
proof -
  have mono: "arrivals_within l ios \<Longrightarrow> l \<le> l' \<Longrightarrow> arrivals_within l' ios" for l l' and ios :: "'a io list"
    by (induction l ios rule: arrivals_within.induct) auto
  show ?thesis
  proof (induction ios)
    case (Cons a ios)
    then obtain l where "arrivals_within l ios" by blast
    then show ?case
      using mono [of l ios "max l (length (case a of Arrive bs \<Rightarrow> bs | Fetch _ \<Rightarrow> []))"]
      by (intro exI [of _ "max l (length (case a of Arrive bs \<Rightarrow> bs | Fetch _ \<Rightarrow> []))"]) (cases a, auto)
  qed simp
qed

text \<open>\<open>m\<close> is the number of bytes kept, \<open>l\<close> how many may arrive at once.\<close>

locale recent_fifo =
  fixes inv :: "'s \<Rightarrow> bool" and content :: "'s \<Rightarrow> 'a list" and m :: nat and l :: nat
    and arr :: "'a list \<Rightarrow> 's \<Rightarrow> 's option" and fetch :: "nat \<Rightarrow> 's \<Rightarrow> ('a list \<times> 's) option"
  assumes arr_keeps: "inv s \<Longrightarrow> length bs \<le> l \<Longrightarrow>
      \<exists>s'. arr bs s = Some s' \<and> inv s' \<and> content s' = lastn m (content s @ bs)"
    and fetch_takes: "inv s \<Longrightarrow>
      \<exists>s'. fetch len s = Some (take len (content s), s') \<and> inv s' \<and> content s' = drop len (content s)"
begin

lemma run_recent:
  assumes "inv s" "arrivals_within l ios"
  shows "io_run arr fetch ios s = Some (recent_run m ios (content s))"
  using assms
proof (induction ios arbitrary: s)
  case (Cons a ios)
  show ?case
  proof (cases a)
    case (Arrive bs)
    then show ?thesis using Cons arr_keeps [OF Cons.prems(1), of bs] by fastforce
  next
    case (Fetch len)
    then show ?thesis using Cons fetch_takes [OF Cons.prems(1), of len] by fastforce
  qed
qed simp

end

section \<open>The device\<close>

text \<open>An arrival: the bytes are on the line, or stored by DMA, when the interrupt comes.\<close>

definition int_arrive :: "u8 list \<Rightarrow> uart \<Rightarrow> uart option" where
  "int_arrive bs d = map_option snd (serial_isr_rx (d\<lparr>dev_priv := (dev_priv d)\<lparr>sr_line := bs\<rparr>\<rparr>))"

definition dma_arrive :: "u8 list \<Rightarrow> uart \<Rightarrow> uart option" where
  "dma_arrive bs d =
     (case sr_rx (dev_priv d) of
        Rx_fifo f \<Rightarrow> map_option snd (serial_isr_dma_rx (length bs)
          (upd_rx (Rx_fifo (f\<lparr>rx_buffer := dma_store (sr_bufsz (dev_priv d)) (rx_put f) bs (rx_buffer f)\<rparr>)) d))
      | _ \<Rightarrow> None)"

definition read_bytes :: "nat \<Rightarrow> uart \<Rightarrow> (u8 list \<times> uart) option" where
  "read_bytes len d = map_option (\<lambda>(bs, c, d1). (take c bs, d1)) (rt_serial_read len d)"

definition fifo_of :: "uart \<Rightarrow> rx_fifo" where
  "fifo_of d = (case sr_rx (dev_priv d) of Rx_fifo f \<Rightarrow> f | _ \<Rightarrow> new_fifo 0)"

definition int_mode :: "nat \<Rightarrow> uart \<Rightarrow> bool" where
  "int_mode n d \<longleftrightarrow> has_flag (dev_open_flag d) RT_DEVICE_FLAG_INT_RX \<and> sr_bufsz (dev_priv d) = n \<and>
     (\<exists>f. sr_rx (dev_priv d) = Rx_fifo f \<and> int_fifo n f)"

definition dma_mode :: "nat \<Rightarrow> uart \<Rightarrow> bool" where
  "dma_mode n d \<longleftrightarrow> \<not> has_flag (dev_open_flag d) RT_DEVICE_FLAG_INT_RX \<and>
     has_flag (dev_open_flag d) RT_DEVICE_FLAG_DMA_RX \<and> sr_bufsz (dev_priv d) = n \<and>
     (\<exists>f. sr_rx (dev_priv d) = Rx_fifo f \<and> dma_fifo n f)"

lemma isr_int:
  assumes "int_mode n d"
  shows "\<exists>r d'. serial_isr_rx d = Some (r, d') \<and> int_mode n d' \<and> sr_line (dev_priv d') = [] \<and>
    fifo_bytes n (fifo_of d') = lastn (n - 1) (fifo_bytes n (fifo_of d) @ sr_line (dev_priv d)) \<and>
    r = (if dev_rx_indicate d \<and> fifo_bytes n (fifo_of d') \<noteq> [] then Some (length (fifo_bytes n (fifo_of d'))) else None) \<and>
    d' = d\<lparr>dev_priv := (dev_priv d)\<lparr>sr_rx := Rx_fifo (fifo_of d'), sr_line := []\<rparr>\<rparr>"
proof -
  obtain f0 where f0: "sr_rx (dev_priv d) = Rx_fifo f0" "int_fifo n f0" "sr_bufsz (dev_priv d) = n"
    using assms by (auto simp: int_mode_def)
  obtain f where f: "fifo_puts n (sr_line (dev_priv d)) f0 = Some f" "int_fifo n f"
    "fifo_bytes n f = lastn (n - 1) (fifo_bytes n f0 @ sr_line (dev_priv d))"
    using fifo_puts_keep_last [OF f0(2)] by blast
  have len: "(if rx_put f \<ge> rx_get f then rx_put f - rx_get f else n - (rx_get f - rx_put f)) = length (fifo_bytes n f)"
    using f(2) by (auto simp: fifo_bytes_def serial_fifo_calc_recved_len_def int_fifo_def)
  let ?d = "d\<lparr>dev_priv := (dev_priv d)\<lparr>sr_rx := Rx_fifo f, sr_line := []\<rparr>\<rparr>"
  let ?r = "if dev_rx_indicate d \<and> fifo_bytes n f \<noteq> [] then Some (length (fifo_bytes n f)) else None"
  have own: "fifo_of ?d = f" "fifo_of d = f0" using f0 by (simp_all add: fifo_of_def)
  show ?thesis
  proof (intro exI conjI)
    show "serial_isr_rx d = Some (?r, ?d)"
      using f0 f(1) len by (simp add: serial_isr_rx_def Let_def)
    show "int_mode n ?d" using assms f(2) f0 by (simp add: int_mode_def)
    show "fifo_bytes n (fifo_of ?d) = lastn (n - 1) (fifo_bytes n (fifo_of d) @ sr_line (dev_priv d))"
      using f(3) own by simp
  qed (simp_all only: own, simp)
qed

lemma read_int:
  assumes "int_mode n d"
  shows "\<exists>d'. rt_serial_read len d = Some (take len (fifo_bytes n (fifo_of d)), length (take len (fifo_bytes n (fifo_of d))), d') \<and>
    int_mode n d' \<and> fifo_bytes n (fifo_of d') = drop len (fifo_bytes n (fifo_of d)) \<and>
    d' = d\<lparr>dev_priv := (dev_priv d)\<lparr>sr_rx := Rx_fifo (fifo_of d')\<rparr>\<rparr>"
proof -
  obtain f where f: "sr_rx (dev_priv d) = Rx_fifo f" "int_fifo n f" "sr_bufsz (dev_priv d) = n"
      "has_flag (dev_open_flag d) RT_DEVICE_FLAG_INT_RX"
    using assms by (auto simp: int_mode_def)
  then have own: "fifo_of d = f" by (simp add: fifo_of_def)
  obtain f' where f': "serial_int_rx n len f = Some (take len (fifo_bytes n f), f')" "int_fifo n f'"
    "fifo_bytes n f' = drop len (fifo_bytes n f)" using int_rx_takes [OF f(2)] by blast
  show ?thesis
  proof (cases "len = 0")
    case True
    have "dev_priv d = (dev_priv d)\<lparr>sr_rx := Rx_fifo f\<rparr>" using f(1) by (cases "dev_priv d") simp
    then have "d = d\<lparr>dev_priv := (dev_priv d)\<lparr>sr_rx := Rx_fifo f\<rparr>\<rparr>" by (cases d) simp
    then show ?thesis using True assms own by (simp add: rt_serial_read_def)
  next
    case False
    then have "rt_serial_read len d = Some (take len (fifo_bytes n f), length (take len (fifo_bytes n f)), upd_rx (Rx_fifo f') d)"
      using f f'(1) by (simp add: rt_serial_read_def Let_def)
    moreover have "fifo_of (upd_rx (Rx_fifo f') d) = f'" by (simp add: fifo_of_def upd_rx_def)
    moreover have "int_mode n (upd_rx (Rx_fifo f') d)" using assms f'(2) by (simp add: int_mode_def upd_rx_def)
    ultimately show ?thesis using f'(3) own by (auto simp: upd_rx_def)
  qed
qed

interpretation int_rx: recent_fifo "int_mode n" "fifo_bytes n \<circ> fifo_of" "n - 1" l int_arrive read_bytes
proof
  show "\<exists>s'. int_arrive bs s = Some s' \<and> int_mode n s' \<and> (fifo_bytes n \<circ> fifo_of) s' = lastn (n - 1) ((fifo_bytes n \<circ> fifo_of) s @ bs)"
    if m: "int_mode n s" "length bs \<le> l" for s bs
  proof -
    let ?d = "s\<lparr>dev_priv := (dev_priv s)\<lparr>sr_line := bs\<rparr>\<rparr>"
    have "int_mode n ?d" "fifo_of ?d = fifo_of s" using m by (simp_all add: int_mode_def fifo_of_def)
    then show ?thesis using isr_int [of n ?d] by (auto simp: int_arrive_def)
  qed
  show "\<exists>s'. read_bytes len s = Some (take len ((fifo_bytes n \<circ> fifo_of) s), s') \<and> int_mode n s' \<and>
      (fifo_bytes n \<circ> fifo_of) s' = drop len ((fifo_bytes n \<circ> fifo_of) s)" if m: "int_mode n s" for len s
    using read_int [OF m, of len] by (auto simp: read_bytes_def min_def)
qed

interpretation dma_rx: recent_fifo "dma_mode n" "fifo_bytes n \<circ> fifo_of" n n dma_arrive read_bytes
proof
  show "\<exists>s'. dma_arrive bs s = Some s' \<and> dma_mode n s' \<and> (fifo_bytes n \<circ> fifo_of) s' = lastn n ((fifo_bytes n \<circ> fifo_of) s @ bs)"
    if m: "dma_mode n s" "length bs \<le> n" for s bs
  proof -
    obtain f where f: "sr_rx (dev_priv s) = Rx_fifo f" "dma_fifo n f" "sr_bufsz (dev_priv s) = n"
      using m(1) by (auto simp: dma_mode_def)
    moreover have "n \<noteq> 0" using f(2) by (simp add: dma_fifo_def)
    ultimately show ?thesis using m(1) dma_arrival [OF f(2) m(2)]
      by (simp add: dma_arrive_def serial_isr_dma_rx_def Let_def upd_rx_def fifo_of_def dma_mode_def)
  qed
  show "\<exists>s'. read_bytes len s = Some (take len ((fifo_bytes n \<circ> fifo_of) s), s') \<and> dma_mode n s' \<and>
      (fifo_bytes n \<circ> fifo_of) s' = drop len ((fifo_bytes n \<circ> fifo_of) s)" if m: "dma_mode n s" for len s
  proof -
    obtain f where f: "sr_rx (dev_priv s) = Rx_fifo f" "dma_fifo n f" "sr_bufsz (dev_priv s) = n"
      using m by (auto simp: dma_mode_def)
    have n: "n \<noteq> 0" using f(2) by (simp add: dma_fifo_def)
    show ?thesis
    proof (cases "len = 0")
      case True
      then show ?thesis using m by (simp add: read_bytes_def rt_serial_read_def)
    next
      case False
      then show ?thesis using m f n dma_rx_takes [OF f(2), of len]
        by (auto simp: read_bytes_def rt_serial_read_def Let_def upd_rx_def fifo_of_def dma_mode_def)
    qed
  qed
qed

section \<open>What users of the device see\<close>

lemma new_fifo_modes:
  "2 \<le> n \<Longrightarrow> int_fifo n (new_fifo n)" "0 < n \<Longrightarrow> n \<le> 2 ^ 15 \<Longrightarrow> dma_fifo n (new_fifo n)"
  "fifo_bytes n (new_fifo n) = []"
  by (simp_all add: int_fifo_def dma_fifo_def fifo_shape_def new_fifo_def fifo_bytes_def serial_fifo_calc_recved_len_def)

lemma has_flag_or: "has_flag (a OR b) f \<longleftrightarrow> has_flag a f \<or> has_flag b f"
  by (auto simp: has_flag_def bit.conj_disj_distrib2 or_eq_0_iff)

lemma rx_flag_bits [simp]:
  "has_flag (a AND 0xff) RT_DEVICE_FLAG_INT_RX \<longleftrightarrow> False" "has_flag RT_DEVICE_FLAG_INT_RX RT_DEVICE_FLAG_INT_RX"
  "has_flag RT_DEVICE_FLAG_DMA_RX RT_DEVICE_FLAG_DMA_RX" "\<not> has_flag RT_DEVICE_FLAG_DMA_RX RT_DEVICE_FLAG_INT_RX"
  "\<not> has_flag RT_DEVICE_FLAG_INT_TX RT_DEVICE_FLAG_INT_RX" "\<not> has_flag RT_DEVICE_FLAG_DMA_TX RT_DEVICE_FLAG_INT_RX"
  "\<not> has_flag RT_DEVICE_FLAG_STREAM RT_DEVICE_FLAG_INT_RX" "\<not> has_flag 0 f"
  by (simp_all add: has_flag_def and.assoc)

lemma open_tx_rx:
  assumes "open_tx mem oflag d = Some d'"
  shows "sr_rx (dev_priv d') = sr_rx (dev_priv d) \<and> sr_bufsz (dev_priv d') = sr_bufsz (dev_priv d) \<and>
    (has_flag (dev_open_flag d) f \<longrightarrow> has_flag (dev_open_flag d') f) \<and>
    (has_flag (dev_open_flag d') RT_DEVICE_FLAG_INT_RX \<longleftrightarrow> has_flag (dev_open_flag d) RT_DEVICE_FLAG_INT_RX)"
  using assms
  by (auto simp: open_tx_def Let_def Option.bind_eq_Some_conv upd_tx_def hw_def set_open_flag_def has_flag_or
    split: if_splits)

lemma open_modes:
  assumes o: "rt_serial_open mem oflag d = Some (RT_EOK, d1)" and closed: "sr_rx (dev_priv d) = Rx_null"
    and n: "sr_bufsz (dev_priv d) = n"
  shows "has_flag oflag RT_DEVICE_FLAG_INT_RX \<Longrightarrow> 2 \<le> n \<Longrightarrow> int_mode n d1 \<and> fifo_bytes n (fifo_of d1) = []"
    "\<not> has_flag oflag RT_DEVICE_FLAG_INT_RX \<Longrightarrow> has_flag oflag RT_DEVICE_FLAG_DMA_RX \<Longrightarrow> 0 < n \<Longrightarrow> n \<le> 2 ^ 15 \<Longrightarrow>
      dma_mode n d1 \<and> fifo_bytes n (fifo_of d1) = []"
proof -
  obtain d2 d3 s where r: "open_rx mem oflag (d\<lparr>dev_open_flag := oflag AND 0xff\<rparr>) = Some d2"
    "open_tx mem oflag d2 = Some d3" "d1 = set_open_flag s d3" "\<not> has_flag s RT_DEVICE_FLAG_INT_RX"
    using o by (auto simp: rt_serial_open_def Let_def Option.bind_eq_Some_conv err_defs split: if_splits)
  have d1: "dev_priv d1 = dev_priv d3" "has_flag (dev_open_flag d1) f \<longleftrightarrow> has_flag (dev_open_flag d3) f \<or> has_flag s f" for f
    using r(3) by (auto simp: set_open_flag_def has_flag_or)
  note t = open_tx_rx [OF r(2)]
  show "int_mode n d1 \<and> fifo_bytes n (fifo_of d1) = []" if "has_flag oflag RT_DEVICE_FLAG_INT_RX" "2 \<le> n"
  proof -
    have "dev_open_flag d2 = (oflag AND 0xff) OR RT_DEVICE_FLAG_INT_RX" "sr_rx (dev_priv d2) = Rx_fifo (new_fifo n)"
      "sr_bufsz (dev_priv d2) = n"
      using r(1) that n closed
      by (auto simp: open_rx_def Let_def Option.bind_eq_Some_conv upd_rx_def hw_def set_open_flag_def)
    then show ?thesis using t d1 that new_fifo_modes [of n] by (auto simp: int_mode_def fifo_of_def has_flag_or)
  qed
  show "dma_mode n d1 \<and> fifo_bytes n (fifo_of d1) = []"
    if "\<not> has_flag oflag RT_DEVICE_FLAG_INT_RX" "has_flag oflag RT_DEVICE_FLAG_DMA_RX" "0 < n" "n \<le> 2 ^ 15"
  proof -
    have d2: "dev_open_flag d2 = (oflag AND 0xff) OR RT_DEVICE_FLAG_DMA_RX" "sr_rx (dev_priv d2) = Rx_fifo (new_fifo n)"
      "sr_bufsz (dev_priv d2) = n"
      using r(1) that n closed
      by (auto simp: open_rx_def Let_def Option.bind_eq_Some_conv upd_rx_def hw_def set_open_flag_def)
    have "has_flag (dev_open_flag d2) RT_DEVICE_FLAG_DMA_RX" "\<not> has_flag (dev_open_flag d2) RT_DEVICE_FLAG_INT_RX"
      using d2(1) by (auto simp: has_flag_or)
    then show ?thesis using t [of RT_DEVICE_FLAG_DMA_RX] d1 r(4) d2 new_fifo_modes [of n] that
      by (auto simp: dma_mode_def fifo_of_def)
  qed
qed

text \<open>C27: a serial device opened for interrupt reception gives back, in the order of arrival and
  however arrivals and reads are interleaved, the bytes received, of which it keeps the last
  \<open>bufsz - 1\<close> not read yet; nothing it does fails.\<close>

theorem int_reads_recent:
  assumes "rt_serial_open mem oflag d = Some (RT_EOK, d1)" "has_flag oflag RT_DEVICE_FLAG_INT_RX"
    "sr_rx (dev_priv d) = Rx_null" "sr_bufsz (dev_priv d) = n" "2 \<le> n"
  shows "io_run int_arrive read_bytes ios d1 = Some (recent_run (n - 1) ios [])"
proof -
  obtain l where "arrivals_within l ios" using arrivals_bounded ..
  then show ?thesis
    using int_rx.run_recent [of n d1 l ios] open_modes(1) [OF assms(1,3,4,2,5)] by simp
qed

text \<open>C28: and one opened for DMA reception with at most 32768 bytes of buffer the last \<open>bufsz\<close>, if no
  interrupt tells of more than that.\<close>

theorem dma_reads_recent:
  assumes "rt_serial_open mem oflag d = Some (RT_EOK, d1)" "has_flag oflag RT_DEVICE_FLAG_DMA_RX"
    "\<not> has_flag oflag RT_DEVICE_FLAG_INT_RX" "sr_rx (dev_priv d) = Rx_null" "sr_bufsz (dev_priv d) = n"
    "0 < n" "n \<le> 2 ^ 15" "arrivals_within n ios"
  shows "io_run dma_arrive read_bytes ios d1 = Some (recent_run n ios [])"
  using dma_rx.run_recent [of n d1 ios] open_modes(2) [OF assms(1,4,5,3,2,6,7)] assms(8) by simp

text \<open>A device of 4 bytes of buffer.\<close>

definition demo_uart :: uart where
  "demo_uart = \<lparr>dev_flag = 0xf13, dev_open_flag = 0, dev_ref_count = 0, dev_rx_indicate = True, dev_tx_complete = False,
     dev_priv = \<lparr>sr_bufsz = 4, sr_rx = Rx_null, sr_tx = Tx_null, sr_line = [], sr_sent = [], sr_calls = []\<rparr>\<rparr>"

lemma demo_uart_opens:
  "\<exists>d. rt_serial_open True 0x103 demo_uart = Some (RT_EOK, d)" "\<exists>d. rt_serial_open True 0x203 demo_uart = Some (RT_EOK, d)"
  by (simp_all add: rt_serial_open_def demo_uart_def has_flag_def open_rx_def open_tx_def rt_assert_def err_defs
      set_open_flag_def upd_rx_def upd_tx_def hw_def Let_def)

text \<open>Five bytes arrive while nobody reads: the first two are lost, by DMA only the first one.\<close>

lemma int_reads_recent_witness:
  "\<exists>d. rt_serial_open True 0x103 demo_uart = Some (RT_EOK, d) \<and>
    io_run int_arrive read_bytes [Arrive [1, 2, 3], Arrive [4, 5], Fetch 2, Arrive [6], Fetch 5] d = Some [[3, 4], [5, 6]]"
proof -
  obtain d where d: "rt_serial_open True 0x103 demo_uart = Some (RT_EOK, d)" using demo_uart_opens(1) by blast
  have "io_run int_arrive read_bytes [Arrive [1, 2, 3], Arrive [4, 5], Fetch 2, Arrive [6], Fetch 5] d =
      Some (recent_run (4 - 1) [Arrive [1, 2, 3], Arrive [4, 5], Fetch 2, Arrive [6], Fetch 5] [])"
    by (rule int_reads_recent [OF d]) (simp_all add: has_flag_def demo_uart_def)
  then show ?thesis using d by (simp add: lastn_def)
qed

lemma dma_reads_recent_witness:
  "\<exists>d. rt_serial_open True 0x203 demo_uart = Some (RT_EOK, d) \<and>
    io_run dma_arrive read_bytes [Arrive [1, 2, 3], Arrive [4, 5], Fetch 2, Arrive [6], Fetch 5] d = Some [[2, 3], [4, 5, 6]]"
proof -
  obtain d where d: "rt_serial_open True 0x203 demo_uart = Some (RT_EOK, d)" using demo_uart_opens(2) by blast
  have "io_run dma_arrive read_bytes [Arrive [1, 2, 3], Arrive [4, 5], Fetch 2, Arrive [6], Fetch 5] d =
      Some (recent_run 4 [Arrive [1, 2, 3], Arrive [4, 5], Fetch 2, Arrive [6], Fetch 5] [])"
    by (rule dma_reads_recent [OF d]) (simp_all add: has_flag_def demo_uart_def)
  then show ?thesis using d by (simp add: lastn_def)
qed

section \<open>A second user\<close>

text \<open>Opening a device in interrupt mode once more without the flag for it succeeds, and from then on
  nobody reads what the interrupt keeps on storing: reads poll the hardware, which has nothing left.\<close>

lemma second_open_loses_input:
  assumes m: "int_mode n d" and fl: "oflag = RT_DEVICE_OFLAG_RDWR" and idle: "sr_line (dev_priv d) = []"
  shows "\<exists>d1. rt_serial_open mem oflag d = Some (RT_EOK, d1) \<and> fifo_of d1 = fifo_of d \<and> sr_rx (dev_priv d1) \<noteq> Rx_null \<and>
    read_bytes len d1 = Some ([], d1)"
proof -
  obtain f where f: "sr_rx (dev_priv d) = Rx_fifo f" using m by (auto simp: int_mode_def)
  obtain d1 where d1: "rt_serial_open mem oflag d = Some (RT_EOK, d1)" "dev_open_flag d1 AND 0x300 = 0"
    "sr_rx (dev_priv d1) = Rx_fifo f" "sr_line (dev_priv d1) = []"
    using f idle
    by (cases "has_flag (dev_open_flag d) RT_DEVICE_FLAG_STREAM"; cases "sr_tx (dev_priv d)")
      (simp_all add: fl rt_serial_open_def has_flag_def open_rx_def open_tx_def Let_def set_open_flag_def
        upd_tx_def err_defs bit.conj_disj_distrib2)
  have "dev_open_flag d1 AND m = (dev_open_flag d1 AND 0x300) AND m" if "m \<in> {RT_DEVICE_FLAG_INT_RX, RT_DEVICE_FLAG_DMA_RX}" for m
    using that by (auto simp: and.assoc)
  then have "\<not> has_flag (dev_open_flag d1) RT_DEVICE_FLAG_INT_RX" "\<not> has_flag (dev_open_flag d1) RT_DEVICE_FLAG_DMA_RX"
    using d1(2) by (simp_all add: has_flag_def)
  moreover have "serial_poll_rx k [] = ([], [])" for k by (cases k) simp_all
  moreover have "d1\<lparr>dev_priv := (dev_priv d1)\<lparr>sr_line := []\<rparr>\<rparr> = d1"
    using d1(4) by (metis device.surjective device.update_convs(6) serial.surjective serial.update_convs(4))
  ultimately have "read_bytes len d1 = Some ([], d1)" using d1(3,4) by (simp add: read_bytes_def rt_serial_read_def Let_def)
  then show ?thesis using d1 f by (auto simp: fifo_of_def)
qed

section \<open>Output by DMA\<close>

datatype dma_io = Write_all "u8 list" | Dma_done

fun dma_tx_run :: "dma_io list \<Rightarrow> uart \<Rightarrow> uart option" where
  "dma_tx_run [] d = Some d"
| "dma_tx_run (Write_all bs # ios) d = do { d1 \<leftarrow> dma_tx_push bs d; d2 \<leftarrow> dma_tx_start bs d1; dma_tx_run ios d2 }"
| "dma_tx_run (Dma_done # ios) d = do { d1 \<leftarrow> serial_isr_dma_tx d; dma_tx_run ios d1 }"

fun written :: "dma_io list \<Rightarrow> u8 list list" where
  "written [] = []"
| "written (Write_all bs # ios) = bs # written ios"
| "written (Dma_done # ios) = written ios"

text \<open>Writes that are not interrupted by each other go out once each, in order: what was handed to the
  hardware, and what waits behind the transfer that is running.\<close>

lemma dma_tx_in_order:
  assumes "dma_tx_run ios d = Some d'" "sr_tx (dev_priv d) = Tx_dma (q \<noteq> []) q" "sr_calls (dev_priv d) = map Transmit out"
  shows "\<exists>q' out'. sr_tx (dev_priv d') = Tx_dma (q' \<noteq> []) q' \<and> sr_calls (dev_priv d') = map Transmit out' \<and>
    out' @ tl q' = out @ tl q @ written ios"
  using assms
proof (induction ios arbitrary: d q out)
  case Nil
  then show ?case by auto
next
  case (Cons a ios)
  show ?case
  proof (cases a)
    case (Write_all bs)
    let ?d = "(if q \<noteq> [] then upd_tx (Tx_dma True (q @ [bs])) d else hw (Transmit bs) (upd_tx (Tx_dma True [bs]) (upd_tx (Tx_dma False [bs]) d)))"
    have run: "dma_tx_run ios ?d = Some d'"
      using Cons.prems Write_all
      by (auto simp: dma_tx_push_def dma_tx_start_def upd_tx_def Option.bind_eq_Some_conv split: if_splits)
    have "sr_tx (dev_priv ?d) = Tx_dma (q @ [bs] \<noteq> []) (q @ [bs])"
      "sr_calls (dev_priv ?d) = map Transmit (if q \<noteq> [] then out else out @ [bs])"
      using Cons.prems by (auto simp: upd_tx_def hw_def)
    from Cons.IH [OF run this] show ?thesis using Write_all by (cases q) auto
  next
    case Dma_done
    let ?d = "(case tl q of [] \<Rightarrow> upd_tx (Tx_dma False []) d | bs # q' \<Rightarrow> hw (Transmit bs) (upd_tx (Tx_dma True (bs # q')) d))"
    have run: "dma_tx_run ios ?d = Some d'" using Cons.prems Dma_done by (simp add: serial_isr_dma_tx_def)
    have "sr_tx (dev_priv ?d) = Tx_dma (tl q \<noteq> []) (tl q)"
      "sr_calls (dev_priv ?d) = map Transmit (out @ take 1 (tl q))"
      using Cons.prems by (auto simp: upd_tx_def hw_def split: list.split)
    from Cons.IH [OF run this] show ?thesis using Dma_done by (cases "tl q") auto
  qed
qed

text \<open>Two threads that write at a time: \<open>a\<close> is in the queue first, \<open>b\<close> finds no transfer running first.
  Then \<open>b\<close> is sent twice and \<open>a\<close> never.\<close>

lemma dma_tx_race:
  assumes "sr_tx (dev_priv d) = Tx_dma False []"
  shows "\<exists>d'. do {
      d1 \<leftarrow> dma_tx_push a d; d2 \<leftarrow> dma_tx_push b d1; d3 \<leftarrow> dma_tx_start b d2; d4 \<leftarrow> dma_tx_start a d3;
      d5 \<leftarrow> serial_isr_dma_tx d4; serial_isr_dma_tx d5
    } = Some d' \<and> sr_calls (dev_priv d') = sr_calls (dev_priv d) @ [Transmit b, Transmit b] \<and>
    sr_tx (dev_priv d') = Tx_dma False []"
  using assms by (simp add: dma_tx_push_def dma_tx_start_def serial_isr_dma_tx_def upd_tx_def hw_def)

end
