(* ===== verification/ConsoleIn.thy ===== *)
theory ConsoleIn
  imports SerialRx Shell Sem "HOL-Library.Sublist"
begin

text \<open>
  The input of the shell: bytes come with interrupts into the receive buffer of the serial device, the
  driver calls back, the callback releases a semaphore, and the thread of the shell reads until the
  device has nothing, then waits. The steps of the interrupt, of the shell (\<^verbatim>\<open>finsh_getchar\<close>,
  \<^verbatim>\<open>finsh_rx_ind\<close>, \<^verbatim>\<open>finsh_set_device\<close> of \<^verbatim>\<open>components/finsh/shell.c\<close>) and of the rest of the system
  interleave freely.
\<close>

section \<open>The device of the shell\<close>

abbreviation uart_ops :: "serial dev_ops" where
  "uart_ops \<equiv> serial_ops RT_EOK True [] RT_EOK"

definition finsh_rx_ind :: "nat \<Rightarrow> kernel \<Rightarrow> kernel option" where
  "finsh_rx_ind s k = rt_sem_release s k"

text \<open>The two halves of the loop of \<^verbatim>\<open>finsh_getchar\<close>: a read, and the wait when it gave nothing.\<close>

definition getchar_read :: "uart \<Rightarrow> (u8 option \<times> uart) option" where
  "getchar_read d = do {
     (e, bs, c, d1) \<leftarrow> rt_device_read uart_ops 1 d;
     Some (if c \<noteq> 1 then None else Some (hd bs), d1)
   }"

definition getchar_wait :: "nat \<Rightarrow> kernel \<Rightarrow> (outcome \<times> kernel) option" where
  "getchar_wait s k = rt_sem_take s (- 1) k"

text \<open>\<^verbatim>\<open>finsh_set_device\<close>: \<open>devs\<close> are the devices, \<open>cur\<close> the one of the shell.\<close>

definition finsh_set_device ::
    "u8 list \<Rightarrow> kernel \<Rightarrow> (nat \<Rightarrow> uart) \<Rightarrow> nat option \<Rightarrow> finsh_shell \<Rightarrow>
      (kernel \<times> (nat \<Rightarrow> uart) \<times> nat option \<times> finsh_shell) option" where
  "finsh_set_device name k devs cur sh = do {
     (r, k1) \<leftarrow> rt_device_find name k;
     case r of
       Some (ODevice i) \<Rightarrow>
         if cur = Some i then Some (k1, devs, cur, sh)
         else do {
           (e, d1) \<leftarrow> rt_device_open uart_ops (RT_DEVICE_OFLAG_RDWR OR RT_DEVICE_FLAG_INT_RX OR RT_DEVICE_FLAG_STREAM) (devs i);
           let devs1 = devs(i := d1);
           if e = RT_EOK
           then do {
             devs2 \<leftarrow> (case cur of
                 None \<Rightarrow> Some devs1
               | Some j \<Rightarrow> do {
                   (e2, d2) \<leftarrow> rt_device_close uart_ops (devs1 j);
                   Some (devs1(j := rt_device_set_rx_indicate False d2))
                 });
             let sh1 = sh\<lparr>line := replicate (length (line sh)) 0, line_curpos := 0, line_position := 0\<rparr>;
             Some (k1, devs2(i := rt_device_set_rx_indicate True (devs2 i)), Some i, sh1)
           }
           else Some (k1, devs1, cur, sh)
         }
     | _ \<Rightarrow> Some (k1, devs, cur, sh)
   }"

section \<open>Steps\<close>

datatype phase = Reading | Taking | Waiting

text \<open>The last three fields are not in the code: the bytes received, read, and lost because the
  buffer was full.\<close>

record 'f console =
  con_kernel :: kernel
  con_uart :: uart
  con_phase :: phase
  con_shell :: finsh_shell
  con_out :: "'f shell_out list"
  con_received :: "u8 list"
  con_read :: "u8 list"
  con_lost :: nat

abbreviation unread :: "nat \<Rightarrow> 'f console \<Rightarrow> u8 list" where
  "unread n c \<equiv> fifo_bytes n (fifo_of (con_uart c))"

text \<open>\<open>t\<close> is the thread of the shell, \<open>s\<close> its semaphore, \<open>n\<close> the size of the buffer. The interrupt comes at
  any time. Other threads and interrupts do what they like, but not to this semaphore; they may write
  to the device. A command that the shell runs is part of its step, what it does to the system the
  steps of others.\<close>

inductive con_step :: "nat \<Rightarrow> nat \<Rightarrow> nat \<Rightarrow> (u8 list \<times> 'f) list \<Rightarrow> 'f console \<Rightarrow> 'f console \<Rightarrow> bool"
  for n t s table where
  Interrupt: "current_thread (con_kernel c) \<noteq> None \<Longrightarrow> sem_value (sems (con_kernel c) s) \<noteq> 0xffff \<Longrightarrow>
    serial_isr_rx ((con_uart c)\<lparr>dev_priv := (dev_priv (con_uart c))\<lparr>sr_line := bs\<rparr>\<rparr>) = Some (ind, d) \<Longrightarrow>
    (case ind of None \<Rightarrow> Some (con_kernel c) | Some len \<Rightarrow> finsh_rx_ind s (con_kernel c)) = Some k \<Longrightarrow>
    con_step n t s table c (c\<lparr>con_kernel := k, con_uart := d, con_received := con_received c @ bs,
      con_lost := con_lost c + (length (unread n c) + length bs - (n - 1))\<rparr>)"
| Read: "con_phase c = Reading \<Longrightarrow> getchar_read (con_uart c) = Some (Some ch, d) \<Longrightarrow>
    shell_key table ch (con_shell c) = Some (out, sh) \<Longrightarrow>
    con_step n t s table c (c\<lparr>con_uart := d, con_shell := sh, con_out := con_out c @ out, con_read := con_read c @ [ch]\<rparr>)"
| Nothing: "con_phase c = Reading \<Longrightarrow> getchar_read (con_uart c) = Some (None, d) \<Longrightarrow>
    con_step n t s table c (c\<lparr>con_uart := d, con_phase := Taking\<rparr>)"
| Take: "con_phase c = Taking \<Longrightarrow> may_block (con_kernel c) t \<Longrightarrow> getchar_wait s (con_kernel c) = Some (r, k) \<Longrightarrow>
    con_step n t s table c (c\<lparr>con_kernel := k, con_phase := (case r of Blocked \<Rightarrow> Waiting | Returned _ \<Rightarrow> Reading)\<rparr>)"
| Resumed: "con_phase c = Waiting \<Longrightarrow> t \<notin> set (lists (con_kernel c) (LSem s)) \<Longrightarrow> current_thread (con_kernel c) = Some t \<Longrightarrow>
    rt_sem_take_resumed t (con_kernel c) = Some (Returned r, k) \<Longrightarrow>
    con_step n t s table c (c\<lparr>con_kernel := k, con_phase := Reading\<rparr>)"
| Others: "kinv 0 k \<Longrightarrow> sems k s = sems (con_kernel c) s \<Longrightarrow> lists k (LSem s) = lists (con_kernel c) (LSem s) \<Longrightarrow>
    con_step n t s table c (c\<lparr>con_kernel := k\<rparr>)"
| Output: "rt_device_write uart_ops bs (con_uart c) = Some (e, len, d) \<Longrightarrow>
    con_step n t s table c (c\<lparr>con_uart := d\<rparr>)"

text \<open>At the start the device is open and the shell has read nothing.\<close>

definition con_start :: "nat \<Rightarrow> nat \<Rightarrow> nat \<Rightarrow> 'f console \<Rightarrow> bool" where
  "con_start n t s c \<longleftrightarrow> int_mode n (con_uart c) \<and> dev_ref_count (con_uart c) \<noteq> 0 \<and> dev_rx_indicate (con_uart c) \<and>
     con_phase c = Reading \<and> kinv 0 (con_kernel c) \<and> sem_ok (con_kernel c) s \<and> lists (con_kernel c) (LSem s) = [] \<and>
     con_out c = [] \<and> con_received c = unread n c \<and> con_read c = [] \<and> con_lost c = 0"

text \<open>Every byte received was read, is in the buffer or was lost, in this order; the shell is where the
  bytes it read bring it; and it does not wait while there is a byte.\<close>

definition con_inv :: "nat \<Rightarrow> nat \<Rightarrow> nat \<Rightarrow> (u8 list \<times> 'f) list \<Rightarrow> finsh_shell \<Rightarrow> 'f console \<Rightarrow> bool" where
  "con_inv n t s table sh0 c \<longleftrightarrow> int_mode n (con_uart c) \<and> dev_ref_count (con_uart c) \<noteq> 0 \<and> dev_rx_indicate (con_uart c) \<and>
     kinv 0 (con_kernel c) \<and> sem_ok (con_kernel c) s \<and> lists (con_kernel c) (LSem s) \<in> {[], [t]} \<and>
     (lists (con_kernel c) (LSem s) \<noteq> [] \<longrightarrow> con_phase c = Waiting \<and> unread n c = []) \<and>
     (con_phase c = Taking \<longrightarrow> unread n c \<noteq> [] \<longrightarrow> 0 < sem_value (sems (con_kernel c) s)) \<and>
     subseq (con_read c @ unread n c) (con_received c) \<and>
     length (con_received c) = length (con_read c @ unread n c) + con_lost c \<and>
     shell_keys table (con_read c) sh0 = Some (con_out c, con_shell c)"

lemma subseq_lastn: "subseq (lastn m xs) xs"
  by (simp add: lastn_def suffix_imp_subseq suffix_drop)

text \<open>Two places where the device does not change but for what is written to it.\<close>

lemma rt_read_int:
  assumes m: "int_mode n d" and ref: "dev_ref_count d \<noteq> 0"
  obtains d' where "getchar_read d = Some (case fifo_bytes n (fifo_of d) of [] \<Rightarrow> None | ch # _ \<Rightarrow> Some ch, d')"
    "int_mode n d'" "dev_ref_count d' = dev_ref_count d" "dev_rx_indicate d' = dev_rx_indicate d"
    "fifo_bytes n (fifo_of d') = drop 1 (fifo_bytes n (fifo_of d))"
proof -
  obtain d' where d': "rt_serial_read 1 d = Some (take 1 (fifo_bytes n (fifo_of d)), length (take 1 (fifo_bytes n (fifo_of d))), d')"
    "int_mode n d'" "fifo_bytes n (fifo_of d') = drop 1 (fifo_bytes n (fifo_of d))"
    "d' = d\<lparr>dev_priv := (dev_priv d)\<lparr>sr_rx := Rx_fifo (fifo_of d')\<rparr>\<rparr>"
    using read_int [OF m, of 1] by blast
  have "getchar_read d = Some (case fifo_bytes n (fifo_of d) of [] \<Rightarrow> None | ch # _ \<Rightarrow> Some ch, d')"
    using d'(1) ref by (cases "fifo_bytes n (fifo_of d)")
      (simp_all add: getchar_read_def rt_device_read_def serial_ops_def)
  moreover have "dev_ref_count d' = dev_ref_count d" "dev_rx_indicate d' = dev_rx_indicate d"
    by (subst d'(4), simp)+
  ultimately show thesis using that d'(2,3) by blast
qed

definition same_input :: "uart \<Rightarrow> uart \<Rightarrow> bool" where
  "same_input d d' \<longleftrightarrow> sr_rx (dev_priv d') = sr_rx (dev_priv d) \<and> sr_bufsz (dev_priv d') = sr_bufsz (dev_priv d) \<and>
     dev_open_flag d' = dev_open_flag d \<and> dev_ref_count d' = dev_ref_count d \<and> dev_rx_indicate d' = dev_rx_indicate d"

lemma same_input_simps [simp]:
  "same_input d (send out d)" "same_input d (upd_tx x d)" "same_input d (hw c d)" "same_input d (hw c (upd_tx x d))" "same_input d d"
  by (simp_all add: same_input_def send_def upd_tx_def hw_def)

lemma same_input_trans: "same_input d d1 \<Longrightarrow> same_input d1 d2 \<Longrightarrow> same_input d d2"
  by (simp add: same_input_def)

lemma write_keeps_input:
  assumes "rt_device_write uart_ops bs d = Some (e, len, d')"
  shows "same_input d d'"
proof -
  have push: "same_input d0 d1" if "dma_tx_push bs d0 = Some d1" for d0 d1
    using that by (simp add: dma_tx_push_def split: serial_tx.splits if_splits) auto
  have start: "same_input d0 d1" if "dma_tx_start bs d0 = Some d1" for d0 d1
    using that by (simp add: dma_tx_start_def split: serial_tx.splits if_splits) auto
  have w: "rt_serial_write [] bs d = Some (len, d') \<or> d' = d"
    using assms by (auto simp: rt_device_write_def serial_ops_def split: if_splits)
  have "same_input d d'" if r: "rt_serial_write [] bs d = Some (len, d')"
  proof -
    consider "d' = d" | out where "d' = send out d" | d1 where "dma_tx_push bs d = Some d1" "dma_tx_start bs d1 = Some d'"
      using r by (simp add: rt_serial_write_def Option.bind_eq_Some_conv split: if_splits) blast+
    then show ?thesis by cases (simp_all, use push start same_input_trans in blast)
  qed
  then show ?thesis using w by auto
qed

lemma same_input_int:
  assumes "same_input d d'" "int_mode n d"
  shows "int_mode n d' \<and> fifo_of d' = fifo_of d \<and> dev_ref_count d' = dev_ref_count d \<and> dev_rx_indicate d' = dev_rx_indicate d"
  using assms by (auto simp: same_input_def int_mode_def fifo_of_def)

section \<open>The invariant\<close>

lemma con_start_inv: "con_start n t s c \<Longrightarrow> con_inv n t s table (con_shell c) c"
  by (auto simp: con_start_def con_inv_def)

lemma interrupt_keeps:
  assumes inv: "con_inv n t s table sh0 c" and cur: "current_thread (con_kernel c) = Some u"
    and room: "sem_value (sems (con_kernel c) s) \<noteq> 0xffff"
    and isr: "serial_isr_rx ((con_uart c)\<lparr>dev_priv := (dev_priv (con_uart c))\<lparr>sr_line := bs\<rparr>\<rparr>) = Some (ind, d)"
    and rel: "(case ind of None \<Rightarrow> Some (con_kernel c) | Some len \<Rightarrow> finsh_rx_ind s (con_kernel c)) = Some k"
  shows "con_inv n t s table sh0 (c\<lparr>con_kernel := k, con_uart := d, con_received := con_received c @ bs,
      con_lost := con_lost c + (length (unread n c) + length bs - (n - 1))\<rparr>)"
proof -
  let ?d = "(con_uart c)\<lparr>dev_priv := (dev_priv (con_uart c))\<lparr>sr_line := bs\<rparr>\<rparr>" and ?k = "con_kernel c"
  note I = inv [unfolded con_inv_def]
  have m: "int_mode n ?d" "fifo_of ?d = fifo_of (con_uart c)" using I by (auto simp: int_mode_def fifo_of_def)
  obtain r0 d0 where r0: "serial_isr_rx ?d = Some (r0, d0)" "int_mode n d0"
    "fifo_bytes n (fifo_of d0) = lastn (n - 1) (fifo_bytes n (fifo_of ?d) @ sr_line (dev_priv ?d))"
    "r0 = (if dev_rx_indicate ?d \<and> fifo_bytes n (fifo_of d0) \<noteq> [] then Some (length (fifo_bytes n (fifo_of d0))) else None)"
    "d0 = ?d\<lparr>dev_priv := (dev_priv ?d)\<lparr>sr_rx := Rx_fifo (fifo_of d0), sr_line := []\<rparr>\<rparr>"
    using isr_int [OF m(1)] by blast
  have "r0 = ind" and d0: "d0 = d" using isr r0(1) by simp_all
  then have d: "int_mode n d" "fifo_bytes n (fifo_of d) = lastn (n - 1) (unread n c @ bs)"
    "ind = (if dev_rx_indicate (con_uart c) \<and> fifo_bytes n (fifo_of d) \<noteq> [] then Some (length (fifo_bytes n (fifo_of d))) else None)"
    using r0(2-4) by (simp_all only: m(2)) simp_all
  have "dev_ref_count d0 = dev_ref_count (con_uart c)" "dev_rx_indicate d0 = dev_rx_indicate (con_uart c)"
    by (subst r0(5), simp)+
  then have dev: "dev_ref_count d = dev_ref_count (con_uart c)" "dev_rx_indicate d = dev_rx_indicate (con_uart c)"
    by (simp_all add: d0)
  have sub: "subseq (con_read c @ fifo_bytes n (fifo_of d)) (con_received c @ bs)"
  proof -
    have "subseq (con_read c @ lastn (n - 1) (unread n c @ bs)) (con_read c @ (unread n c @ bs))"
      by (intro list_emb_append_mono subseq_order.order_refl subseq_lastn)
    also have "subseq (con_read c @ (unread n c @ bs)) (con_received c @ bs)"
      using I by (simp flip: append_assoc add: list_emb_append_mono)
    finally show ?thesis by (simp add: d(2))
  qed
  have len: "length (con_received c @ bs) = length (con_read c @ fifo_bytes n (fifo_of d)) +
      (con_lost c + (length (unread n c) + length bs - (n - 1)))"
    using I by (simp add: d(2) min_def)
  have ker: "kinv 0 k \<and> sem_ok k s \<and> lists k (LSem s) \<in> {[], [t]} \<and>
    (lists k (LSem s) \<noteq> [] \<longrightarrow> con_phase c = Waiting \<and> fifo_bytes n (fifo_of d) = []) \<and>
    (con_phase c = Taking \<longrightarrow> fifo_bytes n (fifo_of d) \<noteq> [] \<longrightarrow> 0 < sem_value (sems k s))"
  proof (cases ind)
    case None
    then show ?thesis using rel d(3) I by (auto split: if_splits)
  next
    case (Some len)
    have kk: "kinv 0 ?k" "sem_ok ?k s" using I by auto
    obtain k' where k': "rt_sem_release s ?k = Some k'" "kinv 0 k'" "sem_ok k' s"
      "case lists ?k (LSem s) of
         [] \<Rightarrow> k' = ?k\<lparr>sems := (sems ?k)(s := (sems ?k s)\<lparr>sem_value := sem_value (sems ?k s) + 1\<rparr>)\<rparr>
       | w # ws \<Rightarrow> lists k' (LSem s) = ws"
      using sem_release_spec [OF kk cur] by (cases "lists ?k (LSem s)") auto
    have k: "k' = k" using rel Some k'(1) by (simp add: finsh_rx_ind_def)
    show ?thesis
    proof (cases "lists ?k (LSem s)")
      case Nil
      have "sem_value (sems ?k s) + 1 \<noteq> 0" using room by (auto simp flip: eq_neg_iff_add_eq_0)
      then show ?thesis using k' k Nil by (simp add: word_gt_0)
    next
      case (Cons w ws)
      then have "lists k (LSem s) = []" "con_phase c = Waiting" using k' k I by auto
      then show ?thesis using k' k by simp
    qed
  qed
  show ?thesis using d(1) dev sub len ker I by (simp add: con_inv_def)
qed

text \<open>The interrupt handler never fails.\<close>

lemma interrupt_runs:
  assumes inv: "con_inv n t s table sh0 c" and cur: "current_thread (con_kernel c) = Some u"
  obtains ind d k where
    "serial_isr_rx ((con_uart c)\<lparr>dev_priv := (dev_priv (con_uart c))\<lparr>sr_line := bs\<rparr>\<rparr>) = Some (ind, d)"
    "(case ind of None \<Rightarrow> Some (con_kernel c) | Some len \<Rightarrow> finsh_rx_ind s (con_kernel c)) = Some k"
    "fifo_bytes n (fifo_of d) = lastn (n - 1) (unread n c @ bs)"
    "ind \<noteq> None \<longleftrightarrow> lastn (n - 1) (unread n c @ bs) \<noteq> []"
proof -
  let ?d = "(con_uart c)\<lparr>dev_priv := (dev_priv (con_uart c))\<lparr>sr_line := bs\<rparr>\<rparr>"
  note I = inv [unfolded con_inv_def]
  have m: "int_mode n ?d" "fifo_of ?d = fifo_of (con_uart c)" using I by (auto simp: int_mode_def fifo_of_def)
  obtain r0 d0 where r0: "serial_isr_rx ?d = Some (r0, d0)"
    "fifo_bytes n (fifo_of d0) = lastn (n - 1) (fifo_bytes n (fifo_of ?d) @ sr_line (dev_priv ?d))"
    "r0 = (if dev_rx_indicate ?d \<and> fifo_bytes n (fifo_of d0) \<noteq> [] then Some (length (fifo_bytes n (fifo_of d0))) else None)"
    using isr_int [OF m(1)] by blast
  obtain k where "finsh_rx_ind s (con_kernel c) = Some k"
    using sem_release_spec [OF _ _ cur, of s] I by (auto simp: finsh_rx_ind_def)
  moreover have "fifo_bytes n (fifo_of d0) = lastn (n - 1) (unread n c @ bs)" using r0(2) by (simp only: m(2)) simp
  moreover have "r0 \<noteq> None \<longleftrightarrow> fifo_bytes n (fifo_of d0) \<noteq> []" using r0(3) I by auto
  ultimately show thesis using that [OF r0(1)] by (cases r0) auto
qed

lemma take_keeps:
  assumes inv: "con_inv n t s table sh0 c" and ph: "con_phase c = Taking" and may: "may_block (con_kernel c) t"
    and r: "getchar_wait s (con_kernel c) = Some (r, k)"
  shows "con_inv n t s table sh0 (c\<lparr>con_kernel := k, con_phase := (case r of Blocked \<Rightarrow> Waiting | Returned _ \<Rightarrow> Reading)\<rparr>) \<and>
    (unread n c \<noteq> [] \<longrightarrow> r = Returned RT_EOK)"
proof -
  let ?k = "con_kernel c"
  note I = inv [unfolded con_inv_def]
  have ok: "sem_ok ?k s" and l: "lists ?k (LSem s) = []" using I ph by auto
  have k: "kinv 0 k \<and> sem_ok k s \<and>
    (if 0 < sem_value (sems ?k s) then r = Returned RT_EOK \<and> lists k = lists ?k
     else r = Blocked \<and> sems k = sems ?k \<and> lists k (LSem s) = wait_insert (sem_flag (sems ?k s)) ?k t (lists ?k (LSem s)))"
    using sem_take_correct [OF may ok, of "- 1"] r by (auto simp: getchar_wait_def split: if_splits)
  have one: "wait_insert (sem_flag (sems ?k s)) ?k t [] = [t]" by (simp add: wait_insert_def)
  show ?thesis
  proof (cases "0 < sem_value (sems ?k s)")
    case True
    then show ?thesis using k I l by (simp add: con_inv_def)
  next
    case False
    moreover have "unread n c = []" using I ph False by auto
    ultimately show ?thesis using k I l one by (simp add: con_inv_def)
  qed
qed

lemma con_step_inv:
  assumes "con_step n t s table c c'" "con_inv n t s table sh0 c"
  shows "con_inv n t s table sh0 c'"
  using assms
proof (induction rule: con_step.induct)
  case (Interrupt c bs ind d k)
  from Interrupt(1) obtain u where "current_thread (con_kernel c) = Some u" by blast
  from interrupt_keeps [OF Interrupt(5) this Interrupt(2-4)] show ?case .
next
  case (Read c ch d out sh)
  note I = Read(4) [unfolded con_inv_def]
  obtain d' where d': "getchar_read (con_uart c) = Some (case unread n c of [] \<Rightarrow> None | ch # _ \<Rightarrow> Some ch, d')"
    "int_mode n d'" "dev_ref_count d' = dev_ref_count (con_uart c)" "dev_rx_indicate d' = dev_rx_indicate (con_uart c)"
    "fifo_bytes n (fifo_of d') = drop 1 (unread n c)"
    using rt_read_int [of n "con_uart c"] I by blast
  obtain rest where p: "unread n c = ch # rest" "d' = d" using d'(1) Read(2) by (cases "unread n c") auto
  have "shell_keys table (con_read c @ [ch]) sh0 = Some (con_out c @ out, sh)"
    using I Read(3) by (simp add: shell_keys_append)
  moreover have "lists (con_kernel c) (LSem s) = []" using I Read(1) by auto
  moreover have "subseq ((con_read c @ [ch]) @ rest) (con_received c)" using I p(1) by simp
  ultimately show ?case using I d' p Read(1) by (simp add: con_inv_def)
next
  case (Nothing c d)
  note I = Nothing(3) [unfolded con_inv_def]
  obtain d' where d': "getchar_read (con_uart c) = Some (case unread n c of [] \<Rightarrow> None | ch # _ \<Rightarrow> Some ch, d')"
    "int_mode n d'" "dev_ref_count d' = dev_ref_count (con_uart c)" "dev_rx_indicate d' = dev_rx_indicate (con_uart c)"
    "fifo_bytes n (fifo_of d') = drop 1 (unread n c)"
    using rt_read_int [of n "con_uart c"] I by blast
  have p: "unread n c = []" "d' = d" using d'(1) Nothing(2) by (cases "unread n c"; auto)+
  moreover have "lists (con_kernel c) (LSem s) = []" using I Nothing(1) by auto
  ultimately show ?case using I d' Nothing(1) by (simp add: con_inv_def)
next
  case (Take c r k)
  then show ?case using take_keeps by blast
next
  case (Resumed c r k)
  then have "k = con_kernel c" by (auto simp: rt_sem_take_resumed_def split: if_splits)
  then show ?case using Resumed(2,5) unfolding con_inv_def by auto
next
  case (Others k c)
  note I = Others(4) [unfolded con_inv_def]
  have "sem_ok k s" using Others(2,3) I by (simp add: sem_ok_def)
  then show ?case using Others(1-3) I by (simp add: con_inv_def)
next
  case (Output bs c e len d)
  note I = Output(2) [unfolded con_inv_def]
  have "int_mode n d \<and> fifo_of d = fifo_of (con_uart c) \<and> dev_ref_count d = dev_ref_count (con_uart c) \<and>
      dev_rx_indicate d = dev_rx_indicate (con_uart c)"
    using same_input_int [OF write_keeps_input [OF Output(1)]] I by blast
  then show ?case using I by (simp add: con_inv_def)
qed

section \<open>Properties\<close>

lemma console_inv:
  assumes "(con_step n t s table)\<^sup>*\<^sup>* c0 c" "con_start n t s c0"
  shows "con_inv n t s table (con_shell c0) c"
  using assms(1) by (induction rule: rtranclp_induct) (use con_start_inv [OF assms(2)] con_step_inv in blast)+

lemma console_lossless:
  assumes "con_inv n t s table sh0 c" "con_lost c = 0"
  shows "con_received c = con_read c @ unread n c"
proof -
  have sub: "subseq (con_read c @ unread n c) (con_received c)" and
    len: "length (con_read c @ unread n c) = length (con_received c)"
    using assms by (simp_all add: con_inv_def)
  from subseq_same_length [OF sub len] show ?thesis ..
qed

text \<open>C25: however interrupts, the shell and the rest of the system interleave, the shell has handled the
  bytes of the console in the order they came, those it has not read are in the buffer, and bytes are
  missing only if the buffer was full; while the shell waits for its semaphore there is no unread byte,
  and when there is one, a wait returns at once: no wakeup is lost.\<close>

theorem console_input_complete:
  assumes "(con_step n t s table)\<^sup>*\<^sup>* c0 c" "con_start n t s c0"
  shows "subseq (con_read c @ unread n c) (con_received c) \<and>
    (con_lost c = 0 \<longrightarrow> con_received c = con_read c @ unread n c) \<and>
    shell_keys table (con_read c) (con_shell c0) = Some (con_out c, con_shell c) \<and>
    (t \<in> set (lists (con_kernel c) (LSem s)) \<longrightarrow> unread n c = []) \<and>
    (con_phase c = Taking \<longrightarrow> unread n c \<noteq> [] \<longrightarrow> may_block (con_kernel c) t \<longrightarrow>
      (\<exists>k. getchar_wait s (con_kernel c) = Some (Returned RT_EOK, k)))"
proof -
  have inv: "con_inv n t s table (con_shell c0) c" using console_inv [OF assms] .
  note I = inv [unfolded con_inv_def]
  have "\<exists>k. getchar_wait s (con_kernel c) = Some (Returned RT_EOK, k)"
    if "con_phase c = Taking" "unread n c \<noteq> []" "may_block (con_kernel c) t"
  proof -
    have "sem_ok (con_kernel c) s" "0 < sem_value (sems (con_kernel c) s)" using I that by auto
    then show ?thesis using sem_take_correct [OF that(3), of s "- 1"] by (auto simp: getchar_wait_def)
  qed
  moreover have "t \<in> set (lists (con_kernel c) (LSem s)) \<longrightarrow> unread n c = []" using I by auto
  ultimately show ?thesis using I console_lossless [OF inv] by blast
qed

text \<open>C26: when a line has come over the console, nothing was lost and the shell waits again, then it has
  executed the text that the keys edited and waits with an empty line.\<close>

theorem received_line_runs:
  assumes run: "(con_step n t s table)\<^sup>*\<^sup>* c0 c" "con_start n t s c0"
    and sh: "sh_ok (con_shell c0)" "stat (con_shell c0) = WAIT_NORMAL" "echo_mode (con_shell c0)" "text_of (con_shell c0) = []"
    and es: "\<forall>e \<in> set es. key_ok e" "sum_list (map grows es) < FINSH_CMD_SIZE"
    and typed: "fold edit_step es ([], []) = (l, r)" "34 \<notin> set (l @ r)" "length (words (l @ r)) \<le> FINSH_ARG_MAX"
    and table: "\<forall>e \<in> set table. 0 \<notin> set (fst e)"
    and came: "con_received c = concat (map encode es) @ [13]" "con_lost c = 0"
    and waits: "t \<in> set (lists (con_kernel c) (LSem s))"
  shows "\<exists>out. con_out c = out @ [Text [10], Run (exec_text table (l @ r)), Text FINSH_PROMPT] \<and>
    sh_ok (con_shell c) \<and> text_of (con_shell c) = []"
proof -
  have inv: "con_inv n t s table (con_shell c0) c" using console_inv [OF run] .
  note I = inv [unfolded con_inv_def]
  have "unread n c = []" using I waits by auto
  then have "con_read c = concat (map encode es) @ [13]" using console_lossless [OF inv came(2)] came(1) by simp
  moreover obtain out sh' where "shell_keys table (concat (map encode es) @ [13]) (con_shell c0) =
      Some (out @ [Text [10], Run (exec_text table (l @ r)), Text FINSH_PROMPT], sh')" "sh_ok sh'" "text_of sh' = []"
    using edit_and_run [OF sh es typed table] by blast
  ultimately have "con_out c = out @ [Text [10], Run (exec_text table (l @ r)), Text FINSH_PROMPT] \<and> con_shell c = sh'"
    using I by simp
  then show ?thesis using \<open>sh_ok sh'\<close> \<open>text_of sh' = []\<close> by blast
qed

text \<open>The shell can always go on until it has read everything.\<close>

lemma shell_drains:
  assumes "con_inv n t s table sh0 c" "con_phase c = Reading"
    "shell_keys table (unread n c) (con_shell c) \<noteq> None"
  shows "\<exists>c'. (con_step n t s table)\<^sup>*\<^sup>* c c' \<and> con_phase c' = Taking \<and> unread n c' = [] \<and>
    con_kernel c' = con_kernel c \<and> con_received c' = con_received c \<and> con_lost c' = con_lost c"
  using assms
proof (induction "unread n c" arbitrary: c)
  case Nil
  note I = Nil(2) [unfolded con_inv_def]
  obtain d' where d': "getchar_read (con_uart c) = Some (case unread n c of [] \<Rightarrow> None | ch # _ \<Rightarrow> Some ch, d')"
    "fifo_bytes n (fifo_of d') = drop 1 (unread n c)" using rt_read_int [of n "con_uart c"] I by blast
  have "getchar_read (con_uart c) = Some (None, d')" using d'(1) Nil(1) [symmetric] by simp
  from con_step.Nothing [OF Nil(3) this, of n t s table] show ?case
    using d'(2) Nil(1) [symmetric] by (intro exI conjI) (erule r_into_rtranclp, simp_all)
next
  case (Cons ch rest)
  note I = Cons(3) [unfolded con_inv_def]
  obtain d' where d': "getchar_read (con_uart c) = Some (case unread n c of [] \<Rightarrow> None | ch # _ \<Rightarrow> Some ch, d')"
    "fifo_bytes n (fifo_of d') = drop 1 (unread n c)" using rt_read_int [of n "con_uart c"] I by blast
  note p = Cons(2) [symmetric]
  obtain out sh where k: "shell_key table ch (con_shell c) = Some (out, sh)" "shell_keys table rest sh \<noteq> None"
  proof (cases "shell_key table ch (con_shell c)")
    case None
    then show ?thesis using Cons(5) by (simp add: p)
  next
    case (Some a)
    then show ?thesis using Cons(5) that [of "fst a" "snd a"] by (cases "shell_keys table rest (snd a)") (auto simp: p split: prod.splits)
  qed
  let ?c = "c\<lparr>con_uart := d', con_shell := sh, con_out := con_out c @ out, con_read := con_read c @ [ch]\<rparr>"
  have "getchar_read (con_uart c) = Some (Some ch, d')" using d'(1) p by simp
  from con_step.Read [OF Cons(4) this k(1)] have st: "con_step n t s table c ?c" .
  have p': "unread n ?c = rest" using d'(2) p by simp
  obtain c' where c': "(con_step n t s table)\<^sup>*\<^sup>* ?c c'" "con_phase c' = Taking" "unread n c' = []"
      "con_kernel c' = con_kernel ?c" "con_received c' = con_received ?c" "con_lost c' = con_lost ?c"
    using Cons(1) [OF p' [symmetric] con_step_inv [OF st Cons(3)]] Cons(4) k(2) p' by auto
  have "(con_step n t s table)\<^sup>*\<^sup>* c c'" using st c'(1) by (rule converse_rtranclp_into_rtranclp)
  then show ?case using c'(2-6) by auto
qed

section \<open>Choosing the device\<close>

lemma has_flag_OPEN [simp]: "\<not> has_flag RT_DEVICE_OFLAG_OPEN RT_DEVICE_FLAG_INT_RX"
  by (simp add: has_flag_def)

text \<open>A device that was closed, opened through the framework in interrupt mode.\<close>

lemma device_open_int:
  assumes o: "rt_device_open uart_ops oflag d = Some (RT_EOK, d')" and f: "has_flag oflag RT_DEVICE_FLAG_INT_RX"
    and closed: "sr_rx (dev_priv d) = Rx_null" "sr_bufsz (dev_priv d) = n" "2 \<le> n"
  shows "int_mode n d' \<and> dev_ref_count d' \<noteq> 0 \<and> fifo_bytes n (fifo_of d') = []"
proof -
  obtain d1 where a: "device_activate uart_ops d = Some (RT_EOK, d1)" "sr_rx (dev_priv d1) = Rx_null" "sr_bufsz (dev_priv d1) = n"
    using closed by (cases "has_flag (dev_flag d) RT_DEVICE_FLAG_ACTIVATED")
      (auto simp: device_activate_def serial_ops_def rt_serial_init_def hw_def upd_rx_def upd_tx_def)
  obtain r2 d2 where d2: "rt_serial_open True oflag d1 = Some (r2, d2)" "r2 = RT_EOK"
    "d' = d2\<lparr>dev_open_flag := dev_open_flag d2 OR RT_DEVICE_OFLAG_OPEN, dev_ref_count := dev_ref_count d2 + 1\<rparr>"
    "dev_ref_count d2 + 1 \<noteq> 0"
    using o a(1)
    by (auto simp: rt_device_open_def serial_ops_def Option.bind_eq_Some_conv rt_assert_def err_defs Let_def split: if_splits)
  have m: "int_mode n d2 \<and> fifo_bytes n (fifo_of d2) = []"
    using open_modes(1) [OF d2(1) [unfolded d2(2)] a(2,3) f closed(3)] .
  have "fifo_of d' = fifo_of d2" by (simp add: d2(3) fifo_of_def)
  then show ?thesis using m d2(3,4) by (auto simp: int_mode_def has_flag_or)
qed

text \<open>After \<^verbatim>\<open>finsh_set_device\<close> the shell is where its input starts: the device listens, nothing is in its
  buffer, and the line is empty.\<close>

lemma set_device_listens:
  assumes find: "rt_device_find name k = Some (Some (ODevice i), k1)" and other: "cur \<noteq> Some i"
    and run: "finsh_set_device name k devs cur sh = Some (k', devs', Some i, sh')"
    and closed: "sr_rx (dev_priv (devs i)) = Rx_null" "sr_bufsz (dev_priv (devs i)) = n" "2 \<le> n"
  shows "int_mode n (devs' i) \<and> dev_ref_count (devs' i) \<noteq> 0 \<and> dev_rx_indicate (devs' i) \<and>
    fifo_bytes n (fifo_of (devs' i)) = [] \<and> text_of sh' = [] \<and> k' = k1"
proof -
  let ?o = "RT_DEVICE_OFLAG_RDWR OR RT_DEVICE_FLAG_INT_RX OR RT_DEVICE_FLAG_STREAM :: u16"
  obtain e d1 where o: "rt_device_open uart_ops ?o (devs i) = Some (e, d1)"
    using run find other by (cases "rt_device_open uart_ops ?o (devs i)") (auto simp: finsh_set_device_def)
  have "e = RT_EOK" using run find other o by (auto simp: finsh_set_device_def Let_def split: if_splits)
  then have d1: "int_mode n d1 \<and> dev_ref_count d1 \<noteq> 0 \<and> fifo_bytes n (fifo_of d1) = []"
    using device_open_int [OF _ _ closed, of ?o d1] o by (simp add: has_flag_def)
  have "devs' i = rt_device_set_rx_indicate True d1" "text_of sh' = []" "k' = k1"
    using run find other o \<open>e = RT_EOK\<close>
    by (cases cur; auto simp: finsh_set_device_def Let_def Option.bind_eq_Some_conv text_of_def split: if_splits)+
  then show ?thesis using d1 by (simp add: rt_device_set_rx_indicate_def int_mode_def fifo_of_def)
qed

section \<open>An example\<close>

text \<open>Thread 1 is the shell, semaphore 5 its semaphore.\<close>

definition demo_con :: "bool console" where
  "demo_con = \<lparr>con_kernel = demo_run,
     con_uart = demo_uart\<lparr>dev_open_flag := 0x10b, dev_ref_count := 1, dev_priv := (dev_priv demo_uart)\<lparr>sr_rx := Rx_fifo (new_fifo 4)\<rparr>\<rparr>,
     con_phase = Reading, con_shell = finsh_start, con_out = [], con_received = [], con_read = [], con_lost = 0\<rparr>"

lemma demo_con_start: "con_start 4 1 5 demo_con"
proof -
  have "int_mode 4 (con_uart demo_con)" "unread 4 demo_con = []"
    using new_fifo_modes(1) [of 4] new_fifo_modes(3) [of 4]
    by (simp_all add: int_mode_def demo_con_def has_flag_def demo_uart_def fifo_of_def)
  moreover have "sem_ok demo_run 5" "lists demo_run (LSem 5) = []"
    by (simp_all add: sem_ok_def flag_ok_def demo_run_def demo_kernel_def)
  ultimately show ?thesis using demo_run_inv(1)
    by (auto simp: con_start_def demo_con_def demo_uart_def)
qed

text \<open>The shell finds nothing, a byte comes before it waits, and the wait returns at once.\<close>

lemma console_input_complete_witness:
  "\<exists>c :: bool console. (con_step 4 1 5 [])\<^sup>*\<^sup>* demo_con c \<and> unread 4 c = [104] \<and> con_phase c = Taking \<and>
    con_received c = [104] \<and> (\<exists>k. getchar_wait 5 (con_kernel c) = Some (Returned RT_EOK, k))"
proof -
  have inv: "con_inv 4 1 5 [] finsh_start demo_con" using con_start_inv [OF demo_con_start] by (simp add: demo_con_def)
  have p: "unread 4 demo_con = []" "con_phase demo_con = Reading" "con_kernel demo_con = demo_run"
    "con_received demo_con = []" "con_lost demo_con = 0"
    using new_fifo_modes(3) [of 4] by (simp_all add: demo_con_def demo_uart_def fifo_of_def)
  obtain c1 :: "bool console" where c1: "(con_step 4 1 5 [])\<^sup>*\<^sup>* demo_con c1" "con_phase c1 = Taking" "unread 4 c1 = []"
    "con_kernel c1 = demo_run" "con_received c1 = []" "con_lost c1 = 0"
    using shell_drains [OF inv p(2)] p by auto
  have inv1: "con_inv 4 1 5 [] finsh_start c1" using console_inv [OF c1(1) demo_con_start] by (simp add: demo_con_def)
  have cur: "current_thread (con_kernel c1) = Some 1" by (simp add: c1(4))
  obtain ind d k where i: "serial_isr_rx ((con_uart c1)\<lparr>dev_priv := (dev_priv (con_uart c1))\<lparr>sr_line := [104]\<rparr>\<rparr>) = Some (ind, d)"
    "(case ind of None \<Rightarrow> Some (con_kernel c1) | Some len \<Rightarrow> finsh_rx_ind 5 (con_kernel c1)) = Some k"
    "fifo_bytes 4 (fifo_of d) = lastn (4 - 1) (unread 4 c1 @ [104])"
    "ind \<noteq> None \<longleftrightarrow> lastn (4 - 1) (unread 4 c1 @ [104]) \<noteq> []"
    by (rule interrupt_runs [OF inv1 cur])
  have v: "sem_value (sems (con_kernel c1) 5) \<noteq> 0xffff" "current_thread (con_kernel c1) \<noteq> None"
    by (simp_all add: c1(4)) (simp add: demo_run_def demo_kernel_def)
  let ?c = "c1\<lparr>con_kernel := k, con_uart := d, con_received := con_received c1 @ [104],
      con_lost := con_lost c1 + (length (unread 4 c1) + length [104 :: u8] - (4 - 1))\<rparr>"
  have run: "(con_step 4 1 5 [])\<^sup>*\<^sup>* demo_con ?c"
    using rtranclp.rtrancl_into_rtrancl [OF c1(1) con_step.Interrupt [OF v(2,1) i(1,2), where n = 4 and t = 1]] .
  have bytes: "unread 4 ?c = [104]" using i(3) c1(3) by (simp add: lastn_def)
  have "k = upd_sem 5 (\<lambda>sm. sm\<lparr>sem_value := sem_value sm + 1\<rparr>) demo_run"
    using i(2,4) c1(3,4) by (cases ind)
      (auto simp: lastn_def finsh_rx_ind_def rt_sem_release_def demo_run_def demo_kernel_def)
  moreover have "may_block (upd_sem 5 f demo_run) 1" for f
    using demo_run_inv(2) upd_sem_kinv [of 0 demo_run 5 f]
    by (auto simp: may_block_def stat_of_def) (simp_all add: upd_sem_def stat_of_def)
  ultimately have "may_block (con_kernel ?c) 1" by simp
  then have "\<exists>k. getchar_wait 5 (con_kernel ?c) = Some (Returned RT_EOK, k)"
    using console_input_complete [OF run demo_con_start] bytes c1(2) by auto
  then show ?thesis using run bytes c1(2,5) by (intro exI [of _ ?c]) simp
qed

text \<open>The shell waits, the letter \<open>h\<close> and a return come with one interrupt, and it waits again.\<close>

lemma received_line_runs_witness:
  "\<exists>c out. (con_step 4 1 5 [])\<^sup>*\<^sup>* demo_con c \<and> con_received c = [104, 13] \<and> 1 \<in> set (lists (con_kernel c) (LSem 5)) \<and>
    con_out c = out @ [Text [10], Run (exec_text [] [104] :: bool msh_result), Text FINSH_PROMPT]"
proof -
  let ?st = "con_step 4 1 5 ([] :: (u8 list \<times> bool) list)"
  let ?inv = "con_inv 4 1 5 ([] :: (u8 list \<times> bool) list) finsh_start"
  have inv: "?inv demo_con" using con_start_inv [OF demo_con_start] by (simp add: demo_con_def)
  have again: "?inv c" if "?st\<^sup>*\<^sup>* demo_con c" for c
    using console_inv [OF that demo_con_start] by (simp add: demo_con_def)
  have zero: "sem_value (sems demo_run 5) = 0" "sem_flag (sems demo_run 5) = 0" "lists demo_run (LSem 5) = []" "sem_ok demo_run 5"
    by (simp_all add: demo_run_def demo_kernel_def sem_ok_def flag_ok_def)
  obtain kw where kw: "getchar_wait 5 demo_run = Some (Blocked, kw)" "lists kw (LSem 5) = [1]" "sems kw = sems demo_run"
      "kinv 0 kw" "sem_ok kw 5" "current_thread kw \<noteq> None"
    using sem_take_correct [OF demo_run_inv(2) zero(4), of "- 1"] zero
    by (auto simp: getchar_wait_def wait_insert_def current_top_def)
  have p: "unread 4 demo_con = []" "con_phase demo_con = Reading" "con_kernel demo_con = demo_run"
    "con_received demo_con = []" "con_lost demo_con = 0" "con_shell demo_con = finsh_start"
    using new_fifo_modes(3) [of 4] by (simp_all add: demo_con_def demo_uart_def fifo_of_def)
  obtain c1 where c1: "?st\<^sup>*\<^sup>* demo_con c1" "con_phase c1 = Taking" "unread 4 c1 = []"
    "con_kernel c1 = demo_run" "con_received c1 = []" "con_lost c1 = 0"
    using shell_drains [OF inv p(2)] p by auto
  let ?c2 = "c1\<lparr>con_kernel := kw, con_phase := Waiting\<rparr>"
  have r2: "?st\<^sup>*\<^sup>* demo_con ?c2"
    using rtranclp.rtrancl_into_rtrancl [OF c1(1) con_step.Take [OF c1(2), of 1 5 Blocked kw 4 "[]"]]
      c1(4) kw(1) demo_run_inv(2) by simp
  obtain u where u: "current_thread (con_kernel ?c2) = Some u" using kw(6) by auto
  obtain ind d k where i: "serial_isr_rx ((con_uart ?c2)\<lparr>dev_priv := (dev_priv (con_uart ?c2))\<lparr>sr_line := [104, 13]\<rparr>\<rparr>) = Some (ind, d)"
    "(case ind of None \<Rightarrow> Some (con_kernel ?c2) | Some len \<Rightarrow> finsh_rx_ind 5 (con_kernel ?c2)) = Some k"
    "fifo_bytes 4 (fifo_of d) = lastn (4 - 1) (unread 4 ?c2 @ [104, 13])"
    "ind \<noteq> None \<longleftrightarrow> lastn (4 - 1) (unread 4 ?c2 @ [104, 13]) \<noteq> []"
    by (rule interrupt_runs [OF again [OF r2] u])
  have k: "sems k = sems demo_run" "lists k (LSem 5) = []"
    using i(2,4) sem_release_spec [OF kw(4,5), of u] u kw(2,3) c1(3) by (auto simp: finsh_rx_ind_def lastn_def)
  have v: "sem_value (sems (con_kernel ?c2) 5) \<noteq> 0xffff" "current_thread (con_kernel ?c2) \<noteq> None"
    using kw(3,6) zero by simp_all
  let ?c3 = "?c2\<lparr>con_kernel := k, con_uart := d, con_received := con_received ?c2 @ [104, 13],
      con_lost := con_lost ?c2 + (length (unread 4 ?c2) + length [104, 13 :: u8] - (4 - 1))\<rparr>"
  have "?st ?c2 ?c3" by (rule con_step.Interrupt [OF v(2,1) i(1,2)])
  then have r3: "?st\<^sup>*\<^sup>* demo_con ?c3" using r2 by (rule rtranclp.rtrancl_into_rtrancl [rotated])
  have rd: "con_read c1 = [] \<and> shell_keys [] (con_read c1) finsh_start = Some (con_out c1, con_shell c1)"
    using again [OF c1(1)] c1(5) unfolding con_inv_def by auto
  have f3: "con_kernel ?c3 = k" "con_phase ?c3 = Waiting" "unread 4 ?c3 = [104, 13]" "con_shell ?c3 = finsh_start"
    "con_received ?c3 = [104, 13]" "con_lost ?c3 = 0"
    using i(3) c1(3,5,6) rd by (auto simp: lastn_def)
  define c3 where "c3 = ?c3"
  note C3 = r3 [folded c3_def] f3 [folded c3_def]
  let ?c4 = "c3\<lparr>con_kernel := demo_run\<rparr>" and ?c5 = "c3\<lparr>con_kernel := demo_run, con_phase := Reading\<rparr>"
  have "?st c3 ?c4"
    by (rule con_step.Others) (use demo_run_inv(1) k zero(3) C3(2) in simp_all)
  then have r4: "?st\<^sup>*\<^sup>* demo_con ?c4" using C3(1) by (rule rtranclp.rtrancl_into_rtrancl [rotated])
  have "error_of demo_run 1 = RT_EOK" by (simp add: demo_run_def demo_kernel_def demo_thread_def RT_EOK_def)
  then have res: "rt_sem_take_resumed 1 (con_kernel ?c4) = Some (Returned RT_EOK, demo_run)"
    by (simp add: rt_sem_take_resumed_def)
  have "?st ?c4 (?c4\<lparr>con_kernel := demo_run, con_phase := Reading\<rparr>)"
    by (rule con_step.Resumed [OF _ _ _ res]) (use C3(3) zero(3) in simp_all)
  then have "?st\<^sup>*\<^sup>* demo_con (?c4\<lparr>con_kernel := demo_run, con_phase := Reading\<rparr>)"
    using r4 by (rule rtranclp.rtrancl_into_rtrancl [rotated])
  then have r5: "?st\<^sup>*\<^sup>* demo_con ?c5" by simp
  have e: "\<forall>e \<in> set [Char 104]. key_ok e" "sum_list (map grows [Char 104]) < FINSH_CMD_SIZE"
    "fold edit_step [Char 104] ([], []) = ([104], [])" "34 \<notin> set ([104 :: u8] @ [])"
    "concat (map encode [Char 104]) @ [13] = [104, 13]"
    by (simp_all add: printable_def)
  have ws: "length (words ([104] @ [])) \<le> FINSH_ARG_MAX"
    using words_word(1) [of "[104]"] by (simp add: is_blank_def)
  have tab: "\<forall>e \<in> set ([] :: (u8 list \<times> bool) list). 0 \<notin> set (fst e)" by simp
  have c5: "unread 4 ?c5 = [104, 13]" "con_shell ?c5 = finsh_start"
    "con_phase ?c5 = Reading" "con_kernel ?c5 = demo_run" "con_received ?c5 = [104, 13]" "con_lost ?c5 = 0"
    using C3 by simp_all
  define c5 where "c5 = ?c5"
  note C5 = r5 [folded c5_def] c5 [folded c5_def]
  obtain x where "shell_keys ([] :: (u8 list \<times> bool) list) [104, 13] finsh_start = Some x"
    using edit_and_run [OF finsh_start_ok finsh_start_simps(1-3) e(1-4) ws tab] unfolding e(5) by blast
  then have "shell_keys ([] :: (u8 list \<times> bool) list) (unread 4 c5) (con_shell c5) \<noteq> None" by (cases x) (simp add: C5(2,3) del: shell_keys.simps)
  from shell_drains [OF again [OF C5(1)] C5(4) this] obtain c6 where c6: "?st\<^sup>*\<^sup>* c5 c6" "con_phase c6 = Taking"
    "con_kernel c6 = demo_run" "con_received c6 = [104, 13]" "con_lost c6 = 0"
    unfolding C5(5-7) by blast
  have r6: "?st\<^sup>*\<^sup>* demo_con c6" using C5(1) c6(1) by (rule rtranclp_trans)
  let ?c7 = "c6\<lparr>con_kernel := kw, con_phase := Waiting\<rparr>"
  have r7: "?st\<^sup>*\<^sup>* demo_con ?c7"
    using rtranclp.rtrancl_into_rtrancl [OF r6 con_step.Take [OF c6(2), of 1 5 Blocked kw 4 "[]"]]
      c6(3) kw(1) demo_run_inv(2) by simp
  have fin: "con_received ?c7 = concat (map encode [Char 104]) @ [13]" "con_lost ?c7 = 0" "1 \<in> set (lists (con_kernel ?c7) (LSem 5))"
    using c6(4,5) kw(2) by simp_all
  have sh: "sh_ok (con_shell demo_con)" "stat (con_shell demo_con) = WAIT_NORMAL" "echo_mode (con_shell demo_con)" "text_of (con_shell demo_con) = []"
    using finsh_start_ok finsh_start_simps by (simp_all add: p(6))
  define c7 where "c7 = ?c7"
  obtain out where "con_out c7 = out @ [Text [10], Run (exec_text [] ([104] @ [])), Text FINSH_PROMPT]"
    using received_line_runs [OF r7 demo_con_start sh e(1-4) ws tab fin] unfolding c7_def by blast
  then show ?thesis using r7 fin(3) c6(4) unfolding c7_def by (intro exI [of _ ?c7] exI [of _ out]) simp
qed

end
