(* ===== verification/Workqueue.thy ===== *)
theory Workqueue
  imports Device Sem
begin

text \<open>
  Work queues, \<^verbatim>\<open>components/drivers/src/workqueue.c\<close>: a thread that runs the functions other threads
  and interrupts submit. A work is a number; its list node is in at most one queue. The delayed works
  have a timer, \<open>TUser w\<close>. What a work function does is not part of the model, and the thread that runs
  it is, between two of its critical sections, in one of the states of \<open>worker\<close>.
\<close>

section \<open>State\<close>

abbreviation "RT_WORK_STATE_PENDING \<equiv> (1 :: u16)"
abbreviation "RT_WORK_STATE_SUBMITTING \<equiv> (2 :: u16)"
abbreviation "RT_WORK_TYPE_DELAYED \<equiv> (1 :: u16)"

definition EINVAL :: rt_err where "EINVAL = 22"

record work =
  wk_flags :: u16
  wk_type :: u16
  wk_workqueue :: "nat option"

record workqueue =
  work_list :: "nat list"
  work_current :: "nat option"
  work_sem :: nat
  work_thread :: nat

record wsys =
  works :: "nat \<Rightarrow> work"
  queues :: "nat \<Rightarrow> workqueue"
  wkernel :: kernel

definition upd_work :: "nat \<Rightarrow> (work \<Rightarrow> work) \<Rightarrow> wsys \<Rightarrow> wsys" where
  "upd_work w f s = s\<lparr>works := (works s)(w := f (works s w))\<rparr>"

definition upd_queue :: "nat \<Rightarrow> (workqueue \<Rightarrow> workqueue) \<Rightarrow> wsys \<Rightarrow> wsys" where
  "upd_queue q f s = s\<lparr>queues := (queues s)(q := f (queues s q))\<rparr>"

definition set_flag :: "u16 \<Rightarrow> nat \<Rightarrow> wsys \<Rightarrow> wsys" where
  "set_flag b w = upd_work w (\<lambda>wk. wk\<lparr>wk_flags := wk_flags wk OR b\<rparr>)"

definition clear_flag :: "u16 \<Rightarrow> nat \<Rightarrow> wsys \<Rightarrow> wsys" where
  "clear_flag b w = upd_work w (\<lambda>wk. wk\<lparr>wk_flags := wk_flags wk AND NOT b\<rparr>)"

text \<open>\<^verbatim>\<open>rt_list_remove(&(work->list))\<close> and \<^verbatim>\<open>rt_list_insert_after(queue->work_list.prev, &(work->list))\<close>.\<close>

definition work_unlink :: "nat \<Rightarrow> wsys \<Rightarrow> wsys" where
  "work_unlink w s = s\<lparr>queues := (\<lambda>q. (queues s q)\<lparr>work_list := removeAll w (work_list (queues s q))\<rparr>)\<rparr>"

definition work_append :: "nat \<Rightarrow> nat \<Rightarrow> wsys \<Rightarrow> wsys" where
  "work_append q w = upd_queue q (\<lambda>wq. wq\<lparr>work_list := work_list wq @ [w]\<rparr>)"

definition rt_work_init :: "nat \<Rightarrow> wsys \<Rightarrow> wsys" where
  "rt_work_init w = upd_work w (\<lambda>wk. wk\<lparr>wk_flags := 0, wk_type := 0\<rparr>)"

definition rt_delayed_work_init :: "nat \<Rightarrow> wsys \<Rightarrow> wsys" where
  "rt_delayed_work_init w s = upd_work w (\<lambda>wk. wk\<lparr>wk_type := RT_WORK_TYPE_DELAYED\<rparr>) (rt_work_init w s)"

section \<open>Submitting\<close>

text \<open>The thread of the queue is resumed, if it is suspended, and the scheduler runs.\<close>

definition wake_worker :: "nat \<Rightarrow> wsys \<Rightarrow> wsys option" where
  "wake_worker q s = do {
     let k1 = snd (rt_thread_resume (work_thread (queues s q)) (wkernel s));
     k2 \<leftarrow> rt_schedule k1;
     Some (s\<lparr>wkernel := k2\<rparr>)
   }"

definition workqueue_submit_work :: "nat \<Rightarrow> nat \<Rightarrow> wsys \<Rightarrow> (rt_err \<times> wsys) option" where
  "workqueue_submit_work q w s =
     (if has_flag (wk_flags (works s w)) RT_WORK_STATE_PENDING then Some (- RT_EBUSY, s)
      else if work_current (queues s q) = Some w then Some (- RT_EBUSY, s)
      else do {
        let s1 = set_flag RT_WORK_STATE_PENDING w (work_append q w (work_unlink w s));
        s2 \<leftarrow> (if work_current (queues s1 q) = None then wake_worker q s1 else Some s1);
        Some (RT_EOK, s2)
      })"

definition rt_workqueue_dowork :: "nat \<Rightarrow> nat \<Rightarrow> wsys \<Rightarrow> (rt_err \<times> wsys) option" where
  "rt_workqueue_dowork q w s = workqueue_submit_work q w s"

definition rt_workqueue_critical_work :: "nat \<Rightarrow> nat \<Rightarrow> wsys \<Rightarrow> (rt_err \<times> wsys) option" where
  "rt_workqueue_critical_work q w s =
     (if work_current (queues s q) = Some w then Some (- RT_EBUSY, s)
      else do {
        let s1 = work_append q w (work_unlink w s);
        s2 \<leftarrow> (if work_current (queues s1 q) = None then wake_worker q s1 else Some s1);
        Some (RT_EOK, s2)
      })"

section \<open>Cancelling\<close>

definition workqueue_cancel_work :: "nat \<Rightarrow> nat \<Rightarrow> wsys \<Rightarrow> rt_err \<times> wsys" where
  "workqueue_cancel_work q w s =
     (if work_current (queues s q) = Some w then (- RT_EBUSY, s)
      else (RT_EOK, clear_flag RT_WORK_STATE_PENDING w (work_unlink w s)))"

text \<open>The timer of a delayed work is stopped and leaves the registry.\<close>

definition stop_work_timer :: "nat \<Rightarrow> wsys \<Rightarrow> wsys option" where
  "stop_work_timer w s = do {
     let k1 = snd (rt_timer_stop (TUser w) (wkernel s));
     k2 \<leftarrow> rt_timer_detach (TUser w) k1;
     Some (clear_flag RT_WORK_STATE_SUBMITTING w (s\<lparr>wkernel := k2\<rparr>))
   }"

text \<open>A delayed work that is in a queue is cancelled by \<^verbatim>\<open>rt_workqueue_cancel_work\<close>, which comes back
  here for a work of this type.\<close>

partial_function (option) workqueue_cancel_delayed_work :: "nat \<Rightarrow> wsys \<Rightarrow> (rt_err \<times> wsys) option" where
  "workqueue_cancel_delayed_work w s =
     (case wk_workqueue (works s w) of
        None \<Rightarrow> Some (- EINVAL, s)
      | Some q \<Rightarrow> do {
          (ret, s1) \<leftarrow>
            (if has_flag (wk_flags (works s w)) RT_WORK_STATE_PENDING
             then if has_flag (wk_type (works s w)) RT_WORK_TYPE_DELAYED
                  then workqueue_cancel_delayed_work w s
                  else Some (workqueue_cancel_work q w s)
             else if has_flag (wk_flags (works s w)) RT_WORK_STATE_SUBMITTING
             then map_option (\<lambda>s1. (RT_EOK, s1)) (stop_work_timer w s)
             else Some (RT_EOK, s));
          if ret \<noteq> 0 then Some (ret, s1)
          else Some (ret, clear_flag RT_WORK_STATE_PENDING w (upd_work w (\<lambda>wk. wk\<lparr>wk_workqueue := None\<rparr>) s1))
        })"

definition rt_workqueue_cancel_work :: "nat \<Rightarrow> nat \<Rightarrow> wsys \<Rightarrow> (rt_err \<times> wsys) option" where
  "rt_workqueue_cancel_work q w s =
     (if has_flag (wk_type (works s w)) RT_WORK_TYPE_DELAYED then workqueue_cancel_delayed_work w s
      else Some (workqueue_cancel_work q w s))"

text \<open>With the work running, the caller waits for the semaphore of the queue.\<close>

definition rt_workqueue_cancel_work_sync :: "nat \<Rightarrow> nat \<Rightarrow> wsys \<Rightarrow> (outcome \<times> wsys) option" where
  "rt_workqueue_cancel_work_sync q w s =
     (if work_current (queues s q) = Some w
      then do {
        (r, k1) \<leftarrow> rt_sem_take (work_sem (queues s q)) (- 1) (wkernel s);
        case r of
          Blocked \<Rightarrow> Some (Blocked, s\<lparr>wkernel := k1\<rparr>)
        | Returned _ \<Rightarrow> Some (Returned RT_EOK, clear_flag RT_WORK_STATE_PENDING w (s\<lparr>wkernel := k1\<rparr>))
      }
      else Some (Returned RT_EOK, clear_flag RT_WORK_STATE_PENDING w (work_unlink w s)))"

definition cancel_sync_resumed :: "nat \<Rightarrow> wsys \<Rightarrow> outcome \<times> wsys" where
  "cancel_sync_resumed w s = (Returned RT_EOK, clear_flag RT_WORK_STATE_PENDING w s)"

definition rt_workqueue_cancel_all_work :: "nat \<Rightarrow> wsys \<Rightarrow> (rt_err \<times> wsys) option" where
  "rt_workqueue_cancel_all_work q s = do {
     let s1 = fold work_unlink (work_list (queues s q)) (s\<lparr>wkernel := rt_enter_critical (wkernel s)\<rparr>);
     k2 \<leftarrow> rt_exit_critical (wkernel s1);
     Some (RT_EOK, s1\<lparr>wkernel := k2\<rparr>)
   }"

section \<open>Delayed works\<close>

definition workqueue_submit_delayed_work :: "nat \<Rightarrow> nat \<Rightarrow> u32 \<Rightarrow> wsys \<Rightarrow> (rt_err \<times> wsys) option" where
  "workqueue_submit_delayed_work q w ticks s =
     (if wk_workqueue (works s w) \<noteq> None \<and> wk_workqueue (works s w) \<noteq> Some q then Some (- RT_EINVAL, s)
      else do {
        (ret, s1) \<leftarrow> (if wk_workqueue (works s w) = Some q then workqueue_cancel_delayed_work w s else Some (RT_EOK, s));
        if ret < 0 then Some (ret, s1)
        else do {
          let s2 = upd_work w (\<lambda>wk. wk\<lparr>wk_workqueue := Some q\<rparr>) s1;
          if ticks = 0
          then do { (r, s3) \<leftarrow> workqueue_submit_work q w s2; Some (ret, s3) }
          else do {
            let s3 = set_flag RT_WORK_STATE_SUBMITTING w s2;
            k1 \<leftarrow> rt_timer_init (TUser w) [119, 111, 114, 107, 0] ticks 4 (wkernel s3);
            k2 \<leftarrow> rt_timer_start (TUser w) k1;
            Some (ret, s3\<lparr>wkernel := k2\<rparr>)
          }
        }
      })"

text \<open>The timeout function of the timer.\<close>

definition delayed_work_timeout_handler :: "nat \<Rightarrow> wsys \<Rightarrow> wsys option" where
  "delayed_work_timeout_handler w s = do {
     s1 \<leftarrow> stop_work_timer w s;
     q \<leftarrow> wk_workqueue (works s1 w);
     (r, s2) \<leftarrow> workqueue_submit_work q w s1;
     Some s2
   }"

definition rt_workqueue_submit_work :: "nat \<Rightarrow> nat \<Rightarrow> u32 \<Rightarrow> wsys \<Rightarrow> (rt_err \<times> wsys) option" where
  "rt_workqueue_submit_work q w time s =
     (if has_flag (wk_type (works s w)) RT_WORK_TYPE_DELAYED then workqueue_submit_delayed_work q w time s
      else workqueue_submit_work q w s)"

section \<open>The thread of a queue\<close>

text \<open>\<^verbatim>\<open>_workqueue_work_completion\<close>: every waiting thread gets a token, and none is left.\<close>

partial_function (option) completion_loop :: "nat \<Rightarrow> kernel \<Rightarrow> (rt_err \<times> kernel) option" where
  "completion_loop sm k = do {
     (r, k1) \<leftarrow> rt_sem_trytake sm k;
     if r = Returned (- RT_ETIMEOUT)
     then do { k2 \<leftarrow> rt_sem_release sm k1; completion_loop sm k2 }
     else if r = Returned RT_EOK then Some (RT_EOK, k1)
     else Some (- RT_ERROR, k1)
   }"

definition workqueue_work_completion :: "nat \<Rightarrow> kernel \<Rightarrow> (rt_err \<times> kernel) option" where
  "workqueue_work_completion sm k = do {
     (r, k1) \<leftarrow> completion_loop sm (rt_enter_critical k);
     k2 \<leftarrow> rt_exit_critical k1;
     Some (r, k2)
   }"

text \<open>\<^verbatim>\<open>_workqueue_thread_entry\<close>: the test of the list, the suspension, and the critical section that
  takes a work, are separate. \<open>None\<close> when there is none: the list head would be taken for a work.\<close>

datatype worker = At_test | At_suspend | At_take | At_func nat | At_ack

definition worker_test :: "nat \<Rightarrow> wsys \<Rightarrow> worker" where
  "worker_test q s = (if work_list (queues s q) = [] then At_suspend else At_take)"

definition worker_suspend :: "wsys \<Rightarrow> wsys option" where
  "worker_suspend s = do {
     t \<leftarrow> rt_thread_self (wkernel s);
     k1 \<leftarrow> rt_schedule (snd (rt_thread_suspend t (wkernel s)));
     Some (s\<lparr>wkernel := k1\<rparr>)
   }"

definition worker_take :: "nat \<Rightarrow> wsys \<Rightarrow> (nat \<times> wsys) option" where
  "worker_take q s =
     (case work_list (queues s q) of
        [] \<Rightarrow> None
      | w # _ \<Rightarrow> Some (w, clear_flag RT_WORK_STATE_PENDING w
          (upd_queue q (\<lambda>wq. wq\<lparr>work_current := Some w\<rparr>) (work_unlink w s))))"

definition worker_done :: "nat \<Rightarrow> wsys \<Rightarrow> wsys" where
  "worker_done q = upd_queue q (\<lambda>wq. wq\<lparr>work_current := None\<rparr>)"

definition worker_ack :: "nat \<Rightarrow> wsys \<Rightarrow> wsys option" where
  "worker_ack q s = map_option (\<lambda>(r, k). s\<lparr>wkernel := k\<rparr>) (workqueue_work_completion (work_sem (queues s q)) (wkernel s))"

section \<open>Creating a queue\<close>

text \<open>\<open>mem\<close> is the number of the queue and its semaphore if the heap has the memory, \<open>tmem\<close> and \<open>stack\<close> the
  same for the thread. The time slice is 10 ticks.\<close>

definition rt_workqueue_create ::
    "(nat \<times> nat) option \<Rightarrow> nat option \<Rightarrow> bool \<Rightarrow> u8 list \<Rightarrow> nat \<Rightarrow> wsys \<Rightarrow> (nat option \<times> wsys) option" where
  "rt_workqueue_create mem tmem stack name priority s =
     (case mem of
        None \<Rightarrow> Some (None, s)
      | Some (q, sm) \<Rightarrow> do {
          k1 \<leftarrow> rt_sem_init sm [119, 113, 117, 101, 117, 101, 0] 0 RT_IPC_FLAG_FIFO (wkernel s);
          (r, k2) \<leftarrow> rt_thread_create tmem stack name priority 10 k1;
          case r of
            None \<Rightarrow> Some (None, s\<lparr>wkernel := k2\<rparr>)
          | Some t \<Rightarrow> do {
              k3 \<leftarrow> rt_thread_startup t k2;
              Some (Some q, upd_queue q (\<lambda>_. \<lparr>work_list = [], work_current = None, work_sem = sm, work_thread = t\<rparr>)
                (s\<lparr>wkernel := k3\<rparr>))
            }
        })"

definition rt_workqueue_destroy :: "nat \<Rightarrow> wsys \<Rightarrow> (rt_err \<times> wsys) option" where
  "rt_workqueue_destroy q s = do {
     k1 \<leftarrow> rt_thread_delete (work_thread (queues s q)) (wkernel s);
     Some (RT_EOK, s\<lparr>wkernel := k1\<rparr>)
   }"

section \<open>Waking those who wait for a work\<close>

lemma release_wakes:
  assumes inv: "kinv 0 k" and ok: "sem_ok k s" and cur: "current_thread k \<noteq> None" and l: "lists k (LSem s) = w # ws"
    and lock: "scheduler_lock_nest k \<noteq> 0"
  obtains k' where "rt_sem_release s k = Some k'" "kinv 0 k'" "sem_ok k' s" "current_thread k' \<noteq> None"
    "lists k' (LSem s) = ws" "sems k' = sems k" "th_ready k' w" "\<forall>u. th_ready k u \<longrightarrow> th_ready k' u"
    "scheduler_lock_nest k' = scheduler_lock_nest k"
proof -
  obtain k1 k' where k': "rt_ipc_list_resume (LSem s) k = Some k1" "rt_schedule k1 = Some k'"
    "kinv 0 k'" "th_ready k' w" "core_only k k'" "current_thread k' \<noteq> None"
    "threads k' = (threads k)(w := (threads k w)
       \<lparr>th_stat := with_stat RT_THREAD_READY (th_stat (threads k w))\<rparr>)"
    "lists k' (LSem s) = ws" "\<forall>h'. wait_head h' \<longrightarrow> h' \<noteq> LSem s \<longrightarrow> lists k' h' = lists k h'"
    "\<forall>j. j \<noteq> s \<longrightarrow> lists k' (LSem j) = lists k (LSem j)"
    "scheduler_lock_nest k = 0 \<longrightarrow> current_top k'"
    by (rule sem_q.resume_and_schedule [OF inv l cur])
  note f = core_only_frame [OF k'(5)]
  have "rt_sem_release s k = Some k'" using l k'(1,2) by (simp add: rt_sem_release_def)
  moreover have "sem_ok k' s" using ok l by (auto simp: sem_ok_def f)
  moreover have "th_ready k' u" if "th_ready k u" for u using that k'(4,7) by (auto simp: stat_of_def)
  ultimately show thesis using that k' f by blast
qed

lemma completion_loop_spec:
  assumes "kinv 0 k" "sem_ok k s" "current_thread k \<noteq> None" "scheduler_lock_nest k \<noteq> 0"
    "sem_value (sems k s) = 0"
  shows "\<exists>k'. completion_loop s k = Some (RT_EOK, k') \<and> kinv 0 k' \<and> sem_ok k' s \<and> current_thread k' \<noteq> None \<and>
    lists k' (LSem s) = [] \<and> sem_value (sems k' s) = 0 \<and> scheduler_lock_nest k' = scheduler_lock_nest k \<and>
    (\<forall>u. th_ready k u \<or> u \<in> set (lists k (LSem s)) \<longrightarrow> th_ready k' u)"
  using assms
proof (induction "lists k (LSem s)" arbitrary: k)
  case Nil
  note l = Nil(1) [symmetric]
  let ?k1 = "upd_sem s (\<lambda>sm. sm\<lparr>sem_value := sem_value sm + 1\<rparr>) k"
  let ?k2 = "upd_sem s (\<lambda>sm. sm\<lparr>sem_value := sem_value sm - 1\<rparr>) ?k1"
  have "rt_sem_trytake s k = Some (Returned (- RT_ETIMEOUT), k)" "rt_sem_release s k = Some ?k1"
    "rt_sem_trytake s ?k1 = Some (Returned RT_EOK, ?k2)"
    using Nil(6) l by (simp_all add: rt_sem_trytake_def rt_sem_take_def rt_sem_release_def)
  then have "completion_loop s k = Some (RT_EOK, ?k2)"
    by (simp add: completion_loop.simps [of s k] completion_loop.simps [of s ?k1] rt_err_defs)
  moreover have "kinv 0 ?k2" using Nil(2) by (intro upd_sem_kinv)
  ultimately show ?case using Nil l by (simp add: sem_ok_def stat_of_def)
next
  case (Cons w ws)
  note l = Cons(2) [symmetric]
  obtain k1 where k1: "rt_sem_release s k = Some k1" "kinv 0 k1" "sem_ok k1 s" "current_thread k1 \<noteq> None"
    "lists k1 (LSem s) = ws" "sems k1 = sems k" "th_ready k1 w" "\<forall>u. th_ready k u \<longrightarrow> th_ready k1 u"
    "scheduler_lock_nest k1 = scheduler_lock_nest k"
    by (rule release_wakes [OF Cons(3-5) l Cons(6)])
  have "rt_sem_trytake s k = Some (Returned (- RT_ETIMEOUT), k)"
    using Cons(7) by (simp add: rt_sem_trytake_def rt_sem_take_def)
  then have "completion_loop s k = completion_loop s k1"
    using k1(1) by (simp add: completion_loop.simps [of s k] rt_err_defs)
  then show ?case using Cons(1) [OF k1(5) [symmetric] k1(2-4)] Cons(6,7) k1(5-9) l by auto
qed

text \<open>C30: when a work is done, every thread that waits for it in \<^verbatim>\<open>rt_workqueue_cancel_work_sync\<close> is made
  ready, the loop ends, and the semaphore has no token left, so that the next wait is one for the next
  work.\<close>

theorem work_completion_wakes_all:
  assumes inv: "kinv 0 k" "sem_ok k s" "sem_value (sems k s) = 0" and cur: "current_thread k = Some t" "th_ready k t"
    and lock: "scheduler_lock_nest k = 0"
  shows "\<exists>k'. workqueue_work_completion s k = Some (RT_EOK, k') \<and> kinv 0 k' \<and> sem_ok k' s \<and>
    lists k' (LSem s) = [] \<and> sem_value (sems k' s) = 0 \<and> current_top k' \<and>
    (\<forall>u \<in> set (lists k (LSem s)). th_ready k' u)"
proof -
  let ?k = "rt_enter_critical k"
  have e: "kinv 0 ?k" "sem_ok ?k s" "current_thread ?k \<noteq> None" "scheduler_lock_nest ?k \<noteq> 0" "sem_value (sems ?k s) = 0"
    "scheduler_lock_nest ?k = 1" "lists ?k = lists k" "th_ready ?k t"
    using assms kinv_cong [OF inv(1), of ?k] by (simp_all add: rt_enter_critical_def sem_ok_def stat_of_def)
  obtain k1 where k1: "completion_loop s ?k = Some (RT_EOK, k1)" "kinv 0 k1" "sem_ok k1 s" "current_thread k1 \<noteq> None"
    "lists k1 (LSem s) = []" "sem_value (sems k1 s) = 0" "scheduler_lock_nest k1 = scheduler_lock_nest ?k"
    "\<forall>u. th_ready ?k u \<or> u \<in> set (lists ?k (LSem s)) \<longrightarrow> th_ready k1 u"
    using completion_loop_spec [OF e(1-5)] by blast
  let ?k2 = "k1\<lparr>scheduler_lock_nest := 0\<rparr>"
  have k2: "kinv 0 ?k2" "th_ready ?k2 t" "current_thread ?k2 \<noteq> None"
    using k1(2,4,8) e(8) kinv_cong [OF k1(2), of ?k2] by (simp_all add: stat_of_def)
  obtain k' where k': "rt_schedule ?k2 = Some k'" "switch_only ?k2 k'" "kinv 0 k'" "core_only ?k2 k'"
    "scheduler_lock_nest ?k2 = 0 \<longrightarrow> current_top k'"
    by (rule schedule_kinv [OF k2])
  have run: "workqueue_work_completion s k = Some (RT_EOK, k')"
    using k1(1,4,7) e(6) k'(1) by (simp add: workqueue_work_completion_def rt_exit_critical_def Let_def)
  have f: "lists k' (LSem s) = []" "sems k' = sems k1" "stat_of k' u = stat_of k1 u" for u
    using k1(5) switch_only_frame [OF k'(2)] by (simp_all add: stat_of_def)
  have "sem_ok k' s" using k1(3) f(1,2) by (simp add: sem_ok_def)
  then show ?thesis using run k' k1 e(7) f by auto
qed

section \<open>The thread and those who submit\<close>

text \<open>The last three fields are not in the code: the works accepted, the works run, and whether the work
  accepted last came between the test of the list and the suspension of the thread.\<close>

record wrun =
  wr_worker :: worker
  wr_sys :: wsys
  wr_accepted :: "nat list"
  wr_ran :: "nat list"
  wr_missed :: bool

text \<open>Works are submitted to the queue \<open>q\<close> by any thread or interrupt, at any time; its thread \<open>t\<close> moves while
  it is the running one. Others do what they like with the kernel but do not suspend or resume the
  thread of the queue.\<close>

inductive wq_step :: "nat \<Rightarrow> nat \<Rightarrow> wrun \<Rightarrow> wrun \<Rightarrow> bool" for q t where
  Submit: "workqueue_submit_work q w (wr_sys c) = Some (r, s) \<Longrightarrow>
    wq_step q t c (c\<lparr>wr_sys := s, wr_accepted := wr_accepted c @ (if r = RT_EOK then [w] else []),
      wr_missed := (if r = RT_EOK then wr_worker c = At_suspend else wr_missed c)\<rparr>)"
| Test: "wr_worker c = At_test \<Longrightarrow> current_thread (wkernel (wr_sys c)) = Some t \<Longrightarrow> th_ready (wkernel (wr_sys c)) t \<Longrightarrow>
    wq_step q t c (c\<lparr>wr_worker := worker_test q (wr_sys c)\<rparr>)"
| Suspend: "wr_worker c = At_suspend \<Longrightarrow> current_thread (wkernel (wr_sys c)) = Some t \<Longrightarrow>
    kinv 0 (wkernel (wr_sys c)) \<Longrightarrow> th_ready (wkernel (wr_sys c)) t \<Longrightarrow> worker_suspend (wr_sys c) = Some s \<Longrightarrow>
    wq_step q t c (c\<lparr>wr_worker := At_take, wr_sys := s\<rparr>)"
| Take: "wr_worker c = At_take \<Longrightarrow> current_thread (wkernel (wr_sys c)) = Some t \<Longrightarrow> th_ready (wkernel (wr_sys c)) t \<Longrightarrow>
    worker_take q (wr_sys c) = Some (w, s) \<Longrightarrow>
    wq_step q t c (c\<lparr>wr_worker := At_func w, wr_sys := s, wr_ran := wr_ran c @ [w]\<rparr>)"
| Done: "wr_worker c = At_func w \<Longrightarrow> current_thread (wkernel (wr_sys c)) = Some t \<Longrightarrow>
    wq_step q t c (c\<lparr>wr_worker := At_ack, wr_sys := worker_done q (wr_sys c)\<rparr>)"
| Ack: "wr_worker c = At_ack \<Longrightarrow> current_thread (wkernel (wr_sys c)) = Some t \<Longrightarrow> worker_ack q (wr_sys c) = Some s \<Longrightarrow>
    wq_step q t c (c\<lparr>wr_worker := At_test, wr_sys := s\<rparr>)"
| Others: "th_suspended k t = th_suspended (wkernel (wr_sys c)) t \<Longrightarrow>
    wq_step q t c (c\<lparr>wr_sys := (wr_sys c)\<lparr>wkernel := k\<rparr>\<rparr>)"

definition wq_start :: "nat \<Rightarrow> nat \<Rightarrow> wrun \<Rightarrow> bool" where
  "wq_start q t c \<longleftrightarrow> wr_worker c = At_test \<and> work_list (queues (wr_sys c) q) = [] \<and> work_current (queues (wr_sys c) q) = None \<and>
     work_thread (queues (wr_sys c) q) = t \<and> wr_accepted c = [] \<and> wr_ran c = [] \<and>
     (\<forall>w. wk_flags (works (wr_sys c) w) = 0)"

definition is_pending :: "wsys \<Rightarrow> nat \<Rightarrow> bool" where
  "is_pending s w \<longleftrightarrow> has_flag (wk_flags (works s w)) RT_WORK_STATE_PENDING"

definition wq_inv :: "nat \<Rightarrow> nat \<Rightarrow> wrun \<Rightarrow> bool" where
  "wq_inv q t c \<longleftrightarrow> (let s = wr_sys c; l = work_list (queues s q); cur = work_current (queues s q) in
     wr_accepted c = wr_ran c @ l \<and> distinct l \<and> (\<forall>w. is_pending s w \<longleftrightarrow> w \<in> set l) \<and>
     cur = (case wr_worker c of At_func w \<Rightarrow> Some w | _ \<Rightarrow> None) \<and> (\<forall>w. cur = Some w \<longrightarrow> w \<notin> set l) \<and>
     (wr_worker c = At_take \<longrightarrow> l = [] \<longrightarrow> th_suspended (wkernel s) t))"

text \<open>A thread that sleeps although there is work has missed it.\<close>

definition wq_awake :: "nat \<Rightarrow> nat \<Rightarrow> wrun \<Rightarrow> bool" where
  "wq_awake q t c \<longleftrightarrow> (let s = wr_sys c; l = work_list (queues s q) in
     work_thread (queues s q) = t \<and> (wr_worker c = At_suspend \<longrightarrow> l \<noteq> [] \<longrightarrow> wr_missed c) \<and>
     (wr_worker c = At_take \<longrightarrow> l \<noteq> [] \<longrightarrow> \<not> wr_missed c \<longrightarrow> \<not> th_suspended (wkernel s) t))"

lemma wsys_simps [simp]:
  "queues (set_flag b w s) = queues s" "queues (clear_flag b w s) = queues s"
  "wkernel (set_flag b w s) = wkernel s" "wkernel (clear_flag b w s) = wkernel s"
  "wkernel (work_unlink w s) = wkernel s" "wkernel (work_append q w s) = wkernel s"
  "works (work_unlink w s) = works s" "works (work_append q w s) = works s"
  "wkernel (upd_queue q f s) = wkernel s" "works (upd_queue q f s) = works s"
  "queues (upd_queue q f s) = (queues s)(q := f (queues s q))"
  "queues (work_append q w s) = (queues s)(q := (queues s q)\<lparr>work_list := work_list (queues s q) @ [w]\<rparr>)"
  "queues (work_unlink w s) q' = (queues s q')\<lparr>work_list := removeAll w (work_list (queues s q'))\<rparr>"
  by (simp_all add: set_flag_def clear_flag_def upd_work_def work_unlink_def work_append_def upd_queue_def)

lemma pending_simps [simp]:
  "is_pending (set_flag RT_WORK_STATE_PENDING w s) u \<longleftrightarrow> u = w \<or> is_pending s u"
  "is_pending (clear_flag RT_WORK_STATE_PENDING w s) u \<longleftrightarrow> u \<noteq> w \<and> is_pending s u"
  "is_pending (work_unlink w s) u \<longleftrightarrow> is_pending s u" "is_pending (work_append q w s) u \<longleftrightarrow> is_pending s u"
  "is_pending (upd_queue q f s) u \<longleftrightarrow> is_pending s u" "is_pending (s\<lparr>wkernel := k\<rparr>) u \<longleftrightarrow> is_pending s u"
  by (auto simp: is_pending_def set_flag_def clear_flag_def upd_work_def has_flag_def bit.conj_disj_distrib2 and.assoc
    work_unlink_def work_append_def upd_queue_def)

text \<open>What submitting does to the queue, whatever it does to the kernel.\<close>

lemma submit_spec:
  assumes "workqueue_submit_work q w s = Some (r, s')"
  shows "(r = - RT_EBUSY \<and> s' = s \<and> (is_pending s w \<or> work_current (queues s q) = Some w)) \<or>
    (r = RT_EOK \<and> \<not> is_pending s w \<and> work_current (queues s q) \<noteq> Some w \<and>
     works s' = works (set_flag RT_WORK_STATE_PENDING w s) \<and>
     queues s' = queues (work_append q w (work_unlink w s)))"
  using assms
  by (auto simp: workqueue_submit_work_def is_pending_def [symmetric] Let_def wake_worker_def Option.bind_eq_Some_conv
    set_flag_def upd_work_def split: if_splits)

lemma is_pending_works: "works s' = works s \<Longrightarrow> is_pending s' = is_pending s"
  by (simp add: is_pending_def fun_eq_iff)

lemma suspend_suspends:
  assumes "kinv 0 (wkernel s)" "current_thread (wkernel s) = Some t" "th_ready (wkernel s) t" "worker_suspend s = Some s'"
  shows "works s' = works s \<and> queues s' = queues s \<and> th_suspended (wkernel s') t"
proof -
  let ?k = "snd (rt_thread_suspend t (wkernel s))"
  obtain k where k: "rt_schedule ?k = Some k" "s' = s\<lparr>wkernel := k\<rparr>"
    using assms(2,4) by (auto simp: worker_suspend_def rt_thread_self_def Option.bind_eq_Some_conv)
  have sus: "th_suspended ?k t" using suspend_spec(4) [OF assms(1,3)] .
  have "threads k = threads ?k" using k(1)
    by (auto simp: rt_schedule_def Option.bind_eq_Some_conv Let_def split: if_splits)
  then show ?thesis using k(2) sus by (simp add: stat_of_def)
qed

text \<open>Every step keeps the invariant.\<close>

lemma wq_step_inv:
  assumes "wq_step q t c c'" "wq_inv q t c"
  shows "wq_inv q t c'"
  using assms
proof (induction rule: wq_step.induct)
  case (Submit w c r s)
  let ?s = "wr_sys c"
  note I = Submit(2) [unfolded wq_inv_def Let_def]
  from submit_spec [OF Submit(1)] show ?case
  proof
    assume "r = - RT_EBUSY \<and> s = ?s \<and> (is_pending ?s w \<or> work_current (queues ?s q) = Some w)"
    then show ?case using I by (simp add: wq_inv_def err_defs)
  next
    assume a: "r = RT_EOK \<and> \<not> is_pending ?s w \<and> work_current (queues ?s q) \<noteq> Some w \<and>
      works s = works (set_flag RT_WORK_STATE_PENDING w ?s) \<and> queues s = queues (work_append q w (work_unlink w ?s))"
    then have w: "w \<notin> set (work_list (queues ?s q))" using I by blast
    have p: "is_pending s u \<longleftrightarrow> u = w \<or> is_pending ?s u" for u
      using is_pending_works [of s "set_flag RT_WORK_STATE_PENDING w ?s"] a by simp
    have qs: "work_list (queues s q) = work_list (queues ?s q) @ [w]" "work_current (queues s q) = work_current (queues ?s q)"
      using a w by simp_all
    show ?case using I a w unfolding wq_inv_def Let_def by (auto simp: qs p)
  qed
next
  case (Test c)
  then show ?case by (auto simp: wq_inv_def Let_def worker_test_def)
next
  case (Suspend c s)
  have s: "works s = works (wr_sys c) \<and> queues s = queues (wr_sys c) \<and> th_suspended (wkernel s) t"
    using suspend_suspends [OF Suspend(3,2,4,5)] .
  show ?case using Suspend(1,6) is_pending_works [of s "wr_sys c"] s by (simp add: wq_inv_def Let_def)
next
  case (Take c w s)
  let ?s = "wr_sys c"
  note I = Take(5) [unfolded wq_inv_def Let_def]
  obtain ws where l: "work_list (queues ?s q) = w # ws"
    and s: "s = clear_flag RT_WORK_STATE_PENDING w (upd_queue q (\<lambda>wq. wq\<lparr>work_current := Some w\<rparr>) (work_unlink w ?s))"
    using Take(4) by (auto simp: worker_take_def split: list.splits)
  have ws: "w \<notin> set ws" "distinct ws" using I l by auto
  then have "work_list (queues s q) = ws" "work_current (queues s q) = Some w"
    using l by (simp_all add: s)
  moreover have "is_pending s u \<longleftrightarrow> u \<in> set ws" for u using I l ws by (auto simp: s)
  ultimately show ?case using I l ws Take(1) by (simp add: wq_inv_def Let_def)
next
  case (Done c w)
  then show ?case by (auto simp: wq_inv_def Let_def worker_done_def)
next
  case (Ack c s)
  then obtain k where "s = (wr_sys c)\<lparr>wkernel := k\<rparr>" by (auto simp: worker_ack_def)
  then show ?case using Ack(1,4) by (simp add: wq_inv_def Let_def)
next
  case (Others k c)
  then show ?case by (auto simp: wq_inv_def Let_def)
qed

lemma wq_start_inv: "wq_start q t c \<Longrightarrow> wq_inv q t c"
  by (auto simp: wq_start_def wq_inv_def is_pending_def has_flag_def)

lemma wake_awakes:
  assumes "wake_worker q s = Some s'"
  shows "\<not> th_suspended (wkernel s') (work_thread (queues s q))"
proof -
  let ?t = "work_thread (queues s q)"
  let ?k1 = "snd (rt_thread_resume ?t (wkernel s))"
  have "\<not> th_suspended ?k1 ?t"
    by (auto simp: rt_thread_resume_def rt_schedule_insert_thread_def Let_def stat_of_def set_stat_def with_stat_mask
        upd_thread_def list_insert_before_def)
  moreover have "threads (wkernel s') = threads ?k1"
    using assms by (auto simp: wake_worker_def rt_schedule_def Option.bind_eq_Some_conv Let_def split: if_splits)
  ultimately show ?thesis by (simp add: stat_of_def)
qed

lemma submit_awakes:
  assumes "workqueue_submit_work q w s = Some (RT_EOK, s')" "work_current (queues s q) = None"
  shows "\<not> th_suspended (wkernel s') (work_thread (queues s q))"
proof -
  have "wake_worker q (set_flag RT_WORK_STATE_PENDING w (work_append q w (work_unlink w s))) = Some s'"
    using assms by (auto simp: workqueue_submit_work_def Let_def err_defs Option.bind_eq_Some_conv split: if_splits)
  from wake_awakes [OF this] show ?thesis by simp
qed

lemma wq_step_awake:
  assumes "wq_step q t c c'" "wq_inv q t c" "wq_awake q t c"
  shows "wq_awake q t c'"
  using assms
proof (induction rule: wq_step.induct)
  case (Submit w c r s)
  let ?s = "wr_sys c"
  note I = Submit(2) [unfolded wq_inv_def Let_def] and A = Submit(3) [unfolded wq_awake_def Let_def]
  from submit_spec [OF Submit(1)] show ?case
  proof
    assume "r = - RT_EBUSY \<and> s = ?s \<and> (is_pending ?s w \<or> work_current (queues ?s q) = Some w)"
    then show ?case using A by (simp add: wq_awake_def err_defs)
  next
    assume a: "r = RT_EOK \<and> \<not> is_pending ?s w \<and> work_current (queues ?s q) \<noteq> Some w \<and>
      works s = works (set_flag RT_WORK_STATE_PENDING w ?s) \<and> queues s = queues (work_append q w (work_unlink w ?s))"
    have "\<not> th_suspended (wkernel s) t" if "wr_worker c = At_take"
      using submit_awakes [of q w ?s s] Submit(1) a I A that by simp
    then show ?case using A a by (simp add: wq_awake_def)
  qed
next
  case (Test c)
  then show ?case by (auto simp: wq_awake_def Let_def worker_test_def)
next
  case (Suspend c s)
  have "queues s = queues (wr_sys c)" using suspend_suspends [OF Suspend(3,2,4,5)] by simp
  then show ?case using Suspend(1,7) by (simp add: wq_awake_def Let_def)
next
  case (Take c w s)
  then show ?case by (auto simp: wq_awake_def Let_def worker_take_def split: list.splits)
next
  case (Done c w)
  then show ?case by (simp add: wq_awake_def Let_def worker_done_def)
next
  case (Ack c s)
  then obtain k where "s = (wr_sys c)\<lparr>wkernel := k\<rparr>" by (auto simp: worker_ack_def)
  then show ?case using Ack(5) by (simp add: wq_awake_def Let_def)
next
  case (Others k c)
  then show ?case by (simp add: wq_awake_def Let_def)
qed

text \<open>C29: as long as no work is cancelled, a work queue runs the works it has accepted once each, in the order
  they were accepted: at any time the accepted works are those run and those in its list. A work is accepted
  exactly if it is neither waiting nor running. With works in the list the thread goes from its test to
  taking the first of them, and never finds the list empty there. It is only found suspended with works in the list
  if the last of them came between its test of an empty list and its suspension: every other submission
  wakes it.\<close>

theorem works_run_in_order:
  assumes "(wq_step q t)\<^sup>*\<^sup>* c0 c" "wq_start q t c0"
  shows "wr_accepted c = wr_ran c @ work_list (queues (wr_sys c) q) \<and>
    (\<forall>w r s. workqueue_submit_work q w (wr_sys c) = Some (r, s) \<longrightarrow>
      (r = RT_EOK \<longleftrightarrow> w \<notin> set (work_list (queues (wr_sys c) q)) \<and> wr_worker c \<noteq> At_func w)) \<and>
    (wr_worker c = At_take \<longrightarrow> th_ready (wkernel (wr_sys c)) t \<longrightarrow> worker_take q (wr_sys c) \<noteq> None) \<and>
    (\<forall>w ws. work_list (queues (wr_sys c) q) = w # ws \<longrightarrow>
      (wr_worker c = At_test \<longrightarrow> worker_test q (wr_sys c) = At_take) \<and>
      (wr_worker c = At_suspend \<longrightarrow> wr_missed c) \<and>
      (wr_worker c = At_take \<longrightarrow> (th_suspended (wkernel (wr_sys c)) t \<longrightarrow> wr_missed c) \<and>
        (\<exists>s. worker_take q (wr_sys c) = Some (w, s))))"
proof -
  have both: "wq_inv q t c \<and> wq_awake q t c"
    using assms(1)
  proof (induction rule: rtranclp_induct)
    case base
    then show ?case using wq_start_inv [OF assms(2)] assms(2) by (simp add: wq_awake_def wq_start_def)
  next
    case (step c c')
    then show ?case using wq_step_inv wq_step_awake by blast
  qed
  then have inv: "wq_inv q t c" and A: "wq_awake q t c" by simp_all
  note I = inv [unfolded wq_inv_def Let_def]
  have "r = RT_EOK \<longleftrightarrow> w \<notin> set (work_list (queues (wr_sys c) q)) \<and> wr_worker c \<noteq> At_func w"
    if "workqueue_submit_work q w (wr_sys c) = Some (r, s)" for w r s
  proof -
    have "work_current (queues (wr_sys c) q) = Some w \<longleftrightarrow> wr_worker c = At_func w"
      using I by (cases "wr_worker c") auto
    then show ?thesis using submit_spec [OF that] I by (auto simp: err_defs)
  qed
  moreover have "worker_take q (wr_sys c) \<noteq> None" if "wr_worker c = At_take" "th_ready (wkernel (wr_sys c)) t"
    using I that by (auto simp: worker_take_def split: list.splits)
  ultimately show ?thesis using I A by (auto simp: wq_awake_def worker_test_def worker_take_def)
qed

text \<open>Submitting to a queue whose thread runs or is ready.\<close>

abbreviation queued :: "nat \<Rightarrow> nat \<Rightarrow> wsys \<Rightarrow> wsys" where
  "queued q w s \<equiv> set_flag RT_WORK_STATE_PENDING w (work_append q w (work_unlink w s))"

lemma submit_awake:
  assumes k: "kinv 0 (wkernel s)" "current_thread (wkernel s) \<noteq> None" "th_ready (wkernel s) (work_thread (queues s q))"
    and w: "\<not> is_pending s w" "work_current (queues s q) = None"
  obtains k where "workqueue_submit_work q w s = Some (RT_EOK, (queued q w s)\<lparr>wkernel := k\<rparr>)" "switch_only (wkernel s) k"
proof -
  obtain k where sk: "rt_schedule (wkernel s) = Some k" "switch_only (wkernel s) k"
    by (rule schedule_kinv [OF k(1,3,2)])
  have "rt_thread_resume (work_thread (queues s q)) (wkernel s) = (- RT_ERROR, wkernel s)"
    using k(3) by (simp add: rt_thread_resume_def)
  then have "workqueue_submit_work q w s = Some (RT_EOK, (queued q w s)\<lparr>wkernel := k\<rparr>)"
    using w sk(1) by (simp add: workqueue_submit_work_def is_pending_def wake_worker_def Let_def)
  then show thesis using sk(2) that by blast
qed

section \<open>Examples\<close>

text \<open>Thread 1 is that of queue 0 and runs; thread 2 waits for the semaphore 5 of the queue.\<close>

definition demo_wsys :: "kernel \<Rightarrow> wsys" where
  "demo_wsys k = \<lparr>works = (\<lambda>_. \<lparr>wk_flags = 0, wk_type = 0, wk_workqueue = None\<rparr>),
     queues = (\<lambda>_. \<lparr>work_list = [], work_current = None, work_sem = 5, work_thread = 1\<rparr>), wkernel = k\<rparr>"

definition demo_wrun :: wrun where
  "demo_wrun = \<lparr>wr_worker = At_test, wr_sys = demo_wsys demo_run, wr_accepted = [], wr_ran = [], wr_missed = False\<rparr>"

lemma demo_wrun_start: "wq_start 0 1 demo_wrun"
  by (simp add: wq_start_def demo_wrun_def demo_wsys_def)

lemma work_completion_wakes_all_witness:
  "\<exists>k'. workqueue_work_completion 5 (demo_wait (LSem 5)) = Some (RT_EOK, k') \<and> th_ready k' 2 \<and> lists k' (LSem 5) = []"
proof -
  have "sem_ok (demo_wait (LSem 5)) 5" "sem_value (sems (demo_wait (LSem 5)) 5) = 0" "lists (demo_wait (LSem 5)) (LSem 5) = [2]"
    "current_thread (demo_wait (LSem 5)) = Some 1" "scheduler_lock_nest (demo_wait (LSem 5)) = 0" "th_ready (demo_wait (LSem 5)) 1"
    by (simp_all add: sem_ok_def flag_ok_def demo_wait_def demo_run_def demo_kernel_def demo_thread_def stat_of_def)
  then show ?thesis using work_completion_wakes_all [OF demo_wait_inv, of "LSem 5" 5 1] by auto
qed

lemma works_run_in_order_witness:
  "\<exists>c. (wq_step 0 1)\<^sup>*\<^sup>* demo_wrun c \<and> wr_accepted c = [7, 8] \<and> wr_ran c = [7] \<and> work_list (queues (wr_sys c) 0) = [8] \<and>
    (\<forall>r s. workqueue_submit_work 0 7 (wr_sys c) = Some (r, s) \<longrightarrow> r \<noteq> RT_EOK)"
proof -
  let ?st = "wq_step 0 1" and ?k = "wkernel (wr_sys demo_wrun)"
  have k: "kinv 0 demo_run" "current_thread demo_run \<noteq> None" "th_ready demo_run 1"
    using demo_run_inv(1) by (simp_all add: demo_run_def demo_kernel_def demo_thread_def stat_of_def)
  have add: "\<exists>c'. ?st\<^sup>*\<^sup>* c c' \<and> wr_worker c' = At_test \<and> wr_accepted c' = wr_accepted c @ [w] \<and> wr_ran c' = wr_ran c \<and>
      wr_sys c' = queued 0 w (wr_sys c)"
    if c: "wr_worker c = At_test" "wkernel (wr_sys c) = demo_run" "\<not> is_pending (wr_sys c) w"
      "work_current (queues (wr_sys c) 0) = None" "work_thread (queues (wr_sys c) 0) = 1" for c w
  proof -
    obtain k' where s: "workqueue_submit_work 0 w (wr_sys c) = Some (RT_EOK, (queued 0 w (wr_sys c))\<lparr>wkernel := k'\<rparr>)"
      "switch_only demo_run k'"
      by (rule submit_awake [of "wr_sys c" 0 w]) (use k c in \<open>simp_all\<close>)
    let ?c1 = "c\<lparr>wr_sys := (queued 0 w (wr_sys c))\<lparr>wkernel := k'\<rparr>, wr_accepted := wr_accepted c @ [w], wr_missed := False\<rparr>"
    have "?st c ?c1" using wq_step.Submit [OF s(1), of 1] c(1) by simp
    moreover have "?st ?c1 (?c1\<lparr>wr_sys := (wr_sys ?c1)\<lparr>wkernel := demo_run\<rparr>\<rparr>)"
      by (rule wq_step.Others) (use switch_only_frame [OF s(2)] in \<open>simp add: stat_of_def\<close>)
    ultimately have "?st\<^sup>*\<^sup>* c (?c1\<lparr>wr_sys := (wr_sys ?c1)\<lparr>wkernel := demo_run\<rparr>\<rparr>)" by simp
    moreover have "(queued 0 w (wr_sys c))\<lparr>wkernel := demo_run\<rparr> = queued 0 w (wr_sys c)"
      using c(2) by (intro wsys.equality) simp_all
    ultimately show ?thesis using c(1)
      by (intro exI [of _ "?c1\<lparr>wr_sys := (wr_sys ?c1)\<lparr>wkernel := demo_run\<rparr>\<rparr>"]) simp
  qed
  have d: "wr_worker demo_wrun = At_test" "wkernel (wr_sys demo_wrun) = demo_run" "\<not> is_pending (wr_sys demo_wrun) u"
      "queues (wr_sys demo_wrun) 0 = \<lparr>work_list = [], work_current = None, work_sem = 5, work_thread = 1\<rparr>" for u
    by (simp_all add: demo_wrun_def demo_wsys_def is_pending_def has_flag_def)
  obtain c1 where c1: "?st\<^sup>*\<^sup>* demo_wrun c1" "wr_worker c1 = At_test" "wr_accepted c1 = [7]" "wr_ran c1 = []"
      "wr_sys c1 = queued 0 7 (wr_sys demo_wrun)"
    using add [OF d(1-3), of 7] d(4) by (auto simp: demo_wrun_def)
  obtain c2 where c2: "?st\<^sup>*\<^sup>* c1 c2" "wr_worker c2 = At_test" "wr_accepted c2 = [7, 8]" "wr_ran c2 = []"
      "wr_sys c2 = queued 0 8 (wr_sys c1)"
    using add [of c1 8] c1(2-5) d by auto
  have l: "work_list (queues (wr_sys c2) 0) = [7, 8]" "current_thread (wkernel (wr_sys c2)) = Some 1"
      "th_ready (wkernel (wr_sys c2)) 1"
    using c1(5) c2(5) d k by simp_all
  let ?c3 = "c2\<lparr>wr_worker := worker_test 0 (wr_sys c2)\<rparr>"
  have r3: "?st c2 ?c3" by (rule wq_step.Test) (use c2(2) l in simp_all)
  have w3: "wr_worker ?c3 = At_take" using l by (simp add: worker_test_def)
  obtain s where s: "worker_take 0 (wr_sys ?c3) = Some (7, s)" "work_list (queues s 0) = [8]"
    using l(1) by (simp add: worker_take_def)
  let ?c4 = "?c3\<lparr>wr_worker := At_func 7, wr_sys := s, wr_ran := wr_ran ?c3 @ [7]\<rparr>"
  have r4: "?st ?c3 ?c4" by (rule wq_step.Take [OF w3 _ _ s(1)]) (use l in simp_all)
  have run: "?st\<^sup>*\<^sup>* demo_wrun ?c4" using c1(1) c2(1) r3 r4 by (meson rtranclp.rtrancl_into_rtrancl rtranclp_trans)
  have "\<forall>r s'. workqueue_submit_work 0 7 (wr_sys ?c4) = Some (r, s') \<longrightarrow> r \<noteq> RT_EOK"
    using works_run_in_order [OF run demo_wrun_start] by auto
  then show ?thesis using run c2(3,4) s(2) by (intro exI [of _ ?c4]) simp
qed

section \<open>Works that are not run\<close>

text \<open>A work submitted between the test of the list and the suspension: the resume finds the thread not
  suspended, and the thread then suspends itself although there is work.\<close>

lemma submit_before_suspend:
  assumes st: "wq_start q t c0" and b: "may_block (wkernel (wr_sys c0)) t"
  shows "\<exists>c. (wq_step q t)\<^sup>*\<^sup>* c0 c \<and> wr_accepted c = [w] \<and> wr_ran c = [] \<and> wr_worker c = At_take \<and>
    work_list (queues (wr_sys c) q) = [w] \<and> th_suspended (wkernel (wr_sys c)) t \<and> wr_missed c"
proof -
  let ?k = "wkernel (wr_sys c0)" and ?st = "wq_step q t"
  obtain u where b: "kinv 0 ?k" "current_thread ?k = Some t" "th_ready ?k t" "u \<noteq> t" "th_ready ?k u"
    using b by (auto simp: may_block_def)
  have c0: "wr_worker c0 = At_test" "work_list (queues (wr_sys c0) q) = []" "work_current (queues (wr_sys c0) q) = None"
    "work_thread (queues (wr_sys c0) q) = t" "wr_accepted c0 = []" "wr_ran c0 = []" "\<not> is_pending (wr_sys c0) w"
    using st by (auto simp: wq_start_def is_pending_def has_flag_def)
  let ?c1 = "c0\<lparr>wr_worker := At_suspend\<rparr>"
  have r1: "?st c0 ?c1" using wq_step.Test [OF c0(1) b(2,3), of q] c0(2) by (simp add: worker_test_def)
  obtain k' where s: "workqueue_submit_work q w (wr_sys c0) = Some (RT_EOK, (queued q w (wr_sys c0))\<lparr>wkernel := k'\<rparr>)"
    "switch_only ?k k'"
    by (rule submit_awake [of "wr_sys c0" q w]) (use b c0 in simp_all)
  let ?c2 = "?c1\<lparr>wr_sys := (queued q w (wr_sys c0))\<lparr>wkernel := k'\<rparr>, wr_accepted := [w], wr_missed := True\<rparr>"
  have r2: "?st ?c1 ?c2" using wq_step.Submit [of q w ?c1 RT_EOK _ t] s(1) c0(5) by simp
  let ?c3 = "?c2\<lparr>wr_sys := (queued q w (wr_sys c0))\<lparr>wkernel := ?k\<rparr>\<rparr>"
  have r3: "?st ?c2 ?c3"
    using wq_step.Others [of ?k t ?c2 q] switch_only_frame [OF s(2)] by (simp add: stat_of_def)
  let ?k4 = "snd (rt_thread_suspend t ?k)"
  have k4: "kinv 0 ?k4" "th_ready ?k4 u" "current_thread ?k4 \<noteq> None"
    using suspend_spec(2,6,7) [OF b(1,3)] b(2,4,5) by (simp_all add: stat_of_def)
  obtain k5 where k5: "rt_schedule ?k4 = Some k5" by (rule schedule_kinv [OF k4])
  let ?s4 = "(queued q w (wr_sys c0))\<lparr>wkernel := k5\<rparr>"
  have run: "worker_suspend (wr_sys ?c3) = Some ?s4"
    using b(2) k5 by (simp add: worker_suspend_def rt_thread_self_def)
  let ?c4 = "?c3\<lparr>wr_worker := At_take, wr_sys := ?s4\<rparr>"
  have r4: "?st ?c3 ?c4" by (rule wq_step.Suspend [OF _ _ _ _ run]) (use b in simp_all)
  have "th_suspended k5 t" using suspend_suspends [OF _ _ _ run] b by simp
  moreover have "?st\<^sup>*\<^sup>* c0 ?c4" using r1 r2 r3 r4 by (meson converse_rtranclp_into_rtranclp rtranclp.rtrancl_refl)
  ultimately show ?thesis using c0 by (intro exI [of _ ?c4]) simp
qed

text \<open>A work that is cancelled before the thread of the queue runs: the thread has been resumed and takes
  the first entry of a list that is empty.\<close>

lemma cancel_before_run:
  assumes q: "work_list (queues s q) = []" "work_current (queues s q) = None" "th_suspended (wkernel s) (work_thread (queues s q))"
    and w: "\<not> is_pending s w" "wk_type (works s w) = 0"
    and k: "kinv 0 (wkernel s)" "current_thread (wkernel s) \<noteq> None"
  shows "\<exists>s1 s2. workqueue_submit_work q w s = Some (RT_EOK, s1) \<and> rt_workqueue_cancel_work q w s1 = Some (RT_EOK, s2) \<and>
    th_ready (wkernel s2) (work_thread (queues s q)) \<and> worker_take q s2 = None"
proof -
  let ?k = "wkernel s" and ?t = "work_thread (queues s q)"
  let ?k1 = "snd (rt_thread_resume ?t ?k)"
  note r = resume_spec [OF k(1) q(3)]
  have k1: "kinv 0 ?k1" "th_ready ?k1 ?t" "current_thread ?k1 \<noteq> None" using r(2,3,6) k(2) by simp_all
  obtain k2 where k2: "rt_schedule ?k1 = Some k2" "switch_only ?k1 k2" by (rule schedule_kinv [OF k1])
  have ready: "th_ready k2 ?t" using k1(2) switch_only_frame [OF k2(2)] by (simp add: stat_of_def)
  let ?s1 = "(queued q w s)\<lparr>wkernel := k2\<rparr>"
  have s1: "workqueue_submit_work q w s = Some (RT_EOK, ?s1)"
    using w(1) q(2) k2(1) by (simp add: workqueue_submit_work_def is_pending_def wake_worker_def Let_def)
  have ty: "wk_type (works ?s1 w) = 0" using w(2) by (simp add: set_flag_def upd_work_def)
  let ?s2 = "clear_flag RT_WORK_STATE_PENDING w (work_unlink w ?s1)"
  have "rt_workqueue_cancel_work q w ?s1 = Some (RT_EOK, ?s2)"
    using ty q(2) by (simp add: rt_workqueue_cancel_work_def workqueue_cancel_work_def has_flag_def)
  moreover have "worker_take q ?s2 = None" using q(1) by (simp add: worker_take_def)
  ultimately show ?thesis using s1 ready by (intro exI [of _ ?s1] exI [of _ ?s2]) simp
qed

text \<open>Cancelling a delayed work that is in a queue never returns: the two functions call each other.\<close>

lemma cancel_delayed_diverges:
  assumes "workqueue_cancel_delayed_work w s = Some y" "wk_workqueue (works s w) \<noteq> None"
  shows "\<not> (has_flag (wk_flags (works s w)) RT_WORK_STATE_PENDING \<and> has_flag (wk_type (works s w)) RT_WORK_TYPE_DELAYED)"
  using assms(2)
proof (rule_tac mp [OF workqueue_cancel_delayed_work.raw_induct [OF _ assms(1), of "\<lambda>w s y. wk_workqueue (works s w) \<noteq> None \<longrightarrow>
    \<not> (has_flag (wk_flags (works s w)) RT_WORK_STATE_PENDING \<and> has_flag (wk_type (works s w)) RT_WORK_TYPE_DELAYED)"]])
qed (auto simp: Option.bind_eq_Some_conv split: option.splits)

lemma pending_delayed_cancel_hangs:
  assumes "is_pending s w" "has_flag (wk_type (works s w)) RT_WORK_TYPE_DELAYED" "wk_workqueue (works s w) \<noteq> None"
  shows "rt_workqueue_cancel_work q w s = None"
  using cancel_delayed_diverges [of w s] assms
  by (cases "workqueue_cancel_delayed_work w s") (auto simp: rt_workqueue_cancel_work_def is_pending_def)

text \<open>\<^verbatim>\<open>rt_workqueue_cancel_all_work\<close> empties the list and leaves the works marked: they are refused ever after.\<close>

lemma cancel_all_blocks_works:
  assumes "w \<in> set (work_list (queues s q))" "is_pending s w" "kinv 0 (wkernel s)" "current_thread (wkernel s) = Some t"
    "th_ready (wkernel s) t" "scheduler_lock_nest (wkernel s) = 0"
  shows "\<exists>s'. rt_workqueue_cancel_all_work q s = Some (RT_EOK, s') \<and> w \<notin> set (work_list (queues s' q)) \<and>
    workqueue_submit_work q' w s' = Some (- RT_EBUSY, s')"
proof -
  let ?s1 = "fold work_unlink (work_list (queues s q)) (s\<lparr>wkernel := rt_enter_critical (wkernel s)\<rparr>)"
  have f: "wkernel (fold work_unlink l s0) = wkernel s0 \<and> works (fold work_unlink l s0) = works s0 \<and>
      work_list (queues (fold work_unlink l s0) q) = filter (\<lambda>x. x \<notin> set l) (work_list (queues s0 q))" for l s0
    by (induction l arbitrary: s0) (auto simp: removeAll_filter_not_eq intro: filter_cong)
  have k: "scheduler_lock_nest (rt_enter_critical (wkernel s)) = 1" "(wkernel s)\<lparr>scheduler_lock_nest := 0\<rparr> = wkernel s"
    using assms(6) by (simp_all add: rt_enter_critical_def)
  have cur: "current_thread (wkernel s) \<noteq> None" using assms(4) by simp
  obtain k2 where k2: "rt_schedule (wkernel s) = Some k2" by (rule schedule_kinv [OF assms(3,5) cur])
  have x: "rt_exit_critical (rt_enter_critical (wkernel s)) = Some k2"
    using k(1) k2 assms(4) by (simp add: rt_exit_critical_def Let_def rt_enter_critical_def k(2))
  let ?s' = "?s1\<lparr>wkernel := k2\<rparr>"
  have run: "rt_workqueue_cancel_all_work q s = Some (RT_EOK, ?s')"
    using x f by (simp add: rt_workqueue_cancel_all_work_def Let_def)
  have "is_pending ?s' w" using assms(2) f by (simp add: is_pending_def)
  then have "workqueue_submit_work q' w ?s' = Some (- RT_EBUSY, ?s')"
    by (simp add: workqueue_submit_work_def is_pending_def)
  moreover have "w \<notin> set (work_list (queues ?s' q))" using f assms(1) by simp
  ultimately show ?thesis using run by blast
qed

text \<open>Destroying a queue gives its memory back with its semaphore in the registry of kernel objects.\<close>

lemma destroy_leaves_semaphore:
  assumes "rt_workqueue_destroy q s = Some (r, s')" "OSem sm \<in> set (object_container (wkernel s) Class_Semaphore)"
  shows "OSem sm \<in> set (object_container (wkernel s') Class_Semaphore)"
  using assms
  by (auto simp: rt_workqueue_destroy_def rt_thread_delete_def Option.bind_eq_Some_conv rt_timer_detach_def
    rt_object_detach_def unlink_object_def timer_remove_def list_insert_after_def set_stat_def upd_thread_def
    rt_schedule_remove_thread_def list_remove_def Let_def split: if_splits)

end
