(* ===== verification/I2c.thy ===== *)
theory I2c
  imports Device
begin

text \<open>
  The I2C master in software, \<^verbatim>\<open>components/drivers/i2c/i2c-bit-ops.c\<close>, and its pins
  (\<^verbatim>\<open>libraries/HAL_Drivers/drv_soft_i2c.c\<close>): every message is made of single changes of the two lines. The
  record \<open>i2c_line\<close> has the levels on the bus, with what the master drives and what the slave does:
  \<open>line_env\<close> gives, for each time the master releases the clock, how often it still reads a low clock and
  whether the slave lets the data line go. \<open>line_seen\<close> is what someone who watches the bus sees. The
  microsecond delays between the changes have no effect here.
\<close>

section \<open>The bus\<close>

datatype token = Start | Stop | Bit bool

record i2c_line =
  line_sda :: bool
  line_scl :: bool
  master_sda :: bool
  slave_sda :: bool
  line_env :: "(nat \<times> bool) list"
  line_seen :: "token list"

text \<open>Data may only change while the clock is low, and is taken when it rises; a change while the clock
  is high is a start or a stop condition.\<close>

definition observed :: "bool \<Rightarrow> bool \<Rightarrow> bool \<Rightarrow> bool \<Rightarrow> token list" where
  "observed d c d' c' =
     (if c \<and> c' then (if d \<and> \<not> d' then [Start] else if \<not> d \<and> d' then [Stop] else [])
      else if \<not> c \<and> c' then [Bit d'] else [])"

definition move_lines :: "bool \<Rightarrow> bool \<Rightarrow> i2c_line \<Rightarrow> i2c_line" where
  "move_lines d c b = b\<lparr>line_sda := d, line_scl := c,
     line_seen := line_seen b @ observed (line_sda b) (line_scl b) d c\<rparr>"

definition set_sda :: "bool \<Rightarrow> i2c_line \<Rightarrow> i2c_line" where
  "set_sda v b = move_lines (v \<and> slave_sda b) (line_scl b) (b\<lparr>master_sda := v\<rparr>)"

definition SCL_L :: "i2c_line \<Rightarrow> i2c_line" where
  "SCL_L b = move_lines (line_sda b) False b"

text \<open>Waiting for the clock to go high: \<open>p\<close> reads find it low; \<open>el\<close> ticks have passed.\<close>

fun scl_wait :: "nat \<Rightarrow> nat \<Rightarrow> nat \<Rightarrow> bool" where
  "scl_wait timeout 0 el = True"
| "scl_wait timeout (Suc p) el =
     (if el > timeout then False else scl_wait timeout p (el + (timeout + 1) div 2))"

definition SCL_H :: "nat \<Rightarrow> i2c_line \<Rightarrow> rt_err \<times> i2c_line" where
  "SCL_H timeout b =
     (let (p, s) = (case line_env b of [] \<Rightarrow> (0, True) | a # _ \<Rightarrow> a); b1 = b\<lparr>line_env := tl (line_env b)\<rparr>
      in if scl_wait timeout p 0 then (RT_EOK, move_lines (master_sda b \<and> s) True (b1\<lparr>slave_sda := s\<rparr>))
         else (- RT_ETIMEOUT, b1))"

section \<open>Conditions, bytes and acknowledgements\<close>

definition i2c_start :: "i2c_line \<Rightarrow> i2c_line" where
  "i2c_start b = SCL_L (set_sda False b)"

definition i2c_restart :: "nat \<Rightarrow> i2c_line \<Rightarrow> i2c_line" where
  "i2c_restart timeout b = SCL_L (set_sda False (snd (SCL_H timeout (set_sda True b))))"

definition i2c_stop :: "nat \<Rightarrow> i2c_line \<Rightarrow> i2c_line" where
  "i2c_stop timeout b = set_sda True (snd (SCL_H timeout (set_sda False b)))"

definition i2c_waitack :: "nat \<Rightarrow> i2c_line \<Rightarrow> int \<times> i2c_line" where
  "i2c_waitack timeout b =
     (let (r, b1) = SCL_H timeout (set_sda True b)
      in if r < 0 then (- RT_ETIMEOUT, b1) else (if \<not> line_sda b1 then 1 else 0, SCL_L b1))"

text \<open>The loop over the bits, from bit \<open>n - 1\<close> down to bit 0.\<close>

fun writeb_loop :: "nat \<Rightarrow> u8 \<Rightarrow> nat \<Rightarrow> i2c_line \<Rightarrow> rt_err \<times> i2c_line" where
  "writeb_loop timeout dat 0 b = (RT_EOK, b)"
| "writeb_loop timeout dat (Suc i) b =
     (let (r, b1) = SCL_H timeout (set_sda (bit dat i) (SCL_L b))
      in if r < 0 then (- RT_ETIMEOUT, b1) else writeb_loop timeout dat i b1)"

definition i2c_writeb :: "nat \<Rightarrow> u8 \<Rightarrow> i2c_line \<Rightarrow> int \<times> i2c_line" where
  "i2c_writeb timeout dat b =
     (let (r, b1) = writeb_loop timeout dat 8 b
      in if r < 0 then (r, b1) else i2c_waitack timeout (SCL_L b1))"

fun readb_loop :: "nat \<Rightarrow> nat \<Rightarrow> u8 \<Rightarrow> i2c_line \<Rightarrow> u8 option \<times> i2c_line" where
  "readb_loop timeout 0 dat b = (Some dat, b)"
| "readb_loop timeout (Suc i) dat b =
     (let (r, b1) = SCL_H timeout b
      in if r < 0 then (None, b1)
         else readb_loop timeout i (if line_sda b1 then push_bit 1 dat OR 1 else push_bit 1 dat) (SCL_L b1))"

text \<open>The result is the byte or, as a negative number in the code, the timeout.\<close>

definition i2c_readb :: "nat \<Rightarrow> i2c_line \<Rightarrow> u8 option \<times> i2c_line" where
  "i2c_readb timeout b = readb_loop timeout 8 0 (set_sda True b)"

definition i2c_send_ack_or_nack :: "nat \<Rightarrow> bool \<Rightarrow> i2c_line \<Rightarrow> rt_err \<times> i2c_line" where
  "i2c_send_ack_or_nack timeout ack b =
     (let (r, b1) = SCL_H timeout (if ack then set_sda False b else b)
      in if r < 0 then (- RT_ETIMEOUT, b1) else (RT_EOK, SCL_L b1))"

section \<open>Messages\<close>

abbreviation "RT_I2C_RD \<equiv> (1 :: u16)"
abbreviation "RT_I2C_ADDR_10BIT \<equiv> (4 :: u16)"
abbreviation "RT_I2C_NO_START \<equiv> (16 :: u16)"
abbreviation "RT_I2C_IGNORE_NACK \<equiv> (32 :: u16)"
abbreviation "RT_I2C_NO_READ_ACK \<equiv> (64 :: u16)"

text \<open>The length is that of the buffer, which a read fills.\<close>

record i2c_msg =
  msg_addr :: u16
  msg_flags :: u16
  msg_buf :: "u8 list"

fun send_loop :: "nat \<Rightarrow> bool \<Rightarrow> u8 list \<Rightarrow> int \<Rightarrow> i2c_line \<Rightarrow> int \<times> i2c_line" where
  "send_loop timeout ignore_nack [] bytes b = (bytes, b)"
| "send_loop timeout ignore_nack (c # cs) bytes b =
     (let (ret, b1) = i2c_writeb timeout c b
      in if ret > 0 \<or> (ignore_nack \<and> ret = 0) then send_loop timeout ignore_nack cs (bytes + 1) b1
         else if ret = 0 then (0, b1) else (ret, b1))"

definition i2c_send_bytes :: "nat \<Rightarrow> i2c_msg \<Rightarrow> i2c_line \<Rightarrow> int \<times> i2c_line" where
  "i2c_send_bytes timeout m b = send_loop timeout (has_flag (msg_flags m) RT_I2C_IGNORE_NACK) (msg_buf m) 0 b"

text \<open>\<open>old\<close> is the rest of the buffer, \<open>got\<close> the bytes stored in front of it.\<close>

fun recv_loop :: "nat \<Rightarrow> bool \<Rightarrow> u8 list \<Rightarrow> u8 list \<Rightarrow> i2c_line \<Rightarrow> int \<times> u8 list \<times> i2c_line" where
  "recv_loop timeout no_ack got [] b = (int (length got), got, b)"
| "recv_loop timeout no_ack got (_ # old) b =
     (let (v, b1) = i2c_readb timeout b
      in case v of
           None \<Rightarrow> (int (length got), got, b1)
         | Some d \<Rightarrow>
             if no_ack then recv_loop timeout no_ack (got @ [d]) old b1
             else let (r, b2) = i2c_send_ack_or_nack timeout (old \<noteq> []) b1
                  in if r < 0 then (r, got @ [d], b2) else recv_loop timeout no_ack (got @ [d]) old b2)"

definition i2c_recv_bytes :: "nat \<Rightarrow> i2c_msg \<Rightarrow> i2c_line \<Rightarrow> int \<times> i2c_msg \<times> i2c_line" where
  "i2c_recv_bytes timeout m b =
     (let (r, got, b1) = recv_loop timeout (has_flag (msg_flags m) RT_I2C_NO_READ_ACK) [] (msg_buf m) b
      in (r, m\<lparr>msg_buf := got @ drop (length got) (msg_buf m)\<rparr>, b1))"

text \<open>\<open>n\<close> retries are left.\<close>

fun i2c_send_address :: "nat \<Rightarrow> u8 \<Rightarrow> nat \<Rightarrow> i2c_line \<Rightarrow> int \<times> i2c_line" where
  "i2c_send_address timeout addr 0 b = i2c_writeb timeout addr b"
| "i2c_send_address timeout addr (Suc n) b =
     (let (ret, b1) = i2c_writeb timeout addr b
      in if ret = 1 then (ret, b1) else i2c_send_address timeout addr n (i2c_start (i2c_stop timeout b1)))"

definition i2c_bit_send_address :: "nat \<Rightarrow> nat \<Rightarrow> i2c_msg \<Rightarrow> i2c_line \<Rightarrow> rt_err \<times> i2c_line" where
  "i2c_bit_send_address timeout bus_retries m b =
     (let ignore_nack = has_flag (msg_flags m) RT_I2C_IGNORE_NACK;
          rd = has_flag (msg_flags m) RT_I2C_RD;
          retries = (if ignore_nack then 0 else bus_retries)
      in if has_flag (msg_flags m) RT_I2C_ADDR_10BIT
         then
           let addr1 = 0xf0 OR ucast (drop_bit 7 (msg_addr m) AND 0x06);
               addr2 = ucast (msg_addr m AND 0xff);
               (r1, b1) = i2c_send_address timeout addr1 retries b
           in if r1 \<noteq> 1 \<and> \<not> ignore_nack then (- RT_EIO, b1)
              else let (r2, b2) = i2c_writeb timeout addr2 b1
                   in if r2 \<noteq> 1 \<and> \<not> ignore_nack then (- RT_EIO, b2)
                      else if rd
                      then let (r3, b3) = i2c_send_address timeout (addr1 OR 1) retries (i2c_restart timeout b2)
                           in if r3 \<noteq> 1 \<and> \<not> ignore_nack then (- RT_EIO, b3) else (RT_EOK, b3)
                      else (RT_EOK, b2)
         else
           let addr1 = ucast (push_bit 1 (msg_addr m)) OR (if rd then 1 else 0);
               (r1, b1) = i2c_send_address timeout addr1 retries b
           in if r1 \<noteq> 1 \<and> \<not> ignore_nack then (- RT_EIO, b1) else (RT_EOK, b1))"

text \<open>The loop over the messages: \<open>i\<close> of them are done. The result is their number or an error.\<close>

definition msg_transfer :: "nat \<Rightarrow> i2c_msg \<Rightarrow> i2c_line \<Rightarrow> int option \<times> i2c_msg \<times> i2c_line" where
  "msg_transfer timeout m b =
     (if has_flag (msg_flags m) RT_I2C_RD
      then let (ret, m1, b1) = i2c_recv_bytes timeout m b
           in (if ret < int (length (msg_buf m)) then Some (if ret \<ge> 0 then - RT_EIO else ret) else None, m1, b1)
      else let (ret, b1) = i2c_send_bytes timeout m b
           in (if ret < int (length (msg_buf m)) then Some (if ret \<ge> 0 then - RT_ERROR else ret) else None, m, b1))"

fun xfer_loop :: "nat \<Rightarrow> nat \<Rightarrow> nat \<Rightarrow> i2c_msg list \<Rightarrow> i2c_line \<Rightarrow> int \<times> i2c_msg list \<times> i2c_line" where
  "xfer_loop timeout retries i [] b = (int i, [], b)"
| "xfer_loop timeout retries i (m # ms) b =
     (let ignore_nack = has_flag (msg_flags m) RT_I2C_IGNORE_NACK;
          (r, b1) = (if has_flag (msg_flags m) RT_I2C_NO_START then (RT_EOK, b)
                     else i2c_bit_send_address timeout retries m (if i \<noteq> 0 then i2c_restart timeout b else b))
      in if r \<noteq> RT_EOK \<and> \<not> ignore_nack then (r, m # ms, b1)
         else case msg_transfer timeout m b1 of
           (Some e, m1, b2) \<Rightarrow> (e, m1 # ms, b2)
         | (None, m1, b2) \<Rightarrow> (let (e, ms1, b3) = xfer_loop timeout retries (Suc i) ms b2 in (e, m1 # ms1, b3)))"

definition i2c_bit_xfer :: "nat \<Rightarrow> nat \<Rightarrow> i2c_msg list \<Rightarrow> i2c_line \<Rightarrow> int \<times> i2c_msg list \<times> i2c_line" where
  "i2c_bit_xfer timeout retries msgs b =
     (let (r, msgs1, b1) = xfer_loop timeout retries 0 msgs (i2c_start b) in (r, msgs1, i2c_stop timeout b1))"

text \<open>The length of a message is 16 bits wide, that of the following calls is not.\<close>

definition rt_i2c_master_send :: "nat \<Rightarrow> nat \<Rightarrow> u16 \<Rightarrow> u16 \<Rightarrow> u8 list \<Rightarrow> i2c_line \<Rightarrow> int \<times> i2c_line" where
  "rt_i2c_master_send timeout retries addr flags buf b =
     (let m = \<lparr>msg_addr = addr, msg_flags = flags AND RT_I2C_ADDR_10BIT, msg_buf = take (length buf mod 2 ^ 16) buf\<rparr>;
          (ret, ms, b1) = i2c_bit_xfer timeout retries [m] b
      in (if ret > 0 then int (length buf) else ret, b1))"

definition rt_i2c_master_recv :: "nat \<Rightarrow> nat \<Rightarrow> u16 \<Rightarrow> u16 \<Rightarrow> u8 list \<Rightarrow> i2c_line \<Rightarrow> int \<times> u8 list \<times> i2c_line" where
  "rt_i2c_master_recv timeout retries addr flags buf b =
     (let n = length buf mod 2 ^ 16;
          m = \<lparr>msg_addr = addr, msg_flags = (flags AND RT_I2C_ADDR_10BIT) OR RT_I2C_RD, msg_buf = take n buf\<rparr>;
          (ret, ms, b1) = i2c_bit_xfer timeout retries [m] b
      in (if ret > 0 then int (length buf) else ret, msg_buf (hd ms) @ drop n buf, b1))"

text \<open>\<^verbatim>\<open>stm32_i2c_bus_unlock\<close>: while the slave holds the data line, nine clocks; \<open>frees\<close> tells after which
  of them it lets go.\<close>

definition unlock_clock :: "bool \<Rightarrow> i2c_line \<Rightarrow> i2c_line" where
  "unlock_clock s b = SCL_L (move_lines (master_sda b \<and> s) True (b\<lparr>slave_sda := s\<rparr>))"

definition stm32_i2c_bus_unlock :: "bool list \<Rightarrow> i2c_line \<Rightarrow> rt_err \<times> i2c_line" where
  "stm32_i2c_bus_unlock frees b =
     (let b1 = (if \<not> line_sda b then fold unlock_clock frees b else b)
      in (if \<not> line_sda b1 then - RT_ERROR else RT_EOK, b1))"

section \<open>One clock\<close>

text \<open>The environment of a sequence of clocks: no clock is held low for too long, and this is what the slave
  does to the data line.\<close>

definition answers :: "nat \<Rightarrow> (nat \<times> bool) list \<Rightarrow> bool list \<Rightarrow> bool" where
  "answers timeout E ss \<longleftrightarrow> (\<forall>e \<in> set E. scl_wait timeout (fst e) 0) \<and> map snd E = ss"

lemma answers_append: "answers t E (xs @ ys) \<longleftrightarrow> (\<exists>E1 E2. E = E1 @ E2 \<and> answers t E1 xs \<and> answers t E2 ys)"
proof
  assume a: "answers t E (xs @ ys)"
  then obtain E1 E2 where "E = E1 @ E2" "map snd E1 = xs" "map snd E2 = ys"
    by (auto simp: answers_def map_eq_append_conv)
  then show "\<exists>E1 E2. E = E1 @ E2 \<and> answers t E1 xs \<and> answers t E2 ys" using a by (auto simp: answers_def)
qed (fastforce simp: answers_def)

lemma answers_Cons: "answers t E (s # ss) \<longleftrightarrow> (\<exists>p E2. E = (p, s) # E2 \<and> scl_wait t p 0 \<and> answers t E2 ss)"
  by (auto simp: answers_def map_eq_Cons_conv)

lemma answers_Nil: "answers t E [] \<longleftrightarrow> E = []"
  by (auto simp: answers_def)

lemmas answers_simps = answers_append answers_Cons answers_Nil

abbreviation low :: "bool \<Rightarrow> bool \<Rightarrow> bool \<Rightarrow> (nat \<times> bool) list \<Rightarrow> token list \<Rightarrow> i2c_line" where
  "low d m s E T \<equiv> \<lparr>line_sda = d, line_scl = False, master_sda = m, slave_sda = s, line_env = E, line_seen = T\<rparr>"

abbreviation high :: "bool \<Rightarrow> bool \<Rightarrow> bool \<Rightarrow> (nat \<times> bool) list \<Rightarrow> token list \<Rightarrow> i2c_line" where
  "high d m s E T \<equiv> \<lparr>line_sda = d, line_scl = True, master_sda = m, slave_sda = s, line_env = E, line_seen = T\<rparr>"

lemma line_steps:
  "SCL_L (high d m s E T) = low d m s E T" "SCL_L (low d m s E T) = low d m s E T"
  "set_sda v (low d m s E T) = low (v \<and> s) v s E T"
  "set_sda False (high True m True E T) = high False False True E (T @ [Start])"
  "set_sda True (high False m True E T) = high True True True E (T @ [Stop])"
  "scl_wait t p 0 \<Longrightarrow> SCL_H t (low d m s ((p, s') # E) T) = (RT_EOK, high (m \<and> s') m s' E (T @ [Bit (m \<and> s')]))"
  by (simp_all add: SCL_L_def set_sda_def SCL_H_def move_lines_def observed_def)

lemma RT_EOK_not_neg: "\<not> RT_EOK < 0"
  by (simp add: RT_EOK_def)

section \<open>Bytes\<close>

definition bits_of :: "u8 \<Rightarrow> bool list" where
  "bits_of w = map (bit w) (rev [0..<8])"

fun byte_of :: "bool list \<Rightarrow> u8 \<Rightarrow> u8" where
  "byte_of [] a = a"
| "byte_of (s # ss) a = byte_of ss (if s then push_bit 1 a OR 1 else push_bit 1 a)"

lemma byte_step:
  fixes a :: u8 and s :: bool
  defines "b \<equiv> (if s then push_bit 1 a OR 1 else push_bit 1 a)"
  shows "bit b 0 \<longleftrightarrow> s" "n < 7 \<Longrightarrow> bit b (Suc n) \<longleftrightarrow> bit a n"
proof -
  have pb: "bit (push_bit 1 a) m \<longleftrightarrow> 1 \<le> m \<and> m < LENGTH(8) \<and> bit a (m - 1)" for m by (rule bit_push_bit_iff [THEN trans]) auto
  show "bit b 0 \<longleftrightarrow> s" by (cases s) (simp_all only: b_def if_True if_False bit_or_iff pb bit_1_iff, auto)
  show "bit b (Suc n) \<longleftrightarrow> bit a n" if "n < 7"
    using that by (cases s) (simp_all only: b_def if_True if_False bit_or_iff pb bit_1_iff, auto)
qed

lemma bit_byte_of:
  "n < 8 \<Longrightarrow> bit (byte_of ss a) n \<longleftrightarrow> (if n < length ss then ss ! (length ss - 1 - n) else bit a (n - length ss))"
proof (induction ss arbitrary: a)
  case (Cons s ss)
  consider "n < length ss" | "n = length ss" | k where "n = Suc (length ss + k)"
    by (metis less_iff_Suc_add not_less_iff_gr_or_eq)
  then show ?case
  proof cases
    case 3
    then have "k < 7" using Cons.prems by simp
    then show ?thesis using 3 Cons byte_step(2) [of k s a] by simp
  qed (use Cons byte_step(1) [of s a] in \<open>simp_all add: nth_Cons'\<close>)
qed simp

lemma byte_of_bits: "byte_of (bits_of w) 0 = w"
  by (rule bit_word_eqI) (simp add: bit_byte_of bits_of_def rev_nth)

lemma length_bits [simp]: "length (bits_of w) = 8"
  by (simp add: bits_of_def)

lemma writeb_loop_run:
  assumes "answers t E (replicate (Suc n) True)"
  shows "writeb_loop t w (Suc n) (low d m s (E @ E2) T) =
    (RT_EOK, high (bit w 0) (bit w 0) True E2 (T @ map (\<lambda>i. Bit (bit w i)) (rev [0..<Suc n])))"
  using assms
proof (induction n arbitrary: E d m s T)
  case 0
  then show ?case by (auto simp: answers_simps line_steps RT_EOK_not_neg)
next
  case (Suc n)
  then obtain p E1 where E: "E = (p, True) # E1" "scl_wait t p 0" "answers t E1 (replicate (Suc n) True)"
    by (auto simp: answers_Cons)
  have "writeb_loop t w (Suc n) (high (bit w (Suc n)) (bit w (Suc n)) True (E1 @ E2) (T @ [Bit (bit w (Suc n))])) =
      writeb_loop t w (Suc n) (low (bit w (Suc n)) (bit w (Suc n)) True (E1 @ E2) (T @ [Bit (bit w (Suc n))]))"
    by (simp add: line_steps)
  then show ?case using E(1,2) Suc.IH [OF E(3)]
    by (simp only: writeb_loop.simps(2) [of t w "Suc n"]) (simp add: line_steps RT_EOK_not_neg del: writeb_loop.simps)
qed

lemma writeb_run:
  assumes "answers t E (replicate 8 True @ [\<not> ack])"
  shows "i2c_writeb t w (low d m s (E @ E2) T) =
    (if ack then 1 else 0, low (\<not> ack) True (\<not> ack) E2 (T @ map Bit (bits_of w) @ [Bit (\<not> ack)]))"
proof -
  obtain E1 p where E: "E = E1 @ [(p, \<not> ack)]" "answers t E1 (replicate (Suc 7) True)" "scl_wait t p 0"
    using assms by (auto simp: answers_simps)
  have "writeb_loop t w 8 (low d m s (E @ E2) T) =
      (RT_EOK, high (bit w 0) (bit w 0) True ((p, \<not> ack) # E2) (T @ map Bit (bits_of w)))"
    using writeb_loop_run [OF E(2), of w d m s "(p, \<not> ack) # E2" T] by (simp add: E(1) bits_of_def comp_def)
  then show ?thesis using E(3) by (auto simp: i2c_writeb_def i2c_waitack_def line_steps RT_EOK_not_neg)
qed

lemma readb_loop_run:
  assumes "answers t E ss" "length ss = n" "0 < n"
  shows "readb_loop t n a (low d True s (E @ E2) T) =
    (Some (byte_of ss a), low (last ss) True (last ss) E2 (T @ map Bit ss))"
  using assms
proof (induction ss arbitrary: n E a d s T)
  case (Cons x ss)
  then obtain p E1 k where E: "E = (p, x) # E1" "scl_wait t p 0" "answers t E1 ss" "n = Suc k" "length ss = k"
    by (auto simp: answers_Cons)
  show ?case
  proof (cases "ss = []")
    case True
    then show ?thesis using E by (simp add: line_steps RT_EOK_not_neg answers_Nil)
  next
    case False
    then have "0 < k" using E(5) by auto
    then show ?thesis using False E Cons.IH [OF E(3,5)] by (simp add: line_steps RT_EOK_not_neg)
  qed
qed simp

lemma readb_run:
  assumes "answers t E (bits_of w)"
  shows "i2c_readb t (low d m s (E @ E2) T) = (Some w, low (bit w 0) True (bit w 0) E2 (T @ map Bit (bits_of w)))"
proof -
  have "last (bits_of w) = bit w 0" by (simp add: bits_of_def upt_rec)
  then show ?thesis
    using readb_loop_run [OF assms, of 8 0 "True \<and> s" s E2 T] byte_of_bits by (simp add: i2c_readb_def line_steps)
qed

lemma ack_run:
  assumes "answers t E [True]"
  shows "i2c_send_ack_or_nack t ack (low d True s (E @ E2) T) = (RT_EOK, low (\<not> ack) (\<not> ack) True E2 (T @ [Bit (\<not> ack)]))"
  using assms by (auto simp: answers_simps i2c_send_ack_or_nack_def line_steps RT_EOK_not_neg)

lemma condition_runs:
  assumes "answers t E [True]"
  shows "i2c_stop t (low d m s (E @ E2) T) = high True True True E2 (T @ [Bit False, Stop])"
    "i2c_restart t (low d m s (E @ E2) T) = low False False True E2 (T @ [Bit True, Start])"
  using assms by (auto simp: answers_simps i2c_stop_def i2c_restart_def line_steps)

lemma start_run: "i2c_start (high True m True E T) = low False False True E (T @ [Start])"
  by (simp add: i2c_start_def line_steps)

section \<open>What is on the bus\<close>

text \<open>How a watcher reads the bus: the bits between a start condition and the next condition, without the
  clock that leads to the condition, are bytes of eight bits, first the highest, and an acknowledgement,
  which is a low bit.\<close>

fun between :: "token list \<Rightarrow> bool list option \<Rightarrow> bool list list" where
  "between [] cur = []"
| "between (Bit v # ts) cur = between ts (map_option (\<lambda>bs. bs @ [v]) cur)"
| "between (Start # ts) cur = (case cur of None \<Rightarrow> [] | Some bs \<Rightarrow> [butlast bs]) @ between ts (Some [])"
| "between (Stop # ts) cur = (case cur of None \<Rightarrow> [] | Some bs \<Rightarrow> [butlast bs]) @ between ts None"

function frames :: "bool list \<Rightarrow> (u8 \<times> bool) list" where
  "frames bs = (if length bs < 9 then [] else (byte_of (take 8 bs) 0, \<not> bs ! 8) # frames (drop 9 bs))"
  by auto
termination by (relation "measure length") auto

declare frames.simps [simp del]

definition decode :: "token list \<Rightarrow> (u8 \<times> bool) list list" where
  "decode ts = map frames (between ts None)"

lemma between_bits: "between (map Bit bs @ ts) (Some acc) = between ts (Some (acc @ bs))"
  by (induction bs arbitrary: acc) simp_all

definition framed :: "(u8 \<times> bool) list \<Rightarrow> bool list" where
  "framed fs = concat (map (\<lambda>(w, ack). bits_of w @ [\<not> ack]) fs)"

lemma frames_framed: "frames (framed fs) = fs"
proof (induction fs)
  case Nil
  then show ?case by (simp add: framed_def frames.simps)
next
  case (Cons f fs)
  then show ?case
    by (cases f) (simp add: framed_def frames.simps [of "bits_of _ @ _"] byte_of_bits nth_append)
qed

section \<open>Transfers\<close>

lemma send_loop_run:
  assumes "answers t E (concat (map (\<lambda>_. replicate 8 True @ [False]) cs))" "cs \<noteq> []"
  shows "send_loop t ig cs k (low d m s (E @ E2) T) =
    (k + int (length cs), low False True False E2 (T @ map Bit (framed (map (\<lambda>c. (c, True)) cs))))"
  using assms
proof (induction cs arbitrary: E d m s T k)
  case (Cons c cs)
  then obtain E1 E3 where E: "E = E1 @ E3" "answers t E1 (replicate 8 True @ [\<not> True])"
    "answers t E3 (concat (map (\<lambda>_. replicate 8 True @ [False]) cs))"
    by (auto simp del: append_assoc simp: answers_append [of _ _ "replicate 8 True @ [False]"])
  show ?case
  proof (cases "cs = []")
    case True
    then show ?thesis using E writeb_run [OF E(2), of c d m s E2 T] by (simp add: answers_Nil framed_def)
  next
    case False
    then show ?thesis using E writeb_run [OF E(2), of c d m s "E3 @ E2" T] Cons.IH [OF E(3)] by (simp add: framed_def)
  qed
qed simp

text \<open>The bytes of a read are acknowledged but for the last.\<close>

fun read_frames :: "u8 list \<Rightarrow> (u8 \<times> bool) list" where
  "read_frames [] = []"
| "read_frames (w # ws) = (w, ws \<noteq> []) # read_frames ws"

lemma recv_loop_run:
  assumes "answers t E (concat (map (\<lambda>w. bits_of w @ [True]) ws))" "length old = length ws" "ws \<noteq> []"
  shows "recv_loop t False got old (low d m s (E @ E2) T) =
    (int (length (got @ ws)), got @ ws, low True True True E2 (T @ map Bit (framed (read_frames ws))))"
  using assms
proof (induction ws arbitrary: E d m s T got old)
  case (Cons w ws)
  then obtain x old' where old: "old = x # old'" "length old' = length ws" by (cases old) auto
  obtain E1 p E4 where E: "E = E1 @ (p, True) # E4" "answers t E1 (bits_of w)" "scl_wait t p 0"
    "answers t E4 (concat (map (\<lambda>w. bits_of w @ [True]) ws))"
    using Cons.prems(1) by (auto simp: answers_append answers_Cons)
  have p: "answers t [(p, True)] [True]" using E(3) by (simp add: answers_def)
  have ack: "old' \<noteq> [] \<longleftrightarrow> ws \<noteq> []" using old(2) by auto
  show ?case
  proof (cases "ws = []")
    case True
    then show ?thesis
      using E readb_run [OF E(2), of d m s "(p, True) # E2" T] ack_run [OF p, of False _ _ E2] old(1) ack
      by (simp add: answers_Nil framed_def RT_EOK_not_neg)
  next
    case False
    then show ?thesis
      using E readb_run [OF E(2), of d m s "(p, True) # E4 @ E2" T] ack_run [OF p, of True _ _ "E4 @ E2"] old ack
        Cons.IH [OF E(4) old(2)]
      by (simp add: framed_def RT_EOK_not_neg)
  qed
qed simp

lemma send_address_run:
  assumes "answers t E (replicate 8 True @ [False])"
  shows "i2c_send_address t a n (low d m s (E @ E2) T) = (1, low False True False E2 (T @ map Bit (framed [(a, True)])))"
  using writeb_run [of t E True a d m s E2 T] assms by (cases n) (simp_all add: framed_def)

section \<open>Whole transfers\<close>

text \<open>Messages with 7-bit addresses, each with the bytes its slave sends; what the slave does to the data
  line when it acknowledges everything; what is to be seen of a message; and the message afterwards.\<close>

definition is_read :: "i2c_msg \<Rightarrow> bool" where
  "is_read m \<longleftrightarrow> has_flag (msg_flags m) RT_I2C_RD"

definition plain :: "i2c_msg \<times> u8 list \<Rightarrow> bool" where
  "plain p \<longleftrightarrow> msg_flags (fst p) \<in> {0, RT_I2C_RD} \<and> (is_read (fst p) \<longrightarrow> length (snd p) = length (msg_buf (fst p)))"

definition address_byte :: "i2c_msg \<Rightarrow> u8" where
  "address_byte m = ucast (push_bit 1 (msg_addr m)) OR (if is_read m then 1 else 0)"

abbreviation acked :: "bool list" where
  "acked \<equiv> replicate 8 True @ [False]"

abbreviation nacked :: "bool list" where
  "nacked \<equiv> replicate 8 True @ [True]"

definition data_answers :: "i2c_msg \<Rightarrow> u8 list \<Rightarrow> bool list" where
  "data_answers m ws = (if is_read m then concat (map (\<lambda>w. bits_of w @ [True]) ws) else concat (map (\<lambda>_. acked) (msg_buf m)))"

definition data_frames :: "i2c_msg \<Rightarrow> u8 list \<Rightarrow> (u8 \<times> bool) list" where
  "data_frames m ws = (if is_read m then read_frames ws else map (\<lambda>c. (c, True)) (msg_buf m))"

definition filled :: "i2c_msg \<times> u8 list \<Rightarrow> i2c_msg" where
  "filled p = (if is_read (fst p) then (fst p)\<lparr>msg_buf := snd p\<rparr> else fst p)"

definition msg_frames :: "i2c_msg \<times> u8 list \<Rightarrow> (u8 \<times> bool) list" where
  "msg_frames p = (address_byte (fst p), True) # data_frames (fst p) (snd p)"

fun xfer_answers :: "nat \<Rightarrow> (i2c_msg \<times> u8 list) list \<Rightarrow> bool list" where
  "xfer_answers i [] = []"
| "xfer_answers i (p # ps) = (if i \<noteq> 0 then [True] else []) @ acked @ data_answers (fst p) (snd p) @ xfer_answers (Suc i) ps"

fun xfer_tokens :: "nat \<Rightarrow> (i2c_msg \<times> u8 list) list \<Rightarrow> token list" where
  "xfer_tokens i [] = []"
| "xfer_tokens i (p # ps) = (if i \<noteq> 0 then [Bit True, Start] else []) @ map Bit (framed (msg_frames p)) @ xfer_tokens (Suc i) ps"

lemma plain_flags:
  assumes "plain p"
  shows "\<not> has_flag (msg_flags (fst p)) RT_I2C_ADDR_10BIT" "\<not> has_flag (msg_flags (fst p)) RT_I2C_NO_START"
    "\<not> has_flag (msg_flags (fst p)) RT_I2C_IGNORE_NACK" "\<not> has_flag (msg_flags (fst p)) RT_I2C_NO_READ_ACK"
  using assms by (auto simp: plain_def has_flag_def)

lemma framed_Cons: "framed (f # fs) = framed [f] @ framed fs"
  by (simp add: framed_def)

lemma data_run:
  assumes m: "plain (m, ws)" and E: "answers t E (data_answers m ws)"
  shows "\<exists>d' m' s'. msg_transfer t m (low d ms s (E @ E2) T) =
    (None, filled (m, ws), low d' m' s' E2 (T @ map Bit (framed (data_frames m ws))))"
proof (cases "is_read m")
  case True
  have len: "length (msg_buf m) = length ws" using m True by (simp add: plain_def)
  have na: "\<not> has_flag (msg_flags m) RT_I2C_NO_READ_ACK" using plain_flags(4) [OF m] by simp
  show ?thesis
  proof (cases "ws = []")
    case True
    then show ?thesis using \<open>is_read m\<close> E len
      by (simp add: msg_transfer_def is_read_def [symmetric] i2c_recv_bytes_def data_answers_def data_frames_def
        filled_def answers_Nil framed_def)
  next
    case False
    have "answers t E (concat (map (\<lambda>w. bits_of w @ [True]) ws))" using E True by (simp add: data_answers_def)
    from recv_loop_run [OF this len False, of "[]" d ms s E2 T] show ?thesis using True na len
      by (intro exI [of _ True]) (simp add: msg_transfer_def is_read_def [symmetric] i2c_recv_bytes_def data_frames_def filled_def)
  qed
next
  case False
  show ?thesis
  proof (cases "msg_buf m = []")
    case True
    then show ?thesis using False E
      by (simp add: msg_transfer_def is_read_def [symmetric] i2c_send_bytes_def data_answers_def data_frames_def
        filled_def answers_Nil framed_def)
  next
    case ne: False
    have "answers t E (concat (map (\<lambda>_. acked) (msg_buf m)))" using E False by (simp add: data_answers_def)
    from send_loop_run [OF this ne, of _ 0 d ms s E2 T] show ?thesis using False
      by (intro exI [of _ False] exI [of _ True]) (simp add: msg_transfer_def is_read_def [symmetric] i2c_send_bytes_def data_frames_def filled_def)
  qed
qed

lemma bit_send_address_run:
  assumes m: "plain (m, ws)" and E: "answers t E acked"
  shows "i2c_bit_send_address t r m (low d ms s (E @ E2) T) =
    (RT_EOK, low False True False E2 (T @ map Bit (framed [(address_byte m, True)])))"
  using plain_flags(1,3) [OF m] send_address_run [OF E]
  by (simp add: i2c_bit_send_address_def address_byte_def is_read_def Let_def)

lemma xfer_loop_run:
  assumes "\<forall>p \<in> set ps. plain p" "answers t E (xfer_answers i ps)"
  shows "\<exists>d' m' s'. xfer_loop t r i (map fst ps) (low d ms s (E @ E2) T) =
    (int (i + length ps), map filled ps, low d' m' s' E2 (T @ xfer_tokens i ps))"
  using assms
proof (induction ps arbitrary: i E d ms s T)
  case Nil
  then show ?case by (simp add: answers_Nil)
next
  case (Cons p ps)
  obtain m ws where p: "p = (m, ws)" by (cases p)
  have pl: "plain (m, ws)" using Cons.prems(1) p by simp
  obtain E0 E1 E3 E4 where E: "E = E0 @ E1 @ E3 @ E4" "answers t E0 (if i \<noteq> 0 then [True] else [])" "answers t E1 acked"
    "answers t E3 (data_answers m ws)" "answers t E4 (xfer_answers (Suc i) ps)"
    using Cons.prems(2) unfolding xfer_answers.simps p fst_conv snd_conv answers_append [of t _ acked]
      answers_append [of t _ "data_answers m ws"] answers_append [of t _ "if i \<noteq> 0 then [True] else []"] by blast
  obtain d0 m0 s0 where st: "(if i \<noteq> 0 then i2c_restart t (low d ms s (E @ E2) T) else low d ms s (E @ E2) T) =
      low d0 m0 s0 (E1 @ E3 @ E4 @ E2) (T @ (if i \<noteq> 0 then [Bit True, Start] else []))"
    using condition_runs(2) [of t E0 d ms s "E1 @ E3 @ E4 @ E2" T] E(1,2) by (cases "i = 0") (auto simp: answers_Nil)
  let ?T1 = "(T @ (if i \<noteq> 0 then [Bit True, Start] else [])) @ map Bit (framed [(address_byte m, True)])"
  obtain d1 m1 s1 where tr: "msg_transfer t m (low False True False (E3 @ E4 @ E2) ?T1) =
      (None, filled (m, ws), low d1 m1 s1 (E4 @ E2) (?T1 @ map Bit (framed (data_frames m ws))))"
    using data_run [OF pl E(4), of False True False "E4 @ E2" ?T1] by blast
  have ns: "\<not> has_flag (msg_flags m) RT_I2C_NO_START" using plain_flags(2) [OF pl] by simp
  have toks: "T @ xfer_tokens i (p # ps) = (?T1 @ map Bit (framed (data_frames m ws))) @ xfer_tokens (Suc i) ps"
    using framed_Cons [of "(address_byte m, True)" "data_frames m ws"] by (simp add: p msg_frames_def)
  have ih: "\<exists>d' m' s'. xfer_loop t r (Suc i) (map fst ps) (low d1 m1 s1 (E4 @ E2) (?T1 @ map Bit (framed (data_frames m ws)))) =
      (int (Suc i + length ps), map filled ps, low d' m' s' E2 (T @ xfer_tokens i (p # ps)))"
    unfolding toks by (rule Cons.IH [OF _ E(5)]) (use Cons.prems(1) in simp)
  have "(if has_flag (msg_flags m) RT_I2C_NO_START then (RT_EOK, low d ms s (E @ E2) T)
      else i2c_bit_send_address t r m (if i \<noteq> 0 then i2c_restart t (low d ms s (E @ E2) T) else low d ms s (E @ E2) T)) =
      (RT_EOK, low False True False (E3 @ E4 @ E2) ?T1)"
    unfolding st using ns bit_send_address_run [OF pl E(3)] by simp
  then have "xfer_loop t r i (map fst (p # ps)) (low d ms s (E @ E2) T) =
      (let (e, ms1, b3) = xfer_loop t r (Suc i) (map fst ps) (low d1 m1 s1 (E4 @ E2) (?T1 @ map Bit (framed (data_frames m ws))))
       in (e, filled p # ms1, b3))"
    using tr by (simp add: p)
  then show ?case using ih by (auto simp: Let_def)
qed

lemma between_xfer:
  "between (xfer_tokens (Suc i) ps @ [Bit False, Stop]) (Some acc) = acc # map (framed \<circ> msg_frames) ps"
proof (induction ps arbitrary: i acc)
  case (Cons p ps)
  then show ?case by (simp add: between_bits)
qed simp

lemma decode_xfer:
  "ps \<noteq> [] \<Longrightarrow> decode (Start # xfer_tokens 0 ps @ [Bit False, Stop]) = map msg_frames ps"
  by (cases ps) (simp_all add: decode_def between_bits between_xfer frames_framed comp_def)

text \<open>C31: with slaves that acknowledge everything and hold the clock for a bearable time, someone who
  watches the two lines reads from a transfer exactly its messages: after each start condition the
  address with the direction, then the bytes written, or those the slave sent, all acknowledged but the
  last one of a read; the reads get the bytes of the slave, and the bus is idle again.\<close>

theorem i2c_transfer_decoded:
  assumes ps: "\<forall>p \<in> set ps. plain p" "ps \<noteq> []" and E: "answers t E (xfer_answers 0 ps @ [True])"
  shows "\<exists>b'. i2c_bit_xfer t r (map fst ps) (high True m True (E @ E2) []) = (int (length ps), map filled ps, b') \<and>
    decode (line_seen b') = map msg_frames ps \<and> line_sda b' \<and> line_scl b' \<and> line_env b' = E2"
proof -
  obtain E1 E3 where E13: "E = E1 @ E3" "answers t E1 (xfer_answers 0 ps)" "answers t E3 [True]"
    using E by (auto simp: answers_append)
  obtain d' m' s' where run: "xfer_loop t r 0 (map fst ps) (low False False True (E1 @ E3 @ E2) [Start]) =
      (int (0 + length ps), map filled ps, low d' m' s' (E3 @ E2) ([Start] @ xfer_tokens 0 ps))"
    using xfer_loop_run [OF ps(1) E13(2), of r False False True "E3 @ E2" "[Start]"] by blast
  have "i2c_bit_xfer t r (map fst ps) (high True m True (E @ E2) []) =
      (int (length ps), map filled ps, high True True True E2 (Start # xfer_tokens 0 ps @ [Bit False, Stop]))"
    using run condition_runs(1) [OF E13(3)] by (simp add: i2c_bit_xfer_def start_run E13(1))
  then show ?thesis using decode_xfer [OF ps(2)] by simp
qed

section \<open>A slave that does not acknowledge\<close>

lemma between_retries:
  "between (concat (replicate a (map Bit (framed [f]) @ [Bit False, Stop, Start])) @ ts) (Some []) =
    replicate a (framed [f]) @ between ts (Some [])"
  by (induction a) (simp_all add: between_bits)

text \<open>An address that is refused some times is sent again.\<close>

lemma refused_address_run:
  assumes E: "answers t E (concat (replicate a (nacked @ [True])))" and a: "a \<le> r"
  shows "\<exists>d' s'. i2c_send_address t w r (low d m s (E @ E2) T) = i2c_send_address t w (r - a)
      (low d' (if a = 0 then m else False) s' E2 (T @ concat (replicate a (map Bit (framed [(w, False)]) @ [Bit False, Stop, Start]))))"
  using assms
proof (induction a arbitrary: r E d m s T)
  case 0
  then show ?case by (auto simp: answers_Nil)
next
  case (Suc a)
  then obtain r' where r: "r = Suc r'" "a \<le> r'" by (cases r) auto
  obtain E1 E3 E4 where E: "E = E1 @ E3 @ E4" "answers t E1 (replicate 8 True @ [\<not> False])" "answers t E3 [True]"
    "answers t E4 (concat (replicate a (nacked @ [True])))"
    using Suc.prems(1) unfolding replicate_Suc concat.simps answers_append [of t _ "nacked @ [True]"]
      answers_append [of t _ nacked "[True]"] by (auto simp del: append_assoc) auto
  let ?T = "T @ map Bit (framed [(w, False)]) @ [Bit False, Stop, Start]"
  have "i2c_send_address t w r (low d m s (E @ E2) T) = i2c_send_address t w r' (low False False True (E4 @ E2) ?T)"
    using writeb_run [OF E(2), of w d m s "E3 @ E4 @ E2" T] condition_runs(1) [OF E(3)]
    by (simp add: r(1) E(1) framed_def start_run)
  moreover obtain d' s' where "i2c_send_address t w r' (low False False True (E4 @ E2) ?T) = i2c_send_address t w (r' - a)
      (low d' (if a = 0 then False else False) s' E2 (?T @ concat (replicate a (map Bit (framed [(w, False)]) @ [Bit False, Stop, Start]))))"
    using Suc.IH [OF E(4) r(2), of False False True ?T] by blast
  ultimately show ?case using r(1) by auto
qed

lemma send_loop_refused:
  assumes "answers t E (concat (map (\<lambda>_. acked) cs) @ nacked)"
  shows "send_loop t False (cs @ c # rest) k (low d m s (E @ E2) T) =
    (0, low True True True E2 (T @ map Bit (framed (map (\<lambda>c. (c, True)) cs @ [(c, False)]))))"
  using assms
proof (induction cs arbitrary: E d m s T k)
  case Nil
  then show ?case using writeb_run [of t E False c d m s E2 T] by (simp add: framed_def)
next
  case (Cons c1 cs)
  obtain E1 E3 where E: "E = E1 @ E3" "answers t E1 (replicate 8 True @ [\<not> True])"
    "answers t E3 (concat (map (\<lambda>_. acked) cs) @ nacked)"
    using Cons.prems unfolding list.map concat.simps append_assoc [of acked] answers_append [of t _ acked] by auto
  show ?case using E writeb_run [OF E(2), of c1 d m s "E3 @ E2" T] Cons.IH [OF E(3)] by (simp add: framed_def)
qed

lemma decode_refused:
  "decode ([Start] @ concat (replicate a (map Bit (framed [f]) @ [Bit False, Stop, Start])) @ map Bit (framed fs) @ [Bit False, Stop]) =
    replicate a [f] @ [fs]"
  by (simp add: decode_def between_retries between_bits frames_framed)

lemma plain_write:
  assumes "plain (m, [])" "\<not> is_read m"
  shows "\<not> has_flag (msg_flags m) RT_I2C_ADDR_10BIT" "\<not> has_flag (msg_flags m) RT_I2C_NO_START"
    "\<not> has_flag (msg_flags m) RT_I2C_IGNORE_NACK" "\<not> has_flag (msg_flags m) RT_I2C_RD"
    "i2c_bit_send_address t r m b = (let (x, b1) = i2c_send_address t (address_byte m) r b
      in if x \<noteq> 1 then (- RT_EIO, b1) else (RT_EOK, b1))"
proof -
  show f: "\<not> has_flag (msg_flags m) RT_I2C_ADDR_10BIT" "\<not> has_flag (msg_flags m) RT_I2C_NO_START"
    "\<not> has_flag (msg_flags m) RT_I2C_IGNORE_NACK" "\<not> has_flag (msg_flags m) RT_I2C_RD"
    using plain_flags [OF assms(1)] assms(2) by (simp_all add: is_read_def)
  show "i2c_bit_send_address t r m b = (let (x, b1) = i2c_send_address t (address_byte m) r b
      in if x \<noteq> 1 then (- RT_EIO, b1) else (RT_EOK, b1))"
    using f by (simp add: i2c_bit_send_address_def address_byte_def is_read_def Let_def)
qed

text \<open>An address that is refused at every try.\<close>

lemma i2c_address_refused:
  assumes m: "plain (m, [])" "\<not> is_read m"
    and E: "answers t E (concat (replicate r (nacked @ [True])) @ nacked @ [True])"
  shows "\<exists>b'. i2c_bit_xfer t r [m] (high True ms True (E @ E2) []) = (- RT_EIO, [m], b') \<and>
    decode (line_seen b') = replicate (Suc r) [(address_byte m, False)] \<and> line_sda b' \<and> line_scl b'"
proof -
  let ?w = "address_byte m" and ?st = "low False False True"
  let ?R = "concat (replicate r (map Bit (framed [(?w, False)]) @ [Bit False, Stop, Start]))"
  obtain E1 E3 E4 where e: "E = E1 @ E3 @ E4" "answers t E1 (concat (replicate r (nacked @ [True])))"
    "answers t E3 (replicate 8 True @ [\<not> False])" "answers t E4 [True]"
    using E unfolding answers_append [of t _ "concat _"] answers_append [of t _ nacked] by auto
  obtain d' m' s' where a: "i2c_send_address t ?w r (?st (E @ E2) [Start]) =
      i2c_send_address t ?w 0 (low d' m' s' (E3 @ E4 @ E2) ([Start] @ ?R))"
    using refused_address_run [OF e(2) order.refl, of ?w False False True "E3 @ E4 @ E2" "[Start]"] e(1) by auto
  have "i2c_send_address t ?w r (?st (E @ E2) [Start]) =
      (0, low True True True (E4 @ E2) ([Start] @ ?R @ map Bit (framed [(?w, False)])))"
    unfolding a using writeb_run [OF e(3), of ?w d' m' s' "E4 @ E2"] by (simp add: framed_def)
  then have "i2c_bit_xfer t r [m] (high True ms True (E @ E2) []) =
      (- RT_EIO, [m], high True True True E2 ([Start] @ ?R @ map Bit (framed [(?w, False)]) @ [Bit False, Stop]))"
    using plain_write [OF m] condition_runs(1) [OF e(4)]
    by (simp add: i2c_bit_xfer_def start_run err_defs)
  moreover have "decode ([Start] @ ?R @ map Bit (framed [(?w, False)]) @ [Bit False, Stop]) = replicate (Suc r) [(?w, False)]"
    unfolding decode_refused by (simp add: replicate_append_same)
  ultimately show ?thesis by simp
qed

text \<open>C32: when the slave refuses the address some times, at most as often as there are retries, then takes
  it and some bytes of a write, and refuses the next byte, the transfer ends there with an error: what is to
  be seen on the bus are these tries and bytes, and the bus is idle again.\<close>

theorem i2c_refused_byte_ends_write:
  assumes m: "plain (m, [])" "\<not> is_read m" "msg_buf m = cs @ c # rest" and a: "a \<le> r"
    and E: "answers t E (concat (replicate a (nacked @ [True])) @ acked @ concat (map (\<lambda>_. acked) cs) @ nacked @ [True])"
  shows "\<exists>b'. i2c_bit_xfer t r [m] (high True ms True (E @ E2) []) = (- RT_ERROR, [m], b') \<and>
    decode (line_seen b') = replicate a [(address_byte m, False)] @
      [(address_byte m, True) # map (\<lambda>c. (c, True)) cs @ [(c, False)]] \<and> line_sda b' \<and> line_scl b'"
proof -
  let ?w = "address_byte m" and ?st = "low False False True" and ?fs = "map (\<lambda>c. (c, True)) cs @ [(c, False)]"
  let ?R = "concat (replicate a (map Bit (framed [(?w, False)]) @ [Bit False, Stop, Start]))"
  obtain E1 E3 F where f: "E = E1 @ E3 @ F" "answers t E1 (concat (replicate a (nacked @ [True])))" "answers t E3 acked"
    "answers t F (concat (map (\<lambda>_. acked) cs) @ nacked @ [True])"
    using E unfolding answers_append [of t _ "concat (replicate _ _)"] answers_append [of t _ acked] by auto
  have "answers t F ((concat (map (\<lambda>_. acked) cs) @ nacked) @ [True])" using f(4) by simp
  then obtain E4 E5 where e: "E = E1 @ E3 @ E4 @ E5" "answers t E1 (concat (replicate a (nacked @ [True])))"
    "answers t E3 acked" "answers t E4 (concat (map (\<lambda>_. acked) cs) @ nacked)" "answers t E5 [True]"
    using f unfolding answers_append [of t F "concat (map _ _) @ nacked"] by blast
  obtain d' m' s' where ad: "i2c_send_address t ?w r (?st (E @ E2) [Start]) =
      i2c_send_address t ?w (r - a) (low d' m' s' (E3 @ E4 @ E5 @ E2) ([Start] @ ?R))"
    using refused_address_run [OF e(2) a, of ?w False False True "E3 @ E4 @ E5 @ E2" "[Start]"] e(1) by auto
  have ad: "i2c_send_address t ?w r (?st (E @ E2) [Start]) =
      (1, low False True False (E4 @ E5 @ E2) (([Start] @ ?R) @ map Bit (framed [(?w, True)])))"
    unfolding ad by (rule send_address_run [OF e(3)])
  have "i2c_send_bytes t m (low False True False (E4 @ E5 @ E2) (([Start] @ ?R) @ map Bit (framed [(?w, True)]))) =
      (0, low True True True (E5 @ E2) ([Start] @ ?R @ map Bit (framed ((?w, True) # ?fs))))"
    using send_loop_refused [OF e(4), of c rest 0 False True False "E5 @ E2"] plain_write(3) [OF m(1,2)] m(3)
      framed_Cons [of "(?w, True)" ?fs]
    by (simp add: i2c_send_bytes_def)
  then have "i2c_bit_xfer t r [m] (high True ms True (E @ E2) []) =
      (- RT_ERROR, [m], high True True True E2 ([Start] @ ?R @ map Bit (framed ((?w, True) # ?fs)) @ [Bit False, Stop]))"
    using plain_write [OF m(1,2)] condition_runs(1) [OF e(5)] ad m(3)
    by (simp add: i2c_bit_xfer_def start_run err_defs msg_transfer_def)
  then show ?thesis using decode_refused [of a "(?w, False)" "(?w, True) # ?fs"] by simp
qed

section \<open>Examples\<close>

lemma answers_prompt: "answers t (map (Pair 0) ss) ss"
  by (simp add: answers_def comp_def)

text \<open>Register 0x75 of the device 0x68 is written and the answer read, which is 0x68.\<close>

definition demo_xfer :: "(i2c_msg \<times> u8 list) list" where
  "demo_xfer = [(\<lparr>msg_addr = 0x68, msg_flags = 0, msg_buf = [0x75]\<rparr>, []), (\<lparr>msg_addr = 0x68, msg_flags = 1, msg_buf = [0]\<rparr>, [0x68])]"

lemma demo_plain: "\<forall>p \<in> set demo_xfer. plain p" "demo_xfer \<noteq> []"
  by (simp_all add: demo_xfer_def plain_def is_read_def has_flag_def)

lemma i2c_transfer_decoded_witness:
  "\<exists>b'. i2c_bit_xfer 100 0 (map fst demo_xfer) (high True True True (map (Pair 0) (xfer_answers 0 demo_xfer @ [True])) []) =
      (2, map filled demo_xfer, b') \<and> msg_buf (filled (demo_xfer ! 1)) = [0x68] \<and>
    decode (line_seen b') = [[(0xd0, True), (0x75, True)], [(0xd1, True), (0x68, False)]]"
proof -
  have f: "map msg_frames demo_xfer = [[(0xd0, True), (0x75, True)], [(0xd1, True), (0x68, False)]]"
    "msg_buf (filled (demo_xfer ! 1)) = [0x68]"
    by (simp_all add: demo_xfer_def msg_frames_def address_byte_def data_frames_def is_read_def has_flag_def filled_def)
  have l: "int (length demo_xfer) = 2" by (simp add: demo_xfer_def)
  show ?thesis
    using i2c_transfer_decoded [OF demo_plain answers_prompt, of 100 0 True "[]"] f l by auto
qed

text \<open>The address is refused once, the second byte for good.\<close>

definition demo_refusals :: "(nat \<times> bool) list" where
  "demo_refusals = map (Pair 0) (concat (replicate 1 (nacked @ [True])) @ acked @ concat (map (\<lambda>_. acked) [0x6b :: u8]) @ nacked @ [True])"

lemma i2c_refused_byte_ends_write_witness:
  "\<exists>b'. i2c_bit_xfer 100 2 [\<lparr>msg_addr = 0x68, msg_flags = 0, msg_buf = [0x6b, 0x80, 0x07]\<rparr>] (high True True True (demo_refusals @ []) []) =
      (- RT_ERROR, [\<lparr>msg_addr = 0x68, msg_flags = 0, msg_buf = [0x6b, 0x80, 0x07]\<rparr>], b') \<and>
    decode (line_seen b') = [[(0xd0, False)], [(0xd0, True), (0x6b, True), (0x80, False)]]"
proof -
  let ?m = "\<lparr>msg_addr = 0x68, msg_flags = 0, msg_buf = [0x6b, 0x80, 0x07]\<rparr>"
  have m: "plain (?m, [])" "\<not> is_read ?m" "msg_buf ?m = [0x6b] @ 0x80 # [0x07]" "(1 :: nat) \<le> 2" "address_byte ?m = 0xd0"
    by (simp_all add: plain_def is_read_def has_flag_def address_byte_def)
  have E: "answers 100 demo_refusals (concat (replicate 1 (nacked @ [True])) @ acked @ concat (map (\<lambda>_. acked) [0x6b :: u8]) @ nacked @ [True])"
    unfolding demo_refusals_def by (rule answers_prompt)
  show ?thesis
    using i2c_refused_byte_ends_write [OF m(1-4) E, of True "[]"] unfolding m(5) by auto
qed

section \<open>How long the master waits\<close>

text \<open>With a timeout of at least one tick the clock may be found low at most three times.\<close>

lemma scl_wait_all: "scl_wait t p el \<longleftrightarrow> (\<forall>j < p. el + j * ((t + 1) div 2) \<le> t)"
proof (induction p arbitrary: el)
  case (Suc p)
  then show ?case by (auto simp: All_less_Suc2 add.assoc)
qed simp

lemma scl_wait_bound:
  assumes "0 < t"
  shows "scl_wait t p 0 \<longleftrightarrow> p \<le> (if even t then 3 else 2)"
proof -
  let ?h = "(t + 1) div 2"
  have "scl_wait t p 0 \<longleftrightarrow> p = 0 \<or> (p - 1) * ?h \<le> t"
    unfolding scl_wait_all by (cases p) (auto intro: order_trans [OF mult_le_mono1] simp: less_Suc_eq_le)
  moreover have "(p - 1) * ?h \<le> t \<longleftrightarrow> p - 1 \<le> (if even t then 2 else 1)"
  proof (cases "even t")
    case True
    then obtain k where k: "t = 2 * k" "0 < k" using assms by (auto elim!: evenE)
    then have "(p - 1) * ?h \<le> t \<longleftrightarrow> (p - 1) * k \<le> 2 * k" by simp
    then show ?thesis using True k(2) by (simp only: mult_le_cancel2) simp
  next
    case False
    then obtain k where k: "t = 2 * k + 1" by (auto elim!: oddE)
    have "(p - 1) * (k + 1) \<le> 2 * k + 1 \<longleftrightarrow> (p - 1) * (k + 1) < 2 * (k + 1)" by auto
    also have "\<dots> \<longleftrightarrow> p - 1 < 2" by (simp only: mult_less_cancel2) simp
    finally show ?thesis using False k by auto
  qed
  ultimately show ?thesis by auto
qed

section \<open>A bus that was unlocked\<close>

text \<open>\<^verbatim>\<open>stm32_i2c_bus_unlock\<close> ends with the clock low. The start condition of the first transfer after it
  is none: the data line falls while the clock is low.\<close>

lemma unlock_hides_start:
  assumes "\<not> line_sda b" "master_sda b" "length frees = 9" "last frees"
  shows "\<exists>b'. stm32_i2c_bus_unlock frees b = (RT_EOK, b') \<and> \<not> line_scl b' \<and> line_sda b' \<and>
    line_seen (i2c_start b') = line_seen b'"
proof -
  have f: "master_sda (fold unlock_clock fs b0) = master_sda b0" for fs b0
    by (induction fs arbitrary: b0) (simp_all add: unlock_clock_def SCL_L_def move_lines_def)
  obtain fs where fs: "frees = fs @ [True]" using assms(3,4) by (cases frees rule: rev_cases) auto
  let ?b = "unlock_clock True (fold unlock_clock fs b)"
  have "\<not> line_scl ?b" "line_sda ?b"
    using f [of fs b] assms(2) by (simp_all add: unlock_clock_def SCL_L_def move_lines_def)
  moreover have "stm32_i2c_bus_unlock frees b = (RT_EOK, ?b)"
    using assms(1) calculation(2) by (simp add: stm32_i2c_bus_unlock_def fs)
  moreover have "line_seen (i2c_start ?b) = line_seen ?b"
    using calculation(1) by (simp add: i2c_start_def set_sda_def SCL_L_def move_lines_def observed_def)
  ultimately show ?thesis by blast
qed

text \<open>A buffer of 65536 bytes is announced as sent although nothing but the address was.\<close>

lemma long_send_truncated:
  assumes "length buf = 2 ^ 16"
  shows "rt_i2c_master_send t r addr 0 buf b =
    (let (ret, ms, b1) = i2c_bit_xfer t r [\<lparr>msg_addr = addr, msg_flags = 0, msg_buf = []\<rparr>] b
     in (if ret > 0 then int (length buf) else ret, b1))"
  using assms by (simp add: rt_i2c_master_send_def)

end
