(* ===== verification/Pwm.thy ===== *)
theory Pwm
  imports Device
begin

text \<open>
  The PWM outputs that drive the wheels: \<^verbatim>\<open>components/drivers/misc/rt_drv_pwm.c\<close> and the timer driver below
  it, \<^verbatim>\<open>libraries/HAL_Drivers/drv_pwm.c\<close>, with the register accesses of the HAL written out
  (\<^verbatim>\<open>stm32l4xx_hal_tim.c\<close> and \<^verbatim>\<open>.h\<close>). A timer is the record \<open>tim\<close> of its registers, each 32 bits wide as in
  \<^verbatim>\<open>TIM_TypeDef\<close>; the numbers the driver computes keep their widths. The two bus clocks in Hz,
  \<^verbatim>\<open>HAL_RCC_GetPCLK1Freq\<close> and \<^verbatim>\<open>HAL_RCC_GetPCLK2Freq\<close>, are an argument. A division by zero is \<open>None\<close>.
\<close>

section \<open>Timers\<close>

type_synonym u64 = "64 word"

record tim =
  tim_no :: nat  \<comment> \<open>\<open>Instance\<close>: TIM1, TIM2, ...\<close>
  tim_cr1 :: u32
  tim_smcr :: u32
  tim_egr :: u32
  tim_ccer :: u32
  tim_cnt :: u32
  tim_psc :: u32
  tim_arr :: u32
  tim_bdtr :: u32
  tim_ccr :: "nat \<Rightarrow> u32"
  init_period :: u32  \<comment> \<open>\<open>Init.Period\<close>\<close>
  tim_locked :: bool

record clocks =
  pclk1 :: u32
  pclk2 :: u32

record pwm_configuration =
  pc_channel :: u32
  pc_period :: u32
  pc_pulse :: u32

abbreviation (input) "TIM_CR1_CEN \<equiv> (0x1 :: u32)"
abbreviation (input) "TIM_CR1_CKD \<equiv> (0x300 :: u32)"
abbreviation (input) "TIM_CLOCKDIVISION_DIV2 \<equiv> (0x100 :: u32)"
abbreviation (input) "TIM_CLOCKDIVISION_DIV4 \<equiv> (0x200 :: u32)"
abbreviation (input) "TIM_BDTR_MOE \<equiv> (0x8000 :: u32)"
abbreviation (input) "TIM_SMCR_SMS \<equiv> (0x10007 :: u32)"
abbreviation (input) "TIM_CCER_CCxE_MASK \<equiv> (0x1111 :: u32)"
abbreviation (input) "TIM_CCER_CCxNE_MASK \<equiv> (0x444 :: u32)"
abbreviation (input) "TIM_EVENTSOURCE_UPDATE \<equiv> (1 :: u32)"
abbreviation (input) "MAX_PERIOD \<equiv> (65535 :: u32)"
abbreviation (input) "MIN_PERIOD \<equiv> (3 :: u32)"
abbreviation (input) "MIN_PULSE \<equiv> (2 :: u32)"
abbreviation (input) "PWM_CMD_ENABLE \<equiv> (128 :: nat)"
abbreviation (input) "PWM_CMD_DISABLE \<equiv> (129 :: nat)"
abbreviation (input) "PWM_CMD_SET \<equiv> (130 :: nat)"
abbreviation (input) "PWM_CMD_GET \<equiv> (131 :: nat)"

text \<open>The compare register the HAL takes for a channel: 6 for all it does not know.\<close>

definition ccr_of :: "u32 \<Rightarrow> nat" where
  "ccr_of ch = (if ch = 0 then 1 else if ch = 4 then 2 else if ch = 8 then 3 else if ch = 0xC then 4
                else if ch = 0x10 then 5 else 6)"

definition HAL_TIM_SET_COMPARE :: "u32 \<Rightarrow> u32 \<Rightarrow> tim \<Rightarrow> tim" where
  "HAL_TIM_SET_COMPARE ch v t = t\<lparr>tim_ccr := (tim_ccr t)(ccr_of ch := v)\<rparr>"

definition HAL_TIM_GET_COMPARE :: "u32 \<Rightarrow> tim \<Rightarrow> u32" where
  "HAL_TIM_GET_COMPARE ch t = tim_ccr t (ccr_of ch)"

definition HAL_TIM_SET_AUTORELOAD :: "u32 \<Rightarrow> tim \<Rightarrow> tim" where
  "HAL_TIM_SET_AUTORELOAD v t = t\<lparr>tim_arr := v, init_period := v\<rparr>"

definition HAL_TIM_GenerateEvent :: "u32 \<Rightarrow> tim \<Rightarrow> tim" where
  "HAL_TIM_GenerateEvent src t = (if tim_locked t then t else t\<lparr>tim_egr := src\<rparr>)"

definition TIM_CCxChannelCmd :: "u32 \<Rightarrow> u32 \<Rightarrow> tim \<Rightarrow> tim" where
  "TIM_CCxChannelCmd ch state t =
     (let n = unat (ch AND 0x1F);
          r = tim_ccer t AND NOT (push_bit n 1)
      in t\<lparr>tim_ccer := r OR push_bit n state\<rparr>)"

definition has_break :: "tim \<Rightarrow> bool" where
  "has_break t \<longleftrightarrow> tim_no t \<in> {1, 8, 15, 16, 17}"

definition slave_triggered :: "tim \<Rightarrow> bool" where
  "slave_triggered t \<longleftrightarrow> tim_smcr t AND TIM_SMCR_SMS = 6 \<or> tim_smcr t AND TIM_SMCR_SMS = 0x10000"

definition no_channel_on :: "tim \<Rightarrow> bool" where
  "no_channel_on t \<longleftrightarrow> tim_ccer t AND TIM_CCER_CCxE_MASK = 0 \<and> tim_ccer t AND TIM_CCER_CCxNE_MASK = 0"

definition HAL_TIM_PWM_Start :: "u32 \<Rightarrow> tim \<Rightarrow> tim" where
  "HAL_TIM_PWM_Start ch t =
     (let t1 = TIM_CCxChannelCmd ch 1 t;
          t2 = (if has_break t1 then t1\<lparr>tim_bdtr := tim_bdtr t1 OR TIM_BDTR_MOE\<rparr> else t1)
      in if slave_triggered t2 then t2 else t2\<lparr>tim_cr1 := tim_cr1 t2 OR TIM_CR1_CEN\<rparr>)"

definition HAL_TIM_PWM_Stop :: "u32 \<Rightarrow> tim \<Rightarrow> tim" where
  "HAL_TIM_PWM_Stop ch t =
     (let t1 = TIM_CCxChannelCmd ch 0 t;
          t2 = (if has_break t1 \<and> no_channel_on t1 then t1\<lparr>tim_bdtr := tim_bdtr t1 AND NOT TIM_BDTR_MOE\<rparr>
                else t1)
      in if no_channel_on t2 then t2\<lparr>tim_cr1 := tim_cr1 t2 AND NOT TIM_CR1_CEN\<rparr> else t2)"

section \<open>The timer driver\<close>

definition pwm_hal_channel :: "pwm_configuration \<Rightarrow> u32" where
  "pwm_hal_channel c = 4 * (pc_channel c - 1)"

text \<open>The clock of the timer in MHz.\<close>

definition pwm_tim_clock :: "clocks \<Rightarrow> tim \<Rightarrow> u64" where
  "pwm_tim_clock ck t =
     (if tim_no t = 15 \<or> tim_no t = 16 \<or> tim_no t = 17 then ucast (pclk2 ck * 2) else ucast (pclk1 ck))"

definition drv_pwm_enable :: "pwm_configuration \<Rightarrow> bool \<Rightarrow> tim \<Rightarrow> rt_err \<times> tim" where
  "drv_pwm_enable c enable t =
     (let ch = pwm_hal_channel c
      in if \<not> enable then (RT_EOK, HAL_TIM_PWM_Stop ch t) else (RT_EOK, HAL_TIM_PWM_Start ch t))"

definition drv_pwm_get :: "clocks \<Rightarrow> pwm_configuration \<Rightarrow> tim \<Rightarrow> (rt_err \<times> pwm_configuration) option" where
  "drv_pwm_get ck c t =
     (let ch = pwm_hal_channel c;
          f0 = pwm_tim_clock ck t;
          f1 = (if tim_cr1 t AND TIM_CR1_CKD = TIM_CLOCKDIVISION_DIV2 then f0 div 2
                else if tim_cr1 t AND TIM_CR1_CKD = TIM_CLOCKDIVISION_DIV4 then f0 div 4 else f0);
          f = f1 div 1000000
      in if f = 0 then None
         else Some (RT_EOK, c\<lparr>
           pc_period := ucast (ucast ((tim_arr t + 1) * (tim_psc t + 1) * 1000) div f),
           pc_pulse := ucast (ucast ((HAL_TIM_GET_COMPARE ch t + 1) * (tim_psc t + 1) * 1000) div f)\<rparr>))"

definition drv_pwm_set :: "clocks \<Rightarrow> pwm_configuration \<Rightarrow> tim \<Rightarrow> rt_err \<times> tim" where
  "drv_pwm_set ck c t =
     (let ch = pwm_hal_channel c;
          f = pwm_tim_clock ck t div 1000000;
          p0 = ucast (ucast (pc_period c) * f div 1000) :: u32;
          psc = ucast (p0 div MAX_PERIOD + 1) :: u64;
          p1 = ucast (ucast p0 div psc) :: u32;
          t1 = t\<lparr>tim_psc := ucast (psc - 1)\<rparr>;
          p = (if p1 < MIN_PERIOD then MIN_PERIOD else p1);
          t2 = HAL_TIM_SET_AUTORELOAD (p - 1) t1;
          w0 = ucast (ucast (pc_pulse c) * f div psc div 1000) :: u32;
          w = (if w0 < MIN_PULSE then MIN_PULSE else if w0 > p then p else w0);
          t3 = HAL_TIM_SET_COMPARE ch (w - 1) t2;
          t4 = t3\<lparr>tim_cnt := 0\<rparr>
      in (RT_EOK, HAL_TIM_GenerateEvent TIM_EVENTSOURCE_UPDATE t4))"

text \<open>A control call leaves its result in the configuration it is given.\<close>

definition drv_pwm_control ::
    "clocks \<Rightarrow> nat \<Rightarrow> pwm_configuration \<Rightarrow> tim \<Rightarrow> (rt_err \<times> pwm_configuration \<times> tim) option" where
  "drv_pwm_control ck cmd c t =
     (if cmd = PWM_CMD_ENABLE then (case drv_pwm_enable c True t of (r, t') \<Rightarrow> Some (r, c, t'))
      else if cmd = PWM_CMD_DISABLE then (case drv_pwm_enable c False t of (r, t') \<Rightarrow> Some (r, c, t'))
      else if cmd = PWM_CMD_SET then (case drv_pwm_set ck c t of (r, t') \<Rightarrow> Some (r, c, t'))
      else if cmd = PWM_CMD_GET then map_option (\<lambda>(r, c'). (r, c', t)) (drv_pwm_get ck c t)
      else Some (RT_EINVAL, c, t))"

section \<open>The device\<close>

text \<open>The operations a driver offers (\<^verbatim>\<open>struct rt_pwm_ops\<close>), over a driver state \<open>'t\<close>, and the entries of
  the device that \<^verbatim>\<open>rt_device_pwm_register\<close> sets. A configuration on the stack starts zeroed.\<close>

record 't pwm_ops =
  pwm_op_control :: "(nat \<Rightarrow> pwm_configuration \<Rightarrow> 't \<Rightarrow> (rt_err \<times> pwm_configuration \<times> 't) option) option"

abbreviation "pwm_config0 \<equiv> \<lparr>pc_channel = 0, pc_period = 0, pc_pulse = 0\<rparr>"

definition pwm_control ::
    "'t pwm_ops \<Rightarrow> nat \<Rightarrow> pwm_configuration \<Rightarrow> 't \<Rightarrow> (rt_err \<times> pwm_configuration \<times> 't) option" where
  "pwm_control ops cmd c t =
     (case pwm_op_control ops of Some f \<Rightarrow> f cmd c t | None \<Rightarrow> Some (RT_EOK, c, t))"

text \<open>The pulse read, if one is stored; the count returned is \<open>size\<close> or 0.\<close>

definition pwm_read :: "'t pwm_ops \<Rightarrow> u32 \<Rightarrow> nat \<Rightarrow> 't \<Rightarrow> (u32 option \<times> nat \<times> 't) option" where
  "pwm_read ops pos sz t =
     (case pwm_op_control ops of
        Some f \<Rightarrow> do {
          (r, c, t1) \<leftarrow> f PWM_CMD_GET (pwm_config0\<lparr>pc_channel := pos\<rparr>) t;
          if r \<noteq> RT_EOK then Some (None, 0, t1) else Some (Some (pc_pulse c), sz, t1)
        }
      | None \<Rightarrow> Some (None, sz, t))"

definition pwm_write :: "'t pwm_ops \<Rightarrow> u32 \<Rightarrow> u32 \<Rightarrow> nat \<Rightarrow> 't \<Rightarrow> (nat \<times> 't) option" where
  "pwm_write ops pos pulse sz t =
     (case pwm_op_control ops of
        Some f \<Rightarrow> do {
          (r, c, t1) \<leftarrow> f PWM_CMD_GET (pwm_config0\<lparr>pc_channel := pos\<rparr>) t;
          if r \<noteq> RT_EOK then Some (0, t1)
          else do {
            (r, c, t2) \<leftarrow> f PWM_CMD_SET (c\<lparr>pc_pulse := pulse\<rparr>) t1;
            if r \<noteq> RT_EOK then Some (0, t2) else Some (sz, t2)
          }
        }
      | None \<Rightarrow> Some (sz, t))"

text \<open>The calls of the application; the device is null or has operations. \<^verbatim>\<open>rt_device_control\<close> calls
  \<^verbatim>\<open>_pwm_control\<close>, which registering has set.\<close>

definition pwm_call :: "nat \<Rightarrow> pwm_configuration \<Rightarrow> 't pwm_ops option \<Rightarrow> 't \<Rightarrow> (rt_err \<times> 't) option" where
  "pwm_call cmd c device t =
     (case device of
        None \<Rightarrow> Some (- RT_EIO, t)
      | Some ops \<Rightarrow> map_option (\<lambda>(r, c', t'). (r, t')) (pwm_control ops cmd c t))"

definition rt_pwm_enable :: "'t pwm_ops option \<Rightarrow> u32 \<Rightarrow> 't \<Rightarrow> (rt_err \<times> 't) option" where
  "rt_pwm_enable device channel = pwm_call PWM_CMD_ENABLE (pwm_config0\<lparr>pc_channel := channel\<rparr>) device"

definition rt_pwm_disable :: "'t pwm_ops option \<Rightarrow> u32 \<Rightarrow> 't \<Rightarrow> (rt_err \<times> 't) option" where
  "rt_pwm_disable device channel = pwm_call PWM_CMD_DISABLE (pwm_config0\<lparr>pc_channel := channel\<rparr>) device"

definition rt_pwm_set :: "'t pwm_ops option \<Rightarrow> u32 \<Rightarrow> u32 \<Rightarrow> u32 \<Rightarrow> 't \<Rightarrow> (rt_err \<times> 't) option" where
  "rt_pwm_set device channel period pulse =
     pwm_call PWM_CMD_SET \<lparr>pc_channel = channel, pc_period = period, pc_pulse = pulse\<rparr> device"

definition stm32_pwm_ops :: "clocks \<Rightarrow> tim pwm_ops" where
  "stm32_pwm_ops ck = \<lparr>pwm_op_control = Some (drv_pwm_control ck)\<rparr>"

text \<open>The timer of a PWM device after its initialisation, and the clocks of the board
  (\<^verbatim>\<open>SystemClock_Config\<close>: 80 MHz on both buses).\<close>

definition tim_reset :: "nat \<Rightarrow> tim" where
  "tim_reset n = \<lparr>tim_no = n, tim_cr1 = 4, tim_smcr = 0, tim_egr = 1, tim_ccer = 0, tim_cnt = 0, tim_psc = 0,
     tim_arr = 0, tim_bdtr = 0, tim_ccr = (\<lambda>_. 0), init_period = 0, tim_locked = False\<rparr>"

definition board_clocks :: clocks where
  "board_clocks = \<lparr>pclk1 = 80000000, pclk2 = 80000000\<rparr>"

lemmas pwm_call_defs = rt_pwm_set_def rt_pwm_enable_def rt_pwm_disable_def pwm_call_def pwm_control_def
  stm32_pwm_ops_def drv_pwm_control_def

lemmas tim_defs = HAL_TIM_SET_AUTORELOAD_def HAL_TIM_SET_COMPARE_def HAL_TIM_GET_COMPARE_def
  HAL_TIM_GenerateEvent_def


section \<open>What is set\<close>

text \<open>In numbers: \<open>n\<close> ns are \<open>n * f div 1000\<close> clocks at \<open>f\<close> MHz, the counter gets the smallest prescaler
  with which they fit.\<close>

definition clocks_of :: "nat \<Rightarrow> nat \<Rightarrow> nat" where
  "clocks_of f n = n * f div 1000"

definition period_counts :: "nat \<Rightarrow> nat \<Rightarrow> nat" where
  "period_counts f n = max 3 (clocks_of f n div (clocks_of f n div 65535 + 1))"

definition pulse_counts :: "nat \<Rightarrow> nat \<Rightarrow> nat \<Rightarrow> nat" where
  "pulse_counts f n m = max 2 (min (period_counts f n) (m * f div (clocks_of f n div 65535 + 1) div 1000))"

definition pwm_mhz :: "clocks \<Rightarrow> tim \<Rightarrow> nat" where
  "pwm_mhz ck t = unat (pwm_tim_clock ck t div 1000000)"

lemma counts_fit: "x div (x div 65535 + 1) < (65535 :: nat)"
proof -
  have "x < 65535 * (x div 65535 + 1)"
    using mod_less_divisor [of 65535 x] div_mult_mod_eq [of x 65535] by simp
  then show ?thesis by (simp add: less_mult_imp_div_less mult.commute)
qed

lemma period_counts_bounds: "3 \<le> period_counts f n" "period_counts f n < 65535"
  using counts_fit [of "clocks_of f n"] by (auto simp: period_counts_def)

lemma pulse_counts_bounds: "2 \<le> pulse_counts f n m" "pulse_counts f n m \<le> period_counts f n"
  using period_counts_bounds [of f n] by (auto simp: pulse_counts_def)

lemma unat_widen: "unat (ucast (x :: u32) :: u64) = unat x"
  using unsigned_less [of x, where 'a = nat] by (simp add: unsigned_ucast_eq take_bit_nat_eq_self)

lemma unat_narrow: "unat (ucast (x :: u64) :: u32) = unat x" if "unat x < 2 ^ 32"
  using that by (simp add: unsigned_ucast_eq take_bit_nat_eq_self)

lemma unat_pred: "unat (x - 1) = unat x - 1" if "0 < unat (x :: 'a::len word)"
  using that by (intro unat_minus_one) auto

lemma clocks_of_u32: "clocks_of f (unat (n :: u32)) < 2 ^ 32" if "f < 1000"
proof -
  have "unat n * f \<le> unat n * 1000" using that by (intro mult_le_mono2) simp
  then have "clocks_of f (unat n) \<le> unat n"
    unfolding clocks_of_def using div_le_mono [of "unat n * f" "unat n * 1000" 1000] by simp
  also have "unat n < 2 ^ 32" using unsigned_less [of n, where 'a = nat] by simp
  finally show ?thesis .
qed

lemma clocks_of_bound: "clocks_of f (unat (n :: u32)) div 65535 < 2 ^ 16" if "f < 1000"
proof -
  have "unat n \<le> 2 ^ 32 - 1" using unsigned_less [of n, where 'a = nat] by simp
  then have "unat n * f \<le> (2 ^ 32 - 1) * 999" using that by (intro mult_le_mono) auto
  then have "clocks_of f (unat n) \<le> (2 ^ 32 - 1) * 999 div 1000"
    unfolding clocks_of_def by (rule div_le_mono)
  then show ?thesis by simp
qed

lemma unat_clocks:
  fixes n :: u32 and g :: u64
  assumes "unat g < 1000"
  shows "unat (ucast n * g) = unat n * unat g"
    and "unat (ucast (ucast n * g div 1000) :: u32) = clocks_of (unat g) (unat n)"
proof -
  have "unat n * unat g < 2 ^ 32 * 1000"
    using unsigned_less [of n, where 'a = nat] assms by (intro mult_strict_mono) auto
  then show m: "unat (ucast n * g) = unat n * unat g"
    by (simp add: unat_word_ariths unat_widen)
  show "unat (ucast (ucast n * g div 1000) :: u32) = clocks_of (unat g) (unat n)"
    using clocks_of_u32 [OF assms, of n]
    by (subst unat_narrow) (simp_all add: unat_div m clocks_of_def)
qed

lemma drv_pwm_set_registers:
  assumes f: "pwm_mhz ck t < 1000" and set: "drv_pwm_set ck c t = (r, t')"
  shows "r = RT_EOK"
    and "unat (tim_psc t') = clocks_of (pwm_mhz ck t) (unat (pc_period c)) div 65535"
    and "unat (tim_arr t') = period_counts (pwm_mhz ck t) (unat (pc_period c)) - 1"
    and "unat (tim_ccr t' (ccr_of (pwm_hal_channel c))) =
         pulse_counts (pwm_mhz ck t) (unat (pc_period c)) (unat (pc_pulse c)) - 1"
proof -
  define g where "g = pwm_tim_clock ck t div 1000000"
  define n where "n = clocks_of (unat g) (unat (pc_period c))"
  have g: "unat g < 1000" "pwm_mhz ck t = unat g" using f by (simp_all add: g_def pwm_mhz_def)
  have n: "n < 2 ^ 32" using clocks_of_u32 [OF g(1)] by (simp add: n_def)
  define p0 where "p0 = (ucast (ucast (pc_period c) * g div 1000) :: u32)"
  define psc where "psc = (ucast (p0 div 65535 + 1) :: u64)"
  define p1 where "p1 = (ucast (ucast p0 div psc) :: u32)"
  define p where "p = (if p1 < 3 then 3 else p1)"
  define w0 where "w0 = (ucast (ucast (pc_pulse c) * g div psc div 1000) :: u32)"
  have p0: "unat p0 = n" using unat_clocks(2) [OF g(1)] by (simp add: p0_def n_def)
  have psc: "unat psc = n div 65535 + 1"
    unfolding psc_def unat_widen using n by (simp add: unat_word_ariths unat_div p0)
  have "unat p1 = n div (n div 65535 + 1)"
    using n counts_fit [of n] unfolding p1_def
    by (subst unat_narrow) (simp_all add: unat_div unat_widen p0 psc)
  then have p: "unat p = period_counts (unat g) (unat (pc_period c))"
    by (auto simp: p_def period_counts_def n_def word_less_nat_alt)
  have "unat (pc_pulse c) * unat g div (n div 65535 + 1) div 1000 \<le> clocks_of (unat g) (unat (pc_pulse c))"
    unfolding clocks_of_def by (intro div_le_mono) simp
  then have w0: "unat w0 = unat (pc_pulse c) * unat g div (n div 65535 + 1) div 1000"
    using clocks_of_u32 [OF g(1), of "pc_pulse c"] unfolding w0_def
    by (subst unat_narrow) (simp_all add: unat_div unat_clocks(1) [OF g(1)] psc)
  define w where "w = (if w0 < 2 then 2 else if w0 > p then p else w0)"
  have w: "unat w = pulse_counts (unat g) (unat (pc_period c)) (unat (pc_pulse c))"
    using period_counts_bounds(1) [of "unat g" "unat (pc_period c)"]
    by (auto simp: w_def pulse_counts_def w0 p n_def word_less_nat_alt)
  have "(r, t') = (RT_EOK, HAL_TIM_GenerateEvent 1 (HAL_TIM_SET_COMPARE (pwm_hal_channel c) (w - 1)
      (HAL_TIM_SET_AUTORELOAD (p - 1) (t\<lparr>tim_psc := ucast (psc - 1)\<rparr>))\<lparr>tim_cnt := 0\<rparr>))"
    unfolding set [symmetric] drv_pwm_set_def Let_def
    by (simp add: g_def p0_def psc_def p1_def p_def w0_def w_def)
  then have t': "r = RT_EOK" "tim_psc t' = ucast (psc - 1)" "tim_arr t' = p - 1"
      "tim_ccr t' (ccr_of (pwm_hal_channel c)) = w - 1"
    by (simp_all add: tim_defs)
  show "r = RT_EOK" by (rule t')
  show "unat (tim_psc t') = clocks_of (pwm_mhz ck t) (unat (pc_period c)) div 65535"
    using n by (simp add: t' g unat_narrow unat_pred psc n_def)
  show "unat (tim_arr t') = period_counts (pwm_mhz ck t) (unat (pc_period c)) - 1"
    using period_counts_bounds(1) [of "unat g" "unat (pc_period c)"] by (simp add: t' g unat_pred p)
  show "unat (tim_ccr t' (ccr_of (pwm_hal_channel c))) =
         pulse_counts (pwm_mhz ck t) (unat (pc_period c)) (unat (pc_pulse c)) - 1"
    using pulse_counts_bounds(1) [of "unat g" "unat (pc_period c)" "unat (pc_pulse c)"]
    by (simp add: t' g unat_pred w)
qed

section \<open>How exact a period is\<close>

lemma counts_exact:
  fixes N :: nat
  assumes "3 \<le> N"
  shows "max 3 (N div (N div 65535 + 1)) = N div (N div 65535 + 1)"
proof (cases "N < 65535")
  case True
  then show ?thesis using assms by simp
next
  case False
  define k where "k = N div 65535"
  have k: "1 \<le> k" "65535 * k \<le> N"
    using False div_le_mono [of 65535 N 65535] by (simp_all add: k_def)
  then have "3 * (k + 1) \<le> N" by simp
  then have "3 \<le> N div (k + 1)" by (simp add: less_eq_div_iff_mult_less_eq)
  then show ?thesis by (simp add: k_def)
qed

lemma rest_small: "N - N div (k + 1) * (k + 1) \<le> (k :: nat)" "N div (k + 1) * (k + 1) \<le> N"
  using mod_less_divisor [of "k + 1" N] minus_div_mult_eq_mod [of N "k + 1"] div_times_less_eq_dividend [of N "k + 1"]
  by linarith+

lemma rt_pwm_set_device:
  "rt_pwm_set (Some (stm32_pwm_ops ck)) ch P W t = Some (drv_pwm_set ck \<lparr>pc_channel = ch, pc_period = P, pc_pulse = W\<rparr> t)"
  by (simp add: pwm_call_defs split: prod.splits)

lemma drv_pwm_set_frame:
  assumes "drv_pwm_set ck c t = (r, t')"
  shows "tim_ccer t' = tim_ccer t" "tim_cr1 t' = tim_cr1 t" "tim_no t' = tim_no t" "tim_cnt t' = 0"
    and "i \<noteq> ccr_of (pwm_hal_channel c) \<Longrightarrow> tim_ccr t' i = tim_ccr t i"
    and "init_period t' = tim_arr t'"
  using assms by (auto simp: drv_pwm_set_def Let_def tim_defs split: if_splits)

lemma pwm_set_period:
  assumes "pwm_mhz ck t < 1000" and "N = clocks_of (pwm_mhz ck t) (unat (pc_period c))" and "3 \<le> N"
    and set: "drv_pwm_set ck c t = (r, t')"
  shows "unat (tim_psc t') = N div 65535" "unat (tim_arr t') + 1 = N div (N div 65535 + 1)"
    and "period_counts (pwm_mhz ck t) (unat (pc_period c)) = N div (N div 65535 + 1)"
    and "(unat (tim_arr t') + 1) * (unat (tim_psc t') + 1) \<le> N"
    and "N - (unat (tim_arr t') + 1) * (unat (tim_psc t') + 1) \<le> N div 65535"
proof -
  show psc: "unat (tim_psc t') = N div 65535"
    using drv_pwm_set_registers(2) [OF assms(1) set] by (simp add: assms(2))
  show q: "period_counts (pwm_mhz ck t) (unat (pc_period c)) = N div (N div 65535 + 1)"
    using counts_exact [OF assms(3)] by (simp add: period_counts_def assms(2))
  show arr: "unat (tim_arr t') + 1 = N div (N div 65535 + 1)"
    using drv_pwm_set_registers(3) [OF assms(1) set] q
      period_counts_bounds(1) [of "pwm_mhz ck t" "unat (pc_period c)"] by simp
  show "(unat (tim_arr t') + 1) * (unat (tim_psc t') + 1) \<le> N"
    and "N - (unat (tim_arr t') + 1) * (unat (tim_psc t') + 1) \<le> N div 65535"
    using rest_small [of N "N div 65535"] unfolding arr psc by blast+
qed

text \<open>What a set timer does. In the mode \<^verbatim>\<open>TIM_OCMODE_PWM1\<close>, which \<^verbatim>\<open>stm32_hw_pwm_init\<close> chooses, a channel is on
  while the counter is below the compare value (\<^verbatim>\<open>LL_TIM_OCMODE_PWM1\<close> in \<^verbatim>\<open>stm32l4xx_ll_tim.h\<close>). The times
  are in clocks of the timer.\<close>

definition pwm_active :: "tim \<Rightarrow> nat \<Rightarrow> nat \<Rightarrow> bool" where
  "pwm_active t i cnt \<longleftrightarrow> cnt < unat (tim_ccr t i)"

definition period_clocks :: "tim \<Rightarrow> nat" where
  "period_clocks t = (unat (tim_arr t) + 1) * (unat (tim_psc t) + 1)"

definition active_clocks :: "tim \<Rightarrow> nat \<Rightarrow> nat" where
  "active_clocks t i = length (filter (pwm_active t i) [0..<unat (tim_arr t) + 1]) * (unat (tim_psc t) + 1)"

lemma filter_below: "length (filter (\<lambda>i. i < m) [0..<n]) = min m (n :: nat)"
  by (induction n) auto

lemma active_clocks_eq:
  "tim_ccr t i \<le> tim_arr t \<Longrightarrow> active_clocks t i = unat (tim_ccr t i) * (unat (tim_psc t) + 1)"
  unfolding active_clocks_def pwm_active_def filter_below by (simp add: word_le_nat_alt)

text \<open>C33: for a timer clock below 1000 MHz and a period \<open>P\<close> of at least three of its clocks, the timer is set to
  a period that is never longer than \<open>P\<close>, and shorter by less than a clock and a 65535th (\<open>N\<close> is \<open>P\<close> in whole
  clocks); prescaler and period fit the 16 bits of the registers. The output is on for some and off for some
  of the period, for a pulse of 0 and one of the whole period too. It is on for less than the pulse \<open>W\<close>: one of at
  least two counts and at most \<open>P\<close> is too short by at least one count of the timer and less than two, where a count is
  \<open>tim_psc t' + 1\<close> clocks. Nothing but the channel's compare value and the period changes.\<close>

theorem pwm_set_accurate:
  assumes "pwm_mhz ck t < 1000" and "N = clocks_of (pwm_mhz ck t) (unat P)" and "3 \<le> N"
  shows "\<exists>t'. rt_pwm_set (Some (stm32_pwm_ops ck)) ch P W t = Some (RT_EOK, t')
    \<and> period_clocks t' * 1000 \<le> unat P * pwm_mhz ck t
    \<and> unat P * pwm_mhz ck t < (period_clocks t' + N div 65535 + 1) * 1000
    \<and> tim_psc t' < 2 ^ 16 \<and> tim_arr t' < 2 ^ 16
    \<and> 0 < active_clocks t' (ccr_of (4 * (ch - 1))) \<and> active_clocks t' (ccr_of (4 * (ch - 1))) < period_clocks t'
    \<and> (W \<le> P \<and> 2 * (unat (tim_psc t') + 1) \<le> clocks_of (pwm_mhz ck t) (unat W) \<longrightarrow>
        (active_clocks t' (ccr_of (4 * (ch - 1))) + (unat (tim_psc t') + 1)) * 1000 \<le> unat W * pwm_mhz ck t
        \<and> unat W * pwm_mhz ck t < (active_clocks t' (ccr_of (4 * (ch - 1))) + 2 * (unat (tim_psc t') + 1)) * 1000)
    \<and> tim_cnt t' = 0 \<and> tim_ccer t' = tim_ccer t \<and> tim_cr1 t' = tim_cr1 t
    \<and> (\<forall>i. i \<noteq> ccr_of (4 * (ch - 1)) \<longrightarrow> tim_ccr t' i = tim_ccr t i)"
proof -
  define f where "f = pwm_mhz ck t"
  define c where "c = \<lparr>pc_channel = ch, pc_period = P, pc_pulse = W\<rparr>"
  define k where "k = N div 65535"
  have c: "pc_channel c = ch" "pc_period c = P" "pc_pulse c = W" "pwm_hal_channel c = 4 * (ch - 1)"
    by (simp_all add: c_def pwm_hal_channel_def)
  obtain r t' where set: "drv_pwm_set ck c t = (r, t')" by fastforce
  note regs = drv_pwm_set_registers [OF assms(1) set, folded f_def, unfolded c]
  note frame = drv_pwm_set_frame [OF set, unfolded c]
  have N: "N = clocks_of f (unat P)" using assms(2) by (simp add: f_def)
  note period = pwm_set_period [OF assms(1) _ assms(3) set, unfolded c, OF assms(2), folded f_def k_def]
  note psc = period(1) and arr = period(2) and q = period(3)
  define M where "M = clocks_of f (unat W)"
  have "M div (k + 1) = unat W * f div (k + 1) div 1000"
    by (simp only: M_def clocks_of_def div_mult2_eq [symmetric] mult.commute)
  then have pc: "pulse_counts f (unat P) (unat W) = max 2 (min (N div (k + 1)) (M div (k + 1)))"
    by (simp only: pulse_counts_def q N [symmetric] k_def [symmetric])
  define cc where "cc = tim_ccr t' (ccr_of (4 * (ch - 1)))"
  have cc: "unat cc + 1 = max 2 (min (N div (k + 1)) (M div (k + 1)))"
    using regs(4) pc pulse_counts_bounds(1) [of f "unat P" "unat W"] by (simp add: cc_def)
  have cc_range: "2 \<le> unat cc + 1" "unat cc + 1 \<le> unat (tim_arr t') + 1"
    using cc pc arr q pulse_counts_bounds(2) [of f "unat P" "unat W"] by linarith+
  have "k < 2 ^ 16"
    using clocks_of_bound [of f P] assms(1) by (simp add: k_def N f_def)
  then have small: "unat (tim_psc t') < 2 ^ 16" "unat (tim_arr t') < 2 ^ 16"
    using psc arr counts_fit [of N] by (simp_all add: k_def)
  have pulse: "(unat cc + 1) * (k + 1) = M div (k + 1) * (k + 1)" if "W \<le> P" "2 * (k + 1) \<le> M"
  proof -
    have "M \<le> N"
      using that(1) by (simp add: M_def N clocks_of_def div_le_mono word_le_nat_alt)
    then have "M div (k + 1) \<le> N div (k + 1)" by (rule div_le_mono)
    moreover have "2 \<le> M div (k + 1)" using that(2) by (simp add: less_eq_div_iff_mult_less_eq)
    ultimately show ?thesis using cc by simp
  qed
  have le: "cc \<le> tim_arr t'" using cc_range(2) by (simp add: word_le_nat_alt)
  have act: "active_clocks t' (ccr_of (4 * (ch - 1))) = unat cc * (k + 1)"
    using active_clocks_eq [of t' "ccr_of (4 * (ch - 1))"] le by (simp add: cc_def psc)
  have per: "period_clocks t' = (unat (tim_arr t') + 1) * (k + 1)" by (simp only: period_clocks_def psc)
  have on: "0 < unat cc * (k + 1)" "unat cc * (k + 1) < (unat (tim_arr t') + 1) * (k + 1)"
    using cc_range mult_less_mono1 [of "unat cc" "unat (tim_arr t') + 1" "k + 1"] by auto
  have split1: "(unat cc + 1) * (k + 1) = unat cc * (k + 1) + (k + 1)" by simp
  show ?thesis
  proof (intro exI conjI)
    show "rt_pwm_set (Some (stm32_pwm_ops ck)) ch P W t = Some (RT_EOK, t')"
      using set regs(1) by (simp add: rt_pwm_set_device c_def)
    have clocks: "N * 1000 \<le> unat P * f" "unat P * f < (N + 1) * 1000"
      using dividend_less_div_times [of 1000 "unat P * f"] by (simp_all add: N clocks_of_def)
    have T: "period_clocks t' * 1000 \<le> N * 1000" "(N + 1) * 1000 \<le> (period_clocks t' + k + 1) * 1000"
      using period(4,5) unfolding period_clocks_def by (intro mult_le_mono1, linarith)+
    show "period_clocks t' * 1000 \<le> unat P * pwm_mhz ck t"
      using le_trans [OF T(1) clocks(1)] by (simp only: f_def)
    show "unat P * pwm_mhz ck t < (period_clocks t' + N div 65535 + 1) * 1000"
      using less_le_trans [OF clocks(2) T(2)] by (simp only: f_def k_def)
    show "tim_psc t' < 2 ^ 16" "tim_arr t' < 2 ^ 16"
      using small by (simp_all add: word_less_nat_alt)
    show "0 < active_clocks t' (ccr_of (4 * (ch - 1)))" "active_clocks t' (ccr_of (4 * (ch - 1))) < period_clocks t'"
      using on unfolding act per by blast+
    show "W \<le> P \<and> 2 * (unat (tim_psc t') + 1) \<le> clocks_of (pwm_mhz ck t) (unat W) \<longrightarrow>
        (active_clocks t' (ccr_of (4 * (ch - 1))) + (unat (tim_psc t') + 1)) * 1000 \<le> unat W * pwm_mhz ck t
        \<and> unat W * pwm_mhz ck t < (active_clocks t' (ccr_of (4 * (ch - 1))) + 2 * (unat (tim_psc t') + 1)) * 1000"
      unfolding act f_def [symmetric] M_def [symmetric] psc
    proof
      assume a: "W \<le> P \<and> 2 * (k + 1) \<le> M"
      have clocks: "M * 1000 \<le> unat W * f" "unat W * f < (M + 1) * 1000"
        using dividend_less_div_times [of 1000 "unat W * f"] by (simp_all add: M_def clocks_of_def)
      have "unat cc * (k + 1) + (k + 1) \<le> M" "M \<le> k + (unat cc * (k + 1) + (k + 1))"
        using pulse a rest_small [of M k] unfolding split1 by (simp_all only: le_diff_conv)
      then have "unat cc * (k + 1) + (k + 1) \<le> M" "M + 1 \<le> unat cc * (k + 1) + 2 * (k + 1)"
        by simp_all
      then have "(unat cc * (k + 1) + (k + 1)) * 1000 \<le> M * 1000"
        "(M + 1) * 1000 \<le> (unat cc * (k + 1) + 2 * (k + 1)) * 1000"
        by (blast intro: mult_le_mono1)+
      then show "(unat cc * (k + 1) + (k + 1)) * 1000 \<le> unat W * f \<and>
          unat W * f < (unat cc * (k + 1) + 2 * (k + 1)) * 1000"
        using clocks by (blast intro: le_trans less_le_trans)
    qed
  qed (use frame in auto)
qed

lemma board_mhz: "pwm_mhz board_clocks (tim_reset 4) = 80"
  by (simp add: pwm_mhz_def pwm_tim_clock_def board_clocks_def tim_reset_def unat_div unat_widen)

lemma pwm_set_accurate_witness:
  "\<exists>t'. rt_pwm_set (Some (stm32_pwm_ops board_clocks)) 3 1000000 500000 (tim_reset 4) = Some (RT_EOK, t')
    \<and> period_clocks t' \<in> {79999, 80000} \<and> active_clocks t' 3 < period_clocks t'"
proof -
  have ch: "ccr_of (4 * (3 - 1)) = 3" by (simp add: ccr_of_def)
  obtain t' where "rt_pwm_set (Some (stm32_pwm_ops board_clocks)) 3 1000000 500000 (tim_reset 4) = Some (RT_EOK, t')"
    "period_clocks t' * 1000 \<le> 80000000" "80000000 < (period_clocks t' + 2) * 1000"
    "active_clocks t' 3 < period_clocks t'"
    using pwm_set_accurate [of board_clocks "tim_reset 4" 80000 1000000 3 500000]
    unfolding board_mhz ch by (auto simp: clocks_of_def)
  then show ?thesis by (intro exI [of _ t']) auto
qed

section \<open>Reading back\<close>

lemma word_unat_eqI: "(x :: u32) = of_nat n" if "unat x = n"
  using that [symmetric] by simp

lemma drv_pwm_get_numbers:
  assumes f: "0 < pwm_mhz ck t" and ckd: "tim_cr1 t AND TIM_CR1_CKD = 0"
    and T: "T = (unat (tim_arr t) + 1) * (unat (tim_psc t) + 1)" "T * 1000 < 2 ^ 32"
  obtains pl where "drv_pwm_get ck c t = Some (RT_EOK, c\<lparr>pc_period := of_nat (T * 1000 div pwm_mhz ck t), pc_pulse := pl\<rparr>)"
    and "(unat (tim_ccr t (ccr_of (pwm_hal_channel c))) + 1) * (unat (tim_psc t) + 1) * 1000 < 2 ^ 32 \<Longrightarrow>
         unat pl = (unat (tim_ccr t (ccr_of (pwm_hal_channel c))) + 1) * (unat (tim_psc t) + 1) * 1000 div pwm_mhz ck t"
proof -
  define g where "g = pwm_tim_clock ck t div 1000000"
  have g: "g \<noteq> 0" "unat g = pwm_mhz ck t" using f by (auto simp: g_def pwm_mhz_def)
  have prod: "unat ((a + 1) * (b + 1) * 1000 :: u32) = (unat a + 1) * (unat b + 1) * 1000"
    if "(unat a + 1) * (unat b + 1) * 1000 < 2 ^ 32" for a b :: u32
  proof -
    have "(a + 1) * (b + 1) * 1000 = of_nat ((unat a + 1) * (unat b + 1) * 1000)" by (simp add: algebra_simps)
    then show ?thesis using that by (simp only:) (simp add: unsigned_of_nat take_bit_nat_eq_self del: of_nat_mult of_nat_add of_nat_Suc)
  qed
  have quot: "unat (ucast (ucast x div g :: u64) :: u32) = unat x div pwm_mhz ck t" for x :: u32
  proof -
    have "unat x div pwm_mhz ck t < 2 ^ 32"
      using unsigned_less [of x, where 'a = nat] by (intro le_less_trans [OF div_le_dividend]) simp
    then show ?thesis by (subst unat_narrow) (simp_all add: unat_div unat_widen g)
  qed
  define pl :: u32 where "pl = ucast (ucast ((HAL_TIM_GET_COMPARE (pwm_hal_channel c) t + 1) * (tim_psc t + 1) * 1000) div g)"
  have "ucast (ucast ((tim_arr t + 1) * (tim_psc t + 1) * 1000) div g) = (of_nat (T * 1000 div pwm_mhz ck t) :: u32)"
    using T(2) unfolding T(1) by (intro word_unat_eqI) (simp only: quot prod)
  then have "drv_pwm_get ck c t = Some (RT_EOK, c\<lparr>pc_period := of_nat (T * 1000 div pwm_mhz ck t), pc_pulse := pl\<rparr>)"
    using g(1) ckd by (simp add: drv_pwm_get_def Let_def g_def [symmetric] pl_def)
  then show thesis
    using that quot prod by (auto simp: pl_def HAL_TIM_GET_COMPARE_def)
qed

text \<open>What reading a timer with undivided clock gives after a period was set: never more than the
  period asked for, and less by no more than a 65535th of it, a timer clock and a nanosecond; if the
  period is below 4294967 timer clocks (53 ms at 80 MHz).\<close>

theorem pwm_get_reads_set:
  assumes "0 < pwm_mhz ck t" and "pwm_mhz ck t < 1000" and "tim_cr1 t AND TIM_CR1_CKD = 0"
    and "N = clocks_of (pwm_mhz ck t) (unat P)" and "3 \<le> N" and "N * 1000 < 2 ^ 32"
  shows "\<exists>t' c. rt_pwm_set (Some (stm32_pwm_ops ck)) ch P W t = Some (RT_EOK, t')
    \<and> drv_pwm_control ck PWM_CMD_GET (pwm_config0\<lparr>pc_channel := ch\<rparr>) t' = Some (RT_EOK, c, t')
    \<and> pc_channel c = ch \<and> pc_period c \<le> P
    \<and> (unat P - unat (pc_period c)) * pwm_mhz ck t < (N div 65535 + 1) * 1000 + pwm_mhz ck t"
proof -
  define f where "f = pwm_mhz ck t"
  define c where "c = \<lparr>pc_channel = ch, pc_period = P, pc_pulse = W\<rparr>"
  obtain r t' where set: "drv_pwm_set ck c t = (r, t')" by fastforce
  then have t': "rt_pwm_set (Some (stm32_pwm_ops ck)) ch P W t = Some (RT_EOK, t')" "tim_cr1 t' = tim_cr1 t"
    using drv_pwm_set_registers(1) [OF assms(2) set] drv_pwm_set_frame(2) [OF set]
    by (simp_all add: rt_pwm_set_device c_def)
  have "pc_period c = P" by (simp add: c_def)
  note period = pwm_set_period(4,5) [OF assms(2) _ assms(5) set, unfolded this, OF assms(4)]
  define T where "T = (unat (tim_arr t') + 1) * (unat (tim_psc t') + 1)"
  note T = period [folded T_def]
  have mhz: "pwm_mhz ck t' = f"
    using drv_pwm_set_frame(3) [OF set] by (simp add: f_def pwm_mhz_def pwm_tim_clock_def)
  have small: "T * 1000 < 2 ^ 32" using T(1) assms(6) by linarith
  have p: "0 < pwm_mhz ck t'" "tim_cr1 t' AND TIM_CR1_CKD = 0" using assms(1,3) by (simp_all add: mhz f_def t'(2))
  obtain pl where "drv_pwm_get ck (pwm_config0\<lparr>pc_channel := ch\<rparr>) t' =
      Some (RT_EOK, (pwm_config0\<lparr>pc_channel := ch\<rparr>)\<lparr>pc_period := of_nat (T * 1000 div pwm_mhz ck t'), pc_pulse := pl\<rparr>)"
    by (rule drv_pwm_get_numbers [OF p T_def small])
  then have get: "drv_pwm_get ck (pwm_config0\<lparr>pc_channel := ch\<rparr>) t' =
      Some (RT_EOK, \<lparr>pc_channel = ch, pc_period = of_nat (T * 1000 div f), pc_pulse = pl\<rparr>)"
    by (simp add: mhz)
  have le: "T * 1000 \<le> unat P * f"
  proof -
    have "T * 1000 \<le> N * 1000" using T(1) by simp
    also have "\<dots> \<le> unat P * f" by (simp add: assms(4) clocks_of_def f_def)
    finally show ?thesis .
  qed
  have f: "0 < f" using assms(1) by (simp add: f_def)
  have "T * 1000 div f \<le> unat P * f div f" using le by (rule div_le_mono)
  then have r: "T * 1000 div f \<le> unat P" using f by simp
  then have r': "unat (of_nat (T * 1000 div f) :: u32) = T * 1000 div f"
    using unsigned_less [of P, where 'a = nat] by (simp add: unsigned_of_nat take_bit_nat_eq_self)
  have "T * 1000 < (T * 1000 div f + 1) * f"
    using f dividend_less_div_times [of f "T * 1000"] by simp
  moreover have "unat P * f < (N + 1) * 1000"
    using dividend_less_div_times [of 1000 "unat P * f"] by (simp add: assms(4) clocks_of_def f_def)
  moreover have "N * 1000 \<le> T * 1000 + N div 65535 * 1000"
    using T by linarith
  ultimately have "unat P * f < T * 1000 div f * f + f + (N div 65535 + 1) * 1000"
    by (simp add: algebra_simps)
  then have "(unat P - T * 1000 div f) * f < (N div 65535 + 1) * 1000 + f"
    by (simp add: diff_mult_distrib)
  then show ?thesis
    using t'(1) get r r' by (auto simp: drv_pwm_control_def f_def word_le_nat_alt)
qed

lemma pwm_get_reads_set_witness:
  "\<exists>t' c. rt_pwm_set (Some (stm32_pwm_ops board_clocks)) 3 1000000 500000 (tim_reset 4) = Some (RT_EOK, t')
    \<and> drv_pwm_control board_clocks PWM_CMD_GET (pwm_config0\<lparr>pc_channel := 3\<rparr>) t' = Some (RT_EOK, c, t')
    \<and> pc_period c \<le> 1000000 \<and> (1000000 - unat (pc_period c)) * 80 < 2080"
proof -
  have "tim_cr1 (tim_reset 4) AND TIM_CR1_CKD = 0" by (simp add: tim_reset_def)
  then show ?thesis
    using pwm_get_reads_set [of board_clocks "tim_reset 4" 80000 1000000 3 500000]
    unfolding board_mhz by (auto simp: clocks_of_def)
qed

section \<open>Writing a pulse\<close>

text \<open>C34: writing to the device reads the period from the timer and sets it again with the new pulse. If
  the period of the timer is a whole number of nanoseconds that reading can compute (below 4294967 clocks,
  and in even clocks at 80 MHz), the write sets the pulse and keeps prescaler, period and the other
  channels.\<close>

theorem pwm_write_keeps_period:
  assumes "0 < pwm_mhz ck t" and "pwm_mhz ck t < 1000" and "tim_cr1 t AND TIM_CR1_CKD = 0"
    and T: "T = (unat (tim_arr t) + 1) * (unat (tim_psc t) + 1)" "3 \<le> T" "T * 1000 < 2 ^ 32"
    and "pwm_mhz ck t dvd T * 1000" and "T div 65535 = unat (tim_psc t)"
  shows "\<exists>t'. pwm_write (stm32_pwm_ops ck) ch W sz t = Some (sz, t')
    \<and> rt_pwm_set (Some (stm32_pwm_ops ck)) ch (of_nat (T * 1000 div pwm_mhz ck t)) W t = Some (RT_EOK, t')
    \<and> tim_psc t' = tim_psc t \<and> tim_arr t' = tim_arr t
    \<and> (\<forall>i. i \<noteq> ccr_of (4 * (ch - 1)) \<longrightarrow> tim_ccr t' i = tim_ccr t i)"
proof -
  define P :: u32 where "P = of_nat (T * 1000 div pwm_mhz ck t)"
  define c where "c = \<lparr>pc_channel = ch, pc_period = P, pc_pulse = W\<rparr>"
  have c: "pc_period c = P" "pwm_hal_channel c = 4 * (ch - 1)" by (simp_all add: c_def pwm_hal_channel_def)
  obtain pl where get: "drv_pwm_get ck (pwm_config0\<lparr>pc_channel := ch\<rparr>) t =
      Some (RT_EOK, (pwm_config0\<lparr>pc_channel := ch\<rparr>)\<lparr>pc_period := of_nat (T * 1000 div pwm_mhz ck t), pc_pulse := pl\<rparr>)"
    by (rule drv_pwm_get_numbers [OF assms(1,3) T(1,3)])
  obtain r t' where set: "drv_pwm_set ck c t = (r, t')" by fastforce
  have r: "r = RT_EOK" by (rule drv_pwm_set_registers(1) [OF assms(2) set])
  have "T * 1000 div pwm_mhz ck t < 2 ^ 32" by (rule le_less_trans [OF div_le_dividend T(3)])
  then have "unat P = T * 1000 div pwm_mhz ck t" by (simp add: P_def unsigned_of_nat take_bit_nat_eq_self)
  then have N: "T = clocks_of (pwm_mhz ck t) (unat P)" using assms(7) by (simp add: clocks_of_def)
  note period = pwm_set_period [OF assms(2) _ T(2) set, unfolded c, OF N]
  have "unat (tim_psc t') = unat (tim_psc t)" using period(1) assms(8) by simp
  moreover have "unat (tim_arr t') + 1 = unat (tim_arr t) + 1"
    using period(2) unfolding assms(8) by (simp add: T(1) del: add_Suc_right)
  ultimately have "tim_psc t' = tim_psc t" "tim_arr t' = tim_arr t"
    by (simp_all add: word_unat_eq_iff)
  moreover have "pwm_write (stm32_pwm_ops ck) ch W sz t = Some (sz, t')"
    using get set r by (simp add: pwm_write_def stm32_pwm_ops_def drv_pwm_control_def c_def P_def)
  ultimately show ?thesis
    using set r drv_pwm_set_frame(5) [OF set] by (auto simp: rt_pwm_set_device c P_def [symmetric] c_def [symmetric])
qed

definition wheel_timer :: tim where
  "wheel_timer = (tim_reset 4)\<lparr>tim_arr := 39999, tim_psc := 1\<rparr>"

lemma pwm_write_keeps_period_witness:
  "\<exists>t'. pwm_write (stm32_pwm_ops board_clocks) 3 250000 4 wheel_timer = Some (4, t')
    \<and> rt_pwm_set (Some (stm32_pwm_ops board_clocks)) 3 1000000 250000 wheel_timer = Some (RT_EOK, t')
    \<and> tim_psc t' = 1 \<and> tim_arr t' = 39999"
proof -
  have "pwm_mhz board_clocks wheel_timer = 80"
    using board_mhz by (simp add: pwm_mhz_def pwm_tim_clock_def wheel_timer_def)
  moreover have "tim_cr1 wheel_timer AND TIM_CR1_CKD = 0" by (simp add: wheel_timer_def tim_reset_def)
  ultimately show ?thesis
    using pwm_write_keeps_period [of board_clocks wheel_timer 80000 3 250000 4]
    by (auto simp: wheel_timer_def)
qed

text \<open>Where the reading does not give the period, a write changes it: a period of 81 clocks at 80 MHz is
  read as 1012 ns and set as 80 clocks; of 100 ms the product overflows, it is read as 46.3 ms and set as
  that.\<close>

definition pwm_written :: "u32 \<Rightarrow> (u32 \<times> u32) option \<times> (u32 \<times> u32) option" where
  "pwm_written P =
     (case rt_pwm_set (Some (stm32_pwm_ops board_clocks)) 3 P 500 (tim_reset 4) of
        None \<Rightarrow> (None, None)
      | Some (_, t) \<Rightarrow> (Some (tim_psc t, tim_arr t),
          map_option (\<lambda>(_, t'). (tim_psc t', tim_arr t')) (pwm_write (stm32_pwm_ops board_clocks) 3 500 4 t)))"

lemma write_shortens_period: "pwm_written 1013 = (Some (0, 80), Some (0, 79))"
  by code_simp

lemma write_loses_long_period: "pwm_written 100000000 = (Some (122, 65039), Some (56, 64998))"
  by code_simp

text \<open>Channels count from 1: for channel 0 a call succeeds, but writes the compare register of channel 6,
  which TIM2 and TIM4 do not have. An unknown command gives a positive number.\<close>

lemma channel_zero:
  "map_option (\<lambda>(r, t). (r, List.map (tim_ccr t) [1, 2, 3, 4, 6]))
     (rt_pwm_set (Some (stm32_pwm_ops board_clocks)) 0 1000000 500000 (tim_reset 4))
   = Some (RT_EOK, [0, 0, 0, 0, 19999])"
  by code_simp

lemma unknown_command_positive:
  "cmd \<notin> {128..131} \<Longrightarrow> drv_pwm_control ck cmd c t = Some (RT_EINVAL, c, t)" "0 < RT_EINVAL"
  by (auto simp: drv_pwm_control_def RT_EINVAL_def)

section \<open>Switching channels on and off\<close>

fun pwm_switches :: "clocks \<Rightarrow> (u32 \<times> bool) list \<Rightarrow> tim \<Rightarrow> tim option" where
  "pwm_switches ck [] t = Some t"
| "pwm_switches ck ((ch, on) # us) t = do {
     (r, t1) \<leftarrow> (if on then rt_pwm_enable else rt_pwm_disable) (Some (stm32_pwm_ops ck)) ch t;
     rt_assert (r = RT_EOK);
     pwm_switches ck us t1
   }"

fun channels_on :: "(u32 \<times> bool) list \<Rightarrow> u32 set \<Rightarrow> u32 set" where
  "channels_on [] A = A"
| "channels_on ((ch, on) # us) A = channels_on us (if on then insert ch A else A - {ch})"

definition output_pos :: "u32 \<Rightarrow> nat" where
  "output_pos ch = 4 * (unat ch - 1)"

text \<open>Exactly the outputs of \<open>A\<close> are on, and the counter runs if there is one.\<close>

definition switched :: "u32 set \<Rightarrow> tim \<Rightarrow> bool" where
  "switched A t \<longleftrightarrow> A \<subseteq> {1, 2, 3, 4} \<and> (\<forall>n < 32. bit (tim_ccer t) n \<longleftrightarrow> n \<in> output_pos ` A)
     \<and> (bit (tim_cr1 t) 0 \<longleftrightarrow> A \<noteq> {}) \<and> \<not> slave_triggered t"

lemma and_masks:
  "w AND TIM_CCER_CCxE_MASK = 0 \<longleftrightarrow> \<not> bit w 0 \<and> \<not> bit w 4 \<and> \<not> bit w 8 \<and> \<not> bit w 12"
  "w AND TIM_CCER_CCxNE_MASK = 0 \<longleftrightarrow> \<not> bit w 2 \<and> \<not> bit w 6 \<and> \<not> bit w 10" for w :: u32
proof -
  have "(0x1111 :: u32) = 2 ^ 0 OR 2 ^ 4 OR 2 ^ 8 OR 2 ^ 12" "(0x444 :: u32) = 2 ^ 2 OR 2 ^ 6 OR 2 ^ 10"
    by simp_all
  then show "w AND 0x1111 = 0 \<longleftrightarrow> \<not> bit w 0 \<and> \<not> bit w 4 \<and> \<not> bit w 8 \<and> \<not> bit w 12"
    and "w AND 0x444 = 0 \<longleftrightarrow> \<not> bit w 2 \<and> \<not> bit w 6 \<and> \<not> bit w 10"
    by (simp_all only: bit.conj_disj_distrib or_eq_0_iff and_exp_eq_0_iff_not_bit)
qed

lemma output_pos_inj: "inj_on output_pos {1, 2, 3, 4}" "ch \<in> {1, 2, 3, 4} \<Longrightarrow> output_pos ch < 32"
  by (auto simp: inj_on_def output_pos_def)

lemma hal_channel_shift: "unat (4 * (ch - 1) AND 0x1F :: u32) = output_pos ch" if "ch \<in> {1, 2, 3, 4}"
  using that by (auto simp: output_pos_def)

lemma ccx_bits:
  assumes "ch \<in> {1, 2, 3, 4}" and "n < 32"
  shows "bit (tim_ccer (TIM_CCxChannelCmd (4 * (ch - 1)) 1 t)) n \<longleftrightarrow> bit (tim_ccer t) n \<or> n = output_pos ch"
    and "bit (tim_ccer (TIM_CCxChannelCmd (4 * (ch - 1)) 0 t)) n \<longleftrightarrow> bit (tim_ccer t) n \<and> n \<noteq> output_pos ch"
  using assms(2) unfolding TIM_CCxChannelCmd_def Let_def hal_channel_shift [OF assms(1)]
  by (auto simp: bit_simps)

lemma no_channel_on_switched:
  assumes "A \<subseteq> {1, 2, 3, 4}" and "\<forall>n < 32. bit (tim_ccer t) n \<longleftrightarrow> n \<in> output_pos ` A"
  shows "no_channel_on t \<longleftrightarrow> A = {}"
proof -
  have "no_channel_on t \<longleftrightarrow> {0, 4, 8, 12, 2, 6, 10} \<inter> output_pos ` A = {}"
    using assms(2) by (auto simp: no_channel_on_def and_masks)
  also have "output_pos ` A \<subseteq> {0, 4, 8, 12}"
    using assms(1) by (fastforce simp: output_pos_def)
  then have "{0, 4, 8, 12, 2, 6, 10} \<inter> output_pos ` A = {} \<longleftrightarrow> A = {}" by blast
  finally show ?thesis .
qed

lemma start_switched:
  assumes "switched A t" and ch: "ch \<in> {1, 2, 3, 4}"
  shows "switched (insert ch A) (HAL_TIM_PWM_Start (4 * (ch - 1)) t)"
proof -
  have st: "slave_triggered (TIM_CCxChannelCmd x y t\<lparr>tim_bdtr := b\<rparr>) = slave_triggered t"
      "slave_triggered (TIM_CCxChannelCmd x y t) = slave_triggered t" "slave_triggered (u\<lparr>tim_cr1 := a\<rparr>) = slave_triggered u"
    for x y b a u
    by (simp_all add: slave_triggered_def TIM_CCxChannelCmd_def Let_def)
  show ?thesis
    using assms ccx_bits(1) [OF ch, of _ t]
    by (auto simp: switched_def HAL_TIM_PWM_Start_def Let_def st bit_simps)
qed

lemma stop_switched:
  assumes "switched A t" and ch: "ch \<in> {1, 2, 3, 4}"
  shows "switched (A - {ch}) (HAL_TIM_PWM_Stop (4 * (ch - 1)) t)"
proof -
  define t1 where "t1 = TIM_CCxChannelCmd (4 * (ch - 1)) 0 t"
  have A: "A \<subseteq> {1, 2, 3, 4}" using assms(1) by (simp add: switched_def)
  have bits: "bit (tim_ccer t1) n \<longleftrightarrow> n \<in> output_pos ` (A - {ch})" if "n < 32" for n
  proof -
    have "output_pos ` (A - {ch}) = output_pos ` A - {output_pos ch}"
      using inj_on_image_set_diff [OF output_pos_inj(1), of A "{ch}"] A ch by auto
    then show ?thesis
      using assms(1) ccx_bits(2) [OF ch that, of t] that by (auto simp: switched_def t1_def)
  qed
  have off: "no_channel_on t1 \<longleftrightarrow> A - {ch} = {}"
    using A bits by (intro no_channel_on_switched) auto
  have same: "no_channel_on (t1\<lparr>tim_bdtr := b\<rparr>) = no_channel_on t1" "tim_cr1 t1 = tim_cr1 t" for b
    by (simp_all add: no_channel_on_def t1_def TIM_CCxChannelCmd_def Let_def)
  define u where "u = HAL_TIM_PWM_Stop (4 * (ch - 1)) t"
  have sm: "tim_smcr t1 = tim_smcr t" by (simp add: t1_def TIM_CCxChannelCmd_def Let_def)
  have u: "tim_ccer u = tim_ccer t1" "tim_smcr u = tim_smcr t"
      "tim_cr1 u = (if A - {ch} = {} then tim_cr1 t AND NOT TIM_CR1_CEN else tim_cr1 t)"
    unfolding u_def HAL_TIM_PWM_Stop_def Let_def t1_def [symmetric] off [symmetric]
    by (simp_all add: same sm)
  have cen: "bit (tim_cr1 u) 0 \<longleftrightarrow> A - {ch} \<noteq> {}"
    using assms(1) by (auto simp: u(3) switched_def bit_simps)
  have "\<not> slave_triggered u" using assms(1) by (simp add: switched_def slave_triggered_def u(2))
  then show ?thesis
    unfolding switched_def u_def [symmetric] u(1) using A bits cen by blast
qed

text \<open>After any calls that switch the channels 1 to 4 of a timer on and off, exactly those are on that
  were switched on last, and the counter of the timer runs if and only if one is: switching one wheel off
  does not stop the other.\<close>

theorem pwm_switches_correct:
  assumes "tim_ccer t = 0" and "\<not> bit (tim_cr1 t) 0" and "\<not> slave_triggered t"
    and "fst ` set us \<subseteq> {1, 2, 3, 4}"
  shows "\<exists>t'. pwm_switches ck us t = Some t'
    \<and> (\<forall>n < 32. bit (tim_ccer t') n \<longleftrightarrow> n \<in> output_pos ` channels_on us {})
    \<and> (bit (tim_cr1 t') 0 \<longleftrightarrow> channels_on us {} \<noteq> {})"
proof -
  have "\<exists>t'. pwm_switches ck us t = Some t' \<and> switched (channels_on us A) t'" if "switched A t" for A
    using assms(4) that
  proof (induction us arbitrary: t A)
    case (Cons u us)
    obtain ch on where u: "u = (ch, on)" by fastforce
    have ch: "ch \<in> {1, 2, 3, 4}" using Cons.prems(1) u by auto
    show ?case
      using Cons.IH [OF _ start_switched [OF Cons.prems(2) ch]] Cons.IH [OF _ stop_switched [OF Cons.prems(2) ch]]
        Cons.prems(1)
      by (cases on) (auto simp: u pwm_call_defs drv_pwm_enable_def pwm_hal_channel_def Let_def)
  qed simp
  moreover have "switched {} t" using assms(1-3) by (simp add: switched_def)
  ultimately show ?thesis by (fastforce simp: switched_def)
qed

lemma pwm_switches_correct_witness:
  "\<exists>t'. pwm_switches board_clocks [(3, True), (4, True), (3, False)] (tim_reset 4) = Some t'
    \<and> bit (tim_cr1 t') 0 \<and> bit (tim_ccer t') 12 \<and> \<not> bit (tim_ccer t') 8"
proof -
  have "channels_on [(3, True), (4, True), (3, False)] {} = {4}" by auto
  then show ?thesis
    using pwm_switches_correct [of "tim_reset 4" "[(3, True), (4, True), (3, False)]" board_clocks]
    by (auto simp: tim_reset_def slave_triggered_def bit_numeral_rec output_pos_def)
qed

end
