(* ===== verification/KPrintf.thy ===== *)
theory KPrintf
  imports Robot
begin

text \<open>
  Formatted output, \<^verbatim>\<open>rt_vsnprintf\<close> and its callers in \<^verbatim>\<open>src/kservice.c\<close>, with precisions and
  without 64-bit numbers and the \<^verbatim>\<open>#\<close> flag, as configured there. Memory from the buffer on is a
  function; an argument of the wrong kind, a missing argument and an overflowing field width give
  \<open>None\<close>. The negation of the smallest number wraps, as on the target.
\<close>

section \<open>Output\<close>

text \<open>The memory behind the buffer and the offset of \<^verbatim>\<open>str\<close>; bytes at \<open>sz\<close> and beyond are counted only.\<close>

type_synonym sink = "(nat \<Rightarrow> u8) \<times> nat"

definition put_char :: "nat \<Rightarrow> u8 \<Rightarrow> sink \<Rightarrow> sink" where
  "put_char sz c = (\<lambda>(m, pos). (if pos < sz then m(pos := c) else m, pos + 1))"

text \<open>\<^verbatim>\<open>while (lo < n--)\<close> and \<^verbatim>\<open>while (--n > 0)\<close>.\<close>

function pad_post :: "nat \<Rightarrow> u8 \<Rightarrow> int \<Rightarrow> int \<Rightarrow> sink \<Rightarrow> int \<times> sink" where
  "pad_post sz c lo n sk = (if lo < n then pad_post sz c lo (n - 1) (put_char sz c sk) else (n - 1, sk))"
  by auto
termination by (relation "measure (\<lambda>(sz, c, lo, n, sk). nat (n - lo))") auto

function pad_pre :: "nat \<Rightarrow> u8 \<Rightarrow> int \<Rightarrow> sink \<Rightarrow> int \<times> sink" where
  "pad_pre sz c n sk = (if n - 1 > 0 then pad_pre sz c (n - 1) (put_char sz c sk) else (n - 1, sk))"
  by auto
termination by (relation "measure (\<lambda>(sz, c, n, sk). nat n)") auto

declare pad_post.simps [simp del] pad_pre.simps [simp del]

fun put_string :: "nat \<Rightarrow> u8 list \<Rightarrow> sink \<Rightarrow> sink" where
  "put_string sz [] sk = sk"
| "put_string sz (c # cs) sk = put_string sz cs (put_char sz c sk)"

section \<open>Numbers\<close>

record fmt_flags =
  ZEROPAD :: bool
  SIGN :: bool
  PLUS :: bool
  SPACE :: bool
  LEFT :: bool
  LARGE :: bool

text \<open>Only base 10 is decimal; every other base divides by 16.\<close>

definition divide :: "nat \<Rightarrow> u32 \<Rightarrow> nat \<times> u32" where
  "divide base n = (if base = 10 then (unat (n mod 10), n div 10) else (unat (n mod 16), n div 16))"

definition digit_char :: "bool \<Rightarrow> nat \<Rightarrow> u8" where
  "digit_char large d = (if d < 10 then 48 + of_nat d else (if large then 55 else 87) + of_nat d)"

text \<open>The digits in the temporary buffer, the lowest first.\<close>

function number_digits :: "bool \<Rightarrow> nat \<Rightarrow> u32 \<Rightarrow> u8 list" where
  "number_digits large base n =
     (if n = 0 then [] else
        let (d, n') = divide base n in digit_char large d # number_digits large base n')"
  by auto
termination
proof (relation "measure (\<lambda>(large, base, n). unat n)")
  fix base :: nat and n n' :: u32 and x d
  assume "n \<noteq> 0" "x = divide base n" "(d, n') = x"
  then show "((large, base, n'), large, base, n) \<in> measure (\<lambda>(large, base, n). unat n)" for large :: bool
    by (auto simp: divide_def unat_div unat_gt_0 split: if_splits)
qed simp

declare number_digits.simps [simp del]

definition print_number ::
    "nat \<Rightarrow> u32 \<Rightarrow> nat \<Rightarrow> int \<Rightarrow> int \<Rightarrow> fmt_flags \<Rightarrow> sink \<Rightarrow> sink" where
  "print_number sz num0 base s precision type0 sk0 =
     (let type = (if LEFT type0 then type0\<lparr>ZEROPAD := False\<rparr> else type0);
          c = (if ZEROPAD type then 48 else 32);
          (sign, num) =
            (if SIGN type
             then if sint num0 < 0 then (Some 45, - num0)
                  else if PLUS type then (Some 43, num0)
                  else if SPACE type then (Some 32, num0) else (None, num0)
             else (None, num0));
          tmp = (if num = 0 then [48] else number_digits (LARGE type) base num);
          i = int (length tmp);
          prec = (if i > precision then i else precision);
          n0 = s - prec;
          (n1, sk1) =
            (if \<not> ZEROPAD type \<and> \<not> LEFT type
             then pad_post sz 32 0 (if sign \<noteq> None \<and> n0 > 0 then n0 - 1 else n0) sk0
             else (n0, sk0));
          (n2, sk2) = (case sign of Some x \<Rightarrow> (n1 - 1, put_char sz x sk1) | None \<Rightarrow> (n1, sk1));
          (n3, sk3) = (if \<not> LEFT type then pad_post sz c 0 n2 sk2 else (n2, sk2));
          sk4 = snd (pad_post sz 48 i prec sk3);
          sk5 = (if precision \<noteq> 0 then put_string sz (rev tmp) sk4 else sk4)
      in snd (pad_post sz 32 0 n3 sk5))"

section \<open>The format\<close>

text \<open>\<open>isdigit\<close> of \<^verbatim>\<open>kservice.c\<close>, and the number at the head of the format.\<close>

fun skip_atoi :: "int \<Rightarrow> u8 list \<Rightarrow> (int \<times> u8 list) option" where
  "skip_atoi i [] = Some (i, [])"
| "skip_atoi i (c # cs) =
     (if is_digit c
      then if i * 10 + uint c < 2 ^ 31 then skip_atoi (i * 10 + uint c - 48) cs else None
      else Some (i, c # cs))"

datatype fmt_arg = AInt u32 | AStr "u8 list option"

fun fmt_parse_flags :: "u8 list \<Rightarrow> fmt_flags \<Rightarrow> fmt_flags \<times> u8 list" where
  "fmt_parse_flags [] fl = (fl, [])"
| "fmt_parse_flags (c # cs) fl =
     (if c = 45 then fmt_parse_flags cs (fl\<lparr>LEFT := True\<rparr>)
      else if c = 43 then fmt_parse_flags cs (fl\<lparr>PLUS := True\<rparr>)
      else if c = 32 then fmt_parse_flags cs (fl\<lparr>SPACE := True\<rparr>)
      else if c = 35 then fmt_parse_flags cs fl
      else if c = 48 then fmt_parse_flags cs (fl\<lparr>ZEROPAD := True\<rparr>)
      else (fl, c # cs))"

text \<open>Field width and precision, from the format or from the next argument.\<close>

definition fmt_width ::
    "u8 list \<Rightarrow> fmt_flags \<Rightarrow> fmt_arg list \<Rightarrow> (int \<times> fmt_flags \<times> u8 list \<times> fmt_arg list) option" where
  "fmt_width cs fl args =
     (case cs of
        [] \<Rightarrow> Some (-1, fl, cs, args)
      | c # cs' \<Rightarrow>
          if is_digit c then map_option (\<lambda>(w, r). (w, fl, r, args)) (skip_atoi 0 cs)
          else if c = 42
          then (case args of
              AInt w # args' \<Rightarrow>
                if sint w = - (2 ^ 31) then None
                else if sint w < 0 then Some (- sint w, fl\<lparr>LEFT := True\<rparr>, cs', args')
                else Some (sint w, fl, cs', args')
            | _ \<Rightarrow> None)
          else Some (-1, fl, cs, args))"

definition fmt_precision :: "u8 list \<Rightarrow> fmt_arg list \<Rightarrow> (int \<times> u8 list \<times> fmt_arg list) option" where
  "fmt_precision cs args =
     (case cs of
        [] \<Rightarrow> Some (-1, cs, args)
      | c # cs' \<Rightarrow>
          if c \<noteq> 46 then Some (-1, cs, args)
          else (case cs' of
              [] \<Rightarrow> Some (0, cs', args)
            | d # cs'' \<Rightarrow>
                if is_digit d then map_option (\<lambda>(p, r). (p, r, args)) (skip_atoi 0 cs')
                else if d = 42
                then (case args of AInt w # args' \<Rightarrow> Some (max 0 (sint w), cs'', args') | _ \<Rightarrow> None)
                else Some (0, cs', args)))"

text \<open>The qualifier: 0, \<^verbatim>\<open>'h'\<close> or \<^verbatim>\<open>'l'\<close>.\<close>

definition fmt_qualifier :: "u8 list \<Rightarrow> u8 \<times> u8 list" where
  "fmt_qualifier cs = (case cs of
     c # cs' \<Rightarrow> if c = 104 \<or> c = 108 then (c, cs') else (0, cs)
   | [] \<Rightarrow> (0, cs))"

text \<open>An integer argument, cut to its sz and extended again.\<close>

definition fmt_integer :: "u8 \<Rightarrow> bool \<Rightarrow> u32 \<Rightarrow> u32" where
  "fmt_integer qualifier sign w =
     (if qualifier = 104
      then if sign then scast (ucast w :: 16 word) else ucast (ucast w :: 16 word)
      else w)"

definition put_chr :: "nat \<Rightarrow> u32 \<Rightarrow> int \<Rightarrow> fmt_flags \<Rightarrow> sink \<Rightarrow> sink" where
  "put_chr sz w field_width fl sk0 =
     (let (fw, sk1) = (if \<not> LEFT fl then pad_pre sz 32 field_width sk0 else (field_width, sk0));
          sk2 = put_char sz (ucast w) sk1
      in snd (pad_pre sz 32 fw sk2))"

text \<open>\<^verbatim>\<open>"(NULL)"\<close> stands for the null pointer.\<close>

definition put_str :: "nat \<Rightarrow> u8 list option \<Rightarrow> int \<Rightarrow> int \<Rightarrow> fmt_flags \<Rightarrow> sink \<Rightarrow> sink" where
  "put_str sz arg field_width precision fl sk0 =
     (let s = (case arg of Some s \<Rightarrow> s | None \<Rightarrow> [40, 78, 85, 76, 76, 41]);
          len = (if precision > 0 \<and> int (length s) > precision then precision else int (length s));
          (fw, sk1) = (if \<not> LEFT fl then pad_post sz 32 len field_width sk0 else (field_width, sk0));
          sk2 = put_string sz (take (nat len) s) sk1
      in snd (pad_post sz 32 len fw sk2))"

text \<open>What follows the \<^verbatim>\<open>%\<close>: what to output, and the rest of the format and of the arguments.\<close>

datatype conversion =
    CText "u8 list"
  | CChr u32 int fmt_flags
  | CStr "u8 list option" int int fmt_flags
  | CNum u32 nat int int fmt_flags

definition no_flags :: fmt_flags where
  "no_flags = \<lparr>ZEROPAD = False, SIGN = False, PLUS = False, SPACE = False, LEFT = False, LARGE = False\<rparr>"

text \<open>The base and the flags of an integer conversion.\<close>

definition fmt_base :: "u8 \<Rightarrow> fmt_flags \<Rightarrow> (nat \<times> fmt_flags) option" where
  "fmt_base c fl =
     (if c = 111 then Some (8, fl)
      else if c = 88 then Some (16, fl\<lparr>LARGE := True\<rparr>)
      else if c = 120 then Some (16, fl)
      else if c = 100 \<or> c = 105 then Some (10, fl\<lparr>SIGN := True\<rparr>)
      else if c = 117 then Some (10, fl) else None)"

definition fmt_convert ::
    "u8 \<Rightarrow> u8 \<Rightarrow> int \<Rightarrow> int \<Rightarrow> fmt_flags \<Rightarrow> fmt_arg list \<Rightarrow> (conversion \<times> fmt_arg list) option" where
  "fmt_convert c qualifier field_width precision fl args =
     (if c = 99 then (case args of AInt w # args' \<Rightarrow> Some (CChr w field_width fl, args') | _ \<Rightarrow> None)
      else if c = 115 then (case args of AStr s # args' \<Rightarrow> Some (CStr s field_width precision fl, args') | _ \<Rightarrow> None)
      else if c = 112
      then (case args of
          AInt w # args' \<Rightarrow>
            Some (if field_width = -1 then CNum w 16 8 precision (fl\<lparr>ZEROPAD := True\<rparr>)
                  else CNum w 16 field_width precision fl, args')
        | _ \<Rightarrow> None)
      else if c = 37 then Some (CText [37], args)
      else case fmt_base c fl of
          None \<Rightarrow> Some (CText [37, c], args)
        | Some (base, fl') \<Rightarrow> (case args of
            AInt w # args' \<Rightarrow>
              Some (CNum (fmt_integer qualifier (SIGN fl') w) base field_width precision fl', args')
          | _ \<Rightarrow> None))"

definition fmt_directive ::
    "u8 list \<Rightarrow> fmt_arg list \<Rightarrow> (conversion \<times> u8 list \<times> fmt_arg list) option" where
  "fmt_directive cs0 args0 = do {
     let (fl0, cs1) = fmt_parse_flags cs0 no_flags;
     (field_width, fl, cs2, args1) \<leftarrow> fmt_width cs1 fl0 args0;
     (precision, cs3, args2) \<leftarrow> fmt_precision cs2 args1;
     let (qualifier, cs4) = fmt_qualifier cs3;
     case cs4 of
       [] \<Rightarrow> Some (CText [37], [], args2)
     | c # cs \<Rightarrow> map_option (\<lambda>(cv, args). (cv, cs, args)) (fmt_convert c qualifier field_width precision fl args2)
   }"

fun put_conversion :: "nat \<Rightarrow> conversion \<Rightarrow> sink \<Rightarrow> sink" where
  "put_conversion sz (CText s) sk = put_string sz s sk"
| "put_conversion sz (CChr w field_width fl) sk = put_chr sz w field_width fl sk"
| "put_conversion sz (CStr s field_width precision fl) sk = put_str sz s field_width precision fl sk"
| "put_conversion sz (CNum w base field_width precision fl) sk =
     print_number sz w base field_width precision fl sk"

lemma skip_atoi_length: "skip_atoi i cs = Some (n, r) \<Longrightarrow> length r \<le> length cs"
  by (induction i cs rule: skip_atoi.induct) (auto split: if_splits)

lemma flags_length: "fmt_parse_flags cs fl = (fl', r) \<Longrightarrow> length r \<le> length cs"
  by (induction cs fl rule: fmt_parse_flags.induct) (auto split: if_splits dest: le_SucI)

lemma width_length: "fmt_width cs fl args = Some (w, fl', r, args') \<Longrightarrow> length r \<le> length cs"
  by (auto simp: fmt_width_def split: list.splits fmt_arg.splits if_splits dest!: skip_atoi_length)

lemma precision_length: "fmt_precision cs args = Some (p, r, args') \<Longrightarrow> length r \<le> length cs"
  by (auto simp: fmt_precision_def split: list.splits fmt_arg.splits if_splits dest!: skip_atoi_length)

lemma qualifier_length: "fmt_qualifier cs = (q, r) \<Longrightarrow> length r \<le> length cs"
  by (auto simp: fmt_qualifier_def split: list.splits if_splits)

lemma directive_length:
  assumes "fmt_directive cs args = Some (cv, r, args')"
  shows "length r \<le> length cs"
proof -
  obtain fl0 cs1 where p: "fmt_parse_flags cs no_flags = (fl0, cs1)" by fastforce
  obtain w fl cs2 args1 where w: "fmt_width cs1 fl0 args = Some (w, fl, cs2, args1)"
    using assms p by (auto simp: fmt_directive_def Option.bind_eq_Some_conv)
  obtain pr cs3 args2 where pr: "fmt_precision cs2 args1 = Some (pr, cs3, args2)"
    using assms p w by (auto simp: fmt_directive_def Option.bind_eq_Some_conv)
  obtain q cs4 where q: "fmt_qualifier cs3 = (q, cs4)" by fastforce
  have "length r \<le> length cs4"
    using assms p w pr q by (cases cs4) (auto simp: fmt_directive_def)
  then show ?thesis
    using flags_length [OF p] width_length [OF w] precision_length [OF pr] qualifier_length [OF q] by linarith
qed

function fmt_loop :: "nat \<Rightarrow> u8 list \<Rightarrow> fmt_arg list \<Rightarrow> sink \<Rightarrow> sink option" where
  "fmt_loop sz [] args sk = Some sk"
| "fmt_loop sz (c # cs) args sk =
     (if c \<noteq> 37 then fmt_loop sz cs args (put_char sz c sk)
      else case fmt_directive cs args of
          None \<Rightarrow> None
        | Some (cv, cs', args') \<Rightarrow> fmt_loop sz cs' args' (put_conversion sz cv sk))"
  by pat_completeness auto
termination by (relation "measure (\<lambda>(sz, cs, args, sk). length cs)") (auto dest!: directive_length simp: less_Suc_eq_le)

text \<open>\<open>addr\<close> is the address of the buffer: the end of a buffer that is too long for the address space is
  the last address.\<close>

definition rt_vsnprintf ::
    "u32 \<Rightarrow> u32 \<Rightarrow> u8 list \<Rightarrow> fmt_arg list \<Rightarrow> (nat \<Rightarrow> u8) \<Rightarrow> ((nat \<Rightarrow> u8) \<times> nat) option" where
  "rt_vsnprintf addr size0 fmt args m = do {
     let sz = (if addr + size0 < addr then unat (- 1 - addr) else unat size0);
     (m1, pos) \<leftarrow> fmt_loop sz fmt args (m, 0);
     Some (if sz > 0 then if pos < sz then m1(pos := 0) else m1(sz - 1 := 0) else m1, pos)
   }"

definition rt_snprintf where
  "rt_snprintf addr size0 fmt args m = rt_vsnprintf addr size0 fmt args m"

definition rt_vsprintf where
  "rt_vsprintf addr fmt args m = rt_vsnprintf addr (- 1) fmt args m"

definition rt_sprintf where
  "rt_sprintf addr fmt args m = rt_vsprintf addr fmt args m"

text \<open>What \<^verbatim>\<open>rt_kprintf\<close> sends to the console device: the bytes of its static buffer.\<close>

abbreviation "RT_CONSOLEBUF_SIZE \<equiv> (256 :: nat)"

definition rt_kprintf :: "u32 \<Rightarrow> u8 list \<Rightarrow> fmt_arg list \<Rightarrow> (nat \<Rightarrow> u8) \<Rightarrow> (u8 list \<times> (nat \<Rightarrow> u8)) option" where
  "rt_kprintf addr fmt args m = do {
     (m1, n) \<leftarrow> rt_vsnprintf addr (of_nat (RT_CONSOLEBUF_SIZE - 1)) fmt args m;
     Some (map m1 [0..<(if n > RT_CONSOLEBUF_SIZE - 1 then RT_CONSOLEBUF_SIZE - 1 else n)], m1)
   }"

section \<open>The text and its truncation\<close>

definition puts :: "nat \<Rightarrow> u8 list \<Rightarrow> sink \<Rightarrow> sink" where
  "puts sz t = (\<lambda>(m, pos).
     (\<lambda>i. if pos \<le> i \<and> i < pos + length t \<and> i < sz then t ! (i - pos) else m i, pos + length t))"

lemma puts_Nil [simp]: "puts sz [] sk = sk"
  by (cases sk) (auto simp: puts_def fun_eq_iff)

lemma puts_char: "put_char sz c sk = puts sz [c] sk"
  by (cases sk) (auto simp: put_char_def puts_def fun_eq_iff)

lemma puts_puts [simp]: "puts sz t (puts sz s sk) = puts sz (s @ t) sk"
  by (cases sk) (auto simp: puts_def fun_eq_iff nth_append)

lemma put_string_puts [simp]: "put_string sz s sk = puts sz s sk"
  by (induction s arbitrary: sk) (simp_all add: puts_char)

lemma pad_post_puts:
  "pad_post sz c lo n sk = (min lo n - 1, puts sz (replicate (nat (n - lo)) c) sk)"
proof (induction sz c lo n sk rule: pad_post.induct)
  case (1 sz c lo n sk)
  show ?case
  proof (cases "lo < n")
    case True
    then have "nat (n - lo) = Suc (nat (n - 1 - lo))" by simp
    then show ?thesis using True "1.IH" [OF True]
      by (simp add: pad_post.simps [of sz c lo n] puts_char min_def)
  next
    case False
    then show ?thesis by (simp add: pad_post.simps [of sz c lo n])
  qed
qed

lemma pad_pre_puts:
  "pad_pre sz c n sk = (min 1 n - 1, puts sz (replicate (nat (n - 1)) c) sk)"
proof (induction sz c n sk rule: pad_pre.induct)
  case (1 sz c n sk)
  show ?case
  proof (cases "n - 1 > 0")
    case True
    then have "nat (n - 1) = Suc (nat (n - 1 - 1))" by simp
    then show ?thesis using True "1.IH" [OF True]
      by (simp add: pad_pre.simps [of sz c n] puts_char min_def)
  next
    case False
    then show ?thesis by (simp add: pad_pre.simps [of sz c n])
  qed
qed

section \<open>The text of a conversion\<close>

abbreviation chars_of :: "int \<Rightarrow> u8 \<Rightarrow> u8 list" where
  "chars_of n c \<equiv> replicate (nat n) c"

text \<open>The sign and the absolute value of a number.\<close>

definition number_sign :: "fmt_flags \<Rightarrow> u32 \<Rightarrow> u8 list" where
  "number_sign fl w =
     (if \<not> SIGN fl then [] else if sint w < 0 then [45] else if PLUS fl then [43] else if SPACE fl then [32] else [])"

definition number_abs :: "fmt_flags \<Rightarrow> u32 \<Rightarrow> u32" where
  "number_abs fl w = (if SIGN fl \<and> sint w < 0 then - w else w)"

definition number_body :: "fmt_flags \<Rightarrow> nat \<Rightarrow> u32 \<Rightarrow> u8 list" where
  "number_body fl base w =
     (let n = number_abs fl w in if n = 0 then [48] else rev (number_digits (LARGE fl) base n))"

text \<open>Padding, sign and digits: at the left end with the flag \<^verbatim>\<open>-\<close>, else at the right end, behind the
  sign with the flag \<^verbatim>\<open>0\<close> and in front of it without. A precision of 0 leaves no digit.\<close>

definition number_text :: "u32 \<Rightarrow> nat \<Rightarrow> int \<Rightarrow> int \<Rightarrow> fmt_flags \<Rightarrow> u8 list" where
  "number_text w base field_width precision fl =
     (let sign = number_sign fl w; body = number_body fl base w; len = int (length body);
          digits = chars_of (precision - len) 48 @ (if precision = 0 then [] else body);
          fill = field_width - max len precision - int (length sign)
      in if LEFT fl then sign @ digits @ chars_of fill 32
         else if ZEROPAD fl then sign @ chars_of fill 48 @ digits
         else chars_of fill 32 @ sign @ digits)"

lemma nat_zero_pad: "n \<le> 0 \<Longrightarrow> chars_of n c = []" by simp

lemma print_number_text: "print_number sz w base s precision fl sk = puts sz (number_text w base s precision fl) sk"
proof -
  define ty where "ty = (if LEFT fl then fl\<lparr>ZEROPAD := False\<rparr> else fl)"
  have ty: "SIGN ty = SIGN fl" "PLUS ty = PLUS fl" "SPACE ty = SPACE fl" "LEFT ty = LEFT fl" "LARGE ty = LARGE fl"
    "ZEROPAD ty \<longleftrightarrow> ZEROPAD fl \<and> \<not> LEFT fl" by (simp_all add: ty_def)
  define sg where "sg = (if SIGN fl then if sint w < 0 then Some (45 :: u8)
    else if PLUS fl then Some 43 else if SPACE fl then Some 32 else None else None)"
  define tmp where "tmp = (if number_abs fl w = 0 then [48] else number_digits (LARGE fl) base (number_abs fl w))"
  have sn: "(if SIGN ty then if sint w < 0 then (Some 45, - w) else if PLUS ty then (Some 43, w)
      else if SPACE ty then (Some 32, w) else (None, w) else (None, w)) = (sg, number_abs fl w)"
    by (simp add: sg_def number_abs_def ty)
  have sign: "number_sign fl w = (case sg of None \<Rightarrow> [] | Some x \<Rightarrow> [x])"
    by (simp add: sg_def number_sign_def)
  have body: "number_body fl base w = rev tmp" by (simp add: tmp_def number_body_def Let_def)
  define i where "i = int (length tmp)"
  have prec: "(if i > precision then i else precision) = max i precision" by simp
  have zeros: "nat (max i precision - i) = nat (precision - i)" by simp
  have pn: "print_number sz w base s precision fl sk =
     (let n0 = s - max i precision;
          (n1, sk1) = (if \<not> ZEROPAD ty \<and> \<not> LEFT ty
             then pad_post sz 32 0 (if sg \<noteq> None \<and> n0 > 0 then n0 - 1 else n0) sk else (n0, sk));
          (n2, sk2) = (case sg of Some x \<Rightarrow> (n1 - 1, put_char sz x sk1) | None \<Rightarrow> (n1, sk1));
          (n3, sk3) = (if \<not> LEFT ty then pad_post sz (if ZEROPAD ty then 48 else 32) 0 n2 sk2 else (n2, sk2));
          sk4 = snd (pad_post sz 48 i (max i precision) sk3);
          sk5 = (if precision \<noteq> 0 then put_string sz (rev tmp) sk4 else sk4)
      in snd (pad_post sz 32 0 n3 sk5))"
    unfolding print_number_def Let_def ty_def [symmetric] sn prod.case
    by (simp only: ty(5) tmp_def [symmetric] i_def [symmetric] prec)
  have nt: "number_text w base s precision fl =
     (let sign = (case sg of None \<Rightarrow> [] | Some x \<Rightarrow> [x]); fill = s - max i precision - int (length sign);
          digits = chars_of (precision - i) 48 @ (if precision = 0 then [] else rev tmp)
      in if LEFT fl then sign @ digits @ chars_of fill 32
         else if ZEROPAD fl then sign @ chars_of fill 48 @ digits
         else chars_of fill 32 @ sign @ digits)"
    by (simp add: number_text_def sign body i_def Let_def)
  define mx where "mx = max i precision"
  have z: "nat (mx - i) = nat (precision - i)" unfolding mx_def by (rule zeros)
  show ?thesis
    unfolding pn nt mx_def [symmetric]
    by (cases sg; cases "LEFT fl"; cases "ZEROPAD fl"; cases "0 < s - mx"; cases "precision \<noteq> 0")
      (simp_all only: ty pad_post_puts z puts_char Let_def if_True if_False simp_thms option.case option.distinct
        prod.case snd_conv put_string_puts puts_puts append_assoc, simp_all add: min_def)
qed

text \<open>A character or a string in its field; a precision above 0 cuts a string.\<close>

definition field :: "u8 list \<Rightarrow> int \<Rightarrow> fmt_flags \<Rightarrow> u8 list" where
  "field s field_width fl =
     (let fill = chars_of (field_width - int (length s)) 32 in if LEFT fl then s @ fill else fill @ s)"

definition string_text :: "u8 list option \<Rightarrow> int \<Rightarrow> u8 list" where
  "string_text arg precision =
     (let s = (case arg of Some s \<Rightarrow> s | None \<Rightarrow> [40, 78, 85, 76, 76, 41])
      in if precision > 0 then take (nat precision) s else s)"

fun conversion_text :: "conversion \<Rightarrow> u8 list" where
  "conversion_text (CText s) = s"
| "conversion_text (CChr w field_width fl) = field [ucast w] field_width fl"
| "conversion_text (CStr s field_width precision fl) = field (string_text s precision) field_width fl"
| "conversion_text (CNum w base field_width precision fl) = number_text w base field_width precision fl"

lemma put_str_text: "put_str sz arg fw precision fl sk = puts sz (field (string_text arg precision) fw fl) sk"
proof -
  define s where "s = (case arg of Some s \<Rightarrow> s | None \<Rightarrow> [40, 78, 85, 76, 76, 41])"
  define len where "len = (if precision > 0 \<and> int (length s) > precision then precision else int (length s))"
  have st: "string_text arg precision = take (nat len) s"
    by (auto simp: string_text_def s_def [symmetric] len_def)
  have l: "int (length (take (nat len) s)) = len" by (auto simp: len_def)
  have "put_str sz arg fw precision fl sk =
     (let (n, sk1) = (if \<not> LEFT fl then pad_post sz 32 len fw sk else (fw, sk))
      in snd (pad_post sz 32 len n (put_string sz (take (nat len) s) sk1)))"
    by (simp add: put_str_def s_def [symmetric] len_def [symmetric] Let_def)
  then show ?thesis unfolding st field_def Let_def l
    by (cases "LEFT fl") (simp_all add: pad_post_puts)
qed

lemma put_conversion_text: "put_conversion sz cv sk = puts sz (conversion_text cv) sk"
proof (cases cv)
  case (CChr w fw fl)
  then show ?thesis by (cases "LEFT fl") (simp_all add: put_chr_def field_def Let_def pad_pre_puts puts_char)
qed (simp_all add: put_str_text print_number_text)

text \<open>The whole text a format stands for.\<close>

function format_text :: "u8 list \<Rightarrow> fmt_arg list \<Rightarrow> u8 list option" where
  "format_text [] args = Some []"
| "format_text (c # cs) args =
     (if c \<noteq> 37 then map_option ((#) c) (format_text cs args)
      else case fmt_directive cs args of
          None \<Rightarrow> None
        | Some (cv, cs', args') \<Rightarrow> map_option ((@) (conversion_text cv)) (format_text cs' args'))"
  by pat_completeness auto
termination by (relation "measure (\<lambda>(cs, args). length cs)") (auto dest!: directive_length simp: less_Suc_eq_le)

lemma fmt_loop_text: "fmt_loop sz cs args sk = map_option (\<lambda>t. puts sz t sk) (format_text cs args)"
proof (induction sz cs args sk rule: fmt_loop.induct)
  case (2 sz c cs args sk)
  show ?case
  proof (cases "c = 37")
    case False
    then show ?thesis using "2.IH"(1) by (cases "format_text cs args") (simp_all add: puts_char)
  next
    case True
    show ?thesis
    proof (cases "fmt_directive cs args")
      case (Some x)
      obtain cv cs' args' where x: "x = (cv, cs', args')" by (cases x)
      have "fmt_loop sz cs' args' (put_conversion sz cv sk) =
          map_option (\<lambda>t. puts sz t (put_conversion sz cv sk)) (format_text cs' args')"
        by (rule "2.IH"(2) [of x cv "(cs', args')" cs' args']) (use True Some x in simp_all)
      then have "fmt_loop sz (c # cs) args sk =
          map_option (\<lambda>t. puts sz t (put_conversion sz cv sk)) (format_text cs' args')"
        using True Some x by simp
      then show ?thesis using True Some x
        by (cases "format_text cs' args'") (simp_all add: put_conversion_text)
    qed (simp add: True)
  qed
qed simp

lemma puts_start: "puts sz t (m, 0) = (\<lambda>i. if i < length t \<and> i < sz then t ! i else m i, length t)"
  by (auto simp: puts_def fun_eq_iff)

text \<open>C38: for a buffer of any size \<open>rt_vsnprintf\<close> writes the same text, cut to leave room for the
  terminating zero, writes nothing else, and returns the length of the whole text.\<close>

theorem vsnprintf_correct:
  assumes addr: "addr + sz \<ge> addr"
  shows "rt_vsnprintf addr sz fmt args m = map_option (\<lambda>t.
    (\<lambda>i. if unat sz = 0 then m i
         else if i < min (length t) (unat sz - 1) then t ! i
         else if i = min (length t) (unat sz - 1) then 0 else m i, length t)) (format_text fmt args)"
proof (cases "format_text fmt args")
  case (Some t)
  let ?n = "unat sz"
  have "\<not> addr + sz < addr" using addr by simp
  then have "rt_vsnprintf addr sz fmt args m = Some (if ?n > 0 then if length t < ?n
      then (\<lambda>i. if i < length t \<and> i < ?n then t ! i else m i)(length t := 0)
      else (\<lambda>i. if i < length t \<and> i < ?n then t ! i else m i)(?n - 1 := 0)
      else (\<lambda>i. if i < length t \<and> i < ?n then t ! i else m i), length t)"
    using Some by (simp add: rt_vsnprintf_def fmt_loop_text puts_start Let_def)
  also have "\<dots> = Some (\<lambda>i. if ?n = 0 then m i
      else if i < min (length t) (?n - 1) then t ! i
      else if i = min (length t) (?n - 1) then 0 else m i, length t)"
    by (auto simp: fun_eq_iff)
  finally show ?thesis using Some by simp
qed (simp add: rt_vsnprintf_def fmt_loop_text Let_def)

text \<open>The buffer holds a text that fits it, as a string of C.\<close>

lemma vsnprintf_fits:
  assumes "addr + sz \<ge> addr" and "format_text fmt args = Some t"
  obtains m' where "rt_vsnprintf addr sz fmt args m = Some (m', length t)"
    and "length t < unat sz \<longrightarrow> map m' [0..<length t] = t \<and> m' (length t) = 0"
proof -
  have "\<not> addr + sz < addr" using assms(1) by simp
  then obtain m' where "rt_vsnprintf addr sz fmt args m = Some (m', length t)"
    and "length t < unat sz \<Longrightarrow> m' = (\<lambda>i. if i < length t \<and> i < unat sz then t ! i else m i)(length t := 0)"
    using assms(2) by (auto simp: rt_vsnprintf_def fmt_loop_text puts_start Let_def)
  then show thesis by (intro that) (auto intro: nth_equalityI)
qed

section \<open>Decimal numbers\<close>

lemma digit_char_digit: "d < 10 \<Longrightarrow> digit (digit_char l d) = int d \<and> is_digit (digit_char l d)"
proof -
  assume d: "d < 10"
  have "unat (48 + of_nat d :: u8) = 48 + d"
    using d by (simp add: unat_word_ariths unat_of_nat)
  then show ?thesis using d by (simp add: digit_char_def digit_def is_digit_def)
qed

lemma number_digits_value:
  "(\<forall>c \<in> set (number_digits l 10 n). is_digit c) \<and> int_of_digits (rev (number_digits l 10 n)) = uint n"
proof (induction l "10 :: nat" n rule: number_digits.induct)
  case (1 l n)
  show ?case
  proof (cases "n = 0")
    case False
    have eq: "number_digits l 10 n = digit_char l (unat (n mod 10)) # number_digits l 10 (n div 10)"
      using False by (simp add: number_digits.simps [of l 10 n] divide_def)
    have d: "unat (n mod 10) < 10" by (simp add: unat_mod)
    have ih: "(\<forall>c \<in> set (number_digits l 10 (n div 10)). is_digit c) \<and>
        int_of_digits (rev (number_digits l 10 (n div 10))) = uint (n div 10)"
      by (rule "1.hyps" [OF False]) (simp_all add: divide_def)
    have "10 * uint (n div 10) + uint (n mod 10) = uint n" by (simp add: uint_div uint_mod)
    then show ?thesis using ih digit_char_digit [OF d, of l] unfolding eq by simp
  qed (simp add: number_digits.simps [of l 10 0])
qed

lemma int_of_digits_zeros: "int_of_digits (replicate k 48 @ ds) = int_of_digits ds"
proof -
  have "foldl (\<lambda>n c. 10 * n + digit c) 0 (replicate k 48) = 0" by (induction k) (simp_all add: digit_def)
  then show ?thesis by (simp add: int_of_digits_def)
qed

lemma atoi_signed:
  assumes ds: "ds \<noteq> []" "\<forall>c \<in> set ds. is_digit c" and sg: "sg \<in> {[], [43], [45]}"
    and v: "v = (if sg = [45] then - int_of_digits ds else int_of_digits ds)" "- (2 ^ 31) \<le> v" "v < 2 ^ 31"
  shows "atoi (replicate k 32 @ sg @ ds @ replicate j 32) = Some v"
proof -
  have d: "is_digit c \<Longrightarrow> \<not> is_space c \<and> c \<noteq> 43 \<and> c \<noteq> 45" for c
    by (auto simp: is_digit_def digit_def is_space_def)
  have nd: "\<not> is_digit 32" by (simp add: is_digit_def digit_def)
  have sp: "is_space 32" "\<not> is_space 43" "\<not> is_space 45" by (simp_all add: is_space_def)
  obtain c r where cr: "ds = c # r" using ds(1) by (cases ds) auto
  have c: "is_digit c" "\<not> is_space c" "c \<noteq> 43" "c \<noteq> 45" using ds(2) cr d by auto
  have drop: "dropWhile is_space (replicate k 32 @ sg @ ds @ replicate j 32) = sg @ ds @ replicate j 32"
    using sg c(2) sp by (auto simp: dropWhile_append cr)
  have take: "takeWhile is_digit (ds @ replicate j 32) = ds"
    using ds(2) nd by (cases j) (simp_all add: takeWhile_append takeWhile_eq_all_conv)
  have h: "hd (ds @ replicate j 32) = c" "ds @ replicate j 32 \<noteq> []" by (simp_all add: cr)
  have "sg = [] \<or> sg = [43] \<or> sg = [45]" using sg by auto
  define L where "L = sg @ ds @ replicate j 32"
  have "(if L \<noteq> [] \<and> hd L = 45 then - int_of_digits ds else int_of_digits ds) = v"
    using \<open>sg = [] \<or> sg = [43] \<or> sg = [45]\<close> v(1) c(3,4) h ds(1) by (auto simp: L_def)
  moreover have "takeWhile is_digit (if L \<noteq> [] \<and> hd L \<in> {43, 45} then tl L else L) = ds"
    using \<open>sg = [] \<or> sg = [43] \<or> sg = [45]\<close> c(3,4) h take by (auto simp: L_def)
  moreover have dropL: "dropWhile is_space (replicate k 32 @ L) = L" using drop by (simp only: L_def)
  ultimately have "atoi (replicate k 32 @ sg @ ds @ replicate j 32) =
      (if - (2 ^ 31) \<le> v \<and> v < 2 ^ 31 then Some v else None)"
    unfolding atoi_def L_def [symmetric] dropL Let_def by (simp only:)
  then show ?thesis using v(2,3) by simp
qed

lemma uint_of_int_id: "0 \<le> n \<Longrightarrow> n < 2 ^ 32 \<Longrightarrow> uint (word_of_int n :: u32) = n"
  by (simp add: unsigned_of_int take_bit_int_eq_self)

lemma uint_neg:
  assumes "sint w < 0" shows "uint (- w) = - sint (w :: u32)"
proof -
  have "- (2 ^ 31) \<le> sint w" using sint_ge [of w] by simp
  then have "uint (word_of_int (- sint w) :: u32) = - sint w" using assms by (intro uint_of_int_id) simp_all
  moreover have "word_of_int (- sint w) = - w" by simp
  ultimately show ?thesis by argo
qed

lemma uint_pos:
  assumes "\<not> sint w < 0" shows "uint w = sint (w :: u32)"
proof -
  have "sint w < 2 ^ 31" using sint_lt [of w] by simp
  then have "uint (word_of_int (sint w) :: u32) = sint w" using assms by (intro uint_of_int_id) simp_all
  moreover have "word_of_int (sint w) = w" by simp
  ultimately show ?thesis by argo
qed

text \<open>The digits of a number in base 10, with any padding.\<close>

lemma number_body_value:
  "number_body fl 10 w \<noteq> [] \<and> (\<forall>c \<in> set (number_body fl 10 w). is_digit c) \<and>
    int_of_digits (number_body fl 10 w) = uint (number_abs fl w)"
proof (cases "number_abs fl w = 0")
  case True
  then show ?thesis by (simp add: number_body_def is_digit_def digit_def int_of_digits_def)
next
  case False
  then have "number_digits (LARGE fl) 10 (number_abs fl w) \<noteq> []"
    by (simp add: number_digits.simps [of "LARGE fl" 10] divide_def)
  then show ?thesis using False number_digits_value [of "LARGE fl" "number_abs fl w"]
    by (simp add: number_body_def)
qed

text \<open>The text of a number in base 10 is read back by the number parser of the C library.\<close>

lemma number_text_parses:
  assumes sg: "SIGN fl" and p: "precision \<noteq> 0"
  shows "atoi (number_text w 10 field_width precision fl) = Some (sint w)"
proof -
  let ?b = "number_body fl 10 w"
  let ?len = "int (length ?b)"
  let ?z = "chars_of (precision - ?len) 48"
  let ?fill = "field_width - max ?len precision - int (length (number_sign fl w))"
  have b: "?b \<noteq> []" "\<forall>c \<in> set ?b. is_digit c" "int_of_digits ?b = uint (number_abs fl w)"
    using number_body_value [of fl w] by simp_all
  have d48: "is_digit 48" by (simp add: is_digit_def digit_def)
  have v: "sint w = (if sint w < 0 then - uint (number_abs fl w) else uint (number_abs fl w))"
    using sg uint_neg uint_pos by (simp add: number_abs_def)
  have r: "- (2 ^ 31) \<le> sint w" "sint w < 2 ^ 31" using sint_ge [of w] sint_lt [of w] by simp_all
  have main: "atoi (replicate k 32 @ s @ (replicate z 48 @ ?b) @ replicate j 32) = Some (sint w)"
    if "s \<in> {[], [43], [45]}" "s = [45] \<longleftrightarrow> sint w < 0" for k s z j
  proof (rule atoi_signed [OF _ _ that(1)])
    show "sint w = (if s = [45] then - int_of_digits (replicate z 48 @ ?b) else int_of_digits (replicate z 48 @ ?b))"
      unfolding int_of_digits_zeros b(3) using v that(2) by argo
  qed (use b d48 r in auto)
  obtain k0 s where s: "number_sign fl w = replicate k0 32 @ s" "s \<in> {[], [43], [45]}" "s = [45] \<longleftrightarrow> sint w < 0"
  proof (cases "\<not> sint w < 0 \<and> \<not> PLUS fl \<and> SPACE fl")
    case True
    then show ?thesis using that [of 1 "[]"] sg by (simp add: number_sign_def)
  next
    case False
    then show ?thesis using that [of 0 "number_sign fl w"] sg by (auto simp: number_sign_def)
  qed
  show ?thesis
  proof (cases "LEFT fl")
    case True
    then show ?thesis
      using main [OF s(2,3), of k0 "nat (precision - ?len)" "nat ?fill"] p by (simp add: number_text_def Let_def s(1))
  next
    case False
    show ?thesis
    proof (cases "ZEROPAD fl")
      case True
      then show ?thesis
        using main [OF s(2,3), of k0 "nat ?fill + nat (precision - ?len)" 0] p False
        by (simp add: number_text_def Let_def s(1) replicate_add)
    next
      case nz: False
      then show ?thesis
        using main [OF s(2,3), of "nat ?fill + k0" "nat (precision - ?len)" 0] p False
        by (simp add: number_text_def Let_def s(1) replicate_add)
    qed
  qed
qed

text \<open>The width of the field is kept: a number that needs less is filled up, one that needs more is not cut.\<close>

lemma number_text_length:
  assumes p: "precision \<noteq> 0"
  shows "int (length (number_text w base field_width precision fl)) =
    max field_width (max (int (length (number_body fl base w))) precision + int (length (number_sign fl w)))"
  using p by (cases "LEFT fl"; cases "ZEROPAD fl") (simp_all add: number_text_def Let_def)

text \<open>How the parser reads a directive for a signed number: flags, a width and a precision of up to nine digits,
  an optional \<^verbatim>\<open>l\<close> and the letter.\<close>

abbreviation "flag_chars \<equiv> {32, 35, 43, 45, 48 :: u8}"

lemma parse_flags_all:
  "set fls \<subseteq> flag_chars \<Longrightarrow> cs \<noteq> [] \<Longrightarrow> hd cs \<notin> flag_chars \<Longrightarrow> \<exists>fl'. fmt_parse_flags (fls @ cs) fl = (fl', cs)"
proof (induction fls arbitrary: fl)
  case Nil
  then show ?case by (cases cs) auto
qed auto

lemma digits_grow:
  "\<forall>c \<in> set ds. is_digit c \<Longrightarrow> 0 \<le> i \<Longrightarrow> i \<le> foldl (\<lambda>n c. 10 * n + digit c) i ds"
proof (induction ds arbitrary: i)
  case (Cons c ds)
  then have "0 \<le> digit c" by (simp add: is_digit_def)
  then show ?case using Cons.IH [of "10 * i + digit c"] Cons.prems by simp
qed simp

lemma skip_atoi_all:
  assumes "\<forall>c \<in> set ds. is_digit c" and "cs = [] \<or> \<not> is_digit (hd cs)" and "0 \<le> i"
    and "foldl (\<lambda>n c. 10 * n + digit c) i ds + 48 < 2 ^ 31"
  shows "skip_atoi i (ds @ cs) = Some (foldl (\<lambda>n c. 10 * n + digit c) i ds, cs)"
  using assms
proof (induction ds arbitrary: i)
  case Nil
  then show ?case by (cases cs) auto
next
  case (Cons c ds)
  then have c: "0 \<le> digit c" "is_digit c" by (simp_all add: is_digit_def)
  have u: "uint c = digit c + 48" by (simp add: digit_def)
  have "10 * i + digit c \<le> foldl (\<lambda>n c. 10 * n + digit c) (10 * i + digit c) ds"
    using Cons.prems c by (intro digits_grow) auto
  then have "i * 10 + uint c < 2 ^ 31" using Cons.prems(4) u by simp
  moreover have "i * 10 + uint c - 48 = 10 * i + digit c" using u by simp
  ultimately have "skip_atoi i ((c # ds) @ cs) = skip_atoi (10 * i + digit c) (ds @ cs)"
    using c(2) by (simp only: append_Cons skip_atoi.simps if_True)
  then show ?case using Cons.IH [of "10 * i + digit c"] Cons.prems c by simp
qed

lemma skip_atoi_number:
  assumes "\<forall>c \<in> set ds. is_digit c" and "length ds \<le> 9" and "cs \<noteq> []" and "\<not> is_digit (hd cs)"
  shows "skip_atoi 0 (ds @ cs) = Some (int_of_digits ds, cs)"
proof -
  have "(10 :: int) ^ length ds \<le> 10 ^ 9" using assms(2) by (intro power_increasing) simp_all
  then have "int_of_digits ds + 48 < 2 ^ 31" using int_of_digits_bound [OF assms(1)] by simp
  then show ?thesis using skip_atoi_all [of ds cs 0] assms by (simp add: int_of_digits_def)
qed

lemma signed_directive:
  assumes fls: "set fls \<subseteq> flag_chars"
    and ws: "\<forall>c \<in> set ws. is_digit c" "length ws \<le> 9" "ws \<noteq> [] \<Longrightarrow> hd ws \<noteq> 48"
    and ps: "ps \<noteq> [] \<Longrightarrow> hd ps = 46 \<and> (\<forall>c \<in> set (tl ps). is_digit c) \<and> length (tl ps) \<le> 9 \<and> 0 < int_of_digits (tl ps)"
    and q: "q = [] \<or> q = [108]" and c: "c = 100 \<or> c = 105"
  obtains fl width precision where
    "fmt_directive (fls @ ws @ ps @ q @ [c]) [AInt w] = Some (CNum w 10 width precision (fl\<lparr>SIGN := True\<rparr>), [], [])"
    and "precision \<noteq> 0" and "int_of_digits ws \<le> max 0 width"
proof -
  have dg: "\<not> is_digit 100" "\<not> is_digit 105" "\<not> is_digit 108" "\<not> is_digit 46" "\<not> is_digit 42"
    "\<not> is_digit 32" "\<not> is_digit 35" "\<not> is_digit 43" "\<not> is_digit 45"
    by (simp_all add: is_digit_def digit_def)
  let ?r2 = "q @ [c]" and ?r1 = "ps @ q @ [c]"
  have r2: "?r2 \<noteq> []" "hd ?r2 \<in> {100, 105, 108}" using q c by auto
  have r1: "?r1 \<noteq> []" "hd ?r1 \<in> {46, 100, 105, 108}" using r2 ps by (cases ps; auto)+
  have r1d: "\<not> is_digit (hd ?r1)" "hd ?r1 \<noteq> 42" "hd ?r1 \<notin> flag_chars" using r1(2) dg by auto
  have r2d: "\<not> is_digit (hd ?r2)" "hd ?r2 \<noteq> 46" using r2(2) dg by auto
  have h: "hd (ws @ ?r1) \<notin> flag_chars"
    using ws(1,3) r1d(3) dg by (cases ws) auto
  obtain fl where fl: "fmt_parse_flags (fls @ ws @ ?r1) no_flags = (fl, ws @ ?r1)"
    using parse_flags_all [OF fls _ h, of no_flags] r1(1) by auto
  obtain width where width: "fmt_width (ws @ ?r1) fl [AInt w] = Some (width, fl, ?r1, [AInt w])"
    "int_of_digits ws \<le> max 0 width"
  proof (cases ws)
    case Nil
    obtain x xs where "?r1 = x # xs" using r1(1) by (cases ?r1) auto
    then show ?thesis using that [of "- 1"] Nil r1d by (simp add: fmt_width_def)
  next
    case (Cons x xs)
    then show ?thesis
      using that [of "int_of_digits ws"] skip_atoi_number [OF ws(1,2) r1(1) r1d(1)] ws(1) by (simp add: fmt_width_def)
  qed
  obtain precision where precision: "fmt_precision ?r1 [AInt w] = Some (precision, ?r2, [AInt w])" "precision \<noteq> 0"
  proof (cases ps)
    case Nil
    obtain x xs where "?r2 = x # xs" using r2(1) by (cases ?r2) auto
    then show ?thesis using that [of "- 1"] Nil r2d by (simp add: fmt_precision_def)
  next
    case (Cons x pd)
    then have pd: "x = 46" "\<forall>c \<in> set pd. is_digit c" "length pd \<le> 9" "0 < int_of_digits pd" using ps by auto
    then obtain y yd where y: "pd = y # yd" "is_digit y" by (cases pd) auto
    then show ?thesis
      using that [of "int_of_digits pd"] skip_atoi_number [OF pd(2,3) r2(1) r2d(1)] pd(1,4) Cons
      by (simp add: fmt_precision_def)
  qed
  obtain k where k: "fmt_qualifier ?r2 = (k, [c])" "k = 0 \<or> k = 108"
    using q c by (auto simp: fmt_qualifier_def)
  have "fmt_convert c k width precision fl [AInt w] = Some (CNum w 10 width precision (fl\<lparr>SIGN := True\<rparr>), [])"
    using c k(2) by (auto simp: fmt_convert_def fmt_base_def fmt_integer_def)
  then have "fmt_directive (fls @ ws @ ?r1) [AInt w] = Some (CNum w 10 width precision (fl\<lparr>SIGN := True\<rparr>), [], [])"
    by (simp add: fmt_directive_def fl width(1) precision(1) k(1))
  then show thesis using that width(2) precision(2) by blast
qed

text \<open>C39: what \<open>rt_vsnprintf\<close> leaves in the buffer for a \<^verbatim>\<open>%d\<close> or \<^verbatim>\<open>%i\<close>, with any flags, any width
  of up to nine digits and any precision of up to nine digits but 0, is read back as the number by \<^verbatim>\<open>atoi\<close>
  of the C library, if it fits the buffer; it is as long as the count returned, at least as long as the
  width, and ends with a zero.\<close>

theorem printed_number_parses:
  assumes "set fls \<subseteq> {32, 35, 43, 45, 48}"
    and "\<forall>c \<in> set ws. is_digit c" and "length ws \<le> 9" and "ws \<noteq> [] \<longrightarrow> hd ws \<noteq> 48"
    and "ps \<noteq> [] \<longrightarrow> hd ps = 46 \<and> (\<forall>c \<in> set (tl ps). is_digit c) \<and> length (tl ps) \<le> 9 \<and> 0 < int_of_digits (tl ps)"
    and "q = [] \<or> q = [108]" and "c = 100 \<or> c = 105" and "addr + sz \<ge> addr"
  shows "\<exists>m' n. rt_vsnprintf addr sz (37 # fls @ ws @ ps @ q @ [c]) [AInt w] m = Some (m', n) \<and> int_of_digits ws \<le> int n
    \<and> (n < unat sz \<longrightarrow> atoi (map m' [0..<n]) = Some (sint w) \<and> m' n = 0)"
proof -
  obtain fl width precision where d:
    "fmt_directive (fls @ ws @ ps @ q @ [c]) [AInt w] = Some (CNum w 10 width precision (fl\<lparr>SIGN := True\<rparr>), [], [])"
    and p: "precision \<noteq> 0" and width: "int_of_digits ws \<le> max 0 width"
    by (rule signed_directive [of fls ws ps q c w]) (use assms in auto)
  define t where "t = number_text w 10 width precision (fl\<lparr>SIGN := True\<rparr>)"
  have n: "atoi t = Some (sint w)" unfolding t_def by (rule number_text_parses) (use p in simp_all)
  have len: "int_of_digits ws \<le> int (length t)"
    using number_text_length [OF p, of w 10 width "fl\<lparr>SIGN := True\<rparr>", folded t_def] width by linarith
  have "format_text (37 # fls @ ws @ ps @ q @ [c]) [AInt w] = Some t" using d by (simp add: t_def)
  then obtain m' where "rt_vsnprintf addr sz (37 # fls @ ws @ ps @ q @ [c]) [AInt w] m = Some (m', length t)"
    "length t < unat sz \<longrightarrow> map m' [0..<length t] = t \<and> m' (length t) = 0"
    by (rule vsnprintf_fits [OF assms(8), where m = m])
  then show ?thesis using n len by auto
qed

section \<open>The callers\<close>

text \<open>\<^verbatim>\<open>rt_sprintf\<close> writes the whole text and a zero, whatever the size of the buffer.\<close>

theorem sprintf_correct:
  assumes t: "format_text fmt args = Some t" and room: "length t < unat (- 1 - addr)" and addr: "addr \<noteq> 0"
  shows "rt_sprintf addr fmt args m =
    Some (\<lambda>i. if i < length t then t ! i else if i = length t then 0 else m i, length t)"
proof -
  have "addr + - 1 < addr" using addr by (simp add: word_less_nat_alt unat_minus_one unat_gt_0)
  then have "rt_vsnprintf addr (- 1) fmt args m = Some ((\<lambda>i. if i < length t \<and> i < unat (- 1 - addr) then t ! i else m i)
      (length t := 0), length t)"
    using t room by (simp add: rt_vsnprintf_def fmt_loop_text puts_start Let_def)
  then show ?thesis using room by (auto simp: rt_sprintf_def rt_vsprintf_def fun_eq_iff)
qed

text \<open>\<^verbatim>\<open>rt_kprintf\<close> prints a text of up to 254 bytes; of a longer one it prints the first 254
  and the terminating zero of its buffer.\<close>

theorem kprintf_correct:
  assumes t: "format_text fmt args = Some t" and addr: "addr + 255 \<ge> addr"
  shows "\<exists>m'. rt_kprintf addr fmt args m = Some (if length t < 255 then t else take 254 t @ [0], m')"
proof -
  have u: "unat (255 :: u32) = 255" by simp
  have na: "\<not> addr + 255 < addr" using addr by simp
  let ?m = "\<lambda>i. if i < length t \<and> i < 255 then t ! i else m i"
  define m1 where "m1 = (if length t < 255 then ?m(length t := 0) else ?m(254 := 0))"
  have r: "rt_vsnprintf addr 255 fmt args m = Some (m1, length t)"
    using t u na by (simp add: rt_vsnprintf_def fmt_loop_text puts_start m1_def)
  have "map m1 [0..<(if length t > 255 then 255 else length t)] = (if length t < 255 then t else take 254 t @ [0])"
  proof (cases "length t < 255")
    case True
    then show ?thesis by (auto simp: m1_def intro!: nth_equalityI)
  next
    case False
    then have "(if length t > 255 then 255 else length t) = 255" by simp
    then show ?thesis using False by (auto simp: m1_def nth_append intro!: nth_equalityI)
  qed
  then show ?thesis using r unfolding rt_kprintf_def by (auto simp del: map_eq_conv)
qed

text \<open>\<^verbatim>\<open>%o\<close> prints the hexadecimal digits of a number, and a precision of 0 leaves every digit out.\<close>

theorem octal_is_hexadecimal:
  "format_text [37, 111] [AInt w] = format_text [37, 120] [AInt w] \<and>
   format_text [37, 46, 48, 117] [AInt w] = Some []"
proof (rule conjI)
  have nd: "number_digits l 8 n = number_digits l 16 n" for l n
    by (induction l "8 :: nat" n rule: number_digits.induct)
      (subst number_digits.simps, subst (2) number_digits.simps, simp add: divide_def)
  then have "number_text w 8 s p fl = number_text w 16 s p fl" for s p fl
    by (simp add: number_text_def number_body_def nd Let_def)
  moreover have dg: "\<not> is_digit 111" "\<not> is_digit 120" "is_digit 48" "\<not> is_digit 46" "\<not> is_digit 117"
    by (simp_all add: is_digit_def digit_def)
  ultimately show "format_text [37, 111] [AInt w] = format_text [37, 120] [AInt w]"
    by (simp add: fmt_directive_def fmt_width_def fmt_precision_def fmt_qualifier_def fmt_convert_def fmt_base_def
      fmt_integer_def)
  show "format_text [37, 46, 48, 117] [AInt w] = Some []" using dg
    by (simp add: fmt_directive_def fmt_width_def fmt_precision_def fmt_qualifier_def fmt_convert_def fmt_base_def
      fmt_integer_def no_flags_def number_text_def number_sign_def Let_def)
qed

section \<open>Examples\<close>

text \<open>\<^verbatim>\<open>"t=%04d"\<close> with \<open>-7\<close> is \<^verbatim>\<open>t=-007\<close>.\<close>

lemma demo_format: "format_text [116, 61, 37, 48, 52, 100] [AInt (- 7)] = Some [116, 61, 45, 48, 48, 55]"
proof -
  have dg: "\<not> is_digit 48 \<longleftrightarrow> False" "is_digit 52" "\<not> is_digit 100" by (simp_all add: is_digit_def digit_def)
  have replicate_2: "replicate 2 x = [x, x]" for x :: u8 by (simp add: eval_nat_numeral)
  have "number_digits l 10 7 = [55]" for l
    by (simp add: number_digits.simps [of l 10 7] number_digits.simps [of l 10 0] divide_def digit_char_def)
  then show ?thesis using dg
    by (simp add: fmt_directive_def fmt_width_def fmt_precision_def fmt_qualifier_def fmt_convert_def fmt_base_def
      fmt_integer_def no_flags_def number_text_def number_sign_def number_body_def number_abs_def digit_def replicate_2)
qed

lemma vsnprintf_correct_witness:
  "\<exists>m'. rt_vsnprintf 0x20000000 4 [116, 61, 37, 48, 52, 100] [AInt (- 7)] (\<lambda>i. 1) = Some (m', 6) \<and>
    map m' [0..<5] = [116, 61, 45, 0, 1]"
  using vsnprintf_correct [where addr = "0x20000000" and sz = "4" and fmt = "[116, 61, 37, 48, 52, 100]" and
    args = "[AInt (- 7)]" and m = "\<lambda>i. 1"] demo_format
  by (simp add: upt_rec)

text \<open>\<^verbatim>\<open>"%+-6.3d"\<close>.\<close>

lemma printed_number_parses_witness:
  "\<exists>m' n. rt_vsnprintf 0x20000000 64 [37, 43, 45, 54, 46, 51, 100] [AInt (- 7)] (\<lambda>i. 1) = Some (m', n) \<and> 6 \<le> n
    \<and> (n < 64 \<longrightarrow> atoi (map m' [0..<n]) = Some (- 7) \<and> m' n = 0)"
  using printed_number_parses [of "[43, 45]" "[54]" "[46, 51]" "[]" 100 "0x20000000" 64 "- 7" "\<lambda>i. 1"]
  by (simp add: is_digit_def digit_def int_of_digits_def)

lemma sprintf_correct_witness:
  "\<exists>m'. rt_sprintf 0x20000000 [116, 61, 37, 48, 52, 100] [AInt (- 7)] (\<lambda>i. 1) = Some (m', 6) \<and> m' 6 = 0"
  using sprintf_correct [OF demo_format, where addr = "0x20000000" and m = "\<lambda>i. 1"] by simp

lemma kprintf_correct_witness:
  "\<exists>m'. rt_kprintf 0x20000000 [116, 61, 37, 48, 52, 100] [AInt (- 7)] (\<lambda>i. 1) = Some ([116, 61, 45, 48, 48, 55], m')"
  using kprintf_correct [OF demo_format, where addr = "0x20000000" and m = "\<lambda>i. 1"] by simp

end
